(* ===== verification/Mcp_Prelude.thy ===== *)
theory Mcp_Prelude
  imports Complex_Main "HOL-Library.Word"
begin

text \<open>
  The prelude of the development: the machine types of the C code, the model of the
  allocator, C strings, and the generic lemmas on words, lists and association lists the
  component theories share.

  Machine types.  The code is built for LP64 targets: \<open>size_t\<close>, \<open>unsigned long\<close> and
  \<open>uintptr_t\<close> are 64 bits wide, \<open>uint32_t\<close> and \<open>unsigned int\<close> 32 bits.  They are words, so
  that \<open>+\<close>, \<open>-\<close> and \<open>*\<close> wrap as they do in C.

  Allocation.  Whether a request for memory succeeds is decided outside the program.  A
  value of type \<open>mem\<close> is the list of the answers still to come; once the list is empty every
  further request succeeds.  A run of the program makes finitely many requests, so every
  pattern of successes and failures of a run is the pattern of some \<open>mem\<close>, and the theorems,
  which hold for every \<open>mem\<close>, cover all of them.  The value \<open>[]\<close> is the run in which memory
  never runs out.
\<close>

unbundle bit_operations_syntax

section \<open>Machine types\<close>

type_synonym size_t = "64 word"
type_synonym u32 = "32 word"
type_synonym u8 = "8 word"

text \<open>
  The result of a call that may do what the C standard leaves undefined (an invalid free, an integer
  overflow, a conversion out of range): \<open>Undefined\<close> says nothing about what happens next.
\<close>

datatype 'a checked = Done 'a | Undefined

section \<open>The allocator\<close>

type_synonym mem = "bool list"

fun mem_alloc :: "mem \<Rightarrow> bool \<times> mem" where
  "mem_alloc [] = (True, [])"
| "mem_alloc (b # m) = (b, m)"

section \<open>C strings\<close>

text \<open>
  A C string is the list of its bytes up to the terminating NUL, which is not part of the
  list.  \<open>c_string\<close> cuts a byte sequence at its first NUL, which is what every function that
  takes a \<open>const char*\<close> sees of a buffer; \<open>c_str_ok\<close> says that a list has no NUL in it.
\<close>

abbreviation NUL :: char where
  "NUL \<equiv> CHR 0x00"

definition c_string :: "char list \<Rightarrow> string" where
  "c_string bs = takeWhile (\<lambda>c. c \<noteq> NUL) bs"

definition c_str_ok :: "string \<Rightarrow> bool" where
  "c_str_ok s \<longleftrightarrow> NUL \<notin> set s"

lemma c_string_id [simp]: "c_str_ok s \<Longrightarrow> c_string s = s"
  by (auto simp: c_string_def c_str_ok_def takeWhile_eq_all_conv)

lemma c_string_ok [simp]: "c_str_ok (c_string bs)"
  by (auto simp: c_string_def c_str_ok_def dest: set_takeWhileD)

lemma c_str_ok_Nil [simp]: "c_str_ok []"
  by (simp add: c_str_ok_def)

lemma c_str_ok_Cons [simp]: "c_str_ok (c # s) \<longleftrightarrow> c \<noteq> NUL \<and> c_str_ok s"
  by (auto simp: c_str_ok_def)

section \<open>Generic lemmas on words\<close>

named_theorems word_nat_simps \<open>move word arithmetic to the natural numbers\<close>

lemma unat_add_no_wrap:
  fixes a b :: "'a::len word"
  assumes "unat a + unat b < 2 ^ LENGTH('a)"
  shows "unat (a + b) = unat a + unat b"
  using assms by (simp add: unat_word_ariths)

lemma unat_mult_no_wrap:
  fixes a b :: "'a::len word"
  assumes "unat a * unat b < 2 ^ LENGTH('a)"
  shows "unat (a * b) = unat a * unat b"
  using assms by (simp add: unat_word_ariths)

lemma and_not_mask_eq_minus:
  fixes w :: "'a::len word"
  shows "w AND NOT (mask n) = w - take_bit n w"
proof -
  have "(w AND NOT (mask n)) + take_bit n w = (w AND NOT (mask n)) OR take_bit n w"
    by (rule disjunctive_add) (auto simp: bit_simps)
  also have "\<dots> = w"
    by (rule bit_word_eqI) (auto simp: bit_simps)
  finally show ?thesis
    by (simp add: algebra_simps)
qed

lemma unat_take_bit_mod:
  fixes w :: "'a::len word"
  shows "unat (take_bit n w) = unat w mod 2 ^ n"
  by (metis take_bit_eq_mod unsigned_take_bit_eq)

lemma unat_and_not_mask:
  fixes w :: "'a::len word"
  shows "unat (w AND NOT (mask n)) = unat w - unat w mod 2 ^ n"
proof -
  have le: "take_bit n w \<le> w"
    by (simp add: word_le_nat_alt unat_take_bit_mod)
  show ?thesis
    using unat_sub [OF le] by (simp add: and_not_mask_eq_minus unat_take_bit_mod)
qed

lemma sum_list_update_nat:
  fixes xs :: "nat list"
  assumes "i < length xs"
  shows "sum_list (xs[i := v]) + xs ! i = sum_list xs + v"
  using assms
proof (induction xs arbitrary: i)
  case Nil
  then show ?case by simp
next
  case (Cons x xs)
  then show ?case by (cases i) auto
qed

lemma concat_map_Nil [simp]: "concat (map (\<lambda>_. []) xs) = []"
  by (induction xs) auto

lemma concat_map_concat: "concat (map (\<lambda>xs. concat (map f xs)) xss) = concat (map f (concat xss))"
  by (induction xss) auto

end
