(* ===== verification/Mcp_Arena.thy ===== *)
theory Mcp_Arena
  imports Mcp_Prelude
begin

text \<open>
  The arena allocator, \<open>src/common/mcp_arena.c\<close>, and the thread-local arena of
  \<open>src/common/mcp_thread_local.c\<close>.  A chain of blocks is the list of its blocks with the
  current block first.  A pointer into a block is the block's data address plus an offset.
  All sizes are \<open>size_t\<close> words, so the wrap-around of the C arithmetic is in the model.
\<close>

section \<open>Blocks and arenas\<close>

record mcp_arena_block =
  block_addr :: size_t   \<comment> \<open>the address of the block structure itself\<close>
  block_data :: size_t
  block_size :: size_t
  block_used :: size_t

record mcp_arena =
  current_block :: "mcp_arena_block list"   \<comment> \<open>the chain from \<open>current_block\<close> along \<open>next\<close>\<close>
  default_block_size :: size_t
  total_allocated :: size_t
  total_block_size :: size_t
  block_count :: size_t

text \<open>
  The two allocators \<open>create_block\<close> calls, as the answers they give at the time of a call:
  the address of a fresh region of the requested size, or \<open>None\<close> for NULL.
\<close>

record arena_env =
  thread_cache_alloc :: "size_t \<Rightarrow> size_t option"
  sys_malloc :: "size_t \<Rightarrow> size_t option"

definition SMALL_BLOCK_SIZE :: size_t where "SMALL_BLOCK_SIZE = 256"
definition MEDIUM_BLOCK_SIZE :: size_t where "MEDIUM_BLOCK_SIZE = 1024"
definition LARGE_BLOCK_SIZE :: size_t where "LARGE_BLOCK_SIZE = 4096"
definition MCP_ARENA_DEFAULT_SIZE :: size_t where "MCP_ARENA_DEFAULT_SIZE = 32 * 1024"
definition SIZEOF_ARENA_BLOCK :: size_t where "SIZEOF_ARENA_BLOCK = 64"
definition BATCH_SIZE :: nat where "BATCH_SIZE = 8"
definition MAX_BLOCKS_TO_RESET :: nat where "MAX_BLOCKS_TO_RESET = 4"

definition MCP_ARENA_ALIGN_UP :: "size_t \<Rightarrow> size_t" where
  "MCP_ARENA_ALIGN_UP n = (n + 7) AND NOT 7"

definition create_block :: "arena_env \<Rightarrow> size_t \<Rightarrow> mcp_arena_block option" where
  "create_block env n =
     (case (case thread_cache_alloc env SIZEOF_ARENA_BLOCK of
              Some a \<Rightarrow> Some a
            | None \<Rightarrow> sys_malloc env SIZEOF_ARENA_BLOCK) of
        None \<Rightarrow> None
      | Some a \<Rightarrow>
          (let (data, sz) =
             (if n \<le> SMALL_BLOCK_SIZE then (thread_cache_alloc env SMALL_BLOCK_SIZE, SMALL_BLOCK_SIZE)
              else if n \<le> MEDIUM_BLOCK_SIZE then
                (thread_cache_alloc env MEDIUM_BLOCK_SIZE, MEDIUM_BLOCK_SIZE)
              else if n \<le> LARGE_BLOCK_SIZE then
                (thread_cache_alloc env LARGE_BLOCK_SIZE, LARGE_BLOCK_SIZE)
              else (sys_malloc env n, n))
           in case data of
                None \<Rightarrow> None
              | Some p \<Rightarrow>
                  Some \<lparr>block_addr = a, block_data = p, block_size = sz, block_used = 0\<rparr>))"

text \<open>The deallocations of \<open>destroy_block_chain\<close>, in the order the code performs them.\<close>

datatype free_op = ThreadCacheFree size_t size_t | SysFree size_t

definition free_block :: "mcp_arena_block \<Rightarrow> free_op list" where
  "free_block b =
     [if block_size b \<le> LARGE_BLOCK_SIZE then ThreadCacheFree (block_data b) (block_size b)
      else SysFree (block_data b),
      ThreadCacheFree (block_addr b) SIZEOF_ARENA_BLOCK]"

fun destroy_batches :: "mcp_arena_block list \<Rightarrow> mcp_arena_block list \<Rightarrow> free_op list" where
  "destroy_batches batch [] = []"
| "destroy_batches batch (b # bs) =
     (let batch' = batch @ [b]
      in if length batch' = BATCH_SIZE \<or> bs = []
         then concat (map free_block batch') @ destroy_batches [] bs
         else destroy_batches batch' bs)"

definition destroy_block_chain :: "mcp_arena_block list \<Rightarrow> free_op list" where
  "destroy_block_chain bs = destroy_batches [] bs"

section \<open>The arena operations\<close>

definition mcp_arena_init :: "size_t \<Rightarrow> mcp_arena" where
  "mcp_arena_init initial_size =
     \<lparr>current_block = [],
      default_block_size = (if initial_size = 0 then MCP_ARENA_DEFAULT_SIZE else initial_size),
      total_allocated = 0, total_block_size = 0, block_count = 0\<rparr>"

definition mcp_arena_cleanup :: "mcp_arena \<Rightarrow> free_op list \<times> mcp_arena" where
  "mcp_arena_cleanup arena =
     (destroy_block_chain (current_block arena),
      arena\<lparr>current_block := [], total_allocated := 0, total_block_size := 0, block_count := 0\<rparr>)"

definition mcp_arena_destroy :: "mcp_arena \<Rightarrow> free_op list \<times> mcp_arena" where
  "mcp_arena_destroy arena = mcp_arena_cleanup arena"

text \<open>The block size the slow path of \<open>mcp_arena_alloc\<close> asks for.\<close>

definition choose_block_size :: "size_t \<Rightarrow> size_t \<Rightarrow> size_t" where
  "choose_block_size dflt aligned =
     (if dflt < aligned then
        (if 4 * dflt < aligned then aligned
         else ((aligned + dflt - 1) div dflt) * dflt)
      else dflt)"

definition mcp_arena_alloc :: "arena_env \<Rightarrow> size_t \<Rightarrow> mcp_arena \<Rightarrow> size_t option \<times> mcp_arena" where
  "mcp_arena_alloc env req arena =
     (let n = (if req = 0 then 1 else req);
          aligned = MCP_ARENA_ALIGN_UP n;
          slow = (case create_block env (choose_block_size (default_block_size arena) aligned) of
                    None \<Rightarrow> (None, arena)
                  | Some b \<Rightarrow>
                      (Some (block_data b),
                       arena\<lparr>current_block := b\<lparr>block_used := aligned\<rparr> # current_block arena,
                             total_block_size := total_block_size arena + block_size b,
                             block_count := block_count arena + 1,
                             total_allocated := total_allocated arena + aligned\<rparr>))
      in case current_block arena of
           [] \<Rightarrow> slow
         | b # bs \<Rightarrow>
             (if block_used b + aligned \<le> block_size b
              then (Some (block_data b + block_used b),
                    arena\<lparr>current_block := b\<lparr>block_used := block_used b + aligned\<rparr> # bs,
                          total_allocated := total_allocated arena + aligned\<rparr>)
              else slow))"

definition mcp_arena_reset :: "mcp_arena \<Rightarrow> free_op list \<times> mcp_arena" where
  "mcp_arena_reset arena =
     (let bs = current_block arena;
          kept = map (\<lambda>b. b\<lparr>block_used := 0\<rparr>) (take MAX_BLOCKS_TO_RESET bs);
          rest = drop MAX_BLOCKS_TO_RESET bs
      in if bs = [] then ([], arena)
         else if rest \<noteq> [] \<and> of_nat (MAX_BLOCKS_TO_RESET * 2) < block_count arena
         then (destroy_block_chain rest,
               arena\<lparr>current_block := kept,
                     block_count := block_count arena - of_nat (length rest),
                     total_block_size := total_block_size arena - sum_list (map block_size rest),
                     total_allocated := 0\<rparr>)
         else ([], arena\<lparr>current_block := kept @ rest, total_allocated := 0\<rparr>))"

definition mcp_arena_get_stats :: "mcp_arena option \<Rightarrow> (size_t \<times> size_t \<times> size_t) option" where
  "mcp_arena_get_stats a =
     (case a of None \<Rightarrow> None
      | Some arena \<Rightarrow> Some (total_allocated arena, total_block_size arena, block_count arena))"

section \<open>The thread-local arena\<close>

text \<open>
  The thread-local part of \<open>mcp_thread_local.c\<close>: the flag \<open>tls_initialized\<close>, the arena the
  thread-specific key holds and the three counters of \<open>tls_stats\<close> the arena functions touch.
  Two answers come from outside: whether the arena structure can be allocated and whether
  \<open>pthread_setspecific\<close> succeeds.
\<close>

record arena_tls =
  tls_initialized :: bool
  tls_arena :: "mcp_arena option"
  arena_allocations :: size_t
  arena_resets :: size_t
  arena_destroys :: size_t

definition mcp_arena_get_current :: "arena_tls \<Rightarrow> mcp_arena option" where
  "mcp_arena_get_current tls = (if tls_initialized tls then tls_arena tls else None)"

definition mcp_arena_init_current_thread ::
    "bool \<Rightarrow> bool \<Rightarrow> size_t \<Rightarrow> arena_tls \<Rightarrow> int \<times> arena_tls" where
  "mcp_arena_init_current_thread alloc_ok set_ok initial_size tls =
     (if tls_initialized tls \<and> mcp_arena_get_current tls \<noteq> None then (0, tls)
      else if \<not> alloc_ok then (-1, tls)
      else let arena = mcp_arena_init initial_size in
        if default_block_size arena = 0 then (-1, tls)
        else if \<not> set_ok then (-1, tls)
        else (0, tls\<lparr>tls_arena := Some arena, arena_allocations := arena_allocations tls + 1,
                     tls_initialized := True\<rparr>))"

definition mcp_arena_exists_current_thread :: "arena_tls \<Rightarrow> bool" where
  "mcp_arena_exists_current_thread tls \<longleftrightarrow> mcp_arena_get_current tls \<noteq> None"

text \<open>\<open>mcp_arena_alloc\<close> called with a NULL arena: use the thread's arena, creating it if needed.\<close>

definition mcp_arena_alloc_null ::
    "arena_env \<Rightarrow> bool \<Rightarrow> bool \<Rightarrow> size_t \<Rightarrow> arena_tls \<Rightarrow> size_t option \<times> arena_tls" where
  "mcp_arena_alloc_null env alloc_ok set_ok req tls =
     (let (rc, tls1) = (if mcp_arena_get_current tls = None
                        then mcp_arena_init_current_thread alloc_ok set_ok MCP_ARENA_DEFAULT_SIZE tls
                        else (0, tls))
      in if rc \<noteq> 0 then (None, tls1)
         else case mcp_arena_get_current tls1 of
                None \<Rightarrow> (None, tls1)
              | Some arena \<Rightarrow>
                  (let (p, arena') = mcp_arena_alloc env req arena
                   in (p, tls1\<lparr>tls_arena := Some arena'\<rparr>)))"

definition mcp_arena_alloc_if_exists ::
    "arena_env \<Rightarrow> size_t \<Rightarrow> arena_tls \<Rightarrow> size_t option \<times> arena_tls" where
  "mcp_arena_alloc_if_exists env req tls =
     (case mcp_arena_get_current tls of
        None \<Rightarrow> (None, tls)
      | Some arena \<Rightarrow>
          (let (p, arena') = mcp_arena_alloc env req arena
           in (p, tls\<lparr>tls_arena := Some arena'\<rparr>)))"

definition mcp_arena_reset_current_thread :: "arena_tls \<Rightarrow> free_op list \<times> arena_tls" where
  "mcp_arena_reset_current_thread tls =
     (case mcp_arena_get_current tls of
        None \<Rightarrow> ([], tls)
      | Some arena \<Rightarrow>
          (let (fs, arena') = mcp_arena_reset arena
           in (fs, tls\<lparr>tls_arena := Some arena', arena_resets := arena_resets tls + 1\<rparr>)))"

definition mcp_arena_destroy_current_thread :: "arena_tls \<Rightarrow> free_op list \<times> arena_tls" where
  "mcp_arena_destroy_current_thread tls =
     (case mcp_arena_get_current tls of
        None \<Rightarrow> ([], tls)
      | Some arena \<Rightarrow>
          (let (fs, _) = mcp_arena_cleanup arena;
               d = arena_destroys tls + 1
           in (fs, tls\<lparr>tls_arena := None, arena_destroys := d,
                       tls_initialized := (if arena_allocations tls \<le> d then False
                                           else tls_initialized tls)\<rparr>)))"

section \<open>Alignment and block sizes\<close>

lemma unat_MCP_ARENA_ALIGN_UP:
  assumes "unat n + 7 < 2 ^ 64"
  shows "unat (MCP_ARENA_ALIGN_UP n) = (unat n + 7) div 8 * 8"
proof -
  have "(7 :: size_t) = mask 3" by (simp add: mask_eq_exp_minus_1)
  then have "unat (MCP_ARENA_ALIGN_UP n) = unat (n + 7) - unat (n + 7) mod 2 ^ 3"
    by (simp only: MCP_ARENA_ALIGN_UP_def unat_and_not_mask)
  also have "unat (n + 7) = unat n + 7"
    using assms unat_add_no_wrap [of n 7] by simp
  finally show ?thesis
    by (simp add: minus_mod_eq_div_mult)
qed

lemma align_up_bounds:
  assumes "unat n + 7 < 2 ^ 64"
  shows "unat n \<le> unat (MCP_ARENA_ALIGN_UP n)" "unat (MCP_ARENA_ALIGN_UP n) \<le> unat n + 7"
    "8 dvd unat (MCP_ARENA_ALIGN_UP n)"
  using assms by (simp_all add: unat_MCP_ARENA_ALIGN_UP)

lemma round_up_mult_bounds:
  fixes a d :: nat
  assumes "0 < d"
  shows "a \<le> (a + d - 1) div d * d" "(a + d - 1) div d * d \<le> a + d - 1"
proof -
  let ?x = "a + d - 1"
  have "?x = ?x div d * d + ?x mod d" and "?x mod d < d"
    using assms by simp_all
  then show "a \<le> ?x div d * d" by linarith
  show "?x div d * d \<le> ?x" by simp
qed

lemma choose_block_size_bounds:
  assumes "0 < unat d" "unat d \<le> 2 ^ 61" "unat a \<le> 2 ^ 62 + 7"
  shows "unat a \<le> unat (choose_block_size d a) \<and> unat (choose_block_size d a) < 2 ^ 63"
proof -
  have four: "unat (4 * d) = 4 * unat d"
    using assms(2) by (simp add: unat_word_ariths)
  have num: "unat (a + d - 1) = unat a + unat d - 1"
  proof -
    have "unat (a + d) = unat a + unat d"
      using assms by (intro unat_add_no_wrap) simp
    moreover from this assms(1) have "a + d \<noteq> 0" by (metis add_gr_0 unat_0 less_numeral_extra(3))
    ultimately show ?thesis by (simp add: unat_minus_one)
  qed
  have lt: "(unat a + unat d - 1) div unat d * unat d < 2 ^ 63"
  proof (rule order.strict_trans1 [OF round_up_mult_bounds(2) [OF assms(1)]])
    show "unat a + unat d - 1 < 2 ^ 63" using assms(2,3) by simp
  qed
  then have "unat ((a + d - 1) div d) * unat d < 2 ^ LENGTH(64)"
    by (simp only: unat_div_distrib num) simp
  from unat_mult_no_wrap [OF this]
  have up: "unat ((a + d - 1) div d * d) = (unat a + unat d - 1) div unat d * unat d"
    by (simp only: unat_div_distrib num)
  show ?thesis
    using round_up_mult_bounds(1) [OF assms(1), of "unat a"] lt assms
    by (auto simp: choose_block_size_def up four word_less_nat_alt)
qed

lemma create_block_SomeD:
  assumes "create_block env n = Some b"
  shows "n \<le> block_size b" "block_used b = 0"
    "block_size b = n \<or> block_size b \<le> LARGE_BLOCK_SIZE"
    "thread_cache_alloc env (block_size b) = Some (block_data b)
     \<or> sys_malloc env (block_size b) = Some (block_data b)"
  using assms
  by (auto simp: create_block_def Let_def SMALL_BLOCK_SIZE_def MEDIUM_BLOCK_SIZE_def
      LARGE_BLOCK_SIZE_def split: option.splits if_splits)

section \<open>The arena invariant\<close>

text \<open>
  The statistics agree with the chain, no block is used beyond its size, every offset handed
  out is a multiple of 8, and sizes stay in the range in which the \<open>size_t\<close> arithmetic of
  \<open>mcp_arena_alloc\<close> does not wrap.
\<close>

definition arena_inv :: "mcp_arena \<Rightarrow> bool" where
  "arena_inv a \<longleftrightarrow>
     0 < unat (default_block_size a) \<and> unat (default_block_size a) \<le> 2 ^ 61 \<and>
     block_count a = of_nat (length (current_block a)) \<and>
     total_block_size a = sum_list (map block_size (current_block a)) \<and>
     (\<forall>b \<in> set (current_block a). unat (block_used b) \<le> unat (block_size b) \<and>
        unat (block_size b) < 2 ^ 63 \<and> 8 dvd unat (block_used b))"

lemma arena_inv_init:
  "unat n \<le> 2 ^ 61 \<Longrightarrow> arena_inv (mcp_arena_init n)"
  by (auto simp: arena_inv_def mcp_arena_init_def MCP_ARENA_DEFAULT_SIZE_def unat_gt_0)

lemma arena_inv_cleanup:
  "arena_inv a \<Longrightarrow> arena_inv (snd (mcp_arena_cleanup a))"
  by (simp add: arena_inv_def mcp_arena_cleanup_def)

text \<open>The bytes a request takes: one at least, rounded up to a multiple of 8.\<close>

abbreviation arena_request :: "size_t \<Rightarrow> size_t" where
  "arena_request req \<equiv> MCP_ARENA_ALIGN_UP (if req = 0 then 1 else req)"

lemma arena_request_bounds:
  assumes "unat req \<le> 2 ^ 62"
  shows "max 1 (unat req) \<le> unat (arena_request req)" "unat (arena_request req) \<le> 2 ^ 62 + 7"
    "8 dvd unat (arena_request req)"
proof -
  let ?r = "if req = 0 then 1 else req :: size_t"
  have "unat ?r = max 1 (unat req)" "unat ?r \<le> 2 ^ 62"
    using assms by (auto simp: max_def unat_eq_zero Suc_le_eq)
  then show "max 1 (unat req) \<le> unat (arena_request req)" "unat (arena_request req) \<le> 2 ^ 62 + 7"
    "8 dvd unat (arena_request req)"
    using align_up_bounds [of ?r] by simp_all
qed

text \<open>What a call of \<open>mcp_arena_alloc\<close> does, as a relation on the chain.\<close>

lemma mcp_arena_alloc_cases:
  assumes "mcp_arena_alloc env req a = (Some p, a')" "arena_inv a" "unat req \<le> 2 ^ 62"
  obtains (fast) b bs where "current_block a = b # bs" "p = block_data b + block_used b"
      "unat (block_used b) + unat (arena_request req) \<le> unat (block_size b)"
      "unat (block_used b + arena_request req) = unat (block_used b) + unat (arena_request req)"
      "a' = a\<lparr>current_block := b\<lparr>block_used := block_used b + arena_request req\<rparr> # bs,
              total_allocated := total_allocated a + arena_request req\<rparr>"
  | (slow) b where
      "create_block env (choose_block_size (default_block_size a) (arena_request req)) = Some b"
      "p = block_data b" "unat (arena_request req) \<le> unat (block_size b)"
      "unat (block_size b) < 2 ^ 63"
      "a' = a\<lparr>current_block := b\<lparr>block_used := arena_request req\<rparr> # current_block a,
              total_block_size := total_block_size a + block_size b,
              block_count := block_count a + 1,
              total_allocated := total_allocated a + arena_request req\<rparr>"
proof (cases "\<exists>b bs. current_block a = b # bs \<and> block_used b + arena_request req \<le> block_size b")
  case True
  then obtain b bs where b: "current_block a = b # bs"
    "block_used b + arena_request req \<le> block_size b"
    by blast
  have "unat (block_used b) \<le> unat (block_size b)" "unat (block_size b) < 2 ^ 63"
    using assms(2) b(1) by (simp_all add: arena_inv_def)
  then have "unat (block_used b + arena_request req) = unat (block_used b) + unat (arena_request req)"
    using arena_request_bounds(2) [OF assms(3)] by (intro unat_add_no_wrap) simp
  with b assms(1) show thesis
    by (intro fast [of b bs]) (auto simp: mcp_arena_alloc_def Let_def word_le_nat_alt)
next
  case False
  let ?c = "choose_block_size (default_block_size a) (arena_request req)"
  have c: "unat (arena_request req) \<le> unat ?c" "unat ?c < 2 ^ 63"
    using choose_block_size_bounds [of "default_block_size a" "arena_request req"]
      arena_request_bounds(2) [OF assms(3)] assms(2)
    by (auto simp: arena_inv_def)
  from False assms(1) obtain b where b: "create_block env ?c = Some b" "p = block_data b"
    "a' = a\<lparr>current_block := b\<lparr>block_used := arena_request req\<rparr> # current_block a,
            total_block_size := total_block_size a + block_size b,
            block_count := block_count a + 1,
            total_allocated := total_allocated a + arena_request req\<rparr>"
    by (auto simp: mcp_arena_alloc_def Let_def split: list.splits option.splits if_splits)
  have "unat (arena_request req) \<le> unat (block_size b)"
    using c(1) create_block_SomeD(1) [OF b(1)] by (simp add: word_le_nat_alt)
  moreover have "unat (block_size b) < 2 ^ 63"
    using c(2) create_block_SomeD(3) [OF b(1)]
    by (auto simp: LARGE_BLOCK_SIZE_def word_le_nat_alt)
  ultimately show thesis using b by (intro slow)
qed

lemma mcp_arena_alloc_None:
  "fst (mcp_arena_alloc env req a) = None \<Longrightarrow> snd (mcp_arena_alloc env req a) = a"
  by (auto simp: mcp_arena_alloc_def Let_def split: list.splits option.splits if_splits)

lemma arena_inv_alloc:
  assumes "arena_inv a" "unat req \<le> 2 ^ 62"
  shows "arena_inv (snd (mcp_arena_alloc env req a))"
proof (cases "mcp_arena_alloc env req a")
  case (Pair q a')
  show ?thesis
  proof (cases q)
    case None
    with Pair assms(1) mcp_arena_alloc_None [of env req a] show ?thesis by simp
  next
    case (Some p)
    with Pair have eq: "mcp_arena_alloc env req a = (Some p, a')" by simp
    note n = arena_request_bounds [OF assms(2)]
    from eq assms show ?thesis
    proof (cases rule: mcp_arena_alloc_cases)
      case (fast b bs)
      with n assms(1) show ?thesis by (simp add: arena_inv_def eq)
    next
      case (slow b)
      with n assms(1) show ?thesis by (simp add: arena_inv_def eq)
    qed
  qed
qed

lemma sum_list_take_drop:
  "sum_list (map f (take n xs)) + sum_list (map f (drop n xs)) = (sum_list (map f xs) :: 'a::comm_monoid_add)"
  by (metis append_take_drop_id map_append sum_list_append)

lemma arena_inv_reset:
  assumes "arena_inv a"
  shows "arena_inv (snd (mcp_arena_reset a))"
proof -
  let ?bs = "current_block a" and ?k = MAX_BLOCKS_TO_RESET
  have len: "block_count a - of_nat (length (drop ?k ?bs)) = of_nat (length (take ?k ?bs))"
  proof -
    have "length ?bs = length (take ?k ?bs) + length (drop ?k ?bs)" by simp
    with assms show ?thesis by (metis add_diff_cancel_right' arena_inv_def of_nat_add)
  qed
  have tot: "sum_list (map block_size (take ?k ?bs)) + sum_list (map block_size (drop ?k ?bs))
             = total_block_size a"
    using assms by (simp add: sum_list_take_drop arena_inv_def)
  have sz: "total_block_size a - sum_list (map block_size (drop ?k ?bs))
            = sum_list (map block_size (take ?k ?bs))"
    using tot by (simp add: algebra_simps)
  have bl: "unat (block_used b) \<le> unat (block_size b) \<and> unat (block_size b) < 2 ^ 63 \<and>
        8 dvd unat (block_used b)" if "b \<in> set (take ?k ?bs) \<union> set (drop ?k ?bs)" for b
    using assms that by (metis Un_iff arena_inv_def in_set_dropD in_set_takeD)
  have len': "of_nat (min (length ?bs) ?k) + of_nat (length ?bs - ?k) = (of_nat (length ?bs) :: size_t)"
    by (simp add: min_def flip: of_nat_add)
  show ?thesis
    using assms len len' sz tot bl
    by (auto simp: mcp_arena_reset_def arena_inv_def Let_def comp_def)
qed

section \<open>Runs of an arena\<close>

text \<open>
  A region is a start address and a length.  \<open>fresh_env\<close> is what the two allocators promise:
  a region they return does not wrap around the address space and does not overlap the data
  of a block that is still in the chain.  A run records the chunks handed out since the last
  reset or cleanup.
\<close>

type_synonym region = "nat \<times> nat"

definition disjoint_regions :: "region \<Rightarrow> region \<Rightarrow> bool" where
  "disjoint_regions r q \<longleftrightarrow> fst r + snd r \<le> fst q \<or> fst q + snd q \<le> fst r"

definition block_region :: "mcp_arena_block \<Rightarrow> region" where
  "block_region b = (unat (block_data b), unat (block_size b))"

definition inside :: "region \<Rightarrow> region \<Rightarrow> bool" where
  "inside r q \<longleftrightarrow> fst q \<le> fst r \<and> fst r + snd r \<le> fst q + snd q"

definition fresh_env :: "arena_env \<Rightarrow> mcp_arena \<Rightarrow> bool" where
  "fresh_env env a \<longleftrightarrow>
     (\<forall>n p. thread_cache_alloc env n = Some p \<or> sys_malloc env n = Some p \<longrightarrow>
        unat p + unat n \<le> 2 ^ 64 \<and>
        (\<forall>b \<in> set (current_block a). disjoint_regions (unat p, unat n) (block_region b)))"

inductive arena_run :: "mcp_arena \<Rightarrow> region list \<Rightarrow> bool" where
  init: "unat n \<le> 2 ^ 61 \<Longrightarrow> arena_run (mcp_arena_init n) []"
| alloc: "arena_run a cs \<Longrightarrow> unat req \<le> 2 ^ 62 \<Longrightarrow> fresh_env env a \<Longrightarrow>
    mcp_arena_alloc env req a = (Some p, a') \<Longrightarrow>
    arena_run a' ((unat p, max 1 (unat req)) # cs)"
| alloc_fails: "arena_run a cs \<Longrightarrow> mcp_arena_alloc env req a = (None, a') \<Longrightarrow> arena_run a' cs"
| reset: "arena_run a cs \<Longrightarrow> arena_run (snd (mcp_arena_reset a)) []"
| cleanup: "arena_run a cs \<Longrightarrow> arena_run (snd (mcp_arena_cleanup a)) []"

text \<open>The used part of a block, and the strengthened invariant of a run.\<close>

definition used_region :: "mcp_arena_block \<Rightarrow> region" where
  "used_region b = (unat (block_data b), unat (block_used b))"

definition chunks_inv :: "mcp_arena_block list \<Rightarrow> region list \<Rightarrow> bool" where
  "chunks_inv bs cs \<longleftrightarrow>
     sorted_wrt disjoint_regions (map block_region bs) \<and>
     (\<forall>b \<in> set bs. unat (block_data b) + unat (block_size b) \<le> 2 ^ 64) \<and>
     (\<forall>c \<in> set cs. \<exists>b \<in> set bs. inside c (used_region b)) \<and>
     sorted_wrt disjoint_regions cs"

lemma disjoint_regions_sym: "disjoint_regions r q \<longleftrightarrow> disjoint_regions q r"
  by (auto simp: disjoint_regions_def)

lemma disjoint_inside:
  "disjoint_regions r q \<Longrightarrow> inside r' r \<Longrightarrow> inside q' q \<Longrightarrow> disjoint_regions r' q'"
  by (auto simp: disjoint_regions_def inside_def)

lemma inside_used_block:
  "unat (block_used b) \<le> unat (block_size b) \<Longrightarrow> inside c (used_region b) \<Longrightarrow> inside c (block_region b)"
  by (auto simp: inside_def used_region_def block_region_def)

lemma chunks_inv_fast:
  assumes inv: "chunks_inv (b # bs) cs"
    and used: "\<forall>b' \<in> set (b # bs). unat (block_used b') \<le> unat (block_size b')"
    and fits: "unat (block_used b) + n \<le> unat (block_size b)" "0 < n" "l \<le> n" "0 < l"
    and u: "unat u = unat (block_used b) + n"
  shows "chunks_inv (b\<lparr>block_used := u\<rparr> # bs)
           ((unat (block_data b + block_used b), l) # cs)"
proof -
  have "unat (block_data b) + unat (block_size b) \<le> 2 ^ 64"
    using inv by (simp add: chunks_inv_def)
  then have addr: "unat (block_data b + block_used b) = unat (block_data b) + unat (block_used b)"
    using fits by (intro unat_add_no_wrap) simp
  let ?c = "(unat (block_data b + block_used b), l)"
  have c_in: "inside ?c (block_region b)"
    using fits addr by (auto simp: inside_def block_region_def)
  have "disjoint_regions ?c c" if c: "c \<in> set cs" for c
  proof -
    obtain b' where b': "b' \<in> set (b # bs)" "inside c (used_region b')"
      using inv c unfolding chunks_inv_def by blast
    show ?thesis
    proof (cases "inside c (used_region b)")
      case True
      then show ?thesis using addr
        by (auto simp: disjoint_regions_def inside_def used_region_def)
    next
      case False
      with b' have "b' \<in> set bs" by auto
      with inv have "disjoint_regions (block_region b) (block_region b')"
        by (simp add: chunks_inv_def)
      moreover have "inside c (block_region b')"
        using b' used by (intro inside_used_block) auto
      ultimately show ?thesis using c_in by (blast intro: disjoint_inside)
    qed
  qed
  then show ?thesis
    using inv addr fits u
    by (fastforce simp: chunks_inv_def inside_def used_region_def block_region_def)
qed

lemma chunks_inv_slow:
  assumes inv: "chunks_inv bs cs"
    and used: "\<forall>b' \<in> set bs. unat (block_used b') \<le> unat (block_size b')"
    and fresh: "unat (block_data b) + unat (block_size b) \<le> 2 ^ 64"
      "\<forall>b' \<in> set bs. disjoint_regions (block_region b) (block_region b')"
    and fits: "unat n \<le> unat (block_size b)" "l \<le> unat n"
  shows "chunks_inv (b\<lparr>block_used := n\<rparr> # bs) ((unat (block_data b), l) # cs)"
proof -
  have c_in: "inside (unat (block_data b), l) (block_region b)"
    using fits by (auto simp: inside_def block_region_def)
  have "disjoint_regions (unat (block_data b), l) c" if c: "c \<in> set cs" for c
  proof -
    obtain b' where "b' \<in> set bs" "inside c (used_region b')"
      using inv c by (auto simp: chunks_inv_def)
    then have "disjoint_regions (block_region b) (block_region b')" "inside c (block_region b')"
      using fresh used by (auto intro: inside_used_block)
    with c_in show ?thesis by (blast intro: disjoint_inside)
  qed
  then show ?thesis
    using inv fresh fits
    by (auto simp: chunks_inv_def inside_def used_region_def block_region_def)
qed

lemma chunks_inv_alloc:
  assumes "arena_inv a" "chunks_inv (current_block a) cs" "unat req \<le> 2 ^ 62" "fresh_env env a"
    and eq: "mcp_arena_alloc env req a = (Some p, a')"
  shows "chunks_inv (current_block a') ((unat p, max 1 (unat req)) # cs)"
  using eq assms(1,3)
proof (cases rule: mcp_arena_alloc_cases)
  case (fast b bs)
  then show ?thesis
    using assms(1,2) arena_request_bounds(1) [OF assms(3)]
    by (auto intro!: chunks_inv_fast [where n = "unat (arena_request req)"] simp: arena_inv_def)
next
  case (slow b)
  from create_block_SomeD(4) [OF slow(1)] assms(4)
  have "unat (block_data b) + unat (block_size b) \<le> 2 ^ 64"
    "\<forall>b' \<in> set (current_block a). disjoint_regions (block_region b) (block_region b')"
    by (auto simp: fresh_env_def block_region_def)
  then show ?thesis
    using slow assms(1,2) arena_request_bounds(1) [OF assms(3)]
    by (auto intro!: chunks_inv_slow simp: arena_inv_def)
qed

lemma chunks_inv_Nil_sublist:
  assumes "chunks_inv bs cs" "sorted_wrt disjoint_regions (map block_region bs')"
    "block_region ` set bs' \<subseteq> block_region ` set bs"
  shows "chunks_inv bs' []"
proof -
  have "unat (block_data b) + unat (block_size b) \<le> 2 ^ 64" if "b \<in> set bs'" for b
  proof -
    from that assms(3) obtain b0 where "b0 \<in> set bs" "block_region b = block_region b0" by blast
    with assms(1) show ?thesis by (auto simp: chunks_inv_def block_region_def)
  qed
  with assms(2) show ?thesis by (simp add: chunks_inv_def)
qed

lemma block_region_reset [simp]: "block_region (b\<lparr>block_used := u\<rparr>) = block_region b"
  by (simp add: block_region_def)

lemma chunks_inv_reset:
  assumes "chunks_inv (current_block a) cs"
  shows "chunks_inv (current_block (snd (mcp_arena_reset a))) []"
proof -
  let ?bs = "current_block a" and ?k = MAX_BLOCKS_TO_RESET
  have s: "sorted_wrt disjoint_regions (map block_region ?bs)"
    using assms by (simp add: chunks_inv_def)
  have eq: "map block_region (map (\<lambda>b. b\<lparr>block_used := 0\<rparr>) (take ?k ?bs)) = map block_region (take ?k ?bs)"
    by simp
  have "map block_region ?bs = map block_region (take ?k ?bs) @ map block_region (drop ?k ?bs)"
    by (metis append_take_drop_id map_append)
  with s have s2: "sorted_wrt disjoint_regions (map block_region (take ?k ?bs) @ map block_region (drop ?k ?bs))"
    by simp
  then have "sorted_wrt disjoint_regions (map block_region (current_block (snd (mcp_arena_reset a))))"
    using s eq by (auto simp: mcp_arena_reset_def Let_def sorted_wrt_append comp_def)
  moreover have "block_region ` set (current_block (snd (mcp_arena_reset a))) \<subseteq> block_region ` set ?bs"
    by (auto simp: mcp_arena_reset_def Let_def image_Un image_image dest: in_set_takeD in_set_dropD)
  ultimately show ?thesis by (rule chunks_inv_Nil_sublist [OF assms])
qed

lemma arena_run_inv: "arena_run a cs \<Longrightarrow> arena_inv a \<and> chunks_inv (current_block a) cs"
proof (induction rule: arena_run.induct)
  case (init n)
  then show ?case by (simp add: arena_inv_init) (simp add: chunks_inv_def mcp_arena_init_def)
next
  case (alloc a cs req env p a')
  then have "arena_inv a'" using arena_inv_alloc [of a req env] by simp
  moreover have "chunks_inv (current_block a') ((unat p, max 1 (unat req)) # cs)"
    using alloc.IH by (intro chunks_inv_alloc [OF _ _ alloc.hyps(2,3,4)]) auto
  ultimately show ?case by simp
next
  case (alloc_fails a cs env req a')
  then show ?case using mcp_arena_alloc_None [of env req a] by simp
next
  case (reset a cs)
  then show ?case by (auto intro: arena_inv_reset chunks_inv_reset)
next
  case (cleanup a cs)
  then show ?case by (auto intro: arena_inv_cleanup) (simp add: chunks_inv_def mcp_arena_cleanup_def)
qed

section \<open>Properties\<close>

text \<open>Claim C19.  Along every run of an arena created for blocks of up to $2^{61}$ bytes, whose requests
  are of up to $2^{62}$ bytes, and whose allocators answer with regions that end below $2^{64}$ and
  overlap no block of the arena, any two chunks handed out by \<open>mcp_arena_alloc\<close> since the last reset or cleanup are disjoint, and every one of
  them lies inside the data of a block of the chain.  The bound on the requests is needed: see
  \<open>arena_alloc_overflow\<close>.\<close>

theorem arena_chunks_disjoint:
  assumes "arena_run a cs"
  shows "(\<forall>i j. i < j \<and> j < length cs \<longrightarrow> disjoint_regions (cs ! i) (cs ! j)) \<and>
         (\<forall>c \<in> set cs. \<exists>b \<in> set (current_block a). inside c (block_region b))"
proof -
  have inv: "arena_inv a" "chunks_inv (current_block a) cs"
    using arena_run_inv [OF assms] by simp_all
  have "\<exists>b \<in> set (current_block a). inside c (block_region b)" if "c \<in> set cs" for c
  proof -
    from that inv(2) obtain b where b: "b \<in> set (current_block a)" "inside c (used_region b)"
      unfolding chunks_inv_def by blast
    with inv(1) have "inside c (block_region b)" by (auto intro: inside_used_block simp: arena_inv_def)
    with b(1) show ?thesis ..
  qed
  with inv(2) show ?thesis by (auto simp: chunks_inv_def sorted_wrt_nth_less)
qed

definition arena_example_env :: arena_env where
  "arena_example_env =
     \<lparr>thread_cache_alloc = (\<lambda>n. if n = 64 then Some 4096 else if n = 256 then Some 65536 else None),
      sys_malloc = (\<lambda>n. None)\<rparr>"

definition arena_empty_env :: arena_env where
  "arena_empty_env = \<lparr>thread_cache_alloc = (\<lambda>n. None), sys_malloc = (\<lambda>n. None)\<rparr>"

definition arena_example :: mcp_arena where
  "arena_example =
     snd (mcp_arena_alloc arena_empty_env 20
       (snd (mcp_arena_alloc arena_example_env 10 (mcp_arena_init 256))))"

lemmas arena_eval = mcp_arena_alloc_def mcp_arena_init_def create_block_def choose_block_size_def
  MCP_ARENA_ALIGN_UP_def arena_example_env_def arena_empty_env_def SIZEOF_ARENA_BLOCK_def
  SMALL_BLOCK_SIZE_def MEDIUM_BLOCK_SIZE_def LARGE_BLOCK_SIZE_def MCP_ARENA_DEFAULT_SIZE_def

lemma arena_example_run: "arena_run arena_example [(65552, 20), (65536, 10)]"
proof -
  let ?a0 = "mcp_arena_init 256"
  let ?a1 = "snd (mcp_arena_alloc arena_example_env 10 ?a0)"
  have 0: "arena_run ?a0 []" by (rule arena_run.init) simp
  have 1: "arena_run ?a1 [(65536, 10)]"
    using arena_run.alloc [OF 0, of 10 arena_example_env 65536 ?a1]
    by (simp add: fresh_env_def arena_eval)
  show ?thesis
    using arena_run.alloc [OF 1, of 20 arena_empty_env 65552 arena_example]
    by (simp add: fresh_env_def arena_example_def arena_eval)
qed

theorem arena_chunks_disjoint_witness:
  "disjoint_regions (65552, 20) (65536, 10) \<and>
   (\<exists>b \<in> set (current_block arena_example). inside (65552, 20) (block_region b)) \<and>
   (\<exists>b \<in> set (current_block arena_example). inside (65536, 10) (block_region b))"
  using arena_chunks_disjoint [OF arena_example_run] spec [OF spec [OF conjunct1 [OF arena_chunks_disjoint [OF arena_example_run]]], of 0 1]
  by simp

text \<open>Along every run the statistics \<open>mcp_arena_get_stats\<close> reports agree with the
  chain (number of blocks, sum of their sizes) and no block is used beyond its size; in
  particular the truncation in \<open>mcp_arena_reset\<close> keeps them in step.\<close>

theorem arena_stats_agree:
  assumes "arena_run a cs"
  shows "(\<exists>t. mcp_arena_get_stats (Some a)
            = Some (t, sum_list (map block_size (current_block a)),
                    of_nat (length (current_block a)))) \<and>
         (\<forall>b. b \<in> set (current_block a) \<longrightarrow> unat (block_used b) \<le> unat (block_size b))"
  using arena_run_inv [OF assms] by (auto simp: mcp_arena_get_stats_def arena_inv_def)

theorem arena_stats_agree_witness:
  "\<exists>t. mcp_arena_get_stats (Some arena_example)
     = Some (t, sum_list (map block_size (current_block arena_example)),
             of_nat (length (current_block arena_example)))"
  using arena_stats_agree [OF arena_example_run] by blast

lemma destroy_batches_eq:
  "bs \<noteq> [] \<Longrightarrow> destroy_batches batch bs = concat (map free_block (batch @ bs))"
proof (induction batch bs rule: destroy_batches.induct)
  case (1 batch)
  then show ?case by simp
next
  case (2 batch b bs)
  then show ?case by (cases "bs = []") (auto simp: Let_def)
qed

text \<open>\<open>destroy_block_chain\<close>, which collects blocks in batches of 8, frees the data and
  the structure of every block of the chain exactly once, in chain order.\<close>

theorem destroy_block_chain_each_once:
  "destroy_block_chain bs = concat (map free_block bs)"
  by (cases "bs = []") (simp_all add: destroy_block_chain_def destroy_batches_eq)

text \<open>The size arithmetic of \<open>mcp_arena_alloc\<close> is not checked for overflow.  From an arena
  with 16 bytes in use, a request of $2^{64}-16$ bytes is granted although the block has 256 bytes
  (\<open>used + aligned_size\<close> wraps to 0), it resets \<open>used\<close> to 0, and the next request is handed memory
  that is already in use; a request of $2^{64}-1$ bytes is rounded to 0 bytes and granted too.\<close>

theorem arena_alloc_overflow:
  "let a = snd (mcp_arena_alloc arena_example_env 16 (mcp_arena_init 256)) in
     fst (mcp_arena_alloc arena_empty_env (- 16) a) = Some 65552 \<and>
     fst (mcp_arena_alloc arena_empty_env 16
            (snd (mcp_arena_alloc arena_empty_env (- 16) a))) = Some 65536 \<and>
     mcp_arena_alloc arena_empty_env (- 1) a = (Some 65552, a)"
  by (simp add: Let_def arena_eval)

end
