(* ===== verification/Mcp_Deque.thy ===== *)
theory Mcp_Deque
  imports Mcp_Prelude "HOL-Library.Multiset"
begin

text \<open>
  The work-stealing deque of the thread pool, \<open>src/common/mcp_thread_pool_deque.c\<close>, as a concurrent
  step relation.

  The shared memory is the record \<open>deque\<close>.  Each function is split at its accesses to memory that
  another thread writes: between two of them any other thread may run.  The code separates these
  accesses by full barriers, so that the interleavings of the accesses are its behaviours.  The
  buffer is written by \<open>deque_push_bottom\<close> only.  \<open>top\<close> and \<open>bottom\<close> count from 0 and are natural
  numbers here: the signed comparisons of the code agree with them below \<open>2 ^ 63\<close> pushes.  The
  capacity is the length of the buffer; \<open>capacity_mask\<close> is the capacity, a power of two, minus one, so
  \<open>b & capacity_mask\<close> is \<open>b mod capacity\<close>.

  One thread, the owner, pushes and pops; any number of thieves steal.  The history variables
  \<open>pushed\<close> and \<open>taken\<close> record the tasks pushed and the tasks returned by a pop or a steal.
\<close>

section \<open>Shared state and atomic steps\<close>

record 'a deque =
  dq_buffer :: "'a list"
  dq_top :: nat
  dq_bottom :: nat

definition dq_index :: "'a deque \<Rightarrow> nat \<Rightarrow> nat" where
  "dq_index dq i = i mod length (dq_buffer dq)"

definition dq_read :: "'a deque \<Rightarrow> nat \<Rightarrow> 'a" where
  "dq_read dq i = dq_buffer dq ! dq_index dq i"

text \<open>\<open>deque_push_bottom\<close>: the write of the slot of the loaded \<open>bottom\<close>, then the new \<open>bottom\<close>.\<close>

definition push_write :: "'a deque \<Rightarrow> nat \<Rightarrow> 'a \<Rightarrow> 'a deque" where
  "push_write dq b task = dq\<lparr>dq_buffer := (dq_buffer dq)[dq_index dq b := task]\<rparr>"

definition push_commit :: "'a deque \<Rightarrow> nat \<Rightarrow> 'a deque" where
  "push_commit dq b = dq\<lparr>dq_bottom := b + 1\<rparr>"

definition compare_and_swap_top :: "'a deque \<Rightarrow> nat \<Rightarrow> nat \<Rightarrow> bool \<times> 'a deque" where
  "compare_and_swap_top dq expected desired =
     (if dq_top dq = expected then (True, dq\<lparr>dq_top := desired\<rparr>) else (False, dq))"

text \<open>Where the owner is: between calls, or inside a push or a pop after one of its accesses.\<close>

datatype 'a owner_pc =
    Idle
  | PushWrote nat 'a         \<comment> \<open>slot written, \<open>bottom\<close> still to be incremented\<close>
  | PopDecremented nat       \<comment> \<open>\<open>bottom\<close> written, \<open>top\<close> to be read\<close>
  | PopLast nat 'a           \<comment> \<open>last item read, \<open>top\<close> to be swapped\<close>
  | PopSwapped nat           \<comment> \<open>\<open>bottom = t + 1\<close> to be written\<close>
  | PopEmpty nat             \<comment> \<open>\<open>bottom = t\<close> to be written\<close>

datatype 'a thief_pc =
    NotStealing
  | StealTop nat             \<comment> \<open>\<open>top\<close> read, \<open>bottom\<close> to be read\<close>
  | StealBoth nat            \<comment> \<open>\<open>t < b\<close> seen, the task to be read\<close>
  | StealRead nat 'a         \<comment> \<open>task read, \<open>top\<close> to be swapped\<close>

record 'a pool_state =
  dq :: "'a deque"
  owner :: "'a owner_pc"
  thieves :: "nat \<Rightarrow> 'a thief_pc"
  pushed :: "'a list"
  taken :: "'a list"

text \<open>The second half of \<open>deque_pop_bottom\<close>: reading \<open>top\<close>, with the task where there is one.\<close>

definition pop_read_top :: "'a pool_state \<Rightarrow> nat \<Rightarrow> 'a pool_state" where
  "pop_read_top s b =
     (let t = dq_top (dq s); task = dq_read (dq s) b
      in if b < t then s\<lparr>owner := PopEmpty t\<rparr>
         else if b = t then s\<lparr>owner := PopLast t task\<rparr>
         else s\<lparr>owner := Idle, taken := task # taken s\<rparr>)"

definition pop_swap :: "'a pool_state \<Rightarrow> nat \<Rightarrow> 'a \<Rightarrow> 'a pool_state" where
  "pop_swap s t task =
     (let (ok, d) = compare_and_swap_top (dq s) t (t + 1)
      in s\<lparr>dq := d, owner := PopSwapped t, taken := (if ok then task # taken s else taken s)\<rparr>)"

definition steal_swap :: "'a pool_state \<Rightarrow> nat \<Rightarrow> nat \<Rightarrow> 'a \<Rightarrow> 'a pool_state" where
  "steal_swap s i t task =
     (let (ok, d) = compare_and_swap_top (dq s) t (t + 1)
      in s\<lparr>dq := d, thieves := (thieves s)(i := NotStealing),
           taken := (if ok then task # taken s else taken s)\<rparr>)"

inductive dq_step :: "'a pool_state \<Rightarrow> 'a pool_state \<Rightarrow> bool" where
  push_write: "owner s = Idle \<Longrightarrow> b = dq_bottom (dq s) \<Longrightarrow>
     dq_step s (s\<lparr>dq := push_write (dq s) b task, owner := PushWrote b task\<rparr>)"
| push_commit: "owner s = PushWrote b task \<Longrightarrow>
     dq_step s (s\<lparr>dq := push_commit (dq s) b, owner := Idle, pushed := task # pushed s\<rparr>)"
| pop_zero: "owner s = Idle \<Longrightarrow> dq_bottom (dq s) = 0 \<Longrightarrow> dq_step s s"
| pop_decrement: "owner s = Idle \<Longrightarrow> dq_bottom (dq s) = Suc b \<Longrightarrow>
     dq_step s (s\<lparr>dq := (dq s)\<lparr>dq_bottom := b\<rparr>, owner := PopDecremented b\<rparr>)"
| pop_read: "owner s = PopDecremented b \<Longrightarrow> dq_step s (pop_read_top s b)"
| pop_cas: "owner s = PopLast t task \<Longrightarrow> dq_step s (pop_swap s t task)"
| pop_reset: "owner s = PopSwapped t \<Longrightarrow>
     dq_step s (s\<lparr>dq := (dq s)\<lparr>dq_bottom := t + 1\<rparr>, owner := Idle\<rparr>)"
| pop_empty: "owner s = PopEmpty t \<Longrightarrow>
     dq_step s (s\<lparr>dq := (dq s)\<lparr>dq_bottom := t\<rparr>, owner := Idle\<rparr>)"
| steal_top: "thieves s i = NotStealing \<Longrightarrow>
     dq_step s (s\<lparr>thieves := (thieves s)(i := StealTop (dq_top (dq s)))\<rparr>)"
| steal_bottom: "thieves s i = StealTop t \<Longrightarrow>
     dq_step s (s\<lparr>thieves := (thieves s)(i := if dq_bottom (dq s) \<le> t then NotStealing else StealBoth t)\<rparr>)"
| steal_read: "thieves s i = StealBoth t \<Longrightarrow>
     dq_step s (s\<lparr>thieves := (thieves s)(i := StealRead t (dq_read (dq s) t))\<rparr>)"
| steal_cas: "thieves s i = StealRead t task \<Longrightarrow> dq_step s (steal_swap s i t task)"

definition dq_start :: "'a list \<Rightarrow> 'a pool_state" where
  "dq_start buf = \<lparr>dq = \<lparr>dq_buffer = buf, dq_top = 0, dq_bottom = 0\<rparr>, owner = Idle,
     thieves = (\<lambda>_. NotStealing), pushed = [], taken = []\<rparr>"

text \<open>
  The step is not a push onto a full deque.  The code does not check this; the number of tasks the
  clients of the pool have outstanding decides it.
\<close>

definition push_has_room :: "'a pool_state \<Rightarrow> 'a pool_state \<Rightarrow> bool" where
  "push_has_room s s' = (case (owner s, owner s') of
       (Idle, PushWrote b _) \<Rightarrow> b - dq_top (dq s) < length (dq_buffer (dq s)) | _ \<Rightarrow> True)"

text \<open>
  The runs of a deque: every interleaving of the steps of the owner and the thieves.  The flag
  \<open>overrun\<close> records whether a push has found the deque full so far.
\<close>

inductive dq_run :: "'a list \<Rightarrow> bool \<Rightarrow> 'a pool_state \<Rightarrow> bool" for buf where
  start: "dq_run buf False (dq_start buf)"
| step: "dq_run buf overrun s \<Longrightarrow> dq_step s s' \<Longrightarrow> dq_run buf (overrun \<or> \<not> push_has_room s s') s'"

lemma dq_run_all: "dq_step\<^sup>*\<^sup>* (dq_start buf) s \<longleftrightarrow> (\<exists>overrun. dq_run buf overrun s)"
proof
  assume "dq_step\<^sup>*\<^sup>* (dq_start buf) s"
  then show "\<exists>overrun. dq_run buf overrun s"
    by (induction rule: rtranclp_induct) (blast intro: dq_run.intros)+
next
  assume "\<exists>overrun. dq_run buf overrun s"
  then obtain overrun where "dq_run buf overrun s" ..
  then show "dq_step\<^sup>*\<^sup>* (dq_start buf) s"
    by (induction rule: dq_run.induct) (auto intro: rtranclp.rtrancl_into_rtrancl)
qed

lemma dq_run_room: "dq_run buf overrun s \<Longrightarrow> dq_step s s' \<Longrightarrow> push_has_room s s' \<Longrightarrow> dq_run buf overrun s'"
  using dq_run.step [of buf overrun s s'] by simp

lemma dq_run_full: "dq_run buf overrun s \<Longrightarrow> dq_step s s' \<Longrightarrow> \<not> push_has_room s s' \<Longrightarrow> dq_run buf True s'"
  using dq_run.step [of buf overrun s s'] by simp

section \<open>Invariant\<close>

text \<open>The end of the live range: the position behind the last task that nobody has taken.\<close>

definition dq_end :: "'a pool_state \<Rightarrow> nat" where
  "dq_end s = (case owner s of
       PopDecremented b \<Rightarrow> b + 1 | PopLast t _ \<Rightarrow> t + 1 | PopSwapped t \<Rightarrow> t + 1 | PopEmpty t \<Rightarrow> t
     | _ \<Rightarrow> dq_bottom (dq s))"

definition live :: "'a pool_state \<Rightarrow> 'a list" where
  "live s = map (dq_read (dq s)) [dq_top (dq s)..<dq_end s]"

definition owner_ok :: "'a pool_state \<Rightarrow> bool" where
  "owner_ok s = (let top = dq_top (dq s); bottom = dq_bottom (dq s) in
     case owner s of
       Idle \<Rightarrow> True
     | PushWrote b task \<Rightarrow> bottom = b \<and> b - top < length (dq_buffer (dq s)) \<and> dq_read (dq s) b = task
     | PopDecremented b \<Rightarrow> bottom = b
     | PopLast t task \<Rightarrow> bottom = t \<and> (top = t \<and> dq_read (dq s) t = task \<or> top = t + 1)
     | PopSwapped t \<Rightarrow> bottom = t \<and> top = t + 1
     | PopEmpty t \<Rightarrow> bottom + 1 = t \<and> top = t)"

definition thief_ok :: "'a pool_state \<Rightarrow> 'a thief_pc \<Rightarrow> bool" where
  "thief_ok s p = (let top = dq_top (dq s) in
     case p of
       NotStealing \<Rightarrow> True
     | StealTop t \<Rightarrow> t \<le> top
     | StealBoth t \<Rightarrow> t \<le> top \<and> (t = top \<longrightarrow> top < dq_end s)
     | StealRead t task \<Rightarrow> t \<le> top \<and> (t = top \<longrightarrow> top < dq_end s \<and> dq_read (dq s) t = task))"

definition dq_inv :: "'a pool_state \<Rightarrow> bool" where
  "dq_inv s \<longleftrightarrow> dq_top (dq s) \<le> dq_end s \<and> dq_end s - dq_top (dq s) \<le> length (dq_buffer (dq s)) \<and>
     owner_ok s \<and> (\<forall>i. thief_ok s (thieves s i)) \<and> mset (pushed s) = mset (taken s) + mset (live s)"

lemma dq_read_fields [simp]:
  "dq_read (d\<lparr>dq_bottom := x\<rparr>) = dq_read d" "dq_read (d\<lparr>dq_top := x\<rparr>) = dq_read d"
  by (auto simp: dq_read_def dq_index_def fun_eq_iff)

text \<open>Writing the slot of \<open>b\<close> leaves the positions less than a capacity below \<open>b\<close> alone.\<close>

lemma dq_read_push_write:
  assumes "b - i < length (dq_buffer d)" "i \<le> b"
  shows "dq_read (push_write d b task) i = (if i = b then task else dq_read d i)"
proof -
  let ?n = "length (dq_buffer d)"
  have n: "0 < ?n" by (rule le_less_trans [OF le0 assms(1)])
  have "b mod ?n \<noteq> i mod ?n" if "i \<noteq> b"
  proof
    assume "b mod ?n = i mod ?n"
    then have "?n dvd b - i" using assms(2) by (simp add: mod_eq_dvd_iff_nat)
    with that assms show False by (auto dest: dvd_imp_le)
  qed
  with n show ?thesis by (auto simp: dq_read_def dq_index_def push_write_def)
qed

lemmas dq_defs = dq_end_def owner_ok_def live_def Let_def

text \<open>A thief keeps its claim to the top task while that task stays live, and loses it with \<open>top\<close>.\<close>

lemma thief_ok_same:
  assumes "thief_ok s p" "dq_top (dq s') = dq_top (dq s)"
    and "dq_top (dq s) < dq_end s \<Longrightarrow>
           dq_top (dq s) < dq_end s' \<and> dq_read (dq s') (dq_top (dq s)) = dq_read (dq s) (dq_top (dq s))"
  shows "thief_ok s' p"
  using assms by (auto simp: thief_ok_def Let_def split: thief_pc.splits)

lemma thief_ok_advance: "thief_ok s p \<Longrightarrow> dq_top (dq s) < dq_top (dq s') \<Longrightarrow> thief_ok s' p"
  by (auto simp: thief_ok_def Let_def split: thief_pc.splits)

lemma dq_invD:
  assumes "dq_inv s"
  shows "dq_top (dq s) \<le> dq_end s" "dq_end s - dq_top (dq s) \<le> length (dq_buffer (dq s))" "owner_ok s"
    "thief_ok s (thieves s i)" "mset (pushed s) = mset (taken s) + mset (live s)"
  using assms by (simp_all add: dq_inv_def)

text \<open>A step of the owner: the thieves stay where they are.\<close>

lemma dq_inv_ownerI:
  assumes inv: "dq_inv s" and "thieves s' = thieves s" and top: "dq_top (dq s) \<le> dq_top (dq s')"
    and "dq_top (dq s') \<le> dq_end s'" "dq_end s' - dq_top (dq s') \<le> length (dq_buffer (dq s'))" "owner_ok s'"
    and "mset (pushed s') = mset (taken s') + mset (live s')"
    and claim: "dq_top (dq s') = dq_top (dq s) \<Longrightarrow> dq_top (dq s) < dq_end s \<Longrightarrow>
           dq_top (dq s) < dq_end s' \<and> dq_read (dq s') (dq_top (dq s)) = dq_read (dq s) (dq_top (dq s))"
  shows "dq_inv s'"
proof -
  have "thief_ok s' (thieves s i)" for i
  proof (cases "dq_top (dq s') = dq_top (dq s)")
    case True
    with claim show ?thesis by (intro thief_ok_same [OF dq_invD(4) [OF inv, of i]]) auto
  next
    case False
    with top show ?thesis by (intro thief_ok_advance [OF dq_invD(4) [OF inv, of i]]) auto
  qed
  with assms show ?thesis by (simp add: dq_inv_def)
qed

text \<open>A step of a thief that does not take a task.\<close>

lemma dq_inv_thiefI:
  assumes inv: "dq_inv s" and p: "thief_ok s p"
  shows "dq_inv (s\<lparr>thieves := (thieves s)(i := p)\<rparr>)"
proof -
  let ?s = "s\<lparr>thieves := (thieves s)(i := p)\<rparr>"
  have e: "dq_end ?s = dq_end s" by (simp add: dq_end_def split: owner_pc.splits)
  have "thief_ok ?s q = thief_ok s q" for q
    unfolding thief_ok_def e by (simp split: thief_pc.splits)
  moreover have "owner_ok ?s = owner_ok s" by (simp add: owner_ok_def Let_def split: owner_pc.splits)
  moreover have "live ?s = live s" by (simp add: live_def e)
  ultimately show ?thesis using inv p by (auto simp: dq_inv_def e)
qed

lemma dq_inv_start: "dq_inv (dq_start buf)"
  by (simp add: dq_start_def dq_inv_def dq_defs thief_ok_def)

lemma dq_inv_push_write:
  assumes inv: "dq_inv s" and idle: "owner s = Idle"
    and room: "dq_bottom (dq s) - dq_top (dq s) < length (dq_buffer (dq s))"
  shows "dq_inv (s\<lparr>dq := push_write (dq s) (dq_bottom (dq s)) task, owner := PushWrote (dq_bottom (dq s)) task\<rparr>)"
proof -
  let ?b = "dq_bottom (dq s)" and ?t = "dq_top (dq s)" and ?d = "push_write (dq s) (dq_bottom (dq s)) task"
  have fields: "dq_top ?d = ?t" "dq_bottom ?d = ?b" "length (dq_buffer ?d) = length (dq_buffer (dq s))"
    by (simp_all add: push_write_def)
  have le: "?t \<le> ?b" using inv idle by (simp add: dq_inv_def dq_end_def)
  have read: "dq_read ?d i = dq_read (dq s) i" if "?t \<le> i" "i < ?b" for i
    using dq_read_push_write [of ?b i "dq s" task] that room by auto
  then have live: "map (dq_read ?d) [?t..<?b] = map (dq_read (dq s)) [?t..<?b]" by auto
  have "0 < length (dq_buffer (dq s))" by (rule le_less_trans [OF le0 room])
  then have "dq_read ?d ?b = task" using dq_read_push_write [of ?b ?b "dq s" task] by auto
  note task = this
  let ?s = "s\<lparr>dq := ?d, owner := PushWrote ?b task\<rparr>"
  have e: "dq_end ?s = ?b" "dq_end s = ?b" using idle fields by (simp_all add: dq_end_def)
  have l: "live ?s = live s" unfolding live_def e using live fields(1) by simp
  have o: "owner_ok ?s" using fields room task by (simp add: owner_ok_def)
  show ?thesis
    by (rule dq_inv_ownerI [OF inv])
      (use dq_invD(1,2,5) [OF inv] fields read le o in \<open>simp_all add: e l\<close>)
qed

lemma dq_inv_pop_read:
  assumes inv: "dq_inv s" and pc: "owner s = PopDecremented b"
  shows "dq_inv (pop_read_top s b)"
proof -
  have "dq_top (dq s) \<le> b + 1" "dq_bottom (dq s) = b" "b + 1 - dq_top (dq s) \<le> length (dq_buffer (dq s))"
    "mset (pushed s) = mset (taken s) + mset (map (dq_read (dq s)) [dq_top (dq s)..<b + 1])"
    using dq_invD [OF inv] pc by (auto simp: dq_defs)
  then show ?thesis
    by (intro dq_inv_ownerI [OF inv]) (auto simp: pop_read_top_def dq_defs pc)
qed

lemma dq_inv_pop_cas:
  assumes inv: "dq_inv s" and pc: "owner s = PopLast t task"
  shows "dq_inv (pop_swap s t task)"
  using dq_invD [OF inv] pc
  by (intro dq_inv_ownerI [OF inv]) (auto simp: pop_swap_def compare_and_swap_top_def dq_defs)

lemma dq_inv_steal_cas:
  assumes inv: "dq_inv s" and pc: "thieves s i = StealRead t task"
  shows "dq_inv (steal_swap s i t task)"
proof (cases "dq_top (dq s) = t")
  case False
  then have "steal_swap s i t task = s\<lparr>thieves := (thieves s)(i := NotStealing)\<rparr>"
    by (simp add: steal_swap_def compare_and_swap_top_def)
  then show ?thesis using dq_inv_thiefI [OF inv, of NotStealing i] by (simp add: thief_ok_def)
next
  case True
  have "thief_ok s (StealRead t task)" using inv pc unfolding dq_inv_def by metis
  then have t: "t < dq_end s" "dq_read (dq s) t = task" using True by (auto simp: thief_ok_def Let_def)
  have live: "[t..<dq_end s] = t # [Suc t..<dq_end s]" using t(1) by (rule upt_conv_Cons)
  have e: "dq_end (steal_swap s i t task) = dq_end s"
    using True by (simp add: steal_swap_def compare_and_swap_top_def dq_end_def split: owner_pc.splits)
  let ?s = "steal_swap s i t task"
  have s': "dq_top (dq ?s) = Suc t" "dq_bottom (dq ?s) = dq_bottom (dq s)" "dq_buffer (dq ?s) = dq_buffer (dq s)"
    "dq_read (dq ?s) = dq_read (dq s)" "owner ?s = owner s" "pushed ?s = pushed s" "taken ?s = task # taken s"
    "thieves ?s = (thieves s)(i := NotStealing)"
    using True by (simp_all add: steal_swap_def compare_and_swap_top_def)
  have "owner_ok ?s"
    using dq_invD(3) [OF inv] t(1) True
    by (auto simp: s' owner_ok_def dq_end_def Let_def split: owner_pc.splits)
  moreover have "thief_ok ?s (thieves ?s j)" for j
  proof -
    have "thief_ok s (thieves s j)" using inv by (simp add: dq_inv_def)
    then show ?thesis using True by (auto simp: s' e thief_ok_def Let_def split: thief_pc.splits)
  qed
  moreover have "live s = task # live ?s" using True t(2) by (simp add: live_def s' e live)
  moreover have "mset (pushed s) = mset (taken s) + mset (live s)" "dq_end s - t \<le> length (dq_buffer (dq s))"
    using inv True by (auto simp: dq_inv_def)
  ultimately show ?thesis using t(1) unfolding dq_inv_def e s' by auto
qed

lemma dq_inv_step: "dq_step s s' \<Longrightarrow> dq_inv s \<Longrightarrow> push_has_room s s' \<Longrightarrow> dq_inv s'"
proof (induction rule: dq_step.induct)
  case (push_write s b task)
  show ?case unfolding push_write(2)
    by (rule dq_inv_push_write) (use push_write in \<open>auto simp: push_has_room_def\<close>)
next
  case (push_commit s b task)
  have o: "dq_bottom (dq s) = b" "b - dq_top (dq s) < length (dq_buffer (dq s))" "dq_read (dq s) b = task"
    "dq_top (dq s) \<le> b" "mset (pushed s) = mset (taken s) + mset (map (dq_read (dq s)) [dq_top (dq s)..<b])"
    using dq_invD(1,3,5) [OF push_commit(2)] push_commit(1) by (auto simp: dq_defs)
  show ?case
    by (rule dq_inv_ownerI [OF push_commit(2)]) (use o in \<open>simp_all add: dq_defs push_commit_def push_commit(1)\<close>)
next
  case (pop_zero s)
  then show ?case by simp
next
  case (pop_decrement s b)
  show ?case
    by (rule dq_inv_ownerI [OF pop_decrement(3)])
      (use dq_invD(1,2,3,5) [OF pop_decrement(3)] pop_decrement(1,2) in \<open>simp_all add: dq_defs\<close>)
next
  case (pop_read s b)
  then show ?case by (blast intro: dq_inv_pop_read)
next
  case (pop_cas s t task)
  then show ?case by (blast intro: dq_inv_pop_cas)
next
  case (pop_reset s t)
  show ?case
    by (rule dq_inv_ownerI [OF pop_reset(2)])
      (use dq_invD(1,2,3,5) [OF pop_reset(2)] pop_reset(1) in \<open>simp_all add: dq_defs\<close>)
next
  case (pop_empty s t)
  show ?case
    by (rule dq_inv_ownerI [OF pop_empty(2)])
      (use dq_invD(1,2,3,5) [OF pop_empty(2)] pop_empty(1) in \<open>simp_all add: dq_defs\<close>)
next
  case (steal_top s i)
  then show ?case by (intro dq_inv_thiefI) (auto simp: thief_ok_def)
next
  case (steal_bottom s i t)
  have "thief_ok s (StealTop t)" using dq_invD(4) [OF steal_bottom(2)] steal_bottom(1) by metis
  moreover have "dq_bottom (dq s) \<le> dq_end s"
    using dq_invD(3) [OF steal_bottom(2)] by (auto simp: dq_defs split: owner_pc.splits)
  ultimately show ?case by (intro dq_inv_thiefI [OF steal_bottom(2)]) (auto simp: thief_ok_def)
next
  case (steal_read s i t)
  have "thief_ok s (StealBoth t)" using dq_invD(4) [OF steal_read(2)] steal_read(1) by metis
  then show ?case by (intro dq_inv_thiefI [OF steal_read(2)]) (auto simp: thief_ok_def)
next
  case (steal_cas s i t task)
  then show ?case by (blast intro: dq_inv_steal_cas)
qed

lemma dq_inv_run: "dq_run buf overrun s \<Longrightarrow> \<not> overrun \<Longrightarrow> dq_inv s"
  by (induction rule: dq_run.induct) (auto intro: dq_inv_start dq_inv_step)

section \<open>Properties\<close>

text \<open>Claim C14.  The work-stealing deque neither loses nor duplicates a task as long as no push finds it
  full: in every interleaving of the steps of one owner that pushes and pops and of any number of
  thieves in which \<open>deque_push_bottom\<close>, which does not look at the capacity, is never called on a
  deque that holds as many tasks as its buffer, the tasks pushed are the tasks handed out together
  with the tasks still between \<open>top\<close> and \<open>bottom\<close>, each as often as it was pushed.  The run of
  \<open>deque_push_overflow\<close> shows that the condition is needed.\<close>

theorem deque_exactly_once:
  assumes "dq_run buf overrun s" and "\<not> overrun"
  shows "mset (pushed s) = mset (taken s) + mset (live s) \<and> (distinct (pushed s) \<longrightarrow> distinct (taken s))"
proof -
  have eq: "mset (pushed s) = mset (taken s @ live s)" using dq_invD(5) [OF dq_inv_run [OF assms]] by simp
  then have "distinct (pushed s) \<longleftrightarrow> distinct (taken s @ live s)" by (rule mset_eq_imp_distinct_iff)
  with eq show ?thesis by simp
qed

lemmas dq_eval = push_write_def push_commit_def pop_read_top_def pop_swap_def steal_swap_def
  compare_and_swap_top_def dq_read_def dq_index_def push_has_room_def fun_upd_def dq_start_def

text \<open>
  Two tasks are pushed; a thief that has read \<open>top\<close> is overtaken by a pop, which has already written
  \<open>bottom\<close>; the thief takes the first task, and the pop the second one.
\<close>

lemma dq_example:
  "dq_run [0, 0] False \<lparr>dq = \<lparr>dq_buffer = [7, 8], dq_top = 2, dq_bottom = 2\<rparr>, owner = Idle,
     thieves = (\<lambda>_. NotStealing), pushed = [8, 7], taken = [8, 7 :: nat]\<rparr>"
proof -
  let ?S = "\<lambda>buf t b ow th ps tk. \<lparr>dq = \<lparr>dq_buffer = buf, dq_top = t, dq_bottom = b\<rparr>, owner = ow,
    thieves = (\<lambda>i. if i = 0 then th else NotStealing), pushed = ps, taken = tk :: nat list\<rparr>"
  note eval = dq_eval numeral_2_eq_2
  have "dq_run [0, 0] False (?S [7, 0] 0 0 (PushWrote 0 7) NotStealing [] [])"
    by (rule dq_run_room [OF dq_run.start]) (use dq_step.push_write [of "?S [0, 0] 0 0 Idle NotStealing [] []" 0 7] in \<open>simp_all add: eval cong: if_cong\<close>)
  then have "dq_run [0, 0] False (?S [7, 0] 0 1 Idle NotStealing [7] [])"
    by (rule dq_run_room) (use dq_step.push_commit [of "?S [7, 0] 0 0 (PushWrote 0 7) NotStealing [] []" 0 7] in \<open>simp_all add: eval cong: if_cong\<close>)
  then have "dq_run [0, 0] False (?S [7, 8] 0 1 (PushWrote 1 8) NotStealing [7] [])"
    by (rule dq_run_room) (use dq_step.push_write [of "?S [7, 0] 0 1 Idle NotStealing [7] []" 1 8] in \<open>simp_all add: eval cong: if_cong\<close>)
  then have "dq_run [0, 0] False (?S [7, 8] 0 2 Idle NotStealing [8, 7] [])"
    by (rule dq_run_room) (use dq_step.push_commit [of "?S [7, 8] 0 1 (PushWrote 1 8) NotStealing [7] []" 1 8] in \<open>simp_all add: eval cong: if_cong\<close>)
  then have "dq_run [0, 0] False (?S [7, 8] 0 2 Idle (StealTop 0) [8, 7] [])"
    by (rule dq_run_room) (use dq_step.steal_top [of "?S [7, 8] 0 2 Idle NotStealing [8, 7] []" 0] in \<open>simp_all add: eval cong: if_cong\<close>)
  then have "dq_run [0, 0] False (?S [7, 8] 0 1 (PopDecremented 1) (StealTop 0) [8, 7] [])"
    by (rule dq_run_room) (use dq_step.pop_decrement [of "?S [7, 8] 0 2 Idle (StealTop 0) [8, 7] []" 1] in \<open>simp_all add: eval cong: if_cong\<close>)
  then have "dq_run [0, 0] False (?S [7, 8] 0 1 (PopDecremented 1) (StealBoth 0) [8, 7] [])"
    by (rule dq_run_room) (use dq_step.steal_bottom [of "?S [7, 8] 0 1 (PopDecremented 1) (StealTop 0) [8, 7] []" 0 0] in \<open>simp_all add: eval cong: if_cong\<close>)
  then have "dq_run [0, 0] False (?S [7, 8] 0 1 (PopDecremented 1) (StealRead 0 7) [8, 7] [])"
    by (rule dq_run_room) (use dq_step.steal_read [of "?S [7, 8] 0 1 (PopDecremented 1) (StealBoth 0) [8, 7] []" 0 0] in \<open>simp_all add: eval cong: if_cong\<close>)
  then have "dq_run [0, 0] False (?S [7, 8] 1 1 (PopDecremented 1) NotStealing [8, 7] [7])"
    by (rule dq_run_room) (use dq_step.steal_cas [of "?S [7, 8] 0 1 (PopDecremented 1) (StealRead 0 7) [8, 7] []" 0 0 7] in \<open>simp_all add: eval cong: if_cong\<close>)
  then have "dq_run [0, 0] False (?S [7, 8] 1 1 (PopLast 1 8) NotStealing [8, 7] [7])"
    by (rule dq_run_room) (use dq_step.pop_read [of "?S [7, 8] 1 1 (PopDecremented 1) NotStealing [8, 7] [7]" 1] in \<open>simp_all add: eval cong: if_cong\<close>)
  then have "dq_run [0, 0] False (?S [7, 8] 2 1 (PopSwapped 1) NotStealing [8, 7] [8, 7])"
    by (rule dq_run_room) (use dq_step.pop_cas [of "?S [7, 8] 1 1 (PopLast 1 8) NotStealing [8, 7] [7]" 1 8] in \<open>simp_all add: eval cong: if_cong\<close>)
  then show ?thesis
    by (rule dq_run_room) (use dq_step.pop_reset [of "?S [7, 8] 2 1 (PopSwapped 1) NotStealing [8, 7] [8, 7]" 1] in \<open>simp_all add: eval cong: if_cong\<close>)
qed

theorem deque_exactly_once_witness:
  "\<exists>s. dq_run [0, 0] False s \<and> pushed s = [8, 7] \<and> taken s = [8, 7 :: nat] \<and> live s = [] \<and>
     mset (pushed s) = mset (taken s) + mset (live s)"
  using deque_exactly_once [OF dq_example] dq_example by (auto simp: live_def dq_end_def)

text \<open>\<open>deque_push_bottom\<close> does not check the capacity: on a deque of capacity 1 there is a run
  of two pushes, both of which succeed, and two pops, in which the second push finds the deque full,
  the second task overwrites the first and both pops return the second task: the first task is lost
  and the second one runs twice.\<close>

theorem deque_push_overflow:
  "\<exists>s. dq_run [0] True s \<and> owner s = Idle \<and> pushed s = [2, 1] \<and> taken s = [2, 2 :: nat]"
proof -
  let ?S = "\<lambda>x t b ow ps tk. \<lparr>dq = \<lparr>dq_buffer = [x :: nat], dq_top = t, dq_bottom = b\<rparr>, owner = ow,
    thieves = (\<lambda>_. NotStealing), pushed = ps, taken = tk\<rparr>"
  note eval = dq_eval numeral_2_eq_2
  have "dq_run [0] False (?S 1 0 0 (PushWrote 0 1) [] [])"
    by (rule dq_run_room [OF dq_run.start]) (use dq_step.push_write [of "?S 0 0 0 Idle [] []" 0 1] in \<open>simp_all add: eval cong: if_cong\<close>)
  then have "dq_run [0] False (?S 1 0 1 Idle [1] [])"
    by (rule dq_run_room) (use dq_step.push_commit [of "?S 1 0 0 (PushWrote 0 1) [] []" 0 1] in \<open>simp_all add: eval cong: if_cong\<close>)
  then have "dq_run [0] True (?S 2 0 1 (PushWrote 1 2) [1] [])"
    by (rule dq_run_full) (use dq_step.push_write [of "?S 1 0 1 Idle [1] []" 1 2] in \<open>simp_all add: eval cong: if_cong\<close>)
  then have "dq_run [0] True (?S 2 0 2 Idle [2, 1] [])"
    by (rule dq_run_room) (use dq_step.push_commit [of "?S 2 0 1 (PushWrote 1 2) [1] []" 1 2] in \<open>simp_all add: eval cong: if_cong\<close>)
  then have "dq_run [0] True (?S 2 0 1 (PopDecremented 1) [2, 1] [])"
    by (rule dq_run_room) (use dq_step.pop_decrement [of "?S 2 0 2 Idle [2, 1] []" 1] in \<open>simp_all add: eval cong: if_cong\<close>)
  then have "dq_run [0] True (?S 2 0 1 Idle [2, 1] [2])"
    by (rule dq_run_room) (use dq_step.pop_read [of "?S 2 0 1 (PopDecremented 1) [2, 1] []" 1] in \<open>simp_all add: eval cong: if_cong\<close>)
  then have "dq_run [0] True (?S 2 0 0 (PopDecremented 0) [2, 1] [2])"
    by (rule dq_run_room) (use dq_step.pop_decrement [of "?S 2 0 1 Idle [2, 1] [2]" 0] in \<open>simp_all add: eval cong: if_cong\<close>)
  then have "dq_run [0] True (?S 2 0 0 (PopLast 0 2) [2, 1] [2])"
    by (rule dq_run_room) (use dq_step.pop_read [of "?S 2 0 0 (PopDecremented 0) [2, 1] [2]" 0] in \<open>simp_all add: eval cong: if_cong\<close>)
  then have "dq_run [0] True (?S 2 1 0 (PopSwapped 0) [2, 1] [2, 2])"
    by (rule dq_run_room) (use dq_step.pop_cas [of "?S 2 0 0 (PopLast 0 2) [2, 1] [2]" 0 2] in \<open>simp_all add: eval cong: if_cong\<close>)
  then have "dq_run [0] True (?S 2 1 1 Idle [2, 1] [2, 2])"
    by (rule dq_run_room) (use dq_step.pop_reset [of "?S 2 1 0 (PopSwapped 0) [2, 1] [2, 2]" 0] in \<open>simp_all add: eval cong: if_cong\<close>)
  then show ?thesis by (intro exI [of _ "?S 2 1 1 Idle [2, 1] [2, 2]"]) simp
qed

text \<open>\<open>deque_push_bottom\<close> is for the owner thread only, but \<open>mcp_thread_pool_add_task\<close> calls it from
  every submitting thread: when two submissions load the same \<open>bottom\<close>, both report success and
  only the task written last is in the deque.\<close>

lemma deque_concurrent_push_loses:
  "let b = dq_bottom d; d' = push_commit (push_commit (push_write (push_write d b x) b y) b) b
   in dq_bottom d' = b + 1 \<and> dq_buffer d' = (dq_buffer d)[dq_index d b := y]"
  by (simp add: Let_def push_commit_def push_write_def dq_index_def)

end
