(* ===== verification/Mcp_Framing.thy ===== *)
theory Mcp_Framing
  imports Mcp_Prelude
begin

text \<open>
  Length-prefixed framing over a stream socket: \<open>src/common/mcp_framing.c\<close> with the loops of
  \<open>src/common/mcp_socket_utils.c\<close> it is built on (the POSIX variants).

  The operating system decides how many bytes a \<open>recv\<close> or \<open>writev\<close> transfers, and whether it is
  interrupted or fails.  A \<open>script\<close> is the list of these decisions, one for each pass of a loop,
  \<open>IoStop\<close> being a pass that finds the stop flag set; behind the end of the script every call
  transfers all that is asked for.  Theorems hold for every script.  \<open>recv\<close> and \<open>writev\<close> transfer at
  most what is asked for, the bytes in order.

  The peer's side of the connection is the list of the bytes that will arrive before it closes; the
  wire is the list of the bytes sent so far.
\<close>

section \<open>Sockets\<close>

datatype io =
    IoBytes nat    \<comment> \<open>up to so many bytes\<close>
  | IoRetry        \<comment> \<open>\<open>EINTR\<close>, \<open>EAGAIN\<close>\<close>
  | IoError
  | IoStop         \<comment> \<open>the stop flag is set\<close>

text \<open>
  What the next pass meets: the stop flag or an error, an interruption, or a transfer of a number of
  bytes out of those available.
\<close>

definition io_fails :: "io list \<Rightarrow> bool" where
  "io_fails script = (case script of IoStop # _ \<Rightarrow> True | IoError # _ \<Rightarrow> True | _ \<Rightarrow> False)"

definition io_retries :: "io list \<Rightarrow> bool" where
  "io_retries script = (case script of IoRetry # _ \<Rightarrow> True | _ \<Rightarrow> False)"

definition io_count :: "io list \<Rightarrow> nat \<Rightarrow> nat" where
  "io_count script available = (case script of IoBytes n # _ \<Rightarrow> min n available | _ \<Rightarrow> available)"

lemma io_count_le: "io_count script n \<le> n"
  by (auto simp: io_count_def split: list.splits io.splits)

lemma io_retries_nonempty: "io_retries script \<Longrightarrow> script \<noteq> []"
  by (auto simp: io_retries_def)

lemma io_simps [simp]: "\<not> io_fails []" "\<not> io_retries []" "io_count [] n = n"
  by (simp_all add: io_fails_def io_retries_def io_count_def)

text \<open>\<open>mcp_socket_recv_exact\<close>: the bytes read (\<open>None\<close> for a failure), the script and the stream left.\<close>

function recv_exact_loop ::
    "io list \<Rightarrow> string \<Rightarrow> nat \<Rightarrow> string \<Rightarrow> string option \<times> io list \<times> string" where
  "recv_exact_loop script buf len stream =
     (if len \<le> length buf then (Some buf, script, stream)
      else if io_fails script then (None, tl script, stream)
      else if io_retries script then recv_exact_loop (tl script) buf len stream
      else let bytes_read = io_count script (min (len - length buf) (length stream))
           in if bytes_read = 0 then (None, tl script, stream)
              else recv_exact_loop (tl script) (buf @ take bytes_read stream) len (drop bytes_read stream))"
  by pat_completeness auto
termination
proof (relation "measures [\<lambda>(script, buf, len, stream). len - length buf,
        \<lambda>(script, buf, len, stream). length script]", goal_cases)
  case (3 script buf len stream k)
  then have "k \<le> length stream" "0 < k"
    using io_count_le [of script "min (len - length buf) (length stream)"] by auto
  with 3 show ?case by auto
qed (auto dest: io_retries_nonempty)

declare recv_exact_loop.simps [simp del]

definition mcp_socket_recv_exact :: "io list \<Rightarrow> nat \<Rightarrow> string \<Rightarrow> string option \<times> io list \<times> string" where
  "mcp_socket_recv_exact script len stream = recv_exact_loop script [] len stream"

text \<open>
  The adjustment of the vector after a partial \<open>writev\<close>: the number of buffers skipped and what is
  left to send.
\<close>

fun adjust_iov :: "nat \<Rightarrow> string list \<Rightarrow> nat \<times> string list" where
  "adjust_iov bytes_remaining [] = (0, [])"
| "adjust_iov bytes_remaining (v # vs) =
     (if length v \<le> bytes_remaining
      then (case adjust_iov (bytes_remaining - length v) vs of (i, ws) \<Rightarrow> (Suc i, ws))
      else (0, drop bytes_remaining v # vs))"

text \<open>
  The sending loop.  \<open>temp_iov\<close> is the vector still to be sent and \<open>moved\<close> how far the pointer
  \<open>temp_iov\<close> is from the start of its array.  The result is the return code, the script left, the
  wire and the final value of \<open>moved\<close>.
\<close>

function send_vectors_loop ::
    "io list \<Rightarrow> string list \<Rightarrow> nat \<Rightarrow> nat \<Rightarrow> nat \<Rightarrow> string \<Rightarrow> int \<times> io list \<times> string \<times> nat" where
  "send_vectors_loop script temp_iov moved total_sent total_to_send wire =
     (if total_to_send \<le> total_sent
      then (if total_sent = total_to_send then 0 else -1, script, wire, moved)
      else if io_fails script then (-1, tl script, wire, moved)
      else if io_retries script then send_vectors_loop (tl script) temp_iov moved total_sent total_to_send wire
      else let bytes = concat temp_iov;
               bytes_sent = io_count script (length bytes);
               total' = total_sent + bytes_sent
           in if bytes_sent = 0 then (-1, tl script, wire, moved)
              else let adj = (if total' < total_to_send then adjust_iov bytes_sent temp_iov else (0, temp_iov))
                   in send_vectors_loop (tl script) (snd adj) (moved + fst adj) total' total_to_send
                        (wire @ take bytes_sent bytes))"
  by pat_completeness auto
termination
  by (relation "measures [\<lambda>(script, iov, moved, sent, total, wire). total - sent,
        \<lambda>(script, iov, moved, sent, total, wire). length script]")
    (auto dest: io_retries_nonempty)

declare send_vectors_loop.simps [simp del]

text \<open>
  \<open>mcp_socket_send_vectors\<close>: the return code, the script, the wire, and the pointer given to
  \<open>socket_utils_free\<close>, as its distance from the start of the array that was allocated (\<open>None\<close> when
  nothing is freed).
\<close>

definition mcp_socket_send_vectors ::
    "mem \<Rightarrow> io list \<Rightarrow> string list \<Rightarrow> string \<Rightarrow> int \<times> io list \<times> string \<times> nat option" where
  "mcp_socket_send_vectors m script iov wire =
     (let total_to_send = sum_list (map length iov)
      in if total_to_send = 0 then (0, script, wire, None)
         else if 1 < length iov \<and> \<not> fst (mem_alloc m) then (-1, script, wire, None)
         else case send_vectors_loop script iov 0 0 total_to_send wire of
                (rc, script', wire', moved) \<Rightarrow>
                  (rc, script', wire', if 1 < length iov then Some moved else None))"

section \<open>Frames\<close>

definition be32 :: "u32 \<Rightarrow> string" where
  "be32 n = map (\<lambda>k. char_of (unat (drop_bit k n))) [24, 16, 8, 0]"

definition from_be32 :: "string \<Rightarrow> u32" where
  "from_be32 bs = foldl (\<lambda>acc c. push_bit 8 acc OR of_nat (of_char c)) 0 bs"

text \<open>
  The callers of \<open>mcp_socket_send_vectors\<close>.  The pointer that is freed must be the one the allocator
  returned: to free another one is undefined, for a transfer that succeeded as for one that failed.
\<close>

definition valid_free :: "nat option \<Rightarrow> bool" where
  "valid_free freed = (case freed of None \<Rightarrow> True | Some moved \<Rightarrow> moved = 0)"

text \<open>The message is the \<open>message_len\<close> bytes at \<open>message_data\<close>.\<close>

definition mcp_framing_send_message ::
    "mem \<Rightarrow> io list \<Rightarrow> string option \<Rightarrow> u32 \<Rightarrow> string \<Rightarrow> (int \<times> io list \<times> string) checked" where
  "mcp_framing_send_message m script message_data message_len wire =
     (if message_data = None \<and> 0 < message_len then Done (-1, script, wire)
      else let iov = be32 message_len #
                     (if 0 < message_len then [take (unat message_len) (the message_data)] else [])
           in case mcp_socket_send_vectors m script iov wire of
                (rc, script', wire', freed) \<Rightarrow>
                  (if valid_free freed then Done (if rc \<noteq> 0 then -1 else 0, script', wire') else Undefined))"

text \<open>
  The result of \<open>mcp_framing_recv_message\<close>: the message, NULL with length 0, an error, or a write
  outside the allocated buffer.  The buffer has \<open>message_length_host + 1\<close> bytes, computed in 32 bits.
\<close>

datatype received = Message string | NoMessage | RecvError | Overrun

definition mcp_framing_recv_message ::
    "mem \<Rightarrow> io list \<Rightarrow> u32 \<Rightarrow> string \<Rightarrow> received \<times> mem \<times> io list \<times> string" where
  "mcp_framing_recv_message m script max_message_size stream =
     (case mcp_socket_recv_exact script 4 stream of
        (None, script1, stream1) \<Rightarrow> (RecvError, m, script1, stream1)
      | (Some length_buf, script1, stream1) \<Rightarrow>
          (let message_length_host = from_be32 length_buf
           in if message_length_host = 0 then (NoMessage, m, script1, stream1)
              else if max_message_size < message_length_host then (RecvError, m, script1, stream1)
              else let (ok, m1) = mem_alloc m
                   in if \<not> ok then (RecvError, m1, script1, stream1)
                      else if unat (message_length_host + 1) < unat message_length_host + 1
                           then (Overrun, m1, script1, stream1)
                      else case mcp_socket_recv_exact script1 (unat message_length_host) stream1 of
                             (None, script2, stream2) \<Rightarrow> (RecvError, m1, script2, stream2)
                           | (Some body, script2, stream2) \<Rightarrow> (Message body, m1, script2, stream2)))"

text \<open>The vector of \<open>mcp_framing_send_batch\<close>.\<close>

definition batch_iov :: "(string \<times> u32) list \<Rightarrow> string list" where
  "batch_iov msgs =
     concat (map (\<lambda>(msg, len). be32 len # (if 0 < len then [take (unat len) msg] else [])) msgs)"

definition mcp_framing_send_batch ::
    "mem \<Rightarrow> io list \<Rightarrow> (string \<times> u32) list \<Rightarrow> string \<Rightarrow> (int \<times> mem \<times> io list \<times> string) checked" where
  "mcp_framing_send_batch m script msgs wire =
     (if msgs = [] then Done (0, m, script, wire)
      else let (ok1, m1) = mem_alloc m
           in if \<not> ok1 then Done (-1, m1, script, wire)
              else let (ok2, m2) = mem_alloc m1
                   in if \<not> ok2 then Done (-1, m2, script, wire)
                      else case mcp_socket_send_vectors m2 script (batch_iov msgs) wire of
                             (rc, script', wire', freed) \<Rightarrow>
                               (if valid_free freed then Done (if rc \<noteq> 0 then -1 else 0, m2, script', wire')
                                else Undefined))"

text \<open>
  The loop of \<open>mcp_framing_recv_batch\<close> from message \<open>i\<close> on.  \<open>polls\<close> are the answers of the check of
  the stop flag and of \<open>mcp_socket_wait_readable\<close> (data available or not) before each message.
\<close>

datatype poll = Readable | NotReadable | Stopped

fun recv_batch_loop ::
    "nat \<Rightarrow> nat \<Rightarrow> poll list \<Rightarrow> mem \<Rightarrow> io list \<Rightarrow> u32 \<Rightarrow> string \<Rightarrow> received list \<Rightarrow> (int \<times> received list \<times> string)" where
  "recv_batch_loop 0 i polls m script limit stream msgs = (0, msgs, stream)"
| "recv_batch_loop (Suc n) i polls m script limit stream msgs =
     (let p = (case polls of [] \<Rightarrow> Readable | p # _ \<Rightarrow> p)
      in if p = Stopped then (0, msgs, stream)
         else if 0 < i \<and> p = NotReadable then (0, msgs, stream)
         else case mcp_framing_recv_message m script limit stream of
                (r, m', script', stream') \<Rightarrow>
                  (if r = Overrun then (-1, msgs @ [Overrun], stream')
                   else if r = RecvError then (if i = 0 then -1 else 0, msgs, stream')
                   else recv_batch_loop n (Suc i) (tl polls) m' script' limit stream' (msgs @ [r])))"

definition mcp_framing_recv_batch ::
    "nat \<Rightarrow> poll list \<Rightarrow> mem \<Rightarrow> io list \<Rightarrow> u32 \<Rightarrow> string \<Rightarrow> int \<times> received list \<times> string" where
  "mcp_framing_recv_batch max_count polls m script max_message_size stream =
     (if max_count = 0 then (-1, [], stream)
      else recv_batch_loop max_count 0 polls m script max_message_size stream [])"

section \<open>Socket loops\<close>

lemma recv_exact_loop_Some:
  "recv_exact_loop script buf len stream = (Some bs, script', stream') \<Longrightarrow> length buf \<le> len \<Longrightarrow>
   length bs = len \<and> buf @ stream = bs @ stream'"
proof (induction script buf len stream rule: recv_exact_loop.induct)
  case (1 script buf len stream)
  let ?k = "io_count script (min (len - length buf) (length stream))"
  note step = recv_exact_loop.simps [of script buf len stream]
  show ?case
  proof (cases "len \<le> length buf \<or> io_fails script \<or> \<not> io_retries script \<and> ?k = 0")
    case True
    with 1(3,4) show ?thesis unfolding step by (auto split: if_splits)
  next
    case False
    then have c: "\<not> len \<le> length buf" "\<not> io_fails script" by auto
    show ?thesis
    proof (cases "io_retries script")
      case True
      with 1(3) c have "recv_exact_loop (tl script) buf len stream = (Some bs, script', stream')" unfolding step by simp
      from "1.IH"(1) [OF c True this] 1(4) show ?thesis by simp
    next
      case r: False
      have k: "?k \<le> len - length buf" "?k \<le> length stream" "?k \<noteq> 0"
        using io_count_le [of script "min (len - length buf) (length stream)"] False r by auto
      have "recv_exact_loop (tl script) (buf @ take ?k stream) len (drop ?k stream) = (Some bs, script', stream')"
        using 1(3) c r k(3) unfolding step by (simp add: Let_def)
      from "1.IH"(2) [OF c r refl k(3) this] k 1(4) c show ?thesis by auto
    qed
  qed
qed

lemma recv_exact_ok:
  assumes "mcp_socket_recv_exact script len stream = (Some bs, script', stream')"
  shows "bs = take len stream \<and> stream' = drop len stream \<and> len \<le> length stream"
  using recv_exact_loop_Some [of script "[]" len stream bs script' stream'] assms
  by (auto simp: mcp_socket_recv_exact_def)

lemma recv_exact_full:
  assumes "len \<le> length stream"
  shows "mcp_socket_recv_exact [] len stream = (Some (take len stream), [], drop len stream)"
  using assms
  by (simp add: mcp_socket_recv_exact_def recv_exact_loop.simps [of "[]" "[]"]
      recv_exact_loop.simps [of "[]" "take len stream"])

lemma adjust_iov_concat: "concat (snd (adjust_iov n iov)) = drop n (concat iov)"
  by (induction n iov rule: adjust_iov.induct) (auto split: prod.splits)

lemma send_vectors_loop_wire:
  "send_vectors_loop script iov moved sent tot wire = (rc, script', wire', moved') \<Longrightarrow>
   (sent < tot \<longrightarrow> tot - sent = length (concat iov)) \<Longrightarrow> sent \<le> tot \<Longrightarrow>
   \<exists>k \<le> tot - sent. wire' = wire @ take k (concat iov) \<and> (rc = 0 \<longleftrightarrow> k = tot - sent) \<and> rc \<in> {0, -1}"
proof (induction script iov moved sent tot wire rule: send_vectors_loop.induct)
  case (1 script iov moved sent tot wire)
  let ?k = "io_count script (length (concat iov))"
  note step = send_vectors_loop.simps [of script iov moved sent tot wire]
  show ?case
  proof (cases "tot \<le> sent")
    case True
    with 1 show ?thesis unfolding step by auto
  next
    case c: False
    show ?thesis
    proof (cases "io_fails script \<or> \<not> io_retries script \<and> ?k = 0")
      case True
      then have "send_vectors_loop script iov moved sent tot wire = (-1, tl script, wire, moved)"
        using c unfolding step by (cases "io_fails script") (simp_all add: Let_def)
      with 1(3) c show ?thesis by (intro exI [of _ 0]) auto
    next
      case False
      then have f: "\<not> io_fails script" by auto
      show ?thesis
      proof (cases "io_retries script")
        case True
        with 1(3) c f have "send_vectors_loop (tl script) iov moved sent tot wire = (rc, script', wire', moved')"
          unfolding step by simp
        from "1.IH"(1) [OF c f True this 1(4,5)] show ?thesis .
      next
        case r: False
        define adj where "adj = (if sent + ?k < tot then adjust_iov ?k iov else (0, iov))"
        have len: "length (concat iov) = tot - sent" using 1(4) c by simp
        have k: "?k \<le> tot - sent" "?k \<noteq> 0" using io_count_le [of script "length (concat iov)"] False r len by auto
        have "send_vectors_loop (tl script) (snd adj) (moved + fst adj) (sent + ?k) tot (wire @ take ?k (concat iov))
            = (rc, script', wire', moved')"
          using 1(3) c f r k(2) unfolding step adj_def by (simp add: Let_def)
        moreover have "sent + ?k < tot \<longrightarrow> tot - (sent + ?k) = length (concat (snd adj))"
          by (simp add: adj_def adjust_iov_concat len)
        moreover have le: "sent + ?k \<le> tot" using k(1) c by simp
        ultimately obtain k' where k': "k' \<le> tot - (sent + ?k)"
          "wire' = (wire @ take ?k (concat iov)) @ take k' (concat (snd adj))"
          "rc = 0 \<longleftrightarrow> k' = tot - (sent + ?k)" "rc \<in> {0, -1}"
          using "1.IH"(2) [OF c f r refl refl refl k(2) adj_def] by blast
        have "take k' (concat (snd adj)) = take k' (drop ?k (concat iov))"
          using k'(1) k(1) c by (cases "sent + ?k < tot") (simp_all add: adj_def adjust_iov_concat)
        then have "wire' = wire @ take (?k + k') (concat iov)" using k'(2) by (simp add: take_add)
        with k' k c show ?thesis by (intro exI [of _ "?k + k'"]) auto
      qed
    qed
  qed
qed


definition io_good :: "io list \<Rightarrow> bool" where
  "io_good script \<longleftrightarrow> (\<forall>d \<in> set script. d \<noteq> IoError \<and> d \<noteq> IoStop \<and> d \<noteq> IoBytes 0)"

lemma io_goodD:
  assumes "io_good script"
  shows "\<not> io_fails script" "io_good (tl script)" "0 < n \<Longrightarrow> 0 < io_count script n"
  using assms
  by (cases script; auto simp: io_good_def io_fails_def io_count_def split: io.splits)+

lemma recv_exact_loop_good:
  "io_good script \<Longrightarrow> length buf \<le> len \<Longrightarrow> len \<le> length buf + length stream \<Longrightarrow>
   \<exists>bs script' stream'. recv_exact_loop script buf len stream = (Some bs, script', stream') \<and> io_good script'"
proof (induction script buf len stream rule: recv_exact_loop.induct)
  case (1 script buf len stream)
  let ?k = "io_count script (min (len - length buf) (length stream))"
  note step = recv_exact_loop.simps [of script buf len stream]
  show ?case
  proof (cases "len \<le> length buf")
    case True
    with 1(3) show ?thesis unfolding step by simp
  next
    case c: False
    note good = io_goodD [OF 1(3)]
    show ?thesis
    proof (cases "io_retries script")
      case True
      from "1.IH"(1) [OF c good(1) True good(2) 1(4,5)] True c good show ?thesis unfolding step by simp
    next
      case r: False
      have k: "?k \<le> len - length buf" "?k \<le> length stream" "?k \<noteq> 0"
        using io_count_le [of script "min (len - length buf) (length stream)"]
          good(3) [of "min (len - length buf) (length stream)"] c 1(5) by auto
      from "1.IH"(2) [OF c good(1) r refl k(3) good(2)] k c r good 1(4,5) show ?thesis
        unfolding step by (simp add: Let_def)
    qed
  qed
qed

lemma recv_exact_good:
  assumes "io_good script" "len \<le> length stream"
  obtains script' where "mcp_socket_recv_exact script len stream = (Some (take len stream), script', drop len stream)"
    "io_good script'"
proof -
  obtain bs script' stream' where
    r: "mcp_socket_recv_exact script len stream = (Some bs, script', stream')" "io_good script'"
    using recv_exact_loop_good [of script "[]" len stream] assms by (auto simp: mcp_socket_recv_exact_def)
  with recv_exact_ok [OF r(1)] that show thesis by simp
qed

lemma send_vectors_loop_good:
  "io_good script \<Longrightarrow> sent \<le> tot \<Longrightarrow> (sent < tot \<longrightarrow> tot - sent = length (concat iov)) \<Longrightarrow>
   fst (send_vectors_loop script iov moved sent tot wire) = 0"
proof (induction script iov moved sent tot wire rule: send_vectors_loop.induct)
  case (1 script iov moved sent tot wire)
  let ?k = "io_count script (length (concat iov))"
  note step = send_vectors_loop.simps [of script iov moved sent tot wire]
  note good = io_goodD [OF 1(3)]
  show ?case
  proof (cases "tot \<le> sent")
    case True
    with 1(4) show ?thesis unfolding step by simp
  next
    case c: False
    show ?thesis
    proof (cases "io_retries script")
      case True
      from "1.IH"(1) [OF c good(1) True good(2) 1(4,5)] True c good show ?thesis unfolding step by simp
    next
      case r: False
      define adj where "adj = (if sent + ?k < tot then adjust_iov ?k iov else (0, iov))"
      have len: "length (concat iov) = tot - sent" using 1(5) c by simp
      have k: "?k \<le> tot - sent" "?k \<noteq> 0"
        using io_count_le [of script "length (concat iov)"] good(3) [of "length (concat iov)"] len c by auto
      have "sent + ?k < tot \<longrightarrow> tot - (sent + ?k) = length (concat (snd adj))"
        by (simp add: adj_def adjust_iov_concat len)
      from "1.IH"(2) [OF c good(1) r refl refl refl k(2) adj_def good(2) _ this] k(1) c
      have "fst (send_vectors_loop (tl script) (snd adj) (moved + fst adj) (sent + ?k) tot
          (wire @ take ?k (concat iov))) = 0" by simp
      then show ?thesis using c good(1) r k(2) unfolding step adj_def by (simp add: Let_def)
    qed
  qed
qed

lemma length_concat_sum: "length (concat xs) = sum_list (map length xs)"
  by (induction xs) auto

lemma send_vectors_cases:
  assumes "mcp_socket_send_vectors m script iov wire = (rc, script', wire', freed)"
  shows "\<exists>k \<le> length (concat iov). wire' = wire @ take k (concat iov) \<and>
    (rc = 0 \<longleftrightarrow> k = length (concat iov)) \<and> rc \<in> {0, -1}"
proof (cases "sum_list (map length iov) = 0 \<or> 1 < length iov \<and> \<not> fst (mem_alloc m)")
  case True
  with assms show ?thesis
    by (intro exI [of _ 0]) (auto simp: mcp_socket_send_vectors_def length_concat_sum split: if_splits)
next
  case False
  then obtain moved where
    "send_vectors_loop script iov 0 0 (length (concat iov)) wire = (rc, script', wire', moved)"
    using assms
    by (auto simp: mcp_socket_send_vectors_def length_concat_sum Let_def split: prod.splits simp del: sum_list_eq_0_iff)
  from send_vectors_loop_wire [OF this] show ?thesis by simp
qed

lemma send_vectors_good:
  assumes "io_good script" "fst (mem_alloc m)"
  obtains script' freed where "mcp_socket_send_vectors m script iov wire = (0, script', wire @ concat iov, freed)"
proof -
  obtain rc script' wire' freed where s: "mcp_socket_send_vectors m script iov wire = (rc, script', wire', freed)"
    by (metis prod_cases4)
  have "rc = 0"
    using s assms send_vectors_loop_good [OF assms(1), of 0 "length (concat iov)" iov 0 wire]
    by (auto simp: mcp_socket_send_vectors_def length_concat_sum Let_def
        simp del: sum_list_eq_0_iff split: prod.splits if_splits)
  with send_vectors_cases [OF s] s that show thesis by auto
qed

text \<open>
  The positions in the stream of sent bytes at which the calls of \<open>writev\<close> of a script stop.
\<close>

fun stops :: "io list \<Rightarrow> nat \<Rightarrow> nat list" where
  "stops [] sent = []"
| "stops (IoBytes n # script) sent = (sent + n) # stops script (sent + n)"
| "stops (_ # script) sent = stops script sent"

lemma stops_ge: "s \<in> set (stops script sent) \<Longrightarrow> sent \<le> s"
  by (induction script sent rule: stops.induct) auto

lemma send_vectors_loop_moves: "moved \<le> snd (snd (snd (send_vectors_loop script iov moved sent tot wire)))"
proof (induction script iov moved sent tot wire rule: send_vectors_loop.induct)
  case (1 script iov moved sent tot wire)
  let ?k = "io_count script (length (concat iov))"
  define adj where "adj = (if sent + ?k < tot then adjust_iov ?k iov else (0, iov))"
  show ?case
  proof (cases "tot \<le> sent \<or> io_fails script \<or> io_retries script \<or> ?k = 0")
    case True
    with "1.IH"(1) show ?thesis
      by (auto simp: send_vectors_loop.simps [of script iov moved sent tot wire] Let_def)
  next
    case False
    with "1.IH"(2) [OF _ _ _ refl refl refl _ adj_def] show ?thesis
      by (auto simp: send_vectors_loop.simps [of script iov moved sent tot wire] adj_def Let_def intro: add_leD1)
  qed
qed

lemma adjust_iov_moves: "length v \<le> n \<Longrightarrow> 0 < fst (adjust_iov n (v # vs))"
  by (auto split: prod.splits)

text \<open>
  The pointer stays where it was exactly when no call stops behind the first buffer and before the end.
\<close>

lemma send_vectors_loop_unmoved:
  "io_good script \<Longrightarrow> sent < tot \<Longrightarrow> tot - sent = length (concat iov) \<Longrightarrow> iov = v # vs \<Longrightarrow> v \<noteq> [] \<Longrightarrow>
   snd (snd (snd (send_vectors_loop script iov moved sent tot wire))) = moved \<longleftrightarrow>
   (\<forall>s \<in> set (stops script sent). s < sent + length v \<or> tot \<le> s)"
proof (induction script iov moved sent tot wire arbitrary: v rule: send_vectors_loop.induct)
  case (1 script iov moved sent tot wire)
  let ?k = "io_count script (length (concat iov))"
  note step = send_vectors_loop.simps [of script iov moved sent tot wire]
  note good = io_goodD [OF 1(3)]
  have c: "\<not> tot \<le> sent" using 1(4) by simp
  show ?case
  proof (cases script)
    case Nil
    have len: "length (concat iov) = tot - sent" using 1(5) by simp
    have "snd (snd (snd (send_vectors_loop [] iov moved sent tot wire))) = moved"
      using c len 1(7) step [unfolded Nil]
      by (simp add: Let_def send_vectors_loop.simps [of "[]" _ _ tot tot] del: length_concat)
    then show ?thesis by (simp add: Nil)
  next
    case (Cons x script')
    show ?thesis
    proof (cases "\<exists>n. x = IoBytes n")
      case False
      with Cons good have r: "io_retries script" "x = IoRetry"
        by (cases x; auto simp: io_fails_def io_retries_def)+
      from "1.IH"(1) [OF c good(1) r(1) good(2) 1(4-7)] show ?thesis
        using c good(1) r unfolding step by (simp add: Cons)
    next
      case True
      then obtain n where x: "x = IoBytes n" by blast
      have r: "\<not> io_retries script" by (simp add: Cons x io_retries_def)
      define adj where "adj = (if sent + ?k < tot then adjust_iov ?k iov else (0, iov))"
      let ?next = "send_vectors_loop script' (snd adj) (moved + fst adj) (sent + ?k) tot (wire @ take ?k (concat iov))"
      have k: "?k = min n (tot - sent)" "?k \<noteq> 0"
        using good(3) [of "tot - sent"] c by (simp_all add: 1(5) [symmetric] Cons x io_count_def)
      have loop: "send_vectors_loop script iov moved sent tot wire = ?next"
        using c good(1) r k(2) unfolding step adj_def by (simp add: Let_def Cons)
      consider "tot \<le> sent + n" | "sent + n < sent + length v" "sent + n < tot"
        | "sent + length v \<le> sent + n" "sent + n < tot" by linarith
      then show ?thesis
      proof cases
        case 1
        then have "?next = (0, script', wire @ take ?k (concat iov), moved)"
          using k c by (simp add: adj_def send_vectors_loop.simps [of script' _ _ _ tot])
        moreover have "tot \<le> s" if "s \<in> set (stops script' (sent + n))" for s using stops_ge [OF that] 1 by simp
        ultimately show ?thesis using 1 unfolding loop by (auto simp: Cons x)
      next
        case 2
        then have kn: "?k = n" and adj: "adj = (0, drop n v # vs)"
          using k "1.prems"(4) by (simp_all add: adj_def)
        have "tot - (sent + ?k) = length (concat (snd adj))" using 1(5) 2 kn by (simp add: adj "1.prems"(4))
        from "1.IH"(2) [OF c good(1) r refl refl refl k(2) adj_def good(2) _ this, of "drop n v"] 2 kn
        show ?thesis unfolding loop by (auto simp: Cons x adj)
      next
        case 3
        then have kn: "?k = n" using k by simp
        have "0 < fst adj" using adjust_iov_moves [of v n vs] 3 kn "1.prems"(4) by (simp add: adj_def)
        then have "snd (snd (snd ?next)) \<noteq> moved"
          using send_vectors_loop_moves [of "moved + fst adj" script' "snd adj" "sent + ?k" tot "wire @ take ?k (concat iov)"]
          by simp
        with 3 show ?thesis unfolding loop by (auto simp: Cons x)
      qed
    qed
  qed
qed

lemma send_vectors_freed:
  assumes "io_good script" "fst (mem_alloc m)" "v \<noteq> []"
    and "mcp_socket_send_vectors m script (v # vs) wire = (rc, script', wire', freed)"
  shows "valid_free freed \<longleftrightarrow> vs = [] \<or>
    (\<forall>s \<in> set (stops script 0). s < length v \<or> length (concat (v # vs)) \<le> s)"
proof -
  have tot: "0 < length (concat (v # vs))" using assms(3) by simp
  obtain rc1 s1 w1 moved where
    l: "send_vectors_loop script (v # vs) 0 0 (length (concat (v # vs))) wire = (rc1, s1, w1, moved)"
    by (metis prod_cases4)
  have "moved = 0 \<longleftrightarrow> (\<forall>s \<in> set (stops script 0). s < length v \<or> length (concat (v # vs)) \<le> s)"
    using send_vectors_loop_unmoved [OF assms(1) tot _ refl assms(3), where vs = vs and moved = 0 and wire = wire]
    by (simp add: l del: concat.simps)
  moreover have "freed = (if vs = [] then None else Some moved)"
    using assms(2-4) l tot
    by (auto simp: mcp_socket_send_vectors_def length_concat_sum Let_def split: if_splits)
  ultimately show ?thesis by (simp add: valid_free_def del: concat.simps)
qed

lemma be32_length [simp]: "length (be32 n) = 4"
  by (simp add: be32_def)

lemma be32_nonempty: "be32 n \<noteq> []"
  by (simp add: be32_def)

lemma of_char_byte: "(of_nat (of_char (char_of (unat w) :: char)) :: u32) = take_bit 8 w" for w :: u32
proof -
  have "of_char (char_of (unat w) :: char) = unat (take_bit 8 w)" by (simp add: unat_take_bit_mod)
  then show ?thesis by simp
qed

lemma from_be32_be32 [simp]: "from_be32 (be32 n) = n"
proof -
  have "from_be32 (be32 n) = push_bit 8 (push_bit 8 (push_bit 8 (take_bit 8 (drop_bit 24 n)) OR
     take_bit 8 (drop_bit 16 n)) OR take_bit 8 (drop_bit 8 n)) OR take_bit 8 n"
    unfolding from_be32_def be32_def list.map foldl.simps of_char_byte by simp
  also have "\<dots> = n"
  proof (rule bit_word_eqI)
    fix i assume "i < LENGTH(32)"
    then have i: "i < 32" by simp
    then consider "i < 8" | "8 \<le> i" "i < 16" | "16 \<le> i" "i < 24" | "24 \<le> i" by linarith
    then show "bit (push_bit 8 (push_bit 8 (push_bit 8 (take_bit 8 (drop_bit 24 n)) OR
     take_bit 8 (drop_bit 16 n)) OR take_bit 8 (drop_bit 8 n)) OR take_bit 8 n) i = bit n i"
      using i by cases (auto simp: bit_simps)
  qed
  finally show ?thesis .
qed


section \<open>Frames and batches\<close>

definition frame :: "string \<times> u32 \<Rightarrow> string" where
  "frame p = be32 (snd p) @ take (unat (snd p)) (fst p)"

definition received_of :: "string \<times> u32 \<Rightarrow> received" where
  "received_of p = (if snd p = 0 then NoMessage else Message (take (unat (snd p)) (fst p)))"

definition sendable :: "u32 \<Rightarrow> string \<times> u32 \<Rightarrow> bool" where
  "sendable limit p \<longleftrightarrow> snd p \<le> limit \<and> unat (snd p) \<le> length (fst p)"

lemma concat_batch_iov: "concat (batch_iov msgs) = concat (map frame msgs)"
proof (induction msgs)
  case (Cons p msgs)
  then show ?case by (cases "0 < snd p") (auto simp: batch_iov_def frame_def word_neq_0_conv [symmetric] split: prod.splits)
qed (simp add: batch_iov_def)

lemma batch_iov_single: "batch_iov [(msg, n)] = be32 n # (if 0 < n then [take (unat n) msg] else [])"
  by (simp add: batch_iov_def)

lemma u32_Suc_no_wrap:
  fixes n limit :: u32
  assumes "n \<le> limit" "limit < 0xFFFFFFFF"
  shows "unat (n + 1) = unat n + 1"
proof -
  have "unat n < unat (0xFFFFFFFF :: u32)" using assms by (simp add: word_less_nat_alt word_le_nat_alt)
  then show ?thesis using unat_add_no_wrap [of n 1] by simp
qed

lemma recv_message_frame:
  assumes s: "sendable limit p" and limit: "limit < 0xFFFFFFFF" and good: "io_good script"
  obtains script' where
    "mcp_framing_recv_message [] script limit (frame p @ rest) = (received_of p, [], script', rest)" "io_good script'"
proof -
  obtain msg n where p: "p = (msg, n)" by (cases p)
  obtain script1 where r1: "mcp_socket_recv_exact script 4 (frame p @ rest) =
      (Some (be32 n), script1, take (unat n) msg @ rest)" and g1: "io_good script1"
    using recv_exact_good [OF good, of 4 "frame p @ rest"] by (auto simp: frame_def p)
  have len: "length (take (unat n) msg) = unat n" using s by (simp add: sendable_def p)
  show thesis
  proof (cases "n = 0")
    case True
    then show thesis using r1 g1 by (intro that) (auto simp: mcp_framing_recv_message_def received_of_def p Let_def)
  next
    case False
    obtain script2 where r2: "mcp_socket_recv_exact script1 (unat n) (take (unat n) msg @ rest) =
        (Some (take (unat n) msg), script2, rest)" and g2: "io_good script2"
      using recv_exact_good [OF g1, of "unat n" "take (unat n) msg @ rest"] len by auto
    have "unat (n + 1) = unat n + 1" using u32_Suc_no_wrap [of n limit] s limit by (simp add: sendable_def p)
    moreover have "\<not> limit < n" using s by (simp add: sendable_def p not_less)
    ultimately show thesis using r1 r2 g2 False
      by (intro that [of script2]) (auto simp: mcp_framing_recv_message_def received_of_def p Let_def)
  qed
qed

lemma recv_batch_loop_frames:
  assumes "\<forall>p \<in> set msgs. sendable limit p" "limit < 0xFFFFFFFF" "io_good script"
    "set polls \<subseteq> {Readable}"
  shows "recv_batch_loop (length msgs) i polls [] script limit (concat (map frame msgs) @ rest) acc =
    (0, acc @ map received_of msgs, rest)"
  using assms
proof (induction msgs arbitrary: i polls script acc)
  case (Cons p msgs)
  obtain script' where r: "mcp_framing_recv_message [] script limit (frame p @ concat (map frame msgs) @ rest) =
      (received_of p, [], script', concat (map frame msgs) @ rest)" and g: "io_good script'"
    using recv_message_frame Cons.prems by (metis list.set_intros(1))
  have poll: "(case polls of [] \<Rightarrow> Readable | q # _ \<Rightarrow> q) = Readable" "set (tl polls) \<subseteq> {Readable}"
    using Cons.prems(4) by (cases polls; simp)+
  have "received_of p \<noteq> RecvError" "received_of p \<noteq> Overrun" by (simp_all add: received_of_def)
  with r poll Cons.IH [OF _ Cons.prems(2) g poll(2)] Cons.prems(1) show ?case by (simp add: Let_def)
qed simp

section \<open>Properties\<close>

text \<open>Claim C15.  \<open>mcp_framing_send_message\<close> and \<open>mcp_framing_recv_message\<close> are inverse to each other.
  The sender's and the receiver's calls do not fail, but may be interrupted and split in any way; the
  array of the vector can be allocated; the length of the message is at most the receiver's limit, which
  is below \<open>UINT32_MAX\<close>.  When no \<open>writev\<close> stops inside the body, that is at a position from 4 on and
  before the end (it may stop inside the length prefix), the message is sent completely, and the receiver
  of the bytes gets it back (NULL for the empty message) with the stream positioned at what follows,
  however the bytes arrive.  When one does, the pointer \<open>temp_iov\<close> has been moved and the call
  ends with an invalid free, whatever else happens.\<close>

theorem framing_message_roundtrip:
  assumes "io_good script" "io_good script'" "fst (mem_alloc m)"
    and "message_len \<le> limit" "limit < 0xFFFFFFFF" "unat message_len \<le> length message"
  shows "if \<exists>s \<in> set (stops script 0). 4 \<le> s \<and> s < 4 + unat message_len
    then mcp_framing_send_message m script (Some message) message_len wire = Undefined
    else \<exists>left bytes.
      mcp_framing_send_message m script (Some message) message_len wire = Done (0, left, wire @ bytes) \<and>
      (\<forall>rest. \<exists>left'. mcp_framing_recv_message [] script' limit (bytes @ rest) =
         (if message_len = 0 then NoMessage else Message (take (unat message_len) message), [], left', rest))"
proof -
  let ?p = "(message, message_len)"
  obtain left freed where s: "mcp_socket_send_vectors m script (batch_iov [?p]) wire =
      (0, left, wire @ frame ?p, freed)"
    using send_vectors_good [OF assms(1,3), of "batch_iov [?p]" wire] by (auto simp: concat_batch_iov)
  have sent: "mcp_framing_send_message m script (Some message) message_len wire =
      (if valid_free freed then Done (0, left, wire @ frame ?p) else Undefined)"
    using s by (auto simp: mcp_framing_send_message_def batch_iov_def Let_def split: if_splits)
  have freed: "valid_free freed \<longleftrightarrow> \<not> (\<exists>s \<in> set (stops script 0). 4 \<le> s \<and> s < 4 + unat message_len)"
    using send_vectors_freed [OF assms(1,3) be32_nonempty s [unfolded batch_iov_single]] assms(6)
    by (cases "message_len = 0") (auto simp: not_le not_less word_neq_0_conv [symmetric])
  have "sendable limit ?p" using assms by (simp add: sendable_def)
  with assms(2,5) have "\<exists>left'. mcp_framing_recv_message [] script' limit (frame ?p @ rest) =
      (received_of ?p, [], left', rest)" for rest by (metis recv_message_frame)
  with sent freed show ?thesis by (auto simp: received_of_def)
qed

theorem framing_message_roundtrip_witness:
  "(\<exists>left bytes. mcp_framing_send_message [] [IoBytes 2, IoRetry, IoBytes 1] (Some ''abc'') 3 ''x'' =
      Done (0, left, ''x'' @ bytes) \<and>
    (\<forall>rest. \<exists>left'. mcp_framing_recv_message [] [IoRetry, IoBytes 1, IoBytes 2] 100 (bytes @ rest) =
       (Message ''abc'', [], left', rest))) \<and>
   mcp_framing_send_message [] [IoBytes 5] (Some ''abc'') 3 ''x'' = Undefined"
  using framing_message_roundtrip [of "[IoBytes 2, IoRetry, IoBytes 1]" "[IoRetry, IoBytes 1, IoBytes 2]" "[]" 3 100 "''abc''" "''x''"]
    framing_message_roundtrip [of "[IoBytes 5]" "[]" "[]" 3 100 "''abc''" "''x''"]
  by (simp add: io_good_def)

text \<open>\<open>mcp_framing_send_batch\<close> and \<open>mcp_framing_recv_batch\<close> are inverse to each other, when no
  \<open>writev\<close> stops between the first length prefix and the end of the batch: all the messages of a batch
  arrive in order, when the receiver asks for that many and finds data whenever it polls, and nothing
  behind the batch is consumed.  When one does, the call ends with an invalid free.\<close>

theorem framing_batch_roundtrip:
  assumes "io_good script" "io_good script'" "set polls \<subseteq> {Readable}" "msgs \<noteq> []" "limit < 0xFFFFFFFF"
    and "\<forall>(msg, len) \<in> set msgs. len \<le> limit \<and> unat len \<le> length msg"
  shows "if \<exists>s \<in> set (stops script 0). 4 \<le> s \<and> s < length (concat (batch_iov msgs))
    then mcp_framing_send_batch [] script msgs wire = Undefined
    else \<exists>left bytes. mcp_framing_send_batch [] script msgs wire = Done (0, [], left, wire @ bytes) \<and>
      (\<forall>rest. mcp_framing_recv_batch (length msgs) polls [] script' limit (bytes @ rest) =
         (0, map (\<lambda>(msg, len). if len = 0 then NoMessage else Message (take (unat len) msg)) msgs, rest))"
proof -
  obtain left freed where s: "mcp_socket_send_vectors [] script (batch_iov msgs) wire =
      (0, left, wire @ concat (map frame msgs), freed)"
    using send_vectors_good [OF assms(1), of "[]" "batch_iov msgs" wire] by (auto simp: concat_batch_iov)
  obtain len vs where iov: "batch_iov msgs = be32 len # vs"
    using assms(4) by (cases msgs) (auto simp: batch_iov_def)
  have freed: "valid_free freed \<longleftrightarrow> \<not> (\<exists>s \<in> set (stops script 0). 4 \<le> s \<and> s < length (concat (batch_iov msgs)))"
    using send_vectors_freed [OF assms(1) _ be32_nonempty s [unfolded iov]] by (auto simp: iov not_le not_less)
  have ok: "\<forall>p \<in> set msgs. sendable limit p" using assms(6) by (auto simp: sendable_def)
  have r: "map received_of msgs =
      map (\<lambda>(msg, len). if len = 0 then NoMessage else Message (take (unat len) msg)) msgs"
    by (auto simp: received_of_def)
  have "mcp_framing_recv_batch (length msgs) polls [] script' limit (concat (map frame msgs) @ rest) =
      (0, map received_of msgs, rest)" for rest
    using recv_batch_loop_frames [OF ok assms(5,2,3), of 0 rest "[]"] assms(4)
    by (simp add: mcp_framing_recv_batch_def)
  with s freed assms(4) show ?thesis unfolding r by (auto simp: mcp_framing_send_batch_def)
qed

theorem framing_batch_roundtrip_witness:
  "\<exists>left bytes. mcp_framing_send_batch [] [IoBytes 3] [(''ab'', 2), ([], 0), (''c'', 1)] [] = Done (0, [], left, bytes) \<and>
    (\<forall>rest. mcp_framing_recv_batch 3 [Readable] [] [IoBytes 3] 64 (bytes @ rest) =
       (0, [Message ''ab'', NoMessage, Message ''c''], rest))"
  using framing_batch_roundtrip [of "[IoBytes 3]" "[IoBytes 3]" "[Readable]" "[(''ab'', 2), ([], 0), (''c'', 1)]" 64 "[]"]
  by (simp add: io_good_def numeral_3_eq_3)

text \<open>Whatever the operating system does, \<open>mcp_socket_send_vectors\<close> puts a prefix of the
  concatenated buffers on the wire, and returns 0 exactly when it has sent all of them; when no call
  fails and no memory is missing it does.\<close>

theorem send_vectors_sends_prefix:
  assumes "mcp_socket_send_vectors m script iov wire = (rc, left, wire', freed)"
  shows "(\<exists>k \<le> length (concat iov). wire' = wire @ take k (concat iov) \<and>
      (rc = 0 \<longleftrightarrow> k = length (concat iov))) \<and> rc \<in> {0, -1} \<and>
    (io_good script \<and> fst (mem_alloc m) \<longrightarrow> rc = 0)"
proof -
  have "io_good script \<and> fst (mem_alloc m) \<longrightarrow> rc = 0"
    using send_vectors_good [of script m iov wire] assms by (metis Pair_inject)
  with send_vectors_cases [OF assms] show ?thesis by blast
qed

theorem send_vectors_sends_prefix_witness:
  "mcp_socket_send_vectors [] [IoBytes 3, IoError] [''ab'', ''cde''] ''x'' = (-1, [], ''xabc'', Some 1) \<and>
   (\<exists>k \<le> 5. ''xabc'' = ''x'' @ take k ''abcde'' \<and> ((-1::int) = 0 \<longleftrightarrow> k = 5))"
proof -
  have run: "mcp_socket_send_vectors [] [IoBytes 3, IoError] [''ab'', ''cde''] ''x'' = (-1, [], ''xabc'', Some 1)"
    by (simp add: mcp_socket_send_vectors_def send_vectors_loop.simps io_fails_def io_retries_def io_count_def Let_def)
  from send_vectors_sends_prefix [OF run] run show ?thesis by (simp add: eval_nat_numeral)
qed

text \<open>\<open>mcp_socket_recv_exact\<close> delivers the next \<open>len\<close> bytes of the stream and leaves the rest,
  no matter how they are segmented; it never returns a short or reordered buffer, and it succeeds when
  the bytes arrive and no call fails.\<close>

theorem recv_exact_independent_of_segments:
  assumes "mcp_socket_recv_exact script len stream = (r, left, stream')"
  shows "(\<forall>bs. r = Some bs \<longrightarrow> len \<le> length stream \<and> bs = take len stream \<and> stream' = drop len stream) \<and>
    (io_good script \<and> len \<le> length stream \<longrightarrow> r = Some (take len stream))"
proof -
  have "io_good script \<and> len \<le> length stream \<longrightarrow> r = Some (take len stream)"
    using recv_exact_good [of script len stream] assms by (metis Pair_inject)
  with recv_exact_ok assms show ?thesis by blast
qed

theorem recv_exact_independent_of_segments_witness:
  "mcp_socket_recv_exact [IoBytes 1, IoRetry, IoBytes 2] 4 ''abcdef'' = (Some ''abcd'', [], ''ef'') \<and>
   ''abcd'' = take 4 ''abcdef'' \<and> ''ef'' = drop 4 ''abcdef''"
proof -
  have run: "mcp_socket_recv_exact [IoBytes 1, IoRetry, IoBytes 2] 4 ''abcdef'' = (Some ''abcd'', [], ''ef'')"
    by (simp add: mcp_socket_recv_exact_def recv_exact_loop.simps io_fails_def io_retries_def io_count_def Let_def)
  from recv_exact_independent_of_segments [OF run] run show ?thesis by simp
qed

text \<open>Whatever bytes arrive, a received message is not empty and not longer than the limit, and
  the receiver does not write outside its buffer, provided the limit is not \<open>UINT32_MAX\<close>.  The proviso
  is needed: with that limit, a length prefix of four bytes \<open>0xFF\<close> makes \<open>message_length_host + 1\<close>
  wrap to 0, and the body is received into a buffer of 0 bytes.\<close>

theorem framing_recv_within_limit:
  "(limit < 0xFFFFFFFF \<longrightarrow> fst (mcp_framing_recv_message m script limit stream) \<noteq> Overrun) \<and>
   (fst (mcp_framing_recv_message m script limit stream) = Message msg \<longrightarrow> 0 < length msg \<and> length msg \<le> unat limit) \<and>
   fst (mcp_framing_recv_message [] [] 0xFFFFFFFF (be32 0xFFFFFFFF @ body)) = Overrun"
proof -
  obtain r1 script1 stream1 where r1: "mcp_socket_recv_exact script 4 stream = (r1, script1, stream1)"
    by (metis prod_cases3)
  have big: "mcp_socket_recv_exact [] 4 (be32 0xFFFFFFFF @ body) = (Some (be32 0xFFFFFFFF), [], body)"
    by (simp add: recv_exact_full)
  have "fst (mcp_framing_recv_message [] [] 0xFFFFFFFF (be32 0xFFFFFFFF @ body)) = Overrun"
    by (simp add: mcp_framing_recv_message_def big Let_def)
  moreover have "limit < 0xFFFFFFFF \<longrightarrow> fst (mcp_framing_recv_message m script limit stream) \<noteq> Overrun"
  proof
    assume "limit < 0xFFFFFFFF"
    then have "unat (n + 1) = unat n + 1" if "\<not> limit < n" for n using that u32_Suc_no_wrap [of n limit] by simp
    then show "fst (mcp_framing_recv_message m script limit stream) \<noteq> Overrun"
      by (auto simp: mcp_framing_recv_message_def r1 Let_def split: option.splits prod.splits)
  qed
  moreover have "0 < length msg \<and> length msg \<le> unat limit"
    if "fst (mcp_framing_recv_message m script limit stream) = Message msg"
  proof -
    from that obtain bs script2 stream2 where "r1 = Some bs" "from_be32 bs \<noteq> 0" "\<not> limit < from_be32 bs"
      "mcp_socket_recv_exact script1 (unat (from_be32 bs)) stream1 = (Some msg, script2, stream2)"
      by (auto simp: mcp_framing_recv_message_def r1 Let_def split: option.splits prod.splits if_splits)
    with recv_exact_ok show ?thesis
      by (fastforce simp: word_le_nat_alt not_less unat_eq_zero)
  qed
  ultimately show ?thesis by blast
qed

theorem framing_recv_within_limit_witness:
  "fst (mcp_framing_recv_message [] [] 9 (be32 2 @ ''ab'')) \<noteq> Overrun \<and> 0 < length ''ab'' \<and> length ''ab'' \<le> unat (9::u32)"
proof -
  have "sendable 9 (''ab'', 2)" by (simp add: sendable_def)
  then obtain left where "mcp_framing_recv_message [] [] 9 (frame (''ab'', 2) @ []) = (received_of (''ab'', 2), [], left, [])"
    using recv_message_frame [of 9 "(''ab'', 2)" "[]" "[]"] by (auto simp: io_good_def)
  then have "fst (mcp_framing_recv_message [] [] 9 (be32 2 @ ''ab'')) = Message ''ab''"
    by (simp add: frame_def received_of_def)
  with framing_recv_within_limit [of 9 "[]" "[]" "be32 2 @ ''ab''" "''ab''"] show ?thesis by simp
qed

text \<open>When a \<open>writev\<close> stops exactly behind, or beyond, the first of several buffers, the loop
  advances \<open>temp_iov\<close> itself, and this advanced pointer is what is freed at the end: the transfer
  succeeds, and then a pointer that the allocator never returned is given back to it.  A transfer in
  one piece frees the array that was allocated.\<close>

theorem send_vectors_frees_moved_pointer:
  assumes "v \<noteq> []" "w \<noteq> []"
  shows "mcp_socket_send_vectors [] [IoBytes (length v)] (v # w # iov) wire =
      (0, [], wire @ concat (v # w # iov), Some 1) \<and>
    mcp_socket_send_vectors [] [] (v # w # iov) wire = (0, [], wire @ concat (v # w # iov), Some 0)"
proof (intro conjI)
  have adj: "adjust_iov (length v) (v # w # iov) = (1, w # iov)" using assms(2) by simp
  show "mcp_socket_send_vectors [] [IoBytes (length v)] (v # w # iov) wire =
      (0, [], wire @ concat (v # w # iov), Some 1)"
    using assms adj
    by (simp add: mcp_socket_send_vectors_def send_vectors_loop.simps io_fails_def io_retries_def io_count_def
        Let_def length_concat_sum del: adjust_iov.simps)
  show "mcp_socket_send_vectors [] [] (v # w # iov) wire = (0, [], wire @ concat (v # w # iov), Some 0)"
    using assms by (simp add: mcp_socket_send_vectors_def send_vectors_loop.simps Let_def length_concat_sum)
qed

theorem send_vectors_frees_moved_pointer_witness:
  "mcp_socket_send_vectors [] [IoBytes (length ''ab'')] [''ab'', ''cd''] [] = (0, [], ''abcd'', Some 1)"
  using send_vectors_frees_moved_pointer [of "''ab''" "''cd''" "[]" "[]"] by simp

end
