(* ===== verification/Mcp_Hashtable.thy ===== *)
theory Mcp_Hashtable
  imports Mcp_Prelude "HOL-Library.Multiset"
begin

text \<open>
  The generic chained hash table, \<open>src/common/mcp_hashtable.c\<close>.

  A table is its array of buckets, each bucket the list of the \<open>(key, value)\<close> entries of its
  chain in chain order, with the fields \<open>capacity\<close>, \<open>size\<close> and \<open>load_factor_threshold\<close>.  It is a
  datatype with selectors rather than a record so that JSON objects can nest tables of JSON
  values.  The function pointers of the C structure are set once, by \<open>mcp_hashtable_create\<close>;
  here they are the record \<open>hash_ops\<close>, the first argument of every operation.  Keys are modelled
  by the values they point to, so \<open>key_dup\<close> returns an equal key when its allocation succeeds.
  Pointers to tables and keys are not NULL; the guards against NULL at the head of the
  functions have no counterpart.

  The callbacks \<open>key_free\<close> and \<open>value_free\<close> are calls out of the module: an operation returns
  the list of the calls it makes.

  The test \<open>(float)(size + 1) / capacity > threshold\<close> is evaluated exactly: \<open>f32_of_nat\<close> is the
  conversion of a \<open>size_t\<close> to \<open>float\<close> (24 significant bits, ties to even), the capacity is a power
  of two, which a \<open>float\<close> represents exactly and by which it divides exactly, and the threshold is
  a rational number.  Division by a zero capacity is infinite, hence above every threshold.
\<close>

section \<open>Data\<close>

datatype ('k, 'v) mcp_hashtable =
  Hashtable (ht_buckets: "('k \<times> 'v) list list") (ht_capacity: size_t) (ht_size: size_t)
    (ht_threshold: rat)

record 'k hash_ops =
  hash_func :: "'k \<Rightarrow> size_t"
  key_compare :: "'k \<Rightarrow> 'k \<Rightarrow> bool"
  key_dup :: "mem \<Rightarrow> 'k \<Rightarrow> 'k option \<times> mem"
  has_value_free :: bool   \<comment> \<open>\<open>value_free\<close> is not NULL\<close>

datatype ('k, 'v) ht_event = KeyFree 'k | ValueFree 'v

section \<open>Capacities and load factor\<close>

fun bit_len :: "nat \<Rightarrow> nat" where
  "bit_len n = (if n = 0 then 0 else Suc (bit_len (n div 2)))"

declare bit_len.simps [simp del]

definition f32_of_nat :: "nat \<Rightarrow> nat" where
  "f32_of_nat n =
     (let s = bit_len n - 24; q = n div 2 ^ s; r = n mod 2 ^ s; h = 2 ^ (s - 1)
      in if s = 0 then n
         else if h < r \<or> (r = h \<and> odd q) then (q + 1) * 2 ^ s else q * 2 ^ s)"

definition load_exceeds :: "size_t \<Rightarrow> size_t \<Rightarrow> rat \<Rightarrow> bool" where
  "load_exceeds n cap thr \<longleftrightarrow>
     (cap = 0 \<or> thr < of_nat (f32_of_nat (unat n)) / of_nat (unat cap))"

definition is_power_of_two :: "size_t \<Rightarrow> bool" where
  "is_power_of_two n \<longleftrightarrow> n \<noteq> 0 \<and> n AND (n - 1) = 0"

text \<open>
  The doubling loop of \<open>next_power_of_two\<close>.  It stops because a word is zero after at most 64
  shifts: what decreases is the number of shifts that make the value zero.
\<close>

definition shifts_to_zero :: "size_t \<Rightarrow> nat" where
  "shifts_to_zero p = (LEAST k. push_bit k p = 0)"

lemma shifts_to_zero_push:
  assumes "push_bit 1 p \<noteq> 0"
  shows "shifts_to_zero (push_bit 1 p) < shifts_to_zero p"
proof -
  have "push_bit 64 p = 0"
    by (rule bit_word_eqI) (simp add: bit_simps)
  then have z: "push_bit (shifts_to_zero p) p = 0"
    unfolding shifts_to_zero_def by (rule LeastI)
  have "p \<noteq> 0" using assms by auto
  with z obtain k where k: "shifts_to_zero p = Suc k"
    by (cases "shifts_to_zero p") auto
  with z have "push_bit k (push_bit 1 p) = 0"
    by simp
  then have "shifts_to_zero (push_bit 1 p) \<le> k"
    unfolding shifts_to_zero_def by (rule Least_le)
  with k show ?thesis by simp
qed

function next_power_loop :: "size_t \<Rightarrow> size_t \<Rightarrow> size_t" where
  "next_power_loop n pw =
     (if pw < n
      then (let pw' = push_bit 1 pw
            in if pw' = 0 then n else next_power_loop n pw')
      else pw)"
  by pat_completeness auto
termination
  by (relation "measure (\<lambda>(n, p). shifts_to_zero p)") (auto dest: shifts_to_zero_push [simplified])

declare next_power_loop.simps [simp del]

definition next_power_of_two :: "size_t \<Rightarrow> size_t" where
  "next_power_of_two n =
     (if n = 0 then 1 else if is_power_of_two n then n else next_power_loop n 1)"

section \<open>Operations\<close>

text \<open>
  The allocation of a bucket array: \<open>capacity * sizeof(mcp_hashtable_entry_t*)\<close> is computed in
  \<open>size_t\<close> and may wrap; \<open>malloc\<close> refuses more than \<open>PTRDIFF_MAX\<close> bytes.  The array has as many
  slots as the bytes granted hold.
\<close>

definition alloc_buckets :: "mem \<Rightarrow> size_t \<Rightarrow> ('k \<times> 'v) list list option \<times> mem" where
  "alloc_buckets m cap =
     (let bytes = cap * 8
      in if 2 ^ 63 \<le> unat bytes then (None, m)
         else let (ok, m') = mem_alloc m
              in (if ok then Some (replicate (unat bytes div 8) []) else None, m'))"

definition bucket_index :: "'k hash_ops \<Rightarrow> size_t \<Rightarrow> 'k \<Rightarrow> nat" where
  "bucket_index ops cap k = unat (hash_func ops k AND (cap - 1))"

definition rehash_entry ::
    "'k hash_ops \<Rightarrow> size_t \<Rightarrow> ('k \<times> 'v) list list \<Rightarrow> 'k \<times> 'v \<Rightarrow> ('k \<times> 'v) list list" where
  "rehash_entry ops new_capacity nb e =
     (let new_index = bucket_index ops new_capacity (fst e)
      in nb[new_index := e # nb ! new_index])"

definition hashtable_resize ::
    "'k hash_ops \<Rightarrow> mem \<Rightarrow> ('k, 'v) mcp_hashtable \<Rightarrow> size_t \<Rightarrow> int \<times> ('k, 'v) mcp_hashtable \<times> mem" where
  "hashtable_resize ops m t new_capacity =
     (if new_capacity \<le> ht_capacity t then (-1, t, m)
      else case alloc_buckets m new_capacity of
             (None, m') \<Rightarrow> (-1, t, m')
           | (Some nb, m') \<Rightarrow>
               (0, Hashtable (foldl (rehash_entry ops new_capacity) nb (concat (ht_buckets t)))
                     new_capacity (ht_size t) (ht_threshold t), m'))"

definition mcp_hashtable_create ::
    "mem \<Rightarrow> size_t \<Rightarrow> rat \<Rightarrow> ('k, 'v) mcp_hashtable option \<times> mem" where
  "mcp_hashtable_create m initial_capacity load_factor_threshold =
     (let cap = (if initial_capacity = 0 then 16
                 else if \<not> is_power_of_two initial_capacity then next_power_of_two initial_capacity
                 else initial_capacity);
          thr = (if load_factor_threshold \<le> 0 \<or> 1 \<le> load_factor_threshold then 3 / 4
                 else load_factor_threshold);
          (ok, m1) = mem_alloc m
      in if \<not> ok then (None, m1)
         else case alloc_buckets m1 cap of
                (None, m2) \<Rightarrow> (None, m2)
              | (Some bs, m2) \<Rightarrow> (Some (Hashtable bs cap 0 thr), m2))"

text \<open>
  The search along a chain: the entries passed, the entry found and the entries after it.
\<close>

fun find_entry :: "'k hash_ops \<Rightarrow> 'k \<Rightarrow> ('k \<times> 'v) list \<Rightarrow> (('k \<times> 'v) list \<times> ('k \<times> 'v) \<times> ('k \<times> 'v) list) option" where
  "find_entry ops k [] = None"
| "find_entry ops k (e # es) =
     (if key_compare ops (fst e) k then Some ([], e, es)
      else case find_entry ops k es of
             None \<Rightarrow> None
           | Some (pre, e', post) \<Rightarrow> Some (e # pre, e', post))"

definition value_free_call :: "'k hash_ops \<Rightarrow> 'v \<Rightarrow> ('k, 'v) ht_event list" where
  "value_free_call ops v = (if has_value_free ops then [ValueFree v] else [])"

definition mcp_hashtable_put ::
    "'k hash_ops \<Rightarrow> mem \<Rightarrow> ('k, 'v) mcp_hashtable \<Rightarrow> 'k \<Rightarrow> 'v \<Rightarrow>
     int \<times> ('k, 'v) mcp_hashtable \<times> ('k, 'v) ht_event list \<times> mem" where
  "mcp_hashtable_put ops m t k v =
     (let (rc, t1, m1) = (if load_exceeds (ht_size t + 1) (ht_capacity t) (ht_threshold t)
                          then hashtable_resize ops m t (ht_capacity t * 2) else (0, t, m))
      in if rc \<noteq> 0 then (-1, t1, [], m1)
         else let index = bucket_index ops (ht_capacity t1) k;
                  chain = ht_buckets t1 ! index
              in case find_entry ops k chain of
                   Some (pre, (k', old), post) \<Rightarrow>
                     (0, Hashtable ((ht_buckets t1)[index := pre @ (k', v) # post])
                           (ht_capacity t1) (ht_size t1) (ht_threshold t1),
                      value_free_call ops old, m1)
                 | None \<Rightarrow>
                     (let (ok, m2) = mem_alloc m1
                      in if \<not> ok then (-1, t1, [], m2)
                         else case key_dup ops m2 k of
                                (None, m3) \<Rightarrow> (-1, t1, [], m3)
                              | (Some k', m3) \<Rightarrow>
                                  (0, Hashtable ((ht_buckets t1)[index := chain @ [(k', v)]])
                                        (ht_capacity t1) (ht_size t1 + 1) (ht_threshold t1),
                                   [], m3)))"

definition mcp_hashtable_get ::
    "'k hash_ops \<Rightarrow> ('k, 'v) mcp_hashtable \<Rightarrow> 'k \<Rightarrow> int \<times> 'v option" where
  "mcp_hashtable_get ops t k =
     (case find_entry ops k (ht_buckets t ! bucket_index ops (ht_capacity t) k) of
        Some (_, (_, v), _) \<Rightarrow> (0, Some v)
      | None \<Rightarrow> (-1, None))"

definition mcp_hashtable_remove ::
    "'k hash_ops \<Rightarrow> ('k, 'v) mcp_hashtable \<Rightarrow> 'k \<Rightarrow>
     int \<times> ('k, 'v) mcp_hashtable \<times> ('k, 'v) ht_event list" where
  "mcp_hashtable_remove ops t k =
     (let index = bucket_index ops (ht_capacity t) k
      in case find_entry ops k (ht_buckets t ! index) of
           Some (pre, (k', v), post) \<Rightarrow>
             (0, Hashtable ((ht_buckets t)[index := pre @ post])
                   (ht_capacity t) (ht_size t - 1) (ht_threshold t),
              KeyFree k' # value_free_call ops v)
         | None \<Rightarrow> (-1, t, []))"

definition mcp_hashtable_contains :: "'k hash_ops \<Rightarrow> ('k, 'v) mcp_hashtable \<Rightarrow> 'k \<Rightarrow> bool" where
  "mcp_hashtable_contains ops t k \<longleftrightarrow>
     find_entry ops k (ht_buckets t ! bucket_index ops (ht_capacity t) k) \<noteq> None"

definition mcp_hashtable_size :: "('k, 'v) mcp_hashtable option \<Rightarrow> size_t" where
  "mcp_hashtable_size t = (case t of None \<Rightarrow> 0 | Some t \<Rightarrow> ht_size t)"

definition free_entry :: "'k hash_ops \<Rightarrow> 'k \<times> 'v \<Rightarrow> ('k, 'v) ht_event list" where
  "free_entry ops e = KeyFree (fst e) # value_free_call ops (snd e)"

definition mcp_hashtable_clear ::
    "'k hash_ops \<Rightarrow> ('k, 'v) mcp_hashtable \<Rightarrow> ('k, 'v) mcp_hashtable \<times> ('k, 'v) ht_event list" where
  "mcp_hashtable_clear ops t =
     (Hashtable (map (\<lambda>_. []) (ht_buckets t)) (ht_capacity t) 0 (ht_threshold t),
      concat (map (\<lambda>chain. concat (map (free_entry ops) chain)) (ht_buckets t)))"

definition mcp_hashtable_destroy ::
    "'k hash_ops \<Rightarrow> ('k, 'v) mcp_hashtable \<Rightarrow> ('k, 'v) ht_event list" where
  "mcp_hashtable_destroy ops t = snd (mcp_hashtable_clear ops t)"

definition mcp_hashtable_foreach ::
    "('k \<Rightarrow> 'v \<Rightarrow> 's \<Rightarrow> 's) \<Rightarrow> ('k, 'v) mcp_hashtable \<Rightarrow> 's \<Rightarrow> 's" where
  "mcp_hashtable_foreach callback t user_data =
     foldl (foldl (\<lambda>s e. callback (fst e) (snd e) s)) user_data (ht_buckets t)"


section \<open>Hash functions and key operations\<close>

definition fnv_step :: "size_t \<Rightarrow> char \<Rightarrow> size_t" where
  "fnv_step hash c = (hash XOR of_char c) * 16777619"

text \<open>The loop of \<open>mcp_hashtable_string_hash\<close>: four bytes at a time while four are left.\<close>

fun string_hash_loop :: "size_t \<Rightarrow> string \<Rightarrow> size_t" where
  "string_hash_loop hash (a # b # c # d # str) =
     string_hash_loop (fnv_step (fnv_step (fnv_step (fnv_step hash a) b) c) d) str"
| "string_hash_loop hash (a # str) = string_hash_loop (fnv_step hash a) str"
| "string_hash_loop hash [] = hash"

definition mcp_hashtable_string_hash :: "string \<Rightarrow> size_t" where
  "mcp_hashtable_string_hash str =
     (let hash = string_hash_loop 2166136261 str in hash XOR drop_bit 16 hash)"

definition mcp_hashtable_int_hash :: "u32 \<Rightarrow> size_t" where
  "mcp_hashtable_int_hash key =
     (let k = key XOR drop_bit 16 key;
          k = k * 0x85ebca6b;
          k = k XOR drop_bit 13 k;
          k = k * 0xc2b2ae35;
          k = k XOR drop_bit 16 k
      in ucast k)"

definition mcp_hashtable_ptr_hash :: "size_t \<Rightarrow> size_t" where
  "mcp_hashtable_ptr_hash key =
     (let p = key XOR drop_bit 16 key;
          p = p * 0x85ebca6b;
          p = p XOR drop_bit 13 p;
          p = p * 0xc2b2ae35;
          p = p XOR drop_bit 16 p
      in p)"

definition dup_by_alloc :: "mem \<Rightarrow> 'k \<Rightarrow> 'k option \<times> mem" where
  "dup_by_alloc m k = (let (ok, m') = mem_alloc m in (if ok then Some k else None, m'))"

definition string_ops :: "bool \<Rightarrow> string hash_ops" where
  "string_ops vf =
     \<lparr>hash_func = mcp_hashtable_string_hash, key_compare = (\<lambda>a b. a = b),
      key_dup = dup_by_alloc, has_value_free = vf\<rparr>"

definition int_ops :: "bool \<Rightarrow> u32 hash_ops" where
  "int_ops vf =
     \<lparr>hash_func = mcp_hashtable_int_hash, key_compare = (\<lambda>a b. a = b),
      key_dup = dup_by_alloc, has_value_free = vf\<rparr>"

definition ptr_ops :: "bool \<Rightarrow> size_t hash_ops" where
  "ptr_ops vf =
     \<lparr>hash_func = mcp_hashtable_ptr_hash, key_compare = (\<lambda>a b. a = b),
      key_dup = (\<lambda>m k. (Some k, m)), has_value_free = vf\<rparr>"

section \<open>Batch operations\<close>

text \<open>The capacity loop of \<open>mcp_hashtable_put_batch\<close>; \<open>None\<close> is a loop that does not end.\<close>

partial_function (option) grow_capacity :: "size_t \<Rightarrow> rat \<Rightarrow> size_t \<Rightarrow> size_t option" where
  "grow_capacity n thr cap =
     (if load_exceeds n cap thr then grow_capacity n thr (cap * 2) else Some cap)"

text \<open>
  The loops over the pairs or keys.  \<open>success_count\<close> is an \<open>int\<close>: increasing it past \<open>INT_MAX\<close> is
  undefined.
\<close>

fun put_all ::
    "'k hash_ops \<Rightarrow> mem \<Rightarrow> ('k, 'v) mcp_hashtable \<Rightarrow> ('k \<times> 'v) list \<Rightarrow> int \<Rightarrow>
     (int \<times> ('k, 'v) mcp_hashtable \<times> ('k, 'v) ht_event list \<times> mem) checked" where
  "put_all ops m t [] success_count = Done (success_count, t, [], m)"
| "put_all ops m t ((k, v) # kvs) success_count =
     (let (rc, t1, ev1, m1) = mcp_hashtable_put ops m t k v
      in if rc = 0 \<and> success_count = 2 ^ 31 - 1 then Undefined
         else case put_all ops m1 t1 kvs (if rc = 0 then success_count + 1 else success_count) of
                Undefined \<Rightarrow> Undefined
              | Done (n, t2, ev2, m2) \<Rightarrow> Done (n, t2, ev1 @ ev2, m2))"

definition mcp_hashtable_put_batch ::
    "'k hash_ops \<Rightarrow> mem \<Rightarrow> ('k, 'v) mcp_hashtable \<Rightarrow> ('k \<times> 'v) list \<Rightarrow>
     (int \<times> ('k, 'v) mcp_hashtable \<times> ('k, 'v) ht_event list \<times> mem) checked option" where
  "mcp_hashtable_put_batch ops m t kvs =
     (if kvs = [] then Some (Done (-1, t, [], m))
      else let need = ht_size t + of_nat (length kvs)
           in if load_exceeds need (ht_capacity t) (ht_threshold t)
              then case grow_capacity need (ht_threshold t) (ht_capacity t) of
                     None \<Rightarrow> None
                   | Some cap \<Rightarrow>
                       (let (_, t1, m1) = hashtable_resize ops m t cap
                        in Some (put_all ops m1 t1 kvs 0))
              else Some (put_all ops m t kvs 0))"

definition mcp_hashtable_get_batch ::
    "'k hash_ops \<Rightarrow> ('k, 'v) mcp_hashtable \<Rightarrow> 'k list \<Rightarrow> (int \<times> (int \<times> 'v option) list) checked" where
  "mcp_hashtable_get_batch ops t ks =
     (let rs = map (mcp_hashtable_get ops t) ks;
          success_count = int (length (filter (\<lambda>r. fst r = 0) rs))
      in if 2 ^ 31 \<le> success_count then Undefined else Done (success_count, rs))"

fun remove_all ::
    "'k hash_ops \<Rightarrow> ('k, 'v) mcp_hashtable \<Rightarrow> 'k list \<Rightarrow> int \<Rightarrow>
     (int \<times> int list \<times> ('k, 'v) mcp_hashtable \<times> ('k, 'v) ht_event list) checked" where
  "remove_all ops t [] success_count = Done (success_count, [], t, [])"
| "remove_all ops t (k # ks) success_count =
     (let (rc, t1, ev1) = mcp_hashtable_remove ops t k
      in if rc = 0 \<and> success_count = 2 ^ 31 - 1 then Undefined
         else case remove_all ops t1 ks (if rc = 0 then success_count + 1 else success_count) of
                Undefined \<Rightarrow> Undefined
              | Done (n, rcs, t2, ev2) \<Rightarrow> Done (n, rc # rcs, t2, ev1 @ ev2))"

definition mcp_hashtable_remove_batch ::
    "'k hash_ops \<Rightarrow> ('k, 'v) mcp_hashtable \<Rightarrow> 'k list \<Rightarrow>
     (int \<times> int list \<times> ('k, 'v) mcp_hashtable \<times> ('k, 'v) ht_event list) checked" where
  "mcp_hashtable_remove_batch ops t ks = remove_all ops t ks 0"


section \<open>Powers of two\<close>

lemma and_exp_minus_1:
  fixes w :: size_t
  shows "w AND (2 ^ k - 1) = take_bit k w"
  by (simp add: take_bit_eq_mask mask_eq_exp_minus_1)

lemma unat_exp_64:
  assumes "k < 64"
  shows "unat (2 ^ k :: size_t) = 2 ^ k"
proof -
  have "unat (of_nat (2 ^ k) :: size_t) = 2 ^ k mod 2 ^ LENGTH(64)"
    by (rule unat_of_nat)
  also have "\<dots> = 2 ^ k"
    using assms by (intro mod_less power_strict_increasing) auto
  finally show ?thesis by simp
qed

lemma bucket_index_lt:
  assumes "k < 64"
  shows "bucket_index ops (2 ^ k) x < 2 ^ k"
  by (simp add: bucket_index_def and_exp_minus_1 unat_take_bit_mod)

lemma alloc_buckets_exp:
  assumes "alloc_buckets m (2 ^ j) = (Some nb, m')" "j \<le> 60"
  shows "j < 60 \<and> nb = replicate (2 ^ j) []"
proof -
  have bytes: "unat (2 ^ j * 8 :: size_t) = 2 ^ j * 8"
    using assms(2) unat_exp_64 [of "j + 3"] by (simp add: power_add)
  have "j \<noteq> 60" using assms(1) by (auto simp: alloc_buckets_def Let_def)
  with assms bytes show ?thesis
    by (auto simp: alloc_buckets_def Let_def split: prod.splits if_splits)
qed

lemma next_power_loop_exp:
  assumes "unat n \<le> 2 ^ 63" "i < 64"
  shows "\<exists>j. i \<le> j \<and> j < 64 \<and> next_power_loop n (2 ^ i) = 2 ^ j \<and> unat n \<le> 2 ^ j \<and>
             (i < j \<longrightarrow> 2 ^ (j - 1) < unat n)"
  using assms(2)
proof (induction "63 - i" arbitrary: i rule: less_induct)
  case less
  show ?case
  proof (cases "2 ^ i < n")
    case False
    then have "next_power_loop n (2 ^ i) = 2 ^ i" "unat n \<le> 2 ^ i"
      using less.prems by (simp_all add: next_power_loop.simps [of n "2 ^ i"] word_less_nat_alt unat_exp_64)
    with less.prems show ?thesis by blast
  next
    case True
    then have lt: "2 ^ i < unat n"
      using less.prems by (simp add: word_less_nat_alt unat_exp_64)
    with assms(1) have "(2::nat) ^ i < 2 ^ 63" by linarith
    then have i: "i < 63" by (rule power_less_imp_less_exp [rotated]) simp
    have push: "push_bit 1 (2 ^ i :: size_t) = 2 ^ Suc i" by simp
    have "unat (2 ^ Suc i :: size_t) \<noteq> 0" using i unat_exp_64 [of "Suc i"] by simp
    then have "(2 ^ Suc i :: size_t) \<noteq> 0" by (metis unat_0)
    then have step: "next_power_loop n (2 ^ i) = next_power_loop n (2 ^ Suc i)"
      using True push by (simp add: next_power_loop.simps [of n "2 ^ i"] Let_def del: push_bit_Suc)
    have less_i: "63 - Suc i < 63 - i" using i by linarith
    obtain j where j: "Suc i \<le> j" "j < 64" "next_power_loop n (2 ^ Suc i) = 2 ^ j" "unat n \<le> 2 ^ j"
      "Suc i < j \<longrightarrow> 2 ^ (j - 1) < unat n"
      using less.hyps [OF less_i] i by auto
    have "2 ^ (j - 1) < unat n"
    proof (cases "Suc i < j")
      case True
      with j show ?thesis by blast
    next
      case False
      with j(1) have "j = Suc i" by simp
      with lt show ?thesis by simp
    qed
    with j step show ?thesis by (metis Suc_leD)
  qed
qed

lemma is_power_of_two_exp:
  assumes "is_power_of_two n"
  shows "\<exists>k < 64. n = 2 ^ k"
proof -
  have n: "n \<noteq> 0" "n AND (n - 1) = 0" using assms by (auto simp: is_power_of_two_def)
  then have "1 \<le> unat n" by (simp add: Suc_le_eq unat_gt_0)
  from ex_power_ivl1 [OF order.refl this] obtain m where m: "2 ^ m \<le> unat n" "unat n < 2 ^ (m + 1)"
    by auto
  have "unat n < 2 ^ LENGTH(64)" by (rule unsigned_less)
  then have "unat n < 2 ^ 64" by simp
  with m(1) have "(2::nat) ^ m < 2 ^ 64" by linarith
  then have m64: "m < 64" by (rule power_less_imp_less_exp [rotated]) simp
  have div1: "x div 2 ^ m = 1" if "2 ^ m \<le> x" "x < 2 ^ (m + 1)" for x :: nat
    using that by (simp add: div_nat_eqI)
  have bit_top: "bit w m" if "2 ^ m \<le> unat w" "unat w < 2 ^ (m + 1)" for w :: size_t
  proof -
    have "bit (unat w) m" using div1 [OF that] by (simp add: bit_iff_odd)
    then show ?thesis by (simp add: bit_unsigned_iff)
  qed
  have "unat n = 2 ^ m"
  proof (rule ccontr)
    assume "unat n \<noteq> 2 ^ m"
    with m have "2 ^ m \<le> unat n - 1" "unat n - 1 < 2 ^ (m + 1)" by linarith+
    then have "bit n m" "bit (n - 1) m"
      using m n(1) by (auto intro!: bit_top simp: unat_minus_one)
    with n(2) show False by (metis bit_and_iff bit_0_eq bot_apply bot_bool_def)
  qed
  then have "n = 2 ^ m" using m64 by (metis unat_exp_64 word_unat_eq_iff)
  with m64 show ?thesis by blast
qed

section \<open>The table invariant\<close>

text \<open>
  Every bucket holds each key at most once, and only keys that hash to it; the capacity is a
  power of two, the bucket array has that many slots, and \<open>size\<close> counts the entries.
\<close>

definition buckets_ok :: "'k hash_ops \<Rightarrow> size_t \<Rightarrow> ('k \<times> 'v) list list \<Rightarrow> bool" where
  "buckets_ok ops cap bs \<longleftrightarrow>
     (\<forall>i < length bs. distinct (map fst (bs ! i)) \<and>
        (\<forall>e \<in> set (bs ! i). bucket_index ops cap (fst e) = i))"

definition ht_inv :: "'k hash_ops \<Rightarrow> ('k, 'v) mcp_hashtable \<Rightarrow> bool" where
  "ht_inv ops t \<longleftrightarrow>
     (\<exists>k < 60. ht_capacity t = 2 ^ k) \<and>
     length (ht_buckets t) = unat (ht_capacity t) \<and>
     buckets_ok ops (ht_capacity t) (ht_buckets t) \<and>
     ht_size t = of_nat (length (concat (ht_buckets t)))"

text \<open>The map a table represents.\<close>

definition ht_map :: "'k hash_ops \<Rightarrow> ('k, 'v) mcp_hashtable \<Rightarrow> 'k \<Rightarrow> 'v option" where
  "ht_map ops t k = map_of (ht_buckets t ! bucket_index ops (ht_capacity t) k) k"

definition ht_values :: "('k, 'v) mcp_hashtable \<Rightarrow> 'v list" where
  "ht_values t = map snd (concat (ht_buckets t))"

lemma ht_inv_index_lt:
  assumes "ht_inv ops t"
  shows "bucket_index ops (ht_capacity t) k < length (ht_buckets t)"
proof -
  obtain j where "j < 60" "ht_capacity t = 2 ^ j" "length (ht_buckets t) = unat (ht_capacity t)"
    using assms by (auto simp: ht_inv_def)
  then show ?thesis using bucket_index_lt [of j ops k] unat_exp_64 [of j] by simp
qed

lemma mset_concat_update:
  assumes "i < length bs"
  shows "mset (concat (bs[i := c])) + mset (bs ! i) = mset (concat bs) + mset c"
  using assms
proof (induction bs arbitrary: i)
  case Nil
  then show ?case by simp
next
  case (Cons b bs)
  then show ?case by (cases i) (auto simp: ac_simps)
qed

lemma length_concat_update:
  assumes "i < length bs"
  shows "length (concat (bs[i := c])) + length (bs ! i) = length (concat bs) + length c"
  using arg_cong [OF mset_concat_update [OF assms], of size c] by simp

lemma buckets_ok_update:
  assumes "buckets_ok ops cap bs" "distinct (map fst c)"
    "\<forall>e \<in> set c. bucket_index ops cap (fst e) = i"
  shows "buckets_ok ops cap (bs[i := c])"
  using assms
  by (cases "i < length bs") (auto simp: buckets_ok_def nth_list_update list_update_beyond)

lemma distinct_concat_indexed:
  assumes "\<forall>i < length bs. distinct (bs ! i) \<and> (\<forall>x \<in> set (bs ! i). f x = i)"
  shows "distinct (concat bs)"
  using assms
proof (induction bs rule: rev_induct)
  case Nil
  then show ?case by simp
next
  case (snoc b bs)
  have bs: "\<forall>i < length bs. distinct (bs ! i) \<and> (\<forall>x \<in> set (bs ! i). f x = i)"
    using snoc.prems by (auto simp: nth_append split: if_splits)
  have b: "distinct b" "\<forall>x \<in> set b. f x = length bs"
    using snoc.prems by (auto simp: nth_append dest: spec [of _ "length bs"])
  have "f x < length bs" if "x \<in> set (concat bs)" for x
    using that bs by (auto simp: in_set_conv_nth [of _ bs])
  with b have "set (concat bs) \<inter> set b = {}" by fastforce
  with snoc.IH [OF bs] b show ?case by simp
qed

lemma distinct_keys_concat:
  assumes "buckets_ok ops cap bs"
  shows "distinct (map fst (concat bs))"
proof -
  have "distinct (concat (map (map fst) bs))"
    using assms
    by (intro distinct_concat_indexed [where f = "bucket_index ops cap"])
      (auto simp: buckets_ok_def)
  then show ?thesis by (simp add: map_concat)
qed

lemma map_of_concat_bucket:
  assumes "buckets_ok ops cap bs" "bucket_index ops cap k < length bs"
  shows "map_of (concat bs) k = map_of (bs ! bucket_index ops cap k) k"
proof -
  let ?b = "bs ! bucket_index ops cap k"
  have d: "distinct (map fst (concat bs))" "distinct (map fst ?b)"
    using assms distinct_keys_concat [OF assms(1)] by (auto simp: buckets_ok_def)
  have "(k, v) \<in> set (concat bs) \<longleftrightarrow> (k, v) \<in> set ?b" for v
  proof
    assume "(k, v) \<in> set (concat bs)"
    then obtain i where "i < length bs" "(k, v) \<in> set (bs ! i)"
      by (auto simp: in_set_conv_nth [of _ bs])
    with assms(1) show "(k, v) \<in> set ?b" unfolding buckets_ok_def by (metis fst_conv)
  next
    assume "(k, v) \<in> set ?b"
    with assms(2) show "(k, v) \<in> set (concat bs)" by (auto intro: nth_mem)
  qed
  then have "map_of (concat bs) k = Some v \<longleftrightarrow> map_of ?b k = Some v" for v
    using d by (simp add: map_of_eq_Some_iff)
  then show ?thesis by (metis option.exhaust)
qed

lemma ht_map_concat:
  "ht_inv ops t \<Longrightarrow> ht_map ops t = map_of (concat (ht_buckets t))"
  using ht_inv_index_lt
  by (fastforce simp: ht_map_def ht_inv_def intro!: map_of_concat_bucket [symmetric])

section \<open>Resizing\<close>

lemma rehash_length [simp]: "length (foldl (rehash_entry ops cap) nb es) = length nb"
  by (induction es arbitrary: nb) (auto simp: rehash_entry_def Let_def)

lemma rehash_nth:
  assumes "i < length nb"
  shows "foldl (rehash_entry ops cap) nb es ! i
         = rev (filter (\<lambda>e. bucket_index ops cap (fst e) = i) es) @ nb ! i"
  using assms
  by (induction es arbitrary: nb) (auto simp: rehash_entry_def Let_def nth_list_update)

lemma mset_rehash:
  assumes "\<forall>e \<in> set es. bucket_index ops cap (fst e) < length nb"
  shows "mset (concat (foldl (rehash_entry ops cap) nb es)) = mset (concat nb) + mset es"
  using assms
proof (induction es arbitrary: nb)
  case Nil
  then show ?case by simp
next
  case (Cons e es)
  let ?i = "bucket_index ops cap (fst e)"
  have "mset (concat (nb[?i := e # nb ! ?i])) = mset (concat nb) + {#e#}"
    using mset_concat_update [of ?i nb "e # nb ! ?i"] Cons.prems by simp
  with Cons show ?case by (simp add: rehash_entry_def Let_def)
qed

lemma rehash_spec:
  assumes "buckets_ok ops cap bs" "k < 64" "\<And>x. bucket_index ops cap x < length bs"
  defines "nb \<equiv> foldl (rehash_entry ops (2 ^ k)) (replicate (2 ^ k) []) (concat bs)"
  shows "buckets_ok ops (2 ^ k) nb" "mset (concat nb) = mset (concat bs)"
    "map_of (nb ! bucket_index ops (2 ^ k) x) x = map_of (bs ! bucket_index ops cap x) x"
proof -
  have d: "distinct (map fst (concat bs))" by (rule distinct_keys_concat [OF assms(1)])
  have nth: "nb ! i = rev (filter (\<lambda>e. bucket_index ops (2 ^ k) (fst e) = i) (concat bs))"
    if "i < 2 ^ k" for i
    using that rehash_nth [of i "replicate (2 ^ k) []" ops "2 ^ k" "concat bs"]
    by (simp add: nb_def)
  have len_nb: "length nb = 2 ^ k" by (simp add: nb_def)
  have d': "distinct (map fst (filter P (concat bs)))" for P
    using d by (rule distinct_map_filter)
  show ok: "buckets_ok ops (2 ^ k) nb"
    using d' by (auto simp: buckets_ok_def nth len_nb rev_map [symmetric] simp del: filter_concat)
  show ms: "mset (concat nb) = mset (concat bs)"
    using bucket_index_lt [OF assms(2), of ops]
    by (simp add: nb_def mset_rehash)
  have len: "bucket_index ops (2 ^ k) x < length nb"
    using bucket_index_lt [OF assms(2)] by (simp add: nb_def)
  have "map_of (concat nb) = map_of (concat bs)"
  proof (rule map_of_inject_set [THEN iffD2])
    show "distinct (map fst (concat nb))" by (rule distinct_keys_concat [OF ok])
    show "distinct (map fst (concat bs))" by (rule d)
    show "set (concat nb) = set (concat bs)" using ms by (metis set_mset_mset)
  qed
  then show "map_of (nb ! bucket_index ops (2 ^ k) x) x = map_of (bs ! bucket_index ops cap x) x"
    using map_of_concat_bucket [OF ok len] map_of_concat_bucket [OF assms(1,3)] by metis
qed

section \<open>The map interface\<close>

text \<open>The outcome of \<open>mcp_hashtable_put\<close>, seen from the represented map and the stored values.\<close>

definition put_post ::
    "'k hash_ops \<Rightarrow> ('k, 'v) mcp_hashtable \<Rightarrow> 'k \<Rightarrow> 'v \<Rightarrow> int \<Rightarrow> ('k, 'v) mcp_hashtable \<Rightarrow>
     ('k, 'v) ht_event list \<Rightarrow> bool" where
  "put_post ops t k v rc t' ev \<longleftrightarrow>
     ht_inv ops t' \<and>
     (if rc = 0 then
        ht_map ops t' = (ht_map ops t)(k \<mapsto> v) \<and>
        ev = (case ht_map ops t k of None \<Rightarrow> [] | Some old \<Rightarrow> value_free_call ops old) \<and>
        mset (ht_values t') + mset (case ht_map ops t k of None \<Rightarrow> [] | Some old \<Rightarrow> [old])
          = mset (ht_values t) + {#v#}
      else rc = -1 \<and> ht_map ops t' = ht_map ops t \<and> ev = [] \<and>
           mset (ht_values t') = mset (ht_values t))"

text \<open>
  What the clients of the table rely on.  \<open>key_ops\<close> is the contract of the function pointers
  given to \<open>mcp_hashtable_create\<close>; under it the operations keep the invariant and act on the
  represented map as update, deletion and lookup do, with every failure leaving the map
  unchanged.
\<close>

locale key_ops =
  fixes ops :: "'k hash_ops"
  assumes compare_eq: "key_compare ops a b \<longleftrightarrow> a = b"
    and dup_eq: "key_dup ops m k = (Some k', m') \<Longrightarrow> k' = k"
begin

lemma find_entry_None: "find_entry ops k es = None \<longleftrightarrow> k \<notin> fst ` set es"
  by (induction es) (auto simp: compare_eq split: option.splits)

lemma find_entry_Some:
  "find_entry ops k es = Some (pre, e, post) \<Longrightarrow> es = pre @ e # post \<and> fst e = k \<and> k \<notin> fst ` set pre"
  by (induction es arbitrary: pre) (force simp: compare_eq split: if_splits option.splits)+

lemma find_entry_map_of:
  "map_of es k = (case find_entry ops k es of None \<Rightarrow> None | Some (_, e, _) \<Rightarrow> Some (snd e))"
  by (induction es) (auto simp: compare_eq split: option.splits)

lemma get_map:
  "mcp_hashtable_get ops t k = (case ht_map ops t k of None \<Rightarrow> (-1, None) | Some v \<Rightarrow> (0, Some v))"
  by (auto simp: mcp_hashtable_get_def ht_map_def find_entry_map_of split: option.splits)

lemma contains_map: "mcp_hashtable_contains ops t k \<longleftrightarrow> ht_map ops t k \<noteq> None"
  by (auto simp: mcp_hashtable_contains_def ht_map_def find_entry_map_of split: option.splits)

lemma resize_spec:
  assumes "ht_inv ops t" "j \<le> 60" "hashtable_resize ops m t (2 ^ j) = (rc, t', m')"
  shows "ht_inv ops t' \<and> ht_map ops t' = ht_map ops t \<and>
         mset (concat (ht_buckets t')) = mset (concat (ht_buckets t)) \<and>
         (rc \<noteq> 0 \<longrightarrow> t' = t) \<and> (rc = 0 \<longrightarrow> ht_capacity t' = 2 ^ j)"
proof (cases "rc = 0")
  case False
  with assms show ?thesis
    by (auto simp: hashtable_resize_def split: if_splits prod.splits option.splits)
next
  case True
  with assms(3) obtain nb where nb: "alloc_buckets m (2 ^ j) = (Some nb, m')"
    and t': "t' = Hashtable (foldl (rehash_entry ops (2 ^ j)) nb (concat (ht_buckets t)))
                     (2 ^ j) (ht_size t) (ht_threshold t)"
    by (auto simp: hashtable_resize_def split: if_splits prod.splits option.splits)
  from alloc_buckets_exp [OF nb assms(2)] have j: "j < 60" and nb': "nb = replicate (2 ^ j) []"
    by simp_all
  have ok: "buckets_ok ops (ht_capacity t) (ht_buckets t)" "ht_size t = of_nat (length (concat (ht_buckets t)))"
    using assms(1) by (auto simp: ht_inv_def)
  have j64: "j < 64" using j by simp
  note spec = rehash_spec [OF ok(1) j64 ht_inv_index_lt [OF assms(1)], folded nb']
  have "length (concat (ht_buckets t')) = length (concat (ht_buckets t))"
    using mset_eq_length [OF spec(2)] t' by simp
  moreover have "length nb = unat (2 ^ j :: size_t)"
    using j unat_exp_64 [of j] by (simp add: nb')
  ultimately show ?thesis
    using spec j t' ok True by (auto simp: ht_inv_def ht_map_def fun_eq_iff)
qed

text \<open>Replacing the chain of a key by another one.\<close>

lemma set_chain:
  assumes inv: "ht_inv ops t"
    and chain: "distinct (map fst chain)"
      "\<forall>e \<in> set chain. bucket_index ops (ht_capacity t) (fst e) = bucket_index ops (ht_capacity t) k"
    and sz: "n + of_nat (length (ht_buckets t ! bucket_index ops (ht_capacity t) k))
             = ht_size t + of_nat (length chain)"
  defines "i \<equiv> bucket_index ops (ht_capacity t) k"
  defines "t' \<equiv> Hashtable ((ht_buckets t)[i := chain]) (ht_capacity t) n (ht_threshold t)"
  shows "ht_inv ops t'"
    and "mset (ht_values t') + mset (map snd (ht_buckets t ! i))
         = mset (ht_values t) + mset (map snd chain)"
    and "ht_map ops t' x = (if bucket_index ops (ht_capacity t) x = i then map_of chain x
                            else ht_map ops t x)"
proof -
  have i: "i < length (ht_buckets t)" unfolding i_def by (rule ht_inv_index_lt [OF inv])
  have "n + of_nat (length (ht_buckets t ! i))
        = of_nat (length (concat (ht_buckets t)) + length chain)"
    using sz inv by (simp add: ht_inv_def i_def)
  also have "\<dots> = of_nat (length (concat ((ht_buckets t)[i := chain])) + length (ht_buckets t ! i))"
    by (simp only: length_concat_update [OF i])
  finally have n: "n = of_nat (length (concat ((ht_buckets t)[i := chain])))"
    by simp
  show "ht_inv ops t'"
    using inv buckets_ok_update [OF _ chain, of "ht_buckets t"] n
    by (auto simp: ht_inv_def t'_def i_def)
  show "mset (ht_values t') + mset (map snd (ht_buckets t ! i))
         = mset (ht_values t) + mset (map snd chain)"
    using arg_cong [OF mset_concat_update [OF i, of chain], of "image_mset snd"]
    by (simp add: ht_values_def t'_def)
  show "ht_map ops t' x = (if bucket_index ops (ht_capacity t) x = i then map_of chain x
                            else ht_map ops t x)"
    using i by (auto simp: ht_map_def t'_def)
qed

lemma chain_of_key:
  fixes k :: 'k
  assumes "ht_inv ops t"
  defines "c \<equiv> ht_buckets t ! bucket_index ops (ht_capacity t) k"
  shows "distinct (map fst c)"
    "\<forall>e \<in> set c. bucket_index ops (ht_capacity t) (fst e) = bucket_index ops (ht_capacity t) k"
  using assms(1) ht_inv_index_lt [OF assms(1), of k] by (auto simp: ht_inv_def buckets_ok_def c_def)

text \<open>The resize step of \<open>mcp_hashtable_put\<close>.\<close>

lemma put_resize_step:
  assumes "ht_inv ops t"
    "(if load_exceeds n (ht_capacity t) thr then hashtable_resize ops m t (ht_capacity t * 2)
      else (0, t, m)) = (rc, t1, m1)"
  shows "ht_inv ops t1 \<and> ht_map ops t1 = ht_map ops t \<and> mset (ht_values t1) = mset (ht_values t)"
proof -
  obtain j where j: "j < 60" "ht_capacity t = 2 ^ j" using assms(1) by (auto simp: ht_inv_def)
  then have cap: "ht_capacity t * 2 = 2 ^ Suc j" by simp
  show ?thesis
  proof (cases "load_exceeds n (ht_capacity t) thr")
    case True
    then have "hashtable_resize ops m t (2 ^ Suc j) = (rc, t1, m1)"
      using assms(2) cap by (simp only: if_True)
    from resize_spec [OF assms(1) _ this] j show ?thesis by (simp add: ht_values_def)
  next
    case False
    with assms show ?thesis by simp
  qed
qed

lemma map_of_replace:
  "x \<notin> fst ` set pre \<Longrightarrow> map_of (pre @ (x, v) # post) = (map_of (pre @ (x, w) # post))(x \<mapsto> v)"
  by (induction pre) (auto simp: fun_eq_iff map_add_def split: option.splits)

lemma map_of_snoc_fresh:
  "k \<notin> fst ` set c \<Longrightarrow> map_of (c @ [(k, v)]) = (map_of c)(k \<mapsto> v)"
  by (induction c) (auto simp: fun_eq_iff)

lemma put_existing:
  assumes inv: "ht_inv ops t"
    and find: "find_entry ops k (ht_buckets t ! bucket_index ops (ht_capacity t) k)
               = Some (pre, (k0, old), post)"
  shows "put_post ops t k v 0
    (Hashtable ((ht_buckets t)[bucket_index ops (ht_capacity t) k := pre @ (k0, v) # post])
       (ht_capacity t) (ht_size t) (ht_threshold t)) (value_free_call ops old)"
proof -
  let ?i = "bucket_index ops (ht_capacity t) k"
  let ?c = "ht_buckets t ! ?i" and ?c' = "pre @ (k, v) # post"
  from find_entry_Some [OF find]
  have c: "?c = pre @ (k, old) # post" "k \<notin> fst ` set pre" and k0: "k0 = k" by auto
  have hyp: "distinct (map fst ?c')"
    "\<forall>e \<in> set ?c'. bucket_index ops (ht_capacity t) (fst e) = ?i"
    "ht_size t + of_nat (length ?c) = ht_size t + of_nat (length ?c')"
    using chain_of_key [OF inv, of k] c by auto
  note sc = set_chain [OF inv hyp]
  have old: "ht_map ops t k = Some old" using find by (simp add: ht_map_def find_entry_map_of)
  have "map_of ?c' x = ((map_of ?c)(k \<mapsto> v)) x" for x
    using map_of_replace [OF c(2), of v post old] c(1) by metis
  then have "ht_map ops (Hashtable ((ht_buckets t)[?i := ?c']) (ht_capacity t) (ht_size t)
      (ht_threshold t)) x = ((ht_map ops t)(k \<mapsto> v)) x" for x
    using sc(3) [of x] by (auto simp: ht_map_def)
  with sc old c k0 show ?thesis by (auto simp: put_post_def)
qed

lemma put_fresh:
  assumes inv: "ht_inv ops t"
    and find: "find_entry ops k (ht_buckets t ! bucket_index ops (ht_capacity t) k) = None"
  shows "put_post ops t k v 0
    (Hashtable ((ht_buckets t)[bucket_index ops (ht_capacity t) k :=
         ht_buckets t ! bucket_index ops (ht_capacity t) k @ [(k, v)]])
       (ht_capacity t) (ht_size t + 1) (ht_threshold t)) []"
proof -
  let ?i = "bucket_index ops (ht_capacity t) k"
  let ?c = "ht_buckets t ! ?i" and ?c' = "ht_buckets t ! ?i @ [(k, v)]"
  have fresh: "k \<notin> fst ` set ?c" using find by (simp add: find_entry_None)
  then have none: "ht_map ops t k = None" by (simp add: ht_map_def map_of_eq_None_iff)
  have hyp: "distinct (map fst ?c')"
    "\<forall>e \<in> set ?c'. bucket_index ops (ht_capacity t) (fst e) = ?i"
    "ht_size t + 1 + of_nat (length ?c) = ht_size t + of_nat (length ?c')"
    using chain_of_key [OF inv, of k] fresh by auto
  note sc = set_chain [OF inv hyp]
  have "map_of ?c' x = ((map_of ?c)(k \<mapsto> v)) x" for x
    using map_of_snoc_fresh [OF fresh] by metis
  then have "ht_map ops (Hashtable ((ht_buckets t)[?i := ?c']) (ht_capacity t) (ht_size t + 1)
      (ht_threshold t)) x = ((ht_map ops t)(k \<mapsto> v)) x" for x
    using sc(3) [of x] by (auto simp: ht_map_def)
  with sc none show ?thesis by (auto simp: put_post_def)
qed

lemma put_post_cong:
  assumes "put_post ops t1 k v rc t' ev" "ht_map ops t1 = ht_map ops t"
    "mset (ht_values t1) = mset (ht_values t)"
  shows "put_post ops t k v rc t' ev"
  using assms unfolding put_post_def by (simp split: if_splits)

lemma put_spec:
  assumes inv: "ht_inv ops t" and put: "mcp_hashtable_put ops m t k v = (rc, t', ev, m')"
  shows "put_post ops t k v rc t' ev"
proof -
  obtain rc1 t1 m1 where rz: "(if load_exceeds (ht_size t + 1) (ht_capacity t) (ht_threshold t)
       then hashtable_resize ops m t (ht_capacity t * 2) else (0, t, m)) = (rc1, t1, m1)"
    by (metis prod_cases3)
  note t1 = put_resize_step [OF inv rz]
  then have inv1: "ht_inv ops t1" by simp
  have fails: "put_post ops t1 k v (-1) t1 []" using inv1 by (simp add: put_post_def)
  have "put_post ops t1 k v rc t' ev"
  proof (cases "find_entry ops k (ht_buckets t1 ! bucket_index ops (ht_capacity t1) k)")
    case (Some p)
    then show ?thesis
      using put rz fails put_existing [OF inv1]
      by (cases p) (auto simp: mcp_hashtable_put_def Let_def split: if_splits)
  next
    case None
    then show ?thesis
      using put rz fails put_fresh [OF inv1 None]
      by (auto simp: mcp_hashtable_put_def Let_def dest: dup_eq
          split: if_splits prod.splits option.splits)
  qed
  with t1 show ?thesis by (blast intro: put_post_cong)
qed

lemma map_of_delete:
  "distinct (map fst (pre @ (x, v) # post)) \<Longrightarrow>
   map_of (pre @ post) = (map_of (pre @ (x, v) # post))(x := None)"
  by (induction pre) (auto simp: fun_eq_iff map_of_eq_None_iff)

lemma remove_found:
  assumes inv: "ht_inv ops t"
    and find: "find_entry ops k (ht_buckets t ! bucket_index ops (ht_capacity t) k)
               = Some (pre, (k0, v), post)"
  defines "t' \<equiv> Hashtable ((ht_buckets t)[bucket_index ops (ht_capacity t) k := pre @ post])
       (ht_capacity t) (ht_size t - 1) (ht_threshold t)"
  shows "k0 = k \<and> ht_inv ops t' \<and> ht_map ops t k = Some v \<and> ht_map ops t' = (ht_map ops t)(k := None) \<and>
         mset (ht_values t') + {#v#} = mset (ht_values t)"
proof -
  let ?i = "bucket_index ops (ht_capacity t) k"
  let ?c = "ht_buckets t ! ?i" and ?c' = "pre @ post"
  from find_entry_Some [OF find]
  have c: "?c = pre @ (k, v) # post" "k \<notin> fst ` set pre" and k0: "k0 = k" by auto
  have d: "distinct (map fst (pre @ (k, v) # post))"
    using chain_of_key(1) [OF inv, of k] c by simp
  have hyp: "distinct (map fst ?c')"
    "\<forall>e \<in> set ?c'. bucket_index ops (ht_capacity t) (fst e) = ?i"
    "ht_size t - 1 + of_nat (length ?c) = ht_size t + of_nat (length ?c')"
    using chain_of_key [OF inv, of k] c by auto
  note sc = set_chain [OF inv hyp, folded t'_def]
  have "map_of ?c' x = ((map_of ?c)(k := None)) x" for x
    using map_of_delete [OF d] c(1) by metis
  then have "ht_map ops t' x = ((ht_map ops t)(k := None)) x" for x
    using sc(3) [of x] by (auto simp: ht_map_def)
  moreover have "ht_map ops t k = Some v" using find by (simp add: ht_map_def find_entry_map_of)
  ultimately show ?thesis using sc(1,2) c k0 by auto
qed

lemma remove_spec:
  assumes inv: "ht_inv ops t" and rem: "mcp_hashtable_remove ops t k = (rc, t', ev)"
  shows "ht_inv ops t' \<and> ht_map ops t' = (ht_map ops t)(k := None) \<and>
         (case ht_map ops t k of
            None \<Rightarrow> rc = -1 \<and> t' = t \<and> ev = []
          | Some v \<Rightarrow> rc = 0 \<and> ev = KeyFree k # value_free_call ops v \<and>
                     mset (ht_values t') + {#v#} = mset (ht_values t))"
proof (cases "find_entry ops k (ht_buckets t ! bucket_index ops (ht_capacity t) k)")
  case None
  then have "ht_map ops t k = None" by (simp add: ht_map_def find_entry_map_of)
  with None inv rem show ?thesis
    by (auto simp: mcp_hashtable_remove_def Let_def fun_upd_idem)
next
  case (Some p)
  then show ?thesis using remove_found [OF inv] rem
    by (cases p) (auto simp: mcp_hashtable_remove_def Let_def)
qed

lemma clear_spec:
  assumes "ht_inv ops t"
  shows "ht_inv ops (fst (mcp_hashtable_clear ops t))"
    "ht_map ops (fst (mcp_hashtable_clear ops t)) = Map.empty"
    "snd (mcp_hashtable_clear ops t) = concat (map (free_entry ops) (concat (ht_buckets t)))"
proof -
  show "ht_inv ops (fst (mcp_hashtable_clear ops t))"
    using assms by (auto simp: ht_inv_def mcp_hashtable_clear_def buckets_ok_def)
  show "ht_map ops (fst (mcp_hashtable_clear ops t)) = Map.empty"
    using ht_inv_index_lt [OF assms] by (auto simp: ht_map_def mcp_hashtable_clear_def)
  show "snd (mcp_hashtable_clear ops t) = concat (map (free_entry ops) (concat (ht_buckets t)))"
    by (simp add: mcp_hashtable_clear_def concat_map_concat)
qed

lemma put_all_spec:
  assumes "ht_inv ops t" "c + int (length kvs) < 2 ^ 31"
  shows "\<exists>n t' ev m'. put_all ops m t kvs c = Done (n, t', ev, m') \<and> ht_inv ops t' \<and>
         c \<le> n \<and> n \<le> c + int (length kvs) \<and>
         (n = c + int (length kvs) \<longrightarrow> ht_map ops t' = ht_map ops t ++ map_of (rev kvs))"
  using assms
proof (induction kvs arbitrary: m t c)
  case Nil
  then show ?case by simp
next
  case (Cons kv kvs)
  obtain k v where kv: "kv = (k, v)" by (cases kv)
  obtain rc t1 ev1 m1 where p: "mcp_hashtable_put ops m t k v = (rc, t1, ev1, m1)"
    by (metis prod_cases4)
  let ?c = "if rc = 0 then c + 1 else c"
  have post: "put_post ops t k v rc t1 ev1" by (rule put_spec [OF Cons.prems(1) p])
  then have inv1: "ht_inv ops t1" by (simp add: put_post_def)
  have c: "?c + int (length kvs) < 2 ^ 31" "c \<noteq> 2 ^ 31 - 1" using Cons.prems(2) by auto
  obtain n t2 ev2 m2 where q: "put_all ops m1 t1 kvs ?c = Done (n, t2, ev2, m2)" "ht_inv ops t2"
    "?c \<le> n" "n \<le> ?c + int (length kvs)"
    "n = ?c + int (length kvs) \<longrightarrow> ht_map ops t2 = ht_map ops t1 ++ map_of (rev kvs)"
    using Cons.IH [OF inv1 c(1)] by blast
  have res: "put_all ops m t (kv # kvs) c = Done (n, t2, ev1 @ ev2, m2)" using kv p q(1) c(2) by simp
  have "ht_map ops t1 ++ map_of (rev kvs) = ht_map ops t ++ map_of (rev (kv # kvs))" if "rc = 0"
    using post that kv by (auto simp: put_post_def map_add_upd_left map_add_def split: option.splits)
  then show ?case using res q(2-5) by (cases "rc = 0") auto
qed

end

section \<open>The three key types\<close>

lemma key_ops_by_alloc: "key_ops \<lparr>hash_func = h, key_compare = (\<lambda>a b. a = b), key_dup = dup_by_alloc, has_value_free = vf\<rparr>"
  by unfold_locales (auto simp: dup_by_alloc_def split: prod.splits if_splits)

interpretation string_key: key_ops "string_ops vf"
  unfolding string_ops_def by (rule key_ops_by_alloc)

interpretation int_key: key_ops "int_ops vf"
  unfolding int_ops_def by (rule key_ops_by_alloc)

interpretation ptr_key: key_ops "ptr_ops vf"
  by unfold_locales (simp_all add: ptr_ops_def)

section \<open>Creation, size and iteration\<close>

lemma create_spec:
  assumes "mcp_hashtable_create m n thr = (Some t, m')" "unat n \<le> 2 ^ 60"
  shows "ht_inv ops t \<and> ht_map ops t = Map.empty \<and> ht_values t = [] \<and>
         0 < ht_threshold t \<and> ht_threshold t < 1 \<and>
         (is_power_of_two n \<longrightarrow> ht_capacity t = n)"
proof -
  let ?cap = "if n = 0 then 16 else if \<not> is_power_of_two n then next_power_of_two n else n"
  have "\<exists>j. ?cap = 2 ^ j \<and> j \<le> 60"
  proof (cases "n = 0 \<or> is_power_of_two n")
    case True
    show ?thesis
    proof (cases "n = 0")
      case True
      then show ?thesis by (intro exI [of _ 4]) simp
    next
      case False
      with True obtain j where j: "j < 64" "n = 2 ^ j" using is_power_of_two_exp by blast
      with assms(2) have "(2::nat) ^ j \<le> 2 ^ 60" by (simp add: unat_exp_64)
      then have "j \<le> 60" by (rule power_le_imp_le_exp [rotated]) simp
      with False True j show ?thesis by auto
    qed
  next
    case False
    obtain j where j: "j < 64" "next_power_loop n (2 ^ 0) = 2 ^ j" "0 < j \<longrightarrow> 2 ^ (j - 1) < unat n"
      using next_power_loop_exp [of n 0] assms(2) by auto
    have "j \<le> 60"
    proof (cases "0 < j")
      case True
      with j(3) assms(2) have "(2::nat) ^ (j - 1) < 2 ^ 60" by linarith
      then have "j - 1 < 60" by (rule power_less_imp_less_exp [rotated]) simp
      then show ?thesis by simp
    qed simp
    with False j show ?thesis by (auto simp: next_power_of_two_def)
  qed
  then obtain j where j: "?cap = 2 ^ j" "j \<le> 60" by blast
  obtain bs m1 where bs: "alloc_buckets m1 (2 ^ j) = (Some bs, m')"
    and t: "t = Hashtable bs (2 ^ j) 0 (if thr \<le> 0 \<or> 1 \<le> thr then 3 / 4 else thr)"
    using assms(1) unfolding mcp_hashtable_create_def Let_def j(1)
    by (auto split: prod.splits if_splits option.splits)
  have b: "j < 60" "bs = replicate (2 ^ j) []" using alloc_buckets_exp [OF bs j(2)] by auto
  then have "length bs = unat (2 ^ j :: size_t)" by (simp add: unat_exp_64)
  with b t have inv: "ht_inv ops t" by (auto simp: ht_inv_def buckets_ok_def)
  have "ht_map ops t = Map.empty"
    using ht_inv_index_lt [OF inv] b t by (auto simp: ht_map_def)
  with inv b t j show ?thesis by (auto simp: ht_values_def is_power_of_two_def split: if_splits)
qed

lemma dom_ht_map: "ht_inv ops t \<Longrightarrow> dom (ht_map ops t) = fst ` set (concat (ht_buckets t))"
  by (simp add: ht_map_concat dom_map_of_conv_image_fst)

lemma ht_size_card:
  assumes "ht_inv ops t"
  shows "ht_size t = of_nat (card (dom (ht_map ops t)))"
proof -
  have "distinct (map fst (concat (ht_buckets t)))"
    using assms distinct_keys_concat by (auto simp: ht_inv_def)
  then have "card (fst ` set (concat (ht_buckets t))) = length (concat (ht_buckets t))"
    using distinct_card by (metis length_map list.set_map)
  with assms show ?thesis by (simp add: dom_ht_map ht_inv_def)
qed

lemma foreach_foldl:
  "mcp_hashtable_foreach cb t s = foldl (\<lambda>s e. cb (fst e) (snd e) s) s (concat (ht_buckets t))"
proof -
  have "foldl (foldl (\<lambda>s e. cb (fst e) (snd e) s)) s bs = foldl (\<lambda>s e. cb (fst e) (snd e) s) s (concat bs)"
    for bs and s
    by (induction bs arbitrary: s) auto
  then show ?thesis by (simp add: mcp_hashtable_foreach_def)
qed

lemma foreach_collect:
  "mcp_hashtable_foreach (\<lambda>k v acc. acc @ [(k, v)]) t acc = acc @ concat (ht_buckets t)"
proof -
  have "foldl (\<lambda>s e. s @ [(fst e, snd e)]) acc es = acc @ es" for acc es :: "('a \<times> 'b) list"
    by (induction es arbitrary: acc) auto
  then show ?thesis by (simp add: foreach_foldl)
qed

section \<open>The string hash\<close>

lemma string_hash_loop_foldl: "string_hash_loop h s = foldl fnv_step h s"
  by (induction h s rule: string_hash_loop.induct) auto

section \<open>The growth loop of batch insertion\<close>

lemma bit_len_bounds: "0 < n \<Longrightarrow> 2 ^ (bit_len n - 1) \<le> n \<and> n < 2 ^ bit_len n"
proof (induction n rule: bit_len.induct)
  case (1 n)
  show ?case
  proof (cases "n = 1")
    case True
    then show ?thesis by (simp add: bit_len.simps)
  next
    case False
    with 1 have IH: "2 ^ (bit_len (n div 2) - 1) \<le> n div 2" "n div 2 < 2 ^ bit_len (n div 2)" by auto
    have b: "bit_len n = Suc (bit_len (n div 2))" using "1.prems" by (subst bit_len.simps) simp
    have "0 < n div 2" using False "1.prems" by auto
    then have "0 < bit_len (n div 2)" by (subst bit_len.simps) simp
    then obtain k where k: "bit_len (n div 2) = Suc k" by (cases "bit_len (n div 2)") auto
    have "2 ^ k \<le> n div 2" "n div 2 < 2 * 2 ^ k" using IH k by simp_all
    then have "2 * 2 ^ k \<le> n" "n < 4 * 2 ^ k" by linarith+
    with b k show ?thesis by simp
  qed
qed

lemma f32_of_nat_le: "f32_of_nat n \<le> 2 * n"
proof (cases "n = 0")
  case True
  then show ?thesis by (simp add: f32_of_nat_def bit_len.simps)
next
  case False
  let ?s = "bit_len n - 24"
  have "2 ^ ?s \<le> (2::nat) ^ (bit_len n - 1)" by (rule power_increasing) auto
  then have "2 ^ ?s \<le> n" using bit_len_bounds [of n] False by linarith
  moreover have q: "n div 2 ^ ?s * 2 ^ ?s \<le> n" by (rule div_times_less_eq_dividend)
  moreover have "(n div 2 ^ ?s + 1) * 2 ^ ?s = n div 2 ^ ?s * 2 ^ ?s + 2 ^ ?s" by simp
  ultimately have "(n div 2 ^ ?s + 1) * 2 ^ ?s \<le> 2 * n" "n div 2 ^ ?s * 2 ^ ?s \<le> 2 * n"
    by linarith+
  then show ?thesis unfolding f32_of_nat_def Let_def by (simp only: split: if_split) simp
qed

text \<open>Rounding to \<open>float\<close> keeps the order.\<close>

definition f32_round :: "nat \<Rightarrow> nat \<Rightarrow> nat" where
  "f32_round s n = (let q = n div 2 ^ s; r = n mod 2 ^ s; h = 2 ^ (s - 1)
     in if h < r \<or> (r = h \<and> odd q) then q + 1 else q)"

lemma f32_of_nat_round:
  "f32_of_nat n = (if bit_len n \<le> 24 then n else f32_round (bit_len n - 24) n * 2 ^ (bit_len n - 24))"
  by (simp add: f32_of_nat_def f32_round_def Let_def)

lemma f32_round_mono:
  assumes "m \<le> n"
  shows "f32_round s m \<le> f32_round s n"
proof (cases "m div 2 ^ s = n div 2 ^ s")
  case True
  have "m mod 2 ^ s \<le> n mod 2 ^ s"
    using assms True by (metis add_le_cancel_left div_mult_mod_eq)
  with True show ?thesis by (auto simp: f32_round_def Let_def)
next
  case False
  with assms have "m div 2 ^ s + 1 \<le> n div 2 ^ s" using div_le_mono [OF assms, of "2 ^ s"] by linarith
  then show ?thesis by (auto simp: f32_round_def Let_def)
qed

lemma bit_len_mono: "m \<le> n \<Longrightarrow> bit_len m \<le> bit_len n"
proof (induction n arbitrary: m rule: bit_len.induct)
  case (1 n)
  have "bit_len 0 = 0" by (subst bit_len.simps) simp
  with 1 show ?case by (cases "m = 0") (auto simp: bit_len.simps [of m] bit_len.simps [of n] intro: div_le_mono)
qed

lemma f32_of_nat_bounds:
  assumes "0 < n"
  shows "2 ^ (bit_len n - 1) \<le> f32_of_nat n" "f32_of_nat n \<le> 2 ^ bit_len n"
proof -
  note b = bit_len_bounds [OF assms]
  have "2 ^ (bit_len n - 1) \<le> f32_of_nat n \<and> f32_of_nat n \<le> 2 ^ bit_len n"
  proof (cases "bit_len n \<le> 24")
    case True
    with b show ?thesis by (simp add: f32_of_nat_round)
  next
    case False
    define s where "s = bit_len n - 24"
    have "bit_len n - 1 = 23 + s" "bit_len n = 24 + s" using False by (simp_all add: s_def)
    then have l: "2 ^ (bit_len n - 1) = 2 ^ 23 * (2 ^ s :: nat)" "2 ^ bit_len n = 2 ^ 24 * (2 ^ s :: nat)"
      by (simp_all only: power_add)
    have "2 ^ 23 * 2 ^ s \<le> n" "n < 2 ^ 24 * 2 ^ s" using b unfolding l by blast+
    then have "2 ^ 23 \<le> n div 2 ^ s" "n div 2 ^ s < 2 ^ 24"
      by (simp_all only: less_eq_div_iff_mult_less_eq less_mult_imp_div_less zero_less_power zero_less_numeral)
    then have "2 ^ 23 \<le> f32_round s n" "f32_round s n \<le> 2 ^ 24" by (auto simp: f32_round_def Let_def)
    moreover have "f32_of_nat n = f32_round s n * 2 ^ s" using False by (simp only: f32_of_nat_round s_def if_False)
    ultimately show ?thesis unfolding l by (simp only: mult_le_mono1)
  qed
  then show "2 ^ (bit_len n - 1) \<le> f32_of_nat n" "f32_of_nat n \<le> 2 ^ bit_len n" by simp_all
qed

lemma f32_of_nat_mono:
  assumes "m \<le> n"
  shows "f32_of_nat m \<le> f32_of_nat n"
proof -
  consider "bit_len m = bit_len n" | "m = 0" | "0 < m" "bit_len m < bit_len n"
    using bit_len_mono [OF assms] by linarith
  then show ?thesis
  proof cases
    case 1
    with assms show ?thesis by (auto simp: f32_of_nat_round f32_round_mono)
  next
    case 2
    then show ?thesis using f32_of_nat_le [of 0] by simp
  next
    case 3
    have "f32_of_nat m \<le> 2 ^ bit_len m" using f32_of_nat_bounds 3 by blast
    also have "\<dots> \<le> 2 ^ (bit_len n - 1)" using 3 by (intro power_increasing) auto
    also have "\<dots> \<le> f32_of_nat n" using f32_of_nat_bounds 3 assms by simp
    finally show ?thesis .
  qed
qed

lemma load_exceeds_mono:
  assumes "load_exceeds m cap thr" "unat m \<le> unat n"
  shows "load_exceeds n cap thr"
proof -
  have "(of_nat (f32_of_nat (unat m)) :: rat) \<le> of_nat (f32_of_nat (unat n))"
    using f32_of_nat_mono [OF assms(2)] by (simp only: of_nat_le_iff)
  then have "(of_nat (f32_of_nat (unat m)) :: rat) / of_nat (unat cap) \<le> of_nat (f32_of_nat (unat n)) / of_nat (unat cap)"
    by (rule divide_right_mono) (rule of_nat_0_le_iff)
  with assms(1) show ?thesis by (auto simp: load_exceeds_def)
qed

lemma load_ok_at_2_59:
  assumes "unat n \<le> 2 ^ 56" "1 / 4 \<le> thr"
  shows "\<not> load_exceeds n (2 ^ 59) thr"
proof -
  have "f32_of_nat (unat n) \<le> 2 ^ 57" using f32_of_nat_le [of "unat n"] assms(1) by simp
  then have "(of_nat (f32_of_nat (unat n)) :: rat) \<le> of_nat (2 ^ 57)" by (simp only: of_nat_le_iff)
  then have "(of_nat (f32_of_nat (unat n)) :: rat) / 2 ^ 59 \<le> 1 / 4" by simp
  with assms(2) show ?thesis by (simp add: load_exceeds_def)
qed

lemma grow_capacity_returns:
  assumes "unat n \<le> 2 ^ 56" "1 / 4 \<le> thr" "j \<le> 59"
  shows "\<exists>i. j \<le> i \<and> i \<le> 59 \<and> grow_capacity n thr (2 ^ j) = Some (2 ^ i)"
  using assms(3)
proof (induction "59 - j" arbitrary: j rule: less_induct)
  case less
  show ?case
  proof (cases "load_exceeds n (2 ^ j) thr")
    case False
    then show ?thesis using less.prems by (auto simp: grow_capacity.simps)
  next
    case True
    then have "j \<noteq> 59" using load_ok_at_2_59 [OF assms(1,2)] by metis
    with less.prems have j: "59 - Suc j < 59 - j" "Suc j \<le> 59" by auto
    have "(2 ^ j * 2 :: size_t) = 2 ^ Suc j" by simp
    then have "grow_capacity n thr (2 ^ j) = grow_capacity n thr (2 ^ Suc j)"
      using True by (metis grow_capacity.simps)
    with less.hyps [OF j] show ?thesis by (metis Suc_leD)
  qed
qed

lemma unat_add_of_nat:
  fixes w :: size_t
  assumes "unat w + n \<le> 2 ^ 56"
  shows "unat (w + of_nat n) = unat w + n"
proof -
  have n: "unat (of_nat n :: size_t) = n" using assms by (simp add: unsigned_of_nat take_bit_nat_eq_self)
  with assms unat_add_no_wrap [of w "of_nat n"] show ?thesis by simp
qed

lemma grow_capacity_exit:
  assumes "grow_capacity n thr cap = Some r"
  shows "\<not> load_exceeds n r thr"
proof (rule grow_capacity.raw_induct [where P = "\<lambda>n thr cap r. \<not> load_exceeds n r thr", OF _ assms])
  fix f n thr cap r
  assume "\<And>n thr cap r. f n thr cap = Some r \<Longrightarrow> \<not> load_exceeds n r thr"
    and "(if load_exceeds n cap thr then f n thr (cap * 2) else Some cap) = Some r"
  then show "\<not> load_exceeds n r thr" by (auto split: if_splits)
qed

lemma resize_has_memory:
  fixes t :: "('k, 'v) mcp_hashtable"
  assumes "i \<le> 59" "ht_capacity t < 2 ^ i"
  shows "\<exists>t'. hashtable_resize ops [] t (2 ^ i) = (0, t', []) \<and> ht_capacity t' = 2 ^ i \<and>
    ht_size t' = ht_size t \<and> ht_threshold t' = ht_threshold t"
proof -
  have "unat (2 ^ (i + 3) :: size_t) = 2 ^ (i + 3)" using assms(1) by (intro unat_exp_64) simp
  then have "unat (2 ^ i * 8 :: size_t) = 2 ^ (i + 3)" by (simp add: power_add)
  moreover have "(2::nat) ^ (i + 3) < 2 ^ 63" using assms(1) by (intro power_strict_increasing) auto
  ultimately have "\<not> 2 ^ 63 \<le> unat (2 ^ i * 8 :: size_t)" by simp
  then obtain bs :: "('k \<times> 'v) list list" where bs: "alloc_buckets [] (2 ^ i :: size_t) = (Some bs, [])"
    by (simp add: alloc_buckets_def Let_def)
  have "\<not> 2 ^ i \<le> ht_capacity t" using assms(2) by simp
  then show ?thesis by (simp add: hashtable_resize_def bs)
qed

text \<open>The state in which \<open>mcp_hashtable_put_batch\<close> starts to insert.\<close>

lemma put_batch_prepared:
  assumes inv: "ht_inv (string_ops vf) t" and thr: "1 / 4 \<le> ht_threshold t"
    and size: "unat (ht_size t) + length kvs \<le> 2 ^ 56" and ne: "kvs \<noteq> []"
  defines "ops \<equiv> string_ops vf" and "need \<equiv> ht_size t + of_nat (length kvs)"
  shows "\<exists>m1 t1. ht_inv ops t1 \<and> ht_map ops t1 = ht_map ops t \<and>
    mcp_hashtable_put_batch ops m t kvs = Some (put_all ops m1 t1 kvs 0) \<and>
    (m = [] \<longrightarrow> m1 = [] \<and> ht_size t1 = ht_size t \<and> \<not> load_exceeds need (ht_capacity t1) (ht_threshold t1))"
proof (cases "load_exceeds need (ht_capacity t) (ht_threshold t)")
  case False
  with inv ne show ?thesis
    by (intro exI [of _ m] exI [of _ t]) (simp add: mcp_hashtable_put_batch_def need_def ops_def)
next
  case True
  obtain j where j: "j < 60" "ht_capacity t = 2 ^ j" using inv by (auto simp: ht_inv_def)
  have n56: "unat need \<le> 2 ^ 56" unfolding need_def using size by (simp only: unat_add_of_nat)
  obtain i where i: "j \<le> i" "i \<le> 59" "grow_capacity need (ht_threshold t) (ht_capacity t) = Some (2 ^ i)"
    using grow_capacity_returns [OF n56 thr, of j] j by auto
  obtain rc t1 m1 where r: "hashtable_resize ops m t (2 ^ i) = (rc, t1, m1)" by (metis prod_cases3)
  have spec: "ht_inv ops t1" "ht_map ops t1 = ht_map ops t"
    using string_key.resize_spec [OF inv _ r [unfolded ops_def]] i(2) by (simp_all add: ops_def)
  have run: "mcp_hashtable_put_batch ops m t kvs = Some (put_all ops m1 t1 kvs 0)"
    using True i(3) r ne by (simp add: mcp_hashtable_put_batch_def need_def [symmetric] Let_def)
  have "\<not> load_exceeds need (2 ^ i) (ht_threshold t)" by (rule grow_capacity_exit [OF i(3)])
  moreover from this True have "2 ^ i \<noteq> ht_capacity t" by metis
  then have "j < i" using i(1) j(2) by (metis le_neq_implies_less)
  then have "ht_capacity t < 2 ^ i" using i(2) j by (simp add: word_less_nat_alt unat_exp_64)
  ultimately have "m1 = [] \<and> ht_size t1 = ht_size t \<and> \<not> load_exceeds need (ht_capacity t1) (ht_threshold t1)"
    if "m = []" using resize_has_memory [OF i(2), of t ops] r that by auto
  with spec run show ?thesis by blast
qed

text \<open>While the load allows it, every put succeeds without resizing.\<close>

lemma put_has_room:
  assumes "\<not> load_exceeds (ht_size t + 1) (ht_capacity t) (ht_threshold t)"
  shows "\<exists>t' ev. mcp_hashtable_put (string_ops vf) [] t k v = (0, t', ev, []) \<and>
    ht_capacity t' = ht_capacity t \<and> ht_threshold t' = ht_threshold t \<and>
    ht_size t' \<in> {ht_size t, ht_size t + 1}"
proof -
  have dup: "key_dup (string_ops vf) [] k = (Some k, [])" by (simp add: string_ops_def dup_by_alloc_def)
  show ?thesis
    using assms dup
    by (cases "find_entry (string_ops vf) k (ht_buckets t ! bucket_index (string_ops vf) (ht_capacity t) k)")
      (auto simp: mcp_hashtable_put_def Let_def)
qed

lemma put_all_all:
  assumes "\<not> load_exceeds need (ht_capacity t) (ht_threshold t)"
    and "unat (ht_size t) + length kvs \<le> unat need" and "c + int (length kvs) < 2 ^ 31"
  shows "\<exists>t' ev. put_all (string_ops vf) [] t kvs c = Done (c + int (length kvs), t', ev, [])"
  using assms
proof (induction kvs arbitrary: t c)
  case Nil
  then show ?case by simp
next
  case (Cons kv kvs)
  obtain k v where kv: "kv = (k, v)" by (cases kv)
  have s1: "unat (ht_size t + 1) = unat (ht_size t) + 1"
    using Cons.prems(2) unsigned_less [of need, where ?'a = nat] unat_add_no_wrap [of "ht_size t" 1] by simp
  then have "\<not> load_exceeds (ht_size t + 1) (ht_capacity t) (ht_threshold t)"
    using Cons.prems(1,2) load_exceeds_mono [of "ht_size t + 1" "ht_capacity t" "ht_threshold t" need] by auto
  from put_has_room [OF this, of vf k v] obtain t1 ev1 where
    p: "mcp_hashtable_put (string_ops vf) [] t k v = (0, t1, ev1, [])" "ht_capacity t1 = ht_capacity t"
      "ht_threshold t1 = ht_threshold t" "ht_size t1 \<in> {ht_size t, ht_size t + 1}" by blast
  have "unat (ht_size t1) + length kvs \<le> unat need" using p(4) s1 Cons.prems(2) by auto
  with Cons.IH [of t1 "c + 1"] Cons.prems(1,3) p(1-3) show ?case by (auto simp: kv)
qed

section \<open>Properties\<close>

text \<open>The tables a client can hold: created, then changed by any sequence of operations.\<close>

inductive ht_run :: "'k hash_ops \<Rightarrow> ('k, 'v) mcp_hashtable \<Rightarrow> bool" for ops where
  create: "mcp_hashtable_create m n thr = (Some t, m') \<Longrightarrow> unat n \<le> 2 ^ 60 \<Longrightarrow> ht_run ops t"
| put: "ht_run ops t \<Longrightarrow> mcp_hashtable_put ops m t k v = (rc, t', ev, m') \<Longrightarrow> ht_run ops t'"
| remove: "ht_run ops t \<Longrightarrow> mcp_hashtable_remove ops t k = (rc, t', ev) \<Longrightarrow> ht_run ops t'"
| clear: "ht_run ops t \<Longrightarrow> mcp_hashtable_clear ops t = (t', ev) \<Longrightarrow> ht_run ops t'"

context key_ops
begin

lemma run_inv: "ht_run ops t \<Longrightarrow> ht_inv ops t"
proof (induction rule: ht_run.induct)
  case (create m n thr t m')
  then show ?case using create_spec by blast
next
  case (put t m k v rc t' ev m')
  then have "put_post ops t k v rc t' ev" by (blast intro: put_spec)
  then show ?case by (simp add: put_post_def)
next
  case (remove t k rc t' ev)
  then show ?case using remove_spec by blast
next
  case (clear t t' ev)
  then show ?case using clear_spec(1) by (metis fst_conv)
qed

end

text \<open>In every table a client can reach (whatever allocations fail on the way), the
  capacity is a power of two and the bucket array has that many slots, so the index
  \<open>hash & (capacity - 1)\<close> of any key is in range; every entry is in the bucket of its hash; no key
  occurs twice; and \<open>size\<close> is the number of keys.\<close>

theorem hashtable_reachable_inv:
  assumes "ht_run (string_ops vf) t"
  shows "(\<exists>k. k < 60 \<and> ht_capacity t = 2 ^ k \<and> length (ht_buckets t) = 2 ^ k) \<and>
         bucket_index (string_ops vf) (ht_capacity t) x < length (ht_buckets t) \<and>
         (i < length (ht_buckets t) \<longrightarrow> (y, v) \<in> set (ht_buckets t ! i) \<longrightarrow>
            bucket_index (string_ops vf) (ht_capacity t) y = i) \<and>
         distinct (map fst (concat (ht_buckets t))) \<and>
         ht_size t = of_nat (card (dom (ht_map (string_ops vf) t)))"
proof -
  have inv: "ht_inv (string_ops vf) t" by (rule string_key.run_inv [OF assms])
  then have ok: "buckets_ok (string_ops vf) (ht_capacity t) (ht_buckets t)"
    and cap: "\<exists>k. k < 60 \<and> ht_capacity t = 2 ^ k \<and> length (ht_buckets t) = 2 ^ k"
    by (auto simp: ht_inv_def unat_exp_64)
  have place: "i < length (ht_buckets t) \<longrightarrow> (y, v) \<in> set (ht_buckets t ! i) \<longrightarrow>
            bucket_index (string_ops vf) (ht_capacity t) y = i"
    using ok unfolding buckets_ok_def by (metis fst_conv)
  show ?thesis
    by (intro conjI cap place ht_inv_index_lt [OF inv] distinct_keys_concat [OF ok]
        ht_size_card [OF inv])
qed

definition ht_example :: "(string, nat) mcp_hashtable" where
  "ht_example = Hashtable [[], [(''b'', 2)], [], []] 4 1 (3 / 4)"

lemmas ht_eval = mcp_hashtable_create_def mcp_hashtable_put_def mcp_hashtable_get_def
  mcp_hashtable_remove_def mcp_hashtable_contains_def hashtable_resize_def alloc_buckets_def
  rehash_entry_def load_exceeds_def f32_of_nat_def bit_len.simps is_power_of_two_def
  bucket_index_def string_ops_def mcp_hashtable_string_hash_def fnv_step_def dup_by_alloc_def
  value_free_call_def ht_map_def

lemma ht_example_run: "ht_run (string_ops True) ht_example"
proof -
  have "mcp_hashtable_create [] 4 0 = (Some (Hashtable [[], [], [], []] 4 0 (3 / 4)), [])"
  proof -
    have r: "replicate 4 [] = [[], [], [], []]" by (simp add: numeral_eq_Suc)
    show ?thesis by (simp add: ht_eval r)
  qed
  then have c: "ht_run (string_ops True) (Hashtable [[], [], [], []] 4 0 (3 / 4))"
    by (rule ht_run.create) simp
  have "mcp_hashtable_put (string_ops True) [] (Hashtable [[], [], [], []] 4 0 (3 / 4)) ''b'' 2
        = (0, ht_example, [], [])"
    by (simp add: ht_eval ht_example_def)
  from ht_run.put [OF c this] show ?thesis .
qed

theorem hashtable_reachable_inv_witness:
  "distinct (map fst (concat (ht_buckets ht_example))) \<and>
   ht_size ht_example = of_nat (card (dom (ht_map (string_ops True) ht_example)))"
  using hashtable_reachable_inv [OF ht_example_run] by blast

text \<open>Claim C9.  \<open>mcp_hashtable_put\<close> followed by \<open>mcp_hashtable_get\<close>: after a put that returned 0,
  a lookup of the same key returns the new value and every other lookup is as before, whether or
  not the put resized the table; a put that failed returned -1 and changed no lookup.\<close>

theorem hashtable_put_get:
  assumes "ht_run (string_ops vf) t"
    and "mcp_hashtable_put (string_ops vf) m t k v = (rc, t', ev, m')"
  shows "mcp_hashtable_get (string_ops vf) t' x
           = (if rc = 0 \<and> x = k then (0, Some v) else mcp_hashtable_get (string_ops vf) t x) \<and>
         rc \<in> {0, -1}"
proof -
  have "put_post (string_ops vf) t k v rc t' ev"
    by (rule string_key.put_spec [OF string_key.run_inv [OF assms(1)] assms(2)])
  then show ?thesis
    by (auto simp: put_post_def string_key.get_map split: if_splits)
qed

theorem hashtable_put_get_witness:
  "mcp_hashtable_get (string_ops True)
     (fst (snd (mcp_hashtable_put (string_ops True) [] ht_example ''a'' 7))) ''a'' = (0, Some 7)"
proof -
  obtain rc t' ev m' where p: "mcp_hashtable_put (string_ops True) [] ht_example ''a'' 7 = (rc, t', ev, m')"
    by (metis prod_cases4)
  have "rc = 0" using p by (simp add: ht_eval ht_example_def)
  with hashtable_put_get [OF ht_example_run p, of "''a''"] p show ?thesis by simp
qed

text \<open>\<open>mcp_hashtable_remove\<close> returns 0 exactly when the key was present; afterwards the key
  is absent, every other lookup is as before, and the number of keys has dropped by one.\<close>

theorem hashtable_remove_get:
  assumes "ht_run (string_ops vf) t"
    and "mcp_hashtable_remove (string_ops vf) t k = (rc, t', ev)"
  shows "(rc = 0 \<longleftrightarrow> mcp_hashtable_contains (string_ops vf) t k) \<and>
         mcp_hashtable_get (string_ops vf) t' x
           = (if x = k then (-1, None) else mcp_hashtable_get (string_ops vf) t x) \<and>
         ht_size t' = (if rc = 0 then ht_size t - 1 else ht_size t)"
proof -
  have inv: "ht_inv (string_ops vf) t" by (rule string_key.run_inv [OF assms(1)])
  note spec = string_key.remove_spec [OF inv assms(2)]
  have "ht_size t' = (if rc = 0 then ht_size t - 1 else ht_size t)"
    using assms(2) by (auto simp: mcp_hashtable_remove_def Let_def split: option.splits)
  with spec show ?thesis
    by (auto simp: string_key.get_map string_key.contains_map split: option.splits)
qed

theorem hashtable_remove_get_witness:
  "mcp_hashtable_get (string_ops True)
     (fst (snd (mcp_hashtable_remove (string_ops True) ht_example ''b''))) ''b'' = (-1, None)"
proof -
  obtain rc t' ev where p: "mcp_hashtable_remove (string_ops True) ht_example ''b'' = (rc, t', ev)"
    by (metis prod_cases3)
  from hashtable_remove_get [OF ht_example_run p, of "''b''"] p show ?thesis by simp
qed

text \<open>No value is lost or freed twice: after a successful put the values of the table
  together with the values passed to \<open>value_free\<close> are the values before together with the new one
  (the one replaced, if any, is the one freed), and a failed put frees nothing and keeps every
  stored value.\<close>

theorem hashtable_put_ownership:
  assumes "ht_run (string_ops True) t"
    and "mcp_hashtable_put (string_ops True) m t k v = (rc, t', ev, m')"
  shows "\<exists>freed. ev = map ValueFree freed \<and>
           mset (ht_values t') + mset freed = mset (ht_values t) + (if rc = 0 then {#v#} else {#})"
proof -
  have "put_post (string_ops True) t k v rc t' ev"
    by (rule string_key.put_spec [OF string_key.run_inv [OF assms(1)] assms(2)])
  moreover have "has_value_free (string_ops True)" by (simp add: string_ops_def)
  ultimately show ?thesis
    by (intro exI [of _ "if rc = 0 then case ht_map (string_ops True) t k of None \<Rightarrow> [] | Some old \<Rightarrow> [old] else []"])
      (auto simp: put_post_def value_free_call_def split: if_splits option.splits)
qed

theorem hashtable_put_ownership_witness:
  "\<exists>rc t' ev m' freed. mcp_hashtable_put (string_ops True) [] ht_example ''b'' 9 = (rc, t', ev, m') \<and>
     ev = map ValueFree freed \<and>
     mset (ht_values t') + mset freed = mset (ht_values ht_example) + (if rc = 0 then {#9#} else {#})"
proof -
  obtain rc t' ev m' where p: "mcp_hashtable_put (string_ops True) [] ht_example ''b'' 9 = (rc, t', ev, m')"
    by (metis prod_cases4)
  from hashtable_put_ownership [OF ht_example_run p] p show ?thesis by blast
qed

text \<open>The unrolled \<open>mcp_hashtable_string_hash\<close> computes the byte-by-byte FNV-1a fold with
  the same constants, followed by the final mixing.\<close>

theorem string_hash_is_fnv1a:
  "mcp_hashtable_string_hash s =
     (let h = foldl (\<lambda>h c. (h XOR of_char c) * 16777619) 2166136261 s in h XOR drop_bit 16 h)"
  by (simp add: mcp_hashtable_string_hash_def string_hash_loop_foldl fnv_step_def [abs_def])

text \<open>For every \<open>n\<close> from 1 to $2^{63}$, \<open>next_power_of_two n\<close> is the least power of two that is
  not below \<open>n\<close>; the loop terminates for every argument.\<close>

theorem next_power_of_two_least:
  assumes "n \<noteq> 0" "unat n \<le> 2 ^ 63"
  shows "\<exists>j. j < 64 \<and> next_power_of_two n = 2 ^ j \<and> unat n \<le> 2 ^ j \<and>
             (\<forall>i. unat n \<le> 2 ^ i \<longrightarrow> j \<le> i)"
proof (cases "is_power_of_two n")
  case True
  then obtain j where j: "j < 64" "n = 2 ^ j" using is_power_of_two_exp by blast
  moreover have "j \<le> i" if "unat n \<le> 2 ^ i" for i
    using that j by (metis one_less_numeral_iff power_le_imp_le_exp semiring_norm(76) unat_exp_64)
  ultimately show ?thesis using assms True by (auto simp: next_power_of_two_def unat_exp_64)
next
  case False
  obtain j where j: "j < 64" "next_power_loop n (2 ^ 0) = 2 ^ j" "unat n \<le> 2 ^ j"
    "0 < j \<longrightarrow> 2 ^ (j - 1) < unat n"
    using next_power_loop_exp [OF assms(2), of 0] by auto
  have "j \<le> i" if i: "unat n \<le> 2 ^ i" for i
  proof (cases "0 < j")
    case True
    with j(4) i have "(2::nat) ^ (j - 1) < 2 ^ i" by linarith
    then have "j - 1 < i" by (rule power_less_imp_less_exp [rotated]) simp
    then show ?thesis by simp
  qed simp
  with j False assms(1) show ?thesis by (auto simp: next_power_of_two_def)
qed

theorem next_power_of_two_least_witness:
  "\<exists>j. j < 64 \<and> next_power_of_two 100 = 2 ^ j \<and> (100::nat) \<le> 2 ^ j"
  using next_power_of_two_least [of 100] by auto

text \<open>Claim C34.  \<open>mcp_hashtable_put_batch\<close> returns, for a table with a threshold of at least 1/4, fewer
  than $2^{31}$ pairs and at most $2^{56}$ entries in all: the loop that doubles the capacity ends, and
  so does the call.  The result is a well-formed table and a count between 0 and the number of pairs;
  when the count is the number of pairs, the map is the old one updated with the pairs in order, the
  last pair of a key winning.  When no allocation fails the count is the number of pairs.\<close>

theorem put_batch_returns:
  assumes "ht_run (string_ops vf) t" and "1 / 4 \<le> ht_threshold t"
    and "unat (ht_size t) + length kvs \<le> 2 ^ 56" and "length kvs < 2 ^ 31" and "kvs \<noteq> []"
  shows "\<exists>n t' ev m'. mcp_hashtable_put_batch (string_ops vf) m t kvs = Some (Done (n, t', ev, m')) \<and>
           ht_inv (string_ops vf) t' \<and> 0 \<le> n \<and> n \<le> int (length kvs) \<and>
           (n = int (length kvs) \<longrightarrow>
              ht_map (string_ops vf) t' = ht_map (string_ops vf) t ++ map_of (rev kvs)) \<and>
           (m = [] \<longrightarrow> n = int (length kvs))"
proof -
  let ?ops = "string_ops vf" and ?need = "ht_size t + of_nat (length kvs)"
  have inv: "ht_inv ?ops t" by (rule string_key.run_inv [OF assms(1)])
  obtain m1 t1 where t1: "ht_inv ?ops t1" "ht_map ?ops t1 = ht_map ?ops t"
    "mcp_hashtable_put_batch ?ops m t kvs = Some (put_all ?ops m1 t1 kvs 0)"
    "m = [] \<longrightarrow> m1 = [] \<and> ht_size t1 = ht_size t \<and> \<not> load_exceeds ?need (ht_capacity t1) (ht_threshold t1)"
    using put_batch_prepared [OF inv assms(2,3,5), of m] by blast
  have len: "0 + int (length kvs) < 2 ^ 31" using assms(4) by simp
  obtain n t' ev m' where p: "put_all ?ops m1 t1 kvs 0 = Done (n, t', ev, m')" "ht_inv ?ops t'" "0 \<le> n"
    "n \<le> int (length kvs)" "n = int (length kvs) \<longrightarrow> ht_map ?ops t' = ht_map ?ops t1 ++ map_of (rev kvs)"
    using string_key.put_all_spec [OF t1(1) len, of m1] by auto
  have "n = int (length kvs)" if "m = []"
  proof -
    from that t1(4) have m1: "m1 = []" "ht_size t1 = ht_size t"
      "\<not> load_exceeds ?need (ht_capacity t1) (ht_threshold t1)" by auto
    have "unat (ht_size t1) + length kvs \<le> unat ?need" using assms(3) m1(2) by (simp add: unat_add_of_nat)
    from put_all_all [OF m1(3) this len, of vf] p(1) m1(1) show ?thesis by auto
  qed
  with t1(2,3) p show ?thesis by auto
qed

theorem put_batch_returns_witness:
  "\<exists>t' ev m'. mcp_hashtable_put_batch (string_ops True) [] ht_example [(''a'', 1), (''b'', 5), (''a'', 3)] =
      Some (Done (3, t', ev, m')) \<and>
    ht_map (string_ops True) t' ''a'' = Some 3 \<and> ht_map (string_ops True) t' ''b'' = Some 5"
  using put_batch_returns [OF ht_example_run, of "[(''a'', 1), (''b'', 5), (''a'', 3)]" "[]"]
  by (auto simp: ht_example_def)

text \<open>\<open>mcp_hashtable_create\<close> accepts every threshold strictly between 0 and 1, but for a
  tiny one (here $2^{-70}$, a \<open>float\<close>) the capacity loop of \<open>mcp_hashtable_put_batch\<close> never ends: the
  capacity doubles until it wraps to 0, where the quotient is infinite.\<close>

theorem put_batch_diverges:
  "\<exists>t m'. mcp_hashtable_create [] 16 (1 / 2 ^ 70) = (Some t, m') \<and>
          mcp_hashtable_put_batch (string_ops vf) m t [(k, v)] = None"
proof -
  have ex: "load_exceeds 1 cap (1 / 2 ^ 70)" for cap
  proof (cases "cap = 0")
    case False
    have "unat cap < 2 ^ LENGTH(64)" by (rule unsigned_less)
    then have "unat cap < 2 ^ 70" by simp
    then have "(of_nat (unat cap) :: rat) < of_nat (2 ^ 70)" by (simp only: of_nat_less_iff)
    then have "(of_nat (unat cap) :: rat) < 2 ^ 70" by simp
    moreover have "0 < unat cap" using False by (simp add: unat_gt_0)
    then have "0 < (of_nat (unat cap) :: rat)" by (simp only: of_nat_0_less_iff)
    ultimately have "(1::rat) / 2 ^ 70 < 1 / of_nat (unat cap)" by (intro divide_strict_left_mono) auto
    then show ?thesis by (simp add: load_exceeds_def f32_of_nat_def bit_len.simps)
  qed (simp add: load_exceeds_def)
  have g: "grow_capacity 1 (1 / 2 ^ 70) cap = None" for cap
    using ex grow_capacity_exit by (metis option.exhaust)
  let ?t = "Hashtable (replicate 16 []) 16 0 (1 / 2 ^ 70)"
  have "mcp_hashtable_create [] 16 (1 / 2 ^ 70) = (Some ?t, [])"
    by (simp add: mcp_hashtable_create_def is_power_of_two_def alloc_buckets_def)
  moreover have "mcp_hashtable_put_batch (string_ops vf) m ?t [(k, v)] = None"
    using ex [of 16] g [of 16] by (simp add: mcp_hashtable_put_batch_def)
  ultimately show ?thesis by blast
qed

end
