(* ===== verification/Mcp_Json.thy ===== *)
theory Mcp_Json
  imports Mcp_Hashtable
begin

text \<open>
  JSON values, \<open>src/json/mcp_json.c\<close> and the accessors of \<open>src/json/mcp_json_utils.c\<close>.

  A \<open>mcp_json_t*\<close> is a \<open>'d json option\<close>, \<open>None\<close> being NULL.  The type \<open>'d\<close> stands for the C type
  \<open>double\<close>, whose conversion from and to text is done by the C library and is a parameter of the
  parser and of the stringifier.  A value owns its children, so it is a tree: an array is the list
  of its items with the capacity of its item array, an object is a hash table of values.  Sharing a
  node between two parents, which the code supports with a reference count, is not modelled.
  Allocating a node in the thread-local arena is one request of the allocation model, as is each
  \<open>malloc\<close>, \<open>realloc\<close> and \<open>mcp_strdup\<close>.
\<close>

section \<open>Values\<close>

datatype 'd json =
    JNull
  | JBool bool
  | JNumber 'd
  | JString string
  | JArray "'d json list" nat   \<comment> \<open>\<open>items\<close> with \<open>count\<close>, and \<open>capacity\<close>\<close>
  | JObject "(string, 'd json) mcp_hashtable"

datatype mcp_json_type =
    MCP_JSON_NULL | MCP_JSON_BOOLEAN | MCP_JSON_NUMBER | MCP_JSON_STRING
  | MCP_JSON_ARRAY | MCP_JSON_OBJECT

abbreviation json_ops :: "string hash_ops" where
  "json_ops \<equiv> string_ops True"

section \<open>Construction\<close>

definition mcp_json_alloc_node :: "mem \<Rightarrow> bool \<times> mem" where
  "mcp_json_alloc_node m = mem_alloc m"

definition mcp_json_null_create :: "mem \<Rightarrow> 'd json option \<times> mem" where
  "mcp_json_null_create m =
     (let (ok, m1) = mcp_json_alloc_node m in (if ok then Some JNull else None, m1))"

definition mcp_json_boolean_create :: "mem \<Rightarrow> bool \<Rightarrow> 'd json option \<times> mem" where
  "mcp_json_boolean_create m b =
     (let (ok, m1) = mcp_json_alloc_node m in (if ok then Some (JBool b) else None, m1))"

definition mcp_json_number_create :: "mem \<Rightarrow> 'd \<Rightarrow> 'd json option \<times> mem" where
  "mcp_json_number_create m d =
     (let (ok, m1) = mcp_json_alloc_node m in (if ok then Some (JNumber d) else None, m1))"

definition mcp_json_string_create :: "mem \<Rightarrow> string option \<Rightarrow> 'd json option \<times> mem" where
  "mcp_json_string_create m value =
     (case value of
        None \<Rightarrow> (None, m)
      | Some s \<Rightarrow>
          (let (ok, m1) = mcp_json_alloc_node m
           in if \<not> ok then (None, m1)
              else let (ok', m2) = mem_alloc m1 in (if ok' then Some (JString s) else None, m2)))"

text \<open>
  \<open>malloc\<close> and \<open>realloc\<close> of an array of \<open>n\<close> item pointers, that is of \<open>8 * n\<close> bytes, refused from
  \<open>PTRDIFF_MAX\<close> on.  The capacities asked for are below \<open>2 ^ 61\<close>, so that the product is exact.
\<close>

definition malloc_items :: "mem \<Rightarrow> nat \<Rightarrow> bool \<times> mem" where
  "malloc_items m n = (if 2 ^ 63 \<le> 8 * n then (False, m) else mem_alloc m)"

definition mcp_json_array_create_with_capacity :: "mem \<Rightarrow> nat \<Rightarrow> 'd json option \<times> mem" where
  "mcp_json_array_create_with_capacity m capacity =
     (let (ok, m1) = mcp_json_alloc_node m
      in if \<not> ok then (None, m1)
         else if 0 < capacity
              then let (ok', m2) = malloc_items m1 capacity
                   in (Some (JArray [] (if ok' then capacity else 0)), m2)
              else (Some (JArray [] 0), m1))"

definition mcp_json_array_create :: "mem \<Rightarrow> 'd json option \<times> mem" where
  "mcp_json_array_create m = mcp_json_array_create_with_capacity m 0"

definition MCP_JSON_HASH_TABLE_INITIAL_CAPACITY :: size_t where
  "MCP_JSON_HASH_TABLE_INITIAL_CAPACITY = 32"

definition mcp_json_object_create_with_capacity :: "mem \<Rightarrow> size_t \<Rightarrow> 'd json option \<times> mem" where
  "mcp_json_object_create_with_capacity m capacity =
     (let (ok, m1) = mcp_json_alloc_node m
      in if \<not> ok then (None, m1)
         else case mcp_hashtable_create m1
                     (if 0 < capacity then capacity else MCP_JSON_HASH_TABLE_INITIAL_CAPACITY) (3 / 4) of
                (None, m2) \<Rightarrow> (None, m2)
              | (Some t, m2) \<Rightarrow> (Some (JObject t), m2))"

definition mcp_json_object_create :: "mem \<Rightarrow> 'd json option \<times> mem" where
  "mcp_json_object_create m =
     mcp_json_object_create_with_capacity m MCP_JSON_HASH_TABLE_INITIAL_CAPACITY"

section \<open>Accessors\<close>

definition mcp_json_get_type :: "'d json option \<Rightarrow> mcp_json_type" where
  "mcp_json_get_type json =
     (case json of
        None \<Rightarrow> MCP_JSON_NULL
      | Some JNull \<Rightarrow> MCP_JSON_NULL
      | Some (JBool _) \<Rightarrow> MCP_JSON_BOOLEAN
      | Some (JNumber _) \<Rightarrow> MCP_JSON_NUMBER
      | Some (JString _) \<Rightarrow> MCP_JSON_STRING
      | Some (JArray _ _) \<Rightarrow> MCP_JSON_ARRAY
      | Some (JObject _) \<Rightarrow> MCP_JSON_OBJECT)"

text \<open>A getter returns \<open>Some v\<close> when the C function returns 0 and stores \<open>v\<close>, \<open>None\<close> when it returns -1.\<close>

definition mcp_json_get_boolean :: "'d json option \<Rightarrow> bool option" where
  "mcp_json_get_boolean json = (case json of Some (JBool b) \<Rightarrow> Some b | _ \<Rightarrow> None)"

definition mcp_json_get_number :: "'d json option \<Rightarrow> 'd option" where
  "mcp_json_get_number json = (case json of Some (JNumber d) \<Rightarrow> Some d | _ \<Rightarrow> None)"

definition mcp_json_get_string :: "'d json option \<Rightarrow> string option" where
  "mcp_json_get_string json = (case json of Some (JString s) \<Rightarrow> Some s | _ \<Rightarrow> None)"

definition mcp_json_array_get_size :: "'d json option \<Rightarrow> int" where
  "mcp_json_array_get_size json =
     (case json of Some (JArray items _) \<Rightarrow> sint (of_nat (length items) :: 32 word) | _ \<Rightarrow> -1)"

definition mcp_json_array_get_item :: "'d json option \<Rightarrow> int \<Rightarrow> 'd json option" where
  "mcp_json_array_get_item json index =
     (case json of
        Some (JArray items _) \<Rightarrow>
          (if index < 0 \<or> length items \<le> nat index then None else Some (items ! nat index))
      | _ \<Rightarrow> None)"

definition mcp_json_array_add_item ::
    "mem \<Rightarrow> 'd json option \<Rightarrow> 'd json option \<Rightarrow> int \<times> 'd json option \<times> mem" where
  "mcp_json_array_add_item m json item =
     (case (json, item) of
        (Some (JArray items capacity), Some x) \<Rightarrow>
          (if capacity \<le> length items
           then let new_capacity = (if capacity = 0 then 8 else capacity * 2);
                    (ok, m1) = malloc_items m new_capacity
                in if \<not> ok then (-1, json, m1)
                   else (0, Some (JArray (items @ [x]) new_capacity), m1)
           else (0, Some (JArray (items @ [x]) capacity), m))
      | _ \<Rightarrow> (-1, json, m))"

definition mcp_json_object_has_property :: "'d json option \<Rightarrow> string \<Rightarrow> bool" where
  "mcp_json_object_has_property json name =
     (case json of Some (JObject t) \<Rightarrow> mcp_hashtable_contains json_ops t name | _ \<Rightarrow> False)"

definition mcp_json_object_get_property :: "'d json option \<Rightarrow> string \<Rightarrow> 'd json option" where
  "mcp_json_object_get_property json name =
     (case json of
        Some (JObject t) \<Rightarrow>
          (case mcp_hashtable_get json_ops t name of (rc, v) \<Rightarrow> if rc = 0 then v else None)
      | _ \<Rightarrow> None)"

definition mcp_json_object_set_property ::
    "mem \<Rightarrow> 'd json option \<Rightarrow> string \<Rightarrow> 'd json option \<Rightarrow> int \<times> 'd json option \<times> mem" where
  "mcp_json_object_set_property m json name value =
     (case (json, value) of
        (Some (JObject t), Some v) \<Rightarrow>
          (let (rc, t', _, m') = mcp_hashtable_put json_ops m t name v in (rc, Some (JObject t'), m'))
      | _ \<Rightarrow> (-1, json, m))"

definition mcp_json_object_delete_property ::
    "'d json option \<Rightarrow> string \<Rightarrow> int \<times> 'd json option" where
  "mcp_json_object_delete_property json name =
     (case json of
        Some (JObject t) \<Rightarrow>
          (let (rc, t', _) = mcp_hashtable_remove json_ops t name in (rc, Some (JObject t')))
      | _ \<Rightarrow> (-1, json))"

text \<open>The context of \<open>collect_name_callback\<close>: the names so far, the error flag and the allocator.\<close>

type_synonym names_context = "string list \<times> bool \<times> mem"

definition collect_name_callback :: "nat \<Rightarrow> string \<Rightarrow> 'd json \<Rightarrow> names_context \<Rightarrow> names_context" where
  "collect_name_callback capacity key v ctx =
     (case ctx of (names, error_occurred, m) \<Rightarrow>
        if error_occurred then ctx
        else if length names < capacity
             then let (ok, m') = mem_alloc m in (names @ [key], \<not> ok, m')
             else (names, True, m))"

definition mcp_json_object_get_property_names ::
    "mem \<Rightarrow> 'd json option \<Rightarrow> string list option \<times> mem" where
  "mcp_json_object_get_property_names m json =
     (case json of
        Some (JObject t) \<Rightarrow>
          (let count = unat (mcp_hashtable_size (Some t))
           in if count = 0 then (Some [], m)
              else let (ok, m1) = mem_alloc m
                   in if \<not> ok then (None, m1)
                      else case mcp_hashtable_foreach (collect_name_callback count) t ([], False, m1) of
                             (names, error_occurred, m2) \<Rightarrow>
                               (if error_occurred then None else Some names, m2))
      | _ \<Rightarrow> (None, m))"

definition mcp_json_is_object :: "'d json option \<Rightarrow> bool" where
  "mcp_json_is_object json \<longleftrightarrow> json \<noteq> None \<and> mcp_json_get_type json = MCP_JSON_OBJECT"

definition mcp_json_is_string :: "'d json option \<Rightarrow> bool" where
  "mcp_json_is_string json \<longleftrightarrow> json \<noteq> None \<and> mcp_json_get_type json = MCP_JSON_STRING"

definition mcp_json_string_value :: "'d json option \<Rightarrow> string option" where
  "mcp_json_string_value json = (if mcp_json_is_string json then mcp_json_get_string json else None)"

definition mcp_json_is_number :: "'d json option \<Rightarrow> bool" where
  "mcp_json_is_number json \<longleftrightarrow> json \<noteq> None \<and> mcp_json_get_type json = MCP_JSON_NUMBER"

definition mcp_json_number_value :: "'d::zero json option \<Rightarrow> 'd" where
  "mcp_json_number_value json =
     (if mcp_json_is_number json then case mcp_json_get_number json of Some d \<Rightarrow> d | None \<Rightarrow> 0 else 0)"

definition mcp_json_is_boolean :: "'d json option \<Rightarrow> bool" where
  "mcp_json_is_boolean json \<longleftrightarrow> json \<noteq> None \<and> mcp_json_get_type json = MCP_JSON_BOOLEAN"

definition mcp_json_boolean_value :: "'d json option \<Rightarrow> bool" where
  "mcp_json_boolean_value json =
     (if mcp_json_is_boolean json
      then case mcp_json_get_boolean json of Some b \<Rightarrow> b | None \<Rightarrow> False else False)"

definition mcp_json_is_null :: "'d json option \<Rightarrow> bool" where
  "mcp_json_is_null json \<longleftrightarrow> json = None \<or> mcp_json_get_type json = MCP_JSON_NULL"

definition mcp_json_is_array :: "'d json option \<Rightarrow> bool" where
  "mcp_json_is_array json \<longleftrightarrow> json \<noteq> None \<and> mcp_json_get_type json = MCP_JSON_ARRAY"

definition mcp_json_object_size :: "mem \<Rightarrow> 'd json option \<Rightarrow> nat \<times> mem" where
  "mcp_json_object_size m json =
     (if \<not> mcp_json_is_object json then (0, m)
      else case mcp_json_object_get_property_names m json of
             (None, m') \<Rightarrow> (0, m')
           | (Some names, m') \<Rightarrow> (length names, m'))"

definition mcp_json_object_get_at ::
    "mem \<Rightarrow> 'd json option \<Rightarrow> nat \<Rightarrow> (string \<times> 'd json option) option \<times> mem" where
  "mcp_json_object_get_at m json index =
     (if \<not> mcp_json_is_object json then (None, m)
      else case mcp_json_object_get_property_names m json of
             (None, m') \<Rightarrow> (None, m')
           | (Some names, m') \<Rightarrow>
               (if length names \<le> index then (None, m')
                else (Some (names ! index, mcp_json_object_get_property json (names ! index)), m')))"


section \<open>Objects as maps\<close>

lemma get_property_map:
  "mcp_json_object_get_property (Some (JObject t)) name = ht_map json_ops t name"
  by (simp add: mcp_json_object_get_property_def string_key.get_map split: option.splits)

lemma has_property_map:
  "mcp_json_object_has_property (Some (JObject t)) name \<longleftrightarrow> ht_map json_ops t name \<noteq> None"
  by (simp add: mcp_json_object_has_property_def string_key.contains_map)

lemma set_property_map:
  assumes "ht_inv json_ops t"
    and "mcp_json_object_set_property m (Some (JObject t)) name (Some v) = (rc, json', m')"
  shows "\<exists>t'. json' = Some (JObject t') \<and> ht_inv json_ops t' \<and> rc \<in> {0, -1} \<and>
              ht_map json_ops t' = (if rc = 0 then (ht_map json_ops t)(name \<mapsto> v) else ht_map json_ops t)"
proof -
  obtain t' ev where put: "mcp_hashtable_put json_ops m t name v = (rc, t', ev, m')" and json': "json' = Some (JObject t')"
    using assms(2) by (auto simp: mcp_json_object_set_property_def split: prod.splits)
  from string_key.put_spec [OF assms(1) put] show ?thesis
    using json' by (auto simp: put_post_def split: if_splits)
qed

lemma delete_property_map:
  assumes "ht_inv json_ops t"
    and "mcp_json_object_delete_property (Some (JObject t)) name = (rc, json')"
  shows "\<exists>t'. json' = Some (JObject t') \<and> ht_inv json_ops t' \<and>
              (rc = 0 \<longleftrightarrow> ht_map json_ops t name \<noteq> None) \<and>
              ht_map json_ops t' = (ht_map json_ops t)(name := None)"
proof -
  obtain t' ev where rem: "mcp_hashtable_remove json_ops t name = (rc, t', ev)" and json': "json' = Some (JObject t')"
    using assms(2) by (auto simp: mcp_json_object_delete_property_def split: prod.splits)
  from string_key.remove_spec [OF assms(1) rem] show ?thesis
    using json' by (auto split: option.splits)
qed

lemma collect_names_fold:
  "foldl (\<lambda>s e. collect_name_callback cap (fst e) (snd e) s) (names, err, m) es = (names', err', m') \<Longrightarrow>
   \<not> err' \<Longrightarrow> \<not> err \<and> names' = names @ map fst es"
proof (induction es arbitrary: names err m)
  case Nil
  then show ?case by simp
next
  case (Cons e es)
  obtain n1 e1 m1 where s: "collect_name_callback cap (fst e) (snd e) (names, err, m) = (n1, e1, m1)"
    by (metis prod_cases3)
  with Cons have "\<not> e1" "names' = n1 @ map fst es" by auto
  with s show ?case by (auto simp: collect_name_callback_def split: if_splits prod.splits)
qed

lemma collect_names_no_failure:
  "length names + length es \<le> cap \<Longrightarrow>
   foldl (\<lambda>s e. collect_name_callback cap (fst e) (snd e) s) (names, False, []) es
     = (names @ map fst es, False, [])"
  by (induction es arbitrary: names) (auto simp: collect_name_callback_def)

lemma ht_size_length:
  assumes "ht_inv json_ops t" "length (concat (ht_buckets t)) < 2 ^ 64"
  shows "unat (ht_size t) = length (concat (ht_buckets t))"
  using assms by (simp add: ht_inv_def unat_of_nat)

section \<open>Properties\<close>

text \<open>The objects a client can hold: created, then changed by setting and deleting properties.\<close>

inductive json_object_run :: "'d json \<Rightarrow> bool" where
  create: "mcp_json_object_create_with_capacity m n = (Some j, m') \<Longrightarrow> unat n \<le> 2 ^ 60 \<Longrightarrow> json_object_run j"
| set: "json_object_run j \<Longrightarrow> mcp_json_object_set_property m (Some j) name v = (rc, Some j', m') \<Longrightarrow>
        json_object_run j'"
| delete: "json_object_run j \<Longrightarrow> mcp_json_object_delete_property (Some j) name = (rc, Some j') \<Longrightarrow>
           json_object_run j'"

lemma json_object_run_inv:
  "json_object_run j \<Longrightarrow> \<exists>t. j = JObject t \<and> ht_inv json_ops t"
proof (induction rule: json_object_run.induct)
  case (create m n j m')
  let ?n = "if 0 < n then n else MCP_JSON_HASH_TABLE_INITIAL_CAPACITY"
  obtain t m1 where t: "mcp_hashtable_create m1 ?n (3 / 4) = (Some t, m')" "j = JObject t"
    using create(1)
    by (auto simp: mcp_json_object_create_with_capacity_def split: prod.splits if_splits option.splits)
  have "unat ?n \<le> 2 ^ 60" using create(2) by (simp add: MCP_JSON_HASH_TABLE_INITIAL_CAPACITY_def)
  with t create_spec show ?case by blast
next
  case (set j m name v rc j' m')
  then show ?case
  proof (cases v)
    case None
    with set show ?thesis by (auto simp: mcp_json_object_set_property_def)
  next
    case (Some x)
    with set set_property_map show ?thesis by blast
  qed
next
  case (delete j name rc j')
  then show ?case using delete_property_map by blast
qed

text \<open>\<open>mcp_json_object_set_property\<close> on an object, whatever allocations fail: it returns 0
  or -1; after a 0, looking the name up gives the new value and every other lookup is as before;
  after a -1 every lookup is as before; and \<open>mcp_json_object_has_property\<close> tells exactly when a
  lookup finds a value.\<close>

theorem json_set_get_property:
  assumes "json_object_run j"
    and "mcp_json_object_set_property m (Some j) name (Some v) = (rc, j', m')"
  shows "rc \<in> {0, -1} \<and>
         mcp_json_object_get_property j' x
           = (if rc = 0 \<and> x = name then Some v else mcp_json_object_get_property (Some j) x) \<and>
         (mcp_json_object_has_property j' x \<longleftrightarrow> mcp_json_object_get_property j' x \<noteq> None)"
proof -
  obtain t where "j = JObject t" "ht_inv json_ops t" using json_object_run_inv [OF assms(1)] by blast
  with assms(2) set_property_map [of t] show ?thesis
    by (fastforce simp: get_property_map has_property_map)
qed

definition json_example :: "nat json" where
  "json_example = JObject (Hashtable [[], [(''b'', JNumber 2)], [], []] 4 1 (3 / 4))"

lemma json_example_run: "json_object_run json_example"
proof -
  have r: "replicate 4 [] = [[], [], [], []]" by (simp add: numeral_eq_Suc)
  have "mcp_json_object_create_with_capacity [] 4
        = (Some (JObject (Hashtable [[], [], [], []] 4 0 (3 / 4))), [])"
    by (simp add: mcp_json_object_create_with_capacity_def mcp_json_alloc_node_def ht_eval r)
  then have c: "json_object_run (JObject (Hashtable [[], [], [], []] 4 0 (3 / 4)))"
    by (rule json_object_run.create) simp
  have "mcp_json_object_set_property [] (Some (JObject (Hashtable [[], [], [], []] 4 0 (3 / 4)))) ''b''
          (Some (JNumber 2)) = (0, Some json_example, [])"
    by (simp add: mcp_json_object_set_property_def ht_eval json_example_def)
  from json_object_run.set [OF c this] show ?thesis .
qed

theorem json_set_get_property_witness:
  "\<exists>rc j' m'. mcp_json_object_set_property [] (Some json_example) ''a'' (Some JNull) = (rc, j', m') \<and>
     rc = 0 \<and> mcp_json_object_get_property j' ''a'' = Some JNull \<and>
     mcp_json_object_get_property j' ''b'' = mcp_json_object_get_property (Some json_example) ''b''"
proof -
  obtain rc j' m' where p: "mcp_json_object_set_property [] (Some json_example) ''a'' (Some JNull) = (rc, j', m')"
    by (metis prod_cases3)
  have "rc = 0" using p by (simp add: mcp_json_object_set_property_def ht_eval json_example_def)
  with json_set_get_property [OF json_example_run p, of "''a''"]
    json_set_get_property [OF json_example_run p, of "''b''"] p
  show ?thesis by simp
qed

text \<open>\<open>mcp_json_object_get_property_names\<close>: when it succeeds, the array holds every name
  of the object exactly once; when no allocation fails, it does succeed.\<close>

theorem json_property_names:
  assumes "json_object_run j" and "mcp_json_object_get_property_names m (Some j) = (result, m')"
    and "card {x. mcp_json_object_has_property (Some j) x} < 2 ^ 64"
  shows "(result = Some names \<longrightarrow>
            distinct names \<and> set names = {x. mcp_json_object_has_property (Some j) x}) \<and>
         (m = [] \<longrightarrow> result \<noteq> None)"
proof -
  obtain t where t: "j = JObject t" "ht_inv json_ops t" using json_object_run_inv [OF assms(1)] by blast
  let ?es = "concat (ht_buckets t)"
  have dist: "distinct (map fst ?es)" using t(2) distinct_keys_concat by (auto simp: ht_inv_def)
  have dom: "{x. mcp_json_object_has_property (Some j) x} = fst ` set ?es"
    unfolding dom_ht_map [OF t(2), symmetric] by (simp add: t(1) has_property_map dom_def)
  have "card (fst ` set ?es) = length ?es" using dist distinct_card by (metis length_map list.set_map)
  then have size: "unat (ht_size t) = length ?es"
    using ht_size_length [OF t(2)] assms(3) by (simp only: dom)
  have names: "result = Some ns \<Longrightarrow> ns = map fst ?es" for ns
    using assms(2) size
    by (auto simp: mcp_json_object_get_property_names_def mcp_hashtable_size_def t(1) foreach_foldl Let_def
        dest: collect_names_fold split: if_splits prod.splits)
  have "m = [] \<Longrightarrow> result \<noteq> None"
    using assms(2) size collect_names_no_failure [of "[]" ?es "length ?es"]
    by (auto simp: mcp_json_object_get_property_names_def mcp_hashtable_size_def t(1) foreach_foldl Let_def
        split: if_splits prod.splits)
  moreover have "result = Some names \<Longrightarrow> distinct names \<and> set names = fst ` set ?es"
    using names [of names] dist by simp
  ultimately show ?thesis unfolding dom by blast
qed

theorem json_property_names_witness:
  "\<exists>names m'. mcp_json_object_get_property_names [] (Some json_example) = (Some names, m') \<and>
     distinct names \<and> set names = {x. mcp_json_object_has_property (Some json_example) x}"
proof -
  obtain r m' where p: "mcp_json_object_get_property_names [] (Some json_example) = (r, m')"
    by (metis prod.exhaust)
  obtain t where t: "json_example = JObject t" "ht_inv json_ops t"
    using json_object_run_inv [OF json_example_run] by blast
  have "{x. mcp_json_object_has_property (Some json_example) x} = fst ` set (concat (ht_buckets t))"
    unfolding dom_ht_map [OF t(2), symmetric] by (simp add: t(1) has_property_map dom_def)
  also have "\<dots> = {''b''}" using t(1) by (auto simp: json_example_def)
  finally have "card {x. mcp_json_object_has_property (Some json_example) x} < 2 ^ 64" by simp
  note names = json_property_names [OF json_example_run p this]
  then have "r \<noteq> None" by blast
  then obtain ns where "r = Some ns" by blast
  with names [of ns] p show ?thesis by blast
qed

end
