(* ===== verification/Mcp_Json_Escape.thy ===== *)
theory Mcp_Json_Escape
  imports Mcp_Prelude
begin

text \<open>
  String escaping, \<open>mcp_json_escape_string\<close> of \<open>src/json/mcp_json_utils.c\<close>, with the output
  buffer.  An output buffer is the list of the \<open>output_size\<close> bytes the caller provides, or \<open>None\<close>
  for NULL; a write outside the list does not happen in the model because every write is
  guarded, as in the code, by \<open>output_size\<close>: the functions never change the length of the list.
  The result is converted from \<open>size_t\<close> to \<open>int\<close>, which is the signed reading of the low 32 bits.
\<close>

section \<open>The escape of one byte\<close>

definition hex_lower :: "nat \<Rightarrow> char" where
  "hex_lower d = char_of (if d < 10 then 48 + d else 87 + d)"

definition escape_char :: "char \<Rightarrow> string" where
  "escape_char c =
     (if c = CHR 0x5C then [CHR 0x5C, CHR 0x5C]
      else if c = CHR 0x22 then [CHR 0x5C, CHR 0x22]
      else if c = CHR 0x08 then [CHR 0x5C, CHR ''b'']
      else if c = CHR 0x0C then [CHR 0x5C, CHR ''f'']
      else if c = CHR 0x0A then [CHR 0x5C, CHR ''n'']
      else if c = CHR 0x0D then [CHR 0x5C, CHR ''r'']
      else if c = CHR 0x09 then [CHR 0x5C, CHR ''t'']
      else if (of_char c :: nat) < 32
           then [CHR 0x5C, CHR ''u'', CHR ''0'', CHR ''0'',
                 hex_lower (of_char c div 16), hex_lower (of_char c mod 16)]
      else [c])"

text \<open>The specification: the escaped text.\<close>

definition escape_string :: "string \<Rightarrow> string" where
  "escape_string s = concat (map escape_char s)"

section \<open>Writing into the buffer\<close>

definition memcpy_at :: "'a list \<Rightarrow> nat \<Rightarrow> 'a list \<Rightarrow> 'a list" where
  "memcpy_at buf i bs = take i buf @ bs @ drop (i + length bs) buf"

definition write_safe :: "char list option \<Rightarrow> nat \<Rightarrow> string \<Rightarrow> char list option \<times> nat" where
  "write_safe out out_idx str =
     ((case out of
         None \<Rightarrow> None
       | Some buf \<Rightarrow>
           Some (if length buf = 0 then buf
                 else if out_idx + length str < length buf then memcpy_at buf out_idx str
                 else if out_idx < length buf then
                   (let remaining_space = length buf - out_idx - 1
                    in (memcpy_at buf out_idx (take remaining_space str))[length buf - 1 := NUL])
                 else buf)),
      out_idx + length str)"

fun escape_loop :: "char list option \<Rightarrow> nat \<Rightarrow> string \<Rightarrow> char list option \<times> nat" where
  "escape_loop out out_idx [] = (out, out_idx)"
| "escape_loop out out_idx (c # input) =
     (let (out', out_idx') = write_safe out out_idx (escape_char c)
      in escape_loop out' out_idx' input)"

definition size_to_int :: "nat \<Rightarrow> int" where
  "size_to_int n = sint (of_nat n :: 32 word)"

definition mcp_json_escape_string :: "string option \<Rightarrow> char list option \<Rightarrow> int \<times> char list option" where
  "mcp_json_escape_string input out =
     (case input of
        None \<Rightarrow> (-1, out)
      | Some s \<Rightarrow>
          (let (out', out_idx) = escape_loop out 0 s;
               out'' = (case out' of
                          None \<Rightarrow> None
                        | Some buf \<Rightarrow>
                            Some (if length buf = 0 then buf
                                  else if out_idx < length buf then buf[out_idx := NUL]
                                  else buf[length buf - 1 := NUL]))
           in (size_to_int (out_idx + 1), out'')))"

section \<open>Correctness\<close>

lemma length_memcpy_at [simp]:
  "i + length bs \<le> length buf \<Longrightarrow> length (memcpy_at buf i bs) = length buf"
  by (simp add: memcpy_at_def)

text \<open>
  The content of the buffer after the bytes \<open>w\<close> have been offered to it, as long as the buffer
  is not full, and once it is.
\<close>

definition holds_prefix :: "char list \<Rightarrow> char list \<Rightarrow> string \<Rightarrow> bool" where
  "holds_prefix buf0 buf w \<longleftrightarrow>
     (if length w < length buf0 then buf = w @ drop (length w) buf0
      else buf = take (length buf0 - 1) w @ [NUL])"

lemma write_safe_step:
  assumes "holds_prefix buf0 buf w" "buf0 \<noteq> []"
  shows "\<exists>buf'. write_safe (Some buf) (length w) str = (Some buf', length (w @ str)) \<and>
                holds_prefix buf0 buf' (w @ str)"
proof -
  have pos: "0 < length buf0" using assms(2) by simp
  show ?thesis
  proof (cases "length w < length buf0")
    case False
    then show ?thesis using assms pos by (auto simp: holds_prefix_def write_safe_def)
  next
    case w: True
    then have buf: "buf = w @ drop (length w) buf0" "length buf = length buf0"
      using assms(1) by (auto simp: holds_prefix_def)
    show ?thesis
    proof (cases "length w + length str < length buf0")
      case True
      then show ?thesis using buf pos
        by (auto simp: holds_prefix_def write_safe_def memcpy_at_def add.commute)
    next
      case False
      let ?r = "length buf0 - length w - 1"
      have len: "length (w @ take ?r str) = length buf0 - 1" using w False by auto
      have "drop (length w + length (take ?r str)) buf = [last buf0]"
      proof -
        have "length w + length (take ?r str) = length buf0 - 1" using len by simp
        then have "drop (length w + length (take ?r str)) buf = drop (length buf0 - 1) buf0"
          using buf(1) w by simp
        also have "\<dots> = [last buf0]"
          using pos by (metis append_butlast_last_id append_eq_conv_conj assms(2) length_butlast)
        finally show ?thesis .
      qed
      then have mem: "memcpy_at buf (length w) (take ?r str) = (w @ take ?r str) @ [last buf0]"
        using buf(1) by (simp add: memcpy_at_def)
      have "(memcpy_at buf (length w) (take ?r str))[length buf0 - 1 := NUL] = (w @ take ?r str) @ [NUL]"
        unfolding mem len [symmetric] by (rule list_update_length)
      moreover have "w @ take ?r str = take (length buf0 - 1) (w @ str)"
        using w by (simp add: min_def)
      ultimately show ?thesis using buf(2) w False pos
        by (auto simp: holds_prefix_def write_safe_def Let_def)
    qed
  qed
qed

lemma escape_loop_buf:
  assumes "holds_prefix buf0 buf w" "buf0 \<noteq> []"
  shows "\<exists>buf'. escape_loop (Some buf) (length w) s = (Some buf', length (w @ escape_string s)) \<and>
                holds_prefix buf0 buf' (w @ escape_string s)"
  using assms(1)
proof (induction s arbitrary: buf w)
  case Nil
  then show ?case by (simp add: escape_string_def)
next
  case (Cons c s)
  obtain buf1 where b1: "write_safe (Some buf) (length w) (escape_char c)
      = (Some buf1, length (w @ escape_char c))" "holds_prefix buf0 buf1 (w @ escape_char c)"
    using write_safe_step [OF Cons.prems assms(2)] by blast
  from Cons.IH [OF b1(2)] b1(1) show ?case
    by (auto simp: escape_string_def Let_def split: prod.splits)
qed

lemma escape_loop_None: "escape_loop None n s = (None, n + length (escape_string s))"
  by (induction s arbitrary: n) (auto simp: escape_string_def write_safe_def)

lemma size_to_int_small: "n < 2 ^ 31 \<Longrightarrow> size_to_int n = int n"
  by (simp add: size_to_int_def signed_of_nat signed_take_bit_int_eq_self)

lemma holds_prefix_Nil: "buf \<noteq> [] \<Longrightarrow> holds_prefix buf buf []"
  by (simp add: holds_prefix_def)

lemma mcp_json_escape_string_NULL:
  "mcp_json_escape_string (Some s) None = (size_to_int (length (escape_string s) + 1), None)"
  by (simp add: mcp_json_escape_string_def escape_loop_None)

lemma mcp_json_escape_string_fits:
  assumes "length (escape_string s) < length buf"
  shows "mcp_json_escape_string (Some s) (Some buf)
         = (size_to_int (length (escape_string s) + 1),
            Some (escape_string s @ NUL # drop (Suc (length (escape_string s))) buf))"
proof -
  let ?e = "escape_string s"
  have ne: "buf \<noteq> []" using assms by auto
  obtain buf' where b: "escape_loop (Some buf) 0 s = (Some buf', length ?e)" "holds_prefix buf buf' ?e"
    using escape_loop_buf [OF holds_prefix_Nil [OF ne] ne, of s] by auto
  then have "buf' = ?e @ drop (length ?e) buf" using assms by (simp add: holds_prefix_def)
  moreover have "drop (length ?e) buf = buf ! length ?e # drop (Suc (length ?e)) buf"
    using assms by (rule Cons_nth_drop_Suc [symmetric])
  ultimately have "buf'[length ?e := NUL] = ?e @ NUL # drop (Suc (length ?e)) buf" "length buf' = length buf"
    using assms by (simp_all add: list_update_append)
  with b ne assms show ?thesis by (simp add: mcp_json_escape_string_def)
qed

section \<open>Properties\<close>

text \<open>\<open>mcp_json_escape_string\<close> returns the size the escaped text needs with its terminator,
  whatever buffer it is given (as long as that size is an \<open>int\<close>); it fills a non-empty buffer with
  the escaped text, cut to \<open>output_size - 1\<close> bytes if it does not fit, followed by a NUL, and never
  touches a byte beyond \<open>output_size\<close>.\<close>

theorem json_escape_string_buffer:
  assumes "length (escape_string s) < 2 ^ 31 - 1" and "buf \<noteq> []"
  shows "\<exists>rest. mcp_json_escape_string (Some s) (Some buf)
           = (int (length (escape_string s)) + 1,
              Some (take (length buf - 1) (escape_string s) @ NUL # rest)) \<and>
         length (take (length buf - 1) (escape_string s) @ NUL # rest) = length buf"
proof (cases "length (escape_string s) < length buf")
  case True
  then show ?thesis
    using assms by (auto simp: mcp_json_escape_string_fits size_to_int_small)
next
  case False
  let ?e = "escape_string s"
  obtain buf' where b: "escape_loop (Some buf) 0 s = (Some buf', length ?e)" "holds_prefix buf buf' ?e"
    using escape_loop_buf [OF holds_prefix_Nil [OF assms(2)] assms(2), of s] by auto
  then have "buf' = take (length buf - 1) ?e @ [NUL]" using False by (simp add: holds_prefix_def)
  moreover have "length (take (length buf - 1) ?e) = length buf - 1" using False by simp
  ultimately have "buf'[length buf' - 1 := NUL] = take (length buf - 1) ?e @ [NUL]" "length buf' = length buf"
    using assms(2) by (simp_all add: list_update_append)
  with b False assms show ?thesis by (auto simp: mcp_json_escape_string_def size_to_int_small)
qed

theorem json_escape_string_buffer_witness:
  "\<exists>rest. mcp_json_escape_string (Some ''a\<newline>'') (Some (replicate 3 CHR ''x''))
     = (4, Some (take 2 (escape_string ''a\<newline>'') @ NUL # rest))"
proof -
  have "length (escape_string ''a\<newline>'') = 3" by (simp add: escape_string_def escape_char_def)
  with json_escape_string_buffer [of "''a\<newline>''" "replicate 3 CHR ''x''"] show ?thesis by auto
qed

end
