(* ===== verification/Mcp_Json_Parser.thy ===== *)
theory Mcp_Json_Parser
  imports Mcp_Json Mcp_Json_Escape "HOL-Library.Sublist"
begin

text \<open>
  The recursive descent parser, \<open>src/json/mcp_json_parser.c\<close>.

  The cursor \<open>const char** json\<close> is the list of the bytes from the cursor to the terminating NUL;
  \<open>peek\<close> is \<open>**json\<close>, which is NUL at the end of the list.  A parsing function returns
  \<open>Ok (result, cursor, allocator)\<close>, or \<open>Null\<close> when the C function returns NULL.  Every caller of a
  failed parsing function returns NULL itself, so the cursor left behind by a failure is not
  observable.  The third outcome, \<open>OutOfBounds\<close>, is a write outside the buffer of
  \<open>parse_string\<close>; that it never happens is a theorem below.

  The C library function \<open>strtod\<close> is a parameter: it maps the bytes at the cursor to the number
  and the bytes from the end pointer on.
\<close>

section \<open>Outcomes and the cursor\<close>

datatype 'a outcome = Ok 'a | Null | OutOfBounds

definition peek :: "string \<Rightarrow> char" where
  "peek s = (case s of [] \<Rightarrow> NUL | c # _ \<Rightarrow> c)"

lemma peek_Cons [simp]: "peek (c # s) = c"
  by (simp add: peek_def)

lemma peek_Nil [simp]: "peek [] = NUL"
  by (simp add: peek_def)

lemma peek_cases: "peek s = c \<Longrightarrow> c \<noteq> NUL \<Longrightarrow> s = c # tl s"
  by (cases s) auto

lemma length_peek: "peek s \<noteq> NUL \<Longrightarrow> length (tl s) < length s"
  by (cases s) auto

lemma suffix_tl [simp]: "suffix (tl s) s"
  by (cases s) (auto simp: suffix_ConsI)

definition is_space :: "char \<Rightarrow> bool" where
  "is_space c \<longleftrightarrow> c = CHR '' '' \<or> c = CHR 0x09 \<or> c = CHR 0x0A \<or> c = CHR 0x0D"

definition skip_whitespace :: "string \<Rightarrow> string" where
  "skip_whitespace s = dropWhile is_space s"

section \<open>Strings\<close>

definition is_utf8_continuation :: "char \<Rightarrow> bool" where
  "is_utf8_continuation c \<longleftrightarrow> (of_char c :: nat) AND 0xC0 = 0x80"

definition hex_digit :: "char \<Rightarrow> nat option" where
  "hex_digit c =
     (let n = of_char c
      in if 48 \<le> n \<and> n \<le> 57 then Some (n - 48)
         else if 97 \<le> n \<and> n \<le> 102 then Some (n - 97 + 10)
         else if 65 \<le> n \<and> n \<le> 70 then Some (n - 65 + 10)
         else None)"

text \<open>The code point of the hex digits; \<open>None\<close> if one is not a hex digit.\<close>

fun hex_code_point :: "nat \<Rightarrow> string \<Rightarrow> nat option" where
  "hex_code_point cp [] = Some cp"
| "hex_code_point cp (h # hs) =
     (case hex_digit h of None \<Rightarrow> None | Some d \<Rightarrow> hex_code_point (push_bit 4 cp OR d) hs)"

definition utf8_bytes :: "nat \<Rightarrow> char list" where
  "utf8_bytes cp =
     (if cp < 0x80 then [char_of cp]
      else if cp < 0x800 then [char_of (0xC0 OR drop_bit 6 cp), char_of (0x80 OR (cp AND 0x3F))]
      else [char_of (0xE0 OR drop_bit 12 cp), char_of (0x80 OR (drop_bit 6 cp AND 0x3F)),
            char_of (0x80 OR (cp AND 0x3F))])"

text \<open>\<open>hex_to_utf8\<close> returns the bytes stored in \<open>utf8\<close>, whose number is the result of the C function.\<close>

definition hex_to_utf8 :: "string \<Rightarrow> char list" where
  "hex_to_utf8 hex = (case hex_code_point 0 (take 4 hex) of None \<Rightarrow> [] | Some cp \<Rightarrow> utf8_bytes cp)"

definition simple_escape :: "char \<Rightarrow> char option" where
  "simple_escape c =
     (if c = CHR 0x22 then Some (CHR 0x22)
      else if c = CHR 0x5C then Some (CHR 0x5C)
      else if c = CHR ''/'' then Some (CHR ''/'')
      else if c = CHR ''b'' then Some (CHR 0x08)
      else if c = CHR ''f'' then Some (CHR 0x0C)
      else if c = CHR ''n'' then Some (CHR 0x0A)
      else if c = CHR ''r'' then Some (CHR 0x0D)
      else if c = CHR ''t'' then Some (CHR 0x09)
      else None)"

definition control_rejected :: "char \<Rightarrow> bool" where
  "control_rejected c \<longleftrightarrow>
     (of_char c :: nat) < 32 \<and> c \<notin> {CHR 0x09, CHR 0x0A, CHR 0x0D, CHR 0x08, CHR 0x0C} \<and>
     ((of_char c :: nat) < 128 \<or> \<not> is_utf8_continuation c)"

text \<open>
  The buffer of \<open>parse_string\<close>: the bytes written so far and the capacity.  \<open>realloc\<close> refuses
  \<open>PTRDIFF_MAX\<close> bytes and more, so that doubling the capacity never wraps.
\<close>

definition realloc_bytes :: "mem \<Rightarrow> nat \<Rightarrow> bool \<times> mem" where
  "realloc_bytes m n = (if 2 ^ 63 \<le> n then (False, m) else mem_alloc m)"

definition ensure_space :: "mem \<Rightarrow> nat \<Rightarrow> nat \<Rightarrow> (nat \<times> mem) option" where
  "ensure_space m len capacity =
     (if capacity \<le> len + 4
      then (case realloc_bytes m (capacity * 2) of
              (False, _) \<Rightarrow> None
            | (True, m') \<Rightarrow> Some (capacity * 2, m'))
      else Some (capacity, m))"

definition store :: "nat \<Rightarrow> char list \<Rightarrow> char list \<Rightarrow> char list option" where
  "store capacity result bytes =
     (if length result + length bytes \<le> capacity then Some (result @ bytes) else None)"

text \<open>The terminating NUL, after the loop: the result as a C string sees the bytes before it.\<close>

definition finish_string ::
    "mem \<Rightarrow> nat \<Rightarrow> char list \<Rightarrow> string \<Rightarrow> (char list \<times> string \<times> mem) outcome" where
  "finish_string m capacity result rest =
     (case (if capacity < length result + 1
            then (case realloc_bytes m (length result + 1) of
                    (False, _) \<Rightarrow> None
                  | (True, m') \<Rightarrow> Some (length result + 1, m'))
            else Some (capacity, m)) of
        None \<Rightarrow> Null
      | Some (capacity', m') \<Rightarrow>
          (case store capacity' result [NUL] of
             None \<Rightarrow> OutOfBounds
           | Some _ \<Rightarrow> Ok (result, rest, m')))"

text \<open>
  The body of the loop: the bytes that the character or the escape sequence at \<open>p\<close> contributes,
  with the new \<open>p\<close>, or \<open>None\<close> when it is rejected.
\<close>

definition parse_char :: "string \<Rightarrow> (char list \<times> string) option" where
  "parse_char p =
     (if control_rejected (peek p) then None
      else if peek p = CHR 0x5C then
        (case simple_escape (peek (tl p)) of
           Some b \<Rightarrow> Some ([b], tl (tl p))
         | None \<Rightarrow>
             if peek (tl p) = CHR ''u'' then
               (let hex = tl (tl p)
                in if length hex < 4 \<or> (\<exists>h \<in> set (take 4 hex). hex_digit h = None) then None
                   else if hex_to_utf8 hex = [] then None
                   else Some (hex_to_utf8 hex, drop 4 hex))
             else None)
      else Some ([peek p], tl p))"

lemma parse_char_suffix:
  assumes "parse_char p = Some (bs, q)"
  shows "suffix q (tl p)"
proof -
  have "suffix (drop 4 (tl (tl p))) (tl p)" "suffix (tl (tl p)) (tl p)"
    by (meson suffix_drop suffix_order.trans suffix_tl)+
  with assms show ?thesis
    by (auto simp: parse_char_def Let_def split: if_splits option.splits)
qed

function parse_string_loop ::
    "mem \<Rightarrow> nat \<Rightarrow> char list \<Rightarrow> string \<Rightarrow> (char list \<times> string \<times> mem) outcome" where
  "parse_string_loop m capacity result p =
     (if peek p = CHR 0x22 then finish_string m capacity result (tl p)
      else if peek p = NUL then Null
      else case ensure_space m (length result) capacity of
             None \<Rightarrow> Null
           | Some (cap, m1) \<Rightarrow>
               (case parse_char p of
                  None \<Rightarrow> Null
                | Some (bytes, p') \<Rightarrow>
                    (case store cap result bytes of
                       None \<Rightarrow> OutOfBounds
                     | Some result' \<Rightarrow> parse_string_loop m1 cap result' p')))"
  by pat_completeness auto
termination
proof (relation "measure (\<lambda>(m, capacity, result, p). length p)", goal_cases)
  case (2 m capacity result p a cap m1 b bytes p' result')
  then have "suffix p' (tl p)" "peek p \<noteq> NUL" using parse_char_suffix [of p] by auto
  then have "length p' \<le> length (tl p)" "length (tl p) < length p"
    by (blast intro: suffix_length_le length_peek)+
  then show ?case by simp
qed simp

declare parse_string_loop.simps [simp del]

definition parse_string :: "mem \<Rightarrow> string \<Rightarrow> (char list \<times> string \<times> mem) outcome" where
  "parse_string m json =
     (if peek json \<noteq> CHR 0x22 then Null
      else let (ok, m1) = mem_alloc m
           in if \<not> ok then Null else parse_string_loop m1 32 [] (tl json))"

section \<open>Numbers\<close>

definition is_digit :: "char \<Rightarrow> bool" where
  "is_digit c \<longleftrightarrow> 48 \<le> (of_char c :: nat) \<and> (of_char c :: nat) \<le> 57"

definition skip_digits :: "string \<Rightarrow> string option" where
  "skip_digits s = (if is_digit (peek s) then Some (dropWhile is_digit s) else None)"

text \<open>The syntax check of \<open>parse_number\<close>: the cursor after the number.\<close>

definition scan_fraction :: "string \<Rightarrow> string option" where
  "scan_fraction s = (if peek s = CHR ''.'' then skip_digits (tl s) else Some s)"

definition scan_exponent :: "string \<Rightarrow> string option" where
  "scan_exponent s =
     (if peek s = CHR ''e'' \<or> peek s = CHR ''E''
      then (let s' = tl s
            in skip_digits (if peek s' = CHR ''+'' \<or> peek s' = CHR ''-'' then tl s' else s'))
      else Some s)"

definition scan_number :: "string \<Rightarrow> string option" where
  "scan_number s =
     (case skip_digits (if peek s = CHR ''-'' then tl s else s) of
        None \<Rightarrow> None
      | Some s1 \<Rightarrow> (case scan_fraction s1 of None \<Rightarrow> None | Some s2 \<Rightarrow> scan_exponent s2))"

type_synonym 'd strtod = "string \<Rightarrow> 'd \<times> string"

definition parse_number :: "'d strtod \<Rightarrow> mem \<Rightarrow> string \<Rightarrow> ('d json \<times> string \<times> mem) outcome" where
  "parse_number strtod m json =
     (case scan_number json of
        None \<Rightarrow> Null
      | Some json' \<Rightarrow>
          (let (v, end_ptr) = strtod json
           in if end_ptr \<noteq> json' then Null
              else case mcp_json_number_create m v of
                     (None, m') \<Rightarrow> Null
                   | (Some j, m') \<Rightarrow> Ok (j, json', m')))"

section \<open>Values\<close>

definition MCP_JSON_MAX_PARSE_DEPTH :: nat where
  "MCP_JSON_MAX_PARSE_DEPTH = 100"

definition created :: "'d json option \<times> mem \<Rightarrow> string \<Rightarrow> ('d json \<times> string \<times> mem) outcome" where
  "created r rest = (case r of (None, m) \<Rightarrow> Null | (Some j, m) \<Rightarrow> Ok (j, rest, m))"

definition parse_string_value :: "mem \<Rightarrow> string \<Rightarrow> ('d json \<times> string \<times> mem) outcome" where
  "parse_string_value m json =
     (case parse_string m json of
        Ok (s, rest, m1) \<Rightarrow> created (mcp_json_string_create m1 (Some (c_string s))) rest
      | Null \<Rightarrow> Null
      | OutOfBounds \<Rightarrow> OutOfBounds)"

definition parse_literal ::
    "mem \<Rightarrow> string \<Rightarrow> string \<Rightarrow> (mem \<Rightarrow> 'd json option \<times> mem) \<Rightarrow> ('d json \<times> string \<times> mem) outcome" where
  "parse_literal m json word create =
     (if take (length word) json = word then created (create m) (drop (length word) json) else Null)"

text \<open>
  \<open>parse_value\<close>, \<open>parse_object\<close> and \<open>parse_array\<close> are mutually recursive; \<open>parse_members\<close> and
  \<open>parse_elements\<close> are the \<open>while (1)\<close> loops of the last two.
\<close>

function parse_value :: "'d strtod \<Rightarrow> mem \<Rightarrow> string \<Rightarrow> nat \<Rightarrow> ('d json \<times> string \<times> mem) outcome"
  and parse_object :: "'d strtod \<Rightarrow> mem \<Rightarrow> string \<Rightarrow> nat \<Rightarrow> ('d json \<times> string \<times> mem) outcome"
  and parse_members ::
    "'d strtod \<Rightarrow> mem \<Rightarrow> (string, 'd json) mcp_hashtable \<Rightarrow> string \<Rightarrow> nat \<Rightarrow> ('d json \<times> string \<times> mem) outcome"
  and parse_array :: "'d strtod \<Rightarrow> mem \<Rightarrow> string \<Rightarrow> nat \<Rightarrow> ('d json \<times> string \<times> mem) outcome"
  and parse_elements ::
    "'d strtod \<Rightarrow> mem \<Rightarrow> 'd json \<Rightarrow> string \<Rightarrow> nat \<Rightarrow> ('d json \<times> string \<times> mem) outcome"
where
  "parse_value strtod m json0 depth =
     (let json = skip_whitespace json0
      in if peek json = CHR ''{'' then parse_object strtod m json depth
         else if peek json = CHR ''['' then parse_array strtod m json depth
         else if peek json = CHR 0x22 then parse_string_value m json
         else if peek json = CHR ''n'' then parse_literal m json ''null'' mcp_json_null_create
         else if peek json = CHR ''t''
              then parse_literal m json ''true'' (\<lambda>m. mcp_json_boolean_create m True)
         else if peek json = CHR ''f''
              then parse_literal m json ''false'' (\<lambda>m. mcp_json_boolean_create m False)
         else if peek json = CHR ''-'' \<or> is_digit (peek json) then parse_number strtod m json
         else Null)"
| "parse_object strtod m json depth =
     (if MCP_JSON_MAX_PARSE_DEPTH < depth then Null
      else if peek json \<noteq> CHR ''{'' then Null
      else case mcp_json_object_create m of
             (Some (JObject t), m1) \<Rightarrow>
               (let json1 = skip_whitespace (tl json)
                in if peek json1 = CHR ''}'' then Ok (JObject t, tl json1, m1)
                   else parse_members strtod m1 t json1 depth)
           | _ \<Rightarrow> Null)"
| "parse_members strtod m t json depth =
     (case parse_string m (skip_whitespace json) of
        OutOfBounds \<Rightarrow> OutOfBounds
      | Null \<Rightarrow> Null
      | Ok (name, json1, m1) \<Rightarrow>
          (let json2 = skip_whitespace json1
           in if peek json2 \<noteq> CHR '':'' then Null
              else case parse_value strtod m1 (skip_whitespace (tl json2)) (Suc depth) of
                     OutOfBounds \<Rightarrow> OutOfBounds
                   | Null \<Rightarrow> Null
                   | Ok (v, json3, m2) \<Rightarrow>
                       (case mcp_hashtable_put json_ops m2 t (c_string name) v of
                          (rc, t', _, m3) \<Rightarrow>
                            (if rc \<noteq> 0 then Null
                             else let json4 = skip_whitespace json3
                                  in if peek json4 = CHR ''}'' then Ok (JObject t', tl json4, m3)
                                     else if peek json4 \<noteq> CHR '','' then Null
                                     else parse_members strtod m3 t' (tl json4) depth))))"
| "parse_array strtod m json depth =
     (if MCP_JSON_MAX_PARSE_DEPTH < depth then Null
      else if peek json \<noteq> CHR ''['' then Null
      else case mcp_json_array_create m of
             (None, _) \<Rightarrow> Null
           | (Some a, m1) \<Rightarrow>
               (let json1 = skip_whitespace (tl json)
                in if peek json1 = CHR '']'' then Ok (a, tl json1, m1)
                   else parse_elements strtod m1 a json1 depth))"
| "parse_elements strtod m a json depth =
     (case parse_value strtod m (skip_whitespace json) (Suc depth) of
        OutOfBounds \<Rightarrow> OutOfBounds
      | Null \<Rightarrow> Null
      | Ok (v, json1, m1) \<Rightarrow>
          (case mcp_json_array_add_item m1 (Some a) (Some v) of
             (rc, Some a', m2) \<Rightarrow>
               (if rc \<noteq> 0 then Null
                else let json2 = skip_whitespace json1
                     in if peek json2 = CHR '']'' then Ok (a', tl json2, m2)
                        else if peek json2 \<noteq> CHR '','' then Null
                        else parse_elements strtod m2 a' (tl json2) depth)
           | _ \<Rightarrow> Null))"
  by pat_completeness auto


subsection \<open>Consumption and termination\<close>

text \<open>Every parsing function returns a suffix of its input.\<close>

lemma suffix_skip_whitespace [simp]: "suffix (skip_whitespace s) s"
  by (simp add: skip_whitespace_def suffix_dropWhile)

lemma suffix_tlD: "suffix r (tl s) \<Longrightarrow> suffix r s"
  using suffix_order.trans suffix_tl by blast

lemma suffix_skipD: "suffix r (skip_whitespace s) \<Longrightarrow> suffix r s"
  using suffix_order.trans suffix_skip_whitespace by blast

lemma finish_string_rest: "finish_string m cap r s = Ok (r', rest, m') \<Longrightarrow> r' = r \<and> rest = s"
  by (auto simp: finish_string_def split: if_splits prod.splits bool.splits option.splits)

lemma parse_string_loop_suffix:
  "parse_string_loop m cap r p = Ok (r', rest, m') \<Longrightarrow> suffix rest p"
proof (induction m cap r p rule: parse_string_loop.induct)
  case (1 m capacity result p)
  then show ?case
    unfolding parse_string_loop.simps [of m capacity result p]
    by (auto dest!: finish_string_rest parse_char_suffix suffix_tlD split: if_splits option.splits)
      (meson suffix_order.trans)
qed

lemma parse_string_suffix:
  assumes "parse_string m s = Ok (r, rest, m')"
  shows "suffix rest (tl s) \<and> length rest < length s"
proof -
  have "peek s \<noteq> NUL" and p: "\<exists>m1. parse_string_loop m1 32 [] (tl s) = Ok (r, rest, m')"
    using assms by (auto simp: parse_string_def split: if_splits prod.splits)
  then have "length (tl s) < length s" by (blast intro: length_peek)
  moreover have "suffix rest (tl s)" using p parse_string_loop_suffix by blast
  ultimately show ?thesis by (metis order.strict_trans1 suffix_length_le)
qed

lemma skip_digits_suffix: "skip_digits s = Some r \<Longrightarrow> suffix r s"
  by (auto simp: skip_digits_def suffix_dropWhile split: if_splits)

lemma scan_fraction_suffix: "scan_fraction s = Some r \<Longrightarrow> suffix r s"
  by (auto simp: scan_fraction_def dest!: skip_digits_suffix suffix_tlD split: if_splits)

lemma scan_exponent_suffix: "scan_exponent s = Some r \<Longrightarrow> suffix r s"
  by (auto simp: scan_exponent_def Let_def dest!: skip_digits_suffix suffix_tlD split: if_splits)

lemma scan_number_suffix: "scan_number s = Some r \<Longrightarrow> suffix r s"
  by (auto simp: scan_number_def dest!: skip_digits_suffix suffix_tlD scan_fraction_suffix
      scan_exponent_suffix split: if_splits option.splits intro: suffix_order.trans)

lemma created_rest: "created r s = Ok (j, rest, m') \<Longrightarrow> rest = s"
  by (auto simp: created_def split: option.splits prod.splits)

lemma parse_number_suffix: "parse_number strtod m s = Ok (j, rest, m') \<Longrightarrow> suffix rest s"
  by (auto simp: parse_number_def dest: scan_number_suffix
      split: option.splits prod.splits if_splits)

lemma parse_string_value_suffix: "parse_string_value m s = Ok (j, rest, m') \<Longrightarrow> suffix rest s"
  by (auto simp: parse_string_value_def dest!: created_rest parse_string_suffix
      split: outcome.splits prod.splits intro: suffix_order.trans [OF _ suffix_tl])

lemma parse_literal_suffix: "parse_literal m s w c = Ok (j, rest, m') \<Longrightarrow> suffix rest s"
  by (auto simp: parse_literal_def suffix_drop dest!: created_rest split: if_splits)

lemmas parse_suffix = parse_number_suffix parse_string_value_suffix parse_literal_suffix

lemma parse_dom_suffix:
  "parse_value_parse_object_parse_members_parse_array_parse_elements_dom (Inl (Inl (strtod, m, s, d))) \<Longrightarrow>
     parse_value strtod m s d = Ok (j, rest, m') \<Longrightarrow> suffix rest s"
  "parse_value_parse_object_parse_members_parse_array_parse_elements_dom (Inl (Inr (strtod, m, s, d))) \<Longrightarrow>
     parse_object strtod m s d = Ok (j, rest, m') \<Longrightarrow> suffix rest s"
  "parse_value_parse_object_parse_members_parse_array_parse_elements_dom (Inr (Inl (strtod, m, t, s, d))) \<Longrightarrow>
     parse_members strtod m t s d = Ok (j, rest, m') \<Longrightarrow> suffix rest s"
  "parse_value_parse_object_parse_members_parse_array_parse_elements_dom (Inr (Inr (Inl (strtod, m, s, d)))) \<Longrightarrow>
     parse_array strtod m s d = Ok (j, rest, m') \<Longrightarrow> suffix rest s"
  "parse_value_parse_object_parse_members_parse_array_parse_elements_dom (Inr (Inr (Inr (strtod, m, a, s, d)))) \<Longrightarrow>
     parse_elements strtod m a s d = Ok (j, rest, m') \<Longrightarrow> suffix rest s"
proof (induction strtod m s d and strtod m s d and strtod m t s d and strtod m s d and strtod m a s d
    arbitrary: j rest m' and j rest m' and j rest m' and j rest m' and j rest m'
    rule: parse_value_parse_object_parse_members_parse_array_parse_elements.pinduct)
  case (1 strtod m s d)
  let ?s = "skip_whitespace s"
  have "suffix rest ?s"
    using 1 unfolding parse_value.psimps [OF 1(1)]
    by (auto simp: Let_def dest: parse_suffix split: if_splits)
  then show ?case by (rule suffix_order.trans) simp
next
  case (2 strtod m s d)
  have "suffix rest (skip_whitespace (tl s))"
    using 2 unfolding parse_object.psimps [OF 2(1)]
    by (auto simp: Let_def split: if_splits option.splits prod.splits json.splits)
  then show ?case by (meson suffix_order.trans suffix_skip_whitespace suffix_tl)
next
  case (3 strtod m t s d)
  obtain name s1 m1 v s2 m2 where
    name: "parse_string m (skip_whitespace s) = Ok (name, s1, m1)" and
    v: "parse_value strtod m1 (skip_whitespace (tl (skip_whitespace s1))) (Suc d) = Ok (v, s2, m2)" and
    colon: "peek (skip_whitespace s1) = CHR '':''"
    using 3(4) unfolding parse_members.psimps [OF 3(1)]
    by (auto simp: Let_def split: if_splits outcome.splits prod.splits)
  have s2: "suffix s2 s1" using "3.IH"(1) [OF name refl refl refl _ v] colon
    by (auto dest!: suffix_skipD suffix_tlD)
  have s1: "suffix s1 s" using parse_string_suffix [OF name] by (auto dest!: suffix_skipD suffix_tlD)
  have "suffix rest s2"
    using 3(4) "3.IH"(2) [OF name refl refl refl _ v refl refl] colon name v
    unfolding parse_members.psimps [OF 3(1)]
    by (auto simp: Let_def split: if_splits prod.splits intro: suffix_tlD suffix_skipD)
      (meson suffix_skipD suffix_tlD)
  with s1 s2 show ?case by (meson suffix_order.trans)
next
  case (4 strtod m s d)
  have "suffix rest (skip_whitespace (tl s))"
    using 4 unfolding parse_array.psimps [OF 4(1)]
    by (auto simp: Let_def split: if_splits option.splits prod.splits)
  then show ?case by (meson suffix_order.trans suffix_skip_whitespace suffix_tl)
next
  case (5 strtod m a s d)
  obtain v s1 m1 where
    v: "parse_value strtod m (skip_whitespace s) (Suc d) = Ok (v, s1, m1)"
    using 5(4) unfolding parse_elements.psimps [OF 5(1)]
    by (auto simp: Let_def split: if_splits outcome.splits prod.splits)
  have s1: "suffix s1 s" using "5.IH"(1) [OF v] by (auto dest!: suffix_skipD)
  have "suffix rest s1"
    using 5(4) "5.IH"(2) [OF v refl refl] v
    unfolding parse_elements.psimps [OF 5(1)]
    by (auto simp: Let_def split: if_splits prod.splits option.splits intro: suffix_tlD suffix_skipD)
      (meson suffix_skipD suffix_tlD)
  with s1 show ?case by (meson suffix_order.trans)
qed

lemma length_skip_whitespace [simp]: "length (skip_whitespace s) \<le> length s"
  by (simp add: suffix_length_le)

lemma length_skip_next:
  assumes "peek (skip_whitespace s) \<noteq> NUL"
  shows "length (tl (skip_whitespace s)) < length s"
  using length_peek [OF assms] length_skip_whitespace [of s] by (rule order.strict_trans2)

lemma parse_total: "All parse_value_parse_object_parse_members_parse_array_parse_elements_dom"
proof (relation "measure (\<lambda>x. case x of
      Inl (Inl (strtod, m, s, d)) \<Rightarrow> 3 * length s + 1
    | Inl (Inr (strtod, m, s, d)) \<Rightarrow> 3 * length s
    | Inr (Inl (strtod, m, t, s, d)) \<Rightarrow> 3 * length s + 2
    | Inr (Inr (Inl (strtod, m, s, d))) \<Rightarrow> 3 * length s
    | Inr (Inr (Inr (strtod, m, a, s, d))) \<Rightarrow> 3 * length s + 2)", goal_cases)
  case (4 strtod m json depth)
  then have "peek json \<noteq> NUL" by auto
  with length_peek [of json] length_skip_whitespace [of "tl json"]
  show ?case using 4 by (auto simp del: length_skip_whitespace length_tl)
next
  case (5 strtod m t json depth x1 x y s1 m1 s2)
  then have "length s1 < length (skip_whitespace json)" "peek (skip_whitespace s1) \<noteq> NUL"
    using parse_string_suffix [of m "skip_whitespace json"] by auto
  with length_skip_next [of s1] length_skip_whitespace [of json]
    length_skip_whitespace [of "tl (skip_whitespace s1)"]
  show ?case using 5 by (auto simp del: length_skip_whitespace length_tl)
next
  case (6 strtod m t json depth x1 x y s1 m1 s2 x1a v ya s3 m2 rc yb t' yc ev m3 s4)
  then have "length s1 < length (skip_whitespace json)" "peek (skip_whitespace s3) \<noteq> NUL"
    using parse_string_suffix [of m "skip_whitespace json"] by auto
  moreover have "length s3 \<le> length s1"
    using 6 parse_dom_suffix(1) [THEN suffix_skipD, THEN suffix_tlD, THEN suffix_skipD]
    by (auto intro!: suffix_length_le)
  ultimately show ?case using 6 length_skip_next [of s3] length_skip_whitespace [of json]
    by (auto simp del: length_skip_whitespace length_tl)
next
  case (7 strtod m json depth)
  then have "peek json \<noteq> NUL" by auto
  with length_peek [of json] length_skip_whitespace [of "tl json"]
  show ?case using 7 by (auto simp del: length_skip_whitespace length_tl)
next
  case (9 strtod m a json depth x1 x y s1 m1 rc y2 a' m2 x2 s2)
  then have "length s1 \<le> length json" "peek (skip_whitespace s1) \<noteq> NUL"
    using parse_dom_suffix(1) [THEN suffix_skipD] by (auto intro!: suffix_length_le)
  with length_skip_next [of s1] show ?case using 9
    by (auto simp del: length_skip_whitespace length_tl)
qed (auto simp: less_Suc_eq_le)

termination parse_value
  by (rule parse_total)

lemma parse_value_suffix: "parse_value strtod m s d = Ok (j, rest, m') \<Longrightarrow> suffix rest s"
  by (rule parse_dom_suffix(1) [OF parse_total [rule_format]])

declare parse_value.simps [simp del] parse_object.simps [simp del] parse_members.simps [simp del]
  parse_array.simps [simp del] parse_elements.simps [simp del]

text \<open>The public entry point, with the input pointer possibly NULL.\<close>

definition mcp_json_parse :: "'d strtod \<Rightarrow> mem \<Rightarrow> string option \<Rightarrow> 'd json outcome" where
  "mcp_json_parse strtod m json =
     (case json of
        None \<Rightarrow> Null
      | Some s \<Rightarrow>
          (case parse_value strtod m (skip_whitespace s) 0 of
             OutOfBounds \<Rightarrow> OutOfBounds
           | Null \<Rightarrow> Null
           | Ok (result, current, m') \<Rightarrow>
               if peek (skip_whitespace current) \<noteq> NUL then Null else Ok result))"

section \<open>Strings are stored inside their buffer\<close>

lemma length_utf8_bytes: "length (utf8_bytes cp) \<le> 3"
  by (simp add: utf8_bytes_def)

lemma parse_char_length: "parse_char p = Some (bs, q) \<Longrightarrow> length bs \<le> 3"
  by (auto simp: parse_char_def Let_def hex_to_utf8_def length_utf8_bytes split: if_splits option.splits)

lemma ensure_space_ok:
  assumes "ensure_space m len cap = Some (cap', m')" "len < cap" "32 \<le> cap"
  shows "len + 4 < cap' \<and> 32 \<le> cap'"
  using assms by (auto simp: ensure_space_def split: if_splits prod.splits bool.splits)

lemma finish_string_in_bounds: "length result < cap \<Longrightarrow> finish_string m cap result p = Ok (result, p, m)"
  by (simp add: finish_string_def store_def)

lemma parse_string_loop_in_bounds:
  "length result < cap \<Longrightarrow> 32 \<le> cap \<Longrightarrow> parse_string_loop m cap result p \<noteq> OutOfBounds"
proof (induction m cap result p rule: parse_string_loop.induct)
  case (1 m cap result p)
  note step = parse_string_loop.simps [of m cap result p]
  show ?case
  proof (cases "peek p = CHR 0x22 \<or> peek p = NUL \<or> ensure_space m (length result) cap = None \<or> parse_char p = None")
    case True
    then show ?thesis using 1 by (auto simp: step finish_string_in_bounds split: option.splits)
  next
    case False
    then obtain cap' m' bs q where
      sp: "ensure_space m (length result) cap = Some (cap', m')" and q: "parse_char p = Some (bs, q)"
      by auto
    from ensure_space_ok [OF sp "1.prems"] parse_char_length [OF q]
    have st: "store cap' result bs = Some (result @ bs)" "length (result @ bs) < cap'" "32 \<le> cap'"
      by (simp_all add: store_def)
    have "parse_string_loop m' cap' (result @ bs) q \<noteq> OutOfBounds"
      by (rule "1.IH") (use False sp q st in auto)
    with False sp q st show ?thesis by (simp add: step)
  qed
qed

lemma parse_string_in_bounds [simp]: "parse_string m s \<noteq> OutOfBounds"
  by (auto simp: parse_string_def parse_string_loop_in_bounds split: prod.splits)

lemma created_in_bounds [simp]: "created r s \<noteq> OutOfBounds"
  by (auto simp: created_def split: prod.splits option.splits)

lemma scalar_in_bounds [simp]:
  "parse_string_value m s \<noteq> OutOfBounds" "parse_literal m s w c \<noteq> OutOfBounds"
  "parse_number strtod m s \<noteq> OutOfBounds"
  using parse_string_in_bounds [of m s]
  by (auto simp: parse_string_value_def parse_literal_def parse_number_def
      split: outcome.splits option.splits prod.splits)

lemma parse_in_bounds:
  "parse_value strtod m s d \<noteq> OutOfBounds"
  "parse_object strtod m s d \<noteq> OutOfBounds"
  "parse_members strtod m t s d \<noteq> OutOfBounds"
  "parse_array strtod m s d \<noteq> OutOfBounds"
  "parse_elements strtod m a s d \<noteq> OutOfBounds"
proof (induction strtod m s d and strtod m s d and strtod m t s d and strtod m s d and strtod m a s d
    rule: parse_value_parse_object_parse_members_parse_array_parse_elements.induct)
  case (1 strtod m s d)
  then show ?case by (auto simp: parse_value.simps Let_def)
next
  case (2 strtod m s d)
  then show ?case
    by (auto simp: parse_object.simps Let_def split: option.splits prod.splits json.splits)
next
  case (3 strtod m t s d)
  then show ?case
    using parse_string_in_bounds [of m "skip_whitespace s"]
    by (auto simp: parse_members.simps Let_def split: outcome.splits prod.splits) blast+
next
  case (4 strtod m s d)
  then show ?case
    by (auto simp: parse_array.simps Let_def split: option.splits prod.splits)
next
  case (5 strtod m a s d)
  then show ?case
    by (auto simp: parse_elements.simps Let_def split: outcome.splits option.splits prod.splits)
qed

section \<open>What a parsed value looks like\<close>

text \<open>
  \<open>json_ok\<close>: every object is a well-formed hash table, every name and string is a C string, and no
  array holds more items than its capacity.  \<open>jdepth\<close> is the nesting depth of arrays and objects.
\<close>

primrec jdepth :: "'d json \<Rightarrow> nat" where
  "jdepth JNull = 0"
| "jdepth (JBool b) = 0"
| "jdepth (JNumber d) = 0"
| "jdepth (JString s) = 0"
| "jdepth (JArray items cap) = Suc (foldr max (map jdepth items) 0)"
| "jdepth (JObject t) = Suc (foldr max (ht_values (map_mcp_hashtable id jdepth t)) 0)"

primrec json_ok :: "'d json \<Rightarrow> bool" where
  "json_ok JNull = True"
| "json_ok (JBool b) = True"
| "json_ok (JNumber d) = True"
| "json_ok (JString s) = c_str_ok s"
| "json_ok (JArray items cap) = (length items \<le> cap \<and> list_all id (map json_ok items))"
| "json_ok (JObject t) = (ht_inv json_ops t \<and> ht_threshold t = 3 / 4 \<and>
     (\<forall>k \<in> dom (ht_map json_ops t). c_str_ok k) \<and>
     list_all id (ht_values (map_mcp_hashtable id json_ok t)))"

lemma ht_values_map [simp]: "ht_values (map_mcp_hashtable id f t) = map f (ht_values t)"
  by (cases t) (simp add: ht_values_def map_concat comp_def split_beta)

lemma foldr_max_le: "foldr max ns (b::nat) \<le> n \<longleftrightarrow> (\<forall>x \<in> set ns. x \<le> n) \<and> b \<le> n"
  by (induction ns) auto

lemma jdepth_le_JArray: "jdepth (JArray items cap) \<le> Suc n \<longleftrightarrow> (\<forall>x \<in> set items. jdepth x \<le> n)"
  by (simp add: foldr_max_le)

lemma jdepth_le_JObject: "jdepth (JObject t) \<le> Suc n \<longleftrightarrow> (\<forall>x \<in> set (ht_values t). jdepth x \<le> n)"
  by (simp add: foldr_max_le)

lemma json_ok_JObject:
  "json_ok (JObject t) \<longleftrightarrow> ht_inv json_ops t \<and> ht_threshold t = 3 / 4 \<and>
     (\<forall>k \<in> dom (ht_map json_ops t). c_str_ok k) \<and> (\<forall>x \<in> set (ht_values t). json_ok x)"
  by (simp add: list_all_iff)

lemma put_values_subset:
  assumes "ht_inv json_ops t" "mcp_hashtable_put json_ops m t k v = (rc, t', ev, m')"
  shows "set (ht_values t') \<subseteq> insert v (set (ht_values t))"
proof -
  have "mset (ht_values t') \<subseteq># mset (ht_values t) + {#v#}"
    using string_key.put_spec [OF assms]
    by (auto simp: put_post_def split: if_splits) (metis mset_subset_eq_add_left)
  then have "set_mset (mset (ht_values t')) \<subseteq> set_mset (mset (ht_values t) + {#v#})"
    by (rule set_mset_mono)
  then show ?thesis by simp
qed

lemma put_threshold: "mcp_hashtable_put ops m t k v = (rc, t', ev, m') \<Longrightarrow> ht_threshold t' = ht_threshold t"
  by (auto simp: mcp_hashtable_put_def hashtable_resize_def Let_def
      split: if_splits prod.splits option.splits)

lemma put_object_ok:
  assumes "json_ok (JObject t)" "jdepth (JObject t) \<le> Suc n" "json_ok v" "jdepth v \<le> n" "c_str_ok k"
    and put: "mcp_hashtable_put json_ops m t k v = (rc, t', ev, m')"
  shows "json_ok (JObject t') \<and> jdepth (JObject t') \<le> Suc n"
proof -
  have inv: "ht_inv json_ops t" using assms(1) by simp
  have dom: "ht_inv json_ops t'" "dom (ht_map json_ops t') \<subseteq> insert k (dom (ht_map json_ops t))"
    using string_key.put_spec [OF inv put] by (auto simp: put_post_def split: if_splits)
  have vals: "set (ht_values t') \<subseteq> insert v (set (ht_values t))" by (rule put_values_subset [OF inv put])
  have "\<forall>x \<in> dom (ht_map json_ops t'). c_str_ok x"
    using dom(2) assms(1,5) unfolding json_ok_JObject by blast
  moreover have "\<forall>x \<in> set (ht_values t'). json_ok x" "\<forall>x \<in> set (ht_values t'). jdepth x \<le> n"
    using vals assms(1-4) unfolding json_ok_JObject jdepth_le_JObject by blast+
  moreover have "ht_threshold t' = 3 / 4"
    using put_threshold [OF put] assms(1) unfolding json_ok_JObject by simp
  ultimately show ?thesis unfolding json_ok_JObject jdepth_le_JObject using dom(1) by blast
qed

lemma object_create_ok:
  assumes "mcp_json_object_create m = (Some j, m')"
  shows "json_ok j \<and> jdepth j = 1 \<and> (\<exists>t. j = JObject t \<and> ht_map json_ops t = Map.empty \<and> ht_capacity t = 32)"
proof -
  obtain t m1 where t: "mcp_hashtable_create m1 32 (3 / 4) = (Some t, m')" "j = JObject t"
    using assms
    by (auto simp: mcp_json_object_create_def mcp_json_object_create_with_capacity_def
        MCP_JSON_HASH_TABLE_INITIAL_CAPACITY_def split: prod.splits if_splits option.splits)
  have thr: "ht_threshold t = 3 / 4"
    using t(1) by (auto simp: mcp_hashtable_create_def Let_def split: prod.splits if_splits option.splits)
  have "is_power_of_two 32" by (simp add: is_power_of_two_def)
  with create_spec [OF t(1), of json_ops] t(2) thr show ?thesis by simp
qed

lemma array_create_ok: "mcp_json_array_create m = (Some j, m') \<Longrightarrow> j = JArray [] 0"
  by (auto simp: mcp_json_array_create_def mcp_json_array_create_with_capacity_def
      split: prod.splits if_splits)

lemma array_add_ok:
  assumes "json_ok (JArray items cap)" "jdepth (JArray items cap) \<le> Suc n" "json_ok v" "jdepth v \<le> n"
    and "mcp_json_array_add_item m (Some (JArray items cap)) (Some v) = (0, Some a', m')"
  shows "\<exists>cap'. a' = JArray (items @ [v]) cap' \<and> json_ok a' \<and> jdepth a' \<le> Suc n"
  using assms by (auto simp: mcp_json_array_add_item_def Let_def foldr_max_le less_Suc_eq_le Suc_le_eq
      split: if_splits prod.splits)

lemma scalar_ok:
  "parse_string_value m s = Ok (j, rest, m') \<Longrightarrow> json_ok j \<and> jdepth j = 0"
  "parse_number strtod m s = Ok (j, rest, m') \<Longrightarrow> json_ok j \<and> jdepth j = 0"
  "parse_literal m s w mcp_json_null_create = Ok (j, rest, m') \<Longrightarrow> json_ok j \<and> jdepth j = 0"
  "parse_literal m s w (\<lambda>m. mcp_json_boolean_create m b) = Ok (j, rest, m') \<Longrightarrow> json_ok j \<and> jdepth j = 0"
  by (auto simp: parse_string_value_def parse_number_def parse_literal_def created_def Let_def
      mcp_json_string_create_def mcp_json_number_create_def mcp_json_null_create_def
      mcp_json_boolean_create_def split: outcome.splits option.splits prod.splits if_splits)

lemma parse_shape:
  "parse_value strtod m s d = Ok (j, rest, m') \<Longrightarrow> d \<le> 101 \<Longrightarrow> json_ok j \<and> jdepth j + d \<le> 101"
  "parse_object strtod m s d = Ok (j, rest, m') \<Longrightarrow> json_ok j \<and> jdepth j + d \<le> 101"
  "parse_members strtod m t s d = Ok (j, rest, m') \<Longrightarrow> d \<le> 100 \<Longrightarrow>
     json_ok (JObject t) \<Longrightarrow> jdepth (JObject t) \<le> Suc (100 - d) \<Longrightarrow> json_ok j \<and> jdepth j \<le> Suc (100 - d)"
  "parse_array strtod m s d = Ok (j, rest, m') \<Longrightarrow> json_ok j \<and> jdepth j + d \<le> 101"
  "parse_elements strtod m a s d = Ok (j, rest, m') \<Longrightarrow> d \<le> 100 \<Longrightarrow> a = JArray items cap \<Longrightarrow>
     json_ok a \<Longrightarrow> jdepth a \<le> Suc (100 - d) \<Longrightarrow> json_ok j \<and> jdepth j \<le> Suc (100 - d)"
proof (induction strtod m s d and strtod m s d and strtod m t s d and strtod m s d and strtod m a s d
    arbitrary: j rest m' and j rest m' and j rest m' and j rest m' and j rest m' items cap
    rule: parse_value_parse_object_parse_members_parse_array_parse_elements.induct)
  case (1 strtod m s d)
  then show ?case
    by (auto simp: parse_value.simps [of strtod m s d] Let_def dest: scalar_ok split: if_splits)
next
  case (2 strtod m s d)
  obtain t m1 where t: "mcp_json_object_create m = (Some (JObject t), m1)" "d \<le> 100"
    and r: "(if peek (skip_whitespace (tl s)) = CHR ''}'' then Ok (JObject t, tl (skip_whitespace (tl s)), m1)
             else parse_members strtod m1 t (skip_whitespace (tl s)) d) = Ok (j, rest, m')"
    and br: "peek s = CHR ''{''"
    using "2.prems" unfolding parse_object.simps [of strtod m s d]
    by (auto simp: Let_def MCP_JSON_MAX_PARSE_DEPTH_def split: if_splits option.splits prod.splits json.splits)
  have ok: "json_ok (JObject t)" "jdepth (JObject t) \<le> Suc (100 - d)" using object_create_ok [OF t(1)] by auto
  show ?case
  proof (cases "peek (skip_whitespace (tl s)) = CHR ''}''")
    case True
    with r ok t(2) show ?thesis by auto
  next
    case False
    have "json_ok j \<and> jdepth j \<le> Suc (100 - d)"
      by (rule "2.IH" [OF _ _ t(1) [symmetric] refl refl refl])
        (use t br False r ok in \<open>auto simp: MCP_JSON_MAX_PARSE_DEPTH_def\<close>)
    with t(2) show ?thesis by auto
  qed
next
  case (3 strtod m t s d)
  obtain name s1 m1 v s2 m2 t' ev m3 where
    name: "parse_string m (skip_whitespace s) = Ok (name, s1, m1)" and
    v: "parse_value strtod m1 (skip_whitespace (tl (skip_whitespace s1))) (Suc d) = Ok (v, s2, m2)" and
    put: "mcp_hashtable_put json_ops m2 t (c_string name) v = (0, t', ev, m3)" and
    colon: "peek (skip_whitespace s1) = CHR '':''" and
    r: "(if peek (skip_whitespace s2) = CHR ''}'' then Ok (JObject t', tl (skip_whitespace s2), m3)
         else if peek (skip_whitespace s2) \<noteq> CHR '','' then Null
         else parse_members strtod m3 t' (tl (skip_whitespace s2)) d) = Ok (j, rest, m')"
    using "3.prems"(1) unfolding parse_members.simps [of strtod m t s d]
    by (auto simp: Let_def split: if_splits outcome.splits prod.splits)
  have vok: "json_ok v" "jdepth v \<le> 100 - d"
    using "3.IH"(1) [OF name refl refl refl _ v] colon "3.prems"(2) by auto
  have t': "json_ok (JObject t')" "jdepth (JObject t') \<le> Suc (100 - d)"
    using put_object_ok [OF "3.prems"(3,4) vok _ put] by auto
  then show ?case
    using r "3.IH"(2) [OF name refl refl refl _ v refl refl put [symmetric] refl refl _ refl] colon "3.prems"(2)
    by (auto split: if_splits)
next
  case (4 strtod m s d)
  obtain a m1 where t: "mcp_json_array_create m = (Some a, m1)" "d \<le> 100" "peek s = CHR ''[''"
    and r: "(if peek (skip_whitespace (tl s)) = CHR '']'' then Ok (a, tl (skip_whitespace (tl s)), m1)
             else parse_elements strtod m1 a (skip_whitespace (tl s)) d) = Ok (j, rest, m')"
    using "4.prems" unfolding parse_array.simps [of strtod m s d]
    by (auto simp: Let_def MCP_JSON_MAX_PARSE_DEPTH_def split: if_splits option.splits prod.splits)
  have a: "a = JArray [] 0" using array_create_ok [OF t(1)] .
  show ?case
  proof (cases "peek (skip_whitespace (tl s)) = CHR '']''")
    case True
    with r a t(2) show ?thesis by auto
  next
    case False
    have "json_ok j \<and> jdepth j \<le> Suc (100 - d)"
      by (rule "4.IH" [OF _ _ t(1) [symmetric] refl refl _ _ _ a])
        (use t False r a in \<open>auto simp: MCP_JSON_MAX_PARSE_DEPTH_def\<close>)
    with t(2) show ?thesis by auto
  qed
next
  case (5 strtod m a s d)
  obtain v s1 m1 a' m2 where
    v: "parse_value strtod m (skip_whitespace s) (Suc d) = Ok (v, s1, m1)" and
    add: "mcp_json_array_add_item m1 (Some a) (Some v) = (0, Some a', m2)" and
    r: "(if peek (skip_whitespace s1) = CHR '']'' then Ok (a', tl (skip_whitespace s1), m2)
         else if peek (skip_whitespace s1) \<noteq> CHR '','' then Null
         else parse_elements strtod m2 a' (tl (skip_whitespace s1)) d) = Ok (j, rest, m')"
    using "5.prems"(1) unfolding parse_elements.simps [of strtod m a s d]
    by (auto simp: Let_def split: if_splits outcome.splits prod.splits option.splits)
  have vok: "json_ok v" "jdepth v \<le> 100 - d"
    using "5.IH"(1) [OF v] "5.prems"(2) by auto
  obtain cap' where a': "a' = JArray (items @ [v]) cap'" "json_ok a'" "jdepth a' \<le> Suc (100 - d)"
    using array_add_ok [OF _ _ vok add [unfolded "5.prems"(3)]] "5.prems"(3-5) by auto
  then show ?case
    using r "5.IH"(2) [OF v refl refl add [symmetric] refl refl _ refl] "5.prems"(2)
    by (auto split: if_splits)
qed

section \<open>Escaped strings\<close>

lemma nat_lt_16: "n < 16 \<Longrightarrow> n \<in> {0, 1, 2, 3, 4, 5, 6, 7, 8, 9, 10, 11, 12, 13, 14, 15::nat}"
  unfolding insert_iff empty_iff by presburger

lemma hex_digit_lower: "d < 16 \<Longrightarrow> hex_digit (hex_lower d) = Some d"
  by (drule nat_lt_16, elim insertE emptyE) (simp_all add: hex_digit_def hex_lower_def)

lemma nibbles_or: "push_bit 4 (n div 16) OR (n mod 16) = (n :: nat)"
proof (rule bit_eqI)
  fix i
  have "n div 16 = drop_bit 4 n" "n mod 16 = take_bit 4 n"
    by (simp_all add: drop_bit_eq_div take_bit_eq_mod)
  then show "bit (push_bit 4 (n div 16) OR (n mod 16)) i \<longleftrightarrow> bit n i"
    by (auto simp: bit_simps)
qed

lemma hex_code_point_control:
  assumes "n < 32"
  shows "hex_code_point 0 [CHR ''0'', CHR ''0'', hex_lower (n div 16), hex_lower (n mod 16)] = Some n"
proof -
  have "hex_digit (hex_lower (n div 16)) = Some (n div 16)" "hex_digit (hex_lower (n mod 16)) = Some (n mod 16)"
    using assms by (simp_all add: hex_digit_lower)
  moreover have "hex_digit (CHR ''0'') = Some 0" by (simp add: hex_digit_def)
  ultimately show ?thesis by (simp add: nibbles_or)
qed

lemma parse_char_escape:
  assumes "c \<noteq> NUL"
  shows "parse_char (escape_char c @ rest) = Some ([c], rest)"
proof (cases "(of_char c :: nat) < 32 \<and> c \<notin> {CHR 0x08, CHR 0x0C, CHR 0x0A, CHR 0x0D, CHR 0x09}")
  case True
  let ?n = "of_char c :: nat"
  let ?hex = "[CHR ''0'', CHR ''0'', hex_lower (?n div 16), hex_lower (?n mod 16)]"
  have "c \<noteq> CHR 0x5C" "c \<noteq> CHR 0x22" using True by (intro notI, simp)+
  with True have esc: "escape_char c = [CHR 0x5C, CHR ''u''] @ ?hex"
    by (simp add: escape_char_def)
  have "hex_digit (CHR ''0'') = Some 0" by (simp add: hex_digit_def)
  then have dig: "hex_digit h \<noteq> None" if "h \<in> set ?hex" for h
    using that True by (auto simp: hex_digit_lower)
  have "hex_to_utf8 (?hex @ rest) = [c]"
    using hex_code_point_control [of ?n] True by (simp add: hex_to_utf8_def utf8_bytes_def)
  with dig show ?thesis
    unfolding esc by (auto simp: parse_char_def control_rejected_def simple_escape_def Let_def)
next
  case False
  then show ?thesis
    by (auto simp: escape_char_def parse_char_def simple_escape_def control_rejected_def)
qed

lemma escape_char_head:
  "c \<noteq> NUL \<Longrightarrow> peek (escape_char c @ rest) \<noteq> CHR 0x22 \<and> peek (escape_char c @ rest) \<noteq> NUL"
  by (auto simp: escape_char_def)

lemma ensure_space_no_failure:
  assumes "len < 2 ^ 60" "cap \<le> max 32 (4 * len)"
  shows "\<exists>cap'. ensure_space [] len cap = Some (cap', []) \<and> cap' \<le> max 32 (4 * Suc len)"
  using assms by (auto simp: ensure_space_def realloc_bytes_def)


lemma parse_string_loop_escaped:
  assumes "c_str_ok s" "length (result @ s) < 2 ^ 60" "length result < cap" "32 \<le> cap"
    "cap \<le> max 32 (4 * length result)"
  shows "parse_string_loop [] cap result (escape_string s @ CHR 0x22 # rest) = Ok (result @ s, rest, [])"
  using assms
proof (induction s arbitrary: result cap)
  case Nil
  then show ?case by (simp add: escape_string_def parse_string_loop.simps finish_string_in_bounds)
next
  case (Cons c s)
  let ?p = "escape_char c @ escape_string s @ CHR 0x22 # rest"
  have c: "c \<noteq> NUL" using Cons.prems(1) by simp
  obtain cap' where cap': "ensure_space [] (length result) cap = Some (cap', [])"
    "cap' \<le> max 32 (4 * Suc (length result))"
    using ensure_space_no_failure [of "length result" cap] Cons.prems by auto
  have sp: "length result + 4 < cap'" "32 \<le> cap'"
    using ensure_space_ok [OF cap'(1)] Cons.prems by auto
  have "parse_string_loop [] cap result ?p = parse_string_loop [] cap' (result @ [c]) (escape_string s @ CHR 0x22 # rest)"
    using escape_char_head [OF c] parse_char_escape [OF c] cap'(1) sp
    by (simp add: parse_string_loop.simps [of "[]" cap result] store_def)
  also have "\<dots> = Ok ((result @ [c]) @ s, rest, [])"
    by (rule Cons.IH) (use Cons.prems cap' sp in auto)
  finally show ?case by (simp add: escape_string_def)
qed

lemma parse_string_escaped:
  assumes "c_str_ok s" "length s < 2 ^ 60"
  shows "parse_string [] (CHR 0x22 # escape_string s @ CHR 0x22 # rest) = Ok (s, rest, [])"
  using parse_string_loop_escaped [of s "[]" 32 rest] assms by (simp add: parse_string_def)

section \<open>Properties\<close>

text \<open>Claim C8.  The parser stays inside the buffers it allocates: for every input, every \<open>strtod\<close> and
  every pattern of allocation failures, no write of \<open>parse_string\<close> is out of bounds.\<close>

theorem json_parse_in_bounds: "mcp_json_parse strtod m json \<noteq> OutOfBounds"
  using parse_in_bounds(1) by (auto simp: mcp_json_parse_def split: option.splits outcome.splits prod.splits)

text \<open>Claim C36.  A value \<open>mcp_json_parse\<close> returns is well formed: all its objects are well-formed hash
  tables, its names and strings contain no NUL, its arrays fit their capacity, and arrays and
  objects are nested at most 101 deep (depths 0 to \<open>MCP_JSON_MAX_PARSE_DEPTH\<close>).\<close>

theorem json_parse_well_formed:
  assumes "mcp_json_parse strtod m json = Ok j"
  shows "json_ok j \<and> jdepth j \<le> MCP_JSON_MAX_PARSE_DEPTH + 1"
  using assms parse_shape(1) [where d = 0]
  by (fastforce simp: mcp_json_parse_def MCP_JSON_MAX_PARSE_DEPTH_def
      split: option.splits outcome.splits prod.splits if_splits)

text \<open>A \<open>strtod\<close> for examples: it reads the digits of a natural number as 0.\<close>

definition strtod_zero :: "nat strtod" where
  "strtod_zero s = (0, dropWhile is_digit s)"

lemmas parse_eval = mcp_json_parse_def parse_value.simps parse_array.simps parse_elements.simps
  parse_literal_def parse_string_value_def parse_string_def parse_string_loop.simps parse_char_def
  ensure_space_def control_rejected_def store_def finish_string_def skip_whitespace_def is_space_def
  simple_escape_def hex_to_utf8_def utf8_bytes_def hex_digit_def created_def is_digit_def
  mcp_json_null_create_def mcp_json_boolean_create_def mcp_json_string_create_def
  mcp_json_array_create_def mcp_json_array_create_with_capacity_def mcp_json_array_add_item_def
  mcp_json_alloc_node_def malloc_items_def MCP_JSON_MAX_PARSE_DEPTH_def is_utf8_continuation_def

lemma parse_example: "mcp_json_parse strtod_zero [] (Some '' [null]'') = Ok (JArray [JNull] 8)"
  by (simp add: parse_eval)

theorem json_parse_well_formed_witness: "json_ok (JArray [JNull] 8 :: nat json)"
  using json_parse_well_formed [OF parse_example] by blast

text \<open>Parsing the escaped text of a C string between quotation marks gives the string back and
  leaves the cursor behind the closing quotation mark, when memory does not run out.\<close>

theorem parse_string_escape_roundtrip:
  assumes "c_str_ok s" and "length s < 2 ^ 60"
  shows "parse_string [] (CHR 0x22 # escape_string s @ CHR 0x22 # rest) = Ok (s, rest, [])"
  by (rule parse_string_escaped [OF assms])

theorem parse_string_escape_roundtrip_witness:
  "parse_string [] (CHR 0x22 # escape_string ''a\<newline>'' @ [CHR 0x22]) = Ok (''a\<newline>'', [], [])"
  by (rule parse_string_escape_roundtrip) simp_all

text \<open>Every parsing step moves the cursor forward over its input: the cursor it returns is a
  suffix of the one it was given, and a whole text parsed successfully is a value followed by
  white space only.\<close>

theorem json_parse_consumes_all:
  assumes "mcp_json_parse strtod m (Some s) = Ok j" and "c_str_ok s"
  shows "\<exists>used spaces m'. s = used @ spaces \<and> (\<forall>c \<in> set spaces. is_space c) \<and>
           parse_value strtod m (skip_whitespace s) 0 = Ok (j, spaces, m')"
proof -
  obtain cur m' where v: "parse_value strtod m (skip_whitespace s) 0 = Ok (j, cur, m')"
    and e: "peek (skip_whitespace cur) = NUL"
    using assms(1) by (auto simp: mcp_json_parse_def split: outcome.splits prod.splits if_splits)
  have "suffix cur s" using parse_value_suffix [OF v] by (rule suffix_skipD)
  then obtain used where used: "s = used @ cur" by (auto simp: suffix_def)
  have "set (skip_whitespace cur) \<subseteq> set s"
    using used set_dropWhileD by (fastforce simp: skip_whitespace_def)
  then have "NUL \<notin> set (skip_whitespace cur)" using assms(2) by (auto simp: c_str_ok_def)
  with e have "skip_whitespace cur = []" by (cases "skip_whitespace cur") auto
  then have "\<forall>c \<in> set cur. is_space c" by (simp add: skip_whitespace_def dropWhile_eq_Nil_conv)
  with used v show ?thesis by blast
qed

theorem json_parse_consumes_all_witness:
  "\<exists>used spaces. '' [null]'' = used @ spaces \<and> (\<forall>c \<in> set spaces. is_space c)"
  using json_parse_consumes_all [OF parse_example] by auto

text \<open>An escaped NUL inside a string is accepted and silently cuts the string there: the text
  \<open>"a\u0000b"\<close> parses to the string \<open>a\<close>.\<close>

theorem json_parse_nul_truncates:
  "mcp_json_parse strtod [] (Some [CHR 0x22, CHR ''a'', CHR 0x5C, CHR ''u'', CHR ''0'', CHR ''0'', CHR ''0'',
     CHR ''0'', CHR ''b'', CHR 0x22]) = Ok (JString ''a'')"
  by (simp add: parse_eval c_string_def char_of_def)

text \<open>A surrogate pair is not combined: the escape \<open>\ud83d\ude00\<close> of U+1F600 becomes the six
  bytes ED A0 BD ED B8 80, which is not UTF-8 (whose encoding is F0 9F 98 80).\<close>

theorem json_parse_surrogates:
  "parse_string [] ([CHR 0x22, CHR 0x5C] @ ''ud83d'' @ [CHR 0x5C] @ ''ude00'' @ [CHR 0x22])
   = Ok ([CHR 0xED, CHR 0xA0, CHR 0xBD, CHR 0xED, CHR 0xB8, CHR 0x80], [], [])"
  by (simp add: parse_eval char_of_def bit_0)

end
