(* ===== verification/Mcp_Json_Stringify.thy ===== *)
theory Mcp_Json_Stringify
  imports Mcp_Json_Parser
begin

text \<open>
  The stringifier, \<open>src/json/mcp_json_stringifier.c\<close>.

  The output state \<open>(allocator, buffer, output_size)\<close> holds the whole allocated buffer, whose length
  is \<open>output_capacity\<close>; what \<open>realloc\<close> adds is unspecified in C and is filled with NUL here.  Every
  write checks the index against the buffer.  A call ends in one of four ways: \<open>Wrote\<close> (returns 0),
  \<open>Failed\<close> (returns -1), \<open>Smashed\<close> (a write outside the buffer) and \<open>Diverges\<close> (the growth loop of
  \<open>ensure_output_capacity\<close> does not end); the last two are shown not to happen.

  The C library call \<open>snprintf(buffer, 32, "%.17g", d)\<close> is the parameter \<open>fmt\<close>: the text of a number.
  Buffer sizes are natural numbers: \<open>malloc\<close> and \<open>realloc\<close> refuse \<open>PTRDIFF_MAX\<close> bytes and more, so
  the capacities stay below \<open>2 ^ 63\<close> and their growth by at most the factor 2 does not wrap.
\<close>

section \<open>The output buffer\<close>

type_synonym outbuf = "mem \<times> char list \<times> nat"

datatype 'a written = Wrote 'a | Failed | Smashed | Diverges

definition and_then :: "'a written \<Rightarrow> ('a \<Rightarrow> 'b written) \<Rightarrow> 'b written" where
  "and_then r f =
     (case r of Wrote x \<Rightarrow> f x | Failed \<Rightarrow> Failed | Smashed \<Rightarrow> Smashed | Diverges \<Rightarrow> Diverges)"

definition grow_step :: "nat \<Rightarrow> nat" where
  "grow_step capacity =
     (if capacity = 0 then 256
      else if capacity < 1024 then capacity * 2
      else if capacity < 1024 * 1024 then capacity + capacity div 2
      else capacity + capacity div 4)"

partial_function (option) grow_until :: "nat \<Rightarrow> nat \<Rightarrow> nat option" where
  "grow_until needed new_capacity =
     (if new_capacity < needed then grow_until needed (new_capacity + new_capacity div 2)
      else Some new_capacity)"

definition ensure_output_capacity :: "nat \<Rightarrow> outbuf \<Rightarrow> outbuf written" where
  "ensure_output_capacity additional out =
     (case out of (m, output, output_size) \<Rightarrow>
        if length output < output_size + additional
        then (case grow_until (output_size + additional) (grow_step (length output)) of
                None \<Rightarrow> Diverges
              | Some new_capacity \<Rightarrow>
                  (case realloc_bytes m new_capacity of
                     (False, _) \<Rightarrow> Failed
                   | (True, m') \<Rightarrow>
                       Wrote (m', take new_capacity output @ replicate (new_capacity - length output) NUL,
                              output_size)))
        else Wrote out)"

text \<open>Bytes stored from \<open>output + output_size\<close> on, and \<open>output_size\<close> advanced.\<close>

definition write_bytes :: "string \<Rightarrow> outbuf \<Rightarrow> outbuf written" where
  "write_bytes bs out =
     (case out of (m, output, output_size) \<Rightarrow>
        if output_size + length bs \<le> length output
        then Wrote (m, memcpy_at output output_size bs, output_size + length bs) else Smashed)"

definition append_string :: "string \<Rightarrow> outbuf \<Rightarrow> outbuf written" where
  "append_string s out = and_then (ensure_output_capacity (length s) out) (write_bytes s)"

definition stringify_string :: "string \<Rightarrow> outbuf \<Rightarrow> outbuf written" where
  "stringify_string s out =
     (let required_escaped_len = fst (mcp_json_escape_string (Some s) None)
      in if required_escaped_len < 0 then Failed
         else let escaped_content_len = (of_int required_escaped_len - 1 :: size_t);
                  total_needed_space = 2 + escaped_content_len
              in and_then (and_then (ensure_output_capacity (unat total_needed_space) out)
                             (write_bytes [CHR 0x22]))
                   (\<lambda>(m, output, output_size).
                      case mcp_json_escape_string (Some s) (Some (drop output_size output)) of
                        (written_len, Some tail) \<Rightarrow>
                          (if written_len < 0 \<or> written_len \<noteq> required_escaped_len then Failed
                           else write_bytes [CHR 0x22]
                                  (m, take output_size output @ tail,
                                   unat (of_nat output_size + escaped_content_len)))
                      | (written_len, None) \<Rightarrow> Failed))"

section \<open>Values\<close>

text \<open>
  The context of \<open>stringify_object_callback\<close>: \<open>first_property\<close> and the output, in which a result
  other than \<open>Wrote\<close> plays the part of a non-zero \<open>error_code\<close>.
\<close>

definition stringify_object_callback ::
    "(outbuf \<Rightarrow> outbuf written) \<Rightarrow> string \<Rightarrow> bool \<times> outbuf written \<Rightarrow> bool \<times> outbuf written" where
  "stringify_object_callback stringify_json_value name ctx =
     (case ctx of (first_property, r) \<Rightarrow>
        (False,
         and_then (and_then (and_then (and_then r
           (if first_property then Wrote else append_string '',''))
           (stringify_string name))
           (append_string '':''))
           stringify_json_value))"

lemma mcp_hashtable_foreach_cong [fundef_cong]:
  assumes "t = t'" "s = s'" "\<And>k v s. (k, v) \<in> set (concat (ht_buckets t')) \<Longrightarrow> f k v s = g k v s"
  shows "mcp_hashtable_foreach f t s = mcp_hashtable_foreach g t' s'"
  unfolding foreach_foldl assms(1,2) by (rule foldl_cong) (auto intro!: assms(3))

lemma size_in_table: "(k, v) \<in> set (concat (ht_buckets t)) \<Longrightarrow> size v < size (JObject t)"
proof (cases t)
  case (Hashtable bs cap n thr)
  assume "(k, v) \<in> set (concat (ht_buckets t))"
  then obtain es where es: "es \<in> set bs" "(k, v) \<in> set es" using Hashtable by auto
  have "size v \<le> size_prod (\<lambda>_. 0) size (k, v)" by simp
  also have "\<dots> \<le> size_list (size_prod (\<lambda>_. 0) size) es" by (rule size_list_estimation' [OF es(2) order.refl])
  also have "\<dots> \<le> size_list (size_list (size_prod (\<lambda>_. 0) size)) bs"
    by (rule size_list_estimation' [OF es(1) order.refl])
  finally show ?thesis using Hashtable by simp
qed

text \<open>\<open>stringify_items\<close> is the loop of \<open>stringify_array\<close>, from index \<open>i\<close> on.\<close>

function stringify_value :: "('d \<Rightarrow> string) \<Rightarrow> 'd json \<Rightarrow> outbuf \<Rightarrow> outbuf written"
  and stringify_items :: "('d \<Rightarrow> string) \<Rightarrow> nat \<Rightarrow> 'd json list \<Rightarrow> outbuf \<Rightarrow> outbuf written"
where
  "stringify_value fmt JNull out = append_string ''null'' out"
| "stringify_value fmt (JBool b) out = append_string (if b then ''true'' else ''false'') out"
| "stringify_value fmt (JNumber d) out =
     (if 32 \<le> length (fmt d) then Failed else append_string (fmt d) out)"
| "stringify_value fmt (JString s) out = stringify_string s out"
| "stringify_value fmt (JArray items cap) out =
     and_then (and_then (append_string ''['' out) (stringify_items fmt 0 items)) (append_string '']'')"
| "stringify_value fmt (JObject t) out =
     and_then
       (snd (mcp_hashtable_foreach
               (\<lambda>name v. stringify_object_callback (stringify_value fmt v) name)
               t (True, append_string ''{'' out)))
       (append_string ''}'')"
| "stringify_items fmt i [] out = Wrote out"
| "stringify_items fmt i (x # xs) out =
     and_then (and_then (if 0 < i then append_string '','' out else Wrote out) (stringify_value fmt x))
       (stringify_items fmt (Suc i) xs)"
  by pat_completeness auto
termination
  by (relation "measure (\<lambda>x. case x of Inl (fmt, j, out) \<Rightarrow> size j | Inr (fmt, i, xs, out) \<Rightarrow> size_list size xs)")
    (use size_in_table in auto)

text \<open>
  \<open>stringify_with_capacity\<close>.  \<open>mcp_json_stringify\<close> is this function with the initial capacity
  computed by \<open>estimate_json_size\<close>; the results below hold for every initial capacity.  The final
  shrinking \<open>realloc\<close> keeps the text and its terminator.
\<close>

definition stringify_with_capacity ::
    "('d \<Rightarrow> string) \<Rightarrow> mem \<Rightarrow> 'd json option \<Rightarrow> nat \<Rightarrow> char list written" where
  "stringify_with_capacity fmt m json initial_capacity =
     (let capacity = (if initial_capacity < 256 then 256 else initial_capacity)
      in case realloc_bytes m capacity of
           (False, _) \<Rightarrow> Failed
         | (True, m1) \<Rightarrow>
             and_then
               (and_then
                  (and_then
                     (case json of
                        None \<Rightarrow> append_string ''null'' (m1, replicate capacity NUL, 0)
                      | Some j \<Rightarrow> stringify_value fmt j (m1, replicate capacity NUL, 0))
                     (ensure_output_capacity 1))
                  (write_bytes [NUL]))
               (\<lambda>(m2, output, size1).
                  let (ok, m3) = (if size1 - 1 + 1024 < length output
                                  then realloc_bytes m2 size1 else (False, m2))
                  in Wrote (if ok then take size1 output else output)))"

section \<open>The text of a value\<close>

fun comma_sep :: "string list \<Rightarrow> string" where
  "comma_sep [] = []"
| "comma_sep [s] = s"
| "comma_sep (s # ss) = s @ '','' @ comma_sep ss"

definition quoted :: "string \<Rightarrow> string" where
  "quoted s = CHR 0x22 # escape_string s @ [CHR 0x22]"

primrec render :: "('d \<Rightarrow> string) \<Rightarrow> 'd json \<Rightarrow> string" where
  "render fmt JNull = ''null''"
| "render fmt (JBool b) = (if b then ''true'' else ''false'')"
| "render fmt (JNumber d) = fmt d"
| "render fmt (JString s) = quoted s"
| "render fmt (JArray items cap) = ''['' @ comma_sep (map (render fmt) items) @ '']''"
| "render fmt (JObject t) =
     ''{'' @ comma_sep (map (\<lambda>(k, s). quoted k @ '':'' @ s)
                          (concat (ht_buckets (map_mcp_hashtable id (render fmt) t)))) @ ''}''"

text \<open>
  What a value must satisfy to be printed: the texts of its numbers fit the buffer of 32 bytes and
  its strings and names are shorter than an \<open>int\<close> can count once escaped.
\<close>

definition short_string :: "string \<Rightarrow> bool" where
  "short_string s \<longleftrightarrow> length (escape_string s) < 2 ^ 31 - 1"

primrec printable :: "('d \<Rightarrow> string) \<Rightarrow> 'd json \<Rightarrow> bool" where
  "printable fmt JNull = True"
| "printable fmt (JBool b) = True"
| "printable fmt (JNumber d) = (length (fmt d) < 32)"
| "printable fmt (JString s) = short_string s"
| "printable fmt (JArray items cap) = list_all id (map (printable fmt) items)"
| "printable fmt (JObject t) =
     list_all (\<lambda>(k, ok). short_string k \<and> ok) (concat (ht_buckets (map_mcp_hashtable id (printable fmt) t)))"

lemma entries_map: "concat (ht_buckets (map_mcp_hashtable id f t)) = map (\<lambda>(k, v). (k, f v)) (concat (ht_buckets t))"
  by (cases t) (simp add: map_concat map_prod_def id_def comp_def)

lemma render_JObject:
  "render fmt (JObject t) = ''{'' @ comma_sep (map (\<lambda>(k, v). quoted k @ '':'' @ render fmt v) (concat (ht_buckets t))) @ ''}''"
  unfolding render.simps entries_map by (simp add: comp_def case_prod_unfold)

lemma printable_JObject:
  "printable fmt (JObject t) \<longleftrightarrow> (\<forall>(k, v) \<in> set (concat (ht_buckets t)). short_string k \<and> printable fmt v)"
  unfolding printable.simps entries_map by (auto simp: list_all_iff)

section \<open>Refinement\<close>

text \<open>
  \<open>appends text f\<close>: from an output with room for its own text, \<open>f\<close> appends \<open>text\<close> and leaves such
  an output, or fails; it does not fail when memory is not exhausted and the text stays short.
\<close>

fun out_text :: "outbuf \<Rightarrow> string" where
  "out_text (m, output, output_size) = take output_size output"

fun out_ok :: "outbuf \<Rightarrow> bool" where
  "out_ok (m, output, output_size) \<longleftrightarrow> output_size \<le> length output \<and> 2 \<le> length output \<and> length output < 2 ^ 63"

definition result_ok :: "outbuf \<Rightarrow> string \<Rightarrow> outbuf written \<Rightarrow> bool" where
  "result_ok out text r \<longleftrightarrow>
     (case r of
        Wrote out' \<Rightarrow> out_ok out' \<and> out_text out' = out_text out @ text \<and> (fst out = [] \<longrightarrow> fst out' = [])
      | Failed \<Rightarrow> \<not> (fst out = [] \<and> length (out_text out @ text) < 2 ^ 60)
      | _ \<Rightarrow> False)"

definition appends :: "string \<Rightarrow> (outbuf \<Rightarrow> outbuf written) \<Rightarrow> bool" where
  "appends text f \<longleftrightarrow> (\<forall>out. out_ok out \<longrightarrow> result_ok out text (f out))"

lemma appendsI: "(\<And>out. out_ok out \<Longrightarrow> result_ok out text (f out)) \<Longrightarrow> appends text f"
  by (simp add: appends_def)

lemma appendsD: "appends text f \<Longrightarrow> out_ok out \<Longrightarrow> result_ok out text (f out)"
  unfolding appends_def by blast

lemma result_ok_simps:
  "result_ok out text (Wrote out') \<longleftrightarrow>
     out_ok out' \<and> out_text out' = out_text out @ text \<and> (fst out = [] \<longrightarrow> fst out' = [])"
  "result_ok out text Failed \<longleftrightarrow> fst out \<noteq> [] \<or> 2 ^ 60 \<le> length (out_text out) + length text"
  "\<not> result_ok out text Smashed" "\<not> result_ok out text Diverges"
  by (simp_all only: result_ok_def written.case length_append not_less de_Morgan_conj simp_thms)

lemma and_then_simps [simp]:
  "and_then (Wrote x) f = f x" "and_then Failed f = Failed"
  by (simp_all add: and_then_def)

lemma result_ok_then:
  assumes "result_ok out t1 r" "appends t2 f"
  shows "result_ok out (t1 @ t2) (and_then r f)"
proof (cases r)
  case (Wrote out1)
  have 1: "out_ok out1" "out_text out1 = out_text out @ t1" "fst out = [] \<longrightarrow> fst out1 = []"
    using assms(1) unfolding Wrote result_ok_simps by blast+
  have 2: "result_ok out1 t2 (f out1)" by (rule appendsD [OF assms(2) 1(1)])
  show ?thesis
  proof (cases "f out1")
    case (Wrote out2)
    with 1 2 show ?thesis by (simp add: \<open>r = Wrote out1\<close> result_ok_simps)
  next
    case Failed
    have "fst out1 \<noteq> [] \<or> 2 ^ 60 \<le> length (out_text out @ t1) + length t2"
      using 2 unfolding Failed result_ok_simps 1(2) .
    with 1(3) Failed show ?thesis
      unfolding \<open>r = Wrote out1\<close> and_then_simps Failed result_ok_simps length_append by linarith
  qed (use 2 in \<open>simp_all add: result_ok_simps\<close>)
next
  case Failed
  then show ?thesis using assms(1) unfolding Failed and_then_simps result_ok_simps length_append by linarith
qed (use assms(1) in \<open>simp_all add: result_ok_simps\<close>)

lemma appends_then: "appends t1 f \<Longrightarrow> appends t2 g \<Longrightarrow> appends (t1 @ t2) (\<lambda>out. and_then (f out) g)"
  by (rule appendsI, rule result_ok_then, erule (1) appendsD)

lemma appends_Wrote: "appends [] Wrote"
  by (simp add: appends_def result_ok_simps)

lemma grow_until_returns:
  assumes "2 \<le> c"
  shows "\<exists>c'. grow_until needed c = Some c' \<and> needed \<le> c' \<and> c' \<le> max c (2 * needed)"
  using assms
proof (induction "needed - c" arbitrary: c rule: less_induct)
  case less
  show ?case
  proof (cases "c < needed")
    case False
    then show ?thesis by (simp add: grow_until.simps [of needed c])
  next
    case True
    have "needed - (c + c div 2) < needed - c" "2 \<le> c + c div 2" using True less.prems by auto
    from less.hyps [OF this] obtain c' where
      "grow_until needed (c + c div 2) = Some c'" "needed \<le> c'" "c' \<le> max (c + c div 2) (2 * needed)"
      by blast
    with True show ?thesis by (auto simp: grow_until.simps [of needed c])
  qed
qed

lemma grow_step_bounds: "2 \<le> c \<Longrightarrow> 2 \<le> grow_step c \<and> grow_step c \<le> 2 * c"
  by (auto simp: grow_step_def)

lemma ensure_output_capacity_ok:
  assumes "out_ok (m, output, n)"
  shows "(\<exists>m' output'. ensure_output_capacity k (m, output, n) = Wrote (m', output', n) \<and>
            n + k \<le> length output' \<and> 2 \<le> length output' \<and> length output' < 2 ^ 63 \<and> take n output' = take n output \<and> (m = [] \<longrightarrow> m' = [])) \<or>
         ensure_output_capacity k (m, output, n) = Failed \<and> \<not> (m = [] \<and> n + k < 2 ^ 61)"
proof (cases "length output < n + k")
  case False
  then show ?thesis using assms by (simp add: ensure_output_capacity_def)
next
  case True
  let ?c = "length output"
  obtain c where c: "grow_until (n + k) (grow_step ?c) = Some c" "n + k \<le> c" "c \<le> max (grow_step ?c) (2 * (n + k))"
    using grow_until_returns [of "grow_step ?c" "n + k"] grow_step_bounds [of ?c] assms by auto
  have small: "c \<le> 2 * (n + k)" using c(3) grow_step_bounds [of ?c] assms True by auto
  obtain ok m' where r: "realloc_bytes m c = (ok, m')" by fastforce
  have ok: "m = [] \<Longrightarrow> n + k < 2 ^ 61 \<Longrightarrow> ok \<and> m' = []"
    using r small by (auto simp: realloc_bytes_def split: if_splits)
  have "m = [] \<Longrightarrow> m' = []" "ok \<Longrightarrow> c < 2 ^ 63" using r by (auto simp: realloc_bytes_def split: if_splits)
  with ok True c r assms show ?thesis
    by (cases ok) (auto simp: ensure_output_capacity_def)
qed

lemma write_bytes_ok:
  assumes "n + length bs \<le> length output" "2 \<le> length output"
  shows "\<exists>output'. write_bytes bs (m, output, n) = Wrote (m, output', n + length bs) \<and>
           length output' = length output \<and> take (n + length bs) output' = take n output @ bs"
  using assms by (auto simp: write_bytes_def memcpy_at_def)

lemma append_string_appends: "appends s (append_string s)"
proof (rule appendsI)
  fix out assume ok: "out_ok out"
  obtain m buf n where out: "out = (m, buf, n)" by (metis prod_cases3)
  from ensure_output_capacity_ok [OF ok [unfolded out], of "length s"]
  show "result_ok out s (append_string s out)"
  proof (elim disjE exE conjE)
    fix m' buf'
    assume e: "ensure_output_capacity (length s) (m, buf, n) = Wrote (m', buf', n)"
      and o: "n + length s \<le> length buf'" "2 \<le> length buf'" "length buf' < 2 ^ 63" "take n buf' = take n buf" "m = [] \<longrightarrow> m' = []"
    from write_bytes_ok [OF o(1,2), of m'] obtain o2 where
      "write_bytes s (m', buf', n) = Wrote (m', o2, n + length s)" "length o2 = length buf'"
      "take (n + length s) o2 = take n buf' @ s" by blast
    with e o show ?thesis by (simp add: append_string_def result_ok_simps out)
  next
    assume "ensure_output_capacity (length s) (m, buf, n) = Failed" "\<not> (m = [] \<and> n + length s < 2 ^ 61)"
    with ok show ?thesis by (auto simp: append_string_def result_ok_simps out min_def)
  qed
qed

lemma stringify_string_appends:
  assumes "short_string s"
  shows "appends (quoted s) (stringify_string s)"
proof (rule appendsI)
  fix out assume ok: "out_ok out"
  obtain m buf n where out: "out = (m, buf, n)" by (metis prod_cases3)
  let ?e = "escape_string s"
  have req: "mcp_json_escape_string (Some s) None = (int (length ?e) + 1, None)"
    using assms by (simp add: mcp_json_escape_string_NULL size_to_int_small short_string_def)
  have len: "length ?e < 2 ^ 31 - 1" using assms by (simp add: short_string_def)
  have content: "of_int (int (length ?e) + 1) - 1 = (of_nat (length ?e) :: size_t)" by simp
  have "2 + of_nat (length ?e) = (of_nat (length ?e + 2) :: size_t)" by simp
  then have total: "unat (2 + of_nat (length ?e) :: size_t) = length ?e + 2"
    using len by (simp only: unat_of_nat) simp
  have step: "stringify_string s out =
      and_then (and_then (ensure_output_capacity (length ?e + 2) out) (write_bytes [CHR 0x22]))
        (\<lambda>(m, output, output_size).
            case mcp_json_escape_string (Some s) (Some (drop output_size output)) of
              (written_len, Some tail) \<Rightarrow>
                (if written_len < 0 \<or> written_len \<noteq> int (length ?e) + 1 then Failed
                 else write_bytes [CHR 0x22]
                        (m, take output_size output @ tail,
                         unat (of_nat output_size + of_nat (length ?e) :: size_t)))
            | (written_len, None) \<Rightarrow> Failed)"
    unfolding stringify_string_def req Let_def fst_conv content total by simp
  from ensure_output_capacity_ok [OF ok [unfolded out], of "length ?e + 2"]
  show "result_ok out (quoted s) (stringify_string s out)"
  proof (elim disjE exE conjE)
    fix m' buf'
    assume e: "ensure_output_capacity (length ?e + 2) (m, buf, n) = Wrote (m', buf', n)"
      and o: "n + (length ?e + 2) \<le> length buf'" "2 \<le> length buf'" "length buf' < 2 ^ 63"
        "take n buf' = take n buf" "m = [] \<longrightarrow> m' = []"
    have "n + length [CHR 0x22] \<le> length buf'" using o(1) by simp
    from write_bytes_ok [OF this o(2), of m'] obtain b1 where
      b1: "write_bytes [CHR 0x22] (m', buf', n) = Wrote (m', b1, n + 1)" "length b1 = length buf'"
      "take (n + 1) b1 = take n buf @ [CHR 0x22]" by (auto simp: o(4))
    have room: "length ?e < length (drop (n + 1) b1)" using o(1) b1(2) by simp
    define rest where "rest = drop (Suc (length ?e)) (drop (n + 1) b1)"
    have esc: "mcp_json_escape_string (Some s) (Some (drop (n + 1) b1))
        = (int (length ?e) + 1, Some (?e @ NUL # rest))"
      unfolding mcp_json_escape_string_fits [OF room] rest_def using len by (simp add: size_to_int_small)
    have sz: "unat (of_nat (n + 1) + of_nat (length ?e) :: size_t) = n + 1 + length ?e"
    proof -
      have "unat (of_nat (n + 1 + length ?e) :: size_t) = n + 1 + length ?e"
        using o(1,3) by (simp only: unat_of_nat) simp
      then show ?thesis by (simp only: of_nat_add)
    qed
    let ?b2 = "take (n + 1) b1 @ ?e @ NUL # rest"
    have l2: "length ?b2 = length buf'" using b1(2) o(1) by (simp add: rest_def)
    then have "n + 1 + length ?e + length [CHR 0x22] \<le> length ?b2" "2 \<le> length ?b2" using o(1,2) by auto
    from write_bytes_ok [OF this, of m'] obtain b3 where
      b3: "write_bytes [CHR 0x22] (m', ?b2, n + 1 + length ?e) = Wrote (m', b3, n + 1 + length ?e + 1)"
      "length b3 = length buf'" "take (n + 1 + length ?e + 1) b3 = take (n + 1 + length ?e) ?b2 @ [CHR 0x22]"
      using l2 by auto
    have "take (n + 1 + length ?e) ?b2 = take n buf @ [CHR 0x22] @ ?e"
    proof -
      have "length (take (n + 1) b1) = n + 1" using b1(2) o(1) by simp
      then have "take (n + 1 + length ?e) ((take (n + 1) b1 @ ?e) @ NUL # rest) = take (n + 1) b1 @ ?e"
        by (metis append_eq_conv_conj length_append)
      then have A: "take (n + 1 + length ?e) ?b2 = take (n + 1) b1 @ ?e" by (simp only: append_assoc)
      have B: "take (n + 1) b1 @ ?e = (take n buf @ [CHR 0x22]) @ ?e" by (simp only: b1(3))
      show ?thesis by (rule trans [OF A trans [OF B append_assoc]])
    qed
    with b3(3) have whole: "take (n + 1 + length ?e + 1) b3 = take n buf @ quoted s" by (simp add: quoted_def)
    have "stringify_string s out = Wrote (m', b3, n + 1 + length ?e + 1)"
      unfolding step unfolding out e and_then_simps b1(1) by (simp only: prod.case esc sz b3(1) option.case) simp
    with whole b3(2) o ok show ?thesis by (simp add: result_ok_simps out)
  next
    assume "ensure_output_capacity (length ?e + 2) (m, buf, n) = Failed" "\<not> (m = [] \<and> n + (length ?e + 2) < 2 ^ 61)"
    with ok show ?thesis unfolding step unfolding out
      by (auto simp: result_ok_simps quoted_def min_def)
  qed
qed

lemma comma_sep_snoc: "comma_sep (ss @ [s]) = (if ss = [] then s else comma_sep ss @ '','' @ s)"
  by (induction ss rule: comma_sep.induct) auto

text \<open>The text the callback appends for one property, and for the properties seen so far.\<close>

lemma callback_step:
  assumes r: "result_ok out t r" and k: "short_string k" and v: "appends tv f"
  shows "result_ok out (t @ (if first then [] else '','') @ quoted k @ '':'' @ tv)
           (snd (stringify_object_callback f k (first, r)))"
proof -
  have sep: "appends (if first then [] else '','') (if first then Wrote else append_string '','')"
    using appends_Wrote append_string_appends by simp
  from result_ok_then [OF result_ok_then [OF result_ok_then [OF result_ok_then [OF r sep]
      stringify_string_appends [OF k]] append_string_appends [of "'':''"]] v]
  show ?thesis by (simp add: stringify_object_callback_def)
qed

lemma fst_callback: "fst (stringify_object_callback f k ctx) = False"
  by (simp add: stringify_object_callback_def split: prod.splits)

lemma foreach_entries:
  assumes "result_ok out (t @ comma_sep ss) r"
    and "\<And>k v. (k, v) \<in> set es \<Longrightarrow> short_string k \<and> appends (render fmt v) (sv v)"
    and "first = (ss = [])"
  shows "result_ok out (t @ comma_sep (ss @ map (\<lambda>(k, v). quoted k @ '':'' @ render fmt v) es))
           (snd (foldl (\<lambda>ctx e. stringify_object_callback (sv (snd e)) (fst e) ctx) (first, r) es))"
  using assms
proof (induction es arbitrary: ss r first)
  case Nil
  then show ?case by simp
next
  case (Cons e es)
  obtain k v where e: "e = (k, v)" by fastforce
  let ?txt = "quoted k @ '':'' @ render fmt v"
  let ?ctx = "stringify_object_callback (sv v) k (first, r)"
  have kv: "short_string k" "appends (render fmt v) (sv v)" using Cons.prems(2) [of k v] e by auto
  have step: "result_ok out (t @ comma_sep (ss @ [?txt])) (snd ?ctx)"
    using callback_step [OF Cons.prems(1) kv, of first] Cons.prems(3)
    by (simp add: comma_sep_snoc split: if_splits)
  have ctx: "?ctx = (False, snd ?ctx)" by (metis fst_callback prod.collapse)
  have "result_ok out (t @ comma_sep ((ss @ [?txt]) @ map (\<lambda>(k, v). quoted k @ '':'' @ render fmt v) es))
     (snd (foldl (\<lambda>ctx e. stringify_object_callback (sv (snd e)) (fst e) ctx) (False, snd ?ctx) es))"
    by (rule Cons.IH [OF step]) (use Cons.prems(2) in auto)
  then show ?case unfolding foldl_Cons e snd_conv fst_conv ctx [symmetric] by simp
qed

lemma stringify_object_appends:
  assumes "\<And>k v. (k, v) \<in> set (concat (ht_buckets t)) \<Longrightarrow> short_string k \<and> appends (render fmt v) (stringify_value fmt v)"
  shows "appends (render fmt (JObject t)) (stringify_value fmt (JObject t))"
proof (rule appendsI)
  fix out assume ok: "out_ok out"
  have "result_ok out (''{'' @ comma_sep []) (append_string ''{'' out)"
    using appendsD [OF append_string_appends ok, of "''{''"] by simp
  from foreach_entries [OF this assms, of "concat (ht_buckets t)" True]
  have "result_ok out (''{'' @ comma_sep (map (\<lambda>(k, v). quoted k @ '':'' @ render fmt v) (concat (ht_buckets t))))
     (snd (mcp_hashtable_foreach (\<lambda>name v. stringify_object_callback (stringify_value fmt v) name) t
        (True, append_string ''{'' out)))"
    by (simp add: foreach_foldl)
  from result_ok_then [OF this append_string_appends [of "''}''"]]
  show "result_ok out (render fmt (JObject t)) (stringify_value fmt (JObject t) out)"
    unfolding render_JObject stringify_value.simps append_assoc .
qed

lemma stringify_items_appends:
  assumes "\<And>x. x \<in> set xs \<Longrightarrow> appends (render fmt x) (stringify_value fmt x)"
  shows "appends (concat (map (\<lambda>x. '','' @ render fmt x) xs)) (stringify_items fmt (Suc i) xs)"
  using assms
proof (induction xs arbitrary: i)
  case Nil
  have "stringify_items fmt (Suc i) [] = Wrote" by (rule ext) simp
  then show ?case using appends_Wrote by simp
next
  case (Cons x xs)
  have IH: "appends (concat (map (\<lambda>x. '','' @ render fmt x) xs)) (stringify_items fmt (Suc (Suc i)) xs)"
    by (rule Cons.IH) (use Cons.prems in simp)
  have x: "appends (render fmt x) (stringify_value fmt x)" by (rule Cons.prems) simp
  from appends_then [OF appends_then [OF append_string_appends [of "'',''"] x] IH]
  show ?case by (simp add: appends_def)
qed

lemma comma_sep_concat: "comma_sep (s # ss) = s @ concat (map (\<lambda>s. '','' @ s) ss)"
  by (induction ss arbitrary: s) auto

lemma stringify_array_appends:
  assumes "\<And>x. x \<in> set items \<Longrightarrow> appends (render fmt x) (stringify_value fmt x)"
  shows "appends (render fmt (JArray items cap)) (stringify_value fmt (JArray items cap))"
proof -
  have items: "appends (comma_sep (map (render fmt) items)) (stringify_items fmt 0 items)"
  proof (cases items)
    case Nil
    have "stringify_items fmt 0 [] = Wrote" by (rule ext) simp
    then show ?thesis using appends_Wrote Nil by simp
  next
    case (Cons x xs)
    have x: "appends (render fmt x) (stringify_value fmt x)" by (rule assms) (simp add: Cons)
    from appends_then [OF x stringify_items_appends [of xs fmt 0]] assms
    show ?thesis unfolding Cons list.map comma_sep_concat
      by (simp add: Cons appends_def comp_def)
  qed
  from appends_then [OF appends_then [OF append_string_appends [of "''[''"] items] append_string_appends [of "'']''"]]
  show ?thesis by (simp add: appends_def)
qed

lemma stringify_value_appends: "printable fmt j \<Longrightarrow> appends (render fmt j) (stringify_value fmt j)"
proof (induction "size j" arbitrary: j rule: less_induct)
  case less
  show ?case
  proof (cases j)
    case (JArray items cap)
    have "appends (render fmt x) (stringify_value fmt x)" if "x \<in> set items" for x
    proof (rule less.hyps)
      show "size x < size j" using size_list_estimation' [OF that, of "size x" size] JArray by simp
      show "printable fmt x" using that less.prems JArray by (auto simp: list_all_iff)
    qed
    then show ?thesis unfolding JArray by (rule stringify_array_appends)
  next
    case (JObject t)
    have "short_string k \<and> appends (render fmt v) (stringify_value fmt v)"
      if "(k, v) \<in> set (concat (ht_buckets t))" for k v
      using that less.hyps [of v] size_in_table [OF that] less.prems
      unfolding JObject printable_JObject by auto
    then show ?thesis unfolding JObject by (rule stringify_object_appends)
  qed (use less.prems append_string_appends stringify_string_appends in \<open>simp_all add: appends_def\<close>)
qed

lemma stringify_with_capacity_ok:
  assumes "appends text f"
    and "f = (case json of None \<Rightarrow> append_string ''null'' | Some j \<Rightarrow> stringify_value fmt j)"
  shows "(\<exists>rest. stringify_with_capacity fmt m json n = Wrote (text @ NUL # rest)) \<or>
         stringify_with_capacity fmt m json n = Failed \<and>
         \<not> (m = [] \<and> n < 2 ^ 63 \<and> length text + 1 < 2 ^ 60)"
proof -
  define cap where "cap = (if n < 256 then 256 else n)"
  obtain ok m1 where r: "realloc_bytes m cap = (ok, m1)" by fastforce
  define out0 :: outbuf where "out0 = (m1, replicate cap NUL, 0)"
  define fin :: "outbuf \<Rightarrow> char list written" where
    "fin = (\<lambda>(m2, output, size1).
              let (ok, m3) = (if size1 - 1 + 1024 < length output then realloc_bytes m2 size1 else (False, m2))
              in Wrote (if ok then take size1 output else output))"
  have swc: "stringify_with_capacity fmt m json n =
      (if ok then and_then (and_then (and_then (f out0) (ensure_output_capacity 1)) (write_bytes [NUL])) fin else Failed)"
    using r assms(2) by (simp add: stringify_with_capacity_def cap_def out0_def fin_def split: option.splits)
  show ?thesis
  proof (cases ok)
    case False
    then show ?thesis using r swc by (auto simp: realloc_bytes_def cap_def split: if_splits)
  next
    case True
    have cap: "cap < 2 ^ 63" "256 \<le> cap" "m = [] \<longrightarrow> m1 = []"
      using r True by (auto simp: realloc_bytes_def cap_def split: if_splits)
    have ok0: "out_ok out0" "out_text out0 = []" "fst out0 = m1" using cap by (simp_all add: out0_def)
    have res: "result_ok out0 (text @ [NUL])
        (and_then (and_then (f out0) (ensure_output_capacity 1)) (write_bytes [NUL]))"
    proof -
      have a: "appends [NUL] (\<lambda>out. and_then (ensure_output_capacity 1 out) (write_bytes [NUL]))"
        using append_string_appends [of "[NUL]"] by (simp add: appends_def append_string_def)
      have "and_then (and_then r f) g = and_then r (\<lambda>x. and_then (f x) g)" for r :: "outbuf written" and f g :: "outbuf \<Rightarrow> outbuf written"
        by (cases r) (simp_all add: and_then_def)
      with result_ok_then [OF appendsD [OF assms(1) ok0(1)] a] show ?thesis by simp
    qed
    show ?thesis
    proof (cases "and_then (and_then (f out0) (ensure_output_capacity 1)) (write_bytes [NUL])")
      case (Wrote out2)
      obtain m2 buf k where out2: "out2 = (m2, buf, k)" by (metis prod_cases3)
      have t: "take k buf = text @ [NUL]" "k \<le> length buf"
        using res ok0(2) unfolding Wrote result_ok_simps out2 by auto
      then have "buf = text @ NUL # drop k buf" by (metis append_take_drop_id append.assoc append_Cons append_Nil)
      then have "\<exists>rest. fin out2 = Wrote (text @ NUL # rest)"
        using t(1) by (auto simp: fin_def out2 split: prod.splits)
      then show ?thesis using swc True Wrote by simp
    next
      case Failed
      then show ?thesis using swc True res ok0 cap unfolding Failed result_ok_simps by auto
    qed (use res in \<open>simp_all add: result_ok_simps\<close>)
  qed
qed

section \<open>Properties\<close>

text \<open>Claim C35.  \<open>stringify_with_capacity\<close>, from any initial capacity and whatever allocations fail,
  never writes outside its buffer and always returns: either the NUL-terminated text of the value
  as \<open>render\<close> specifies it, or NULL; and not NULL when memory does not run out.\<close>

theorem json_stringify_renders:
  assumes "printable fmt j"
  shows "(\<exists>rest. stringify_with_capacity fmt m (Some j) n = Wrote (render fmt j @ NUL # rest)) \<or>
         stringify_with_capacity fmt m (Some j) n = Failed \<and>
         \<not> (m = [] \<and> n < 2 ^ 63 \<and> length (render fmt j) + 1 < 2 ^ 60)"
  by (rule stringify_with_capacity_ok [OF stringify_value_appends [OF assms]]) simp

theorem json_stringify_renders_witness:
  "\<exists>rest. stringify_with_capacity (\<lambda>d :: nat. ''7'') [] (Some (JArray [JNumber 7, JString ''a''] 8)) 0
     = Wrote (''[7,'' @ [CHR 0x22, CHR ''a'', CHR 0x22] @ '']'' @ NUL # rest)"
proof -
  let ?j = "JArray [JNumber 7, JString ''a''] 8 :: nat json"
  have r: "render (\<lambda>d. ''7'') ?j = ''[7,'' @ [CHR 0x22, CHR ''a'', CHR 0x22] @ '']''"
    by (simp add: quoted_def escape_string_def escape_char_def)
  have "printable (\<lambda>d. ''7'') ?j"
    by (simp add: short_string_def escape_string_def escape_char_def)
  from json_stringify_renders [OF this, of "[]" 0] show ?thesis unfolding r by auto
qed

end
