(* ===== verification/Mcp_Json_Roundtrip.thy ===== *)
theory Mcp_Json_Roundtrip
  imports Mcp_Json_Stringify
begin

text \<open>
  The round trip of the JSON component: what the stringifier prints, the parser reads back.
  \<open>jabs\<close> is the abstract value: objects are maps from names to values, and capacities, bucket
  arrays and the order of the properties are gone.
\<close>

section \<open>Abstract values\<close>

datatype 'd jval = VNull | VBool bool | VNumber 'd | VString string | VArray "'d jval list"
  | VObject "string \<Rightarrow> 'd jval option"

primrec jabs :: "'d json \<Rightarrow> 'd jval" where
  "jabs JNull = VNull"
| "jabs (JBool b) = VBool b"
| "jabs (JNumber d) = VNumber d"
| "jabs (JString s) = VString s"
| "jabs (JArray items cap) = VArray (map jabs items)"
| "jabs (JObject t) = VObject (ht_map json_ops (map_mcp_hashtable id jabs t))"

lemma map_of_map_snd: "map_of (map (map_prod id f) es) x = map_option f (map_of es x)"
  by (induction es) auto

lemma jabs_JObject:
  assumes "ht_inv json_ops t"
  shows "jabs (JObject t) = VObject (\<lambda>x. map_option jabs (ht_map json_ops t x))"
proof -
  show ?thesis
    using ht_inv_index_lt [OF assms] by (cases t) (simp add: fun_eq_iff ht_map_def map_of_map_snd)
qed

section \<open>Insertion succeeds when memory does not run out\<close>

definition roomy :: "(string, 'd json) mcp_hashtable \<Rightarrow> nat \<Rightarrow> bool" where
  "roomy t n \<longleftrightarrow> ht_inv json_ops t \<and> ht_threshold t = 3 / 4 \<and>
     card (dom (ht_map json_ops t)) \<le> n \<and> unat (ht_capacity t) \<le> max 32 (6 * n)"

lemma resize_succeeds:
  assumes "j < 60" "ht_capacity t < 2 ^ j"
  shows "\<exists>t1. hashtable_resize json_ops [] t (2 ^ j) = (0, t1, []) \<and> ht_capacity t1 = 2 ^ j"
proof -
  have "unat (2 ^ j * 8 :: size_t) = 2 ^ (j + 3)"
    using assms(1) unat_exp_64 [of "j + 3"] by (simp add: power_add)
  moreover have "(2::nat) ^ (j + 3) < 2 ^ 63" using assms(1) by (intro power_strict_increasing) auto
  ultimately show ?thesis using assms(2)
    by (auto simp: hashtable_resize_def alloc_buckets_def Let_def)
qed

lemma put_after_resize:
  assumes "(if load_exceeds (ht_size t + 1) (ht_capacity t) (ht_threshold t)
            then hashtable_resize json_ops [] t (ht_capacity t * 2) else (0, t, [])) = (0, t1, [])"
  shows "\<exists>t' ev. mcp_hashtable_put json_ops [] t k v = (0, t', ev, []) \<and> ht_capacity t' = ht_capacity t1"
  unfolding mcp_hashtable_put_def assms Let_def
  by (simp add: string_ops_def dup_by_alloc_def split: option.splits)

lemma ratio_less:
  assumes "(3 / 4 :: rat) < of_nat a / of_nat c" "0 < c"
  shows "3 * c < 4 * a"
proof -
  have "(of_nat (3 * c) :: rat) < of_nat (4 * a)" using assms by (simp add: field_simps)
  then show ?thesis by (simp only: of_nat_less_iff)
qed

text \<open>When the load factor asks for a larger array, the present one is small for the entries it has.\<close>

lemma load_exceeds_capacity:
  assumes "load_exceeds (of_nat n + 1) cap (3 / 4)" "n < 2 ^ 56"
  shows "3 * unat cap < 8 * Suc n \<or> cap = 0"
proof (cases "cap = 0")
  case False
  have n: "unat (of_nat n + 1 :: size_t) = Suc n"
  proof -
    have "unat (of_nat (Suc n) :: size_t) = Suc n" using assms(2) by (simp only: unat_of_nat) simp
    then show ?thesis by (simp add: add.commute)
  qed
  have pos: "0 < unat cap" using False by (simp add: unat_gt_0)
  have "(3 / 4 :: rat) < of_nat (f32_of_nat (Suc n)) / of_nat (unat cap)"
    using assms(1) False by (simp add: load_exceeds_def n)
  from ratio_less [OF this pos] f32_of_nat_le [of "Suc n"] show ?thesis by linarith
qed simp

lemma put_succeeds:
  assumes "roomy t n" "n < 2 ^ 56"
  shows "\<exists>t' ev. mcp_hashtable_put json_ops [] t k v = (0, t', ev, []) \<and> roomy t' (Suc n) \<and>
           ht_map json_ops t' = (ht_map json_ops t)(k \<mapsto> v)"
proof -
  have inv: "ht_inv json_ops t" and thr: "ht_threshold t = 3 / 4"
    and n: "card (dom (ht_map json_ops t)) \<le> n" and cap: "unat (ht_capacity t) \<le> max 32 (6 * n)"
    using assms(1) by (auto simp: roomy_def)
  let ?c = "card (dom (ht_map json_ops t))"
  obtain j where j: "j < 60" "ht_capacity t = 2 ^ j" using inv by (auto simp: ht_inv_def)
  have uj: "unat (ht_capacity t) = 2 ^ j" using j by (simp add: unat_exp_64)
  let ?rz = "if load_exceeds (ht_size t + 1) (ht_capacity t) (ht_threshold t)
            then hashtable_resize json_ops [] t (ht_capacity t * 2) else (0, t, [])"
  have "\<exists>t1. ?rz = (0, t1, []) \<and> unat (ht_capacity t1) \<le> max 32 (6 * Suc n)"
  proof (cases "load_exceeds (ht_size t + 1) (ht_capacity t) (ht_threshold t)")
    case False
    then show ?thesis using cap by auto
  next
    case True
    have "3 * 2 ^ j < 8 * Suc ?c"
      using load_exceeds_capacity [of ?c "ht_capacity t"] True n assms(2) uj
      unfolding thr ht_size_card [OF inv] by force
    also have "\<dots> \<le> 8 * Suc n" using n by simp
    finally have small: "3 * 2 ^ j < 8 * Suc n" .
    then have "(2::nat) ^ j < 2 ^ 59" using assms(2) by simp
    then have j59: "j < 59" by (rule power_less_imp_less_exp [rotated]) simp
    have "ht_capacity t < 2 ^ Suc j"
      using j59 by (simp add: j(2) word_less_nat_alt unat_exp_64 del: power_Suc) 
    then obtain t1 where "hashtable_resize json_ops [] t (2 ^ Suc j) = (0, t1, [])" "ht_capacity t1 = 2 ^ Suc j"
      using resize_succeeds [of "Suc j" t] j59 by auto
    then show ?thesis using True j small j59 unat_exp_64 [of "Suc j"] by (auto simp: mult.commute)
  qed
  then obtain t1 where t1: "?rz = (0, t1, [])" "unat (ht_capacity t1) \<le> max 32 (6 * Suc n)" by blast
  obtain t' ev where put: "mcp_hashtable_put json_ops [] t k v = (0, t', ev, [])" "ht_capacity t' = ht_capacity t1"
    using put_after_resize [OF t1(1)] by blast
  have post: "ht_inv json_ops t'" "ht_map json_ops t' = (ht_map json_ops t)(k \<mapsto> v)"
    using string_key.put_spec [OF inv put(1)] by (auto simp: put_post_def)
  have "card (dom (ht_map json_ops t')) \<le> Suc n"
    using card_insert_le_m1 n post(2) by (simp add: card_insert_if dom_ht_map [OF inv])
  with put t1 post thr put_threshold [OF put(1)] show ?thesis by (auto simp: roomy_def)
qed

section \<open>Numbers\<close>

definition follow :: "string \<Rightarrow> bool" where
  "follow rest \<longleftrightarrow> rest = [] \<or> peek rest \<in> {CHR '','', CHR '']'', CHR ''}''}"

text \<open>
  What is used of the C library: the text \<open>%.17g\<close> gives for the number has the syntax of a JSON
  number (it has for every finite number), and \<open>strtod\<close> reads the number back from it (17
  significant digits determine a \<open>double\<close>) and stops behind it.
\<close>

definition number_roundtrip :: "'d strtod \<Rightarrow> ('d \<Rightarrow> string) \<Rightarrow> 'd \<Rightarrow> bool" where
  "number_roundtrip strtod fmt d \<longleftrightarrow>
     c_str_ok (fmt d) \<and> scan_number (fmt d) = Some [] \<and>
     (\<forall>rest. follow rest \<longrightarrow> strtod (fmt d @ rest) = (d, rest))"

lemma follow_stop:
  assumes "follow rest"
  shows "\<not> is_digit (peek rest) \<and> peek rest \<notin> {CHR ''.'', CHR ''e'', CHR ''E'', CHR ''+'', CHR ''-'', CHR 0x22}
    \<and> \<not> is_space (peek rest)"
  using assms by (auto simp: follow_def is_digit_def is_space_def)

lemma peek_append: "peek (s @ rest) = (if s = [] then peek rest else peek s)"
  by (cases s) auto

lemma dropWhile_digits_append:
  assumes "\<not> is_digit (peek rest)"
  shows "dropWhile is_digit (s @ rest) = dropWhile is_digit s @ rest"
proof (cases "dropWhile is_digit s = []")
  case True
  have "dropWhile is_digit rest = rest" using assms by (cases rest) auto
  with True show ?thesis by (simp add: dropWhile_append dropWhile_eq_Nil_conv)
next
  case False
  then show ?thesis by (auto simp: dropWhile_append dropWhile_eq_Nil_conv)
qed

lemma skip_digits_append:
  assumes "skip_digits s = Some r" "follow rest"
  shows "skip_digits (s @ rest) = Some (r @ rest)"
proof -
  have "s \<noteq> []" "is_digit (peek s)" "r = dropWhile is_digit s"
    using assms(1) by (auto simp: skip_digits_def is_digit_def split: if_splits)
  then show ?thesis
    using dropWhile_digits_append [of rest s] follow_stop [OF assms(2)]
    by (simp add: skip_digits_def peek_append)
qed

lemma scan_number_append:
  assumes "scan_number s = Some r" "follow rest"
  shows "scan_number (s @ rest) = Some (r @ rest)"
proof -
  have tl: "tl (x @ rest) = tl x @ rest" if "peek x = c" "c \<noteq> NUL" for x c using that by (cases x) auto
  have hd: "peek (x @ rest) = c \<longleftrightarrow> peek x = c"
    if "c \<in> {CHR ''.'', CHR ''e'', CHR ''E'', CHR ''+'', CHR ''-''}" for x c
    using that follow_stop [OF assms(2)] by (cases x) auto
  obtain s1 s2 where
    1: "skip_digits (if peek s = CHR ''-'' then tl s else s) = Some s1" and
    2: "scan_fraction s1 = Some s2" and 3: "scan_exponent s2 = Some r"
    using assms(1) by (auto simp: scan_number_def split: option.splits)
  have "skip_digits (if peek (s @ rest) = CHR ''-'' then tl (s @ rest) else s @ rest) = Some (s1 @ rest)"
    using skip_digits_append [OF 1 assms(2)] by (auto simp: hd tl split: if_splits)
  moreover have "scan_fraction (s1 @ rest) = Some (s2 @ rest)"
    using 2 skip_digits_append [OF _ assms(2)] by (auto simp: scan_fraction_def hd tl split: if_splits)
  moreover have "scan_exponent (s2 @ rest) = Some (r @ rest)"
    using 3 skip_digits_append [OF _ assms(2)]
    by (auto simp: scan_exponent_def Let_def hd tl split: if_splits)
  ultimately show ?thesis by (simp add: scan_number_def)
qed

lemma scan_number_head: "scan_number s = Some r \<Longrightarrow> peek s = CHR ''-'' \<or> is_digit (peek s)"
  by (auto simp: scan_number_def skip_digits_def split: if_splits)

section \<open>Reading back a printed value\<close>

lemma skip_whitespace_id: "\<not> is_space (peek s) \<Longrightarrow> skip_whitespace s = s"
  by (cases s) (auto simp: skip_whitespace_def)

lemma skip_whitespace_skip [simp]: "skip_whitespace (skip_whitespace s) = skip_whitespace s"
  by (simp add: skip_whitespace_def)

lemma parse_value_skip [simp]: "parse_value strtod m (skip_whitespace s) d = parse_value strtod m s d"
  by (simp add: parse_value.simps [of strtod m "skip_whitespace s"] parse_value.simps [of strtod m s])

lemma render_head:
  assumes "\<forall>d \<in> set_json j. number_roundtrip strtod fmt d"
  shows "\<not> is_space (peek (render fmt j)) \<and> peek (render fmt j) \<noteq> CHR '']'' \<and> render fmt j \<noteq> []"
proof (cases j)
  case (JNumber d)
  then have "peek (fmt d) = CHR ''-'' \<or> is_digit (peek (fmt d))"
    using assms scan_number_head by (auto simp: number_roundtrip_def)
  then show ?thesis using JNumber by (cases "fmt d") (auto simp: is_space_def is_digit_def)
qed (auto simp: is_space_def quoted_def)

text \<open>
  \<open>reads_as strtod d txt v\<close>: the text is read at depth \<open>d\<close> as a value equal to \<open>v\<close>, whatever may
  follow it; \<open>reads strtod fmt d j\<close>: the printed value is read back.
\<close>

definition reads_as :: "'d strtod \<Rightarrow> nat \<Rightarrow> string \<Rightarrow> 'd jval \<Rightarrow> bool" where
  "reads_as strtod d txt v \<longleftrightarrow>
     (\<forall>rest. follow rest \<longrightarrow> (\<exists>j'. parse_value strtod [] (txt @ rest) d = Ok (j', rest, []) \<and> jabs j' = v))"

definition reads :: "'d strtod \<Rightarrow> ('d \<Rightarrow> string) \<Rightarrow> nat \<Rightarrow> 'd json \<Rightarrow> bool" where
  "reads strtod fmt d j \<longleftrightarrow> reads_as strtod d (render fmt j) (jabs j)"

lemma array_add_no_failure:
  assumes "cap \<le> max 8 (2 * length acc)" "length acc < 2 ^ 58" "length acc \<le> cap"
  shows "\<exists>cap'. mcp_json_array_add_item [] (Some (JArray acc cap)) (Some v) = (0, Some (JArray (acc @ [v]) cap'), []) \<and>
           cap' \<le> max 8 (2 * Suc (length acc)) \<and> Suc (length acc) \<le> cap'"
  using assms by (auto simp: mcp_json_array_add_item_def malloc_items_def Let_def Suc_le_eq)

lemma skip_comma [simp]:
  "skip_whitespace (CHR '','' # s) = CHR '','' # s" "skip_whitespace (CHR '']'' # s) = CHR '']'' # s"
  "skip_whitespace (CHR ''}'' # s) = CHR ''}'' # s" "skip_whitespace (CHR '':'' # s) = CHR '':'' # s"
  "skip_whitespace (CHR 0x22 # s) = CHR 0x22 # s"
  by (simp_all add: skip_whitespace_def is_space_def)

lemma parse_elements_reads:
  assumes "xs \<noteq> []" "\<forall>x \<in> set xs. reads strtod fmt (Suc d) x"
    and "cap \<le> max 8 (2 * length acc)" "length acc \<le> cap" "length acc + length xs < 2 ^ 58"
  shows "\<exists>xs' cap'. parse_elements strtod [] (JArray acc cap) (comma_sep (map (render fmt) xs) @ CHR '']'' # rest) d
           = Ok (JArray (acc @ xs') cap', rest, []) \<and> map jabs xs' = map jabs xs"
  using assms
proof (induction xs arbitrary: acc cap)
  case Nil
  then show ?case by simp
next
  case (Cons x xs)
  let ?tail = "(if xs = [] then CHR '']'' # rest else CHR '','' # comma_sep (map (render fmt) xs) @ CHR '']'' # rest)"
  have input: "comma_sep (map (render fmt) (x # xs)) @ CHR '']'' # rest = render fmt x @ ?tail"
    by (cases xs) auto
  have "follow ?tail" by (simp add: follow_def)
  then obtain x' where x': "parse_value strtod [] (render fmt x @ ?tail) (Suc d) = Ok (x', ?tail, [])" "jabs x' = jabs x"
    using Cons.prems(2) unfolding reads_def reads_as_def by (metis list.set_intros(1))
  obtain cap' where add: "mcp_json_array_add_item [] (Some (JArray acc cap)) (Some x') = (0, Some (JArray (acc @ [x']) cap'), [])"
    and cap': "cap' \<le> max 8 (2 * Suc (length acc))" "Suc (length acc) \<le> cap'"
    using array_add_no_failure [OF Cons.prems(3) _ Cons.prems(4)] Cons.prems(5) by auto
  have step: "parse_elements strtod [] (JArray acc cap) (render fmt x @ ?tail) d =
      (if xs = [] then Ok (JArray (acc @ [x']) cap', rest, [])
       else parse_elements strtod [] (JArray (acc @ [x']) cap') (comma_sep (map (render fmt) xs) @ CHR '']'' # rest) d)"
    by (simp add: parse_elements.simps [of strtod "[]" "JArray acc cap"] x'(1) [simplified] add)
  show ?case
  proof (cases "xs = []")
    case True
    then show ?thesis using step x'(2) unfolding input by (intro exI [of _ "[x']"]) auto
  next
    case False
    obtain ys cap2 where ys: "parse_elements strtod [] (JArray (acc @ [x']) cap') (comma_sep (map (render fmt) xs) @ CHR '']'' # rest) d
        = Ok (JArray ((acc @ [x']) @ ys) cap2, rest, [])" "map jabs ys = map jabs xs"
      using Cons.IH [of cap' "acc @ [x']"] False Cons.prems cap' by auto
    then show ?thesis using step x'(2) False unfolding input by (intro exI [of _ "x' # ys"]) auto
  qed
qed

text \<open>The members of an object as text: the name, the text of the value, the value it stands for.\<close>

definition member :: "string \<times> string \<times> 'v \<Rightarrow> string" where
  "member e = quoted (fst e) @ '':'' @ fst (snd e)"

definition member_reads :: "'d strtod \<Rightarrow> nat \<Rightarrow> string \<times> string \<times> 'd jval \<Rightarrow> bool" where
  "member_reads strtod d e \<longleftrightarrow> c_str_ok (fst e) \<and> length (fst e) < 2 ^ 60 \<and> reads_as strtod d (fst (snd e)) (snd (snd e))"

lemma parse_name:
  assumes "c_str_ok k" "length k < 2 ^ 60"
  shows "parse_string [] (skip_whitespace (quoted k @ rest)) = Ok (k, rest, [])"
  using parse_string_escaped [OF assms] by (simp add: quoted_def)

lemma parse_members_reads:
  assumes "es \<noteq> []" "\<forall>e \<in> set es. member_reads strtod (Suc d) e"
    and "distinct (map fst es)" "roomy t n" "n + length es < 2 ^ 56"
  shows "\<exists>t'. parse_members strtod [] t (comma_sep (map member es) @ CHR ''}'' # rest) d
           = Ok (JObject t', rest, []) \<and> ht_inv json_ops t' \<and>
           (\<forall>x. map_option jabs (ht_map json_ops t' x) =
                 (case map_of es x of None \<Rightarrow> map_option jabs (ht_map json_ops t x) | Some (_, v) \<Rightarrow> Some v))"
  using assms
proof (induction es arbitrary: t n)
  case Nil
  then show ?case by simp
next
  case (Cons e es)
  obtain k tv v where e: "e = (k, tv, v)" by (metis prod_cases3)
  have k: "c_str_ok k" "length k < 2 ^ 60" and v: "reads_as strtod (Suc d) tv v"
    using Cons.prems(2) e by (auto simp: member_reads_def)
  let ?tail = "(if es = [] then CHR ''}'' # rest else CHR '','' # comma_sep (map member es) @ CHR ''}'' # rest)"
  have input: "comma_sep (map member (e # es)) @ CHR ''}'' # rest
      = quoted k @ CHR '':'' # tv @ ?tail"
    by (cases es) (auto simp: member_def e)
  have "follow ?tail" by (simp add: follow_def)
  then obtain v' where v': "parse_value strtod [] (tv @ ?tail) (Suc d) = Ok (v', ?tail, [])" "jabs v' = v"
    using v unfolding reads_as_def by blast
  have "n < 2 ^ 56" using Cons.prems(5) by simp
  from put_succeeds [OF Cons.prems(4) this, of k v'] obtain t1 ev where
    put: "mcp_hashtable_put json_ops [] t k v' = (0, t1, ev, [])" and t1: "roomy t1 (Suc n)"
      "ht_map json_ops t1 = (ht_map json_ops t)(k \<mapsto> v')" by blast
  have step: "parse_members strtod [] t (quoted k @ CHR '':'' # tv @ ?tail) d =
      (if es = [] then Ok (JObject t1, rest, [])
       else parse_members strtod [] t1 (comma_sep (map member es) @ CHR ''}'' # rest) d)"
    by (simp add: parse_members.simps [of strtod "[]" t] parse_name [OF k] v'(1) [simplified] put k(1))
  show ?case
  proof (cases "es = []")
    case True
    then show ?thesis using step t1 v'(2) unfolding input
      by (intro exI [of _ t1]) (auto simp: roomy_def e)
  next
    case False
    have fresh: "map_of es k = None" using Cons.prems(3) by (simp add: e map_of_eq_None_iff)
    have "\<exists>t'. parse_members strtod [] t1 (comma_sep (map member es) @ CHR ''}'' # rest) d
           = Ok (JObject t', rest, []) \<and> ht_inv json_ops t' \<and>
           (\<forall>x. map_option jabs (ht_map json_ops t' x) =
                 (case map_of es x of None \<Rightarrow> map_option jabs (ht_map json_ops t1 x) | Some (_, v) \<Rightarrow> Some v))"
      by (rule Cons.IH [OF False _ _ t1(1)]) (use Cons.prems in auto)
    then obtain t' where t': "parse_members strtod [] t1 (comma_sep (map member es) @ CHR ''}'' # rest) d
           = Ok (JObject t', rest, [])" "ht_inv json_ops t'"
      and m: "map_option jabs (ht_map json_ops t' x) =
                 (case map_of es x of None \<Rightarrow> map_option jabs (ht_map json_ops t1 x) | Some (_, v) \<Rightarrow> Some v)" for x
      by blast
    have "map_option jabs (ht_map json_ops t' x) =
            (case map_of (e # es) x of None \<Rightarrow> map_option jabs (ht_map json_ops t x) | Some (_, v) \<Rightarrow> Some v)" for x
      using m [of x, unfolded t1(2)] fresh v'(2) by (cases "map_of es x") (auto simp: e)
    then show ?thesis using step False t' unfolding input by (intro exI [of _ t']) simp
  qed
qed

lemma length_escape: "length s \<le> length (escape_string s)"
proof (induction s)
  case (Cons c s)
  have "1 \<le> length (escape_char c)" by (simp add: escape_char_def)
  with Cons show ?case by (simp add: escape_string_def)
qed (simp add: escape_string_def)

lemma comma_sep_length:
  "(\<forall>s \<in> set ss. s \<noteq> []) \<Longrightarrow> length ss \<le> length (comma_sep ss) \<and> (\<forall>s \<in> set ss. length s \<le> length (comma_sep ss))"
proof (induction ss rule: comma_sep.induct)
  case (2 s)
  then show ?case by (cases s) auto
qed auto

lemma in_table_set: "(k, v) \<in> set (concat (ht_buckets t)) \<Longrightarrow> set_json v \<subseteq> set_json (JObject t)"
  by (cases t) force

lemma table_values: "(k, v) \<in> set (concat (ht_buckets t)) \<Longrightarrow> v \<in> set (ht_values t)"
  by (force simp: ht_values_def)

lemma object_create_no_failure:
  "\<exists>t0. mcp_json_object_create [] = (Some (JObject t0), []) \<and> ht_map json_ops t0 = Map.empty \<and>
        ht_capacity t0 = 32 \<and> json_ok (JObject t0)"
proof -
  have "\<exists>j. mcp_json_object_create [] = (Some j, [])"
    by (simp add: mcp_json_object_create_def mcp_json_object_create_with_capacity_def mcp_json_alloc_node_def
        MCP_JSON_HASH_TABLE_INITIAL_CAPACITY_def mcp_hashtable_create_def alloc_buckets_def is_power_of_two_def)
  then show ?thesis using object_create_ok by fastforce
qed

lemma scalar_reads:
  assumes "\<forall>d \<in> set_json j. number_roundtrip strtod fmt d" "json_ok j" "length (render fmt j) < 2 ^ 56"
    "\<nexists>items cap. j = JArray items cap" "\<nexists>t. j = JObject t"
  shows "reads strtod fmt d j"
proof (cases j)
  case (JNumber x)
  show ?thesis unfolding reads_def reads_as_def JNumber
  proof (intro allI impI)
    fix rest assume f: "follow rest"
    have n: "scan_number (fmt x) = Some []" "strtod (fmt x @ rest) = (x, rest)"
      using assms(1) f JNumber by (auto simp: number_roundtrip_def)
    have h: "peek (fmt x @ rest) = CHR ''-'' \<or> is_digit (peek (fmt x @ rest))" "fmt x \<noteq> []"
      using scan_number_head [OF n(1)] render_head [OF assms(1)] by (auto simp: peek_append JNumber)
    have sp: "skip_whitespace (fmt x @ rest) = fmt x @ rest"
      by (rule skip_whitespace_id) (use h in \<open>auto simp: is_space_def is_digit_def\<close>)
    have "parse_number strtod [] (fmt x @ rest) = Ok (JNumber x, rest, [])"
      using scan_number_append [OF n(1) f] n(2)
      by (simp add: parse_number_def mcp_json_number_create_def mcp_json_alloc_node_def)
    moreover have "peek (fmt x @ rest) \<notin> {CHR ''{'', CHR ''['', CHR 0x22, CHR ''n'', CHR ''t'', CHR ''f''}"
      using h(1) by (elim disjE) (auto simp: is_digit_def)
    ultimately show "\<exists>j'. parse_value strtod [] (render fmt (JNumber x) @ rest) d = Ok (j', rest, []) \<and> jabs j' = jabs (JNumber x)"
      using h(1) by (simp add: parse_value.simps [of strtod "[]" "fmt x @ rest"] sp Let_def)
  qed
next
  case (JString s)
  have "length s < 2 ^ 60" using assms(3) length_escape [of s] by (simp add: JString quoted_def)
  then have "parse_string [] (CHR 0x22 # escape_string s @ CHR 0x22 # rest) = Ok (s, rest, [])" for rest
    using assms(2) JString by (intro parse_string_escaped) auto
  then show ?thesis using assms(2) JString
    by (simp add: reads_def reads_as_def quoted_def parse_value.simps parse_string_value_def created_def
        mcp_json_string_create_def mcp_json_alloc_node_def)
qed (use assms(4,5) in \<open>auto simp: reads_def reads_as_def parse_value.simps parse_literal_def created_def
      skip_whitespace_def is_space_def mcp_json_null_create_def mcp_json_boolean_create_def mcp_json_alloc_node_def\<close>)

lemma array_reads:
  assumes "\<forall>x \<in> set items. reads strtod fmt (Suc d) x"
    and "\<forall>x \<in> set items. \<forall>n \<in> set_json x. number_roundtrip strtod fmt n"
    and "d \<le> 100" "length (render fmt (JArray items cap)) < 2 ^ 56"
  shows "reads strtod fmt d (JArray items cap)"
  unfolding reads_def reads_as_def
proof (intro allI impI)
  fix rest assume "follow rest"
  let ?in = "comma_sep (map (render fmt) items) @ CHR '']'' # rest"
  have arr: "parse_value strtod [] (render fmt (JArray items cap) @ rest) d =
      (if peek (skip_whitespace ?in) = CHR '']'' then Ok (JArray [] 0, tl (skip_whitespace ?in), [])
       else parse_elements strtod [] (JArray [] 0) (skip_whitespace ?in) d)"
    using assms(3)
    by (simp add: parse_value.simps [of strtod "[]" "CHR ''['' # _"] skip_whitespace_def is_space_def
        parse_array.simps mcp_json_array_create_def mcp_json_array_create_with_capacity_def
        mcp_json_alloc_node_def MCP_JSON_MAX_PARSE_DEPTH_def)
  show "\<exists>j'. parse_value strtod [] (render fmt (JArray items cap) @ rest) d = Ok (j', rest, []) \<and>
          jabs j' = jabs (JArray items cap)"
  proof (cases items)
    case Nil
    then show ?thesis unfolding arr by simp
  next
    case (Cons x xs)
    have ne: "render fmt y \<noteq> []" if "y \<in> set items" for y
      using render_head [of y] assms(2) that by blast
    have "?in = render fmt x @ (if xs = [] then [] else CHR '','' # comma_sep (map (render fmt) xs)) @ CHR '']'' # rest"
      by (cases xs) (auto simp: Cons)
    then have hd: "peek ?in = peek (render fmt x)" using ne [of x] Cons by (simp add: peek_append)
    have h: "\<not> is_space (peek ?in)" "peek ?in \<noteq> CHR '']''"
      unfolding hd using render_head [of x] assms(2) Cons by (metis list.set_intros(1))+
    have "length items \<le> length (comma_sep (map (render fmt) items))"
      using comma_sep_length [of "map (render fmt) items"] ne by auto
    then have "length items < 2 ^ 58" using assms(4) by simp
    then show ?thesis
      using parse_elements_reads [of items strtod fmt d 0 "[]" rest] assms(1) h Cons
      unfolding arr skip_whitespace_id [OF h(1)] by auto
  qed
qed

lemma parse_object_text:
  assumes "d \<le> 100"
  obtains t0 :: "(string, 'd json) mcp_hashtable" where "ht_map json_ops t0 = Map.empty" "roomy t0 0" "json_ok (JObject t0)"
    "parse_value strtod [] (CHR ''{'' # s) d =
      (if peek (skip_whitespace s) = CHR ''}'' then Ok (JObject t0, tl (skip_whitespace s), [])
       else parse_members strtod [] t0 (skip_whitespace s) d)"
proof -
  obtain t0 :: "(string, 'd json) mcp_hashtable" where t0: "mcp_json_object_create [] = (Some (JObject t0), [])"
    and e0: "ht_map json_ops t0 = Map.empty" "ht_capacity t0 = 32" "json_ok (JObject t0)"
    using object_create_no_failure by blast
  have "roomy t0 0" using e0 unfolding json_ok_JObject by (simp add: roomy_def)
  moreover have "parse_value strtod [] (CHR ''{'' # s) d =
      (if peek (skip_whitespace s) = CHR ''}'' then Ok (JObject t0, tl (skip_whitespace s), [])
       else parse_members strtod [] t0 (skip_whitespace s) d)"
    using assms by (simp add: parse_value.simps [of strtod "[]" "CHR ''{'' # _"] skip_whitespace_def is_space_def
        parse_object.simps t0 MCP_JSON_MAX_PARSE_DEPTH_def)
  ultimately show thesis by (rule that [OF e0(1) _ e0(3)])
qed

lemma object_text_reads:
  fixes es :: "(string \<times> string \<times> 'd jval) list"
  assumes "\<forall>e \<in> set es. member_reads strtod (Suc d) e" "distinct (map fst es)" "length es < 2 ^ 56" "d \<le> 100"
  shows "reads_as strtod d (''{'' @ comma_sep (map member es) @ ''}'') (VObject (\<lambda>x. map_option snd (map_of es x)))"
  unfolding reads_as_def
proof (intro allI impI)
  fix rest assume "follow rest"
  let ?in = "comma_sep (map member es) @ CHR ''}'' # rest"
  obtain t0 :: "(string, 'd json) mcp_hashtable" where e0: "ht_map json_ops t0 = Map.empty" "roomy t0 0" "json_ok (JObject t0)"
    and obj: "parse_value strtod [] (CHR ''{'' # ?in) d =
      (if peek (skip_whitespace ?in) = CHR ''}'' then Ok (JObject t0, tl (skip_whitespace ?in), [])
       else parse_members strtod [] t0 (skip_whitespace ?in) d)"
    using parse_object_text [OF assms(4)] .
  show "\<exists>j'. parse_value strtod [] ((''{'' @ comma_sep (map member es) @ ''}'') @ rest) d = Ok (j', rest, []) \<and>
          jabs j' = VObject (\<lambda>x. map_option snd (map_of es x))"
  proof (cases es)
    case Nil
    have "jabs (JObject t0) = VObject (\<lambda>x. None)" using jabs_JObject [of t0] e0 by simp
    then show ?thesis using obj unfolding Nil by simp
  next
    case (Cons e es')
    have hd: "peek ?in = CHR 0x22" unfolding Cons by (cases es') (auto simp: member_def quoted_def)
    have sp: "skip_whitespace ?in = ?in" by (rule skip_whitespace_id) (simp add: hd is_space_def)
    from parse_members_reads [OF _ assms(1,2) e0(2), of rest] assms(3) Cons obtain t' where
      t': "parse_members strtod [] t0 ?in d = Ok (JObject t', rest, [])" "ht_inv json_ops t'"
      "\<forall>x. map_option jabs (ht_map json_ops t' x) =
          (case map_of es x of None \<Rightarrow> map_option jabs (ht_map json_ops t0 x) | Some (_, v) \<Rightarrow> Some v)"
      by auto
    have "jabs (JObject t') = VObject (\<lambda>x. map_option snd (map_of es x))"
      unfolding jabs_JObject [OF t'(2)] using t'(3) e0(1) by (auto simp: fun_eq_iff split: option.splits)
    then show ?thesis using t'(1) obj unfolding sp hd by (intro exI [of _ "JObject t'"]) (simp del: jabs.simps)
  qed
qed

lemma map_of_texts: "map_option snd (map_of (map (\<lambda>(k, v). (k, f v, g v)) es) x) = map_option g (map_of es x)"
  by (induction es) auto

lemma object_reads:
  fixes t :: "(string, 'a json) mcp_hashtable"
  assumes ok: "json_ok (JObject t)"
    and v: "\<forall>(k, v) \<in> set (concat (ht_buckets t)). reads strtod fmt (Suc d) v"
    and "d \<le> 100" and len: "length (render fmt (JObject t)) < 2 ^ 56"
  shows "reads strtod fmt d (JObject t)"
proof -
  let ?es = "map (\<lambda>(k, v). (k, render fmt v, jabs v)) (concat (ht_buckets t))"
  have inv: "ht_inv json_ops t" using ok by simp
  have r: "render fmt (JObject t) = ''{'' @ comma_sep (map member ?es) @ ''}''"
    unfolding render_JObject by (simp add: member_def case_prod_unfold comp_def cong: map_cong)
  have c: "length (comma_sep (map member ?es)) < 2 ^ 56 - 1" using len unfolding r by simp
  have "\<forall>s \<in> set (map member ?es). s \<noteq> []" by (auto simp: member_def quoted_def)
  note cl = comma_sep_length [OF this]
  have lens: "length ?es < 2 ^ 56" "\<And>x. x \<in> set ?es \<Longrightarrow> length (member x) < 2 ^ 56"
    using c cl by (auto simp del: set_concat)
  have keys: "\<forall>x \<in> set ?es. member_reads strtod (Suc d) x"
  proof
    fix x assume x: "x \<in> set ?es"
    then obtain k u where ku: "(k, u) \<in> set (concat (ht_buckets t))" "x = (k, render fmt u, jabs u)" by (auto simp del: set_concat)
    then have "k \<in> dom (ht_map json_ops t)" unfolding dom_ht_map [OF inv] by force
    then have "c_str_ok k" using ok unfolding json_ok_JObject by blast
    moreover have "length k < 2 ^ 60"
      using lens(2) [OF x] length_escape [of k] ku(2) by (simp add: member_def quoted_def)
    ultimately show "member_reads strtod (Suc d) x" using v ku by (auto simp: member_reads_def reads_def)
  qed
  have dist: "distinct (map fst ?es)"
    using inv distinct_keys_concat by (auto simp: ht_inv_def comp_def case_prod_unfold)
  have "map_option snd (map_of ?es x) = map_option jabs (ht_map json_ops t x)" for x
    unfolding ht_map_concat [OF inv] by (rule map_of_texts)
  then show ?thesis
    using object_text_reads [OF keys dist lens(1) assms(3)] unfolding reads_def r jabs_JObject [OF inv] by simp
qed

lemma value_reads:
  assumes "json_ok j" "\<forall>n \<in> set_json j. number_roundtrip strtod fmt n"
    and "jdepth j + d \<le> 101" "length (render fmt j) < 2 ^ 56"
  shows "reads strtod fmt d j"
  using assms
proof (induction "size j" arbitrary: j d rule: less_induct)
  case less
  show ?case
  proof (cases j)
    case (JArray items cap)
    have depth: "\<forall>x \<in> set items. jdepth x + Suc d \<le> 101" "d \<le> 100"
      using less.prems(3) jdepth_le_JArray [of items cap "100 - d"] by (auto simp: JArray)
    have ne: "\<forall>s \<in> set (map (render fmt) items). s \<noteq> []"
      using render_head [of _ strtod fmt] less.prems(2) JArray by auto
    have "reads strtod fmt (Suc d) x" if x: "x \<in> set items" for x
    proof (rule less.hyps)
      show "size x < size j" using size_list_estimation' [OF x, of "size x" size] JArray by simp
      show "length (render fmt x) < 2 ^ 56" using comma_sep_length [OF ne] x less.prems(4) by (auto simp: JArray)
    qed (use x depth less.prems in \<open>auto simp: JArray list_all_iff\<close>)
    then show ?thesis unfolding JArray
      by (intro array_reads) (use less.prems depth in \<open>auto simp: JArray\<close>)
  next
    case (JObject t)
    have depth: "\<forall>x \<in> set (ht_values t). jdepth x + Suc d \<le> 101" "d \<le> 100"
      using less.prems(3) jdepth_le_JObject [of t "100 - d"] by (auto simp: JObject)
    let ?es = "concat (ht_buckets t)"
    let ?ms = "map (\<lambda>(k, v). quoted k @ '':'' @ render fmt v) ?es"
    have ne: "\<forall>s \<in> set ?ms. s \<noteq> []" by auto
    have "reads strtod fmt (Suc d) v" if kv: "(k, v) \<in> set ?es" for k v
    proof (rule less.hyps)
      show "size v < size j" using size_in_table [OF kv] JObject by simp
      show "json_ok v" using less.prems(1) table_values [OF kv] unfolding JObject json_ok_JObject by blast
      show "\<forall>n \<in> set_json v. number_roundtrip strtod fmt n"
        using less.prems(2) in_table_set [OF kv] JObject by auto
      show "jdepth v + Suc d \<le> 101" using depth(1) table_values [OF kv] by blast
      have "quoted k @ '':'' @ render fmt v \<in> set ?ms" using kv by force
      then have "length (quoted k @ '':'' @ render fmt v) \<le> length (comma_sep ?ms)"
        using comma_sep_length [OF ne] by blast
      then show "length (render fmt v) < 2 ^ 56"
        using less.prems(4) unfolding JObject render_JObject by simp
    qed
    then show ?thesis unfolding JObject
      by (intro object_reads) (use less.prems depth in \<open>auto simp: JObject simp del: json_ok.simps render.simps\<close>)
  qed (use less.prems in \<open>auto intro!: scalar_reads\<close>)
qed

lemma escape_string_c_str_ok: "c_str_ok s \<Longrightarrow> c_str_ok (escape_string s)"
proof (induction s)
  case (Cons c s)
  have hex: "hex_lower d \<noteq> NUL" if "d < 16" for d
    using nat_lt_16 [OF that] by (elim insertE emptyE) (simp_all add: hex_lower_def char_of_def)
  have "c_str_ok (escape_char c)"
    using Cons.prems hex [of "of_char c div 16"] hex [of "of_char c mod 16"]
    by (auto simp: escape_char_def)
  with Cons show ?case by (simp add: escape_string_def c_str_ok_def)
qed (simp add: escape_string_def)

lemma c_str_ok_append [simp]: "c_str_ok (a @ b) \<longleftrightarrow> c_str_ok a \<and> c_str_ok b"
  by (auto simp: c_str_ok_def)

lemma c_string_append_NUL: "c_str_ok s \<Longrightarrow> c_string (s @ NUL # rest) = s"
  by (induction s) (auto simp: c_string_def)

lemma comma_sep_c_str_ok: "(\<forall>s \<in> set ss. c_str_ok s) \<Longrightarrow> c_str_ok (comma_sep ss)"
  by (induction ss rule: comma_sep.induct) auto

lemma render_c_str_ok:
  assumes "json_ok j" "\<forall>d \<in> set_json j. number_roundtrip strtod fmt d"
  shows "c_str_ok (render fmt j)"
  using assms
proof (induction "size j" arbitrary: j rule: less_induct)
  case less
  show ?case
  proof (cases j)
    case (JArray items cap)
    have "c_str_ok (render fmt x)" if x: "x \<in> set items" for x
    proof (rule less.hyps)
      show "size x < size j" using size_list_estimation' [OF x, of "size x" size] JArray by simp
    qed (use x less.prems in \<open>auto simp: JArray list_all_iff\<close>)
    then show ?thesis by (auto simp: JArray intro!: comma_sep_c_str_ok)
  next
    case (JObject t)
    have inv: "ht_inv json_ops t" using less.prems(1) JObject by simp
    have "c_str_ok k \<and> c_str_ok (render fmt v)" if kv: "(k, v) \<in> set (concat (ht_buckets t))" for k v
    proof
      have "k \<in> dom (ht_map json_ops t)" unfolding dom_ht_map [OF inv] using kv by force
      then show "c_str_ok k" using less.prems(1) unfolding JObject json_ok_JObject by blast
      show "c_str_ok (render fmt v)"
      proof (rule less.hyps)
        show "size v < size j" using size_in_table [OF kv] JObject by simp
        show "json_ok v" using less.prems(1) table_values [OF kv] unfolding JObject json_ok_JObject by blast
        show "\<forall>n \<in> set_json v. number_roundtrip strtod fmt n"
          using less.prems(2) in_table_set [OF kv] JObject by auto
      qed
    qed
    then have "\<forall>s \<in> set (map (\<lambda>(k, v). quoted k @ '':'' @ render fmt v) (concat (ht_buckets t))). c_str_ok s"
      by (auto simp: quoted_def escape_string_c_str_ok simp del: set_concat)
    from comma_sep_c_str_ok [OF this] show ?thesis unfolding JObject render_JObject by simp
  qed (use less.prems in \<open>auto simp: quoted_def escape_string_c_str_ok number_roundtrip_def\<close>)
qed

section \<open>Properties\<close>

text \<open>Claim C7.  Printing and parsing are inverse: what \<open>stringify_with_capacity\<close> returns for a
  well-formed value, read by \<open>mcp_json_parse\<close>, is a value equal to the original (its arrays have the
  same items in the same order, its objects the same names with the same values), provided memory
  does not run out, the value is nested at most 101 deep and shorter than \<open>2 ^ 56\<close> bytes, and the
  C library prints and reads its numbers without loss.\<close>

theorem json_roundtrip:
  assumes "json_ok j" and "printable fmt j" and "\<forall>d \<in> set_json j. number_roundtrip strtod fmt d"
    and "jdepth j \<le> 101" and "length (render fmt j) < 2 ^ 56" and "n < 2 ^ 63"
  shows "\<exists>text j'. stringify_with_capacity fmt [] (Some j) n = Wrote text \<and>
           mcp_json_parse strtod [] (Some (c_string text)) = Ok j' \<and> jabs j' = jabs j"
proof -
  obtain rest where wr: "stringify_with_capacity fmt [] (Some j) n = Wrote (render fmt j @ NUL # rest)"
    using stringify_with_capacity_ok [OF stringify_value_appends [OF assms(2)], where json = "Some j" and fmt = fmt and m = "[]" and n = n] assms(5,6)
    by auto
  have "c_string (render fmt j @ NUL # rest) = render fmt j"
    using render_c_str_ok [OF assms(1,3)] by (metis c_string_append_NUL)
  moreover obtain j' where "parse_value strtod [] (render fmt j) 0 = Ok (j', [], [])" "jabs j' = jabs j"
  proof -
    have "reads strtod fmt 0 j" by (rule value_reads [OF assms(1,3)]) (use assms(4,5) in simp_all)
    moreover have "follow []" by (simp add: follow_def)
    ultimately have "\<exists>j'. parse_value strtod [] (render fmt j @ []) 0 = Ok (j', [], []) \<and> jabs j' = jabs j"
      unfolding reads_def reads_as_def by blast
    then show ?thesis using that by auto
  qed
  ultimately show ?thesis using wr by (simp add: mcp_json_parse_def) (simp add: skip_whitespace_def)
qed

definition roundtrip_example :: "nat json" where
  "roundtrip_example = JArray [json_example, JString [CHR 0x0A], JBool True] 8"

lemma roundtrip_example_ok:
  "json_ok roundtrip_example" "printable (\<lambda>_. ''2'') roundtrip_example" "jdepth roundtrip_example \<le> 101"
  "\<forall>d \<in> set_json roundtrip_example. number_roundtrip (\<lambda>s. (2, tl s)) (\<lambda>_. ''2'') d"
  "length (render (\<lambda>_. ''2'') roundtrip_example) < 2 ^ 56"
proof -
  obtain t where t: "json_example = JObject t" "ht_inv json_ops t"
    using json_object_run_inv [OF json_example_run] by blast
  have b: "concat (ht_buckets t) = [(''b'', JNumber 2)]" "ht_threshold t = 3 / 4" using t(1) by (auto simp: json_example_def)
  have "dom (ht_map json_ops t) = {''b''}" unfolding dom_ht_map [OF t(2)] b by simp
  moreover have "ht_values t = [JNumber 2]" using t(1) by (auto simp: json_example_def ht_values_def)
  ultimately have "json_ok json_example" unfolding t(1) json_ok_JObject using t(2) b(2) by simp
  then show "json_ok roundtrip_example" by (simp add: roundtrip_example_def)
  show "printable (\<lambda>_. ''2'') roundtrip_example" "jdepth roundtrip_example \<le> 101"
    by (simp_all add: roundtrip_example_def json_example_def short_string_def escape_string_def escape_char_def ht_values_def)
  have "number_roundtrip (\<lambda>s. (2, tl s)) (\<lambda>_. ''2'') (2 :: nat)"
    by (simp add: number_roundtrip_def scan_number_def scan_fraction_def scan_exponent_def skip_digits_def is_digit_def)
  then show "\<forall>d \<in> set_json roundtrip_example. number_roundtrip (\<lambda>s. (2, tl s)) (\<lambda>_. ''2'') d"
    by (simp add: roundtrip_example_def json_example_def)
  show "length (render (\<lambda>_. ''2'') roundtrip_example) < 2 ^ 56"
    by (simp add: roundtrip_example_def json_example_def quoted_def escape_string_def escape_char_def)
qed

theorem json_roundtrip_witness:
  "\<exists>text j'. stringify_with_capacity (\<lambda>_. ''2'') [] (Some roundtrip_example) 0 = Wrote text \<and>
     mcp_json_parse (\<lambda>s. (2, tl s)) [] (Some (c_string text)) = Ok j' \<and> jabs j' = jabs roundtrip_example"
  by (rule json_roundtrip [OF roundtrip_example_ok(1,2,4,3,5)]) simp

section \<open>Values that are equal but laid out differently\<close>

lemma comma_sep_len: "length (comma_sep ss) = sum_list (map length ss) + (length ss - 1)"
  by (induction ss rule: comma_sep.induct) auto

lemma sum_list_entries:
  assumes "distinct (map fst es)"
  shows "sum_list (map f es) = (\<Sum>k \<in> fst ` set es. f (k, the (map_of es k)))"
proof -
  have d: "distinct es" using assms by (simp add: distinct_map)
  have inj: "inj_on fst (set es)" using assms by (simp add: distinct_map)
  have "sum_list (map f es) = sum f (set es)" by (rule sum_list_distinct_conv_sum_set [OF d])
  also have "\<dots> = (\<Sum>e \<in> set es. f (fst e, the (map_of es (fst e))))"
    by (rule sum.cong) (use assms in \<open>auto simp: map_of_is_SomeI\<close>)
  also have "\<dots> = (\<Sum>k \<in> fst ` set es. f (k, the (map_of es k)))"
    by (simp add: sum.reindex [OF inj])
  finally show ?thesis .
qed

text \<open>Two tables with the same abstract content: their entries correspond.\<close>

lemma same_entries:
  assumes inv: "ht_inv json_ops t" "ht_inv json_ops t'" and eq: "jabs (JObject t') = jabs (JObject t)"
  defines "es \<equiv> concat (ht_buckets t)" and "es' \<equiv> concat (ht_buckets t')"
  shows "distinct (map fst es)" "distinct (map fst es')" "fst ` set es' = fst ` set es"
    "(k, v') \<in> set es' \<Longrightarrow> \<exists>v. (k, v) \<in> set es \<and> jabs v' = jabs v"
    "(k, v) \<in> set es \<Longrightarrow> \<exists>v'. (k, v') \<in> set es' \<and> jabs v' = jabs v"
    "length es' = length es"
proof -
  show d: "distinct (map fst es)" and d': "distinct (map fst es')"
    using inv distinct_keys_concat by (auto simp: ht_inv_def es_def es'_def)
  have m: "map_option jabs (map_of es' k) = map_option jabs (map_of es k)" for k
    using eq unfolding jabs_JObject [OF inv(1)] jabs_JObject [OF inv(2)] es_def es'_def
      ht_map_concat [OF inv(1)] ht_map_concat [OF inv(2)] by (simp add: fun_eq_iff)
  show f: "fst ` set es' = fst ` set es"
  proof -
    have "map_of es' k = None \<longleftrightarrow> map_of es k = None" for k using m [of k] by (metis option.map_disc_iff)
    then show ?thesis by (simp add: map_of_eq_None_iff set_eq_iff)
  qed
  show "\<exists>v. (k, v) \<in> set es \<and> jabs v' = jabs v" if "(k, v') \<in> set es'"
    using m [of k] map_of_is_SomeI [OF d' that] map_of_SomeD by (cases "map_of es k") fastforce+
  show "\<exists>v'. (k, v') \<in> set es' \<and> jabs v' = jabs v" if "(k, v) \<in> set es"
    using m [of k] map_of_is_SomeI [OF d that] map_of_SomeD by (cases "map_of es' k") fastforce+
  show "length es' = length es"
    using arg_cong [OF f, of card] distinct_card [OF d] distinct_card [OF d'] by simp
qed

definition same_text_size :: "('d \<Rightarrow> string) \<Rightarrow> 'd json \<Rightarrow> 'd json \<Rightarrow> bool" where
  "same_text_size fmt j j' \<longleftrightarrow> (printable fmt j' \<longleftrightarrow> printable fmt j) \<and> length (render fmt j') = length (render fmt j) \<and>
     set_json j' = set_json j \<and> jdepth j' = jdepth j"

lemma set_json_JObject: "x \<in> set_json (JObject t) \<longleftrightarrow> (\<exists>(k, v) \<in> set (concat (ht_buckets t)). x \<in> set_json v)"
  by (cases t) (fastforce simp: Bex_def)

lemma jdepth_JObject_le: "jdepth (JObject t) \<le> n \<longleftrightarrow> 0 < n \<and> (\<forall>(k, v) \<in> set (concat (ht_buckets t)). jdepth v < n)"
proof (cases n)
  case (Suc m)
  have "(\<forall>x \<in> set (ht_values t). jdepth x \<le> m) \<longleftrightarrow> (\<forall>(k, v) \<in> set (concat (ht_buckets t)). jdepth v \<le> m)"
    by (fastforce simp: ht_values_def)
  then show ?thesis unfolding Suc jdepth_le_JObject by (simp add: less_Suc_eq_le)
qed simp

lemma same_size_JObject:
  assumes ok: "json_ok (JObject t)" "json_ok (JObject t')" and eq: "jabs (JObject t') = jabs (JObject t)"
    and IH: "\<And>k v v'. (k, v) \<in> set (concat (ht_buckets t)) \<Longrightarrow> (k, v') \<in> set (concat (ht_buckets t')) \<Longrightarrow> jabs v' = jabs v \<Longrightarrow>
      same_text_size fmt v v'"
  shows "same_text_size fmt (JObject t) (JObject t')"
proof -
  let ?es = "concat (ht_buckets t)" and ?es' = "concat (ht_buckets t')"
  have inv: "ht_inv json_ops t" "ht_inv json_ops t'" using ok by simp_all
  note E = same_entries [OF inv eq]
  have fwd: "\<exists>v. (k, v) \<in> set ?es \<and> same_text_size fmt v v'" if "(k, v') \<in> set ?es'" for k v'
    using E(4) [OF that] IH that by blast
  have bwd: "\<exists>v'. (k, v') \<in> set ?es' \<and> same_text_size fmt v v'" if "(k, v) \<in> set ?es" for k v
    using E(5) [OF that] IH that by blast
  have "printable fmt (JObject t') \<longleftrightarrow> printable fmt (JObject t)"
    unfolding printable_JObject using fwd bwd unfolding same_text_size_def by (fastforce simp del: set_concat)
  moreover have "set_json (JObject t') = set_json (JObject t)"
    using fwd bwd unfolding same_text_size_def set_eq_iff set_json_JObject by (fastforce simp del: set_concat)
  moreover have "jdepth (JObject t') = jdepth (JObject t)"
  proof (rule order_antisym)
    show "jdepth (JObject t') \<le> jdepth (JObject t)" unfolding jdepth_JObject_le
      using fwd jdepth_JObject_le [of t "jdepth (JObject t)"] unfolding same_text_size_def by (fastforce simp del: set_concat jdepth.simps)
    show "jdepth (JObject t) \<le> jdepth (JObject t')" unfolding jdepth_JObject_le
      using bwd jdepth_JObject_le [of t' "jdepth (JObject t')"] unfolding same_text_size_def by (fastforce simp del: set_concat jdepth.simps)
  qed
  moreover have "length (render fmt (JObject t')) = length (render fmt (JObject t))"
  proof -
    let ?f = "\<lambda>(k, v). length (quoted k @ '':'' @ render fmt v)"
    have "sum_list (map ?f ?es') = (\<Sum>k \<in> fst ` set ?es'. ?f (k, the (map_of ?es' k)))" by (rule sum_list_entries [OF E(2)])
    also have "\<dots> = (\<Sum>k \<in> fst ` set ?es. ?f (k, the (map_of ?es k)))"
    proof (rule sum.cong [OF E(3)])
      fix k assume "k \<in> fst ` set ?es"
      then obtain v where v: "(k, v) \<in> set ?es" by (auto simp del: set_concat)
      from bwd [OF v] obtain v' where v': "(k, v') \<in> set ?es'" "same_text_size fmt v v'" by blast
      show "?f (k, the (map_of ?es' k)) = ?f (k, the (map_of ?es k))"
        using map_of_is_SomeI [OF E(1) v] map_of_is_SomeI [OF E(2) v'(1)] v'(2) by (simp add: same_text_size_def)
    qed
    also have "\<dots> = sum_list (map ?f ?es)" by (rule sum_list_entries [OF E(1), symmetric])
    finally show ?thesis
      unfolding render_JObject using E(6) by (simp add: comma_sep_len comp_def case_prod_unfold)
  qed
  ultimately show ?thesis unfolding same_text_size_def by blast
qed

lemma same_size_JArray:
  assumes "list_all2 (same_text_size fmt) items items'"
  shows "same_text_size fmt (JArray items cap) (JArray items' cap')"
proof -
  from assms have "map (\<lambda>x. length (render fmt x)) items' = map (\<lambda>x. length (render fmt x)) items \<and>
      map (printable fmt) items' = map (printable fmt) items \<and> map jdepth items' = map jdepth items \<and>
      (\<Union>x \<in> set items'. set_json x) = (\<Union>x \<in> set items. set_json x) \<and> length items' = length items"
    by (induction rule: list_all2_induct) (auto simp: same_text_size_def)
  then show ?thesis by (simp add: same_text_size_def comma_sep_len comp_def)
qed

lemma jabs_same_text_size:
  "json_ok j \<Longrightarrow> json_ok j' \<Longrightarrow> jabs j' = jabs j \<Longrightarrow> same_text_size fmt j j'"
proof (induction "size j" arbitrary: j j' rule: less_induct)
  case less
  show ?case
  proof (cases j)
    case (JArray items cap)
    then obtain items' cap' where j': "j' = JArray items' cap'" "map jabs items' = map jabs items"
      using less.prems(3) by (cases j') auto
    have "same_text_size fmt x x'" if "(x, x') \<in> set (zip items items')" for x x'
    proof (rule less.hyps)
      have x: "x \<in> set items" "x' \<in> set items'" using that by (auto dest: set_zip_leftD set_zip_rightD)
      show "size x < size j" using size_list_estimation' [OF x(1), of "size x" size] JArray by simp
      show "json_ok x" "json_ok x'" using less.prems x JArray j' by (auto simp: list_all_iff)
      show "jabs x' = jabs x" using that arg_cong [OF j'(2), of "\<lambda>xs. xs ! _"] map_eq_imp_length_eq [OF j'(2)]
        by (auto simp: set_zip) (metis length_map nth_map)
    qed
    then have "list_all2 (same_text_size fmt) items items'"
      using map_eq_imp_length_eq [OF j'(2)] by (auto simp: list_all2_iff)
    then show ?thesis unfolding JArray j'(1) by (rule same_size_JArray)
  next
    case (JObject t)
    then obtain t' where j': "j' = JObject t'" using less.prems(3) by (cases j') auto
    show ?thesis unfolding JObject j'
    proof (rule same_size_JObject)
      fix k v v' assume v: "(k, v) \<in> set (concat (ht_buckets t))" "(k, v') \<in> set (concat (ht_buckets t'))" "jabs v' = jabs v"
      show "same_text_size fmt v v'"
      proof (rule less.hyps)
        show "size v < size j" using size_in_table [OF v(1)] JObject by simp
        show "json_ok v" "json_ok v'"
          using less.prems(1,2) table_values [OF v(1)] table_values [OF v(2)] unfolding JObject j' json_ok_JObject by blast+
      qed (rule v(3))
    qed (use less.prems JObject j' in \<open>simp_all only:\<close>)
  qed (use less.prems in \<open>cases j'; auto simp: same_text_size_def\<close>)+
qed

end
