(* ===== verification/Mcp_Strings.thy ===== *)
theory Mcp_Strings
  imports Mcp_Json_Stringify
begin

text \<open>
  String helpers, \<open>src/common/mcp_string_utils.c\<close>: the growing buffer \<open>dyn_buf_t\<close> messages are built
  in, the wildcard matcher the access rules use, and the comparison and splitting functions.

  Strings are C strings, lists of bytes without NUL.  The buffer is the list of its bytes, as long as
  its capacity; NULL is the empty list with capacity 0.  An operation on the buffer returns \<open>None\<close> if
  it would write outside the buffer or not end; the properties show that this does not happen.
  Capacities are natural numbers: \<open>realloc\<close> refuses what does not fit into half the address space,
  and the lengths of strings in memory are below \<open>2 ^ 62\<close>.
\<close>

section \<open>Wildcards and comparison\<close>

abbreviation STAR :: char where
  "STAR \<equiv> CHR ''*''"

definition mcp_wildcard_match :: "string option \<Rightarrow> string option \<Rightarrow> bool" where
  "mcp_wildcard_match pattern txt =
     (case (pattern, txt) of
        (Some p, Some t) \<Rightarrow>
          (if p = [STAR] then True
           else if STAR \<notin> set p then p = t
           else if last p = STAR then take (length p - 1) p = take (length p - 1) t
           else p = t)
      | _ \<Rightarrow> False)"

definition mcp_strdup :: "mem \<Rightarrow> string option \<Rightarrow> string option \<times> mem" where
  "mcp_strdup m str =
     (case str of
        None \<Rightarrow> (None, m)
      | Some s \<Rightarrow> (let (ok, m1) = realloc_bytes m (length s + 1) in (if ok then Some s else None, m1)))"

definition to_lower :: "char \<Rightarrow> nat" where
  "to_lower c = (let n = of_char c in if 65 \<le> n \<and> n \<le> 90 then n + 32 else n)"

fun stricmp_loop :: "string \<Rightarrow> string \<Rightarrow> int" where
  "stricmp_loop [] [] = 0"
| "stricmp_loop [] (b # bs) = - int (to_lower b)"
| "stricmp_loop (a # as) [] = int (to_lower a)"
| "stricmp_loop (a # as) (b # bs) =
     (if to_lower a = to_lower b then stricmp_loop as bs else int (to_lower a) - int (to_lower b))"

definition mcp_stricmp :: "string option \<Rightarrow> string option \<Rightarrow> int" where
  "mcp_stricmp s1 s2 =
     (case (s1, s2) of
        (None, None) \<Rightarrow> 0
      | (None, Some _) \<Rightarrow> -1
      | (Some _, None) \<Rightarrow> 1
      | (Some a, Some b) \<Rightarrow> stricmp_loop a b)"

definition mcp_str_starts_with :: "string option \<Rightarrow> string option \<Rightarrow> bool" where
  "mcp_str_starts_with str pre =
     (case (str, pre) of (Some s, Some p) \<Rightarrow> take (length p) s = p | _ \<Rightarrow> False)"

definition mcp_str_ends_with :: "string option \<Rightarrow> string option \<Rightarrow> bool" where
  "mcp_str_ends_with str suf =
     (case (str, suf) of
        (Some s, Some x) \<Rightarrow> (if length s < length x then False else drop (length s - length x) s = x)
      | _ \<Rightarrow> False)"

text \<open>The tokens, in order; the number of tokens allocated is one more than the delimiters.\<close>

fun split_loop :: "char \<Rightarrow> string \<Rightarrow> string \<Rightarrow> string list" where
  "split_loop delimiter token [] = [token]"
| "split_loop delimiter token (c # s) =
     (if c = delimiter then token # split_loop delimiter [] s else split_loop delimiter (token @ [c]) s)"

definition mcp_str_split :: "mem \<Rightarrow> string option \<Rightarrow> char \<Rightarrow> (string list \<times> nat) option \<times> mem" where
  "mcp_str_split m str delimiter =
     (case str of
        None \<Rightarrow> (None, m)
      | Some s \<Rightarrow>
          (let num_tokens = 1 + length (filter (\<lambda>c. c = delimiter) s);
               (ok, m1) = realloc_bytes m (num_tokens * 8)
           in if ok then (Some (split_loop delimiter [] s, num_tokens), m1) else (None, m1)))"

section \<open>The growing buffer\<close>

record dyn_buf =
  db_buffer :: "char list"
  db_length :: nat
  db_capacity :: nat

definition DYN_BUF_MIN_CAPACITY :: nat where
  "DYN_BUF_MIN_CAPACITY = 64"

definition align_up_8 :: "nat \<Rightarrow> nat" where
  "align_up_8 n = (n + 7) div 8 * 8"

partial_function (option) double_until :: "nat \<Rightarrow> nat \<Rightarrow> nat option" where
  "double_until required new_capacity =
     (if new_capacity < required then double_until required (new_capacity * 2) else Some new_capacity)"

definition resize_bytes :: "char list \<Rightarrow> nat \<Rightarrow> char list" where
  "resize_bytes bs n = take n bs @ replicate (n - length bs) NUL"

definition dyn_buf_ensure_capacity :: "mem \<Rightarrow> nat \<Rightarrow> dyn_buf \<Rightarrow> (int \<times> dyn_buf \<times> mem) option" where
  "dyn_buf_ensure_capacity m additional_len db =
     (let required = db_length db + additional_len + 1
      in if required \<le> db_capacity db then Some (0, db, m)
         else case double_until required (if 0 < db_capacity db then db_capacity db else DYN_BUF_MIN_CAPACITY) of
                None \<Rightarrow> None
              | Some c \<Rightarrow>
                  (let new_capacity = align_up_8 c; (ok, m1) = realloc_bytes m new_capacity
                   in if ok then Some (0, db\<lparr>db_buffer := resize_bytes (db_buffer db) new_capacity, db_capacity := new_capacity\<rparr>, m1)
                      else Some (-1, db, m1)))"

definition dyn_buf_init :: "mem \<Rightarrow> nat \<Rightarrow> int \<times> dyn_buf \<times> mem" where
  "dyn_buf_init m initial_capacity =
     (let capacity = align_up_8 (max initial_capacity DYN_BUF_MIN_CAPACITY); (ok, m1) = realloc_bytes m capacity
      in if ok then (0, \<lparr>db_buffer = replicate capacity NUL, db_length = 0, db_capacity = capacity\<rparr>, m1)
         else (-1, \<lparr>db_buffer = [], db_length = 0, db_capacity = 0\<rparr>, m1))"

definition buf_write :: "nat \<Rightarrow> char list \<Rightarrow> char list \<Rightarrow> char list option" where
  "buf_write i bytes buf = (if i + length bytes \<le> length buf then Some (memcpy_at buf i bytes) else None)"

text \<open>The bytes and the terminator behind the current text.\<close>

definition put_text :: "string \<Rightarrow> dyn_buf \<Rightarrow> dyn_buf option" where
  "put_text s db =
     (case buf_write (db_length db) s (db_buffer db) of
        None \<Rightarrow> None
      | Some b1 \<Rightarrow>
          (case buf_write (db_length db + length s) [NUL] b1 of
             None \<Rightarrow> None
           | Some b2 \<Rightarrow> Some (db\<lparr>db_buffer := b2, db_length := db_length db + length s\<rparr>)))"

definition ensure_then_put :: "mem \<Rightarrow> nat \<Rightarrow> string \<Rightarrow> dyn_buf \<Rightarrow> (int \<times> dyn_buf \<times> mem) option" where
  "ensure_then_put m additional_len s db =
     (case dyn_buf_ensure_capacity m additional_len db of
        None \<Rightarrow> None
      | Some (rc, db1, m1) \<Rightarrow>
          (if rc \<noteq> 0 then Some (-1, db1, m1)
           else case put_text s db1 of None \<Rightarrow> None | Some db2 \<Rightarrow> Some (0, db2, m1)))"

definition dyn_buf_append :: "mem \<Rightarrow> string \<Rightarrow> dyn_buf \<Rightarrow> (int \<times> dyn_buf \<times> mem) option" where
  "dyn_buf_append m str db =
     (if length str = 0 then Some (0, db, m) else ensure_then_put m (length str) str db)"

definition dyn_buf_append_char :: "mem \<Rightarrow> char \<Rightarrow> dyn_buf \<Rightarrow> (int \<times> dyn_buf \<times> mem) option" where
  "dyn_buf_append_char m c db = ensure_then_put m 1 [c] db"

text \<open>\<open>dyn_buf_append_json_string\<close>: the first pass computes the length, the second writes.\<close>

definition dyn_escape_char :: "char \<Rightarrow> string" where
  "dyn_escape_char c =
     (if c = CHR 0x22 then [CHR 0x5C, CHR 0x22]
      else if c = CHR 0x5C then [CHR 0x5C, CHR 0x5C]
      else if c = CHR 0x08 then [CHR 0x5C, CHR ''b'']
      else if c = CHR 0x0C then [CHR 0x5C, CHR ''f'']
      else if c = CHR 0x0A then [CHR 0x5C, CHR ''n'']
      else if c = CHR 0x0D then [CHR 0x5C, CHR ''r'']
      else if c = CHR 0x09 then [CHR 0x5C, CHR ''t'']
      else [c])"

fun dyn_escape_len :: "string \<Rightarrow> nat" where
  "dyn_escape_len [] = 0"
| "dyn_escape_len (c # s) =
     (if c \<in> {CHR 0x22, CHR 0x5C, CHR 0x08, CHR 0x0C, CHR 0x0A, CHR 0x0D, CHR 0x09} then 2 else 1) + dyn_escape_len s"

definition dyn_buf_append_json_string :: "mem \<Rightarrow> string \<Rightarrow> dyn_buf \<Rightarrow> (int \<times> dyn_buf \<times> mem) option" where
  "dyn_buf_append_json_string m str db =
     ensure_then_put m (2 + dyn_escape_len str)
       (CHR 0x22 # concat (map dyn_escape_char str) @ [CHR 0x22]) db"

definition dyn_buf_finalize :: "mem \<Rightarrow> dyn_buf \<Rightarrow> char list option \<times> dyn_buf \<times> mem" where
  "dyn_buf_finalize m db =
     (if db_buffer db = [] then (None, db, m)
      else let (ok, m1) = (if db_length db + 1 < db_capacity db div 2 then realloc_bytes m (db_length db + 1) else (False, m))
           in (Some (if ok then resize_bytes (db_buffer db) (db_length db + 1) else db_buffer db),
               \<lparr>db_buffer = [], db_length = 0, db_capacity = 0\<rparr>, m1))"

lemma dup_no_failure: "length s < 2 ^ 60 \<Longrightarrow> mcp_strdup [] (Some s) = (Some s, [])"
  by (simp add: mcp_strdup_def realloc_bytes_def)

section \<open>The text in the buffer\<close>

definition db_ok :: "dyn_buf \<Rightarrow> bool" where
  "db_ok db \<longleftrightarrow> length (db_buffer db) = db_capacity db \<and> db_length db < db_capacity db \<and>
     db_capacity db mod 8 = 0 \<and> db_buffer db ! db_length db = NUL"

definition db_text :: "dyn_buf \<Rightarrow> string" where
  "db_text db = take (db_length db) (db_buffer db)"

lemma double_until_Some:
  "0 < c \<Longrightarrow> \<exists>d. double_until required c = Some d \<and> required \<le> d \<and> d \<le> max c (2 * required)"
proof (induction "required - c" arbitrary: c rule: less_induct)
  case less
  show ?case
  proof (cases "c < required")
    case True
    then have "required - c * 2 < required - c" using less.prems by simp
    from less.hyps [OF this] less.prems True show ?thesis
      by (subst double_until.simps) fastforce
  next
    case False
    then show ?thesis by (subst double_until.simps) auto
  qed
qed

lemma align_up_8: "n \<le> align_up_8 n" "align_up_8 n mod 8 = 0" "align_up_8 n \<le> n + 7"
  by (auto simp: align_up_8_def)

text \<open>
  The result of an operation that appends \<open>s\<close>: on success the text is extended, on failure, which needs
  a failed allocation, it is unchanged.
\<close>

definition appended :: "mem \<Rightarrow> dyn_buf \<Rightarrow> string \<Rightarrow> (int \<times> dyn_buf \<times> mem) option \<Rightarrow> bool" where
  "appended m db s res \<longleftrightarrow> (\<exists>rc db' m'. res = Some (rc, db', m') \<and> db_ok db' \<and>
     (rc = 0 \<and> db_text db' = db_text db @ s \<or>
      rc = -1 \<and> db_text db' = db_text db \<and> (m \<noteq> [] \<or> 2 ^ 62 \<le> db_capacity db + length (db_text db @ s) + 64)) \<and>
     (m = [] \<longrightarrow> m' = []) \<and> db_capacity db' \<le> max (db_capacity db) (2 * (length (db_text db @ s) + 1) + 7))"

lemma db_text_length [simp]: "db_ok db \<Longrightarrow> length (db_text db) = db_length db"
  by (simp add: db_ok_def db_text_def)

lemma ensure_capacity_ok:
  assumes ok: "db_ok db"
  obtains rc db' m' where "dyn_buf_ensure_capacity m n db = Some (rc, db', m')" "db_ok db'" "db_text db' = db_text db"
    "db_length db' = db_length db" "rc = 0 \<and> db_length db + n < db_capacity db' \<or> rc = -1 \<and> (m \<noteq> [] \<or> 2 ^ 62 \<le> db_capacity db + db_length db + n + 64)"
    "m = [] \<longrightarrow> m' = []" "db_capacity db' \<le> max (db_capacity db) (2 * (db_length db + n + 1) + 7)"
proof (cases "db_length db + n + 1 \<le> db_capacity db")
  case True
  then show thesis using ok by (intro that [of 0 db m]) (auto simp: dyn_buf_ensure_capacity_def)
next
  case False
  let ?req = "db_length db + n + 1"
  have pos: "0 < db_capacity db" using ok by (simp add: db_ok_def)
  from double_until_Some [OF pos, of ?req] obtain d where
    d: "double_until ?req (db_capacity db) = Some d" "?req \<le> d" "d \<le> max (db_capacity db) (2 * ?req)" by blast
  define c where "c = align_up_8 d"
  have c: "d \<le> c" "c mod 8 = 0" "c \<le> d + 7" by (simp_all add: c_def align_up_8)
  obtain good m1 where r: "realloc_bytes m c = (good, m1)" by (cases "realloc_bytes m c")
  have m1: "m = [] \<longrightarrow> m1 = [] \<and> (good \<or> 2 ^ 63 \<le> c)" using r by (auto simp: realloc_bytes_def split: if_splits)
  have len: "db_length db < c" using d(2) c(1) by simp
  show thesis
  proof (cases good)
    case False
    have "2 ^ 62 \<le> db_capacity db + db_length db + n + 64" if "m = []"
      using m1 that False c(3) d(3) by auto
    then show thesis using ok False r d(1) pos \<open>\<not> ?req \<le> _\<close> m1
      by (intro that [of "-1" db m1]) (auto simp: dyn_buf_ensure_capacity_def Let_def c_def)
  next
    case True
    define db' where "db' = db\<lparr>db_buffer := resize_bytes (db_buffer db) c, db_capacity := c\<rparr>"
    have cap: "db_capacity db \<le> c" using False d(2) c(1) by simp
    have buf: "length (db_buffer db) = db_capacity db" "db_length db < db_capacity db" using ok by (simp_all add: db_ok_def)
    have "db_ok db'" using ok cap buf c(2) len by (simp add: db_ok_def db'_def resize_bytes_def nth_append)
    moreover have "db_text db' = db_text db" using cap buf by (simp add: db_text_def db'_def resize_bytes_def)
    moreover have "c \<le> max (db_capacity db) (2 * ?req + 7)" using c(3) d(3) False by simp
    ultimately show thesis using True r d False c(1) pos m1
      by (intro that [of 0 db' m1]) (auto simp: dyn_buf_ensure_capacity_def Let_def c_def [symmetric] db'_def)
  qed
qed

lemma put_text_ok:
  assumes ok: "db_ok db" and room: "db_length db + length s < db_capacity db"
  obtains db' where "put_text s db = Some db'" "db_ok db'" "db_text db' = db_text db @ s" "db_capacity db' = db_capacity db"
proof -
  let ?b = "db_buffer db" and ?n = "db_length db"
  have len: "length ?b = db_capacity db" using ok by (simp add: db_ok_def)
  define b1 where "b1 = memcpy_at ?b ?n s"
  define b2 where "b2 = memcpy_at b1 (?n + length s) [NUL]"
  have l1: "length b1 = length ?b" using room len by (simp add: b1_def memcpy_at_def)
  have l2: "length b2 = length ?b" using room len l1 by (simp add: b2_def memcpy_at_def)
  have t1: "take (?n + length s) b1 = db_text db @ s" using room len by (simp add: b1_def memcpy_at_def db_text_def)
  have t2: "take (?n + length s) b2 = take (?n + length s) b1" using room len l1 by (simp add: b2_def memcpy_at_def)
  have nul: "b2 ! (?n + length s) = NUL" using room len l1 by (simp add: b2_def memcpy_at_def nth_append)
  show thesis
    by (rule that [of "db\<lparr>db_buffer := b2, db_length := ?n + length s\<rparr>"])
      (use ok room len l1 l2 t1 t2 nul in \<open>auto simp: put_text_def buf_write_def b1_def [symmetric] b2_def [symmetric] db_ok_def db_text_def\<close>)
qed

lemma ensure_then_put_appended:
  assumes ok: "db_ok db" and n: "n = length s"
  shows "appended m db s (ensure_then_put m n s db)"
proof -
  obtain rc db1 m1 where e: "dyn_buf_ensure_capacity m n db = Some (rc, db1, m1)" "db_ok db1" "db_text db1 = db_text db"
    "db_length db1 = db_length db" "rc = 0 \<and> db_length db + n < db_capacity db1 \<or> rc = -1 \<and> (m \<noteq> [] \<or> 2 ^ 62 \<le> db_capacity db + db_length db + n + 64)"
    "m = [] \<longrightarrow> m1 = []" "db_capacity db1 \<le> max (db_capacity db) (2 * (db_length db + n + 1) + 7)"
    using ensure_capacity_ok [OF ok] .
  show ?thesis
  proof (cases "rc = 0")
    case True
    with e n have "db_length db1 + length s < db_capacity db1" by auto
    from put_text_ok [OF e(2) this] obtain db2 where "put_text s db1 = Some db2" "db_ok db2"
      "db_text db2 = db_text db1 @ s" "db_capacity db2 = db_capacity db1" .
    with e True n ok show ?thesis by (simp add: appended_def ensure_then_put_def)
  next
    case False
    with e n ok show ?thesis by (auto simp: appended_def ensure_then_put_def add.assoc)
  qed
qed

lemma append_appended: "db_ok db \<Longrightarrow> appended m db s (dyn_buf_append m s db)"
  using ensure_then_put_appended [of db "length s" s m] by (auto simp: dyn_buf_append_def appended_def)

lemma append_char_appended: "db_ok db \<Longrightarrow> appended m db [c] (dyn_buf_append_char m c db)"
  by (simp add: dyn_buf_append_char_def ensure_then_put_appended)

definition dyn_quoted :: "string \<Rightarrow> string" where
  "dyn_quoted s = CHR 0x22 # concat (map dyn_escape_char s) @ [CHR 0x22]"

lemma dyn_escape_len: "length (concat (map dyn_escape_char s)) = dyn_escape_len s"
  by (induction s) (auto simp: dyn_escape_char_def)

lemma append_json_appended: "db_ok db \<Longrightarrow> appended m db (dyn_quoted s) (dyn_buf_append_json_string m s db)"
  unfolding dyn_buf_append_json_string_def dyn_quoted_def
  by (rule ensure_then_put_appended) (simp_all add: dyn_escape_len)

lemma init_ok:
  assumes "dyn_buf_init m n = (rc, db, m')"
  shows "rc = 0 \<and> db_ok db \<and> db_text db = [] \<and> db_capacity db \<le> max n 64 + 7 \<or> rc = -1 \<and> db_buffer db = []"
    and "m = [] \<Longrightarrow> n < 2 ^ 62 \<Longrightarrow> rc = 0 \<and> m' = []"
proof -
  have a: "max n 64 \<le> align_up_8 (max n 64)" "align_up_8 (max n 64) mod 8 = 0" "align_up_8 (max n 64) \<le> max n 64 + 7"
    by (rule align_up_8)+
  then have pos: "0 < align_up_8 (max n 64)" by simp
  show "rc = 0 \<and> db_ok db \<and> db_text db = [] \<and> db_capacity db \<le> max n 64 + 7 \<or> rc = -1 \<and> db_buffer db = []"
    using assms a pos by (auto simp: dyn_buf_init_def DYN_BUF_MIN_CAPACITY_def db_ok_def db_text_def Let_def split: prod.splits if_splits)
  show "rc = 0 \<and> m' = []" if "m = []" "n < 2 ^ 62"
    using assms a that by (auto simp: dyn_buf_init_def DYN_BUF_MIN_CAPACITY_def realloc_bytes_def Let_def split: prod.splits if_splits)
qed

lemma finalize_ok:
  assumes "db_ok db"
  obtains rest db' m' where "dyn_buf_finalize m db = (Some (db_text db @ NUL # rest), db', m')" "m = [] \<longrightarrow> m' = []"
proof -
  let ?n = "db_length db" and ?b = "db_buffer db"
  have len: "?n < length ?b" "?b ! ?n = NUL" using assms by (simp_all add: db_ok_def)
  obtain good m1 where r: "(if ?n + 1 < db_capacity db div 2 then realloc_bytes m (?n + 1) else (False, m)) = (good, m1)"
    by (metis prod.exhaust)
  have "resize_bytes ?b (?n + 1) = db_text db @ NUL # []" "?b = db_text db @ NUL # drop (Suc ?n) ?b"
    using len id_take_nth_drop [OF len(1)] by (simp_all add: resize_bytes_def db_text_def take_Suc_conv_app_nth)
  moreover have "m = [] \<longrightarrow> m1 = []" using r by (auto simp: realloc_bytes_def split: if_splits)
  moreover have "?b \<noteq> []" using len by auto
  ultimately show thesis using r
    by (cases good) (auto intro!: that simp: dyn_buf_finalize_def)
qed


section \<open>Wildcards, splitting and comparison\<close>

lemma wildcard_match_iff:
  "mcp_wildcard_match (Some p) (Some t) \<longleftrightarrow> p = t \<or> (\<exists>q. p = q @ [STAR] \<and> prefix q t)"
proof (cases "STAR \<in> set p \<and> last p = STAR")
  case True
  then obtain q where p: "p = q @ [STAR]" by (metis append_butlast_last_id empty_iff empty_set)
  have "mcp_wildcard_match (Some p) (Some t) \<longleftrightarrow> q = take (length q) t" by (auto simp: mcp_wildcard_match_def p)
  also have "\<dots> \<longleftrightarrow> prefix q t" by (metis prefix_def append_take_drop_id append_eq_conv_conj)
  finally show ?thesis by (auto simp: p)
next
  case False
  then have "p \<noteq> q @ [STAR]" for q by auto
  with False show ?thesis by (auto simp: mcp_wildcard_match_def)
qed

lemma split_loop_joins:
  "concat (map (\<lambda>t. delimiter # t) (split_loop delimiter token s)) = delimiter # token @ s \<and>
   (delimiter \<notin> set token \<longrightarrow> (\<forall>t \<in> set (split_loop delimiter token s). delimiter \<notin> set t)) \<and>
   length (split_loop delimiter token s) = 1 + length (filter (\<lambda>c. c = delimiter) s)"
  by (induction delimiter token s rule: split_loop.induct) auto

lemma to_lower_pos: "c \<noteq> NUL \<Longrightarrow> to_lower c \<noteq> 0"
proof -
  assume "c \<noteq> NUL"
  moreover have "c = NUL" if "of_char c = (0 :: nat)" using that of_char_eq_iff [of c NUL, where ?'a = nat] by simp
  ultimately show ?thesis by (auto simp: to_lower_def Let_def)
qed

lemma stricmp_zero: "c_str_ok a \<Longrightarrow> c_str_ok b \<Longrightarrow> stricmp_loop a b = 0 \<longleftrightarrow> map to_lower a = map to_lower b"
  by (induction a b rule: stricmp_loop.induct) (auto dest: to_lower_pos)

text \<open>
  Escaping with \<open>dyn_buf_append_json_string\<close> and with the JSON stringifier agree on strings without the
  control characters the parser rejects.
\<close>

lemma dyn_quoted_eq: "\<forall>c \<in> set s. \<not> control_rejected c \<Longrightarrow> dyn_quoted s = quoted s"
proof -
  assume c: "\<forall>c \<in> set s. \<not> control_rejected c"
  have "dyn_escape_char c = escape_char c" if "\<not> control_rejected c" for c
    using that by (auto simp: dyn_escape_char_def escape_char_def control_rejected_def)
  with c show ?thesis by (simp add: dyn_quoted_def quoted_def escape_string_def cong: map_cong)
qed

section \<open>Properties\<close>

text \<open>Claim C37.  The wildcard matcher of the access rules grants exactly what a rule says: the name itself,
  or, for a rule that ends in a star, the names that start with what is before the star.  A star
  anywhere else stands for itself.\<close>

theorem wildcard_match_spec:
  "mcp_wildcard_match (Some p) (Some t) \<longleftrightarrow> p = t \<or> (\<exists>q. p = q @ ''*'' \<and> prefix q t)"
  by (rule wildcard_match_iff)

text \<open>The growing buffer collects text: starting from a well-formed buffer, every append ends,
  stays inside the buffer and either extends the text by exactly what was to be appended, or, for
  want of memory, returns -1 and leaves the text as it was; finalizing returns the text with its
  terminator.\<close>

theorem dyn_buf_collects:
  assumes "db_ok db"
  shows "(\<exists>rc db' m'. dyn_buf_append m s db = Some (rc, db', m') \<and> db_ok db' \<and>
      (rc = 0 \<and> db_text db' = db_text db @ s \<or> rc = -1 \<and> db_text db' = db_text db)) \<and>
    (\<exists>rc db' m'. dyn_buf_append_json_string m s db = Some (rc, db', m') \<and> db_ok db' \<and>
      (rc = 0 \<and> db_text db' = db_text db @ dyn_quoted s \<or> rc = -1 \<and> db_text db' = db_text db)) \<and>
    (\<exists>rest db' m'. dyn_buf_finalize m db = (Some (db_text db @ NUL # rest), db', m'))"
  using append_appended [OF assms, of m s] append_json_appended [OF assms, of m s] finalize_ok [OF assms, of m]
  unfolding appended_def by metis

theorem dyn_buf_collects_witness:
  "\<exists>db. fst (snd (dyn_buf_init [] 8)) = db \<and> (\<exists>rc db' m'. dyn_buf_append [] ''ab'' db = Some (rc, db', m') \<and>
     (rc = 0 \<and> db_text db' = db_text db @ ''ab'' \<or> rc = -1 \<and> db_text db' = db_text db))"
proof -
  obtain rc db m' where i: "dyn_buf_init [] 8 = (rc, db, m')" by (metis prod_cases3)
  with init_ok [OF i] have "db_ok db" by auto
  from dyn_buf_collects [OF this, of "[]" "''ab''"] i show ?thesis by auto
qed

end
