(* ===== verification/Mcp_Message.thy ===== *)
theory Mcp_Message
  imports Mcp_Json_Roundtrip Mcp_Strings
begin

text \<open>
  JSON-RPC messages: \<open>src/json/mcp_json_message.c\<close>, the request and response functions of
  \<open>src/json/mcp_json_rpc.c\<close> and \<open>src/server/mcp_server_response.c\<close>.

  The C type \<open>double\<close> is modelled by the real numbers with two infinities; the parser produces no NaN,
  since the text handed to \<open>strtod\<close> consists of digits, signs, a point and an exponent.  A conversion
  of a \<open>double\<close> to an integer type is undefined outside the range of the type: the result
  \<open>Undefined\<close>.  \<open>strtod\<close>, the text \<open>%.17g\<close> gives for a number, and the initial buffer size
  \<open>estimate_json_size\<close> chooses are parameters, bundled with the answers of the allocator for the parts
  of one call in the record \<open>json_env\<close>.
\<close>

section \<open>Numbers\<close>

datatype double = Finite real | Infinite bool

definition truncate_real :: "real \<Rightarrow> int" where
  "truncate_real v = (if 0 \<le> v then \<lfloor>v\<rfloor> else \<lceil>v\<rceil>)"

definition cast_u64 :: "double \<Rightarrow> size_t checked" where
  "cast_u64 d = (case d of
       Finite v \<Rightarrow> (if - 1 < v \<and> v < 2 ^ 64 then Done (word_of_int (truncate_real v)) else Undefined)
     | Infinite _ \<Rightarrow> Undefined)"

definition cast_int :: "double \<Rightarrow> int checked" where
  "cast_int d = (case d of
       Finite v \<Rightarrow> (if - (2 ^ 31) - 1 < v \<and> v < 2 ^ 31 then Done (truncate_real v) else Undefined)
     | Infinite _ \<Rightarrow> Undefined)"

definition digit_char :: "nat \<Rightarrow> char" where
  "digit_char n = char_of (48 + n)"

fun decimal :: "nat \<Rightarrow> string" where
  "decimal n = (if n < 10 then [digit_char n] else decimal (n div 10) @ [digit_char (n mod 10)])"

declare decimal.simps [simp del]

definition decimal_int :: "int \<Rightarrow> string" where
  "decimal_int i = (if i < 0 then CHR ''-'' # decimal (nat (- i)) else decimal (nat i))"

section \<open>Messages\<close>

datatype mcp_message =
    Request (request_id: size_t) (request_method: string) (request_params: "string option")
  | Response size_t int "string option" "string option"   \<comment> \<open>id, error code, error message, result\<close>
  | Notification string "string option"
  | Invalid

abbreviation (input) MCP_ERROR_NONE :: int where "MCP_ERROR_NONE \<equiv> 0"
abbreviation (input) MCP_ERROR_PARSE_ERROR :: int where "MCP_ERROR_PARSE_ERROR \<equiv> -32700"
abbreviation (input) MCP_ERROR_INVALID_REQUEST :: int where "MCP_ERROR_INVALID_REQUEST \<equiv> -32600"
abbreviation (input) MCP_ERROR_METHOD_NOT_FOUND :: int where "MCP_ERROR_METHOD_NOT_FOUND \<equiv> -32601"
abbreviation (input) MCP_ERROR_INVALID_PARAMS :: int where "MCP_ERROR_INVALID_PARAMS \<equiv> -32602"
abbreviation (input) MCP_ERROR_INTERNAL_ERROR :: int where "MCP_ERROR_INTERNAL_ERROR \<equiv> -32603"
abbreviation (input) MCP_ERROR_TRANSPORT_ERROR :: int where "MCP_ERROR_TRANSPORT_ERROR \<equiv> -32100"

record json_env =
  env_strtod :: "double strtod"
  env_format :: "double \<Rightarrow> string"
  env_estimate :: "double json \<Rightarrow> nat"
  env_parse_mem :: mem      \<comment> \<open>for \<open>mcp_json_parse\<close>\<close>
  env_dup_mem :: mem        \<comment> \<open>for \<open>mcp_strdup\<close> and \<open>malloc\<close>\<close>
  env_text_mem :: mem       \<comment> \<open>for \<open>mcp_json_stringify\<close>\<close>

definition mcp_json_stringify :: "json_env \<Rightarrow> double json \<Rightarrow> string option checked" where
  "mcp_json_stringify env j =
     (case stringify_with_capacity (env_format env) (env_text_mem env) (Some j) (env_estimate env j) of
        Wrote txt \<Rightarrow> Done (Some (c_string txt))
      | Failed \<Rightarrow> Done None
      | _ \<Rightarrow> Undefined)"

definition params_ok :: "double json option \<Rightarrow> bool" where
  "params_ok params = (case params of None \<Rightarrow> True | Some (JObject _) \<Rightarrow> True | Some (JArray _ _) \<Rightarrow> True | _ \<Rightarrow> False)"

text \<open>The copies of the method and of the parameters, common to requests and notifications.\<close>

definition copy_call :: "json_env \<Rightarrow> string \<Rightarrow> double json option \<Rightarrow> (string \<times> string option) option checked" where
  "copy_call env meth params =
     (let (dup, _) = mcp_strdup (env_dup_mem env) (Some meth)
      in case params of
           None \<Rightarrow> Done (case dup of None \<Rightarrow> None | Some s \<Rightarrow> Some (s, None))
         | Some p \<Rightarrow>
             (case mcp_json_stringify env p of
                Undefined \<Rightarrow> Undefined
              | Done txt \<Rightarrow> Done (case (dup, txt) of (Some s, Some t) \<Rightarrow> Some (s, Some t) | _ \<Rightarrow> None)))"

text \<open>
  \<open>parse_single_message_from_json\<close>: the message, or \<open>None\<close> for the status -1.
  \<open>mcp_json_parse_message\<close> has the same code behind the parsing of the text.
\<close>

definition parse_call :: "json_env \<Rightarrow> double json option \<Rightarrow> string \<Rightarrow> double json option \<Rightarrow> mcp_message option checked" where
  "parse_call env i meth params =
     (case i of
        Some (JNumber d) \<Rightarrow>
          (if \<not> params_ok params then Done None
           else case cast_u64 d of
                  Undefined \<Rightarrow> Undefined
                | Done n \<Rightarrow>
                    (case copy_call env meth params of
                       Undefined \<Rightarrow> Undefined
                     | Done None \<Rightarrow> Done None
                     | Done (Some (m, p)) \<Rightarrow> Done (Some (Request n m p))))
      | Some _ \<Rightarrow> Done None
      | None \<Rightarrow>
          (if \<not> params_ok params then Done None
           else case copy_call env meth params of
                  Undefined \<Rightarrow> Undefined
                | Done None \<Rightarrow> Done None
                | Done (Some (m, p)) \<Rightarrow> Done (Some (Notification m p))))"

definition parse_reply ::
    "json_env \<Rightarrow> double json option \<Rightarrow> double json option \<Rightarrow> double json option \<Rightarrow> mcp_message option checked" where
  "parse_reply env i result err =
     (if i = None \<or> result = None \<and> err = None then Done None
      else case i of
             Some (JNumber d) \<Rightarrow>
               (case cast_u64 d of
                  Undefined \<Rightarrow> Undefined
                | Done n \<Rightarrow>
                    (case (err, result) of
                       (Some (JObject e), Some _) \<Rightarrow> Done None
                     | (Some (JObject e), None) \<Rightarrow>
                         (case (mcp_json_object_get_property err ''code'', mcp_json_object_get_property err ''message'') of
                            (Some (JNumber c), Some (JString msg)) \<Rightarrow>
                              (case cast_int c of
                                 Undefined \<Rightarrow> Undefined
                               | Done code \<Rightarrow>
                                   (case mcp_strdup (env_dup_mem env) (Some msg) of
                                      (None, _) \<Rightarrow> Done None
                                    | (Some s, _) \<Rightarrow> Done (Some (Response n code (Some s) None))))
                          | _ \<Rightarrow> Done None)
                     | (_, Some r) \<Rightarrow>
                         (case mcp_json_stringify env r of
                            Undefined \<Rightarrow> Undefined
                          | Done None \<Rightarrow> Done None
                          | Done (Some txt) \<Rightarrow> Done (Some (Response n MCP_ERROR_NONE None (Some txt))))
                     | _ \<Rightarrow> Done None))
           | _ \<Rightarrow> Done None)"

definition parse_single_message_from_json :: "json_env \<Rightarrow> double json option \<Rightarrow> mcp_message option checked" where
  "parse_single_message_from_json env json =
     (case json of
        Some (JObject _) \<Rightarrow>
          (case mcp_json_object_get_property json ''method'' of
             Some (JString meth) \<Rightarrow>
               parse_call env (mcp_json_object_get_property json ''id'') meth (mcp_json_object_get_property json ''params'')
           | _ \<Rightarrow>
               parse_reply env (mcp_json_object_get_property json ''id'')
                 (mcp_json_object_get_property json ''result'') (mcp_json_object_get_property json ''error''))
      | _ \<Rightarrow> Done None)"

definition mcp_json_parse_message :: "json_env \<Rightarrow> string \<Rightarrow> mcp_message option checked" where
  "mcp_json_parse_message env json_str =
     (case mcp_json_parse (env_strtod env) (env_parse_mem env) (Some json_str) of
        OutOfBounds \<Rightarrow> Undefined
      | Null \<Rightarrow> Done None
      | Ok j \<Rightarrow> parse_single_message_from_json env (Some j))"

text \<open>
  The loop over a batch.  The array keeps an entry, possibly \<open>Invalid\<close>, for every item; the count is
  the number of the items that were parsed.  Each item has its own allocator answers.
\<close>

fun parse_batch_items :: "(nat \<Rightarrow> json_env) \<Rightarrow> nat \<Rightarrow> double json list \<Rightarrow> (mcp_message list \<times> nat) checked" where
  "parse_batch_items envs i [] = Done ([], 0)"
| "parse_batch_items envs i (j # js) =
     (case parse_single_message_from_json (envs i) (Some j) of
        Undefined \<Rightarrow> Undefined
      | Done r \<Rightarrow>
          (case parse_batch_items envs (Suc i) js of
             Undefined \<Rightarrow> Undefined
           | Done (ms, n) \<Rightarrow> Done (case r of None \<Rightarrow> (Invalid # ms, n) | Some msg \<Rightarrow> (msg # ms, Suc n))))"

text \<open>\<open>mcp_json_parse_message_or_batch\<close>: the status, the array (\<open>None\<close> for NULL) and the count.\<close>

definition mcp_json_parse_message_or_batch ::
    "json_env \<Rightarrow> (nat \<Rightarrow> json_env) \<Rightarrow> string \<Rightarrow> (int \<times> mcp_message list option \<times> nat) checked" where
  "mcp_json_parse_message_or_batch env envs json_str =
     (let first = peek (skip_whitespace json_str)
      in if first \<noteq> CHR ''['' \<and> first \<noteq> CHR ''{'' then Done (MCP_ERROR_PARSE_ERROR, None, 0)
         else case mcp_json_parse (env_strtod env) (env_parse_mem env) (Some json_str) of
                OutOfBounds \<Rightarrow> Undefined
              | Null \<Rightarrow> Done (MCP_ERROR_PARSE_ERROR, None, 0)
              | Ok (JObject t) \<Rightarrow>
                  (if \<not> fst (mem_alloc (env_dup_mem env)) then Done (MCP_ERROR_INTERNAL_ERROR, None, 0)
                   else case parse_single_message_from_json (envs 0) (Some (JObject t)) of
                          Undefined \<Rightarrow> Undefined
                        | Done (Some msg) \<Rightarrow> Done (0, Some [msg], 1)
                        | Done None \<Rightarrow> Done (MCP_ERROR_INVALID_REQUEST, None, 0))
              | Ok (JArray items _) \<Rightarrow>
                  (if items = [] then Done (0, None, 0)
                   else if \<not> fst (mem_alloc (env_dup_mem env)) then Done (MCP_ERROR_INTERNAL_ERROR, None, 0)
                   else case parse_batch_items envs 0 items of
                          Undefined \<Rightarrow> Undefined
                        | Done (ms, n) \<Rightarrow> Done (0, Some ms, n))
              | Ok _ \<Rightarrow> Done (MCP_ERROR_INVALID_REQUEST, None, 0))"

section \<open>Building messages\<close>

datatype piece = Raw string | Quoted string

text \<open>
  The appends of \<open>mcp_json_stringify_message\<close>, whose results are not looked at.
\<close>

fun append_pieces :: "mem \<Rightarrow> piece list \<Rightarrow> dyn_buf \<Rightarrow> (dyn_buf \<times> mem) option" where
  "append_pieces m [] db = Some (db, m)"
| "append_pieces m (p # ps) db =
     (case (case p of Raw s \<Rightarrow> dyn_buf_append m s db | Quoted s \<Rightarrow> dyn_buf_append_json_string m s db) of
        None \<Rightarrow> None
      | Some (_, db', m') \<Rightarrow> append_pieces m' ps db')"

abbreviation Q :: string where "Q \<equiv> [CHR 0x22]"

definition opt_len :: "string option \<Rightarrow> nat \<Rightarrow> nat" where
  "opt_len s extra = (case s of None \<Rightarrow> 0 | Some t \<Rightarrow> length t + extra)"

definition initial_size :: "mcp_message \<Rightarrow> nat" where
  "initial_size msg = (case msg of
       Request i meth params \<Rightarrow> 64 + 32 + (length meth + 12) + opt_len params 10
     | Response i code err result \<Rightarrow>
         64 + 32 + (if code \<noteq> MCP_ERROR_NONE then 32 + opt_len err 14
                    else case result of Some r \<Rightarrow> length r + 10 | None \<Rightarrow> 14)
     | Notification meth params \<Rightarrow> 64 + (length meth + 12) + opt_len params 10
     | Invalid \<Rightarrow> 0)"

definition params_pieces :: "string option \<Rightarrow> piece list" where
  "params_pieces params = (case params of None \<Rightarrow> [] | Some p \<Rightarrow> [Raw ('','' @ Q @ ''params'' @ Q @ '':''), Raw p])"

definition message_pieces :: "mcp_message \<Rightarrow> piece list" where
  "message_pieces msg = (case msg of
       Request i meth params \<Rightarrow>
         [Raw (Q @ ''id'' @ Q @ '':''), Raw (decimal (unat i)), Raw '','', Raw (Q @ ''method'' @ Q @ '':''), Quoted meth]
         @ params_pieces params
     | Response i code err result \<Rightarrow>
         [Raw (Q @ ''id'' @ Q @ '':''), Raw (decimal (unat i))] @
         (if code \<noteq> MCP_ERROR_NONE
          then [Raw ('','' @ Q @ ''error'' @ Q @ '':{'' @ Q @ ''code'' @ Q @ '':''), Raw (decimal_int code),
                Raw ('','' @ Q @ ''message'' @ Q @ '':''), Quoted (case err of None \<Rightarrow> [] | Some e \<Rightarrow> e), Raw ''}'']
          else [Raw ('','' @ Q @ ''result'' @ Q @ '':''), Raw (case result of None \<Rightarrow> ''null'' | Some r \<Rightarrow> r)])
     | Notification meth params \<Rightarrow> [Raw (Q @ ''method'' @ Q @ '':''), Quoted meth] @ params_pieces params
     | Invalid \<Rightarrow> [])"

definition mcp_json_stringify_message :: "mem \<Rightarrow> mcp_message \<Rightarrow> string option checked" where
  "mcp_json_stringify_message m msg =
     (if msg = Invalid then Done None
      else let (rc, db, m1) = dyn_buf_init m (initial_size msg)
           in if rc \<noteq> 0 then Done None
              else case append_pieces m1 ([Raw (''{'' @ Q @ ''jsonrpc'' @ Q @ '':'' @ Q @ ''2.0'' @ Q @ '','')]
                                          @ message_pieces msg @ [Raw ''}'']) db of
                     None \<Rightarrow> Undefined
                   | Some (db', m2) \<Rightarrow>
                       (case dyn_buf_finalize m2 db' of
                          (None, _, _) \<Rightarrow> Done None
                        | (Some buf, _, _) \<Rightarrow> Done (Some (c_string buf))))"

definition create_error_response :: "mem \<Rightarrow> size_t \<Rightarrow> int \<Rightarrow> string \<Rightarrow> string option checked" where
  "create_error_response m i code msg = mcp_json_stringify_message m (Response i code (Some msg) None)"

definition create_success_response :: "mem \<Rightarrow> size_t \<Rightarrow> string option \<Rightarrow> string option checked" where
  "create_success_response m i result_str = mcp_json_stringify_message m (Response i MCP_ERROR_NONE None result_str)"

section \<open>The client's side\<close>

definition get_number_property :: "double json option \<Rightarrow> string \<Rightarrow> double option" where
  "get_number_property obj key =
     (case mcp_json_object_get_property obj key of Some (JNumber d) \<Rightarrow> Some d | _ \<Rightarrow> None)"

definition get_string_property :: "double json option \<Rightarrow> string \<Rightarrow> string option" where
  "get_string_property obj key =
     (case mcp_json_object_get_property obj key of Some (JString s) \<Rightarrow> Some s | _ \<Rightarrow> None)"

definition id_rejected :: "double \<Rightarrow> bool" where
  "id_rejected d = (case d of
       Finite v \<Rightarrow> v < 0 \<or> v \<noteq> real_of_int \<lfloor>v\<rfloor> \<or> 2 ^ 64 < v
     | Infinite neg \<Rightarrow> True)"

definition code_rejected :: "double \<Rightarrow> bool" where
  "code_rejected d = (case d of
       Finite v \<Rightarrow> v \<noteq> real_of_int \<lfloor>v\<rfloor> \<or> v < - (2 ^ 31) \<or> 2 ^ 31 - 1 < v
     | Infinite neg \<Rightarrow> True)"

record response =
  resp_id :: size_t
  resp_error_code :: int
  resp_error_message :: "string option"
  resp_result :: "string option"

text \<open>\<open>mcp_json_parse_response\<close>: the response, or \<open>None\<close> for the status -1.\<close>

definition parse_response_body :: "json_env \<Rightarrow> size_t \<Rightarrow> double json option \<Rightarrow> response option checked" where
  "parse_response_body env i json =
     (case mcp_json_object_get_property json ''error'' of
        Some (JObject e) \<Rightarrow>
          (case get_number_property (Some (JObject e)) ''code'' of
             None \<Rightarrow> Done None
           | Some c \<Rightarrow>
               (if code_rejected c then Done None
                else case cast_int c of
                       Undefined \<Rightarrow> Undefined
                     | Done code \<Rightarrow>
                         (case get_string_property (Some (JObject e)) ''message'' of
                            None \<Rightarrow> Done (Some \<lparr>resp_id = i, resp_error_code = code, resp_error_message = None, resp_result = None\<rparr>)
                          | Some msg \<Rightarrow>
                              (case mcp_strdup (env_dup_mem env) (Some msg) of
                                 (None, _) \<Rightarrow> Done None
                               | (Some s, _) \<Rightarrow>
                                   Done (Some \<lparr>resp_id = i, resp_error_code = code, resp_error_message = Some s, resp_result = None\<rparr>)))))
      | _ \<Rightarrow>
          (case mcp_json_object_get_property json ''result'' of
             None \<Rightarrow> Done None
           | Some r \<Rightarrow>
               (case mcp_json_stringify env r of
                  Undefined \<Rightarrow> Undefined
                | Done None \<Rightarrow> Done None
                | Done (Some txt) \<Rightarrow>
                    Done (Some \<lparr>resp_id = i, resp_error_code = MCP_ERROR_NONE, resp_error_message = None, resp_result = Some txt\<rparr>))))"

definition mcp_json_parse_response :: "json_env \<Rightarrow> string \<Rightarrow> response option checked" where
  "mcp_json_parse_response env json_str =
     (case mcp_json_parse (env_strtod env) (env_parse_mem env) (Some json_str) of
        OutOfBounds \<Rightarrow> Undefined
      | Ok (JObject t) \<Rightarrow>
          (case get_number_property (Some (JObject t)) ''id'' of
             None \<Rightarrow> Done None
           | Some d \<Rightarrow>
               (if id_rejected d then Done None
                else case cast_u64 d of
                       Undefined \<Rightarrow> Undefined
                     | Done i \<Rightarrow> parse_response_body env i (Some (JObject t))))
      | _ \<Rightarrow> Done None)"

text \<open>
  \<open>mcp_json_format_request_direct\<close>: \<open>snprintf\<close> writes at most \<open>size - 1\<close> characters and returns the
  length the whole text has.
\<close>

definition mcp_json_format_request_direct :: "mem \<Rightarrow> size_t \<Rightarrow> string option \<Rightarrow> string option \<Rightarrow> string option" where
  "mcp_json_format_request_direct m i meth params =
     (case meth of
        None \<Rightarrow> None
      | Some mt \<Rightarrow>
          (let buffer_size = 32 + length mt + 2 + (case params of None \<Rightarrow> 0 | Some p \<Rightarrow> 11 + length p) + 2;
               (ok, _) = realloc_bytes m buffer_size;
               text1 = ''{'' @ Q @ ''jsonrpc'' @ Q @ '':'' @ Q @ ''2.0'' @ Q @ '','' @ Q @ ''id'' @ Q @ '':'' @ decimal (unat i) @
                       '','' @ Q @ ''method'' @ Q @ '':'' @ Q @ mt @ Q;
               text2 = (case params of None \<Rightarrow> [] | Some p \<Rightarrow> '','' @ Q @ ''params'' @ Q @ '':'' @ p)
           in if \<not> ok then None
              else if buffer_size \<le> length text1 then None
              else if params \<noteq> None \<and> buffer_size \<le> length text1 + length text2 then None
              else if length text1 + length text2 + 2 \<le> buffer_size then Some (text1 @ text2 @ ''}'')
              else None))"


section \<open>The text of a message\<close>

definition piece_text :: "piece \<Rightarrow> string" where
  "piece_text p = (case p of Raw s \<Rightarrow> s | Quoted s \<Rightarrow> dyn_quoted s)"

lemma piece_text_simps [simp]: "piece_text (Raw s) = s" "piece_text (Quoted s) = dyn_quoted s"
  by (simp_all add: piece_text_def)

lemma append_pieces_ok:
  assumes "db_ok db"
  shows "\<exists>db' m'. append_pieces m ps db = Some (db', m') \<and> db_ok db' \<and>
    (m = [] \<and> db_capacity db \<le> 2 ^ 61 \<and> length (db_text db @ concat (map piece_text ps)) < 2 ^ 59 \<longrightarrow>
     db_text db' = db_text db @ concat (map piece_text ps) \<and> m' = [] \<and> db_capacity db' \<le> 2 ^ 61)"
  using assms
proof (induction ps arbitrary: m db)
  case (Cons p ps)
  have "appended m db (piece_text p) (case p of Raw s \<Rightarrow> dyn_buf_append m s db | Quoted s \<Rightarrow> dyn_buf_append_json_string m s db)"
    using append_appended [OF Cons.prems] append_json_appended [OF Cons.prems] by (cases p) simp_all
  then obtain rc db1 m1 where r: "(case p of Raw s \<Rightarrow> dyn_buf_append m s db | Quoted s \<Rightarrow> dyn_buf_append_json_string m s db) = Some (rc, db1, m1)"
    and ok1: "db_ok db1" and t1: "rc = 0 \<and> db_text db1 = db_text db @ piece_text p \<or>
      rc = -1 \<and> db_text db1 = db_text db \<and> (m \<noteq> [] \<or> 2 ^ 62 \<le> db_capacity db + length (db_text db @ piece_text p) + 64)"
    and m1: "m = [] \<longrightarrow> m1 = []" and c1: "db_capacity db1 \<le> max (db_capacity db) (2 * (length (db_text db @ piece_text p) + 1) + 7)"
    unfolding appended_def by blast
  from Cons.IH [OF ok1, of m1] obtain db' m' where
    i: "append_pieces m1 ps db1 = Some (db', m')" "db_ok db'"
       "m1 = [] \<and> db_capacity db1 \<le> 2 ^ 61 \<and> length (db_text db1 @ concat (map piece_text ps)) < 2 ^ 59 \<longrightarrow>
        db_text db' = db_text db1 @ concat (map piece_text ps) \<and> m' = [] \<and> db_capacity db' \<le> 2 ^ 61" by blast
  have "db_text db' = db_text db @ concat (map piece_text (p # ps)) \<and> m' = [] \<and> db_capacity db' \<le> 2 ^ 61"
    if h: "m = []" "db_capacity db \<le> 2 ^ 61" "length (db_text db @ concat (map piece_text (p # ps))) < 2 ^ 59"
  proof -
    have len: "length (db_text db @ piece_text p) < 2 ^ 59" using h(3) by simp
    then have "rc = 0" "db_text db1 = db_text db @ piece_text p" using t1 h(1,2) by auto
    moreover have "db_capacity db1 \<le> 2 ^ 61" using c1 h(2) len by simp
    ultimately show ?thesis using i(3) m1 h by simp
  qed
  then show ?case using r i by simp
qed simp

definition message_text :: "mcp_message \<Rightarrow> string" where
  "message_text msg = ''{'' @ Q @ ''jsonrpc'' @ Q @ '':'' @ Q @ ''2.0'' @ Q @ '','' @
     concat (map piece_text (message_pieces msg)) @ ''}''"

lemma length_le_dyn_escape_len: "length s \<le> dyn_escape_len s"
  by (induction s) auto

lemma initial_size_le: "initial_size msg \<le> 220 + length (message_text msg)"
  by (cases msg) (auto intro!: order.trans [OF length_le_dyn_escape_len] simp: initial_size_def message_text_def message_pieces_def params_pieces_def opt_len_def dyn_quoted_def
      dyn_escape_len split: option.splits)

lemma stringify_message_ok:
  assumes "msg \<noteq> Invalid" "c_str_ok (message_text msg)" "length (message_text msg) < 2 ^ 59"
  shows "mcp_json_stringify_message [] msg = Done (Some (message_text msg))"
proof -
  obtain rc db m1 where i: "dyn_buf_init [] (initial_size msg) = (rc, db, m1)" by (metis prod_cases3)
  have "initial_size msg < 2 ^ 60" using initial_size_le [of msg] assms(3) by simp
  with init_ok [OF i] have rc: "rc = 0" "m1 = []" "db_ok db" "db_text db = []" "db_capacity db \<le> 2 ^ 61" by auto
  let ?ps = "[Raw (''{'' @ Q @ ''jsonrpc'' @ Q @ '':'' @ Q @ ''2.0'' @ Q @ '','')] @ message_pieces msg @ [Raw ''}'']"
  have tx: "concat (map piece_text ?ps) = message_text msg" by (simp add: message_text_def)
  from append_pieces_ok [OF rc(3), of "[]" ?ps] obtain db' where
    a: "append_pieces [] ?ps db = Some (db', [])" "db_ok db'" "db_text db' = message_text msg"
    using rc assms(3) unfolding tx by auto
  obtain rest db2 m2 where "dyn_buf_finalize [] db' = (Some (db_text db' @ NUL # rest), db2, m2)"
    using finalize_ok [OF a(2)] by blast
  moreover have "c_string (message_text msg @ NUL # rest) = message_text msg" by (rule c_string_append_NUL [OF assms(2)])
  ultimately show ?thesis using assms(1) i rc a by (simp add: mcp_json_stringify_message_def)
qed

section \<open>Reading the text of a message\<close>

text \<open>
  What is used of \<open>strtod\<close>: it is exact on the decimal texts of the integers up to \<open>2 ^ 53\<close>, which a
  \<open>double\<close> represents.
\<close>

definition reads_integers :: "double strtod \<Rightarrow> bool" where
  "reads_integers strtod \<longleftrightarrow>
     (\<forall>i rest. \<bar>i\<bar> \<le> 2 ^ 53 \<and> follow rest \<longrightarrow> strtod (decimal_int i @ rest) = (Finite (of_int i), rest))"

lemma digit_char: "n < 10 \<Longrightarrow> is_digit (digit_char n) \<and> digit_char n \<noteq> NUL"
proof -
  assume "n < 10"
  then have "of_char (digit_char n) = 48 + n" by (simp add: digit_char_def)
  then show ?thesis using \<open>n < 10\<close> by (auto simp: is_digit_def)
qed

lemma decimal_digits: "decimal n \<noteq> [] \<and> (\<forall>c \<in> set (decimal n). is_digit c \<and> c \<noteq> NUL)"
proof (induction n rule: decimal.induct)
  case (1 n)
  then show ?case using digit_char [of n] digit_char [of "n mod 10"] by (subst (1 2) decimal.simps) auto
qed

lemma decimal_length: "0 < k \<Longrightarrow> n < 10 ^ k \<Longrightarrow> length (decimal n) \<le> k"
proof (induction n arbitrary: k rule: decimal.induct)
  case (1 n)
  show ?case
  proof (cases "n < 10")
    case True
    then show ?thesis using 1 by (subst decimal.simps) simp
  next
    case False
    then obtain k' where k: "k = Suc k'" "0 < k'" using 1 by (cases k; cases "k - 1") auto
    with 1 False have "length (decimal (n div 10)) \<le> k'" by (intro "1.IH") auto
    then show ?thesis using False k by (subst decimal.simps) simp
  qed
qed

lemma decimal_id_length: "length (decimal (unat (i :: size_t))) \<le> 20"
proof (rule decimal_length)
  have "unat i < 2 ^ 64" using unsigned_less [of i, where ?'a = nat] by simp
  also have "\<dots> \<le> 10 ^ 20" by simp
  finally show "unat i < 10 ^ 20" .
qed simp

lemma decimal_int_length:
  assumes "\<bar>i\<bar> < 10 ^ k" "0 < k"
  shows "length (decimal_int i) \<le> Suc k"
proof -
  have "nat \<bar>i\<bar> < 10 ^ k" using assms(1) by (simp add: nat_less_iff)
  from decimal_length [OF assms(2) this] show ?thesis by (simp add: decimal_int_def abs_if split: if_splits)
qed

lemma scan_decimal_int: "scan_number (decimal_int i) = Some []" "c_str_ok (decimal_int i)"
proof -
  have d: "skip_digits (decimal n) = Some []" "peek (decimal n) \<noteq> CHR ''-''" for n
  proof -
    have p: "is_digit (peek (decimal n))" using decimal_digits [of n] by (cases "decimal n") auto
    then show "peek (decimal n) \<noteq> CHR ''-''" by (auto simp: is_digit_def)
    have "dropWhile is_digit (decimal n) = []" using decimal_digits [of n] by (simp add: dropWhile_eq_Nil_conv)
    with p show "skip_digits (decimal n) = Some []" by (simp add: skip_digits_def)
  qed
  then show "scan_number (decimal_int i) = Some []"
    by (auto simp: scan_number_def decimal_int_def scan_fraction_def scan_exponent_def)
  show "c_str_ok (decimal_int i)" using decimal_digits by (auto simp: c_str_ok_def decimal_int_def)
qed

lemma integer_reads_as:
  assumes "reads_integers strtod" "\<bar>i\<bar> \<le> 2 ^ 53"
  shows "reads_as strtod d (decimal_int i) (VNumber (Finite (of_int i)))"
proof -
  have "number_roundtrip strtod (\<lambda>_. decimal_int i) (Finite (of_int i))"
    using assms by (simp add: number_roundtrip_def scan_decimal_int reads_integers_def)
  moreover have "length (decimal_int i) < 2 ^ 56"
    using decimal_int_length [of i 20] assms(2) by simp
  ultimately show ?thesis
    using scalar_reads [of "JNumber (Finite (of_int i))" strtod "\<lambda>_. decimal_int i" d] by (simp add: reads_def)
qed

definition id_value :: "size_t \<Rightarrow> double" where
  "id_value i = Finite (real (unat i))"

lemma id_reads_as:
  assumes "reads_integers strtod" "unat i \<le> 2 ^ 53"
  shows "reads_as strtod d (decimal (unat i)) (VNumber (id_value i))"
proof -
  have "\<bar>int (unat i)\<bar> \<le> 2 ^ 53"
    using of_nat_mono [OF assms(2), where ?'a = int] by (simp only: abs_of_nat of_nat_power of_nat_numeral)
  from integer_reads_as [OF assms(1) this, of d] show ?thesis
    by (simp only: decimal_int_def of_int_of_nat_eq nat_int id_value_def) simp
qed

lemma string_reads_as:
  assumes "c_str_ok s" "length (quoted s) < 2 ^ 56"
  shows "reads_as strtod d (quoted s) (VString s)"
  using scalar_reads [of "JString s" strtod "\<lambda>_. []" d] assms by (simp add: reads_def)

text \<open>
  The members of the text of a message, with the text \<open>ptext\<close> and the value \<open>pval\<close> of the parameters
  or of the result.
\<close>

lemma parse_members_text:
  assumes "\<forall>e \<in> set es. member_reads strtod 1 e" "distinct (map fst es)" "length es < 2 ^ 56"
  shows "\<exists>t. mcp_json_parse strtod [] (Some (''{'' @ comma_sep (map member es) @ ''}'')) = Ok (JObject t) \<and>
    json_ok (JObject t) \<and> jdepth (JObject t) \<le> 101 \<and>
    (\<forall>x. map_option jabs (mcp_json_object_get_property (Some (JObject t)) x) = map_option snd (map_of es x))"
proof -
  let ?s = "''{'' @ comma_sep (map member es) @ ''}''"
  have "reads_as strtod 0 ?s (VObject (\<lambda>x. map_option snd (map_of es x)))"
    using object_text_reads [of es strtod 0] assms by simp
  then obtain j where j: "parse_value strtod [] ?s 0 = Ok (j, [], [])" "jabs j = VObject (\<lambda>x. map_option snd (map_of es x))"
    unfolding reads_as_def by (metis append_Nil2 follow_def)
  then obtain t where t: "j = JObject t" by (cases j) auto
  have ok: "json_ok j" "jdepth j \<le> 101" using parse_shape(1) [OF j(1)] by auto
  have inv: "ht_inv json_ops t" using ok t by simp
  have "mcp_json_parse strtod [] (Some ?s) = Ok j"
    using j(1) by (simp add: mcp_json_parse_def) (simp add: skip_whitespace_def)
  moreover have "map_option jabs (ht_map json_ops t x) = map_option snd (map_of es x)" for x
    using j(2) unfolding t jabs_JObject [OF inv] by (simp add: fun_eq_iff)
  ultimately show ?thesis using ok by (intro exI [of _ t]) (simp only: t get_property_map simp_thms)
qed

lemma mcp_json_stringify_ok:
  assumes "json_ok j" "printable (env_format env) j" "env_text_mem env = []" "env_estimate env j < 2 ^ 63"
    "\<forall>d \<in> set_json j. number_roundtrip strtod (env_format env) d" "length (render (env_format env) j) < 2 ^ 56"
  shows "mcp_json_stringify env j = Done (Some (render (env_format env) j))"
proof -
  obtain rest where "stringify_with_capacity (env_format env) [] (Some j) (env_estimate env j) = Wrote (render (env_format env) j @ NUL # rest)"
    using stringify_with_capacity_ok [OF stringify_value_appends [OF assms(2)], where json = "Some j" and fmt = "env_format env" and m = "[]"
        and n = "env_estimate env j"] assms(4,6) by auto
  then show ?thesis using c_string_append_NUL [OF render_c_str_ok [OF assms(1,5)]] assms(3) by (simp add: mcp_json_stringify_def)
qed


lemma quoted_bounds: "length (quoted s) \<le> 6 * length s + 2"
proof -
  have "length (escape_char c) \<le> 6" for c by (simp add: escape_char_def)
  then have "length (escape_string s) \<le> 6 * length s" by (induction s) (auto simp: escape_string_def intro: add_mono)
  then show ?thesis by (simp add: quoted_def)
qed

lemma quoted_c_str_ok: "c_str_ok s \<Longrightarrow> c_str_ok (quoted s)"
  by (simp add: quoted_def escape_string_c_str_ok)

definition readable_text :: "string \<Rightarrow> bool" where
  "readable_text s \<longleftrightarrow> c_str_ok s \<and> (\<forall>c \<in> set s. \<not> control_rejected c) \<and> length s < 2 ^ 48"

lemma readable_text:
  assumes "readable_text s"
  shows "dyn_quoted s = quoted s" "reads_as strtod d (quoted s) (VString s)" "length (quoted s) < 2 ^ 52" "c_str_ok (quoted s)"
proof -
  have s: "c_str_ok s" "\<forall>c \<in> set s. \<not> control_rejected c" "length s < 2 ^ 48" using assms by (auto simp: readable_text_def)
  show "dyn_quoted s = quoted s" by (rule dyn_quoted_eq [OF s(2)])
  show "length (quoted s) < 2 ^ 52" using quoted_bounds [of s] s(3) by simp
  then show "reads_as strtod d (quoted s) (VString s)" by (intro string_reads_as [OF s(1)]) simp
  show "c_str_ok (quoted s)" by (rule quoted_c_str_ok [OF s(1)])
qed

lemma decimal_c_str_ok: "c_str_ok (decimal n)"
  using decimal_digits [of n] by (auto simp: c_str_ok_def)

abbreviation version_member :: "string \<times> string \<times> double jval" where
  "version_member \<equiv> (''jsonrpc'', quoted ''2.0'', VString ''2.0'')"

abbreviation id_member :: "size_t \<Rightarrow> string \<times> string \<times> double jval" where
  "id_member i \<equiv> (''id'', decimal (unat i), VNumber (id_value i))"

lemma version_reads: "member_reads strtod 1 version_member"
proof -
  have "readable_text ''2.0''" by (simp add: readable_text_def c_str_ok_def control_rejected_def)
  from readable_text(2) [OF this] show ?thesis by (simp add: member_reads_def c_str_ok_def)
qed

lemma id_reads: "reads_integers strtod \<Longrightarrow> unat i \<le> 2 ^ 53 \<Longrightarrow> member_reads strtod 1 (id_member i)"
  using id_reads_as [of strtod i 1] by (simp add: member_reads_def c_str_ok_def)

lemma cast_u64_nat: "n < 2 ^ 64 \<Longrightarrow> cast_u64 (Finite (real n)) = Done (of_nat n)"
proof -
  assume "n < 2 ^ 64"
  then have "real n < 2 ^ 64" by (metis of_nat_less_iff of_nat_numeral of_nat_power)
  then show ?thesis by (simp add: cast_u64_def truncate_real_def)
qed

lemma cast_u64_id: "cast_u64 (id_value i) = Done i"
  using cast_u64_nat [of "unat i"] unsigned_less [of i, where ?'a = nat] unfolding id_value_def by simp

lemma id_accepted: "unat i \<le> 2 ^ 53 \<Longrightarrow> \<not> id_rejected (id_value i)"
proof -
  have "\<not> id_rejected (Finite (real n))" if "n \<le> 2 ^ 53" for n
  proof -
    have "real n \<le> 2 ^ 53" using that by (metis of_nat_le_iff of_nat_numeral of_nat_power)
    then show ?thesis by (simp add: id_rejected_def)
  qed
  then show "unat i \<le> 2 ^ 53 \<Longrightarrow> \<not> id_rejected (id_value i)" unfolding id_value_def by blast
qed

definition int_code :: "int \<Rightarrow> bool" where
  "int_code code \<longleftrightarrow> - (2 ^ 31) \<le> code \<and> code < 2 ^ 31"

lemma code_accepted: "int_code code \<Longrightarrow> \<not> code_rejected (Finite (of_int code)) \<and> cast_int (Finite (of_int code)) = Done code"
proof -
  assume "int_code code"
  then have "- (2 ^ 31) \<le> real_of_int code" "real_of_int code \<le> 2 ^ 31 - 1" by (simp_all add: int_code_def)
  then show ?thesis by (simp add: code_rejected_def cast_int_def truncate_real_def)
qed


section \<open>Round trips\<close>

lemma error_response_text:
  assumes "readable_text msg" "code \<noteq> MCP_ERROR_NONE"
  shows "message_text (Response i code (Some msg) None) = ''{'' @ comma_sep (map member
    [version_member, id_member i,
     (''error'', ''{'' @ comma_sep (map member [(''code'', decimal_int code, VNumber (Finite (of_int code))),
        (''message'', quoted msg, VString msg)]) @ ''}'', v)]) @ ''}''"
  using assms(2) readable_text(1) [OF assms(1)]
  by (simp add: message_text_def message_pieces_def member_def quoted_def [of "''jsonrpc''"] quoted_def [of "''id''"]
      quoted_def [of "''error''"] quoted_def [of "''code''"] quoted_def [of "''message''"] quoted_def [of "''2.0''"]
      escape_string_def escape_char_def)

lemma object_reader:
  assumes "\<forall>x. map_option jabs (mcp_json_object_get_property (Some (JObject t)) x) = m x"
  shows "m x = Some (VNumber d) \<Longrightarrow> mcp_json_object_get_property (Some (JObject t)) x = Some (JNumber d)"
    and "m x = Some (VString s) \<Longrightarrow> mcp_json_object_get_property (Some (JObject t)) x = Some (JString s)"
    and "m x = Some (VObject f) \<Longrightarrow> \<exists>u. mcp_json_object_get_property (Some (JObject t)) x = Some (JObject u) \<and>
      jabs (JObject u) = VObject f"
    and "m x = None \<Longrightarrow> mcp_json_object_get_property (Some (JObject t)) x = None"
    and "m x = Some (jabs v) \<Longrightarrow> \<exists>v'. mcp_json_object_get_property (Some (JObject t)) x = Some v' \<and> jabs v' = jabs v"
proof -
  have g: "map_option jabs (mcp_json_object_get_property (Some (JObject t)) x) = m x" using assms by blast
  show "m x = Some (VNumber d) \<Longrightarrow> mcp_json_object_get_property (Some (JObject t)) x = Some (JNumber d)"
    using g by (cases "the (mcp_json_object_get_property (Some (JObject t)) x)") auto
  show "m x = Some (VString s) \<Longrightarrow> mcp_json_object_get_property (Some (JObject t)) x = Some (JString s)"
    using g by (cases "the (mcp_json_object_get_property (Some (JObject t)) x)") auto
  show "m x = Some (VObject f) \<Longrightarrow> \<exists>u. mcp_json_object_get_property (Some (JObject t)) x = Some (JObject u) \<and>
      jabs (JObject u) = VObject f"
    using g by (cases "the (mcp_json_object_get_property (Some (JObject t)) x)") auto
  show "m x = None \<Longrightarrow> mcp_json_object_get_property (Some (JObject t)) x = None" using g by auto
  show "m x = Some (jabs v) \<Longrightarrow> \<exists>v'. mcp_json_object_get_property (Some (JObject t)) x = Some v' \<and> jabs v' = jabs v"
    using g by auto
qed

lemma property_json_ok:
  assumes "json_ok (JObject t)" "mcp_json_object_get_property (Some (JObject t)) x = Some v"
  shows "json_ok v"
proof -
  have inv: "ht_inv json_ops t" using assms(1) by simp
  have "(x, v) \<in> set (concat (ht_buckets t))"
    using assms(2) unfolding get_property_map ht_map_concat [OF inv] by (rule map_of_SomeD)
  from table_values [OF this] show ?thesis using assms(1) unfolding json_ok_JObject by blast
qed

lemma property_of_abs:
  assumes "json_ok (JObject u)" "jabs (JObject u) = VObject f"
  shows "\<forall>x. map_option jabs (mcp_json_object_get_property (Some (JObject u)) x) = f x"
proof -
  have "ht_inv json_ops u" using assms(1) by simp
  from assms(2) [unfolded jabs_JObject [OF this]] show ?thesis unfolding get_property_map by (auto simp: fun_eq_iff)
qed

lemma error_response_reads:
  assumes "reads_integers strtod" "unat i \<le> 2 ^ 53" "int_code code" "code \<noteq> MCP_ERROR_NONE" "readable_text msg"
  shows "\<exists>t u. mcp_json_parse strtod [] (Some (message_text (Response i code (Some msg) None))) = Ok (JObject t) \<and>
    mcp_json_object_get_property (Some (JObject t)) ''id'' = Some (JNumber (id_value i)) \<and>
    mcp_json_object_get_property (Some (JObject t)) ''error'' = Some (JObject u) \<and>
    mcp_json_object_get_property (Some (JObject t)) ''result'' = None \<and>
    mcp_json_object_get_property (Some (JObject t)) ''method'' = None \<and>
    mcp_json_object_get_property (Some (JObject u)) ''code'' = Some (JNumber (Finite (of_int code))) \<and>
    mcp_json_object_get_property (Some (JObject u)) ''message'' = Some (JString msg)"
proof -
  let ?inner = "[(''code'', decimal_int code, VNumber (Finite (of_int code))), (''message'', quoted msg, VString msg)]"
  let ?v = "VObject (\<lambda>x. map_option snd (map_of ?inner x))"
  let ?es = "[version_member, id_member i, (''error'', ''{'' @ comma_sep (map member ?inner) @ ''}'', ?v)]"
  have "\<bar>code\<bar> \<le> 2 ^ 53" using assms(3) by (simp add: int_code_def abs_le_iff)
  from integer_reads_as [OF assms(1) this, of "Suc 1"] have inner: "\<forall>e \<in> set ?inner. member_reads strtod (Suc 1) e"
    using readable_text(2) [OF assms(5), of strtod "Suc 1"] by (simp add: member_reads_def c_str_ok_def)
  from object_text_reads [OF this] have "reads_as strtod 1 (''{'' @ comma_sep (map member ?inner) @ ''}'') ?v" by simp
  then have "\<forall>e \<in> set ?es. member_reads strtod 1 e"
    using version_reads [of strtod] id_reads [OF assms(1,2)] by (simp add: member_reads_def c_str_ok_def)
  from parse_members_text [OF this] obtain t where
    t: "mcp_json_parse strtod [] (Some (''{'' @ comma_sep (map member ?es) @ ''}'')) = Ok (JObject t)" "json_ok (JObject t)"
    "\<forall>x. map_option jabs (mcp_json_object_get_property (Some (JObject t)) x) = map_option snd (map_of ?es x)" by auto
  note rd = object_reader [OF t(3)]
  obtain u where u: "mcp_json_object_get_property (Some (JObject t)) ''error'' = Some (JObject u)" "jabs (JObject u) = ?v"
    using rd(3) [of "''error''" "\<lambda>x. map_option snd (map_of ?inner x)"] by auto
  note rd' = object_reader [OF property_of_abs [OF property_json_ok [OF t(2) u(1)] u(2)]]
  show ?thesis unfolding error_response_text [OF assms(5,4), where v = ?v]
    using t(1) u(1) rd(1,4) rd'(1,2) by (intro exI [of _ t] exI [of _ u]) simp
qed


lemma error_response_printed:
  assumes "unat i \<le> 2 ^ 53" "int_code code" "code \<noteq> MCP_ERROR_NONE" "readable_text msg"
  shows "create_error_response [] i code msg = Done (Some (message_text (Response i code (Some msg) None)))"
  unfolding create_error_response_def
proof (rule stringify_message_ok)
  let ?m = "Response i code (Some msg) None"
  have t: "message_text ?m = ''{'' @ Q @ ''jsonrpc'' @ Q @ '':'' @ Q @ ''2.0'' @ Q @ '','' @ Q @ ''id'' @ Q @ '':'' @ decimal (unat i) @
     '','' @ Q @ ''error'' @ Q @ '':{'' @ Q @ ''code'' @ Q @ '':'' @ decimal_int code @ '','' @ Q @ ''message'' @ Q @ '':'' @ quoted msg @ ''}}''"
    using assms(3) readable_text(1) [OF assms(4)] by (simp add: message_text_def message_pieces_def)
  show "c_str_ok (message_text ?m)" unfolding t using readable_text(4) [OF assms(4)]
    by (simp add: decimal_c_str_ok scan_decimal_int)
  have "\<bar>code\<bar> < 10 ^ 10" using assms(2) by (simp add: int_code_def abs_less_iff)
  from decimal_int_length [OF this] show "length (message_text ?m) < 2 ^ 59"
    unfolding t using decimal_id_length [of i] readable_text(3) [OF assms(4)] by simp
qed simp

text \<open>Results and parameters: texts that print a JSON value.\<close>

definition json_text_ok :: "json_env \<Rightarrow> double json \<Rightarrow> bool" where
  "json_text_ok env j \<longleftrightarrow> json_ok j \<and> printable (env_format env) j \<and> jdepth j \<le> 100 \<and>
     length (render (env_format env) j) < 2 ^ 52 \<and> (\<forall>d \<in> set_json j. number_roundtrip (env_strtod env) (env_format env) d)"

definition enough_memory :: "json_env \<Rightarrow> bool" where
  "enough_memory env \<longleftrightarrow> env_parse_mem env = [] \<and> env_dup_mem env = [] \<and> env_text_mem env = [] \<and> (\<forall>j. env_estimate env j < 2 ^ 63)"

lemma json_text_reads:
  assumes "json_text_ok env j"
  shows "reads_as (env_strtod env) 1 (render (env_format env) j) (jabs j)" "c_str_ok (render (env_format env) j)"
proof -
  have "reads (env_strtod env) (env_format env) 1 j"
    by (rule value_reads) (use assms in \<open>auto simp: json_text_ok_def\<close>)
  then show "reads_as (env_strtod env) 1 (render (env_format env) j) (jabs j)" by (simp add: reads_def)
  show "c_str_ok (render (env_format env) j)" using assms by (intro render_c_str_ok) (auto simp: json_text_ok_def)
qed

lemma same_value_printed:
  assumes "json_text_ok env j" "enough_memory env" "json_ok j'" "jabs j' = jabs j"
  shows "mcp_json_stringify env j' = Done (Some (render (env_format env) j'))"
proof -
  have "same_text_size (env_format env) j j'"
    by (rule jabs_same_text_size) (use assms in \<open>auto simp: json_text_ok_def\<close>)
  with assms show ?thesis
    by (intro mcp_json_stringify_ok [where strtod = "env_strtod env"]) (auto simp: json_text_ok_def enough_memory_def same_text_size_def)
qed

lemma success_response_text:
  "message_text (Response i MCP_ERROR_NONE None (Some r)) =
    ''{'' @ comma_sep (map member [version_member, id_member i, (''result'', r, v)]) @ ''}''"
  by (simp add: message_text_def message_pieces_def member_def quoted_def [of "''jsonrpc''"] quoted_def [of "''id''"]
      quoted_def [of "''result''"] quoted_def [of "''2.0''"] escape_string_def escape_char_def)

lemma request_text:
  assumes "readable_text meth"
  shows "message_text (Request i meth (Some p)) =
    ''{'' @ comma_sep (map member [version_member, id_member i, (''method'', quoted meth, VString meth), (''params'', p, v)]) @ ''}''"
    and "message_text (Request i meth None) =
    ''{'' @ comma_sep (map member [version_member, id_member i, (''method'', quoted meth, VString meth)]) @ ''}''"
  using readable_text(1) [OF assms]
  by (simp_all add: message_text_def message_pieces_def params_pieces_def member_def quoted_def [of "''jsonrpc''"] quoted_def [of "''id''"]
      quoted_def [of "''method''"] quoted_def [of "''params''"] quoted_def [of "''2.0''"] escape_string_def escape_char_def)

lemma success_response_printed:
  assumes "c_str_ok r" "length r < 2 ^ 52"
  shows "create_success_response [] i (Some r) = Done (Some (message_text (Response i MCP_ERROR_NONE None (Some r))))"
  unfolding create_success_response_def
proof (rule stringify_message_ok)
  let ?m = "Response i MCP_ERROR_NONE None (Some r)"
  have t: "message_text ?m = ''{'' @ Q @ ''jsonrpc'' @ Q @ '':'' @ Q @ ''2.0'' @ Q @ '','' @ Q @ ''id'' @ Q @ '':'' @ decimal (unat i) @
     '','' @ Q @ ''result'' @ Q @ '':'' @ r @ ''}''" by (simp add: message_text_def message_pieces_def)
  show "c_str_ok (message_text ?m)" unfolding t using assms(1) by (simp add: decimal_c_str_ok)
  show "length (message_text ?m) < 2 ^ 59" unfolding t using assms(2) decimal_id_length [of i] by simp
qed simp

lemma request_printed:
  assumes "readable_text meth" "\<forall>p \<in> set_option params. c_str_ok p \<and> length p < 2 ^ 52"
  shows "mcp_json_stringify_message [] (Request i meth params) = Done (Some (message_text (Request i meth params)))"
proof (rule stringify_message_ok)
  let ?m = "Request i meth params"
  have t: "message_text ?m = ''{'' @ Q @ ''jsonrpc'' @ Q @ '':'' @ Q @ ''2.0'' @ Q @ '','' @ Q @ ''id'' @ Q @ '':'' @ decimal (unat i) @
     '','' @ Q @ ''method'' @ Q @ '':'' @ quoted meth @ (case params of None \<Rightarrow> [] | Some p \<Rightarrow> '','' @ Q @ ''params'' @ Q @ '':'' @ p) @ ''}''"
    using readable_text(1) [OF assms(1)] by (simp add: message_text_def message_pieces_def params_pieces_def split: option.splits)
  show "c_str_ok (message_text ?m)" unfolding t using assms(2) readable_text(4) [OF assms(1)]
    by (cases params) (simp_all add: decimal_c_str_ok)
  show "length (message_text ?m) < 2 ^ 59" unfolding t using assms(2) decimal_id_length [of i] readable_text(3) [OF assms(1)]
    by (cases params) simp_all
qed simp


text \<open>What the two parsers make of an object with the members of a request or of a result.\<close>

lemma request_of_object:
  assumes env: "enough_memory env" "json_text_ok env p" "params_ok (Some p)" "length meth < 2 ^ 60"
    and t: "json_ok (JObject t)" "\<forall>x. map_option jabs (mcp_json_object_get_property (Some (JObject t)) x) = f x"
    and f: "f ''id'' = Some (VNumber (id_value i))" "f ''method'' = Some (VString meth)" "f ''params'' = Some (jabs p)"
  shows "\<exists>p'. parse_single_message_from_json env (Some (JObject t)) = Done (Some (Request i meth (Some (render (env_format env) p')))) \<and>
    json_ok p' \<and> jabs p' = jabs p"
proof -
  note rd = object_reader [OF t(2)]
  obtain p' where p': "mcp_json_object_get_property (Some (JObject t)) ''params'' = Some p'" "jabs p' = jabs p"
    using rd(5) [OF f(3)] by blast
  have j: "json_ok p'" by (rule property_json_ok [OF t(1) p'(1)])
  have ok: "params_ok (Some p')" using env(3) p'(2) by (cases p; cases p') (auto simp: params_ok_def)
  have "mcp_json_stringify env p' = Done (Some (render (env_format env) p'))"
    by (rule same_value_printed [OF env(2,1) j p'(2)])
  then have "parse_single_message_from_json env (Some (JObject t)) = Done (Some (Request i meth (Some (render (env_format env) p'))))"
    using rd(1) [OF f(1)] rd(2) [OF f(2)] p'(1) ok cast_u64_id [of i] dup_no_failure [OF env(4)] env(1)
    by (simp add: parse_single_message_from_json_def parse_call_def copy_call_def enough_memory_def)
  then show ?thesis using p'(2) j by blast
qed

lemma message_of_object:
  "enough_memory env \<Longrightarrow> mcp_json_parse (env_strtod env) [] (Some s) = Ok (JObject t) \<Longrightarrow>
   mcp_json_parse_message env s = parse_single_message_from_json env (Some (JObject t))"
  by (simp add: mcp_json_parse_message_def enough_memory_def)

lemma result_of_object:
  assumes env: "enough_memory env" "json_text_ok env r" "unat i \<le> 2 ^ 53"
    and t: "mcp_json_parse (env_strtod env) [] (Some s) = Ok (JObject t)" "json_ok (JObject t)"
      "\<forall>x. map_option jabs (mcp_json_object_get_property (Some (JObject t)) x) = f x"
    and f: "f ''id'' = Some (VNumber (id_value i))" "f ''result'' = Some (jabs r)" "f ''error'' = None"
  shows "\<exists>r'. mcp_json_parse_response env s = Done (Some \<lparr>resp_id = i, resp_error_code = MCP_ERROR_NONE,
      resp_error_message = None, resp_result = Some (render (env_format env) r')\<rparr>) \<and> jabs r' = jabs r"
proof -
  have mem: "env_parse_mem env = []" using env(1) by (simp add: enough_memory_def)
  note rd = object_reader [OF t(3)]
  obtain r' where r': "mcp_json_object_get_property (Some (JObject t)) ''result'' = Some r'" "jabs r' = jabs r"
    using rd(5) [OF f(2)] by blast
  have "mcp_json_stringify env r' = Done (Some (render (env_format env) r'))"
    by (rule same_value_printed [OF env(2,1) property_json_ok [OF t(2) r'(1)] r'(2)])
  then have "mcp_json_parse_response env s = Done (Some \<lparr>resp_id = i, resp_error_code = MCP_ERROR_NONE,
      resp_error_message = None, resp_result = Some (render (env_format env) r')\<rparr>)"
    using t(1) rd(1) [OF f(1)] rd(4) [OF f(3)] r'(1) id_accepted [OF env(3)] cast_u64_id [of i]
    by (simp add: mcp_json_parse_response_def parse_response_body_def get_number_property_def mem)
  then show ?thesis using r'(2) by blast
qed

lemma parse_single_valid: "parse_single_message_from_json env j = Done (Some msg) \<Longrightarrow> msg \<noteq> Invalid"
  by (auto simp: parse_single_message_from_json_def parse_call_def parse_reply_def
      split: option.splits json.splits checked.splits prod.splits if_splits)

lemma parse_batch_count:
  "parse_batch_items envs i js = Done (ms, n) \<Longrightarrow> length ms = length js \<and> n = length (filter (\<lambda>msg. msg \<noteq> Invalid) ms)"
proof (induction js arbitrary: i ms n)
  case (Cons j js)
  obtain r where r: "parse_single_message_from_json (envs i) (Some j) = Done r" using Cons.prems by (auto split: checked.splits)
  obtain ms1 n1 where b: "parse_batch_items envs (Suc i) js = Done (ms1, n1)" using Cons.prems r by (auto split: checked.splits)
  show ?case using Cons.IH [OF b] Cons.prems r b parse_single_valid by (cases r) auto
qed simp

lemma direct_request_size:
  "mcp_json_format_request_direct m i meth None = None"
  "10 \<le> unat i \<Longrightarrow> mcp_json_format_request_direct m i meth (Some p) = None"
proof -
  have "1 \<le> length (decimal n)" "10 \<le> n \<Longrightarrow> 2 \<le> length (decimal n)" for n
  proof -
    have ne: "1 \<le> length (decimal k)" for k using decimal_digits [of k] by (cases "decimal k") auto
    show "1 \<le> length (decimal n)" by (rule ne)
    show "2 \<le> length (decimal n)" if "10 \<le> n" using that ne [of "n div 10"] by (subst decimal.simps) simp
  qed
  from this(1) [of "unat i"] this(2) [of "unat i"]
  show "mcp_json_format_request_direct m i meth None = None"
    "10 \<le> unat i \<Longrightarrow> mcp_json_format_request_direct m i meth (Some p) = None"
    by (auto simp: mcp_json_format_request_direct_def Let_def split: option.splits prod.splits)
qed

text \<open>A \<open>strtod\<close> that reads integers, for the examples.\<close>

definition digits_value :: "string \<Rightarrow> nat" where
  "digits_value ds = foldl (\<lambda>acc c. 10 * acc + (of_char c - 48)) 0 ds"

definition strtod_int :: "double strtod" where
  "strtod_int s =
     (let neg = peek s = CHR ''-''; r = (if neg then tl s else s); v = int (digits_value (takeWhile is_digit r))
      in (Finite (of_int (if neg then - v else v)), dropWhile is_digit r))"

lemma digits_value_decimal: "digits_value (decimal n) = n"
proof (induction n rule: decimal.induct)
  case (1 n)
  have d: "of_char (digit_char k) = 48 + k" if "k < 10" for k using that by (simp add: digit_char_def)
  show ?case
  proof (cases "n < 10")
    case True
    then show ?thesis using d by (subst decimal.simps) (simp add: digits_value_def)
  next
    case False
    then show ?thesis using 1 d [of "n mod 10"] by (subst decimal.simps) (simp add: digits_value_def)
  qed
qed

lemma strtod_int_reads: "reads_integers strtod_int"
  unfolding reads_integers_def
proof (intro allI impI, elim conjE)
  fix i :: int and rest assume f: "follow rest"
  have nd: "\<not> is_digit (peek rest)" using follow_stop [OF f] by blast
  have r: "takeWhile is_digit rest = []" "dropWhile is_digit rest = rest" using nd by (cases rest; simp)+
  have d: "takeWhile is_digit (decimal n @ rest) = decimal n" "dropWhile is_digit (decimal n @ rest) = rest" for n
    using decimal_digits [of n] r by (simp_all add: takeWhile_append2 dropWhile_append2)
  have h: "peek (decimal n @ rest) \<noteq> CHR ''-''" for n
  proof -
    have "is_digit (peek (decimal n @ rest))" using decimal_digits [of n] by (cases "decimal n") auto
    then show ?thesis by (auto simp: is_digit_def)
  qed
  show "strtod_int (decimal_int i @ rest) = (Finite (of_int i), rest)"
    using d h by (simp add: strtod_int_def decimal_int_def digits_value_decimal)
qed

definition env_int :: json_env where
  "env_int = \<lparr>env_strtod = strtod_int, env_format = (\<lambda>_. ''7''), env_estimate = (\<lambda>_. 0), env_parse_mem = [], env_dup_mem = [], env_text_mem = []\<rparr>"

lemma env_int: "enough_memory env_int" "reads_integers (env_strtod env_int)" "json_text_ok env_int (JArray [JNumber (Finite 7)] 8)"
proof -
  show "enough_memory env_int" "reads_integers (env_strtod env_int)"
    by (simp_all add: env_int_def enough_memory_def strtod_int_reads)
  have d7: "decimal_int 7 = ''7''" by (simp add: decimal_int_def decimal.simps digit_char_def char_of_eq_iff)
  have "number_roundtrip strtod_int (\<lambda>_. ''7'') (Finite 7)"
  proof -
    have "strtod_int (decimal_int 7 @ rest) = (Finite (of_int 7), rest)" if "follow rest" for rest
      using strtod_int_reads that unfolding reads_integers_def by simp
    then show ?thesis using d7 scan_decimal_int [of 7] by (simp add: number_roundtrip_def)
  qed
  then show "json_text_ok env_int (JArray [JNumber (Finite 7)] 8)"
    by (simp add: json_text_ok_def env_int_def)
qed

lemma success_response_read:
  assumes "enough_memory env" "reads_integers (env_strtod env)" and "unat i \<le> 2 ^ 53" "json_text_ok env r"
  shows "\<exists>reply r'. create_success_response [] i (Some (render (env_format env) r)) = Done (Some reply) \<and>
    mcp_json_parse_response env reply =
      Done (Some \<lparr>resp_id = i, resp_error_code = MCP_ERROR_NONE, resp_error_message = None, resp_result = Some (render (env_format env) r')\<rparr>) \<and>
    jabs r' = jabs r"
proof -
  let ?r = "render (env_format env) r"
  let ?es = "[version_member, id_member i, (''result'', ?r, jabs r)]"
  have "\<forall>e \<in> set ?es. member_reads (env_strtod env) 1 e"
    using version_reads id_reads [OF assms(2,3)] json_text_reads [OF assms(4)] by (simp add: member_reads_def c_str_ok_def)
  from parse_members_text [OF this] obtain t where
    t: "mcp_json_parse (env_strtod env) [] (Some (message_text (Response i MCP_ERROR_NONE None (Some ?r)))) = Ok (JObject t)" "json_ok (JObject t)"
    "\<forall>x. map_option jabs (mcp_json_object_get_property (Some (JObject t)) x) = map_option snd (map_of ?es x)"
    unfolding success_response_text [where v = "jabs r"] by auto
  from result_of_object [OF assms(1,4,3) t] obtain r' where "mcp_json_parse_response env (message_text (Response i MCP_ERROR_NONE None (Some ?r))) =
      Done (Some \<lparr>resp_id = i, resp_error_code = MCP_ERROR_NONE, resp_error_message = None, resp_result = Some (render (env_format env) r')\<rparr>)"
    "jabs r' = jabs r" by auto
  moreover have "c_str_ok ?r" "length ?r < 2 ^ 52" using json_text_reads [OF assms(4)] assms(4) by (auto simp: json_text_ok_def)
  ultimately show ?thesis using success_response_printed by blast
qed

section \<open>Properties\<close>

text \<open>The client understands the errors of the server: the text \<open>create_error_response\<close>
  makes for an id up to \<open>2 ^ 53\<close>, an error code and a message, read by \<open>mcp_json_parse_response\<close>, gives
  the same id, code and message, when memory does not run out and the message has none of the
  control characters that are not escaped.\<close>

theorem error_response_roundtrip:
  assumes "enough_memory env" "reads_integers (env_strtod env)"
    and "unat i \<le> 2 ^ 53" "int_code code" "code \<noteq> MCP_ERROR_NONE" "readable_text msg"
  shows "\<exists>reply. create_error_response [] i code msg = Done (Some reply) \<and>
    mcp_json_parse_response env reply =
      Done (Some \<lparr>resp_id = i, resp_error_code = code, resp_error_message = Some msg, resp_result = None\<rparr>)"
proof -
  let ?t = "message_text (Response i code (Some msg) None)"
  have mem: "env_parse_mem env = []" "env_dup_mem env = []" using assms(1) by (auto simp: enough_memory_def)
  have dup: "mcp_strdup [] (Some msg) = (Some msg, [])" using assms(6) by (simp add: readable_text_def dup_no_failure)
  from error_response_reads [OF assms(2-6)] have
    "mcp_json_parse_response env ?t = Done (Some \<lparr>resp_id = i, resp_error_code = code, resp_error_message = Some msg, resp_result = None\<rparr>)"
    using id_accepted [OF assms(3)] cast_u64_id [of i] code_accepted [OF assms(4)] dup
    by (auto simp: mcp_json_parse_response_def parse_response_body_def get_number_property_def get_string_property_def mem)
  with error_response_printed [OF assms(3-6)] show ?thesis by blast
qed

theorem error_response_roundtrip_witness:
  "\<exists>reply. create_error_response [] 7 (-32601) ''Method not found'' = Done (Some reply) \<and>
    mcp_json_parse_response env_int reply =
      Done (Some \<lparr>resp_id = 7, resp_error_code = -32601, resp_error_message = Some ''Method not found'', resp_result = None\<rparr>)"
  by (rule error_response_roundtrip [OF env_int(1,2)]) (simp_all add: int_code_def readable_text_def c_str_ok_def control_rejected_def)

text \<open>The client gets the result of the server: the text \<open>create_success_response\<close> makes for
  an id up to \<open>2 ^ 53\<close> and a printed JSON value, read by \<open>mcp_json_parse_response\<close>, gives the same id,
  no error and the print of an equal value.\<close>

theorem success_response_roundtrip:
  assumes "enough_memory env" "reads_integers (env_strtod env)" and "unat i \<le> 2 ^ 53" "json_text_ok env r"
  shows "\<exists>reply r'. create_success_response [] i (Some (render (env_format env) r)) = Done (Some reply) \<and>
    mcp_json_parse_response env reply =
      Done (Some \<lparr>resp_id = i, resp_error_code = MCP_ERROR_NONE, resp_error_message = None, resp_result = Some (render (env_format env) r')\<rparr>) \<and>
    jabs r' = jabs r"
  by (rule success_response_read [OF assms])

theorem success_response_roundtrip_witness:
  "\<exists>reply r'. create_success_response [] 7 (Some ''[7]'') = Done (Some reply) \<and>
    mcp_json_parse_response env_int reply =
      Done (Some \<lparr>resp_id = 7, resp_error_code = MCP_ERROR_NONE, resp_error_message = None, resp_result = Some (render (\<lambda>_. ''7'') r')\<rparr>) \<and>
    jabs r' = VArray [VNumber (Finite 7)]"
  using success_response_roundtrip [OF env_int(1,2) _ env_int(3), of 7] by (simp add: env_int_def)

text \<open>The server gets the requests of the client: the text of a request with an id up to
  \<open>2 ^ 53\<close>, a method name and parameters (an object or an array) is parsed by
  \<open>mcp_json_parse_message\<close> to a request with the same id and method and the print of equal parameters.\<close>

theorem request_roundtrip:
  assumes "enough_memory env" "reads_integers (env_strtod env)" and "unat i \<le> 2 ^ 53" "readable_text meth"
    and "json_text_ok env p" "params_ok (Some p)"
  shows "\<exists>msg p'. mcp_json_stringify_message [] (Request i meth (Some (render (env_format env) p))) = Done (Some msg) \<and>
    mcp_json_parse_message env msg = Done (Some (Request i meth (Some (render (env_format env) p')))) \<and> jabs p' = jabs p"
proof -
  let ?p = "render (env_format env) p"
  let ?es = "[version_member, id_member i, (''method'', quoted meth, VString meth), (''params'', ?p, jabs p)]"
  have "\<forall>e \<in> set ?es. member_reads (env_strtod env) 1 e"
    using version_reads id_reads [OF assms(2,3)] json_text_reads [OF assms(5)] readable_text(2) [OF assms(4)]
    by (simp add: member_reads_def c_str_ok_def)
  from parse_members_text [OF this] obtain t where
    t: "mcp_json_parse (env_strtod env) [] (Some (message_text (Request i meth (Some ?p)))) = Ok (JObject t)" "json_ok (JObject t)"
    "\<forall>x. map_option jabs (mcp_json_object_get_property (Some (JObject t)) x) = map_option snd (map_of ?es x)"
    unfolding request_text(1) [OF assms(4), where v = "jabs p"] by auto
  have "length meth < 2 ^ 60" using assms(4) by (simp add: readable_text_def)
  from request_of_object [OF assms(1,5,6) this t(2,3)] message_of_object [OF assms(1) t(1)] obtain p' where
    "mcp_json_parse_message env (message_text (Request i meth (Some ?p))) = Done (Some (Request i meth (Some (render (env_format env) p'))))"
    "jabs p' = jabs p" by auto
  moreover have "\<forall>q \<in> set_option (Some ?p). c_str_ok q \<and> length q < 2 ^ 52"
    using json_text_reads [OF assms(5)] assms(5) by (auto simp: json_text_ok_def)
  ultimately show ?thesis using request_printed [OF assms(4)] by blast
qed

theorem request_roundtrip_witness:
  "\<exists>msg p'. mcp_json_stringify_message [] (Request 7 ''call_tool'' (Some ''[7]'')) = Done (Some msg) \<and>
    mcp_json_parse_message env_int msg = Done (Some (Request 7 ''call_tool'' (Some (render (\<lambda>_. ''7'') p')))) \<and>
    jabs p' = VArray [VNumber (Finite 7)]"
  using request_roundtrip [OF env_int(1,2) _ _ env_int(3), of 7 "''call_tool''"]
  by (simp add: env_int_def params_ok_def readable_text_def c_str_ok_def control_rejected_def)


text \<open>\<open>mcp_json_format_request_direct\<close> does not count the digits of the id when it sizes its
  buffer: without parameters it returns NULL for every request, with parameters for every id from 10
  on, whatever the memory.\<close>

theorem direct_request_fails:
  "mcp_json_format_request_direct m i meth None = None \<and>
   (10 \<le> unat i \<longrightarrow> mcp_json_format_request_direct m i meth (Some p) = None)"
  using direct_request_size by blast

theorem direct_request_fails_witness:
  "mcp_json_format_request_direct [] 10 (Some ''ping'') (Some ''{}'') = None"
  using direct_request_fails [of "[]" 10 "Some ''ping''" "''{}''"] by simp

end
