(* ===== verification/Mcp_Auth.thy ===== *)
theory Mcp_Auth
  imports Mcp_Message
begin

text \<open>
  Authentication and access rules: \<open>src/server/mcp_auth.c\<close>.  The clock \<open>time(NULL)\<close> is the argument
  \<open>now\<close>; \<open>CRYPTO_memcmp\<close> of OpenSSL is an argument with its documented behaviour as the hypothesis
  \<open>memcmp_ok\<close>.  A \<open>char**\<close> of the C code is an optional list (NULL or an array) of optional strings.
\<close>

section \<open>Contexts\<close>

datatype mcp_auth_type = MCP_AUTH_NONE | MCP_AUTH_API_KEY | MCP_AUTH_TOKEN | MCP_AUTH_CERT

record mcp_auth_context =
  ctx_type :: mcp_auth_type
  ctx_identifier :: "string option"
  ctx_expiry :: int
  ctx_allowed_resources :: "string option list option"
  ctx_allowed_tools :: "string option list option"

text \<open>
  The allocations of \<open>create_wildcard_auth_context\<close> in their order: the context, the identifier, the
  resource array, its string, the tool array, its string.  A failed string of a rule is noticed only
  at the end.
\<close>

definition create_wildcard_auth_context ::
    "mem \<Rightarrow> mcp_auth_type \<Rightarrow> string option \<Rightarrow> int \<Rightarrow> mcp_auth_context option \<times> mem" where
  "create_wildcard_auth_context m auth_type identifier expiry =
     (case identifier of
        None \<Rightarrow> (None, m)
      | Some name \<Rightarrow>
          if length name = 0 then (None, m)
          else let (ok, m1) = mem_alloc m
               in if \<not> ok then (None, m1)
                  else let (ident, m2) = mcp_strdup m1 (Some name)
                       in if ident = None then (None, m2)
                          else let (ok_resources, m3) = mem_alloc m2
                               in if \<not> ok_resources then (None, m3)
                                  else let (resource, m4) = mcp_strdup m3 (Some ''*'');
                                           (ok_tools, m5) = mem_alloc m4
                                       in if \<not> ok_tools then (None, m5)
                                          else let (tool, m6) = mcp_strdup m5 (Some ''*'')
                                               in if resource = None \<or> tool = None then (None, m6)
                                                  else (Some \<lparr>ctx_type = auth_type, ctx_identifier = ident, ctx_expiry = expiry,
                                                              ctx_allowed_resources = Some [resource],
                                                              ctx_allowed_tools = Some [tool]\<rparr>, m6))"

text \<open>The text \<open>create_masked_string\<close> leaves in its 64 byte buffer.\<close>

definition create_masked_string :: "string option \<Rightarrow> string" where
  "create_masked_string sensitive =
     (case sensitive of
        None \<Rightarrow> ''(null)''
      | Some s \<Rightarrow>
          let len = length s
          in if len = 0 then ''(empty)''
             else let prefix_len = (if len > 3 then 3 else 1);
                      suffix_len = (if len > 6 then 3 else if len > 3 then 1 else 0);
                      mask_len = len - prefix_len - suffix_len;
                      mask_len' = (if prefix_len + mask_len + suffix_len + 1 > 64
                                   then 64 - prefix_len - suffix_len - 1 else mask_len)
                  in take prefix_len s @ replicate mask_len' CHR ''*'' @
                     (if suffix_len > 0 then take suffix_len (drop (len - suffix_len) s) else []))"

definition is_auth_context_expired :: "int \<Rightarrow> mcp_auth_context option \<Rightarrow> bool" where
  "is_auth_context_expired now context =
     (case context of None \<Rightarrow> True | Some c \<Rightarrow> ctx_expiry c \<noteq> 0 \<and> now > ctx_expiry c)"

fun any_rule_matches :: "string option list \<Rightarrow> string \<Rightarrow> bool" where
  "any_rule_matches [] item_name = False"
| "any_rule_matches (rule # rules) item_name =
     (if rule \<noteq> None \<and> mcp_wildcard_match rule (Some item_name) then True else any_rule_matches rules item_name)"

definition check_access ::
    "int \<Rightarrow> mcp_auth_context option \<Rightarrow> string option \<Rightarrow> string option list option \<Rightarrow> bool" where
  "check_access now context item_name allowed_items =
     (case (context, item_name, allowed_items) of
        (Some c, Some name, Some rules) \<Rightarrow>
          if is_auth_context_expired now (Some c) then False else any_rule_matches rules name
      | _ \<Rightarrow> False)"

definition mcp_auth_check_resource_access :: "int \<Rightarrow> mcp_auth_context option \<Rightarrow> string option \<Rightarrow> bool" where
  "mcp_auth_check_resource_access now context resource_uri =
     check_access now context resource_uri (case context of None \<Rightarrow> None | Some c \<Rightarrow> ctx_allowed_resources c)"

definition mcp_auth_check_tool_access :: "int \<Rightarrow> mcp_auth_context option \<Rightarrow> string option \<Rightarrow> bool" where
  "mcp_auth_check_tool_access now context tool_name =
     check_access now context tool_name (case context of None \<Rightarrow> None | Some c \<Rightarrow> ctx_allowed_tools c)"

section \<open>Credentials\<close>

type_synonym memcmp = "string \<Rightarrow> string \<Rightarrow> nat \<Rightarrow> int"

definition memcmp_ok :: "memcmp \<Rightarrow> bool" where
  "memcmp_ok cmp \<longleftrightarrow> (\<forall>a b. length a = length b \<longrightarrow> (cmp a b (length a) = 0 \<longleftrightarrow> a = b))"

text \<open>
  \<open>mcp_auth_verify\<close>: the status and the context.  The comparison covers the terminators of the strings.
\<close>

definition mcp_auth_verify ::
    "memcmp \<Rightarrow> mem \<Rightarrow> string option \<Rightarrow> mcp_auth_type \<Rightarrow> string option \<Rightarrow> int \<times> mcp_auth_context option \<times> mem" where
  "mcp_auth_verify crypto_memcmp m api_key auth_type credentials =
     (if auth_type = MCP_AUTH_NONE \<and> api_key = None
      then (case create_wildcard_auth_context m MCP_AUTH_NONE (Some ''anonymous'') 0 of
              (None, m1) \<Rightarrow> (-1, None, m1)
            | (Some c, m1) \<Rightarrow> (0, Some c, m1))
      else if auth_type = MCP_AUTH_API_KEY
      then (case api_key of
              None \<Rightarrow> (-1, None, m)
            | Some key \<Rightarrow>
                if length key = 0 then (-1, None, m)
                else case credentials of
                       None \<Rightarrow> (-1, None, m)
                     | Some cred \<Rightarrow>
                         let api_key_len = length key; cred_len = length cred
                         in if api_key_len > 1024 \<or> cred_len > 1024 then (-1, None, m)
                            else if api_key_len = 0 \<or> cred_len = 0 then (-1, None, m)
                            else if api_key_len = cred_len \<and>
                                    crypto_memcmp (cred @ [NUL]) (key @ [NUL]) (api_key_len + 1) = 0
                            then (case create_wildcard_auth_context m MCP_AUTH_API_KEY (Some ''authenticated_client'') 0 of
                                    (None, m1) \<Rightarrow> (-1, None, m1)
                                  | (Some c, m1) \<Rightarrow> (0, Some c, m1))
                            else (-1, None, m))
      else (-1, None, m))"

section \<open>Lemmas\<close>

lemma any_rule_matches_iff: "any_rule_matches rules name \<longleftrightarrow> (\<exists>p. Some p \<in> set rules \<and> mcp_wildcard_match (Some p) (Some name))"
proof (induction rules)
  case (Cons rule rules)
  then show ?case by (cases rule) auto
qed simp

lemma check_access_iff:
  "check_access now (Some c) (Some name) allowed \<longleftrightarrow> (ctx_expiry c = 0 \<or> now \<le> ctx_expiry c) \<and>
     (\<exists>rules p. allowed = Some rules \<and> Some p \<in> set rules \<and> mcp_wildcard_match (Some p) (Some name))"
  by (auto simp: check_access_def is_auth_context_expired_def any_rule_matches_iff split: option.splits)

definition full_access :: "mcp_auth_context \<Rightarrow> bool" where
  "full_access c \<longleftrightarrow> ctx_expiry c = 0 \<and> ctx_allowed_resources c = Some [Some ''*''] \<and> ctx_allowed_tools c = Some [Some ''*'']"

lemma full_access_grants:
  assumes "full_access c"
  shows "mcp_auth_check_tool_access now (Some c) (Some name)" "mcp_auth_check_resource_access now (Some c) (Some name)"
  using assms by (simp_all add: full_access_def mcp_auth_check_tool_access_def mcp_auth_check_resource_access_def
      check_access_def is_auth_context_expired_def mcp_wildcard_match_def)

lemma create_wildcard_spec:
  assumes "create_wildcard_auth_context m ty ident expiry = (r, m')"
  shows "r = None \<or> (\<exists>c. r = Some c \<and> ctx_type c = ty \<and> ctx_identifier c = ident \<and> ctx_expiry c = expiry \<and>
      ctx_allowed_resources c = Some [Some ''*''] \<and> ctx_allowed_tools c = Some [Some ''*''])"
    and "m = [] \<Longrightarrow> ident \<noteq> None \<Longrightarrow> 0 < length (the ident) \<Longrightarrow> length (the ident) < 2 ^ 60 \<Longrightarrow> r \<noteq> None"
  using assms by (auto simp: create_wildcard_auth_context_def mcp_strdup_def realloc_bytes_def Let_def
      split: option.splits prod.splits if_splits)

lemma verify_key:
  assumes "memcmp_ok cmp" "api_key = Some key"
    and v: "mcp_auth_verify cmp m api_key (if key = [] then MCP_AUTH_NONE else MCP_AUTH_API_KEY) credentials = (rc, ctx, m')"
  shows "rc = 0 \<and> (\<exists>c. ctx = Some c \<and> full_access c \<and> ctx_identifier c = Some ''authenticated_client'') \<and>
      credentials = Some key \<and> 0 < length key \<and> length key \<le> 1024 \<or> rc = -1 \<and> ctx = None"
    and "m = [] \<Longrightarrow> credentials = Some key \<Longrightarrow> 0 < length key \<Longrightarrow> length key \<le> 1024 \<Longrightarrow> rc = 0"
proof -
  have eq: "cmp (cred @ [NUL]) (key @ [NUL]) (Suc (length key)) = 0 \<longleftrightarrow> cred = key" if "length cred = length key" for cred
    using assms(1) that unfolding memcmp_ok_def by (metis append1_eq_conv length_append_singleton)
  obtain r m1 where cr: "create_wildcard_auth_context m MCP_AUTH_API_KEY (Some ''authenticated_client'') 0 = (r, m1)" by fastforce
  note c = create_wildcard_spec [OF cr]
  have vf: "(rc, ctx, m') = (if credentials = Some key \<and> 0 < length key \<and> length key \<le> 1024
      then (case r of None \<Rightarrow> (-1, None, m1) | Some c \<Rightarrow> (0, Some c, m1)) else (-1, None, m))"
  proof (cases "\<exists>cred. credentials = Some cred \<and> length cred = length key")
    case True
    then obtain cred where cred: "credentials = Some cred" "length cred = length key" by blast
    have "(cred = key) = (cmp (cred @ [NUL]) (key @ [NUL]) (Suc (length key)) = 0)" using eq [OF cred(2)] by blast
    then show ?thesis unfolding v [symmetric] assms(2) mcp_auth_verify_def cr cred(1) by (auto simp: cred(2) Let_def)
  next
    case False
    then show ?thesis unfolding v [symmetric] assms(2) mcp_auth_verify_def cr by (cases credentials) (auto simp: Let_def)
  qed
  show "rc = 0 \<and> (\<exists>c. ctx = Some c \<and> full_access c \<and> ctx_identifier c = Some ''authenticated_client'') \<and>
      credentials = Some key \<and> 0 < length key \<and> length key \<le> 1024 \<or> rc = -1 \<and> ctx = None"
    using vf c(1) by (auto simp: full_access_def split: if_splits)
  show "rc = 0" if "m = []" "credentials = Some key" "0 < length key" "length key \<le> 1024"
    using vf c(2) that by (auto split: option.splits)
qed

lemma masked_length: "length (create_masked_string s) < 64"
  by (auto simp: create_masked_string_def Let_def split: option.splits)

lemma masked_shows:
  assumes "6 < length s"
  shows "\<exists>n. create_masked_string (Some s) = take 3 s @ replicate n CHR ''*'' @ drop (length s - 3) s \<and> n \<le> length s - 6"
  using assms by (auto simp: create_masked_string_def Let_def)

section \<open>Properties\<close>

text \<open>Claim C12.  Access is granted exactly by the rules: the tool check succeeds for a context that has
  not expired and has a rule that is the tool's name, or ends in a star and is otherwise a prefix of
  it; without a context, or with an expired one, it fails.\<close>

theorem tool_access_rules:
  "mcp_auth_check_tool_access now ctx (Some name) \<longleftrightarrow>
     (\<exists>c rules p. ctx = Some c \<and> (ctx_expiry c = 0 \<or> now \<le> ctx_expiry c) \<and> ctx_allowed_tools c = Some rules \<and>
        Some p \<in> set rules \<and> (p = name \<or> (\<exists>q. p = q @ ''*'' \<and> prefix q name)))"
proof (cases ctx)
  case None
  then show ?thesis by (simp add: mcp_auth_check_tool_access_def check_access_def)
next
  case (Some c)
  then show ?thesis by (auto simp: mcp_auth_check_tool_access_def check_access_iff wildcard_match_iff)
qed

text \<open>Claim C32.  The API key: on a server with a key, \<open>mcp_auth_verify\<close> with the authentication type the
  server asks for (\<open>MCP_AUTH_NONE\<close> for an empty key) either succeeds, and then the credentials are the
  key, which has between 1 and 1024 characters, and the context it gives is granted every tool and
  every resource at any time, or returns -1 and no context.  When no allocation fails it succeeds
  exactly for these credentials.  \<open>CRYPTO_memcmp\<close> is assumed to return 0 exactly for equal regions.\<close>

theorem api_key_required:
  assumes "memcmp_ok cmp"
    and "mcp_auth_verify cmp m (Some key) (if key = [] then MCP_AUTH_NONE else MCP_AUTH_API_KEY) credentials = (rc, ctx, m')"
  shows "(rc = 0 \<and> credentials = Some key \<and> 0 < length key \<and> length key \<le> 1024 \<and>
        (\<exists>c. ctx = Some c \<and> (\<forall>now name. mcp_auth_check_tool_access now (Some c) (Some name) \<and>
           mcp_auth_check_resource_access now (Some c) (Some name))) \<or>
      rc = -1 \<and> ctx = None) \<and>
    (m = [] \<longrightarrow> (rc = 0 \<longleftrightarrow> credentials = Some key \<and> 0 < length key \<and> length key \<le> 1024))"
proof -
  note v = verify_key [OF assms(1) refl assms(2)]
  have "rc = 0 \<and> credentials = Some key \<and> 0 < length key \<and> length key \<le> 1024 \<and>
        (\<exists>c. ctx = Some c \<and> (\<forall>now name. mcp_auth_check_tool_access now (Some c) (Some name) \<and>
           mcp_auth_check_resource_access now (Some c) (Some name))) \<or>
      rc = -1 \<and> ctx = None"
    using v(1) full_access_grants by metis
  with v(2) show ?thesis by auto
qed

theorem api_key_required_witness:
  "fst (mcp_auth_verify (\<lambda>a b n. if a = b then 0 else 1) [] (Some ''secret'') MCP_AUTH_API_KEY (Some ''secret'')) = 0 \<and>
   fst (mcp_auth_verify (\<lambda>a b n. if a = b then 0 else 1) [] (Some ''secret'') MCP_AUTH_API_KEY (Some ''guess!'')) = -1"
proof -
  let ?cmp = "\<lambda>a b n. if a = b then 0 else 1" and ?key = "''secret''"
  have ok: "memcmp_ok ?cmp" by (simp add: memcmp_ok_def)
  have "mcp_auth_verify ?cmp [] (Some ?key) (if ?key = [] then MCP_AUTH_NONE else MCP_AUTH_API_KEY) cred =
      (fst (mcp_auth_verify ?cmp [] (Some ?key) MCP_AUTH_API_KEY cred),
       fst (snd (mcp_auth_verify ?cmp [] (Some ?key) MCP_AUTH_API_KEY cred)),
       snd (snd (mcp_auth_verify ?cmp [] (Some ?key) MCP_AUTH_API_KEY cred)))" for cred by simp
  from api_key_required [OF ok this, of "Some ?key"] api_key_required [OF ok this, of "Some ''guess!''"]
  show ?thesis by auto
qed

end
