(* ===== verification/Mcp_Json_Rpc.thy ===== *)
theory Mcp_Json_Rpc
  imports Mcp_Message
begin

text \<open>
  JSON-RPC texts built as JSON objects: the formatting functions of \<open>src/json/mcp_json_rpc.c\<close>.  The
  argument \<open>m\<close> answers the allocations of the nodes; the parts of a call that parse or print have the
  answers of the record \<open>json_env\<close>.
\<close>

section \<open>Ids as numbers\<close>

text \<open>
  The conversion of an unsigned 64 bit integer to \<open>double\<close>: exact up to \<open>2 ^ 53\<close>, above it rounded to
  53 significant bits, to even in the middle.
\<close>

fun excess_bits :: "nat \<Rightarrow> nat" where
  "excess_bits n = (if n < 2 ^ 53 then 0 else Suc (excess_bits (n div 2)))"

declare excess_bits.simps [simp del]

definition double_of_u64 :: "size_t \<Rightarrow> double" where
  "double_of_u64 i =
     (let n = unat i; e = excess_bits n; q = n div 2 ^ e; r = 2 * (n mod 2 ^ e)
      in Finite (real ((if 2 ^ e < r \<or> r = 2 ^ e \<and> 0 < e \<and> odd q then q + 1 else q) * 2 ^ e)))"

section \<open>Objects\<close>

text \<open>The object after the call, or \<open>None\<close> for the status -1, which destroys the object.\<close>

definition add_json_property ::
    "mem \<Rightarrow> double json \<Rightarrow> string \<Rightarrow> double json option \<Rightarrow> double json option \<times> mem" where
  "add_json_property m obj key value =
     (case value of
        None \<Rightarrow> (None, m)
      | Some v \<Rightarrow>
          (case mcp_json_object_set_property m (Some obj) key (Some v) of
             (rc, obj', m1) \<Rightarrow> if rc \<noteq> 0 then (None, m1) else (obj', m1)))"

definition add_string_property ::
    "mem \<Rightarrow> double json \<Rightarrow> string \<Rightarrow> string \<Rightarrow> double json option \<times> mem" where
  "add_string_property m obj key value =
     (let (v, m1) = mcp_json_string_create m (Some value) in add_json_property m1 obj key v)"

definition add_number_property ::
    "mem \<Rightarrow> double json \<Rightarrow> string \<Rightarrow> double \<Rightarrow> double json option \<times> mem" where
  "add_number_property m obj key value =
     (let (v, m1) = mcp_json_number_create m value in add_json_property m1 obj key v)"

text \<open>The next step on the object, unless a step before has failed.\<close>

definition and_on :: "double json option \<times> mem \<Rightarrow> (mem \<Rightarrow> double json \<Rightarrow> double json option \<times> mem) \<Rightarrow> double json option \<times> mem" where
  "and_on r f = (case r of (None, m) \<Rightarrow> (None, m) | (Some obj, m) \<Rightarrow> f m obj)"

definition init_json_rpc_message :: "mem \<Rightarrow> size_t \<Rightarrow> double json option \<times> mem" where
  "init_json_rpc_message m i =
     and_on (and_on (mcp_json_object_create m)
       (\<lambda>m1 obj. add_string_property m1 obj ''jsonrpc'' ''2.0''))
       (\<lambda>m2 obj. add_number_property m2 obj ''id'' (double_of_u64 i))"

definition stringify_built :: "json_env \<Rightarrow> double json option \<times> mem \<Rightarrow> string option checked" where
  "stringify_built env r = (case r of (None, _) \<Rightarrow> Done None | (Some obj, _) \<Rightarrow> mcp_json_stringify env obj)"

definition parse_text :: "json_env \<Rightarrow> string \<Rightarrow> double json option checked" where
  "parse_text env s = (case mcp_json_parse (env_strtod env) (env_parse_mem env) (Some s) of
       OutOfBounds \<Rightarrow> Undefined | Null \<Rightarrow> Done None | Ok j \<Rightarrow> Done (Some j))"

definition mcp_json_format_request ::
    "json_env \<Rightarrow> mem \<Rightarrow> size_t \<Rightarrow> string option \<Rightarrow> string option \<Rightarrow> string option checked" where
  "mcp_json_format_request env m i meth params =
     (case meth of
        None \<Rightarrow> Done None
      | Some mt \<Rightarrow>
          (let r = and_on (init_json_rpc_message m i) (\<lambda>m1 obj. add_string_property m1 obj ''method'' mt)
           in case (params, r) of
                (Some p, Some obj, m2) \<Rightarrow>
                  (case parse_text env p of
                     Undefined \<Rightarrow> Undefined
                   | Done None \<Rightarrow> stringify_built env r
                   | Done (Some pj) \<Rightarrow> stringify_built env (add_json_property m2 obj ''params'' (Some pj)))
              | _ \<Rightarrow> stringify_built env r))"

definition mcp_json_format_response :: "json_env \<Rightarrow> mem \<Rightarrow> size_t \<Rightarrow> string option \<Rightarrow> string option checked" where
  "mcp_json_format_response env m i result =
     (case init_json_rpc_message m i of
        (None, _) \<Rightarrow> Done None
      | (Some obj, m1) \<Rightarrow>
          (case (case result of None \<Rightarrow> Done None | Some s \<Rightarrow> parse_text env s) of
             Undefined \<Rightarrow> Undefined
           | Done parsed \<Rightarrow>
               (let (rj, m2) = (case parsed of Some j \<Rightarrow> (Some j, m1) | None \<Rightarrow> mcp_json_null_create m1)
                in case rj of
                     None \<Rightarrow> Done None
                   | Some j \<Rightarrow> stringify_built env (add_json_property m2 obj ''result'' (Some j)))))"

definition mcp_json_format_error_response ::
    "json_env \<Rightarrow> mem \<Rightarrow> size_t \<Rightarrow> int \<Rightarrow> string option \<Rightarrow> string option checked" where
  "mcp_json_format_error_response env m i code msg =
     (case init_json_rpc_message m i of
        (None, _) \<Rightarrow> Done None
      | (Some response, m1) \<Rightarrow>
          (let (err, m2) = and_on (and_on (mcp_json_object_create m1)
                 (\<lambda>m obj. add_number_property m obj ''code'' (Finite (of_int code))))
                 (\<lambda>m obj. add_string_property m obj ''message'' (case msg of None \<Rightarrow> [] | Some s \<Rightarrow> s))
           in case err of
                None \<Rightarrow> Done None
              | Some e \<Rightarrow> stringify_built env (add_json_property m2 response ''error'' (Some e))))"

definition mcp_json_format_read_resource_params :: "json_env \<Rightarrow> mem \<Rightarrow> string option \<Rightarrow> string option checked" where
  "mcp_json_format_read_resource_params env m uri =
     (case uri of
        None \<Rightarrow> Done None
      | Some u \<Rightarrow> stringify_built env (and_on (mcp_json_object_create m) (\<lambda>m1 obj. add_string_property m1 obj ''uri'' u)))"

definition mcp_json_format_call_tool_params ::
    "json_env \<Rightarrow> mem \<Rightarrow> string option \<Rightarrow> string option \<Rightarrow> string option checked" where
  "mcp_json_format_call_tool_params env m name arguments =
     (case name of
        None \<Rightarrow> Done None
      | Some n \<Rightarrow>
          (let r = and_on (mcp_json_object_create m) (\<lambda>m1 obj. add_string_property m1 obj ''name'' n)
           in case (arguments, r) of
                (Some a, Some obj, m2) \<Rightarrow>
                  (case parse_text env a of
                     Undefined \<Rightarrow> Undefined
                   | Done None \<Rightarrow> Done None
                   | Done (Some aj) \<Rightarrow> stringify_built env (add_json_property m2 obj ''arguments'' (Some aj)))
              | _ \<Rightarrow> stringify_built env r))"

section \<open>Building succeeds when memory does not run out\<close>

text \<open>A built object: room for more, all its values well-formed, and the map of its properties.\<close>

definition built :: "double json option \<times> mem \<Rightarrow> (string \<times> double json) list \<Rightarrow> bool" where
  "built r es \<longleftrightarrow> (\<exists>t. r = (Some (JObject t), []) \<and> roomy t (length es) \<and> json_ok (JObject t) \<and>
     ht_map json_ops t = map_of es)"

lemma built_create: "built (mcp_json_object_create []) []"
proof -
  obtain t0 :: "(string, double json) mcp_hashtable" where
    t0: "mcp_json_object_create [] = (Some (JObject t0), [])" "ht_map json_ops t0 = Map.empty"
    "ht_capacity t0 = 32" "json_ok (JObject t0)" using object_create_no_failure by blast
  have "roomy t0 0" using t0 unfolding json_ok_JObject by (simp add: roomy_def)
  then show ?thesis unfolding built_def using t0 by auto
qed

lemma built_add:
  assumes "built r es" "c_str_ok k" "json_ok v" "length es < 2 ^ 56"
  shows "built (and_on r (\<lambda>m obj. add_json_property m obj k (Some v))) ((k, v) # es)"
proof -
  obtain t where t: "r = (Some (JObject t), [])" "roomy t (length es)" "json_ok (JObject t)" "ht_map json_ops t = map_of es"
    using assms(1) unfolding built_def by blast
  obtain t' ev where p: "mcp_hashtable_put json_ops [] t k v = (0, t', ev, [])" "roomy t' (Suc (length es))"
    "ht_map json_ops t' = (ht_map json_ops t)(k \<mapsto> v)" using put_succeeds [OF t(2) assms(4)] by blast
  have "jdepth (JObject t) \<le> Suc (max (jdepth v) (jdepth (JObject t)))" "jdepth v \<le> max (jdepth v) (jdepth (JObject t))"
    by simp_all
  from put_object_ok [OF t(3) this(1) assms(3) this(2) assms(2) p(1)] have "json_ok (JObject t')" by blast
  with t p show ?thesis
    by (simp add: built_def and_on_def add_json_property_def mcp_json_object_set_property_def fun_upd_def del: json_ok.simps)
qed

lemma built_add_string:
  assumes "built r es" "c_str_ok k" "c_str_ok s" "length es < 2 ^ 56" "length s < 2 ^ 60"
  shows "built (and_on r (\<lambda>m obj. add_string_property m obj k s)) ((k, JString s) # es)"
proof -
  have "built r es \<Longrightarrow> and_on r (\<lambda>m obj. add_string_property m obj k s) = and_on r (\<lambda>m obj. add_json_property m obj k (Some (JString s)))"
    using assms(5) by (auto simp: built_def and_on_def add_string_property_def mcp_json_string_create_def mcp_json_alloc_node_def)
  with built_add [OF assms(1,2) _ assms(4), of "JString s"] assms show ?thesis by simp
qed

lemma built_add_number:
  assumes "built r es" "c_str_ok k" "length es < 2 ^ 56"
  shows "built (and_on r (\<lambda>m obj. add_number_property m obj k d)) ((k, JNumber d) # es)"
proof -
  have "built r es \<Longrightarrow> and_on r (\<lambda>m obj. add_number_property m obj k d) = and_on r (\<lambda>m obj. add_json_property m obj k (Some (JNumber d)))"
    by (auto simp: built_def and_on_def add_number_property_def mcp_json_number_create_def mcp_json_alloc_node_def)
  with built_add [OF assms(1,2) _ assms(3), of "JNumber d"] assms show ?thesis by simp
qed

lemma built_init: "built (init_json_rpc_message [] i) [(''id'', JNumber (double_of_u64 i)), (''jsonrpc'', JString ''2.0'')]"
proof -
  have "built (and_on (mcp_json_object_create []) (\<lambda>m obj. add_string_property m obj ''jsonrpc'' ''2.0'')) [(''jsonrpc'', JString ''2.0'')]"
    by (rule built_add_string [OF built_create]) (simp_all add: c_str_ok_def)
  from built_add_number [OF this, of "''id''" "double_of_u64 i"] show ?thesis
    unfolding init_json_rpc_message_def by (simp add: c_str_ok_def)
qed

section \<open>Printing and reading a built object\<close>

lemma built_entries:
  assumes "json_ok (JObject t)" "ht_map json_ops t = map_of es" "distinct (map fst es)"
  shows "mset (concat (ht_buckets t)) = mset es"
proof -
  have inv: "ht_inv json_ops t" using assms(1) by simp
  have d: "distinct (map fst (concat (ht_buckets t)))" using inv distinct_keys_concat by (auto simp: ht_inv_def)
  have "set (concat (ht_buckets t)) = set es"
    using assms(2) map_of_inject_set [OF d assms(3)] unfolding ht_map_concat [OF inv] by blast
  then show ?thesis using d assms(3) by (intro iffD1 [OF set_eq_iff_mset_eq_distinct]) (auto simp: distinct_map)
qed

text \<open>A value that can be printed and read back, with a bound for the length of its text and its depth.\<close>

definition sized :: "json_env \<Rightarrow> nat \<Rightarrow> nat \<Rightarrow> double json \<Rightarrow> bool" where
  "sized env L D v \<longleftrightarrow> json_ok v \<and> printable (env_format env) v \<and> jdepth v \<le> D \<and> length (render (env_format env) v) < L \<and>
     (\<forall>d \<in> set_json v. number_roundtrip (env_strtod env) (env_format env) d)"

lemma sized_text_ok: "sized env L D v \<Longrightarrow> L \<le> 2 ^ 52 \<Longrightarrow> D \<le> 100 \<Longrightarrow> json_text_ok env v"
  by (auto simp: sized_def json_text_ok_def)

lemma sized_mono: "sized env L D v \<Longrightarrow> L \<le> L' \<Longrightarrow> D \<le> D' \<Longrightarrow> sized env L' D' v"
  by (auto simp: sized_def)

lemma sized_object:
  assumes ok: "json_ok (JObject t)" "ht_map json_ops t = map_of es" "distinct (map fst es)" "length es \<le> 8"
    and m: "\<forall>(k, v) \<in> set es. length k \<le> 20 \<and> sized env L D v"
  shows "sized env (8 * L + 1000) (Suc D) (JObject t)"
proof -
  note ms = built_entries [OF ok(1-3)]
  have set: "set (concat (ht_buckets t)) = set es" by (rule mset_eq_setD [OF ms])
  have k: "short_string k" "length (quoted k) \<le> 122" if "length k \<le> 20" for k
    using quoted_bounds [of k] that by (auto simp: short_string_def quoted_def)
  have "printable (env_format env) (JObject t)" unfolding printable_JObject set using m k by (auto simp: sized_def)
  moreover have "jdepth (JObject t) \<le> Suc D" unfolding jdepth_JObject_le set using m by (auto simp: sized_def)
  moreover have "number_roundtrip (env_strtod env) (env_format env) d" if d: "d \<in> set_json (JObject t)" for d
  proof -
    obtain k v where "(k, v) \<in> set es" "d \<in> set_json v" using d unfolding set_json_JObject set by blast
    then show ?thesis using m by (auto simp: sized_def)
  qed
  moreover have "length (render (env_format env) (JObject t)) < 8 * L + 1000"
  proof -
    let ?f = "\<lambda>(k, v). quoted k @ '':'' @ render (env_format env) v"
    have "length (?f e) \<le> L + 122" if "e \<in> set es" for e
      using m k that by (fastforce simp: sized_def)
    then have "sum_list (map (length \<circ> ?f) es) \<le> sum_list (map (\<lambda>_. L + 122) es)" by (intro sum_list_mono) auto
    also have "\<dots> \<le> 8 * (L + 122)" using mult_le_mono1 [OF ok(4), of "L + 122"] by (simp add: sum_list_triv)
    finally have 1: "sum_list (map (length \<circ> ?f) es) \<le> 8 * (L + 122)" .
    have "mset (map (length \<circ> ?f) (concat (ht_buckets t))) = mset (map (length \<circ> ?f) es)" using ms by (simp only: mset_map)
    then have 2: "sum_list (map (length \<circ> ?f) (concat (ht_buckets t))) = sum_list (map (length \<circ> ?f) es)" by (metis sum_mset_sum_list)
    have 3: "length (concat (ht_buckets t)) = length es" using ms by (metis size_mset)
    have 4: "length (render (env_format env) (JObject t)) =
        Suc (Suc (sum_list (map (length \<circ> ?f) (concat (ht_buckets t))) + (length (concat (ht_buckets t)) - 1)))"
      unfolding render_JObject by (simp add: comma_sep_len comp_def)
    show ?thesis unfolding 4 2 3 using 1 ok(4) by simp
  qed
  ultimately show ?thesis using ok(1) by (simp add: sized_def del: json_ok.simps printable.simps render.simps jdepth.simps)
qed

lemma built_text_ok:
  assumes ok: "json_ok (JObject t)" "ht_map json_ops t = map_of es" "distinct (map fst es)" "length es \<le> 8"
    and m: "\<forall>(k, v) \<in> set es. length k \<le> 20 \<and> json_text_ok env v"
  shows "printable (env_format env) (JObject t)" "jdepth (JObject t) \<le> 101" "length (render (env_format env) (JObject t)) < 2 ^ 56"
    "\<forall>d \<in> set_json (JObject t). number_roundtrip (env_strtod env) (env_format env) d"
proof -
  have "\<forall>(k, v) \<in> set es. length k \<le> 20 \<and> sized env (2 ^ 52) 100 v" using m by (auto simp: json_text_ok_def sized_def)
  from sized_object [OF ok this] show "printable (env_format env) (JObject t)" "jdepth (JObject t) \<le> 101"
    "length (render (env_format env) (JObject t)) < 2 ^ 56"
    "\<forall>d \<in> set_json (JObject t). number_roundtrip (env_strtod env) (env_format env) d"
    unfolding sized_def by auto
qed

lemma parse_of_reads:
  assumes "reads_as strtod 0 s v"
  shows "\<exists>j. mcp_json_parse strtod [] (Some s) = Ok j \<and> json_ok j \<and> jabs j = v"
proof -
  obtain j where j: "parse_value strtod [] s 0 = Ok (j, [], [])" "jabs j = v"
    using assms unfolding reads_as_def by (metis append_Nil2 follow_def)
  have "mcp_json_parse strtod [] (Some s) = Ok j"
    using j(1) by (simp add: mcp_json_parse_def) (simp add: skip_whitespace_def)
  then show ?thesis using parse_shape(1) [OF j(1)] j(2) by auto
qed

lemma built_roundtrip:
  assumes "built r es" "distinct (map fst es)" "length es \<le> 8" "\<forall>(k, v) \<in> set es. length k \<le> 20 \<and> json_text_ok env v"
    and "enough_memory env"
  shows "\<exists>s t. stringify_built env r = Done (Some s) \<and> peek (skip_whitespace s) = CHR ''{'' \<and>
    mcp_json_parse (env_strtod env) [] (Some s) = Ok (JObject t) \<and> json_ok (JObject t) \<and> (\<forall>x. map_option jabs (mcp_json_object_get_property (Some (JObject t)) x) = map_option jabs (map_of es x))"
proof -
  obtain t where t: "r = (Some (JObject t), [])" "json_ok (JObject t)" "ht_map json_ops t = map_of es"
    using assms(1) unfolding built_def by blast
  note ok = built_text_ok [OF t(2,3) assms(2-4)]
  let ?s = "render (env_format env) (JObject t)"
  have mem: "env_text_mem env = []" "env_estimate env (JObject t) < 2 ^ 63" using assms(5) by (simp_all add: enough_memory_def)
  have p: "mcp_json_stringify env (JObject t) = Done (Some ?s)"
    by (rule mcp_json_stringify_ok [OF t(2) ok(1) mem ok(4,3)])
  have "reads (env_strtod env) (env_format env) 0 (JObject t)" by (rule value_reads [OF t(2) ok(4) _ ok(3)]) (use ok(2) in simp)
  from parse_of_reads [OF this [unfolded reads_def]] obtain j where
    j: "mcp_json_parse (env_strtod env) [] (Some ?s) = Ok j" "json_ok j" "jabs j = jabs (JObject t)" by blast
  then obtain t' where t': "j = JObject t'" by (cases j) auto
  have inv: "ht_inv json_ops t" using t(2) by simp
  have "map_option jabs (mcp_json_object_get_property (Some (JObject t')) x) = map_option jabs (map_of es x)" for x
    using property_of_abs [OF j(2) [unfolded t'], of "\<lambda>x. map_option jabs (map_of es x)"] j(3) t(3)
    unfolding t' jabs_JObject [OF inv] by simp
  moreover have "peek (skip_whitespace ?s) = CHR ''{''" unfolding render_JObject by (simp add: skip_whitespace_def is_space_def)
  ultimately show ?thesis using t p j t' by (auto simp: stringify_built_def simp del: json_ok.simps render.simps)
qed

lemma json_text_ok_same:
  "json_text_ok env j \<Longrightarrow> json_ok j' \<Longrightarrow> jabs j' = jabs j \<Longrightarrow> json_text_ok env j'"
  using jabs_same_text_size [of j j' "env_format env"] by (auto simp: json_text_ok_def same_text_size_def)

lemma json_text_parses:
  assumes "json_text_ok env j" "enough_memory env"
  shows "\<exists>j'. parse_text env (render (env_format env) j) = Done (Some j') \<and> json_text_ok env j' \<and> jabs j' = jabs j"
proof -
  have "reads (env_strtod env) (env_format env) 0 j"
    by (rule value_reads) (use assms in \<open>auto simp: json_text_ok_def\<close>)
  from parse_of_reads [OF this [unfolded reads_def]] obtain j' where
    "mcp_json_parse (env_strtod env) [] (Some (render (env_format env) j)) = Ok j'" "json_ok j'" "jabs j' = jabs j" by blast
  then show ?thesis using assms json_text_ok_same by (auto simp: parse_text_def enough_memory_def)
qed

lemma double_of_id: "unat i \<le> 2 ^ 53 \<Longrightarrow> double_of_u64 i = id_value i"
proof -
  assume i: "unat i \<le> 2 ^ 53"
  show ?thesis
  proof (cases "unat i < 2 ^ 53")
    case True
    then have "excess_bits (unat i) = 0" by (subst excess_bits.simps) simp
    then show ?thesis by (simp add: double_of_u64_def id_value_def)
  next
    case False
    with i have n: "unat i = 2 ^ 53" by simp
    have "excess_bits (2 ^ 53) = 1" by (subst excess_bits.simps) (simp add: excess_bits.simps)
    then show ?thesis by (simp add: double_of_u64_def id_value_def n)
  qed
qed


lemma json_text_ok_scalars:
  assumes "c_str_ok s" "length s < 2 ^ 28"
  shows "json_text_ok env (JString s)"
proof -
  have "length (quoted s) < 2 ^ 31 - 1" "length (escape_string s) < 2 ^ 31 - 1"
    using quoted_bounds [of s] assms(2) by (simp_all add: quoted_def)
  then show ?thesis using assms(1) by (simp add: json_text_ok_def short_string_def)
qed

lemma format_request_object:
  assumes "enough_memory env" and "unat i \<le> 2 ^ 53" "json_text_ok env (JNumber (id_value i))"
    and "c_str_ok meth" "length meth < 2 ^ 28" and "json_text_ok env p"
  shows "\<exists>msg t f. mcp_json_format_request env [] i (Some meth) (Some (render (env_format env) p)) = Done (Some msg) \<and>
    peek (skip_whitespace msg) = CHR ''{'' \<and> mcp_json_parse (env_strtod env) [] (Some msg) = Ok (JObject t) \<and> json_ok (JObject t) \<and>
    (\<forall>x. map_option jabs (mcp_json_object_get_property (Some (JObject t)) x) = f x) \<and>
    f ''id'' = Some (VNumber (id_value i)) \<and> f ''method'' = Some (VString meth) \<and> f ''params'' = Some (jabs p)"
proof -
  obtain pj where pj: "parse_text env (render (env_format env) p) = Done (Some pj)" "json_text_ok env pj" "jabs pj = jabs p"
    using json_text_parses [OF assms(6,1)] by blast
  let ?es = "[(''params'', pj), (''method'', JString meth), (''id'', JNumber (id_value i)), (''jsonrpc'', JString ''2.0'')]"
  let ?r = "and_on (init_json_rpc_message [] i) (\<lambda>m obj. add_string_property m obj ''method'' meth)"
  have b1: "built ?r (tl ?es)"
    using built_add_string [OF built_init [of i], of "''method''" meth] assms(4,5) by (simp add: double_of_id [OF assms(2)] c_str_ok_def)
  then obtain obj where r: "?r = (Some obj, [])" unfolding built_def by blast
  have "built (and_on ?r (\<lambda>m obj. add_json_property m obj ''params'' (Some pj))) ?es"
    using built_add [OF b1, of "''params''" pj] pj(2) by (simp add: json_text_ok_def c_str_ok_def)
  then have b: "built (add_json_property [] obj ''params'' (Some pj)) ?es" unfolding r by (simp add: and_on_def)
  have "\<forall>(k, v) \<in> set ?es. length k \<le> 20 \<and> json_text_ok env v"
    using pj(2) assms(3) json_text_ok_scalars [OF assms(4,5)] json_text_ok_scalars [of "''2.0''"] by (simp add: c_str_ok_def)
  from built_roundtrip [OF b _ _ this assms(1)] obtain s t where
    s: "stringify_built env (add_json_property [] obj ''params'' (Some pj)) = Done (Some s)" "peek (skip_whitespace s) = CHR ''{''"
    "mcp_json_parse (env_strtod env) [] (Some s) = Ok (JObject t)" "json_ok (JObject t)"
    "\<forall>x. map_option jabs (mcp_json_object_get_property (Some (JObject t)) x) = map_option jabs (map_of ?es x)" by auto
  have "mcp_json_format_request env [] i (Some meth) (Some (render (env_format env) p)) = Done (Some s)"
    using s(1) pj(1) r by (simp add: mcp_json_format_request_def)
  then show ?thesis using s pj(3) by (intro exI [of _ s] exI [of _ t] exI [of _ "\<lambda>x. map_option jabs (map_of ?es x)"]) auto
qed

section \<open>Properties\<close>

text \<open>Claim C33.  Requests the client builds as objects reach the server: what \<open>mcp_json_format_request\<close>
  prints for an id up to \<open>2 ^ 53\<close>, a method name (with whatever characters) and the text of an object
  or array as parameters, \<open>mcp_json_parse_message\<close> reads as a request with the same id and method and
  the print of equal parameters, when memory does not run out.\<close>

theorem format_request_roundtrip:
  assumes "enough_memory env" and "unat i \<le> 2 ^ 53" "json_text_ok env (JNumber (id_value i))"
    and "c_str_ok meth" "length meth < 2 ^ 28" and "json_text_ok env p" "params_ok (Some p)"
  shows "\<exists>msg p'. mcp_json_format_request env [] i (Some meth) (Some (render (env_format env) p)) = Done (Some msg) \<and>
    mcp_json_parse_message env msg = Done (Some (Request i meth (Some (render (env_format env) p')))) \<and> jabs p' = jabs p"
proof -
  obtain msg t f where m: "mcp_json_format_request env [] i (Some meth) (Some (render (env_format env) p)) = Done (Some msg)"
    "mcp_json_parse (env_strtod env) [] (Some msg) = Ok (JObject t)" "json_ok (JObject t)"
    "\<forall>x. map_option jabs (mcp_json_object_get_property (Some (JObject t)) x) = f x"
    "f ''id'' = Some (VNumber (id_value i))" "f ''method'' = Some (VString meth)" "f ''params'' = Some (jabs p)"
    using format_request_object [OF assms(1-6)] by blast
  have "length meth < 2 ^ 60" using assms(5) by simp
  from request_of_object [OF assms(1,6,7) this m(3-7)] message_of_object [OF assms(1) m(2)] m(1) show ?thesis by auto
qed

theorem format_request_roundtrip_witness:
  "\<exists>msg p'. mcp_json_format_request env_int [] 7 (Some [CHR 0x01]) (Some ''[7]'') = Done (Some msg) \<and>
    mcp_json_parse_message env_int msg = Done (Some (Request 7 [CHR 0x01] (Some (render (\<lambda>_. ''7'') p')))) \<and>
    jabs p' = VArray [VNumber (Finite 7)]"
proof -
  have "json_text_ok env_int (JNumber (id_value 7))" using env_int(3) by (simp add: json_text_ok_def id_value_def)
  from format_request_roundtrip [OF env_int(1) _ this _ _ env_int(3), of "[CHR 0x01]"] show ?thesis
    by (simp add: params_ok_def c_str_ok_def) (simp add: env_int_def)
qed

text \<open>Results built as objects reach the client: what \<open>mcp_json_format_response\<close> prints (the
  answer to a ping is made so) is read by \<open>mcp_json_parse_response\<close> as a response with the same id, no
  error and the print of an equal result.\<close>

theorem format_response_roundtrip:
  assumes "enough_memory env" and "unat i \<le> 2 ^ 53" "json_text_ok env (JNumber (id_value i))" and "json_text_ok env r"
  shows "\<exists>msg r'. mcp_json_format_response env [] i (Some (render (env_format env) r)) = Done (Some msg) \<and>
    mcp_json_parse_response env msg = Done (Some \<lparr>resp_id = i, resp_error_code = MCP_ERROR_NONE,
      resp_error_message = None, resp_result = Some (render (env_format env) r')\<rparr>) \<and> jabs r' = jabs r"
proof -
  obtain rj where rj: "parse_text env (render (env_format env) r) = Done (Some rj)" "json_text_ok env rj" "jabs rj = jabs r"
    using json_text_parses [OF assms(4,1)] by blast
  let ?es = "[(''result'', rj), (''id'', JNumber (id_value i)), (''jsonrpc'', JString ''2.0'')]"
  have b1: "built (init_json_rpc_message [] i) (tl ?es)" using built_init [of i] by (simp add: double_of_id [OF assms(2)])
  then obtain obj where r: "init_json_rpc_message [] i = (Some obj, [])" unfolding built_def by blast
  have "built (and_on (init_json_rpc_message [] i) (\<lambda>m obj. add_json_property m obj ''result'' (Some rj))) ?es"
    using built_add [OF b1, of "''result''" rj] rj(2) by (simp add: json_text_ok_def c_str_ok_def)
  then have b: "built (add_json_property [] obj ''result'' (Some rj)) ?es" unfolding r by (simp add: and_on_def)
  have "\<forall>(k, v) \<in> set ?es. length k \<le> 20 \<and> json_text_ok env v"
    using rj(2) assms(3) json_text_ok_scalars [of "''2.0''"] by (simp add: c_str_ok_def)
  from built_roundtrip [OF b _ _ this assms(1)] obtain s t where
    s: "stringify_built env (add_json_property [] obj ''result'' (Some rj)) = Done (Some s)"
    "mcp_json_parse (env_strtod env) [] (Some s) = Ok (JObject t)" "json_ok (JObject t)"
    "\<forall>x. map_option jabs (mcp_json_object_get_property (Some (JObject t)) x) = map_option jabs (map_of ?es x)" by auto
  from result_of_object [OF assms(1,4,2) s(2-4)] rj(3) obtain r' where
    "mcp_json_parse_response env s = Done (Some \<lparr>resp_id = i, resp_error_code = MCP_ERROR_NONE,
      resp_error_message = None, resp_result = Some (render (env_format env) r')\<rparr>)" "jabs r' = jabs r" by auto
  moreover have "mcp_json_format_response env [] i (Some (render (env_format env) r)) = Done (Some s)"
    using s(1) rj(1) r by (simp add: mcp_json_format_response_def)
  ultimately show ?thesis by blast
qed

theorem format_response_roundtrip_witness:
  "\<exists>msg r'. mcp_json_format_response env_int [] 7 (Some ''[7]'') = Done (Some msg) \<and>
    mcp_json_parse_response env_int msg = Done (Some \<lparr>resp_id = 7, resp_error_code = MCP_ERROR_NONE,
      resp_error_message = None, resp_result = Some (render (\<lambda>_. ''7'') r')\<rparr>) \<and> jabs r' = VArray [VNumber (Finite 7)]"
proof -
  have "json_text_ok env_int (JNumber (id_value 7))" using env_int(3) by (simp add: json_text_ok_def id_value_def)
  from format_response_roundtrip [OF env_int(1) _ this env_int(3)] show ?thesis by simp (simp add: env_int_def)
qed

end
