(* ===== verification/Mcp_Dispatch.thy ===== *)
theory Mcp_Dispatch
  imports Mcp_Auth Mcp_Json_Rpc
begin

text \<open>
  The dispatcher of the server: \<open>src/server/mcp_server_dispatch.c\<close>.  The method handlers, the routing
  table of the gateway and the forwarding to a backend are the fields of a record \<open>services\<close>, functions
  on a state the dispatcher does not look into: a theorem for every \<open>services\<close> holds for the handlers of
  the server, and a state that has not changed shows that no handler ran.  Each message of a batch has
  its own answers of the allocator (\<open>message_env\<close>).  The thread-local arena is not used by the code
  that is modelled; whether it can be had is the argument \<open>arena_ok\<close>.
\<close>

section \<open>Requests\<close>

record request =
  rq_id :: size_t
  rq_method :: "string option"
  rq_params :: "string option"

record message_env =
  me_json :: json_env
  me_build_mem :: mem      \<comment> \<open>for \<open>mcp_json_format_response\<close>\<close>
  me_reply_mem :: mem      \<comment> \<open>for \<open>create_error_response\<close>\<close>
  me_now :: int            \<comment> \<open>the clock\<close>

text \<open>A handler's error code and response, with the new state.\<close>

type_synonym 's reply = "((int \<times> string option) \<times> 's) checked"

type_synonym 's handler = "message_env \<Rightarrow> request \<Rightarrow> mcp_auth_context option \<Rightarrow> 's \<Rightarrow> 's reply"

record 's services =
  sv_api_key :: "string option"
  sv_gateway_mode :: bool       \<comment> \<open>gateway mode with at least one backend\<close>
  sv_pool_manager :: bool
  sv_find_backend :: "request \<Rightarrow> nat option"
  sv_forward :: "nat \<Rightarrow> request \<Rightarrow> 's \<Rightarrow> 's reply"
  sv_call_tool :: "'s handler"
  sv_read_resource :: "'s handler"
  sv_list_resources :: "'s handler"
  sv_list_tools :: "'s handler"
  sv_list_resource_templates :: "'s handler"
  sv_get_performance_metrics :: "'s handler"
  sv_reset_performance_metrics :: "'s handler"

definition error_reply :: "mem \<Rightarrow> size_t \<Rightarrow> int \<Rightarrow> int \<Rightarrow> string \<Rightarrow> 's \<Rightarrow> 's reply" where
  "error_reply m i status code msg s =
     (case create_error_response m i code msg of Undefined \<Rightarrow> Undefined | Done r \<Rightarrow> Done ((status, r), s))"

definition handle_ping_request :: "message_env \<Rightarrow> request \<Rightarrow> 's \<Rightarrow> 's reply" where
  "handle_ping_request me rq s =
     (case mcp_json_format_response (me_json me) (me_build_mem me) (rq_id rq)
             (Some (''{'' @ Q @ ''message'' @ Q @ '':'' @ Q @ ''pong'' @ Q @ ''}'')) of
        Undefined \<Rightarrow> Undefined
      | Done None \<Rightarrow>
          error_reply (me_reply_mem me) (rq_id rq) MCP_ERROR_INTERNAL_ERROR MCP_ERROR_INTERNAL_ERROR ''Failed to create ping response'' s
      | Done (Some response) \<Rightarrow> Done ((MCP_ERROR_NONE, Some response), s))"

text \<open>The comparison \<open>method_len == n && memcmp(method, name, n) == 0\<close>.\<close>

definition method_is :: "string \<Rightarrow> nat \<Rightarrow> string \<Rightarrow> bool" where
  "method_is meth n name \<longleftrightarrow> length meth = n \<and> take n meth = take n name"

definition handle_request ::
    "message_env \<Rightarrow> 's services \<Rightarrow> request \<Rightarrow> mcp_auth_context option \<Rightarrow> 's \<Rightarrow> 's reply" where
  "handle_request me sv rq ctx s =
     (if rq_method rq \<noteq> Some ''ping'' \<and> ctx = None then Done ((MCP_ERROR_INVALID_PARAMS, None), s)
      else case (if sv_gateway_mode sv then sv_find_backend sv rq else None) of
        Some backend \<Rightarrow>
          (if \<not> sv_pool_manager sv
           then error_reply (me_reply_mem me) (rq_id rq) MCP_ERROR_INTERNAL_ERROR MCP_ERROR_INTERNAL_ERROR ''Gateway configuration error.'' s
           else sv_forward sv backend rq s)
      | None \<Rightarrow>
          (case rq_method rq of
             None \<Rightarrow> error_reply (me_reply_mem me) (rq_id rq) MCP_ERROR_INVALID_REQUEST MCP_ERROR_INVALID_REQUEST ''Missing method'' s
           | Some meth \<Rightarrow>
               if method_is meth 4 ''ping'' then handle_ping_request me rq s
               else if method_is meth 9 ''call_tool'' then sv_call_tool sv me rq ctx s
               else if method_is meth 13 ''read_resource'' then sv_read_resource sv me rq ctx s
               else if method_is meth 14 ''list_resources'' then sv_list_resources sv me rq ctx s
               else if method_is meth 10 ''list_tools'' then sv_list_tools sv me rq ctx s
               else if method_is meth 23 ''list_resource_templates'' then sv_list_resource_templates sv me rq ctx s
               else if method_is meth 22 ''get_performance_metrics'' then sv_get_performance_metrics sv me rq ctx s
               else if method_is meth 24 ''reset_performance_metrics'' then sv_reset_performance_metrics sv me rq ctx s
               else error_reply (me_reply_mem me) (rq_id rq) MCP_ERROR_METHOD_NOT_FOUND MCP_ERROR_METHOD_NOT_FOUND ''Method not found'' s))"

section \<open>Messages\<close>

record dispatch_env =
  de_memcmp :: memcmp
  de_json :: json_env                 \<comment> \<open>for the message as a whole and the parameters of the first\<close>
  de_items :: "nat \<Rightarrow> json_env"      \<comment> \<open>for the items of a batch\<close>
  de_msgs :: "nat \<Rightarrow> message_env"    \<comment> \<open>for the handling of the messages\<close>
  de_auth_mem :: mem
  de_anon_mem :: mem
  de_batch_mem :: mem
  de_error_mem :: mem

definition required_auth_type :: "string option \<Rightarrow> mcp_auth_type" where
  "required_auth_type api_key = (case api_key of Some key \<Rightarrow> if length key > 0 then MCP_AUTH_API_KEY else MCP_AUTH_NONE | None \<Rightarrow> MCP_AUTH_NONE)"

definition is_ping :: "mcp_message list \<Rightarrow> nat \<Rightarrow> bool" where
  "is_ping messages message_count = (message_count > 0 \<and> (case messages of Request _ meth _ # _ \<Rightarrow> meth = ''ping'' | _ \<Rightarrow> False))"

definition first_request_id :: "mcp_message list \<Rightarrow> nat \<Rightarrow> size_t" where
  "first_request_id messages message_count = (if message_count > 0 then (case messages of Request i _ _ # _ \<Rightarrow> i | _ \<Rightarrow> 0) else 0)"

text \<open>The credentials in the parameters of the first message.\<close>

definition first_credentials :: "json_env \<Rightarrow> string option \<Rightarrow> mcp_message list \<Rightarrow> nat \<Rightarrow> string option checked" where
  "first_credentials env api_key messages message_count =
     (if message_count = 0 \<or> required_auth_type api_key \<noteq> MCP_AUTH_API_KEY then Done None
      else case messages of
             Request _ _ params # _ \<Rightarrow>
               (case mcp_json_parse (env_strtod env) (env_parse_mem env) params of
                  OutOfBounds \<Rightarrow> Undefined
                | Null \<Rightarrow> Done None
                | Ok j \<Rightarrow>
                    (case j of
                       JObject _ \<Rightarrow> Done (mcp_json_get_string (mcp_json_object_get_property (Some j) ''apiKey''))
                     | _ \<Rightarrow> Done None))
           | _ \<Rightarrow> Done None)"

text \<open>The context the dispatcher makes for a ping when the authentication has failed.\<close>

definition anonymous_ping_context :: "mem \<Rightarrow> mcp_auth_context option" where
  "anonymous_ping_context m =
     (let (ok, m1) = mem_alloc m
      in if \<not> ok then None
         else let (ident, m2) = mcp_strdup m1 (Some ''ping_anonymous'');
                  (ok_r, m3) = mem_alloc m2;
                  (rule_r, m4) = (if ok_r then mcp_strdup m3 (Some ''*'') else (None, m3));
                  (ok_t, m5) = mem_alloc m4;
                  (rule_t, _) = (if ok_t then mcp_strdup m5 (Some ''*'') else (None, m5))
              in Some \<lparr>ctx_type = MCP_AUTH_NONE, ctx_identifier = ident, ctx_expiry = 0,
                       ctx_allowed_resources = (if ok_r then Some [rule_r] else None),
                       ctx_allowed_tools = (if ok_t then Some [rule_t] else None)\<rparr>)"

text \<open>\<open>dyn_buf_append\<close> with its status ignored; \<open>None\<close> for an access outside the buffer.\<close>

definition append_ignoring :: "string \<Rightarrow> dyn_buf \<times> mem \<Rightarrow> (dyn_buf \<times> mem) option" where
  "append_ignoring s bm = (case dyn_buf_append (snd bm) s (fst bm) of None \<Rightarrow> None | Some (_, db, m) \<Rightarrow> Some (db, m))"

text \<open>
  The state of the loop: the buffer of the batch with its allocator, \<open>first_response_in_batch\<close>, and the
  response of a single message.
\<close>

type_synonym loop_state = "(dyn_buf \<times> mem) \<times> bool \<times> string option"

definition add_response :: "bool \<Rightarrow> string \<Rightarrow> loop_state \<Rightarrow> loop_state option" where
  "add_response batch r ls =
     (case ls of (bm, first, final) \<Rightarrow>
        if batch
        then (case (if first then Some bm else append_ignoring '','' bm) of
                None \<Rightarrow> None
              | Some bm1 \<Rightarrow>
                  (case append_ignoring r bm1 of None \<Rightarrow> None | Some bm2 \<Rightarrow> Some (bm2, False, final)))
        else Some (bm, first, Some r))"

text \<open>The answer to one message: the response to append, if any.\<close>

definition answer_message ::
    "message_env \<Rightarrow> 's services \<Rightarrow> mcp_auth_context option \<Rightarrow> bool \<Rightarrow> mcp_message \<Rightarrow> 's \<Rightarrow> (string option \<times> 's) checked" where
  "answer_message me sv ctx batch msg s =
     (case msg of
        Request i meth params \<Rightarrow>
          (case handle_request me sv \<lparr>rq_id = i, rq_method = Some meth, rq_params = params\<rparr> ctx s of
             Undefined \<Rightarrow> Undefined
           | Done ((code, Some r), s1) \<Rightarrow> Done (Some r, s1)
           | Done ((code, None), s1) \<Rightarrow>
               (if code \<noteq> MCP_ERROR_NONE \<and> batch
                then (case create_error_response (me_reply_mem me) i code ''Request processing failed'' of
                        Undefined \<Rightarrow> Undefined
                      | Done r \<Rightarrow> Done (r, s1))
                else Done (None, s1)))
      | _ \<Rightarrow> Done (None, s))"

fun process_messages ::
    "(nat \<Rightarrow> message_env) \<Rightarrow> 's services \<Rightarrow> mcp_auth_context option \<Rightarrow> bool \<Rightarrow> nat \<Rightarrow> mcp_message list \<Rightarrow>
     loop_state \<Rightarrow> 's \<Rightarrow> (loop_state \<times> 's) checked" where
  "process_messages mes sv ctx batch i [] ls s = Done (ls, s)"
| "process_messages mes sv ctx batch i (msg # msgs) ls s =
     (case answer_message (mes i) sv ctx batch msg s of
        Undefined \<Rightarrow> Undefined
      | Done (None, s1) \<Rightarrow> process_messages mes sv ctx batch (Suc i) msgs ls s1
      | Done (Some r, s1) \<Rightarrow>
          (case add_response batch r ls of
             None \<Rightarrow> Undefined
           | Some ls1 \<Rightarrow> process_messages mes sv ctx batch (Suc i) msgs ls1 s1))"

text \<open>
  The loop and the end of \<open>handle_message\<close>.  A batch whose buffer cannot be created is not processed
  at all: the loop condition reads the error code.
\<close>

definition empty_dyn_buf :: dyn_buf where
  "empty_dyn_buf = \<lparr>db_buffer = [], db_length = 0, db_capacity = 0\<rparr>"

definition process_single ::
    "dispatch_env \<Rightarrow> 's services \<Rightarrow> mcp_auth_context option \<Rightarrow> mcp_message list \<Rightarrow> 's \<Rightarrow> 's reply" where
  "process_single de sv ctx messages s =
     (case process_messages (de_msgs de) sv ctx False 0 messages ((empty_dyn_buf, []), True, None) s of
        Undefined \<Rightarrow> Undefined
      | Done ((_, _, final), s1) \<Rightarrow> Done ((MCP_ERROR_NONE, final), s1))"

definition process_batch ::
    "dispatch_env \<Rightarrow> 's services \<Rightarrow> mcp_auth_context option \<Rightarrow> mcp_message list \<Rightarrow> 's \<Rightarrow> 's reply" where
  "process_batch de sv ctx messages s =
     (let (rc, db, m1) = dyn_buf_init (de_batch_mem de) 512
      in if rc \<noteq> 0 then Done ((MCP_ERROR_INTERNAL_ERROR, None), s)
         else case append_ignoring ''['' (db, m1) of
                None \<Rightarrow> Undefined
              | Some (db1, m2) \<Rightarrow>
                  (case dyn_buf_ensure_capacity m2 (length messages * 256) db1 of
                     None \<Rightarrow> Undefined
                   | Some (_, db2, m3) \<Rightarrow>
                       (case process_messages (de_msgs de) sv ctx True 0 messages ((db2, m3), True, None) s of
                          Undefined \<Rightarrow> Undefined
                        | Done ((bm, _, _), s1) \<Rightarrow>
                            (case append_ignoring '']'' bm of
                               None \<Rightarrow> Undefined
                             | Some (db4, m4) \<Rightarrow>
                                 (case dyn_buf_finalize m4 db4 of
                                    (None, _) \<Rightarrow> Done ((MCP_ERROR_INTERNAL_ERROR, None), s1)
                                  | (Some buf, _) \<Rightarrow>
                                      (let txt = c_string buf
                                       in Done ((MCP_ERROR_NONE, if txt = ''[]'' then None else Some txt), s1)))))))"

definition process ::
    "dispatch_env \<Rightarrow> 's services \<Rightarrow> mcp_auth_context option \<Rightarrow> mcp_message list \<Rightarrow> 's \<Rightarrow> 's reply" where
  "process de sv ctx messages s =
     (if length messages > 1 then process_batch de sv ctx messages s else process_single de sv ctx messages s)"

text \<open>\<open>handle_message\<close> behind the parsing.\<close>

definition handle_parsed ::
    "dispatch_env \<Rightarrow> 's services \<Rightarrow> mcp_message list \<Rightarrow> nat \<Rightarrow> 's \<Rightarrow> 's reply" where
  "handle_parsed de sv messages message_count s =
     (case first_credentials (de_json de) (sv_api_key sv) messages message_count of
        Undefined \<Rightarrow> Undefined
      | Done credentials \<Rightarrow>
          (case mcp_auth_verify (de_memcmp de) (de_auth_mem de) (sv_api_key sv) (required_auth_type (sv_api_key sv)) credentials of
             (rc, auth_context, _) \<Rightarrow>
               if rc = 0 then process de sv auth_context (take message_count messages) s
               else if is_ping messages message_count
               then process de sv (anonymous_ping_context (de_anon_mem de)) (take message_count messages) s
               else error_reply (de_error_mem de) (first_request_id messages message_count) MCP_ERROR_INVALID_REQUEST
                      MCP_ERROR_INVALID_REQUEST ''Authentication failed'' s))"

definition handle_message ::
    "dispatch_env \<Rightarrow> bool \<Rightarrow> 's services \<Rightarrow> string option \<Rightarrow> nat \<Rightarrow> 's \<Rightarrow> 's reply" where
  "handle_message de arena_ok sv data data_size s =
     (if data = None \<or> data_size = 0 then Done ((MCP_ERROR_INVALID_PARAMS, None), s)
      else if \<not> arena_ok
      then error_reply (de_error_mem de) 0 MCP_ERROR_INTERNAL_ERROR MCP_ERROR_INTERNAL_ERROR ''Internal server error'' s
      else case mcp_json_parse_message_or_batch (de_json de) (de_items de) (the data) of
             Undefined \<Rightarrow> Undefined
           | Done (rc, Some messages, message_count) \<Rightarrow>
               (if rc \<noteq> 0 then error_reply (de_error_mem de) 0 rc MCP_ERROR_PARSE_ERROR ''Parse error'' s
                else handle_parsed de sv messages message_count s)
           | Done (rc, None, message_count) \<Rightarrow>
               error_reply (de_error_mem de) 0 (if rc \<noteq> 0 then rc else MCP_ERROR_PARSE_ERROR) MCP_ERROR_PARSE_ERROR ''Parse error'' s)"


section \<open>What a batch is answered with\<close>

text \<open>The reference: handle the messages in order and collect the responses.\<close>

fun answers ::
    "(nat \<Rightarrow> message_env) \<Rightarrow> 's services \<Rightarrow> mcp_auth_context option \<Rightarrow> bool \<Rightarrow> nat \<Rightarrow> mcp_message list \<Rightarrow> 's \<Rightarrow>
     (string list \<times> 's) checked" where
  "answers mes sv ctx batch i [] s = Done ([], s)"
| "answers mes sv ctx batch i (msg # msgs) s =
     (case answer_message (mes i) sv ctx batch msg s of
        Undefined \<Rightarrow> Undefined
      | Done (r, s1) \<Rightarrow>
          (case answers mes sv ctx batch (Suc i) msgs s1 of
             Undefined \<Rightarrow> Undefined
           | Done (rs, s2) \<Rightarrow> Done (case r of None \<Rightarrow> rs | Some x \<Rightarrow> x # rs, s2)))"

fun response_pieces :: "bool \<Rightarrow> string list \<Rightarrow> piece list" where
  "response_pieces first [] = []"
| "response_pieces first (r # rs) = (if first then [Raw r] else [Raw '','', Raw r]) @ response_pieces False rs"

lemma append_ignoring_pieces: "append_ignoring s (db, m) = append_pieces m [Raw s] db"
  by (auto simp: append_ignoring_def split: option.splits)

lemma append_pieces_append:
  "append_pieces m (ps @ qs) db = (case append_pieces m ps db of None \<Rightarrow> None | Some (db', m') \<Rightarrow> append_pieces m' qs db')"
  by (induction ps arbitrary: m db) (auto split: option.splits)

lemma add_response_pieces:
  "add_response True r ((db, m), first, final) =
     map_option (\<lambda>bm. (bm, False, final)) (append_pieces m (if first then [Raw r] else [Raw '','', Raw r]) db)"
proof -
  have "append_ignoring r bm = append_pieces (snd bm) [Raw r] (fst bm)" for bm
    using append_ignoring_pieces [of r "fst bm" "snd bm"] by simp
  then show ?thesis
    using append_pieces_append [of m "[Raw '','']" "[Raw r]" db]
    by (auto simp: add_response_def append_ignoring_pieces simp del: append_pieces.simps split: option.splits)
qed

lemma process_messages_batch:
  assumes "answers mes sv ctx True i msgs s = Done (rs, s')"
  shows "process_messages mes sv ctx True i msgs ((db, m), first, final) s =
    (case append_pieces m (response_pieces first rs) db of
       None \<Rightarrow> Undefined
     | Some bm \<Rightarrow> Done ((bm, first \<and> rs = [], final), s'))"
  using assms
proof (induction msgs arbitrary: i s db m first rs)
  case (Cons msg msgs)
  obtain r s1 where a: "answer_message (mes i) sv ctx True msg s = Done (r, s1)"
    using Cons.prems by (auto split: checked.splits)
  obtain rs1 where b: "answers mes sv ctx True (Suc i) msgs s1 = Done (rs1, s')" "rs = (case r of None \<Rightarrow> rs1 | Some x \<Rightarrow> x # rs1)"
    using Cons.prems a by (auto split: checked.splits)
  note IH = Cons.IH [OF b(1)]
  show ?case
  proof (cases r)
    case None
    then have "rs = rs1" using b(2) by simp
    show ?thesis unfolding \<open>rs = rs1\<close> using None a IH by simp
  next
    case (Some x)
    then show ?thesis using a b IH
      by (auto simp: add_response_pieces append_pieces_append simp del: append_pieces.simps split: option.splits)
  qed
qed simp

lemma response_pieces_text:
  "concat (map piece_text (response_pieces False rs)) = concat (map (\<lambda>r. CHR '','' # r) rs)"
  "concat (map piece_text (response_pieces True rs)) = comma_sep rs"
proof -
  show f: "concat (map piece_text (response_pieces False rs)) = concat (map (\<lambda>r. CHR '','' # r) rs)" for rs
    by (induction rs) auto
  have "comma_sep (r # rs) = r @ concat (map (\<lambda>r. CHR '','' # r) rs)" for r rs
    by (induction rs arbitrary: r) auto
  then show "concat (map piece_text (response_pieces True rs)) = comma_sep rs"
    using f by (cases rs) auto
qed

lemma process_batch_answers:
  assumes a: "answers (de_msgs de) sv ctx True 0 msgs s = Done (rs, s')" and m: "de_batch_mem de = []"
    and len: "length msgs < 2 ^ 48" "length (comma_sep rs) < 2 ^ 58" and ok: "\<forall>r \<in> set rs. c_str_ok r \<and> r \<noteq> []"
  shows "process_batch de sv ctx msgs s =
    Done ((MCP_ERROR_NONE, if rs = [] then None else Some (''['' @ comma_sep rs @ '']'')), s')"
proof -
  obtain rc db m1 where i: "dyn_buf_init [] 512 = (rc, db, m1)" by (metis prod_cases3)
  with init_ok [OF i] have rc: "rc = 0" "m1 = []" "db_ok db" "db_text db = []" "db_capacity db \<le> 519" by auto
  obtain db1 where db1: "append_ignoring ''['' (db, []) = Some (db1, [])" "db_ok db1" "db_text db1 = ''[''" "db_capacity db1 \<le> 2 ^ 61"
    using append_pieces_ok [OF rc(3), of "[]" "[Raw ''['']"] rc unfolding append_ignoring_pieces by auto
  have l1: "db_length db1 = 1" using db_text_length [OF db1(2)] db1(3) by simp
  obtain rc2 db2 m2 where e: "dyn_buf_ensure_capacity [] (length msgs * 256) db1 = Some (rc2, db2, m2)" "db_ok db2"
    "db_text db2 = db_text db1" "m2 = []" "db_capacity db2 \<le> max (db_capacity db1) (2 * (db_length db1 + length msgs * 256 + 1) + 7)"
    using ensure_capacity_ok [OF db1(2), of "[]" "length msgs * 256"] by blast
  have cap2: "db_capacity db2 \<le> 2 ^ 61" using e(5) db1(4) l1 len(1) by simp
  let ?ps = "response_pieces True rs"
  obtain db3 where db3: "append_pieces [] ?ps db2 = Some (db3, [])" "db_ok db3" "db_text db3 = ''['' @ comma_sep rs" "db_capacity db3 \<le> 2 ^ 61"
    using append_pieces_ok [OF e(2), of "[]" ?ps] cap2 e(3) db1(3) len(2) by (auto simp: response_pieces_text)
  obtain db4 where db4: "append_ignoring '']'' (db3, []) = Some (db4, [])" "db_ok db4" "db_text db4 = ''['' @ comma_sep rs @ '']''"
    using append_pieces_ok [OF db3(2), of "[]" "[Raw '']'']"] db3(3,4) len(2) unfolding append_ignoring_pieces by auto
  obtain rest db5 m5 where f: "dyn_buf_finalize [] db4 = (Some (db_text db4 @ NUL # rest), db5, m5)"
    using finalize_ok [OF db4(2), of "[]"] by metis
  have "c_str_ok (comma_sep rs)" using ok by (intro comma_sep_c_str_ok) auto
  then have c: "c_string (db_text db4 @ NUL # rest) = ''['' @ comma_sep rs @ '']''"
    unfolding db4(3) by (intro c_string_append_NUL) (simp add: c_str_ok_def)
  have empty: "comma_sep rs = [] \<longleftrightarrow> rs = []" using ok by (cases rs rule: comma_sep.cases) auto
  have "(''['' @ comma_sep rs @ '']'' = ''[]'') = (rs = [])" using empty by (cases "comma_sep rs") auto
  then show ?thesis
    using db1(1) e(1,4) db3(1) db4(1) f c
    by (simp add: process_batch_def m i rc process_messages_batch [OF a])
qed


section \<open>Who may call the handlers\<close>

lemma required_key: "key \<noteq> [] \<Longrightarrow> required_auth_type (Some key) = MCP_AUTH_API_KEY"
  by (simp add: required_auth_type_def)

lemma first_credentials_head:
  "0 < n \<Longrightarrow> first_credentials env key (msg # xs) n = first_credentials env key (msg # ys) 1"
  by (simp add: first_credentials_def)

lemma anonymous_ping_full: "full_access (the (anonymous_ping_context []))" "anonymous_ping_context [] \<noteq> None"
  by (simp_all add: anonymous_ping_context_def full_access_def mcp_strdup_def realloc_bytes_def)

lemma verify_fails:
  assumes "memcmp_ok cmp" "key \<noteq> []" "credentials \<noteq> Some key"
  shows "\<exists>m'. mcp_auth_verify cmp m (Some key) MCP_AUTH_API_KEY credentials = (-1, None, m')"
proof -
  obtain rc ctx m' where v: "mcp_auth_verify cmp m (Some key) MCP_AUTH_API_KEY credentials = (rc, ctx, m')" by (metis prod_cases3)
  then show ?thesis using verify_key(1) [OF assms(1) refl, of m key credentials rc ctx m'] assms(2,3) by auto
qed

section \<open>Properties\<close>

text \<open>Claim C2.  Without the key nothing is served: on a server with an API key, a message or batch whose
  first message does not carry the key and is not a ping runs no handler (the state is as before) and
  is answered with the error "Authentication failed".\<close>

theorem unauthenticated_rejected:
  assumes "memcmp_ok (de_memcmp de)" "sv_api_key sv = Some key" "key \<noteq> []"
    and "first_credentials (de_json de) (Some key) messages n = Done credentials" "credentials \<noteq> Some key"
    and "\<not> is_ping messages n"
  shows "handle_parsed de sv messages n s =
    error_reply (de_error_mem de) (first_request_id messages n) MCP_ERROR_INVALID_REQUEST MCP_ERROR_INVALID_REQUEST
      ''Authentication failed'' s"
  using verify_fails [OF assms(1,3,5), of "de_auth_mem de"] assms(2-6)
  by (auto simp: handle_parsed_def required_key)

definition de_example :: dispatch_env where
  "de_example = \<lparr>de_memcmp = (\<lambda>a b n. if a = b then 0 else 1), de_json = env_int, de_items = (\<lambda>_. env_int),
     de_msgs = (\<lambda>_. \<lparr>me_json = env_int, me_build_mem = [], me_reply_mem = [], me_now = 0\<rparr>),
     de_auth_mem = [], de_anon_mem = [], de_batch_mem = [], de_error_mem = []\<rparr>"

definition counting :: "nat handler" where
  "counting me rq ctx s = Done ((MCP_ERROR_NONE, Some ''{}''), Suc s)"

definition sv_example :: "nat services" where
  "sv_example = \<lparr>sv_api_key = Some ''secret'', sv_gateway_mode = False, sv_pool_manager = False,
     sv_find_backend = (\<lambda>_. None), sv_forward = (\<lambda>_ _ s. Done ((MCP_ERROR_NONE, None), s)),
     sv_call_tool = counting, sv_read_resource = counting, sv_list_resources = counting, sv_list_tools = counting,
     sv_list_resource_templates = counting, sv_get_performance_metrics = counting, sv_reset_performance_metrics = counting\<rparr>"

lemma memcmp_example: "memcmp_ok (de_memcmp de_example)"
  by (simp add: memcmp_ok_def de_example_def)

lemma credentials_none: "first_credentials env key (Request i meth None # msgs) n = Done None"
  by (simp add: first_credentials_def mcp_json_parse_def)

theorem unauthenticated_rejected_witness:
  "handle_parsed de_example sv_example [Request 5 ''call_tool'' None] 1 0 =
    error_reply [] 5 MCP_ERROR_INVALID_REQUEST MCP_ERROR_INVALID_REQUEST ''Authentication failed'' 0"
  using unauthenticated_rejected [OF memcmp_example, of sv_example "''secret''" "[Request 5 ''call_tool'' None]" 1 None 0]
  by (simp add: sv_example_def credentials_none is_ping_def first_request_id_def) (simp add: de_example_def)

text \<open>Claim C25.  A batch is answered as its parts are: the messages are handled in order, each on the
  state the one before left, and the response is the array of their responses (a request that fails
  without a response gets an error response), or none when there are no responses.\<close>

theorem batch_answered:
  assumes "answers (de_msgs de) sv ctx True 0 msgs s = Done (rs, s')" "de_batch_mem de = []"
    and "1 < length msgs" "length msgs < 2 ^ 48" "length (comma_sep rs) < 2 ^ 58" "\<forall>r \<in> set rs. c_str_ok r \<and> r \<noteq> []"
  shows "process de sv ctx msgs s =
    Done ((MCP_ERROR_NONE, if rs = [] then None else Some (''['' @ comma_sep rs @ '']'')), s')"
  using process_batch_answers [OF assms(1,2,4-6)] assms(3) by (simp add: process_def)

theorem batch_answered_witness:
  "\<exists>c. process de_example sv_example (Some c) [Request 1 ''list_tools'' None, Notification ''x'' None, Request 2 ''call_tool'' None] 0 =
    Done ((MCP_ERROR_NONE, Some ''[{},{}]''), 2)"
proof -
  obtain c where "anonymous_ping_context [] = Some c" using anonymous_ping_full(2) by blast
  have "answers (de_msgs de_example) sv_example (Some c) True 0
      [Request 1 ''list_tools'' None, Notification ''x'' None, Request 2 ''call_tool'' None] 0 = Done ([''{}'', ''{}''], 2)"
    by (simp add: sv_example_def answer_message_def handle_request_def method_is_def counting_def)
  from batch_answered [OF this] have "process de_example sv_example (Some c)
      [Request 1 ''list_tools'' None, Notification ''x'' None, Request 2 ''call_tool'' None] 0 = Done ((MCP_ERROR_NONE, Some ''[{},{}]''), 2)"
    by (simp add: de_example_def c_str_ok_def)
  then show ?thesis by blast
qed

text \<open>A ping in front opens the batch: on a server with an API key, a batch that starts with a
  ping and carries no key is processed with a context that has access to everything, so that the
  requests behind the ping reach their handlers.\<close>

theorem ping_opens_batch:
  assumes "memcmp_ok (de_memcmp de)" "sv_api_key sv = Some key" "key \<noteq> []" "de_anon_mem de = []" "0 < n"
  shows "\<exists>c. full_access c \<and>
    handle_parsed de sv (Request i ''ping'' None # msgs) n s = process de sv (Some c) (take n (Request i ''ping'' None # msgs)) s"
proof -
  have "first_credentials (de_json de) (Some key) (Request i ''ping'' None # msgs) n = Done None" by (rule credentials_none)
  moreover have "is_ping (Request i ''ping'' None # msgs) n" using assms(5) by (simp add: is_ping_def)
  moreover obtain c where "anonymous_ping_context [] = Some c" "full_access c" using anonymous_ping_full by force
  moreover obtain m' where "mcp_auth_verify (de_memcmp de) (de_auth_mem de) (Some key) MCP_AUTH_API_KEY None = (-1, None, m')"
    using verify_fails [OF assms(1,3), of None] by blast
  ultimately show ?thesis using assms by (auto simp: handle_parsed_def required_key)
qed

theorem ping_opens_batch_witness:
  "\<exists>c. full_access c \<and> handle_parsed de_example sv_example [Request 1 ''ping'' None, Request 2 ''call_tool'' None] 2 0 =
     process de_example sv_example (Some c) [Request 1 ''ping'' None, Request 2 ''call_tool'' None] 0"
  using ping_opens_batch [OF memcmp_example, of sv_example "''secret''" 2 1 "[Request 2 ''call_tool'' None]" 0]
  by (simp add: sv_example_def) (simp add: de_example_def)

text \<open>The performance handlers cannot be reached: the lengths in front of the comparisons are
  one less than the names have, so that the methods \<open>get_performance_metrics\<close> and
  \<open>reset_performance_metrics\<close> are answered with "Method not found", and it is the names without their
  last letter that reach the handlers.\<close>

theorem metrics_methods_unreachable:
  assumes "\<not> sv_gateway_mode sv"
  shows "handle_request me sv \<lparr>rq_id = i, rq_method = Some ''get_performance_metrics'', rq_params = p\<rparr> (Some c) s =
      error_reply (me_reply_mem me) i MCP_ERROR_METHOD_NOT_FOUND MCP_ERROR_METHOD_NOT_FOUND ''Method not found'' s \<and>
    handle_request me sv \<lparr>rq_id = i, rq_method = Some ''reset_performance_metrics'', rq_params = p\<rparr> (Some c) s =
      error_reply (me_reply_mem me) i MCP_ERROR_METHOD_NOT_FOUND MCP_ERROR_METHOD_NOT_FOUND ''Method not found'' s \<and>
    handle_request me sv \<lparr>rq_id = i, rq_method = Some ''get_performance_metric'', rq_params = p\<rparr> (Some c) s =
      sv_get_performance_metrics sv me \<lparr>rq_id = i, rq_method = Some ''get_performance_metric'', rq_params = p\<rparr> (Some c) s"
  using assms by (simp add: handle_request_def method_is_def)

theorem metrics_methods_unreachable_witness:
  "handle_request (de_msgs de_example 0) sv_example \<lparr>rq_id = 1, rq_method = Some ''get_performance_metrics'', rq_params = None\<rparr>
      (anonymous_ping_context []) 0 =
    error_reply (me_reply_mem (de_msgs de_example 0)) 1 MCP_ERROR_METHOD_NOT_FOUND MCP_ERROR_METHOD_NOT_FOUND ''Method not found'' 0"
proof -
  obtain c where "anonymous_ping_context [] = Some c" using anonymous_ping_full(2) by blast
  then show ?thesis using metrics_methods_unreachable [of sv_example "de_msgs de_example 0" 1 None c 0] by (simp add: sv_example_def)
qed

text \<open>An invalid item costs a request: \<open>parse_batch_items\<close> leaves a gap in the array for an item
  that is no message but does not count it, and \<open>handle_message\<close> takes the count for the length.  With one
  invalid item in front, the last message of the batch is never handled.\<close>

theorem invalid_item_drops_last:
  assumes "parse_batch_items envs 0 items = Done (Invalid # messages @ [msg], n)" "Invalid \<notin> set (messages @ [msg])"
  shows "n = Suc (length messages) \<and>
    handle_parsed de sv (Invalid # messages @ [msg]) n s = handle_parsed de sv (Invalid # messages) n s"
proof -
  have "filter (\<lambda>m. m \<noteq> Invalid) messages = messages" using assms(2) by (intro filter_True) auto
  then have n: "n = Suc (length messages)" using parse_batch_count [OF assms(1)] assms(2) by auto
  have "take n (Invalid # messages @ [msg]) = take n (Invalid # messages)"
    "first_credentials env key (Invalid # messages @ [msg]) n = first_credentials env key (Invalid # messages) n"
    "is_ping (Invalid # messages @ [msg]) n = is_ping (Invalid # messages) n"
    "first_request_id (Invalid # messages @ [msg]) n = first_request_id (Invalid # messages) n" for env key
    using n by (simp_all add: first_credentials_def is_ping_def first_request_id_def)
  then show ?thesis using n by (simp only: handle_parsed_def simp_thms)
qed

theorem invalid_item_drops_last_witness:
  "\<exists>note. parse_batch_items (\<lambda>_. env_int) 0 [JNull, note] = Done ([Invalid, Notification ''ping'' None], 1) \<and>
     handle_parsed de_example sv_example [Invalid, Notification ''ping'' None] 1 0 = handle_parsed de_example sv_example [Invalid] 1 0"
proof -
  have "built (and_on (mcp_json_object_create []) (\<lambda>m obj. add_string_property m obj ''method'' ''ping'')) [(''method'', JString ''ping'')]"
    by (rule built_add_string [OF built_create]) (simp_all add: c_str_ok_def)
  then obtain t :: "(string, double json) mcp_hashtable" where t: "ht_map json_ops t = [''method'' \<mapsto> JString ''ping'']" unfolding built_def by auto
  have p: "parse_batch_items (\<lambda>_. env_int) 0 [JNull, JObject t] = Done ([Invalid, Notification ''ping'' None], 1)"
    by (simp add: parse_single_message_from_json_def get_property_map t parse_call_def params_ok_def copy_call_def env_int_def
        mcp_strdup_def realloc_bytes_def)
  then have "handle_parsed de_example sv_example [Invalid, Notification ''ping'' None] 1 0 = handle_parsed de_example sv_example [Invalid] 1 0"
    using invalid_item_drops_last [of "\<lambda>_. env_int" "[JNull, JObject t]" "[]" "Notification ''ping'' None" 1 de_example sv_example 0] by simp
  with p show ?thesis by blast
qed

end
