(* ===== verification/Mcp_Types.thy ===== *)
theory Mcp_Types
  imports Mcp_Strings
begin

text \<open>
  Resources, templates and content items: the structures of \<open>include/mcp_types.h\<close> and the functions of
  \<open>src/common/mcp_types.c\<close> that create and copy content items.  A pointer to bytes is the list of the
  bytes of its buffer; reading more bytes than the buffer has is undefined in C, the operation is then
  \<open>None\<close>.  The argument of type \<open>mem\<close> answers the allocations, those of the object pool included.
\<close>

section \<open>Data\<close>

record mcp_resource =
  res_uri :: "string option"
  res_name :: "string option"
  res_mime_type :: "string option"
  res_description :: "string option"

record mcp_resource_template =
  tmpl_uri_template :: "string option"
  tmpl_name :: "string option"
  tmpl_mime_type :: "string option"
  tmpl_description :: "string option"

datatype mcp_content_type = MCP_CONTENT_TYPE_TEXT | MCP_CONTENT_TYPE_JSON | MCP_CONTENT_TYPE_BINARY

record mcp_content_item =
  item_type :: mcp_content_type
  item_mime_type :: "string option"
  item_data :: "char list option"
  item_data_size :: nat

section \<open>Creating and copying content items\<close>

definition duplicate_string_safe :: "mem \<Rightarrow> string option \<Rightarrow> (bool \<times> string option) \<times> mem" where
  "duplicate_string_safe m src =
     (case src of
        None \<Rightarrow> ((True, None), m)
      | Some s \<Rightarrow> (case mcp_strdup m (Some s) of (dest, m1) \<Rightarrow> ((dest \<noteq> None, dest), m1)))"

text \<open>The part \<open>mcp_content_item_create\<close> and \<open>mcp_content_item_acquire_pooled\<close> share: the fields are filled in.\<close>

definition fill_item ::
    "mem \<Rightarrow> mcp_content_type \<Rightarrow> string option \<Rightarrow> char list option \<Rightarrow> nat \<Rightarrow> (mcp_content_item option \<times> mem) option" where
  "fill_item m type mime_type data data_size =
     (case duplicate_string_safe m mime_type of
        ((False, _), m1) \<Rightarrow> Some (None, m1)
      | ((True, mime), m1) \<Rightarrow>
          (case data of
             Some bytes \<Rightarrow>
               if data_size > 0
               then (case mem_alloc m1 of
                       (False, m2) \<Rightarrow> Some (None, m2)
                     | (True, m2) \<Rightarrow>
                         if length bytes < data_size then None
                         else Some (Some \<lparr>item_type = type, item_mime_type = mime, item_data = Some (take data_size bytes),
                                          item_data_size = data_size\<rparr>, m2))
               else Some (Some \<lparr>item_type = type, item_mime_type = mime, item_data = None, item_data_size = 0\<rparr>, m1)
           | None \<Rightarrow> Some (Some \<lparr>item_type = type, item_mime_type = mime, item_data = None, item_data_size = 0\<rparr>, m1)))"

definition mcp_content_item_create ::
    "mem \<Rightarrow> mcp_content_type \<Rightarrow> string option \<Rightarrow> char list option \<Rightarrow> nat \<Rightarrow> (mcp_content_item option \<times> mem) option" where
  "mcp_content_item_create m type mime_type data data_size =
     (case mem_alloc m of
        (False, m1) \<Rightarrow> Some (None, m1)
      | (True, m1) \<Rightarrow> fill_item m1 type mime_type data data_size)"

definition mcp_content_item_copy :: "mem \<Rightarrow> mcp_content_item option \<Rightarrow> (mcp_content_item option \<times> mem) option" where
  "mcp_content_item_copy m original =
     (case original of
        None \<Rightarrow> Some (None, m)
      | Some x \<Rightarrow> mcp_content_item_create m (item_type x) (item_mime_type x) (item_data x) (item_data_size x))"

definition mcp_content_item_acquire_pooled ::
    "mem \<Rightarrow> mcp_content_type \<Rightarrow> string option \<Rightarrow> char list option \<Rightarrow> nat \<Rightarrow> (mcp_content_item option \<times> mem) option" where
  "mcp_content_item_acquire_pooled m type mime_type data data_size =
     (case mem_alloc m of
        (False, m1) \<Rightarrow> Some (None, m1)
      | (True, m1) \<Rightarrow> fill_item m1 type mime_type data data_size)"

section \<open>Copies\<close>

text \<open>An item whose size stays within its buffer, and what a copy of it looks like.\<close>

definition item_sized :: "mcp_content_item \<Rightarrow> bool" where
  "item_sized x \<longleftrightarrow> (case item_data x of None \<Rightarrow> True | Some bytes \<Rightarrow> item_data_size x \<le> length bytes) \<and>
     (case item_mime_type x of None \<Rightarrow> True | Some s \<Rightarrow> c_str_ok s \<and> length s < 2 ^ 60)"

definition copy_of :: "string option \<Rightarrow> mcp_content_item \<Rightarrow> mcp_content_item" where
  "copy_of mime x =
     (case item_data x of
        Some bytes \<Rightarrow>
          if item_data_size x > 0
          then \<lparr>item_type = item_type x, item_mime_type = mime, item_data = Some (take (item_data_size x) bytes), item_data_size = item_data_size x\<rparr>
          else \<lparr>item_type = item_type x, item_mime_type = mime, item_data = None, item_data_size = 0\<rparr>
      | None \<Rightarrow> \<lparr>item_type = item_type x, item_mime_type = mime, item_data = None, item_data_size = 0\<rparr>)"

lemma fill_item_cases:
  assumes "item_sized x"
  shows "\<exists>r m'. fill_item m (item_type x) mime (item_data x) (item_data_size x) = Some (r, m') \<and> (r = None \<or> r = Some (copy_of mime x))"
proof -
  obtain ok d m1 where d: "duplicate_string_safe m mime = ((ok, d), m1)" by (metis surj_pair)
  then have "ok \<longrightarrow> d = mime"
    by (auto simp: duplicate_string_safe_def mcp_strdup_def Let_def split: option.splits prod.splits if_splits)
  moreover obtain ok2 m2 where "mem_alloc m1 = (ok2, m2)" by fastforce
  ultimately show ?thesis using d assms
    by (cases ok; cases ok2; cases "item_data x") (auto simp: fill_item_def copy_of_def item_sized_def)
qed

lemma fill_item_ok:
  assumes "item_sized x" "\<And>s. mime = Some s \<Longrightarrow> length s < 2 ^ 60"
  shows "fill_item [] (item_type x) mime (item_data x) (item_data_size x) = Some (Some (copy_of mime x), [])"
proof -
  have "duplicate_string_safe [] mime = ((True, mime), [])"
    using assms(2) by (cases mime) (simp_all add: duplicate_string_safe_def dup_no_failure)
  then show ?thesis using assms(1) by (cases "item_data x") (auto simp: fill_item_def copy_of_def item_sized_def)
qed

lemma acquire_pooled_cases:
  assumes "item_sized x"
  shows "\<exists>r m'. mcp_content_item_acquire_pooled m (item_type x) mime (item_data x) (item_data_size x) = Some (r, m') \<and>
    (r = None \<or> r = Some (copy_of mime x))"
proof -
  obtain ok m1 where "mem_alloc m = (ok, m1)" by fastforce
  then show ?thesis using fill_item_cases [OF assms, of m1 mime] by (cases ok) (auto simp: mcp_content_item_acquire_pooled_def)
qed

lemma acquire_pooled_ok:
  assumes "item_sized x" "\<And>s. mime = Some s \<Longrightarrow> length s < 2 ^ 60"
  shows "mcp_content_item_acquire_pooled [] (item_type x) mime (item_data x) (item_data_size x) = Some (Some (copy_of mime x), [])"
  using fill_item_ok [OF assms] by (simp add: mcp_content_item_acquire_pooled_def)

lemma item_copied:
  assumes "item_sized x"
  shows "mcp_content_item_copy [] (Some x) = Some (Some (copy_of (item_mime_type x) x), [])"
proof -
  have "length s < 2 ^ 60" if "item_mime_type x = Some s" for s using assms that by (simp add: item_sized_def)
  from fill_item_ok [OF assms this] show ?thesis by (simp add: mcp_content_item_copy_def mcp_content_item_create_def)
qed

text \<open>Copying again changes nothing.\<close>

lemma copy_of_copy: "item_sized x \<Longrightarrow> copy_of mime (copy_of mime' x) = copy_of mime x"
  by (auto simp: copy_of_def item_sized_def split: option.splits)

lemma copy_sized: "item_sized x \<Longrightarrow> (\<forall>s. mime = Some s \<longrightarrow> c_str_ok s \<and> length s < 2 ^ 60) \<Longrightarrow> item_sized (copy_of mime x)"
  by (auto simp: copy_of_def item_sized_def split: option.splits)

end
