(* ===== verification/Mcp_Handlers.thy ===== *)
theory Mcp_Handlers
  imports Mcp_Dispatch Mcp_Types
begin

text \<open>
  The method handlers \<open>list_resources\<close>, \<open>list_resource_templates\<close> and \<open>call_tool\<close> of
  \<open>src/server/mcp_server_handlers.c\<close>.  The tool handler is user code: a function of the server record on
  the state of the dispatcher.  The bytes of a content item are read as a C string, whatever
  \<open>data_size\<close> says: without a terminator in them the read leaves the buffer (\<open>Undefined\<close>).
\<close>

section \<open>Data\<close>

text \<open>What a tool handler leaves in its output parameters.\<close>

record tool_reply =
  tr_status :: int
  tr_content :: "mcp_content_item option list option"
  tr_is_error :: bool
  tr_error_message :: "string option"

record 's server =
  srv_resources_supported :: bool
  srv_tools_supported :: bool
  srv_resources_table :: "(string, mcp_resource) mcp_hashtable option"
  srv_templates_table :: "(string, mcp_resource_template) mcp_hashtable option"
  srv_tool_handler :: "(string \<Rightarrow> double json option \<Rightarrow> 's \<Rightarrow> tool_reply \<times> 's) option"

abbreviation (input) MCP_ERROR_FORBIDDEN :: int where "MCP_ERROR_FORBIDDEN \<equiv> -32104"

section \<open>Building results\<close>

text \<open>\<open>mcp_json_object_set_property(obj, key, value)\<close> in a condition: \<open>None\<close> when it is not 0.\<close>

definition set_value :: "string \<Rightarrow> (mem \<Rightarrow> double json option \<times> mem) \<Rightarrow> mem \<Rightarrow> double json \<Rightarrow> double json option \<times> mem" where
  "set_value key create m obj =
     (let (v, m1) = create m; (rc, obj', m2) = mcp_json_object_set_property m1 (Some obj) key v
      in if rc \<noteq> 0 then (None, m2) else (obj', m2))"

definition set_text :: "string \<Rightarrow> string option \<Rightarrow> mem \<Rightarrow> double json \<Rightarrow> double json option \<times> mem" where
  "set_text key s m obj =
     (case s of None \<Rightarrow> (Some obj, m) | Some x \<Rightarrow> set_value key (\<lambda>m. mcp_json_string_create m (Some x)) m obj)"

text \<open>The context of the list callbacks: the array, the error flag, the allocator.\<close>

type_synonym list_context = "double json \<times> bool \<times> mem"

definition add_listed :: "double json option \<times> mem \<Rightarrow> double json \<Rightarrow> list_context" where
  "add_listed r arr =
     (case r of
        (None, m) \<Rightarrow> (arr, True, m)
      | (Some obj, m) \<Rightarrow>
          (let (rc, arr', m1) = mcp_json_array_add_item m (Some arr) (Some obj)
           in if rc \<noteq> 0 then (arr, True, m1) else (the arr', False, m1)))"

definition list_resource_callback :: "string \<Rightarrow> mcp_resource \<Rightarrow> list_context \<Rightarrow> list_context" where
  "list_resource_callback key resource ctx =
     (case ctx of (arr, error_occurred, m) \<Rightarrow>
        if error_occurred then ctx
        else add_listed
          (and_on (and_on (and_on (and_on (mcp_json_object_create m)
             (set_text ''uri'' (res_uri resource)))
             (set_text ''name'' (res_name resource)))
             (set_text ''mimeType'' (res_mime_type resource)))
             (set_text ''description'' (res_description resource))) arr)"

definition list_template_callback :: "string \<Rightarrow> mcp_resource_template \<Rightarrow> list_context \<Rightarrow> list_context" where
  "list_template_callback key tmpl ctx =
     (case ctx of (arr, error_occurred, m) \<Rightarrow>
        if error_occurred then ctx
        else add_listed
          (and_on (and_on (and_on (and_on (mcp_json_object_create m)
             (set_text ''uriTemplate'' (tmpl_uri_template tmpl)))
             (set_text ''name'' (tmpl_name tmpl)))
             (set_text ''mimeType'' (tmpl_mime_type tmpl)))
             (set_text ''description'' (tmpl_description tmpl))) arr)"

definition internal_error :: "message_env \<Rightarrow> request \<Rightarrow> string \<Rightarrow> 's \<Rightarrow> 's reply" where
  "internal_error me rq msg s =
     error_reply (me_reply_mem me) (rq_id rq) MCP_ERROR_INTERNAL_ERROR MCP_ERROR_INTERNAL_ERROR msg s"

definition success_reply :: "message_env \<Rightarrow> request \<Rightarrow> string \<Rightarrow> 's \<Rightarrow> 's reply" where
  "success_reply me rq result_str s =
     (case create_success_response (me_reply_mem me) (rq_id rq) (Some result_str) of
        Undefined \<Rightarrow> Undefined | Done r \<Rightarrow> Done ((MCP_ERROR_NONE, r), s))"

definition stringify_result :: "message_env \<Rightarrow> request \<Rightarrow> double json \<Rightarrow> 's \<Rightarrow> 's reply" where
  "stringify_result me rq obj s =
     (case mcp_json_stringify (me_json me) obj of
        Undefined \<Rightarrow> Undefined
      | Done None \<Rightarrow> internal_error me rq ''Failed to stringify result'' s
      | Done (Some result_str) \<Rightarrow> success_reply me rq result_str s)"

definition create_json_result :: "message_env \<Rightarrow> request \<Rightarrow> mem \<Rightarrow> double json \<Rightarrow> string \<Rightarrow> 's \<Rightarrow> 's reply" where
  "create_json_result me rq m content_json property_name s =
     (case and_on (mcp_json_object_create m) (set_value property_name (\<lambda>m. (Some content_json, m))) of
        (None, _) \<Rightarrow> internal_error me rq ''Failed to create result object'' s
      | (Some obj, _) \<Rightarrow> stringify_result me rq obj s)"

section \<open>Handlers\<close>

definition handle_list_resources_request :: "'s server \<Rightarrow> 's handler" where
  "handle_list_resources_request srv me rq ctx s =
     (if ctx = None then Done ((MCP_ERROR_INVALID_PARAMS, None), s)
      else if \<not> srv_resources_supported srv
      then error_reply (me_reply_mem me) (rq_id rq) MCP_ERROR_METHOD_NOT_FOUND MCP_ERROR_METHOD_NOT_FOUND ''Resources not supported'' s
      else case mcp_json_array_create (me_build_mem me) of
             (None, _) \<Rightarrow> internal_error me rq ''Failed to create resources array'' s
           | (Some arr, m1) \<Rightarrow>
               (case (case srv_resources_table srv of
                        None \<Rightarrow> (arr, False, m1)
                      | Some t \<Rightarrow> mcp_hashtable_foreach list_resource_callback t (arr, False, m1)) of
                  (_, True, _) \<Rightarrow> internal_error me rq ''Failed to build resource JSON'' s
                | (arr', False, m2) \<Rightarrow> create_json_result me rq m2 arr' ''resources'' s))"

definition handle_list_resource_templates_request :: "'s server \<Rightarrow> 's handler" where
  "handle_list_resource_templates_request srv me rq ctx s =
     (if ctx = None then Done ((MCP_ERROR_INVALID_PARAMS, None), s)
      else if \<not> srv_resources_supported srv
      then error_reply (me_reply_mem me) (rq_id rq) MCP_ERROR_METHOD_NOT_FOUND MCP_ERROR_METHOD_NOT_FOUND ''Resources not supported'' s
      else case mcp_json_array_create (me_build_mem me) of
             (None, _) \<Rightarrow> internal_error me rq ''Failed to create templates array'' s
           | (Some arr, m1) \<Rightarrow>
               (case (case srv_templates_table srv of
                        None \<Rightarrow> (arr, False, m1)
                      | Some t \<Rightarrow> mcp_hashtable_foreach list_template_callback t (arr, False, m1)) of
                  (_, True, _) \<Rightarrow> internal_error me rq ''Failed to build template JSON'' s
                | (arr', False, m2) \<Rightarrow> create_json_result me rq m2 arr' ''resourceTemplates'' s))"

definition extract_string_param :: "double json \<Rightarrow> string \<Rightarrow> string option" where
  "extract_string_param params_json param_name =
     mcp_json_get_string (mcp_json_object_get_property (Some params_json) param_name)"

definition content_type_name :: "mcp_content_type \<Rightarrow> string" where
  "content_type_name ty = (case ty of
       MCP_CONTENT_TYPE_TEXT \<Rightarrow> ''text'' | MCP_CONTENT_TYPE_JSON \<Rightarrow> ''json'' | MCP_CONTENT_TYPE_BINARY \<Rightarrow> ''binary'')"

text \<open>The bytes of an item as the C string at its start.\<close>

definition item_text :: "mcp_content_item \<Rightarrow> string option checked" where
  "item_text item = (case item_data item of
       None \<Rightarrow> Done None
     | Some bytes \<Rightarrow> if NUL \<in> set bytes then Done (Some (c_string bytes)) else Undefined)"

fun build_tool_content_json :: "mem \<Rightarrow> double json \<Rightarrow> mcp_content_item option list \<Rightarrow> list_context checked" where
  "build_tool_content_json m arr [] = Done (arr, False, m)"
| "build_tool_content_json m arr (None # items) = Undefined"
| "build_tool_content_json m arr (Some item # items) =
     (let r = and_on (and_on (mcp_json_object_create m) (set_text ''type'' (Some (content_type_name (item_type item)))))
                (set_text ''mimeType'' (item_mime_type item))
      in case (case r of (None, _) \<Rightarrow> Done None | _ \<Rightarrow> item_text item) of
           Undefined \<Rightarrow> Undefined
         | Done txt \<Rightarrow>
             (case add_listed (and_on r (set_text ''text'' txt)) arr of
                (arr', True, m1) \<Rightarrow> Done (arr', True, m1)
              | (arr', False, m1) \<Rightarrow> build_tool_content_json m1 arr' items))"

definition invalid_params :: "message_env \<Rightarrow> request \<Rightarrow> string \<Rightarrow> 's \<Rightarrow> 's reply" where
  "invalid_params me rq msg s =
     error_reply (me_reply_mem me) (rq_id rq) MCP_ERROR_INVALID_PARAMS MCP_ERROR_INVALID_PARAMS msg s"

text \<open>The end of \<open>handle_call_tool_request\<close>, behind the call of the tool handler.\<close>

definition tool_response :: "message_env \<Rightarrow> request \<Rightarrow> tool_reply \<Rightarrow> 's \<Rightarrow> 's reply" where
  "tool_response me rq reply s =
     (if tr_status reply \<noteq> MCP_ERROR_NONE
      then error_reply (me_reply_mem me) (rq_id rq) (tr_status reply) (tr_status reply)
             (case tr_error_message reply of Some msg \<Rightarrow> msg | None \<Rightarrow> ''Tool handler failed or tool not found'') s
      else case mcp_json_array_create (me_build_mem me) of
             (None, _) \<Rightarrow> internal_error me rq ''Failed to create content array'' s
           | (Some arr, m1) \<Rightarrow>
               (case (case tr_content reply of None \<Rightarrow> Done (arr, False, m1) | Some items \<Rightarrow> build_tool_content_json m1 arr items) of
                  Undefined \<Rightarrow> Undefined
                | Done (_, True, _) \<Rightarrow> internal_error me rq ''Failed to build content item JSON'' s
                | Done (arr', False, m2) \<Rightarrow>
                    (case and_on (and_on (mcp_json_object_create m2) (set_value ''content'' (\<lambda>m. (Some arr', m))))
                            (set_value ''isError'' (\<lambda>m. mcp_json_boolean_create m (tr_is_error reply))) of
                       (None, _) \<Rightarrow> internal_error me rq ''Failed to create result object'' s
                     | (Some obj, _) \<Rightarrow> stringify_result me rq obj s)))"

definition handle_call_tool_request :: "'s server \<Rightarrow> 's handler" where
  "handle_call_tool_request srv me rq ctx s =
     (if ctx = None then Done ((MCP_ERROR_INVALID_PARAMS, None), s)
      else if \<not> srv_tools_supported srv
      then error_reply (me_reply_mem me) (rq_id rq) MCP_ERROR_METHOD_NOT_FOUND MCP_ERROR_METHOD_NOT_FOUND ''Tools not supported'' s
      else case rq_params rq of
             None \<Rightarrow> invalid_params me rq ''Missing parameters'' s
           | Some params \<Rightarrow>
               (case parse_text (me_json me) params of
                  Undefined \<Rightarrow> Undefined
                | Done None \<Rightarrow> invalid_params me rq ''Invalid parameters JSON'' s
                | Done (Some params_json) \<Rightarrow>
                    (case extract_string_param params_json ''name'' of
                       None \<Rightarrow> invalid_params me rq ''Missing or invalid 'name' parameter'' s
                     | Some name \<Rightarrow>
                         (if \<not> mcp_auth_check_tool_access (me_now me) ctx (Some name)
                          then error_reply (me_reply_mem me) (rq_id rq) MCP_ERROR_FORBIDDEN MCP_ERROR_FORBIDDEN ''Access denied to tool'' s
                          else case srv_tool_handler srv of
                                 None \<Rightarrow>
                                   tool_response me rq \<lparr>tr_status = MCP_ERROR_INTERNAL_ERROR, tr_content = None, tr_is_error = False,
                                      tr_error_message = fst (mcp_strdup (env_dup_mem (me_json me)) (Some ''Tool handler not configured''))\<rparr> s
                               | Some tool_handler \<Rightarrow>
                                   (case tool_handler name (mcp_json_object_get_property (Some params_json) ''arguments'') s of
                                      (reply, s1) \<Rightarrow> tool_response me rq reply s1)))))"


section \<open>Values of bounded size\<close>

definition text_field :: "string option \<Rightarrow> bool" where
  "text_field s \<longleftrightarrow> (\<forall>x. s = Some x \<longrightarrow> c_str_ok x \<and> length x < 2 ^ 28)"

lemma sized_string: "text_field (Some x) \<Longrightarrow> sized env (2 ^ 31) 0 (JString x)"
proof -
  assume x: "text_field (Some x)"
  then have "length (quoted x) < 2 ^ 31 - 1" "length (escape_string x) < 2 ^ 31 - 1"
    using quoted_bounds [of x] by (auto simp: text_field_def quoted_def)
  then show ?thesis using x by (simp add: sized_def short_string_def text_field_def)
qed

lemma sized_array:
  assumes "\<forall>v \<in> set items. sized env L D v" "length items \<le> N" "length items \<le> cap"
    "cap \<le> max 8 (2 * length items)"
  shows "sized env (N * (L + 1) + 3) (Suc D) (JArray items cap)"
proof -
  have "length (render (env_format env) v) \<le> L" if "v \<in> set items" for v using assms(1) that by (auto simp: sized_def)
  then have "sum_list (map (\<lambda>v. length (render (env_format env) v)) items) \<le> sum_list (map (\<lambda>_. L) items)" by (intro sum_list_mono) auto
  also have "\<dots> \<le> N * L" using assms(2) by (simp add: sum_list_triv)
  finally have "length (render (env_format env) (JArray items cap)) < N * (L + 1) + 3"
    using assms(2) by (simp add: comma_sep_len comp_def)
  then show ?thesis using assms jdepth_le_JArray [of items cap D] by (auto simp: sized_def list_all_iff)
qed

section \<open>Building objects and arrays\<close>

text \<open>\<open>builds env L D n r f\<close>: the steps so far have made an object whose properties are \<open>f\<close>.\<close>

definition builds ::
    "json_env \<Rightarrow> nat \<Rightarrow> nat \<Rightarrow> nat \<Rightarrow> double json option \<times> mem \<Rightarrow> (string \<Rightarrow> double jval option) \<Rightarrow> bool" where
  "builds env L D n r f \<longleftrightarrow> (\<exists>es. built r es \<and> length es \<le> n \<and> distinct (map fst es) \<and>
     (\<forall>(k, v) \<in> set es. length k \<le> 20 \<and> sized env L D v) \<and> (\<forall>x. map_option jabs (map_of es x) = f x))"

lemma builds_create: "builds env L D 0 (mcp_json_object_create []) Map.empty"
  using built_create by (auto simp: builds_def)

lemma builds_value:
  assumes b: "builds env L D n r f" and "n < 8" "c_str_ok k" "length k \<le> 20" "f k = None"
    and v: "create [] = (Some v, [])" "sized env L D v"
  shows "builds env L D (Suc n) (and_on r (set_value k create)) (f(k \<mapsto> jabs v))"
proof -
  obtain es where es: "built r es" "length es \<le> n" "distinct (map fst es)" "\<forall>(k, v) \<in> set es. length k \<le> 20 \<and> sized env L D v"
    "\<forall>x. map_option jabs (map_of es x) = f x" using b unfolding builds_def by blast
  have new: "k \<notin> fst ` set es" using es(5) [rule_format, of k] assms(5) by (simp add: map_of_eq_None_iff)
  have "and_on r (set_value k create) = and_on r (\<lambda>m obj. add_json_property m obj k (Some v))"
    using es(1) v(1) by (auto simp: built_def and_on_def set_value_def add_json_property_def split: prod.splits)
  moreover have "built (and_on r (\<lambda>m obj. add_json_property m obj k (Some v))) ((k, v) # es)"
    by (rule built_add [OF es(1) assms(3)]) (use v es(2) assms(2) in \<open>auto simp: sized_def\<close>)
  ultimately show ?thesis unfolding builds_def using es new v(2) assms(4)
    by (intro exI [of _ "(k, v) # es"]) auto
qed

lemma builds_text:
  assumes b: "builds env L D n r f" and "n < 8" "c_str_ok k" "length k \<le> 20" "f k = None" "text_field s" "2 ^ 31 \<le> L"
  shows "builds env L D (Suc n) (and_on r (set_text k s)) (f(k := map_option VString s))"
proof (cases s)
  case None
  obtain obj where "r = (Some obj, [])" using b unfolding builds_def built_def by blast
  then have "and_on r (set_text k s) = r" by (simp add: and_on_def set_text_def None)
  moreover have "f(k := map_option VString s) = f" using assms(5) None by (auto simp: fun_upd_idem)
  ultimately show ?thesis using b by (auto simp: builds_def le_Suc_eq intro: le_SucI)
next
  case (Some x)
  have "mcp_json_string_create [] (Some x) = (Some (JString x), [])"
    using assms(6) Some by (simp add: mcp_json_string_create_def mcp_json_alloc_node_def text_field_def)
  moreover have "sized env L D (JString x)" using sized_string [of x env] assms(6,7) Some sized_mono by auto
  ultimately have "builds env L D (Suc n) (and_on r (set_value k (\<lambda>m. mcp_json_string_create m (Some x)))) (f(k \<mapsto> jabs (JString x)))"
    by (intro builds_value [OF assms(1-5)])
  moreover have "and_on r (set_text k s) = and_on r (set_value k (\<lambda>m. mcp_json_string_create m (Some x)))"
    by (auto simp: and_on_def set_text_def Some split: prod.splits option.splits)
  ultimately show ?thesis using Some by simp
qed

lemma builds_object:
  assumes "builds env L D n r f" "n \<le> 8"
  shows "\<exists>t. r = (Some (JObject t), []) \<and> sized env (8 * L + 1000) (Suc D) (JObject t) \<and> jabs (JObject t) = VObject f"
proof -
  obtain es t where es: "r = (Some (JObject t), [])" "json_ok (JObject t)" "ht_map json_ops t = map_of es" "length es \<le> n"
    "distinct (map fst es)" "\<forall>(k, v) \<in> set es. length k \<le> 20 \<and> sized env L D v" "\<forall>x. map_option jabs (map_of es x) = f x"
    using assms(1) unfolding builds_def built_def by blast
  have "ht_inv json_ops t" using es(2) by simp
  then have "jabs (JObject t) = VObject f" using es(7) unfolding jabs_JObject [OF \<open>ht_inv json_ops t\<close>] es(3) by (simp add: fun_eq_iff)
  moreover have "sized env (8 * L + 1000) (Suc D) (JObject t)"
    by (rule sized_object [OF es(2,3,5) _ es(6)]) (use es(4) assms(2) in simp)
  ultimately show ?thesis using es(1) by blast
qed

text \<open>\<open>lists env L D arr vs\<close>: an array under construction with the values \<open>vs\<close>.\<close>

definition lists :: "json_env \<Rightarrow> nat \<Rightarrow> nat \<Rightarrow> double json \<Rightarrow> double jval list \<Rightarrow> bool" where
  "lists env L D arr vs \<longleftrightarrow> (\<exists>items cap. arr = JArray items cap \<and> (\<forall>v \<in> set items. sized env L D v) \<and> map jabs items = vs \<and>
     length items \<le> cap \<and> cap \<le> max 8 (2 * length items))"

lemma lists_add:
  assumes "lists env L D arr vs" "builds env L' D' n r f" "n \<le> 8" "8 * L' + 1000 \<le> L" "Suc D' \<le> D" "length vs < 2 ^ 50"
  shows "\<exists>arr'. add_listed r arr = (arr', False, []) \<and> lists env L D arr' (vs @ [VObject f])"
proof -
  obtain items cap where a: "arr = JArray items cap" "\<forall>v \<in> set items. sized env L D v" "map jabs items = vs"
    "length items \<le> cap" "cap \<le> max 8 (2 * length items)" using assms(1) unfolding lists_def by blast
  obtain t where t: "r = (Some (JObject t), [])" "sized env (8 * L' + 1000) (Suc D') (JObject t)" "jabs (JObject t) = VObject f"
    using builds_object [OF assms(2,3)] by blast
  have "length items < 2 ^ 58" using a(3) assms(6) by auto
  from array_add_no_failure [OF a(5) this a(4), of "JObject t"] obtain cap' where
    "mcp_json_array_add_item [] (Some (JArray items cap)) (Some (JObject t)) = (0, Some (JArray (items @ [JObject t]) cap'), [])"
    "cap' \<le> max 8 (2 * Suc (length items))" "Suc (length items) \<le> cap'" by blast
  then show ?thesis using a t assms(4,5) sized_mono [OF t(2)]
    by (auto simp: add_listed_def lists_def simp del: jabs.simps)
qed

lemma lists_array:
  assumes "lists env L D arr vs" "length vs \<le> N"
  shows "sized env (N * (L + 1) + 3) (Suc D) arr" "jabs arr = VArray vs"
  using assms sized_array unfolding lists_def by (auto simp: sized_array)


section \<open>The lists\<close>

definition resource_members :: "mcp_resource \<Rightarrow> string \<Rightarrow> double jval option" where
  "resource_members r = Map.empty(''uri'' := map_option VString (res_uri r), ''name'' := map_option VString (res_name r),
     ''mimeType'' := map_option VString (res_mime_type r), ''description'' := map_option VString (res_description r))"

definition resource_ok :: "mcp_resource \<Rightarrow> bool" where
  "resource_ok r \<longleftrightarrow> text_field (res_uri r) \<and> text_field (res_name r) \<and> text_field (res_mime_type r) \<and> text_field (res_description r)"

definition template_members :: "mcp_resource_template \<Rightarrow> string \<Rightarrow> double jval option" where
  "template_members r = Map.empty(''uriTemplate'' := map_option VString (tmpl_uri_template r), ''name'' := map_option VString (tmpl_name r),
     ''mimeType'' := map_option VString (tmpl_mime_type r), ''description'' := map_option VString (tmpl_description r))"

definition template_ok :: "mcp_resource_template \<Rightarrow> bool" where
  "template_ok r \<longleftrightarrow> text_field (tmpl_uri_template r) \<and> text_field (tmpl_name r) \<and> text_field (tmpl_mime_type r) \<and> text_field (tmpl_description r)"

definition item_members :: "mcp_content_item \<Rightarrow> string option \<Rightarrow> string \<Rightarrow> double jval option" where
  "item_members item txt = Map.empty(''type'' := Some (VString (content_type_name (item_type item))),
     ''mimeType'' := map_option VString (item_mime_type item), ''text'' := map_option VString txt)"

text \<open>The list under construction: texts shorter than \<open>2 ^ 35\<close>, values nested at most once.\<close>

abbreviation listing :: "json_env \<Rightarrow> double json \<Rightarrow> double jval list \<Rightarrow> bool" where
  "listing env \<equiv> lists env (2 ^ 35) 1"

lemma short_keys [simp]:
  "c_str_ok ''uri''" "c_str_ok ''uriTemplate''" "c_str_ok ''name''" "c_str_ok ''mimeType''" "c_str_ok ''description''"
  "c_str_ok ''type''" "c_str_ok ''text''" "c_str_ok ''content''" "c_str_ok ''isError''" "c_str_ok ''resources''"
  "c_str_ok ''resourceTemplates''"
  by (simp_all add: c_str_ok_def)

lemma builds_field:
  "builds env (2 ^ 31) 0 n r f \<Longrightarrow> f k = None \<Longrightarrow> text_field s \<Longrightarrow> n < 8 \<Longrightarrow> c_str_ok k \<Longrightarrow> length k \<le> 20 \<Longrightarrow>
   builds env (2 ^ 31) 0 (Suc n) (and_on r (set_text k s)) (f(k := map_option VString s))"
  by (rule builds_text) auto

lemma four: "(4 :: nat) = Suc (Suc (Suc (Suc 0)))" and three: "(3 :: nat) = Suc (Suc (Suc 0))"
  by simp_all

lemma list_resource_step:
  assumes "listing env arr vs" "resource_ok r" "length vs < 2 ^ 50"
  shows "\<exists>arr'. list_resource_callback key r (arr, False, []) = (arr', False, []) \<and> listing env arr' (vs @ [VObject (resource_members r)])"
proof -
  have t: "text_field (res_uri r)" "text_field (res_name r)" "text_field (res_mime_type r)" "text_field (res_description r)"
    using assms(2) by (auto simp: resource_ok_def)
  have "builds env (2 ^ 31) 0 4 (and_on (and_on (and_on (and_on (mcp_json_object_create [])
      (set_text ''uri'' (res_uri r))) (set_text ''name'' (res_name r)))
      (set_text ''mimeType'' (res_mime_type r))) (set_text ''description'' (res_description r))) (resource_members r)"
    unfolding resource_members_def four by (intro builds_field builds_create t) simp_all
  from lists_add [OF assms(1) this] assms(3) show ?thesis by (auto simp: list_resource_callback_def)
qed


lemma list_template_step:
  assumes "listing env arr vs" "template_ok r" "length vs < 2 ^ 50"
  shows "\<exists>arr'. list_template_callback key r (arr, False, []) = (arr', False, []) \<and> listing env arr' (vs @ [VObject (template_members r)])"
proof -
  have t: "text_field (tmpl_uri_template r)" "text_field (tmpl_name r)" "text_field (tmpl_mime_type r)" "text_field (tmpl_description r)"
    using assms(2) by (auto simp: template_ok_def)
  have "builds env (2 ^ 31) 0 4 (and_on (and_on (and_on (and_on (mcp_json_object_create [])
      (set_text ''uriTemplate'' (tmpl_uri_template r))) (set_text ''name'' (tmpl_name r)))
      (set_text ''mimeType'' (tmpl_mime_type r))) (set_text ''description'' (tmpl_description r))) (template_members r)"
    unfolding template_members_def four by (intro builds_field builds_create t) simp_all
  from lists_add [OF assms(1) this] assms(3) show ?thesis by (auto simp: list_template_callback_def)
qed

text \<open>A callback that adds one value per entry, over a whole table.\<close>

lemma foreach_listing:
  assumes step: "\<And>key r arr vs. P r \<Longrightarrow> listing env arr vs \<Longrightarrow> length vs < 2 ^ 50 \<Longrightarrow>
      \<exists>arr'. cb key r (arr, False, []) = (arr', False, []) \<and> listing env arr' (vs @ [g r])"
    and "listing env arr []" "\<forall>r \<in> set (ht_values t). P r" "length (ht_values t) < 2 ^ 50"
  shows "\<exists>arr'. mcp_hashtable_foreach cb t (arr, False, []) = (arr', False, []) \<and> listing env arr' (map g (ht_values t))"
proof -
  have "\<exists>arr'. foldl (\<lambda>s e. cb (fst e) (snd e) s) (arr, False, []) es = (arr', False, []) \<and> listing env arr' (vs @ map (g \<circ> snd) es)"
    if "listing env arr vs" "\<forall>e \<in> set es. P (snd e)" "length vs + length es < 2 ^ 50" for arr vs es
    using that
  proof (induction es arbitrary: arr vs)
    case (Cons e es)
    obtain arr1 where a: "cb (fst e) (snd e) (arr, False, []) = (arr1, False, [])" "listing env arr1 (vs @ [g (snd e)])"
      using step [of "snd e" arr vs "fst e"] Cons.prems by auto
    show ?case using Cons.IH [OF a(2)] Cons.prems a(1) by simp
  qed simp
  from this [OF assms(2), of "concat (ht_buckets t)"] assms(3,4) show ?thesis
    unfolding foreach_foldl ht_values_def by (simp add: comp_def)
qed

text \<open>A result that can be printed is printed, wrapped and read by the client.\<close>

definition calm :: "message_env \<Rightarrow> bool" where
  "calm me \<longleftrightarrow> enough_memory (me_json me) \<and> me_build_mem me = [] \<and> me_reply_mem me = [] \<and> reads_integers (env_strtod (me_json me))"

text \<open>\<open>answers_with me i r v\<close>: the client reads the response as the id and a result equal to \<open>v\<close>.\<close>

definition answers_with :: "message_env \<Rightarrow> size_t \<Rightarrow> string \<Rightarrow> double jval \<Rightarrow> bool" where
  "answers_with me i response v \<longleftrightarrow> (\<exists>r. mcp_json_parse_response (me_json me) response =
     Done (Some \<lparr>resp_id = i, resp_error_code = MCP_ERROR_NONE, resp_error_message = None,
                 resp_result = Some (render (env_format (me_json me)) r)\<rparr>) \<and> jabs r = v)"

lemma stringify_result_read:
  assumes "calm me" "unat (rq_id rq) \<le> 2 ^ 53" "json_text_ok (me_json me) obj"
  shows "\<exists>response. stringify_result me rq obj s = Done ((MCP_ERROR_NONE, Some response), s) \<and>
    answers_with me (rq_id rq) response (jabs obj)"
proof -
  have env: "enough_memory (me_json me)" "reads_integers (env_strtod (me_json me))" "me_reply_mem me = []"
    using assms(1) by (auto simp: calm_def)
  have "mcp_json_stringify (me_json me) obj = Done (Some (render (env_format (me_json me)) obj))"
    by (rule same_value_printed [OF assms(3) env(1)]) (use assms(3) in \<open>auto simp: json_text_ok_def\<close>)
  then show ?thesis
    using success_response_read [OF env(1,2) assms(2,3)] env(3)
    by (auto simp: stringify_result_def success_reply_def answers_with_def)
qed

lemma create_json_result_read:
  assumes "calm me" "unat (rq_id rq) \<le> 2 ^ 53" "listing (me_json me) arr vs" "length vs \<le> 2 ^ 12" "c_str_ok key" "length key \<le> 20"
  shows "\<exists>response. create_json_result me rq [] arr key s = Done ((MCP_ERROR_NONE, Some response), s) \<and>
    answers_with me (rq_id rq) response (VObject [key \<mapsto> VArray vs])"
proof -
  note arr = lists_array [OF assms(3,4)]
  have "builds (me_json me) (2 ^ 12 * (2 ^ 35 + 1) + 3) 2 (Suc 0)
      (and_on (mcp_json_object_create []) (set_value key (\<lambda>m. (Some arr, m)))) (Map.empty(key \<mapsto> jabs arr))"
    by (rule builds_value [OF builds_create]) (use assms(5,6) arr(1) in \<open>auto simp: numeral_2_eq_2\<close>)
  from builds_object [OF this] obtain t where
    t: "and_on (mcp_json_object_create []) (set_value key (\<lambda>m. (Some arr, m))) = (Some (JObject t), [])"
    "sized (me_json me) (8 * (2 ^ 12 * (2 ^ 35 + 1) + 3) + 1000) 3 (JObject t)" "jabs (JObject t) = VObject [key \<mapsto> VArray vs]"
    by (auto simp: arr(2) three)
  have "json_text_ok (me_json me) (JObject t)" by (rule sized_text_ok [OF t(2)]) simp_all
  from stringify_result_read [OF assms(1,2) this] t show ?thesis
    by (auto simp: create_json_result_def simp del: jabs.simps)
qed

lemma array_create_listing: "mcp_json_array_create [] = (Some (JArray [] 0), [])" "listing env (JArray [] 0) []"
  by (simp_all add: mcp_json_array_create_def mcp_json_array_create_with_capacity_def mcp_json_alloc_node_def lists_def)


section \<open>Tool calls\<close>

text \<open>The texts of the items, when each has a terminator.\<close>

definition item_ok :: "mcp_content_item option \<Rightarrow> bool" where
  "item_ok x \<longleftrightarrow> (\<exists>item txt. x = Some item \<and> text_field (item_mime_type item) \<and> item_text item = Done txt \<and> text_field txt)"

definition item_value :: "mcp_content_item option \<Rightarrow> double jval" where
  "item_value x = (case x of None \<Rightarrow> VNull
     | Some item \<Rightarrow> VObject (item_members item (case item_text item of Done txt \<Rightarrow> txt | Undefined \<Rightarrow> None)))"

lemma content_type_field: "text_field (Some (content_type_name ty))"
  by (cases ty) (simp_all add: text_field_def content_type_name_def c_str_ok_def)

lemma build_tool_content:
  assumes "listing env arr vs" "\<forall>x \<in> set items. item_ok x" "length vs + length items < 2 ^ 50"
  shows "\<exists>arr'. build_tool_content_json [] arr items = Done (arr', False, []) \<and> listing env arr' (vs @ map item_value items)"
  using assms
proof (induction items arbitrary: arr vs)
  case (Cons x items)
  obtain item tx where x: "x = Some item" "text_field (item_mime_type item)" "item_text item = Done tx" "text_field tx"
    using Cons.prems(2) unfolding item_ok_def by auto
  let ?r = "and_on (and_on (mcp_json_object_create []) (set_text ''type'' (Some (content_type_name (item_type item)))))
      (set_text ''mimeType'' (item_mime_type item))"
  have b2: "builds env (2 ^ 31) 0 (Suc (Suc 0)) ?r (Map.empty(''type'' := map_option VString (Some (content_type_name (item_type item))),
      ''mimeType'' := map_option VString (item_mime_type item)))"
    by (intro builds_field builds_create content_type_field x(2)) simp_all
  then obtain obj where r: "?r = (Some obj, [])" unfolding builds_def built_def by blast
  have "builds env (2 ^ 31) 0 3 (and_on ?r (set_text ''text'' tx)) (item_members item tx)"
    using builds_field [OF b2, of "''text''" tx] x(4) unfolding item_members_def three by simp
  from lists_add [OF Cons.prems(1) this] Cons.prems(3) obtain arr1 where
    a: "add_listed (and_on ?r (set_text ''text'' tx)) arr = (arr1, False, [])" "listing env arr1 (vs @ [VObject (item_members item tx)])" by auto
  have v: "item_value x = VObject (item_members item tx)" using x by (simp add: item_value_def)
  have "build_tool_content_json [] arr (x # items) = build_tool_content_json [] arr1 items"
    unfolding x(1) build_tool_content_json.simps Let_def r using x(3) a(1) [unfolded r] by simp
  then show ?case using Cons.IH [OF a(2)] Cons.prems v by auto
qed simp

lemma tool_response_read:
  assumes "calm me" "unat (rq_id rq) \<le> 2 ^ 53" "tr_status reply = MCP_ERROR_NONE"
    and "tr_content reply = Some items" "\<forall>x \<in> set items. item_ok x" "length items \<le> 2 ^ 12"
  shows "\<exists>response. tool_response me rq reply s = Done ((MCP_ERROR_NONE, Some response), s) \<and>
    answers_with me (rq_id rq) response (VObject [''content'' \<mapsto> VArray (map item_value items), ''isError'' \<mapsto> VBool (tr_is_error reply)])"
proof -
  have m: "me_build_mem me = []" using assms(1) by (simp add: calm_def)
  obtain arr where arr: "build_tool_content_json [] (JArray [] 0) items = Done (arr, False, [])"
    "listing (me_json me) arr (map item_value items)"
    using build_tool_content [OF array_create_listing(2) assms(5), of "me_json me"] assms(6) by auto
  note a = lists_array [OF arr(2), of "2 ^ 12"]
  let ?L = "2 ^ 12 * (2 ^ 35 + 1) + 3 :: nat"
  have "builds (me_json me) ?L 2 (Suc 0) (and_on (mcp_json_object_create []) (set_value ''content'' (\<lambda>m. (Some arr, m))))
      (Map.empty(''content'' \<mapsto> jabs arr))"
    by (rule builds_value [OF builds_create]) (use a(1) assms(6) in \<open>auto simp: numeral_2_eq_2\<close>)
  then have "builds (me_json me) ?L 2 (Suc (Suc 0))
      (and_on (and_on (mcp_json_object_create []) (set_value ''content'' (\<lambda>m. (Some arr, m))))
        (set_value ''isError'' (\<lambda>m. mcp_json_boolean_create m (tr_is_error reply))))
      (Map.empty(''content'' \<mapsto> jabs arr, ''isError'' \<mapsto> jabs (JBool (tr_is_error reply) :: double json)))"
    by (rule builds_value) (auto simp: mcp_json_boolean_create_def mcp_json_alloc_node_def sized_def)
  from builds_object [OF this] obtain t where
    t: "and_on (and_on (mcp_json_object_create []) (set_value ''content'' (\<lambda>m. (Some arr, m))))
        (set_value ''isError'' (\<lambda>m. mcp_json_boolean_create m (tr_is_error reply))) = (Some (JObject t), [])"
    "sized (me_json me) (8 * ?L + 1000) 3 (JObject t)"
    "jabs (JObject t) = VObject [''content'' \<mapsto> VArray (map item_value items), ''isError'' \<mapsto> VBool (tr_is_error reply)]"
    using a(2) assms(6) by (auto simp: three)
  have "json_text_ok (me_json me) (JObject t)" by (rule sized_text_ok [OF t(2)]) simp_all
  from stringify_result_read [OF assms(1,2) this] t(1,3) arr(1) assms(3,4) show ?thesis
    by (auto simp: tool_response_def m array_create_listing(1) simp del: jabs.simps)
qed

section \<open>The handlers in the dispatcher\<close>

definition with_handlers :: "'s server \<Rightarrow> 's services \<Rightarrow> 's services" where
  "with_handlers srv sv = sv\<lparr>sv_call_tool := handle_call_tool_request srv, sv_list_resources := handle_list_resources_request srv,
     sv_list_resource_templates := handle_list_resource_templates_request srv\<rparr>"

lemma call_tool_read:
  assumes "calm me" "unat (rq_id rq) \<le> 2 ^ 53" "ctx = Some c" "srv_tools_supported srv" "rq_params rq = Some params"
    and "parse_text (me_json me) params = Done (Some pj)" "extract_string_param pj ''name'' = Some name"
    and "mcp_auth_check_tool_access (me_now me) ctx (Some name)" "srv_tool_handler srv = Some tool_handler"
    and "tool_handler name (mcp_json_object_get_property (Some pj) ''arguments'') s = (reply, s')"
    and "tr_status reply = MCP_ERROR_NONE" "tr_content reply = Some items" "\<forall>x \<in> set items. item_ok x" "length items \<le> 2 ^ 12"
  shows "\<exists>response. handle_call_tool_request srv me rq ctx s = Done ((MCP_ERROR_NONE, Some response), s') \<and>
    answers_with me (rq_id rq) response (VObject [''content'' \<mapsto> VArray (map item_value items), ''isError'' \<mapsto> VBool (tr_is_error reply)])"
  using tool_response_read [OF assms(1,2,11-14), of s'] assms(3-10) by (simp add: handle_call_tool_request_def)

section \<open>Properties\<close>

text \<open>Claim C3.  A tool runs only for a client that may use it: if \<open>handle_call_tool_request\<close> changes the
  state at all, then tools are supported, the parameters name a tool, the access rules of the client's
  context grant that tool, and the new state is what the tool handler made of the old one for that
  name.\<close>

theorem tool_runs_only_with_access:
  assumes "handle_call_tool_request srv me rq ctx s = Done (r, s')" "s' \<noteq> s"
  shows "\<exists>params name tool_handler. srv_tools_supported srv \<and>
    parse_text (me_json me) (the (rq_params rq)) = Done (Some params) \<and> extract_string_param params ''name'' = Some name \<and>
    mcp_auth_check_tool_access (me_now me) ctx (Some name) \<and> srv_tool_handler srv = Some tool_handler \<and>
    s' = snd (tool_handler name (mcp_json_object_get_property (Some params) ''arguments'') s)"
proof -
  have keeps: "error_reply m i st code msg s0 = Done (r0, s1) \<Longrightarrow> s1 = s0" for m i st code msg s0 r0 s1
    by (auto simp: error_reply_def split: checked.splits)
  have resp: "tool_response me rq reply s0 = Done (r0, s1) \<Longrightarrow> s1 = s0" for reply s0 r0 s1
    by (auto simp: tool_response_def stringify_result_def success_reply_def internal_error_def
        dest: keeps split: checked.splits option.splits prod.splits if_splits bool.splits)
  show ?thesis
    using assms by (auto simp: handle_call_tool_request_def invalid_params_def dest: keeps resp
        split: if_splits option.splits checked.splits prod.splits)
qed

text \<open>The result of a tool reaches the client: when the tool handler returns content, the client
  reads from the response the id of the request and an object with the items of the content, in order
  and with their types, and the error flag.\<close>

theorem call_tool_result:
  assumes "calm me" "unat (rq_id rq) \<le> 2 ^ 53" "ctx = Some c" "srv_tools_supported srv" "rq_params rq = Some params"
    and "parse_text (me_json me) params = Done (Some pj)" "extract_string_param pj ''name'' = Some name"
    and "mcp_auth_check_tool_access (me_now me) ctx (Some name)" "srv_tool_handler srv = Some tool_handler"
    and "tool_handler name (mcp_json_object_get_property (Some pj) ''arguments'') s = (reply, s')"
    and "tr_status reply = MCP_ERROR_NONE" "tr_content reply = Some items" "\<forall>x \<in> set items. item_ok x" "length items \<le> 2 ^ 12"
  shows "\<exists>response. handle_call_tool_request srv me rq ctx s = Done ((MCP_ERROR_NONE, Some response), s') \<and>
    answers_with me (rq_id rq) response (VObject [''content'' \<mapsto> VArray (map item_value items), ''isError'' \<mapsto> VBool (tr_is_error reply)])"
  by (rule call_tool_read [OF assms])

text \<open>The resources are listed completely: the client reads an array with one object per entry
  of the resource table, in the order of the table, each with the uri, name, type and description that
  the resource has.\<close>

theorem list_resources_result:
  assumes "calm me" "unat (rq_id rq) \<le> 2 ^ 53" "srv_resources_supported srv" "srv_resources_table srv = Some t"
    and "\<forall>r \<in> set (ht_values t). resource_ok r" "length (ht_values t) \<le> 2 ^ 12"
  shows "\<exists>response. handle_list_resources_request srv me rq (Some c) s = Done ((MCP_ERROR_NONE, Some response), s) \<and>
    answers_with me (rq_id rq) response (VObject [''resources'' \<mapsto> VArray (map (\<lambda>r. VObject (resource_members r)) (ht_values t))])"
proof -
  obtain arr where arr: "mcp_hashtable_foreach list_resource_callback t (JArray [] 0, False, []) = (arr, False, [])"
    "listing (me_json me) arr (map (\<lambda>r. VObject (resource_members r)) (ht_values t))"
    using foreach_listing [where cb = list_resource_callback and P = resource_ok and g = "\<lambda>r. VObject (resource_members r)" and env = "me_json me",
        OF _ array_create_listing(2) assms(5)] list_resource_step assms(6) by auto
  from create_json_result_read [OF assms(1,2) arr(2), of "''resources''" s] assms(1,3,4,6) arr(1) show ?thesis
    by (auto simp: handle_list_resources_request_def calm_def array_create_listing(1))
qed


definition me_example :: message_env where
  "me_example = \<lparr>me_json = env_int, me_build_mem = [], me_reply_mem = [], me_now = 0\<rparr>"

lemma calm_example: "calm me_example"
  using env_int(1,2) by (simp add: calm_def me_example_def)

definition ctx_example :: mcp_auth_context where
  "ctx_example = \<lparr>ctx_type = MCP_AUTH_NONE, ctx_identifier = Some ''x'', ctx_expiry = 0,
     ctx_allowed_resources = None, ctx_allowed_tools = Some [Some ''ad*'']\<rparr>"

definition item_example :: mcp_content_item where
  "item_example = \<lparr>item_type = MCP_CONTENT_TYPE_TEXT, item_mime_type = None, item_data = Some [CHR ''y'', NUL], item_data_size = 2\<rparr>"

definition reply_example :: tool_reply where
  "reply_example = \<lparr>tr_status = 0, tr_content = Some [Some item_example], tr_is_error = False, tr_error_message = None\<rparr>"

definition handler_example :: "string \<Rightarrow> double json option \<Rightarrow> nat \<Rightarrow> tool_reply \<times> nat" where
  "handler_example name args n = (reply_example, Suc n)"

definition srv_example :: "nat server" where
  "srv_example = \<lparr>srv_resources_supported = True, srv_tools_supported = True,
     srv_resources_table = Some (Hashtable [[(''a'', \<lparr>res_uri = Some ''a'', res_name = None, res_mime_type = None, res_description = None\<rparr>)]] 1 1 (3 / 4)),
     srv_templates_table = None,
     srv_tool_handler = Some handler_example\<rparr>"

lemma item_example: "\<forall>x \<in> set [Some item_example]. item_ok x"
  "item_value (Some item_example) = VObject [''type'' \<mapsto> VString ''text'', ''text'' \<mapsto> VString ''y'']"
  by (simp_all add: item_example_def item_ok_def item_text_def text_field_def c_string_def c_str_ok_def
      item_value_def item_members_def content_type_name_def fun_eq_iff)

text \<open>Parameters that name the tool \<open>add\<close>.\<close>

lemma params_example:
  "\<exists>params t. parse_text env_int params = Done (Some (JObject t)) \<and> extract_string_param (JObject t) ''name'' = Some ''add''"
proof -
  have b: "built (and_on (mcp_json_object_create []) (\<lambda>m obj. add_string_property m obj ''name'' ''add'')) [(''name'', JString ''add'')]"
    by (rule built_add_string [OF built_create]) (simp_all add: c_str_ok_def)
  have "\<forall>(k, v) \<in> set [(''name'', JString ''add'')]. length k \<le> 20 \<and> json_text_ok env_int v"
    using json_text_ok_scalars [of "''add''" env_int] by (simp add: c_str_ok_def)
  from built_roundtrip [OF b _ _ this env_int(1)] obtain params t where
    t: "mcp_json_parse (env_strtod env_int) [] (Some params) = Ok (JObject t)"
    "\<forall>x. map_option jabs (mcp_json_object_get_property (Some (JObject t)) x) = map_option jabs (map_of [(''name'', JString ''add'')] x)"
    by auto
  have "mcp_json_object_get_property (Some (JObject t)) ''name'' = Some (JString ''add'')"
    by (rule object_reader(2) [OF t(2)]) simp
  with t(1) show ?thesis
    by (intro exI [of _ params] exI [of _ t]) (simp add: parse_text_def extract_string_param_def mcp_json_get_string_def env_int_def)
qed

lemma tool_access_example: "mcp_auth_check_tool_access 0 (Some ctx_example) (Some ''add'')"
  by (simp add: ctx_example_def mcp_auth_check_tool_access_def check_access_def is_auth_context_expired_def mcp_wildcard_match_def)

abbreviation request_example :: "string \<Rightarrow> request" where
  "request_example params \<equiv> \<lparr>rq_id = 7, rq_method = Some ''call_tool'', rq_params = Some params\<rparr>"

lemma call_tool_example:
  "\<exists>params r. handle_call_tool_request srv_example me_example (request_example params) (Some ctx_example) 0 = Done (r, 1)"
proof -
  obtain params t where p: "parse_text env_int params = Done (Some (JObject t))" "extract_string_param (JObject t) ''name'' = Some ''add''"
    using params_example by blast
  obtain response where "tool_response me_example (request_example params) reply_example (1 :: nat) = Done ((MCP_ERROR_NONE, Some response), 1)"
    using tool_response_read [OF calm_example _ _ _ item_example(1), of "request_example params" reply_example]
    by (fastforce simp: reply_example_def)
  then show ?thesis using p tool_access_example
    by (intro exI [of _ params] exI) (simp add: handle_call_tool_request_def srv_example_def me_example_def handler_example_def)
qed

theorem tool_runs_only_with_access_witness:
  "\<exists>name. mcp_auth_check_tool_access 0 (Some ctx_example) (Some name)"
proof -
  obtain params r where "handle_call_tool_request srv_example me_example (request_example params) (Some ctx_example) 0 = Done (r, 1)"
    using call_tool_example by blast
  from tool_runs_only_with_access [OF this] show ?thesis by (auto simp: me_example_def)
qed

theorem call_tool_result_witness:
  "\<exists>params response. handle_call_tool_request srv_example me_example (request_example params) (Some ctx_example) 0 =
      Done ((MCP_ERROR_NONE, Some response), 1) \<and>
    answers_with me_example 7 response (VObject [''content'' \<mapsto> VArray [VObject [''type'' \<mapsto> VString ''text'', ''text'' \<mapsto> VString ''y'']],
      ''isError'' \<mapsto> VBool False])"
proof -
  obtain params t where p: "parse_text (me_json me_example) params = Done (Some (JObject t))" "extract_string_param (JObject t) ''name'' = Some ''add''"
    using params_example by (auto simp: me_example_def)
  have acc: "mcp_auth_check_tool_access (me_now me_example) (Some ctx_example) (Some ''add'')"
    using tool_access_example by (simp add: me_example_def)
  have srv: "srv_tools_supported srv_example" "srv_tool_handler srv_example = Some handler_example" by (simp_all add: srv_example_def)
  have rep: "handler_example ''add'' x 0 = (reply_example, 1)" "tr_status reply_example = MCP_ERROR_NONE"
    "tr_content reply_example = Some [Some item_example]" "tr_is_error reply_example = False" for x
    by (simp_all add: handler_example_def reply_example_def)
  obtain response where "handle_call_tool_request srv_example me_example (request_example params) (Some ctx_example) 0 =
      Done ((MCP_ERROR_NONE, Some response), 1)"
    "answers_with me_example 7 response (VObject [''content'' \<mapsto> VArray (map item_value [Some item_example]),
      ''isError'' \<mapsto> VBool (tr_is_error reply_example)])"
    using call_tool_result [OF calm_example _ refl srv(1) _ p acc srv(2) rep(1-3) item_example(1), of "request_example params"] by auto
  then show ?thesis using item_example(2) rep(4) by auto
qed

theorem list_resources_result_witness:
  "\<exists>response. handle_list_resources_request srv_example me_example \<lparr>rq_id = 7, rq_method = None, rq_params = None\<rparr> (Some ctx_example) 0 =
      Done ((MCP_ERROR_NONE, Some response), 0) \<and>
    answers_with me_example 7 response (VObject [''resources'' \<mapsto> VArray [VObject [''uri'' \<mapsto> VString ''a'']]])"
proof -
  have "resource_members \<lparr>res_uri = Some ''a'', res_name = None, res_mime_type = None, res_description = None\<rparr> = [''uri'' \<mapsto> VString ''a'']"
    by (simp add: resource_members_def fun_eq_iff)
  then show ?thesis
    using list_resources_result [OF calm_example, of "\<lparr>rq_id = 7, rq_method = None, rq_params = None\<rparr>" srv_example _ ctx_example 0]
    by (simp add: srv_example_def ht_values_def resource_ok_def text_field_def c_str_ok_def)
qed

end
