(* ===== verification/Mcp_Template.thy ===== *)
theory Mcp_Template
  imports Mcp_Json_Rpc
begin

text \<open>
  URI templates, \<open>src/common/mcp_template.c\<close>: a template such as \<open>weather://{city}/days/{n:int=3}\<close> is
  expanded with the properties of a JSON object, matched against a URI, and used to take the
  parameters out of a URI.

  A pointer into a C string is the rest of the string.  The allocations are answered by an argument, as
  everywhere.  \<open>strtof\<close>, \<open>atof\<close> and the conversion of a number with \<open>%g\<close> are functions of the C library on
  floating-point numbers and arguments of the model (\<open>template_env\<close>); the numbers of the model have no
  NaN.  A conversion to \<open>int\<close> that does not fit and a write outside the buffer are undefined.
\<close>

section \<open>The C library\<close>

definition c_isspace :: "char \<Rightarrow> bool" where
  "c_isspace c \<longleftrightarrow> (let n = (of_char c :: nat) in n = 32 \<or> 9 \<le> n \<and> n \<le> 13)"

text \<open>\<open>strtol\<close> with base 10: the value, kept within the range of \<open>long\<close>, and the rest; the rest is the
  whole string when there are no digits.\<close>

definition c_strtol :: "string \<Rightarrow> int \<times> string" where
  "c_strtol s =
     (let s1 = dropWhile c_isspace s;
          neg = (s1 \<noteq> [] \<and> hd s1 = CHR ''-'');
          s2 = (if s1 \<noteq> [] \<and> (hd s1 = CHR ''-'' \<or> hd s1 = CHR ''+'') then tl s1 else s1);
          ds = takeWhile is_digit s2
      in if ds = [] then (0, s)
         else let v = (if neg then - int (digits_value ds) else int (digits_value ds))
              in (max (- (2 ^ 63)) (min (2 ^ 63 - 1) v), dropWhile is_digit s2))"

text \<open>\<open>strchr\<close>: what is in front of the character and what is from it on.\<close>

definition c_strchr :: "string \<Rightarrow> char \<Rightarrow> (string \<times> string) option" where
  "c_strchr s c = (if c \<in> set s then Some (takeWhile (\<lambda>x. x \<noteq> c) s, dropWhile (\<lambda>x. x \<noteq> c) s) else None)"

record template_env =
  te_strtof :: "double strtod"
  te_atof :: "string \<Rightarrow> double"
  te_format_g :: "double \<Rightarrow> string"

section \<open>Parameters\<close>

datatype mcp_template_param_type =
    MCP_TEMPLATE_PARAM_TYPE_STRING
  | MCP_TEMPLATE_PARAM_TYPE_INT
  | MCP_TEMPLATE_PARAM_TYPE_FLOAT
  | MCP_TEMPLATE_PARAM_TYPE_BOOL
  | MCP_TEMPLATE_PARAM_TYPE_CUSTOM

text \<open>The union \<open>range\<close>, by the member that was written last; the range of floats is always the full one.\<close>

datatype param_range =
    IntRange int int
  | FloatRange
  | StringRange size_t size_t

record mcp_template_param_validation =
  pv_type :: mcp_template_param_type
  pv_required :: bool
  pv_default_value :: "string option"
  pv_pattern :: "string option"
  pv_range :: param_range

abbreviation INT_MIN :: int where
  "INT_MIN \<equiv> -2147483648"

abbreviation INT_MAX :: int where
  "INT_MAX \<equiv> 2147483647"

definition full_range :: "mcp_template_param_type \<Rightarrow> param_range" where
  "full_range type =
     (case type of
        MCP_TEMPLATE_PARAM_TYPE_INT \<Rightarrow> IntRange INT_MIN INT_MAX
      | MCP_TEMPLATE_PARAM_TYPE_FLOAT \<Rightarrow> FloatRange
      | _ \<Rightarrow> StringRange 0 0xFFFFFFFFFFFFFFFF)"

definition default_validation :: mcp_template_param_validation where
  "default_validation = \<lparr>pv_type = MCP_TEMPLATE_PARAM_TYPE_STRING, pv_required = True, pv_default_value = None, pv_pattern = None,
     pv_range = full_range MCP_TEMPLATE_PARAM_TYPE_STRING\<rparr>"

definition mcp_template_init_validation ::
    "mem \<Rightarrow> mcp_template_param_type \<Rightarrow> bool \<Rightarrow> string option \<Rightarrow> mcp_template_param_validation \<times> mem" where
  "mcp_template_init_validation m type required default_value =
     (let (d, m1) = mcp_strdup m default_value
      in (\<lparr>pv_type = type, pv_required = required, pv_default_value = d, pv_pattern = None, pv_range = full_range type\<rparr>, m1))"

text \<open>The part \<open>:type\<close> of a specification, without the colon, and what is behind it.\<close>

definition parse_param_type ::
    "mem \<Rightarrow> string \<Rightarrow> mcp_template_param_validation \<Rightarrow> mcp_template_param_validation \<times> string \<times> mem" where
  "parse_param_type m s v =
     (let type_str = take 31 (takeWhile (\<lambda>c. c \<notin> set ''=?'') s); type_end = dropWhile (\<lambda>c. c \<notin> set ''=?'') s
      in if type_str = ''int''
         then (v\<lparr>pv_type := MCP_TEMPLATE_PARAM_TYPE_INT, pv_range := full_range MCP_TEMPLATE_PARAM_TYPE_INT\<rparr>, type_end, m)
         else if type_str = ''float''
         then (v\<lparr>pv_type := MCP_TEMPLATE_PARAM_TYPE_FLOAT, pv_range := full_range MCP_TEMPLATE_PARAM_TYPE_FLOAT\<rparr>, type_end, m)
         else if type_str = ''bool'' then (v\<lparr>pv_type := MCP_TEMPLATE_PARAM_TYPE_BOOL\<rparr>, type_end, m)
         else if take 8 type_str = ''pattern:''
         then (let (p, m1) = mcp_strdup m (Some (drop 8 type_str))
               in (v\<lparr>pv_type := MCP_TEMPLATE_PARAM_TYPE_CUSTOM, pv_pattern := p\<rparr>, type_end, m1))
         else (v\<lparr>pv_type := MCP_TEMPLATE_PARAM_TYPE_STRING\<rparr>, type_end, m))"

text \<open>The type and the default value.\<close>

definition parse_param_rest ::
    "mem \<Rightarrow> string \<Rightarrow> mcp_template_param_validation \<Rightarrow> mcp_template_param_validation \<times> mem" where
  "parse_param_rest m s v =
     (let (v1, s1, m1) = (if s \<noteq> [] \<and> hd s = CHR '':'' then parse_param_type m (tl s) v else (v, s, m))
      in if s1 \<noteq> [] \<and> hd s1 = CHR ''=''
         then (let (d, m2) = mcp_strdup m1 (Some (tl s1)) in (v1\<lparr>pv_default_value := d, pv_required := False\<rparr>, m2))
         else (v1, m1))"

text \<open>The result is NULL when the function returns -1, otherwise the name and the rules.\<close>

definition mcp_template_parse_param_spec ::
    "mem \<Rightarrow> string \<Rightarrow> nat \<Rightarrow> (string \<times> mcp_template_param_validation) option \<times> mem" where
  "mcp_template_parse_param_spec m param_spec name_size =
     (case mcp_strdup m (Some param_spec) of
        (None, m1) \<Rightarrow> (None, m1)
      | (Some spec, m1) \<Rightarrow>
          (let name = take (name_size - 1) (takeWhile (\<lambda>c. c \<notin> set '':=?'') spec); name_end = dropWhile (\<lambda>c. c \<notin> set '':=?'') spec
           in if name_end = [] then (Some (name, default_validation), m1)
              else if hd name_end = CHR ''?''
              then (let v = default_validation\<lparr>pv_required := False\<rparr>; s = tl name_end
                    in if s = [] then (Some (name, v), m1)
                       else if hd s \<noteq> CHR '':'' \<and> hd s \<noteq> CHR ''='' then (None, m1)
                       else let (v1, m2) = parse_param_rest m1 s v in (Some (name, v1), m2))
              else let (v1, m2) = parse_param_rest m1 name_end default_validation in (Some (name, v1), m2)))"

text \<open>A pattern with a star at its end, at its start or in the middle.\<close>

definition pattern_match :: "string \<Rightarrow> string \<Rightarrow> bool" where
  "pattern_match value pattern =
     (if pattern \<noteq> [] \<and> last pattern = STAR
      then take (length pattern - 1) value = take (length pattern - 1) pattern
      else if pattern \<noteq> [] \<and> hd pattern = STAR
      then \<not> length value < length pattern - 1 \<and> drop (length value - (length pattern - 1)) value = tl pattern
      else case c_strchr pattern STAR of
             Some (pre, s) \<Rightarrow>
               take (length pre) value = take (length pre) pattern \<and> \<not> length value < length pre + length (tl s) \<and>
               drop (length value - length (tl s)) value = tl s
           | None \<Rightarrow> value = pattern)"

definition validate_int :: "string \<Rightarrow> param_range \<Rightarrow> bool" where
  "validate_int value rg =
     (case c_strtol value of
        (v, endptr) \<Rightarrow> endptr \<noteq> value \<and> endptr = [] \<and> (case rg of IntRange lo hi \<Rightarrow> lo \<le> v \<and> v \<le> hi | _ \<Rightarrow> True))"

definition validate_float :: "template_env \<Rightarrow> string \<Rightarrow> bool" where
  "validate_float te value =
     (case te_strtof te value of (v, endptr) \<Rightarrow> endptr = [] \<and> (case v of Finite _ \<Rightarrow> True | Infinite _ \<Rightarrow> False))"

definition mcp_template_validate_param ::
    "template_env \<Rightarrow> string option \<Rightarrow> mcp_template_param_validation option \<Rightarrow> bool" where
  "mcp_template_validate_param te value validation =
     (case (value, validation) of
        (None, None) \<Rightarrow> False
      | (None, Some v) \<Rightarrow> \<not> pv_required v
      | (Some _, None) \<Rightarrow> True
      | (Some s, Some v) \<Rightarrow>
          (case pv_type v of
             MCP_TEMPLATE_PARAM_TYPE_INT \<Rightarrow> validate_int s (pv_range v)
           | MCP_TEMPLATE_PARAM_TYPE_FLOAT \<Rightarrow> validate_float te s
           | MCP_TEMPLATE_PARAM_TYPE_BOOL \<Rightarrow> s = ''true'' \<or> s = ''false'' \<or> s = ''1'' \<or> s = ''0''
           | MCP_TEMPLATE_PARAM_TYPE_STRING \<Rightarrow>
               (case pv_range v of StringRange lo hi \<Rightarrow> unat lo \<le> length s \<and> length s \<le> unat hi | _ \<Rightarrow> True)
           | MCP_TEMPLATE_PARAM_TYPE_CUSTOM \<Rightarrow> (case pv_pattern v of None \<Rightarrow> True | Some p \<Rightarrow> pattern_match s p)))"

section \<open>Expansion\<close>

text \<open>\<open>number_value == (int)number_value\<close> and the two formats.\<close>

definition number_param :: "template_env \<Rightarrow> double \<Rightarrow> string checked" where
  "number_param te d =
     (case d of
        Infinite _ \<Rightarrow> Undefined
      | Finite r \<Rightarrow>
          if r \<le> -2147483649 \<or> 2147483648 \<le> r then Undefined
          else if r = of_int \<lfloor>r\<rfloor> then Done (decimal_int \<lfloor>r\<rfloor>) else Done (te_format_g te d))"

text \<open>The value of a parameter, \<open>None\<close> when it is missing or not valid.\<close>

definition process_template_param ::
    "template_env \<Rightarrow> mem \<Rightarrow> string \<Rightarrow> double json option \<Rightarrow> (string option \<times> mem) checked" where
  "process_template_param te m param_spec params =
     (case mcp_template_parse_param_spec m param_spec 128 of
        (None, m1) \<Rightarrow> Done (None, m1)
      | (Some (name, v), m1) \<Rightarrow>
          (case (case mcp_json_object_get_property params name of
                   Some (JString s) \<Rightarrow> Done (Some s)
                 | Some (JNumber d) \<Rightarrow> (case number_param te d of Undefined \<Rightarrow> Undefined | Done s \<Rightarrow> Done (Some s))
                 | _ \<Rightarrow> if pv_required v then Done None
                        else Done (Some (case pv_default_value v of Some s \<Rightarrow> s | None \<Rightarrow> []))) of
             Undefined \<Rightarrow> Undefined
           | Done None \<Rightarrow> Done (None, m1)
           | Done (Some s) \<Rightarrow> Done (if mcp_template_validate_param te (Some s) (Some v) then Some s else None, m1)))"

text \<open>One pass over the template: the text of the expansion.  The first pass of the code takes its
  length only.\<close>

definition placeholder :: "string \<Rightarrow> (string \<times> string) option" where
  "placeholder t =
     (case c_strchr t (CHR ''}'') of
        None \<Rightarrow> None
      | Some (spec, s) \<Rightarrow> if length spec \<ge> 256 then None else Some (spec, tl s))"

lemma placeholder_shorter:
  assumes "placeholder t = Some (spec, s)"
  shows "length spec + length s < length t"
proof -
  have t: "CHR ''}'' \<in> set t" "spec = takeWhile (\<lambda>x. x \<noteq> CHR ''}'') t" "s = tl (dropWhile (\<lambda>x. x \<noteq> CHR ''}'') t)"
    using assms by (auto simp: placeholder_def c_strchr_def split: if_splits)
  have "dropWhile (\<lambda>x. x \<noteq> CHR ''}'') t \<noteq> []" using t(1) by (simp only: dropWhile_eq_Nil_conv) blast
  then have "length s < length (dropWhile (\<lambda>x. x \<noteq> CHR ''}'') t)" using t(3) by simp
  moreover have "length spec + length (dropWhile (\<lambda>x. x \<noteq> CHR ''}'') t) = length t"
    using t(2) by (metis length_append takeWhile_dropWhile_id)
  ultimately show ?thesis by simp
qed

function expand_pass ::
    "template_env \<Rightarrow> double json option \<Rightarrow> mem \<Rightarrow> string \<Rightarrow> (string option \<times> mem) checked" where
  "expand_pass te params m [] = Done (Some [], m)"
| "expand_pass te params m (c # t) =
     (if c = CHR ''{''
      then case placeholder t of
             None \<Rightarrow> Done (None, m)
           | Some (spec, t1) \<Rightarrow>
               (case process_template_param te m spec params of
                  Undefined \<Rightarrow> Undefined
                | Done (None, m1) \<Rightarrow> Done (None, m1)
                | Done (Some value, m1) \<Rightarrow>
                    (case expand_pass te params m1 t1 of
                       Undefined \<Rightarrow> Undefined
                     | Done (r, m2) \<Rightarrow> Done (map_option (\<lambda>s. value @ s) r, m2)))
      else case expand_pass te params m t of
             Undefined \<Rightarrow> Undefined
           | Done (r, m1) \<Rightarrow> Done (map_option (\<lambda>s. c # s) r, m1))"
  by pat_completeness auto
termination
  by (relation "measure (\<lambda>(_, _, _, t). length t)") (auto dest: placeholder_shorter)

text \<open>The buffer has the size the first pass found; a second pass that finds more writes outside it.\<close>

definition mcp_template_expand ::
    "template_env \<Rightarrow> mem \<Rightarrow> string option \<Rightarrow> double json option \<Rightarrow> (string option \<times> mem) checked" where
  "mcp_template_expand te m template params =
     (case template of
        None \<Rightarrow> Done (None, m)
      | Some t \<Rightarrow>
          if params = None \<or> mcp_json_get_type params \<noteq> MCP_JSON_OBJECT then Done (None, m)
          else case expand_pass te params m t of
                 Undefined \<Rightarrow> Undefined
               | Done (None, m1) \<Rightarrow> Done (None, m1)
               | Done (Some s1, m1) \<Rightarrow>
                   (case realloc_bytes m1 (length s1 + 1) of
                      (False, m2) \<Rightarrow> Done (None, m2)
                    | (True, m2) \<Rightarrow>
                        (case expand_pass te params m2 t of
                           Undefined \<Rightarrow> Undefined
                         | Done (None, m3) \<Rightarrow> Done (None, m3)
                         | Done (Some s2, m3) \<Rightarrow> if length s1 < length s2 then Undefined else Done (Some s2, m3))))"


section \<open>Matching\<close>

text \<open>
  The loop of \<open>mcp_template_matches\<close> over the rest \<open>u\<close> of the URI and the rest of the template.  When the
  character behind an optional placeholder is not in the URI, the code steps one character back in the
  template, to the closing brace.
\<close>

function matches_loop :: "template_env \<Rightarrow> mem \<Rightarrow> string \<Rightarrow> string \<Rightarrow> bool" where
  "matches_loop te m u [] = (u = [])"
| "matches_loop te m u (c # t) =
     (if c = CHR ''{''
      then case placeholder t of
             None \<Rightarrow> False
           | Some (spec, t1) \<Rightarrow>
               (case mcp_template_parse_param_spec m spec 128 of
                  (None, _) \<Rightarrow> False
                | (Some (name, v), m1) \<Rightarrow>
                    if t1 = [] then True
                    else (case c_strchr u (hd t1) of
                            None \<Rightarrow> \<not> pv_required v \<and> matches_loop te m1 u (CHR ''}'' # t1)
                          | Some (value, u1) \<Rightarrow>
                              length value < 256 \<and> mcp_template_validate_param te (Some value) (Some v) \<and> matches_loop te m1 u1 t1))
      else u \<noteq> [] \<and> hd u = c \<and> matches_loop te m (tl u) t)"
  by pat_completeness auto
termination
  by (relation "measure (\<lambda>(_, _, _, t). length t)") (auto dest: placeholder_shorter)

definition mcp_template_matches :: "template_env \<Rightarrow> mem \<Rightarrow> string option \<Rightarrow> string option \<Rightarrow> bool" where
  "mcp_template_matches te m uri template =
     (case (uri, template) of (Some u, Some t) \<Rightarrow> matches_loop te m u t | _ \<Rightarrow> False)"

section \<open>Extraction\<close>

definition param_value_node :: "template_env \<Rightarrow> mem \<Rightarrow> mcp_template_param_type \<Rightarrow> string \<Rightarrow> double json option \<times> mem" where
  "param_value_node te m type value =
     (case type of
        MCP_TEMPLATE_PARAM_TYPE_INT \<Rightarrow> mcp_json_number_create m (Finite (of_int (fst (c_strtol value))))
      | MCP_TEMPLATE_PARAM_TYPE_FLOAT \<Rightarrow> mcp_json_number_create m (fst (te_strtof te value))
      | MCP_TEMPLATE_PARAM_TYPE_BOOL \<Rightarrow> mcp_json_boolean_create m (value = ''true'' \<or> value = ''1'')
      | _ \<Rightarrow> mcp_json_string_create m (Some value))"

text \<open>\<open>mcp_json_object_set_property\<close> with a new value; \<open>None\<close> when the value is NULL or the call fails.\<close>

definition set_param :: "double json \<Rightarrow> string \<Rightarrow> double json option \<times> mem \<Rightarrow> double json option \<times> mem" where
  "set_param params name r =
     (case r of
        (None, m1) \<Rightarrow> (None, m1)
      | (Some v, m1) \<Rightarrow>
          (case mcp_json_object_set_property m1 (Some params) name (Some v) of
             (rc, j, m2) \<Rightarrow> (if rc = 0 then j else None, m2)))"

function extract_loop :: "template_env \<Rightarrow> mem \<Rightarrow> double json \<Rightarrow> string \<Rightarrow> string \<Rightarrow> double json option" where
  "extract_loop te m params u [] = Some params"
| "extract_loop te m params u (c # t) =
     (if c = CHR ''{''
      then case placeholder t of
             None \<Rightarrow> None
           | Some (spec, t1) \<Rightarrow>
               (case mcp_template_parse_param_spec m spec 128 of
                  (None, _) \<Rightarrow> None
                | (Some (name, v), m1) \<Rightarrow>
                    (case (if t1 = [] then Some (u, u) else c_strchr u (hd t1)) of
                       None \<Rightarrow>
                         if pv_required v then None
                         else (case pv_default_value v of
                                 None \<Rightarrow> extract_loop te m1 params u t1
                               | Some d \<Rightarrow>
                                   (case set_param params name (mcp_json_string_create m1 (Some d)) of
                                      (None, _) \<Rightarrow> None
                                    | (Some params1, m2) \<Rightarrow> extract_loop te m2 params1 u t1))
                     | Some (value, u1) \<Rightarrow>
                         if length value < 256 \<and> mcp_template_validate_param te (Some value) (Some v)
                         then (case set_param params name (param_value_node te m1 (pv_type v) value) of
                                 (None, _) \<Rightarrow> None
                               | (Some params1, m2) \<Rightarrow> extract_loop te m2 params1 u1 t1)
                         else None))
      else if u \<noteq> [] \<and> hd u = c then extract_loop te m params (tl u) t else None)"
  by pat_completeness auto
termination
  by (relation "measure (\<lambda>(_, _, _, _, t). length t)") (auto dest: placeholder_shorter)

definition mcp_template_extract_params ::
    "template_env \<Rightarrow> mem \<Rightarrow> string option \<Rightarrow> string option \<Rightarrow> double json option" where
  "mcp_template_extract_params te m uri template =
     (case (uri, template) of
        (Some u, Some t) \<Rightarrow>
          (case mcp_json_object_create m of
             (None, _) \<Rightarrow> None
           | (Some params, m1) \<Rightarrow> extract_loop te m1 params u t)
      | _ \<Rightarrow> None)"


section \<open>Templates and their URIs\<close>

text \<open>A placeholder with its specification, the name and the rules this gives, a value, and the text behind it.\<close>

record seg =
  sg_spec :: string
  sg_name :: string
  sg_rules :: mcp_template_param_validation
  sg_value :: string
  sg_static :: string

definition template_of :: "string \<Rightarrow> seg list \<Rightarrow> string" where
  "template_of s0 segs = s0 @ concat (map (\<lambda>x. CHR ''{'' # sg_spec x @ CHR ''}'' # sg_static x) segs)"

definition uri_of :: "string \<Rightarrow> seg list \<Rightarrow> string" where
  "uri_of s0 segs = s0 @ concat (map (\<lambda>x. sg_value x @ sg_static x) segs)"

definition seg_ok :: "template_env \<Rightarrow> seg \<Rightarrow> bool" where
  "seg_ok te x \<longleftrightarrow> CHR ''}'' \<notin> set (sg_spec x) \<and> length (sg_spec x) < 256 \<and>
     mcp_template_parse_param_spec [] (sg_spec x) 128 = (Some (sg_name x, sg_rules x), []) \<and>
     mcp_template_validate_param te (Some (sg_value x)) (Some (sg_rules x)) \<and> length (sg_value x) < 256 \<and>
     c_str_ok (sg_name x) \<and> c_str_ok (sg_value x) \<and> CHR ''{'' \<notin> set (sg_static x) \<and>
     (sg_static x \<noteq> [] \<longrightarrow> hd (sg_static x) \<notin> set (sg_value x))"

text \<open>There is text between any two placeholders.\<close>

fun segs_ok :: "template_env \<Rightarrow> seg list \<Rightarrow> bool" where
  "segs_ok te [] \<longleftrightarrow> True"
| "segs_ok te (x # segs) \<longleftrightarrow> seg_ok te x \<and> (segs \<noteq> [] \<longrightarrow> sg_static x \<noteq> []) \<and> segs_ok te segs"

text \<open>The JSON value of a parameter.\<close>

definition param_json :: "template_env \<Rightarrow> seg \<Rightarrow> double json" where
  "param_json te x = the (fst (param_value_node te [] (pv_type (sg_rules x)) (sg_value x)))"

lemma param_node:
  "param_value_node te [] (pv_type (sg_rules x)) (sg_value x) = (Some (param_json te x), [])"
  by (cases "pv_type (sg_rules x)")
    (simp_all add: param_json_def param_value_node_def mcp_json_number_create_def mcp_json_boolean_create_def
      mcp_json_string_create_def mcp_json_alloc_node_def)

lemma param_json_ok: "c_str_ok (sg_value x) \<Longrightarrow> json_ok (param_json te x)"
  by (cases "pv_type (sg_rules x)")
    (simp_all add: param_json_def param_value_node_def mcp_json_number_create_def mcp_json_boolean_create_def
      mcp_json_string_create_def mcp_json_alloc_node_def)

lemma c_strchr_first:
  assumes "c \<notin> set v"
  shows "c_strchr (v @ c # s) c = Some (v, c # s)"
proof -
  have "takeWhile (\<lambda>x. x \<noteq> c) (v @ c # s) = v" "dropWhile (\<lambda>x. x \<noteq> c) (v @ c # s) = c # s" using assms by (induction v) auto
  then show ?thesis by (simp add: c_strchr_def)
qed

lemma placeholder_first:
  assumes "CHR ''}'' \<notin> set spec" "length spec < 256"
  shows "placeholder (spec @ CHR ''}'' # t) = Some (spec, t)"
  using c_strchr_first [OF assms(1), of t] assms(2) by (simp add: placeholder_def)

lemma seg_split:
  assumes "segs_ok te (x # segs)"
  obtains (last) "segs = []" "sg_static x = []"
  | (more) c s where "sg_static x = c # s" "c \<notin> set (sg_value x)"
  using assms by (cases "sg_static x") (auto simp: seg_ok_def)

subsection \<open>Expansion\<close>

lemma expand_static:
  "CHR ''{'' \<notin> set s \<Longrightarrow> expand_pass te params m t = Done (Some r, m') \<Longrightarrow> expand_pass te params m (s @ t) = Done (Some (s @ r), m')"
  by (induction s) auto

lemma expand_segs:
  assumes "segs_ok te segs" "\<forall>x \<in> set segs. mcp_json_object_get_property params (sg_name x) = Some (JString (sg_value x))"
  shows "expand_pass te params [] (concat (map (\<lambda>x. CHR ''{'' # sg_spec x @ CHR ''}'' # sg_static x) segs)) =
    Done (Some (concat (map (\<lambda>x. sg_value x @ sg_static x) segs)), [])"
  using assms
proof (induction segs)
  case (Cons x segs)
  let ?T = "concat (map (\<lambda>x. CHR ''{'' # sg_spec x @ CHR ''}'' # sg_static x) segs)"
  have ok: "seg_ok te x" using Cons.prems by simp
  have "process_template_param te [] (sg_spec x) params = Done (Some (sg_value x), [])"
    using ok Cons.prems(2) by (simp add: process_template_param_def seg_ok_def)
  moreover have "expand_pass te params [] (sg_static x @ ?T) = Done (Some (sg_static x @ concat (map (\<lambda>x. sg_value x @ sg_static x) segs)), [])"
    using Cons ok by (intro expand_static) (auto simp: seg_ok_def)
  ultimately show ?case using placeholder_first [of "sg_spec x" "sg_static x @ ?T"] ok by (simp add: seg_ok_def)
qed simp

subsection \<open>Matching\<close>

lemma matches_static: "CHR ''{'' \<notin> set s \<Longrightarrow> matches_loop te m (s @ u) (s @ t) = matches_loop te m u t"
  by (induction s) auto

lemma matches_segs:
  assumes "segs_ok te segs"
  shows "matches_loop te [] (concat (map (\<lambda>x. sg_value x @ sg_static x) segs)) (concat (map (\<lambda>x. CHR ''{'' # sg_spec x @ CHR ''}'' # sg_static x) segs))"
  using assms
proof (induction segs)
  case (Cons x segs)
  let ?T = "concat (map (\<lambda>x. CHR ''{'' # sg_spec x @ CHR ''}'' # sg_static x) segs)" and ?U = "concat (map (\<lambda>x. sg_value x @ sg_static x) segs)"
  have ok: "seg_ok te x" using Cons.prems by simp
  have p: "placeholder (sg_spec x @ CHR ''}'' # sg_static x @ ?T) = Some (sg_spec x, sg_static x @ ?T)"
    using ok by (intro placeholder_first) (auto simp: seg_ok_def)
  from Cons.prems show ?case
  proof (cases rule: seg_split)
    case last
    then show ?thesis using p ok by (simp add: seg_ok_def)
  next
    case (more c s)
    have "matches_loop te [] (c # s @ ?U) (c # s @ ?T)"
      using matches_static [of "c # s" te "[]" ?U ?T] Cons ok more(1) by (simp add: seg_ok_def)
    moreover have "c_strchr (sg_value x @ c # s @ ?U) c = Some (sg_value x, c # s @ ?U)" by (rule c_strchr_first [OF more(2)])
    ultimately show ?thesis using p ok more by (simp add: seg_ok_def)
  qed
qed simp

subsection \<open>Extraction\<close>

lemma extract_static: "CHR ''{'' \<notin> set s \<Longrightarrow> extract_loop te m params (s @ u) (s @ t) = extract_loop te m params u t"
  by (induction s) auto

lemma set_param_built:
  assumes "built (Some params, []) es" "c_str_ok name" "json_ok v" "length es < 2 ^ 56"
  shows "\<exists>params'. set_param params name (Some v, []) = (Some params', []) \<and> built (Some params', []) ((name, v) # es)"
proof -
  have "built (add_json_property [] params name (Some v)) ((name, v) # es)" using built_add [OF assms] by (simp add: and_on_def)
  moreover have "add_json_property [] params name (Some v) = set_param params name (Some v, [])"
    by (auto simp: add_json_property_def set_param_def split: prod.splits)
  ultimately show ?thesis by (auto simp: built_def)
qed

definition param_entries :: "template_env \<Rightarrow> seg list \<Rightarrow> (string \<times> double json) list" where
  "param_entries te segs = map (\<lambda>x. (sg_name x, param_json te x)) segs"

lemma extract_segs:
  assumes "segs_ok te segs" "built (Some params, []) es" "length es + length segs < 2 ^ 56"
  shows "\<exists>params'. extract_loop te [] params (concat (map (\<lambda>x. sg_value x @ sg_static x) segs))
      (concat (map (\<lambda>x. CHR ''{'' # sg_spec x @ CHR ''}'' # sg_static x) segs)) = Some params' \<and> built (Some params', []) (rev (param_entries te segs) @ es)"
  using assms
proof (induction segs arbitrary: params es)
  case Nil
  then show ?case by (simp add: param_entries_def)
next
  case (Cons x segs)
  let ?T = "concat (map (\<lambda>x. CHR ''{'' # sg_spec x @ CHR ''}'' # sg_static x) segs)" and ?U = "concat (map (\<lambda>x. sg_value x @ sg_static x) segs)"
  have ok: "seg_ok te x" using Cons.prems by simp
  have p: "placeholder (sg_spec x @ CHR ''}'' # sg_static x @ ?T) = Some (sg_spec x, sg_static x @ ?T)"
    using ok by (intro placeholder_first) (auto simp: seg_ok_def)
  obtain p1 where p1: "set_param params (sg_name x) (Some (param_json te x), []) = (Some p1, [])" "built (Some p1, []) ((sg_name x, param_json te x) # es)"
    using set_param_built [OF Cons.prems(2), of "sg_name x" "param_json te x"] param_json_ok [of x te] ok Cons.prems(3) by (auto simp: seg_ok_def)
  have rest: "\<exists>params'. extract_loop te [] p1 ?U ?T = Some params' \<and> built (Some params', []) (rev (param_entries te segs) @ (sg_name x, param_json te x) # es)"
    using Cons.IH [OF _ p1(2)] Cons.prems by simp
  from Cons.prems(1) show ?case
  proof (cases rule: seg_split)
    case last
    then show ?thesis using p ok p1 rest param_node [of te x] by (auto simp: seg_ok_def param_entries_def)
  next
    case (more c s)
    have "extract_loop te [] p1 (c # s @ ?U) (c # s @ ?T) = extract_loop te [] p1 ?U ?T"
      using extract_static [of "c # s" te "[]" p1 ?U ?T] ok more(1) by (simp add: seg_ok_def)
    moreover have "c_strchr (sg_value x @ c # s @ ?U) c = Some (sg_value x, c # s @ ?U)" by (rule c_strchr_first [OF more(2)])
    ultimately show ?thesis using p ok more p1 rest param_node [of te x] by (auto simp: seg_ok_def param_entries_def)
  qed
qed


lemmas spec_eval = mcp_template_parse_param_spec_def mcp_strdup_def realloc_bytes_def parse_param_rest_def parse_param_type_def
  default_validation_def

lemma built_params:
  assumes "distinct (map sg_name segs)"
  shows "map_of (rev (param_entries te segs)) = map_of (map (\<lambda>x. (sg_name x, param_json te x)) segs)"
proof -
  have "distinct (map fst (param_entries te segs))" using assms by (simp add: param_entries_def o_def)
  then have "map_of (rev (param_entries te segs)) = map_of (param_entries te segs)"
    by (subst map_of_inject_set) (simp_all add: rev_map [symmetric])
  then show ?thesis by (simp add: param_entries_def)
qed

section \<open>Properties\<close>

text \<open>Claim C20.  Expansion, matching and extraction agree when no allocation fails: for a template with text between its
  placeholders and parameters with different names, and an object that gives each parameter a string
  that is valid for it, is shorter than 256 bytes and does not contain the first character of the text
  behind it, \<open>mcp_template_expand\<close> puts the strings into their places, the URI matches the template, and
  \<open>mcp_template_extract_params\<close> returns an object with exactly the parameters of the template and their
  values, converted to their types.  (The object that is extracted need not expand to the URI again:
  its numbers may be written in another way, and its booleans are not written at all.)\<close>

theorem template_roundtrip:
  assumes "segs_ok te segs" and "CHR ''{'' \<notin> set s0" and "distinct (map sg_name segs)" and "length segs < 2 ^ 56"
    and "\<forall>x \<in> set segs. mcp_json_object_get_property (Some (JObject t)) (sg_name x) = Some (JString (sg_value x))"
    and "length (uri_of s0 segs) < 2 ^ 62"
  shows "mcp_template_expand te [] (Some (template_of s0 segs)) (Some (JObject t)) = Done (Some (uri_of s0 segs), []) \<and>
    mcp_template_matches te [] (Some (uri_of s0 segs)) (Some (template_of s0 segs)) \<and>
    (\<exists>j. mcp_template_extract_params te [] (Some (uri_of s0 segs)) (Some (template_of s0 segs)) = Some j \<and>
         (\<forall>x. mcp_json_object_get_property (Some j) x = map_of (map (\<lambda>x. (sg_name x, param_json te x)) segs) x))"
proof (intro conjI)
  have "expand_pass te (Some (JObject t)) [] (template_of s0 segs) = Done (Some (uri_of s0 segs), [])"
    unfolding template_of_def uri_of_def by (intro expand_static [OF assms(2)] expand_segs [OF assms(1,5)])
  then show "mcp_template_expand te [] (Some (template_of s0 segs)) (Some (JObject t)) = Done (Some (uri_of s0 segs), [])"
    using assms(6) by (simp add: mcp_template_expand_def mcp_json_get_type_def realloc_bytes_def)
  show "mcp_template_matches te [] (Some (uri_of s0 segs)) (Some (template_of s0 segs))"
    unfolding mcp_template_matches_def template_of_def uri_of_def using matches_segs [OF assms(1)] by (simp add: matches_static [OF assms(2)])
  obtain p0 where p0: "mcp_json_object_create [] = (Some p0, [])" "built (Some p0, []) []"
    using built_create by (auto simp: built_def)
  have n: "length [] + length segs < 2 ^ 56" using assms(4) by simp
  obtain j where j: "extract_loop te [] p0 (uri_of s0 segs) (template_of s0 segs) = Some j" "built (Some j, []) (rev (param_entries te segs) @ [])"
    using extract_segs [OF assms(1) p0(2) n] unfolding template_of_def uri_of_def by (auto simp: extract_static [OF assms(2)])
  have "mcp_json_object_get_property (Some j) x = map_of (param_entries te segs) x" for x
    using j(2) built_params [OF assms(3), of te] by (auto simp: built_def get_property_map param_entries_def)
  then show "\<exists>j. mcp_template_extract_params te [] (Some (uri_of s0 segs)) (Some (template_of s0 segs)) = Some j \<and>
         (\<forall>x. mcp_json_object_get_property (Some j) x = map_of (map (\<lambda>x. (sg_name x, param_json te x)) segs) x)"
    using j(1) p0(1) by (intro exI [of _ j]) (simp add: mcp_template_extract_params_def param_entries_def)
qed

definition te_example :: template_env where
  "te_example = \<lparr>te_strtof = strtod_int, te_atof = (\<lambda>s. fst (strtod_int s)), te_format_g = (\<lambda>_. [])\<rparr>"

definition city_days :: "seg list" where
  "city_days =
     [\<lparr>sg_spec = ''city'', sg_name = ''city'', sg_rules = default_validation, sg_value = ''Paris'', sg_static = ''/days/''\<rparr>,
      \<lparr>sg_spec = ''n:int'', sg_name = ''n'', sg_rules = default_validation\<lparr>pv_type := MCP_TEMPLATE_PARAM_TYPE_INT,
         pv_range := full_range MCP_TEMPLATE_PARAM_TYPE_INT\<rparr>, sg_value = ''3'', sg_static = []\<rparr>]"

lemma city_days_ok: "segs_ok te_example city_days"
  by (simp add: city_days_def seg_ok_def spec_eval mcp_template_validate_param_def validate_int_def c_strtol_def c_isspace_def is_digit_def
      digits_value_def full_range_def)

theorem template_roundtrip_witness:
  "\<exists>t j. mcp_template_expand te_example [] (Some ''weather://{city}/days/{n:int}'') (Some (JObject t)) = Done (Some ''weather://Paris/days/3'', []) \<and>
     mcp_template_extract_params te_example [] (Some ''weather://Paris/days/3'') (Some ''weather://{city}/days/{n:int}'') = Some j \<and>
     mcp_json_object_get_property (Some j) ''city'' = Some (JString ''Paris'') \<and>
     mcp_json_object_get_property (Some j) ''n'' = Some (JNumber (Finite 3))"
proof -
  have c: "built (and_on (mcp_json_object_create []) (\<lambda>m obj. add_json_property m obj ''city'' (Some (JString ''Paris'')))) [(''city'', JString ''Paris'')]"
    by (rule built_add [OF built_create]) (simp_all add: c_str_ok_def)
  have "built (and_on (and_on (mcp_json_object_create []) (\<lambda>m obj. add_json_property m obj ''city'' (Some (JString ''Paris''))))
      (\<lambda>m obj. add_json_property m obj ''n'' (Some (JString ''3'')))) [(''n'', JString ''3''), (''city'', JString ''Paris'')]"
    by (rule built_add [OF c]) (simp_all add: c_str_ok_def)
  then obtain t where "ht_map json_ops t = map_of [(''n'', JString ''3''), (''city'', JString ''Paris'' :: double json)]" by (auto simp: built_def)
  then have p: "\<forall>x \<in> set city_days. mcp_json_object_get_property (Some (JObject t)) (sg_name x) = Some (JString (sg_value x))"
    by (simp add: get_property_map city_days_def)
  have tu: "template_of ''weather://'' city_days = ''weather://{city}/days/{n:int}''" "uri_of ''weather://'' city_days = ''weather://Paris/days/3''"
    by (simp_all add: template_of_def uri_of_def city_days_def)
  have "distinct (map sg_name city_days)" "length city_days < 2 ^ 56" "length (uri_of ''weather://'' city_days) < 2 ^ 62"
    by (simp_all add: city_days_def uri_of_def)
  from template_roundtrip [OF city_days_ok _ this(1,2) p this(3)] obtain j where
    "mcp_template_expand te_example [] (Some ''weather://{city}/days/{n:int}'') (Some (JObject t)) = Done (Some ''weather://Paris/days/3'', [])"
    "mcp_template_extract_params te_example [] (Some ''weather://Paris/days/3'') (Some ''weather://{city}/days/{n:int}'') = Some j"
    "\<forall>x. mcp_json_object_get_property (Some j) x = map_of (map (\<lambda>x. (sg_name x, param_json te_example x)) city_days) x"
    unfolding tu by auto
  then show ?thesis
    by (intro exI [of _ t] exI [of _ j]) (simp add: city_days_def param_json_def param_value_node_def default_validation_def
      mcp_json_string_create_def mcp_json_number_create_def mcp_json_alloc_node_def c_strtol_def c_isspace_def is_digit_def digits_value_def)
qed

text \<open>A placeholder at the end of a template is matched without looking at its type, but the extraction
  does look: a URI can match a template although its parameters cannot be extracted.\<close>

theorem match_without_parameters:
  "mcp_template_matches te [] (Some ''x:abc'') (Some ''x:{id:int}'') \<and>
   mcp_template_extract_params te [] (Some ''x:abc'') (Some ''x:{id:int}'') = None"
proof -
  have spec: "mcp_template_parse_param_spec [] ''id:int'' 128 = (Some (''id'', default_validation
      \<lparr>pv_type := MCP_TEMPLATE_PARAM_TYPE_INT, pv_range := full_range MCP_TEMPLATE_PARAM_TYPE_INT\<rparr>), [])" by (simp add: spec_eval)
  have p: "placeholder ''id:int}'' = Some (''id:int'', [])" by (simp add: placeholder_def c_strchr_def)
  have "\<not> validate_int ''abc'' r" for r by (simp add: validate_int_def c_strtol_def c_isspace_def is_digit_def)
  then have "extract_loop te [] j ''x:abc'' ''x:{id:int}'' = None" for j
    by (simp add: p spec mcp_template_validate_param_def default_validation_def)
  moreover obtain j :: "double json" where "mcp_json_object_create [] = (Some j, [])" using built_create by (auto simp: built_def)
  ultimately show ?thesis by (simp add: mcp_template_matches_def mcp_template_extract_params_def p spec)
qed

text \<open>The specification \<open>name:type?\<close>, documented as an optional parameter with a type, is a required one.\<close>

theorem typed_optional_is_required:
  "\<exists>v. mcp_template_parse_param_spec [] ''id:int?'' 128 = (Some (''id'', v), []) \<and> pv_type v = MCP_TEMPLATE_PARAM_TYPE_INT \<and> pv_required v"
  by (simp add: spec_eval)

text \<open>The two passes of the expansion can differ: when the copy of a default value fails in the first pass
  only, the second pass writes behind the buffer.\<close>

theorem expand_can_overflow:
  assumes "mcp_json_object_get_property (Some (JObject t)) ''a'' = None"
  shows "mcp_template_expand te [True, False, True] (Some ''{a=xyz}'') (Some (JObject t)) = Undefined"
proof -
  let ?v = "\<lambda>d. default_validation\<lparr>pv_default_value := d, pv_required := False\<rparr>"
  have "mcp_template_parse_param_spec [True, False, True] ''a=xyz'' 128 = (Some (''a'', ?v None), [True])"
    "mcp_template_parse_param_spec [] ''a=xyz'' 128 = (Some (''a'', ?v (Some ''xyz'')), [])" by (simp_all add: spec_eval)
  moreover have "mcp_template_validate_param te (Some s) (Some (?v d))" if "length s < 2 ^ 63" for s d
    using that by (simp add: mcp_template_validate_param_def default_validation_def full_range_def)
  ultimately have "process_template_param te [True, False, True] ''a=xyz'' (Some (JObject t)) = Done (Some [], [True])"
    "process_template_param te [] ''a=xyz'' (Some (JObject t)) = Done (Some ''xyz'', [])"
    using assms by (simp_all add: process_template_param_def)
  moreover have "placeholder ''a=xyz}'' = Some (''a=xyz'', [])" by (simp add: placeholder_def c_strchr_def)
  ultimately show ?thesis by (simp add: mcp_template_expand_def mcp_json_get_type_def realloc_bytes_def)
qed

theorem expand_can_overflow_witness:
  "\<exists>t. mcp_json_object_create [] = (Some (JObject t), []) \<and>
     mcp_template_expand \<lparr>te_strtof = strtod_int, te_atof = (\<lambda>s. fst (strtod_int s)), te_format_g = (\<lambda>_. [])\<rparr> [True, False, True] (Some ''{a=xyz}'') (Some (JObject t)) = Undefined"
proof -
  obtain t :: "(string, double json) mcp_hashtable" where "mcp_json_object_create [] = (Some (JObject t), [])" "ht_map json_ops t = Map.empty"
    using built_create by (auto simp: built_def)
  then show ?thesis using expand_can_overflow [of t] by (auto simp: get_property_map)
qed

end
