(* ===== verification/Mcp_Template_Cache.thy ===== *)
theory Mcp_Template_Cache
  imports Mcp_Template
begin

text \<open>
  The cache of parsed templates, \<open>src/common/mcp_template_optimized.c\<close>: templates are parsed once into
  their static parts and the rules of their parameters, and matched part by part.  The global array is
  the list of its used slots, the most recently used template first.  Entries of the arrays of a parsed
  template that were never written (NULL and zero) are there as \<open>None\<close>, the empty string and \<open>zero_rules\<close>.
\<close>

section \<open>State\<close>

record mcp_cached_template =
  ct_template_uri :: string
  ct_static_parts :: "string list"
  ct_param_names :: "string option list"
  ct_validations :: "mcp_template_param_validation list"

record template_cache =
  tc_templates :: "mcp_cached_template list"
  tc_hits :: size_t
  tc_misses :: size_t
  tc_evictions :: size_t
  tc_total_lookups :: size_t

definition MAX_CACHED_TEMPLATES :: nat where
  "MAX_CACHED_TEMPLATES = 128"

definition mcp_template_cache_init :: template_cache where
  "mcp_template_cache_init = \<lparr>tc_templates = [], tc_hits = 0, tc_misses = 0, tc_evictions = 0, tc_total_lookups = 0\<rparr>"

definition zero_rules :: mcp_template_param_validation where
  "zero_rules = \<lparr>pv_type = MCP_TEMPLATE_PARAM_TYPE_STRING, pv_required = False, pv_default_value = None, pv_pattern = None,
     pv_range = StringRange 0 0\<rparr>"

section \<open>Parsing\<close>

text \<open>The parts found in front of the rest of the template; \<open>part\<close> is the static part that is being read.\<close>

function parse_parts ::
    "mem \<Rightarrow> string \<Rightarrow> string \<Rightarrow> (string list \<times> string list \<times> mcp_template_param_validation list) option \<times> mem" where
  "parse_parts m part [] = (case mcp_strdup m (Some part) of (None, m1) \<Rightarrow> (None, m1) | (Some s, m1) \<Rightarrow> (Some ([s], [], []), m1))"
| "parse_parts m part (c # p) =
     (if c \<noteq> CHR ''{'' then parse_parts m (part @ [c]) p
      else case realloc_bytes m (length part + 1) of
             (False, m1) \<Rightarrow> (None, m1)
           | (True, m1) \<Rightarrow>
               (case placeholder p of
                  None \<Rightarrow> (None, m1)
                | Some (spec, p1) \<Rightarrow>
                    (case mcp_template_parse_param_spec m1 spec 128 of
                       (None, m2) \<Rightarrow> (None, m2)
                     | (Some (name, v), m2) \<Rightarrow>
                         (case mcp_strdup m2 (Some name) of
                            (None, m3) \<Rightarrow> (None, m3)
                          | (Some n, m3) \<Rightarrow>
                              (case parse_parts m3 [] p1 of
                                 (None, m4) \<Rightarrow> (None, m4)
                               | (Some (parts, names, rules), m4) \<Rightarrow> (Some (part # parts, n # names, v # rules), m4))))))"
  by pat_completeness auto
termination
  by (relation "measure (\<lambda>(_, _, p). length p)") (auto dest: placeholder_shorter)

fun allocs :: "nat \<Rightarrow> mem \<Rightarrow> bool \<times> mem" where
  "allocs 0 m = (True, m)"
| "allocs (Suc n) m = (let (ok1, m1) = mem_alloc m; (ok2, m2) = allocs n m1 in (ok1 \<and> ok2, m2))"

definition parse_template :: "mem \<Rightarrow> string \<Rightarrow> mcp_cached_template option \<times> mem" where
  "parse_template m template_uri =
     (let (ok1, m1) = mem_alloc m in if \<not> ok1 then (None, m1)
      else case mcp_strdup m1 (Some template_uri) of
             (None, m2) \<Rightarrow> (None, m2)
           | (Some uri, m2) \<Rightarrow>
               (let param_count = length (filter (\<lambda>c. c = CHR ''{'') template_uri);
                    (ok3, m3) = allocs 4 m2
                in if \<not> ok3 then (None, m3)
                   else case parse_parts m3 [] template_uri of
                          (None, m4) \<Rightarrow> (None, m4)
                        | (Some (parts, names, rules), m4) \<Rightarrow>
                            (let missing = param_count - length names
                             in (Some \<lparr>ct_template_uri = uri, ct_static_parts = parts @ replicate missing [],
                                   ct_param_names = map (\<lambda>n. Some n) names @ replicate missing None,
                                   ct_validations = rules @ replicate missing zero_rules\<rparr>, m4))))"

section \<open>The cache\<close>

definition mcp_template_cache_move_to_front :: "nat \<Rightarrow> mcp_cached_template list \<Rightarrow> mcp_cached_template list" where
  "mcp_template_cache_move_to_front index ts =
     (if index = 0 \<or> index \<ge> length ts then ts else ts ! index # take index ts @ drop (Suc index) ts)"

fun index_of :: "string \<Rightarrow> mcp_cached_template list \<Rightarrow> nat option" where
  "index_of uri [] = None"
| "index_of uri (t # ts) = (if ct_template_uri t = uri then Some 0 else map_option Suc (index_of uri ts))"

definition mcp_template_cache_find :: "string \<Rightarrow> template_cache \<Rightarrow> mcp_cached_template option \<times> template_cache" where
  "mcp_template_cache_find template_uri c =
     (let c1 = c\<lparr>tc_total_lookups := tc_total_lookups c + 1\<rparr>
      in case index_of template_uri (tc_templates c) of
           None \<Rightarrow> (None, c1\<lparr>tc_misses := tc_misses c1 + 1\<rparr>)
         | Some i \<Rightarrow>
             (let ts = mcp_template_cache_move_to_front i (tc_templates c)
              in (Some (hd ts), c1\<lparr>tc_templates := ts, tc_hits := tc_hits c1 + 1\<rparr>)))"

definition mcp_template_cache_add :: "mem \<Rightarrow> string \<Rightarrow> template_cache \<Rightarrow> mcp_cached_template option \<times> template_cache \<times> mem" where
  "mcp_template_cache_add m template_uri c =
     (case mcp_template_cache_find template_uri c of
        (Some existing, c1) \<Rightarrow> (Some existing, c1, m)
      | (None, c1) \<Rightarrow>
          (let c2 = (if length (tc_templates c1) \<ge> MAX_CACHED_TEMPLATES
                     then c1\<lparr>tc_templates := butlast (tc_templates c1), tc_evictions := tc_evictions c1 + 1\<rparr> else c1)
           in case parse_template m template_uri of
                (None, m1) \<Rightarrow> (None, c2, m1)
              | (Some cached, m1) \<Rightarrow> (Some cached, c2\<lparr>tc_templates := cached # tc_templates c2\<rparr>, m1)))"

text \<open>The lookup at the start of both functions below.\<close>

definition cached_template :: "mem \<Rightarrow> string \<Rightarrow> template_cache \<Rightarrow> mcp_cached_template option \<times> template_cache \<times> mem" where
  "cached_template m template_uri c =
     (case mcp_template_cache_find template_uri c of
        (Some cached, c1) \<Rightarrow> (Some cached, c1, m)
      | (None, c1) \<Rightarrow> mcp_template_cache_add m template_uri c1)"

definition mcp_template_cache_get_stats :: "template_cache \<Rightarrow> size_t \<times> size_t \<times> size_t \<times> size_t \<times> nat \<times> nat" where
  "mcp_template_cache_get_stats c =
     (tc_hits c, tc_misses c, tc_evictions c, tc_total_lookups c, length (tc_templates c), MAX_CACHED_TEMPLATES)"

definition mcp_template_cache_cleanup :: "template_cache \<Rightarrow> template_cache" where
  "mcp_template_cache_cleanup c =
     c\<lparr>tc_templates := [], tc_hits := 0, tc_misses := 0, tc_evictions := 0, tc_total_lookups := 0\<rparr>"

section \<open>Matching\<close>

fun c_strstr :: "string \<Rightarrow> string \<Rightarrow> (string \<times> string) option" where
  "c_strstr s [] = (if s = [] then Some ([], []) else None)"
| "c_strstr s (c # u) = (if take (length s) (c # u) = s then Some ([], c # u) else map_option (\<lambda>(a, b). (c # a, b)) (c_strstr s u))"

definition find_next_static_part :: "string \<Rightarrow> string \<Rightarrow> (string \<times> string) option" where
  "find_next_static_part uri static_part = (if static_part = [] then Some (uri, []) else c_strstr static_part uri)"

definition validate_param_value :: "template_env \<Rightarrow> string \<Rightarrow> mcp_template_param_validation \<Rightarrow> bool" where
  "validate_param_value te value v = (if value = [] then \<not> pv_required v else mcp_template_validate_param te (Some value) (Some v))"

fun match_params :: "template_env \<Rightarrow> (mcp_template_param_validation \<times> string) list \<Rightarrow> string \<Rightarrow> bool" where
  "match_params te [] u = (u = [])"
| "match_params te ((v, next_static) # ps) u =
     (case find_next_static_part u next_static of
        None \<Rightarrow> \<not> pv_required v \<and> match_params te ps u
      | Some (value, u1) \<Rightarrow>
          length value < 256 \<and> validate_param_value te value v \<and> match_params te ps (drop (length next_static) u1))"

definition mcp_template_matches_optimized ::
    "template_env \<Rightarrow> mem \<Rightarrow> string option \<Rightarrow> string option \<Rightarrow> template_cache \<Rightarrow> bool \<times> template_cache" where
  "mcp_template_matches_optimized te m uri template c =
     (case (uri, template) of
        (Some u, Some t) \<Rightarrow>
          (case cached_template m t c of
             (None, c1, m1) \<Rightarrow> (mcp_template_matches te m1 uri template, c1)
           | (Some ct, c1, m1) \<Rightarrow>
               (let part0 = hd (ct_static_parts ct)
                in (take (length part0) u = part0 \<and>
                    match_params te (zip (ct_validations ct) (tl (ct_static_parts ct))) (drop (length part0) u), c1)))
      | _ \<Rightarrow> (False, c))"

section \<open>Extraction\<close>

definition default_node :: "template_env \<Rightarrow> mem \<Rightarrow> mcp_template_param_validation \<Rightarrow> double json option \<times> mem" where
  "default_node te m v =
     (case pv_default_value v of
        None \<Rightarrow> mcp_json_string_create m (Some [])
      | Some d \<Rightarrow>
          (case pv_type v of
             MCP_TEMPLATE_PARAM_TYPE_INT \<Rightarrow> mcp_json_number_create m (Finite (of_int (sint (of_int (fst (c_strtol d)) :: 32 word))))
           | MCP_TEMPLATE_PARAM_TYPE_FLOAT \<Rightarrow> mcp_json_number_create m (te_atof te d)
           | MCP_TEMPLATE_PARAM_TYPE_BOOL \<Rightarrow> mcp_json_boolean_create m (d = ''true'' \<or> d = ''1'')
           | _ \<Rightarrow> mcp_json_string_create m (Some d)))"


text \<open>The result of \<open>mcp_json_object_set_property\<close> is not looked at.\<close>

definition set_ignoring :: "double json \<Rightarrow> string option \<Rightarrow> double json option \<times> mem \<Rightarrow> double json \<times> mem" where
  "set_ignoring params name r =
     (case (name, r) of
        (Some n, Some v, m1) \<Rightarrow>
          (case mcp_json_object_set_property m1 (Some params) n (Some v) of
             (_, j, m2) \<Rightarrow> (case j of None \<Rightarrow> params | Some params1 \<Rightarrow> params1, m2))
      | (_, _, m1) \<Rightarrow> (params, m1))"

definition value_accepted :: "template_env \<Rightarrow> string \<Rightarrow> mcp_template_param_validation \<Rightarrow> bool" where
  "value_accepted te value v =
     (case pv_type v of
        MCP_TEMPLATE_PARAM_TYPE_INT \<Rightarrow> validate_int value (pv_range v)
      | MCP_TEMPLATE_PARAM_TYPE_FLOAT \<Rightarrow> snd (te_strtof te value) \<noteq> value \<and> validate_float te value
      | MCP_TEMPLATE_PARAM_TYPE_BOOL \<Rightarrow> value = ''true'' \<or> value = ''false'' \<or> value = ''1'' \<or> value = ''0''
      | _ \<Rightarrow> validate_param_value te value v)"

fun extract_cached ::
    "template_env \<Rightarrow> mem \<Rightarrow> double json \<Rightarrow> (string option \<times> mcp_template_param_validation \<times> string) list \<Rightarrow> string \<Rightarrow> double json option" where
  "extract_cached te m params [] u = (if u = [] then Some params else None)"
| "extract_cached te m params ((name, v, next_static) # ps) u =
     (case find_next_static_part u next_static of
        None \<Rightarrow>
          if pv_required v then None
          else (case set_ignoring params name (default_node te m v) of (params1, m1) \<Rightarrow> extract_cached te m1 params1 ps u)
      | Some (value, u1) \<Rightarrow>
          if length value < 256 \<and> value_accepted te value v
          then (case param_value_node te m (pv_type v) value of
                  (None, _) \<Rightarrow> None
                | (Some node, m1) \<Rightarrow>
                    (case set_ignoring params name (Some node, m1) of
                       (params1, m2) \<Rightarrow> extract_cached te m2 params1 ps (drop (length next_static) u1)))
          else None)"

definition mcp_template_extract_params_optimized ::
    "template_env \<Rightarrow> mem \<Rightarrow> string option \<Rightarrow> string option \<Rightarrow> template_cache \<Rightarrow> double json option \<times> template_cache" where
  "mcp_template_extract_params_optimized te m uri template c =
     (case (uri, template) of
        (Some u, Some t) \<Rightarrow>
          (case cached_template m t c of
             (None, c1, m1) \<Rightarrow> (mcp_template_extract_params te m1 uri template, c1)
           | (Some ct, c1, m1) \<Rightarrow>
               (case mcp_json_object_create m1 of
                  (None, _) \<Rightarrow> (None, c1)
                | (Some params, m2) \<Rightarrow>
                    (let part0 = hd (ct_static_parts ct)
                     in if take (length part0) u = part0
                        then (extract_cached te m2 params (zip (ct_param_names ct) (zip (ct_validations ct) (tl (ct_static_parts ct))))
                                (drop (length part0) u), c1)
                        else (None, c1))))
      | _ \<Rightarrow> (None, c))"

section \<open>The invariant of the cache\<close>

text \<open>Every entry is the parse of its template, and no template is there twice.\<close>

definition cache_inv :: "template_cache \<Rightarrow> bool" where
  "cache_inv c \<longleftrightarrow> length (tc_templates c) \<le> MAX_CACHED_TEMPLATES \<and> distinct (map ct_template_uri (tc_templates c)) \<and>
     (\<forall>t \<in> set (tc_templates c). parse_template [] (ct_template_uri t) = (Some t, []))"

lemma index_of_Some: "index_of uri ts = Some i \<Longrightarrow> i < length ts \<and> ct_template_uri (ts ! i) = uri"
  by (induction ts arbitrary: i) (auto split: if_splits simp: less_Suc_eq_0_disj)

lemma index_of_None: "index_of uri ts = None \<longleftrightarrow> uri \<notin> ct_template_uri ` set ts"
  by (induction ts) auto

lemma move_to_front_spec:
  assumes "i < length ts"
  shows "hd (mcp_template_cache_move_to_front i ts) = ts ! i" "mset (mcp_template_cache_move_to_front i ts) = mset ts"
proof -
  have ts: "ts = take i ts @ ts ! i # drop (Suc i) ts" using assms by (rule id_take_nth_drop)
  then have "mset ts = add_mset (ts ! i) (mset (take i ts @ drop (Suc i) ts))" by (metis mset.simps(2) mset_append union_mset_add_mset_right)
  then show "mset (mcp_template_cache_move_to_front i ts) = mset ts" by (simp add: mcp_template_cache_move_to_front_def)
  show "hd (mcp_template_cache_move_to_front i ts) = ts ! i" using assms by (cases ts) (auto simp: mcp_template_cache_move_to_front_def)
qed

lemma find_cases:
  assumes inv: "cache_inv c" and f: "mcp_template_cache_find uri c = (r, c1)"
  shows "cache_inv c1" "length (tc_templates c1) = length (tc_templates c)" "case r of None \<Rightarrow> tc_templates c1 = tc_templates c \<and> uri \<notin> ct_template_uri ` set (tc_templates c)
    | Some t \<Rightarrow> parse_template [] uri = (Some t, [])"
proof -
  have "cache_inv c1 \<and> length (tc_templates c1) = length (tc_templates c) \<and>
    (case r of None \<Rightarrow> tc_templates c1 = tc_templates c \<and> uri \<notin> ct_template_uri ` set (tc_templates c)
     | Some t \<Rightarrow> parse_template [] uri = (Some t, []))"
  proof (cases "index_of uri (tc_templates c)")
    case None
    then have "r = None" "tc_templates c1 = tc_templates c" using f by (auto simp: mcp_template_cache_find_def Let_def)
    then show ?thesis using inv None by (auto simp: cache_inv_def index_of_None)
  next
    case (Some i)
    let ?ts = "mcp_template_cache_move_to_front i (tc_templates c)"
    have i: "i < length (tc_templates c)" "ct_template_uri (tc_templates c ! i) = uri" using index_of_Some [OF Some] by auto
    note m = move_to_front_spec [OF i(1)]
    have r: "r = Some (tc_templates c ! i)" "tc_templates c1 = ?ts" using f Some m(1) by (auto simp: mcp_template_cache_find_def Let_def)
    have "set ?ts = set (tc_templates c)" "length ?ts = length (tc_templates c)" using m(2) by (metis set_mset_mset, metis size_mset)
    moreover have "distinct (map ct_template_uri ?ts)"
      using m(2) inv by (metis cache_inv_def mset_eq_imp_distinct_iff mset_map)
    moreover have "tc_templates c ! i \<in> set (tc_templates c)" using i(1) by (rule nth_mem)
    ultimately show ?thesis using r inv i(2) by (auto simp: cache_inv_def)
  qed
  then show "cache_inv c1" "length (tc_templates c1) = length (tc_templates c)" "case r of None \<Rightarrow> tc_templates c1 = tc_templates c \<and> uri \<notin> ct_template_uri ` set (tc_templates c)
    | Some t \<Rightarrow> parse_template [] uri = (Some t, [])" by blast+
qed

lemma parse_template_uri: "parse_template m uri = (Some t, m') \<Longrightarrow> ct_template_uri t = uri"
  by (auto simp: parse_template_def Let_def mcp_strdup_def split: prod.splits if_splits option.splits)

lemma add_cases:
  assumes inv: "cache_inv c" and parsed: "parse_template [] uri = (Some t, [])" and a: "mcp_template_cache_add [] uri c = (r, c1, m)"
  shows "r = Some t \<and> m = [] \<and> cache_inv c1"
proof -
  obtain q c0 where f: "mcp_template_cache_find uri c = (q, c0)" by fastforce
  note fc = find_cases [OF inv f]
  show ?thesis
  proof (cases q)
    case (Some x)
    then show ?thesis using fc a f parsed by (auto simp: mcp_template_cache_add_def)
  next
    case None
    let ?c2 = "if length (tc_templates c0) \<ge> MAX_CACHED_TEMPLATES
                     then c0\<lparr>tc_templates := butlast (tc_templates c0), tc_evictions := tc_evictions c0 + 1\<rparr> else c0"
    have r: "r = Some t" "m = []" "c1 = ?c2\<lparr>tc_templates := t # tc_templates ?c2\<rparr>"
      using a f None parsed by (simp_all add: mcp_template_cache_add_def Let_def)
    have sub: "set (tc_templates ?c2) \<subseteq> set (tc_templates c0)" by (auto dest: in_set_butlastD)
    have uri: "ct_template_uri t = uri" using parsed by (rule parse_template_uri)
    have "distinct (map ct_template_uri (tc_templates ?c2))" using fc(1) by (simp add: cache_inv_def map_butlast distinct_butlast)
    moreover have "uri \<notin> ct_template_uri ` set (tc_templates ?c2)" using fc(3) None sub by auto
    moreover have "length (tc_templates ?c2) < MAX_CACHED_TEMPLATES" using fc(1) by (auto simp: cache_inv_def MAX_CACHED_TEMPLATES_def)
    moreover have "\<forall>x \<in> set (tc_templates ?c2). parse_template [] (ct_template_uri x) = (Some x, [])" using fc(1) sub by (auto simp: cache_inv_def)
    ultimately show ?thesis using r parsed uri by (simp add: cache_inv_def)
  qed
qed

lemma cached_ok:
  assumes inv: "cache_inv c" and parsed: "parse_template [] uri = (Some t, [])"
  shows "\<exists>c1. cached_template [] uri c = (Some t, c1, []) \<and> cache_inv c1"
proof -
  obtain q c0 where f: "mcp_template_cache_find uri c = (q, c0)" by fastforce
  note fc = find_cases [OF inv f]
  obtain r c1 m where a: "mcp_template_cache_add [] uri c0 = (r, c1, m)" by (metis prod_cases3)
  show ?thesis using fc f a add_cases [OF fc(1) parsed a] parsed by (cases q) (auto simp: cached_template_def)
qed


section \<open>Templates and their URIs\<close>

abbreviation template_tail :: "seg list \<Rightarrow> string" where
  "template_tail segs \<equiv> concat (map (\<lambda>x. CHR ''{'' # sg_spec x @ CHR ''}'' # sg_static x) segs)"

abbreviation uri_tail :: "seg list \<Rightarrow> string" where
  "uri_tail segs \<equiv> concat (map (\<lambda>x. sg_value x @ sg_static x) segs)"

lemma parse_static: "CHR ''{'' \<notin> set s \<Longrightarrow> parse_parts m part (s @ t) = parse_parts m (part @ s) t"
  by (induction s arbitrary: part) auto

lemma spec_name_short:
  assumes "mcp_template_parse_param_spec m spec 128 = (Some (name, v), m')"
  shows "length name < 2 ^ 60"
proof -
  have "name = take 127 (takeWhile (\<lambda>c. c \<notin> set '':=?'') spec)"
    using assms by (auto simp: mcp_template_parse_param_spec_def mcp_strdup_def Let_def split: prod.splits if_splits option.splits)
  then show ?thesis by simp
qed

lemma parse_segs:
  assumes "segs_ok te segs" "length part + length (template_tail segs) < 2 ^ 60"
  shows "parse_parts [] part (template_tail segs) = (Some (part # map sg_static segs, map sg_name segs, map sg_rules segs), [])"
  using assms
proof (induction segs arbitrary: part)
  case Nil
  then show ?case by (simp add: dup_no_failure)
next
  case (Cons x segs)
  have ok: "seg_ok te x" using Cons.prems by simp
  have p: "placeholder (sg_spec x @ CHR ''}'' # sg_static x @ template_tail segs) = Some (sg_spec x, sg_static x @ template_tail segs)"
    using ok by (intro placeholder_first) (auto simp: seg_ok_def)
  have sp: "mcp_template_parse_param_spec [] (sg_spec x) 128 = (Some (sg_name x, sg_rules x), [])" using ok by (simp add: seg_ok_def)
  have st: "parse_parts [] [] (sg_static x @ template_tail segs) = parse_parts [] (sg_static x) (template_tail segs)"
    using ok parse_static [of "sg_static x" "[]" "[]"] by (simp add: seg_ok_def)
  have "parse_parts [] (sg_static x) (template_tail segs) = (Some (sg_static x # map sg_static segs, map sg_name segs, map sg_rules segs), [])"
    using Cons by simp
  then show ?case using p sp st dup_no_failure [OF spec_name_short [OF sp]] Cons.prems(2) by (simp add: realloc_bytes_def)
qed

lemma count_braces:
  assumes "segs_ok te segs" "\<forall>x \<in> set segs. CHR ''{'' \<notin> set (sg_spec x)" "CHR ''{'' \<notin> set s0"
  shows "length (filter (\<lambda>c. c = CHR ''{'') (template_of s0 segs)) = length segs"
proof -
  have no: "filter (\<lambda>c. c = CHR ''{'') s = []" if "CHR ''{'' \<notin> set s" for s using that by (auto simp: filter_empty_conv)
  have "length (filter (\<lambda>c. c = CHR ''{'') (template_tail segs)) = length segs"
    using assms(1,2) by (induction segs) (auto simp: no seg_ok_def)
  then show ?thesis using no [OF assms(3)] by (simp add: template_of_def)
qed

definition parsed_segs :: "string \<Rightarrow> seg list \<Rightarrow> mcp_cached_template" where
  "parsed_segs s0 segs = \<lparr>ct_template_uri = template_of s0 segs, ct_static_parts = s0 # map sg_static segs,
     ct_param_names = map (\<lambda>x. Some (sg_name x)) segs, ct_validations = map sg_rules segs\<rparr>"

lemma parse_template_of:
  assumes "segs_ok te segs" "\<forall>x \<in> set segs. CHR ''{'' \<notin> set (sg_spec x)" "CHR ''{'' \<notin> set s0" "length (template_of s0 segs) < 2 ^ 60"
  shows "parse_template [] (template_of s0 segs) = (Some (parsed_segs s0 segs), [])"
proof -
  have "parse_parts [] [] (template_of s0 segs) = parse_parts [] s0 (template_tail segs)"
    unfolding template_of_def using parse_static [OF assms(3), of "[]" "[]"] by simp
  also have "\<dots> = (Some (s0 # map sg_static segs, map sg_name segs, map sg_rules segs), [])"
    using assms(4) by (intro parse_segs [OF assms(1)]) (simp add: template_of_def)
  finally show ?thesis
    using dup_no_failure [OF assms(4)] count_braces [OF assms(1-3)]
    by (simp add: parse_template_def parsed_segs_def Let_def numeral_eq_Suc)
qed

lemma strstr_first:
  assumes "s \<noteq> []" "hd s \<notin> set v"
  shows "c_strstr s (v @ s @ u) = Some (v, s @ u)"
  using assms(2)
proof (induction v)
  case Nil
  then show ?case using assms(1) by (cases s) auto
next
  case (Cons c v)
  have "take (length s) (c # v @ s @ u) \<noteq> s" using Cons.prems assms(1) by (cases s) auto
  then show ?case using Cons by simp
qed

lemma find_static:
  assumes "segs_ok te (x # segs)"
  shows "\<exists>u1. find_next_static_part (sg_value x @ sg_static x @ uri_tail segs) (sg_static x) = Some (sg_value x, u1) \<and>
    drop (length (sg_static x)) u1 = uri_tail segs"
  using assms
proof (cases rule: seg_split)
  case last
  then show ?thesis by (simp add: find_next_static_part_def)
next
  case (more c s)
  have "c_strstr (sg_static x) (sg_value x @ sg_static x @ uri_tail segs) = Some (sg_value x, sg_static x @ uri_tail segs)"
    using more by (intro strstr_first) simp_all
  then show ?thesis using more(1) by (simp add: find_next_static_part_def)
qed

lemma value_ok:
  assumes "seg_ok te x" "sg_value x \<noteq> []"
  shows "validate_param_value te (sg_value x) (sg_rules x)" "value_accepted te (sg_value x) (sg_rules x)"
  using assms by (auto simp: seg_ok_def validate_param_value_def value_accepted_def mcp_template_validate_param_def validate_float_def
      split: mcp_template_param_type.splits prod.splits)

lemma match_segs:
  assumes "segs_ok te segs" "\<forall>x \<in> set segs. sg_value x \<noteq> []"
  shows "match_params te (zip (map sg_rules segs) (map sg_static segs)) (uri_tail segs)"
  using assms
proof (induction segs)
  case (Cons x segs)
  obtain u1 where "find_next_static_part (sg_value x @ sg_static x @ uri_tail segs) (sg_static x) = Some (sg_value x, u1)"
    "drop (length (sg_static x)) u1 = uri_tail segs" using find_static [OF Cons.prems(1)] by blast
  moreover have "length (sg_value x) < 256" "validate_param_value te (sg_value x) (sg_rules x)"
    using Cons.prems value_ok(1) by (auto simp: seg_ok_def)
  ultimately show ?case using Cons by simp
qed simp

lemma set_ignoring_built:
  assumes "built (Some params, []) es" "c_str_ok name" "json_ok v" "length es < 2 ^ 56"
  shows "\<exists>params'. set_ignoring params (Some name) (Some v, []) = (params', []) \<and> built (Some params', []) ((name, v) # es)"
proof -
  obtain p where p: "set_param params name (Some v, []) = (Some p, [])" "built (Some p, []) ((name, v) # es)"
    using set_param_built [OF assms] by blast
  then have "set_ignoring params (Some name) (Some v, []) = (p, [])"
    by (auto simp: set_param_def set_ignoring_def split: prod.splits if_splits)
  with p(2) show ?thesis by blast
qed

lemma extract_cached_segs:
  assumes "segs_ok te segs" "\<forall>x \<in> set segs. sg_value x \<noteq> []" "built (Some params, []) es" "length es + length segs < 2 ^ 56"
  shows "\<exists>params'. extract_cached te [] params (zip (map (\<lambda>x. Some (sg_name x)) segs) (zip (map sg_rules segs) (map sg_static segs))) (uri_tail segs) = Some params' \<and>
    built (Some params', []) (rev (param_entries te segs) @ es)"
  using assms
proof (induction segs arbitrary: params es)
  case Nil
  then show ?case by (simp add: param_entries_def)
next
  case (Cons x segs)
  have ok: "seg_ok te x" using Cons.prems by simp
  obtain u1 where u1: "find_next_static_part (sg_value x @ sg_static x @ uri_tail segs) (sg_static x) = Some (sg_value x, u1)"
    "drop (length (sg_static x)) u1 = uri_tail segs" using find_static [OF Cons.prems(1)] by blast
  obtain p1 where p1: "set_ignoring params (Some (sg_name x)) (Some (param_json te x), []) = (p1, [])"
    "built (Some p1, []) ((sg_name x, param_json te x) # es)"
    using set_ignoring_built [OF Cons.prems(3), of "sg_name x" "param_json te x"] param_json_ok [of x te] ok Cons.prems(4) by (auto simp: seg_ok_def)
  have "\<exists>params'. extract_cached te [] p1 (zip (map (\<lambda>x. Some (sg_name x)) segs) (zip (map sg_rules segs) (map sg_static segs))) (uri_tail segs) = Some params' \<and>
    built (Some params', []) (rev (param_entries te segs) @ (sg_name x, param_json te x) # es)"
    using Cons.IH [OF _ _ p1(2)] Cons.prems by (simp add: o_def)
  moreover have "length (sg_value x) < 256" "value_accepted te (sg_value x) (sg_rules x)"
    using ok value_ok(2) [OF ok] Cons.prems(2) by (auto simp: seg_ok_def)
  ultimately show ?case using u1 p1(1) param_node [of te x] by (simp add: param_entries_def)
qed

lemma optimized_matches:
  assumes "cache_inv c" and "segs_ok te segs" and "CHR ''{'' \<notin> set s0"
    and "\<forall>x \<in> set segs. sg_value x \<noteq> [] \<and> CHR ''{'' \<notin> set (sg_spec x)" and "length (template_of s0 segs) < 2 ^ 60"
  obtains c1 where "cached_template [] (template_of s0 segs) c = (Some (parsed_segs s0 segs), c1, [])" "cache_inv c1"
    "mcp_template_matches_optimized te [] (Some (uri_of s0 segs)) (Some (template_of s0 segs)) c = (True, c1)"
proof -
  have parsed: "parse_template [] (template_of s0 segs) = (Some (parsed_segs s0 segs), [])"
    using assms(4) by (intro parse_template_of [OF assms(2) _ assms(3,5)]) blast
  obtain c1 where c1: "cached_template [] (template_of s0 segs) c = (Some (parsed_segs s0 segs), c1, [])" "cache_inv c1"
    using cached_ok [OF assms(1) parsed] by blast
  have ne: "\<forall>x \<in> set segs. sg_value x \<noteq> []" using assms(4) by blast
  have "mcp_template_matches_optimized te [] (Some (uri_of s0 segs)) (Some (template_of s0 segs)) c = (True, c1)"
    using c1(1) match_segs [OF assms(2) ne] by (simp add: mcp_template_matches_optimized_def parsed_segs_def uri_of_def)
  with c1 show thesis by (rule that)
qed

section \<open>The template cache does not change results\<close>

lemma realloc_nil: "realloc_bytes [] k = (ok, m) \<Longrightarrow> m = []"
  by (auto simp: realloc_bytes_def split: if_splits)

lemma strdup_nil: "mcp_strdup [] s = (r, m) \<Longrightarrow> m = []"
  by (auto simp: mcp_strdup_def Let_def dest!: realloc_nil split: option.splits prod.splits if_splits)

lemma param_spec_nil: "mcp_template_parse_param_spec [] spec n = (r, m) \<Longrightarrow> m = []"
  by (auto simp: mcp_template_parse_param_spec_def parse_param_rest_def parse_param_type_def Let_def dest!: strdup_nil
      split: option.splits prod.splits if_splits)

lemma parse_parts_nil: "parse_parts m0 part p = (r, m) \<Longrightarrow> m0 = [] \<Longrightarrow> m = []"
proof (induction m0 part p arbitrary: r m rule: parse_parts.induct)
  case (1 m0 part)
  then show ?case by (auto dest: strdup_nil split: prod.splits option.splits)
next
  case (2 m0 part c p)
  show ?case
  proof (cases "c = CHR ''{''")
    case False
    then show ?thesis using 2 by simp
  next
    case True
    then obtain ok m1 where a: "realloc_bytes m0 (length part + 1) = (ok, m1)" by fastforce
    then have m1: "m1 = []" using 2(4) by (auto dest: realloc_nil)
    show ?thesis
    proof (cases ok)
      case False
      then show ?thesis using a m1 2(3) True by auto
    next
      case ok: True
      show ?thesis
      proof (cases "placeholder p")
        case None
        then show ?thesis using a m1 2(3) True ok by auto
      next
        case (Some x)
        obtain spec p1 where x: "x = (spec, p1)" by fastforce
        obtain q m2 where s: "mcp_template_parse_param_spec m1 spec 128 = (q, m2)" by fastforce
        then have m2: "m2 = []" using m1 param_spec_nil by blast
        show ?thesis
        proof (cases q)
          case None
          then show ?thesis using a m1 m2 s 2(3) True ok Some x by auto
        next
          case q: (Some nv)
          obtain name v where nv: "nv = (name, v)" by fastforce
          obtain d m3 where d: "mcp_strdup m2 (Some name) = (d, m3)" by fastforce
          then have m3: "m3 = []" using m2 strdup_nil by blast
          obtain e m4 where e: "parse_parts m3 [] p1 = (e, m4)" by fastforce
          have "m4 = []" if "d = Some n" for n
            using 2(2) [OF _ a [symmetric]] True ok Some x s q nv d e m3 that by auto
          then show ?thesis using a m1 m2 m3 s 2(3) True ok Some x q nv d e by (auto split: option.splits prod.splits)
        qed
      qed
    qed
  qed
qed

lemma parse_template_nil: "parse_template [] uri = (r, m) \<Longrightarrow> m = []"
  by (auto simp: parse_template_def Let_def numeral_eq_Suc dest!: strdup_nil parse_parts_nil [OF _ refl] split: prod.splits option.splits if_splits)

lemma cached_parse:
  assumes inv: "cache_inv c"
  shows "\<exists>c1. cached_template [] uri c = (fst (parse_template [] uri), c1, []) \<and> cache_inv c1"
proof (cases "fst (parse_template [] uri)")
  case (Some t)
  then have "parse_template [] uri = (Some t, [])" using parse_template_nil by (metis prod.collapse)
  from cached_ok [OF inv this] Some show ?thesis by simp
next
  case None
  then have p: "parse_template [] uri = (None, [])" using parse_template_nil by (metis prod.collapse)
  obtain q c0 where f: "mcp_template_cache_find uri c = (q, c0)" by fastforce
  note fc = find_cases [OF inv f]
  have q: "q = None" using fc(3) p by (cases q) auto
  obtain q1 c1 where f1: "mcp_template_cache_find uri c0 = (q1, c1)" by fastforce
  note fc1 = find_cases [OF fc(1) f1]
  have q1: "q1 = None" using fc1(3) p by (cases q1) auto
  have "cache_inv (c1\<lparr>tc_templates := butlast (tc_templates c1), tc_evictions := tc_evictions c1 + 1\<rparr>)"
    using fc1(1) by (auto simp: cache_inv_def map_butlast distinct_butlast dest: in_set_butlastD)
  then show ?thesis using fc1(1) f f1 q q1 p by (simp add: cached_template_def mcp_template_cache_add_def Let_def)
qed

lemma init_inv: "cache_inv mcp_template_cache_init"
  by (simp add: cache_inv_def mcp_template_cache_init_def)

text \<open>The results with an empty cache.\<close>

definition template_hit :: "template_env \<Rightarrow> string \<Rightarrow> string \<Rightarrow> bool" where
  "template_hit te uri template = fst (mcp_template_matches_optimized te [] (Some uri) (Some template) mcp_template_cache_init)"

definition template_params :: "template_env \<Rightarrow> string \<Rightarrow> string \<Rightarrow> double json option" where
  "template_params te uri template = fst (mcp_template_extract_params_optimized te [] (Some uri) (Some template) mcp_template_cache_init)"

lemma matches_transparent:
  assumes "cache_inv c"
  shows "\<exists>c1. mcp_template_matches_optimized te [] (Some uri) (Some t) c = (template_hit te uri t, c1) \<and> cache_inv c1"
proof -
  obtain c1 where c1: "cached_template [] t c = (fst (parse_template [] t), c1, [])" "cache_inv c1" using cached_parse [OF assms] by blast
  obtain c2 where c2: "cached_template [] t mcp_template_cache_init = (fst (parse_template [] t), c2, [])" using cached_parse [OF init_inv] by blast
  show ?thesis using c1 c2 by (cases "fst (parse_template [] t)") (auto simp: mcp_template_matches_optimized_def template_hit_def Let_def)
qed

lemma extract_transparent:
  assumes "cache_inv c"
  shows "\<exists>c1. mcp_template_extract_params_optimized te [] (Some uri) (Some t) c = (template_params te uri t, c1) \<and> cache_inv c1"
proof -
  obtain c1 where c1: "cached_template [] t c = (fst (parse_template [] t), c1, [])" "cache_inv c1" using cached_parse [OF assms] by blast
  obtain c2 where c2: "cached_template [] t mcp_template_cache_init = (fst (parse_template [] t), c2, [])" using cached_parse [OF init_inv] by blast
  show ?thesis using c1 c2 by (cases "fst (parse_template [] t)")
    (auto simp: mcp_template_extract_params_optimized_def template_params_def Let_def split: prod.splits option.splits)
qed

lemma optimized_extracts:
  assumes "cache_inv c" and "segs_ok te segs" and "CHR ''{'' \<notin> set s0" and "length segs < 2 ^ 56"
    and "\<forall>x \<in> set segs. sg_value x \<noteq> [] \<and> CHR ''{'' \<notin> set (sg_spec x)" and "length (template_of s0 segs) < 2 ^ 60"
  shows "\<exists>j c1. mcp_template_extract_params_optimized te [] (Some (uri_of s0 segs)) (Some (template_of s0 segs)) c = (Some j, c1) \<and>
    cache_inv c1 \<and> built (Some j, []) (rev (param_entries te segs))"
proof -
  obtain c1 where c1: "cached_template [] (template_of s0 segs) c = (Some (parsed_segs s0 segs), c1, [])" "cache_inv c1"
    using optimized_matches [OF assms(1-3,5,6)] .
  have ne: "\<forall>x \<in> set segs. sg_value x \<noteq> []" using assms(5) by blast
  obtain p0 where p0: "mcp_json_object_create [] = (Some p0, [])" "built (Some p0, []) []" using built_create by (auto simp: built_def)
  have n: "length [] + length segs < 2 ^ 56" using assms(4) by simp
  obtain j where "extract_cached te [] p0 (zip (map (\<lambda>x. Some (sg_name x)) segs) (zip (map sg_rules segs) (map sg_static segs))) (uri_tail segs) = Some j"
    "built (Some j, []) (rev (param_entries te segs) @ [])" using extract_cached_segs [OF assms(2) ne p0(2) n] by blast
  then show ?thesis
    using c1 p0(1) by (simp add: mcp_template_extract_params_optimized_def parsed_segs_def uri_of_def)
qed

section \<open>Properties\<close>

text \<open>Claim C21.  The optimised functions agree with the plain ones on the URIs that are built from a template and valid, non-empty
  values: for a template with text between its placeholders, parameters with different names, specifications
  without an opening brace, and values that are valid, not empty, shorter than 256 bytes and do not contain the first
  character of the text behind them, whatever is in the cache and when no allocation fails, both matchers
  accept the URI, and both extractions return the same parameters; the cache stays well-formed and has at
  most 128 templates.  On other URIs they may differ: see \<open>empty_value_differs\<close> and \<open>wrong_type_differs\<close>.\<close>

theorem optimized_template_agrees:
  assumes "cache_inv c" and "segs_ok te segs" and "CHR ''{'' \<notin> set s0" and "distinct (map sg_name segs)" and "length segs < 2 ^ 56"
    and "\<forall>x \<in> set segs. sg_value x \<noteq> [] \<and> CHR ''{'' \<notin> set (sg_spec x)" and "length (template_of s0 segs) < 2 ^ 60"
  shows "\<exists>c1 c2 j j'. mcp_template_matches te [] (Some (uri_of s0 segs)) (Some (template_of s0 segs)) \<and>
    mcp_template_matches_optimized te [] (Some (uri_of s0 segs)) (Some (template_of s0 segs)) c = (True, c1) \<and> cache_inv c1 \<and>
    mcp_template_extract_params_optimized te [] (Some (uri_of s0 segs)) (Some (template_of s0 segs)) c = (Some j, c2) \<and> cache_inv c2 \<and>
    mcp_template_extract_params te [] (Some (uri_of s0 segs)) (Some (template_of s0 segs)) = Some j' \<and>
    (\<forall>x. mcp_json_object_get_property (Some j) x = mcp_json_object_get_property (Some j') x)"
proof -
  obtain c1 where m: "cache_inv c1" "mcp_template_matches_optimized te [] (Some (uri_of s0 segs)) (Some (template_of s0 segs)) c = (True, c1)"
    using optimized_matches [OF assms(1-3,6,7)] .
  obtain j c2 where j: "mcp_template_extract_params_optimized te [] (Some (uri_of s0 segs)) (Some (template_of s0 segs)) c = (Some j, c2)"
    "cache_inv c2" "built (Some j, []) (rev (param_entries te segs))"
    using optimized_extracts [OF assms(1-3,5-7)] by blast
  have plain: "mcp_template_matches te [] (Some (uri_of s0 segs)) (Some (template_of s0 segs))"
    unfolding mcp_template_matches_def template_of_def uri_of_def using matches_segs [OF assms(2)] by (simp add: matches_static [OF assms(3)])
  obtain p0 where p0: "mcp_json_object_create [] = (Some p0, [])" "built (Some p0, []) []" using built_create by (auto simp: built_def)
  have n: "length [] + length segs < 2 ^ 56" using assms(5) by simp
  obtain j' where j': "extract_loop te [] p0 (uri_tail segs) (template_tail segs) = Some j'" "built (Some j', []) (rev (param_entries te segs) @ [])"
    using extract_segs [OF assms(2) p0(2) n] by blast
  then have "mcp_template_extract_params te [] (Some (uri_of s0 segs)) (Some (template_of s0 segs)) = Some j'"
    using p0(1) by (simp add: mcp_template_extract_params_def template_of_def uri_of_def extract_static [OF assms(3)])
  moreover have "\<forall>x. mcp_json_object_get_property (Some j) x = mcp_json_object_get_property (Some j') x"
    using j(3) j'(2) by (auto simp: built_def get_property_map)
  ultimately show ?thesis using m j(1,2) plain by blast
qed

theorem optimized_template_agrees_witness:
  "\<exists>c1 c2 j j'. mcp_template_matches te_example [] (Some ''weather://Paris/days/3'') (Some ''weather://{city}/days/{n:int}'') \<and>
     mcp_template_matches_optimized te_example [] (Some ''weather://Paris/days/3'') (Some ''weather://{city}/days/{n:int}'') mcp_template_cache_init = (True, c1) \<and>
     mcp_template_extract_params_optimized te_example [] (Some ''weather://Paris/days/3'') (Some ''weather://{city}/days/{n:int}'') mcp_template_cache_init = (Some j, c2) \<and>
     mcp_template_extract_params te_example [] (Some ''weather://Paris/days/3'') (Some ''weather://{city}/days/{n:int}'') = Some j' \<and>
     mcp_json_object_get_property (Some j) ''n'' = mcp_json_object_get_property (Some j') ''n'' \<and> cache_inv c2"
proof -
  have tu: "template_of ''weather://'' city_days = ''weather://{city}/days/{n:int}''" "uri_of ''weather://'' city_days = ''weather://Paris/days/3''"
    by (simp_all add: template_of_def uri_of_def city_days_def)
  have h: "CHR ''{'' \<notin> set ''weather://''" "distinct (map sg_name city_days)" "length city_days < 2 ^ 56"
    "\<forall>x \<in> set city_days. sg_value x \<noteq> [] \<and> CHR ''{'' \<notin> set (sg_spec x)" "length (template_of ''weather://'' city_days) < 2 ^ 60"
    by (simp_all add: city_days_def template_of_def)
  show ?thesis using optimized_template_agrees [OF init_inv city_days_ok h] unfolding tu by blast
qed

text \<open>The two differ on a value of the wrong type behind the last placeholder: the plain version takes it without a look, the
  optimised one validates it.\<close>

theorem wrong_type_differs:
  "mcp_template_matches te [] (Some ''x:abc'') (Some ''x:{a:int}'') \<and>
   \<not> fst (mcp_template_matches_optimized te [] (Some ''x:abc'') (Some ''x:{a:int}'') mcp_template_cache_init)"
proof -
  let ?x = "\<lparr>sg_spec = ''a:int'', sg_name = ''a'', sg_rules = default_validation\<lparr>pv_type := MCP_TEMPLATE_PARAM_TYPE_INT,
      pv_range := full_range MCP_TEMPLATE_PARAM_TYPE_INT\<rparr>, sg_value = ''3'', sg_static = []\<rparr>"
  have ok: "segs_ok te [?x]"
    by (simp add: seg_ok_def spec_eval mcp_template_validate_param_def validate_int_def c_strtol_def c_isspace_def is_digit_def
      digits_value_def full_range_def)
  have p: "placeholder ''a:int}'' = Some (''a:int'', [])" by (simp add: placeholder_def c_strchr_def)
  have spec: "mcp_template_parse_param_spec [] ''a:int'' 128 = (Some (''a'', sg_rules ?x), [])" by (simp add: spec_eval)
  have plain: "mcp_template_matches te [] (Some ''x:abc'') (Some ''x:{a:int}'')" by (simp add: mcp_template_matches_def p spec)
  have "parse_template [] ''x:{a:int}'' = (Some (parsed_segs ''x:'' [?x]), [])"
    using parse_template_of [OF ok, of "''x:''"] by (simp add: template_of_def)
  then obtain c1 where "cached_template [] ''x:{a:int}'' mcp_template_cache_init = (Some (parsed_segs ''x:'' [?x]), c1, [])"
    using cached_ok [OF init_inv] by blast
  then have "\<not> fst (mcp_template_matches_optimized te [] (Some ''x:abc'') (Some ''x:{a:int}'') mcp_template_cache_init)"
    by (simp add: mcp_template_matches_optimized_def parsed_segs_def find_next_static_part_def validate_param_value_def default_validation_def
      mcp_template_validate_param_def validate_int_def c_strtol_def c_isspace_def is_digit_def digits_value_def full_range_def)
  with plain show ?thesis by blast
qed

text \<open>The two differ on empty values: a required parameter with an empty value matches in the plain
  version and not in the optimised one.\<close>

theorem empty_value_differs:
  "mcp_template_matches te [] (Some ''x:/y'') (Some ''x:{a}/y'') \<and>
   \<not> fst (mcp_template_matches_optimized te [] (Some ''x:/y'') (Some ''x:{a}/y'') mcp_template_cache_init)"
proof -
  let ?x = "\<lparr>sg_spec = ''a'', sg_name = ''a'', sg_rules = default_validation, sg_value = [], sg_static = ''/y''\<rparr>"
  have ok: "segs_ok te [?x]" by (simp add: seg_ok_def spec_eval mcp_template_validate_param_def full_range_def)
  have t: "template_of ''x:'' [?x] = ''x:{a}/y''" "uri_of ''x:'' [?x] = ''x:/y''" by (simp_all add: template_of_def uri_of_def)
  have "matches_loop te [] (''x:'' @ ''/y'') (''x:'' @ ''{a}/y'')" using matches_segs [OF ok] matches_static [of "''x:''" te "[]"] by simp
  then have plain: "mcp_template_matches te [] (Some ''x:/y'') (Some ''x:{a}/y'')" by (simp add: mcp_template_matches_def)
  have "parse_template [] ''x:{a}/y'' = (Some (parsed_segs ''x:'' [?x]), [])"
    using parse_template_of [OF ok, of "''x:''"] unfolding t by (simp add: template_of_def)
  then obtain c1 where "cached_template [] ''x:{a}/y'' mcp_template_cache_init = (Some (parsed_segs ''x:'' [?x]), c1, [])"
    using cached_ok [OF init_inv] by blast
  then have "\<not> fst (mcp_template_matches_optimized te [] (Some ''x:/y'') (Some ''x:{a}/y'') mcp_template_cache_init)"
    by (simp add: mcp_template_matches_optimized_def parsed_segs_def find_next_static_part_def validate_param_value_def default_validation_def)
  with plain show ?thesis by blast
qed

end
