(* ===== verification/Mcp_List.thy ===== *)
theory Mcp_List
  imports Mcp_Prelude "HOL-Library.Monad_Syntax"
begin

text \<open>
  The doubly linked list, \<open>src/common/mcp_list.c\<close>, over an explicit heap.

  A heap maps the addresses of the live nodes to their contents; a pointer is an address or NULL
  (\<open>None\<close>).  Reading or writing a node that is not live is undefined in C: the operation is then
  \<open>None\<close>, and the theorems show that this does not happen.  \<open>mcp_list_node_alloc\<close> takes a node from the
  pool or from \<open>malloc\<close>; its result is the argument \<open>alloc\<close> of the operations: NULL, or the address of
  a node that is not live, which may be one that was live before.  The lock is held while the
  structure changes and the operations are modelled as the critical sections they are.  Calls of
  \<open>free_data\<close> are returned as the list of the data they free.
\<close>

section \<open>Nodes and lists\<close>

type_synonym ref = "nat option"

record 'a mcp_list_node =
  n_prev :: ref
  n_next :: ref
  n_data :: "'a option"

type_synonym 'a heap = "nat \<Rightarrow> 'a mcp_list_node option"

record mcp_list =
  l_head :: ref
  l_tail :: ref
  l_size :: size_t

definition set_prev :: "'a heap \<Rightarrow> nat \<Rightarrow> ref \<Rightarrow> 'a heap option" where
  "set_prev h a r = (case h a of None \<Rightarrow> None | Some n \<Rightarrow> Some (h(a \<mapsto> n\<lparr>n_prev := r\<rparr>)))"

definition set_next :: "'a heap \<Rightarrow> nat \<Rightarrow> ref \<Rightarrow> 'a heap option" where
  "set_next h a r = (case h a of None \<Rightarrow> None | Some n \<Rightarrow> Some (h(a \<mapsto> n\<lparr>n_next := r\<rparr>)))"

definition mcp_list_create :: mcp_list where
  "mcp_list_create = \<lparr>l_head = None, l_tail = None, l_size = 0\<rparr>"

section \<open>Operations\<close>

definition mcp_list_push_front ::
    "ref \<Rightarrow> 'a heap \<Rightarrow> mcp_list \<Rightarrow> 'a option \<Rightarrow> (ref \<times> 'a heap \<times> mcp_list) option" where
  "mcp_list_push_front alloc h l d =
     (case alloc of
        None \<Rightarrow> Some (None, h, l)
      | Some node \<Rightarrow>
          do {
            let h1 = h(node \<mapsto> \<lparr>n_prev = None, n_next = l_head l, n_data = d\<rparr>);
            (h2, l1) \<leftarrow> (case l_head l of
                           Some hp \<Rightarrow> do { h2 \<leftarrow> set_prev h1 hp (Some node); Some (h2, l) }
                         | None \<Rightarrow> Some (h1, l\<lparr>l_tail := Some node\<rparr>));
            Some (Some node, h2, l1\<lparr>l_head := Some node, l_size := l_size l1 + 1\<rparr>)
          })"

definition mcp_list_push_back ::
    "ref \<Rightarrow> 'a heap \<Rightarrow> mcp_list \<Rightarrow> 'a option \<Rightarrow> (ref \<times> 'a heap \<times> mcp_list) option" where
  "mcp_list_push_back alloc h l d =
     (case alloc of
        None \<Rightarrow> Some (None, h, l)
      | Some node \<Rightarrow>
          do {
            let h1 = h(node \<mapsto> \<lparr>n_prev = l_tail l, n_next = None, n_data = d\<rparr>);
            (h2, l1) \<leftarrow> (case l_tail l of
                           Some tp \<Rightarrow> do { h2 \<leftarrow> set_next h1 tp (Some node); Some (h2, l) }
                         | None \<Rightarrow> Some (h1, l\<lparr>l_head := Some node\<rparr>));
            Some (Some node, h2, l1\<lparr>l_tail := Some node, l_size := l_size l1 + 1\<rparr>)
          })"

text \<open>\<open>free_data\<close> says whether the callback is given; the result is the returned data, the data freed.\<close>

definition mcp_list_remove ::
    "'a heap \<Rightarrow> mcp_list \<Rightarrow> ref \<Rightarrow> bool \<Rightarrow> ('a option \<times> 'a list \<times> 'a heap \<times> mcp_list) option" where
  "mcp_list_remove h l node free_data =
     (case node of
        None \<Rightarrow> Some (None, [], h, l)
      | Some a \<Rightarrow>
          do {
            n \<leftarrow> h a;
            let d = n_data n;
            (h1, l1) \<leftarrow> (case n_prev n of
                           Some p \<Rightarrow> do { h1 \<leftarrow> set_next h p (n_next n); Some (h1, l) }
                         | None \<Rightarrow> Some (h, l\<lparr>l_head := n_next n\<rparr>));
            n1 \<leftarrow> h1 a;
            (h2, l2) \<leftarrow> (case n_next n1 of
                           Some nx \<Rightarrow> do { h2 \<leftarrow> set_prev h1 nx (n_prev n1); Some (h2, l1) }
                         | None \<Rightarrow> Some (h1, l1\<lparr>l_tail := n_prev n1\<rparr>));
            let l3 = l2\<lparr>l_size := l_size l2 - 1\<rparr>;
            Some (case d of
                    Some x \<Rightarrow> if free_data then (None, [x], h2(a := None), l3)
                              else (Some x, [], h2(a := None), l3)
                  | None \<Rightarrow> (None, [], h2(a := None), l3))
          })"

definition mcp_list_pop_front :: "'a heap \<Rightarrow> mcp_list \<Rightarrow> ('a option \<times> 'a heap \<times> mcp_list) option" where
  "mcp_list_pop_front h l =
     (case l_head l of
        None \<Rightarrow> Some (None, h, l)
      | Some node \<Rightarrow>
          do {
            n \<leftarrow> h node;
            let l1 = l\<lparr>l_head := n_next n\<rparr>;
            (h1, l2) \<leftarrow> (case l_head l1 of
                           Some hp \<Rightarrow> do { h1 \<leftarrow> set_prev h hp None; Some (h1, l1) }
                         | None \<Rightarrow> Some (h, l1\<lparr>l_tail := None\<rparr>));
            Some (n_data n, h1(node := None), l2\<lparr>l_size := l_size l2 - 1\<rparr>)
          })"

definition mcp_list_pop_back :: "'a heap \<Rightarrow> mcp_list \<Rightarrow> ('a option \<times> 'a heap \<times> mcp_list) option" where
  "mcp_list_pop_back h l =
     (case l_tail l of
        None \<Rightarrow> Some (None, h, l)
      | Some node \<Rightarrow>
          do {
            n \<leftarrow> h node;
            let l1 = l\<lparr>l_tail := n_prev n\<rparr>;
            (h1, l2) \<leftarrow> (case l_tail l1 of
                           Some tp \<Rightarrow> do { h1 \<leftarrow> set_next h tp None; Some (h1, l1) }
                         | None \<Rightarrow> Some (h, l1\<lparr>l_head := None\<rparr>));
            Some (n_data n, h1(node := None), l2\<lparr>l_size := l_size l2 - 1\<rparr>)
          })"

definition mcp_list_move_to_front :: "'a heap \<Rightarrow> mcp_list \<Rightarrow> ref \<Rightarrow> ('a heap \<times> mcp_list) option" where
  "mcp_list_move_to_front h l node =
     (case node of
        None \<Rightarrow> Some (h, l)
      | Some a \<Rightarrow>
          if node = l_head l then Some (h, l)
          else do {
            n \<leftarrow> h a;
            h1 \<leftarrow> (case n_prev n of Some p \<Rightarrow> set_next h p (n_next n) | None \<Rightarrow> Some h);
            n1 \<leftarrow> h1 a;
            (h2, l1) \<leftarrow> (case n_next n1 of
                           Some nx \<Rightarrow> do { h2 \<leftarrow> set_prev h1 nx (n_prev n1); Some (h2, l) }
                         | None \<Rightarrow> Some (h1, l\<lparr>l_tail := n_prev n1\<rparr>));
            n2 \<leftarrow> h2 a;
            let h3 = h2(a \<mapsto> n2\<lparr>n_prev := None, n_next := l_head l1\<rparr>);
            (h4, l2) \<leftarrow> (case l_head l1 of
                           Some hp \<Rightarrow> do { h4 \<leftarrow> set_prev h3 hp (Some a); Some (h4, l1) }
                         | None \<Rightarrow> Some (h3, l1\<lparr>l_tail := Some a\<rparr>));
            Some (h4, l2\<lparr>l_head := Some a\<rparr>)
          })"

definition mcp_list_size :: "mcp_list option \<Rightarrow> size_t" where
  "mcp_list_size l = (case l of None \<Rightarrow> 0 | Some l \<Rightarrow> l_size l)"

definition mcp_list_is_empty :: "mcp_list option \<Rightarrow> bool" where
  "mcp_list_is_empty l = (case l of None \<Rightarrow> True | Some l \<Rightarrow> l_size l = 0)"

text \<open>The freeing loop of \<open>mcp_list_clear\<close>: the data freed and the heap left.\<close>

partial_function (option) clear_loop :: "bool \<Rightarrow> 'a heap \<Rightarrow> ref \<Rightarrow> ('a list \<times> 'a heap) option" where
  "clear_loop free_data h nodes_to_free =
     (case nodes_to_free of
        None \<Rightarrow> Some ([], h)
      | Some a \<Rightarrow>
          Option.bind (h a) (\<lambda>n.
            Option.bind (clear_loop free_data (h(a := None)) (n_next n)) (\<lambda>(freed, h').
              Some ((case n_data n of Some d \<Rightarrow> if free_data then [d] else [] | None \<Rightarrow> []) @ freed, h'))))"

definition mcp_list_clear :: "'a heap \<Rightarrow> mcp_list \<Rightarrow> bool \<Rightarrow> ('a list \<times> 'a heap \<times> mcp_list) option" where
  "mcp_list_clear h l free_data =
     do {
       (freed, h') \<leftarrow> clear_loop free_data h (l_head l);
       Some (freed, h', l\<lparr>l_head := None, l_tail := None, l_size := 0\<rparr>)
     }"

definition mcp_list_destroy :: "'a heap \<Rightarrow> mcp_list \<Rightarrow> bool \<Rightarrow> ('a list \<times> 'a heap) option" where
  "mcp_list_destroy h l free_data =
     do { (freed, h', _) \<leftarrow> mcp_list_clear h l free_data; Some (freed, h') }"

definition mcp_list_iterator_begin :: "mcp_list option \<Rightarrow> ref" where
  "mcp_list_iterator_begin l = (case l of None \<Rightarrow> None | Some l \<Rightarrow> l_head l)"

definition mcp_list_iterator_end :: "mcp_list option \<Rightarrow> ref" where
  "mcp_list_iterator_end l = None"

definition mcp_list_iterator_is_valid :: "ref \<Rightarrow> bool" where
  "mcp_list_iterator_is_valid it \<longleftrightarrow> it \<noteq> None"

definition mcp_list_iterator_next :: "'a heap \<Rightarrow> ref \<Rightarrow> ref option" where
  "mcp_list_iterator_next h it = (case it of None \<Rightarrow> Some None | Some a \<Rightarrow> do { n \<leftarrow> h a; Some (n_next n) })"

definition mcp_list_iterator_get_data :: "'a heap \<Rightarrow> ref \<Rightarrow> 'a option option" where
  "mcp_list_iterator_get_data h it = (case it of None \<Rightarrow> Some None | Some a \<Rightarrow> do { n \<leftarrow> h a; Some (n_data n) })"

partial_function (option) find_loop ::
    "('a option \<Rightarrow> 'b \<Rightarrow> int) \<Rightarrow> 'a heap \<Rightarrow> 'b \<Rightarrow> ref \<Rightarrow> ref option" where
  "find_loop compare h d node =
     (case node of
        None \<Rightarrow> Some None
      | Some a \<Rightarrow>
          Option.bind (h a) (\<lambda>n.
            if compare (n_data n) d = 0 then Some (Some a) else find_loop compare h d (n_next n)))"

definition mcp_list_find ::
    "('a option \<Rightarrow> 'b \<Rightarrow> int) \<Rightarrow> 'a heap \<Rightarrow> mcp_list \<Rightarrow> 'b \<Rightarrow> ref option" where
  "mcp_list_find compare h l d = find_loop compare h d (l_head l)"

definition mcp_list_insert_after ::
    "ref \<Rightarrow> 'a heap \<Rightarrow> mcp_list \<Rightarrow> ref \<Rightarrow> 'a option \<Rightarrow> (ref \<times> 'a heap \<times> mcp_list) option" where
  "mcp_list_insert_after alloc h l pos d =
     (case pos of
        None \<Rightarrow> mcp_list_push_front alloc h l d
      | Some p \<Rightarrow>
          if pos = l_tail l then mcp_list_push_back alloc h l d
          else case alloc of
                 None \<Rightarrow> Some (None, h, l)
               | Some node \<Rightarrow>
                   do {
                     np \<leftarrow> h p;
                     let h1 = h(node \<mapsto> \<lparr>n_prev = pos, n_next = n_next np, n_data = d\<rparr>);
                     h2 \<leftarrow> (case n_next np of Some nx \<Rightarrow> set_prev h1 nx (Some node) | None \<Rightarrow> Some h1);
                     h3 \<leftarrow> set_next h2 p (Some node);
                     Some (Some node, h3, l\<lparr>l_size := l_size l + 1\<rparr>)
                   })"


section \<open>What a list represents\<close>

text \<open>
  \<open>chain h p xs n\<close>: the nodes \<open>xs\<close> (addresses with their data) are linked one after the other in
  both directions, the first one pointing back to \<open>p\<close> and the last one forward to \<open>n\<close>.
\<close>

type_synonym 'a cells = "(nat \<times> 'a option) list"

definition first_ref :: "'a cells \<Rightarrow> ref \<Rightarrow> ref" where
  "first_ref xs n = (case xs of [] \<Rightarrow> n | x # _ \<Rightarrow> Some (fst x))"

definition last_ref :: "'a cells \<Rightarrow> ref \<Rightarrow> ref" where
  "last_ref xs p = (if xs = [] then p else Some (fst (last xs)))"

fun chain :: "'a heap \<Rightarrow> ref \<Rightarrow> 'a cells \<Rightarrow> ref \<Rightarrow> bool" where
  "chain h p [] n = True"
| "chain h p ((a, d) # xs) n =
     (h a = Some \<lparr>n_prev = p, n_next = first_ref xs n, n_data = d\<rparr> \<and> chain h (Some a) xs n)"

definition list_rep :: "'a heap \<Rightarrow> mcp_list \<Rightarrow> 'a cells \<Rightarrow> bool" where
  "list_rep h l xs \<longleftrightarrow> chain h None xs None \<and> distinct (map fst xs) \<and>
     l_head l = first_ref xs None \<and> l_tail l = last_ref xs None \<and> l_size l = of_nat (length xs)"

lemma ref_simps [simp]:
  "first_ref [] n = n" "first_ref (x # xs) n = Some (fst x)" "first_ref (xs @ ys) n = first_ref xs (first_ref ys n)"
  "last_ref [] p = p" "last_ref (xs @ [x]) p = Some (fst x)" "last_ref (xs @ ys) p = last_ref ys (last_ref xs p)"
  "last_ref (x # xs) p = last_ref xs (Some (fst x))"
  by (auto simp: first_ref_def last_ref_def split: list.splits)

lemma ref_nonempty:
  "xs \<noteq> [] \<Longrightarrow> first_ref xs n = Some (fst (hd xs))" "xs \<noteq> [] \<Longrightarrow> last_ref xs p = Some (fst (last xs))"
  by (auto simp: first_ref_def last_ref_def split: list.splits)

lemma chain_append: "chain h p (xs @ ys) n \<longleftrightarrow> chain h p xs (first_ref ys n) \<and> chain h (last_ref xs p) ys n"
  by (induction h p xs n rule: chain.induct) auto

lemma chain_cong: "(\<And>a. a \<in> fst ` set xs \<Longrightarrow> h' a = h a) \<Longrightarrow> chain h' p xs n = chain h p xs n"
  by (induction h p xs n rule: chain.induct) auto

lemma chain_live: "chain h p xs n \<Longrightarrow> a \<in> fst ` set xs \<Longrightarrow> h a \<noteq> None"
  by (induction h p xs n rule: chain.induct) auto

lemma chain_set_prev:
  assumes "chain h p xs n" "distinct (map fst xs)" "xs \<noteq> []"
  shows "\<exists>h'. set_prev h (fst (hd xs)) q = Some h' \<and> chain h' q xs n \<and>
              (\<forall>a. a \<noteq> fst (hd xs) \<longrightarrow> h' a = h a)"
proof (cases xs)
  case (Cons x ys)
  obtain a d where x: "x = (a, d)" by fastforce
  have "a \<notin> fst ` set ys" using assms(2) Cons x by simp
  then have "chain (h(a \<mapsto> m)) (Some a) ys n = chain h (Some a) ys n" for m by (intro chain_cong) auto
  then show ?thesis using assms(1) Cons x by (auto simp: set_prev_def)
qed (use assms in simp)

lemma chain_set_next:
  assumes "chain h p xs n" "distinct (map fst xs)" "xs \<noteq> []"
  shows "\<exists>h'. set_next h (fst (last xs)) m = Some h' \<and> chain h' p xs m \<and>
              (\<forall>a. a \<noteq> fst (last xs) \<longrightarrow> h' a = h a)"
proof -
  obtain ys a d where xs: "xs = ys @ [(a, d)]" using assms(3) by (metis append_butlast_last_id surj_pair)
  have "a \<notin> fst ` set ys" using assms(2) xs by simp
  then have "chain (h(a \<mapsto> k)) p ys (Some a) = chain h p ys (Some a)" for k by (intro chain_cong) auto
  then show ?thesis using assms(1) xs by (auto simp: set_next_def chain_append)
qed

text \<open>The nodes of the list are live and a new node is not one of them.\<close>

lemma list_rep_fresh: "list_rep h l xs \<Longrightarrow> h a = None \<Longrightarrow> a \<notin> fst ` set xs"
  using chain_live by (fastforce simp: list_rep_def)

lemma create_rep: "list_rep h mcp_list_create []"
  by (simp add: list_rep_def mcp_list_create_def)

lemma push_front_rep:
  assumes rep: "list_rep h l xs" and fresh: "h a = None"
  shows "\<exists>h' l'. mcp_list_push_front (Some a) h l d = Some (Some a, h', l') \<and> list_rep h' l' ((a, d) # xs) \<and> (\<forall>b. b \<notin> insert a (fst ` set xs) \<longrightarrow> h' b = h b)"
proof -
  let ?h1 = "h(a \<mapsto> \<lparr>n_prev = None, n_next = l_head l, n_data = d\<rparr>)"
  have a: "a \<notin> fst ` set xs" by (rule list_rep_fresh [OF rep fresh])
  have r: "chain h None xs None" "distinct (map fst xs)" "l_head l = first_ref xs None"
    "l_tail l = last_ref xs None" "l_size l = of_nat (length xs)" using rep by (simp_all add: list_rep_def)
  have c1: "chain ?h1 None xs None" using r(1) a by (subst chain_cong [of xs _ h]) auto
  show ?thesis
  proof (cases "xs = []")
    case True
    then show ?thesis using r by (simp add: mcp_list_push_front_def list_rep_def)
  next
    case False
    obtain h2 where h2: "set_prev ?h1 (fst (hd xs)) (Some a) = Some h2" "chain h2 (Some a) xs None"
      "\<forall>b. b \<noteq> fst (hd xs) \<longrightarrow> h2 b = ?h1 b" using chain_set_prev [OF c1 r(2) False] by blast
    have "a \<noteq> fst (hd xs)" using a False by (metis hd_in_set image_eqI)
    then have "h2 a = ?h1 a" using h2(3) by simp
    moreover have "\<forall>b. b \<notin> insert a (fst ` set xs) \<longrightarrow> h2 b = h b"
    proof -
      have "fst (hd xs) \<in> fst ` set xs" using False by simp
      then show ?thesis using h2(3) by (metis fun_upd_apply insertCI)
    qed
    ultimately show ?thesis using h2(1,2) r a False
      by (simp add: mcp_list_push_front_def list_rep_def ref_nonempty)
  qed
qed

lemma push_back_rep:
  assumes rep: "list_rep h l xs" and fresh: "h a = None"
  shows "\<exists>h' l'. mcp_list_push_back (Some a) h l d = Some (Some a, h', l') \<and> list_rep h' l' (xs @ [(a, d)]) \<and> (\<forall>b. b \<notin> insert a (fst ` set xs) \<longrightarrow> h' b = h b)"
proof -
  let ?h1 = "h(a \<mapsto> \<lparr>n_prev = l_tail l, n_next = None, n_data = d\<rparr>)"
  have a: "a \<notin> fst ` set xs" by (rule list_rep_fresh [OF rep fresh])
  have r: "chain h None xs None" "distinct (map fst xs)" "l_head l = first_ref xs None"
    "l_tail l = last_ref xs None" "l_size l = of_nat (length xs)" using rep by (simp_all add: list_rep_def)
  have c1: "chain ?h1 None xs None" using r(1) a by (subst chain_cong [of xs _ h]) auto
  show ?thesis
  proof (cases "xs = []")
    case True
    then show ?thesis using r by (simp add: mcp_list_push_back_def list_rep_def)
  next
    case False
    obtain h2 where h2: "set_next ?h1 (fst (last xs)) (Some a) = Some h2" "chain h2 None xs (Some a)"
      "\<forall>b. b \<noteq> fst (last xs) \<longrightarrow> h2 b = ?h1 b" using chain_set_next [OF c1 r(2) False] by blast
    have "a \<noteq> fst (last xs)" using a False by (metis last_in_set image_eqI)
    then have "h2 a = ?h1 a" using h2(3) by simp
    moreover have "\<forall>b. b \<notin> insert a (fst ` set xs) \<longrightarrow> h2 b = h b"
    proof -
      have "fst (last xs) \<in> fst ` set xs" using False by simp
      then show ?thesis using h2(3) by (metis fun_upd_apply insertCI)
    qed
    ultimately show ?thesis using h2(1,2) r a False
      by (simp add: mcp_list_push_back_def list_rep_def ref_nonempty chain_append)
  qed
qed

text \<open>Taking a node out of the chain: the node before it and the node after it are linked.\<close>

lemma unlink:
  assumes "chain h None (ys @ (a, d) # zs) None" "distinct (map fst (ys @ (a, d) # zs))"
  obtains h1 h2 where
    "(case last_ref ys None of Some p \<Rightarrow> set_next h p (first_ref zs None) | None \<Rightarrow> Some h) = Some h1"
    "h1 a = Some \<lparr>n_prev = last_ref ys None, n_next = first_ref zs None, n_data = d\<rparr>"
    "(case first_ref zs None of Some nx \<Rightarrow> set_prev h1 nx (last_ref ys None) | None \<Rightarrow> Some h1) = Some h2"
    "h2 a = Some \<lparr>n_prev = last_ref ys None, n_next = first_ref zs None, n_data = d\<rparr>"
    "chain h2 None (ys @ zs) None"
    "\<And>b. b \<notin> fst ` set (ys @ zs) \<Longrightarrow> h2 b = h b"
proof -
  have y: "chain h None ys (Some a)" and z: "chain h (Some a) zs None"
    and a: "h a = Some \<lparr>n_prev = last_ref ys None, n_next = first_ref zs None, n_data = d\<rparr>"
    using assms(1) by (auto simp: chain_append)
  have d: "distinct (map fst ys)" "distinct (map fst zs)" "a \<notin> fst ` set ys" "a \<notin> fst ` set zs"
    "fst ` set ys \<inter> fst ` set zs = {}" using assms(2) by auto
  obtain h1 where h1: "(case last_ref ys None of Some p \<Rightarrow> set_next h p (first_ref zs None) | None \<Rightarrow> Some h) = Some h1"
    "chain h1 None ys (first_ref zs None)" "\<And>b. b \<notin> fst ` set ys \<Longrightarrow> h1 b = h b"
  proof (cases "ys = []")
    case False
    obtain h1 where "set_next h (fst (last ys)) (first_ref zs None) = Some h1" "chain h1 None ys (first_ref zs None)"
      "\<forall>b. b \<noteq> fst (last ys) \<longrightarrow> h1 b = h b" using chain_set_next [OF y d(1) False] by blast
    with False show ?thesis by (intro that [of h1]) (auto simp: ref_nonempty)
  qed (use that [of h] in simp)
  have z1: "chain h1 (Some a) zs None"
    using z h1(3) d(5) by (subst chain_cong [of zs _ h]) auto
  obtain h2 where h2: "(case first_ref zs None of Some nx \<Rightarrow> set_prev h1 nx (last_ref ys None) | None \<Rightarrow> Some h1) = Some h2"
    "chain h2 (last_ref ys None) zs None" "\<And>b. b \<notin> fst ` set zs \<Longrightarrow> h2 b = h1 b"
  proof (cases "zs = []")
    case False
    obtain h2 where "set_prev h1 (fst (hd zs)) (last_ref ys None) = Some h2" "chain h2 (last_ref ys None) zs None"
      "\<forall>b. b \<noteq> fst (hd zs) \<longrightarrow> h2 b = h1 b" using chain_set_prev [OF z1 d(2) False] by blast
    with False show ?thesis by (intro that [of h2]) (auto simp: ref_nonempty)
  qed (use that [of h1] in simp)
  have "chain h2 None ys (first_ref zs None)"
    using h1(2) h2(3) d(5) by (subst chain_cong [of ys _ h1]) auto
  with h2 have "chain h2 None (ys @ zs) None" by (simp add: chain_append)
  moreover have "h1 a = h a" "h2 a = h a" using h1(3) h2(3) d(3,4) by auto
  moreover have "h2 b = h b" if "b \<notin> fst ` set (ys @ zs)" for b
    using that h1(3) h2(3) by (auto simp: image_Un)
  ultimately show ?thesis using that h1(1) h2(1) a by metis
qed

lemma remove_rep:
  assumes rep: "list_rep h l (ys @ (a, d) # zs)"
  shows "\<exists>h' l'. mcp_list_remove h l (Some a) free_data
           = Some (if free_data then None else d, if free_data then (case d of None \<Rightarrow> [] | Some x \<Rightarrow> [x]) else [], h', l') \<and>
           list_rep h' l' (ys @ zs) \<and> h' a = None \<and> (\<forall>b. b \<notin> insert a (fst ` set (ys @ zs)) \<longrightarrow> h' b = h b)"
proof -
  have r: "chain h None (ys @ (a, d) # zs) None" "distinct (map fst (ys @ (a, d) # zs))"
    "l_head l = first_ref ys (Some a)" "l_tail l = last_ref zs (Some a)" "l_size l = of_nat (length ys + length zs) + 1"
    using rep by (simp_all add: list_rep_def)
  from unlink [OF r(1,2)] obtain h1 h2 where
    h: "(case last_ref ys None of Some p \<Rightarrow> set_next h p (first_ref zs None) | None \<Rightarrow> Some h) = Some h1"
    "h1 a = Some \<lparr>n_prev = last_ref ys None, n_next = first_ref zs None, n_data = d\<rparr>"
    "(case first_ref zs None of Some nx \<Rightarrow> set_prev h1 nx (last_ref ys None) | None \<Rightarrow> Some h1) = Some h2"
    "chain h2 None (ys @ zs) None" "\<And>b. b \<notin> fst ` set (ys @ zs) \<Longrightarrow> h2 b = h b" by metis
  have ha: "h a = Some \<lparr>n_prev = last_ref ys None, n_next = first_ref zs None, n_data = d\<rparr>"
    using r(1) by (simp add: chain_append)
  have c: "chain (h2(a := None)) None (ys @ zs) None"
    using h(4) r(2) by (subst chain_cong [of "ys @ zs" _ h2]) auto
  have "\<exists>l'. mcp_list_remove h l (Some a) free_data
           = Some (if free_data then None else d, if free_data then (case d of None \<Rightarrow> [] | Some x \<Rightarrow> [x]) else [], h2(a := None), l') \<and>
           l_head l' = first_ref (ys @ zs) None \<and> l_tail l' = last_ref (ys @ zs) None \<and> l_size l' = l_size l - 1"
    using h(1-3) r(3,4)
    by (cases ys rule: rev_cases; cases zs; cases d) (auto simp: mcp_list_remove_def ha)
  moreover have "\<forall>b. b \<notin> insert a (fst ` set (ys @ zs)) \<longrightarrow> (h2(a := None)) b = h b" using h(5) by simp
  ultimately show ?thesis using c r(2,5) unfolding list_rep_def by fastforce
qed

lemma move_to_front_rep:
  assumes rep: "list_rep h l (ys @ (a, d) # zs)"
  shows "\<exists>h' l'. mcp_list_move_to_front h l (Some a) = Some (h', l') \<and> list_rep h' l' ((a, d) # ys @ zs) \<and> (\<forall>b. b \<notin> insert a (fst ` set (ys @ zs)) \<longrightarrow> h' b = h b)"
proof (cases ys)
  case Nil
  then show ?thesis using rep by (simp add: mcp_list_move_to_front_def list_rep_def)
next
  case (Cons y ys')
  have r: "chain h None (ys @ (a, d) # zs) None" "distinct (map fst (ys @ (a, d) # zs))"
    "l_head l = first_ref ys (Some a)" "l_tail l = last_ref zs (Some a)" "l_size l = of_nat (length ys + length zs) + 1"
    using rep by (simp_all add: list_rep_def)
  from unlink [OF r(1,2)] obtain h1 h2 where
    h: "(case last_ref ys None of Some p \<Rightarrow> set_next h p (first_ref zs None) | None \<Rightarrow> Some h) = Some h1"
    "h1 a = Some \<lparr>n_prev = last_ref ys None, n_next = first_ref zs None, n_data = d\<rparr>"
    "(case first_ref zs None of Some nx \<Rightarrow> set_prev h1 nx (last_ref ys None) | None \<Rightarrow> Some h1) = Some h2"
    "h2 a = Some \<lparr>n_prev = last_ref ys None, n_next = first_ref zs None, n_data = d\<rparr>"
    "chain h2 None (ys @ zs) None" "\<And>b. b \<notin> fst ` set (ys @ zs) \<Longrightarrow> h2 b = h b" by metis
  have ha: "h a = Some \<lparr>n_prev = last_ref ys None, n_next = first_ref zs None, n_data = d\<rparr>"
    using r(1) by (simp add: chain_append)
  let ?h3 = "h2(a \<mapsto> \<lparr>n_prev = None, n_next = l_head l, n_data = d\<rparr>)"
  have c3: "chain ?h3 None (ys @ zs) None"
    using h(5) r(2) by (subst chain_cong [of "ys @ zs" _ h2]) auto
  have dist: "distinct (map fst (ys @ zs))" "ys @ zs \<noteq> []" using r(2) Cons by auto
  obtain h4 where h4: "set_prev ?h3 (fst (hd (ys @ zs))) (Some a) = Some h4" "chain h4 (Some a) (ys @ zs) None"
    "\<forall>b. b \<noteq> fst (hd (ys @ zs)) \<longrightarrow> h4 b = ?h3 b" using chain_set_prev [OF c3 dist] by blast
  have ne: "a \<noteq> fst y" using r(2) Cons by auto
  have h4a: "h4 a = ?h3 a" using h4(3) ne Cons by simp
  have "\<exists>l'. mcp_list_move_to_front h l (Some a) = Some (h4, l') \<and> l_head l' = Some a \<and>
          l_tail l' = last_ref (ys @ zs) None \<and> l_size l' = l_size l"
    using h(1,2,3,4) h4(1) r(3,4) ne Cons
    by (cases zs) (auto simp: mcp_list_move_to_front_def ha ref_nonempty cong: option.case_cong)
  moreover have "\<forall>b. b \<notin> insert a (fst ` set (ys @ zs)) \<longrightarrow> h4 b = h b"
    using h4(3) h(6) Cons by (auto simp: image_Un)
  moreover have "chain h4 None ((a, d) # ys @ zs) None"
    using h4(2) h4a r(3) Cons by simp
  moreover have "distinct (map fst ((a, d) # ys @ zs))" using r(2) by auto
  moreover have "last_ref ((a, d) # ys @ zs) None = last_ref (ys @ zs) None" using Cons by simp
  ultimately show ?thesis using r(5) unfolding list_rep_def by fastforce
qed

lemma pop_front_rep:
  assumes rep: "list_rep h l ((a, d) # xs)"
  shows "\<exists>h' l'. mcp_list_pop_front h l = Some (d, h', l') \<and> list_rep h' l' xs \<and> h' a = None \<and> (\<forall>b. b \<notin> insert a (fst ` set xs) \<longrightarrow> h' b = h b)"
proof -
  have r: "chain h None ([] @ (a, d) # xs) None" "distinct (map fst ([] @ (a, d) # xs))"
    "l_head l = Some a" "l_tail l = last_ref xs (Some a)" "l_size l = of_nat (length xs) + 1"
    using rep by (simp_all add: list_rep_def)
  have "\<exists>h2. (case first_ref xs None of Some nx \<Rightarrow> set_prev h nx None | None \<Rightarrow> Some h) = Some h2 \<and> chain h2 None xs None \<and>
           (\<forall>b. b \<notin> fst ` set xs \<longrightarrow> h2 b = h b)"
    by (rule unlink [OF r(1,2)]) (auto cong: option.case_cong)
  then obtain h2 where h2: "(case first_ref xs None of Some nx \<Rightarrow> set_prev h nx None | None \<Rightarrow> Some h) = Some h2" "chain h2 None xs None"
    "\<forall>b. b \<notin> fst ` set xs \<longrightarrow> h2 b = h b" by blast
  have c: "chain (h2(a := None)) None xs None"
    using h2(2) r(2) by (subst chain_cong [of xs _ h2]) auto
  have "\<exists>l'. mcp_list_pop_front h l = Some (d, h2(a := None), l') \<and> l_head l' = first_ref xs None \<and>
          l_tail l' = last_ref xs None \<and> l_size l' = l_size l - 1"
    using h2(1) r(1,3,4) by (cases xs) (auto simp: mcp_list_pop_front_def)
  moreover have "\<forall>b. b \<notin> insert a (fst ` set xs) \<longrightarrow> (h2(a := None)) b = h b" using h2(3) by simp
  ultimately show ?thesis using c r(2,5) unfolding list_rep_def by fastforce
qed

lemma pop_back_rep:
  assumes rep: "list_rep h l (xs @ [(a, d)])"
  shows "\<exists>h' l'. mcp_list_pop_back h l = Some (d, h', l') \<and> list_rep h' l' xs \<and> h' a = None \<and> (\<forall>b. b \<notin> insert a (fst ` set xs) \<longrightarrow> h' b = h b)"
proof -
  have r: "chain h None (xs @ (a, d) # []) None" "distinct (map fst (xs @ (a, d) # []))"
    "l_tail l = Some a" "l_head l = first_ref xs (Some a)" "l_size l = of_nat (length xs) + 1"
    using rep by (simp_all add: list_rep_def)
  have "\<exists>h2. (case last_ref xs None of Some p \<Rightarrow> set_next h p None | None \<Rightarrow> Some h) = Some h2 \<and> chain h2 None xs None \<and>
           (\<forall>b. b \<notin> fst ` set xs \<longrightarrow> h2 b = h b)"
    by (rule unlink [OF r(1,2)]) (auto cong: option.case_cong)
  then obtain h2 where h2: "(case last_ref xs None of Some p \<Rightarrow> set_next h p None | None \<Rightarrow> Some h) = Some h2" "chain h2 None xs None"
    "\<forall>b. b \<notin> fst ` set xs \<longrightarrow> h2 b = h b" by blast
  have c: "chain (h2(a := None)) None xs None"
    using h2(2) r(2) by (subst chain_cong [of xs _ h2]) auto
  have "\<exists>l'. mcp_list_pop_back h l = Some (d, h2(a := None), l') \<and> l_head l' = first_ref xs None \<and>
          l_tail l' = last_ref xs None \<and> l_size l' = l_size l - 1"
    using h2(1) r(1,3,4) by (cases xs rule: rev_cases) (auto simp: mcp_list_pop_back_def chain_append)
  moreover have "\<forall>b. b \<notin> insert a (fst ` set xs) \<longrightarrow> (h2(a := None)) b = h b" using h2(3) by simp
  ultimately show ?thesis using c r(2,5) unfolding list_rep_def by fastforce
qed

lemma insert_after_rep:
  assumes rep: "list_rep h l (ys @ (p, e) # zs)" and fresh: "h a = None"
  shows "\<exists>h' l'. mcp_list_insert_after (Some a) h l (Some p) d = Some (Some a, h', l') \<and>
           list_rep h' l' (ys @ (p, e) # (a, d) # zs) \<and> (\<forall>b. b \<notin> insert a (fst ` set (ys @ (p, e) # zs)) \<longrightarrow> h' b = h b)"
proof (cases zs)
  case Nil
  then have "l_tail l = Some p" using rep by (simp add: list_rep_def)
  with push_back_rep [OF rep fresh, of d] Nil show ?thesis by (simp add: mcp_list_insert_after_def)
next
  case (Cons z zs')
  have r: "chain h None ys (Some p)" "h p = Some \<lparr>n_prev = last_ref ys None, n_next = first_ref zs None, n_data = e\<rparr>"
    "chain h (Some p) zs None" "distinct (map fst (ys @ (p, e) # zs))"
    "l_head l = first_ref ys (Some p)" "l_tail l = last_ref zs (Some p)" "l_size l = of_nat (length ys + length zs) + 1"
    using rep by (simp_all add: list_rep_def chain_append)
  have a: "a \<notin> fst ` set (ys @ (p, e) # zs)" by (rule list_rep_fresh [OF rep fresh])
  let ?h1 = "h(a \<mapsto> \<lparr>n_prev = Some p, n_next = first_ref zs None, n_data = d\<rparr>)"
  have "chain ?h1 (Some p) zs None" using r(3) a by (subst chain_cong [of zs _ h]) auto
  from chain_set_prev [OF this, of "Some a"] r(4) Cons obtain h2 where
    h2: "set_prev ?h1 (fst z) (Some a) = Some h2" "chain h2 (Some a) zs None" "\<forall>b. b \<noteq> fst z \<longrightarrow> h2 b = ?h1 b"
    by auto
  have z: "fst z \<noteq> p" "fst z \<noteq> a" "fst z \<notin> fst ` set ys" "p \<notin> fst ` set zs" "p \<noteq> a" "p \<notin> fst ` set ys"
    using r(4) a Cons by auto
  let ?h3 = "h2(p \<mapsto> \<lparr>n_prev = last_ref ys None, n_next = Some a, n_data = e\<rparr>)"
  have h3: "set_next h2 p (Some a) = Some ?h3" using h2(3) z r(2) by (simp add: set_next_def)
  have "chain ?h3 (Some a) zs None" using h2(2) z(4) by (subst chain_cong [of zs _ h2]) auto
  moreover have "chain ?h3 None ys (Some p)"
  proof (subst chain_cong [of ys _ h])
    fix b assume b: "b \<in> fst ` set ys"
    have "a \<notin> fst ` set ys" using a by auto
    with b have "b \<noteq> fst z" "b \<noteq> p" "b \<noteq> a" using z(3,6) by blast+
    with h2(3) show "?h3 b = h b" by simp
  qed (rule r(1))
  moreover have "?h3 a = Some \<lparr>n_prev = Some p, n_next = first_ref zs None, n_data = d\<rparr>" using h2(3) z by auto
  ultimately have c: "chain ?h3 None (ys @ (p, e) # (a, d) # zs) None" by (simp add: chain_append)
  have "last_ref zs (Some p) \<noteq> Some p" using r(4) Cons
    by (cases zs' rule: rev_cases) (auto simp: Cons)
  then have "mcp_list_insert_after (Some a) h l (Some p) d = Some (Some a, ?h3, l\<lparr>l_size := l_size l + 1\<rparr>)"
    using r(2,6) h2(1) h3 Cons by (simp add: mcp_list_insert_after_def)
  moreover have "\<forall>b. b \<notin> insert a (fst ` set (ys @ (p, e) # zs)) \<longrightarrow> ?h3 b = h b"
    using h2(3) Cons by (auto simp: image_Un)
  moreover have "list_rep ?h3 (l\<lparr>l_size := l_size l + 1\<rparr>) (ys @ (p, e) # (a, d) # zs)"
    using c r a Cons by (auto simp: list_rep_def)
  ultimately show ?thesis by blast
qed

lemma clear_loop_chain:
  "chain h p xs None \<Longrightarrow> distinct (map fst xs) \<Longrightarrow>
   \<exists>h'. clear_loop free_data h (first_ref xs None)
          = Some (if free_data then concat (map (\<lambda>x. case snd x of None \<Rightarrow> [] | Some d \<Rightarrow> [d]) xs) else [], h') \<and>
        (\<forall>a. h' a = (if a \<in> fst ` set xs then None else h a))"
proof (induction xs arbitrary: h p)
  case Nil
  then show ?case by (simp add: clear_loop.simps)
next
  case (Cons x xs)
  obtain a d where x: "x = (a, d)" by fastforce
  have "chain (h(a := None)) (Some a) xs None"
    using Cons.prems x by (subst chain_cong [of xs _ h]) auto
  moreover have "distinct (map fst xs)" using Cons.prems(2) by simp
  ultimately obtain h' where
    h': "clear_loop free_data (h(a := None)) (first_ref xs None)
          = Some (if free_data then concat (map (\<lambda>x. case snd x of None \<Rightarrow> [] | Some d \<Rightarrow> [d]) xs) else [], h')"
      "\<forall>b. h' b = (if b \<in> fst ` set xs then None else (h(a := None)) b)" using Cons.IH by blast
  then show ?case using Cons.prems(1) x
    by (auto simp: clear_loop.simps [of free_data h "Some a"] split: option.splits)
qed

lemma clear_rep:
  assumes "list_rep h l xs"
  shows "\<exists>h' l'. mcp_list_clear h l free_data
           = Some (if free_data then concat (map (\<lambda>x. case snd x of None \<Rightarrow> [] | Some d \<Rightarrow> [d]) xs) else [], h', l') \<and>
           list_rep h' l' [] \<and> (\<forall>a. h' a = (if a \<in> fst ` set xs then None else h a))"
  using clear_loop_chain [of h None xs free_data] assms
  by (auto simp: mcp_list_clear_def list_rep_def)

lemma find_loop_chain:
  "chain h p xs None \<Longrightarrow>
   find_loop compare h d (first_ref xs None)
     = Some (map_option fst (List.find (\<lambda>x. compare (snd x) d = 0) xs))"
proof (induction xs arbitrary: p)
  case Nil
  then show ?case by (simp add: find_loop.simps)
next
  case (Cons x xs)
  then show ?case by (cases x) (auto simp: find_loop.simps [of compare h d "Some _"])
qed

text \<open>Stepping an iterator visits the nodes in order and ends at NULL.\<close>

lemma iterator_next_chain:
  assumes "chain h p (ys @ (a, d) # zs) None"
  shows "mcp_list_iterator_get_data h (Some a) = Some d \<and>
         mcp_list_iterator_next h (Some a) = Some (first_ref zs None)"
  using assms by (simp add: chain_append mcp_list_iterator_get_data_def mcp_list_iterator_next_def)

section \<open>The abstract list\<close>

text \<open>One call on a list, with the address the allocator hands out where it needs a node.\<close>

datatype 'a list_op =
    PushFront nat "'a option"
  | PushBack nat "'a option"
  | InsertAfter nat nat "'a option"
  | Remove nat
  | PopFront
  | PopBack
  | MoveToFront nat

fun exec_op :: "'a list_op \<Rightarrow> 'a heap \<Rightarrow> mcp_list \<Rightarrow> ('a option \<times> 'a heap \<times> mcp_list) option" where
  "exec_op (PushFront a d) h l = map_option (\<lambda>(_, h', l'). (None, h', l')) (mcp_list_push_front (Some a) h l d)"
| "exec_op (PushBack a d) h l = map_option (\<lambda>(_, h', l'). (None, h', l')) (mcp_list_push_back (Some a) h l d)"
| "exec_op (InsertAfter p a d) h l =
     map_option (\<lambda>(_, h', l'). (None, h', l')) (mcp_list_insert_after (Some a) h l (Some p) d)"
| "exec_op (Remove a) h l = map_option (\<lambda>(r, _, h', l'). (r, h', l')) (mcp_list_remove h l (Some a) False)"
| "exec_op PopFront h l = mcp_list_pop_front h l"
| "exec_op PopBack h l = mcp_list_pop_back h l"
| "exec_op (MoveToFront a) h l = map_option (\<lambda>(h', l'). (None, h', l')) (mcp_list_move_to_front h l (Some a))"

fun spec_op :: "'a list_op \<Rightarrow> 'a cells \<Rightarrow> 'a option \<times> 'a cells" where
  "spec_op (PushFront a d) xs = (None, (a, d) # xs)"
| "spec_op (PushBack a d) xs = (None, xs @ [(a, d)])"
| "spec_op (InsertAfter p a d) xs =
     (None, takeWhile (\<lambda>x. fst x \<noteq> p) xs @
            (case dropWhile (\<lambda>x. fst x \<noteq> p) xs of [] \<Rightarrow> [] | x # zs \<Rightarrow> x # (a, d) # zs))"
| "spec_op (Remove a) xs = (Option.bind (map_of xs a) id, filter (\<lambda>x. fst x \<noteq> a) xs)"
| "spec_op PopFront xs = (case xs of [] \<Rightarrow> (None, []) | x # ys \<Rightarrow> (snd x, ys))"
| "spec_op PopBack xs = (if xs = [] then (None, []) else (snd (last xs), butlast xs))"
| "spec_op (MoveToFront a) xs = (None, filter (\<lambda>x. fst x = a) xs @ filter (\<lambda>x. fst x \<noteq> a) xs)"

fun legal_op :: "'a list_op \<Rightarrow> 'a heap \<Rightarrow> 'a cells \<Rightarrow> bool" where
  "legal_op (PushFront a d) h xs \<longleftrightarrow> h a = None"
| "legal_op (PushBack a d) h xs \<longleftrightarrow> h a = None"
| "legal_op (InsertAfter p a d) h xs \<longleftrightarrow> h a = None \<and> p \<in> fst ` set xs"
| "legal_op (Remove a) h xs \<longleftrightarrow> a \<in> fst ` set xs"
| "legal_op (MoveToFront a) h xs \<longleftrightarrow> a \<in> fst ` set xs"
| "legal_op _ h xs \<longleftrightarrow> True"

lemma split_cell:
  assumes "a \<in> fst ` set xs" "distinct (map fst xs)"
  obtains ys d zs where "xs = ys @ (a, d) # zs" "a \<notin> fst ` set ys" "a \<notin> fst ` set zs"
proof -
  from assms(1) obtain d where "(a, d) \<in> set xs" by auto
  then obtain ys zs where xs: "xs = ys @ (a, d) # zs" by (meson split_list)
  with assms(2) have "a \<notin> fst ` set ys" "a \<notin> fst ` set zs" by auto
  with xs show ?thesis by (rule that)
qed

lemma split_cell_spec:
  assumes "xs = ys @ (a, d) # zs" "a \<notin> fst ` set ys" "a \<notin> fst ` set zs"
  shows "filter (\<lambda>x. fst x \<noteq> a) xs = ys @ zs" "filter (\<lambda>x. fst x = a) xs = [(a, d)]" "map_of xs a = Some d"
    "takeWhile (\<lambda>x. fst x \<noteq> a) xs = ys" "dropWhile (\<lambda>x. fst x \<noteq> a) xs = (a, d) # zs"
proof -
  have y: "\<forall>x \<in> set ys. fst x \<noteq> a" "\<forall>x \<in> set zs. fst x \<noteq> a" using assms(2,3) by auto
  then show "filter (\<lambda>x. fst x \<noteq> a) xs = ys @ zs" using assms(1) by simp
  show "filter (\<lambda>x. fst x = a) xs = [(a, d)]" using assms(1) y by simp
  show "map_of xs a = Some d" using assms(1,2) by (simp add: map_add_def map_of_eq_None_iff [THEN iffD2])
  show "takeWhile (\<lambda>x. fst x \<noteq> a) xs = ys" "dropWhile (\<lambda>x. fst x \<noteq> a) xs = (a, d) # zs"
    using assms(1) y(1) by (simp_all add: takeWhile_append2 dropWhile_append2)
qed

lemma list_op_step:
  assumes rep: "list_rep h l xs" and legal: "legal_op op h xs"
  shows "\<exists>h' l'. exec_op op h l = Some (fst (spec_op op xs), h', l') \<and> list_rep h' l' (snd (spec_op op xs)) \<and>
           (\<forall>b. b \<notin> fst ` set xs \<union> fst ` set (snd (spec_op op xs)) \<longrightarrow> h' b = h b) \<and>
           (\<forall>b \<in> fst ` set xs - fst ` set (snd (spec_op op xs)). h' b = None)"
proof -
  have dist: "distinct (map fst xs)" using rep by (simp add: list_rep_def)
  show ?thesis
  proof (cases op)
    case (PushFront a d)
    with push_front_rep [OF rep, of a d] legal show ?thesis by auto
  next
    case (PushBack a d)
    with push_back_rep [OF rep, of a d] legal show ?thesis by (auto simp: image_Un)
  next
    case (InsertAfter p a d)
    then have "p \<in> fst ` set xs" and fresh: "h a = None" using legal by auto
    then obtain ys e zs where xs: "xs = ys @ (p, e) # zs" "p \<notin> fst ` set ys" "p \<notin> fst ` set zs"
      using dist by (metis split_cell)
    note sp = split_cell_spec [OF xs]
    from insert_after_rep [of h l ys p e zs, OF _ fresh, of d] rep xs(1) obtain h' l' where
      e: "mcp_list_insert_after (Some a) h l (Some p) d = Some (Some a, h', l')"
      "list_rep h' l' (ys @ (p, e) # (a, d) # zs)" "\<forall>b. b \<notin> insert a (fst ` set xs) \<longrightarrow> h' b = h b" by auto
    have "snd (spec_op op xs) = ys @ (p, e) # (a, d) # zs" "exec_op op h l = Some (fst (spec_op op xs), h', l')"
      using InsertAfter sp e(1) by auto
    with e(2,3) show ?thesis by (auto simp: xs(1) image_Un)
  next
    case (Remove a)
    then have "a \<in> fst ` set xs" using legal by auto
    then obtain ys e zs where xs: "xs = ys @ (a, e) # zs" "a \<notin> fst ` set ys" "a \<notin> fst ` set zs"
      using dist by (metis split_cell)
    note sp = split_cell_spec [OF xs]
    from remove_rep [of h l ys a e zs False] rep xs(1) obtain h' l' where
      e: "mcp_list_remove h l (Some a) False = Some (e, [], h', l')" "list_rep h' l' (ys @ zs)" "h' a = None"
      "\<forall>b. b \<notin> insert a (fst ` set (ys @ zs)) \<longrightarrow> h' b = h b" by auto
    have "snd (spec_op op xs) = ys @ zs" "exec_op op h l = Some (fst (spec_op op xs), h', l')"
      using Remove sp e(1) by auto
    with e(2-4) show ?thesis by (auto simp: xs(1) image_Un)
  next
    case PopFront
    show ?thesis
    proof (cases xs)
      case Nil
      then have "l_head l = None" using rep by (simp add: list_rep_def)
      then show ?thesis using PopFront Nil rep by (simp add: mcp_list_pop_front_def)
    next
      case (Cons x ys)
      obtain a d where x: "x = (a, d)" by fastforce
      from pop_front_rep [of h l a d ys] rep Cons x PopFront show ?thesis by auto
    qed
  next
    case PopBack
    show ?thesis
    proof (cases xs rule: rev_cases)
      case Nil
      then have "l_tail l = None" using rep by (simp add: list_rep_def)
      then show ?thesis using PopBack Nil rep by (simp add: mcp_list_pop_back_def)
    next
      case (snoc ys x)
      obtain a d where x: "x = (a, d)" by fastforce
      from pop_back_rep [of h l ys a d] rep snoc x PopBack show ?thesis by auto
    qed
  next
    case (MoveToFront a)
    then have "a \<in> fst ` set xs" using legal by auto
    then obtain ys e zs where xs: "xs = ys @ (a, e) # zs" "a \<notin> fst ` set ys" "a \<notin> fst ` set zs"
      using dist by (metis split_cell)
    note sp = split_cell_spec [OF xs]
    from move_to_front_rep [of h l ys a e zs] rep xs(1) obtain h' l' where
      e: "mcp_list_move_to_front h l (Some a) = Some (h', l')" "list_rep h' l' ((a, e) # ys @ zs)"
      "\<forall>b. b \<notin> insert a (fst ` set (ys @ zs)) \<longrightarrow> h' b = h b" by auto
    have "snd (spec_op op xs) = (a, e) # ys @ zs" "exec_op op h l = Some (fst (spec_op op xs), h', l')"
      using MoveToFront sp e(1) by auto
    with e(2,3) show ?thesis by (auto simp: xs(1) image_Un)
  qed
qed

section \<open>Recency lists\<close>

text \<open>
  The interface the caches use: a list ordered from the most to the least recently used entry, with
  \<open>touch\<close> moving an entry to the front and \<open>evict\<close> dropping the last one.
\<close>

fun try_all :: "(nat \<Rightarrow> 's \<Rightarrow> 's option) \<Rightarrow> nat list \<Rightarrow> 's \<Rightarrow> 's option" where
  "try_all f [] s = Some s"
| "try_all f (a # as) s = Option.bind (f a s) (try_all f as)"

locale recency_list =
  fixes rep :: "'s \<Rightarrow> 'a cells \<Rightarrow> bool"
    and touch :: "nat \<Rightarrow> 's \<Rightarrow> 's option"
    and evict :: "'s \<Rightarrow> ('a option \<times> 's) option"
  assumes rep_distinct: "rep s xs \<Longrightarrow> distinct (map fst xs)"
    and touch_rep: "rep s (ys @ (a, d) # zs) \<Longrightarrow> \<exists>s'. touch a s = Some s' \<and> rep s' ((a, d) # ys @ zs)"
    and evict_rep: "rep s (xs @ [(a, d)]) \<Longrightarrow> \<exists>s'. evict s = Some (d, s') \<and> rep s' xs"
begin

lemma touch_all_rep:
  assumes "rep s (front @ xs)" "set ts \<subseteq> fst ` set (front @ xs)"
  shows "\<exists>s' front'. try_all touch ts s = Some s' \<and>
           rep s' (front' @ filter (\<lambda>x. fst x \<notin> set ts) xs) \<and> fst ` set front' \<subseteq> fst ` set front \<union> set ts"
  using assms
proof (induction ts arbitrary: s front xs)
  case Nil
  then show ?case by auto
next
  case (Cons a ts)
  have "a \<in> fst ` set (front @ xs)" using Cons.prems(2) by simp
  then obtain ys d zs where sp: "front @ xs = ys @ (a, d) # zs" "a \<notin> fst ` set ys" "a \<notin> fst ` set zs"
    using rep_distinct [OF Cons.prems(1)] by (metis split_cell)
  let ?f = "(a, d) # filter (\<lambda>x. fst x \<noteq> a) front" and ?xs = "filter (\<lambda>x. fst x \<noteq> a) xs"
  have ys: "(a, d) # ys @ zs = ?f @ ?xs"
    using split_cell_spec(1) [OF sp] by simp
  obtain s1 where s1: "touch a s = Some s1" "rep s1 (?f @ ?xs)"
    using touch_rep [of s ys a d zs] Cons.prems(1) unfolding sp(1) ys [symmetric] by blast
  have "set ts \<subseteq> fst ` set (?f @ ?xs)"
    using Cons.prems(2) by auto
  from Cons.IH [OF s1(2) this] obtain s' front' where
    "try_all touch ts s1 = Some s'" "rep s' (front' @ filter (\<lambda>x. fst x \<notin> set ts) ?xs)"
    "fst ` set front' \<subseteq> fst ` set ?f \<union> set ts" by blast
  moreover have "filter (\<lambda>x. fst x \<notin> set ts) ?xs = filter (\<lambda>x. fst x \<notin> set (a # ts)) xs"
    by (simp add: conj_commute)
  ultimately show ?case using s1(1) by fastforce
qed

lemma evicts_untouched:
  assumes "rep s xs" "set ts \<subseteq> fst ` set xs" "filter (\<lambda>x. fst x \<notin> set ts) xs = ys @ [(a, d)]"
  shows "\<exists>s1 s2. try_all touch ts s = Some s1 \<and> evict s1 = Some (d, s2)"
proof -
  obtain s1 front where "try_all touch ts s = Some s1" "rep s1 (front @ ys @ [(a, d)])"
    using touch_all_rep [of s "[]" xs ts] assms by auto
  with evict_rep [of s1 "front @ ys" a d] show ?thesis by auto
qed

end

definition list_touch :: "nat \<Rightarrow> 'a heap \<times> mcp_list \<Rightarrow> ('a heap \<times> mcp_list) option" where
  "list_touch a s = mcp_list_move_to_front (fst s) (snd s) (Some a)"

interpretation mcp_lru: recency_list "\<lambda>s xs. list_rep (fst s) (snd s) xs" list_touch
  "\<lambda>s. map_option (\<lambda>(d, h, l). (d, (h, l))) (mcp_list_pop_back (fst s) (snd s))"
proof (unfold_locales, goal_cases)
  case (1 s xs)
  then show ?case by (simp add: list_rep_def)
next
  case (2 s ys a d zs)
  then show ?case using move_to_front_rep [of "fst s" "snd s" ys a d zs] by (auto simp: list_touch_def)
next
  case (3 s xs a d)
  then show ?case using pop_back_rep [of "fst s" "snd s" xs a d] by auto
qed

section \<open>Properties\<close>

text \<open>Claim C16.  Every operation on a list acts on the pointers as the corresponding operation acts on the
  abstract sequence of nodes: it reads and writes live nodes only, returns the data the abstract
  operation returns, leaves a well-formed doubly linked list (links consistent in both directions,
  head, tail and size right), frees the node it removes and touches no node of another list.\<close>

theorem list_operations_refine:
  assumes "list_rep h l xs" and "legal_op op h xs"
  shows "\<exists>h' l'. exec_op op h l = Some (fst (spec_op op xs), h', l') \<and> list_rep h' l' (snd (spec_op op xs)) \<and>
           (\<forall>b. b \<notin> fst ` set xs \<union> fst ` set (snd (spec_op op xs)) \<longrightarrow> h' b = h b) \<and>
           (\<forall>b \<in> fst ` set xs - fst ` set (snd (spec_op op xs)). h' b = None)"
  by (rule list_op_step [OF assms])

lemma list_example:
  "\<exists>h l. list_rep h l [(2, Some ''b''), (1, Some ''a'')] \<and> h 3 = None"
proof -
  obtain h1 l1 where 1: "list_rep h1 l1 [(1, Some ''a'')]" "\<forall>b. b \<noteq> 1 \<longrightarrow> h1 b = None"
    using push_front_rep [OF create_rep, of "\<lambda>_. None" 1 "Some ''a''"] by auto
  then show ?thesis using push_front_rep [OF 1(1), of 2 "Some ''b''"] by fastforce
qed

theorem list_operations_refine_witness:
  "\<exists>h l h' l'. exec_op PopBack h l = Some (Some ''a'', h', l') \<and> list_rep h' l' [(2, Some ''b'')]"
proof -
  obtain h l where "list_rep h l [(2, Some ''b''), (1, Some ''a'')]" using list_example by blast
  from list_operations_refine [OF this, of PopBack] show ?thesis by auto
qed

text \<open>Moving nodes to the front and popping from the back is least-recently-used eviction: after
  any sequence of \<open>mcp_list_move_to_front\<close> calls, \<open>mcp_list_pop_back\<close> removes the last of the nodes
  that were not moved.\<close>

theorem list_evicts_least_recent:
  assumes "list_rep h l xs" and "set ts \<subseteq> fst ` set xs"
    and "filter (\<lambda>x. fst x \<notin> set ts) xs = ys @ [(a, d)]"
  shows "\<exists>h1 l1 h2 l2. try_all list_touch ts (h, l) = Some (h1, l1) \<and> mcp_list_pop_back h1 l1 = Some (d, h2, l2)"
  using mcp_lru.evicts_untouched [of "(h, l)" xs ts ys a d] assms by fastforce

theorem list_evicts_least_recent_witness:
  "\<exists>h l h1 l1 h2 l2. try_all list_touch [1] (h, l) = Some (h1, l1) \<and>
     mcp_list_pop_back h1 l1 = Some (Some ''b'', h2, l2)"
proof -
  obtain h l where "list_rep h l [(2, Some ''b''), (1, Some ''a'')]" using list_example by blast
  from list_evicts_least_recent [OF this, of "[1]" "[]" 2 "Some ''b''"]
  have "\<exists>h1 l1 h2 l2. try_all list_touch [1] (h, l) = Some (h1, l1) \<and>
      mcp_list_pop_back h1 l1 = Some (Some ''b'', h2, l2)" by simp
  then show ?thesis by blast
qed

text \<open>\<open>mcp_list_find\<close> always returns, with the first node whose data the comparison function
  accepts, or NULL if there is none.\<close>

theorem list_find_first:
  assumes "list_rep h l xs"
  shows "mcp_list_find compare h l d = Some (map_option fst (List.find (\<lambda>x. compare (snd x) d = 0) xs))"
  using assms find_loop_chain [of h None xs compare d] by (simp add: mcp_list_find_def list_rep_def)

theorem list_find_first_witness:
  "\<exists>h l. mcp_list_find (\<lambda>x y. if x = Some y then 0 else 1) h l ''a'' = Some (Some 1)"
proof -
  obtain h l where "list_rep h l [(2, Some ''b''), (1, Some ''a'')]" using list_example by blast
  from list_find_first [OF this, of "\<lambda>x y. if x = Some y then 0 else 1" "''a''"] show ?thesis by auto
qed

text \<open>\<open>mcp_list_clear\<close> with \<open>free_data\<close> always returns, frees the data of every node once, in
  list order, frees every node of the list and no other, and leaves an empty list.\<close>

theorem list_clear_frees_all:
  assumes "list_rep h l xs"
  shows "\<exists>h' l'. mcp_list_clear h l True = Some (concat (map (\<lambda>x. case snd x of None \<Rightarrow> [] | Some d \<Rightarrow> [d]) xs), h', l') \<and>
           list_rep h' l' [] \<and> (\<forall>a. h' a = (if a \<in> fst ` set xs then None else h a))"
  using clear_rep [OF assms, of True] by simp

theorem list_clear_frees_all_witness:
  "\<exists>h l h' l'. mcp_list_clear h l True = Some ([''b'', ''a''], h', l') \<and> h' 1 = None"
proof -
  obtain h l where "list_rep h l [(2, Some ''b''), (1, Some ''a'')]" using list_example by blast
  from list_clear_frees_all [OF this] show ?thesis by force
qed

end
