(* ===== verification/Mcp_Cache.thy ===== *)
theory Mcp_Cache
  imports Mcp_Types Mcp_List
begin

text \<open>
  The cache of resource contents, \<open>src/server/mcp_cache.c\<close>: the hash table of \<open>Mcp_Hashtable\<close> from URIs
  to entries, and the linked list of \<open>Mcp_List\<close> over the same entries in the order of their last use.

  An entry is an object of its own heap (\<open>c_entries\<close>), since the table and the list share it: the table
  owns it and frees it (\<open>free_cache_entry\<close>), the list has its address.  Reading or freeing an entry
  that is not live, or releasing a content item twice, is undefined: the operation is then \<open>None\<close>.
  Every operation is its run without interference between its critical sections.  The addresses of a
  new entry and a new list node are arguments, NULL when the allocation fails; \<open>now\<close> is the time.
  Times are integers: a \<open>time_t\<close> of 64 bits does not overflow when the \<open>int\<close> of a time to live is added
  to the time of day.
\<close>

section \<open>State\<close>

record mcp_cache_entry =
  ce_key :: string
  ce_content :: "mcp_content_item list"
  ce_expiry_time :: int
  ce_last_accessed :: int
  ce_lru_node :: ref

type_synonym entry_heap = "nat \<Rightarrow> mcp_cache_entry option"

record mcp_resource_cache =
  c_table :: "(string, nat) mcp_hashtable"
  c_lru_list :: mcp_list
  c_nodes :: "nat heap"
  c_entries :: entry_heap
  c_capacity :: size_t
  c_default_ttl_seconds :: int

abbreviation cache_ops :: "string hash_ops" where
  "cache_ops \<equiv> string_ops True"

text \<open>The calls of \<open>free_cache_entry\<close> the hash table makes.\<close>

fun free_entries :: "(string, nat) ht_event list \<Rightarrow> entry_heap \<Rightarrow> entry_heap option" where
  "free_entries [] es = Some es"
| "free_entries (KeyFree _ # evs) es = free_entries evs es"
| "free_entries (ValueFree a # evs) es = (if es a = None then None else free_entries evs (es(a := None)))"

section \<open>Operations\<close>

definition mcp_cache_create :: "mem \<Rightarrow> size_t \<Rightarrow> int \<Rightarrow> mcp_resource_cache option \<times> mem" where
  "mcp_cache_create m capacity default_ttl_seconds =
     (let (ok1, m1) = mem_alloc m in if \<not> ok1 then (None, m1)
      else let (ok2, m2) = mem_alloc m1 in if \<not> ok2 then (None, m2)
      else case mcp_hashtable_create m2 (if capacity > 0 then capacity else 1) (3 / 4) of
             (None, m3) \<Rightarrow> (None, m3)
           | (Some t, m3) \<Rightarrow>
               (let (ok4, m4) = mem_alloc m3 in if \<not> ok4 then (None, m4)
                else (Some \<lparr>c_table = t, c_lru_list = mcp_list_create, c_nodes = (\<lambda>_. None), c_entries = (\<lambda>_. None),
                            c_capacity = capacity, c_default_ttl_seconds = default_ttl_seconds\<rparr>, m4)))"

text \<open>The removal of an entry: from the list, if it has a node, and from the table, which frees it.\<close>

definition remove_entry :: "string \<Rightarrow> mcp_cache_entry \<Rightarrow> mcp_resource_cache \<Rightarrow> (int \<times> mcp_resource_cache) option" where
  "remove_entry uri e c =
     do {
       (_, _, h, l) \<leftarrow> mcp_list_remove (c_nodes c) (c_lru_list c) (ce_lru_node e) False;
       (case mcp_hashtable_remove cache_ops (c_table c) uri of
          (rc, t, evs) \<Rightarrow>
            do { es \<leftarrow> free_entries evs (c_entries c);
                 Some (rc, c\<lparr>c_nodes := h, c_lru_list := l, c_table := t, c_entries := es\<rparr>) })
     }"

definition is_expired :: "int \<Rightarrow> mcp_cache_entry \<Rightarrow> bool" where
  "is_expired now e \<longleftrightarrow> ce_expiry_time e \<noteq> 0 \<and> ce_expiry_time e \<le> now"

text \<open>The loops that copy items: the index where an acquisition failed, or the copies.\<close>

fun copy_items :: "mem \<Rightarrow> mcp_content_item list \<Rightarrow> ((nat + mcp_content_item list) \<times> mem) option" where
  "copy_items m [] = Some (Inr [], m)"
| "copy_items m (x # xs) =
     (case mcp_content_item_acquire_pooled m (item_type x)
             (Some (case item_mime_type x of Some s \<Rightarrow> s | None \<Rightarrow> [])) (item_data x) (item_data_size x) of
        None \<Rightarrow> None
      | Some (None, m1) \<Rightarrow> Some (Inl 0, m1)
      | Some (Some y, m1) \<Rightarrow>
          (case copy_items m1 xs of
             None \<Rightarrow> None
           | Some (Inl i, m2) \<Rightarrow> Some (Inl (Suc i), m2)
           | Some (Inr ys, m2) \<Rightarrow> Some (Inr (y # ys), m2)))"

definition mcp_cache_get ::
    "int \<Rightarrow> mem \<Rightarrow> string \<Rightarrow> mcp_resource_cache \<Rightarrow> (int \<times> mcp_content_item list option \<times> mcp_resource_cache) option" where
  "mcp_cache_get now m uri c =
     (case mcp_hashtable_get cache_ops (c_table c) uri of
        (_, None) \<Rightarrow> Some (-1, None, c)
      | (_, Some a) \<Rightarrow>
          do {
            e \<leftarrow> c_entries c a;
            if is_expired now e
            then do { (_, c1) \<leftarrow> remove_entry uri e c; Some (-1, None, c1) }
            else (let (ok1, m1) = mem_alloc m in if \<not> ok1 then Some (-1, None, c)
                  else let (ok2, m2) = mem_alloc m1 in if \<not> ok2 then Some (-1, None, c)
                  else case copy_items m2 (ce_content e) of
                         None \<Rightarrow> None
                       | Some (Inl _, _) \<Rightarrow> Some (-1, None, c)
                       | Some (Inr items, _) \<Rightarrow>
                           do {
                             (h, l) \<leftarrow> mcp_list_move_to_front (c_nodes c) (c_lru_list c) (ce_lru_node e);
                             Some (0, Some items, c\<lparr>c_nodes := h, c_lru_list := l,
                               c_entries := (c_entries c)(a \<mapsto> e\<lparr>ce_last_accessed := now\<rparr>)\<rparr>)
                           })
          })"

text \<open>\<open>create_cache_entry\<close>, the address of the entry given: \<open>None\<close> when the key cannot be copied.\<close>

definition create_cache_entry :: "int \<Rightarrow> mem \<Rightarrow> string \<Rightarrow> int \<Rightarrow> mcp_resource_cache \<Rightarrow> mcp_cache_entry option \<times> mem" where
  "create_cache_entry now m uri ttl_seconds c =
     (case mcp_strdup m (Some uri) of
        (None, m1) \<Rightarrow> (None, m1)
      | (Some key, m1) \<Rightarrow>
          (let effective_ttl = (if ttl_seconds = 0 then c_default_ttl_seconds c else ttl_seconds)
           in (Some \<lparr>ce_key = key, ce_content = [], ce_expiry_time = (if effective_ttl < 0 then 0 else now + effective_ttl),
                     ce_last_accessed = now, ce_lru_node = None\<rparr>, m1)))"

definition evict_lru_entry :: "mcp_resource_cache \<Rightarrow> (bool \<times> mcp_resource_cache) option" where
  "evict_lru_entry c =
     (if mcp_list_is_empty (Some (c_lru_list c)) then Some (False, c)
      else case l_tail (c_lru_list c) of
             None \<Rightarrow> Some (False, c)
           | Some lru_node \<Rightarrow>
               do {
                 n \<leftarrow> c_nodes c lru_node;
                 (case n_data n of
                    None \<Rightarrow> Some (False, c)
                  | Some a \<Rightarrow>
                      do {
                        e \<leftarrow> c_entries c a;
                        (rc, c1) \<leftarrow> remove_entry (ce_key e) (e\<lparr>ce_lru_node := Some lru_node\<rparr>) c;
                        Some (rc = 0, c1)
                      })
               })"

text \<open>
  \<open>add_entry_to_cache\<close>, for the entry \<open>e\<close> at address \<open>a\<close>: the node is put in front of the list first,
  then the table is asked.  When either fails \<open>mcp_cache_put\<close> frees the entry; the node stays.
\<close>

definition add_entry_to_cache ::
    "mem \<Rightarrow> ref \<Rightarrow> string \<Rightarrow> nat \<Rightarrow> mcp_cache_entry \<Rightarrow> mcp_resource_cache \<Rightarrow> (int \<times> mcp_resource_cache) option" where
  "add_entry_to_cache m node uri a e c =
     do {
       (lru_node, h, l) \<leftarrow> mcp_list_push_front node (c_nodes c) (c_lru_list c) (Some a);
       if lru_node = None then Some (-1, c\<lparr>c_nodes := h, c_lru_list := l\<rparr>)
       else (case mcp_hashtable_put cache_ops m (c_table c) uri a of
               (rc, t, evs, _) \<Rightarrow>
                 do {
                   es \<leftarrow> free_entries evs (c_entries c);
                   Some (rc, c\<lparr>c_nodes := h, c_lru_list := l, c_table := t,
                               c_entries := (if rc = 0 then es(a \<mapsto> e\<lparr>ce_lru_node := lru_node\<rparr>) else es)\<rparr>)
                 })
     }"

text \<open>The critical section of \<open>mcp_cache_put\<close>, with the new entry ready.\<close>

definition store_entry ::
    "mem \<Rightarrow> ref \<Rightarrow> string \<Rightarrow> nat \<Rightarrow> mcp_cache_entry \<Rightarrow> mcp_resource_cache \<Rightarrow> (int \<times> mcp_resource_cache) option" where
  "store_entry m node uri a e c =
     (case mcp_hashtable_get cache_ops (c_table c) uri of
        (_, Some b) \<Rightarrow>
          do {
            existing_entry \<leftarrow> c_entries c b;
            (_, _, h, l) \<leftarrow> mcp_list_remove (c_nodes c) (c_lru_list c) (ce_lru_node existing_entry) False;
            add_entry_to_cache m node uri a e (c\<lparr>c_nodes := h, c_lru_list := l\<rparr>)
          }
      | (_, None) \<Rightarrow>
          if mcp_hashtable_size (Some (c_table c)) \<ge> c_capacity c
          then do {
                 (evicted, c1) \<leftarrow> evict_lru_entry c;
                 if \<not> evicted then Some (-1, c1) else add_entry_to_cache m node uri a e c1
               }
          else add_entry_to_cache m node uri a e c)"

text \<open>
  \<open>alloc\<close> is the address of the new entry.  When the copying fails behind the first item, the copies made
  so far are released by the loop and again by \<open>free_entry_resources\<close>.
\<close>

definition mcp_cache_put ::
    "int \<Rightarrow> mem \<Rightarrow> ref \<Rightarrow> ref \<Rightarrow> string \<Rightarrow> mcp_content_item option list \<Rightarrow> int \<Rightarrow> mcp_resource_cache \<Rightarrow> (int \<times> mcp_resource_cache) option" where
  "mcp_cache_put now m alloc node uri content ttl_seconds c =
     (if content = [] \<or> None \<in> set content then Some (-1, c)
      else if \<exists>x \<in> set content. item_data (the x) = None \<and> item_data_size (the x) > 0 then Some (-1, c)
      else if c_capacity c = 0 then Some (0, c)
      else case alloc of
             None \<Rightarrow> Some (-1, c)
           | Some a \<Rightarrow>
               (case create_cache_entry now m uri ttl_seconds c of
                  (None, _) \<Rightarrow> Some (-1, c)
                | (Some e, m1) \<Rightarrow>
                    (let (ok, m2) = mem_alloc m1 in if \<not> ok then Some (-1, c)
                     else case copy_items m2 (map the content) of
                            None \<Rightarrow> None
                          | Some (Inl i, _) \<Rightarrow> if i = 0 then Some (-1, c) else None
                          | Some (Inr items, m3) \<Rightarrow> store_entry m3 node uri a (e\<lparr>ce_content := items\<rparr>) c)))"

definition mcp_cache_invalidate :: "string \<Rightarrow> mcp_resource_cache \<Rightarrow> (int \<times> mcp_resource_cache) option" where
  "mcp_cache_invalidate uri c =
     (case mcp_hashtable_get cache_ops (c_table c) uri of
        (_, None) \<Rightarrow> Some (-1, c)
      | (_, Some a) \<Rightarrow> do { e \<leftarrow> c_entries c a; remove_entry uri e c })"

text \<open>The collection of the expired keys; \<open>pr_moved\<close> says that an array has been moved by \<open>realloc\<close>.\<close>

record prune =
  pr_keys :: "(string \<times> nat) list"
  pr_capacity :: nat
  pr_error :: bool
  pr_moved :: bool
  pr_mem :: mem

definition grow_keys :: "prune \<Rightarrow> bool \<times> prune" where
  "grow_keys p =
     (let new_capacity = (if pr_capacity p * 2 = 0 then 16 else pr_capacity p * 2);
          (ok1, m1) = mem_alloc (pr_mem p)
      in if \<not> ok1 then (False, p\<lparr>pr_error := True, pr_mem := m1\<rparr>)
         else let (ok2, m2) = mem_alloc m1
              in if \<not> ok2 then (False, p\<lparr>pr_error := True, pr_moved := True, pr_mem := m2\<rparr>)
                 else (True, p\<lparr>pr_capacity := new_capacity, pr_moved := True, pr_mem := m2\<rparr>))"

definition collect_expired_keys :: "int \<Rightarrow> entry_heap \<Rightarrow> string \<Rightarrow> nat \<Rightarrow> prune option \<Rightarrow> prune option" where
  "collect_expired_keys now es uri a po =
     do {
       p \<leftarrow> po;
       e \<leftarrow> es a;
       if \<not> is_expired now e then Some p
       else (case (if length (pr_keys p) \<ge> pr_capacity p then grow_keys p else (True, p)) of
               (False, p1) \<Rightarrow> Some p1
             | (True, p1) \<Rightarrow>
                 (case mcp_strdup (pr_mem p1) (Some uri) of
                    (None, m1) \<Rightarrow> Some (p1\<lparr>pr_error := True, pr_mem := m1\<rparr>)
                  | (Some key, m1) \<Rightarrow> Some (p1\<lparr>pr_keys := pr_keys p1 @ [(key, a)], pr_mem := m1\<rparr>)))
     }"

fun remove_entries :: "(string \<times> nat) list \<Rightarrow> mcp_resource_cache \<Rightarrow> mcp_resource_cache option" where
  "remove_entries [] c = Some c"
| "remove_entries ((key, a) # keys) c =
     do { e \<leftarrow> c_entries c a; (_, c1) \<leftarrow> remove_entry key e c; remove_entries keys c1 }"

definition mcp_cache_prune_expired :: "int \<Rightarrow> mem \<Rightarrow> mcp_resource_cache \<Rightarrow> (nat \<times> mcp_resource_cache) option" where
  "mcp_cache_prune_expired now m c =
     (let (ok1, m1) = mem_alloc m in if \<not> ok1 then Some (0, c)
      else let (ok2, m2) = mem_alloc m1 in if \<not> ok2 then Some (0, c)
      else do {
        p \<leftarrow> mcp_hashtable_foreach (collect_expired_keys now (c_entries c)) (c_table c)
               (Some \<lparr>pr_keys = [], pr_capacity = 16, pr_error = False, pr_moved = False, pr_mem = m2\<rparr>);
        if pr_error p then (if pr_moved p then None else Some (length (pr_keys p), c))
        else do { c1 \<leftarrow> remove_entries (pr_keys p) c; Some (length (pr_keys p), c1) }
      })"

definition mcp_cache_destroy :: "mcp_resource_cache \<Rightarrow> (entry_heap \<times> nat heap) option" where
  "mcp_cache_destroy c =
     do {
       es \<leftarrow> free_entries (mcp_hashtable_destroy cache_ops (c_table c)) (c_entries c);
       (_, h) \<leftarrow> mcp_list_destroy (c_nodes c) (c_lru_list c) False;
       Some (es, h)
     }"

section \<open>The cache as a list of entries, the most recently used first\<close>

type_synonym cache_cells = "(nat \<times> mcp_cache_entry) list"

definition lru_cells :: "cache_cells \<Rightarrow> (nat \<times> nat option) list" where
  "lru_cells xs = map (\<lambda>(a, e). (the (ce_lru_node e), Some a)) xs"

definition key_index :: "cache_cells \<Rightarrow> (string \<times> nat) list" where
  "key_index xs = map (\<lambda>(a, e). (ce_key e, a)) xs"

definition cache_parts :: "mcp_resource_cache \<Rightarrow> cache_cells \<Rightarrow> bool" where
  "cache_parts c xs \<longleftrightarrow> ht_inv cache_ops (c_table c) \<and> list_rep (c_nodes c) (c_lru_list c) (lru_cells xs) \<and>
     (\<forall>a e. (a, e) \<in> set xs \<longrightarrow> c_entries c a = Some e \<and> ce_lru_node e \<noteq> None) \<and>
     distinct (map fst xs) \<and> distinct (map fst (key_index xs))"

definition cache_rep :: "mcp_resource_cache \<Rightarrow> cache_cells \<Rightarrow> bool" where
  "cache_rep c xs \<longleftrightarrow> cache_parts c xs \<and> ht_map cache_ops (c_table c) = map_of (key_index xs) \<and> dom (c_entries c) = fst ` set xs"

lemma lru_cells_simps [simp]:
  "lru_cells [] = []" "lru_cells ((a, e) # xs) = (the (ce_lru_node e), Some a) # lru_cells xs" "lru_cells (xs @ ys) = lru_cells xs @ lru_cells ys"
  by (simp_all add: lru_cells_def)

lemma key_index_simps [simp]:
  "key_index [] = []" "key_index ((a, e) # xs) = (ce_key e, a) # key_index xs" "key_index (xs @ ys) = key_index xs @ key_index ys"
  by (simp_all add: key_index_def)

lemma get_found:
  assumes rep: "cache_rep c xs" and g: "mcp_hashtable_get cache_ops (c_table c) uri = (rc, Some a)"
  obtains ys e zs where "xs = ys @ (a, e) # zs" "ce_key e = uri" "c_entries c a = Some e"
proof -
  have inv: "ht_inv cache_ops (c_table c)" and m: "ht_map cache_ops (c_table c) = map_of (key_index xs)"
    using rep by (auto simp: cache_rep_def cache_parts_def)
  have "ht_map cache_ops (c_table c) uri = Some a"
    using string_key.get_map [of True "c_table c" uri] g by (auto split: option.splits)
  then have "(uri, a) \<in> set (key_index xs)" using m by (auto dest: map_of_SomeD)
  then obtain e where "(a, e) \<in> set xs" "ce_key e = uri" by (auto simp: key_index_def)
  moreover from this obtain ys zs where "xs = ys @ (a, e) # zs" by (meson split_list)
  ultimately show thesis using that rep by (auto simp: cache_rep_def cache_parts_def)
qed

lemma get_missing:
  assumes "cache_rep c xs" "mcp_hashtable_get cache_ops (c_table c) uri = (rc, None)"
  shows "uri \<notin> fst ` set (key_index xs)"
proof -
  have "ht_map cache_ops (c_table c) uri = None"
    using string_key.get_map [of True "c_table c" uri] assms(2) by (auto split: option.splits)
  then show ?thesis using assms(1) by (simp add: cache_rep_def map_of_eq_None_iff)
qed

lemma map_of_index_remove:
  assumes "distinct (map fst (key_index (ys @ (a, e) # zs)))"
  shows "(map_of (key_index (ys @ (a, e) # zs)))(ce_key e := None) = map_of (key_index (ys @ zs))"
proof
  fix x
  have "ce_key e \<notin> fst ` set (key_index (ys @ zs))" using assms by auto
  then have "map_of (key_index (ys @ zs)) (ce_key e) = None" by (auto simp: map_of_eq_None_iff)
  then show "((map_of (key_index (ys @ (a, e) # zs)))(ce_key e := None)) x = map_of (key_index (ys @ zs)) x"
    by (cases "x = ce_key e") (auto simp: map_add_def split: option.splits)
qed

lemma list_part:
  assumes "cache_parts c (ys @ (a, e) # zs)"
  obtains h l where "mcp_list_remove (c_nodes c) (c_lru_list c) (ce_lru_node e) False = Some (Some a, [], h, l)"
    "list_rep h l (lru_cells (ys @ zs))" "\<And>n. c_nodes c n = None \<Longrightarrow> h n = None"
proof -
  have "(a, e) \<in> set (ys @ (a, e) # zs)" by simp
  then have "ce_lru_node e \<noteq> None" using assms unfolding cache_parts_def by blast
  then obtain n where n: "ce_lru_node e = Some n" by blast
  have "list_rep (c_nodes c) (c_lru_list c) (lru_cells ys @ (n, Some a) # lru_cells zs)" using assms n by (simp add: cache_parts_def)
  note lr = this
  obtain h l where r: "mcp_list_remove (c_nodes c) (c_lru_list c) (Some n) False = Some (Some a, [], h, l)"
    "list_rep h l (lru_cells ys @ lru_cells zs)" "h n = None" "\<forall>b. b \<notin> insert n (fst ` set (lru_cells ys @ lru_cells zs)) \<longrightarrow> h b = c_nodes c b"
    using remove_rep [OF lr, of False] by auto
  have "h b = None" if fresh: "c_nodes c b = None" for b
    using list_rep_fresh [OF lr fresh] r(3,4) fresh by (cases "b = n") (auto simp: image_Un)
  then show thesis using that r(1,2) n by simp
qed

lemma remove_entry_rep:
  assumes rep: "cache_rep c (ys @ (a, e) # zs)"
  shows "\<exists>c'. remove_entry (ce_key e) e c = Some (0, c') \<and> cache_rep c' (ys @ zs) \<and>
    c_capacity c' = c_capacity c \<and> c_default_ttl_seconds c' = c_default_ttl_seconds c \<and>
    (\<forall>n. c_nodes c n = None \<longrightarrow> c_nodes c' n = None) \<and> ht_capacity (c_table c') = ht_capacity (c_table c)"
proof -
  have parts: "cache_parts c (ys @ (a, e) # zs)" using rep by (simp add: cache_rep_def)
  obtain h l where l: "mcp_list_remove (c_nodes c) (c_lru_list c) (ce_lru_node e) False = Some (Some a, [], h, l)"
    "list_rep h l (lru_cells (ys @ zs))" "\<And>n. c_nodes c n = None \<Longrightarrow> h n = None" using list_part [OF parts] by metis
  have inv: "ht_inv cache_ops (c_table c)" and m: "ht_map cache_ops (c_table c) = map_of (key_index (ys @ (a, e) # zs))"
    and d: "distinct (map fst (key_index (ys @ (a, e) # zs)))" "distinct (map fst (ys @ (a, e) # zs))"
    and es: "dom (c_entries c) = fst ` set (ys @ (a, e) # zs)" "\<forall>b x. (b, x) \<in> set (ys @ (a, e) # zs) \<longrightarrow> c_entries c b = Some x \<and> ce_lru_node x \<noteq> None"
    using rep unfolding cache_rep_def cache_parts_def by blast+
  obtain rc t evs where r: "mcp_hashtable_remove cache_ops (c_table c) (ce_key e) = (rc, t, evs)" by (metis prod_cases3)
  have "ht_map cache_ops (c_table c) (ce_key e) = Some a" unfolding m by (rule map_of_is_SomeI [OF d(1)]) simp
  with string_key.remove_spec [OF inv r] have t: "rc = 0" "ht_inv cache_ops t" "evs = [KeyFree (ce_key e), ValueFree a]"
    "ht_map cache_ops t = map_of (key_index (ys @ zs))"
    using map_of_index_remove [OF d(1)] m by (auto simp: value_free_call_def string_ops_def)
  have "free_entries evs (c_entries c) = Some ((c_entries c)(a := None))" using t(3) es(2) by simp
  then have "remove_entry (ce_key e) e c = Some (0, c\<lparr>c_nodes := h, c_lru_list := l, c_table := t, c_entries := (c_entries c)(a := None)\<rparr>)"
    using l(1) r t(1) by (simp add: remove_entry_def)
  moreover have "cache_rep (c\<lparr>c_nodes := h, c_lru_list := l, c_table := t, c_entries := (c_entries c)(a := None)\<rparr>) (ys @ zs)"
  proof -
    have a: "a \<notin> fst ` set (ys @ zs)" using d(2) by auto
    have "b \<noteq> a \<and> c_entries c b = Some x \<and> ce_lru_node x \<noteq> None" if x: "(b, x) \<in> set (ys @ zs)" for b x
    proof -
      have "b \<in> fst ` set (ys @ zs)" using x by (metis fst_conv image_eqI)
      moreover have "(b, x) \<in> set (ys @ (a, e) # zs)" using x by auto
      ultimately show ?thesis using a es(2) by blast
    qed
    moreover have "dom ((c_entries c)(a := None)) = fst ` set (ys @ zs)" using es(1) a by auto
    ultimately show ?thesis using l(2) t(2,4) d by (simp add: cache_rep_def cache_parts_def)
  qed
  moreover have "ht_capacity t = ht_capacity (c_table c)" using r by (auto simp: mcp_hashtable_remove_def Let_def split: option.splits)
  ultimately show ?thesis using l(3) by auto
qed

text \<open>The new entry, when the entries but the one it replaces are in the list.\<close>

lemma add_entry_rep:
  assumes parts: "cache_parts c xs" and m: "ht_map cache_ops (c_table c) = (map_of (key_index xs))(uri := old)"
    and es: "dom (c_entries c) = fst ` set xs \<union> set_option old" "\<forall>b. old = Some b \<longrightarrow> b \<notin> fst ` set xs"
    and new: "uri \<notin> fst ` set (key_index xs)" "c_entries c a = None" "c_nodes c n = None" "ce_key e = uri"
    and put: "mcp_hashtable_put cache_ops m (c_table c) uri a = (0, t, evs, m')"
  shows "\<exists>c'. add_entry_to_cache m (Some n) uri a e c = Some (0, c') \<and> cache_rep c' ((a, e\<lparr>ce_lru_node := Some n\<rparr>) # xs) \<and>
    c_capacity c' = c_capacity c \<and> c_default_ttl_seconds c' = c_default_ttl_seconds c"
proof -
  have inv: "ht_inv cache_ops (c_table c)" and lr: "list_rep (c_nodes c) (c_lru_list c) (lru_cells xs)"
    and d: "distinct (map fst xs)" "distinct (map fst (key_index xs))"
    and live: "\<forall>a e. (a, e) \<in> set xs \<longrightarrow> c_entries c a = Some e \<and> ce_lru_node e \<noteq> None"
    using parts unfolding cache_parts_def by blast+
  obtain h l where l: "mcp_list_push_front (Some n) (c_nodes c) (c_lru_list c) (Some a) = Some (Some n, h, l)"
    "list_rep h l ((n, Some a) # lru_cells xs)" using push_front_rep [OF lr new(3), of "Some a"] by blast
  from string_key.put_spec [OF inv put] have t: "ht_inv cache_ops t" "ht_map cache_ops t = (map_of (key_index xs))(uri \<mapsto> a)"
    "evs = (case old of None \<Rightarrow> [] | Some b \<Rightarrow> [ValueFree b])"
    using m by (auto simp: put_post_def value_free_call_def string_ops_def split: option.splits)
  have anew: "a \<notin> fst ` set xs" "old \<noteq> Some a" using es(1) new(2) by auto
  define es' where "es' = (case old of None \<Rightarrow> c_entries c | Some b \<Rightarrow> (c_entries c)(b := None))"
  have f: "free_entries evs (c_entries c) = Some es'" using t(3) es(1) by (auto simp: es'_def split: option.splits)
  have es': "dom es' = fst ` set xs" "es' b = c_entries c b" if "b \<in> fst ` set xs" for b
    using es that by (auto simp: es'_def split: option.splits)
  have dom: "dom es' = fst ` set xs" using es by (auto simp: es'_def split: option.splits)
  have "add_entry_to_cache m (Some n) uri a e c =
      Some (0, c\<lparr>c_nodes := h, c_lru_list := l, c_table := t, c_entries := es'(a \<mapsto> e\<lparr>ce_lru_node := Some n\<rparr>)\<rparr>)"
    using l(1) put f by (simp add: add_entry_to_cache_def)
  moreover have "cache_rep (c\<lparr>c_nodes := h, c_lru_list := l, c_table := t, c_entries := es'(a \<mapsto> e\<lparr>ce_lru_node := Some n\<rparr>)\<rparr>)
      ((a, e\<lparr>ce_lru_node := Some n\<rparr>) # xs)"
  proof -
    have "b \<noteq> a \<and> es' b = Some x \<and> ce_lru_node x \<noteq> None" if x: "(b, x) \<in> set xs" for b x
    proof -
      have "b \<in> fst ` set xs" using x by (metis fst_conv image_eqI)
      then show ?thesis using live x anew(1) es'(2) [of b] by auto
    qed
    then show ?thesis using l(2) t(1,2) d new(1,4) anew(1) dom by (auto simp: cache_rep_def cache_parts_def)
  qed
  ultimately show ?thesis by auto
qed


lemma table_put_succeeds:
  fixes t :: "(string, 'v) mcp_hashtable"
  assumes "ht_inv cache_ops t" "ht_capacity t < 2 ^ 59"
  shows "\<exists>t' evs. mcp_hashtable_put cache_ops [] t uri a = (0, t', evs, [])"
proof -
  obtain k where k: "k < 60" "ht_capacity t = 2 ^ k" using assms(1) by (auto simp: ht_inv_def)
  have "unat (2 ^ k :: size_t) < unat (2 ^ 59 :: size_t)" using assms(2) k(2) by (simp only: word_less_nat_alt)
  then have k59: "(2::nat) ^ k < 2 ^ 59" using k(1) unat_exp_64 [of k] unat_exp_64 [of 59] by simp
  from k59 have k2: "k < 59" by (rule power_less_imp_less_exp [rotated]) simp
  have u: "unat (2 ^ Suc k :: size_t) = 2 ^ Suc k" using k2 by (intro unat_exp_64) simp
  have u8: "unat (2 ^ Suc k * 8 :: size_t) = 2 ^ Suc k * 8"
    using unat_exp_64 [of "Suc k + 3"] k2 by (simp add: power_add)
  have gt: "\<not> ht_capacity t * 2 \<le> ht_capacity t"
  proof -
    have "unat (2 ^ k :: size_t) < unat (2 ^ Suc k :: size_t)" using u unat_exp_64 [of k] k(1) by simp
    then show ?thesis using k(2) by (simp add: word_le_nat_alt mult.commute)
  qed
  have "alloc_buckets [] (ht_capacity t * 2) = (Some (replicate (2 ^ Suc k) ([] :: (string \<times> 'v) list)), [])"
    using u u8 k(2) k59 by (simp add: alloc_buckets_def mult.commute)
  then have "\<exists>t1. hashtable_resize cache_ops [] t (ht_capacity t * 2) = (0, t1, [])"
    using gt by (simp add: hashtable_resize_def)
  then obtain t1 where t1: "(if load_exceeds (ht_size t + 1) (ht_capacity t) (ht_threshold t)
      then hashtable_resize cache_ops [] t (ht_capacity t * 2) else (0, t, [])) = (0, t1, [])" by (cases "load_exceeds (ht_size t + 1) (ht_capacity t) (ht_threshold t)") auto
  have "key_dup cache_ops [] uri = (Some uri, [])" by (simp add: string_ops_def dup_by_alloc_def)
  then show ?thesis
    by (cases "find_entry cache_ops uri (ht_buckets t1 ! bucket_index cache_ops (ht_capacity t1) uri)")
      (auto simp: mcp_hashtable_put_def Let_def t1 split: prod.splits)
qed

definition cache_copy :: "mcp_content_item \<Rightarrow> mcp_content_item" where
  "cache_copy x = copy_of (Some (case item_mime_type x of Some s \<Rightarrow> s | None \<Rightarrow> [])) x"

lemma copy_items_ok:
  assumes "\<forall>x \<in> set xs. item_sized x"
  shows "copy_items [] xs = Some (Inr (map cache_copy xs), [])"
  using assms
proof (induction xs)
  case Nil
  then show ?case by simp
next
  case (Cons x xs)
  have x: "item_sized x" using Cons.prems by simp
  have "length (case item_mime_type x of Some s \<Rightarrow> s | None \<Rightarrow> []) < 2 ^ 60"
    using x by (auto simp: item_sized_def split: option.splits)
  then have "mcp_content_item_acquire_pooled [] (item_type x) (Some (case item_mime_type x of Some s \<Rightarrow> s | None \<Rightarrow> []))
      (item_data x) (item_data_size x) = Some (Some (cache_copy x), [])"
    unfolding cache_copy_def by (intro acquire_pooled_ok [OF x]) simp
  with Cons show ?case by simp
qed

lemma copy_items_cases:
  assumes "\<forall>x \<in> set xs. item_sized x"
  shows "(\<exists>i m'. copy_items m xs = Some (Inl i, m') \<and> i < length xs) \<or> (\<exists>m'. copy_items m xs = Some (Inr (map cache_copy xs), m'))"
  using assms
proof (induction xs arbitrary: m)
  case Nil
  then show ?case by simp
next
  case (Cons x xs)
  obtain r m1 where a: "mcp_content_item_acquire_pooled m (item_type x) (Some (case item_mime_type x of Some s \<Rightarrow> s | None \<Rightarrow> []))
      (item_data x) (item_data_size x) = Some (r, m1)" "r = None \<or> r = Some (cache_copy x)"
    using acquire_pooled_cases [of x m] Cons.prems unfolding cache_copy_def by (metis list.set_intros(1))
  then show ?case using Cons.IH [of m1] Cons.prems by auto
qed

lemma cache_copy_sized: "item_sized x \<Longrightarrow> item_sized (cache_copy x)"
  unfolding cache_copy_def by (rule copy_sized) (auto simp: item_sized_def c_str_ok_def split: option.splits)

lemma cache_copy_copy: "item_sized x \<Longrightarrow> cache_copy (cache_copy x) = cache_copy x"
  by (auto simp: cache_copy_def copy_of_def item_sized_def split: option.splits)

section \<open>The abstract cache\<close>

type_synonym cache_line = "string \<times> mcp_content_item list \<times> int"

definition cell_line :: "nat \<times> mcp_cache_entry \<Rightarrow> cache_line" where
  "cell_line x = (ce_key (snd x), ce_content (snd x), ce_expiry_time (snd x))"

abbreviation cache_view :: "cache_cells \<Rightarrow> cache_line list" where
  "cache_view xs \<equiv> map cell_line xs"

abbreviation other_lines :: "string \<Rightarrow> cache_line list \<Rightarrow> cache_line list" where
  "other_lines uri s \<equiv> filter (\<lambda>x. fst x \<noteq> uri) s"

definition line_expired :: "int \<Rightarrow> cache_line \<Rightarrow> bool" where
  "line_expired now x \<longleftrightarrow> snd (snd x) \<noteq> 0 \<and> snd (snd x) \<le> now"

definition put_ok :: "mcp_content_item option list \<Rightarrow> bool" where
  "put_ok content \<longleftrightarrow> content \<noteq> [] \<and> None \<notin> set content \<and>
     (\<forall>x \<in> set content. item_data (the x) = None \<longrightarrow> item_data_size (the x) = 0)"

text \<open>
  The operations of a client, as they run when no allocation fails (\<open>exec_cache\<close> is a specification
  device for such runs: every answer of the allocator is a success, and the addresses of a \<open>Put\<close> are
  new).  What a failed allocation does is in \<open>cache_get_any_memory\<close> and \<open>failed_put_dangles\<close>.
\<close>

datatype cache_op =
    Get int string
  | Put int nat nat string "mcp_content_item option list" int
  | Invalidate string
  | Prune int

fun exec_cache :: "cache_op \<Rightarrow> mcp_resource_cache \<Rightarrow> (int \<times> mcp_content_item list option \<times> mcp_resource_cache) option" where
  "exec_cache (Get now uri) c = mcp_cache_get now [] uri c"
| "exec_cache (Put now a n uri content ttl) c =
     map_option (\<lambda>(rc, c'). (rc, None, c')) (mcp_cache_put now [] (Some a) (Some n) uri content ttl c)"
| "exec_cache (Invalidate uri) c = map_option (\<lambda>(rc, c'). (rc, None, c')) (mcp_cache_invalidate uri c)"
| "exec_cache (Prune now) c = map_option (\<lambda>(k, c'). (int k, None, c')) (mcp_cache_prune_expired now [] c)"

fun spec_cache :: "nat \<Rightarrow> int \<Rightarrow> cache_op \<Rightarrow> cache_line list \<Rightarrow> int \<times> mcp_content_item list option \<times> cache_line list" where
  "spec_cache cap ttl0 (Get now uri) s =
     (case map_of s uri of
        None \<Rightarrow> (-1, None, s)
      | Some (items, expiry) \<Rightarrow>
          if line_expired now (uri, items, expiry) then (-1, None, other_lines uri s)
          else (0, Some items, (uri, items, expiry) # other_lines uri s))"
| "spec_cache cap ttl0 (Put now a n uri content ttl) s =
     (if \<not> put_ok content then (-1, None, s)
      else (0, None, take cap ((uri, map (cache_copy \<circ> the) content,
              let d = (if ttl = 0 then ttl0 else ttl) in if d < 0 then 0 else now + d) # other_lines uri s)))"
| "spec_cache cap ttl0 (Invalidate uri) s = (if uri \<in> fst ` set s then 0 else -1, None, other_lines uri s)"
| "spec_cache cap ttl0 (Prune now) s = (int (length (filter (line_expired now) s)), None, filter (\<lambda>x. \<not> line_expired now x) s)"

fun legal_cache :: "cache_op \<Rightarrow> mcp_resource_cache \<Rightarrow> bool" where
  "legal_cache (Put now a n uri content ttl) c \<longleftrightarrow>
     c_entries c a = None \<and> c_nodes c n = None \<and> length uri < 2 ^ 60 \<and> ht_capacity (c_table c) < 2 ^ 59 \<and>
     (\<forall>x \<in> set content. x \<noteq> None \<longrightarrow> item_sized (the x))"
| "legal_cache (Prune now) c \<longleftrightarrow> (\<forall>a e. c_entries c a = Some e \<longrightarrow> length (ce_key e) < 2 ^ 60)"
| "legal_cache _ c \<longleftrightarrow> True"

text \<open>The items of the entries are copies: copying them again changes nothing.\<close>

definition cache_ok :: "mcp_resource_cache \<Rightarrow> cache_cells \<Rightarrow> bool" where
  "cache_ok c xs \<longleftrightarrow> cache_rep c xs \<and> length xs \<le> unat (c_capacity c) \<and>
     (\<forall>x \<in> set xs. length (ce_key (snd x)) < 2 ^ 60 \<and> (\<forall>y \<in> set (ce_content (snd x)). item_sized y \<and> cache_copy y = y))"

lemma view_split:
  assumes "cache_rep c (ys @ (a, e) # zs)"
  shows "map_of (cache_view (ys @ (a, e) # zs)) (ce_key e) = Some (ce_content e, ce_expiry_time e)"
    "other_lines (ce_key e) (cache_view (ys @ (a, e) # zs)) = cache_view (ys @ zs)"
proof -
  have k: "map fst (key_index us) = map fst (cache_view us)" for us by (induction us) (auto simp: cell_line_def key_index_def)
  have "distinct (map fst (cache_view (ys @ (a, e) # zs)))" using assms unfolding cache_rep_def cache_parts_def k by blast
  then have n: "\<forall>x \<in> set (cache_view ys). fst x \<noteq> ce_key e" "\<forall>x \<in> set (cache_view zs). fst x \<noteq> ce_key e"
    by (auto simp: cell_line_def image_iff)
  have "map_of (cache_view ys) (ce_key e) = None" using n(1) by (auto simp: map_of_eq_None_iff)
  then show "map_of (cache_view (ys @ (a, e) # zs)) (ce_key e) = Some (ce_content e, ce_expiry_time e)"
    by (simp add: map_add_def cell_line_def)
  show "other_lines (ce_key e) (cache_view (ys @ (a, e) # zs)) = cache_view (ys @ zs)" using n by (simp add: cell_line_def)
qed

lemma view_missing:
  assumes "uri \<notin> fst ` set (key_index xs)"
  shows "map_of (cache_view xs) uri = None" "other_lines uri (cache_view xs) = cache_view xs"
proof -
  have "fst ` set (key_index xs) = fst ` set (cache_view xs)" by (force simp: cell_line_def key_index_def image_iff)
  with assms have n: "uri \<notin> fst ` set (cache_view xs)" by simp
  then show "map_of (cache_view xs) uri = None" by (simp add: map_of_eq_None_iff)
  show "other_lines uri (cache_view xs) = cache_view xs" using n by (intro filter_True) (metis image_eqI)
qed


lemma entry_found:
  assumes rep: "cache_rep c (ys @ (a, e) # zs)"
  shows "mcp_hashtable_get cache_ops (c_table c) (ce_key e) = (0, Some a)" "c_entries c a = Some e" "ce_lru_node e \<noteq> None"
proof -
  have d: "distinct (map fst (key_index (ys @ (a, e) # zs)))" and mp: "ht_map cache_ops (c_table c) = map_of (key_index (ys @ (a, e) # zs))"
    and live: "\<forall>b x. (b, x) \<in> set (ys @ (a, e) # zs) \<longrightarrow> c_entries c b = Some x \<and> ce_lru_node x \<noteq> None"
    using rep unfolding cache_rep_def cache_parts_def by blast+
  have "ht_map cache_ops (c_table c) (ce_key e) = Some a" unfolding mp by (rule map_of_is_SomeI [OF d]) simp
  then show "mcp_hashtable_get cache_ops (c_table c) (ce_key e) = (0, Some a)" by (simp add: string_key.get_map)
  have "(a, e) \<in> set (ys @ (a, e) # zs)" by simp
  then show "c_entries c a = Some e" "ce_lru_node e \<noteq> None" using live by blast+
qed

lemma cache_get_hit:
  assumes ok: "cache_ok c (ys @ (a, e) # zs)" and copied: "copy_items m2 (ce_content e) = Some (Inr items, m3)"
    and live: "\<not> is_expired now e" and mem: "mem_alloc m = (True, m1)" "mem_alloc m1 = (True, m2)"
  shows "\<exists>c'. mcp_cache_get now m (ce_key e) c = Some (0, Some items, c') \<and>
    cache_ok c' ((a, e\<lparr>ce_last_accessed := now\<rparr>) # ys @ zs) \<and> c_capacity c' = c_capacity c \<and> c_default_ttl_seconds c' = c_default_ttl_seconds c"
proof -
  have rep: "cache_rep c (ys @ (a, e) # zs)" and parts: "cache_parts c (ys @ (a, e) # zs)" using ok by (auto simp: cache_ok_def cache_rep_def)
  obtain n where n: "ce_lru_node e = Some n" "c_entries c a = Some e" using entry_found(2,3) [OF rep] by blast
  have "list_rep (c_nodes c) (c_lru_list c) (lru_cells ys @ (n, Some a) # lru_cells zs)" using parts n by (simp add: cache_parts_def)
  from move_to_front_rep [OF this] obtain h l where l: "mcp_list_move_to_front (c_nodes c) (c_lru_list c) (Some n) = Some (h, l)"
    "list_rep h l ((n, Some a) # lru_cells ys @ lru_cells zs)" by blast
  have d: "distinct (map fst (key_index (ys @ (a, e) # zs)))" "distinct (map fst (ys @ (a, e) # zs))"
    and es: "dom (c_entries c) = fst ` set (ys @ (a, e) # zs)" "\<forall>b x. (b, x) \<in> set (ys @ (a, e) # zs) \<longrightarrow> c_entries c b = Some x \<and> ce_lru_node x \<noteq> None"
    and inv: "ht_inv cache_ops (c_table c)" and mp: "ht_map cache_ops (c_table c) = map_of (key_index (ys @ (a, e) # zs))"
    using rep unfolding cache_rep_def cache_parts_def by blast+
  note g = entry_found(1) [OF rep]
  let ?e = "e\<lparr>ce_last_accessed := now\<rparr>"
  let ?c = "c\<lparr>c_nodes := h, c_lru_list := l, c_entries := (c_entries c)(a \<mapsto> ?e)\<rparr>"
  have run: "mcp_cache_get now m (ce_key e) c = Some (0, Some items, ?c)"
    using g n live copied mem l(1) by (simp add: mcp_cache_get_def)
  have a: "a \<notin> fst ` set (ys @ zs)" using d(2) by auto
  have rest: "b \<noteq> a \<and> c_entries c b = Some x \<and> ce_lru_node x \<noteq> None" if x: "(b, x) \<in> set (ys @ zs)" for b x
  proof -
    have "b \<in> fst ` set (ys @ zs)" using x by (metis fst_conv image_eqI)
    moreover have "(b, x) \<in> set (ys @ (a, e) # zs)" using x by auto
    ultimately show ?thesis using a es(2) by blast
  qed
  have "map_of (key_index ((a, ?e) # ys @ zs)) = map_of (key_index (ys @ (a, e) # zs))"
    using map_of_index_remove [OF d(1)] d(1) by (subst map_of_inject_set) (auto)
  then have "cache_rep ?c ((a, ?e) # ys @ zs)"
    using l(2) n(1) d inv mp rest es(1) by (auto simp: cache_rep_def cache_parts_def)
  moreover have "\<forall>x \<in> set ((a, ?e) # ys @ zs). length (ce_key (snd x)) < 2 ^ 60 \<and> (\<forall>y \<in> set (ce_content (snd x)). item_sized y \<and> cache_copy y = y)"
    using ok by (auto simp: cache_ok_def)
  ultimately show ?thesis using run ok by (auto simp: cache_ok_def)
qed

lemma remove_entry_ok:
  assumes ok: "cache_ok c (ys @ (a, e) # zs)"
  shows "\<exists>c'. remove_entry (ce_key e) e c = Some (0, c') \<and> cache_ok c' (ys @ zs) \<and>
    c_capacity c' = c_capacity c \<and> c_default_ttl_seconds c' = c_default_ttl_seconds c"
proof -
  from ok have rep: "cache_rep c (ys @ (a, e) # zs)" by (simp add: cache_ok_def)
  obtain c' where c': "remove_entry (ce_key e) e c = Some (0, c')" "cache_rep c' (ys @ zs)" "c_capacity c' = c_capacity c"
    "c_default_ttl_seconds c' = c_default_ttl_seconds c"
    using remove_entry_rep [OF rep] by blast
  have "length (ys @ zs) \<le> unat (c_capacity c)" using ok by (simp add: cache_ok_def)
  moreover have "\<forall>x \<in> set (ys @ zs). length (ce_key (snd x)) < 2 ^ 60 \<and> (\<forall>y \<in> set (ce_content (snd x)). item_sized y \<and> cache_copy y = y)"
    using ok by (auto simp: cache_ok_def)
  ultimately show ?thesis using c' by (auto simp: cache_ok_def)
qed

lemma get_step:
  assumes ok: "cache_ok c xs"
  shows "\<exists>c' xs'. mcp_cache_get now [] uri c =
      Some (fst (spec_cache cap d (Get now uri) (cache_view xs)), fst (snd (spec_cache cap d (Get now uri) (cache_view xs))), c') \<and>
    cache_ok c' xs' \<and> cache_view xs' = snd (snd (spec_cache cap d (Get now uri) (cache_view xs))) \<and>
    c_capacity c' = c_capacity c \<and> c_default_ttl_seconds c' = c_default_ttl_seconds c"
proof (cases "snd (mcp_hashtable_get cache_ops (c_table c) uri)")
  case None
  then obtain rc where g: "mcp_hashtable_get cache_ops (c_table c) uri = (rc, None)" by (metis prod.collapse)
  have "cache_rep c xs" using ok by (simp add: cache_ok_def)
  from view_missing [OF get_missing [OF this g]] show ?thesis using ok g
    by (intro exI [of _ c] exI [of _ xs]) (simp add: mcp_cache_get_def)
next
  case (Some a)
  then obtain rc where g: "mcp_hashtable_get cache_ops (c_table c) uri = (rc, Some a)" by (metis prod.collapse)
  have rep: "cache_rep c xs" using ok by (simp add: cache_ok_def)
  obtain ys e zs where x: "xs = ys @ (a, e) # zs" "ce_key e = uri" "c_entries c a = Some e" using get_found [OF rep g] by metis
  note v = view_split [OF rep [unfolded x(1)], unfolded x(2)]
  show ?thesis
  proof (cases "is_expired now e")
    case True
    obtain c' where c': "remove_entry uri e c = Some (0, c')" "cache_ok c' (ys @ zs)" "c_capacity c' = c_capacity c"
      "c_default_ttl_seconds c' = c_default_ttl_seconds c"
      using remove_entry_ok [OF ok [unfolded x(1)]] x(2) by auto
    have "line_expired now (uri, ce_content e, ce_expiry_time e)" using True by (simp add: line_expired_def is_expired_def)
    then show ?thesis using c' g x v True
      by (intro exI [of _ c'] exI [of _ "ys @ zs"]) (simp add: mcp_cache_get_def)
  next
    case False
    have items: "\<forall>y \<in> set (ce_content e). item_sized y" "map cache_copy (ce_content e) = ce_content e"
      using ok x(1) by (auto simp: cache_ok_def intro: map_idI)
    obtain c' where c': "mcp_cache_get now [] uri c = Some (0, Some (ce_content e), c')"
      "cache_ok c' ((a, e\<lparr>ce_last_accessed := now\<rparr>) # ys @ zs)" "c_capacity c' = c_capacity c" "c_default_ttl_seconds c' = c_default_ttl_seconds c"
      using cache_get_hit [OF ok [unfolded x(1)] _ False, of "[]" "map cache_copy (ce_content e)" "[]" "[]" "[]"] copy_items_ok [OF items(1)] items(2) x(2) by auto
    have "\<not> line_expired now (uri, ce_content e, ce_expiry_time e)" using False by (simp add: line_expired_def is_expired_def)
    then show ?thesis using c' x v
      by (intro exI [of _ c'] exI [of _ "(a, e\<lparr>ce_last_accessed := now\<rparr>) # ys @ zs"]) (simp add: cell_line_def)
  qed
qed

lemma invalidate_step:
  assumes ok: "cache_ok c xs"
  shows "\<exists>c' xs'. mcp_cache_invalidate uri c = Some (if uri \<in> fst ` set (cache_view xs) then 0 else -1, c') \<and>
    cache_ok c' xs' \<and> cache_view xs' = other_lines uri (cache_view xs) \<and>
    c_capacity c' = c_capacity c \<and> c_default_ttl_seconds c' = c_default_ttl_seconds c"
proof (cases "snd (mcp_hashtable_get cache_ops (c_table c) uri)")
  case None
  then obtain rc where g: "mcp_hashtable_get cache_ops (c_table c) uri = (rc, None)" by (metis prod.collapse)
  have "cache_rep c xs" using ok by (simp add: cache_ok_def)
  note v = view_missing [OF get_missing [OF this g]]
  then have "uri \<notin> fst ` set (cache_view xs)" by (simp add: map_of_eq_None_iff)
  then show ?thesis using ok g v by (intro exI [of _ c] exI [of _ xs]) (simp add: mcp_cache_invalidate_def)
next
  case (Some a)
  then obtain rc where g: "mcp_hashtable_get cache_ops (c_table c) uri = (rc, Some a)" by (metis prod.collapse)
  have rep: "cache_rep c xs" using ok by (simp add: cache_ok_def)
  obtain ys e zs where x: "xs = ys @ (a, e) # zs" "ce_key e = uri" "c_entries c a = Some e" using get_found [OF rep g] by metis
  note v = view_split [OF rep [unfolded x(1)], unfolded x(2)]
  obtain c' where c': "remove_entry uri e c = Some (0, c')" "cache_ok c' (ys @ zs)" "c_capacity c' = c_capacity c"
    "c_default_ttl_seconds c' = c_default_ttl_seconds c"
    using remove_entry_ok [OF ok [unfolded x(1)]] x(2) by auto
  have "uri \<in> fst ` set (cache_view xs)" using x(1,2) by (auto simp: cell_line_def)
  then show ?thesis using c' g x v by (intro exI [of _ c'] exI [of _ "ys @ zs"]) (simp add: mcp_cache_invalidate_def)
qed


lemma unat_64: "unat (w :: size_t) < 2 ^ 64"
  using unsigned_less [of w, where 'a = nat] by simp

lemma table_count:
  assumes ok: "cache_ok c xs"
  shows "ht_size (c_table c) = of_nat (length xs)"
proof -
  have inv: "ht_inv cache_ops (c_table c)" and m: "ht_map cache_ops (c_table c) = map_of (key_index xs)"
    and d: "distinct (map fst (key_index xs))" using ok by (auto simp: cache_ok_def cache_rep_def cache_parts_def)
  have "card (dom (ht_map cache_ops (c_table c))) = length xs"
    using distinct_card [OF d] by (simp add: m dom_map_of_conv_image_fst) (simp add: key_index_def)
  then show ?thesis using ht_size_card [OF inv] by simp
qed

lemma table_size:
  assumes ok: "cache_ok c xs"
  shows "mcp_hashtable_size (Some (c_table c)) \<ge> c_capacity c \<longleftrightarrow> length xs \<ge> unat (c_capacity c)"
  using table_count [OF ok] unat_64 [of "c_capacity c"] ok
  by (simp add: mcp_hashtable_size_def word_le_nat_alt unat_of_nat cache_ok_def)

lemma evict_ok:
  assumes ok: "cache_ok c (ys @ [(a, e)])"
  shows "\<exists>c'. evict_lru_entry c = Some (True, c') \<and> cache_rep c' ys \<and> c_capacity c' = c_capacity c \<and>
    c_default_ttl_seconds c' = c_default_ttl_seconds c \<and>
    (\<forall>n. c_nodes c n = None \<longrightarrow> c_nodes c' n = None) \<and> ht_capacity (c_table c') = ht_capacity (c_table c)"
proof -
  have rep: "cache_rep c (ys @ [(a, e)])" and parts: "cache_parts c (ys @ [(a, e)])" using ok by (auto simp: cache_ok_def cache_rep_def)
  obtain n where n: "ce_lru_node e = Some n" "c_entries c a = Some e" using entry_found(2,3) [OF rep] by blast
  have l: "list_rep (c_nodes c) (c_lru_list c) (lru_cells ys @ [(n, Some a)])" using parts n by (simp add: cache_parts_def)
  then have tail: "l_tail (c_lru_list c) = Some n" "\<exists>x. c_nodes c n = Some x \<and> n_data x = Some a"
    by (auto simp: list_rep_def chain_append)
  have ne: "\<not> mcp_list_is_empty (Some (c_lru_list c))"
  proof -
    have "length ys + 1 < 2 ^ 64" using ok unat_64 [of "c_capacity c"] by (simp add: cache_ok_def)
    then have "(of_nat (length ys + 1) :: size_t) \<noteq> 0" by (simp add: word_unat_eq_iff unat_of_nat del: of_nat_add of_nat_Suc)
    then show ?thesis using l by (auto simp: mcp_list_is_empty_def list_rep_def lru_cells_def add.commute)
  qed
  have e: "e\<lparr>ce_lru_node := Some n\<rparr> = e" using n(1) by (cases e) simp
  have "\<exists>c'. remove_entry (ce_key e) e c = Some (0, c') \<and> cache_rep c' ys \<and> c_capacity c' = c_capacity c \<and>
    c_default_ttl_seconds c' = c_default_ttl_seconds c \<and>
    (\<forall>n. c_nodes c n = None \<longrightarrow> c_nodes c' n = None) \<and> ht_capacity (c_table c') = ht_capacity (c_table c)"
    using remove_entry_rep [of c ys a e "[]"] rep by simp
  then show ?thesis using tail ne n(2) e by (auto simp: evict_lru_entry_def)
qed

lemma fresh_entry:
  assumes "cache_rep c xs" "cache_rep c' ys" "set ys \<subseteq> set xs" "c_entries c a = None"
  shows "c_entries c' a = None"
proof -
  have "a \<notin> fst ` set xs" using assms(1,4) unfolding cache_rep_def by blast
  then have "a \<notin> fst ` set ys" using assms(3) by blast
  then show ?thesis using assms(2) unfolding cache_rep_def by blast
qed

text \<open>The new entry in front: the key was not there, or its old entry has just left the list.\<close>

lemma add_new:
  assumes rep: "cache_rep c xs" and uri: "uri \<notin> fst ` set (key_index xs)" and cap: "ht_capacity (c_table c) < 2 ^ 59"
    and new: "c_entries c a = None" "c_nodes c n = None" "ce_key e = uri"
  shows "\<exists>c'. add_entry_to_cache [] (Some n) uri a e c = Some (0, c') \<and> cache_rep c' ((a, e\<lparr>ce_lru_node := Some n\<rparr>) # xs) \<and>
    c_capacity c' = c_capacity c \<and> c_default_ttl_seconds c' = c_default_ttl_seconds c"
proof -
  have parts: "cache_parts c xs" and m: "ht_map cache_ops (c_table c) = map_of (key_index xs)" and dom: "dom (c_entries c) = fst ` set xs"
    using rep by (auto simp: cache_rep_def)
  obtain t evs where put: "mcp_hashtable_put cache_ops [] (c_table c) uri a = (0, t, evs, [])"
    using table_put_succeeds [OF _ cap, of uri a] parts unfolding cache_parts_def by blast
  have "ht_map cache_ops (c_table c) = (map_of (key_index xs))(uri := None)"
    using m uri by (simp add: fun_upd_idem map_of_eq_None_iff)
  from add_entry_rep [OF parts this _ _ uri new put] dom show ?thesis by simp
qed

lemma replace_entry:
  assumes rep: "cache_rep c (ys @ (b, x) # zs)" and uri: "ce_key x = uri" and cap: "ht_capacity (c_table c) < 2 ^ 59"
    and new: "c_entries c a = None" "c_nodes c n = None" "ce_key e = uri"
  shows "\<exists>h l c'. mcp_list_remove (c_nodes c) (c_lru_list c) (ce_lru_node x) False = Some (Some b, [], h, l) \<and>
    add_entry_to_cache [] (Some n) uri a e (c\<lparr>c_nodes := h, c_lru_list := l\<rparr>) = Some (0, c') \<and>
    cache_rep c' ((a, e\<lparr>ce_lru_node := Some n\<rparr>) # ys @ zs) \<and> c_capacity c' = c_capacity c \<and> c_default_ttl_seconds c' = c_default_ttl_seconds c"
proof -
  have parts: "cache_parts c (ys @ (b, x) # zs)" and m: "ht_map cache_ops (c_table c) = map_of (key_index (ys @ (b, x) # zs))"
    and dom: "dom (c_entries c) = fst ` set (ys @ (b, x) # zs)" using rep by (auto simp: cache_rep_def)
  obtain h l where l: "mcp_list_remove (c_nodes c) (c_lru_list c) (ce_lru_node x) False = Some (Some b, [], h, l)"
    "list_rep h l (lru_cells (ys @ zs))" "\<And>n. c_nodes c n = None \<Longrightarrow> h n = None" using list_part [OF parts] by metis
  have inv: "ht_inv cache_ops (c_table c)" and d: "distinct (map fst (key_index (ys @ (b, x) # zs)))" "distinct (map fst (ys @ (b, x) # zs))"
    and live: "\<forall>b' e. (b', e) \<in> set (ys @ (b, x) # zs) \<longrightarrow> c_entries c b' = Some e \<and> ce_lru_node e \<noteq> None"
    using parts unfolding cache_parts_def by blast+
  let ?c = "c\<lparr>c_nodes := h, c_lru_list := l\<rparr>"
  have p: "cache_parts ?c (ys @ zs)" using l(2) inv d live by (auto simp: cache_parts_def)
  have "map_of (key_index (ys @ (b, x) # zs)) uri = Some b" unfolding uri [symmetric] by (rule map_of_is_SomeI [OF d(1)]) simp
  then have m': "ht_map cache_ops (c_table ?c) = (map_of (key_index (ys @ zs)))(uri := Some b)"
    using map_of_index_remove [OF d(1), symmetric] m uri by (simp add: fun_upd_idem)
  obtain t evs where put: "mcp_hashtable_put cache_ops [] (c_table ?c) uri a = (0, t, evs, [])"
    using table_put_succeeds [OF inv cap, of uri a] by auto
  have fresh: "uri \<notin> fst ` set (key_index (ys @ zs))" "c_entries ?c a = None" "c_nodes ?c n = None"
    using d(1) uri new l(3) by auto
  have "dom (c_entries ?c) = fst ` set (ys @ zs) \<union> set_option (Some b)" "\<forall>b'. Some b = Some b' \<longrightarrow> b' \<notin> fst ` set (ys @ zs)"
    using dom d(2) by auto
  from add_entry_rep [OF p m' this fresh new(3) put] l(1) show ?thesis by auto
qed

lemma store_entry_ok:
  assumes ok: "cache_ok c xs" and cap: "ht_capacity (c_table c) < 2 ^ 59" "c_capacity c \<noteq> 0"
    and new: "c_entries c a = None" "c_nodes c n = None" "ce_key e = uri"
    and good: "length uri < 2 ^ 60" "\<forall>y \<in> set (ce_content e). item_sized y \<and> cache_copy y = y"
  shows "\<exists>c' xs'. store_entry [] (Some n) uri a e c = Some (0, c') \<and> cache_ok c' xs' \<and>
    cache_view xs' = take (unat (c_capacity c)) (cell_line (a, e) # other_lines uri (cache_view xs)) \<and>
    c_capacity c' = c_capacity c \<and> c_default_ttl_seconds c' = c_default_ttl_seconds c"
proof -
  have rep: "cache_rep c xs" and len: "length xs \<le> unat (c_capacity c)" using ok by (auto simp: cache_ok_def)
  have pos: "0 < unat (c_capacity c)" using cap(2) by (simp add: unat_gt_0)
  let ?x = "(a, e\<lparr>ce_lru_node := Some n\<rparr>)"
  have cell_line: "cell_line ?x = cell_line (a, e)" by (simp add: cell_line_def)
  have items: "cache_ok c' (?x # us)" if us: "cache_rep c' (?x # us)" "set us \<subseteq> set xs" "length us < unat (c_capacity c)" "c_capacity c' = c_capacity c" for c' us
    using us ok good new(3) by (auto simp: cache_ok_def)
  show ?thesis
  proof (cases "snd (mcp_hashtable_get cache_ops (c_table c) uri)")
    case (Some b)
    then obtain rc where g: "mcp_hashtable_get cache_ops (c_table c) uri = (rc, Some b)" by (metis prod.collapse)
    obtain ys x zs where x: "xs = ys @ (b, x) # zs" "ce_key x = uri" "c_entries c b = Some x" using get_found [OF rep g] by metis
    obtain h l c' where r: "mcp_list_remove (c_nodes c) (c_lru_list c) (ce_lru_node x) False = Some (Some b, [], h, l)"
      "add_entry_to_cache [] (Some n) uri a e (c\<lparr>c_nodes := h, c_lru_list := l\<rparr>) = Some (0, c')"
      "cache_rep c' (?x # ys @ zs)" "c_capacity c' = c_capacity c" "c_default_ttl_seconds c' = c_default_ttl_seconds c"
      using replace_entry [OF rep [unfolded x(1)] x(2) cap(1) new] by blast
    have "cache_ok c' (?x # ys @ zs)" using items [OF r(3) _ _ r(4)] x(1) len by auto
    moreover have "cache_view (?x # ys @ zs) = take (unat (c_capacity c)) (cell_line (a, e) # other_lines uri (cache_view xs))"
      using view_split(2) [OF rep [unfolded x(1)]] x(1,2) cell_line len by simp
    ultimately show ?thesis using g x(3) r by (intro exI [of _ c'] exI [of _ "?x # ys @ zs"]) (simp add: store_entry_def)
  next
    case None
    then obtain rc where g: "mcp_hashtable_get cache_ops (c_table c) uri = (rc, None)" by (metis prod.collapse)
    note miss = get_missing [OF rep g]
    note v = view_missing(2) [OF miss]
    show ?thesis
    proof (cases "length xs \<ge> unat (c_capacity c)")
      case False
      obtain c' where r: "add_entry_to_cache [] (Some n) uri a e c = Some (0, c')" "cache_rep c' (?x # xs)"
        "c_capacity c' = c_capacity c" "c_default_ttl_seconds c' = c_default_ttl_seconds c"
        using add_new [OF rep miss cap(1) new] by blast
      have "cache_view (?x # xs) = take (unat (c_capacity c)) (cell_line (a, e) # other_lines uri (cache_view xs))"
        using v cell_line False by simp
      moreover have "cache_ok c' (?x # xs)" using items [OF r(2) _ _ r(3)] False by simp
      ultimately show ?thesis using g r table_size [OF ok] False
        by (intro exI [of _ c'] exI [of _ "?x # xs"]) (simp add: store_entry_def)
    next
      case True
      then obtain ys b x where x: "xs = ys @ [(b, x)]" using pos by (cases xs rule: rev_cases) auto
      obtain c1 where e1: "evict_lru_entry c = Some (True, c1)" "cache_rep c1 ys" "c_capacity c1 = c_capacity c"
        "c_default_ttl_seconds c1 = c_default_ttl_seconds c" "\<forall>n. c_nodes c n = None \<longrightarrow> c_nodes c1 n = None"
        "ht_capacity (c_table c1) = ht_capacity (c_table c)"
        using evict_ok [OF ok [unfolded x]] by blast
      have f: "c_entries c1 a = None" "c_nodes c1 n = None" "uri \<notin> fst ` set (key_index ys)"
        using fresh_entry [OF rep e1(2) _ new(1)] x e1(5) new(2) miss by auto
      obtain c' where r: "add_entry_to_cache [] (Some n) uri a e c1 = Some (0, c')" "cache_rep c' (?x # ys)"
        "c_capacity c' = c_capacity c1" "c_default_ttl_seconds c' = c_default_ttl_seconds c1"
        using add_new [OF e1(2) f(3) _ f(1,2) new(3)] cap(1) e1(6) by auto
      have "cache_ok c' (?x # ys)" using items [OF r(2)] x len e1(3) r(3) by auto
      moreover have "cache_view (?x # ys) = take (unat (c_capacity c)) (cell_line (a, e) # other_lines uri (cache_view xs))"
        using v cell_line True len x by (simp add: take_Cons')
      ultimately show ?thesis using g r e1 table_size [OF ok] True
        by (intro exI [of _ c'] exI [of _ "?x # ys"]) (simp add: store_entry_def)
    qed
  qed
qed


lemma put_step:
  assumes ok: "cache_ok c xs" and legal: "legal_cache (Put now a n uri content ttl) c"
  shows "\<exists>c' xs'. mcp_cache_put now [] (Some a) (Some n) uri content ttl c = Some (if put_ok content then 0 else -1, c') \<and>
    cache_ok c' xs' \<and> cache_view xs' = snd (snd (spec_cache (unat (c_capacity c)) (c_default_ttl_seconds c) (Put now a n uri content ttl) (cache_view xs))) \<and>
    c_capacity c' = c_capacity c \<and> c_default_ttl_seconds c' = c_default_ttl_seconds c"
proof (cases "put_ok content")
  case False
  then have "mcp_cache_put now [] (Some a) (Some n) uri content ttl c = Some (-1, c)"
    by (auto simp: mcp_cache_put_def put_ok_def)
  then show ?thesis using ok False by auto
next
  case True
  have valid: "\<not> (content = [] \<or> None \<in> set content)" "\<not> (\<exists>x \<in> set content. item_data (the x) = None \<and> item_data_size (the x) > 0)"
    using True by (auto simp: put_ok_def)
  show ?thesis
  proof (cases "c_capacity c = 0")
    case zero: True
    then have "xs = []" using ok by (simp add: cache_ok_def)
    then show ?thesis using ok valid zero True by (intro exI [of _ c] exI [of _ "[]"]) (simp add: mcp_cache_put_def)
  next
    case False
    have sized: "\<forall>x \<in> set (map the content). item_sized x" using legal valid(1) by fastforce
    let ?items = "map cache_copy (map the content)"
    let ?e = "\<lparr>ce_key = uri, ce_content = ?items,
      ce_expiry_time = (let d = (if ttl = 0 then c_default_ttl_seconds c else ttl) in if d < 0 then 0 else now + d),
      ce_last_accessed = now, ce_lru_node = None\<rparr>"
    have run: "mcp_cache_put now [] (Some a) (Some n) uri content ttl c = store_entry [] (Some n) uri a ?e c"
      unfolding mcp_cache_put_def if_not_P [OF valid(1)] if_not_P [OF valid(2)]
      using False legal copy_items_ok [OF sized]
      by (simp add: mcp_cache_put_def create_cache_entry_def dup_no_failure Let_def)
    have "\<forall>y \<in> set (ce_content ?e). item_sized y \<and> cache_copy y = y"
      using sized cache_copy_sized cache_copy_copy by auto
    moreover have "ht_capacity (c_table c) < 2 ^ 59" "c_entries c a = None" "c_nodes c n = None" "ce_key ?e = uri" "length uri < 2 ^ 60"
      using legal by simp_all
    ultimately obtain c' xs' where "store_entry [] (Some n) uri a ?e c = Some (0, c')" "cache_ok c' xs'"
      "cache_view xs' = take (unat (c_capacity c)) (cell_line (a, ?e) # other_lines uri (cache_view xs))" "c_capacity c' = c_capacity c"
      "c_default_ttl_seconds c' = c_default_ttl_seconds c"
      using store_entry_ok [OF ok _ False] by blast
    then show ?thesis using run True by (intro exI [of _ c'] exI [of _ xs']) (simp add: cell_line_def Let_def)
  qed
qed

lemma collect_all:
  assumes "\<forall>(uri, a) \<in> set kvs. length uri < 2 ^ 60 \<and> es a \<noteq> None" "pr_mem p = []" "\<not> pr_error p"
  shows "\<exists>p'. foldl (\<lambda>s e. collect_expired_keys now es (fst e) (snd e) s) (Some p) kvs = Some p' \<and> \<not> pr_error p' \<and>
    pr_keys p' = pr_keys p @ filter (\<lambda>(uri, a). is_expired now (the (es a))) kvs"
  using assms
proof (induction kvs arbitrary: p)
  case Nil
  then show ?case by simp
next
  case (Cons kv kvs)
  obtain uri a where kv: "kv = (uri, a)" by fastforce
  obtain e where e: "es a = Some e" using Cons.prems(1) kv by auto
  have "\<exists>p1. (if length (pr_keys p) \<ge> pr_capacity p then grow_keys p else (True, p)) = (True, p1) \<and> pr_mem p1 = [] \<and> \<not> pr_error p1 \<and> pr_keys p1 = pr_keys p"
    using Cons.prems(2,3) by (simp add: grow_keys_def Let_def)
  then obtain p1 where p1: "(if length (pr_keys p) \<ge> pr_capacity p then grow_keys p else (True, p)) = (True, p1)" "pr_mem p1 = []" "\<not> pr_error p1" "pr_keys p1 = pr_keys p" by blast
  let ?q = "if is_expired now e then p1\<lparr>pr_keys := pr_keys p @ [(uri, a)], pr_mem := []\<rparr> else p"
  have "collect_expired_keys now es uri a (Some p) = Some ?q"
    using e p1 Cons.prems(1) kv by (auto simp: collect_expired_keys_def dup_no_failure)
  moreover have "pr_mem ?q = []" "\<not> pr_error ?q" using Cons.prems(2,3) p1 by simp_all
  then obtain p' where "foldl (\<lambda>s e. collect_expired_keys now es (fst e) (snd e) s) (Some ?q) kvs = Some p'" "\<not> pr_error p'"
    "pr_keys p' = pr_keys ?q @ filter (\<lambda>(uri, a). is_expired now (the (es a))) kvs"
    using Cons.IH [of ?q] Cons.prems(1) by auto
  ultimately show ?case using kv e by (intro exI [of _ p']) simp
qed

lemma remove_entries_ok:
  assumes "cache_ok c xs" "set keys \<subseteq> set (key_index xs)" "distinct keys"
  shows "\<exists>c'. remove_entries keys c = Some c' \<and> cache_ok c' (filter (\<lambda>(a, e). (ce_key e, a) \<notin> set keys) xs) \<and>
    c_capacity c' = c_capacity c \<and> c_default_ttl_seconds c' = c_default_ttl_seconds c"
  using assms
proof (induction keys arbitrary: c xs)
  case Nil
  then show ?case by simp
next
  case (Cons k keys)
  obtain uri a where k: "k = (uri, a)" by fastforce
  obtain e where "(a, e) \<in> set xs" "ce_key e = uri" using Cons.prems(2) k by (auto simp: key_index_def)
  then obtain ys zs where x: "xs = ys @ (a, e) # zs" "ce_key e = uri" by (meson split_list)
  have rep: "cache_parts c xs" using Cons.prems(1) by (simp add: cache_ok_def cache_rep_def)
  have "(a, e) \<in> set xs" using x by simp
  then have e: "c_entries c a = Some e" using rep unfolding cache_parts_def by blast
  obtain c1 where c1: "remove_entry uri e c = Some (0, c1)" "cache_ok c1 (ys @ zs)" "c_capacity c1 = c_capacity c"
    "c_default_ttl_seconds c1 = c_default_ttl_seconds c"
    using remove_entry_ok [OF Cons.prems(1) [unfolded x(1)]] x(2) by auto
  have d: "uri \<notin> fst ` set (key_index (ys @ zs))" using rep x by (auto simp: cache_parts_def)
  have sub: "set keys \<subseteq> set (key_index (ys @ zs))" using Cons.prems(2,3) k x by auto
  have "filter (\<lambda>(a, e). (ce_key e, a) \<notin> set (k # keys)) xs = filter (\<lambda>(a, e). (ce_key e, a) \<notin> set keys) (ys @ zs)"
  proof -
    have "b \<noteq> a \<or> ce_key y \<noteq> uri" if "(b, y) \<in> set (ys @ zs)" for b y using d that by (force simp: key_index_def)
    then have "(ce_key y, b) \<in> set (k # keys) \<longleftrightarrow> (ce_key y, b) \<in> set keys" if "(b, y) \<in> set (ys @ zs)" for b y using that k by auto
    then have "filter (\<lambda>(a, e). (ce_key e, a) \<notin> set (k # keys)) (ys @ zs) = filter (\<lambda>(a, e). (ce_key e, a) \<notin> set keys) (ys @ zs)"
      by (intro filter_cong) auto
    then show ?thesis using x k by simp
  qed
  moreover obtain c' where "remove_entries keys c1 = Some c'" "cache_ok c' (filter (\<lambda>(a, e). (ce_key e, a) \<notin> set keys) (ys @ zs))"
    "c_capacity c' = c_capacity c1" "c_default_ttl_seconds c' = c_default_ttl_seconds c1"
    using Cons.IH [OF c1(2) sub] Cons.prems(3) by auto
  ultimately show ?case using k e c1 by simp
qed

lemma prune_step:
  assumes ok: "cache_ok c xs"
  shows "\<exists>c' xs'. mcp_cache_prune_expired now [] c = Some (length (filter (line_expired now) (cache_view xs)), c') \<and>
    cache_ok c' xs' \<and> cache_view xs' = filter (\<lambda>x. \<not> line_expired now x) (cache_view xs) \<and>
    c_capacity c' = c_capacity c \<and> c_default_ttl_seconds c' = c_default_ttl_seconds c"
proof -
  let ?B = "concat (ht_buckets (c_table c))"
  have inv: "ht_inv cache_ops (c_table c)" and m: "ht_map cache_ops (c_table c) = map_of (key_index xs)"
    and d: "distinct (map fst (key_index xs))" and live: "\<forall>a e. (a, e) \<in> set xs \<longrightarrow> c_entries c a = Some e \<and> ce_lru_node e \<noteq> None"
    using ok unfolding cache_ok_def cache_rep_def cache_parts_def by blast+
  have db: "distinct (map fst ?B)" using inv distinct_keys_concat by (auto simp: ht_inv_def)
  then have B: "set ?B = set (key_index xs)" using m inv d by (simp add: ht_map_concat map_of_inject_set)
  have "\<forall>(uri, a) \<in> set ?B. length uri < 2 ^ 60 \<and> c_entries c a \<noteq> None"
    using ok live unfolding B by (fastforce simp: cache_ok_def key_index_def)
  from collect_all [OF this, of "\<lparr>pr_keys = [], pr_capacity = 16, pr_error = False, pr_moved = False, pr_mem = []\<rparr>" now]
  obtain p where p: "mcp_hashtable_foreach (collect_expired_keys now (c_entries c)) (c_table c)
      (Some \<lparr>pr_keys = [], pr_capacity = 16, pr_error = False, pr_moved = False, pr_mem = []\<rparr>) = Some p" "\<not> pr_error p"
    "pr_keys p = filter (\<lambda>(uri, a). is_expired now (the (c_entries c a))) ?B" by (auto simp: foreach_foldl)
  have "distinct (pr_keys p)" "set (pr_keys p) \<subseteq> set (key_index xs)"
    using db p(3) B by (auto simp: distinct_map)
  from remove_entries_ok [OF ok this(2,1)] obtain c' where c': "remove_entries (pr_keys p) c = Some c'"
    "cache_ok c' (filter (\<lambda>(a, e). (ce_key e, a) \<notin> set (pr_keys p)) xs)" "c_capacity c' = c_capacity c" "c_default_ttl_seconds c' = c_default_ttl_seconds c"
    by blast
  have mem: "(ce_key e, a) \<in> set (pr_keys p) \<longleftrightarrow> line_expired now (cell_line (a, e))" if "(a, e) \<in> set xs" for a e
  proof -
    have "(ce_key e, a) \<in> set (key_index xs)" using that by (force simp: key_index_def)
    then show ?thesis using p(3) B live that by (auto simp: line_expired_def is_expired_def cell_line_def)
  qed
  have v: "cache_view (filter (\<lambda>(a, e). (ce_key e, a) \<notin> set (pr_keys p)) xs) = filter (\<lambda>x. \<not> line_expired now x) (cache_view xs)"
    using mem by (auto simp: filter_map o_def intro!: arg_cong [where f = "map cell_line"] filter_cong)
  have "set (pr_keys p) = set (map (\<lambda>(a, e). (ce_key e, a)) (filter (\<lambda>x. line_expired now (cell_line x)) xs))"
    using mem B p(3) by (fastforce simp: key_index_def)
  moreover have "distinct (map (\<lambda>(a, e). (ce_key e, a)) (filter (\<lambda>x. line_expired now (cell_line x)) xs))"
  proof -
    have "distinct (key_index xs)" using d by (simp add: distinct_map)
    then show ?thesis unfolding key_index_def by (rule distinct_map_filter)
  qed
  ultimately have "length (pr_keys p) = length (filter (\<lambda>x. line_expired now (cell_line x)) xs)"
    using \<open>distinct (pr_keys p)\<close> by (metis distinct_card length_map)
  then have "length (pr_keys p) = length (filter (line_expired now) (cache_view xs))" by (simp add: filter_map o_def)
  then show ?thesis using p c' v by (intro exI [of _ c'] exI [of _ "filter (\<lambda>(a, e). (ce_key e, a) \<notin> set (pr_keys p)) xs"])
      (simp add: mcp_cache_prune_expired_def)
qed


lemma cache_step:
  assumes ok: "cache_ok c xs" and legal: "legal_cache op c"
  shows "\<exists>c' xs'. exec_cache op c = Some (fst (spec_cache (unat (c_capacity c)) (c_default_ttl_seconds c) op (cache_view xs)),
      fst (snd (spec_cache (unat (c_capacity c)) (c_default_ttl_seconds c) op (cache_view xs))), c') \<and> cache_ok c' xs' \<and>
    cache_view xs' = snd (snd (spec_cache (unat (c_capacity c)) (c_default_ttl_seconds c) op (cache_view xs))) \<and>
    c_capacity c' = c_capacity c \<and> c_default_ttl_seconds c' = c_default_ttl_seconds c"
proof (cases op)
  case (Get now uri)
  then show ?thesis using get_step [OF ok] by (simp only: exec_cache.simps)
next
  case (Put now a n uri content ttl)
  have "legal_cache (Put now a n uri content ttl) c" using legal Put by simp
  then obtain c' xs' where "mcp_cache_put now [] (Some a) (Some n) uri content ttl c = Some (if put_ok content then 0 else -1, c')"
    "cache_ok c' xs'" "cache_view xs' = snd (snd (spec_cache (unat (c_capacity c)) (c_default_ttl_seconds c) (Put now a n uri content ttl) (cache_view xs)))"
    "c_capacity c' = c_capacity c" "c_default_ttl_seconds c' = c_default_ttl_seconds c" using put_step [OF ok] by blast
  then show ?thesis using Put by (intro exI [of _ c'] exI [of _ xs']) simp
next
  case (Invalidate uri)
  then show ?thesis using invalidate_step [OF ok, of uri] by auto
next
  case (Prune now)
  then show ?thesis using prune_step [OF ok, of now] by auto
qed

fun exec_caches :: "cache_op list \<Rightarrow> mcp_resource_cache \<Rightarrow> ((int \<times> mcp_content_item list option) list \<times> mcp_resource_cache) option" where
  "exec_caches [] c = Some ([], c)"
| "exec_caches (op # ops) c =
     do { (rc, items, c1) \<leftarrow> exec_cache op c; (rs, c2) \<leftarrow> exec_caches ops c1; Some ((rc, items) # rs, c2) }"

fun spec_caches :: "nat \<Rightarrow> int \<Rightarrow> cache_op list \<Rightarrow> cache_line list \<Rightarrow> (int \<times> mcp_content_item list option) list \<times> cache_line list" where
  "spec_caches cap d [] s = ([], s)"
| "spec_caches cap d (op # ops) s =
     (let (rc, items, s1) = spec_cache cap d op s; (rs, s2) = spec_caches cap d ops s1 in ((rc, items) # rs, s2))"

fun legal_caches :: "cache_op list \<Rightarrow> mcp_resource_cache \<Rightarrow> bool" where
  "legal_caches [] c \<longleftrightarrow> True"
| "legal_caches (op # ops) c \<longleftrightarrow> legal_cache op c \<and> (\<forall>rc items c1. exec_cache op c = Some (rc, items, c1) \<longrightarrow> legal_caches ops c1)"

lemma caches_run:
  assumes "cache_ok c xs" "legal_caches ops c" "cap = unat (c_capacity c)" "d = c_default_ttl_seconds c"
  shows "\<exists>c' xs'. exec_caches ops c = Some (fst (spec_caches cap d ops (cache_view xs)), c') \<and> cache_ok c' xs' \<and>
    cache_view xs' = snd (spec_caches cap d ops (cache_view xs)) \<and> c_capacity c' = c_capacity c"
  using assms
proof (induction ops arbitrary: c xs)
  case Nil
  then show ?case by auto
next
  case (Cons op ops)
  obtain rc items s1 where s: "spec_cache cap d op (cache_view xs) = (rc, items, s1)" by (metis prod_cases3)
  obtain c1 xs1 where c1: "exec_cache op c = Some (rc, items, c1)" "cache_ok c1 xs1" "cache_view xs1 = s1"
    "c_capacity c1 = c_capacity c" "c_default_ttl_seconds c1 = c_default_ttl_seconds c"
    using cache_step [OF Cons.prems(1), of op] Cons.prems s by auto
  obtain rs s2 where s2: "spec_caches cap d ops s1 = (rs, s2)" by fastforce
  obtain c' xs' where "exec_caches ops c1 = Some (rs, c')" "cache_ok c' xs'" "cache_view xs' = s2" "c_capacity c' = c_capacity c1"
    using Cons.IH [OF c1(2)] Cons.prems(2-4) c1 s2 by auto
  then show ?case using c1 s s2 by (intro exI [of _ c'] exI [of _ xs']) simp
qed

lemma cache_created:
  assumes "mcp_cache_create m capacity ttl = (Some c, m')" "unat capacity \<le> 2 ^ 60"
  shows "cache_ok c []" "c_capacity c = capacity" "c_default_ttl_seconds c = ttl"
proof -
  obtain m2 t m3 where t: "mcp_hashtable_create m2 (if capacity > 0 then capacity else 1) (3 / 4) = (Some t, m3)"
    and c: "c = \<lparr>c_table = t, c_lru_list = mcp_list_create, c_nodes = (\<lambda>_. None), c_entries = (\<lambda>_. None),
      c_capacity = capacity, c_default_ttl_seconds = ttl\<rparr>"
    using assms(1) by (auto simp: mcp_cache_create_def Let_def split: prod.splits if_splits option.splits)
  have "unat (if capacity > 0 then capacity else 1) \<le> 2 ^ 60" using assms(2) by simp
  from create_spec [OF t this, where ops = cache_ops] have "ht_inv cache_ops t" "ht_map cache_ops t = Map.empty" by simp_all
  then show "cache_ok c []" "c_capacity c = capacity" "c_default_ttl_seconds c = ttl"
    using create_rep [of "\<lambda>_. None"] by (auto simp: c cache_ok_def cache_rep_def cache_parts_def)
qed

lemma free_entries_all:
  assumes "distinct (map snd kvs)" "\<forall>a \<in> snd ` set kvs. es a \<noteq> None"
  shows "free_entries (concat (map (free_entry cache_ops) kvs)) es = Some (\<lambda>a. if a \<in> snd ` set kvs then None else es a)"
  using assms
proof (induction kvs arbitrary: es)
  case (Cons kv kvs)
  have "snd kv \<notin> snd ` set kvs" using Cons.prems(1) by simp
  then have "\<forall>a \<in> snd ` set kvs. (es(snd kv := None)) a \<noteq> None" using Cons.prems(2) by (metis fun_upd_other image_eqI image_iff list.set_intros(2))
  moreover have "distinct (map snd kvs)" "es (snd kv) \<noteq> None" using Cons.prems by auto
  moreover have "(\<lambda>a. if a \<in> snd ` set kvs then None else (es(snd kv := None)) a) = (\<lambda>a. if a \<in> snd ` set (kv # kvs) then None else es a)"
    by (auto simp: fun_eq_iff)
  ultimately show ?case using Cons.IH [of "es(snd kv := None)"]
    by (simp add: free_entry_def value_free_call_def string_ops_def fun_upd_def)
qed (simp add: fun_eq_iff)

lemma destroy_ok:
  assumes ok: "cache_ok c xs"
  shows "\<exists>h. mcp_cache_destroy c = Some (\<lambda>_. None, h) \<and> (\<forall>(a, e) \<in> set xs. h (the (ce_lru_node e)) = None)"
proof -
  let ?B = "concat (ht_buckets (c_table c))"
  have inv: "ht_inv cache_ops (c_table c)" and m: "ht_map cache_ops (c_table c) = map_of (key_index xs)"
    and d: "distinct (map fst (key_index xs))" "distinct (map fst xs)" and l: "list_rep (c_nodes c) (c_lru_list c) (lru_cells xs)"
    and dom: "dom (c_entries c) = fst ` set xs"
    using ok unfolding cache_ok_def cache_rep_def cache_parts_def by blast+
  have db: "distinct (map fst ?B)" using inv distinct_keys_concat by (auto simp: ht_inv_def)
  then have B: "set ?B = set (key_index xs)" using m inv d by (simp add: ht_map_concat map_of_inject_set)
  have s: "snd ` set ?B = fst ` set xs" unfolding B by (force simp: key_index_def)
  have "length ?B = length xs" using db B d(1)
    by (metis distinct_card distinct_map key_index_def length_map)
  then have "distinct (map snd ?B)" using s d(2) by (metis card_distinct distinct_card length_map list.set_map)
  then have f: "free_entries (mcp_hashtable_destroy cache_ops (c_table c)) (c_entries c) = Some (\<lambda>_. None)"
  proof -
    have "\<forall>a \<in> snd ` set ?B. c_entries c a \<noteq> None" unfolding s using dom by blast
    from free_entries_all [OF \<open>distinct (map snd ?B)\<close> this]
    have "free_entries (concat (map (free_entry cache_ops) ?B)) (c_entries c) = Some (\<lambda>a. if a \<in> fst ` set xs then None else c_entries c a)" unfolding s .
    moreover have "(\<lambda>a. if a \<in> fst ` set xs then None else c_entries c a) = (\<lambda>_. None)" using dom by (auto simp: fun_eq_iff)
    ultimately show ?thesis by (simp add: mcp_hashtable_destroy_def mcp_hashtable_clear_def concat_map_concat)
  qed
  obtain h l' where h: "mcp_list_clear (c_nodes c) (c_lru_list c) False = Some ([], h, l')" "\<forall>a. h a = (if a \<in> fst ` set (lru_cells xs) then None else c_nodes c a)"
    using clear_rep [OF l, of False] by auto
  then have "\<forall>(a, e) \<in> set xs. h (the (ce_lru_node e)) = None" by (force simp: lru_cells_def)
  then show ?thesis using f h(1) by (auto simp: mcp_cache_destroy_def mcp_list_destroy_def)
qed


section \<open>Properties\<close>

text \<open>Claim C11.  The cache is a least-recently-used cache as long as no allocation fails.  From its creation
  on, with a capacity of at most $2^{60}$, every sequence of \<open>mcp_cache_get\<close>, \<open>mcp_cache_put\<close> (of items whose
  data is as long as its size says), \<open>mcp_cache_invalidate\<close> and \<open>mcp_cache_prune_expired\<close>, one after
  another and all of whose allocations succeed, reads and frees live entries and nodes only, and gives the results of the abstract cache: a
  list of (URI, items, expiry), the last used first, where a hit moves its line to the front, an
  expired line is dropped, and a new line pushes out the line at the end when the capacity is reached.
  The cache never has more entries than its capacity, and \<open>mcp_cache_destroy\<close> frees all of them.  The
  condition on the allocations is needed: see \<open>failed_put_dangles\<close>.\<close>

theorem cache_refines_lru:
  assumes "mcp_cache_create m capacity ttl = (Some c, m')" and "unat capacity \<le> 2 ^ 60" and "legal_caches ops c"
  shows "\<exists>c' s rs. exec_caches ops c = Some (rs, c') \<and> spec_caches (unat capacity) ttl ops [] = (rs, s) \<and>
    length s \<le> unat capacity \<and> mcp_hashtable_size (Some (c_table c')) = of_nat (length s) \<and>
    (\<exists>h. mcp_cache_destroy c' = Some (\<lambda>_. None, h))"
proof -
  note c = cache_created [OF assms(1,2)]
  obtain c' xs where r: "exec_caches ops c = Some (fst (spec_caches (unat capacity) ttl ops []), c')" "cache_ok c' xs"
    "cache_view xs = snd (spec_caches (unat capacity) ttl ops [])" "c_capacity c' = capacity"
    using caches_run [OF c(1) assms(3), of "unat capacity" ttl] c(2,3) by auto
  have "length (cache_view xs) \<le> unat capacity" using r(2,4) by (simp add: cache_ok_def)
  moreover have "mcp_hashtable_size (Some (c_table c')) = of_nat (length (cache_view xs))"
    using table_count [OF r(2)] by (simp add: mcp_hashtable_size_def)
  moreover obtain h where "mcp_cache_destroy c' = Some (\<lambda>_. None, h)" using destroy_ok [OF r(2)] by blast
  ultimately show ?thesis using r(1,3)
    by (intro exI [of _ c'] exI [of _ "cache_view xs"] exI [of _ "fst (spec_caches (unat capacity) ttl ops [])"]) (simp add: prod_eq_iff)
qed

definition cache_page :: mcp_content_item where
  "cache_page = \<lparr>item_type = MCP_CONTENT_TYPE_TEXT, item_mime_type = None, item_data = Some ''hello'', item_data_size = 5\<rparr>"

theorem cache_refines_lru_witness:
  "\<exists>c c' s rs. mcp_cache_create [] 1 60 = (Some c, []) \<and>
     exec_caches [Put 10 1 2 ''a'' [Some cache_page] 0, Get 11 ''a'', Get 12 ''b'', Get 70 ''a''] c = Some (rs, c') \<and>
     rs = [(0, None), (0, Some [cache_page\<lparr>item_mime_type := Some []\<rparr>]), (-1, None), (-1, None)] \<and> s = [] \<and>
     mcp_hashtable_size (Some (c_table c')) = of_nat (length (s :: cache_line list))"
proof -
  let ?ops = "[Put 10 1 2 ''a'' [Some cache_page] 0, Get 11 ''a'', Get 12 ''b'', Get 70 ''a'']"
  let ?c = "\<lparr>c_table = Hashtable [[]] 1 0 (3 / 4), c_lru_list = mcp_list_create, c_nodes = (\<lambda>_. None), c_entries = (\<lambda>_. None),
      c_capacity = 1, c_default_ttl_seconds = 60\<rparr>"
  have c: "mcp_cache_create [] 1 60 = (Some ?c, [])"
    by (simp add: mcp_cache_create_def mcp_hashtable_create_def alloc_buckets_def is_power_of_two_def)
  have "legal_caches ?ops ?c" by (simp add: cache_page_def item_sized_def)
  from cache_refines_lru [OF c _ this] obtain c' s rs where
    "exec_caches ?ops ?c = Some (rs, c')" "spec_caches 1 60 ?ops [] = (rs, s)" "mcp_hashtable_size (Some (c_table c')) = of_nat (length s)"
    by auto
  moreover have "spec_caches 1 60 ?ops [] = ([(0, None), (0, Some [cache_page\<lparr>item_mime_type := Some []\<rparr>]), (-1, None), (-1, None)], [])"
    by (simp add: cache_page_def put_ok_def cache_copy_def copy_of_def line_expired_def Let_def)
  ultimately show ?thesis using c by (intro exI [of _ ?c] exI [of _ c'] exI [of _ s] exI [of _ rs]) simp
qed

text \<open>When the allocations of \<open>mcp_cache_get\<close> may fail, a hit still returns exactly the items that are
  stored, or fails with the cache unchanged; it never returns a part of them.\<close>

theorem cache_get_any_memory:
  assumes "cache_ok c (ys @ (a, e) # zs)" and "\<not> is_expired now e"
  shows "mcp_cache_get now m (ce_key e) c = Some (-1, None, c) \<or>
    (\<exists>c'. mcp_cache_get now m (ce_key e) c = Some (0, Some (ce_content e), c') \<and>
          cache_ok c' ((a, e\<lparr>ce_last_accessed := now\<rparr>) # ys @ zs))"
proof -
  have rep: "cache_rep c (ys @ (a, e) # zs)" using assms(1) by (simp add: cache_ok_def)
  note g = entry_found(1,2) [OF rep]
  have items: "\<forall>y \<in> set (ce_content e). item_sized y" "map cache_copy (ce_content e) = ce_content e"
    using assms(1) by (auto simp: cache_ok_def intro: map_idI)
  obtain ok1 m1 where m1: "mem_alloc m = (ok1, m1)" by fastforce
  obtain ok2 m2 where m2: "mem_alloc m1 = (ok2, m2)" by fastforce
  show ?thesis
  proof (cases "ok1 \<and> ok2 \<and> (\<exists>m3. copy_items m2 (ce_content e) = Some (Inr (ce_content e), m3))")
    case True
    then obtain m3 where "copy_items m2 (ce_content e) = Some (Inr (ce_content e), m3)" by blast
    from cache_get_hit [OF assms(1) this assms(2), of m m1] m1 m2 True show ?thesis by auto
  next
    case False
    then have "mcp_cache_get now m (ce_key e) c = Some (-1, None, c)"
      using copy_items_cases [OF items(1), of m2] items(2) g assms(2) m1 m2
      by (cases ok1; cases ok2) (auto simp: mcp_cache_get_def)
    then show ?thesis by blast
  qed
qed

text \<open>An insertion that fails in the hash table leaves the new node in the list while \<open>mcp_cache_put\<close>
  frees its entry: the next eviction that reaches the node reads freed memory.\<close>

theorem failed_put_dangles:
  assumes "cache_ok c []" and "c_nodes c n = None" and "c_entries c a = None"
    and "mcp_hashtable_put cache_ops m (c_table c) uri a = (-1, t, evs, m')"
  shows "\<exists>c'. add_entry_to_cache m (Some n) uri a e c = Some (-1, c') \<and> evict_lru_entry c' = None"
proof -
  have inv: "ht_inv cache_ops (c_table c)" and l: "list_rep (c_nodes c) (c_lru_list c) []"
    using assms(1) by (simp_all add: cache_ok_def cache_rep_def cache_parts_def)
  have "evs = []" using string_key.put_spec [OF inv assms(4)] by (simp add: put_post_def)
  moreover obtain h l' where "mcp_list_push_front (Some n) (c_nodes c) (c_lru_list c) (Some a) = Some (Some n, h, l')"
    "list_rep h l' [(n, Some a)]" using push_front_rep [OF l assms(2), of "Some a"] by blast
  ultimately have "add_entry_to_cache m (Some n) uri a e c = Some (-1, c\<lparr>c_nodes := h, c_lru_list := l', c_table := t\<rparr>)"
    "l_tail l' = Some n" "\<exists>x. h n = Some x \<and> n_data x = Some a" "l_size l' = 1"
    using assms(4) by (auto simp: add_entry_to_cache_def list_rep_def)
  then show ?thesis using assms(3) by (auto simp: evict_lru_entry_def mcp_list_is_empty_def)
qed

theorem failed_put_dangles_witness:
  "\<exists>c c'. mcp_cache_create [] 1 60 = (Some c, []) \<and>
     add_entry_to_cache [False] (Some 2) ''a'' 1 \<lparr>ce_key = ''a'', ce_content = [cache_page], ce_expiry_time = 0, ce_last_accessed = 0, ce_lru_node = None\<rparr> c
       = Some (-1, c') \<and> evict_lru_entry c' = None"
proof -
  let ?c = "\<lparr>c_table = Hashtable [[]] 1 0 (3 / 4), c_lru_list = mcp_list_create, c_nodes = (\<lambda>_. None), c_entries = (\<lambda>_. None),
      c_capacity = 1, c_default_ttl_seconds = 60\<rparr>"
  have c: "mcp_cache_create [] 1 60 = (Some ?c, [])"
    by (simp add: mcp_cache_create_def mcp_hashtable_create_def alloc_buckets_def is_power_of_two_def)
  have "mcp_hashtable_put cache_ops [False] (c_table ?c) ''a'' 1 = (-1, c_table ?c, [], [])" by (simp add: ht_eval word_le_nat_alt)
  from failed_put_dangles [OF cache_created(1) [OF c] _ _ this, of 2
      "\<lparr>ce_key = ''a'', ce_content = [cache_page], ce_expiry_time = 0, ce_last_accessed = 0, ce_lru_node = None\<rparr>"]
  have "\<exists>c'. add_entry_to_cache [False] (Some 2) ''a'' 1 \<lparr>ce_key = ''a'', ce_content = [cache_page], ce_expiry_time = 0, ce_last_accessed = 0, ce_lru_node = None\<rparr> ?c
       = Some (-1, c') \<and> evict_lru_entry c' = None" by simp
  with c show ?thesis by blast
qed

text \<open>With a default time to live of 0, which the header documents as no expiry, an entry stored
  without a time to live of its own expires in the second it is stored.\<close>

theorem zero_ttl_expires_at_once:
  assumes "create_cache_entry now m uri 0 c = (Some e, m')" and "c_default_ttl_seconds c = 0" and "0 < now"
  shows "is_expired now e"
  using assms by (auto simp: create_cache_entry_def is_expired_def Let_def split: prod.splits option.splits)

end
