(* ===== verification/Mcp_Template_Router.thy ===== *)
theory Mcp_Template_Router
  imports Mcp_Template_Cache Mcp_Cache
begin

text \<open>
  Routing of URIs to the handlers of resource templates, \<open>src/server/mcp_server_template_router.c\<close>, and the
  access control of templates, \<open>src/server/mcp_template_security.c\<close> and
  \<open>src/server/mcp_server_template_security.c\<close>.

  A resource handler is user code: a function of the URI on a state of the application; its user data
  is part of the function, and the message it may leave is freed by its caller, unread.  A validator is a
  predicate on the template and the parameters.  An array with its count is the list of its elements.
\<close>

section \<open>Access control of templates\<close>

type_synonym mcp_template_validator = "string \<Rightarrow> double json option \<Rightarrow> bool"

record template_acl_entry =
  acl_template_uri :: string
  acl_allowed_roles :: "string list"
  acl_validator :: "mcp_template_validator option"

record mcp_template_security =
  sec_entries :: "template_acl_entry list"
  sec_entries_capacity :: nat
  sec_default_validator :: "mcp_template_validator option"

definition template_acl_entry_create :: "mem \<Rightarrow> string \<Rightarrow> template_acl_entry option \<times> mem" where
  "template_acl_entry_create m template_uri =
     (let (ok, m1) = mem_alloc m
      in if \<not> ok then (None, m1)
         else case mcp_strdup m1 (Some template_uri) of
                (None, m2) \<Rightarrow> (None, m2)
              | (Some uri, m2) \<Rightarrow> (Some \<lparr>acl_template_uri = uri, acl_allowed_roles = [], acl_validator = None\<rparr>, m2))"

definition mcp_template_security_create :: "mem \<Rightarrow> mcp_template_security option \<times> mem" where
  "mcp_template_security_create m =
     (let (ok, m1) = mem_alloc m
      in (if ok then Some \<lparr>sec_entries = [], sec_entries_capacity = 0, sec_default_validator = None\<rparr> else None, m1))"

definition grow_acl :: "mem \<Rightarrow> mcp_template_security \<Rightarrow> mcp_template_security option \<times> mem" where
  "grow_acl m security =
     (if length (sec_entries security) \<ge> sec_entries_capacity security
      then (let new_capacity = (if sec_entries_capacity security = 0 then 8 else sec_entries_capacity security * 2);
                (ok, m1) = mem_alloc m
            in (if ok then Some (security\<lparr>sec_entries_capacity := new_capacity\<rparr>) else None, m1))
      else (Some security, m))"

fun dup_roles :: "mem \<Rightarrow> string option list \<Rightarrow> string list option \<times> mem" where
  "dup_roles m [] = (Some [], m)"
| "dup_roles m (r # rs) =
     (case mcp_strdup m r of
        (None, m1) \<Rightarrow> (None, m1)
      | (Some x, m1) \<Rightarrow> (case dup_roles m1 rs of (xs, m2) \<Rightarrow> (map_option ((#) x) xs, m2)))"

text \<open>The roles of a new entry: the array is allocated only when it is not empty.\<close>

definition copy_roles :: "mem \<Rightarrow> string option list \<Rightarrow> string list option \<times> mem" where
  "copy_roles m roles =
     (if roles = [] then (Some [], m)
      else let (ok, m1) = mem_alloc m in if \<not> ok then (None, m1) else dup_roles m1 roles)"

definition mcp_template_security_add_acl ::
    "mem \<Rightarrow> string option \<Rightarrow> string option list \<Rightarrow> mcp_template_security \<Rightarrow> int \<times> mcp_template_security \<times> mem" where
  "mcp_template_security_add_acl m template_uri allowed_roles security =
     (case template_uri of
        None \<Rightarrow> (-1, security, m)
      | Some uri \<Rightarrow>
          (case grow_acl m security of
             (None, m1) \<Rightarrow> (-1, security, m1)
           | (Some security1, m1) \<Rightarrow>
               (case template_acl_entry_create m1 uri of
                  (None, m2) \<Rightarrow> (-1, security1, m2)
                | (Some entry, m2) \<Rightarrow>
                    (case copy_roles m2 allowed_roles of
                       (None, m3) \<Rightarrow> (-1, security1, m3)
                     | (Some roles, m3) \<Rightarrow>
                         (0, security1\<lparr>sec_entries := sec_entries security1 @ [entry\<lparr>acl_allowed_roles := roles\<rparr>]\<rparr>, m3)))))"

definition find_acl :: "string \<Rightarrow> template_acl_entry list \<Rightarrow> template_acl_entry option" where
  "find_acl template_uri entries = find (\<lambda>e. acl_template_uri e = template_uri) entries"

fun set_first_validator :: "string \<Rightarrow> mcp_template_validator \<Rightarrow> template_acl_entry list \<Rightarrow> template_acl_entry list" where
  "set_first_validator uri v [] = []"
| "set_first_validator uri v (e # es) =
     (if acl_template_uri e = uri then e\<lparr>acl_validator := Some v\<rparr> # es else e # set_first_validator uri v es)"

definition mcp_template_security_set_validator ::
    "mem \<Rightarrow> string option \<Rightarrow> mcp_template_validator option \<Rightarrow> mcp_template_security \<Rightarrow> int \<times> mcp_template_security \<times> mem" where
  "mcp_template_security_set_validator m template_uri validator security =
     (case (template_uri, validator) of
        (Some uri, Some v) \<Rightarrow>
          (if find_acl uri (sec_entries security) \<noteq> None
           then (0, security\<lparr>sec_entries := set_first_validator uri v (sec_entries security)\<rparr>, m)
           else case grow_acl m security of
                  (None, m1) \<Rightarrow> (-1, security, m1)
                | (Some security1, m1) \<Rightarrow>
                    (case template_acl_entry_create m1 uri of
                       (None, m2) \<Rightarrow> (-1, security1, m2)
                     | (Some entry, m2) \<Rightarrow>
                         (0, security1\<lparr>sec_entries := sec_entries security1 @ [entry\<lparr>acl_validator := Some v\<rparr>]\<rparr>, m2)))
      | _ \<Rightarrow> (-1, security, m))"

definition mcp_template_security_set_default_validator ::
    "mcp_template_validator option \<Rightarrow> mcp_template_security \<Rightarrow> int \<times> mcp_template_security" where
  "mcp_template_security_set_default_validator validator security =
     (case validator of
        None \<Rightarrow> (-1, security)
      | Some v \<Rightarrow> (0, security\<lparr>sec_default_validator := Some v\<rparr>))"

definition role_match :: "string \<Rightarrow> template_acl_entry \<Rightarrow> bool" where
  "role_match user_role entry \<longleftrightarrow> (\<exists>r \<in> set (acl_allowed_roles entry). r = user_role \<or> r = ''*'')"

definition run_validator :: "mcp_template_security \<Rightarrow> template_acl_entry \<Rightarrow> string \<Rightarrow> double json option \<Rightarrow> bool" where
  "run_validator security entry template_uri params =
     (case acl_validator entry of
        Some v \<Rightarrow> v template_uri params
      | None \<Rightarrow> (case sec_default_validator security of Some v \<Rightarrow> v template_uri params | None \<Rightarrow> True))"

definition mcp_template_security_check_access ::
    "mcp_template_security option \<Rightarrow> string option \<Rightarrow> string option \<Rightarrow> double json option \<Rightarrow> bool" where
  "mcp_template_security_check_access security template_uri user_role params =
     (case (security, template_uri) of
        (Some sec, Some uri) \<Rightarrow>
          (case find_acl uri (sec_entries sec) of
             None \<Rightarrow> user_role = None
           | Some entry \<Rightarrow>
               (case user_role of
                  None \<Rightarrow> run_validator sec entry uri params
                | Some role \<Rightarrow>
                    (if acl_allowed_roles entry \<noteq> [] \<and> \<not> role_match role entry then False
                     else run_validator sec entry uri params)))
      | _ \<Rightarrow> False)"

definition mcp_template_security_validate_params ::
    "mcp_template_security option \<Rightarrow> string option \<Rightarrow> double json option \<Rightarrow> bool" where
  "mcp_template_security_validate_params security template_uri params =
     (case (security, template_uri, params) of
        (Some sec, Some uri, Some _) \<Rightarrow>
          (case find_acl uri (sec_entries sec) of
             None \<Rightarrow> (case sec_default_validator sec of Some v \<Rightarrow> v uri params | None \<Rightarrow> True)
           | Some entry \<Rightarrow> run_validator sec entry uri params)
      | _ \<Rightarrow> False)"

section \<open>Routes\<close>

record resource_reply =
  rr_status :: int
  rr_content :: "mcp_content_item option list option"

type_synonym 's resource_handler = "string \<Rightarrow> 's \<Rightarrow> resource_reply \<times> 's"

record 's template_route =
  rt_template_uri :: string
  rt_handler :: "'s resource_handler"

record 's template_server =
  ts_routes_table :: "(string, 's template_route) mcp_hashtable option"
  ts_security :: "mcp_template_security option"

definition template_route_create :: "mem \<Rightarrow> string \<Rightarrow> 's resource_handler \<Rightarrow> 's template_route option \<times> mem" where
  "template_route_create m template_uri handler =
     (let (ok, m1) = mem_alloc m
      in if \<not> ok then (None, m1)
         else case mcp_strdup m1 (Some template_uri) of
                (None, m2) \<Rightarrow> (None, m2)
              | (Some uri, m2) \<Rightarrow> (Some \<lparr>rt_template_uri = uri, rt_handler = handler\<rparr>, m2))"

abbreviation route_ops :: "string hash_ops" where
  "route_ops \<equiv> string_ops True"

definition routes_table :: "mem \<Rightarrow> 's template_server \<Rightarrow> (string, 's template_route) mcp_hashtable option \<times> mem" where
  "routes_table m srv = (case ts_routes_table srv of Some t \<Rightarrow> (Some t, m) | None \<Rightarrow> mcp_hashtable_create m 64 (3 / 4))"

definition mcp_server_register_template_handler_internal ::
    "mem \<Rightarrow> string option \<Rightarrow> 's resource_handler option \<Rightarrow> 's template_server \<Rightarrow> int \<times> 's template_server \<times> mem" where
  "mcp_server_register_template_handler_internal m template_uri handler srv =
     (case (template_uri, handler) of
        (Some uri, Some h) \<Rightarrow>
          (case routes_table m srv of
             (None, m1) \<Rightarrow> (-1, srv, m1)
           | (Some t, m1) \<Rightarrow>
               (let srv1 = srv\<lparr>ts_routes_table := Some t\<rparr>
                in case template_route_create m1 uri h of
                     (None, m2) \<Rightarrow> (-1, srv1, m2)
                   | (Some route, m2) \<Rightarrow>
                       (case mcp_hashtable_put route_ops m2 t (rt_template_uri route) route of
                          (rc, t1, _, m3) \<Rightarrow> (if rc \<noteq> 0 then -1 else 0, srv1\<lparr>ts_routes_table := Some t1\<rparr>, m3))))
      | _ \<Rightarrow> (-1, srv, m))"

text \<open>The security context of the server, made by the first call that needs it.\<close>

definition with_security ::
    "mem \<Rightarrow> (mem \<Rightarrow> mcp_template_security \<Rightarrow> int \<times> mcp_template_security \<times> mem) \<Rightarrow> 's template_server \<Rightarrow> int \<times> 's template_server \<times> mem" where
  "with_security m f srv =
     (case (case ts_security srv of Some sec \<Rightarrow> (Some sec, m) | None \<Rightarrow> mcp_template_security_create m) of
        (None, m1) \<Rightarrow> (-1, srv, m1)
      | (Some sec, m1) \<Rightarrow> (case f m1 sec of (rc, sec1, m2) \<Rightarrow> (rc, srv\<lparr>ts_security := Some sec1\<rparr>, m2)))"

definition mcp_server_add_template_acl ::
    "mem \<Rightarrow> string option \<Rightarrow> string option list \<Rightarrow> 's template_server \<Rightarrow> int \<times> 's template_server \<times> mem" where
  "mcp_server_add_template_acl m template_uri allowed_roles srv =
     (if template_uri = None then (-1, srv, m)
      else with_security m (\<lambda>m1. mcp_template_security_add_acl m1 template_uri allowed_roles) srv)"

definition mcp_server_set_template_validator ::
    "mem \<Rightarrow> string option \<Rightarrow> mcp_template_validator option \<Rightarrow> 's template_server \<Rightarrow> int \<times> 's template_server \<times> mem" where
  "mcp_server_set_template_validator m template_uri validator srv =
     (if template_uri = None \<or> validator = None then (-1, srv, m)
      else with_security m (\<lambda>m1. mcp_template_security_set_validator m1 template_uri validator) srv)"

definition mcp_server_set_default_template_validator ::
    "mem \<Rightarrow> mcp_template_validator option \<Rightarrow> 's template_server \<Rightarrow> int \<times> 's template_server \<times> mem" where
  "mcp_server_set_default_template_validator m validator srv =
     (if validator = None then (-1, srv, m)
      else with_security m
             (\<lambda>m1 sec. case mcp_template_security_set_default_validator validator sec of (rc, sec1) \<Rightarrow> (rc, sec1, m1)) srv)"

section \<open>Requests\<close>

text \<open>
  The walk over the routes.  \<open>ms\<close> gives for a template the answers of the allocator to the matching and to
  the extraction; the table has every template once.  The context is the match, with its parameters,
  and the global template cache.
\<close>

type_synonym 's route_match = "('s template_route \<times> double json option) option \<times> template_cache"

definition template_route_match_callback ::
    "template_env \<Rightarrow> (string \<Rightarrow> mem \<times> mem) \<Rightarrow> string \<Rightarrow> string \<Rightarrow> 's template_route \<Rightarrow> 's route_match \<Rightarrow> 's route_match" where
  "template_route_match_callback te ms uri key route context =
     (case context of
        (Some found, tc) \<Rightarrow> context
      | (None, tc) \<Rightarrow>
          (case mcp_template_matches_optimized te (fst (ms (rt_template_uri route))) (Some uri) (Some (rt_template_uri route)) tc of
             (False, tc1) \<Rightarrow> (None, tc1)
           | (True, tc1) \<Rightarrow>
               (case mcp_template_extract_params_optimized te (snd (ms (rt_template_uri route))) (Some uri) (Some (rt_template_uri route)) tc1 of
                  (params, tc2) \<Rightarrow> (Some (route, params), tc2))))"

definition mcp_server_find_template_route ::
    "template_env \<Rightarrow> (string \<Rightarrow> mem \<times> mem) \<Rightarrow> 's template_server \<Rightarrow> string \<Rightarrow> template_cache \<Rightarrow> 's route_match" where
  "mcp_server_find_template_route te ms srv uri tc =
     (case ts_routes_table srv of
        None \<Rightarrow> (None, tc)
      | Some t \<Rightarrow> mcp_hashtable_foreach (template_route_match_callback te ms uri) t (None, tc))"

abbreviation (input) MCP_ERROR_RESOURCE_NOT_FOUND :: int where "MCP_ERROR_RESOURCE_NOT_FOUND \<equiv> -32101"
abbreviation (input) MCP_ERROR_UNAUTHORIZED :: int where "MCP_ERROR_UNAUTHORIZED \<equiv> -32103"

text \<open>The role is always NULL: \<open>auth_context\<close> is a local variable that no assignment reaches.\<close>

definition mcp_server_handle_template_resource ::
    "template_env \<Rightarrow> (string \<Rightarrow> mem \<times> mem) \<Rightarrow> 's template_server \<Rightarrow> string \<Rightarrow> template_cache \<Rightarrow> 's \<Rightarrow> resource_reply \<times> template_cache \<times> 's" where
  "mcp_server_handle_template_resource te ms srv uri tc s =
     (case mcp_server_find_template_route te ms srv uri tc of
        (None, tc1) \<Rightarrow> (\<lparr>rr_status = MCP_ERROR_RESOURCE_NOT_FOUND, rr_content = None\<rparr>, tc1, s)
      | (Some (route, params), tc1) \<Rightarrow>
          (if ts_security srv \<noteq> None \<and> \<not> mcp_template_security_validate_params (ts_security srv) (Some (rt_template_uri route)) params
           then (\<lparr>rr_status = MCP_ERROR_INVALID_PARAMS, rr_content = None\<rparr>, tc1, s)
           else if ts_security srv \<noteq> None \<and> \<not> mcp_template_security_check_access (ts_security srv) (Some (rt_template_uri route)) None params
           then (\<lparr>rr_status = MCP_ERROR_UNAUTHORIZED, rr_content = None\<rparr>, tc1, s)
           else case rt_handler route uri s of (reply, s1) \<Rightarrow> (reply, tc1, s1)))"

section \<open>Routing\<close>

text \<open>The route the walk finds: the first one, in the order of the table, whose template the URI matches.\<close>

definition first_route :: "template_env \<Rightarrow> string \<Rightarrow> 's template_route list \<Rightarrow> ('s template_route \<times> double json option) option" where
  "first_route te uri routes =
     map_option (\<lambda>route. (route, template_params te uri (rt_template_uri route))) (find (\<lambda>route. template_hit te uri (rt_template_uri route)) routes)"

lemma find_route:
  fixes srv :: "'s template_server"
  assumes inv: "cache_inv tc" and ms: "\<forall>x. ms x = ([], [])" and "ts_routes_table srv = Some t"
  shows "\<exists>tc1. mcp_server_find_template_route te ms srv uri tc = (first_route te uri (ht_values t), tc1) \<and> cache_inv tc1"
proof -
  let ?cb = "\<lambda>s e. template_route_match_callback te ms uri (fst e) (snd e) s"
  have kept: "foldl ?cb (Some x, tc) es = (Some x, tc)" for x :: "'s template_route \<times> double json option" and tc and es :: "(string \<times> 's template_route) list"
    by (induction es) (auto simp: template_route_match_callback_def)
  have "\<exists>tc1. foldl ?cb (None, tc) es = (first_route te uri (map snd es), tc1) \<and> cache_inv tc1" if "cache_inv tc" for tc and es :: "(string \<times> 's template_route) list"
    using that
  proof (induction es arbitrary: tc)
    case Nil
    then show ?case by (simp add: first_route_def)
  next
    case (Cons e es)
    let ?t = "rt_template_uri (snd e)"
    obtain tc1 where m: "mcp_template_matches_optimized te [] (Some uri) (Some ?t) tc = (template_hit te uri ?t, tc1)" "cache_inv tc1"
      using matches_transparent [OF Cons.prems] by blast
    obtain tc2 where x: "mcp_template_extract_params_optimized te [] (Some uri) (Some ?t) tc1 = (template_params te uri ?t, tc2)" "cache_inv tc2"
      using extract_transparent [OF m(2)] by blast
    show ?case
    proof (cases "template_hit te uri ?t")
      case True
      then have "?cb (None, tc) e = (Some (snd e, template_params te uri ?t), tc2)"
        using m x ms by (simp add: template_route_match_callback_def)
      then show ?thesis using kept x(2) True by (simp add: first_route_def)
    next
      case False
      then have "?cb (None, tc) e = (None, tc1)" using m ms by (simp add: template_route_match_callback_def)
      then show ?thesis using Cons.IH [OF m(2)] False by (simp add: first_route_def)
    qed
  qed
  from this [OF inv, of "concat (ht_buckets t)"] assms(3) show ?thesis
    by (simp add: mcp_server_find_template_route_def foreach_foldl ht_values_def)
qed

section \<open>Properties\<close>

text \<open>A URI goes to the first route of the table, in the order of the table, whose template it matches; its
  parameters are those the template gives.  What the cache of parsed templates holds has no influence
  on that.\<close>

theorem route_is_first_match:
  assumes "cache_inv tc" and "\<forall>x. ms x = ([], [])" and "ts_routes_table srv = Some t"
  shows "fst (mcp_server_find_template_route te ms srv uri tc) = first_route te uri (ht_values t) \<and>
    cache_inv (snd (mcp_server_find_template_route te ms srv uri tc))"
  using find_route [OF assms, of te uri] by auto

definition with_roles :: "(string \<Rightarrow> string list) \<Rightarrow> mcp_template_security \<Rightarrow> mcp_template_security" where
  "with_roles f sec = sec\<lparr>sec_entries := map (\<lambda>e. e\<lparr>acl_allowed_roles := f (acl_template_uri e)\<rparr>) (sec_entries sec)\<rparr>"

lemma find_acl_roles:
  "find_acl uri (sec_entries (with_roles f sec)) = map_option (\<lambda>e. e\<lparr>acl_allowed_roles := f (acl_template_uri e)\<rparr>) (find_acl uri (sec_entries sec))"
proof -
  have "find P (map g es) = map_option g (find (P \<circ> g) es)" for P :: "template_acl_entry \<Rightarrow> bool" and g :: "template_acl_entry \<Rightarrow> template_acl_entry" and es
    by (induction es) auto
  then show ?thesis by (simp add: find_acl_def with_roles_def comp_def)
qed

lemma default_roles: "sec_default_validator (with_roles f sec) = sec_default_validator sec"
  by (simp add: with_roles_def)

lemma run_validator_roles: "run_validator (with_roles f sec) (e\<lparr>acl_allowed_roles := rs\<rparr>) = run_validator sec e"
  by (intro ext) (simp add: run_validator_def with_roles_def split: option.split)

text \<open>The roles of an access rule are never looked at: whatever roles the rules of the templates name, a
  request is handled in the same way.\<close>

theorem template_roles_ignored:
  "mcp_server_handle_template_resource te ms (srv\<lparr>ts_security := Some (with_roles f sec)\<rparr>) uri tc s =
   mcp_server_handle_template_resource te ms (srv\<lparr>ts_security := Some sec\<rparr>) uri tc s"
proof -
  have v: "mcp_template_security_validate_params (Some (with_roles f sec)) u p = mcp_template_security_validate_params (Some sec) u p" for u p
    by (auto simp: mcp_template_security_validate_params_def find_acl_roles run_validator_roles default_roles split: option.splits)
  have a: "mcp_template_security_check_access (Some (with_roles f sec)) u None p = mcp_template_security_check_access (Some sec) u None p" for u p
    by (auto simp: mcp_template_security_check_access_def find_acl_roles run_validator_roles split: option.splits)
  show ?thesis by (auto simp: mcp_server_handle_template_resource_def mcp_server_find_template_route_def v a split: option.splits prod.splits)
qed

text \<open>Only the first rule for a template counts: a rule added for a template that has one already, for
  instance because a validator was set before, changes no decision.\<close>

theorem later_acl_ignored:
  assumes "find_acl uri (sec_entries sec) \<noteq> None" and "mcp_template_security_add_acl m (Some uri) roles sec = (rc, sec', m')"
  shows "mcp_template_security_check_access (Some sec') (Some x) role p = mcp_template_security_check_access (Some sec) (Some x) role p"
proof -
  have "sec_default_validator sec' = sec_default_validator sec"
    "sec_entries sec' = sec_entries sec \<or> (\<exists>e. sec_entries sec' = sec_entries sec @ [e] \<and> acl_template_uri e = uri)"
    using assms(2) by (auto simp: mcp_template_security_add_acl_def grow_acl_def template_acl_entry_create_def Let_def mcp_strdup_def
        split: option.splits prod.splits if_splits)
  moreover have "find P (es @ [e]) = (case find P es of None \<Rightarrow> if P e then Some e else None | Some y \<Rightarrow> Some y)"
    for P :: "template_acl_entry \<Rightarrow> bool" and es e by (induction es) auto
  ultimately have "find_acl x (sec_entries sec') = find_acl x (sec_entries sec)"
    using assms(1) by (auto simp: find_acl_def split: option.splits)
  with \<open>sec_default_validator sec' = _\<close> show ?thesis
    by (auto simp: mcp_template_security_check_access_def run_validator_def split: option.splits)
qed

text \<open>The routes of a server: the table is well-formed and has every route under its template.\<close>

definition routes_ok :: "'s template_server \<Rightarrow> bool" where
  "routes_ok srv \<longleftrightarrow> (\<forall>t. ts_routes_table srv = Some t \<longrightarrow> ht_inv route_ops t \<and>
     (\<forall>k route. ht_map route_ops t k = Some route \<longrightarrow> rt_template_uri route = k))"

definition routes_of :: "'s template_server \<Rightarrow> string \<Rightarrow> 's template_route option" where
  "routes_of srv = (case ts_routes_table srv of None \<Rightarrow> Map.empty | Some t \<Rightarrow> ht_map route_ops t)"

lemma values_ran: "ht_inv route_ops t \<Longrightarrow> set (ht_values t) = ran (ht_map route_ops t)"
proof -
  assume inv: "ht_inv route_ops t"
  then have "distinct (map fst (concat (ht_buckets t)))" using distinct_keys_concat by (auto simp: ht_inv_def)
  then show ?thesis using inv by (simp add: ht_values_def ht_map_concat ran_distinct)
qed

lemma register_routes:
  assumes ok: "routes_ok srv" and r: "mcp_server_register_template_handler_internal m (Some uri) (Some h) srv = (rc, srv', m')"
  shows "routes_ok srv'" "routes_of srv' = (if rc = 0 then (routes_of srv)(uri \<mapsto> \<lparr>rt_template_uri = uri, rt_handler = h\<rparr>) else routes_of srv)"
    "ts_security srv' = ts_security srv"
proof -
  obtain q m1 where t: "routes_table m srv = (q, m1)" by fastforce
  have "routes_ok srv' \<and> routes_of srv' = (if rc = 0 then (routes_of srv)(uri \<mapsto> \<lparr>rt_template_uri = uri, rt_handler = h\<rparr>) else routes_of srv) \<and>
    ts_security srv' = ts_security srv"
  proof (cases q)
    case None
    then show ?thesis using r t ok by (auto simp: mcp_server_register_template_handler_internal_def)
  next
    case (Some t0)
    have t0: "ht_inv route_ops t0" "ht_map route_ops t0 = routes_of srv"
      using t Some ok create_spec [of m 64 "3 / 4" t0 m1 route_ops]
      by (auto simp: routes_table_def routes_ok_def routes_of_def split: option.splits)
    obtain q2 m2 where c: "template_route_create m1 uri h = (q2, m2)" by fastforce
    have q2: "q2 = None \<or> q2 = Some \<lparr>rt_template_uri = uri, rt_handler = h\<rparr>"
      using c by (auto simp: template_route_create_def mcp_strdup_def Let_def split: if_splits prod.splits option.splits)
    show ?thesis
    proof (cases q2)
      case None
      then have "rc = -1" "srv' = srv\<lparr>ts_routes_table := Some t0\<rparr>"
        using r t Some c by (auto simp: mcp_server_register_template_handler_internal_def)
      then show ?thesis using t0 ok by (auto simp: routes_ok_def routes_of_def split: option.splits)
    next
      case route: (Some route)
      obtain rc1 t1 ev m3 where p: "mcp_hashtable_put route_ops m2 t0 uri route = (rc1, t1, ev, m3)" by (metis prod_cases4)
      have post: "put_post route_ops t0 uri route rc1 t1 ev" by (rule string_key.put_spec [OF t0(1) p])
      have res: "rc = (if rc1 \<noteq> 0 then -1 else 0)" "srv' = srv\<lparr>ts_routes_table := Some t1\<rparr>"
        using r t Some c route p q2 by (auto simp: mcp_server_register_template_handler_internal_def)
      then show ?thesis using post t0 q2 route ok
        by (auto simp: put_post_def routes_ok_def routes_of_def split: if_splits option.splits)
    qed
  qed
  then show "routes_ok srv'" "routes_of srv' = (if rc = 0 then (routes_of srv)(uri \<mapsto> \<lparr>rt_template_uri = uri, rt_handler = h\<rparr>) else routes_of srv)"
    "ts_security srv' = ts_security srv" by blast+
qed

lemma only_route:
  assumes ok: "routes_ok srv" and "routes_of srv t0 = Some route" "template_hit te uri t0"
    and others: "\<forall>t \<in> dom (routes_of srv). t \<noteq> t0 \<longrightarrow> \<not> template_hit te uri t"
  shows "\<exists>t. ts_routes_table srv = Some t \<and> first_route te uri (ht_values t) = Some (route, template_params te uri t0)"
proof -
  obtain t where t: "ts_routes_table srv = Some t" "ht_map route_ops t t0 = Some route" using assms(2) by (auto simp: routes_of_def split: option.splits)
  have m: "routes_of srv = ht_map route_ops t" using t(1) by (simp add: routes_of_def)
  have inv: "ht_inv route_ops t" and keys: "\<And>k r. ht_map route_ops t k = Some r \<Longrightarrow> rt_template_uri r = k" using ok t(1) by (auto simp: routes_ok_def)
  have u: "r = route" if "r \<in> set (ht_values t)" "template_hit te uri (rt_template_uri r)" for r
  proof -
    from that(1) have "r \<in> ran (ht_map route_ops t)" unfolding values_ran [OF inv] .
    then obtain k where k: "ht_map route_ops t k = Some r" by (auto simp: ran_def)
    then have "k = t0" using others that(2) keys [OF k] m by auto
    with k t(2) show ?thesis by simp
  qed
  have "route \<in> set (ht_values t)" unfolding values_ran [OF inv] using t(2) by (rule ranI)
  moreover have uri: "rt_template_uri route = t0" using keys [OF t(2)] .
  ultimately have "find (\<lambda>r. template_hit te uri (rt_template_uri r)) (ht_values t) \<noteq> None"
    using assms(3) by (auto simp: find_None_iff)
  then obtain r where f: "find (\<lambda>r. template_hit te uri (rt_template_uri r)) (ht_values t) = Some r" by blast
  then have "r = route" using u by (auto simp: find_Some_iff)
  with f t(1) uri show ?thesis by (simp add: first_route_def)
qed

text \<open>Claim C22.  A registered template is served: behind a successful \<open>mcp_server_register_template_handler_internal\<close>, a URI built from
  the template and valid, non-empty values (as in the agreement of the two matchers), which no other
  registered template matches, is routed to the registered handler, whatever the cache of parsed templates
  holds and when no allocation fails during the request.  Without template security the handler is called,
  and its reply and state are returned.  With it, the parameters, which are the values converted to
  their types, go through the validation and the access check (without a role) first: when one of them
  refuses, the reply is its error code and the handler is not called.\<close>

theorem registered_template_served:
  assumes "routes_ok srv"
    and "mcp_server_register_template_handler_internal m (Some (template_of s0 segs)) (Some h) srv = (0, srv', m')"
    and "\<forall>t \<in> dom (routes_of srv). t \<noteq> template_of s0 segs \<longrightarrow> \<not> template_hit te (uri_of s0 segs) t"
    and "cache_inv tc" and "\<forall>x. ms x = ([], [])"
    and "segs_ok te segs" and "CHR ''{'' \<notin> set s0" and "distinct (map sg_name segs)" and "length segs < 2 ^ 56"
    and "\<forall>x \<in> set segs. sg_value x \<noteq> [] \<and> CHR ''{'' \<notin> set (sg_spec x)" and "length (template_of s0 segs) < 2 ^ 60"
  shows "\<exists>tc' params. cache_inv tc' \<and>
    (\<forall>x. mcp_json_object_get_property (Some params) x = map_of (map (\<lambda>x. (sg_name x, param_json te x)) segs) x) \<and>
    mcp_server_handle_template_resource te ms srv' (uri_of s0 segs) tc s =
      (if ts_security srv = None then (fst (h (uri_of s0 segs) s), tc', snd (h (uri_of s0 segs) s))
       else if \<not> mcp_template_security_validate_params (ts_security srv) (Some (template_of s0 segs)) (Some params)
       then (\<lparr>rr_status = MCP_ERROR_INVALID_PARAMS, rr_content = None\<rparr>, tc', s)
       else if \<not> mcp_template_security_check_access (ts_security srv) (Some (template_of s0 segs)) None (Some params)
       then (\<lparr>rr_status = MCP_ERROR_UNAUTHORIZED, rr_content = None\<rparr>, tc', s)
       else (fst (h (uri_of s0 segs) s), tc', snd (h (uri_of s0 segs) s)))"
proof -
  note reg = register_routes [OF assms(1,2)]
  have hit: "template_hit te (uri_of s0 segs) (template_of s0 segs)"
    by (rule optimized_matches [OF init_inv assms(6,7,10,11)]) (simp add: template_hit_def)
  obtain params where params: "template_params te (uri_of s0 segs) (template_of s0 segs) = Some params" "built (Some params, []) (rev (param_entries te segs))"
    using optimized_extracts [OF init_inv assms(6,7,9-11)] by (auto simp: template_params_def)
  obtain t where t: "ts_routes_table srv' = Some t" "first_route te (uri_of s0 segs) (ht_values t) =
      Some (\<lparr>rt_template_uri = template_of s0 segs, rt_handler = h\<rparr>, Some params)"
    using only_route [OF reg(1) _ hit, of "\<lparr>rt_template_uri = template_of s0 segs, rt_handler = h\<rparr>"] reg(2) assms(3) params(1) by auto
  obtain tc1 where tc1: "mcp_server_find_template_route te ms srv' (uri_of s0 segs) tc = (first_route te (uri_of s0 segs) (ht_values t), tc1)" "cache_inv tc1"
    using find_route [OF assms(4,5) t(1)] by blast
  have "mcp_json_object_get_property (Some params) x = map_of (map (\<lambda>x. (sg_name x, param_json te x)) segs) x" for x
    using params(2) built_params [OF assms(8)] by (auto simp: built_def get_property_map)
  then show ?thesis using t(2) tc1 reg(3)
    by (intro exI [of _ tc1] exI [of _ params]) (simp add: mcp_server_handle_template_resource_def split: prod.split)
qed

definition forecast :: "nat resource_handler" where
  "forecast uri n = (\<lparr>rr_status = 0, rr_content = Some [Some \<lparr>item_type = MCP_CONTENT_TYPE_TEXT, item_mime_type = Some ''text/plain'',
     item_data = Some [CHR ''y'', NUL], item_data_size = 2\<rparr>]\<rparr>, Suc n)"

lemma register_example:
  "\<exists>srv' m'. mcp_server_register_template_handler_internal [] (Some ''weather://{city}/days/{n:int}'') (Some forecast)
     \<lparr>ts_routes_table = None, ts_security = None\<rparr> = (0, srv', m')"
proof -
  have c: "mcp_hashtable_create [] 64 (3 / 4) = (Some (Hashtable (replicate 64 []) 64 0 (3 / 4) :: (string, nat template_route) mcp_hashtable), [])"
    by (simp add: mcp_hashtable_create_def alloc_buckets_def is_power_of_two_def)
  let ?t = "Hashtable (replicate 64 []) 64 0 (3 / 4) :: (string, nat template_route) mcp_hashtable"
  let ?u = "''weather://{city}/days/{n:int}''"
  have "ht_inv route_ops ?t" "ht_capacity ?t < 2 ^ 59" using create_spec [OF c, of route_ops] by simp_all
  from table_put_succeeds [OF this] obtain t' evs where
    "mcp_hashtable_put route_ops [] ?t ?u \<lparr>rt_template_uri = ?u, rt_handler = forecast\<rparr> = (0, t', evs, [])" by blast
  then show ?thesis using c by (simp add: mcp_server_register_template_handler_internal_def routes_table_def template_route_create_def dup_no_failure)
qed

theorem registered_template_served_witness:
  "\<exists>srv' m' tc'. mcp_server_register_template_handler_internal [] (Some ''weather://{city}/days/{n:int}'') (Some forecast)
     \<lparr>ts_routes_table = None, ts_security = None\<rparr> = (0, srv', m') \<and>
   mcp_server_handle_template_resource te_example (\<lambda>_. ([], [])) srv' ''weather://Paris/days/3'' mcp_template_cache_init 0 =
     (fst (forecast ''weather://Paris/days/3'' 0), tc', 1)"
proof -
  have tu: "template_of ''weather://'' city_days = ''weather://{city}/days/{n:int}''" "uri_of ''weather://'' city_days = ''weather://Paris/days/3''"
    by (simp_all add: template_of_def uri_of_def city_days_def)
  have h: "CHR ''{'' \<notin> set ''weather://''" "distinct (map sg_name city_days)" "length city_days < 2 ^ 56"
    "\<forall>x \<in> set city_days. sg_value x \<noteq> [] \<and> CHR ''{'' \<notin> set (sg_spec x)" "length (template_of ''weather://'' city_days) < 2 ^ 60"
    by (simp_all add: city_days_def template_of_def)
  let ?srv = "\<lparr>ts_routes_table = None, ts_security = None\<rparr> :: nat template_server"
  have e: "routes_ok ?srv"
    "\<forall>t \<in> dom (routes_of ?srv). t \<noteq> template_of ''weather://'' city_days \<longrightarrow> \<not> template_hit te_example (uri_of ''weather://'' city_days) t"
    by (simp_all add: routes_ok_def routes_of_def)
  obtain srv' m' where r: "mcp_server_register_template_handler_internal [] (Some (template_of ''weather://'' city_days)) (Some forecast) ?srv = (0, srv', m')"
    using register_example unfolding tu by blast
  have "\<forall>x :: string. (\<lambda>_. ([], [])) x = ([] :: mem, [] :: mem)" by simp
  from registered_template_served [OF e(1) r e(2) init_inv this city_days_ok h, of 0] obtain tc' where
    "mcp_server_handle_template_resource te_example (\<lambda>_. ([], [])) srv' (uri_of ''weather://'' city_days) mcp_template_cache_init 0 =
      (fst (forecast (uri_of ''weather://'' city_days) 0), tc', snd (forecast (uri_of ''weather://'' city_days) 0))" by auto
  with r show ?thesis unfolding tu by (intro exI [of _ srv'] exI [of _ m'] exI [of _ tc']) (simp add: forecast_def)
qed

end
