(* ===== verification/Mcp_Resources.thy ===== *)
theory Mcp_Resources
  imports Mcp_Handlers Mcp_Template_Router
begin

text \<open>
  The handler of \<open>read_resource\<close> in \<open>src/server/mcp_server_handlers.c\<close>: it asks the cache of \<open>Mcp_Cache\<close>, then
  the templates of \<open>Mcp_Template_Router\<close>, then the resource handler of the application, stores what it
  got in the cache and builds the response.

  The state is the resource cache, the global template cache and the state of the application.  The
  record \<open>read_env\<close> has what a request takes from the system: the answers of the allocators and the
  addresses of a new cache entry and its list node.  The node with the URI is shared by all items of a
  response and counted (\<open>mcp_json_increment_ref_count\<close>): \<open>uri_refs\<close>.
\<close>

section \<open>State\<close>

record read_env =
  rd_template :: template_env
  rd_route_mem :: "string \<Rightarrow> mem \<times> mem"
  rd_get_mem :: mem
  rd_put_mem :: mem
  rd_entry :: ref
  rd_node :: ref

record 's resource_server =
  rs_resources_supported :: bool
  rs_resources_table :: "(string, mcp_resource) mcp_hashtable option"
  rs_templates :: "'s template_server"
  rs_resource_handler :: "'s resource_handler option"

record 's resource_state =
  st_cache :: "mcp_resource_cache option"
  st_template_cache :: template_cache
  st_user :: 's

section \<open>Fetching\<close>

text \<open>The status, the content and whether it comes from a handler.\<close>

type_synonym fetched = "int \<times> mcp_content_item option list option \<times> bool"

definition handle_template_resource :: "read_env \<Rightarrow> 's resource_server \<Rightarrow> string \<Rightarrow> 's resource_state \<Rightarrow> fetched \<times> 's resource_state" where
  "handle_template_resource re srv uri s =
     (if ts_routes_table (rs_templates srv) = None then ((MCP_ERROR_RESOURCE_NOT_FOUND, None, False), s)
      else case mcp_server_handle_template_resource (rd_template re) (rd_route_mem re) (rs_templates srv) uri
                  (st_template_cache s) (st_user s) of
             (reply, tc, u) \<Rightarrow>
               ((rr_status reply, rr_content reply, rr_status reply \<noteq> MCP_ERROR_RESOURCE_NOT_FOUND),
                s\<lparr>st_template_cache := tc, st_user := u\<rparr>))"

definition handle_resource_handler :: "'s resource_server \<Rightarrow> string \<Rightarrow> 's resource_state \<Rightarrow> fetched \<times> 's resource_state" where
  "handle_resource_handler srv uri s =
     (case rs_resource_handler srv of
        None \<Rightarrow> ((MCP_ERROR_RESOURCE_NOT_FOUND, None, False), s)
      | Some handler \<Rightarrow>
          (case handler uri (st_user s) of
             (reply, u) \<Rightarrow>
               (if rr_status reply \<noteq> MCP_ERROR_NONE then (rr_status reply, rr_content reply, False)
                else if rr_content reply = None \<or> rr_content reply = Some [] then (MCP_ERROR_INTERNAL_ERROR, rr_content reply, False)
                else (MCP_ERROR_NONE, rr_content reply, True),
                s\<lparr>st_user := u\<rparr>)))"

text \<open>When no content was found: the error depends on the table of resources.\<close>

definition content_or_error ::
    "'s resource_server \<Rightarrow> string \<Rightarrow> mcp_content_item option list option \<Rightarrow> bool \<Rightarrow> (int \<times> string) + mcp_content_item option list \<times> bool" where
  "content_or_error srv uri content from_handler =
     (case content of
        Some items \<Rightarrow> Inr (items, from_handler)
      | None \<Rightarrow>
          (if (case rs_resources_table srv of None \<Rightarrow> True | Some t \<Rightarrow> fst (mcp_hashtable_get (string_ops True) t uri) \<noteq> 0)
           then Inl (MCP_ERROR_RESOURCE_NOT_FOUND, ''Resource not found and no handler configured'')
           else Inl (MCP_ERROR_INTERNAL_ERROR, ''Resource found but no handler configured to read content'')))"

definition fetch_resource ::
    "read_env \<Rightarrow> 's resource_server \<Rightarrow> string \<Rightarrow> 's resource_state \<Rightarrow>
     ((int \<times> string) + mcp_content_item option list \<times> bool) \<times> 's resource_state" where
  "fetch_resource re srv uri s =
     (case handle_template_resource re srv uri s of
        ((status, content, from_handler), s1) \<Rightarrow>
          (if status \<noteq> MCP_ERROR_RESOURCE_NOT_FOUND
           then (if status \<noteq> MCP_ERROR_NONE then (Inl (status, ''Error processing template resource''), s1)
                 else (content_or_error srv uri content from_handler, s1))
           else if content \<noteq> None then (content_or_error srv uri content from_handler, s1)
           else case handle_resource_handler srv uri s1 of
                  ((status2, content2, from_handler2), s2) \<Rightarrow>
                    (if status2 \<noteq> MCP_ERROR_NONE then (Inl (status2, ''Resource handler failed or resource not found''), s2)
                     else (content_or_error srv uri content2 from_handler2, s2))))"

definition resource_ttl :: "mcp_content_item option list \<Rightarrow> int" where
  "resource_ttl items = (case items of
       Some x # _ \<Rightarrow> if item_type x = MCP_CONTENT_TYPE_TEXT then 300 else 3600
     | _ \<Rightarrow> 0)"

definition cache_resource_content ::
    "read_env \<Rightarrow> int \<Rightarrow> string \<Rightarrow> mcp_content_item option list \<Rightarrow> bool \<Rightarrow> 's resource_state \<Rightarrow> 's resource_state checked" where
  "cache_resource_content re now uri items from_handler s =
     (case st_cache s of
        None \<Rightarrow> Done s
      | Some c \<Rightarrow>
          (if \<not> from_handler then Done s
           else case mcp_cache_put now (rd_put_mem re) (rd_entry re) (rd_node re) uri items (resource_ttl items) c of
                  None \<Rightarrow> Undefined
                | Some (_, c1) \<Rightarrow> Done (s\<lparr>st_cache := Some c1\<rparr>)))"

section \<open>The response\<close>

fun content_loop :: "string \<Rightarrow> mem \<Rightarrow> double json \<Rightarrow> mcp_content_item option list \<Rightarrow> list_context checked" where
  "content_loop uri m arr [] = Done (arr, False, m)"
| "content_loop uri m arr (None # items) = content_loop uri m arr items"
| "content_loop uri m arr (Some item # items) =
     (let r = and_on (and_on (mcp_json_object_create_with_capacity m 3) (set_value ''uri'' (\<lambda>m. (Some (JString uri), m))))
                (set_text ''mimeType'' (item_mime_type item))
      in case (case r of (None, _) \<Rightarrow> Done None
               | _ \<Rightarrow> if item_type item = MCP_CONTENT_TYPE_TEXT then item_text item else Done None) of
           Undefined \<Rightarrow> Undefined
         | Done txt \<Rightarrow>
             (case add_listed (and_on r (set_text ''text'' txt)) arr of
                (arr', True, m1) \<Rightarrow> Done (arr', True, m1)
              | (arr', False, m1) \<Rightarrow> content_loop uri m1 arr' items))"

text \<open>
  The references to the URI node when \<open>build_content_json\<close> is done: one for its creation, one more if the
  first item has been processed, one less for the final \<open>mcp_json_destroy\<close>.  At 0 the string is freed
  and the pointer to it is NULL, and the items that share the node cannot be printed.
\<close>

definition uri_refs :: "mcp_content_item option list \<Rightarrow> nat" where
  "uri_refs items = (case items of Some _ # _ \<Rightarrow> 1 + 1 | _ \<Rightarrow> 1) - 1"

definition uri_lost :: "mcp_content_item option list \<Rightarrow> bool" where
  "uri_lost items \<longleftrightarrow> uri_refs items = 0 \<and> (\<exists>x \<in> set items. x \<noteq> None)"

definition build_content_json ::
    "mem \<Rightarrow> double json \<Rightarrow> mcp_content_item option list \<Rightarrow> string \<Rightarrow> list_context checked" where
  "build_content_json m contents_json items uri =
     (case mcp_json_string_create m (Some uri) :: double json option \<times> mem of
        (None, m1) \<Rightarrow> Done (contents_json, True, m1)
      | (Some _, m1) \<Rightarrow> content_loop uri m1 contents_json items)"

definition read_response :: "message_env \<Rightarrow> request \<Rightarrow> string \<Rightarrow> mcp_content_item option list \<Rightarrow> 's \<Rightarrow> 's reply" where
  "read_response me rq uri items s =
     (case mcp_json_array_create_with_capacity (me_build_mem me) (length items) of
        (None, _) \<Rightarrow> internal_error me rq ''Failed to create contents array'' s
      | (Some arr, m1) \<Rightarrow>
          (case build_content_json m1 arr items uri of
             Undefined \<Rightarrow> Undefined
           | Done (_, True, _) \<Rightarrow> internal_error me rq ''Failed to build content item JSON'' s
           | Done (arr', False, m2) \<Rightarrow>
               (if \<not> uri_lost items then create_json_result me rq m2 arr' ''contents'' s
                else case and_on (mcp_json_object_create m2) (set_value ''contents'' (\<lambda>m. (Some arr', m))) of
                       (None, _) \<Rightarrow> internal_error me rq ''Failed to create result object'' s
                     | (Some _, _) \<Rightarrow> internal_error me rq ''Failed to stringify result'' s)))"

section \<open>The handler\<close>

text \<open>The cache first: what it has for the URI.\<close>

definition cache_lookup ::
    "read_env \<Rightarrow> int \<Rightarrow> string \<Rightarrow> 's resource_state \<Rightarrow> (mcp_content_item option list option \<times> 's resource_state) checked" where
  "cache_lookup re now uri s =
     (case st_cache s of
        None \<Rightarrow> Done (None, s)
      | Some c \<Rightarrow>
          (case mcp_cache_get now (rd_get_mem re) uri c of
             None \<Rightarrow> Undefined
           | Some (rc, items, c1) \<Rightarrow>
               Done (if rc = 0 then map_option (map (\<lambda>x. Some x)) items else None, s\<lparr>st_cache := Some c1\<rparr>)))"

definition read_resource ::
    "read_env \<Rightarrow> 's resource_server \<Rightarrow> message_env \<Rightarrow> request \<Rightarrow> string \<Rightarrow> 's resource_state \<Rightarrow> 's resource_state reply" where
  "read_resource re srv me rq uri s =
     (case cache_lookup re (me_now me) uri s of
        Undefined \<Rightarrow> Undefined
      | Done (Some items, s1) \<Rightarrow> read_response me rq uri items s1
      | Done (None, s1) \<Rightarrow>
          (case fetch_resource re srv uri s1 of
             (Inl (code, msg), s2) \<Rightarrow> error_reply (me_reply_mem me) (rq_id rq) code code msg s2
           | (Inr (items, from_handler), s2) \<Rightarrow>
               (case cache_resource_content re (me_now me) uri items from_handler s2 of
                  Undefined \<Rightarrow> Undefined
                | Done s3 \<Rightarrow> read_response me rq uri items s3)))"

definition handle_read_resource_request :: "read_env \<Rightarrow> 's resource_server \<Rightarrow> 's resource_state handler" where
  "handle_read_resource_request re srv me rq ctx s =
     (if ctx = None then Done ((MCP_ERROR_INVALID_PARAMS, None), s)
      else if \<not> rs_resources_supported srv
      then error_reply (me_reply_mem me) (rq_id rq) MCP_ERROR_METHOD_NOT_FOUND MCP_ERROR_METHOD_NOT_FOUND ''Resources not supported'' s
      else case rq_params rq of
             None \<Rightarrow> invalid_params me rq ''Missing parameters'' s
           | Some params \<Rightarrow>
               (case parse_text (me_json me) params of
                  Undefined \<Rightarrow> Undefined
                | Done None \<Rightarrow> invalid_params me rq ''Invalid parameters JSON'' s
                | Done (Some params_json) \<Rightarrow>
                    (case extract_string_param params_json ''uri'' of
                       None \<Rightarrow> invalid_params me rq ''Missing or invalid 'uri' parameter'' s
                     | Some uri \<Rightarrow>
                         (if \<not> mcp_auth_check_resource_access (me_now me) ctx (Some uri)
                          then error_reply (me_reply_mem me) (rq_id rq) MCP_ERROR_FORBIDDEN MCP_ERROR_FORBIDDEN ''Access denied to resource'' s
                          else read_resource re srv me rq uri s))))"

section \<open>Building the contents\<close>

lemma built_create_three: "built (mcp_json_object_create_with_capacity [] 3) []"
proof -
  let ?t = "Hashtable (replicate 4 []) 4 0 (3 / 4) :: (string, double json) mcp_hashtable"
  have n: "next_power_of_two 3 = 4" by (simp add: next_power_of_two_def is_power_of_two_def next_power_loop.simps push_bit_eq_mult)
  have c: "mcp_hashtable_create [] 3 (3 / 4) = (Some ?t, [])"
    by (simp add: mcp_hashtable_create_def alloc_buckets_def is_power_of_two_def n)
  have i: "ht_inv json_ops ?t" "ht_map json_ops ?t = Map.empty" using create_spec [OF c, of json_ops] by simp_all
  have "json_ok (JObject ?t)" unfolding json_ok_JObject using i by (simp add: ht_values_def)
  moreover have "roomy ?t 0" using i by (simp add: roomy_def)
  ultimately show ?thesis using c i unfolding built_def by (simp add: mcp_json_object_create_with_capacity_def mcp_json_alloc_node_def del: json_ok.simps)
qed

lemma builds_three: "builds env L D 0 (mcp_json_object_create_with_capacity [] 3) Map.empty"
  using built_create_three by (auto simp: builds_def)

text \<open>The text of an item that the response shows, and what the client reads for the item.\<close>

definition content_text :: "mcp_content_item \<Rightarrow> string option checked" where
  "content_text item = (if item_type item = MCP_CONTENT_TYPE_TEXT then item_text item else Done None)"

definition content_members :: "string \<Rightarrow> mcp_content_item \<Rightarrow> string option \<Rightarrow> string \<Rightarrow> double jval option" where
  "content_members uri item txt = Map.empty(''uri'' := Some (VString uri), ''mimeType'' := map_option VString (item_mime_type item),
     ''text'' := map_option VString txt)"

definition content_value :: "string \<Rightarrow> mcp_content_item \<Rightarrow> double jval" where
  "content_value uri item = VObject (content_members uri item (case content_text item of Done txt \<Rightarrow> txt | Undefined \<Rightarrow> None))"

definition content_ok :: "mcp_content_item \<Rightarrow> bool" where
  "content_ok item \<longleftrightarrow> text_field (item_mime_type item) \<and> (\<exists>txt. content_text item = Done txt \<and> text_field txt)"

text \<open>An array of known capacity that is being filled.\<close>

definition filling :: "json_env \<Rightarrow> nat \<Rightarrow> double json \<Rightarrow> double jval list \<Rightarrow> bool" where
  "filling env cap arr vs \<longleftrightarrow> (\<exists>items. arr = JArray items cap \<and> (\<forall>v \<in> set items. sized env (2 ^ 35) 1 v) \<and> map jabs items = vs \<and> length items \<le> cap)"

lemma filling_add:
  assumes "filling env cap arr vs" "builds env (2 ^ 31) 0 n r f" "n \<le> 8" "length vs < cap"
  shows "\<exists>arr'. add_listed r arr = (arr', False, []) \<and> filling env cap arr' (vs @ [VObject f])"
proof -
  obtain items where a: "arr = JArray items cap" "\<forall>v \<in> set items. sized env (2 ^ 35) 1 v" "map jabs items = vs" "length items \<le> cap"
    using assms(1) unfolding filling_def by blast
  obtain t where t: "r = (Some (JObject t), [])" "sized env (8 * 2 ^ 31 + 1000) (Suc 0) (JObject t)" "jabs (JObject t) = VObject f"
    using builds_object [OF assms(2,3)] by blast
  have "length items < cap" using a(3) assms(4) by auto
  then show ?thesis using a t sized_mono [OF t(2)]
    by (auto simp: add_listed_def filling_def mcp_json_array_add_item_def simp del: jabs.simps)
qed

lemma filling_full: "filling env (length vs) arr vs \<Longrightarrow> listing env arr vs"
  unfolding filling_def lists_def by (metis length_map le_refl max.coboundedI2 mult_2 le_add1)

lemma content_step:
  assumes "filling env cap arr vs" "content_ok item" "length vs < cap" "text_field (Some uri)"
  shows "\<exists>arr'. content_loop uri [] arr (Some item # items) = content_loop uri [] arr' items \<and> filling env cap arr' (vs @ [content_value uri item])"
proof -
  obtain tx where x: "text_field (item_mime_type item)" "content_text item = Done tx" "text_field tx"
    using assms(2) unfolding content_ok_def by auto
  let ?base = "and_on (mcp_json_object_create_with_capacity [] 3) (set_value ''uri'' (\<lambda>m. (Some (JString uri), m)))"
  let ?r = "and_on ?base (set_text ''mimeType'' (item_mime_type item))"
  have b1: "builds env (2 ^ 31) 0 (Suc 0) ?base (Map.empty(''uri'' \<mapsto> jabs (JString uri)))"
    by (rule builds_value [OF builds_three]) (use sized_string [OF assms(4)] in simp_all)
  have b2: "builds env (2 ^ 31) 0 (Suc (Suc 0)) ?r (Map.empty(''uri'' \<mapsto> VString uri, ''mimeType'' := map_option VString (item_mime_type item)))"
    using builds_field [OF b1, of "''mimeType''" "item_mime_type item"] x(1) by simp
  then obtain obj where r: "?r = (Some obj, [])" unfolding builds_def built_def by blast
  have "builds env (2 ^ 31) 0 3 (and_on ?r (set_text ''text'' tx)) (content_members uri item tx)"
    using builds_field [OF b2, of "''text''" tx] x(3) unfolding content_members_def three by simp
  from filling_add [OF assms(1) this _ assms(3)] obtain arr1 where
    a: "add_listed (and_on ?r (set_text ''text'' tx)) arr = (arr1, False, [])" "filling env cap arr1 (vs @ [VObject (content_members uri item tx)])" by auto
  have "content_loop uri [] arr (Some item # items) = content_loop uri [] arr1 items"
    unfolding content_loop.simps Let_def r using x(2) [unfolded content_text_def] a(1) [unfolded r] by simp
  then show ?thesis using a(2) x(2) by (auto simp: content_value_def)
qed

lemma content_all:
  assumes "filling env cap arr vs" "\<forall>x \<in> set items. content_ok x" "length vs + length items \<le> cap" "text_field (Some uri)"
  shows "\<exists>arr'. content_loop uri [] arr (map (\<lambda>x. Some x) items) = Done (arr', False, []) \<and> filling env cap arr' (vs @ map (content_value uri) items)"
  using assms
proof (induction items arbitrary: arr vs)
  case (Cons x items)
  obtain arr1 where a: "content_loop uri [] arr (Some x # map (\<lambda>x. Some x) items) = content_loop uri [] arr1 (map (\<lambda>x. Some x) items)"
    "filling env cap arr1 (vs @ [content_value uri x])"
    using content_step [OF Cons.prems(1) _ _ Cons.prems(4), of x] Cons.prems by fastforce
  show ?case using Cons.IH [OF a(2)] Cons.prems a(1) by auto
qed simp

lemma read_response_read:
  assumes "calm me" "unat (rq_id rq) \<le> 2 ^ 53" "\<forall>x \<in> set items. content_ok x" "length items \<le> 2 ^ 12" "text_field (Some uri)"
  shows "\<exists>response. read_response me rq uri (map (\<lambda>x. Some x) items) s = Done ((MCP_ERROR_NONE, Some response), s) \<and>
    answers_with me (rq_id rq) response (VObject [''contents'' \<mapsto> VArray (map (content_value uri) items)])"
proof -
  have m: "me_build_mem me = []" using assms(1) by (simp add: calm_def)
  have c: "mcp_json_array_create_with_capacity [] (length items) = (Some (JArray [] (length items) :: double json), [])"
    using assms(4) by (simp add: mcp_json_array_create_with_capacity_def mcp_json_alloc_node_def malloc_items_def)
  have "filling (me_json me) (length items) (JArray [] (length items)) []" by (simp add: filling_def)
  from content_all [OF this assms(3) _ assms(5)] obtain arr where arr: "content_loop uri [] (JArray [] (length items)) (map (\<lambda>x. Some x) items) = Done (arr, False, [])"
    "filling (me_json me) (length items) arr (map (content_value uri) items)" by auto
  then have l: "listing (me_json me) arr (map (content_value uri) items)" using filling_full [of _ "map (content_value uri) items"] by simp
  have "(mcp_json_string_create [] (Some uri) :: double json option \<times> mem) = (Some (JString uri), [])"
    using assms(5) by (simp add: mcp_json_string_create_def mcp_json_alloc_node_def text_field_def)
  moreover have "\<not> uri_lost (map (\<lambda>x. Some x) items)" by (cases items) (auto simp: uri_lost_def uri_refs_def)
  ultimately show ?thesis
    using create_json_result_read [OF assms(1,2) l, of "''contents''" s] assms(4) arr(1) c
    by (auto simp: read_response_def build_content_json_def m c_str_ok_def)
qed

section \<open>Reading through the cache\<close>

lemma fetch_keeps_cache: "fetch_resource re srv uri s = (r, s') \<Longrightarrow> st_cache s' = st_cache s"
  by (auto simp: fetch_resource_def handle_template_resource_def handle_resource_handler_def split: prod.splits if_splits option.splits)

lemma cache_missing:
  assumes "cache_ok c xs" "uri \<notin> fst ` set (cache_view xs)"
  shows "mcp_cache_get now [] uri c = Some (-1, None, c)"
proof (cases "snd (mcp_hashtable_get cache_ops (c_table c) uri)")
  case None
  then obtain rc where "mcp_hashtable_get cache_ops (c_table c) uri = (rc, None)" by (metis prod.collapse)
  then show ?thesis by (simp add: mcp_cache_get_def)
next
  case (Some a)
  then obtain rc where "mcp_hashtable_get cache_ops (c_table c) uri = (rc, Some a)" by (metis prod.collapse)
  then obtain ys e zs where "xs = ys @ (a, e) # zs" "ce_key e = uri" using get_found assms(1) unfolding cache_ok_def by metis
  then show ?thesis using assms(2) by (auto simp: cell_line_def)
qed

text \<open>An item that the cache keeps as it is shown: its type is given, and the size of a text counts the terminator.\<close>

definition stored_ok :: "mcp_content_item \<Rightarrow> bool" where
  "stored_ok item \<longleftrightarrow> content_ok item \<and> item_sized item \<and> item_mime_type item \<noteq> None \<and>
     (case item_data item of None \<Rightarrow> item_data_size item = 0
      | Some bytes \<Rightarrow> 0 < item_data_size item \<and> (item_type item = MCP_CONTENT_TYPE_TEXT \<longrightarrow> NUL \<in> set (take (item_data_size item) bytes)))"

lemma stored_copy:
  assumes "stored_ok item"
  shows "item_type (cache_copy item) = item_type item" "item_mime_type (cache_copy item) = item_mime_type item"
    "content_text (cache_copy item) = content_text item"
proof -
  show "item_type (cache_copy item) = item_type item" "item_mime_type (cache_copy item) = item_mime_type item"
    using assms by (auto simp: cache_copy_def copy_of_def stored_ok_def split: option.splits)
  have "c_string (take n bytes) = c_string bytes" if "NUL \<in> set (take n bytes)" for n and bytes :: "char list"
  proof -
    have "takeWhile P (take n bytes) = takeWhile P bytes" if "\<not> P x" "x \<in> set (take n bytes)" for P x
      by (metis append_take_drop_id takeWhile_append1 that)
    then show ?thesis using that by (auto simp: c_string_def)
  qed
  then show "content_text (cache_copy item) = content_text item"
    using assms by (auto simp: cache_copy_def copy_of_def stored_ok_def content_text_def item_text_def dest: in_set_takeD split: option.splits)
qed

lemma stored_copy_value: "stored_ok item \<Longrightarrow> content_value uri (cache_copy item) = content_value uri item"
  using stored_copy [of item] by (simp add: content_value_def content_members_def)

lemma stored_copy_ok: "stored_ok item \<Longrightarrow> content_ok (cache_copy item)"
  using stored_copy [of item] by (simp add: content_ok_def stored_ok_def)

text \<open>What a request has when no allocation fails: the addresses of a new entry and a new node.\<close>

definition calm_read :: "read_env \<Rightarrow> mcp_resource_cache \<Rightarrow> bool" where
  "calm_read re c \<longleftrightarrow> rd_get_mem re = [] \<and> rd_put_mem re = [] \<and>
     (\<exists>a n. rd_entry re = Some a \<and> rd_node re = Some n \<and> c_entries c a = None \<and> c_nodes c n = None) \<and> ht_capacity (c_table c) < 2 ^ 59"

lemma read_stores:
  assumes "st_cache s = Some c" "cache_ok c xs" "uri \<notin> fst ` set (cache_view xs)" "calm_read re c" "length uri < 2 ^ 60"
    and "fetch_resource re srv uri s = (Inr (map (\<lambda>x. Some x) items, True), s1)"
    and "items \<noteq> []" "\<forall>x \<in> set items. item_sized x \<and> (item_data x = None \<longrightarrow> item_data_size x = 0)"
  shows "\<exists>c' xs'. read_resource re srv me rq uri s = read_response me rq uri (map (\<lambda>x. Some x) items) (s1\<lparr>st_cache := Some c'\<rparr>) \<and>
    cache_ok c' xs' \<and> cache_view xs' = take (unat (c_capacity c)) ((uri, map cache_copy items, me_now me + resource_ttl (map (\<lambda>x. Some x) items)) # cache_view xs)"
proof -
  let ?items = "map (\<lambda>x. Some x) items"
  obtain a n where an: "rd_entry re = Some a" "rd_node re = Some n" "c_entries c a = None" "c_nodes c n = None"
    "ht_capacity (c_table c) < 2 ^ 59" "rd_get_mem re = []" "rd_put_mem re = []" using assms(4) by (auto simp: calm_read_def)
  have ok: "put_ok ?items" using assms(7,8) by (auto simp: put_ok_def)
  have legal: "legal_cache (Put (me_now me) a n uri ?items (resource_ttl ?items)) c" using an assms(5,8) by auto
  from put_step [OF assms(2) legal] ok obtain c' xs' where
    p: "mcp_cache_put (me_now me) [] (Some a) (Some n) uri ?items (resource_ttl ?items) c = Some (0, c')" "cache_ok c' xs'"
    "cache_view xs' = snd (snd (spec_cache (unat (c_capacity c)) (c_default_ttl_seconds c) (Put (me_now me) a n uri ?items (resource_ttl ?items)) (cache_view xs)))"
    by auto
  have ttl: "resource_ttl ?items \<noteq> 0" "\<not> resource_ttl ?items < 0" using assms(7) by (cases items; simp add: resource_ttl_def)+
  have o: "other_lines uri (cache_view xs) = cache_view xs" using assms(3) by (intro filter_True) (metis image_eqI)
  have "cache_view xs' = take (unat (c_capacity c)) ((uri, map cache_copy items, me_now me + resource_ttl ?items) # cache_view xs)"
    unfolding p(3) spec_cache.simps o using ok ttl by (simp add: comp_def Let_def)
  moreover have "st_cache s1 = Some c" using fetch_keeps_cache [OF assms(6)] assms(1) by simp
  moreover have "s\<lparr>st_cache := Some c\<rparr> = s" using assms(1) by (cases s) simp
  then have "fetch_resource re srv uri (s\<lparr>st_cache := Some c\<rparr>) = (Inr (?items, True), s1)" using assms(6) by metis
  ultimately show ?thesis using p(1,2) assms(1) cache_missing [OF assms(2,3)] an
    by (intro exI [of _ c'] exI [of _ xs']) (simp add: read_resource_def cache_lookup_def cache_resource_content_def)
qed

lemma read_hit:
  assumes "st_cache s = Some c" "cache_ok c xs" "rd_get_mem re = []" "map_of (cache_view xs) uri = Some (items, expiry)" "expiry \<noteq> 0 \<longrightarrow> me_now me < expiry"
  shows "\<exists>c'. read_resource re srv me rq uri s = read_response me rq uri (map (\<lambda>x. Some x) items) (s\<lparr>st_cache := Some c'\<rparr>)"
proof -
  from get_step [OF assms(2), of "me_now me" uri] assms(4,5) obtain c' where "mcp_cache_get (me_now me) [] uri c = Some (0, Some items, c')"
    by (auto simp: line_expired_def)
  then show ?thesis using assms(1,3) by (intro exI [of _ c']) (simp add: read_resource_def cache_lookup_def)
qed

section \<open>An example\<close>

definition read_item :: "nat \<Rightarrow> mcp_content_item" where
  "read_item n = \<lparr>item_type = MCP_CONTENT_TYPE_TEXT, item_mime_type = Some ''text/plain'', item_data = Some (''y'' @ [NUL]), item_data_size = n\<rparr>"

definition read_handler :: "nat \<Rightarrow> nat resource_handler" where
  "read_handler n uri u = (\<lparr>rr_status = 0, rr_content = Some [Some (read_item n)]\<rparr>, Suc u)"

definition read_server :: "nat \<Rightarrow> nat resource_server" where
  "read_server n = \<lparr>rs_resources_supported = True, rs_resources_table = None, rs_templates = \<lparr>ts_routes_table = None, ts_security = None\<rparr>,
     rs_resource_handler = Some (read_handler n)\<rparr>"

definition read_cache :: mcp_resource_cache where
  "read_cache = \<lparr>c_table = Hashtable [[]] 1 0 (3 / 4), c_lru_list = mcp_list_create, c_nodes = (\<lambda>_. None), c_entries = (\<lambda>_. None),
      c_capacity = 1, c_default_ttl_seconds = 60\<rparr>"

definition read_state :: "nat resource_state" where
  "read_state = \<lparr>st_cache = Some read_cache, st_template_cache = mcp_template_cache_init, st_user = 0\<rparr>"

definition re_example :: read_env where
  "re_example = \<lparr>rd_template = te_example, rd_route_mem = (\<lambda>_. ([], [])), rd_get_mem = [], rd_put_mem = [], rd_entry = Some 1, rd_node = Some 2\<rparr>"

lemma read_example:
  "st_cache read_state = Some read_cache" "cache_ok read_cache []" "''a'' \<notin> fst ` set (cache_view [])" "calm_read re_example read_cache"
  "c_capacity read_cache \<noteq> 0" "rd_get_mem re_example = []" "text_field (Some ''a'')"
  "fetch_resource re_example (read_server n) ''a'' read_state = (Inr ([Some (read_item n)], True), read_state\<lparr>st_user := 1\<rparr>)"
proof -
  have "mcp_cache_create [] 1 60 = (Some read_cache, [])"
    by (simp add: mcp_cache_create_def mcp_hashtable_create_def alloc_buckets_def is_power_of_two_def read_cache_def)
  from cache_created [OF this] show "cache_ok read_cache []" by simp
qed (simp_all add: read_state_def read_cache_def calm_read_def re_example_def text_field_def c_str_ok_def fetch_resource_def
    handle_template_resource_def handle_resource_handler_def read_server_def read_handler_def content_or_error_def)

lemma stored_example: "stored_ok (read_item 2)" "content_value ''a'' (read_item 2) =
    VObject [''uri'' \<mapsto> VString ''a'', ''mimeType'' \<mapsto> VString ''text/plain'', ''text'' \<mapsto> VString ''y'']"
  by (simp_all add: stored_ok_def content_ok_def content_text_def item_text_def item_sized_def read_item_def text_field_def c_string_def c_str_ok_def
      content_value_def content_members_def)

lemma params_uri_example:
  "\<exists>params t. parse_text env_int params = Done (Some (JObject t)) \<and> extract_string_param (JObject t) ''uri'' = Some ''a''"
proof -
  have b: "built (and_on (mcp_json_object_create []) (\<lambda>m obj. add_string_property m obj ''uri'' ''a'')) [(''uri'', JString ''a'')]"
    by (rule built_add_string [OF built_create]) (simp_all add: c_str_ok_def)
  have "\<forall>(k, v) \<in> set [(''uri'', JString ''a'')]. length k \<le> 20 \<and> json_text_ok env_int v"
    using json_text_ok_scalars [of "''a''" env_int] by (simp add: c_str_ok_def)
  from built_roundtrip [OF b _ _ this env_int(1)] obtain params t where
    t: "mcp_json_parse (env_strtod env_int) [] (Some params) = Ok (JObject t)"
    "\<forall>x. map_option jabs (mcp_json_object_get_property (Some (JObject t)) x) = map_option jabs (map_of [(''uri'', JString ''a'')] x)"
    by auto
  have "mcp_json_object_get_property (Some (JObject t)) ''uri'' = Some (JString ''a'')"
    by (rule object_reader(2) [OF t(2)]) simp
  with t(1) show ?thesis
    by (intro exI [of _ params] exI [of _ t]) (simp add: parse_text_def extract_string_param_def mcp_json_get_string_def env_int_def)
qed

definition ctx_reader :: mcp_auth_context where
  "ctx_reader = \<lparr>ctx_type = MCP_AUTH_NONE, ctx_identifier = Some ''x'', ctx_expiry = 0,
     ctx_allowed_resources = Some [Some ''a*''], ctx_allowed_tools = None\<rparr>"

lemma read_request_example:
  "\<exists>params r s'. handle_read_resource_request re_example (read_server 2) me_example (request_example params) (Some ctx_reader) read_state =
     Done ((MCP_ERROR_NONE, Some r), s')"
proof -
  obtain params t where p: "parse_text env_int params = Done (Some (JObject t))" "extract_string_param (JObject t) ''uri'' = Some ''a''"
    using params_uri_example by blast
  have acc: "mcp_auth_check_resource_access 0 (Some ctx_reader) (Some ''a'')"
    by (simp add: ctx_reader_def mcp_auth_check_resource_access_def check_access_def is_auth_context_expired_def mcp_wildcard_match_def)
  have sized: "\<forall>x \<in> set [read_item 2]. item_sized x \<and> (item_data x = None \<longrightarrow> item_data_size x = 0)" and cok: "\<forall>x \<in> set [read_item 2]. content_ok x"
    using stored_example(1) by (auto simp: stored_ok_def)
  have f: "fetch_resource re_example (read_server 2) ''a'' read_state = (Inr (map (\<lambda>x. Some x) [read_item 2], True), read_state\<lparr>st_user := 1\<rparr>)"
    using read_example(8) by simp
  have u: "length ''a'' < 2 ^ 60" by simp
  obtain s2 where r: "read_resource re_example (read_server 2) me_example (request_example params) ''a'' read_state =
      read_response me_example (request_example params) ''a'' (map (\<lambda>x. Some x) [read_item 2]) s2"
    using read_stores [OF read_example(1-4) u f _ sized, of me_example "request_example params"] by auto
  then obtain a where "read_resource re_example (read_server 2) me_example (request_example params) ''a'' read_state = Done ((MCP_ERROR_NONE, Some a), s2)"
    using read_response_read [OF calm_example _ cok _ read_example(7), of "request_example params" s2] by auto
  then show ?thesis using p acc
    by (intro exI [of _ params] exI [of _ a] exI [of _ s2]) (simp add: handle_read_resource_request_def read_server_def me_example_def)
qed

section \<open>Properties\<close>

text \<open>Claim C4.  Resources are read only by clients that may: if \<open>handle_read_resource_request\<close> succeeds or changes the
  state, the caches included, then resources are supported, the parameters name a URI, the access
  rules of the client's context grant that URI, and the reply is that of \<open>read_resource\<close> for it.\<close>

theorem read_only_with_access:
  assumes "handle_read_resource_request re srv me rq ctx s = Done ((code, r), s')" and "s' \<noteq> s \<or> code = MCP_ERROR_NONE"
  shows "\<exists>params uri. rs_resources_supported srv \<and> parse_text (me_json me) (the (rq_params rq)) = Done (Some params) \<and>
    extract_string_param params ''uri'' = Some uri \<and> mcp_auth_check_resource_access (me_now me) ctx (Some uri) \<and>
    read_resource re srv me rq uri s = Done ((code, r), s')"
proof -
  have keeps: "error_reply m i st cd msg s0 = Done ((code0, r0), s1) \<Longrightarrow> s1 = s0 \<and> code0 = st" for m i st cd msg r0 code0 and s0 s1 :: "'a resource_state"
    by (auto simp: error_reply_def split: checked.splits)
  show ?thesis
    using assms by (auto simp: handle_read_resource_request_def invalid_params_def dest!: keeps
        split: if_splits option.splits checked.splits)
qed

text \<open>Claim C6.  Reading twice, when no allocation fails and the cache has a capacity that is not 0 and nothing for the
  URI: when a handler gives between 1 and $2^{12}$ items that the cache can keep as they are, that is, each with a
  type, with data exactly when its size is not 0, and, for a text, with a terminator within its size (\<open>stored_ok\<close>),
  they are stored, and the client reads one object per item with the URI, the type and the text.  A second
  read before the time to live is over is answered from the cache with the same contents, and no handler
  is called (the state of the application is unchanged), whatever handlers the server has by then.  For
  other items this is not so: see \<open>cached_text_unterminated\<close>.\<close>

theorem read_then_cached:
  assumes "calm me1" "calm me2" and "unat (rq_id rq1) \<le> 2 ^ 53" "unat (rq_id rq2) \<le> 2 ^ 53" and "text_field (Some uri)"
    and "st_cache s = Some c" "cache_ok c xs" "uri \<notin> fst ` set (cache_view xs)" "calm_read re1 c" "c_capacity c \<noteq> 0"
    and "fetch_resource re1 srv1 uri s = (Inr (map (\<lambda>x. Some x) items, True), s1)"
    and "items \<noteq> []" "length items \<le> 2 ^ 12" "\<forall>x \<in> set items. stored_ok x"
    and "rd_get_mem re2 = []" and "me_now me2 < me_now me1 + resource_ttl (map (\<lambda>x. Some x) items)"
  shows "\<exists>r1 s2 r2 s3. read_resource re1 srv1 me1 rq1 uri s = Done ((MCP_ERROR_NONE, Some r1), s2) \<and>
    answers_with me1 (rq_id rq1) r1 (VObject [''contents'' \<mapsto> VArray (map (content_value uri) items)]) \<and>
    read_resource re2 srv2 me2 rq2 uri s2 = Done ((MCP_ERROR_NONE, Some r2), s3) \<and>
    answers_with me2 (rq_id rq2) r2 (VObject [''contents'' \<mapsto> VArray (map (content_value uri) items)]) \<and>
    st_user s2 = st_user s1 \<and> st_user s3 = st_user s1"
proof -
  have len: "length uri < 2 ^ 60" using assms(5) by (simp add: text_field_def)
  have sized: "\<forall>x \<in> set items. item_sized x \<and> (item_data x = None \<longrightarrow> item_data_size x = 0)" and cok: "\<forall>x \<in> set items. content_ok x"
    using assms(14) by (auto simp: stored_ok_def)
  obtain c' xs' where r1: "read_resource re1 srv1 me1 rq1 uri s = read_response me1 rq1 uri (map (\<lambda>x. Some x) items) (s1\<lparr>st_cache := Some c'\<rparr>)"
    "cache_ok c' xs'" "cache_view xs' = take (unat (c_capacity c)) ((uri, map cache_copy items, me_now me1 + resource_ttl (map (\<lambda>x. Some x) items)) # cache_view xs)"
    using read_stores [OF assms(6-9) len assms(11,12) sized] by blast
  have "unat (c_capacity c) \<noteq> 0" using assms(10) by (simp add: unat_eq_0)
  then have m: "map_of (cache_view xs') uri = Some (map cache_copy items, me_now me1 + resource_ttl (map (\<lambda>x. Some x) items))"
    unfolding r1(3) by (cases "unat (c_capacity c)") auto
  let ?s2 = "s1\<lparr>st_cache := Some c'\<rparr>"
  obtain c2 where r2: "read_resource re2 srv2 me2 rq2 uri ?s2 = read_response me2 rq2 uri (map (\<lambda>x. Some x) (map cache_copy items)) (?s2\<lparr>st_cache := Some c2\<rparr>)"
    using read_hit [OF _ r1(2) assms(15) m, of ?s2 me2 srv2 rq2] assms(16) by auto
  have copies: "\<forall>x \<in> set (map cache_copy items). content_ok x" "map (content_value uri) (map cache_copy items) = map (content_value uri) items"
    "length (map cache_copy items) \<le> 2 ^ 12"
    using assms(13,14) by (auto simp: stored_copy_ok stored_copy_value)
  obtain a1 where a1: "read_response me1 rq1 uri (map (\<lambda>x. Some x) items) ?s2 = Done ((MCP_ERROR_NONE, Some a1), ?s2)"
    "answers_with me1 (rq_id rq1) a1 (VObject [''contents'' \<mapsto> VArray (map (content_value uri) items)])"
    using read_response_read [OF assms(1,3) cok assms(13,5), of ?s2] by (elim exE conjE) (rule that)
  obtain a2 where a2: "read_response me2 rq2 uri (map (\<lambda>x. Some x) (map cache_copy items)) (?s2\<lparr>st_cache := Some c2\<rparr>) =
      Done ((MCP_ERROR_NONE, Some a2), ?s2\<lparr>st_cache := Some c2\<rparr>)"
    "answers_with me2 (rq_id rq2) a2 (VObject [''contents'' \<mapsto> VArray (map (content_value uri) items)])"
    using read_response_read [OF assms(2,4) copies(1,3) assms(5), of "?s2\<lparr>st_cache := Some c2\<rparr>"] unfolding copies(2) by (elim exE conjE) (rule that)
  show ?thesis using r1(1) a1 r2 a2 by (intro exI conjI) (assumption | simp)+
qed

text \<open>A text whose size does not count its terminator is lost to the cache: the first read shows it, but the
  copy in the cache has no terminator, and the second read runs off its end.\<close>

theorem cached_text_unterminated:
  assumes "calm me1" "calm me2" and "unat (rq_id rq1) \<le> 2 ^ 53" and "text_field (Some uri)"
    and "st_cache s = Some c" "cache_ok c xs" "uri \<notin> fst ` set (cache_view xs)" "calm_read re1 c" "c_capacity c \<noteq> 0"
    and "fetch_resource re1 srv1 uri s = (Inr ([Some item], True), s1)"
    and "item_type item = MCP_CONTENT_TYPE_TEXT" "item_data item = Some (body @ [NUL])" "item_data_size item = length body"
    and "body \<noteq> []" "text_field (Some body)" "text_field (item_mime_type item)"
    and "rd_get_mem re2 = []" and "me_now me2 < me_now me1 + 300"
  shows "\<exists>r1 s2. read_resource re1 srv1 me1 rq1 uri s = Done ((MCP_ERROR_NONE, Some r1), s2) \<and>
    read_resource re2 srv2 me2 rq2 uri s2 = Undefined"
proof -
  have len: "length uri < 2 ^ 60" using assms(4) by (simp add: text_field_def)
  have nonul: "NUL \<notin> set body" using assms(15) by (simp add: text_field_def c_str_ok_def)
  have sized: "\<forall>x \<in> set [item]. item_sized x \<and> (item_data x = None \<longrightarrow> item_data_size x = 0)"
    using assms(12,13,16) by (auto simp: item_sized_def text_field_def split: option.splits)
  have "takeWhile (\<lambda>c. c \<noteq> NUL) (body @ [NUL]) = body" by (subst takeWhile_append2) (use nonul in auto)
  then have "item_text item = Done (Some body)" using assms(12) nonul by (simp add: item_text_def c_string_def)
  then have cok: "\<forall>x \<in> set [item]. content_ok x" using assms(11,15,16) by (simp add: content_ok_def content_text_def)
  have ttl: "resource_ttl (map (\<lambda>x. Some x) [item]) = 300" using assms(11) by (simp add: resource_ttl_def)
  have fetch: "fetch_resource re1 srv1 uri s = (Inr (map (\<lambda>x. Some x) [item], True), s1)" using assms(10) by simp
  obtain c' xs' where r1: "read_resource re1 srv1 me1 rq1 uri s = read_response me1 rq1 uri (map (\<lambda>x. Some x) [item]) (s1\<lparr>st_cache := Some c'\<rparr>)"
    "cache_ok c' xs'" "cache_view xs' = take (unat (c_capacity c)) ((uri, map cache_copy [item], me_now me1 + 300) # cache_view xs)"
    using read_stores [OF assms(5-8) len fetch _ sized, of me1 rq1] unfolding ttl by blast
  have "unat (c_capacity c) \<noteq> 0" using assms(9) by (simp add: unat_eq_0)
  then have m: "map_of (cache_view xs') uri = Some (map cache_copy [item], me_now me1 + 300)"
    unfolding r1(3) by (cases "unat (c_capacity c)") auto
  let ?s2 = "s1\<lparr>st_cache := Some c'\<rparr>"
  obtain c2 where r2: "read_resource re2 srv2 me2 rq2 uri ?s2 = read_response me2 rq2 uri (map (\<lambda>x. Some x) (map cache_copy [item])) (?s2\<lparr>st_cache := Some c2\<rparr>)"
    using read_hit [OF _ r1(2) assms(17) m, of ?s2 me2 srv2 rq2] assms(18) by auto
  have cp: "item_type (cache_copy item) = MCP_CONTENT_TYPE_TEXT" "item_text (cache_copy item) = Undefined"
    using assms(11-14) nonul by (simp_all add: cache_copy_def copy_of_def item_text_def)
  have "read_response me2 rq2 uri [Some (cache_copy item)] s0 = Undefined" for s0 :: "'b resource_state"
  proof -
    let ?base = "and_on (mcp_json_object_create_with_capacity [] 3) (set_value ''uri'' (\<lambda>m. (Some (JString uri), m)))"
    have mime: "text_field (item_mime_type (cache_copy item))"
      using assms(12,13,16) by (auto simp: cache_copy_def copy_of_def text_field_def c_str_ok_def split: option.splits)
    have b1: "builds (me_json me2) (2 ^ 31) 0 (Suc 0) ?base (Map.empty(''uri'' \<mapsto> jabs (JString uri)))"
      by (rule builds_value [OF builds_three]) (use sized_string [OF assms(4)] in simp_all)
    have "builds (me_json me2) (2 ^ 31) 0 (Suc (Suc 0)) (and_on ?base (set_text ''mimeType'' (item_mime_type (cache_copy item))))
        (Map.empty(''uri'' \<mapsto> VString uri, ''mimeType'' := map_option VString (item_mime_type (cache_copy item))))"
      using builds_field [OF b1, of "''mimeType''" "item_mime_type (cache_copy item)"] mime by simp
    then obtain obj where r: "and_on ?base (set_text ''mimeType'' (item_mime_type (cache_copy item))) = (Some obj, [])"
      unfolding builds_def built_def by blast
    have "content_loop uri [] arr [Some (cache_copy item)] = Undefined" for arr
      unfolding content_loop.simps Let_def r using cp by simp
    then show ?thesis using assms(2,4)
      by (simp add: read_response_def build_content_json_def calm_def mcp_json_array_create_with_capacity_def mcp_json_alloc_node_def
          malloc_items_def mcp_json_string_create_def text_field_def)
  qed
  then show ?thesis using read_response_read [OF assms(1,3) cok _ assms(4), of ?s2] r1(1) r2 by auto
qed

theorem read_only_with_access_witness:
  "\<exists>uri. mcp_auth_check_resource_access 0 (Some ctx_reader) (Some uri)"
proof -
  obtain params r s' where "handle_read_resource_request re_example (read_server 2) me_example (request_example params) (Some ctx_reader) read_state =
     Done ((MCP_ERROR_NONE, Some r), s')" using read_request_example by blast
  from read_only_with_access [OF this] show ?thesis by (auto simp: me_example_def)
qed

theorem read_then_cached_witness:
  "\<exists>r1 s2 r2 s3. read_resource re_example (read_server 2) me_example (request_example []) ''a'' read_state = Done ((MCP_ERROR_NONE, Some r1), s2) \<and>
     st_user s2 = 1 \<and>
     read_resource re_example (read_server 2) me_example (request_example []) ''a'' s2 = Done ((MCP_ERROR_NONE, Some r2), s3) \<and>
     answers_with me_example 7 r2 (VObject [''contents'' \<mapsto> VArray [VObject [''uri'' \<mapsto> VString ''a'', ''mimeType'' \<mapsto> VString ''text/plain'',
       ''text'' \<mapsto> VString ''y'']]]) \<and> st_user s3 = 1"
proof -
  have f: "fetch_resource re_example (read_server 2) ''a'' read_state = (Inr (map (\<lambda>x. Some x) [read_item 2], True), read_state\<lparr>st_user := 1\<rparr>)"
    using read_example(8) by simp
  have h: "[read_item 2] \<noteq> []" "length [read_item 2] \<le> 2 ^ 12" "\<forall>x \<in> set [read_item 2]. stored_ok x" using stored_example(1) by simp_all
  have t: "me_now me_example < me_now me_example + resource_ttl (map (\<lambda>x. Some x) [read_item 2])"
    by (simp add: resource_ttl_def read_item_def)
  have i: "unat (rq_id (request_example [])) \<le> 2 ^ 53" by simp
  from read_then_cached [OF calm_example calm_example i i read_example(7,1-5) f h read_example(6) t, of "read_server 2"] show ?thesis
    by (simp add: stored_example(2)) blast
qed

theorem cached_text_unterminated_witness:
  "\<exists>r1 s2. read_resource re_example (read_server 1) me_example (request_example []) ''a'' read_state = Done ((MCP_ERROR_NONE, Some r1), s2) \<and>
    read_resource re_example (read_server 1) me_example (request_example []) ''a'' s2 = Undefined"
proof -
  have h: "item_type (read_item 1) = MCP_CONTENT_TYPE_TEXT" "item_data (read_item 1) = Some (''y'' @ [NUL])" "item_data_size (read_item 1) = length ''y''"
    "''y'' \<noteq> []" "text_field (Some ''y'')" "text_field (item_mime_type (read_item 1))"
    by (simp_all add: read_item_def text_field_def c_str_ok_def)
  have i: "unat (rq_id (request_example [])) \<le> 2 ^ 53" by simp
  have t: "me_now me_example < me_now me_example + 300" by simp
  from cached_text_unterminated [OF calm_example calm_example i read_example(7,1-5,8) h read_example(6) t] show ?thesis .
qed

end
