(* ===== verification/Mcp_Rate_Limiter.thy ===== *)
theory Mcp_Rate_Limiter
  imports Mcp_Strings "HOL-Library.Multiset"
begin

text \<open>
  The rate limiter of the server, \<open>src/server/mcp_rate_limiter.c\<close>: a hash table of clients with separate
  chaining, each client with the start of its current window and the number of requests allowed in it.

  A pointer to an entry is its place, the bucket and the position in the chain.  The time is the
  argument \<open>now\<close>; times are integers, so the sum of a start and the window does not overflow.  The load
  is compared exactly, which is what the computation in \<open>double\<close> gives below \<open>2 ^ 52\<close> buckets.
\<close>

section \<open>State\<close>

record rate_limit_entry =
  client_id :: string
  window_start_time :: int
  request_count :: size_t

record mcp_rate_limiter =
  rl_buckets :: "rate_limit_entry list list"
  rl_capacity :: size_t
  rl_count :: size_t
  window_seconds :: size_t
  max_requests_per_window :: size_t

definition RATE_LIMIT_HASH_TABLE_CAPACITY_FACTOR :: size_t where
  "RATE_LIMIT_HASH_TABLE_CAPACITY_FACTOR = 2"

definition RATE_LIMIT_MIN_CAPACITY :: size_t where
  "RATE_LIMIT_MIN_CAPACITY = 16"

section \<open>Operations\<close>

text \<open>The characters are added as \<open>int\<close>: a byte above 127 is negative.\<close>

definition signed_char :: "char \<Rightarrow> int" where
  "signed_char c = (let n = of_char c in if n < 128 then n else n - 256)"

fun hash_client_id_loop :: "size_t \<Rightarrow> string \<Rightarrow> size_t" where
  "hash_client_id_loop hash [] = hash"
| "hash_client_id_loop hash (c # str) = hash_client_id_loop (push_bit 5 hash + hash + of_int (signed_char c)) str"

definition hash_client_id :: "string \<Rightarrow> size_t" where
  "hash_client_id str = hash_client_id_loop 5381 str"

definition bucket_of :: "size_t \<Rightarrow> string \<Rightarrow> nat" where
  "bucket_of capacity str = unat (hash_client_id str mod capacity)"

text \<open>\<open>calloc(capacity, sizeof(rate_limit_entry_t*))\<close>, which refuses more than \<open>PTRDIFF_MAX\<close> bytes.\<close>

definition calloc_buckets :: "mem \<Rightarrow> size_t \<Rightarrow> rate_limit_entry list list option \<times> mem" where
  "calloc_buckets m capacity =
     (if 2 ^ 63 \<le> unat capacity * 8 then (None, m)
      else let (ok, m') = mem_alloc m in (if ok then Some (replicate (unat capacity) []) else None, m'))"

definition mcp_rate_limiter_create :: "mem \<Rightarrow> size_t \<Rightarrow> size_t \<Rightarrow> size_t \<Rightarrow> mcp_rate_limiter option \<times> mem" where
  "mcp_rate_limiter_create m capacity_hint window max_requests =
     (if window = 0 \<or> max_requests = 0 then (None, m)
      else let (ok1, m1) = mem_alloc m in if \<not> ok1 then (None, m1)
      else let hinted = capacity_hint * RATE_LIMIT_HASH_TABLE_CAPACITY_FACTOR;
               capacity = (if hinted < RATE_LIMIT_MIN_CAPACITY then RATE_LIMIT_MIN_CAPACITY else hinted)
           in case calloc_buckets m1 capacity of
                (None, m2) \<Rightarrow> (None, m2)
              | (Some bs, m2) \<Rightarrow>
                  (let (ok3, m3) = mem_alloc m2 in if \<not> ok3 then (None, m3)
                   else (Some \<lparr>rl_buckets = bs, rl_capacity = capacity, rl_count = 0, window_seconds = window,
                               max_requests_per_window = max_requests\<rparr>, m3)))"

definition load_too_high :: "size_t \<Rightarrow> size_t \<Rightarrow> bool" where
  "load_too_high entries capacity \<longleftrightarrow> 4 * (unat entries + 1) > 3 * unat capacity"

definition rehash_client :: "size_t \<Rightarrow> rate_limit_entry list list \<Rightarrow> rate_limit_entry \<Rightarrow> rate_limit_entry list list" where
  "rehash_client new_capacity nb e =
     (let new_index = bucket_of new_capacity (client_id e) in nb[new_index := e # nb ! new_index])"

definition grow_limiter :: "mem \<Rightarrow> mcp_rate_limiter \<Rightarrow> mcp_rate_limiter option \<times> mem" where
  "grow_limiter m l =
     (let new_capacity = (if rl_capacity l = 0 then RATE_LIMIT_HASH_TABLE_CAPACITY_FACTOR * RATE_LIMIT_MIN_CAPACITY
                          else rl_capacity l * 2)
      in case calloc_buckets m new_capacity of
           (None, m1) \<Rightarrow> (None, m1)
         | (Some nb, m1) \<Rightarrow>
             (Some (l\<lparr>rl_buckets := foldl (rehash_client new_capacity) nb (concat (rl_buckets l)),
                      rl_capacity := new_capacity\<rparr>), m1))"

fun find_client :: "string \<Rightarrow> rate_limit_entry list \<Rightarrow> nat option" where
  "find_client str [] = None"
| "find_client str (e # es) = (if client_id e = str then Some 0 else map_option Suc (find_client str es))"

text \<open>The place of the entry and whether it is new, or NULL; the table may have grown in any case.\<close>

definition find_or_create_entry ::
    "mem \<Rightarrow> mcp_rate_limiter \<Rightarrow> string \<Rightarrow> ((bool \<times> nat \<times> nat) option \<times> mcp_rate_limiter \<times> mem)" where
  "find_or_create_entry m l str =
     (case (if rl_capacity l = 0 \<or> load_too_high (rl_count l) (rl_capacity l) then grow_limiter m l else (Some l, m)) of
        (None, m1) \<Rightarrow> (None, l, m1)
      | (Some l1, m1) \<Rightarrow>
          (let index = bucket_of (rl_capacity l1) str;
               chain = rl_buckets l1 ! index
           in case find_client str chain of
                Some p \<Rightarrow> (Some (False, index, p), l1, m1)
              | None \<Rightarrow>
                  (let (ok2, m2) = mem_alloc m1 in if \<not> ok2 then (None, l1, m2)
                   else case mcp_strdup m2 (Some str) of
                          (None, m3) \<Rightarrow> (None, l1, m3)
                        | (Some name, m3) \<Rightarrow>
                            (Some (True, index, length chain),
                             l1\<lparr>rl_buckets := (rl_buckets l1)[index := chain @ [\<lparr>client_id = name, window_start_time = 0, request_count = 0\<rparr>]],
                                rl_count := rl_count l1 + 1\<rparr>, m3))))"

definition set_entry :: "nat \<Rightarrow> nat \<Rightarrow> rate_limit_entry \<Rightarrow> mcp_rate_limiter \<Rightarrow> mcp_rate_limiter" where
  "set_entry i p e l = l\<lparr>rl_buckets := (rl_buckets l)[i := (rl_buckets l ! i)[p := e]]\<rparr>"

text \<open>\<open>(time_t)limiter->window_seconds\<close>: the bits as a signed number.\<close>

definition window :: "mcp_rate_limiter \<Rightarrow> int" where
  "window l = sint (window_seconds l)"

definition mcp_rate_limiter_check :: "int \<Rightarrow> mem \<Rightarrow> string \<Rightarrow> mcp_rate_limiter \<Rightarrow> bool \<times> mcp_rate_limiter" where
  "mcp_rate_limiter_check now m str l =
     (case find_or_create_entry m l str of
        (None, l1, _) \<Rightarrow> (False, l1)
      | (Some (is_created, i, p), l1, _) \<Rightarrow>
          (let entry = rl_buckets l1 ! i ! p
           in if is_created \<or> now \<ge> window_start_time entry + window l1
              then (True, set_entry i p (entry\<lparr>window_start_time := now, request_count := 1\<rparr>) l1)
              else if request_count entry < max_requests_per_window l1
              then (True, set_entry i p (entry\<lparr>request_count := request_count entry + 1\<rparr>) l1)
              else (False, l1)))"

text \<open>\<open>mcp_rate_limiter_destroy\<close>: the entries it frees, in order.\<close>

definition mcp_rate_limiter_destroy :: "mcp_rate_limiter \<Rightarrow> string list" where
  "mcp_rate_limiter_destroy l = map client_id (concat (rl_buckets l))"

section \<open>The table as a map\<close>

definition rl_entries :: "mcp_rate_limiter \<Rightarrow> rate_limit_entry list" where
  "rl_entries l = concat (rl_buckets l)"

definition rl_buckets_ok :: "size_t \<Rightarrow> rate_limit_entry list list \<Rightarrow> bool" where
  "rl_buckets_ok capacity bs \<longleftrightarrow> length bs = unat capacity \<and>
     (\<forall>i < length bs. \<forall>e \<in> set (bs ! i). bucket_of capacity (client_id e) = i) \<and> distinct (map client_id (concat bs))"

definition rl_inv :: "mcp_rate_limiter \<Rightarrow> bool" where
  "rl_inv l \<longleftrightarrow> 0 < rl_capacity l \<and> unat (rl_capacity l) < 2 ^ 60 \<and> rl_buckets_ok (rl_capacity l) (rl_buckets l) \<and>
     rl_count l = of_nat (length (rl_entries l)) \<and> window_seconds l \<noteq> 0 \<and> max_requests_per_window l \<noteq> 0"

definition rl_map :: "mcp_rate_limiter \<Rightarrow> string \<Rightarrow> (int \<times> size_t) option" where
  "rl_map l = map_of (map (\<lambda>e. (client_id e, window_start_time e, request_count e)) (rl_entries l))"

lemma bucket_of_less: "0 < capacity \<Longrightarrow> bucket_of capacity str < unat capacity"
  by (simp add: bucket_of_def unat_mod_distrib word_gt_0 unat_gt_0)

lemma find_client_Some: "find_client str es = Some p \<Longrightarrow> p < length es \<and> client_id (es ! p) = str"
  by (induction es arbitrary: p) (auto split: if_splits simp: less_Suc_eq_0_disj)

lemma find_client_None: "find_client str es = None \<longleftrightarrow> str \<notin> client_id ` set es"
  by (induction es) auto

text \<open>The multiset of entries when one bucket changes.\<close>

lemma mset_replace_bucket:
  "i < length bs \<Longrightarrow> mset (concat (bs[i := c])) + mset (bs ! i) = mset (concat bs) + mset c"
proof (induction bs arbitrary: i)
  case (Cons b bs)
  then show ?case by (cases i) (auto simp: ac_simps)
qed simp

lemma map_of_mset:
  assumes "distinct (map fst xs)" "mset xs = mset ys"
  shows "map_of xs = map_of ys"
proof -
  have "mset (map fst xs) = mset (map fst ys)" using assms(2) by simp
  then have "distinct (map fst ys)" using assms(1) by (metis mset_eq_imp_distinct_iff)
  moreover have "set xs = set ys" using assms(2) by (metis set_mset_mset)
  ultimately show ?thesis using map_of_inject_set [OF assms(1)] by blast
qed

lemma mset_map_client: "mset as = mset bs \<Longrightarrow> mset (map f as) = mset (map f bs)"
  by simp

lemma rehash_mset:
  assumes "\<forall>e \<in> set es. bucket_of cap (client_id e) < length nb"
  shows "mset (concat (foldl (rehash_client cap) nb es)) = mset (concat nb) + mset es \<and> length (foldl (rehash_client cap) nb es) = length nb"
  using assms
proof (induction es arbitrary: nb)
  case (Cons e es)
  let ?i = "bucket_of cap (client_id e)"
  have i: "?i < length nb" using Cons.prems by simp
  have "mset (concat (rehash_client cap nb e)) = mset (concat nb) + {#e#}"
    using mset_replace_bucket [OF i, of "e # nb ! ?i"] by (simp add: rehash_client_def Let_def ac_simps)
  moreover have "length (rehash_client cap nb e) = length nb" by (simp add: rehash_client_def Let_def)
  ultimately show ?case using Cons.IH [of "rehash_client cap nb e"] Cons.prems by (simp add: ac_simps)
qed simp

lemma rehash_places:
  assumes "\<forall>i < length nb. \<forall>e \<in> set (nb ! i). bucket_of cap (client_id e) = i"
  shows "\<forall>i < length (foldl (rehash_client cap) nb es). \<forall>e \<in> set (foldl (rehash_client cap) nb es ! i). bucket_of cap (client_id e) = i"
  using assms
proof (induction es arbitrary: nb)
  case (Cons e es)
  have "bucket_of cap (client_id x) = i" if "i < length nb" "x \<in> set (rehash_client cap nb e ! i)" for i x
  proof (cases "bucket_of cap (client_id e) = i")
    case True
    then have "x \<in> set (e # nb ! i)" using that by (simp add: rehash_client_def Let_def)
    then show ?thesis using Cons.prems that(1) True by (metis set_ConsD)
  next
    case False
    then have "x \<in> set (nb ! i)" using that by (simp add: rehash_client_def Let_def)
    then show ?thesis using Cons.prems that(1) by blast
  qed
  moreover have "length (rehash_client cap nb e) = length nb" by (simp add: rehash_client_def Let_def)
  ultimately have "\<forall>i < length (rehash_client cap nb e). \<forall>x \<in> set (rehash_client cap nb e ! i). bucket_of cap (client_id x) = i" by metis
  from Cons.IH [OF this] show ?case unfolding foldl_Cons .
qed simp


lemma grow_ok:
  assumes inv: "rl_inv l" and g: "grow_limiter m l = (Some l1, m1)"
  shows "rl_inv l1 \<and> rl_map l1 = rl_map l \<and> window_seconds l1 = window_seconds l \<and> max_requests_per_window l1 = max_requests_per_window l"
proof -
  let ?C = "rl_capacity l * 2"
  have pos: "rl_capacity l \<noteq> 0" and small: "unat (rl_capacity l) < 2 ^ 60" using inv by (auto simp: rl_inv_def word_gt_0)
  obtain nb where nb: "calloc_buckets m ?C = (Some nb, m1)" "l1 = l\<lparr>rl_buckets := foldl (rehash_client ?C) nb (concat (rl_buckets l)), rl_capacity := ?C\<rparr>"
    using g pos by (auto simp: grow_limiter_def Let_def split: prod.splits option.splits)
  have C: "unat ?C = unat (rl_capacity l) * 2" using small by (simp add: unat_mult_no_wrap)
  then have C0: "0 < ?C" using pos by (metis mult_is_0 unat_eq_zero word_gt_0 zero_neq_numeral)
  have lim: "unat ?C < 2 ^ 60" "nb = replicate (unat ?C) []"
    using nb(1) by (auto simp: calloc_buckets_def split: if_splits prod.splits)
  let ?F = "foldl (rehash_client ?C) nb (concat (rl_buckets l))"
  have ms: "mset (concat ?F) = mset (concat (rl_buckets l))" "length ?F = unat ?C"
    using rehash_mset [of "concat (rl_buckets l)" ?C nb] bucket_of_less [OF C0] lim(2) by simp_all
  have pl: "\<forall>i < length ?F. \<forall>e \<in> set (?F ! i). bucket_of ?C (client_id e) = i"
    by (rule rehash_places) (simp add: lim(2))
  have d: "distinct (map client_id (concat (rl_buckets l)))" using inv by (simp add: rl_inv_def rl_buckets_ok_def)
  have "mset (map client_id (concat ?F)) = mset (map client_id (concat (rl_buckets l)))" using ms(1) by (rule mset_map_client)
  then have d1: "distinct (map client_id (concat ?F))" using d by (metis mset_eq_imp_distinct_iff)
  have "length (concat ?F) = length (concat (rl_buckets l))" using ms(1) by (rule mset_eq_length)
  then have "rl_inv l1" using inv nb(2) lim(1) C0 ms(2) pl d1 by (simp add: rl_inv_def rl_buckets_ok_def rl_entries_def)
  moreover have "rl_map l1 = rl_map l"
    unfolding rl_map_def by (rule map_of_mset) (use d1 ms(1) nb(2) in \<open>simp_all add: rl_entries_def o_def mset_map_client\<close>)
  ultimately show ?thesis using nb(2) by simp
qed

text \<open>A bucket of the table, and what a change of one entry of it does to the map.\<close>

lemma entry_place:
  assumes inv: "rl_inv l" and i: "i = bucket_of (rl_capacity l) str"
  shows "i < length (rl_buckets l)" "(\<exists>p. find_client str (rl_buckets l ! i) = Some p) \<longleftrightarrow> rl_map l str \<noteq> None"
    "find_client str (rl_buckets l ! i) = Some p \<Longrightarrow>
       rl_map l str = Some (window_start_time (rl_buckets l ! i ! p), request_count (rl_buckets l ! i ! p))"
proof -
  have len: "length (rl_buckets l) = unat (rl_capacity l)" and d: "distinct (map client_id (rl_entries l))"
    and pl: "\<forall>i < length (rl_buckets l). \<forall>e \<in> set (rl_buckets l ! i). bucket_of (rl_capacity l) (client_id e) = i"
    using inv by (auto simp: rl_inv_def rl_buckets_ok_def rl_entries_def)
  show il: "i < length (rl_buckets l)" using i len inv bucket_of_less by (simp add: rl_inv_def)
  have mem: "e \<in> set (rl_entries l) \<and> client_id e = str \<longleftrightarrow> e \<in> set (rl_buckets l ! i) \<and> client_id e = str" for e
  proof
    assume e: "e \<in> set (rl_entries l) \<and> client_id e = str"
    then obtain b where "b \<in> set (rl_buckets l)" "e \<in> set b" unfolding rl_entries_def by auto
    then obtain j where "j < length (rl_buckets l)" "e \<in> set (rl_buckets l ! j)" by (metis in_set_conv_nth)
    then show "e \<in> set (rl_buckets l ! i) \<and> client_id e = str" using pl e i by metis
  next
    assume e: "e \<in> set (rl_buckets l ! i) \<and> client_id e = str"
    have "rl_buckets l ! i \<in> set (rl_buckets l)" using il by (rule nth_mem)
    then show "e \<in> set (rl_entries l) \<and> client_id e = str" using e unfolding rl_entries_def by auto
  qed
  have "(\<exists>e. e \<in> set (rl_entries l) \<and> client_id e = str) \<longleftrightarrow> (\<exists>e. e \<in> set (rl_buckets l ! i) \<and> client_id e = str)" by (simp only: mem)
  then have "str \<in> client_id ` set (rl_entries l) \<longleftrightarrow> str \<in> client_id ` set (rl_buckets l ! i)" unfolding image_iff Bex_def by metis
  then show "(\<exists>p. find_client str (rl_buckets l ! i) = Some p) \<longleftrightarrow> rl_map l str \<noteq> None"
    unfolding rl_map_def by (auto simp: map_of_eq_None_iff image_image find_client_None [symmetric])
  assume p: "find_client str (rl_buckets l ! i) = Some p"
  let ?e = "rl_buckets l ! i ! p"
  have "?e \<in> set (rl_entries l)" "client_id ?e = str" using mem find_client_Some [OF p] nth_mem by metis+
  then show "rl_map l str = Some (window_start_time ?e, request_count ?e)"
    unfolding rl_map_def using d by (intro map_of_is_SomeI) (auto simp: o_def image_iff)
qed

lemma find_client_cong: "map client_id es = map client_id fs \<Longrightarrow> find_client str es = find_client str fs"
proof (induction es arbitrary: fs)
  case (Cons e es)
  then show ?case by (cases fs) auto
qed simp

lemma find_client_append:
  "find_client str (es @ fs) = (case find_client str es of Some p \<Rightarrow> Some p | None \<Rightarrow> map_option (\<lambda>p. length es + p) (find_client str fs))"
  by (induction es; cases "find_client str fs") (auto split: option.splits)

text \<open>The map, read off the buckets.\<close>

lemma rl_map_bucket:
  assumes "rl_inv l"
  shows "rl_map l str = map_option (\<lambda>p. (window_start_time (rl_buckets l ! bucket_of (rl_capacity l) str ! p),
    request_count (rl_buckets l ! bucket_of (rl_capacity l) str ! p))) (find_client str (rl_buckets l ! bucket_of (rl_capacity l) str))"
  using entry_place(2,3) [OF assms refl, of str]
  by (cases "find_client str (rl_buckets l ! bucket_of (rl_capacity l) str)"; cases "rl_map l str") auto

lemma update_map:
  assumes inv: "rl_inv l" and i: "i = bucket_of (rl_capacity l) str" and p: "find_client str (rl_buckets l ! i) = Some p"
    and e: "client_id e = str"
  shows "rl_inv (set_entry i p e l) \<and> rl_map (set_entry i p e l) = (rl_map l)(str \<mapsto> (window_start_time e, request_count e)) \<and>
    window_seconds (set_entry i p e l) = window_seconds l \<and> max_requests_per_window (set_entry i p e l) = max_requests_per_window l"
proof -
  let ?b = "rl_buckets l ! i" and ?l = "set_entry i p e l"
  have il: "i < length (rl_buckets l)" by (rule entry_place(1) [OF inv i])
  have pp: "p < length ?b" "client_id (?b ! p) = str" using find_client_Some [OF p] by auto
  have ids: "map client_id (?b[p := e]) = map client_id ?b"
    using pp e by (metis list_update_id map_update)
  have cid: "map client_id (concat ((rl_buckets l)[i := ?b[p := e]])) = map client_id (concat (rl_buckets l))"
    using ids by (simp only: map_concat map_update) (metis list_update_id map_update)
  have "rl_buckets_ok (rl_capacity l) (rl_buckets ?l)"
  proof -
    have "bucket_of (rl_capacity l) (client_id x) = j" if "j < length (rl_buckets l)" "x \<in> set ((rl_buckets l)[i := ?b[p := e]] ! j)" for j x
    proof (cases "j = i")
      case True
      then have "client_id x \<in> set (map client_id ?b)" using that ids by (metis il image_eqI list.set_map nth_list_update_eq)
      then show ?thesis using inv il True by (auto simp: rl_inv_def rl_buckets_ok_def)
    next
      case False
      then show ?thesis using that inv by (auto simp: rl_inv_def rl_buckets_ok_def)
    qed
    moreover have "distinct (map client_id (concat (rl_buckets ?l)))" using cid inv by (simp add: set_entry_def rl_inv_def rl_buckets_ok_def)
    ultimately show ?thesis using inv by (auto simp: set_entry_def rl_inv_def rl_buckets_ok_def)
  qed
  moreover have "length (rl_entries ?l) = length (rl_entries l)"
    using arg_cong [OF cid, of length] by (simp add: rl_entries_def set_entry_def)
  ultimately have inv': "rl_inv ?l" using inv by (simp add: rl_inv_def set_entry_def)
  have "rl_map ?l k = ((rl_map l)(str \<mapsto> (window_start_time e, request_count e))) k" for k
  proof (cases "bucket_of (rl_capacity l) k = i")
    case False
    then show ?thesis using i unfolding rl_map_bucket [OF inv'] rl_map_bucket [OF inv] by (auto simp: set_entry_def)
  next
    case True
    have f: "find_client k (?b[p := e]) = find_client k ?b" by (rule find_client_cong [OF ids])
    show ?thesis
    proof (cases "k = str")
      case True
      then show ?thesis using f p pp il i unfolding rl_map_bucket [OF inv'] by (simp add: set_entry_def)
    next
      case False
      have "q \<noteq> p" if "find_client k ?b = Some q" for q using find_client_Some [OF that] pp False by auto
      then show ?thesis using f il True False unfolding rl_map_bucket [OF inv'] rl_map_bucket [OF inv]
        by (cases "find_client k ?b") (auto simp: set_entry_def)
    qed
  qed
  then show ?thesis using inv' by (auto simp: set_entry_def)
qed

lemma append_map:
  assumes inv: "rl_inv l" and i: "i = bucket_of (rl_capacity l) str" and none: "find_client str (rl_buckets l ! i) = None"
    and e: "client_id e = str" and l1: "l1 = l\<lparr>rl_buckets := (rl_buckets l)[i := rl_buckets l ! i @ [e]], rl_count := rl_count l + 1\<rparr>"
  shows "rl_inv l1" "find_client str (rl_buckets l1 ! i) = Some (length (rl_buckets l ! i))" "rl_buckets l1 ! i ! length (rl_buckets l ! i) = e"
    "rl_map l1 = (rl_map l)(str \<mapsto> (window_start_time e, request_count e))"
proof -
  let ?b = "rl_buckets l ! i"
  have il: "i < length (rl_buckets l)" by (rule entry_place(1) [OF inv i])
  have new: "str \<notin> client_id ` set (rl_entries l)"
    using entry_place(2) [OF inv i] none unfolding rl_map_def by (auto simp: map_of_eq_None_iff image_image)
  have ms: "mset (rl_entries l1) = mset (rl_entries l) + {#e#}"
    using mset_replace_bucket [OF il, of "?b @ [e]"] by (simp add: l1 rl_entries_def)
  have "distinct (map client_id (rl_entries l1))"
  proof -
    have "mset (map client_id (rl_entries l1)) = mset (client_id e # map client_id (rl_entries l))" using ms by simp
    moreover have "distinct (client_id e # map client_id (rl_entries l))" using inv new e by (simp add: rl_inv_def rl_buckets_ok_def rl_entries_def)
    ultimately show ?thesis by (metis mset_eq_imp_distinct_iff)
  qed
  moreover have "bucket_of (rl_capacity l) (client_id x) = j" if "j < length (rl_buckets l)" "x \<in> set ((rl_buckets l)[i := ?b @ [e]] ! j)" for j x
    using that inv e i il by (cases "j = i") (auto simp: rl_inv_def rl_buckets_ok_def)
  ultimately have "rl_buckets_ok (rl_capacity l1) (rl_buckets l1)" using inv by (auto simp: l1 rl_inv_def rl_buckets_ok_def rl_entries_def)
  moreover have "length (rl_entries l1) = length (rl_entries l) + 1" using arg_cong [OF ms, of size] by simp
  ultimately show inv': "rl_inv l1" using inv by (simp add: l1 rl_inv_def)
  show f: "find_client str (rl_buckets l1 ! i) = Some (length ?b)" using none e il by (simp add: l1 find_client_append)
  show g: "rl_buckets l1 ! i ! length ?b = e" using il by (simp add: l1)
  have "rl_map l1 k = ((rl_map l)(str \<mapsto> (window_start_time e, request_count e))) k" for k
  proof (cases "k = str")
    case True
    then show ?thesis using f g i unfolding rl_map_bucket [OF inv'] by (simp add: l1)
  next
    case False
    then show ?thesis using il e find_client_Some [of k ?b] unfolding rl_map_bucket [OF inv'] rl_map_bucket [OF inv]
      by (cases "bucket_of (rl_capacity l) k = i"; cases "find_client k ?b") (auto simp: l1 find_client_append nth_append)
  qed
  then show "rl_map l1 = (rl_map l)(str \<mapsto> (window_start_time e, request_count e))" by auto
qed


lemma find_or_create_cases:
  assumes inv: "rl_inv l" and f: "find_or_create_entry m l str = (r, l1, m1)"
  shows "rl_inv l1 \<and> window_seconds l1 = window_seconds l \<and> max_requests_per_window l1 = max_requests_per_window l \<and>
    (case r of
       None \<Rightarrow> rl_map l1 = rl_map l
     | Some (is_new, i, p) \<Rightarrow>
         i = bucket_of (rl_capacity l1) str \<and> find_client str (rl_buckets l1 ! i) = Some p \<and> is_new = (rl_map l str = None) \<and>
         rl_map l1 = (if is_new then (rl_map l)(str \<mapsto> (0, 0)) else rl_map l))"
proof -
  obtain g m2 where g: "(if rl_capacity l = 0 \<or> load_too_high (rl_count l) (rl_capacity l) then grow_limiter m l else (Some l, m)) = (g, m2)" by fastforce
  show ?thesis
  proof (cases g)
    case None
    then show ?thesis using f g inv by (simp add: find_or_create_entry_def)
  next
    case (Some l2)
    have l2: "rl_inv l2" "rl_map l2 = rl_map l" "window_seconds l2 = window_seconds l" "max_requests_per_window l2 = max_requests_per_window l"
      using g Some inv grow_ok [OF inv, of m l2 m2] by (auto split: if_splits)
    let ?i = "bucket_of (rl_capacity l2) str"
    show ?thesis
    proof (cases "find_client str (rl_buckets l2 ! ?i)")
      case found: (Some p)
      then have "r = Some (False, ?i, p)" "l1 = l2" using f g Some by (auto simp: find_or_create_entry_def Let_def)
      moreover have "rl_map l str \<noteq> None" using entry_place(2) [OF l2(1) refl, of str] found l2(2) by auto
      ultimately show ?thesis using l2 found by simp
    next
      case none: None
      have miss: "rl_map l str = None" using entry_place(2) [OF l2(1) refl, of str] none l2(2) by (cases "rl_map l str") auto
      let ?e = "\<lparr>client_id = str, window_start_time = 0, request_count = 0\<rparr>"
      let ?l = "l2\<lparr>rl_buckets := (rl_buckets l2)[?i := rl_buckets l2 ! ?i @ [?e]], rl_count := rl_count l2 + 1\<rparr>"
      have "r = None \<and> l1 = l2 \<or> r = Some (True, ?i, length (rl_buckets l2 ! ?i)) \<and> l1 = ?l"
        using f g Some none by (auto simp: find_or_create_entry_def Let_def mcp_strdup_def split: prod.splits if_splits option.splits)
      then show ?thesis
      proof
        assume "r = None \<and> l1 = l2"
        then show ?thesis using l2 by simp
      next
        assume r: "r = Some (True, ?i, length (rl_buckets l2 ! ?i)) \<and> l1 = ?l"
        have "client_id ?e = str" by simp
        note a = append_map [OF l2(1) refl none this refl]
        show ?thesis using r a l2 miss by simp
      qed
    qed
  qed
qed

section \<open>The abstract limiter\<close>

definition spec_check :: "int \<Rightarrow> int \<Rightarrow> size_t \<Rightarrow> string \<Rightarrow> (string \<Rightarrow> (int \<times> size_t) option) \<Rightarrow> bool \<times> (string \<Rightarrow> (int \<times> size_t) option)" where
  "spec_check now w most str s =
     (case s str of
        None \<Rightarrow> (True, s(str \<mapsto> (now, 1)))
      | Some (start, k) \<Rightarrow>
          if now \<ge> start + w then (True, s(str \<mapsto> (now, 1)))
          else if k < most then (True, s(str \<mapsto> (start, k + 1)))
          else (False, s))"

lemma check_cases:
  assumes inv: "rl_inv l" and c: "mcp_rate_limiter_check now m str l = (ok, l')"
  shows "rl_inv l' \<and> window_seconds l' = window_seconds l \<and> max_requests_per_window l' = max_requests_per_window l"
    "(ok, rl_map l') = spec_check now (window l) (max_requests_per_window l) str (rl_map l) \<or>
     \<not> ok \<and> rl_map l' = rl_map l \<and> (\<exists>l1 m1. find_or_create_entry m l str = (None, l1, m1))"
proof -
  obtain r l1 m1 where f: "find_or_create_entry m l str = (r, l1, m1)" by (metis prod_cases3)
  note fc = find_or_create_cases [OF inv f]
  have "rl_inv l' \<and> window_seconds l' = window_seconds l \<and> max_requests_per_window l' = max_requests_per_window l \<and>
    ((ok, rl_map l') = spec_check now (window l) (max_requests_per_window l) str (rl_map l) \<or>
     \<not> ok \<and> rl_map l' = rl_map l \<and> (\<exists>l1 m1. find_or_create_entry m l str = (None, l1, m1)))"
  proof (cases r)
    case None
    then show ?thesis using fc c f by (simp add: mcp_rate_limiter_check_def)
  next
    case (Some x)
    obtain is_new i p where x: "x = (is_new, i, p)" by (metis prod_cases3)
    have l1: "rl_inv l1" "window_seconds l1 = window_seconds l" "max_requests_per_window l1 = max_requests_per_window l"
      and i: "i = bucket_of (rl_capacity l1) str" and p: "find_client str (rl_buckets l1 ! i) = Some p"
      and n: "is_new = (rl_map l str = None)" and mp: "rl_map l1 = (if is_new then (rl_map l)(str \<mapsto> (0, 0)) else rl_map l)"
      using fc Some x by auto
    let ?e = "rl_buckets l1 ! i ! p"
    have id: "client_id ?e = str" using find_client_Some [OF p] by simp
    have val: "rl_map l1 str = Some (window_start_time ?e, request_count ?e)" by (rule entry_place(3) [OF l1(1) i p])
    have w: "window l1 = window l" using l1(2) by (simp add: window_def)
    note upd = update_map [OF l1(1) i p]
    show ?thesis
    proof (cases "is_new \<or> now \<ge> window_start_time ?e + window l")
      case True
      then have r: "ok" "l' = set_entry i p (?e\<lparr>window_start_time := now, request_count := 1\<rparr>) l1"
        using c f Some x w by (simp_all add: mcp_rate_limiter_check_def Let_def)
      have u: "rl_inv l' \<and> rl_map l' = (rl_map l1)(str \<mapsto> (now, 1)) \<and> window_seconds l' = window_seconds l1 \<and> max_requests_per_window l' = max_requests_per_window l1"
        using upd [of "?e\<lparr>window_start_time := now, request_count := 1\<rparr>"] id unfolding r(2) by simp
      have "spec_check now (window l) (max_requests_per_window l) str (rl_map l) = (True, (rl_map l)(str \<mapsto> (now, 1)))"
        using True n val mp by (cases is_new) (auto simp: spec_check_def)
      then show ?thesis using u r(1) l1 mp by auto
    next
      case False
      then have old: "\<not> is_new" "rl_map l1 = rl_map l" using mp by simp_all
      show ?thesis
      proof (cases "request_count ?e < max_requests_per_window l")
        case True
        then have r: "ok" "l' = set_entry i p (?e\<lparr>request_count := request_count ?e + 1\<rparr>) l1"
          using c f Some x w False l1 by (simp_all add: mcp_rate_limiter_check_def Let_def)
        have u: "rl_inv l' \<and> rl_map l' = (rl_map l1)(str \<mapsto> (window_start_time ?e, request_count ?e + 1)) \<and> window_seconds l' = window_seconds l1 \<and> max_requests_per_window l' = max_requests_per_window l1"
          using upd [of "?e\<lparr>request_count := request_count ?e + 1\<rparr>"] id unfolding r(2) by simp
        then show ?thesis using r(1) l1 val old False True by (auto simp: spec_check_def)
      next
        case full: False
        then have "\<not> ok" "l' = l1" using c f Some x w False l1 by (simp_all add: mcp_rate_limiter_check_def Let_def)
        then show ?thesis using l1 val old False full by (auto simp: spec_check_def)
      qed
    qed
  qed
  then show "rl_inv l' \<and> window_seconds l' = window_seconds l \<and> max_requests_per_window l' = max_requests_per_window l"
    "(ok, rl_map l') = spec_check now (window l) (max_requests_per_window l) str (rl_map l) \<or>
     \<not> ok \<and> rl_map l' = rl_map l \<and> (\<exists>l1 m1. find_or_create_entry m l str = (None, l1, m1))" by blast+
qed

lemma limiter_created:
  assumes "mcp_rate_limiter_create m hint w most = (Some l, m')"
  shows "rl_inv l" "rl_map l = Map.empty" "window_seconds l = w" "max_requests_per_window l = most" "w \<noteq> 0" "most \<noteq> 0"
proof -
  let ?C = "if hint * RATE_LIMIT_HASH_TABLE_CAPACITY_FACTOR < RATE_LIMIT_MIN_CAPACITY then RATE_LIMIT_MIN_CAPACITY else hint * RATE_LIMIT_HASH_TABLE_CAPACITY_FACTOR"
  obtain m1 bs m2 where bs: "calloc_buckets m1 ?C = (Some bs, m2)"
    and l: "l = \<lparr>rl_buckets = bs, rl_capacity = ?C, rl_count = 0, window_seconds = w, max_requests_per_window = most\<rparr>" and nz: "w \<noteq> 0" "most \<noteq> 0"
    using assms by (auto simp: mcp_rate_limiter_create_def Let_def split: prod.splits if_splits option.splits)
  have b: "bs = replicate (unat ?C) []" "unat ?C < 2 ^ 60" using bs by (auto simp: calloc_buckets_def split: if_splits prod.splits)
  have "(0::size_t) < RATE_LIMIT_MIN_CAPACITY" by (simp add: RATE_LIMIT_MIN_CAPACITY_def)
  then have "0 < ?C" by (auto simp: not_less intro: less_le_trans)
  then show "rl_inv l" "rl_map l = Map.empty" "window_seconds l = w" "max_requests_per_window l = most" "w \<noteq> 0" "most \<noteq> 0"
    using b l nz by (simp_all add: rl_inv_def rl_buckets_ok_def rl_entries_def rl_map_def)
qed


section \<open>The number of requests in a window\<close>

text \<open>The times \<open>hist\<close> of the allowed requests of a client whose window starts at \<open>s\<close> with \<open>k\<close> requests.\<close>

definition requests_between :: "int \<Rightarrow> int \<Rightarrow> int list \<Rightarrow> nat" where
  "requests_between a b hist = length (filter (\<lambda>x. a \<le> x \<and> x < b) hist)"

definition window_ok :: "int \<Rightarrow> nat \<Rightarrow> int list \<Rightarrow> int \<Rightarrow> nat \<Rightarrow> bool" where
  "window_ok w most hist s k \<longleftrightarrow> k \<le> most \<and> requests_between s (s + w) hist = k \<and> (\<forall>x \<in> set hist. x < s + w) \<and>
     (\<forall>t > s - w. requests_between t s hist \<le> most) \<and> (\<forall>t. requests_between t (t + w) hist \<le> 2 * most)"

lemma requests_between_append [simp]: "requests_between a b (hist @ [x]) = requests_between a b hist + (if a \<le> x \<and> x < b then 1 else 0)"
  by (simp add: requests_between_def)

lemma requests_between_mono: "a' \<le> a \<Longrightarrow> b \<le> b' \<Longrightarrow> requests_between a b hist \<le> requests_between a' b' hist"
  unfolding requests_between_def by (induction hist) auto

lemma requests_between_split: "requests_between a c hist \<le> requests_between a b hist + requests_between b c hist"
  unfolding requests_between_def by (induction hist) auto

lemma requests_between_end: "\<forall>x \<in> set hist. x < b \<Longrightarrow> requests_between a c hist \<le> requests_between a b hist"
  unfolding requests_between_def by (induction hist) auto

lemma window_first: "0 < w \<Longrightarrow> 0 < most \<Longrightarrow> window_ok w most [now] now 1"
  by (auto simp: window_ok_def requests_between_def)

lemma window_same:
  assumes ok: "window_ok w most hist s k" and x: "s \<le> x" "x < s + w" and k: "k < most"
  shows "window_ok w most (hist @ [x]) s (k + 1)"
proof -
  have "requests_between t (t + w) (hist @ [x]) \<le> 2 * most" for t
  proof (cases "t \<le> x \<and> x < t + w")
    case True
    then have t: "s - w < t" using x by simp
    have "requests_between t (t + w) hist \<le> requests_between t s hist + requests_between s (t + w) hist" by (rule requests_between_split)
    moreover have "requests_between s (t + w) hist \<le> requests_between s (s + w) hist" using ok by (intro requests_between_end) (simp add: window_ok_def)
    ultimately have "requests_between t (t + w) hist \<le> most + k" using ok t unfolding window_ok_def by fastforce
    then show ?thesis using True k by simp
  next
    case False
    then show ?thesis using ok by (auto simp: window_ok_def)
  qed
  then show ?thesis using ok x k by (auto simp: window_ok_def)
qed

lemma window_next:
  assumes ok: "window_ok w most hist s k" and x: "s + w \<le> x" and w: "0 < w" and most: "0 < most"
  shows "window_ok w most (hist @ [x]) x 1"
proof -
  have late: "requests_between t u hist \<le> most" if "s \<le> t" for t u
  proof -
    have "requests_between t u hist \<le> requests_between t (s + w) hist" using ok by (intro requests_between_end) (simp add: window_ok_def)
    also have "\<dots> \<le> requests_between s (s + w) hist" using that by (intro requests_between_mono) simp_all
    also have "\<dots> \<le> most" using ok by (simp add: window_ok_def)
    finally show ?thesis .
  qed
  have old: "\<forall>y \<in> set hist. y < x" using ok x by (auto simp: window_ok_def)
  then have z: "requests_between x (x + w) hist = 0" by (auto simp: requests_between_def filter_empty_conv)
  have "requests_between t (t + w) (hist @ [x]) \<le> 2 * most" for t
  proof (cases "t \<le> x \<and> x < t + w")
    case True
    then have "requests_between t (t + w) hist \<le> most" using x by (intro late) simp
    then show ?thesis using True most by simp
  next
    case False
    then show ?thesis using ok by (auto simp: window_ok_def)
  qed
  moreover have "requests_between t x (hist @ [x]) \<le> most" if "x - w < t" for t using late [of t x] that x by simp
  ultimately show ?thesis using z w most old by (auto simp: window_ok_def)
qed

fun run_checks :: "(int \<times> mem \<times> string) list \<Rightarrow> mcp_rate_limiter \<Rightarrow> bool list \<times> mcp_rate_limiter" where
  "run_checks [] l = ([], l)"
| "run_checks ((now, m, str) # reqs) l =
     (let (ok, l1) = mcp_rate_limiter_check now m str l; (oks, l2) = run_checks reqs l1 in (ok # oks, l2))"

text \<open>The times at which the requests of a client were allowed.\<close>

fun allowed_times :: "string \<Rightarrow> (int \<times> mem \<times> string) list \<Rightarrow> bool list \<Rightarrow> int list" where
  "allowed_times str ((now, m, name) # reqs) (ok # oks) =
     (if ok \<and> name = str then [now] else []) @ allowed_times str reqs oks"
| "allowed_times str _ _ = []"

definition client_ok :: "mcp_rate_limiter \<Rightarrow> string \<Rightarrow> int \<Rightarrow> int list \<Rightarrow> bool" where
  "client_ok l str now hist \<longleftrightarrow>
     (case rl_map l str of
        None \<Rightarrow> hist = []
      | Some (s, k) \<Rightarrow> s \<le> now \<and> window_ok (window l) (unat (max_requests_per_window l)) hist s (unat k))"

lemma client_ok_check:
  assumes inv: "rl_inv l" and c: "mcp_rate_limiter_check now m name l = (ok, l')" and w: "0 < window l"
    and old: "client_ok l str before hist" and le: "before \<le> now"
  shows "client_ok l' str now (hist @ (if ok \<and> name = str then [now] else []))"
proof -
  have par: "window l' = window l" "max_requests_per_window l' = max_requests_per_window l" "0 < unat (max_requests_per_window l)"
    using check_cases(1) [OF inv c] inv by (simp_all add: window_def rl_inv_def unat_gt_0)
  have stay: "client_ok l' str now hist" if "rl_map l' str = rl_map l str"
    using old le that par by (auto simp: client_ok_def split: option.splits)
  from check_cases(2) [OF inv c] consider
      (spec) "(ok, rl_map l') = spec_check now (window l) (max_requests_per_window l) name (rl_map l)"
    | (fail) "\<not> ok" "rl_map l' = rl_map l" by blast
  then show ?thesis
  proof cases
    case fail
    then show ?thesis using stay by simp
  next
    case spec
    show ?thesis
    proof (cases "name = str")
      case False
      have "rl_map l' str = rl_map l str" using spec False by (auto simp: spec_check_def split: option.splits if_splits)
      then show ?thesis using stay False by simp
    next
      case True
      show ?thesis
      proof (cases "rl_map l str")
        case None
        then have "hist = []" using old by (simp add: client_ok_def)
        then show ?thesis using None spec True window_first [OF w par(3)] par by (auto simp: client_ok_def spec_check_def)
      next
        case (Some x)
        obtain s k where x: "x = (s, k)" by fastforce
        have ok0: "s \<le> now" "window_ok (window l) (unat (max_requests_per_window l)) hist s (unat k)"
          using old le Some x by (auto simp: client_ok_def)
        have inc: "unat (k + 1) = unat k + 1" if "k < max_requests_per_window l"
        proof -
          have "unat k < unat (max_requests_per_window l)" using that by (simp add: word_less_nat_alt)
          moreover have "unat (max_requests_per_window l) < 2 ^ 64" using unsigned_less [of "max_requests_per_window l", where ?'a = nat] by simp
          ultimately show ?thesis by (simp add: unat_add_no_wrap)
        qed
        show ?thesis
          using spec True Some x ok0 par inc window_next [OF ok0(2) _ w par(3)] window_same [OF ok0(2,1)]
          by (auto simp: client_ok_def spec_check_def word_less_nat_alt split: if_splits)
      qed
    qed
  qed
qed

lemma checks_ok:
  assumes "rl_inv l" "0 < window l" "client_ok l str before hist" "run_checks reqs l = (oks, l')"
    "sorted (before # map fst reqs)"
  shows "\<exists>after. client_ok l' str after (hist @ allowed_times str reqs oks) \<and> max_requests_per_window l' = max_requests_per_window l \<and> window l' = window l"
  using assms
proof (induction reqs arbitrary: l before hist oks l')
  case Nil
  then show ?case by auto
next
  case (Cons q reqs)
  obtain now m name where q: "q = (now, m, name)" by (metis prod_cases3)
  obtain ok l1 where c: "mcp_rate_limiter_check now m name l = (ok, l1)" by fastforce
  obtain oks1 l2 where r: "run_checks reqs l1 = (oks1, l2)" by fastforce
  have res: "oks = ok # oks1" "l' = l2" using Cons.prems(4) q c r by auto
  have inv1: "rl_inv l1" "window l1 = window l" "max_requests_per_window l1 = max_requests_per_window l"
    using check_cases(1) [OF Cons.prems(1) c] by (simp_all add: window_def)
  have "client_ok l1 str now (hist @ (if ok \<and> name = str then [now] else []))"
    using client_ok_check [OF Cons.prems(1) c Cons.prems(2,3)] Cons.prems(5) q by simp
  from Cons.IH [OF inv1(1) _ this r] Cons.prems(2,5) inv1 q res show ?case by auto
qed


lemma window_small:
  assumes "unat (w :: size_t) < 2 ^ 63"
  shows "sint w = int (unat w)"
proof -
  have "uint w < 2 ^ 63" using assms by (metis nat_less_numeral_power_cancel_iff unat_eq_nat_uint)
  moreover have "- (2 ^ 63) \<le> uint w" using order_trans [OF _ uint_ge_0, of "- (2 ^ 63)"] by simp
  ultimately have "signed_take_bit 63 (uint w) = uint w" by (intro signed_take_bit_int_eq_self)
  then show ?thesis by (simp add: sint_uint)
qed

lemma client_ok_bound:
  assumes "client_ok l str now hist"
  shows "requests_between t (t + window l) hist \<le> 2 * unat (max_requests_per_window l)"
  using assms by (auto simp: client_ok_def window_ok_def requests_between_def split: option.splits)

section \<open>Properties\<close>

text \<open>A client is never allowed more than twice the configured number of requests within
  \<open>window_seconds\<close> seconds, wherever this span of time begins, and at most the configured number within
  the window the limiter is counting.  This holds for every sequence of requests of any clients at
  times that do not go back, and whether or not memory runs out.\<close>

theorem rate_limit_respected:
  assumes "mcp_rate_limiter_create m hint w most = (Some l, m')" and "unat w < 2 ^ 63"
    and "sorted (map fst reqs)" and "run_checks reqs l = (oks, l')"
  shows "requests_between t (t + int (unat w)) (allowed_times str reqs oks) \<le> 2 * unat most \<and>
    (\<forall>s k. rl_map l' str = Some (s, k) \<longrightarrow> requests_between s (s + int (unat w)) (allowed_times str reqs oks) = unat k \<and> unat k \<le> unat most)"
proof -
  note c = limiter_created [OF assms(1)]
  have win: "window l = int (unat w)" using window_small [OF assms(2)] c(3) by (simp add: window_def)
  have pos: "0 < window l" unfolding win of_nat_0_less_iff using c(5) by (simp only: unat_gt_0 not_False_eq_True)
  define before where "before = (case reqs of [] \<Rightarrow> 0 | q # _ \<Rightarrow> fst q)"
  have srt: "sorted (before # map fst reqs)" using assms(3) by (cases reqs) (auto simp: before_def)
  have "client_ok l str before []" using c(2) by (simp add: client_ok_def)
  from checks_ok [OF c(1) pos this assms(4) srt] obtain after where
    ok: "client_ok l' str after (allowed_times str reqs oks)" "max_requests_per_window l' = max_requests_per_window l" "window l' = window l" by auto
  have "\<forall>s k. rl_map l' str = Some (s, k) \<longrightarrow> requests_between s (s + int (unat w)) (allowed_times str reqs oks) = unat k \<and> unat k \<le> unat most"
    using ok win c(4) by (auto simp: client_ok_def window_ok_def)
  moreover have "requests_between t (t + int (unat w)) (allowed_times str reqs oks) \<le> 2 * unat most"
    using client_ok_bound [OF ok(1), of t] ok(2,3) win c(4) by simp
  ultimately show ?thesis by blast
qed

theorem rate_limit_respected_witness:
  "\<exists>l m' oks l'. mcp_rate_limiter_create [] 8 60 2 = (Some l, m') \<and>
     run_checks [(0, [], ''a''), (30, [], ''a''), (59, [], ''a''), (60, [], ''a'')] l = (oks, l') \<and>
     requests_between 30 90 (allowed_times ''a'' [(0, [], ''a''), (30, [], ''a''), (59, [], ''a''), (60, [], ''a'')] oks) \<le> 4"
proof -
  let ?reqs = "[(0, [], ''a''), (30, [], ''a''), (59, [], ''a''), (60, [], ''a'')] :: (int \<times> mem \<times> string) list"
  obtain l m' where c: "mcp_rate_limiter_create [] 8 60 2 = (Some l, m')"
    by (auto simp: mcp_rate_limiter_create_def calloc_buckets_def RATE_LIMIT_MIN_CAPACITY_def RATE_LIMIT_HASH_TABLE_CAPACITY_FACTOR_def)
  obtain oks l' where r: "run_checks ?reqs l = (oks, l')" by fastforce
  have "requests_between 30 (30 + int (unat (60 :: size_t))) (allowed_times ''a'' ?reqs oks) \<le> 2 * unat (2 :: size_t)"
    using rate_limit_respected [OF c _ _ r, of 30 "''a''"] by simp
  then show ?thesis using c r by auto
qed

text \<open>One check does exactly what the abstract limiter does, a map from clients to the start of their
  window and the number of requests in it: a new client is allowed, a window that is over starts again,
  and a request within a window is refused only when the window is full.  When an allocation fails the
  request is refused and the map does not change.\<close>

theorem rate_check_refines:
  assumes "rl_inv l" and "mcp_rate_limiter_check now m str l = (ok, l')"
  shows "rl_inv l' \<and> ((ok, rl_map l') = spec_check now (window l) (max_requests_per_window l) str (rl_map l) \<or>
     \<not> ok \<and> rl_map l' = rl_map l \<and> (\<exists>l1 m1. find_or_create_entry m l str = (None, l1, m1)))"
  using check_cases [OF assms] by blast

end
