(* ===== verification/Mcp_Server_Task.thy ===== *)
theory Mcp_Server_Task
  imports Mcp_Dispatch Mcp_Rate_Limiter
begin

text \<open>
  The entry of the server, \<open>src/server/mcp_server_task.c\<close>: what happens to a message between the
  transport and the dispatcher of \<open>Mcp_Dispatch\<close> (shutdown, rate limit, size limit, the copy of the
  message, the counter of active requests), and the wait of \<open>mcp_server_stop\<close>.

  \<open>transport_message_callback\<close> is the whole function for one message.  The step relation \<open>task_step\<close> is
  the same function run by any number of threads, one step for each access to the counter and the flag,
  together with the shutdown.
\<close>

section \<open>State\<close>

abbreviation MCP_ERROR_SERVER_SHUTTING_DOWN :: int where
  "MCP_ERROR_SERVER_SHUTTING_DOWN \<equiv> -32105"

abbreviation MCP_ERROR_TOO_MANY_REQUESTS :: int where
  "MCP_ERROR_TOO_MANY_REQUESTS \<equiv> -32106"

definition DEFAULT_MAX_MESSAGE_SIZE :: size_t where
  "DEFAULT_MAX_MESSAGE_SIZE = 1024 * 1024"

record mcp_server_config =
  max_message_size :: size_t
  rate_limit_capacity :: size_t
  rate_limit_window_seconds :: size_t
  rate_limit_max_requests :: size_t
  use_advanced_rate_limiter :: bool

record 's mcp_server =
  sr_config :: mcp_server_config
  sr_rate_limiter :: "mcp_rate_limiter option"
  sr_active_requests :: int
  sr_shutting_down :: bool
  sr_signals :: nat           \<comment> \<open>the signals sent to \<open>shutdown_cond\<close>\<close>
  sr_services :: 's           \<comment> \<open>the state of the handlers\<close>

text \<open>What the environment answers during one call.\<close>

record call_env =
  ce_now :: int                  \<comment> \<open>the clock\<close>
  ce_client_ip :: "string option"  \<comment> \<open>\<open>mcp_transport_get_client_ip\<close>\<close>
  ce_advanced :: "bool option"   \<comment> \<open>\<open>mcp_advanced_rate_limiter_check\<close>, if there is an advanced limiter\<close>
  ce_limit_mem :: mem
  ce_copy_ok :: bool             \<comment> \<open>the allocation of the copy\<close>
  ce_arena_ok :: bool
  ce_dispatch :: dispatch_env

section \<open>One message\<close>

definition change_active :: "int \<Rightarrow> 's mcp_server \<Rightarrow> 's mcp_server" where
  "change_active d s = s\<lparr>sr_active_requests := sr_active_requests s + d\<rparr>"

definition allow_request :: "call_env \<Rightarrow> 's mcp_server \<Rightarrow> bool \<times> 's mcp_server" where
  "allow_request ce s =
     (let client_ip = (case ce_client_ip ce of None \<Rightarrow> ''unknown'' | Some ip \<Rightarrow> ip); cfg = sr_config s
      in if rate_limit_window_seconds cfg > 0 \<and> rate_limit_max_requests cfg > 0
         then case (if use_advanced_rate_limiter cfg then ce_advanced ce else None) of
                Some allowed \<Rightarrow> (allowed, s)
              | None \<Rightarrow>
                  (case sr_rate_limiter s of
                     None \<Rightarrow> (True, s)
                   | Some l \<Rightarrow>
                       (case mcp_rate_limiter_check (ce_now ce) (ce_limit_mem ce) client_ip l of
                          (allowed, l1) \<Rightarrow> (allowed, s\<lparr>sr_rate_limiter := Some l1\<rparr>)))
         else (True, s))"

definition message_limit :: "mcp_server_config \<Rightarrow> size_t" where
  "message_limit cfg = (if max_message_size cfg > 0 then max_message_size cfg else DEFAULT_MAX_MESSAGE_SIZE)"

text \<open>The copy of the message: as it is when it ends with a NUL, otherwise with a NUL behind it.\<close>

definition prepare_message :: "call_env \<Rightarrow> mcp_server_config \<Rightarrow> char list \<Rightarrow> int + char list" where
  "prepare_message ce cfg data =
     (if length data > unat (message_limit cfg) then Inl MCP_ERROR_INVALID_REQUEST
      else if \<not> ce_copy_ok ce then Inl MCP_ERROR_INTERNAL_ERROR
      else Inr (if data \<noteq> [] \<and> last data = NUL then data else data @ [NUL]))"

definition finish_request :: "'s mcp_server \<Rightarrow> 's mcp_server" where
  "finish_request s =
     (let prev_count = sr_active_requests s; s1 = change_active (-1) s
      in if prev_count = 0 \<and> sr_shutting_down s1 then s1\<lparr>sr_signals := sr_signals s1 + 1\<rparr> else s1)"

definition transport_message_callback ::
    "call_env \<Rightarrow> 's services \<Rightarrow> char list option \<Rightarrow> 's mcp_server \<Rightarrow> ((int \<times> string option) \<times> 's mcp_server) checked" where
  "transport_message_callback ce sv data s =
     (case data of
        None \<Rightarrow> Done ((MCP_ERROR_INVALID_PARAMS, None), s)
      | Some bytes \<Rightarrow>
          if bytes = [] then Done ((MCP_ERROR_INVALID_PARAMS, None), s)
          else if sr_shutting_down s then Done ((MCP_ERROR_SERVER_SHUTTING_DOWN, None), s)
          else (case allow_request ce (change_active 1 s) of
                  (False, s1) \<Rightarrow> Done ((MCP_ERROR_TOO_MANY_REQUESTS, None), change_active (-1) s1)
                | (True, s1) \<Rightarrow>
                    (case prepare_message ce (sr_config s1) bytes of
                       Inl code \<Rightarrow> Done ((code, None), s1)
                     | Inr message_copy \<Rightarrow>
                         (case handle_message (ce_dispatch ce) (ce_arena_ok ce) sv (Some (c_string message_copy)) (length bytes) (sr_services s1) of
                            Undefined \<Rightarrow> Undefined
                          | Done ((_, response), inner) \<Rightarrow>
                              Done ((MCP_ERROR_NONE, response), finish_request (s1\<lparr>sr_services := inner\<rparr>))))))"

text \<open>
  \<open>process_message_task\<close>, the variant for a thread of the pool: the buffer is handed to \<open>handle_message\<close> as it
  is, which reads behind it when it has no NUL; the answer is dropped.
\<close>

definition process_message_task :: "call_env \<Rightarrow> 's services \<Rightarrow> char list option \<Rightarrow> 's mcp_server \<Rightarrow> 's mcp_server checked" where
  "process_message_task ce sv data s =
     (case data of
        None \<Rightarrow> Done s
      | Some bytes \<Rightarrow>
          if length bytes > unat (message_limit (sr_config s)) then Done s
          else if NUL \<notin> set bytes then Undefined
          else (case handle_message (ce_dispatch ce) (ce_arena_ok ce) sv (Some (c_string bytes)) (length bytes) (sr_services s) of
                  Undefined \<Rightarrow> Undefined
                | Done (_, inner) \<Rightarrow> Done (s\<lparr>sr_services := inner\<rparr>)))"

text \<open>The rate limiter of \<open>mcp_server_create\<close>.\<close>

definition create_rate_limiter :: "mem \<Rightarrow> mcp_server_config \<Rightarrow> mcp_rate_limiter option \<times> mem" where
  "create_rate_limiter m cfg =
     mcp_rate_limiter_create m (rate_limit_capacity cfg) (rate_limit_window_seconds cfg) (rate_limit_max_requests cfg)"

lemma allow_request_other:
  "sr_services (snd (allow_request ce s)) = sr_services s" "sr_config (snd (allow_request ce s)) = sr_config s"
  "sr_active_requests (snd (allow_request ce s)) = sr_active_requests s" "sr_shutting_down (snd (allow_request ce s)) = sr_shutting_down s"
  "sr_signals (snd (allow_request ce s)) = sr_signals s"
  by (auto simp: allow_request_def Let_def split: option.splits prod.splits)


section \<open>Any number of threads\<close>

datatype task_phase =
    Outside
  | Passed call_env "char list"        \<comment> \<open>the server was not shutting down\<close>
  | Counted call_env "char list"       \<comment> \<open>the counter has been increased\<close>
  | Refused                            \<comment> \<open>by the rate limiter\<close>
  | Admitted call_env "char list"
  | Copied call_env "char list" nat    \<comment> \<open>the copy, and the size of the message\<close>
  | Served
  | Leaving int                        \<comment> \<open>the counter has been decreased; its value before\<close>

text \<open>The state of the server, the phases of the threads, and the number of messages dropped by
  \<open>prepare_message\<close>, which the program does not keep.\<close>

type_synonym 's tasks = "'s mcp_server \<times> (nat \<Rightarrow> task_phase) \<times> nat"

inductive task_step :: "'s services \<Rightarrow> 's tasks \<Rightarrow> 's tasks \<Rightarrow> bool" for sv where
  pass: "ph t = Outside \<Longrightarrow> bytes \<noteq> [] \<Longrightarrow> \<not> sr_shutting_down s \<Longrightarrow>
    task_step sv (s, ph, n) (s, ph(t := Passed ce bytes), n)"
| enter: "ph t = Passed ce bytes \<Longrightarrow> task_step sv (s, ph, n) (change_active 1 s, ph(t := Counted ce bytes), n)"
| limit: "ph t = Counted ce bytes \<Longrightarrow> allow_request ce s = (allowed, s1) \<Longrightarrow>
    task_step sv (s, ph, n) (s1, ph(t := if allowed then Admitted ce bytes else Refused), n)"
| refuse: "ph t = Refused \<Longrightarrow> task_step sv (s, ph, n) (change_active (-1) s, ph(t := Outside), n)"
| drop: "ph t = Admitted ce bytes \<Longrightarrow> prepare_message ce (sr_config s) bytes = Inl code \<Longrightarrow>
    task_step sv (s, ph, n) (s, ph(t := Outside), n + 1)"
| copy: "ph t = Admitted ce bytes \<Longrightarrow> prepare_message ce (sr_config s) bytes = Inr message_copy \<Longrightarrow>
    task_step sv (s, ph, n) (s, ph(t := Copied ce message_copy (length bytes)), n)"
| serve: "ph t = Copied ce message_copy k \<Longrightarrow>
    handle_message (ce_dispatch ce) (ce_arena_ok ce) sv (Some (c_string message_copy)) k (sr_services s) = Done (r, inner) \<Longrightarrow>
    task_step sv (s, ph, n) (s\<lparr>sr_services := inner\<rparr>, ph(t := Served), n)"
| leave: "ph t = Served \<Longrightarrow> task_step sv (s, ph, n) (change_active (-1) s, ph(t := Leaving (sr_active_requests s)), n)"
| signal: "ph t = Leaving prev_count \<Longrightarrow>
    task_step sv (s, ph, n)
      (if prev_count = 0 \<and> sr_shutting_down s then s\<lparr>sr_signals := sr_signals s + 1\<rparr> else s, ph(t := Outside), n)"
| stop: "task_step sv (s, ph, n) (s\<lparr>sr_shutting_down := True\<rparr>, ph, n)"

inductive task_reachable :: "'s services \<Rightarrow> 's tasks \<Rightarrow> bool" for sv where
  start: "sr_active_requests s = 0 \<Longrightarrow> \<not> sr_shutting_down s \<Longrightarrow> sr_signals s = 0 \<Longrightarrow> task_reachable sv (s, \<lambda>_. Outside, 0)"
| step: "task_reachable sv x \<Longrightarrow> task_step sv x y \<Longrightarrow> task_reachable sv y"

text \<open>The threads the counter counts.\<close>

fun counted :: "task_phase \<Rightarrow> bool" where
  "counted (Counted _ _) \<longleftrightarrow> True"
| "counted Refused \<longleftrightarrow> True"
| "counted (Admitted _ _) \<longleftrightarrow> True"
| "counted (Copied _ _ _) \<longleftrightarrow> True"
| "counted Served \<longleftrightarrow> True"
| "counted _ \<longleftrightarrow> False"

definition inside :: "(nat \<Rightarrow> task_phase) \<Rightarrow> nat set" where
  "inside ph = {t. counted (ph t)}"

definition tasks_ok :: "'s tasks \<Rightarrow> bool" where
  "tasks_ok x = (case x of (s, ph, n) \<Rightarrow>
     finite (inside ph) \<and> sr_active_requests s = int (card (inside ph)) + int n \<and> sr_signals s = 0 \<and> (\<forall>t p. ph t = Leaving p \<longrightarrow> 0 < p))"

lemma inside_update: "inside (ph(t := p)) = (if counted p then insert t (inside ph) else inside ph - {t})"
  by (auto simp: inside_def)

lemma finite_inside_update [simp]: "finite (inside (ph(t := p))) \<longleftrightarrow> finite (inside ph)"
  by (simp add: inside_update)

lemma card_inside_update:
  assumes "finite (inside ph)"
  shows "int (card (inside (ph(t := p)))) = int (card (inside ph)) + (if counted p then 1 else 0) - (if counted (ph t) then 1 else 0)"
proof -
  have "t \<in> inside ph \<longleftrightarrow> counted (ph t)" by (simp add: inside_def)
  moreover have "0 < card (inside ph)" if "t \<in> inside ph" using assms that by (auto simp: card_gt_0_iff)
  ultimately show ?thesis using assms by (auto simp: inside_update card_insert_if card_Diff_singleton_if)
qed

lemma leaving_update: "(\<forall>t' q. (ph(t := p)) t' = Leaving q \<longrightarrow> 0 < q) \<longleftrightarrow> (\<forall>t' q. t' \<noteq> t \<longrightarrow> ph t' = Leaving q \<longrightarrow> 0 < q) \<and> (\<forall>q. p = Leaving q \<longrightarrow> 0 < q)"
  by auto

lemma tasks_step_ok:
  assumes "task_step sv x y" "tasks_ok x"
  shows "tasks_ok y"
  using assms
proof (induction rule: task_step.induct)
  case (limit ph t ce bytes s allowed s1 n)
  have "sr_active_requests s1 = sr_active_requests s" "sr_signals s1 = sr_signals s"
    using allow_request_other(3,5) [of ce s] limit(2) by simp_all
  then show ?case using limit by (auto simp: tasks_ok_def card_inside_update leaving_update)
next
  case (leave ph t s n)
  have "t \<in> inside ph" using leave(1) by (simp add: inside_def)
  then have "0 < card (inside ph)" using leave(2) by (auto simp: tasks_ok_def card_gt_0_iff)
  then show ?case using leave by (auto simp: tasks_ok_def card_inside_update leaving_update change_active_def)
next
  case (signal ph t prev_count s n)
  then have "prev_count \<noteq> 0" by (auto simp: tasks_ok_def)
  then show ?case using signal by (auto simp: tasks_ok_def card_inside_update leaving_update)
qed (auto simp: tasks_ok_def card_inside_update leaving_update change_active_def)

lemma tasks_reachable_ok: "task_reachable sv x \<Longrightarrow> tasks_ok x"
proof (induction rule: task_reachable.induct)
  case (start s)
  then show ?case by (simp add: tasks_ok_def inside_def)
qed (rule tasks_step_ok)


section \<open>A sequence of messages\<close>

fun run_callbacks ::
    "'s services \<Rightarrow> (call_env \<times> char list option) list \<Rightarrow> 's mcp_server \<Rightarrow> ((int \<times> string option) list \<times> 's mcp_server) checked" where
  "run_callbacks sv [] s = Done ([], s)"
| "run_callbacks sv ((ce, data) # reqs) s =
     (case transport_message_callback ce sv data s of
        Undefined \<Rightarrow> Undefined
      | Done (r, s1) \<Rightarrow>
          (case run_callbacks sv reqs s1 of Undefined \<Rightarrow> Undefined | Done (rs, s2) \<Rightarrow> Done (r # rs, s2)))"

text \<open>The times of the messages of a client that got past the rate limiter.\<close>

definition past_limiter :: "int \<times> string option \<Rightarrow> bool" where
  "past_limiter r \<longleftrightarrow> fst r \<notin> {MCP_ERROR_TOO_MANY_REQUESTS, MCP_ERROR_SERVER_SHUTTING_DOWN, MCP_ERROR_INVALID_PARAMS}"

fun past_times :: "string \<Rightarrow> (call_env \<times> char list option) list \<Rightarrow> (int \<times> string option) list \<Rightarrow> int list" where
  "past_times ip ((ce, data) # reqs) (r # rs) =
     (if past_limiter r \<and> (case ce_client_ip ce of None \<Rightarrow> ''unknown'' | Some x \<Rightarrow> x) = ip then [ce_now ce] else []) @ past_times ip reqs rs"
| "past_times ip _ _ = []"

definition limited :: "'s mcp_server \<Rightarrow> mcp_rate_limiter \<Rightarrow> bool" where
  "limited s l \<longleftrightarrow> sr_rate_limiter s = Some l \<and> rate_limit_window_seconds (sr_config s) > 0 \<and> rate_limit_max_requests (sr_config s) > 0 \<and>
     \<not> use_advanced_rate_limiter (sr_config s)"

lemma finish_request_other:
  "sr_rate_limiter (finish_request s) = sr_rate_limiter s" "sr_config (finish_request s) = sr_config s" "sr_services (finish_request s) = sr_services s"
  by (simp_all add: finish_request_def change_active_def Let_def)

lemma c_string_snoc: "c_string (bs @ [NUL]) = c_string bs"
  by (induction bs) (simp_all add: c_string_def)

lemma prepare_codes: "prepare_message ce cfg bytes = Inl code \<Longrightarrow> past_limiter (code, r)"
  by (auto simp: prepare_message_def past_limiter_def split: if_splits)

lemma callback_limiter:
  assumes lim: "limited s l" and cb: "transport_message_callback ce sv data s = Done (r, s1)"
  shows "\<exists>l1. limited s1 l1 \<and> sr_config s1 = sr_config s \<and>
    (\<not> past_limiter r \<and> l1 = l \<or>
     mcp_rate_limiter_check (ce_now ce) (ce_limit_mem ce) (case ce_client_ip ce of None \<Rightarrow> ''unknown'' | Some x \<Rightarrow> x) l = (past_limiter r, l1))"
proof (cases "\<exists>bytes. data = Some bytes \<and> bytes \<noteq> [] \<and> \<not> sr_shutting_down s")
  case False
  then have "s1 = s" "\<not> past_limiter r"
    using cb by (auto simp: transport_message_callback_def past_limiter_def split: option.splits if_splits)
  then show ?thesis using lim by blast
next
  case True
  then obtain bytes where b: "data = Some bytes" "bytes \<noteq> []" "\<not> sr_shutting_down s" by blast
  obtain allowed l1 where c: "mcp_rate_limiter_check (ce_now ce) (ce_limit_mem ce) (case ce_client_ip ce of None \<Rightarrow> ''unknown'' | Some x \<Rightarrow> x) l = (allowed, l1)"
    by fastforce
  let ?s = "(change_active 1 s)\<lparr>sr_rate_limiter := Some l1\<rparr>"
  have a: "allow_request ce (change_active 1 s) = (allowed, ?s)"
    using lim c by (simp add: allow_request_def Let_def limited_def change_active_def)
  have lim1: "limited ?s l1" "sr_config ?s = sr_config s" using lim by (simp_all add: limited_def change_active_def)
  show ?thesis
  proof (cases allowed)
    case False
    then have "r = (MCP_ERROR_TOO_MANY_REQUESTS, None)" "s1 = change_active (-1) ?s"
      using cb b a by (auto simp: transport_message_callback_def)
    then show ?thesis using lim1 c False by (auto simp: past_limiter_def limited_def change_active_def)
  next
    case True
    have "past_limiter r \<and> limited s1 l1 \<and> sr_config s1 = sr_config s"
    proof (cases "prepare_message ce (sr_config ?s) bytes")
      case (Inl code)
      then show ?thesis using cb b a True lim1 prepare_codes [OF Inl] by (auto simp: transport_message_callback_def)
    next
      case (Inr x)
      then obtain q where "fst r = MCP_ERROR_NONE" "s1 = finish_request (?s\<lparr>sr_services := q\<rparr>)"
        using cb b a True by (auto simp: transport_message_callback_def split: checked.splits)
      then show ?thesis using lim1 by (auto simp: past_limiter_def limited_def finish_request_other)
    qed
    then show ?thesis using c True by auto
  qed
qed

lemma callbacks_limited:
  assumes "limited s l" "rl_inv l" "0 < window l" "client_ok l ip before hist" "sorted (before # map (ce_now \<circ> fst) reqs)"
    "run_callbacks sv reqs s = Done (rs, s')"
  shows "\<exists>l' after. client_ok l' ip after (hist @ past_times ip reqs rs) \<and> window l' = window l \<and> max_requests_per_window l' = max_requests_per_window l"
  using assms
proof (induction reqs arbitrary: s l before hist rs)
  case Nil
  then show ?case by auto
next
  case (Cons q reqs)
  obtain ce data where q: "q = (ce, data)" by fastforce
  obtain r s1 rs1 where r: "transport_message_callback ce sv data s = Done (r, s1)" "run_callbacks sv reqs s1 = Done (rs1, s')" "rs = r # rs1"
    using Cons.prems(6) q by (auto split: checked.splits)
  let ?ip = "case ce_client_ip ce of None \<Rightarrow> ''unknown'' | Some x \<Rightarrow> x"
  obtain l1 where l1: "limited s1 l1" "\<not> past_limiter r \<and> l1 = l \<or> mcp_rate_limiter_check (ce_now ce) (ce_limit_mem ce) ?ip l = (past_limiter r, l1)"
    using callback_limiter [OF Cons.prems(1) r(1)] by blast
  let ?hist = "hist @ (if past_limiter r \<and> ?ip = ip then [ce_now ce] else [])"
  have le: "before \<le> ce_now ce" and srt: "sorted (ce_now ce # map (ce_now \<circ> fst) reqs)" using Cons.prems(5) q by (simp_all add: o_def)
  have "rl_inv l1 \<and> window l1 = window l \<and> max_requests_per_window l1 = max_requests_per_window l \<and> client_ok l1 ip (ce_now ce) ?hist"
  proof (cases "\<not> past_limiter r \<and> l1 = l")
    case True
    then show ?thesis using Cons.prems(2,4) le by (auto simp: client_ok_def split: option.splits)
  next
    case False
    then have c: "mcp_rate_limiter_check (ce_now ce) (ce_limit_mem ce) ?ip l = (past_limiter r, l1)" using l1(2) by blast
    show ?thesis using check_cases(1) [OF Cons.prems(2) c] client_ok_check [OF Cons.prems(2) c Cons.prems(3,4) le] by (simp add: window_def)
  qed
  then show ?case using Cons.IH [OF l1(1) _ _ _ srt r(2), of ?hist] Cons.prems(3) q r(3) by auto
qed


section \<open>Properties\<close>

text \<open>With the basic limiter, which a configuration without the advanced one would give (\<open>mcp_server_create\<close> never makes such a
  configuration): of the messages of one address at most twice the configured number get past the rate limiter within
  \<open>rate_limit_window_seconds\<close> seconds, wherever that span of time begins, whatever the messages are and whichever
  allocations fail: all others are answered with \<open>MCP_ERROR_TOO_MANY_REQUESTS\<close> (or rejected before).\<close>

theorem messages_rate_limited:
  assumes "sr_rate_limiter s = fst (create_rate_limiter m (sr_config s))" and "sr_rate_limiter s \<noteq> None"
    and "\<not> use_advanced_rate_limiter (sr_config s)" and "unat (rate_limit_window_seconds (sr_config s)) < 2 ^ 63"
    and "sorted (map (ce_now \<circ> fst) reqs)" and "run_callbacks sv reqs s = Done (rs, s')"
  shows "requests_between t (t + int (unat (rate_limit_window_seconds (sr_config s)))) (past_times ip reqs rs) \<le> 2 * unat (rate_limit_max_requests (sr_config s))"
proof -
  let ?w = "rate_limit_window_seconds (sr_config s)" and ?most = "rate_limit_max_requests (sr_config s)"
  obtain l m' where l: "mcp_rate_limiter_create m (rate_limit_capacity (sr_config s)) ?w ?most = (Some l, m')" "sr_rate_limiter s = Some l"
    using assms(1,2) by (cases "create_rate_limiter m (sr_config s)") (auto simp: create_rate_limiter_def)
  note c = limiter_created [OF l(1)]
  have win: "window l = int (unat ?w)" using window_small [OF assms(4)] c(3) by (simp add: window_def)
  have pos: "0 < window l" unfolding win of_nat_0_less_iff using c(5) by (simp only: unat_gt_0 not_False_eq_True)
  have lim: "limited s l" using l(2) c(5,6) assms(3) by (simp add: limited_def word_gt_0)
  define before where "before = (case reqs of [] \<Rightarrow> 0 | q # _ \<Rightarrow> ce_now (fst q))"
  have srt: "sorted (before # map (ce_now \<circ> fst) reqs)" using assms(5) by (cases reqs) (auto simp: before_def)
  have "client_ok l ip before []" using c(2) by (simp add: client_ok_def)
  from callbacks_limited [OF lim c(1) pos this srt assms(6)] obtain l' after where
    "client_ok l' ip after (past_times ip reqs rs)" "window l' = window l" "max_requests_per_window l' = max_requests_per_window l" by auto
  then show ?thesis using client_ok_bound [of l' ip after "past_times ip reqs rs" t] win c(4) by simp
qed

definition small_config :: mcp_server_config where
  "small_config = \<lparr>max_message_size = 1, rate_limit_capacity = 8, rate_limit_window_seconds = 60, rate_limit_max_requests = 1,
     use_advanced_rate_limiter = False\<rparr>"

definition small_server :: "nat mcp_server" where
  "small_server = \<lparr>sr_config = small_config, sr_rate_limiter = fst (create_rate_limiter [] small_config), sr_active_requests = 0,
     sr_shutting_down = False, sr_signals = 0, sr_services = 0\<rparr>"

definition call_at :: "int \<Rightarrow> call_env" where
  "call_at now = \<lparr>ce_now = now, ce_client_ip = None, ce_advanced = None, ce_limit_mem = [], ce_copy_ok = True, ce_arena_ok = True,
     ce_dispatch = de_example\<rparr>"

lemma small_limiter: "\<exists>l. sr_rate_limiter small_server = Some l"
  by (simp add: small_server_def create_rate_limiter_def small_config_def mcp_rate_limiter_create_def calloc_buckets_def
      RATE_LIMIT_MIN_CAPACITY_def RATE_LIMIT_HASH_TABLE_CAPACITY_FACTOR_def)

lemma long_message:
  assumes "sr_config s = small_config"
  shows "\<exists>r s'. transport_message_callback (call_at now) sv (Some ''{}'') s = Done (r, s') \<and> sr_config s' = small_config"
proof -
  obtain allowed s1 where a: "allow_request (call_at now) (change_active 1 s) = (allowed, s1)" by fastforce
  have "sr_config s1 = small_config" using allow_request_other(2) [of "call_at now" "change_active 1 s"] a assms by (simp add: change_active_def)
  moreover have "prepare_message (call_at now) small_config ''{}'' = Inl MCP_ERROR_INVALID_REQUEST"
    by (simp add: prepare_message_def message_limit_def small_config_def)
  ultimately show ?thesis using a assms by (cases allowed) (simp_all add: transport_message_callback_def change_active_def)
qed

theorem messages_rate_limited_witness:
  "\<exists>rs s'. run_callbacks sv_example [(call_at 0, Some ''{}''), (call_at 10, Some ''{}''), (call_at 20, Some ''{}'')] small_server = Done (rs, s') \<and>
     requests_between 0 60 (past_times ''unknown'' [(call_at 0, Some ''{}''), (call_at 10, Some ''{}''), (call_at 20, Some ''{}'')] rs) \<le> 2"
proof -
  let ?reqs = "[(call_at 0, Some ''{}''), (call_at 10, Some ''{}''), (call_at 20, Some ''{}'')]"
  have c0: "sr_config small_server = small_config" by (simp add: small_server_def)
  obtain r1 s1 where 1: "transport_message_callback (call_at 0) sv_example (Some ''{}'') small_server = Done (r1, s1)" "sr_config s1 = small_config"
    using long_message [OF c0] by blast
  obtain r2 s2 where 2: "transport_message_callback (call_at 10) sv_example (Some ''{}'') s1 = Done (r2, s2)" "sr_config s2 = small_config"
    using long_message [OF 1(2)] by blast
  obtain r3 s3 where 3: "transport_message_callback (call_at 20) sv_example (Some ''{}'') s2 = Done (r3, s3)"
    using long_message [OF 2(2)] by blast
  have run: "run_callbacks sv_example ?reqs small_server = Done ([r1, r2, r3], s3)" using 1(1) 2(1) 3 by simp
  have "requests_between 0 (0 + int (unat (rate_limit_window_seconds (sr_config small_server)))) (past_times ''unknown'' ?reqs [r1, r2, r3])
      \<le> 2 * unat (rate_limit_max_requests (sr_config small_server))"
    by (rule messages_rate_limited [OF _ _ _ _ _ run, of "[]"])
      (use small_limiter in \<open>auto simp: small_server_def small_config_def call_at_def\<close>)
  then show ?thesis using run by (auto simp: small_server_def small_config_def)
qed

text \<open>Claim C27.  A message is handled only if the server is not shutting down, the rate limiter allows it and it
  is not longer than the limit: in every other case the state of the handlers is unchanged and no
  response is sent.  A message that is handled gets the answer of \<open>handle_message\<close>.\<close>

theorem callback_outcome:
  assumes "transport_message_callback ce sv data s = Done ((code, response), s')"
  shows "if code = MCP_ERROR_NONE
    then \<exists>bytes r. data = Some bytes \<and> bytes \<noteq> [] \<and> length bytes \<le> unat (message_limit (sr_config s)) \<and> \<not> sr_shutting_down s \<and>
      fst (allow_request ce (change_active 1 s)) \<and>
      handle_message (ce_dispatch ce) (ce_arena_ok ce) sv (Some (c_string bytes)) (length bytes) (sr_services s) = Done ((r, response), sr_services s')
    else response = None \<and> sr_services s' = sr_services s"
proof -
  obtain allowed s1 where a: "allow_request ce (change_active 1 s) = (allowed, s1)" by fastforce
  have same: "sr_services s1 = sr_services s" "sr_config s1 = sr_config s"
    using allow_request_other(1,2) [of ce "change_active 1 s"] a by (simp_all add: change_active_def)
  show ?thesis
  proof (cases "\<exists>bytes. data = Some bytes \<and> bytes \<noteq> [] \<and> \<not> sr_shutting_down s \<and> allowed")
    case False
    then have "code \<noteq> MCP_ERROR_NONE \<and> response = None \<and> sr_services s' = sr_services s"
      using assms a same by (auto simp: transport_message_callback_def change_active_def split: option.splits if_splits bool.splits)
    then show ?thesis by simp
  next
    case True
    then obtain bytes where b: "data = Some bytes" "bytes \<noteq> []" "\<not> sr_shutting_down s" "allowed" by blast
    show ?thesis
    proof (cases "prepare_message ce (sr_config s1) bytes")
      case (Inl c)
      then have "code = c \<and> c \<noteq> MCP_ERROR_NONE \<and> response = None \<and> s' = s1"
        using assms a b by (auto simp: transport_message_callback_def prepare_message_def split: if_splits)
      then show ?thesis using same by simp
    next
      case (Inr copied)
      have len: "length bytes \<le> unat (message_limit (sr_config s))" and copied: "c_string copied = c_string bytes"
        using Inr same b(2) by (auto simp: prepare_message_def c_string_snoc split: if_splits)
      obtain r inner where h: "handle_message (ce_dispatch ce) (ce_arena_ok ce) sv (Some (c_string bytes)) (length bytes) (sr_services s) = Done ((r, response), inner)"
        and s': "code = MCP_ERROR_NONE" "sr_services s' = inner"
        using assms a b Inr copied same by (auto simp: transport_message_callback_def finish_request_other split: checked.splits)
      then show ?thesis using b a len by auto
    qed
  qed
qed

theorem callback_outcome_witness:
  "\<exists>s'. transport_message_callback (call_at 0) sv_example (Some ''{}'') (small_server\<lparr>sr_rate_limiter := None\<rparr>) = Done ((MCP_ERROR_INVALID_REQUEST, None), s') \<and>
     sr_services s' = sr_services small_server"
proof -
  let ?s = "small_server\<lparr>sr_rate_limiter := None\<rparr>"
  have "transport_message_callback (call_at 0) sv_example (Some ''{}'') ?s = Done ((MCP_ERROR_INVALID_REQUEST, None), change_active 1 ?s)"
    by (simp add: transport_message_callback_def allow_request_def small_server_def small_config_def change_active_def prepare_message_def message_limit_def)
  with callback_outcome [OF this] show ?thesis by (simp add: small_server_def)
qed

text \<open>In every interleaving of calls and shutdown the counter of active requests is the number of threads
  inside a call plus the number of messages that were dropped for their size or for want of memory: a
  dropped message is counted for ever.  The condition variable \<open>mcp_server_stop\<close> waits for is never signalled,
  since the value a thread tests is the counter before its own decrement.\<close>

theorem shutdown_never_signalled:
  assumes "task_reachable sv (s, ph, dropped)"
  shows "sr_active_requests s = int (card (inside ph)) + int dropped \<and> sr_signals s = 0"
  using tasks_reachable_ok [OF assms] by (simp add: tasks_ok_def)


text \<open>A message that is too long leaves the counter at 1 although no thread is inside.\<close>

lemma long_message_leaks:
  "task_reachable sv_example (change_active 1 (small_server\<lparr>sr_rate_limiter := None\<rparr>), \<lambda>_. Outside, 1)"
proof -
  let ?s = "small_server\<lparr>sr_rate_limiter := None\<rparr>" and ?o = "\<lambda>_ :: nat. Outside" and ?ce = "call_at 0"
  have r0: "task_reachable sv_example (?s, ?o, 0)" by (rule task_reachable.start) (simp_all add: small_server_def)
  have r1: "task_reachable sv_example (?s, ?o(0 := Passed ?ce ''{}''), 0)"
    by (rule task_reachable.step [OF r0]) (rule task_step.pass, simp_all add: small_server_def)
  have "task_step sv_example (?s, ?o(0 := Passed ?ce ''{}''), 0) (change_active 1 ?s, (?o(0 := Passed ?ce ''{}''))(0 := Counted ?ce ''{}''), 0)"
    by (rule task_step.enter) simp
  from task_reachable.step [OF r1 this] have r2: "task_reachable sv_example (change_active 1 ?s, ?o(0 := Counted ?ce ''{}''), 0)" by simp
  have "allow_request ?ce (change_active 1 ?s) = (True, change_active 1 ?s)"
    by (simp add: allow_request_def small_server_def small_config_def change_active_def)
  then have "task_step sv_example (change_active 1 ?s, ?o(0 := Counted ?ce ''{}''), 0)
      (change_active 1 ?s, (?o(0 := Counted ?ce ''{}''))(0 := if True then Admitted ?ce ''{}'' else Refused), 0)"
    by (rule task_step.limit [rotated]) simp
  from task_reachable.step [OF r2 this] have r3: "task_reachable sv_example (change_active 1 ?s, ?o(0 := Admitted ?ce ''{}''), 0)" by simp
  have "prepare_message ?ce (sr_config (change_active 1 ?s)) ''{}'' = Inl MCP_ERROR_INVALID_REQUEST"
    by (simp add: prepare_message_def message_limit_def small_server_def small_config_def change_active_def)
  then have "task_step sv_example (change_active 1 ?s, ?o(0 := Admitted ?ce ''{}''), 0)
      (change_active 1 ?s, (?o(0 := Admitted ?ce ''{}''))(0 := Outside), 0 + 1)"
    by (rule task_step.drop [rotated]) simp
  moreover have "(?o(0 := Admitted ?ce ''{}''))(0 := Outside) = ?o" by auto
  ultimately show ?thesis using task_reachable.step [OF r3] by fastforce
qed

theorem shutdown_never_signalled_witness:
  "\<exists>(s :: nat mcp_server) ph dropped. task_reachable sv_example (s, ph, dropped) \<and> inside ph = {} \<and> sr_active_requests s = 1 \<and> sr_signals s = 0"
  using shutdown_never_signalled [OF long_message_leaks] long_message_leaks by (fastforce simp: inside_def)

end
