(* ===== verification/Mcp_Client_Table.thy ===== *)
theory Mcp_Client_Table
  imports Mcp_Prelude
begin

text \<open>
  The client's table of pending requests, \<open>src/client/mcp_client_hash_table.c\<close>: an open-addressing
  hash table from request ids to the requests that wait for their responses.

  A slot with id 0 is empty.  A removed request leaves its id in the slot with the status
  \<open>PENDING_REQUEST_INVALID\<close>, so that the probing of other ids goes on behind it.  Pointers to
  entries are slot numbers.  The fields \<open>result_ptr\<close>, \<open>error_code_ptr\<close> and \<open>error_message_ptr\<close> of a
  request point into the stack of the thread that waits for it; \<open>req_caller\<close> names that thread.  A
  condition variable is named by a number.  The table is protected by one mutex, so its operations
  are atomic.
\<close>

section \<open>Data\<close>

datatype pending_request_status =
    PENDING_REQUEST_INVALID | PENDING_REQUEST_WAITING | PENDING_REQUEST_COMPLETED
  | PENDING_REQUEST_ERROR | PENDING_REQUEST_TIMEOUT

record pending_request =
  req_id :: size_t
  req_status :: pending_request_status
  req_caller :: nat
  req_cv :: "nat option"

record pending_request_entry =
  entry_id :: size_t
  entry_request :: pending_request

text \<open>
  The part of \<open>struct mcp_client\<close> the table needs.  \<open>table_generation\<close> counts the arrays the table
  has lived in: a resize allocates a new array and frees the old one, and pointers into a former
  generation dangle.
\<close>

record pending_table =
  pending_requests_table :: "pending_request_entry list"
  pending_requests_capacity :: size_t
  pending_requests_count :: size_t
  table_generation :: nat

definition empty_entry :: pending_request_entry where
  "empty_entry = \<lparr>entry_id = 0, entry_request =
     \<lparr>req_id = 0, req_status = PENDING_REQUEST_INVALID, req_caller = 0, req_cv = None\<rparr>\<rparr>"

definition INITIAL_PENDING_REQUESTS_CAPACITY :: size_t where
  "INITIAL_PENDING_REQUESTS_CAPACITY = 64"

definition MAX_PROBE_DISTANCE :: nat where
  "MAX_PROBE_DISTANCE = 16"

text \<open>The table as \<open>mcp_client_create\<close> sets it up.\<close>

definition pending_table_create :: pending_table where
  "pending_table_create =
     \<lparr>pending_requests_table = replicate (unat INITIAL_PENDING_REQUESTS_CAPACITY) empty_entry,
      pending_requests_capacity = INITIAL_PENDING_REQUESTS_CAPACITY,
      pending_requests_count = 0, table_generation = 0\<rparr>"

section \<open>Operations\<close>

definition hash_id :: "size_t \<Rightarrow> size_t \<Rightarrow> size_t" where
  "hash_id i table_size =
     (if i < 1000 then ((i * 2654435761) XOR drop_bit 16 i) AND (table_size - 1)
      else let a = i XOR drop_bit 33 i;
               b = a * 0xff51afd7ed558ccd;
               c = b XOR drop_bit 33 b;
               d = c * 0xc4ceb9fe1a85ec53;
               e = d XOR drop_bit 33 d
           in e AND (table_size - 1))"

definition next_probe :: "size_t \<Rightarrow> size_t \<Rightarrow> size_t \<Rightarrow> size_t" where
  "next_probe capacity index probe_distance = (index + probe_distance) AND (capacity - 1)"

definition full_scan :: "pending_request_entry list \<Rightarrow> size_t \<Rightarrow> nat option" where
  "full_scan table i = List.find (\<lambda>k. entry_id (table ! k) = i) [0..<length table]"

text \<open>
  The search loop with the number of probes left.  \<open>first_deleted_slot\<close> is the first removed slot
  seen, when a slot for an insertion is sought.
\<close>

fun find_loop ::
    "pending_request_entry list \<Rightarrow> size_t \<Rightarrow> size_t \<Rightarrow> bool \<Rightarrow> nat \<Rightarrow> size_t \<Rightarrow> size_t \<Rightarrow> nat option \<Rightarrow> nat option" where
  "find_loop table capacity i find_empty_for_insert 0 index probe_distance first_deleted_slot =
     (if find_empty_for_insert then first_deleted_slot else full_scan table i)"
| "find_loop table capacity i find_empty_for_insert (Suc n) index probe_distance first_deleted_slot =
     (let e = table ! unat index
      in if entry_id e = i then Some (unat index)
         else if entry_id e = 0 then
           (if find_empty_for_insert
            then Some (case first_deleted_slot of Some k \<Rightarrow> k | None \<Rightarrow> unat index) else None)
         else find_loop table capacity i find_empty_for_insert n
                (next_probe capacity index (probe_distance + 1)) (probe_distance + 1)
                (if req_status (entry_request e) = PENDING_REQUEST_INVALID \<and> find_empty_for_insert \<and> first_deleted_slot = None
                 then Some (unat index) else first_deleted_slot))"

definition find_probes :: "size_t \<Rightarrow> nat" where
  "find_probes capacity = (if capacity < 1024 then unat capacity else MAX_PROBE_DISTANCE)"

definition mcp_client_find_pending_request_entry :: "pending_table \<Rightarrow> size_t \<Rightarrow> bool \<Rightarrow> nat option" where
  "mcp_client_find_pending_request_entry t i find_empty_for_insert =
     (if i = 0 then None
      else find_loop (pending_requests_table t) (pending_requests_capacity t) i find_empty_for_insert
             (find_probes (pending_requests_capacity t))
             (hash_id i (pending_requests_capacity t)) 1 None)"

text \<open>Rehashing: the placement of one entry in the new array, and the loop over the old one.\<close>

fun place_loop ::
    "pending_request_entry list \<Rightarrow> size_t \<Rightarrow> pending_request_entry \<Rightarrow> nat \<Rightarrow> size_t \<Rightarrow> size_t \<Rightarrow> pending_request_entry list option" where
  "place_loop new_table capacity e 0 index probe_distance = None"
| "place_loop new_table capacity e (Suc n) index probe_distance =
     (if entry_id (new_table ! unat index) = 0 then Some (new_table[unat index := e])
      else place_loop new_table capacity e n
             (next_probe capacity index (probe_distance + 1)) (probe_distance + 1))"

definition place_probes :: "size_t \<Rightarrow> nat" where
  "place_probes capacity = (if capacity < 1024 then unat capacity else 64)"

definition entry_live :: "pending_request_entry \<Rightarrow> bool" where
  "entry_live e \<longleftrightarrow> entry_id e \<noteq> 0 \<and> req_status (entry_request e) \<noteq> PENDING_REQUEST_INVALID"

fun rehash ::
    "size_t \<Rightarrow> pending_request_entry list \<Rightarrow> pending_request_entry list \<Rightarrow> size_t \<Rightarrow>
     (pending_request_entry list \<times> size_t) option" where
  "rehash capacity new_table [] rehashed_count = Some (new_table, rehashed_count)"
| "rehash capacity new_table (e # es) rehashed_count =
     (if \<not> entry_live e then rehash capacity new_table es rehashed_count
      else case place_loop new_table capacity e (place_probes capacity) (hash_id (entry_id e) capacity) 1 of
             None \<Rightarrow> None
           | Some new_table' \<Rightarrow> rehash capacity new_table' es (rehashed_count + 1))"

definition resize_pending_requests_table :: "mem \<Rightarrow> pending_table \<Rightarrow> int \<times> pending_table \<times> mem" where
  "resize_pending_requests_table m t =
     (let old_capacity = pending_requests_capacity t; new_capacity = old_capacity * 2
      in if new_capacity \<le> old_capacity \<or> 1024 * 1024 < new_capacity then (-1, t, m)
         else let (ok1, m1) = mem_alloc m; (ok, m2) = (if ok1 then (True, m1) else mem_alloc m1)
              in if \<not> ok then (-1, t, m2)
                 else case rehash new_capacity (replicate (unat new_capacity) empty_entry)
                             (pending_requests_table t) 0 of
                        None \<Rightarrow> (-1, t, m2)
                      | Some (new_table, rehashed_count) \<Rightarrow>
                          (0, \<lparr>pending_requests_table = new_table, pending_requests_capacity = new_capacity,
                               pending_requests_count = rehashed_count,
                               table_generation = Suc (table_generation t)\<rparr>, m2))"

definition mcp_client_add_pending_request_entry ::
    "mem \<Rightarrow> pending_table \<Rightarrow> size_t \<Rightarrow> pending_request \<Rightarrow> int \<times> pending_table \<times> mem" where
  "mcp_client_add_pending_request_entry m t i request =
     (if i = 0 then (-1, t, m)
      else let new_count = pending_requests_count t + 1;
               load_percentage = (new_count * 100) div pending_requests_capacity t;
               (rc, t1, m1) = (if 75 \<le> load_percentage then resize_pending_requests_table m t else (0, t, m))
           in if rc \<noteq> 0 then (-1, t1, m1)
              else case mcp_client_find_pending_request_entry t1 i True of
                     None \<Rightarrow> (-1, t1, m1)
                   | Some k \<Rightarrow>
                       (if entry_id (pending_requests_table t1 ! k) = i then (-1, t1, m1)
                        else (0, t1\<lparr>pending_requests_table := (pending_requests_table t1)[k := \<lparr>entry_id = i, entry_request = request\<rparr>],
                                   pending_requests_count := pending_requests_count t1 + 1\<rparr>, m1)))"

text \<open>The condition variables destroyed are returned.\<close>

definition mcp_client_remove_pending_request_entry :: "pending_table \<Rightarrow> size_t \<Rightarrow> int \<times> pending_table \<times> nat list" where
  "mcp_client_remove_pending_request_entry t i =
     (if i = 0 then (-1, t, [])
      else case mcp_client_find_pending_request_entry t i False of
             None \<Rightarrow> (-1, t, [])
           | Some k \<Rightarrow>
               (let e = pending_requests_table t ! k; r = entry_request e
                in if req_status r = PENDING_REQUEST_INVALID then (-1, t, [])
                   else (0, t\<lparr>pending_requests_table := (pending_requests_table t)[k :=
                                e\<lparr>entry_request := r\<lparr>req_status := PENDING_REQUEST_INVALID, req_cv := None\<rparr>\<rparr>],
                              pending_requests_count := pending_requests_count t - 1\<rparr>,
                         case req_cv r of None \<Rightarrow> [] | Some cv \<Rightarrow> [cv])))"


section \<open>The probe sequence\<close>

text \<open>The slot of the \<open>n\<close>-th probe for an id.\<close>

primrec probe_at :: "size_t \<Rightarrow> size_t \<Rightarrow> nat \<Rightarrow> size_t" where
  "probe_at capacity i 0 = hash_id i capacity"
| "probe_at capacity i (Suc n) = next_probe capacity (probe_at capacity i n) (of_nat n + 2)"

definition pow2 :: "size_t \<Rightarrow> nat \<Rightarrow> bool" where
  "pow2 capacity k \<longleftrightarrow> k \<le> 20 \<and> capacity = 2 ^ k"

lemma pow2_unat: "pow2 capacity k \<Longrightarrow> unat capacity = 2 ^ k"
proof -
  assume p: "pow2 capacity k"
  then have c: "capacity = of_nat (2 ^ k)" by (simp add: pow2_def)
  have "(2::nat) ^ k < 2 ^ 64" using p by (intro power_strict_increasing) (simp_all add: pow2_def)
  then show ?thesis unfolding c unat_of_nat by simp
qed

lemma unat_and_capacity:
  assumes "pow2 capacity k"
  shows "unat (w AND (capacity - 1)) = unat w mod 2 ^ k"
proof -
  have "capacity - 1 = mask k" using assms by (simp add: pow2_def mask_eq_exp_minus_1)
  then show ?thesis by (simp add: unat_take_bit_mod flip: take_bit_eq_mask)
qed

lemma hash_id_less: "pow2 capacity k \<Longrightarrow> unat (hash_id i capacity) < 2 ^ k"
  by (simp add: hash_id_def unat_and_capacity Let_def)

lemma unat_next_probe:
  assumes "pow2 capacity k"
  shows "unat (next_probe capacity x y) = (unat x + unat y) mod 2 ^ k"
proof -
  have "(2::nat) ^ k dvd 2 ^ 64" using assms by (intro le_imp_power_dvd) (simp add: pow2_def)
  then show ?thesis
    using assms by (simp add: next_probe_def unat_and_capacity unat_word_ariths mod_mod_cancel)
qed

lemma unat_of_nat_mod:
  assumes "k \<le> 64"
  shows "unat (of_nat n :: size_t) mod 2 ^ k = n mod 2 ^ k"
proof -
  have "(2::nat) ^ k dvd 2 ^ 64" using assms by (intro le_imp_power_dvd)
  then show ?thesis by (simp add: unat_of_nat mod_mod_cancel)
qed

lemma probe_at_triangular:
  assumes p: "pow2 capacity k"
  shows "unat (probe_at capacity i n) = (unat (hash_id i capacity) + n * (n + 3) div 2) mod 2 ^ k"
proof (induction n)
  case 0
  show ?case using hash_id_less [OF p, of i] by simp
next
  case (Suc n)
  have k: "k \<le> 64" using p by (simp add: pow2_def)
  have "(Suc n * (Suc n + 3)) = n * (n + 3) + 2 * (n + 2)" by (simp add: algebra_simps)
  then have T: "Suc n * (Suc n + 3) div 2 = n * (n + 3) div 2 + (n + 2)" by simp
  have "unat (probe_at capacity i (Suc n)) = (unat (probe_at capacity i n) + unat (of_nat (n + 2) :: size_t)) mod 2 ^ k"
    by (simp add: unat_next_probe [OF p] add.commute)
  also have "\<dots> = (unat (probe_at capacity i n) + (n + 2)) mod 2 ^ k"
    using unat_of_nat_mod [OF k, of "n + 2"] by (metis mod_add_right_eq)
  finally show ?case unfolding Suc.IH T by (simp only: mod_add_left_eq add.assoc)
qed

lemma probe_at_less: "pow2 capacity k \<Longrightarrow> unat (probe_at capacity i n) < 2 ^ k"
  by (simp add: probe_at_triangular)

text \<open>The probes but the last visit different slots.\<close>

lemma triangular_dvd:
  fixes a b :: nat
  assumes "a < b" "b < 2 ^ k - 1"
  shows "\<not> 2 ^ k dvd b * (b + 3) div 2 - a * (a + 3) div 2"
proof
  assume d: "2 ^ k dvd b * (b + 3) div 2 - a * (a + 3) div 2"
  have ev: "even (n * (n + 3))" for n :: nat by simp
  have "2 * (b * (b + 3) div 2 - a * (a + 3) div 2) = b * (b + 3) - a * (a + 3)"
    using ev by (simp add: diff_mult_distrib2 del: even_mult_iff)
  also have "\<dots> = (b - a) * (a + b + 3)"
  proof -
    obtain d where "b = a + d" using assms(1) by (metis less_imp_add_positive)
    then show ?thesis by (simp add: algebra_simps)
  qed
  finally have dvd: "2 ^ Suc k dvd (b - a) * (a + b + 3)" using d by (metis mult_dvd_mono dvd_refl power_Suc)
  have "odd (b - a) \<or> odd (a + b + 3)" using assms(1) by presburger
  then have "2 ^ Suc k dvd a + b + 3 \<or> 2 ^ Suc k dvd b - a"
    using dvd by (metis coprime_dvd_mult_left_iff coprime_dvd_mult_right_iff coprime_power_left_iff coprime_left_2_iff_odd)
  then show False using assms by (auto dest!: dvd_imp_le)
qed

lemma probe_at_inj:
  assumes p: "pow2 capacity k"
  shows "inj_on (\<lambda>n. unat (probe_at capacity i n)) {..<2 ^ k - 1}"
proof (rule linorder_inj_onI')
  fix a b assume ab: "a \<in> {..<2 ^ k - 1 :: nat}" "b \<in> {..<2 ^ k - 1 :: nat}" "a < b"
  let ?T = "\<lambda>n :: nat. n * (n + 3) div 2"
  have le: "?T a \<le> ?T b" using ab(3) by (intro div_le_mono mult_le_mono) auto
  show "unat (probe_at capacity i a) \<noteq> unat (probe_at capacity i b)"
  proof
    assume "unat (probe_at capacity i a) = unat (probe_at capacity i b)"
    then have "(unat (hash_id i capacity) + ?T a) mod 2 ^ k = (unat (hash_id i capacity) + ?T b) mod 2 ^ k"
      unfolding probe_at_triangular [OF p] .
    then have "2 ^ k dvd (unat (hash_id i capacity) + ?T b) - (unat (hash_id i capacity) + ?T a)"
      using le by (metis mod_eq_dvd_iff_nat add_left_mono)
    with triangular_dvd [of a b k] ab show False by simp
  qed
qed


section \<open>The table invariant\<close>

definition slot_id :: "pending_request_entry list \<Rightarrow> size_t \<Rightarrow> size_t" where
  "slot_id table w = entry_id (table ! unat w)"

text \<open>Slot \<open>a\<close> is on the probe sequence of \<open>i\<close>, behind occupied slots only.\<close>

definition on_chain :: "size_t \<Rightarrow> pending_request_entry list \<Rightarrow> size_t \<Rightarrow> nat \<Rightarrow> bool" where
  "on_chain capacity table i a \<longleftrightarrow>
     (\<exists>n. unat (probe_at capacity i n) = a \<and> (\<forall>m<n. slot_id table (probe_at capacity i m) \<noteq> 0))"

definition table_ok :: "size_t \<Rightarrow> pending_request_entry list \<Rightarrow> bool" where
  "table_ok capacity table \<longleftrightarrow> (\<exists>k. 6 \<le> k \<and> pow2 capacity k) \<and> length table = unat capacity \<and>
     (\<forall>a < length table. \<forall>b < length table. entry_id (table ! a) = entry_id (table ! b) \<longrightarrow>
        entry_id (table ! a) \<noteq> 0 \<longrightarrow> a = b) \<and>
     (\<forall>a < length table. entry_id (table ! a) \<noteq> 0 \<longrightarrow> on_chain capacity table (entry_id (table ! a)) a)"

lemma table_okD:
  assumes "table_ok capacity table"
  obtains k where "6 \<le> k" "pow2 capacity k" "length table = 2 ^ k"
  using assms by (auto simp: table_ok_def pow2_unat)

lemma table_ok_unique:
  assumes "table_ok capacity table" "a < length table" "b < length table"
    "entry_id (table ! a) = entry_id (table ! b)" "entry_id (table ! a) \<noteq> 0"
  shows "a = b"
  using assms by (auto simp: table_ok_def)

lemma table_ok_chain:
  "table_ok capacity table \<Longrightarrow> a < length table \<Longrightarrow> entry_id (table ! a) \<noteq> 0 \<Longrightarrow>
   on_chain capacity table (entry_id (table ! a)) a"
  by (simp add: table_ok_def)

lemma probe_in_table: "table_ok capacity table \<Longrightarrow> unat (probe_at capacity i n) < length table"
  by (metis table_okD probe_at_less)

lemma find_loop_probe_Suc:
  "find_loop table capacity i ins (Suc n) (probe_at capacity i m) (of_nat m + 1) fd =
     (let w = probe_at capacity i m; e = table ! unat w
      in if entry_id e = i then Some (unat w)
         else if entry_id e = 0 then (if ins then Some (case fd of Some k \<Rightarrow> k | None \<Rightarrow> unat w) else None)
         else find_loop table capacity i ins n (probe_at capacity i (Suc m)) (of_nat (Suc m) + 1)
                (if req_status (entry_request e) = PENDING_REQUEST_INVALID \<and> ins \<and> fd = None then Some (unat w) else fd))"
  by (simp add: Let_def add.commute [of "2 :: size_t"] add.assoc)

lemma full_scan_Some: "full_scan table i = Some a \<Longrightarrow> a < length table \<and> entry_id (table ! a) = i"
  by (auto simp: full_scan_def find_Some_iff)

lemma full_scan_finds: "a < length table \<Longrightarrow> entry_id (table ! a) = i \<Longrightarrow> full_scan table i \<noteq> None"
  by (auto simp: full_scan_def find_None_iff)

lemma find_loop_sound:
  assumes "table_ok capacity table"
  shows "find_loop table capacity i False n (probe_at capacity i m) (of_nat m + 1) fd = Some a \<Longrightarrow>
    a < length table \<and> entry_id (table ! a) = i"
proof (induction n arbitrary: m fd)
  case 0
  then show ?case using full_scan_Some by simp
next
  case (Suc n)
  show ?case
    using Suc.prems Suc.IH [of "Suc m" fd] probe_in_table [OF assms, of i m] unfolding find_loop_probe_Suc
    by (auto simp: Let_def simp del: probe_at.simps of_nat_Suc split: if_splits)
qed

lemma find_loop_complete:
  assumes ok: "table_ok capacity table" and a: "a < length table" "entry_id (table ! a) = i" "i \<noteq> 0"
    and N: "unat (probe_at capacity i N) = a" "\<forall>j<N. slot_id table (probe_at capacity i j) \<noteq> 0"
  shows "m \<le> N \<Longrightarrow> find_loop table capacity i False n (probe_at capacity i m) (of_nat m + 1) fd \<noteq> None"
proof (induction n arbitrary: m fd)
  case 0
  then show ?case using full_scan_finds [OF a(1,2)] by simp
next
  case (Suc n)
  show ?case
  proof (cases "slot_id table (probe_at capacity i m) = i")
    case True
    then show ?thesis unfolding find_loop_probe_Suc by (simp add: slot_id_def)
  next
    case False
    then have "m \<noteq> N" using N(1) a(2) by (auto simp: slot_id_def)
    with Suc.prems have "m < N" by simp
    then have "slot_id table (probe_at capacity i m) \<noteq> 0" using N(2) by simp
    with False Suc.IH [of "Suc m"] \<open>m < N\<close> show ?thesis
      unfolding find_loop_probe_Suc by (simp add: slot_id_def Let_def)
  qed
qed

text \<open>\<open>table_inv\<close>: the table is well formed and the count is the number of live entries.\<close>

definition live_count :: "pending_request_entry list \<Rightarrow> nat" where
  "live_count table = length (filter entry_live table)"

definition table_inv :: "pending_table \<Rightarrow> bool" where
  "table_inv t \<longleftrightarrow> table_ok (pending_requests_capacity t) (pending_requests_table t) \<and>
     unat (pending_requests_count t) = live_count (pending_requests_table t)"

lemma find_entry_iff:
  assumes inv: "table_inv t" and i: "i \<noteq> 0"
  shows "mcp_client_find_pending_request_entry t i False = Some a \<longleftrightarrow>
    a < length (pending_requests_table t) \<and> entry_id (pending_requests_table t ! a) = i"
proof -
  let ?T = "pending_requests_table t" and ?C = "pending_requests_capacity t"
  let ?f = "find_loop ?T ?C i False (find_probes ?C) (probe_at ?C i 0) (of_nat 0 + 1) None"
  have ok: "table_ok ?C ?T" using inv by (simp add: table_inv_def)
  have f: "mcp_client_find_pending_request_entry t i False = ?f"
    using i by (simp add: mcp_client_find_pending_request_entry_def)
  have sound: "b < length ?T \<and> entry_id (?T ! b) = i" if "?f = Some b" for b
    using find_loop_sound [OF ok that] .
  show ?thesis unfolding f
  proof
    assume a: "a < length ?T \<and> entry_id (?T ! a) = i"
    then obtain N where "unat (probe_at ?C i N) = a" "\<forall>j<N. slot_id ?T (probe_at ?C i j) \<noteq> 0"
      using table_ok_chain [OF ok] i by (auto simp: on_chain_def)
    then have "?f \<noteq> None" using find_loop_complete [OF ok _ _ i] a by blast
    then obtain b where b: "?f = Some b" by blast
    then have "b = a" using table_ok_unique [OF ok, of b a] sound [OF b] a i by simp
    with b show "?f = Some a" by simp
  qed (rule sound)
qed

text \<open>The slot an insertion gets: the id itself, or a slot that is not live and can be reached.\<close>

definition insertable :: "size_t \<Rightarrow> pending_request_entry list \<Rightarrow> size_t \<Rightarrow> nat \<Rightarrow> bool" where
  "insertable capacity table i a \<longleftrightarrow> a < length table \<and> \<not> entry_live (table ! a) \<and> on_chain capacity table i a"

lemma find_loop_insert:
  assumes ok: "table_ok capacity table"
  shows "find_loop table capacity i True n (probe_at capacity i m) (of_nat m + 1) fd = Some a \<Longrightarrow>
    \<forall>j<m. slot_id table (probe_at capacity i j) \<noteq> 0 \<Longrightarrow>
    (\<forall>d. fd = Some d \<longrightarrow> insertable capacity table i d) \<Longrightarrow>
    a < length table \<and> entry_id (table ! a) = i \<or> insertable capacity table i a"
proof (induction n arbitrary: m fd)
  case 0
  then show ?case by simp
next
  case (Suc n)
  let ?w = "probe_at capacity i m"
  have here: "insertable capacity table i (unat ?w)" if "\<not> entry_live (table ! unat ?w)"
    using that probe_in_table [OF ok] Suc.prems(2) by (auto simp: insertable_def on_chain_def)
  consider "slot_id table ?w = i" | "slot_id table ?w \<noteq> i" "slot_id table ?w = 0"
    | "slot_id table ?w \<noteq> i" "slot_id table ?w \<noteq> 0" by blast
  then show ?case
  proof cases
    case 1
    then show ?thesis using Suc.prems(1) probe_in_table [OF ok, of i m] unfolding find_loop_probe_Suc
      by (auto simp: slot_id_def Let_def)
  next
    case 2
    then have "\<not> entry_live (table ! unat ?w)" by (simp add: entry_live_def slot_id_def)
    with here 2 Suc.prems show ?thesis unfolding find_loop_probe_Suc
      by (auto simp: slot_id_def Let_def split: option.splits)
  next
    case 3
    let ?fd = "if req_status (entry_request (table ! unat ?w)) = PENDING_REQUEST_INVALID \<and> True \<and> fd = None
      then Some (unat ?w) else fd"
    have "find_loop table capacity i True n (probe_at capacity i (Suc m)) (of_nat (Suc m) + 1) ?fd = Some a"
      using 3 Suc.prems(1) unfolding find_loop_probe_Suc by (simp add: slot_id_def Let_def)
    moreover have "\<forall>j<Suc m. slot_id table (probe_at capacity i j) \<noteq> 0" using 3 Suc.prems(2) by (auto simp: less_Suc_eq)
    moreover have "\<forall>d. ?fd = Some d \<longrightarrow> insertable capacity table i d"
      using Suc.prems(3) here by (auto simp: entry_live_def)
    ultimately show ?thesis by (rule Suc.IH)
  qed
qed

text \<open>Storing a fresh id in such a slot keeps the table well formed.\<close>

lemma on_chain_update:
  assumes "on_chain capacity table i b" "table_ok capacity table" "entry_id e \<noteq> 0"
  shows "on_chain capacity (table[a := e]) i b"
proof -
  have "slot_id (table[a := e]) w \<noteq> 0" if "slot_id table w \<noteq> 0" "unat w < length table" for w
    using that assms(3) by (cases "unat w = a") (auto simp: slot_id_def)
  with assms(1) probe_in_table [OF assms(2)] show ?thesis unfolding on_chain_def by blast
qed

lemma table_ok_insert:
  assumes ok: "table_ok capacity table" and a: "insertable capacity table (entry_id e) a" and e: "entry_id e \<noteq> 0"
    and fresh: "\<forall>b < length table. entry_id (table ! b) \<noteq> entry_id e"
  shows "table_ok capacity (table[a := e])"
proof -
  have al: "a < length table" using a by (simp add: insertable_def)
  have "on_chain capacity (table[a := e]) (entry_id (table[a := e] ! b)) b"
    if b: "b < length table" "entry_id (table[a := e] ! b) \<noteq> 0" for b
    using on_chain_update [OF _ ok e] a table_ok_chain [OF ok] b al
    by (cases "b = a") (auto simp: insertable_def)
  moreover have "b = c" if "b < length table" "c < length table"
      "entry_id (table[a := e] ! b) = entry_id (table[a := e] ! c)" "entry_id (table[a := e] ! b) \<noteq> 0" for b c
    using that fresh al table_ok_unique [OF ok, of b c] by (auto simp: nth_list_update split: if_splits)
  ultimately show ?thesis using ok by (simp add: table_ok_def)
qed

lemma live_count_update:
  "a < length table \<Longrightarrow>
   live_count (table[a := e]) + (if entry_live (table ! a) then 1 else 0) =
   live_count table + (if entry_live e then 1 else 0)"
proof (induction table arbitrary: a)
  case (Cons x xs)
  show ?case
  proof (cases a)
    case 0
    then show ?thesis by (simp add: live_count_def)
  next
    case (Suc b)
    with Cons show ?thesis by (auto simp: live_count_def)
  qed
qed simp


section \<open>Insertion, removal and resizing\<close>

text \<open>The abstract content of a table: the live requests by id.\<close>

definition pending :: "pending_table \<Rightarrow> size_t \<rightharpoonup> pending_request" where
  "pending t = map_of (map (\<lambda>e. (entry_id e, entry_request e)) (filter entry_live (pending_requests_table t)))"

definition known_ids :: "pending_table \<Rightarrow> size_t set" where
  "known_ids t = entry_id ` set (pending_requests_table t)"

lemma pending_iff:
  assumes "table_ok capacity (pending_requests_table t)"
  shows "pending t i = Some r \<longleftrightarrow> (\<exists>a < length (pending_requests_table t).
    entry_live (pending_requests_table t ! a) \<and> entry_id (pending_requests_table t ! a) = i \<and>
    entry_request (pending_requests_table t ! a) = r)"
    (is "_ \<longleftrightarrow> ?ex r")
proof -
  let ?T = "pending_requests_table t"
  have some: "?ex q" if "pending t i = Some q" for q
    using map_of_SomeD [OF that [unfolded pending_def]] by (auto simp: in_set_conv_nth)
  show ?thesis
  proof
    assume "?ex r"
    then obtain a where a: "a < length ?T" "entry_live (?T ! a)" "entry_id (?T ! a) = i" "entry_request (?T ! a) = r"
      by blast
    then have "(i, r) \<in> set (map (\<lambda>e. (entry_id e, entry_request e)) (filter entry_live ?T))" by force
    from weak_map_of_SomeI [OF this] obtain q where q: "pending t i = Some q" by (auto simp: pending_def)
    from some [OF q] obtain b where b: "b < length ?T" "entry_live (?T ! b)" "entry_id (?T ! b) = i" "entry_request (?T ! b) = q"
      by blast
    have "b = a" using table_ok_unique [OF assms, of b a] a b by (simp add: entry_live_def)
    with q a b show "pending t i = Some r" by simp
  qed (rule some)
qed

lemma pending_eqI:
  assumes "table_ok capacity (pending_requests_table t)" "table_ok capacity' (pending_requests_table t')"
    and "\<And>i r. (\<exists>a < length (pending_requests_table t'). entry_live (pending_requests_table t' ! a) \<and>
      entry_id (pending_requests_table t' ! a) = i \<and> entry_request (pending_requests_table t' ! a) = r) \<longleftrightarrow> f i = Some r"
  shows "pending t' = f"
proof
  fix i
  show "pending t' i = f i" using pending_iff [OF assms(2)] assms(3) by (metis option.exhaust)
qed

lemma place_loop_probe_Suc:
  "place_loop table capacity e (Suc n) (probe_at capacity i m) (of_nat m + 1) =
     (if slot_id table (probe_at capacity i m) = 0 then Some (table[unat (probe_at capacity i m) := e])
      else place_loop table capacity e n (probe_at capacity i (Suc m)) (of_nat (Suc m) + 1))"
  by (simp add: slot_id_def add.commute [of "2 :: size_t"] add.assoc)

lemma place_loop_Some:
  assumes ok: "table_ok capacity table"
  shows "place_loop table capacity e n (probe_at capacity i m) (of_nat m + 1) = Some table' \<Longrightarrow>
    \<forall>j<m. slot_id table (probe_at capacity i j) \<noteq> 0 \<Longrightarrow>
    \<exists>a. insertable capacity table i a \<and> entry_id (table ! a) = 0 \<and> table' = table[a := e]"
proof (induction n arbitrary: m)
  case (Suc n)
  let ?w = "probe_at capacity i m"
  show ?case
  proof (cases "slot_id table ?w = 0")
    case True
    then have "insertable capacity table i (unat ?w)"
      using probe_in_table [OF ok] Suc.prems(2)
      by (auto simp: insertable_def on_chain_def entry_live_def slot_id_def)
    with True Suc.prems(1) show ?thesis unfolding place_loop_probe_Suc by (auto simp: slot_id_def)
  next
    case False
    with Suc.prems have "place_loop table capacity e n (probe_at capacity i (Suc m)) (of_nat (Suc m) + 1) = Some table'"
      unfolding place_loop_probe_Suc by simp
    moreover have "\<forall>j<Suc m. slot_id table (probe_at capacity i j) \<noteq> 0" using False Suc.prems(2) by (auto simp: less_Suc_eq)
    ultimately show ?thesis by (rule Suc.IH)
  qed
qed simp

text \<open>What rehashing keeps: the live entries of the old array, added to those already placed.\<close>

definition has_live :: "pending_request_entry list \<Rightarrow> pending_request_entry \<Rightarrow> bool" where
  "has_live table e \<longleftrightarrow> e \<in> set table \<and> entry_live e"

lemma rehash_Some:
  "rehash capacity table es c = Some (table', c') \<Longrightarrow> table_ok capacity table \<Longrightarrow>
   \<forall>e \<in> set table. entry_id e \<noteq> 0 \<longrightarrow> entry_live e \<Longrightarrow>
   distinct (map entry_id (filter entry_live es)) \<Longrightarrow>
   \<forall>e \<in> set (filter entry_live es). \<forall>e' \<in> set table. entry_id e \<noteq> entry_id e' \<Longrightarrow>
   table_ok capacity table' \<and> (\<forall>e. has_live table' e \<longleftrightarrow> has_live table e \<or> has_live es e) \<and>
   live_count table' = live_count table + live_count es \<and> c' = c + of_nat (live_count es) \<and>
   (\<forall>e \<in> set table'. entry_id e \<noteq> 0 \<longrightarrow> entry_live e)"
proof (induction es arbitrary: table c)
  case Nil
  then show ?case by (simp add: has_live_def live_count_def)
next
  case (Cons e es)
  show ?case
  proof (cases "entry_live e")
    case False
    with Cons.prems have r: "rehash capacity table es c = Some (table', c')" by simp
    have "table_ok capacity table' \<and> (\<forall>x. has_live table' x \<longleftrightarrow> has_live table x \<or> has_live es x) \<and>
      live_count table' = live_count table + live_count es \<and> c' = c + of_nat (live_count es) \<and>
      (\<forall>e \<in> set table'. entry_id e \<noteq> 0 \<longrightarrow> entry_live e)"
      by (rule Cons.IH [OF r Cons.prems(2,3)]) (use Cons.prems(4,5) False in auto)
    with False show ?thesis by (auto simp: has_live_def live_count_def)
  next
    case True
    then have e0: "entry_id e \<noteq> 0" by (simp add: entry_live_def)
    obtain table1 where p: "place_loop table capacity e (place_probes capacity) (probe_at capacity (entry_id e) 0) (of_nat 0 + 1) = Some table1"
      and r: "rehash capacity table1 es (c + 1) = Some (table', c')"
      using Cons.prems(1) True by (auto split: option.splits)
    from place_loop_Some [OF Cons.prems(2) p] obtain a where
      a: "insertable capacity table (entry_id e) a" "entry_id (table ! a) = 0" "table1 = table[a := e]" by auto
    have al: "a < length table" using a(1) by (simp add: insertable_def)
    have "\<forall>e'\<in>set table. entry_id e \<noteq> entry_id e'" using Cons.prems(5) True by simp
    then have fresh: "\<forall>b < length table. entry_id (table ! b) \<noteq> entry_id e" by (metis nth_mem)
    have ok1: "table_ok capacity table1" unfolding a(3) by (rule table_ok_insert [OF Cons.prems(2) a(1) e0 fresh])
    have sub: "set table1 \<subseteq> insert e (set table)" unfolding a(3) by (rule set_update_subset_insert)
    have has: "has_live table1 x \<longleftrightarrow> has_live table x \<or> x = e" for x
    proof -
      have "x \<in> set table1" if "x \<in> set table" "entry_live x"
        using that a(2) al unfolding a(3) entry_live_def
        by (metis in_set_conv_nth length_list_update nth_list_update_neq)
      moreover have "e \<in> set table1" unfolding a(3) using al by (rule set_update_memI)
      ultimately show ?thesis using sub True by (auto simp: has_live_def)
    qed
    have cnt: "live_count table1 = live_count table + 1"
      using live_count_update [OF al, of e] a(2) True unfolding a(3) by (simp add: entry_live_def)
    have "table_ok capacity table' \<and> (\<forall>x. has_live table' x \<longleftrightarrow> has_live table1 x \<or> has_live es x) \<and>
      live_count table' = live_count table1 + live_count es \<and> c' = (c + 1) + of_nat (live_count es) \<and>
      (\<forall>e \<in> set table'. entry_id e \<noteq> 0 \<longrightarrow> entry_live e)"
    proof (rule Cons.IH [OF r ok1])
      show "\<forall>x\<in>set table1. entry_id x \<noteq> 0 \<longrightarrow> entry_live x" using sub Cons.prems(3) True by auto
      show "distinct (map entry_id (filter entry_live es))" using Cons.prems(4) True by simp
      show "\<forall>x\<in>set (filter entry_live es). \<forall>x'\<in>set table1. entry_id x \<noteq> entry_id x'"
      proof (intro ballI)
        fix x x' assume x: "x \<in> set (filter entry_live es)" "x' \<in> set table1"
        with sub have "x' = e \<or> x' \<in> set table" by auto
        then show "entry_id x \<noteq> entry_id x'" using x(1) Cons.prems(4,5) True by (auto simp: rev_image_eqI)
      qed
    qed
    then show ?thesis using has cnt True by (auto simp: has_live_def live_count_def)
  qed
qed


lemma empty_table_ok:
  assumes "6 \<le> k" "pow2 capacity k"
  shows "table_ok capacity (replicate (unat capacity) empty_entry)"
  using assms by (auto simp: table_ok_def empty_entry_def)

lemma live_ids_distinct:
  assumes "table_ok capacity table"
  shows "distinct (map entry_id (filter entry_live table))"
proof -
  have "distinct (map entry_id (filter entry_live xs))"
    if "\<And>a b. a < length xs \<Longrightarrow> b < length xs \<Longrightarrow> entry_id (xs ! a) = entry_id (xs ! b) \<Longrightarrow> entry_id (xs ! a) \<noteq> 0 \<Longrightarrow> a = b" for xs
    using that
  proof (induction xs)
    case (Cons x xs)
    have "distinct (map entry_id (filter entry_live xs))"
      by (rule Cons.IH) (use Cons.prems [of "Suc _" "Suc _"] in auto)
    moreover have "entry_id x \<notin> entry_id ` set xs" if "entry_live x"
      using that Cons.prems [of 0 "Suc _"] by (fastforce simp: in_set_conv_nth entry_live_def)
    ultimately show ?case by auto
  qed simp
  then show ?thesis using table_ok_unique [OF assms] by blast
qed

lemma resize_ok:
  assumes inv: "table_inv t" and r: "resize_pending_requests_table m t = (0, t', m')"
  shows "table_inv t' \<and> pending t' = pending t \<and> known_ids t' \<subseteq> insert 0 (known_ids t) \<and>
    pending_requests_capacity t' = 2 * pending_requests_capacity t \<and> table_generation t' = Suc (table_generation t) \<and>
    pending_requests_count t' = pending_requests_count t"
proof -
  let ?T = "pending_requests_table t" and ?C = "pending_requests_capacity t * 2"
  let ?T' = "pending_requests_table t'" and ?N = "replicate (unat (pending_requests_capacity t * 2)) empty_entry"
  have ok: "table_ok (pending_requests_capacity t) ?T" using inv by (simp add: table_inv_def)
  then obtain k where k: "6 \<le> k" "pow2 (pending_requests_capacity t) k" by (metis table_okD)
  from r have c: "\<not> ?C \<le> pending_requests_capacity t" "\<not> 1024 * 1024 < ?C"
    and rh: "rehash ?C ?N ?T 0 = Some (?T', pending_requests_count t')"
    and t': "pending_requests_capacity t' = ?C" "table_generation t' = Suc (table_generation t)"
    by (auto simp: resize_pending_requests_table_def Let_def split: if_splits option.splits prod.splits)
  have "Suc k \<le> 20"
  proof (rule ccontr)
    assume "\<not> Suc k \<le> 20"
    then have "k = 20" using k(2) by (simp add: pow2_def)
    with k(2) c(2) show False by (simp add: pow2_def)
  qed
  then have p: "pow2 ?C (Suc k)" using k(2) by (simp add: pow2_def)
  have ok0: "table_ok ?C ?N" by (rule empty_table_ok [OF _ p]) (use k in simp)
  have R: "table_ok ?C ?T' \<and> (\<forall>e. has_live ?T' e \<longleftrightarrow> has_live ?N e \<or> has_live ?T e) \<and>
    live_count ?T' = live_count ?N + live_count ?T \<and> pending_requests_count t' = 0 + of_nat (live_count ?T) \<and>
    (\<forall>e \<in> set ?T'. entry_id e \<noteq> 0 \<longrightarrow> entry_live e)"
    by (rule rehash_Some [OF rh ok0 _ live_ids_distinct [OF ok]]) (auto simp: empty_entry_def entry_live_def)
  have none: "\<not> has_live ?N e" "live_count ?N = 0" for e
    by (auto simp: has_live_def live_count_def empty_entry_def entry_live_def)
  have "pending t' = pending t"
  proof (rule pending_eqI [OF ok conjunct1 [OF R]])
    fix i r
    have ex: "(\<exists>a < length xs. entry_live (xs ! a) \<and> entry_id (xs ! a) = i \<and> entry_request (xs ! a) = r) \<longleftrightarrow>
      (\<exists>e. has_live xs e \<and> entry_id e = i \<and> entry_request e = r)" for xs
      by (auto simp: has_live_def in_set_conv_nth)
    show "(\<exists>a < length ?T'. entry_live (?T' ! a) \<and> entry_id (?T' ! a) = i \<and> entry_request (?T' ! a) = r) \<longleftrightarrow> pending t i = Some r"
      unfolding pending_iff [OF ok] ex using R none by simp
  qed
  moreover have cnt: "pending_requests_count t' = pending_requests_count t"
  proof -
    have "live_count ?T = unat (pending_requests_count t)" using inv by (simp add: table_inv_def)
    then show ?thesis using R by simp
  qed
  moreover have "unat (pending_requests_count t') = live_count ?T'" using cnt R none(2) inv by (simp add: table_inv_def)
  moreover have "known_ids t' \<subseteq> insert 0 (known_ids t)"
  proof (unfold known_ids_def, rule image_subsetI)
    fix e assume "e \<in> set ?T'"
    then have "entry_id e = 0 \<or> has_live ?T' e" using R by (auto simp: has_live_def)
    with R none(1) have "entry_id e = 0 \<or> has_live ?T e" by blast
    then show "entry_id e \<in> insert 0 (entry_id ` set ?T)" by (auto simp: has_live_def)
  qed
  ultimately show ?thesis using R t' by (simp add: table_inv_def mult.commute)
qed


text \<open>A successful insertion of a fresh id.\<close>

lemma add_ok:
  assumes inv: "table_inv t" and fresh: "i \<notin> known_ids t" and st: "req_status request \<noteq> PENDING_REQUEST_INVALID"
    and r: "mcp_client_add_pending_request_entry m t i request = (0, t', m')"
  shows "table_inv t' \<and> pending t' = (pending t)(i \<mapsto> request) \<and> known_ids t' \<subseteq> {0, i} \<union> known_ids t"
proof -
  have i0: "i \<noteq> 0" using r by (auto simp: mcp_client_add_pending_request_entry_def split: if_splits)
  obtain t1 m1 k where t1: "table_inv t1" "pending t1 = pending t" "known_ids t1 \<subseteq> insert 0 (known_ids t)"
    and f: "mcp_client_find_pending_request_entry t1 i True = Some k"
    and k: "entry_id (pending_requests_table t1 ! k) \<noteq> i"
    and t': "t' = t1\<lparr>pending_requests_table := (pending_requests_table t1)[k := \<lparr>entry_id = i, entry_request = request\<rparr>],
               pending_requests_count := pending_requests_count t1 + 1\<rparr>"
  proof -
    define load where "load = ((pending_requests_count t + 1) * 100) div pending_requests_capacity t"
    obtain rc t1 m1 where s: "(if 75 \<le> load then resize_pending_requests_table m t else (0, t, m)) = (rc, t1, m1)"
      by (metis prod_cases3)
    then have rc: "rc = 0" using r i0
      by (auto simp: mcp_client_add_pending_request_entry_def load_def Let_def split: if_splits)
    have "table_inv t1 \<and> pending t1 = pending t \<and> known_ids t1 \<subseteq> insert 0 (known_ids t)"
    proof (cases "75 \<le> load")
      case True
      with s rc have "resize_pending_requests_table m t = (0, t1, m1)" by simp
      from resize_ok [OF inv this] show ?thesis by simp
    next
      case False
      with s inv show ?thesis by auto
    qed
    moreover from r i0 s rc obtain k where "mcp_client_find_pending_request_entry t1 i True = Some k"
      "entry_id (pending_requests_table t1 ! k) \<noteq> i"
      "t' = t1\<lparr>pending_requests_table := (pending_requests_table t1)[k := \<lparr>entry_id = i, entry_request = request\<rparr>],
               pending_requests_count := pending_requests_count t1 + 1\<rparr>"
      unfolding mcp_client_add_pending_request_entry_def load_def [symmetric] Let_def
      by (auto split: if_splits option.splits)
    ultimately show thesis using that by blast
  qed
  let ?T = "pending_requests_table t1" and ?C = "pending_requests_capacity t1" and ?e = "\<lparr>entry_id = i, entry_request = request\<rparr>"
  have ok: "table_ok ?C ?T" and cnt: "unat (pending_requests_count t1) = live_count ?T"
    using t1(1) by (simp_all add: table_inv_def)
  have "find_loop ?T ?C i True (find_probes ?C) (probe_at ?C i 0) (of_nat 0 + 1) None = Some k"
    using f i0 by (simp add: mcp_client_find_pending_request_entry_def)
  from find_loop_insert [OF ok this] k have ins: "insertable ?C ?T i k" by simp
  have fr: "\<forall>b < length ?T. entry_id (?T ! b) \<noteq> i"
    using t1(3) fresh i0 by (auto simp: known_ids_def dest!: nth_mem)
  have ok': "table_ok ?C (?T[k := ?e])" by (rule table_ok_insert [OF ok]) (use ins i0 fr in simp_all)
  have kl: "k < length ?T" and dead: "\<not> entry_live (?T ! k)" using ins by (simp_all add: insertable_def)
  have live: "entry_live ?e" using i0 st by (simp add: entry_live_def)
  have c: "live_count (?T[k := ?e]) = live_count ?T + 1" using live_count_update [OF kl, of ?e] dead live by simp
  have "live_count (?T[k := ?e]) \<le> length ?T" by (simp add: live_count_def order_trans [OF length_filter_le])
  moreover obtain j where "length ?T = 2 ^ j" "j \<le> 20" using ok by (metis table_okD pow2_def)
  moreover have "(2::nat) ^ j \<le> 2 ^ 20" if "j \<le> 20" for j using that by (intro power_increasing) simp_all
  ultimately have "unat (pending_requests_count t1) + 1 < 2 ^ 64" using c cnt by fastforce
  then have "unat (pending_requests_count t1 + 1) = live_count (?T[k := ?e])"
    using unat_add_no_wrap [of "pending_requests_count t1" 1] c cnt by simp
  then have "table_inv t'" using ok' by (simp add: table_inv_def t')
  moreover have "pending t' = (pending t)(i \<mapsto> request)" unfolding t1(2) [symmetric]
  proof (rule pending_eqI [OF ok])
    show "table_ok ?C (pending_requests_table t')" using ok' by (simp add: t')
    fix j q
    have "(\<exists>a<length ?T. entry_live (?T[k := ?e] ! a) \<and> entry_id (?T[k := ?e] ! a) = j \<and> entry_request (?T[k := ?e] ! a) = q) \<longleftrightarrow>
      j = i \<and> q = request \<or> j \<noteq> i \<and> (\<exists>a<length ?T. entry_live (?T ! a) \<and> entry_id (?T ! a) = j \<and> entry_request (?T ! a) = q)"
      using kl dead live fr by (auto simp: nth_list_update split: if_splits)
    then show "(\<exists>a<length (pending_requests_table t'). entry_live (pending_requests_table t' ! a) \<and>
        entry_id (pending_requests_table t' ! a) = j \<and> entry_request (pending_requests_table t' ! a) = q) \<longleftrightarrow>
      ((pending t1)(i \<mapsto> request)) j = Some q"
      unfolding t' using pending_iff [OF ok, of j q] by auto
  qed
  moreover have "known_ids t' \<subseteq> {0, i} \<union> known_ids t"
  proof -
    have "known_ids t' \<subseteq> insert i (known_ids t1)"
      using image_mono [OF set_update_subset_insert [of ?T k ?e], of entry_id] by (simp add: known_ids_def t')
    with t1(3) show ?thesis by blast
  qed
  ultimately show ?thesis by simp
qed


text \<open>A change of a request in place, its id kept.\<close>

lemma table_ok_same_ids:
  assumes ok: "table_ok capacity table" and ids: "map entry_id table' = map entry_id table"
  shows "table_ok capacity table'"
proof -
  have len: "length table' = length table" using ids by (rule map_eq_imp_length_eq)
  have nth: "entry_id (table' ! a) = entry_id (table ! a)" if "a < length table" for a
    using arg_cong [OF ids, of "\<lambda>xs. xs ! a"] that len by simp
  have "on_chain capacity table' i a" if "on_chain capacity table i a" for i a
    using that nth probe_in_table [OF ok] by (auto simp: on_chain_def slot_id_def)
  then show ?thesis using ok unfolding table_ok_def len by (simp add: nth)
qed

lemma update_request:
  assumes inv: "table_inv t" and a: "a < length (pending_requests_table t)" "entry_live (pending_requests_table t ! a)"
    and t': "t' = t\<lparr>pending_requests_table := (pending_requests_table t)[a := (pending_requests_table t ! a)\<lparr>entry_request := r\<rparr>],
               pending_requests_count := c\<rparr>"
  shows "table_ok (pending_requests_capacity t') (pending_requests_table t') \<and> known_ids t' = known_ids t \<and>
    live_count (pending_requests_table t') =
      (if req_status r = PENDING_REQUEST_INVALID then live_count (pending_requests_table t) - 1 else live_count (pending_requests_table t)) \<and>
    pending t' = (pending t)(entry_id (pending_requests_table t ! a) :=
      (if req_status r = PENDING_REQUEST_INVALID then None else Some r))"
proof -
  let ?T = "pending_requests_table t" and ?e = "(pending_requests_table t ! a)\<lparr>entry_request := r\<rparr>"
  have ok: "table_ok (pending_requests_capacity t) ?T" using inv by (simp add: table_inv_def)
  have ids: "map entry_id (?T[a := ?e]) = map entry_id ?T" using a(1) by (simp add: map_update list_update_same_conv)
  have ok': "table_ok (pending_requests_capacity t) (?T[a := ?e])" by (rule table_ok_same_ids [OF ok ids])
  have i0: "entry_id (?T ! a) \<noteq> 0" using a(2) by (simp add: entry_live_def)
  have live: "entry_live ?e \<longleftrightarrow> req_status r \<noteq> PENDING_REQUEST_INVALID" using i0 by (simp add: entry_live_def)
  have "known_ids t' = known_ids t" unfolding known_ids_def t' by (simp flip: set_map add: ids)
  moreover have "pending t' = (pending t)(entry_id (?T ! a) := (if req_status r = PENDING_REQUEST_INVALID then None else Some r))"
  proof (rule pending_eqI [OF ok])
    show "table_ok (pending_requests_capacity t) (pending_requests_table t')" using ok' by (simp add: t')
    fix j q
    have uniq: "b = a" if "b < length ?T" "entry_id (?T ! b) = entry_id (?T ! a)" for b
      using table_ok_unique [OF ok that(1) a(1) that(2)] that(2) i0 by simp
    have "(\<exists>b<length ?T. entry_live (?T[a := ?e] ! b) \<and> entry_id (?T[a := ?e] ! b) = j \<and> entry_request (?T[a := ?e] ! b) = q) \<longleftrightarrow>
      (if j = entry_id (?T ! a) then q = r \<and> req_status r \<noteq> PENDING_REQUEST_INVALID
       else (\<exists>b<length ?T. entry_live (?T ! b) \<and> entry_id (?T ! b) = j \<and> entry_request (?T ! b) = q))"
    proof (cases "j = entry_id (?T ! a)")
      case True
      then show ?thesis using a(1) live uniq by (auto simp: nth_list_update split: if_splits)
    next
      case False
      have "?T[a := ?e] ! b = ?T ! b" if "b \<noteq> a" for b using that by simp
      moreover have "entry_id (?T[a := ?e] ! a) \<noteq> j" using False a(1) by simp
      ultimately show ?thesis using False by (metis (no_types, lifting))
    qed
    then show "(\<exists>b<length (pending_requests_table t'). entry_live (pending_requests_table t' ! b) \<and>
        entry_id (pending_requests_table t' ! b) = j \<and> entry_request (pending_requests_table t' ! b) = q) \<longleftrightarrow>
      ((pending t)(entry_id (?T ! a) := (if req_status r = PENDING_REQUEST_INVALID then None else Some r))) j = Some q"
      unfolding t' using pending_iff [OF ok, of j q] by auto
  qed
  moreover have "live_count (?T[a := ?e]) =
      (if req_status r = PENDING_REQUEST_INVALID then live_count ?T - 1 else live_count ?T)"
    using live_count_update [OF a(1), of ?e] a(2) live by auto
  ultimately show ?thesis using ok' by (simp add: t')
qed

lemma live_count_pos: "a < length table \<Longrightarrow> entry_live (table ! a) \<Longrightarrow> 0 < live_count table"
  by (auto simp: live_count_def filter_empty_conv dest: nth_mem)

lemma remove_ok:
  assumes inv: "table_inv t" and i: "i \<noteq> 0"
    and r: "mcp_client_remove_pending_request_entry t i = (rc, t', cvs)"
  shows "table_inv t' \<and> known_ids t' = known_ids t \<and> pending t' = (pending t)(i := None) \<and>
    (rc = 0 \<longleftrightarrow> pending t i \<noteq> None) \<and> rc \<in> {0, -1} \<and>
    cvs = (case pending t i of Some q \<Rightarrow> (case req_cv q of Some cv \<Rightarrow> [cv] | None \<Rightarrow> []) | None \<Rightarrow> [])"
proof -
  let ?T = "pending_requests_table t"
  have ok: "table_ok (pending_requests_capacity t) ?T" using inv by (simp add: table_inv_def)
  note find = find_entry_iff [OF inv i]
  show ?thesis
  proof (cases "\<exists>a < length ?T. entry_id (?T ! a) = i \<and> entry_live (?T ! a)")
    case False
    then have "pending t i = None" using pending_iff [OF ok, of i] by (metis not_None_eq)
    moreover have "(rc, t', cvs) = (-1, t, [])"
      using r False find i
      by (auto simp: mcp_client_remove_pending_request_entry_def entry_live_def Let_def split: option.splits if_splits)
    ultimately show ?thesis using inv by (simp add: fun_upd_idem)
  next
    case True
    then obtain a where a: "a < length ?T" "entry_id (?T ! a) = i" "entry_live (?T ! a)" by blast
    let ?q = "entry_request (?T ! a)"
    have p: "pending t i = Some ?q" using pending_iff [OF ok, of i ?q] a by blast
    have f: "mcp_client_find_pending_request_entry t i False = Some a" using find a by simp
    define d where "d = ?q\<lparr>req_status := PENDING_REQUEST_INVALID, req_cv := None\<rparr>"
    have res: "rc = 0" "cvs = (case req_cv ?q of None \<Rightarrow> [] | Some cv \<Rightarrow> [cv])"
      "t' = t\<lparr>pending_requests_table := ?T[a := (?T ! a)\<lparr>entry_request := d\<rparr>], pending_requests_count := pending_requests_count t - 1\<rparr>"
      using r f i a(3)
      by (auto simp: mcp_client_remove_pending_request_entry_def d_def entry_live_def Let_def split: if_splits)
    have d: "req_status d = PENDING_REQUEST_INVALID" by (simp add: d_def)
    have U: "table_ok (pending_requests_capacity t') (pending_requests_table t') \<and> known_ids t' = known_ids t \<and>
        live_count (pending_requests_table t') = live_count ?T - 1 \<and> pending t' = (pending t)(i := None)"
      using update_request [OF inv a(1,3) res(3)] d a(2) by simp
    have "1 \<le> pending_requests_count t"
      using live_count_pos [OF a(1,3)] inv by (simp add: table_inv_def word_le_nat_alt)
    then have "unat (pending_requests_count t - 1) = unat (pending_requests_count t) - 1" by (simp add: unat_sub)
    then have "table_inv t'" using U inv by (simp add: table_inv_def res(3))
    with U p res(1,2) show ?thesis by (simp split: option.splits)
  qed
qed


section \<open>When insertion succeeds\<close>

lemma find_loop_None:
  "find_loop table capacity i True n (probe_at capacity i m) (of_nat m + 1) fd = None \<Longrightarrow>
   fd = None \<and> (\<forall>j<n. entry_live (table ! unat (probe_at capacity i (m + j))))"
proof (induction n arbitrary: m fd)
  case (Suc n)
  let ?e = "table ! unat (probe_at capacity i m)"
  let ?fd = "if req_status (entry_request ?e) = PENDING_REQUEST_INVALID \<and> True \<and> fd = None
      then Some (unat (probe_at capacity i m)) else fd"
  have s: "entry_id ?e \<noteq> 0"
    "find_loop table capacity i True n (probe_at capacity i (Suc m)) (of_nat (Suc m) + 1) ?fd = None"
    using Suc.prems unfolding find_loop_probe_Suc Let_def by (auto simp del: probe_at.simps of_nat_Suc split: if_splits)
  from Suc.IH [OF s(2)] have "?fd = None" and rest: "\<forall>j<n. entry_live (table ! unat (probe_at capacity i (Suc m + j)))" by simp_all
  then have fd: "fd = None" "entry_live ?e" using s(1) by (auto simp: entry_live_def split: if_splits)
  have "entry_live (table ! unat (probe_at capacity i (m + j)))" if "j < Suc n" for j
    using that rest fd(2) by (cases j) auto
  with fd(1) show ?case by simp
qed simp

lemma place_loop_None:
  "place_loop table capacity e n (probe_at capacity i m) (of_nat m + 1) = None \<Longrightarrow>
   \<forall>j<n. slot_id table (probe_at capacity i (m + j)) \<noteq> 0"
proof (induction n arbitrary: m)
  case (Suc n)
  have s: "slot_id table (probe_at capacity i m) \<noteq> 0"
    "place_loop table capacity e n (probe_at capacity i (Suc m)) (of_nat (Suc m) + 1) = None"
    using Suc.prems unfolding place_loop_probe_Suc by (auto simp del: probe_at.simps of_nat_Suc split: if_splits)
  have "slot_id table (probe_at capacity i (m + j)) \<noteq> 0" if "j < Suc n" for j
    using that s(1) Suc.IH [OF s(2)] by (cases j) auto
  then show ?case by blast
qed simp

text \<open>If all probed slots satisfy \<open>P\<close>, all slots of the table but one do.\<close>

lemma probes_full:
  assumes p: "pow2 capacity k" "length table = 2 ^ k"
    and P: "\<forall>j < 2 ^ k. P (table ! unat (probe_at capacity i j))"
  shows "2 ^ k - 1 \<le> length (filter P table)"
proof -
  let ?f = "\<lambda>n. unat (probe_at capacity i n)"
  have "?f ` {..<2 ^ k - 1} \<subseteq> {a. a < length table \<and> P (table ! a)}"
    using P p(2) probe_at_less [OF p(1)] by auto
  then have "card (?f ` {..<2 ^ k - 1}) \<le> card {a. a < length table \<and> P (table ! a)}"
    by (rule card_mono [rotated]) simp
  then show ?thesis unfolding card_image [OF probe_at_inj [OF p(1)]] length_filter_conv_card by simp
qed

lemma find_insert_succeeds:
  assumes inv: "table_inv t" and i: "i \<noteq> 0" and small: "pending_requests_capacity t < 1024"
    and room: "unat (pending_requests_count t) + 1 < length (pending_requests_table t)"
  shows "mcp_client_find_pending_request_entry t i True \<noteq> None"
proof
  let ?T = "pending_requests_table t" and ?C = "pending_requests_capacity t"
  assume none: "mcp_client_find_pending_request_entry t i True = None"
  obtain k where k: "pow2 ?C k" "length ?T = 2 ^ k" using inv by (metis table_inv_def table_okD)
  have "find_loop ?T ?C i True (2 ^ k) (probe_at ?C i 0) (of_nat 0 + 1) None = None"
    using none i small pow2_unat [OF k(1)] by (simp add: mcp_client_find_pending_request_entry_def find_probes_def)
  from find_loop_None [OF this] have "\<forall>j<2 ^ k. entry_live (?T ! unat (probe_at ?C i j))" by simp
  from probes_full [OF k this] inv room k(2) show False by (simp add: table_inv_def live_count_def)
qed

lemma rehash_succeeds:
  assumes p: "pow2 capacity k" "6 \<le> k" "capacity < 1024"
  shows "table_ok capacity table \<Longrightarrow> \<forall>e \<in> set table. entry_id e \<noteq> 0 \<longrightarrow> entry_live e \<Longrightarrow>
    distinct (map entry_id (filter entry_live es)) \<Longrightarrow>
    \<forall>e \<in> set (filter entry_live es). \<forall>e' \<in> set table. entry_id e \<noteq> entry_id e' \<Longrightarrow>
    live_count table + live_count es + 1 < 2 ^ k \<Longrightarrow> rehash capacity table es c \<noteq> None"
proof (induction es arbitrary: table c)
  case (Cons e es)
  show ?case
  proof (cases "entry_live e")
    case False
    then show ?thesis using Cons.IH [OF Cons.prems(1,2)] Cons.prems(3-) by (simp add: live_count_def)
  next
    case True
    have len: "length table = 2 ^ k" using Cons.prems(1) pow2_unat [OF p(1)] by (simp add: table_ok_def)
    have "place_loop table capacity e (place_probes capacity) (probe_at capacity (entry_id e) 0) (of_nat 0 + 1) \<noteq> None"
    proof
      assume none: "place_loop table capacity e (place_probes capacity) (probe_at capacity (entry_id e) 0) (of_nat 0 + 1) = None"
      have "place_probes capacity = 2 ^ k" using p pow2_unat [OF p(1)] by (simp add: place_probes_def)
      with place_loop_None [OF none]
      have slots: "\<forall>j<2 ^ k. slot_id table (probe_at capacity (entry_id e) j) \<noteq> 0" by simp
      have "\<forall>j<2 ^ k. entry_live (table ! unat (probe_at capacity (entry_id e) j))"
        using slots Cons.prems(2) probe_in_table [OF Cons.prems(1)] by (simp add: slot_id_def)
      from probes_full [OF p(1) len this] Cons.prems(5) True show False by (simp add: live_count_def)
    qed
    then obtain table1 where
      p1: "place_loop table capacity e (place_probes capacity) (probe_at capacity (entry_id e) 0) (of_nat 0 + 1) = Some table1"
      by blast
    have one: "rehash capacity table [e] c = Some (table1, c + 1)" using p1 True by simp
    have R: "table_ok capacity table1 \<and> (\<forall>x. has_live table1 x \<longleftrightarrow> has_live table x \<or> has_live [e] x) \<and>
      live_count table1 = live_count table + live_count [e] \<and> c + 1 = c + of_nat (live_count [e]) \<and>
      (\<forall>x \<in> set table1. entry_id x \<noteq> 0 \<longrightarrow> entry_live x)"
      by (rule rehash_Some [OF one Cons.prems(1,2)]) (use Cons.prems(3,4) True in auto)
    have "rehash capacity table1 es (c + 1) \<noteq> None"
    proof (rule Cons.IH)
      show "\<forall>x\<in>set (filter entry_live es). \<forall>x'\<in>set table1. entry_id x \<noteq> entry_id x'"
      proof (intro ballI)
        fix x x' assume x: "x \<in> set (filter entry_live es)" "x' \<in> set table1"
        then have "entry_id x \<noteq> 0" by (simp add: entry_live_def)
        moreover have "x' \<in> set table \<or> x' = e \<or> entry_id x' = 0"
          using R x(2) by (auto simp: has_live_def)
        ultimately show "entry_id x \<noteq> entry_id x'"
          using x(1) Cons.prems(3,4) True by (auto simp: rev_image_eqI)
      qed
      show "live_count table1 + live_count es + 1 < 2 ^ k" using R Cons.prems(5) True by (simp add: live_count_def)
    qed (use R Cons.prems(3) True in auto)
    then show ?thesis using p1 True by simp
  qed
qed simp


lemma pending_resize_succeeds:
  assumes inv: "table_inv t" and small: "pending_requests_capacity t < 512"
  shows "\<exists>t'. resize_pending_requests_table [] t = (0, t', [])"
proof -
  let ?T = "pending_requests_table t" and ?C = "pending_requests_capacity t * 2"
  have ok: "table_ok (pending_requests_capacity t) ?T" using inv by (simp add: table_inv_def)
  then obtain k where k: "6 \<le> k" "pow2 (pending_requests_capacity t) k" "length ?T = 2 ^ k" by (metis table_okD)
  have "(2::nat) ^ k < 2 ^ 9" using small pow2_unat [OF k(2)] by (simp add: word_less_nat_alt)
  then have k9: "k < 9" by (rule power_less_imp_less_exp [rotated]) simp
  then have p: "pow2 ?C (Suc k)" using k(2) by (simp add: pow2_def)
  have c: "unat ?C = 2 ^ Suc k" by (rule pow2_unat [OF p])
  moreover have "(2::nat) ^ Suc k \<le> 2 ^ 9" using k9 by (intro power_increasing) simp_all
  ultimately have small': "?C < 1024" "\<not> 1024 * 1024 < ?C" "\<not> ?C \<le> pending_requests_capacity t"
    using pow2_unat [OF k(2)] by (simp_all add: word_less_nat_alt word_le_nat_alt)
  let ?N = "replicate (unat ?C) empty_entry"
  have n0: "live_count ?N = 0" by (simp add: live_count_def empty_entry_def entry_live_def)
  have "live_count ?T \<le> 2 ^ k" using k(3) by (metis live_count_def length_filter_le)
  moreover have "(64::nat) \<le> 2 ^ k" using power_increasing [OF k(1), of "2::nat"] by simp
  ultimately have room: "live_count ?N + live_count ?T + 1 < 2 ^ Suc k" using n0 by simp
  have "rehash ?C ?N ?T 0 \<noteq> None"
    by (rule rehash_succeeds [OF p _ small'(1) empty_table_ok [OF _ p] _ live_ids_distinct [OF ok] _ room])
      (use k(1) in \<open>auto simp: empty_entry_def entry_live_def\<close>)
  then obtain T' c' where "rehash ?C ?N ?T 0 = Some (T', c')" by auto
  with small' show ?thesis by (simp add: resize_pending_requests_table_def Let_def)
qed

lemma load_percentage:
  assumes "table_inv t"
  shows "unat ((pending_requests_count t + 1) * 100 div pending_requests_capacity t) =
    (unat (pending_requests_count t) + 1) * 100 div length (pending_requests_table t)"
proof -
  obtain k where k: "pow2 (pending_requests_capacity t) k" "length (pending_requests_table t) = 2 ^ k"
    using assms by (metis table_inv_def table_okD)
  have "unat (pending_requests_count t) \<le> 2 ^ k"
    using assms k(2) by (metis table_inv_def live_count_def length_filter_le)
  also have "\<dots> \<le> 2 ^ 20" using k(1) by (intro power_increasing) (simp_all add: pow2_def)
  finally have c: "unat (pending_requests_count t) \<le> 2 ^ 20" .
  then have one: "unat (pending_requests_count t + 1) = unat (pending_requests_count t) + 1"
    using unat_add_no_wrap [of "pending_requests_count t" 1] by simp
  then have "unat ((pending_requests_count t + 1) * 100) = (unat (pending_requests_count t) + 1) * 100"
    using unat_mult_no_wrap [of "pending_requests_count t + 1" 100] c by simp
  then show ?thesis by (simp add: unat_div_distrib k(2) pow2_unat [OF k(1)])
qed

lemma add_succeeds:
  assumes inv: "table_inv t" and i: "i \<noteq> 0" "i \<notin> known_ids t"
    and small: "pending_requests_capacity t < 1024" "unat (pending_requests_count t) < 383"
  shows "fst (mcp_client_add_pending_request_entry [] t i request) = 0"
proof -
  let ?load = "(pending_requests_count t + 1) * 100 div pending_requests_capacity t"
  obtain k where k: "6 \<le> k" "pow2 (pending_requests_capacity t) k" "length (pending_requests_table t) = 2 ^ k"
    using inv by (metis table_inv_def table_okD)
  have load: "75 \<le> ?load \<longleftrightarrow> 75 * 2 ^ k \<le> (unat (pending_requests_count t) + 1) * 100"
    using load_percentage [OF inv] k(3) by (simp add: word_le_nat_alt less_eq_div_iff_mult_less_eq)
  have k64: "(64::nat) \<le> 2 ^ k" using power_increasing [OF k(1), of "2::nat"] by simp
  obtain t1 where t1: "(if 75 \<le> ?load then resize_pending_requests_table [] t else (0, t, [])) = (0, t1, [])"
    and inv1: "table_inv t1" "known_ids t1 \<subseteq> insert 0 (known_ids t)" "pending_requests_capacity t1 < 1024"
    and room: "unat (pending_requests_count t1) + 1 < length (pending_requests_table t1)"
  proof (cases "75 \<le> ?load")
    case False
    then have "(unat (pending_requests_count t) + 1) * 100 < 75 * 2 ^ k" unfolding load by simp
    then have "unat (pending_requests_count t) + 1 < length (pending_requests_table t)" using k(3) k64 by simp
    with False inv small show thesis by (intro that [of t]) auto
  next
    case True
    then have "75 * 2 ^ k \<le> (unat (pending_requests_count t) + 1) * 100" using load by simp
    then have "75 * 2 ^ k \<le> (38300 :: nat)" using small(2) by simp
    then have lt: "(2::nat) ^ k < 2 ^ 9" by simp
    then have "pending_requests_capacity t < 512" using pow2_unat [OF k(2)] by (simp add: word_less_nat_alt)
    from pending_resize_succeeds [OF inv this] obtain t1 where r: "resize_pending_requests_table [] t = (0, t1, [])" by blast
    note R = resize_ok [OF inv r]
    obtain j where j: "pow2 (pending_requests_capacity t1) j" "length (pending_requests_table t1) = 2 ^ j"
      using R by (metis table_inv_def table_okD)
    have "k < 9" using lt by (rule power_less_imp_less_exp [rotated]) simp
    then have "pow2 (2 * pending_requests_capacity t) (Suc k)" using k(2) by (simp add: pow2_def)
    then have len: "length (pending_requests_table t1) = 2 * 2 ^ k" "unat (pending_requests_capacity t1) = 2 * 2 ^ k"
      using R j pow2_unat [of "2 * pending_requests_capacity t" "Suc k"] pow2_unat [OF j(1)] by simp_all
    have "unat (pending_requests_count t) \<le> 2 ^ k"
      using inv k(3) by (metis table_inv_def live_count_def length_filter_le)
    with True R r len lt k64 show thesis
      by (intro that [of t1]) (auto simp: word_less_nat_alt)
  qed
  have i1: "i \<notin> known_ids t1" using inv1(2) i by auto
  obtain a where a: "mcp_client_find_pending_request_entry t1 i True = Some a"
    using find_insert_succeeds [OF inv1(1) i(1) inv1(3) room] by blast
  have ok: "table_ok (pending_requests_capacity t1) (pending_requests_table t1)" using inv1(1) by (simp add: table_inv_def)
  have "find_loop (pending_requests_table t1) (pending_requests_capacity t1) i True (find_probes (pending_requests_capacity t1))
      (probe_at (pending_requests_capacity t1) i 0) (of_nat 0 + 1) None = Some a"
    using a i(1) by (simp add: mcp_client_find_pending_request_entry_def)
  from find_loop_insert [OF ok this] i1 have "entry_id (pending_requests_table t1 ! a) \<noteq> i"
    by (auto simp: insertable_def known_ids_def)
  with a t1 i(1) show ?thesis by (simp add: mcp_client_add_pending_request_entry_def)
qed


section \<open>The contract of the table\<close>

text \<open>
  What the client relies on: a finite map from ids to requests, with a lookup by id that may be used
  to change a request in place, an insertion of fresh ids, and a removal.  \<open>used\<close> are the ids that
  were ever inserted and may still occupy a slot.
\<close>

locale request_store =
  fixes inv :: "'t \<Rightarrow> bool" and content :: "'t \<Rightarrow> size_t \<rightharpoonup> pending_request" and used :: "'t \<Rightarrow> size_t set"
    and create :: 't
    and add :: "mem \<Rightarrow> 't \<Rightarrow> size_t \<Rightarrow> pending_request \<Rightarrow> int \<times> 't \<times> mem"
    and remove :: "'t \<Rightarrow> size_t \<Rightarrow> int \<times> 't \<times> nat list"
    and change :: "'t \<Rightarrow> size_t \<Rightarrow> (pending_request \<Rightarrow> pending_request) \<Rightarrow> 't option"
  assumes create_inv: "inv create" "content create = Map.empty" "used create \<subseteq> {0}"
    and add_inv: "inv t \<Longrightarrow> i \<notin> used t \<Longrightarrow> req_status r \<noteq> PENDING_REQUEST_INVALID \<Longrightarrow> add m t i r = (0, t', m') \<Longrightarrow>
      inv t' \<and> content t' = (content t)(i \<mapsto> r) \<and> used t' \<subseteq> {0, i} \<union> used t"
    and remove_inv: "inv t \<Longrightarrow> i \<noteq> 0 \<Longrightarrow> remove t i = (rc, t', cvs) \<Longrightarrow>
      inv t' \<and> content t' = (content t)(i := None) \<and> used t' = used t \<and> (rc = 0 \<longleftrightarrow> content t i \<noteq> None)"
    and change_inv: "inv t \<Longrightarrow> i \<noteq> 0 \<Longrightarrow> content t i = Some r \<Longrightarrow> req_status (f r) \<noteq> PENDING_REQUEST_INVALID \<Longrightarrow>
      \<exists>t'. change t i f = Some t' \<and> inv t' \<and> content t' = (content t)(i \<mapsto> f r) \<and> used t' = used t"
begin

text \<open>A request is found from its insertion to its removal, whatever else is inserted and removed.\<close>

lemma add_other_keeps:
  assumes "inv t" "content t j = Some q" "i \<notin> used t" "i \<noteq> j" "req_status r \<noteq> PENDING_REQUEST_INVALID" "add m t i r = (0, t', m')"
  shows "content t' j = Some q"
  using add_inv [OF assms(1,3,5,6)] assms(2,4) by simp

lemma add_remove_restores:
  assumes "inv t" "i \<notin> used t" "i \<noteq> 0" "content t i = None" "req_status r \<noteq> PENDING_REQUEST_INVALID"
    "add m t i r = (0, t1, m')" "remove t1 i = (rc, t2, cvs)"
  shows "content t2 = content t" "rc = 0"
  using add_inv [OF assms(1,2,5,6)] remove_inv [OF _ assms(3,7)] assms(4) by (auto simp: fun_upd_idem)

end

text \<open>Changing a request through the pointer that a lookup returned.\<close>

definition change_request :: "pending_table \<Rightarrow> size_t \<Rightarrow> (pending_request \<Rightarrow> pending_request) \<Rightarrow> pending_table option" where
  "change_request t i f =
     (case mcp_client_find_pending_request_entry t i False of
        None \<Rightarrow> None
      | Some a \<Rightarrow>
          (let e = pending_requests_table t ! a
           in Some (t\<lparr>pending_requests_table := (pending_requests_table t)[a := e\<lparr>entry_request := f (entry_request e)\<rparr>]\<rparr>)))"

lemma change_request_ok:
  assumes inv: "table_inv t" and i: "i \<noteq> 0" and p: "pending t i = Some r" and st: "req_status (f r) \<noteq> PENDING_REQUEST_INVALID"
  shows "\<exists>t'. change_request t i f = Some t' \<and> table_inv t' \<and> pending t' = (pending t)(i \<mapsto> f r) \<and> known_ids t' = known_ids t"
proof -
  let ?T = "pending_requests_table t"
  have ok: "table_ok (pending_requests_capacity t) ?T" using inv by (simp add: table_inv_def)
  from p obtain a where a: "a < length ?T" "entry_live (?T ! a)" "entry_id (?T ! a) = i" "entry_request (?T ! a) = r"
    using pending_iff [OF ok] by blast
  have find: "mcp_client_find_pending_request_entry t i False = Some a" using find_entry_iff [OF inv i] a by simp
  define t' where "t' = t\<lparr>pending_requests_table := ?T[a := (?T ! a)\<lparr>entry_request := f r\<rparr>], pending_requests_count := pending_requests_count t\<rparr>"
  have "change_request t i f = Some t'" using find a by (simp add: change_request_def t'_def Let_def)
  moreover have "table_inv t' \<and> pending t' = (pending t)(i \<mapsto> f r) \<and> known_ids t' = known_ids t"
    using update_request [OF inv a(1,2) t'_def] st inv a(3) by (simp add: table_inv_def t'_def)
  ultimately show ?thesis by blast
qed

section \<open>All outcomes of an insertion\<close>

lemma add_outcome:
  assumes inv: "table_inv t" and r: "mcp_client_add_pending_request_entry m t i request = (rc, t', m')" and i0: "i \<noteq> 0"
    and fresh: "i \<notin> known_ids t"
  obtains t1 where "table_inv t1" "pending t1 = pending t" "known_ids t1 \<subseteq> insert 0 (known_ids t)"
    "t1 = t \<or> table_generation t1 = Suc (table_generation t)"
    "rc = -1 \<and> t' = t1 \<or> rc = 0 \<and> (\<exists>k. k < length (pending_requests_table t1) \<and> \<not> entry_live (pending_requests_table t1 ! k) \<and>
       t' = t1\<lparr>pending_requests_table := (pending_requests_table t1)[k := \<lparr>entry_id = i, entry_request = request\<rparr>],
               pending_requests_count := pending_requests_count t1 + 1\<rparr>)"
proof -
  define load where "load = ((pending_requests_count t + 1) * 100) div pending_requests_capacity t"
  obtain rc1 t1 m1 where s: "(if 75 \<le> load then resize_pending_requests_table m t else (0, t, m)) = (rc1, t1, m1)"
    by (metis prod_cases3)
  have t1: "table_inv t1 \<and> pending t1 = pending t \<and> known_ids t1 \<subseteq> insert 0 (known_ids t) \<and>
      (t1 = t \<or> table_generation t1 = Suc (table_generation t))"
  proof (cases "75 \<le> load \<and> rc1 = 0")
    case True
    with s have z: "resize_pending_requests_table m t = (0, t1, m1)" by simp
    then have "table_generation t1 = Suc (table_generation t)"
      by (auto simp: resize_pending_requests_table_def Let_def split: if_splits option.splits prod.splits)
    with resize_ok [OF inv z] show ?thesis by simp
  next
    case False
    then have "t1 = t" using s
      by (auto simp: resize_pending_requests_table_def Let_def split: if_splits option.splits prod.splits)
    with inv show ?thesis by auto
  qed
  have "rc = -1 \<and> t' = t1 \<or> rc = 0 \<and> (\<exists>k. k < length (pending_requests_table t1) \<and> \<not> entry_live (pending_requests_table t1 ! k) \<and>
       t' = t1\<lparr>pending_requests_table := (pending_requests_table t1)[k := \<lparr>entry_id = i, entry_request = request\<rparr>],
               pending_requests_count := pending_requests_count t1 + 1\<rparr>)"
  proof (cases "rc1 = 0 \<and> (\<exists>k. mcp_client_find_pending_request_entry t1 i True = Some k \<and> entry_id (pending_requests_table t1 ! k) \<noteq> i)")
    case False
    then show ?thesis using r i0 unfolding mcp_client_add_pending_request_entry_def load_def [symmetric] Let_def s
      by (auto split: if_splits option.splits)
  next
    case True
    then obtain k where k: "rc1 = 0" "mcp_client_find_pending_request_entry t1 i True = Some k" "entry_id (pending_requests_table t1 ! k) \<noteq> i" by blast
    let ?T = "pending_requests_table t1" and ?C = "pending_requests_capacity t1"
    have ok: "table_ok ?C ?T" using t1 by (simp add: table_inv_def)
    have "find_loop ?T ?C i True (find_probes ?C) (probe_at ?C i 0) (of_nat 0 + 1) None = Some k"
      using k(2) i0 by (simp add: mcp_client_find_pending_request_entry_def)
    from find_loop_insert [OF ok this] k(3) have "insertable ?C ?T i k" by simp
    moreover have "rc = 0 \<and> t' = t1\<lparr>pending_requests_table := ?T[k := \<lparr>entry_id = i, entry_request = request\<rparr>],
               pending_requests_count := pending_requests_count t1 + 1\<rparr>"
      using r i0 k unfolding mcp_client_add_pending_request_entry_def load_def [symmetric] Let_def s by auto
    ultimately show ?thesis by (auto simp: insertable_def)
  qed
  with t1 show thesis using that by blast
qed

text \<open>Whether an insertion succeeds or not, the slots of the live requests stay, unless the table moved.\<close>

lemma add_keeps_slots:
  assumes "table_inv t" "mcp_client_add_pending_request_entry m t i request = (rc, t', m')" "i \<noteq> 0" "i \<notin> known_ids t"
    and "table_generation t' = table_generation t" "mcp_client_find_pending_request_entry t j False = Some k" "pending t j = Some q" "j \<noteq> 0"
    and "table_inv t'"
  shows "mcp_client_find_pending_request_entry t' j False = Some k"
proof -
  have ok: "table_ok (pending_requests_capacity t) (pending_requests_table t)" using assms(1) by (simp add: table_inv_def)
  have k: "k < length (pending_requests_table t)" "entry_id (pending_requests_table t ! k) = j"
    using find_entry_iff [OF assms(1,8), of k] assms(6) by auto
  have live: "entry_live (pending_requests_table t ! k)"
    using assms(7) pending_iff [OF ok, of j q] table_ok_unique [OF ok] k assms(8) by auto
  show ?thesis
  proof (rule add_outcome [OF assms(1-4)])
    fix t1 assume o: "t1 = t \<or> table_generation t1 = Suc (table_generation t)"
      "rc = -1 \<and> t' = t1 \<or> rc = 0 \<and> (\<exists>k. k < length (pending_requests_table t1) \<and> \<not> entry_live (pending_requests_table t1 ! k) \<and>
       t' = t1\<lparr>pending_requests_table := (pending_requests_table t1)[k := \<lparr>entry_id = i, entry_request = request\<rparr>],
               pending_requests_count := pending_requests_count t1 + 1\<rparr>)"
    then have "t1 = t" using assms(5) by auto
    with o(2) live k have "k < length (pending_requests_table t') \<and> entry_id (pending_requests_table t' ! k) = j"
      by (auto simp: nth_list_update)
    then show ?thesis using find_entry_iff [OF assms(9,8), of k] by blast
  qed
qed

lemma add_generation:
  "mcp_client_add_pending_request_entry m t i request = (rc, t', m') \<Longrightarrow> table_inv t \<Longrightarrow> i \<noteq> 0 \<Longrightarrow> i \<notin> known_ids t \<Longrightarrow>
   table_generation t \<le> table_generation t'"
  by (erule (2) add_outcome [rotated]) auto

lemma ids_update: "map entry_id (T[k := (T ! k)\<lparr>entry_request := r\<rparr>]) = map entry_id T"
  by (simp add: map_update list_update_same_conv) (metis list_update_beyond list_update_id length_map nth_map not_le_imp_less)

lemma remove_keeps_slots:
  assumes "mcp_client_remove_pending_request_entry t i = (rc, t', cvs)"
  shows "map entry_id (pending_requests_table t') = map entry_id (pending_requests_table t)" "table_generation t' = table_generation t"
  using assms ids_update by (auto simp: mcp_client_remove_pending_request_entry_def Let_def split: if_splits option.splits)

lemma change_keeps_slots:
  assumes "change_request t i f = Some t'"
  shows "map entry_id (pending_requests_table t') = map entry_id (pending_requests_table t)" "table_generation t' = table_generation t"
  using assms ids_update by (auto simp: change_request_def Let_def split: option.splits)

lemma same_ids_find:
  assumes "table_inv t" "table_inv t'" "map entry_id (pending_requests_table t') = map entry_id (pending_requests_table t)" "j \<noteq> 0"
  shows "mcp_client_find_pending_request_entry t' j False = mcp_client_find_pending_request_entry t j False"
proof -
  have "length (pending_requests_table t') = length (pending_requests_table t)" using assms(3) by (rule map_eq_imp_length_eq)
  moreover have "entry_id (pending_requests_table t' ! k) = entry_id (pending_requests_table t ! k)"
    if "k < length (pending_requests_table t)" for k
    using arg_cong [OF assms(3), of "\<lambda>xs. xs ! k"] that calculation by simp
  ultimately have "mcp_client_find_pending_request_entry t' j False = Some k \<longleftrightarrow> mcp_client_find_pending_request_entry t j False = Some k" for k
    unfolding find_entry_iff [OF assms(1,4)] find_entry_iff [OF assms(2,4)] by auto
  then show ?thesis by (metis not_None_eq)
qed

section \<open>The table as a request store\<close>

lemma create_ok: "table_inv pending_table_create" "pending pending_table_create = Map.empty" "known_ids pending_table_create = {0}"
proof -
  have "pow2 INITIAL_PENDING_REQUESTS_CAPACITY 6" by (simp add: pow2_def INITIAL_PENDING_REQUESTS_CAPACITY_def)
  from empty_table_ok [OF _ this] show "table_inv pending_table_create"
    by (simp add: table_inv_def pending_table_create_def live_count_def empty_entry_def entry_live_def)
  show "pending pending_table_create = Map.empty"
    by (simp add: pending_def pending_table_create_def empty_entry_def entry_live_def)
  show "known_ids pending_table_create = {0}"
    by (simp add: known_ids_def pending_table_create_def empty_entry_def INITIAL_PENDING_REQUESTS_CAPACITY_def)
qed

interpretation client_requests: request_store table_inv pending known_ids pending_table_create
  mcp_client_add_pending_request_entry mcp_client_remove_pending_request_entry change_request
proof
  show "table_inv pending_table_create" "pending pending_table_create = Map.empty" "known_ids pending_table_create \<subseteq> {0}"
    by (simp_all add: create_ok)
qed (use add_ok remove_ok change_request_ok in blast)+


section \<open>A crowded neighbourhood\<close>

text \<open>
  A table of 1024 slots with 16 waiting requests, each in the slot its id hashes to, and these the
  first 16 slots of the probe sequence of the id 1003.
\<close>

definition crowded :: "(nat \<times> size_t) list" where
  "crowded = [(745, 697), (747, 347), (750, 846), (754, 146), (759, 295), (765, 269), (772, 68), (780, 716), (789, 165), (799, 463), (810, 586), (822, 534), (835, 307), (849, 929), (864, 352), (880, 624)]"

definition waiting_entry :: "size_t \<Rightarrow> pending_request_entry" where
  "waiting_entry i = \<lparr>entry_id = i, entry_request =
     \<lparr>req_id = i, req_status = PENDING_REQUEST_WAITING, req_caller = 0, req_cv = Some 0\<rparr>\<rparr>"

definition crowded_entries :: "pending_request_entry list" where
  "crowded_entries = map (\<lambda>a. case map_of crowded a of None \<Rightarrow> empty_entry | Some i \<Rightarrow> waiting_entry i) [0..<1024]"

definition crowded_table :: pending_table where
  "crowded_table = \<lparr>pending_requests_table = crowded_entries, pending_requests_capacity = 1024,
     pending_requests_count = 16, table_generation = 4\<rparr>"

lemma crowded_hash: "\<forall>(a, i) \<in> set crowded. i \<noteq> 0 \<and> i \<noteq> 1003 \<and> unat (hash_id i 1024) = a"
  by (simp add: crowded_def hash_id_def)

lemma crowded_nth:
  assumes "a < 1024"
  shows "crowded_entries ! a = (case map_of crowded a of None \<Rightarrow> empty_entry | Some i \<Rightarrow> waiting_entry i)"
  using assms by (simp add: crowded_entries_def)

lemma crowded_cases:
  assumes "a < 1024"
  obtains "a \<notin> set (map fst crowded)" "crowded_entries ! a = empty_entry"
  | i where "a \<in> set (map fst crowded)" "crowded_entries ! a = waiting_entry i" "i \<noteq> 0" "i \<noteq> 1003" "unat (hash_id i 1024) = a"
proof (cases "map_of crowded a")
  case None
  with assms that(1) show thesis by (simp add: crowded_nth map_of_eq_None_iff)
next
  case (Some i)
  then have "(a, i) \<in> set crowded" by (rule map_of_SomeD)
  moreover from this have "a \<in> set (map fst crowded)" by force
  moreover have "i \<noteq> 0 \<and> i \<noteq> 1003 \<and> unat (hash_id i 1024) = a" using crowded_hash \<open>(a, i) \<in> set crowded\<close> by blast
  ultimately show thesis using assms Some that(2) by (simp add: crowded_nth)
qed

lemma crowded_live: "a < 1024 \<Longrightarrow> entry_live (crowded_entries ! a) \<longleftrightarrow> a \<in> set (map fst crowded)"
  by (erule crowded_cases) (simp_all add: entry_live_def waiting_entry_def empty_entry_def)

lemma crowded_home:
  "a < 1024 \<Longrightarrow> entry_id (crowded_entries ! a) \<noteq> 0 \<Longrightarrow> unat (hash_id (entry_id (crowded_entries ! a)) 1024) = a"
  by (erule crowded_cases) (simp_all add: waiting_entry_def empty_entry_def)

lemma crowded_inv: "table_inv crowded_table"
proof -
  have p: "pow2 1024 10" by (simp add: pow2_def)
  have len: "length crowded_entries = 1024" by (simp add: crowded_entries_def)
  have "on_chain 1024 crowded_entries (entry_id (crowded_entries ! a)) a"
    if "a < 1024" "entry_id (crowded_entries ! a) \<noteq> 0" for a
    unfolding on_chain_def by (rule exI [of _ 0]) (use crowded_home [OF that] in simp)
  moreover have "a = b" if "a < 1024" "b < 1024" "entry_id (crowded_entries ! a) = entry_id (crowded_entries ! b)"
      "entry_id (crowded_entries ! a) \<noteq> 0" for a b
    by (metis crowded_home that)
  moreover have "\<exists>k. 6 \<le> k \<and> pow2 1024 k" using p by (intro exI [of _ 10]) simp
  moreover have "(1024 :: nat) = unat (1024 :: size_t)" by simp
  ultimately have ok: "table_ok 1024 crowded_entries" unfolding table_ok_def len by blast
  have "{a. a < 1024 \<and> entry_live (crowded_entries ! a)} = set (map fst crowded)"
  proof -
    have "a < 1024" if "a \<in> set (map fst crowded)" for a using that by (auto simp: crowded_def)
    then show ?thesis using crowded_live by blast
  qed
  then have "live_count crowded_entries = card (set (map fst crowded))"
    unfolding live_count_def length_filter_conv_card len by simp
  also have "\<dots> = 16" by (simp add: crowded_def)
  finally show ?thesis using ok by (simp add: table_inv_def crowded_table_def)
qed

lemma crowded_probes: "\<forall>j<16. unat (probe_at 1024 1003 j) \<in> set (map fst crowded)"
proof -
  have p: "pow2 1024 10" by (simp add: pow2_def)
  have h: "unat (hash_id 1003 1024) = 745" by (simp add: hash_id_def Let_def)
  have "\<forall>j \<in> set [0..<16]. (745 + j * (j + 3) div 2) mod 1024 \<in> set (map fst crowded)"
    by (simp add: crowded_def upt_rec)
  then show ?thesis by (simp add: probe_at_triangular [OF p] h)
qed


lemma find_loop_all_live:
  "\<forall>j<n. entry_live (table ! unat (probe_at capacity i (m + j))) \<and> slot_id table (probe_at capacity i (m + j)) \<noteq> i \<Longrightarrow>
   find_loop table capacity i True n (probe_at capacity i m) (of_nat m + 1) None = None"
proof (induction n arbitrary: m)
  case (Suc n)
  have "\<forall>j<n. entry_live (table ! unat (probe_at capacity i (Suc m + j))) \<and> slot_id table (probe_at capacity i (Suc m + j)) \<noteq> i"
    using Suc.prems by (metis Suc_less_eq add_Suc add_Suc_right)
  from Suc.IH [OF this] Suc.prems [rule_format, of 0] show ?case
    unfolding find_loop_probe_Suc by (simp add: entry_live_def slot_id_def Let_def del: probe_at.simps of_nat_Suc)
qed simp

section \<open>Properties\<close>

text \<open>Claim C10.  The table of pending requests implements a finite map from ids to live requests: a lookup
  finds exactly the requests in it; adding a fresh id adds it and keeps every other request, also
  when the table is resized and rehashed on the way; removing a request takes it out, returns 0
  exactly when it was there, and destroys its condition variable.\<close>

theorem pending_table_refines:
  assumes "table_inv t" "i \<noteq> 0"
  shows "(pending t i = Some r \<longleftrightarrow> (\<exists>a < length (pending_requests_table t).
      mcp_client_find_pending_request_entry t i False = Some a \<and>
      req_status (entry_request (pending_requests_table t ! a)) \<noteq> PENDING_REQUEST_INVALID \<and>
      entry_request (pending_requests_table t ! a) = r)) \<and>
    (i \<notin> known_ids t \<and> req_status request \<noteq> PENDING_REQUEST_INVALID \<and>
       mcp_client_add_pending_request_entry m t i request = (0, t1, m1) \<longrightarrow>
     table_inv t1 \<and> pending t1 = (pending t)(i \<mapsto> request)) \<and>
    (mcp_client_remove_pending_request_entry t i = (rc, t2, cvs) \<longrightarrow>
     table_inv t2 \<and> pending t2 = (pending t)(i := None) \<and> (rc = 0 \<longleftrightarrow> pending t i \<noteq> None) \<and>
     cvs = (case pending t i of Some q \<Rightarrow> (case req_cv q of Some cv \<Rightarrow> [cv] | None \<Rightarrow> []) | None \<Rightarrow> []))"
proof (intro conjI impI)
  have ok: "table_ok (pending_requests_capacity t) (pending_requests_table t)" using assms(1) by (simp add: table_inv_def)
  show "pending t i = Some r \<longleftrightarrow> (\<exists>a < length (pending_requests_table t).
      mcp_client_find_pending_request_entry t i False = Some a \<and>
      req_status (entry_request (pending_requests_table t ! a)) \<noteq> PENDING_REQUEST_INVALID \<and>
      entry_request (pending_requests_table t ! a) = r)"
    unfolding pending_iff [OF ok] find_entry_iff [OF assms] entry_live_def using assms(2) by blast
qed (use remove_ok [OF assms] client_requests.add_inv [OF assms(1)] in blast)+

theorem pending_table_refines_witness:
  "let request = \<lparr>req_id = 7, req_status = PENDING_REQUEST_WAITING, req_caller = 3, req_cv = Some 5\<rparr>;
       t1 = fst (snd (mcp_client_add_pending_request_entry [] pending_table_create 7 request))
   in fst (mcp_client_add_pending_request_entry [] pending_table_create 7 request) = 0 \<and> pending t1 = [7 \<mapsto> request]"
proof -
  let ?r = "\<lparr>req_id = 7, req_status = PENDING_REQUEST_WAITING, req_caller = 3, req_cv = Some 5\<rparr>"
  obtain rc t1 m1 where a: "mcp_client_add_pending_request_entry [] pending_table_create 7 ?r = (rc, t1, m1)"
    by (metis prod_cases3)
  have "rc = 0"
    using add_succeeds [of pending_table_create 7 ?r] create_ok a
    by (simp add: pending_table_create_def INITIAL_PENDING_REQUESTS_CAPACITY_def)
  with pending_table_refines [of pending_table_create 7 ?r ?r "[]" t1 m1 0 t1 "[]"] create_ok a show ?thesis
    by (simp add: Let_def)
qed

text \<open>Claim C28.  While fewer than 383 requests are pending in a table of fewer than 1024 slots, adding a
  request with a fresh id succeeds unless memory runs out: the quadratic probe sequence visits all
  slots but one, so it meets a free one, and rehashing into the doubled table places every request.\<close>

theorem pending_add_succeeds:
  assumes "table_inv t" "i \<noteq> 0" "i \<notin> known_ids t" "req_status request \<noteq> PENDING_REQUEST_INVALID"
    and "pending_requests_capacity t < 1024" "unat (pending_requests_count t) < 383"
  shows "\<exists>t' m'. mcp_client_add_pending_request_entry [] t i request = (0, t', m') \<and>
    pending t' = (pending t)(i \<mapsto> request)"
proof -
  obtain rc t' m' where a: "mcp_client_add_pending_request_entry [] t i request = (rc, t', m')" by (metis prod_cases3)
  with add_succeeds [OF assms(1-3,5,6), of request] have "rc = 0" by simp
  with add_ok [OF assms(1,3,4)] a show ?thesis by blast
qed

theorem pending_add_succeeds_witness:
  "let request = \<lparr>req_id = 1, req_status = PENDING_REQUEST_WAITING, req_caller = 0, req_cv = None\<rparr>
   in \<exists>t' m'. mcp_client_add_pending_request_entry [] pending_table_create 1 request = (0, t', m') \<and>
     pending t' = [1 \<mapsto> request]"
  using pending_add_succeeds [of pending_table_create 1 "\<lparr>req_id = 1, req_status = PENDING_REQUEST_WAITING, req_caller = 0, req_cv = None\<rparr>"]
    create_ok by (simp add: Let_def pending_table_create_def INITIAL_PENDING_REQUESTS_CAPACITY_def)

text \<open>From 1024 slots on, the insertion gives up after 16 probes, although the table may be almost
  empty: in a well-formed table of 1024 slots with 16 pending requests, adding the fresh id 1003
  fails as if the table were full.\<close>

theorem pending_add_fails_at_low_load:
  "table_inv crowded_table \<and> pending_requests_count crowded_table = 16 \<and> pending_requests_capacity crowded_table = 1024 \<and>
   1003 \<notin> known_ids crowded_table \<and>
   mcp_client_add_pending_request_entry [] crowded_table 1003 request = (-1, crowded_table, [])"
proof -
  have less: "unat (probe_at 1024 1003 j) < 1024" for j using probe_at_less [of 1024 10 1003 j] by (simp add: pow2_def)
  have ids: "entry_id (crowded_entries ! a) \<noteq> 1003" if "a < 1024" for a
    by (rule crowded_cases [OF that]) (simp_all add: waiting_entry_def empty_entry_def)
  have "\<forall>j<16. entry_live (crowded_entries ! unat (probe_at 1024 1003 (0 + j))) \<and> slot_id crowded_entries (probe_at 1024 1003 (0 + j)) \<noteq> 1003"
    using crowded_probes crowded_live [OF less] ids [OF less] by (simp add: slot_id_def)
  from find_loop_all_live [OF this]
  have "mcp_client_find_pending_request_entry crowded_table 1003 True = None"
    by (simp add: mcp_client_find_pending_request_entry_def crowded_table_def find_probes_def MAX_PROBE_DISTANCE_def)
  moreover have "1003 \<notin> known_ids crowded_table"
    using ids by (auto simp: known_ids_def crowded_table_def in_set_conv_nth crowded_entries_def)
  moreover have "\<not> (75 :: size_t) \<le> 1" by (simp add: word_le_nat_alt)
  ultimately show ?thesis using crowded_inv
    by (simp add: mcp_client_add_pending_request_entry_def crowded_table_def)
qed

end
