(* ===== verification/Mcp_Client.thy ===== *)
theory Mcp_Client
  imports Mcp_Client_Table Mcp_Json_Rpc
begin

text \<open>
  The client's requests over an asynchronous transport: \<open>mcp_client_send_request\<close> and
  \<open>mcp_client_send_and_wait\<close> of \<open>src/client/mcp_client_request.c\<close> and the transport callbacks of
  \<open>src/client/mcp_client_core.c\<close>.

  A calling thread is a number.  The code between two acquisitions of \<open>pending_requests_mutex\<close> is one
  step of the thread, a callback of the transport is one step; \<open>client_step\<close> interleaves them.  The
  output parameters of the call are the entry of \<open>cl_out\<close> for the thread.  While a thread waits on its
  condition variable it keeps the pointer \<open>req_entry_wrapper\<close> into the table, a slot number with the
  generation of the array it points into.  \<open>cl_received\<close> is the history of the responses the callback has
  parsed; the program does not look at it.
\<close>

section \<open>State\<close>

record outputs =
  out_result :: "string option"
  out_code :: int
  out_message :: "string option"

definition no_outputs :: outputs where
  "no_outputs = \<lparr>out_result = None, out_code = MCP_ERROR_NONE, out_message = None\<rparr>"

datatype phase =
    Idle
  | Assigned size_t              \<comment> \<open>the request has its id\<close>
  | Added size_t                 \<comment> \<open>the request is in the table\<close>
  | Sent size_t
  | Waiting size_t nat nat       \<comment> \<open>waits; slot and generation of \<open>req_entry_wrapper\<close>\<close>
  | Finished size_t int          \<comment> \<open>returned with this status\<close>
  | Dangling size_t              \<comment> \<open>woken, with \<open>req_entry_wrapper\<close> pointing into a freed array\<close>

record client =
  cl_table :: pending_table
  cl_next_id :: size_t
  cl_out :: "nat \<Rightarrow> outputs"
  cl_phase :: "nat \<Rightarrow> phase"
  cl_received :: "response list"

definition client_create :: client where
  "client_create = \<lparr>cl_table = pending_table_create, cl_next_id = 1, cl_out = (\<lambda>_. no_outputs), cl_phase = (\<lambda>_. Idle), cl_received = []\<rparr>"

section \<open>The calling thread\<close>

text \<open>The start of \<open>mcp_client_send_request\<close>: the outputs are cleared and the id is taken.\<close>

definition begin_request :: "nat \<Rightarrow> client \<Rightarrow> client" where
  "begin_request c st = st\<lparr>cl_next_id := cl_next_id st + 1, cl_out := (cl_out st)(c := no_outputs),
     cl_phase := (cl_phase st)(c := Assigned (cl_next_id st))\<rparr>"

text \<open>The text of the request: the direct formatter, and when it fails the formatter over JSON objects.\<close>

definition client_request_text :: "json_env \<Rightarrow> mem \<Rightarrow> mem \<Rightarrow> size_t \<Rightarrow> string option \<Rightarrow> string option \<Rightarrow> string option checked" where
  "client_request_text env direct_mem m i meth params =
     (let params_to_use = (case params of Some p \<Rightarrow> p | None \<Rightarrow> ''{}'')
      in case mcp_json_format_request_direct direct_mem i meth (Some params_to_use) of
           Some request_json \<Rightarrow> Done (Some request_json)
         | None \<Rightarrow> mcp_json_format_request env m i meth (Some params_to_use))"

definition MAX_RESPONSE_SIZE :: nat where
  "MAX_RESPONSE_SIZE = 10 * 1024 * 1024"

definition finished :: "nat \<Rightarrow> size_t \<Rightarrow> int \<Rightarrow> client \<Rightarrow> client" where
  "finished c i status st = st\<lparr>cl_phase := (cl_phase st)(c := Finished i status)\<rparr>"

text \<open>\<open>mcp_client_send_and_wait\<close> up to the insertion into the table; \<open>None\<close> is a request that could not be formatted.\<close>

definition register_request :: "mem \<Rightarrow> bool \<Rightarrow> string option \<Rightarrow> nat \<Rightarrow> size_t \<Rightarrow> client \<Rightarrow> client" where
  "register_request m cond_created request_json c i st =
     (case request_json of
        None \<Rightarrow> finished c i (-1) st
      | Some request_text \<Rightarrow>
          if length request_text = 0 \<or> length request_text > MAX_RESPONSE_SIZE then finished c i (-1) st
          else if \<not> cond_created then finished c i (-1) st
          else let (add_status, t, _) = mcp_client_add_pending_request_entry m (cl_table st) i
                     \<lparr>req_id = i, req_status = PENDING_REQUEST_WAITING, req_caller = c, req_cv = Some c\<rparr>
               in if add_status \<noteq> 0 then finished c i (-1) (st\<lparr>cl_table := t\<rparr>)
                  else st\<lparr>cl_table := t, cl_phase := (cl_phase st)(c := Added i)\<rparr>)"

definition send_bytes :: "bool \<Rightarrow> nat \<Rightarrow> size_t \<Rightarrow> client \<Rightarrow> client" where
  "send_bytes send_ok c i st =
     (if send_ok then st\<lparr>cl_phase := (cl_phase st)(c := Sent i)\<rparr>
      else let (_, t, _) = mcp_client_remove_pending_request_entry (cl_table st) i
           in finished c i (-1) (st\<lparr>cl_table := t\<rparr>))"

text \<open>The error information at the end of \<open>mcp_client_send_and_wait\<close>, and the value returned.\<close>

definition report :: "mem \<Rightarrow> int \<Rightarrow> outputs \<Rightarrow> int \<times> outputs" where
  "report m final_status out =
     (if final_status = -2
      then (-1, out\<lparr>out_code := MCP_ERROR_TRANSPORT_ERROR, out_message := fst (mcp_strdup m (Some ''Request timed out''))\<rparr>)
      else if final_status \<noteq> 0
      then (-1, if out_code out \<noteq> MCP_ERROR_NONE \<and> out_message out = None
                then out\<lparr>out_message := fst (mcp_strdup m (Some ''Unknown internal error occurred''))\<rparr>
                else if out_code out = MCP_ERROR_NONE
                then out\<lparr>out_code := MCP_ERROR_INTERNAL_ERROR, out_message := fst (mcp_strdup m (Some ''Internal error processing response''))\<rparr>
                else out)
      else (0, out))"

definition reported :: "mem \<Rightarrow> nat \<Rightarrow> size_t \<Rightarrow> int \<Rightarrow> client \<Rightarrow> client" where
  "reported m c i final_status st =
     (let (status, out) = report m final_status (cl_out st c)
      in finished c i status (st\<lparr>cl_out := (cl_out st)(c := out)\<rparr>))"

text \<open>The outcome by the status of the entry in slot \<open>k\<close>, and the removal of the entry.\<close>

definition final_status_of :: "pending_request_status \<Rightarrow> int" where
  "final_status_of s = (case s of PENDING_REQUEST_COMPLETED \<Rightarrow> 0 | PENDING_REQUEST_TIMEOUT \<Rightarrow> -2 | _ \<Rightarrow> -1)"

definition conclude :: "mem \<Rightarrow> nat \<Rightarrow> size_t \<Rightarrow> nat \<Rightarrow> client \<Rightarrow> client" where
  "conclude m c i k st =
     (let final_status = final_status_of (req_status (entry_request (pending_requests_table (cl_table st) ! k)));
          (_, t, _) = mcp_client_remove_pending_request_entry (cl_table st) i
      in reported m c i final_status (st\<lparr>cl_table := t\<rparr>))"

text \<open>The entry was not found: the outcome by the output parameters.\<close>

definition conclude_missing :: "mem \<Rightarrow> nat \<Rightarrow> size_t \<Rightarrow> client \<Rightarrow> client" where
  "conclude_missing m c i st =
     reported m c i (if out_code (cl_out st c) \<noteq> MCP_ERROR_NONE then -1 else if out_result (cl_out st c) \<noteq> None then 0 else -1) st"

text \<open>The look at the table behind the sending: the thread starts to wait, or is done.\<close>

definition enter_wait :: "mem \<Rightarrow> nat \<Rightarrow> size_t \<Rightarrow> client \<Rightarrow> client" where
  "enter_wait m c i st =
     (case mcp_client_find_pending_request_entry (cl_table st) i False of
        Some k \<Rightarrow>
          (if req_status (entry_request (pending_requests_table (cl_table st) ! k)) = PENDING_REQUEST_WAITING
           then st\<lparr>cl_phase := (cl_phase st)(c := Waiting i k (table_generation (cl_table st)))\<rparr>
           else conclude m c i k st)
      | None \<Rightarrow> conclude_missing m c i st)"

definition set_status :: "nat \<Rightarrow> pending_request_status \<Rightarrow> pending_table \<Rightarrow> pending_table" where
  "set_status k s t =
     (let e = pending_requests_table t ! k
      in t\<lparr>pending_requests_table := (pending_requests_table t)[k := e\<lparr>entry_request := (entry_request e)\<lparr>req_status := s\<rparr>\<rparr>]\<rparr>)"

text \<open>
  The waiting functions of \<open>src/common/mcp_sync.c\<close> on POSIX, by what \<open>pthread_cond_wait\<close> or
  \<open>pthread_cond_timedwait\<close> returned.
\<close>

definition ETIMEDOUT :: int where
  "ETIMEDOUT = 110"

definition mcp_cond_wait :: "int \<Rightarrow> int" where
  "mcp_cond_wait ret = ret"

definition mcp_cond_timedwait :: "bool \<Rightarrow> nat \<Rightarrow> int \<Rightarrow> int" where
  "mcp_cond_timedwait clock_ok timeout_ms ret =
     (if timeout_ms = 0 then -2 else if \<not> clock_ok then -1
      else if ret = ETIMEDOUT then -2 else if ret \<noteq> 0 then -1 else 0)"

definition wait_result :: "bool \<Rightarrow> nat \<Rightarrow> int \<Rightarrow> int" where
  "wait_result clock_ok request_timeout_ms ret =
     (if request_timeout_ms > 0 then mcp_cond_timedwait clock_ok request_timeout_ms ret else mcp_cond_wait ret)"

text \<open>The end of the wait.\<close>

definition leave_wait :: "mem \<Rightarrow> int \<Rightarrow> nat \<Rightarrow> size_t \<Rightarrow> nat \<Rightarrow> nat \<Rightarrow> client \<Rightarrow> client" where
  "leave_wait m w c i k g st =
     (if g \<noteq> table_generation (cl_table st) then st\<lparr>cl_phase := (cl_phase st)(c := Dangling i)\<rparr>
      else conclude m c i k (if w = ETIMEDOUT then st\<lparr>cl_table := set_status k PENDING_REQUEST_TIMEOUT (cl_table st)\<rparr> else st))"

text \<open>
  The transports that answer synchronously, HTTP and WebSocket: the transport's \<open>receive\<close> gave
  \<open>status\<close> and the data; the result are the value returned and the outputs.
\<close>

definition receive_synchronous ::
    "json_env \<Rightarrow> mem \<Rightarrow> string \<Rightarrow> size_t \<Rightarrow> int \<Rightarrow> string option \<Rightarrow> nat \<Rightarrow> outputs \<Rightarrow> (int \<times> outputs) checked" where
  "receive_synchronous env m transport_name i status response_data response_size out =
     (case (if status = 0 \<and> response_size > 0 then response_data else None) of
        Some response \<Rightarrow>
          (case mcp_json_parse_response env response of
             Undefined \<Rightarrow> Undefined
           | Done (Some r) \<Rightarrow>
               (if resp_id r = i
                then Done (if resp_error_code r = MCP_ERROR_NONE then 0 else -1,
                           \<lparr>out_result = resp_result r, out_code = resp_error_code r, out_message = resp_error_message r\<rparr>)
                else Done (-1, out\<lparr>out_code := MCP_ERROR_INTERNAL_ERROR,
                           out_message := fst (mcp_strdup m (Some (''Response ID doesn'' @ [CHR 0x27] @ ''t match request ID'')))\<rparr>))
           | Done None \<Rightarrow>
               Done (-1, out\<lparr>out_code := MCP_ERROR_PARSE_ERROR,
                     out_message := fst (mcp_strdup m (Some ''Failed to parse response JSON''))\<rparr>))
      | None \<Rightarrow>
          Done (-1, out\<lparr>out_code := MCP_ERROR_TRANSPORT_ERROR,
                out_message := fst (mcp_strdup m (Some (take 127 (''Failed to receive '' @ transport_name @ '' response (status: '' @ decimal_int status @ '')''))))\<rparr>))"

section \<open>The callbacks\<close>

text \<open>\<open>mcp_client_receive_callback\<close> behind the parsing: the error code and the new state.\<close>

definition deliver :: "response \<Rightarrow> client \<Rightarrow> int \<times> client" where
  "deliver r st =
     (if resp_id r = 0 then (0, st)
      else case mcp_client_find_pending_request_entry (cl_table st) (resp_id r) False of
             None \<Rightarrow> (MCP_ERROR_INVALID_REQUEST, st)
           | Some k \<Rightarrow>
               (let q = entry_request (pending_requests_table (cl_table st) ! k)
                in if req_status q = PENDING_REQUEST_INVALID then (MCP_ERROR_INVALID_REQUEST, st)
                   else if req_status q = PENDING_REQUEST_WAITING
                   then (0, st\<lparr>cl_out := (cl_out st)(req_caller q :=
                                 \<lparr>out_result = resp_result r, out_code = resp_error_code r, out_message = resp_error_message r\<rparr>),
                               cl_table := set_status k (if resp_error_code r = MCP_ERROR_NONE then PENDING_REQUEST_COMPLETED
                                                         else PENDING_REQUEST_ERROR) (cl_table st)\<rparr>)
                   else (0, st)))"

definition mcp_client_receive_callback :: "json_env \<Rightarrow> string option \<Rightarrow> nat \<Rightarrow> client \<Rightarrow> (int \<times> client) checked" where
  "mcp_client_receive_callback env data data_size st =
     (case data of
        None \<Rightarrow> Done (MCP_ERROR_INVALID_PARAMS, st)
      | Some response_json \<Rightarrow>
          if data_size = 0 then Done (MCP_ERROR_INVALID_PARAMS, st)
          else case mcp_json_parse_response env response_json of
                 Undefined \<Rightarrow> Undefined
               | Done None \<Rightarrow> Done (MCP_ERROR_PARSE_ERROR, st)
               | Done (Some r) \<Rightarrow> Done (deliver r (st\<lparr>cl_received := cl_received st @ [r]\<rparr>)))"

text \<open>The loop of \<open>mcp_client_transport_error_callback\<close> over the table.\<close>

fun notify_entries ::
    "mem \<Rightarrow> pending_request_entry list \<Rightarrow> (nat \<Rightarrow> outputs) \<Rightarrow> pending_request_entry list \<times> (nat \<Rightarrow> outputs)" where
  "notify_entries m [] out = ([], out)"
| "notify_entries m (e # es) out =
     (if entry_id e = 0 \<or> req_status (entry_request e) \<noteq> PENDING_REQUEST_WAITING
      then (let (es', out') = notify_entries m es out in (e # es', out'))
      else let c = req_caller (entry_request e);
               (msg, m1) = (if out_message (out c) = None then mcp_strdup m (Some ''Transport connection error'') else (out_message (out c), m));
               (es', out') = notify_entries m1 es (out(c := (out c)\<lparr>out_code := MCP_ERROR_TRANSPORT_ERROR, out_message := msg\<rparr>))
           in (e\<lparr>entry_request := (entry_request e)\<lparr>req_status := PENDING_REQUEST_ERROR\<rparr>\<rparr> # es', out'))"

definition mcp_client_transport_error_callback :: "mem \<Rightarrow> client \<Rightarrow> client" where
  "mcp_client_transport_error_callback m st =
     (let (es, out) = notify_entries m (pending_requests_table (cl_table st)) (cl_out st)
      in st\<lparr>cl_table := (cl_table st)\<lparr>pending_requests_table := es\<rparr>, cl_out := out\<rparr>)"

section \<open>Runs\<close>

text \<open>Runs with fewer than \<open>2 ^ 64 - 1\<close> requests: the ids do not wrap.\<close>

inductive client_step :: "client \<Rightarrow> client \<Rightarrow> bool" where
  begin_step: "cl_phase st c = Idle \<or> (\<exists>i s. cl_phase st c = Finished i s) \<Longrightarrow> cl_next_id st \<noteq> -1 \<Longrightarrow> client_step st (begin_request c st)"
| register_step: "cl_phase st c = Assigned i \<Longrightarrow> client_step st (register_request m cond_created request_json c i st)"
| send_step: "cl_phase st c = Added i \<Longrightarrow> client_step st (send_bytes send_ok c i st)"
| enter_step: "cl_phase st c = Sent i \<Longrightarrow> client_step st (enter_wait m c i st)"
| leave_step: "cl_phase st c = Waiting i k g \<Longrightarrow> client_step st (leave_wait m (wait_result clock_ok timeout_ms ret) c i k g st)"
| receive_step: "mcp_client_receive_callback env data n st = Done (code, st') \<Longrightarrow> client_step st st'"
| error_step: "client_step st (mcp_client_transport_error_callback m st)"

inductive reachable :: "client \<Rightarrow> bool" where
  init: "reachable client_create"
| step: "reachable st \<Longrightarrow> client_step st st' \<Longrightarrow> reachable st'"


section \<open>The invariant\<close>

text \<open>The id of the request that a thread has in the table.\<close>

fun owns :: "phase \<Rightarrow> size_t option" where
  "owns (Added i) = Some i"
| "owns (Sent i) = Some i"
| "owns (Waiting i k g) = Some i"
| "owns (Dangling i) = Some i"
| "owns _ = None"

text \<open>The outputs are those of a successful response to the request.\<close>

definition completed_by :: "response list \<Rightarrow> size_t \<Rightarrow> outputs \<Rightarrow> bool" where
  "completed_by rs i out \<longleftrightarrow> (\<exists>r \<in> set rs. resp_id r = i \<and> resp_error_code r = MCP_ERROR_NONE \<and>
     out = \<lparr>out_result = resp_result r, out_code = MCP_ERROR_NONE, out_message = resp_error_message r\<rparr>)"

definition outputs_ok :: "response list \<Rightarrow> size_t \<Rightarrow> pending_request_status \<Rightarrow> outputs \<Rightarrow> bool" where
  "outputs_ok rs i s out \<longleftrightarrow>
     (s = PENDING_REQUEST_WAITING \<longrightarrow> out = no_outputs) \<and>
     (s = PENDING_REQUEST_COMPLETED \<longrightarrow> completed_by rs i out) \<and>
     (s = PENDING_REQUEST_ERROR \<longrightarrow> out_code out \<noteq> MCP_ERROR_NONE)"

definition table_ids_ok :: "client \<Rightarrow> bool" where
  "table_ids_ok st \<longleftrightarrow> table_inv (cl_table st) \<and> cl_next_id st \<noteq> 0 \<and> (\<forall>i \<in> known_ids (cl_table st). i < cl_next_id st)"

definition requests_ok :: "client \<Rightarrow> bool" where
  "requests_ok st \<longleftrightarrow>
     (\<forall>i r. pending (cl_table st) i = Some r \<longrightarrow> i \<noteq> 0 \<and> owns (cl_phase st (req_caller r)) = Some i \<and>
        outputs_ok (cl_received st) i (req_status r) (cl_out st (req_caller r))) \<and>
     (\<forall>c i. owns (cl_phase st c) = Some i \<longrightarrow> (\<exists>r. pending (cl_table st) i = Some r \<and> req_caller r = c))"

definition phases_ok :: "client \<Rightarrow> bool" where
  "phases_ok st \<longleftrightarrow>
     (\<forall>c i. cl_phase st c = Assigned i \<longrightarrow> i \<noteq> 0 \<and> i < cl_next_id st \<and> i \<notin> known_ids (cl_table st) \<and>
        cl_out st c = no_outputs \<and> (\<forall>d. cl_phase st d = Assigned i \<longrightarrow> d = c)) \<and>
     (\<forall>c i k g. cl_phase st c = Waiting i k g \<longrightarrow> g \<le> table_generation (cl_table st) \<and>
        (g = table_generation (cl_table st) \<longrightarrow> mcp_client_find_pending_request_entry (cl_table st) i False = Some k)) \<and>
     (\<forall>c i. cl_phase st c = Finished i 0 \<longrightarrow> completed_by (cl_received st) i (cl_out st c))"

definition client_inv :: "client \<Rightarrow> bool" where
  "client_inv st \<longleftrightarrow> table_ids_ok st \<and> requests_ok st \<and> phases_ok st"

lemma create_inv: "client_inv client_create"
  using create_ok by (simp add: client_inv_def table_ids_ok_def requests_ok_def phases_ok_def client_create_def)

lemma id_successor:
  assumes "(i :: size_t) \<noteq> -1"
  shows "i < i + 1" "i + 1 \<noteq> 0"
proof -
  have "unat i \<noteq> unat (-1 :: size_t)" using assms by (metis word_unat_eq_iff)
  then have "unat i + 1 < 2 ^ 64" using unsigned_less [of i, where ?'a = nat]
    by (simp add: unsigned_minus_1_eq_mask mask_eq_exp_minus_1)
  then have u: "unat (i + 1) = unat i + 1" using unat_add_no_wrap [of i 1] by simp
  then show "i < i + 1" by (simp add: word_less_nat_alt)
  show "i + 1 \<noteq> 0" using u by (metis add_is_0 one_neq_zero unsigned_0)
qed

lemma begin_inv:
  assumes "client_inv st" "owns (cl_phase st c) = None" "cl_next_id st \<noteq> -1"
  shows "client_inv (begin_request c st)"
proof -
  let ?n = "cl_next_id st"
  have n: "?n < ?n + 1" "?n + 1 \<noteq> 0" using id_successor [OF assms(3)] by auto
  have ids: "i < ?n + 1" if "i < ?n" for i using that n(1) by (rule order.strict_trans)
  have "table_ids_ok (begin_request c st)" using assms(1) n ids by (auto simp: client_inv_def table_ids_ok_def begin_request_def)
  moreover have "requests_ok (begin_request c st)"
    using assms(1,2) by (auto simp: client_inv_def requests_ok_def begin_request_def)
  moreover have "phases_ok (begin_request c st)"
    using assms(1,2) n ids by (auto simp: client_inv_def phases_ok_def table_ids_ok_def begin_request_def)
  ultimately show ?thesis by (simp add: client_inv_def)
qed

text \<open>The thread gives up its request: the entry is removed and the call returns.\<close>

lemma release_inv:
  assumes inv: "client_inv st" and c: "owns (cl_phase st c) = Some i"
    and r: "mcp_client_remove_pending_request_entry (cl_table st) i = (rc, t', cvs)"
    and ok: "s = 0 \<longrightarrow> completed_by (cl_received st) i out"
  shows "client_inv (st\<lparr>cl_table := t', cl_out := (cl_out st)(c := out), cl_phase := (cl_phase st)(c := Finished i s)\<rparr>)"
proof -
  let ?t = "cl_table st"
  have ti: "table_inv ?t" using inv by (simp add: client_inv_def table_ids_ok_def)
  obtain q where q: "pending ?t i = Some q" "req_caller q = c" "i \<noteq> 0"
    using inv c unfolding client_inv_def requests_ok_def by blast
  have R: "table_inv t'" "known_ids t' = known_ids ?t" "pending t' = (pending ?t)(i := None)" using remove_ok [OF ti q(3) r] by auto
  have own: "owns (cl_phase st (req_caller r)) = Some j" if "pending ?t j = Some r" for j r
    using inv that unfolding client_inv_def requests_ok_def by blast
  have find: "mcp_client_find_pending_request_entry t' j False = mcp_client_find_pending_request_entry ?t j False" if "j \<noteq> 0" for j
    by (rule same_ids_find [OF ti R(1) remove_keeps_slots(1) [OF r] that])
  have nz: "j \<noteq> 0" if "cl_phase st d = Waiting j k g" for d j k g
  proof -
    have "owns (cl_phase st d) = Some j" using that by simp
    then show ?thesis using inv unfolding client_inv_def requests_ok_def by blast
  qed
  define st' where "st' = st\<lparr>cl_table := t', cl_out := (cl_out st)(c := out), cl_phase := (cl_phase st)(c := Finished i s)\<rparr>"
  have st': "cl_table st' = t'" "cl_out st' = (cl_out st)(c := out)" "cl_phase st' = (cl_phase st)(c := Finished i s)"
    "cl_received st' = cl_received st" "cl_next_id st' = cl_next_id st" by (simp_all add: st'_def)
  have "table_ids_ok st'" using inv R by (simp add: client_inv_def table_ids_ok_def st')
  moreover have "requests_ok st'" unfolding requests_ok_def
  proof (intro conjI allI impI)
    fix j r assume "pending (cl_table st') j = Some r"
    then have j: "j \<noteq> i" "pending ?t j = Some r" using R(3) by (auto simp: st' split: if_splits)
    have "req_caller r \<noteq> c" using own [OF j(2)] c j(1) by auto
    then show "j \<noteq> 0" "owns (cl_phase st' (req_caller r)) = Some j"
      "outputs_ok (cl_received st') j (req_status r) (cl_out st' (req_caller r))"
      using inv j(2) unfolding client_inv_def requests_ok_def st' by simp_all
  next
    fix d j assume "owns (cl_phase st' d) = Some j"
    then have d: "d \<noteq> c" "owns (cl_phase st d) = Some j" by (auto simp: st' split: if_splits)
    then obtain r where r: "pending ?t j = Some r" "req_caller r = d" using inv unfolding client_inv_def requests_ok_def by blast
    have "j \<noteq> i" using r q d(1) by auto
    then show "\<exists>r. pending (cl_table st') j = Some r \<and> req_caller r = d" using r R(3) by (simp add: st')
  qed
  moreover have "phases_ok st'"
    using inv ok R(2) remove_keeps_slots(2) [OF r] find nz unfolding client_inv_def phases_ok_def st' by auto
  ultimately show ?thesis unfolding client_inv_def st'_def by blast
qed


text \<open>A request gets another status, and its caller other outputs, through the pointer a lookup gave.\<close>

lemma set_status_change:
  "mcp_client_find_pending_request_entry t i False = Some k \<Longrightarrow>
   change_request t i (\<lambda>r. r\<lparr>req_status := s\<rparr>) = Some (set_status k s t)"
  by (simp add: change_request_def set_status_def Let_def)

lemma status_inv:
  assumes inv: "client_inv st" and f: "mcp_client_find_pending_request_entry (cl_table st) i False = Some k"
    and q: "pending (cl_table st) i = Some q" and s: "s \<noteq> PENDING_REQUEST_INVALID" "outputs_ok (cl_received st) i s out"
  shows "client_inv (st\<lparr>cl_table := set_status k s (cl_table st), cl_out := (cl_out st)(req_caller q := out)\<rparr>)"
proof -
  let ?t = "cl_table st" and ?t' = "set_status k s (cl_table st)"
  have ti: "table_inv ?t" using inv by (simp add: client_inv_def table_ids_ok_def)
  have i0: "i \<noteq> 0" using inv q unfolding client_inv_def requests_ok_def by blast
  obtain t' where c: "change_request ?t i (\<lambda>r. r\<lparr>req_status := s\<rparr>) = Some t'" "table_inv t'"
    "pending t' = (pending ?t)(i \<mapsto> q\<lparr>req_status := s\<rparr>)" "known_ids t' = known_ids ?t"
    using change_request_ok [OF ti i0 q, of "\<lambda>r. r\<lparr>req_status := s\<rparr>"] s(1) by auto
  have t': "t' = ?t'" using set_status_change [OF f, of s] c(1) by simp
  have own: "owns (cl_phase st (req_caller r)) = Some j" if "pending ?t j = Some r" for j r
    using inv that unfolding client_inv_def requests_ok_def by blast
  have find: "mcp_client_find_pending_request_entry ?t' j False = mcp_client_find_pending_request_entry ?t j False" if "j \<noteq> 0" for j
    by (rule same_ids_find [OF ti c(2) [unfolded t'] change_keeps_slots(1) [OF c(1) [unfolded t']] that])
  have nz: "j \<noteq> 0" if "cl_phase st d = Waiting j k g" for d j k g
  proof -
    have "owns (cl_phase st d) = Some j" using that by simp
    then show ?thesis using inv unfolding client_inv_def requests_ok_def by blast
  qed
  define st' where "st' = st\<lparr>cl_table := ?t', cl_out := (cl_out st)(req_caller q := out)\<rparr>"
  have st': "cl_table st' = t'" "cl_out st' = (cl_out st)(req_caller q := out)" "cl_phase st' = cl_phase st"
    "cl_received st' = cl_received st" "cl_next_id st' = cl_next_id st" by (simp_all add: st'_def t')
  have "table_ids_ok st'" using inv c by (simp add: client_inv_def table_ids_ok_def st')
  moreover have "requests_ok st'" unfolding requests_ok_def
  proof (intro conjI allI impI)
    fix j r assume p: "pending (cl_table st') j = Some r"
    show "j \<noteq> 0" "owns (cl_phase st' (req_caller r)) = Some j"
      using p i0 own q inv unfolding client_inv_def requests_ok_def st' c(3) by (auto split: if_splits)
    show "outputs_ok (cl_received st') j (req_status r) (cl_out st' (req_caller r))"
    proof (cases "j = i")
      case True
      then show ?thesis using p s(2) by (auto simp: st' c(3))
    next
      case False
      then have j: "pending ?t j = Some r" using p by (simp add: st' c(3))
      have "req_caller r \<noteq> req_caller q" using own [OF j] own [OF q] False by auto
      then show ?thesis using inv j unfolding client_inv_def requests_ok_def st' by simp
    qed
  next
    fix d j assume "owns (cl_phase st' d) = Some j"
    then obtain r where "pending ?t j = Some r" "req_caller r = d" using inv unfolding client_inv_def requests_ok_def st' by blast
    then show "\<exists>r. pending (cl_table st') j = Some r \<and> req_caller r = d" using q by (auto simp: st' c(3))
  qed
  moreover have "phases_ok st'"
  proof -
    have o: "d \<noteq> req_caller q" if "owns (cl_phase st d) = None" for d using own [OF q] that by auto
    show ?thesis
      using inv c(4) change_keeps_slots(2) [OF c(1)] find nz o unfolding client_inv_def phases_ok_def st' t' by (auto 0 3)
  qed
  ultimately show ?thesis unfolding client_inv_def st'_def by blast
qed

lemma received_inv:
  assumes "client_inv st"
  shows "client_inv (st\<lparr>cl_received := cl_received st @ [r]\<rparr>)"
proof -
  have "completed_by (rs @ [r]) i out" if "completed_by rs i out" for rs i out using that by (auto simp: completed_by_def)
  moreover from this have "outputs_ok (rs @ [r]) i s out" if "outputs_ok rs i s out" for rs i s out
    using that by (auto simp: outputs_ok_def)
  ultimately show ?thesis using assms by (auto simp: client_inv_def table_ids_ok_def requests_ok_def phases_ok_def)
qed

lemma find_live:
  assumes "client_inv st" "mcp_client_find_pending_request_entry (cl_table st) i False = Some k" "i \<noteq> 0"
  shows "req_status (entry_request (pending_requests_table (cl_table st) ! k)) \<noteq> PENDING_REQUEST_INVALID \<longleftrightarrow>
      pending (cl_table st) i = Some (entry_request (pending_requests_table (cl_table st) ! k))"
proof -
  let ?t = "cl_table st"
  have ti: "table_inv ?t" using assms(1) by (simp add: client_inv_def table_ids_ok_def)
  then have ok: "table_ok (pending_requests_capacity ?t) (pending_requests_table ?t)" by (simp add: table_inv_def)
  have k: "k < length (pending_requests_table ?t)" "entry_id (pending_requests_table ?t ! k) = i"
    using find_entry_iff [OF ti assms(3), of k] assms(2) by auto
  show ?thesis unfolding pending_iff [OF ok] using k assms(3) table_ok_unique [OF ok] by (auto simp: entry_live_def)
qed

lemma receive_inv:
  assumes "client_inv st" "mcp_client_receive_callback env data n st = Done (code, st')"
  shows "client_inv st'"
proof (cases "\<exists>r. st' = snd (deliver r (st\<lparr>cl_received := cl_received st @ [r]\<rparr>))")
  case False
  then have "st' = st" using assms(2)
    by (auto simp: mcp_client_receive_callback_def split: option.splits checked.splits if_splits)
       (metis snd_conv)
  then show ?thesis using assms(1) by simp
next
  case True
  then obtain r where r: "st' = snd (deliver r (st\<lparr>cl_received := cl_received st @ [r]\<rparr>))" by blast
  define s1 where "s1 = st\<lparr>cl_received := cl_received st @ [r]\<rparr>"
  have inv: "client_inv s1" unfolding s1_def by (rule received_inv [OF assms(1)])
  show ?thesis
  proof (cases "\<exists>k. resp_id r \<noteq> 0 \<and> mcp_client_find_pending_request_entry (cl_table s1) (resp_id r) False = Some k \<and>
      req_status (entry_request (pending_requests_table (cl_table s1) ! k)) = PENDING_REQUEST_WAITING")
    case False
    then have "st' = s1" unfolding r s1_def [symmetric] by (auto simp: deliver_def Let_def split: option.splits)
    then show ?thesis using inv by simp
  next
    case True
    then obtain k where k: "resp_id r \<noteq> 0" "mcp_client_find_pending_request_entry (cl_table s1) (resp_id r) False = Some k"
      "req_status (entry_request (pending_requests_table (cl_table s1) ! k)) = PENDING_REQUEST_WAITING" by blast
    have q: "pending (cl_table s1) (resp_id r) = Some (entry_request (pending_requests_table (cl_table s1) ! k))"
      using find_live [OF inv k(2,1)] k(3) by simp
    have "r \<in> set (cl_received s1)" by (simp add: s1_def)
    then have o: "outputs_ok (cl_received s1) (resp_id r) (if resp_error_code r = 0 then PENDING_REQUEST_COMPLETED else PENDING_REQUEST_ERROR)
        \<lparr>out_result = resp_result r, out_code = resp_error_code r, out_message = resp_error_message r\<rparr>"
      by (auto simp: outputs_ok_def completed_by_def)
    have "st' = s1\<lparr>cl_table := set_status k (if resp_error_code r = 0 then PENDING_REQUEST_COMPLETED else PENDING_REQUEST_ERROR) (cl_table s1),
        cl_out := (cl_out s1)(req_caller (entry_request (pending_requests_table (cl_table s1) ! k)) :=
          \<lparr>out_result = resp_result r, out_code = resp_error_code r, out_message = resp_error_message r\<rparr>)\<rparr>"
      using k unfolding r s1_def [symmetric] by (simp add: deliver_def Let_def)
    then show ?thesis using status_inv [OF inv k(2) q _ o] by simp
  qed
qed


text \<open>A lost connection.\<close>

definition notified :: "pending_request_entry \<Rightarrow> pending_request_entry" where
  "notified e = (if entry_id e = 0 \<or> req_status (entry_request e) \<noteq> PENDING_REQUEST_WAITING then e
     else e\<lparr>entry_request := (entry_request e)\<lparr>req_status := PENDING_REQUEST_ERROR\<rparr>\<rparr>)"

lemma notify_entries_spec:
  assumes "notify_entries m es out = (es', out')"
  shows "es' = map notified es"
    "out' c = out c \<and> (\<forall>e \<in> set es. notified e \<noteq> e \<longrightarrow> req_caller (entry_request e) \<noteq> c) \<or> out_code (out' c) \<noteq> MCP_ERROR_NONE \<and>
     (\<exists>e \<in> set es. notified e \<noteq> e \<and> req_caller (entry_request e) = c)"
  using assms
proof (induction es arbitrary: m out es' out')
  case (Cons e es)
  have neq: "notified e \<noteq> e \<longleftrightarrow> entry_id e \<noteq> 0 \<and> req_status (entry_request e) = PENDING_REQUEST_WAITING"
    by (cases e; cases "entry_request e") (auto simp: notified_def)
  {
    case 1
    show ?case
    proof (cases "entry_id e = 0 \<or> req_status (entry_request e) \<noteq> PENDING_REQUEST_WAITING")
      case True
      then show ?thesis using 1 Cons.IH(1) by (auto simp: notified_def split: prod.splits)
    next
      case False
      then show ?thesis using 1 Cons.IH(1) by (auto simp: notified_def Let_def split: prod.splits)
    qed
  next
    case 2
    show ?case
    proof (cases "notified e = e")
      case True
      then have t: "entry_id e = 0 \<or> req_status (entry_request e) \<noteq> PENDING_REQUEST_WAITING" using neq by blast
      then obtain es1 where "notify_entries m es out = (es1, out')" using 2 by (auto split: prod.splits)
      from Cons.IH(2) [OF this] True show ?thesis by auto
    next
      case False
      then have f: "\<not> (entry_id e = 0 \<or> req_status (entry_request e) \<noteq> PENDING_REQUEST_WAITING)" using neq by blast
      then obtain m1 es1 msg where n: "notify_entries m1 es (out(req_caller (entry_request e) :=
          (out (req_caller (entry_request e)))\<lparr>out_code := MCP_ERROR_TRANSPORT_ERROR, out_message := msg\<rparr>)) = (es1, out')"
        using 2 by (auto simp: Let_def split: prod.splits)
      from Cons.IH(2) [OF n] False show ?thesis by (auto split: if_splits)
    qed
  }
qed auto

lemma bex_nth: "(\<exists>e \<in> set xs. P e) \<longleftrightarrow> (\<exists>a < length xs. P (xs ! a))"
  by (metis in_set_conv_nth)

lemma error_inv:
  assumes inv: "client_inv st"
  shows "client_inv (mcp_client_transport_error_callback m st)"
proof -
  let ?t = "cl_table st"
  obtain es out where n: "notify_entries m (pending_requests_table ?t) (cl_out st) = (es, out)" by fastforce
  note es = notify_entries_spec(1) [OF n] and out = notify_entries_spec(2) [OF n]
  define t' where "t' = ?t\<lparr>pending_requests_table := map notified (pending_requests_table ?t)\<rparr>"
  define st' where "st' = st\<lparr>cl_table := t', cl_out := out\<rparr>"
  have st'_eq: "mcp_client_transport_error_callback m st = st'"
    by (simp add: mcp_client_transport_error_callback_def n es t'_def st'_def)
  have nid: "entry_id (notified e) = entry_id e" "entry_live (notified e) = entry_live e"
    "req_caller (entry_request (notified e)) = req_caller (entry_request e)" for e
    by (simp_all add: notified_def entry_live_def)
  have ti: "table_inv ?t" using inv by (simp add: client_inv_def table_ids_ok_def)
  have ok: "table_ok (pending_requests_capacity ?t) (pending_requests_table ?t)" using ti by (simp add: table_inv_def)
  have ids: "map entry_id (pending_requests_table t') = map entry_id (pending_requests_table ?t)" by (simp add: t'_def comp_def nid)
  have ok': "table_ok (pending_requests_capacity ?t) (pending_requests_table t')" by (rule table_ok_same_ids [OF ok ids])
  have "live_count (pending_requests_table t') = live_count (pending_requests_table ?t)"
    by (simp add: live_count_def t'_def filter_map comp_def nid)
  then have ti': "table_inv t'" using ti ok' by (simp add: table_inv_def t'_def)
  have known: "known_ids t' = known_ids ?t" unfolding known_ids_def using ids by (metis set_map)
  have slot: "pending t' i = Some r \<longleftrightarrow> (\<exists>e \<in> set (pending_requests_table ?t). entry_live e \<and> entry_id e = i \<and> entry_request (notified e) = r)" for i r
    unfolding pending_iff [OF ok'] bex_nth by (simp add: t'_def nid cong: conj_cong)
  have slot0: "pending ?t i = Some r \<longleftrightarrow> (\<exists>e \<in> set (pending_requests_table ?t). entry_live e \<and> entry_id e = i \<and> entry_request e = r)" for i r
    unfolding pending_iff [OF ok] bex_nth ..
  have old: "i \<noteq> 0 \<and> owns (cl_phase st (req_caller r)) = Some i \<and> outputs_ok (cl_received st) i (req_status r) (cl_out st (req_caller r))"
    if "pending ?t i = Some r" for i r using inv that unfolding client_inv_def requests_ok_def by blast
  have find: "mcp_client_find_pending_request_entry t' j False = mcp_client_find_pending_request_entry ?t j False" if "j \<noteq> 0" for j
    by (rule same_ids_find [OF ti ti' ids that])
  have st': "cl_table st' = t'" "cl_out st' = out" "cl_phase st' = cl_phase st"
    "cl_received st' = cl_received st" "cl_next_id st' = cl_next_id st" "table_generation t' = table_generation ?t"
    by (simp_all add: st'_def t'_def)
  text \<open>The callers of the entries that change have a request in the table.\<close>
  have changed: "\<exists>i. owns (cl_phase st (req_caller (entry_request e))) = Some i"
    if "e \<in> set (pending_requests_table ?t)" "notified e \<noteq> e" for e
  proof -
    have "entry_live e" using that(2) by (auto simp: notified_def entry_live_def split: if_splits)
    then have "pending ?t (entry_id e) = Some (entry_request e)" using slot0 that(1) by blast
    from old [OF this] show ?thesis by blast
  qed
  have "table_ids_ok st'" using inv ti' known by (simp add: client_inv_def table_ids_ok_def st')
  moreover have "requests_ok st'" unfolding requests_ok_def
  proof (intro conjI allI impI)
    fix j r assume "pending (cl_table st') j = Some r"
    then obtain e where e: "e \<in> set (pending_requests_table ?t)" "entry_live e" "entry_id e = j" "entry_request (notified e) = r"
      unfolding st' slot by blast
    have p: "pending ?t j = Some (entry_request e)" using slot0 e by blast
    have c: "req_caller r = req_caller (entry_request e)" using e(4) nid(3) by metis
    show "j \<noteq> 0" "owns (cl_phase st' (req_caller r)) = Some j" using old [OF p] c by (simp_all add: st')
    show "outputs_ok (cl_received st') j (req_status r) (cl_out st' (req_caller r))"
    proof (cases "notified e = e")
      case False
      then have "req_status r = PENDING_REQUEST_ERROR" using e(4) by (auto simp: notified_def split: if_splits)
      moreover have "out_code (out (req_caller r)) \<noteq> 0" using out [of "req_caller r"] e(1) False c by auto
      ultimately show ?thesis by (simp add: outputs_ok_def st')
    next
      case True
      have "out (req_caller r) = cl_out st (req_caller r)"
      proof -
        have "req_caller (entry_request e') \<noteq> req_caller r" if e': "e' \<in> set (pending_requests_table ?t)" "notified e' \<noteq> e'" for e'
        proof
          assume same: "req_caller (entry_request e') = req_caller r"
          have "entry_live e'" using e'(2) by (auto simp: notified_def entry_live_def split: if_splits)
          then have p': "pending ?t (entry_id e') = Some (entry_request e')" using slot0 e'(1) by blast
          have "entry_id e' = j" using old [OF p'] old [OF p] same c by simp
          then have "entry_request e' = entry_request e" using p p' by simp
          then show False using True e'(2) e(3) \<open>entry_id e' = j\<close> by (cases e; cases e') (auto simp: notified_def split: if_splits)
        qed
        then show ?thesis using out [of "req_caller r"] by blast
      qed
      then show ?thesis using old [OF p] True e(4) by (simp add: st')
    qed
  next
    fix d j assume "owns (cl_phase st' d) = Some j"
    then obtain r where r: "pending ?t j = Some r" "req_caller r = d" using inv unfolding client_inv_def requests_ok_def st' by blast
    then obtain e where "e \<in> set (pending_requests_table ?t)" "entry_live e" "entry_id e = j" "entry_request e = r" using slot0 by blast
    then have "pending t' j = Some (entry_request (notified e))" "req_caller (entry_request (notified e)) = d" using slot nid(3) r(2) by auto
    then show "\<exists>r. pending (cl_table st') j = Some r \<and> req_caller r = d" by (auto simp: st')
  qed
  moreover have "phases_ok st'"
  proof -
    have same: "out d = cl_out st d" if "owns (cl_phase st d) = None" for d
      using out [of d] changed that by force
    have nz: "j \<noteq> 0" if "cl_phase st d = Waiting j k g" for d j k g
    proof -
      have "owns (cl_phase st d) = Some j" using that by simp
      then show ?thesis using inv unfolding client_inv_def requests_ok_def by blast
    qed
    show ?thesis using inv known find nz same unfolding client_inv_def phases_ok_def st' by (auto 0 3)
  qed
  ultimately show ?thesis unfolding st'_eq client_inv_def by blast
qed


text \<open>The request goes into the table.\<close>

lemma register_inv:
  assumes inv: "client_inv st" and c: "cl_phase st c = Assigned i"
  shows "client_inv (register_request m cond_created request_json c i st)"
proof -
  let ?t = "cl_table st" and ?q = "\<lparr>req_id = i, req_status = PENDING_REQUEST_WAITING, req_caller = c, req_cv = Some c\<rparr>"
  have a: "i \<noteq> 0" "i < cl_next_id st" "i \<notin> known_ids ?t" "cl_out st c = no_outputs" "\<And>d. cl_phase st d = Assigned i \<Longrightarrow> d = c"
    using inv c unfolding client_inv_def phases_ok_def by blast+
  have ti: "table_inv ?t" using inv by (simp add: client_inv_def table_ids_ok_def)
  have own: "req_caller r \<noteq> c" if "pending ?t j = Some r" for j r
  proof
    assume "req_caller r = c"
    moreover have "owns (cl_phase st (req_caller r)) = Some j" using inv that unfolding client_inv_def requests_ok_def by blast
    ultimately show False using c by simp
  qed
  have quit: "client_inv (finished c i (-1) st)"
  proof -
    have "requests_ok (finished c i (-1) st)"
      using inv c own unfolding client_inv_def requests_ok_def by (auto simp: finished_def split: if_splits)
    moreover have "phases_ok (finished c i (-1) st)"
      using inv c unfolding client_inv_def phases_ok_def by (auto simp: finished_def split: if_splits)
    ultimately show ?thesis using inv by (simp add: client_inv_def table_ids_ok_def finished_def)
  qed
  obtain rc t' m' where r: "mcp_client_add_pending_request_entry m ?t i ?q = (rc, t', m')" by (metis prod_cases3)
  have gen: "table_generation ?t \<le> table_generation t'" by (rule add_generation [OF r ti a(1,3)])
  have T: "table_inv t' \<and> known_ids t' \<subseteq> {0, i} \<union> known_ids ?t \<and>
      (rc = 0 \<and> pending t' = (pending ?t)(i \<mapsto> ?q) \<or> rc = -1 \<and> pending t' = pending ?t \<and> known_ids t' \<subseteq> insert 0 (known_ids ?t))"
  proof (cases "rc = 0")
    case True
    then show ?thesis using add_ok [OF ti a(3), of ?q m t' m'] r by simp
  next
    case False
    show ?thesis by (rule add_outcome [OF ti r a(1,3)]) (use False in auto)
  qed
  have slots: "mcp_client_find_pending_request_entry t' j False = Some k"
    if "cl_phase st d = Waiting j k g" "g = table_generation t'" for d j k g
  proof -
    have "owns (cl_phase st d) = Some j" using that(1) by simp
    then obtain q where q: "pending ?t j = Some q" "j \<noteq> 0" using inv unfolding client_inv_def requests_ok_def by blast
    have "g \<le> table_generation ?t" "g = table_generation ?t \<longrightarrow> mcp_client_find_pending_request_entry ?t j False = Some k"
      using inv that(1) unfolding client_inv_def phases_ok_def by blast+
    then show ?thesis using add_keeps_slots [OF ti r a(1,3) _ _ q] T gen that(2) by auto
  qed
  have waits: "g \<le> table_generation t'" if "cl_phase st d = Waiting j k g" for d j k g
    using inv that gen unfolding client_inv_def phases_ok_def by (meson order_trans)
  have others: "j \<notin> known_ids t'" if "cl_phase st d = Assigned j" "d \<noteq> c" for d j
  proof -
    have "j \<noteq> i" "j \<noteq> 0" "j \<notin> known_ids ?t" using inv a(5) that unfolding client_inv_def phases_ok_def by blast+
    then show ?thesis using T by blast
  qed
  have fresh: "pending ?t i = None"
  proof (rule ccontr)
    assume "pending ?t i \<noteq> None"
    then obtain r where "pending ?t i = Some r" by blast
    moreover have "table_ok (pending_requests_capacity ?t) (pending_requests_table ?t)" using ti by (simp add: table_inv_def)
    ultimately obtain k where "k < length (pending_requests_table ?t)" "entry_id (pending_requests_table ?t ! k) = i"
      by (metis pending_iff)
    then have "i \<in> known_ids ?t" unfolding known_ids_def using nth_mem by blast
    then show False using a(3) by simp
  qed
  define st1 where "st1 = st\<lparr>cl_table := t', cl_phase := (cl_phase st)(c := if rc = 0 then Added i else Finished i (-1))\<rparr>"
  have st1: "cl_table st1 = t'" "cl_out st1 = cl_out st" "cl_phase st1 = (cl_phase st)(c := if rc = 0 then Added i else Finished i (-1))"
    "cl_received st1 = cl_received st" "cl_next_id st1 = cl_next_id st" by (simp_all add: st1_def)
  have "table_ids_ok st1"
  proof -
    have "0 < cl_next_id st" using inv by (simp add: client_inv_def table_ids_ok_def word_neq_0_conv)
    then show ?thesis using inv T a(2) by (auto simp: client_inv_def table_ids_ok_def st1)
  qed
  moreover have "requests_ok st1"
  proof -
    have "j \<noteq> 0 \<and> owns (cl_phase st1 (req_caller r)) = Some j \<and> outputs_ok (cl_received st1) j (req_status r) (cl_out st1 (req_caller r))"
      if p: "pending t' j = Some r" for j r
    proof (cases "pending ?t j = Some r")
      case True
      then show ?thesis using inv own [OF True] unfolding client_inv_def requests_ok_def by (simp add: st1)
    next
      case False
      then have "rc = 0" "j = i" "r = ?q" using T p by (auto split: if_splits)
      then show ?thesis using a(1,4) by (simp add: st1 outputs_ok_def)
    qed
    moreover have "\<exists>r. pending t' j = Some r \<and> req_caller r = d" if o: "owns (cl_phase st1 d) = Some j" for d j
    proof (cases "d = c")
      case True
      then have "rc = 0" "j = i" using o by (auto simp: st1 split: if_splits)
      then show ?thesis using T True by auto
    next
      case False
      then have "owns (cl_phase st d) = Some j" using o by (simp add: st1)
      then obtain r where "pending ?t j = Some r" "req_caller r = d" using inv unfolding client_inv_def requests_ok_def by blast
      then show ?thesis using T fresh by auto
    qed
    ultimately show ?thesis unfolding requests_ok_def st1(1) by blast
  qed
  moreover have "phases_ok st1"
    using inv slots waits others unfolding client_inv_def phases_ok_def st1 by (auto split: if_splits)
  ultimately have "client_inv st1" by (simp add: client_inv_def)
  then show ?thesis using quit r by (auto simp: register_request_def finished_def st1_def split: option.splits)
qed

text \<open>The end of a call.\<close>

lemma report_zero: "fst (report m f out) = 0 \<Longrightarrow> f = 0 \<and> snd (report m f out) = out"
  by (auto simp: report_def split: if_splits)

lemma found_request:
  assumes inv: "client_inv st" and q: "pending (cl_table st) i = Some q"
    and k: "mcp_client_find_pending_request_entry (cl_table st) i False = Some k"
  shows "k < length (pending_requests_table (cl_table st))" "entry_request (pending_requests_table (cl_table st) ! k) = q"
proof -
  let ?t = "cl_table st"
  have ti: "table_inv ?t" using inv by (simp add: client_inv_def table_ids_ok_def)
  then have ok: "table_ok (pending_requests_capacity ?t) (pending_requests_table ?t)" by (simp add: table_inv_def)
  have i: "i \<noteq> 0" using inv q unfolding client_inv_def requests_ok_def by blast
  have kl: "k < length (pending_requests_table ?t)" "entry_id (pending_requests_table ?t ! k) = i"
    using find_entry_iff [OF ti i, of k] k by auto
  show "entry_request (pending_requests_table ?t ! k) = q"
    using q i table_ok_unique [OF ok] kl unfolding pending_iff [OF ok] by metis
  show "k < length (pending_requests_table ?t)" by (rule kl(1))
qed

lemma conclude_inv:
  assumes inv: "client_inv st" and c: "owns (cl_phase st c) = Some i"
    and k: "mcp_client_find_pending_request_entry (cl_table st) i False = Some k"
  shows "client_inv (conclude m c i k st)"
proof -
  let ?t = "cl_table st" and ?q = "entry_request (pending_requests_table (cl_table st) ! k)"
  obtain q where q: "pending ?t i = Some q" "req_caller q = c" "i \<noteq> 0"
    using inv c unfolding client_inv_def requests_ok_def by blast
  have qk: "q = ?q" using found_request(2) [OF inv q(1) k] by simp
  obtain rc t' cvs where r: "mcp_client_remove_pending_request_entry ?t i = (rc, t', cvs)" by (metis prod_cases3)
  let ?f = "final_status_of (req_status ?q)"
  obtain s out where rep: "report m ?f (cl_out st c) = (s, out)" by fastforce
  have "s = 0 \<longrightarrow> completed_by (cl_received st) i out"
  proof
    assume "s = 0"
    then have "?f = 0" "out = cl_out st c" using report_zero [of m ?f "cl_out st c"] rep by auto
    moreover from this have "req_status q = PENDING_REQUEST_COMPLETED"
      unfolding qk by (auto simp: final_status_of_def split: pending_request_status.splits)
    ultimately show "completed_by (cl_received st) i out"
      using inv q unfolding client_inv_def requests_ok_def outputs_ok_def by auto
  qed
  from release_inv [OF inv c r this] show ?thesis
    using r rep by (simp add: conclude_def reported_def finished_def Let_def)
qed

lemma phase_inv:
  assumes inv: "client_inv st" and "owns (cl_phase st c) = Some i" "owns p = Some i"
    and "\<And>j k g. p = Waiting j k g \<Longrightarrow> g = table_generation (cl_table st) \<and> mcp_client_find_pending_request_entry (cl_table st) j False = Some k"
  shows "client_inv (st\<lparr>cl_phase := (cl_phase st)(c := p)\<rparr>)"
proof -
  have np: "p \<noteq> Assigned j" "p \<noteq> Finished j s" for j s using assms(3) by auto
  have "requests_ok (st\<lparr>cl_phase := (cl_phase st)(c := p)\<rparr>)"
    using inv assms(2,3) unfolding client_inv_def requests_ok_def by (auto split: if_splits)
  moreover have "phases_ok (st\<lparr>cl_phase := (cl_phase st)(c := p)\<rparr>)"
    using inv assms(4) np unfolding client_inv_def phases_ok_def by auto
  ultimately show ?thesis using inv by (simp add: client_inv_def table_ids_ok_def)
qed

text \<open>A thread that has its request in the table finds it.\<close>

lemma owner_finds:
  assumes inv: "client_inv st" and c: "owns (cl_phase st c) = Some i"
  obtains k where "mcp_client_find_pending_request_entry (cl_table st) i False = Some k"
proof -
  let ?t = "cl_table st"
  obtain q where q: "pending ?t i = Some q" "i \<noteq> 0" using inv c unfolding client_inv_def requests_ok_def by blast
  have ti: "table_inv ?t" using inv by (simp add: client_inv_def table_ids_ok_def)
  then have "table_ok (pending_requests_capacity ?t) (pending_requests_table ?t)" by (simp add: table_inv_def)
  from q(1) [unfolded pending_iff [OF this]] show thesis using that find_entry_iff [OF ti q(2)] by blast
qed

lemma step_inv:
  assumes "client_step st st'" "client_inv st"
  shows "client_inv st'"
  using assms
proof (cases rule: client_step.cases)
  case (begin_step c)
  then show ?thesis using begin_inv [OF assms(2), of c] by auto
next
  case (register_step c i m cond_created request_json)
  then show ?thesis using register_inv [OF assms(2)] by simp
next
  case (send_step c i send_ok)
  obtain rc t' cvs where r: "mcp_client_remove_pending_request_entry (cl_table st) i = (rc, t', cvs)" by (metis prod_cases3)
  have o: "owns (cl_phase st c) = Some i" using send_step by simp
  have "client_inv (finished c i (-1) (st\<lparr>cl_table := t'\<rparr>))"
    using release_inv [OF assms(2) o r, of "-1" "cl_out st c"] by (simp add: finished_def)
  moreover have "client_inv (st\<lparr>cl_phase := (cl_phase st)(c := Sent i)\<rparr>)" by (rule phase_inv [OF assms(2) o]) auto
  ultimately show ?thesis using send_step r by (simp add: send_bytes_def)
next
  case (enter_step c i m)
  have o: "owns (cl_phase st c) = Some i" using enter_step by simp
  obtain k where k: "mcp_client_find_pending_request_entry (cl_table st) i False = Some k" using owner_finds [OF assms(2) o] .
  have "client_inv (st\<lparr>cl_phase := (cl_phase st)(c := Waiting i k (table_generation (cl_table st)))\<rparr>)"
    by (rule phase_inv [OF assms(2) o]) (use k in auto)
  then show ?thesis using enter_step k conclude_inv [OF assms(2) o k] by (simp add: enter_wait_def)
next
  case (leave_step c i k g m clock_ok timeout_ms ret)
  have o: "owns (cl_phase st c) = Some i" using leave_step by simp
  show ?thesis
  proof (cases "g = table_generation (cl_table st)")
    case False
    then show ?thesis using leave_step phase_inv [OF assms(2) o, of "Dangling i"] by (simp add: leave_wait_def)
  next
    case True
    then have k: "mcp_client_find_pending_request_entry (cl_table st) i False = Some k"
      using assms(2) leave_step unfolding client_inv_def phases_ok_def by blast
    obtain q where q: "pending (cl_table st) i = Some q" "req_caller q = c" using assms(2) o unfolding client_inv_def requests_ok_def by blast
    let ?s = "st\<lparr>cl_table := set_status k PENDING_REQUEST_TIMEOUT (cl_table st)\<rparr>"
    have ti: "client_inv ?s"
      using status_inv [OF assms(2) k q(1), of PENDING_REQUEST_TIMEOUT "cl_out st c"] q(2) by (simp add: outputs_ok_def)
    have os: "owns (cl_phase ?s c) = Some i" using o by simp
    have ks: "mcp_client_find_pending_request_entry (cl_table ?s) i False = Some k"
    proof -
      have "i \<noteq> 0" using assms(2) q(1) unfolding client_inv_def requests_ok_def by blast
      moreover have "table_inv (cl_table st)" "table_inv (cl_table ?s)"
        using assms(2) ti unfolding client_inv_def table_ids_ok_def by blast+
      ultimately show ?thesis
        using same_ids_find [of "cl_table st" "cl_table ?s" i] change_keeps_slots(1) [OF set_status_change [OF k]] k by simp
    qed
    show ?thesis using leave_step True conclude_inv [OF assms(2) o k] conclude_inv [OF ti os ks] by (simp add: leave_wait_def)
  qed
next
  case (receive_step env data n code)
  then show ?thesis using receive_inv [OF assms(2)] by blast
next
  case (error_step m)
  then show ?thesis using error_inv [OF assms(2)] by simp
qed

lemma reachable_inv: "reachable st \<Longrightarrow> client_inv st"
  by (induction rule: reachable.induct) (auto intro: create_inv step_inv)


section \<open>Concrete runs\<close>

text \<open>What a successful insertion does to the array.\<close>

lemma add_moves:
  assumes "mcp_client_add_pending_request_entry m t i request = (0, t', m')"
  shows "if 75 \<le> (pending_requests_count t + 1) * 100 div pending_requests_capacity t
    then table_generation t' = Suc (table_generation t)
    else table_generation t' = table_generation t \<and> pending_requests_capacity t' = pending_requests_capacity t \<and>
      pending_requests_count t' = pending_requests_count t + 1"
  using assms unfolding mcp_client_add_pending_request_entry_def resize_pending_requests_table_def
  by (auto simp: Let_def split: if_splits option.splits prod.splits)

lemma registered:
  assumes inv: "client_inv st" and c: "cl_phase st c = Assigned i"
    and "pending_requests_capacity (cl_table st) < 1024" "unat (pending_requests_count (cl_table st)) < 383"
  obtains t' m' where "mcp_client_add_pending_request_entry [] (cl_table st) i
      \<lparr>req_id = i, req_status = PENDING_REQUEST_WAITING, req_caller = c, req_cv = Some c\<rparr> = (0, t', m')"
    "register_request [] True (Some ''x'') c i st = st\<lparr>cl_table := t', cl_phase := (cl_phase st)(c := Added i)\<rparr>"
proof -
  let ?q = "\<lparr>req_id = i, req_status = PENDING_REQUEST_WAITING, req_caller = c, req_cv = Some c\<rparr>"
  obtain rc t' m' where r: "mcp_client_add_pending_request_entry [] (cl_table st) i ?q = (rc, t', m')" by (metis prod_cases3)
  have "i \<noteq> 0" "i \<notin> known_ids (cl_table st)" using inv c unfolding client_inv_def phases_ok_def by blast+
  with add_succeeds [of "cl_table st" i ?q] inv assms(3,4) r have "rc = 0" by (simp add: client_inv_def table_ids_ok_def)
  with r that show thesis by (simp add: register_request_def MAX_RESPONSE_SIZE_def)
qed

lemma reachable_begin:
  assumes "reachable st" "cl_phase st c = Idle" "cl_next_id st \<noteq> -1"
  shows "reachable (begin_request c st)" "cl_phase (begin_request c st) c = Assigned (cl_next_id st)"
  using reachable.step [OF assms(1) client_step.begin_step [of st c]] assms(2,3) by (simp_all add: begin_request_def)

text \<open>A first thread waits, \<open>n\<close> requests are in the table.\<close>

definition crowd :: "nat \<Rightarrow> client \<Rightarrow> bool" where
  "crowd n st \<longleftrightarrow> reachable st \<and> (\<exists>k. cl_phase st 0 = Waiting 1 k 0) \<and> (\<forall>c \<ge> n. cl_phase st c = Idle) \<and>
     cl_next_id st = of_nat n + 1 \<and> pending_requests_capacity (cl_table st) = 64 \<and>
     pending_requests_count (cl_table st) = of_nat n \<and> table_generation (cl_table st) = 0"

lemma sent_state:
  obtains st q where "reachable st" "cl_phase st = (\<lambda>_. Idle)(0 := Sent 1)" "pending (cl_table st) 1 = Some q" "req_status q = PENDING_REQUEST_WAITING"
    "cl_next_id st = 2" "pending_requests_capacity (cl_table st) = 64" "pending_requests_count (cl_table st) = 1" "table_generation (cl_table st) = 0"
proof -
  let ?s = "begin_request 0 client_create" and ?q = "\<lparr>req_id = 1, req_status = PENDING_REQUEST_WAITING, req_caller = 0, req_cv = Some 0\<rparr>"
  have s: "reachable ?s" "cl_phase ?s 0 = Assigned 1"
    using reachable_begin [OF reachable.init, of 0] by (simp_all add: client_create_def)
  have t: "cl_table ?s = pending_table_create" by (simp add: begin_request_def client_create_def)
  obtain t' m' where a: "mcp_client_add_pending_request_entry [] pending_table_create 1 ?q = (0, t', m')"
    "register_request [] True (Some ''x'') 0 1 ?s = ?s\<lparr>cl_table := t', cl_phase := (cl_phase ?s)(0 := Added 1)\<rparr>"
    using registered [OF reachable_inv [OF s(1)] s(2)] unfolding t
    by (auto simp: pending_table_create_def INITIAL_PENDING_REQUESTS_CAPACITY_def)
  have "\<not> (75 :: size_t) \<le> 1" by (simp add: word_le_nat_alt)
  with add_moves [OF a(1)] have g: "table_generation t' = 0" "pending_requests_capacity t' = 64" "pending_requests_count t' = 1"
    by (simp_all add: pending_table_create_def INITIAL_PENDING_REQUESTS_CAPACITY_def)
  have p: "pending t' 1 = Some ?q" using add_ok [OF _ _ _ a(1)] create_ok by auto
  let ?s1 = "register_request [] True (Some ''x'') 0 1 ?s"
  have r1: "reachable ?s1" by (rule reachable.step [OF s(1) client_step.register_step [OF s(2)]])
  have ph: "cl_phase ?s1 0 = Added 1" unfolding a(2) by simp
  let ?s2 = "send_bytes True 0 1 ?s1"
  have "reachable ?s2" by (rule reachable.step [OF r1 client_step.send_step [OF ph]])
  then show thesis using that [of ?s2 ?q] g p unfolding a(2) by (simp add: send_bytes_def begin_request_def client_create_def)
qed

lemma waiting_state:
  obtains st k q where "reachable st" "cl_phase st = (\<lambda>_. Idle)(0 := Waiting 1 k 0)" "pending (cl_table st) 1 = Some q"
    "req_status q = PENDING_REQUEST_WAITING" "cl_next_id st = 2" "pending_requests_capacity (cl_table st) = 64"
    "pending_requests_count (cl_table st) = 1" "table_generation (cl_table st) = 0"
proof -
  obtain st q where st: "reachable st" "cl_phase st = (\<lambda>_. Idle)(0 := Sent 1)" "pending (cl_table st) 1 = Some q" "req_status q = PENDING_REQUEST_WAITING"
    "cl_next_id st = 2" "pending_requests_capacity (cl_table st) = 64" "pending_requests_count (cl_table st) = 1" "table_generation (cl_table st) = 0"
    using sent_state by blast
  have o: "owns (cl_phase st 0) = Some 1" using st(2) by simp
  obtain k where k: "mcp_client_find_pending_request_entry (cl_table st) 1 False = Some k" using owner_finds [OF reachable_inv [OF st(1)] o] .
  have q: "entry_request (pending_requests_table (cl_table st) ! k) = q"
    using found_request [OF reachable_inv [OF st(1)] st(3) k] by simp
  have "reachable (enter_wait [] 0 1 st)" by (rule reachable.step [OF st(1) client_step.enter_step]) (use st(2) in simp)
  then show thesis using k q st by (intro that [of "enter_wait [] 0 1 st" k q]) (simp_all add: enter_wait_def)
qed

lemma crowd_one: "\<exists>st. crowd 1 st"
  by (rule waiting_state) (auto simp: crowd_def)

lemma crowd_grows:
  assumes "crowd n st" "1 \<le> n" "n \<le> 47"
  obtains st' q where "reachable st'" "cl_phase st' = (cl_phase st)(n := Added (of_nat n + 1))" "cl_next_id st' = of_nat n + 2"
    "pending (cl_table st') (of_nat n + 1) = Some q" "req_status q = PENDING_REQUEST_WAITING"
    "if n = 47 then table_generation (cl_table st') = 1
     else table_generation (cl_table st') = 0 \<and> pending_requests_capacity (cl_table st') = 64 \<and> pending_requests_count (cl_table st') = of_nat n + 1"
proof -
  let ?i = "of_nat n + 1 :: size_t" and ?s = "begin_request n st"
  have u: "unat (of_nat n :: size_t) = n" using assms(3) by (simp add: unat_of_nat take_bit_nat_eq_self)
  have st: "reachable st" "cl_phase st n = Idle" "cl_next_id st = ?i" "pending_requests_capacity (cl_table st) = 64"
    "pending_requests_count (cl_table st) = of_nat n" "table_generation (cl_table st) = 0"
    using assms(1) by (auto simp: crowd_def)
  have u1: "unat ?i = n + 1" using unat_add_no_wrap [of "of_nat n :: size_t" 1] u assms(3) by simp
  have "?i \<noteq> -1"
  proof
    assume "?i = -1"
    with u1 have "unat (-1 :: size_t) = n + 1" by (rule subst [where P = "\<lambda>x. unat x = n + 1", rotated])
    then show False using assms(3) by (simp add: unsigned_minus_1_eq_mask mask_eq_exp_minus_1)
  qed
  then have s: "reachable ?s" "cl_phase ?s n = Assigned ?i" using reachable_begin [OF st(1,2)] st(3) by simp_all
  have t: "cl_table ?s = cl_table st" by (simp add: begin_request_def)
  obtain t' m' where a: "mcp_client_add_pending_request_entry [] (cl_table st) ?i
      \<lparr>req_id = ?i, req_status = PENDING_REQUEST_WAITING, req_caller = n, req_cv = Some n\<rparr> = (0, t', m')"
    "register_request [] True (Some ''x'') n ?i ?s = ?s\<lparr>cl_table := t', cl_phase := (cl_phase ?s)(n := Added ?i)\<rparr>"
    using registered [OF reachable_inv [OF s(1)] s(2)] u assms(3) st(4,5) unfolding t by auto
  have "unat (?i * 100) = (n + 1) * 100" using unat_mult_no_wrap [of ?i 100] u1 assms(3) by simp
  then have "75 \<le> ?i * 100 div 64 \<longleftrightarrow> 75 \<le> (n + 1) * 100 div 64" by (simp add: word_le_nat_alt unat_div_distrib)
  also have "\<dots> \<longleftrightarrow> 75 * 64 \<le> (n + 1) * 100" by (rule less_eq_div_iff_mult_less_eq) simp
  also have "\<dots> \<longleftrightarrow> n = 47" using assms(3) by auto
  finally have "75 \<le> ?i * 100 div 64 \<longleftrightarrow> n = 47" .
  with add_moves [OF a(1)] st(4-6) have m: "if n = 47 then table_generation t' = 1
     else table_generation t' = 0 \<and> pending_requests_capacity t' = 64 \<and> pending_requests_count t' = ?i"
    by simp
  have "reachable (register_request [] True (Some ''x'') n ?i ?s)" by (rule reachable.step [OF s(1) client_step.register_step [OF s(2)]])
  moreover have "pending t' ?i = Some \<lparr>req_id = ?i, req_status = PENDING_REQUEST_WAITING, req_caller = n, req_cv = Some n\<rparr>"
  proof -
    have "table_inv (cl_table st)" "?i \<notin> known_ids (cl_table st)"
      using reachable_inv [OF s(1)] s(2) t unfolding client_inv_def phases_ok_def table_ids_ok_def by auto
    then show ?thesis using add_ok [OF _ _ _ a(1)] by simp
  qed
  ultimately show thesis using m that [of "register_request [] True (Some ''x'') n ?i ?s"] st(3) unfolding a(2)
    by (simp add: begin_request_def add.assoc)
qed

lemma crowd_reached: "1 \<le> n \<Longrightarrow> n \<le> 47 \<Longrightarrow> \<exists>st. crowd n st"
proof (induction n rule: nat_induct_at_least)
  case base
  show ?case by (rule crowd_one)
next
  case (Suc n)
  then obtain st where st: "crowd n st" by auto
  obtain st' where "reachable st'" "cl_phase st' = (cl_phase st)(n := Added (of_nat n + 1))" "cl_next_id st' = of_nat n + 2"
    "table_generation (cl_table st') = 0" "pending_requests_capacity (cl_table st') = 64" "pending_requests_count (cl_table st') = of_nat n + 1"
    using crowd_grows [OF st] Suc by auto
  then have "crowd (Suc n) st'" using st Suc.hyps by (auto simp: crowd_def ac_simps)
  then show ?case by blast
qed

text \<open>The seventh request has been sent.\<close>

lemma seventh_sent:
  obtains st q where "reachable st" "cl_phase st 6 = Sent 7" "pending (cl_table st) 7 = Some q" "req_status q = PENDING_REQUEST_WAITING"
proof -
  obtain st where "crowd 6 st" using crowd_reached [of 6] by auto
  then obtain st' q where st': "reachable st'" "cl_phase st' = (cl_phase st)(6 := Added 7)" "pending (cl_table st') 7 = Some q"
    "req_status q = PENDING_REQUEST_WAITING" by (rule crowd_grows) simp_all
  have "reachable (send_bytes True 6 7 st')" by (rule reachable.step [OF st'(1) client_step.send_step]) (use st'(2) in simp)
  then show thesis using st' that [of "send_bytes True 6 7 st'" q] by (simp add: send_bytes_def)
qed

section \<open>A response arrives\<close>

lemma response_arrives:
  assumes inv: "client_inv st" and c: "cl_phase st c = Sent i" and q: "pending (cl_table st) i = Some q" "req_status q = PENDING_REQUEST_WAITING"
    and r: "resp_id r = i" "resp_error_code r = MCP_ERROR_NONE"
  obtains st1 where "deliver r (st\<lparr>cl_received := cl_received st @ [r]\<rparr>) = (0, st1)" "cl_phase st1 = cl_phase st"
    "cl_phase (enter_wait m c i st1) c = Finished i 0"
    "cl_out (enter_wait m c i st1) c = \<lparr>out_result = resp_result r, out_code = MCP_ERROR_NONE, out_message = resp_error_message r\<rparr>"
    "pending (cl_table (enter_wait m c i st1)) i = None"
proof -
  let ?out = "\<lparr>out_result = resp_result r, out_code = MCP_ERROR_NONE, out_message = resp_error_message r\<rparr>"
  let ?sr = "st\<lparr>cl_received := cl_received st @ [r]\<rparr>" and ?t = "cl_table st"
  have o: "owns (cl_phase st c) = Some i" using c by simp
  obtain k where k: "mcp_client_find_pending_request_entry ?t i False = Some k" using owner_finds [OF inv o] .
  note fr = found_request [OF inv q(1) k]
  have i: "i \<noteq> 0" "req_caller q = c"
    using inv o q(1) unfolding client_inv_def requests_ok_def by (blast, metis option.inject)
  define st1 where "st1 = ?sr\<lparr>cl_table := set_status k PENDING_REQUEST_COMPLETED ?t, cl_out := (cl_out st)(c := ?out)\<rparr>"
  have d: "deliver r ?sr = (0, st1)" using k fr(2) q(2) r i by (simp add: deliver_def st1_def Let_def)
  have inv1: "client_inv st1"
    using status_inv [OF received_inv [OF inv, of r], of i k q PENDING_REQUEST_COMPLETED ?out] k q r i
    by (auto simp: st1_def outputs_ok_def completed_by_def)
  have ti: "table_inv ?t" "table_inv (cl_table st1)" using inv inv1 by (simp_all add: client_inv_def table_ids_ok_def)
  have k1: "mcp_client_find_pending_request_entry (cl_table st1) i False = Some k"
    using same_ids_find [OF ti _ i(1)] change_keeps_slots(1) [OF set_status_change [OF k]] k by (simp add: st1_def)
  have s: "req_status (entry_request (pending_requests_table (cl_table st1) ! k)) = PENDING_REQUEST_COMPLETED"
    using fr(1) by (simp add: st1_def set_status_def Let_def)
  obtain rc t' cvs where rem: "mcp_client_remove_pending_request_entry (cl_table st1) i = (rc, t', cvs)" by (metis prod_cases3)
  have "enter_wait m c i st1 = finished c i 0 (st1\<lparr>cl_table := t'\<rparr>)"
    using k1 s rem by (simp add: enter_wait_def conclude_def reported_def report_def final_status_of_def finished_def st1_def)
  moreover have "pending t' i = None" using remove_ok [OF ti(2) i(1) rem] by simp
  ultimately show thesis using that [OF d] by (simp add: finished_def st1_def)
qed

lemma response_text_nonempty: "mcp_json_parse_response env response = Done (Some r) \<Longrightarrow> response \<noteq> []"
  by (auto simp: mcp_json_parse_response_def mcp_json_parse_def skip_whitespace_def parse_value.simps is_digit_def)

lemma finished_state: "\<exists>st. reachable st \<and> cl_phase st 0 = Finished 1 0"
proof -
  obtain st q where st: "reachable st" "cl_phase st = (\<lambda>_. Idle)(0 := Sent 1)" "pending (cl_table st) 1 = Some q" "req_status q = PENDING_REQUEST_WAITING"
    using sent_state by blast
  obtain reply r where reply: "mcp_json_parse_response env_int reply = Done (Some r)" "resp_id r = 1" "resp_error_code r = MCP_ERROR_NONE"
    using success_response_read [OF env_int(1,2) _ env_int(3), of 1] by auto
  have c: "cl_phase st 0 = Sent 1" using st(2) by simp
  obtain st1 where d: "deliver r (st\<lparr>cl_received := cl_received st @ [r]\<rparr>) = (0, st1)" "cl_phase st1 = cl_phase st"
    "cl_phase (enter_wait [] 0 1 st1) 0 = Finished 1 0"
    using response_arrives [OF reachable_inv [OF st(1)] c st(3,4) reply(2,3)] by blast
  have "mcp_client_receive_callback env_int (Some reply) 1 st = Done (0, st1)"
    using reply(1) d(1) by (simp add: mcp_client_receive_callback_def)
  then have "reachable st1" by (rule reachable.step [OF st(1) client_step.receive_step])
  then have "reachable (enter_wait [] 0 1 st1)" by (rule reachable.step [OF _ client_step.enter_step]) (use c d(2) in simp)
  with d(3) show ?thesis by blast
qed

section \<open>A wait ends without a response\<close>

lemma wait_ends_waiting:
  assumes inv: "client_inv st" and c: "cl_phase st c = Waiting i k g" "g = table_generation (cl_table st)"
    and q: "pending (cl_table st) i = Some q" "req_status q = PENDING_REQUEST_WAITING" and w: "w \<noteq> ETIMEDOUT"
  shows "cl_phase (leave_wait m w c i k g st) c = Finished i (-1)"
    "out_code (cl_out (leave_wait m w c i k g st) c) = MCP_ERROR_INTERNAL_ERROR"
    "pending (cl_table (leave_wait m w c i k g st)) i = None"
proof -
  have k: "mcp_client_find_pending_request_entry (cl_table st) i False = Some k"
    using inv c unfolding client_inv_def phases_ok_def by blast
  have i: "i \<noteq> 0" "cl_out st (req_caller q) = no_outputs" "owns (cl_phase st (req_caller q)) = Some i"
    using inv q unfolding client_inv_def requests_ok_def outputs_ok_def by auto
  obtain r where "pending (cl_table st) i = Some r" "req_caller r = c"
    using inv c(1) unfolding client_inv_def requests_ok_def by (metis owns.simps(3))
  then have out: "cl_out st c = no_outputs" using i(2) q(1) by simp
  obtain rc t' cvs where rem: "mcp_client_remove_pending_request_entry (cl_table st) i = (rc, t', cvs)" by (metis prod_cases3)
  have "table_inv (cl_table st)" using inv by (simp add: client_inv_def table_ids_ok_def)
  then have "pending t' i = None" using remove_ok [OF _ i(1) rem] by simp
  moreover have "leave_wait m w c i k g st = reported m c i (-1) (st\<lparr>cl_table := t'\<rparr>)"
    using c(2) w rem found_request(2) [OF inv q(1) k] q(2) by (simp add: leave_wait_def conclude_def final_status_of_def)
  ultimately show "cl_phase (leave_wait m w c i k g st) c = Finished i (-1)"
    "out_code (cl_out (leave_wait m w c i k g st) c) = MCP_ERROR_INTERNAL_ERROR"
    "pending (cl_table (leave_wait m w c i k g st)) i = None"
    using out by (simp_all add: reported_def report_def finished_def no_outputs_def)
qed

text \<open>The synchronous transports: a success is the answer with the id of the request.\<close>

lemma synchronous_success:
  assumes "receive_synchronous env m name i status data n out = Done (0, out')"
  obtains response r where "status = 0" "0 < n" "data = Some response" "mcp_json_parse_response env response = Done (Some r)" "resp_id r = i"
    "resp_error_code r = MCP_ERROR_NONE" "out' = \<lparr>out_result = resp_result r, out_code = MCP_ERROR_NONE, out_message = resp_error_message r\<rparr>"
  using assms by (auto simp: receive_synchronous_def split: option.splits checked.splits if_splits)

section \<open>Properties\<close>

text \<open>Claim C5.  A call that succeeds returns an answer to it: in every interleaving of threads, received
  messages, transport errors and failing waits, a call that returned 0 has in its output parameters the
  result of a response with the id of its request that the client received.\<close>

theorem success_was_received:
  assumes "reachable st" "cl_phase st c = Finished i 0"
  shows "completed_by (cl_received st) i (cl_out st c)"
  using reachable_inv [OF assms(1)] assms(2) unfolding client_inv_def phases_ok_def by blast

theorem success_was_received_witness:
  "\<exists>st. reachable st \<and> cl_phase st 0 = Finished 1 0 \<and> completed_by (cl_received st) 1 (cl_out st 0)"
proof -
  obtain st where st: "reachable st" "cl_phase st 0 = Finished 1 0" using finished_state by blast
  with success_was_received [OF st] show ?thesis by blast
qed

text \<open>Claim C26.  The callbacks write through pointers into live stack frames only: in every interleaving, a
  request in the table belongs to a thread that is inside its call with that id, and a thread inside its
  call has its request in the table.\<close>

theorem requests_of_running_calls:
  assumes "reachable st"
  shows "(\<forall>r. pending (cl_table st) i = Some r \<longrightarrow> owns (cl_phase st (req_caller r)) = Some i) \<and>
    (owns (cl_phase st c) = Some i \<longrightarrow> (\<exists>r. pending (cl_table st) i = Some r \<and> req_caller r = c))"
  using reachable_inv [OF assms] unfolding client_inv_def requests_ok_def by blast

theorem requests_of_running_calls_witness:
  "\<exists>st r. reachable st \<and> owns (cl_phase st 0) = Some 1 \<and> pending (cl_table st) 1 = Some r \<and> req_caller r = 0"
proof -
  obtain st q where st: "reachable st" "cl_phase st = (\<lambda>_. Idle)(0 := Sent 1)" using sent_state by blast
  with requests_of_running_calls [OF st(1), of 1 0] show ?thesis by auto
qed

text \<open>The answer of the server completes the call: when a thread has sent its request and the
  text \<open>create_success_response\<close> makes for its id arrives, the call returns 0 with the print of an equal
  value as its result, and the request leaves the table.\<close>

theorem response_completes_call:
  assumes "reachable st" "cl_phase st c = Sent i" "pending (cl_table st) i = Some q" "req_status q = PENDING_REQUEST_WAITING"
    and "enough_memory env" "reads_integers (env_strtod env)" "unat i \<le> 2 ^ 53" "json_text_ok env r"
  shows "\<exists>reply st1 r'. create_success_response [] i (Some (render (env_format env) r)) = Done (Some reply) \<and>
    mcp_client_receive_callback env (Some reply) (length reply) st = Done (0, st1) \<and>
    cl_phase (enter_wait m c i st1) c = Finished i 0 \<and>
    cl_out (enter_wait m c i st1) c = \<lparr>out_result = Some (render (env_format env) r'), out_code = MCP_ERROR_NONE, out_message = None\<rparr> \<and>
    jabs r' = jabs r \<and> pending (cl_table (enter_wait m c i st1)) i = None"
proof -
  obtain reply r' where reply: "create_success_response [] i (Some (render (env_format env) r)) = Done (Some reply)"
    "mcp_json_parse_response env reply = Done (Some \<lparr>resp_id = i, resp_error_code = MCP_ERROR_NONE, resp_error_message = None,
      resp_result = Some (render (env_format env) r')\<rparr>)" "jabs r' = jabs r"
    using success_response_read [OF assms(5-8)] by blast
  have "reply \<noteq> []" using reply(2) by (rule response_text_nonempty)
  then show ?thesis
    using reply response_arrives [OF reachable_inv [OF assms(1)] assms(2-4), of "\<lparr>resp_id = i, resp_error_code = MCP_ERROR_NONE,
      resp_error_message = None, resp_result = Some (render (env_format env) r')\<rparr>" m]
    by (fastforce simp: mcp_client_receive_callback_def)
qed

theorem response_completes_call_witness:
  "\<exists>st reply st1 r'. reachable st \<and> create_success_response [] 1 (Some ''[7]'') = Done (Some reply) \<and>
    mcp_client_receive_callback env_int (Some reply) (length reply) st = Done (0, st1) \<and>
    cl_phase (enter_wait [] 0 1 st1) 0 = Finished 1 0 \<and>
    out_result (cl_out (enter_wait [] 0 1 st1) 0) = Some (render (\<lambda>_. ''7'') r') \<and> jabs r' = VArray [VNumber (Finite 7)]"
proof -
  obtain st q where st: "reachable st" "cl_phase st = (\<lambda>_. Idle)(0 := Sent 1)" "pending (cl_table st) 1 = Some q" "req_status q = PENDING_REQUEST_WAITING"
    using sent_state by blast
  then have "cl_phase st 0 = Sent 1" by simp
  from response_completes_call [OF st(1) this st(3,4) env_int(1,2) _ env_int(3), of "[]"] st(1) show ?thesis
    by (simp add: env_int_def) (metis outputs.select_convs(1))
qed

text \<open>A waiting thread keeps a pointer into the table while others may move it: with one thread
  waiting for its response, 47 more requests make the table grow, the array it points into is freed, and
  the thread reads (and on a timeout writes) freed memory when it wakes up.\<close>

theorem waiting_pointer_dangles: "\<exists>st c i. reachable st \<and> cl_phase st c = Dangling i"
proof -
  obtain st k where st: "crowd 47 st" and k: "cl_phase st 0 = Waiting 1 k 0" using crowd_reached [of 47] by (auto simp: crowd_def)
  obtain st' where st': "reachable st'" "cl_phase st' = (cl_phase st)(47 := Added 48)" "table_generation (cl_table st') = 1"
    using crowd_grows [OF st] by auto
  have p: "cl_phase st' 0 = Waiting 1 k 0" using k st'(2) by simp
  have "reachable (leave_wait [] (wait_result True 1 0) 0 1 k 0 st')" by (rule reachable.step [OF st'(1) client_step.leave_step [OF p]])
  moreover have "cl_phase (leave_wait [] (wait_result True 1 0) 0 1 k 0 st') 0 = Dangling 1" using st'(3) by (simp add: leave_wait_def)
  ultimately show ?thesis by blast
qed

text \<open>A timeout is not recognised: \<open>mcp_cond_timedwait\<close> reports it as -2 while
  \<open>mcp_client_send_and_wait\<close> compares with \<open>ETIMEDOUT\<close>, and a wakeup without a response ends the call as
  well, since the wait is not repeated.  So whatever the wait reports, a call whose request is still
  waiting returns an internal error, never the timeout.\<close>

theorem timeout_reported_as_internal_error:
  assumes "reachable st" "cl_phase st c = Waiting i k g" "g = table_generation (cl_table st)"
    and "pending (cl_table st) i = Some q" "req_status q = PENDING_REQUEST_WAITING" "0 < timeout_ms"
  shows "let st' = leave_wait m (wait_result clock_ok timeout_ms ret) c i k g st
    in cl_phase st' c = Finished i (-1) \<and> out_code (cl_out st' c) = MCP_ERROR_INTERNAL_ERROR \<and> pending (cl_table st') i = None"
proof -
  have "wait_result clock_ok timeout_ms ret \<noteq> ETIMEDOUT"
    using assms(6) by (simp add: wait_result_def mcp_cond_timedwait_def ETIMEDOUT_def)
  from wait_ends_waiting [OF reachable_inv [OF assms(1)] assms(2-5) this] show ?thesis by (simp add: Let_def)
qed

theorem timeout_reported_as_internal_error_witness:
  "\<exists>st k. reachable st \<and> cl_phase st 0 = Waiting 1 k 0 \<and>
    cl_phase (leave_wait [] (wait_result True 5000 ETIMEDOUT) 0 1 k 0 st) 0 = Finished 1 (-1) \<and>
    out_code (cl_out (leave_wait [] (wait_result True 5000 ETIMEDOUT) 0 1 k 0 st) 0) = MCP_ERROR_INTERNAL_ERROR"
proof -
  obtain st k q where st: "reachable st" "cl_phase st = (\<lambda>_. Idle)(0 := Waiting 1 k 0)" "pending (cl_table st) 1 = Some q"
    "req_status q = PENDING_REQUEST_WAITING" "table_generation (cl_table st) = 0"
    using waiting_state by metis
  then have "cl_phase st 0 = Waiting 1 k 0" by simp
  with timeout_reported_as_internal_error [OF st(1) this _ st(3,4), of 5000 "[]" True ETIMEDOUT] st(1,5) show ?thesis
    by (auto simp: Let_def)
qed

end
