(* ===== verification/Mcp_Chains.thy ===== *)
theory Mcp_Chains
  imports Mcp_Rate_Limiter
begin

text \<open>
  Hash tables with separate chaining, as the two rate limiters and the stored events have them: the locale \<open>chained_table\<close> is what
  such a table relies on, and its lemmas say what searching a bucket, changing a bucket and moving to a
  larger table do to the entries.
\<close>

section \<open>Chained hash tables\<close>

text \<open>What the code relies on in these tables: the bucket of a key is one of the table.  Entries with
  distinct keys, each in the bucket of its key, are found by a search of that bucket, and moving them to
  a table of another size loses none.\<close>

definition chains_ok :: "('e \<Rightarrow> 'k) \<Rightarrow> (size_t \<Rightarrow> 'k \<Rightarrow> nat) \<Rightarrow> size_t \<Rightarrow> 'e list list \<Rightarrow> bool" where
  "chains_ok key_of bucket cap bs \<longleftrightarrow> 0 < cap \<and> length bs = unat cap \<and>
     (\<forall>i < length bs. \<forall>e \<in> set (bs ! i). bucket cap (key_of e) = i) \<and> distinct (map key_of (concat bs))"

definition find_key :: "('e \<Rightarrow> 'k) \<Rightarrow> 'k \<Rightarrow> 'e list \<Rightarrow> 'e option" where
  "find_key key_of k es = find (\<lambda>e. key_of e = k) es"

lemma find_key_Some:
  assumes "distinct (map key_of es)"
  shows "find_key key_of k es = Some e \<longleftrightarrow> e \<in> set es \<and> key_of e = k"
  using assms unfolding find_key_def by (induction es) force+

lemma find_key_None: "find_key key_of k es = None \<longleftrightarrow> k \<notin> key_of ` set es"
  unfolding find_key_def find_None_iff by auto

lemma find_key_cong:
  assumes "distinct (map key_of es)" "distinct (map key_of fs)" "set es \<inter> {e. key_of e = k} = set fs \<inter> {e. key_of e = k}"
  shows "find_key key_of k es = find_key key_of k fs"
proof -
  have "find_key key_of k es = Some e \<longleftrightarrow> find_key key_of k fs = Some e" for e
    using assms(3) unfolding find_key_Some [OF assms(1)] find_key_Some [OF assms(2)] by blast
  then show ?thesis by (metis not_None_eq)
qed

lemma distinct_mset: "mset (map f es) = mset (map f fs) \<Longrightarrow> distinct (map f es) = distinct (map f fs)"
  by (rule mset_eq_imp_distinct_iff)

lemma in_concat: "e \<in> set (concat bs) \<longleftrightarrow> (\<exists>i < length bs. e \<in> set (bs ! i))"
  by (metis UN_iff in_set_conv_nth set_concat)

locale chained_table =
  fixes key_of :: "'e \<Rightarrow> 'k" and bucket :: "size_t \<Rightarrow> 'k \<Rightarrow> nat"
  assumes bucket_less: "0 < cap \<Longrightarrow> bucket cap k < unat cap"
begin

lemma bucket_in: "chains_ok key_of bucket cap bs \<Longrightarrow> bucket cap k < length bs"
  using bucket_less by (simp add: chains_ok_def)

lemma chain_entries:
  assumes "chains_ok key_of bucket cap bs"
  shows "set (concat bs) \<inter> {e. key_of e = k} = set (bs ! bucket cap k) \<inter> {e. key_of e = k}"
proof (intro equalityI subsetI)
  fix e assume e: "e \<in> set (concat bs) \<inter> {e. key_of e = k}"
  then have "e \<in> set (concat bs)" by (rule IntD1)
  then obtain i where "i < length bs" "e \<in> set (bs ! i)" unfolding in_concat by blast
  then show "e \<in> set (bs ! bucket cap k) \<inter> {e. key_of e = k}" using e assms by (auto simp: chains_ok_def)
next
  fix e assume "e \<in> set (bs ! bucket cap k) \<inter> {e. key_of e = k}"
  then show "e \<in> set (concat bs) \<inter> {e. key_of e = k}" using bucket_in [OF assms, of k] unfolding in_concat by auto
qed

lemma chain_distinct:
  assumes "chains_ok key_of bucket cap bs" "i < length bs"
  shows "distinct (map key_of (bs ! i))"
proof -
  have "mset (concat (bs[i := []])) + mset (bs ! i) = mset (concat bs)" using mset_replace_bucket [OF assms(2), of "[]"] by simp
  then have "mset (map key_of (concat (bs[i := []]) @ bs ! i)) = mset (map key_of (concat bs))" by (metis mset_append mset_map)
  then have "distinct (map key_of (concat (bs[i := []]) @ bs ! i))" using assms(1) distinct_mset unfolding chains_ok_def by blast
  then show ?thesis by simp
qed

text \<open>The search of one bucket finds what is in the table.\<close>

lemma search_bucket:
  assumes "chains_ok key_of bucket cap bs"
  shows "find_key key_of k (bs ! bucket cap k) = find_key key_of k (concat bs)"
  by (rule find_key_cong [OF chain_distinct [OF assms bucket_in [OF assms]]])
    (use assms chain_entries [OF assms, of k] in \<open>simp_all add: chains_ok_def\<close>)

text \<open>A change of the bucket of a key that only touches the entry of that key.\<close>

lemma replace_bucket:
  assumes ok: "chains_ok key_of bucket cap bs" and d: "distinct (map key_of c)"
    and keys: "key_of ` set c \<subseteq> insert k (key_of ` set (bs ! bucket cap k))"
    and others: "\<And>j. j \<noteq> k \<Longrightarrow> find_key key_of j c = find_key key_of j (bs ! bucket cap k)"
  shows "chains_ok key_of bucket cap (bs[bucket cap k := c]) \<and>
    (\<forall>j. find_key key_of j (concat (bs[bucket cap k := c])) = (if j = k then find_key key_of k c else find_key key_of j (concat bs)))"
proof -
  let ?i = "bucket cap k"
  have i: "?i < length bs" by (rule bucket_in [OF ok])
  have ch: "\<forall>e \<in> set c. bucket cap (key_of e) = ?i" 
  proof
    fix e assume "e \<in> set c"
    then have "key_of e \<in> insert k (key_of ` set (bs ! ?i))" using keys by blast
    then show "bucket cap (key_of e) = ?i" using ok i by (auto simp: chains_ok_def)
  qed
  have mem: "e \<in> set (bs[?i := c] ! j) \<Longrightarrow> j < length bs \<Longrightarrow> bucket cap (key_of e) = j" for e j
    using ok ch i by (cases "j = ?i") (auto simp: chains_ok_def)
  have ms: "mset (concat (bs[?i := c])) = mset (concat (bs[?i := []])) + mset c"
    using mset_replace_bucket [of ?i "bs[?i := []]" c] i by simp
  have rest: "set (concat (bs[?i := []])) \<inter> {e. bucket cap (key_of e) = ?i} = {}"
  proof -
    have "bucket cap (key_of e) \<noteq> ?i" if mem: "e \<in> set (concat (bs[?i := []]))" for e
    proof -
      obtain j where "j < length bs" "e \<in> set (bs[?i := []] ! j)" using mem unfolding in_concat by auto
      then show ?thesis using ok i by (cases "j = ?i") (auto simp: chains_ok_def)
    qed
    then show ?thesis by blast
  qed
  have dr: "distinct (map key_of (concat (bs[?i := []])))"
  proof -
    have "mset (concat (bs[?i := []]) @ bs ! ?i) = mset (concat bs)" using mset_replace_bucket [OF i, of "[]"] by simp
    then have "mset (map key_of (concat (bs[?i := []]) @ bs ! ?i)) = mset (map key_of (concat bs))" by (metis mset_map)
    then show ?thesis using ok distinct_mset unfolding chains_ok_def by (metis distinct_append map_append)
  qed
  have "distinct (map key_of (concat (bs[?i := []]) @ c))" using dr d rest ch by (auto simp del: set_concat)
  moreover have "mset (map key_of (concat (bs[?i := []]) @ c)) = mset (map key_of (concat (bs[?i := c])))" using ms by simp
  ultimately have "distinct (map key_of (concat (bs[?i := c])))" using distinct_mset by blast
  then have ok': "chains_ok key_of bucket cap (bs[?i := c])" using ok mem by (simp add: chains_ok_def)
  have "find_key key_of j (concat (bs[?i := c])) = (if j = k then find_key key_of k c else find_key key_of j (concat bs))" for j
    unfolding search_bucket [OF ok', symmetric] search_bucket [OF ok, symmetric] using others [of j] i
    by (cases "bucket cap j = ?i") auto
  then show ?thesis using ok' by blast
qed

lemma rehash_step:
  assumes ok: "chains_ok key_of bucket cap nb" and new: "key_of e \<notin> key_of ` set (concat nb)"
  defines "nb' \<equiv> nb[bucket cap (key_of e) := e # nb ! bucket cap (key_of e)]"
  shows "chains_ok key_of bucket cap nb'" "mset (concat nb') = mset (concat nb) + {#e#}"
proof -
  let ?i = "bucket cap (key_of e)"
  have i: "?i < length nb" by (rule bucket_in [OF ok])
  have "set (nb ! ?i) \<subseteq> set (concat nb)" 
  proof
    fix x assume "x \<in> set (nb ! ?i)"
    then show "x \<in> set (concat nb)" using i unfolding in_concat by blast
  qed
  then have d: "distinct (map key_of (e # nb ! ?i))" using chain_distinct [OF ok i] new by auto
  show "chains_ok key_of bucket cap nb'"
    using replace_bucket [OF ok d, of "key_of e"] by (simp add: nb'_def find_key_def subset_insertI)
  show "mset (concat nb') = mset (concat nb) + {#e#}"
    using mset_replace_bucket [OF i, of "e # nb ! ?i"] by (simp add: nb'_def)
qed

lemma rehash_all:
  assumes "chains_ok key_of bucket cap nb" "distinct (map key_of (concat nb @ es))"
  defines "step \<equiv> \<lambda>nb e. nb[bucket cap (key_of e) := e # nb ! bucket cap (key_of e)]"
  shows "chains_ok key_of bucket cap (foldl step nb es) \<and> mset (concat (foldl step nb es)) = mset (concat nb) + mset es"
  using assms(1,2)
proof (induction es arbitrary: nb)
  case (Cons e es)
  have "key_of e \<notin> key_of ` set (concat nb)" using Cons.prems(2) by auto
  note s = rehash_step [OF Cons.prems(1) this]
  have "mset (map key_of (concat (step nb e) @ es)) = mset (map key_of (concat nb @ e # es))"
    using s(2) by (simp add: step_def)
  then have "distinct (map key_of (concat (step nb e) @ es))" using Cons.prems(2) distinct_mset by blast
  from Cons.IH [OF _ this] s show ?case by (simp add: step_def)
qed (simp add: step_def)

lemma rehash_table:
  assumes "chains_ok key_of bucket cap bs" "0 < new"
  defines "step \<equiv> \<lambda>nb e. nb[bucket new (key_of e) := e # nb ! bucket new (key_of e)]"
  defines "nb \<equiv> foldl step (replicate (unat new) []) (concat bs)"
  shows "chains_ok key_of bucket new nb" "mset (concat nb) = mset (concat bs)"
    "find_key key_of k (concat nb) = find_key key_of k (concat bs)"
proof -
  have emp: "chains_ok key_of bucket new (replicate (unat new) [])" using assms(2) by (simp add: chains_ok_def)
  have none: "concat (replicate (unat new) []) = []" by simp
  have "distinct (map key_of (concat (replicate (unat new) []) @ concat bs))"
    unfolding none append_Nil using assms(1) unfolding chains_ok_def by blast
  from rehash_all [OF emp this] have r: "chains_ok key_of bucket new nb" "mset (concat nb) = mset (concat bs)"
    unfolding nb_def step_def none by simp_all
  then show "chains_ok key_of bucket new nb" "mset (concat nb) = mset (concat bs)" .
  show "find_key key_of k (concat nb) = find_key key_of k (concat bs)"
  proof (rule find_key_cong)
    show "distinct (map key_of (concat nb))" "distinct (map key_of (concat bs))" using r(1) assms(1) unfolding chains_ok_def by blast+
  qed (simp only: mset_eq_setD [OF r(2)])
qed

end

interpretation basic_clients: chained_table client_id bucket_of
  by unfold_locales (rule bucket_of_less)

end
