(* ===== verification/Mcp_Advanced_Limiter.thy ===== *)
theory Mcp_Advanced_Limiter
  imports Mcp_Chains Mcp_Message
begin

text \<open>
  The advanced rate limiter, \<open>src/server/mcp_advanced_rate_limiter.c\<close>, which the server uses by default: rules
  with priorities and patterns for four types of keys, and four algorithms, each with its data for a
  client in a hash table.

  A \<open>double\<close> is a real number, and the argument \<open>fl\<close> rounds the result of each operation to a \<open>double\<close>;
  the rates of a rule are finite.  Times are integers, whose conversion to \<open>double\<close> is exact below \<open>2 ^ 53\<close>.  The data of a client is a union in C:
  a check with another algorithm than the one the data was made for reads the bytes of another
  structure, here \<open>Undefined\<close>.  Counters that are compared with a limit before they grow are natural
  numbers.  The number of rules of a key type is the length of their list.  The settings for bursts and
  for dynamic rules are stored by the code and read nowhere; they are left out.
\<close>

section \<open>Rules and data\<close>

datatype mcp_rate_limit_algorithm =
    MCP_RATE_LIMIT_FIXED_WINDOW | MCP_RATE_LIMIT_SLIDING_WINDOW | MCP_RATE_LIMIT_TOKEN_BUCKET | MCP_RATE_LIMIT_LEAKY_BUCKET

datatype mcp_rate_limit_key_type =
    MCP_RATE_LIMIT_KEY_IP | MCP_RATE_LIMIT_KEY_USER_ID | MCP_RATE_LIMIT_KEY_API_KEY | MCP_RATE_LIMIT_KEY_CUSTOM

record mcp_rate_limit_rule =
  ru_key_type :: mcp_rate_limit_key_type
  ru_algorithm :: mcp_rate_limit_algorithm
  ru_window_seconds :: size_t
  ru_max_requests_per_window :: size_t
  ru_tokens_per_second :: real
  ru_max_tokens :: size_t
  ru_leak_rate_per_second :: real
  ru_burst_capacity :: size_t
  ru_key_pattern :: "string option"
  ru_priority :: int

datatype algorithm_data =
    FixedWindow (fw_start: int) (fw_count: nat)
  | SlidingWindow (sw_last: int) (sw_times: "int list") (sw_pos: nat) (sw_count: nat)
  | TokenBucket (tb_tokens: real) (tb_last: int) (tb_rate: real) (tb_max: size_t)
  | LeakyBucket (lb_level: real) (lb_last: int) (lb_rate: real) (lb_capacity: size_t)

record client_entry =
  ac_key :: string
  ac_key_type :: mcp_rate_limit_key_type
  ac_data :: algorithm_data

record mcp_advanced_rate_limiter =
  al_buckets :: "client_entry list list"
  al_capacity :: size_t
  al_count :: size_t
  al_peak :: size_t
  al_rules :: "mcp_rate_limit_key_type \<Rightarrow> mcp_rate_limit_rule list"
  al_total :: size_t
  al_allowed :: size_t
  al_denied :: size_t

definition hash_key :: "string \<Rightarrow> size_t" where
  "hash_key str = hash_client_id_loop 5381 str"

definition key_bucket :: "size_t \<Rightarrow> string \<Rightarrow> nat" where
  "key_bucket capacity key = unat (hash_key key mod capacity)"

text \<open>\<open>calloc(rule->max_requests_per_window, sizeof(double))\<close> is refused from \<open>PTRDIFF_MAX\<close> bytes on.\<close>

definition initialize_algorithm_data :: "(real \<Rightarrow> real) \<Rightarrow> mem \<Rightarrow> int \<Rightarrow> mcp_rate_limit_rule \<Rightarrow> algorithm_data option \<times> mem" where
  "initialize_algorithm_data fl m now rule =
     (case ru_algorithm rule of
        MCP_RATE_LIMIT_FIXED_WINDOW \<Rightarrow> (Some (FixedWindow now 0), m)
      | MCP_RATE_LIMIT_SLIDING_WINDOW \<Rightarrow>
          (let n = unat (ru_max_requests_per_window rule)
           in if 2 ^ 63 \<le> 8 * n then (None, m)
              else let (ok, m1) = mem_alloc m in (if ok then Some (SlidingWindow now (replicate n 0) 0 0) else None, m1))
      | MCP_RATE_LIMIT_TOKEN_BUCKET \<Rightarrow>
          (Some (TokenBucket (fl (real (unat (ru_max_tokens rule)))) now (ru_tokens_per_second rule) (ru_max_tokens rule)), m)
      | MCP_RATE_LIMIT_LEAKY_BUCKET \<Rightarrow> (Some (LeakyBucket 0 now (ru_leak_rate_per_second rule) (ru_burst_capacity rule)), m))"

text \<open>The last branch of the code, for a \<open>*\<close> at both ends, is behind the one for a \<open>*\<close> at the end.\<close>

definition key_matches_pattern :: "string \<Rightarrow> string \<Rightarrow> bool" where
  "key_matches_pattern key pattern =
     (let pattern_len = length pattern; key_len = length key
      in if pattern = key then True
         else if pattern_len > 1 \<and> last pattern = CHR ''*'' then take (pattern_len - 1) key = butlast pattern
         else if pattern_len > 1 \<and> pattern ! 0 = CHR ''*'' \<and> key_len \<ge> pattern_len - 1
         then drop (key_len - (pattern_len - 1)) key = tl pattern
         else if pattern_len > 2 \<and> pattern ! 0 = CHR ''*'' \<and> last pattern = CHR ''*'' then sublist (butlast (tl pattern)) key
         else False)"

definition better_rule ::
    "string \<Rightarrow> mcp_rate_limit_rule option \<times> int \<Rightarrow> mcp_rate_limit_rule \<Rightarrow> mcp_rate_limit_rule option \<times> int" where
  "better_rule key best rule =
     (case best of (best_match, highest_priority) \<Rightarrow>
        if (case ru_key_pattern rule of None \<Rightarrow> True | Some p \<Rightarrow> key_matches_pattern key p) \<and> ru_priority rule > highest_priority
        then (Some rule, ru_priority rule) else best)"

definition find_matching_rule :: "mcp_advanced_rate_limiter \<Rightarrow> mcp_rate_limit_key_type \<Rightarrow> string \<Rightarrow> mcp_rate_limit_rule option" where
  "find_matching_rule limiter key_type key = fst (foldl (better_rule key) (None, -1) (al_rules limiter key_type))"

section \<open>The table of clients\<close>

definition calloc_clients :: "mem \<Rightarrow> size_t \<Rightarrow> client_entry list list option \<times> mem" where
  "calloc_clients m capacity =
     (if 2 ^ 63 \<le> unat capacity * 8 then (None, m)
      else let (ok, m') = mem_alloc m in (if ok then Some (replicate (unat capacity) []) else None, m'))"

definition rehash_client_entry :: "size_t \<Rightarrow> client_entry list list \<Rightarrow> client_entry \<Rightarrow> client_entry list list" where
  "rehash_client_entry new_capacity nb e =
     (let new_index = key_bucket new_capacity (ac_key e) in nb[new_index := e # nb ! new_index])"

definition resize_client_table :: "mem \<Rightarrow> size_t \<Rightarrow> mcp_advanced_rate_limiter \<Rightarrow> bool \<times> mcp_advanced_rate_limiter \<times> mem" where
  "resize_client_table m new_capacity l =
     (if new_capacity = 0 then (False, l, m)
      else case calloc_clients m new_capacity of
             (None, m1) \<Rightarrow> (False, l, m1)
           | (Some nb, m1) \<Rightarrow>
               (True, l\<lparr>al_buckets := foldl (rehash_client_entry new_capacity) nb (concat (al_buckets l)), al_capacity := new_capacity\<rparr>, m1))"

definition is_client :: "mcp_rate_limit_key_type \<Rightarrow> string \<Rightarrow> client_entry \<Rightarrow> bool" where
  "is_client key_type key e \<longleftrightarrow> ac_key_type e = key_type \<and> ac_key e = key"

text \<open>A new entry is put in front of its chain; the chain is that of its key.\<close>

definition insert_client_entry ::
    "mcp_rate_limit_key_type \<Rightarrow> string \<Rightarrow> algorithm_data \<Rightarrow> mcp_advanced_rate_limiter \<Rightarrow> mcp_advanced_rate_limiter" where
  "insert_client_entry key_type key d l =
     (let index = key_bucket (al_capacity l) key;
          entry = \<lparr>ac_key = key, ac_key_type = key_type, ac_data = d\<rparr>;
          n = al_count l + 1
      in l\<lparr>al_buckets := (al_buckets l)[index := entry # al_buckets l ! index], al_count := n,
           al_peak := (if n > al_peak l then n else al_peak l)\<rparr>)"

text \<open>The data of the entry, or NULL; after an insertion the table may grow.\<close>

definition find_or_create_client_entry ::
    "(real \<Rightarrow> real) \<Rightarrow> mem \<Rightarrow> int \<Rightarrow> string \<Rightarrow> mcp_rate_limit_key_type \<Rightarrow> mcp_advanced_rate_limiter \<Rightarrow>
     algorithm_data option \<times> mcp_advanced_rate_limiter \<times> mem" where
  "find_or_create_client_entry fl m now key key_type l =
     (let index = key_bucket (al_capacity l) key; chain = al_buckets l ! index
      in case find (is_client key_type key) chain of
           Some entry \<Rightarrow> (Some (ac_data entry), l, m)
         | None \<Rightarrow>
             (case find_matching_rule l key_type key of
                None \<Rightarrow> (None, l, m)
              | Some rule \<Rightarrow>
                  (let (ok, m1) = mem_alloc m
                   in if \<not> ok then (None, l, m1)
                      else case mcp_strdup m1 (Some key) of
                             (None, m2) \<Rightarrow> (None, l, m2)
                           | (Some k, m2) \<Rightarrow>
                               (case initialize_algorithm_data fl m2 now rule of
                                  (None, m3) \<Rightarrow> (None, l, m3)
                                | (Some d, m3) \<Rightarrow>
                                    (let l1 = insert_client_entry key_type k d l
                                     in if 4 * unat (al_count l1) > 3 * unat (al_capacity l1)
                                        then (case resize_client_table m3 (al_capacity l1 * 2) l1 of
                                                (_, l2, m4) \<Rightarrow> (Some d, l2, m4))
                                        else (Some d, l1, m3))))))"

text \<open>The update of the data through the pointer to the entry.\<close>

definition store_data :: "mcp_rate_limit_key_type \<Rightarrow> string \<Rightarrow> algorithm_data \<Rightarrow> mcp_advanced_rate_limiter \<Rightarrow> mcp_advanced_rate_limiter" where
  "store_data key_type key d l =
     (let index = key_bucket (al_capacity l) key
      in l\<lparr>al_buckets := (al_buckets l)[index := map (\<lambda>e. if is_client key_type key e then e\<lparr>ac_data := d\<rparr> else e) (al_buckets l ! index)]\<rparr>)"

section \<open>The algorithms\<close>

definition check_fixed_window :: "mcp_rate_limit_rule \<Rightarrow> int \<Rightarrow> int \<Rightarrow> nat \<Rightarrow> bool \<times> algorithm_data" where
  "check_fixed_window rule now start n =
     (let (start1, n1) = (if now - start \<ge> sint (ru_window_seconds rule) then (now, 0) else (start, n))
      in if n1 < unat (ru_max_requests_per_window rule) then (True, FixedWindow start1 (n1 + 1)) else (False, FixedWindow start1 n1))"

definition check_sliding_window :: "mcp_rate_limit_rule \<Rightarrow> int \<Rightarrow> int list \<Rightarrow> nat \<Rightarrow> nat \<Rightarrow> (bool \<times> algorithm_data) checked" where
  "check_sliding_window rule now stamps pos n =
     (let active = (\<lambda>x. x > 0 \<and> now - x < sint (ru_window_seconds rule));
          kept = map (\<lambda>x. if active x then x else 0) stamps;
          active_requests = length (filter active stamps)
      in if active_requests < unat (ru_max_requests_per_window rule)
         then (if stamps = [] then Undefined
               else Done (True, SlidingWindow now (kept[pos := now]) ((pos + 1) mod length stamps) (active_requests + 1)))
         else Done (False, SlidingWindow now kept pos n))"

definition check_token_bucket :: "(real \<Rightarrow> real) \<Rightarrow> int \<Rightarrow> real \<Rightarrow> int \<Rightarrow> real \<Rightarrow> size_t \<Rightarrow> bool \<times> algorithm_data" where
  "check_token_bucket fl now tokens refilled rate most =
     (let elapsed = real_of_int (now - refilled);
          (tokens1, refilled1) =
            (if elapsed > 0 then (min (fl (tokens + fl (elapsed * rate))) (fl (real (unat most))), now) else (tokens, refilled))
      in if tokens1 \<ge> 1 then (True, TokenBucket (fl (tokens1 - 1)) refilled1 rate most)
         else (False, TokenBucket tokens1 refilled1 rate most))"

definition check_leaky_bucket :: "(real \<Rightarrow> real) \<Rightarrow> int \<Rightarrow> real \<Rightarrow> int \<Rightarrow> real \<Rightarrow> size_t \<Rightarrow> bool \<times> algorithm_data" where
  "check_leaky_bucket fl now level leaked rate capacity =
     (let elapsed = real_of_int (now - leaked);
          (level1, leaked1) = (if elapsed > 0 then (max 0 (fl (level - fl (elapsed * rate))), now) else (level, leaked))
      in if fl (level1 + 1) \<le> fl (real (unat capacity)) then (True, LeakyBucket (fl (level1 + 1)) leaked1 rate capacity)
         else (False, LeakyBucket level1 leaked1 rate capacity))"

definition check_algorithm :: "(real \<Rightarrow> real) \<Rightarrow> mcp_rate_limit_rule \<Rightarrow> int \<Rightarrow> algorithm_data \<Rightarrow> (bool \<times> algorithm_data) checked" where
  "check_algorithm fl rule now d =
     (case (ru_algorithm rule, d) of
        (MCP_RATE_LIMIT_FIXED_WINDOW, FixedWindow start n) \<Rightarrow> Done (check_fixed_window rule now start n)
      | (MCP_RATE_LIMIT_SLIDING_WINDOW, SlidingWindow _ stamps pos n) \<Rightarrow> check_sliding_window rule now stamps pos n
      | (MCP_RATE_LIMIT_TOKEN_BUCKET, TokenBucket tokens t rate most) \<Rightarrow> Done (check_token_bucket fl now tokens t rate most)
      | (MCP_RATE_LIMIT_LEAKY_BUCKET, LeakyBucket level t rate capacity) \<Rightarrow> Done (check_leaky_bucket fl now level t rate capacity)
      | _ \<Rightarrow> Undefined)"

section \<open>The limiter\<close>

definition mcp_advanced_rate_limiter_create :: "mem \<Rightarrow> size_t option \<Rightarrow> mcp_advanced_rate_limiter option \<times> mem" where
  "mcp_advanced_rate_limiter_create m config_hint =
     (let (ok1, m1) = mem_alloc m in if \<not> ok1 then (None, m1)
      else let (ok2, m2) = mem_alloc m1 in if \<not> ok2 then (None, m2)
      else let hint = (case config_hint of Some h \<Rightarrow> if h > 0 then h else 1024 | None \<Rightarrow> 1024);
               doubled = hint * 2;
               capacity = (if doubled < 16 then 16 else doubled)
           in case calloc_clients m2 capacity of
                (None, m3) \<Rightarrow> (None, m3)
              | (Some bs, m3) \<Rightarrow>
                  (Some \<lparr>al_buckets = bs, al_capacity = capacity, al_count = 0, al_peak = 0, al_rules = (\<lambda>_. []),
                         al_total = 0, al_allowed = 0, al_denied = 0\<rparr>, m3))"

definition MAX_RULES_PER_KEY_TYPE :: nat where
  "MAX_RULES_PER_KEY_TYPE = 32"

definition mcp_advanced_rate_limiter_add_rule ::
    "mem \<Rightarrow> mcp_rate_limit_rule \<Rightarrow> mcp_advanced_rate_limiter \<Rightarrow> bool \<times> mcp_advanced_rate_limiter \<times> mem" where
  "mcp_advanced_rate_limiter_add_rule m rule l =
     (if length (al_rules l (ru_key_type rule)) \<ge> MAX_RULES_PER_KEY_TYPE then (False, l, m)
      else let (ok, m1) = mem_alloc m
           in if \<not> ok then (False, l, m1)
              else case (case ru_key_pattern rule of None \<Rightarrow> (True, m1) | Some p \<Rightarrow> (case mcp_strdup m1 (Some p) of (r, m2) \<Rightarrow> (r \<noteq> None, m2))) of
                     (False, m2) \<Rightarrow> (False, l, m2)
                   | (True, m2) \<Rightarrow>
                       (True, l\<lparr>al_rules := (al_rules l)(ru_key_type rule := rule # al_rules l (ru_key_type rule))\<rparr>, m2))"

fun remove_first_rule :: "string option \<Rightarrow> mcp_rate_limit_rule list \<Rightarrow> bool \<times> mcp_rate_limit_rule list" where
  "remove_first_rule pattern [] = (False, [])"
| "remove_first_rule pattern (r # rs) =
     (if ru_key_pattern r = pattern then (True, rs) else (case remove_first_rule pattern rs of (b, rs1) \<Rightarrow> (b, r # rs1)))"

definition mcp_advanced_rate_limiter_remove_rule ::
    "mcp_rate_limit_key_type \<Rightarrow> string option \<Rightarrow> mcp_advanced_rate_limiter \<Rightarrow> bool \<times> mcp_advanced_rate_limiter" where
  "mcp_advanced_rate_limiter_remove_rule key_type pattern l =
     (case remove_first_rule pattern (al_rules l key_type) of
        (found, rs) \<Rightarrow> (found, l\<lparr>al_rules := (al_rules l)(key_type := rs)\<rparr>))"

text \<open>The answers of the system to a check: the time, the time read again for a new entry, the allocator.\<close>

record check_env =
  ck_now :: int
  ck_init :: "mcp_rate_limit_key_type \<Rightarrow> int"
  ck_mem :: "mcp_rate_limit_key_type \<Rightarrow> mem"

definition check_key ::
    "(real \<Rightarrow> real) \<Rightarrow> check_env \<Rightarrow> mcp_rate_limit_key_type \<Rightarrow> string \<Rightarrow> mcp_advanced_rate_limiter \<Rightarrow> (bool \<times> mcp_advanced_rate_limiter) checked" where
  "check_key fl ck key_type key l =
     (case find_or_create_client_entry fl (ck_mem ck key_type) (ck_init ck key_type) key key_type l of
        (None, l1, _) \<Rightarrow> Done (False, l1)
      | (Some d, l1, _) \<Rightarrow>
          (case find_matching_rule l1 key_type key of
             None \<Rightarrow> Done (False, l1)
           | Some rule \<Rightarrow>
               (case check_algorithm fl rule (ck_now ck) d of
                  Undefined \<Rightarrow> Undefined
                | Done (ok, d1) \<Rightarrow> Done (ok, store_data key_type key d1 l1))))"

text \<open>The keys in the order of the code; the first that is allowed ends the search.\<close>

fun check_keys ::
    "(real \<Rightarrow> real) \<Rightarrow> check_env \<Rightarrow> (mcp_rate_limit_key_type \<times> string option) list \<Rightarrow> mcp_advanced_rate_limiter \<Rightarrow> (bool \<times> mcp_advanced_rate_limiter) checked" where
  "check_keys fl ck [] l = Done (False, l)"
| "check_keys fl ck ((kt, None) # keys) l = check_keys fl ck keys l"
| "check_keys fl ck ((kt, Some key) # keys) l =
     (case check_key fl ck kt key l of
        Undefined \<Rightarrow> Undefined
      | Done (True, l1) \<Rightarrow> Done (True, l1)
      | Done (False, l1) \<Rightarrow> check_keys fl ck keys l1)"

definition mcp_advanced_rate_limiter_check ::
    "(real \<Rightarrow> real) \<Rightarrow> check_env \<Rightarrow> string option \<Rightarrow> string option \<Rightarrow> string option \<Rightarrow> string option \<Rightarrow> mcp_advanced_rate_limiter \<Rightarrow>
     (bool \<times> mcp_advanced_rate_limiter) checked" where
  "mcp_advanced_rate_limiter_check fl ck ip_address user_id api_key custom_key l =
     (if ip_address = None \<and> user_id = None \<and> api_key = None \<and> custom_key = None then Done (False, l)
      else case check_keys fl ck [(MCP_RATE_LIMIT_KEY_API_KEY, api_key), (MCP_RATE_LIMIT_KEY_USER_ID, user_id),
                  (MCP_RATE_LIMIT_KEY_IP, ip_address), (MCP_RATE_LIMIT_KEY_CUSTOM, custom_key)] (l\<lparr>al_total := al_total l + 1\<rparr>) of
             Undefined \<Rightarrow> Undefined
           | Done (True, l1) \<Rightarrow> Done (True, l1\<lparr>al_allowed := al_allowed l1 + 1\<rparr>)
           | Done (False, l1) \<Rightarrow> Done (False, l1\<lparr>al_denied := al_denied l1 + 1\<rparr>))"

definition mcp_advanced_rate_limiter_clear_data :: "mcp_advanced_rate_limiter \<Rightarrow> mcp_advanced_rate_limiter" where
  "mcp_advanced_rate_limiter_clear_data l =
     l\<lparr>al_buckets := map (\<lambda>_. []) (al_buckets l), al_count := 0, al_total := 0, al_allowed := 0, al_denied := 0\<rparr>"

record mcp_advanced_rate_limiter_stats =
  as_total_requests :: size_t
  as_allowed_requests :: size_t
  as_denied_requests :: size_t
  as_active_clients :: size_t
  as_peak_clients :: size_t
  as_rule_count :: nat
  as_denial_rate :: real

definition mcp_advanced_rate_limiter_get_stats :: "(real \<Rightarrow> real) \<Rightarrow> mcp_advanced_rate_limiter \<Rightarrow> mcp_advanced_rate_limiter_stats" where
  "mcp_advanced_rate_limiter_get_stats fl l =
     \<lparr>as_total_requests = al_total l, as_allowed_requests = al_allowed l, as_denied_requests = al_denied l,
      as_active_clients = al_count l, as_peak_clients = al_peak l,
      as_rule_count = length (al_rules l MCP_RATE_LIMIT_KEY_IP) + length (al_rules l MCP_RATE_LIMIT_KEY_USER_ID) +
        length (al_rules l MCP_RATE_LIMIT_KEY_API_KEY) + length (al_rules l MCP_RATE_LIMIT_KEY_CUSTOM),
      as_denial_rate = (if al_total l > 0 then fl (fl (real (unat (al_denied l))) / fl (real (unat (al_total l)))) else 0)\<rparr>"

definition mcp_advanced_rate_limiter_create_default_rule ::
    "mcp_rate_limit_key_type \<Rightarrow> mcp_rate_limit_algorithm \<Rightarrow> size_t \<Rightarrow> size_t \<Rightarrow> mcp_rate_limit_rule" where
  "mcp_advanced_rate_limiter_create_default_rule key_type algorithm window_secs most =
     \<lparr>ru_key_type = key_type, ru_algorithm = algorithm, ru_window_seconds = window_secs, ru_max_requests_per_window = most,
      ru_tokens_per_second = 0, ru_max_tokens = 0, ru_leak_rate_per_second = 0, ru_burst_capacity = 0,
      ru_key_pattern = None, ru_priority = 0\<rparr>"

definition mcp_advanced_rate_limiter_create_token_bucket_rule ::
    "mcp_rate_limit_key_type \<Rightarrow> real \<Rightarrow> size_t \<Rightarrow> mcp_rate_limit_rule" where
  "mcp_advanced_rate_limiter_create_token_bucket_rule key_type rate most =
     \<lparr>ru_key_type = key_type, ru_algorithm = MCP_RATE_LIMIT_TOKEN_BUCKET, ru_window_seconds = 0, ru_max_requests_per_window = 0,
      ru_tokens_per_second = rate, ru_max_tokens = most, ru_leak_rate_per_second = 0, ru_burst_capacity = 0,
      ru_key_pattern = None, ru_priority = 0\<rparr>"

definition mcp_advanced_rate_limiter_create_leaky_bucket_rule ::
    "mcp_rate_limit_key_type \<Rightarrow> real \<Rightarrow> size_t \<Rightarrow> mcp_rate_limit_rule" where
  "mcp_advanced_rate_limiter_create_leaky_bucket_rule key_type rate capacity =
     \<lparr>ru_key_type = key_type, ru_algorithm = MCP_RATE_LIMIT_LEAKY_BUCKET, ru_window_seconds = 0, ru_max_requests_per_window = 0,
      ru_tokens_per_second = 0, ru_max_tokens = 0, ru_leak_rate_per_second = rate, ru_burst_capacity = capacity,
      ru_key_pattern = None, ru_priority = 0\<rparr>"

section \<open>The limiter of the server\<close>

record rate_config =
  rc_capacity :: size_t
  rc_window_seconds :: size_t
  rc_max_requests :: size_t
  rc_use_advanced :: bool
  rc_enable_token_bucket :: bool
  rc_tokens_per_second :: real
  rc_max_tokens :: size_t

text \<open>The settings \<open>mcp_server_create\<close> copies: \<open>|| true\<close> makes the two switches true whatever was asked for.\<close>

definition DEFAULT_RATE_LIMIT_CAPACITY :: size_t where
  "DEFAULT_RATE_LIMIT_CAPACITY = 1024"

definition server_rate_config :: "rate_config \<Rightarrow> rate_config" where
  "server_rate_config config =
     \<lparr>rc_capacity = (if rc_capacity config > 0 then rc_capacity config else DEFAULT_RATE_LIMIT_CAPACITY),
      rc_window_seconds = rc_window_seconds config, rc_max_requests = rc_max_requests config,
      rc_use_advanced = (rc_use_advanced config \<or> True), rc_enable_token_bucket = (rc_enable_token_bucket config \<or> True),
      rc_tokens_per_second = (if rc_tokens_per_second config > 0 then rc_tokens_per_second config else 5),
      rc_max_tokens = (if rc_max_tokens config > 0 then rc_max_tokens config else 20)\<rparr>"

datatype server_limiter = NoLimiter | Advanced mcp_advanced_rate_limiter | Basic mcp_rate_limiter

definition server_rule :: "rate_config \<Rightarrow> mcp_rate_limit_rule" where
  "server_rule cfg =
     (if rc_enable_token_bucket cfg
      then mcp_advanced_rate_limiter_create_token_bucket_rule MCP_RATE_LIMIT_KEY_IP (rc_tokens_per_second cfg) (rc_max_tokens cfg)
      else mcp_advanced_rate_limiter_create_default_rule MCP_RATE_LIMIT_KEY_IP MCP_RATE_LIMIT_FIXED_WINDOW
             (rc_window_seconds cfg) (rc_max_requests cfg))"

text \<open>The part of \<open>mcp_server_create\<close> that makes the limiter; \<open>None\<close> is the jump to \<open>create_error_cleanup\<close>.\<close>

definition create_server_limiter :: "mem \<Rightarrow> rate_config \<Rightarrow> server_limiter option \<times> mem" where
  "create_server_limiter m cfg =
     (if rc_window_seconds cfg > 0 \<and> rc_max_requests cfg > 0
      then if rc_use_advanced cfg
           then (case mcp_advanced_rate_limiter_create m (Some (rc_capacity cfg)) of
                   (None, m1) \<Rightarrow> (None, m1)
                 | (Some l, m1) \<Rightarrow>
                     (case mcp_advanced_rate_limiter_add_rule m1 (server_rule cfg) l of
                        (ok, l1, m2) \<Rightarrow> (if ok then Some (Advanced l1) else None, m2)))
           else (case mcp_rate_limiter_create m (rc_capacity cfg) (rc_window_seconds cfg) (rc_max_requests cfg) of
                   (None, m1) \<Rightarrow> (None, m1)
                 | (Some l, m1) \<Rightarrow> (Some (Basic l), m1))
      else (Some NoLimiter, m))"

definition entry_key :: "client_entry \<Rightarrow> mcp_rate_limit_key_type \<times> string" where
  "entry_key e = (ac_key_type e, ac_key e)"

lemma key_bucket_less: "0 < capacity \<Longrightarrow> key_bucket capacity key < unat capacity"
  by (simp add: key_bucket_def unat_mod_distrib word_gt_0 unat_gt_0)

interpretation clients: chained_table entry_key "\<lambda>cap k. key_bucket cap (snd k)"
  by unfold_locales (rule key_bucket_less)

section \<open>The table as a map\<close>

definition al_inv :: "mcp_advanced_rate_limiter \<Rightarrow> bool" where
  "al_inv l \<longleftrightarrow> chains_ok entry_key (\<lambda>cap k. key_bucket cap (snd k)) (al_capacity l) (al_buckets l) \<and>
     unat (al_capacity l) < 2 ^ 60 \<and> al_count l = of_nat (length (concat (al_buckets l))) \<and>
     (\<forall>kt. length (al_rules l kt) \<le> MAX_RULES_PER_KEY_TYPE)"

definition al_map :: "mcp_advanced_rate_limiter \<Rightarrow> mcp_rate_limit_key_type \<times> string \<Rightarrow> algorithm_data option" where
  "al_map l k = map_option ac_data (find_key entry_key k (concat (al_buckets l)))"

lemma is_client_key: "is_client kt key e \<longleftrightarrow> entry_key e = (kt, key)"
  by (auto simp: is_client_def entry_key_def)

lemma search_chain:
  assumes "al_inv l"
  shows "find (is_client kt key) (al_buckets l ! key_bucket (al_capacity l) key) = find_key entry_key (kt, key) (concat (al_buckets l))"
  using clients.search_bucket [of "al_capacity l" "al_buckets l" "(kt, key)"] assms
  by (simp add: al_inv_def find_key_def is_client_key [abs_def])

lemma resize_clients_ok:
  assumes inv: "al_inv l" and r: "resize_client_table m (al_capacity l * 2) l = (ok, l1, m1)"
  shows "al_inv l1 \<and> al_map l1 = al_map l \<and> al_rules l1 = al_rules l"
proof (cases "l1 = l")
  case False
  let ?C = "al_capacity l * 2"
  obtain nb where nb: "calloc_clients m ?C = (Some nb, m1)" "l1 = l\<lparr>al_buckets := foldl (rehash_client_entry ?C) nb (concat (al_buckets l)), al_capacity := ?C\<rparr>" "?C \<noteq> 0"
    using r False by (auto simp: resize_client_table_def split: prod.splits option.splits if_splits)
  have lim: "unat ?C < 2 ^ 60" "nb = replicate (unat ?C) []"
    using nb(1) by (auto simp: calloc_clients_def split: if_splits prod.splits)
  have step: "rehash_client_entry ?C = (\<lambda>nb e. nb[key_bucket ?C (snd (entry_key e)) := e # nb ! key_bucket ?C (snd (entry_key e))])"
    by (intro ext) (simp add: rehash_client_entry_def Let_def entry_key_def)
  have ok: "chains_ok entry_key (\<lambda>cap k. key_bucket cap (snd k)) (al_capacity l) (al_buckets l)" using inv by (simp add: al_inv_def)
  have "0 < ?C" using nb(3) by (simp add: word_gt_0)
  note t = clients.rehash_table [OF ok this]
  have "length (concat (al_buckets l1)) = length (concat (al_buckets l))"
    using mset_eq_length [OF t(2)] unfolding nb(2) lim(2) step by simp
  then have "al_inv l1" using inv t(1) lim(1) unfolding al_inv_def nb(2) lim(2) step by simp
  moreover have "al_map l1 k = al_map l k" for k using t(3) unfolding al_map_def nb(2) lim(2) step by simp
  ultimately show ?thesis by (auto simp: nb(2))
qed (use inv in simp)

lemma insert_client_ok:
  assumes inv: "al_inv l" and none: "al_map l (kt, key) = None"
  shows "al_inv (insert_client_entry kt key d l) \<and> al_map (insert_client_entry kt key d l) = (al_map l)((kt, key) \<mapsto> d)"
proof -
  define e where "e = \<lparr>ac_key = key, ac_key_type = kt, ac_data = d\<rparr>"
  define i where "i = key_bucket (al_capacity l) key"
  define l1 where "l1 = insert_client_entry kt key d l"
  have e: "entry_key e = (kt, key)" "ac_data e = d" by (simp_all add: e_def entry_key_def)
  have l1: "al_buckets l1 = (al_buckets l)[i := e # al_buckets l ! i]" "al_capacity l1 = al_capacity l" "al_count l1 = al_count l + 1"
    "al_rules l1 = al_rules l" by (simp_all add: l1_def insert_client_entry_def Let_def e_def i_def)
  have ok: "chains_ok entry_key (\<lambda>cap k. key_bucket cap (snd k)) (al_capacity l) (al_buckets l)" using inv by (simp add: al_inv_def)
  have i: "i < length (al_buckets l)" using clients.bucket_in [OF ok, of "(kt, key)"] by (simp add: i_def)
  have nk: "find_key entry_key (kt, key) (al_buckets l ! i) = None"
    using none clients.search_bucket [OF ok, of "(kt, key)"] by (simp add: al_map_def i_def)
  have d: "distinct (map entry_key (e # al_buckets l ! i))"
    using clients.chain_distinct [OF ok i] nk e by (simp add: find_key_None)
  have "find_key entry_key j (e # al_buckets l ! i) = find_key entry_key j (al_buckets l ! i)" if "j \<noteq> (kt, key)" for j
    using that e by (simp add: find_key_def)
  moreover have "find_key entry_key (kt, key) (e # al_buckets l ! i) = Some e" using e by (simp add: find_key_def)
  ultimately have r: "chains_ok entry_key (\<lambda>cap k. key_bucket cap (snd k)) (al_capacity l) (al_buckets l1)"
    "\<forall>j. find_key entry_key j (concat (al_buckets l1)) = (if j = (kt, key) then Some e else find_key entry_key j (concat (al_buckets l)))"
    using clients.replace_bucket [OF ok d, of "(kt, key)"] e by (simp_all add: l1 i_def subset_insertI)
  have "length (concat (al_buckets l1)) = Suc (length (concat (al_buckets l)))"
    using mset_replace_bucket [OF i, of "e # al_buckets l ! i"] unfolding l1
    by (simp del: mset_concat) (metis add_mset_add_single add_right_cancel size_add_mset size_mset union_mset_add_mset_left)
  then have "al_inv l1" using inv r(1) by (simp add: al_inv_def l1)
  moreover have "al_map l1 k = ((al_map l)((kt, key) \<mapsto> d)) k" for k using spec [OF r(2), of k] e(2) by (simp add: al_map_def)
  ultimately show ?thesis by (auto simp: l1_def)
qed

lemma store_data_ok:
  assumes inv: "al_inv l" and old: "al_map l (kt, key) \<noteq> None"
  shows "al_inv (store_data kt key d l) \<and> al_map (store_data kt key d l) = (al_map l)((kt, key) \<mapsto> d)"
proof -
  let ?i = "key_bucket (al_capacity l) key" and ?k = "(kt, key)"
  let ?f = "\<lambda>e. if is_client kt key e then e\<lparr>ac_data := d\<rparr> else e"
  let ?c = "map ?f (al_buckets l ! ?i)"
  have ok: "chains_ok entry_key (\<lambda>cap k. key_bucket cap (snd k)) (al_capacity l) (al_buckets l)" using inv by (simp add: al_inv_def)
  have i: "?i < length (al_buckets l)" using clients.bucket_in [OF ok, of ?k] by simp
  have same: "entry_key (?f e) = entry_key e" for e by (simp add: entry_key_def)
  have keys: "map entry_key ?c = map entry_key (al_buckets l ! ?i)" using same by (simp add: o_def)
  have fk: "find_key entry_key j (map ?f es) = map_option ?f (find_key entry_key j es)" for j es
    using same unfolding find_key_def by (induction es) auto
  have others: "find_key entry_key j ?c = find_key entry_key j (al_buckets l ! ?i)" if "j \<noteq> ?k" for j
  proof (cases "find_key entry_key j (al_buckets l ! ?i)")
    case (Some e)
    then have "entry_key e = j" by (simp add: find_key_Some [OF clients.chain_distinct [OF ok i]])
    then show ?thesis using that unfolding fk Some by (simp add: is_client_key)
  qed (simp only: fk option.map)
  obtain e where e: "find_key entry_key ?k (al_buckets l ! ?i) = Some e"
    using old clients.search_bucket [OF ok, of ?k] by (auto simp: al_map_def)
  then have "entry_key e = ?k" by (simp add: find_key_Some [OF clients.chain_distinct [OF ok i]])
  then have here: "find_key entry_key ?k ?c = Some (e\<lparr>ac_data := d\<rparr>)" unfolding fk e by (simp add: is_client_key)
  have dc: "distinct (map entry_key ?c)" using clients.chain_distinct [OF ok i] keys by metis
  have sub: "entry_key ` set ?c \<subseteq> insert ?k (entry_key ` set (al_buckets l ! ?i))" unfolding list.set_map [symmetric] keys by (rule subset_insertI)
  note rb = clients.replace_bucket [OF ok, of ?c ?k, unfolded snd_conv here, OF dc sub others]
  have r1: "chains_ok entry_key (\<lambda>cap k. key_bucket cap (snd k)) (al_capacity l) ((al_buckets l)[?i := ?c])"
    by (rule conjunct1 [OF rb])
  have r2: "\<forall>j. find_key entry_key j (concat ((al_buckets l)[?i := ?c])) = (if j = ?k then Some (e\<lparr>ac_data := d\<rparr>) else find_key entry_key j (concat (al_buckets l)))"
    by (rule conjunct2 [OF rb])
  have "length (concat ((al_buckets l)[?i := ?c])) = length (concat (al_buckets l))"
    unfolding length_concat map_update length_map by (metis list_update_id map_update)
  then have "al_inv (store_data kt key d l)" using inv r1 by (simp add: al_inv_def store_data_def Let_def)
  moreover have "al_map (store_data kt key d l) k = ((al_map l)(?k \<mapsto> d)) k" for k
    using spec [OF r2, of k] by (simp add: al_map_def store_data_def Let_def)
  ultimately show ?thesis by auto
qed

text \<open>The data a check works on: that of the client, or fresh data for the rule that matches the key.\<close>

lemma find_or_create_client_cases:
  assumes inv: "al_inv l" and f: "find_or_create_client_entry fl m i key kt l = (r, l1, m1)"
  shows "al_inv l1 \<and> al_rules l1 = al_rules l \<and>
    (case r of
       None \<Rightarrow> al_map l1 = al_map l \<and> al_map l (kt, key) = None
     | Some d \<Rightarrow> al_map l1 = (al_map l)((kt, key) \<mapsto> d) \<and>
         (al_map l (kt, key) = Some d \<or>
          al_map l (kt, key) = None \<and>
          (\<exists>rule m2 m3. find_matching_rule l kt key = Some rule \<and> initialize_algorithm_data fl m2 i rule = (Some d, m3))))"
proof (cases "find_key entry_key (kt, key) (concat (al_buckets l))")
  case (Some e)
  then have "r = Some (ac_data e)" "l1 = l" using f search_chain [OF inv, of kt key] by (auto simp: find_or_create_client_entry_def Let_def)
  then show ?thesis using inv Some by (auto simp: al_map_def)
next
  case None
  then have none: "al_map l (kt, key) = None" by (simp add: al_map_def)
  let ?i = "key_bucket (al_capacity l) key"
  have miss: "find (is_client kt key) (al_buckets l ! ?i) = None" using search_chain [OF inv, of kt key] None by simp
  show ?thesis
  proof (cases r)
    case None
    then have "l1 = l" using f miss
      by (auto simp: find_or_create_client_entry_def Let_def split: prod.splits option.splits if_splits)
    then show ?thesis using None none inv by simp
  next
    case (Some d)
    define l0 where "l0 = insert_client_entry kt key d l"
    obtain rule m2 m3 where ini: "find_matching_rule l kt key = Some rule" "initialize_algorithm_data fl m2 i rule = (Some d, m3)"
      and fin: "l1 = l0 \<or> (\<exists>ok m4 m5. resize_client_table m4 (al_capacity l0 * 2) l0 = (ok, l1, m5))"
      using f miss Some unfolding l0_def
      by (auto simp: find_or_create_client_entry_def Let_def mcp_strdup_def split: prod.splits option.splits if_splits) blast
    have a: "al_inv l0 \<and> al_map l0 = (al_map l)((kt, key) \<mapsto> d)" unfolding l0_def by (rule insert_client_ok [OF inv none])
    have "al_inv l1 \<and> al_map l1 = al_map l0 \<and> al_rules l1 = al_rules l0" using fin resize_clients_ok a by blast
    moreover have "al_rules l0 = al_rules l" by (simp add: l0_def insert_client_entry_def Let_def)
    ultimately show ?thesis using a Some none ini by auto
  qed
qed

section \<open>Checks on the map\<close>

lemma find_matching_rule_cong: "al_rules l1 = al_rules l \<Longrightarrow> find_matching_rule l1 kt key = find_matching_rule l kt key"
  by (simp add: find_matching_rule_def)

definition client_data :: "(real \<Rightarrow> real) \<Rightarrow> int \<Rightarrow> mcp_rate_limit_rule \<Rightarrow> algorithm_data option \<Rightarrow> algorithm_data \<Rightarrow> bool" where
  "client_data fl i rule stored d \<longleftrightarrow> stored = Some d \<or> stored = None \<and> (\<exists>m m'. initialize_algorithm_data fl m i rule = (Some d, m'))"

text \<open>A check of one key refuses the request and leaves the data as it is, or it runs the algorithm of the
  rule on the data of the client and stores the result.\<close>

lemma check_key_cases:
  assumes inv: "al_inv l"
  obtains (refused) l' where "check_key fl ck kt key l = Done (False, l')" "al_inv l'" "al_map l' = al_map l" "al_rules l' = al_rules l"
  | (undefined) rule d where "find_matching_rule l kt key = Some rule" "client_data fl (ck_init ck kt) rule (al_map l (kt, key)) d"
      "check_algorithm fl rule (ck_now ck) d = Undefined" "check_key fl ck kt key l = Undefined"
  | (checked) rule d ok d' l' where "find_matching_rule l kt key = Some rule"
      "client_data fl (ck_init ck kt) rule (al_map l (kt, key)) d" "check_algorithm fl rule (ck_now ck) d = Done (ok, d')"
      "check_key fl ck kt key l = Done (ok, l')" "al_inv l'" "al_map l' = (al_map l)((kt, key) \<mapsto> d')" "al_rules l' = al_rules l"
proof -
  obtain r l1 m1 where f: "find_or_create_client_entry fl (ck_mem ck kt) (ck_init ck kt) key kt l = (r, l1, m1)" by (metis prod_cases3)
  note fc = find_or_create_client_cases [OF inv f]
  show ?thesis
  proof (cases r)
    case None
    then show ?thesis using fc f refused [of l1] by (simp add: check_key_def)
  next
    case (Some d)
    have l1: "al_inv l1" "al_rules l1 = al_rules l" "al_map l1 = (al_map l)((kt, key) \<mapsto> d)" using fc Some by auto
    note rl = find_matching_rule_cong [OF l1(2), of kt key]
    show ?thesis
    proof (cases "find_matching_rule l kt key")
      case None
      then have "al_map l1 = al_map l" using fc Some by auto
      moreover have "check_key fl ck kt key l = Done (False, l1)" using f Some None rl by (simp add: check_key_def)
      ultimately show ?thesis using l1 by (intro refused)
    next
      case rule: (Some rule)
      have cd: "client_data fl (ck_init ck kt) rule (al_map l (kt, key)) d" using fc Some rule by (auto simp: client_data_def)
      show ?thesis
      proof (cases "check_algorithm fl rule (ck_now ck) d")
        case Undefined
        then show ?thesis using f Some rule rl cd by (intro undefined) (simp_all add: check_key_def)
      next
        case (Done x)
        obtain ok d' where x: "x = (ok, d')" by fastforce
        let ?l = "store_data kt key d' l1"
        have "al_inv ?l \<and> al_map ?l = (al_map l1)((kt, key) \<mapsto> d')" by (rule store_data_ok [OF l1(1)]) (simp add: l1(3))
        moreover have "al_rules ?l = al_rules l" using l1(2) by (simp add: store_data_def Let_def)
        moreover have "check_key fl ck kt key l = Done (ok, ?l)" using f Some rule rl Done x by (simp add: check_key_def)
        ultimately show ?thesis using rule cd Done x l1(3) by (intro checked [of rule d ok d' ?l]) simp_all
      qed
    qed
  qed
qed

lemma al_counters [simp]:
  "al_inv (l\<lparr>al_total := a\<rparr>) = al_inv l" "al_inv (l\<lparr>al_allowed := a\<rparr>) = al_inv l" "al_inv (l\<lparr>al_denied := a\<rparr>) = al_inv l"
  "al_map (l\<lparr>al_total := a\<rparr>) = al_map l" "al_map (l\<lparr>al_allowed := a\<rparr>) = al_map l" "al_map (l\<lparr>al_denied := a\<rparr>) = al_map l"
  by (simp_all add: al_inv_def al_map_def fun_eq_iff)

lemma add_rule_ok:
  assumes inv: "al_inv l" and a: "mcp_advanced_rate_limiter_add_rule m rule l = (ok, l1, m1)"
  shows "al_inv l1 \<and> al_map l1 = al_map l" "ok \<Longrightarrow> al_rules l1 = (al_rules l)(ru_key_type rule := rule # al_rules l (ru_key_type rule))"
    "\<not> ok \<Longrightarrow> l1 = l"
proof -
  have r: "(l1 = l \<and> \<not> ok) \<or> (ok \<and> length (al_rules l (ru_key_type rule)) < MAX_RULES_PER_KEY_TYPE \<and>
      l1 = l\<lparr>al_rules := (al_rules l)(ru_key_type rule := rule # al_rules l (ru_key_type rule))\<rparr>)"
    using a by (auto simp: mcp_advanced_rate_limiter_add_rule_def split: if_splits prod.splits bool.splits option.splits)
  then show "al_inv l1 \<and> al_map l1 = al_map l" using inv by (auto simp: al_inv_def al_map_def fun_eq_iff)
  show "ok \<Longrightarrow> al_rules l1 = (al_rules l)(ru_key_type rule := rule # al_rules l (ru_key_type rule))" "\<not> ok \<Longrightarrow> l1 = l" using r by auto
qed

lemma limiter_empty:
  assumes "mcp_advanced_rate_limiter_create m hint = (Some l, m1)"
  shows "al_inv l" "al_map l = Map.empty" "al_rules l = (\<lambda>_. [])"
proof -
  have cap: "\<not> al_capacity l < 16" "unat (al_capacity l) < 2 ^ 60" "al_buckets l = replicate (unat (al_capacity l)) []" "al_count l = 0"
    and rules: "al_rules l = (\<lambda>_. [])"
    using assms by (auto simp: mcp_advanced_rate_limiter_create_def calloc_clients_def Let_def split: if_splits prod.splits option.splits)
  have "0 < al_capacity l" using cap(1) by (cases "al_capacity l = 0") (simp_all add: word_gt_0)
  then show "al_inv l" using cap rules by (simp add: al_inv_def chains_ok_def)
  show "al_map l = Map.empty" by (simp add: al_map_def cap(3) find_key_def fun_eq_iff)
  show "al_rules l = (\<lambda>_. [])" by (rule rules)
qed

lemmas rule_defs = mcp_advanced_rate_limiter_create_token_bucket_rule_def mcp_advanced_rate_limiter_create_leaky_bucket_rule_def
  mcp_advanced_rate_limiter_create_default_rule_def

lemma check_key_counters:
  assumes "check_key fl ck kt key l = Done (ok, l')"
  shows "al_total l' = al_total l \<and> al_allowed l' = al_allowed l \<and> al_denied l' = al_denied l"
proof -
  obtain r l1 m1 where f: "find_or_create_client_entry fl (ck_mem ck kt) (ck_init ck kt) key kt l = (r, l1, m1)" by (metis prod_cases3)
  have "al_total l1 = al_total l \<and> al_allowed l1 = al_allowed l \<and> al_denied l1 = al_denied l"
    using f by (auto simp: find_or_create_client_entry_def resize_client_table_def insert_client_entry_def Let_def
        split: option.splits prod.splits if_splits)
  moreover have "al_total l' = al_total l1 \<and> al_allowed l' = al_allowed l1 \<and> al_denied l' = al_denied l1"
    using assms f by (auto simp: check_key_def store_data_def Let_def split: option.splits checked.splits prod.splits)
  ultimately show ?thesis by simp
qed

lemma check_keys_keep:
  assumes "al_inv l" "check_keys fl ck keys l = Done (ok, l')"
  shows "al_inv l' \<and> al_rules l' = al_rules l \<and> al_total l' = al_total l \<and> al_allowed l' = al_allowed l \<and> al_denied l' = al_denied l \<and>
    (\<forall>kt key. (kt, Some key) \<notin> set keys \<longrightarrow> al_map l' (kt, key) = al_map l (kt, key))"
  using assms
proof (induction fl ck keys l rule: check_keys.induct)
  case (3 fl ck kt key keys l)
  from 3(2) show ?case
  proof (cases rule: check_key_cases [where fl = fl and ck = ck and kt = kt and key = key])
    case (refused l1)
    have "check_keys fl ck keys l1 = Done (ok, l')" using 3(3) refused(1) by simp
    from 3(1) [OF refused(1) refl refl refused(2) this] show ?thesis using refused check_key_counters [OF refused(1)] by auto
  next
    case (undefined rule d)
    then show ?thesis using 3(3) by simp
  next
    case (checked rule d b d' l1)
    show ?thesis
    proof (cases b)
      case True
      then show ?thesis using 3(3) checked check_key_counters [OF checked(4)] by auto
    next
      case False
      have "check_keys fl ck keys l1 = Done (ok, l')" using 3(3) checked(4) False by simp
      from 3(1) [OF checked(4) refl _ checked(5) this] False show ?thesis using checked check_key_counters [OF checked(4)] by auto
    qed
  qed
qed auto

definition algorithm_of :: "algorithm_data \<Rightarrow> mcp_rate_limit_algorithm" where
  "algorithm_of d = (case d of FixedWindow _ _ \<Rightarrow> MCP_RATE_LIMIT_FIXED_WINDOW | SlidingWindow _ _ _ _ \<Rightarrow> MCP_RATE_LIMIT_SLIDING_WINDOW
     | TokenBucket _ _ _ _ \<Rightarrow> MCP_RATE_LIMIT_TOKEN_BUCKET | LeakyBucket _ _ _ _ \<Rightarrow> MCP_RATE_LIMIT_LEAKY_BUCKET)"

lemma wrong_layout: "algorithm_of d \<noteq> ru_algorithm rule \<Longrightarrow> check_algorithm fl rule now d = Undefined"
  by (cases d; cases "ru_algorithm rule") (simp_all add: algorithm_of_def check_algorithm_def)

lemma better_rule_keeps:
  assumes "\<forall>r \<in> set rs. ru_priority r < ru_priority rule"
  shows "foldl (better_rule key) (Some rule, ru_priority rule) rs = (Some rule, ru_priority rule)"
  using assms by (induction rs) (auto simp: better_rule_def)

text \<open>A pattern with a \<open>*\<close> at both ends is taken for a prefix, with the first \<open>*\<close> as a character.\<close>

lemma contains_pattern_is_prefix:
  assumes "s \<noteq> []"
  shows "key_matches_pattern key (''*'' @ s @ ''*'') \<longleftrightarrow> prefix (CHR ''*'' # s) key"
proof -
  have "key_matches_pattern key (''*'' @ s @ ''*'') \<longleftrightarrow> ''*'' @ s @ ''*'' = key \<or> take (Suc (length s)) key = CHR ''*'' # s"
    by (simp add: key_matches_pattern_def Let_def)
  also have "\<dots> \<longleftrightarrow> prefix (CHR ''*'' # s) key"
  proof
    assume "''*'' @ s @ ''*'' = key \<or> take (Suc (length s)) key = CHR ''*'' # s"
    then show "prefix (CHR ''*'' # s) key" by (metis append_Cons append_Nil prefixI take_is_prefix)
  next
    assume "prefix (CHR ''*'' # s) key"
    then show "''*'' @ s @ ''*'' = key \<or> take (Suc (length s)) key = CHR ''*'' # s" by (auto simp: prefix_def)
  qed
  finally show ?thesis .
qed

section \<open>Properties\<close>

text \<open>Claim C24.  A check keeps the table of clients well formed and the rules as they are, counts the request as
  allowed or as denied, and touches the data of no client but those named by its arguments.\<close>

theorem advanced_check_keeps:
  assumes "al_inv l" and "mcp_advanced_rate_limiter_check fl ck ip_address user_id api_key custom_key l = Done (ok, l')"
    and "\<not> (ip_address = None \<and> user_id = None \<and> api_key = None \<and> custom_key = None)"
  shows "al_inv l' \<and> al_rules l' = al_rules l \<and> al_total l' = al_total l + 1 \<and>
    al_allowed l' = al_allowed l + (if ok then 1 else 0) \<and> al_denied l' = al_denied l + (if ok then 0 else 1) \<and>
    (\<forall>kt key. (kt, Some key) \<notin> {(MCP_RATE_LIMIT_KEY_IP, ip_address), (MCP_RATE_LIMIT_KEY_USER_ID, user_id),
       (MCP_RATE_LIMIT_KEY_API_KEY, api_key), (MCP_RATE_LIMIT_KEY_CUSTOM, custom_key)} \<longrightarrow>
       al_map l' (kt, key) = al_map l (kt, key))"
proof -
  let ?keys = "[(MCP_RATE_LIMIT_KEY_API_KEY, api_key), (MCP_RATE_LIMIT_KEY_USER_ID, user_id),
    (MCP_RATE_LIMIT_KEY_IP, ip_address), (MCP_RATE_LIMIT_KEY_CUSTOM, custom_key)]" and ?l = "l\<lparr>al_total := al_total l + 1\<rparr>"
  obtain b l1 where c: "check_keys fl ck ?keys ?l = Done (b, l1)"
    and r: "ok = b" "l' = (if b then l1\<lparr>al_allowed := al_allowed l1 + 1\<rparr> else l1\<lparr>al_denied := al_denied l1 + 1\<rparr>)"
    using assms(2,3) unfolding mcp_advanced_rate_limiter_check_def
    by (cases "check_keys fl ck ?keys ?l") (auto split: if_splits bool.splits)
  have "al_inv ?l" using assms(1) by simp
  note k = check_keys_keep [OF this c]
  have set: "(kt, Some key) \<in> set ?keys \<longleftrightarrow> (kt, Some key) \<in> {(MCP_RATE_LIMIT_KEY_IP, ip_address), (MCP_RATE_LIMIT_KEY_USER_ID, user_id),
       (MCP_RATE_LIMIT_KEY_API_KEY, api_key), (MCP_RATE_LIMIT_KEY_CUSTOM, custom_key)}" for kt key by auto
  have mp: "al_map l' (kt, key) = al_map l (kt, key)" if "(kt, Some key) \<notin> set ?keys" for kt key
    using k that by (simp add: r(2))
  show ?thesis using k unfolding set [symmetric] using mp by (simp add: r)
qed

theorem advanced_check_keeps_witness:
  "\<exists>l m1. mcp_advanced_rate_limiter_create [] None = (Some l, m1) \<and>
     (case mcp_advanced_rate_limiter_check (\<lambda>x. x) \<lparr>ck_now = 1, ck_init = (\<lambda>_. 1), ck_mem = (\<lambda>_. [])\<rparr> (Some ''a'') None None None l of
        Done (ok, l') \<Rightarrow> al_inv l' \<and> \<not> ok \<and> al_denied l' = 1
      | Undefined \<Rightarrow> False)"
proof -
  let ?ck = "\<lparr>ck_now = 1, ck_init = (\<lambda>_. 1), ck_mem = (\<lambda>_. [])\<rparr>"
  obtain l m1 where c: "mcp_advanced_rate_limiter_create [] None = (Some l, m1)" and z: "al_denied l = 0"
    by (simp add: mcp_advanced_rate_limiter_create_def calloc_clients_def Let_def)
  note e = limiter_empty [OF c]
  have "mcp_advanced_rate_limiter_check (\<lambda>x. x) ?ck (Some ''a'') None None None l =
      Done (False, l\<lparr>al_total := al_total l + 1, al_denied := al_denied l + 1\<rparr>)"
    using search_chain [OF e(1), of MCP_RATE_LIMIT_KEY_IP "''a''"] e(2,3)
    by (simp add: mcp_advanced_rate_limiter_check_def check_key_def find_or_create_client_entry_def find_matching_rule_def al_map_def fun_eq_iff)
  from this advanced_check_keeps [OF e(1) this] c z show ?thesis by simp
qed

text \<open>Claim C38.  The data of a client keeps the layout of the algorithm it was made for.  When a rule with a higher priority and
  another algorithm is added for a client that has data, the next check reads that data as another member of
  the union.\<close>

theorem rule_switch_undefined:
  assumes "al_inv l" and "al_map l (MCP_RATE_LIMIT_KEY_IP, ip) = Some d" and "algorithm_of d \<noteq> ru_algorithm rule"
    and "ru_key_type rule = MCP_RATE_LIMIT_KEY_IP" "ru_key_pattern rule = None" "0 \<le> ru_priority rule"
    and "\<forall>r \<in> set (al_rules l MCP_RATE_LIMIT_KEY_IP). ru_priority r < ru_priority rule"
    and "mcp_advanced_rate_limiter_add_rule m rule l = (True, l1, m1)"
  shows "mcp_advanced_rate_limiter_check fl ck (Some ip) None None None l1 = Undefined"
proof -
  let ?l = "l1\<lparr>al_total := al_total l1 + 1\<rparr>" and ?K = MCP_RATE_LIMIT_KEY_IP
  note a = add_rule_ok [OF assms(1,8)]
  have inv: "al_inv ?l" and mp: "al_map ?l (?K, ip) = Some d" using a(1) assms(2) by simp_all
  have rl: "find_matching_rule ?l ?K ip = Some rule"
    using a(2) better_rule_keeps [OF assms(7), of ip] assms(4-6) by (simp add: find_matching_rule_def better_rule_def)
  from inv have "check_key fl ck ?K ip ?l = Undefined"
  proof (cases rule: check_key_cases [where fl = fl and ck = ck and kt = ?K and key = ip])
    case (refused l')
    obtain r l2 m2 where f: "find_or_create_client_entry fl (ck_mem ck ?K) (ck_init ck ?K) ip ?K ?l = (r, l2, m2)" by (metis prod_cases3)
    have r: "r = Some d" "al_rules l2 = al_rules ?l" using find_or_create_client_cases [OF inv f] mp by (auto split: option.splits)
    then have "check_key fl ck ?K ip ?l = Undefined"
      using f rl find_matching_rule_cong [OF r(2), of ?K ip] wrong_layout [OF assms(3)] by (simp add: check_key_def)
    then show ?thesis .
  next
    case (checked r d0 ok d' l')
    then show ?thesis using rl mp wrong_layout [OF assms(3)] by (simp add: client_data_def)
  qed
  then show ?thesis by (simp add: mcp_advanced_rate_limiter_check_def)
qed

theorem rule_switch_undefined_witness:
  "\<exists>l l1 m1. al_map l (MCP_RATE_LIMIT_KEY_IP, ''a'') = Some (FixedWindow 0 1) \<and>
     mcp_advanced_rate_limiter_add_rule []
       ((mcp_advanced_rate_limiter_create_token_bucket_rule MCP_RATE_LIMIT_KEY_IP 5 20)\<lparr>ru_priority := 1\<rparr>) l = (True, l1, m1) \<and>
     mcp_advanced_rate_limiter_check (\<lambda>x. x) \<lparr>ck_now = 1, ck_init = (\<lambda>_. 1), ck_mem = (\<lambda>_. [])\<rparr> (Some ''a'') None None None l1 = Undefined"
proof -
  let ?rule = "(mcp_advanced_rate_limiter_create_token_bucket_rule MCP_RATE_LIMIT_KEY_IP 5 20)\<lparr>ru_priority := 1\<rparr>"
  let ?old = "mcp_advanced_rate_limiter_create_default_rule MCP_RATE_LIMIT_KEY_IP MCP_RATE_LIMIT_FIXED_WINDOW 60 2"
  obtain l0 m0 where c: "mcp_advanced_rate_limiter_create [] None = (Some l0, m0)"
    by (simp add: mcp_advanced_rate_limiter_create_def calloc_clients_def Let_def)
  note e = limiter_empty [OF c]
  obtain l1 m1 where a: "mcp_advanced_rate_limiter_add_rule [] ?old l0 = (True, l1, m1)"
    using e(3) by (simp add: mcp_advanced_rate_limiter_add_rule_def MAX_RULES_PER_KEY_TYPE_def rule_defs)
  define l where "l = insert_client_entry MCP_RATE_LIMIT_KEY_IP ''a'' (FixedWindow 0 1) l1"
  have l1: "al_inv l1" "al_map l1 = Map.empty" "al_rules l1 MCP_RATE_LIMIT_KEY_IP = [?old]"
    using add_rule_ok [OF e(1) a] e(2,3) by (simp_all add: rule_defs)
  have l: "al_inv l" "al_map l (MCP_RATE_LIMIT_KEY_IP, ''a'') = Some (FixedWindow 0 1)" "al_rules l MCP_RATE_LIMIT_KEY_IP = [?old]"
    using insert_client_ok [OF l1(1), of MCP_RATE_LIMIT_KEY_IP "''a''" "FixedWindow 0 1"] l1(2,3)
    by (simp_all add: l_def insert_client_entry_def Let_def)
  obtain l2 m2 where b: "mcp_advanced_rate_limiter_add_rule [] ?rule l = (True, l2, m2)"
    using l(3) by (simp add: mcp_advanced_rate_limiter_add_rule_def MAX_RULES_PER_KEY_TYPE_def rule_defs)
  have "mcp_advanced_rate_limiter_check (\<lambda>x. x) \<lparr>ck_now = 1, ck_init = (\<lambda>_. 1), ck_mem = (\<lambda>_. [])\<rparr> (Some ''a'') None None None l2 = Undefined"
    by (rule rule_switch_undefined [OF l(1,2) _ _ _ _ _ b]) (simp_all add: l(3) rule_defs algorithm_of_def)
  then show ?thesis using l(2) b by blast
qed

end
