(* ===== verification/Mcp_Admission.thy ===== *)
theory Mcp_Admission
  imports Mcp_Advanced_Limiter
begin

text \<open>
  How many requests the advanced rate limiter lets through.  The locale \<open>admission_policy\<close> is the contract of an
  algorithm for one client, and its lemma carries the contract through the table to runs of checks of
  any number of clients; the four algorithms of \<open>src/server/mcp_advanced_rate_limiter.c\<close> are its
  interpretations, and the bounds of the properties follow from their contracts.
\<close>

section \<open>Runs of checks\<close>

text \<open>
  A specification device: the answers to a sequence of calls of \<open>mcp_advanced_rate_limiter_check\<close> that do not overlap, each of
  which finishes before the next begins.  The code holds only a read lock during a check, so that checks of two threads may
  overlap, and two of them may then spend the same token; the bounds of this theory are about checks that do not.
\<close>

fun run_limiter :: "(real \<Rightarrow> real) \<Rightarrow> (check_env \<times> string) list \<Rightarrow> mcp_advanced_rate_limiter \<Rightarrow> (bool list \<times> mcp_advanced_rate_limiter) checked" where
  "run_limiter fl [] l = Done ([], l)"
| "run_limiter fl ((ck, ip) # reqs) l =
     (case mcp_advanced_rate_limiter_check fl ck (Some ip) None None None l of
        Undefined \<Rightarrow> Undefined
      | Done (ok, l1) \<Rightarrow>
          (case run_limiter fl reqs l1 of Undefined \<Rightarrow> Undefined | Done (oks, l2) \<Rightarrow> Done (ok # oks, l2)))"

fun allowed_at :: "string \<Rightarrow> (check_env \<times> string) list \<Rightarrow> bool list \<Rightarrow> int list" where
  "allowed_at ip ((ck, name) # reqs) (ok # oks) = (if ok \<and> name = ip then [ck_now ck] else []) @ allowed_at ip reqs oks"
| "allowed_at ip _ _ = []"

text \<open>The clock of a run: positive, never back, and a second reading in a check is not before the first.\<close>

definition clock_ok :: "(check_env \<times> string) list \<Rightarrow> bool" where
  "clock_ok reqs \<longleftrightarrow> sorted (map (ck_now \<circ> fst) reqs) \<and>
     (\<forall>(ck, ip) \<in> set reqs. 0 < ck_now ck \<and> ck_now ck \<le> ck_init ck MCP_RATE_LIMIT_KEY_IP)"

text \<open>A client without data was never let through.  The contract of an algorithm: a relation between the data of a client, the time of its last check and
  the times at which it was let through, which fresh data satisfies and every check keeps.\<close>

definition client_good :: "(algorithm_data \<Rightarrow> int \<Rightarrow> int list \<Rightarrow> bool) \<Rightarrow> mcp_advanced_rate_limiter \<Rightarrow> int \<Rightarrow> string \<Rightarrow> int list \<Rightarrow> bool" where
  "client_good good l now ip hist \<longleftrightarrow>
     (case al_map l (MCP_RATE_LIMIT_KEY_IP, ip) of None \<Rightarrow> hist = [] | Some d \<Rightarrow> \<exists>clock \<le> now. good d clock hist)"

locale admission_policy =
  fixes fl :: "real \<Rightarrow> real" and rule :: mcp_rate_limit_rule and good :: "algorithm_data \<Rightarrow> int \<Rightarrow> int list \<Rightarrow> bool"
  assumes fresh: "initialize_algorithm_data fl m i rule = (Some d, m') \<Longrightarrow> 0 < now \<Longrightarrow> now \<le> i \<Longrightarrow> good d now []"
    and step: "good d clock hist \<Longrightarrow> 0 < now \<Longrightarrow> clock \<le> now \<Longrightarrow>
      \<exists>ok d'. check_algorithm fl rule now d = Done (ok, d') \<and> good d' now (hist @ (if ok then [now] else []))"
begin

lemma client_good_later: "client_good good l t ip hist \<Longrightarrow> t \<le> u \<Longrightarrow> client_good good l u ip hist"
  unfolding client_good_def by (cases "al_map l (MCP_RATE_LIMIT_KEY_IP, ip)") (auto intro: order_trans)

lemma check_good:
  assumes inv: "al_inv l" and rule: "\<forall>ip. find_matching_rule l MCP_RATE_LIMIT_KEY_IP ip = Some rule"
    and good: "\<forall>ip. client_good good l (ck_now ck) ip (hist ip)"
    and time: "0 < ck_now ck" "ck_now ck \<le> ck_init ck MCP_RATE_LIMIT_KEY_IP"
  obtains ok l' where "mcp_advanced_rate_limiter_check fl ck (Some name) None None None l = Done (ok, l')" "al_inv l'" "al_rules l' = al_rules l"
    "\<forall>ip. client_good good l' (ck_now ck) ip (hist ip @ (if ok \<and> name = ip then [ck_now ck] else []))"
proof -
  let ?K = MCP_RATE_LIMIT_KEY_IP and ?l = "l\<lparr>al_total := al_total l + 1\<rparr>"
  have inv': "al_inv ?l" using inv by simp
  have rl: "find_matching_rule ?l ?K name = Some rule" using rule by (simp add: find_matching_rule_def)
  have fin: "mcp_advanced_rate_limiter_check fl ck (Some name) None None None l =
      Done (ok, if ok then l1\<lparr>al_allowed := al_allowed l1 + 1\<rparr> else l1\<lparr>al_denied := al_denied l1 + 1\<rparr>)"
    if "check_key fl ck ?K name ?l = Done (ok, l1)" for ok l1
    using that by (simp add: mcp_advanced_rate_limiter_check_def)
  have key: "\<exists>ok d'. check_algorithm fl rule (ck_now ck) d = Done (ok, d') \<and> good d' (ck_now ck) (hist name @ (if ok then [ck_now ck] else []))"
    if cd: "client_data fl (ck_init ck ?K) rule (al_map l (?K, name)) d" for d
  proof (cases "al_map l (?K, name)")
    case None
    then obtain m m' where "initialize_algorithm_data fl m (ck_init ck ?K) rule = (Some d, m')" using cd by (auto simp: client_data_def)
    from fresh [OF this time] step time have "\<exists>ok d'. check_algorithm fl rule (ck_now ck) d = Done (ok, d') \<and> good d' (ck_now ck) ([] @ (if ok then [ck_now ck] else []))" by blast
    moreover have "hist name = []" using spec [OF good, of name] None by (simp add: client_good_def)
    ultimately show ?thesis by simp
  next
    case (Some x)
    then obtain clock where "clock \<le> ck_now ck" "good d clock (hist name)"
      using spec [OF good, of name] cd by (auto simp: client_good_def client_data_def)
    then show ?thesis using step time by blast
  qed
  from inv' show ?thesis
  proof (cases rule: check_key_cases [where fl = fl and ck = ck and kt = ?K and key = name])
    case (refused l')
    have "\<forall>ip. client_good good (l'\<lparr>al_denied := al_denied l' + 1\<rparr>) (ck_now ck) ip (hist ip)" using good refused(3) by (simp add: client_good_def)
    then show ?thesis using that [OF fin [OF refused(1)]] refused by simp
  next
    case (undefined r d)
    then show ?thesis using rl key [of d] by auto
  next
    case (checked r d ok d' l')
    have g: "good d' (ck_now ck) (hist name @ (if ok then [ck_now ck] else []))" using checked(1,2,3) rl key [of d] by auto
    let ?m = "if ok then l'\<lparr>al_allowed := al_allowed l' + 1\<rparr> else l'\<lparr>al_denied := al_denied l' + 1\<rparr>"
    have mp: "al_map ?m = (al_map l)((?K, name) \<mapsto> d')" using checked(6) by simp
    have "client_good good ?m (ck_now ck) ip (hist ip @ (if ok \<and> name = ip then [ck_now ck] else []))" for ip
      using spec [OF good, of ip] g unfolding client_good_def mp by (cases "ip = name"; cases "al_map l (?K, ip)") auto
    then show ?thesis using that [OF fin [OF checked(4)]] checked(5,7) by simp
  qed
qed

lemma run_good:
  assumes "al_inv l" "\<forall>ip. find_matching_rule l MCP_RATE_LIMIT_KEY_IP ip = Some rule" "clock_ok reqs"
    "\<forall>ip. client_good good l t ip (hist ip)" "\<forall>(ck, ip) \<in> set reqs. t \<le> ck_now ck"
  shows "\<exists>oks l' u. run_limiter fl reqs l = Done (oks, l') \<and> (\<forall>ip. client_good good l' u ip (hist ip @ allowed_at ip reqs oks))"
  using assms
proof (induction reqs arbitrary: l hist t)
  case Nil
  then show ?case by auto
next
  case (Cons q reqs)
  obtain ck name where q: "q = (ck, name)" by fastforce
  have t: "t \<le> ck_now ck" "0 < ck_now ck" "ck_now ck \<le> ck_init ck MCP_RATE_LIMIT_KEY_IP" "clock_ok reqs" "\<forall>(ck', ip) \<in> set reqs. ck_now ck \<le> ck_now ck'"
    using Cons.prems(3,5) q by (auto simp: clock_ok_def)
  have "\<forall>ip. client_good good l (ck_now ck) ip (hist ip)"
    using Cons.prems(4) t(1) client_good_later by blast
  from check_good [OF Cons.prems(1,2) this t(2,3), of name] obtain ok l1 where c:
    "mcp_advanced_rate_limiter_check fl ck (Some name) None None None l = Done (ok, l1)" "al_inv l1" "al_rules l1 = al_rules l"
    "\<forall>ip. client_good good l1 (ck_now ck) ip (hist ip @ (if ok \<and> name = ip then [ck_now ck] else []))" by blast
  have "\<forall>ip. find_matching_rule l1 MCP_RATE_LIMIT_KEY_IP ip = Some rule" using Cons.prems(2) find_matching_rule_cong [OF c(3)] by simp
  from Cons.IH [OF c(2) this t(4) c(4) t(5)] obtain oks l' u where
    "run_limiter fl reqs l1 = Done (oks, l')" "\<forall>ip. client_good good l' u ip ((hist ip @ (if ok \<and> name = ip then [ck_now ck] else [])) @ allowed_at ip reqs oks)" by blast
  then have "run_limiter fl (q # reqs) l = Done (ok # oks, l') \<and> (\<forall>ip. client_good good l' u ip (hist ip @ allowed_at ip (q # reqs) (ok # oks)))"
    using q c(1) by simp
  then show ?case by blast
qed

text \<open>A run on a limiter without clients: every check returns, and the clients that were let through have good data.\<close>

lemma run_policy:
  assumes "al_inv l" "al_map l = Map.empty" "\<forall>ip. find_matching_rule l MCP_RATE_LIMIT_KEY_IP ip = Some rule" "clock_ok reqs"
  shows "\<exists>oks l'. run_limiter fl reqs l = Done (oks, l') \<and>
    (\<forall>ip. allowed_at ip reqs oks = [] \<or> (\<exists>d clock. good d clock (allowed_at ip reqs oks)))"
proof -
  have "\<forall>ip. client_good good l 0 ip []" using assms(2) by (simp add: client_good_def)
  moreover have "\<forall>(ck, ip) \<in> set reqs. 0 \<le> ck_now ck" using assms(4) by (auto simp: clock_ok_def)
  ultimately obtain oks l' u where "run_limiter fl reqs l = Done (oks, l')" and g: "\<forall>ip. client_good good l' u ip ([] @ allowed_at ip reqs oks)"
    using run_good [OF assms(1,3,4), of 0 "\<lambda>_. []"] by auto
  moreover have "allowed_at ip reqs oks = [] \<or> (\<exists>d clock. good d clock (allowed_at ip reqs oks))" for ip
    using spec [OF g, of ip] by (auto simp: client_good_def split: option.splits)
  ultimately show ?thesis by blast
qed

end

section \<open>Buckets\<close>

text \<open>A bucket with \<open>k\<close> tokens left that gains \<open>r\<close> tokens a second up to \<open>cap\<close>: within \<open>u - t\<close> seconds no more than
  \<open>cap + r * (u - t)\<close> requests were let through, and the tokens left count as well.\<close>

definition bucket_ok :: "nat \<Rightarrow> nat \<Rightarrow> nat \<Rightarrow> int \<Rightarrow> int \<Rightarrow> int list \<Rightarrow> bool" where
  "bucket_ok r cap k mark clock hist \<longleftrightarrow> k \<le> cap \<and> clock \<le> mark \<and> (\<forall>x \<in> set hist. x \<le> clock) \<and>
     (\<forall>u \<ge> clock. \<forall>t \<le> u. int k + int (requests_between t (u + 1) hist) \<le> int cap + int r * (u - t)) \<and>
     (\<forall>u. \<forall>t \<le> u. int (requests_between t (u + 1) hist) \<le> int cap + int r * (u - t))"

lemma bucket_start: "now \<le> i \<Longrightarrow> bucket_ok r cap cap i now []"
  by (simp add: bucket_ok_def requests_between_def)

lemma bucket_wait: "bucket_ok r cap k mark clock hist \<Longrightarrow> clock \<le> now \<Longrightarrow> now \<le> mark \<Longrightarrow> bucket_ok r cap k mark now hist"
  by (fastforce simp: bucket_ok_def)

lemma bucket_refill:
  assumes ok: "bucket_ok r cap k mark clock hist" and now: "mark < now" and k': "k' \<le> cap" "int k' \<le> int k + int r * (now - mark)"
  shows "bucket_ok r cap k' now now hist"
proof -
  have old: "\<forall>x \<in> set hist. x < mark + 1" using ok by (auto simp: bucket_ok_def)
  have "int k' + int (requests_between t (u + 1) hist) \<le> int cap + int r * (u - t)" if u: "now \<le> u" "t \<le> u" for t u
  proof (cases "t \<le> mark")
    case True
    have "requests_between t (u + 1) hist \<le> requests_between t (mark + 1) hist" by (rule requests_between_end [OF old])
    moreover have "int k + int (requests_between t (mark + 1) hist) \<le> int cap + int r * (mark - t)" using ok True by (simp add: bucket_ok_def)
    moreover have "int r * (now - mark) + int r * (mark - t) \<le> int r * (u - t)"
      using u(1) by (simp add: ring_distribs(1,2)[symmetric] mult_left_mono flip: distrib_left)
    ultimately show ?thesis using k'(2) by linarith
  next
    case False
    then have "requests_between t (u + 1) hist = 0" using old by (auto simp: requests_between_def filter_empty_conv)
    moreover have "0 \<le> int r * (u - t)" using u(2) by simp
    ultimately show ?thesis using k'(1) by linarith
  qed
  then show ?thesis using ok now k'(1) unfolding bucket_ok_def by fastforce
qed

lemma bucket_take:
  assumes ok: "bucket_ok r cap (Suc k) mark now hist"
  shows "bucket_ok r cap k mark now (hist @ [now])"
proof -
  have a: "int k + int (requests_between t (u + 1) (hist @ [now])) \<le> int cap + int r * (u - t)" if "now \<le> u" "t \<le> u" for t u
  proof -
    have "int (Suc k) + int (requests_between t (u + 1) hist) \<le> int cap + int r * (u - t)" using ok that by (simp add: bucket_ok_def)
    then show ?thesis by simp
  qed
  have "int (requests_between t (u + 1) (hist @ [now])) \<le> int cap + int r * (u - t)" if "t \<le> u" for t u
  proof (cases "now \<le> u")
    case True
    then show ?thesis using a [of u t] that by linarith
  next
    case False
    then show ?thesis using ok that by (simp add: bucket_ok_def)
  qed
  then show ?thesis using ok a by (auto simp: bucket_ok_def)
qed

text \<open>What the code relies on in the arithmetic of \<open>double\<close>: rounding is monotone, and integers up to \<open>2 ^ 53\<close> are exact.\<close>

definition fl_exact :: "(real \<Rightarrow> real) \<Rightarrow> bool" where
  "fl_exact fl \<longleftrightarrow> mono fl \<and> (\<forall>i. \<bar>i\<bar> \<le> 2 ^ 53 \<longrightarrow> fl (real_of_int i) = real_of_int i)"

lemma fl_nat: "fl_exact fl \<Longrightarrow> n \<le> 2 ^ 53 \<Longrightarrow> fl (real n) = real n"
proof -
  assume a: "fl_exact fl" "n \<le> 2 ^ 53"
  have "int n \<le> 2 ^ 53" using a(2) by (metis of_nat_le_iff of_nat_numeral of_nat_power)
  then show ?thesis using a(1) unfolding fl_exact_def by (metis abs_of_nat of_int_of_nat_eq)
qed

lemma fl_large:
  assumes "fl_exact fl" "2 ^ 53 \<le> x"
  shows "2 ^ 53 \<le> fl x"
proof -
  have "fl (real (2 ^ 53)) \<le> fl x" using assms unfolding fl_exact_def by (intro monoD [of fl]) simp_all
  then show ?thesis using fl_nat [OF assms(1), of "2 ^ 53"] by simp
qed

lemma fl_small:
  assumes "fl_exact fl" "x \<le> 0"
  shows "fl x \<le> 0"
proof -
  have "fl x \<le> fl (real 0)" using assms unfolding fl_exact_def by (intro monoD [of fl]) simp_all
  then show ?thesis using fl_nat [OF assms(1), of 0] by simp
qed

lemma fl_fill:
  assumes fl: "fl_exact fl" and cap: "cap \<le> 2 ^ 53"
  shows "min (fl (real k + fl (real n))) (real cap) = real (min (k + n) cap)"
proof (cases "k + n \<le> 2 ^ 53")
  case True
  then have "fl (real n) = real n" by (intro fl_nat [OF fl]) simp
  moreover have "fl (real (k + n)) = real (k + n)" by (rule fl_nat [OF fl True])
  ultimately show ?thesis by simp
next
  case False
  have "2 ^ 53 \<le> real k + fl (real n)"
  proof (cases "n \<le> 2 ^ 53")
    case True
    have "real (2 ^ 53) \<le> real (k + n)" using False by (simp only: of_nat_le_iff)
    then show ?thesis using fl_nat [OF fl True] by simp
  next
    case False
    then have "real (2 ^ 53) \<le> real n" by (simp only: of_nat_le_iff)
    then have "2 ^ 53 \<le> fl (real n)" by (intro fl_large [OF fl]) simp
    then show ?thesis by simp
  qed
  then have "2 ^ 53 \<le> fl (real k + fl (real n))" by (rule fl_large [OF fl])
  moreover have "real cap \<le> real (2 ^ 53)" using cap by (simp only: of_nat_le_iff)
  ultimately have "real cap \<le> fl (real k + fl (real n))" by simp
  then show ?thesis using False cap by simp
qed

lemma fl_leak:
  assumes fl: "fl_exact fl" and j: "j \<le> 2 ^ 53"
  shows "max 0 (fl (real j - fl (real n))) = real (j - n)"
proof (cases "n \<le> j")
  case True
  then have "fl (real n) = real n" using j by (intro fl_nat [OF fl]) simp
  moreover have "fl (real (j - n)) = real (j - n)" using j by (intro fl_nat [OF fl]) simp
  ultimately show ?thesis using True by (simp add: of_nat_diff)
next
  case False
  have "real j \<le> fl (real n)"
  proof (cases "n \<le> 2 ^ 53")
    case True
    then show ?thesis using fl_nat [OF fl True] False by simp
  next
    case n: False
    have "real (2 ^ 53) \<le> real n" using n by (simp only: of_nat_le_iff)
    then have "2 ^ 53 \<le> fl (real n)" by (intro fl_large [OF fl]) simp
    moreover have "real j \<le> real (2 ^ 53)" using j by (simp only: of_nat_le_iff)
    ultimately show ?thesis by simp
  qed
  then have "fl (real j - fl (real n)) \<le> 0" by (intro fl_small [OF fl]) simp
  then show ?thesis using False by simp
qed

definition token_good :: "(real \<Rightarrow> real) \<Rightarrow> nat \<Rightarrow> size_t \<Rightarrow> algorithm_data \<Rightarrow> int \<Rightarrow> int list \<Rightarrow> bool" where
  "token_good fl r most d clock hist \<longleftrightarrow> (\<exists>v mark. d = TokenBucket v mark (real r) most \<and>
     (fl_exact fl \<and> unat most < 2 ^ 53 \<longrightarrow> (\<exists>k. v = real k \<and> bucket_ok r (unat most) k mark clock hist)))"

definition leaky_good :: "(real \<Rightarrow> real) \<Rightarrow> nat \<Rightarrow> size_t \<Rightarrow> algorithm_data \<Rightarrow> int \<Rightarrow> int list \<Rightarrow> bool" where
  "leaky_good fl r capacity d clock hist \<longleftrightarrow> (\<exists>v mark. d = LeakyBucket v mark (real r) capacity \<and>
     (fl_exact fl \<and> unat capacity < 2 ^ 53 \<longrightarrow>
        (\<exists>j \<le> unat capacity. v = real j \<and> bucket_ok r (unat capacity) (unat capacity - j) mark clock hist)))"

lemma token_step:
  assumes fl: "fl_exact fl" and cap: "unat most < 2 ^ 53" and ok: "bucket_ok r (unat most) k mark clock hist" and now: "clock \<le> now"
    and c: "check_token_bucket fl now (real k) mark (real r) most = (b, d')"
  shows "\<exists>k' mark'. d' = TokenBucket (real k') mark' (real r) most \<and> bucket_ok r (unat most) k' mark' now (hist @ (if b then [now] else []))"
proof -
  define n where "n = nat (now - mark) * r"
  define k1 where "k1 = (if mark < now then min (k + n) (unat most) else k)"
  define m1 where "m1 = (if mark < now then now else mark)"
  have fcap: "fl (real (unat most)) = real (unat most)" using cap by (intro fl_nat [OF fl]) simp
  have "real_of_int (now - mark) * real r = real n" if "mark < now" using that by (simp add: n_def)
  then have c1: "(b, d') = (if real k1 \<ge> 1 then (True, TokenBucket (fl (real k1 - 1)) m1 (real r) most) else (False, TokenBucket (real k1) m1 (real r) most))"
    using c fl_fill [OF fl, of "unat most" k n] cap fcap by (auto simp: check_token_bucket_def Let_def k1_def m1_def split: if_splits)
  have "bucket_ok r (unat most) k1 m1 now hist"
  proof (cases "mark < now")
    case True
    have "int n = int r * (now - mark)" using True by (simp add: n_def)
    then show ?thesis using bucket_refill [OF ok True, of k1] True by (simp add: k1_def m1_def)
  next
    case False
    then show ?thesis using bucket_wait [OF ok now] by (simp add: k1_def m1_def)
  qed
  then show ?thesis
  proof (cases k1)
    case (Suc k2)
    have "k1 \<le> unat most" using ok by (auto simp: k1_def bucket_ok_def)
    then have "fl (real k2) = real k2" using Suc cap by (intro fl_nat [OF fl]) simp
    then show ?thesis using c1 Suc bucket_take [of r "unat most" k2 m1 now hist] \<open>bucket_ok r (unat most) k1 m1 now hist\<close> by auto
  qed (use c1 in auto)
qed

lemma leaky_step:
  assumes fl: "fl_exact fl" and cap: "unat capacity < 2 ^ 53" and j: "j \<le> unat capacity"
    and ok: "bucket_ok r (unat capacity) (unat capacity - j) mark clock hist" and now: "clock \<le> now"
    and c: "check_leaky_bucket fl now (real j) mark (real r) capacity = (b, d')"
  shows "\<exists>j' mark'. j' \<le> unat capacity \<and> d' = LeakyBucket (real j') mark' (real r) capacity \<and>
    bucket_ok r (unat capacity) (unat capacity - j') mark' now (hist @ (if b then [now] else []))"
proof -
  define n where "n = nat (now - mark) * r"
  define j1 where "j1 = (if mark < now then j - n else j)"
  define m1 where "m1 = (if mark < now then now else mark)"
  have j1: "j1 \<le> unat capacity" using le_trans [OF diff_le_self j] j by (simp add: j1_def)
  have fcap: "fl (real (unat capacity)) = real (unat capacity)" using cap by (intro fl_nat [OF fl]) simp
  have up: "fl (real j1 + 1) = real (Suc j1)" using fl_nat [OF fl, of "Suc j1"] j1 cap by (simp add: add.commute)
  have "real_of_int (now - mark) * real r = real n" if "mark < now" using that by (simp add: n_def)
  then have "(b, d') = (if fl (real j1 + 1) \<le> fl (real (unat capacity)) then (True, LeakyBucket (fl (real j1 + 1)) m1 (real r) capacity)
      else (False, LeakyBucket (real j1) m1 (real r) capacity))"
    using c fl_leak [OF fl, of j n] j cap by (simp add: check_leaky_bucket_def Let_def j1_def m1_def split: if_splits)
  then have c1: "(b, d') = (if Suc j1 \<le> unat capacity then (True, LeakyBucket (real (Suc j1)) m1 (real r) capacity)
      else (False, LeakyBucket (real j1) m1 (real r) capacity))" unfolding up fcap of_nat_le_iff .
  have b1: "bucket_ok r (unat capacity) (unat capacity - j1) m1 now hist"
  proof (cases "mark < now")
    case True
    have "int n = int r * (now - mark)" using True by (simp add: n_def)
    then show ?thesis using bucket_refill [OF ok True, of "unat capacity - j1"] True j by (simp add: j1_def m1_def of_nat_diff)
  next
    case False
    then show ?thesis using bucket_wait [OF ok now] by (simp add: j1_def m1_def)
  qed
  show ?thesis
  proof (cases "Suc j1 \<le> unat capacity")
    case True
    then have "unat capacity - j1 = Suc (unat capacity - Suc j1)" by simp
    then show ?thesis using bucket_take [of r "unat capacity" "unat capacity - Suc j1" m1 now hist] b1 c1 True by auto
  qed (use c1 b1 j1 in auto)
qed

interpretation token_bucket: admission_policy fl "mcp_advanced_rate_limiter_create_token_bucket_rule kt (real r) most" "token_good fl r most"
  for fl kt r most
proof unfold_locales
  fix m i d m' now
  assume "initialize_algorithm_data fl m i (mcp_advanced_rate_limiter_create_token_bucket_rule kt (real r) most) = (Some d, m')" and le: "now \<le> i"
  then have d: "d = TokenBucket (fl (real (unat most))) i (real r) most"
    by (simp add: initialize_algorithm_data_def mcp_advanced_rate_limiter_create_token_bucket_rule_def)
  show "token_good fl r most d now []"
    unfolding token_good_def d using fl_nat [of fl "unat most"] bucket_start [OF le, of r "unat most"] by (auto intro!: exI [of _ "unat most"])
next
  fix d clock hist now
  assume g: "token_good fl r most d clock hist" and now: "clock \<le> now"
  then obtain v mark where d: "d = TokenBucket v mark (real r) most" by (auto simp: token_good_def)
  obtain b d' where c: "check_token_bucket fl now v mark (real r) most = (b, d')" by fastforce
  have "token_good fl r most d' now (hist @ (if b then [now] else []))"
  proof (cases "fl_exact fl \<and> unat most < 2 ^ 53")
    case True
    then obtain k where "v = real k" "bucket_ok r (unat most) k mark clock hist" using g d by (auto simp: token_good_def)
    then show ?thesis using token_step [of fl most r k mark clock hist now b d'] True now c by (auto simp: token_good_def)
  next
    case False
    then show ?thesis using c by (auto simp: token_good_def check_token_bucket_def Let_def split: if_splits)
  qed
  then show "\<exists>b d'. check_algorithm fl (mcp_advanced_rate_limiter_create_token_bucket_rule kt (real r) most) now d = Done (b, d') \<and>
      token_good fl r most d' now (hist @ (if b then [now] else []))"
    using c by (simp add: check_algorithm_def d mcp_advanced_rate_limiter_create_token_bucket_rule_def)
qed

interpretation leaky_bucket: admission_policy fl "mcp_advanced_rate_limiter_create_leaky_bucket_rule kt (real r) capacity" "leaky_good fl r capacity"
  for fl kt r capacity
proof unfold_locales
  fix m i d m' now
  assume "initialize_algorithm_data fl m i (mcp_advanced_rate_limiter_create_leaky_bucket_rule kt (real r) capacity) = (Some d, m')" and le: "now \<le> i"
  then have d: "d = LeakyBucket 0 i (real r) capacity"
    by (simp add: initialize_algorithm_data_def mcp_advanced_rate_limiter_create_leaky_bucket_rule_def)
  show "leaky_good fl r capacity d now []"
    unfolding leaky_good_def d using bucket_start [OF le, of r "unat capacity"] by (auto intro!: exI [of _ 0])
next
  fix d clock hist now
  assume g: "leaky_good fl r capacity d clock hist" and now: "clock \<le> now"
  then obtain v mark where d: "d = LeakyBucket v mark (real r) capacity" by (auto simp: leaky_good_def)
  obtain b d' where c: "check_leaky_bucket fl now v mark (real r) capacity = (b, d')" by fastforce
  have "leaky_good fl r capacity d' now (hist @ (if b then [now] else []))"
  proof (cases "fl_exact fl \<and> unat capacity < 2 ^ 53")
    case True
    then obtain j where "v = real j" "j \<le> unat capacity" "bucket_ok r (unat capacity) (unat capacity - j) mark clock hist" using g d by (auto simp: leaky_good_def)
    then show ?thesis using leaky_step [of fl capacity j r mark clock hist now b d'] True now c unfolding leaky_good_def by blast
  next
    case False
    then show ?thesis using c by (auto simp: leaky_good_def check_leaky_bucket_def Let_def split: if_splits)
  qed
  then show "\<exists>b d'. check_algorithm fl (mcp_advanced_rate_limiter_create_leaky_bucket_rule kt (real r) capacity) now d = Done (b, d') \<and>
      leaky_good fl r capacity d' now (hist @ (if b then [now] else []))"
    using c by (simp add: check_algorithm_def d mcp_advanced_rate_limiter_create_leaky_bucket_rule_def)
qed

section \<open>Windows\<close>

text \<open>The sliding window.  The circular buffer, read from its position on, holds the last requests that were let
  through, those before some time \<open>c\<close> cleared; every request in the window before \<open>c + w\<close> is there.\<close>

definition last_n :: "nat \<Rightarrow> int list \<Rightarrow> int list" where
  "last_n n hist = drop (length hist) (replicate n 0 @ hist)"

definition since :: "int \<Rightarrow> int list \<Rightarrow> int list" where
  "since c xs = map (\<lambda>x. if x > c then x else 0) xs"

definition slide_ok :: "int \<Rightarrow> nat \<Rightarrow> int list \<Rightarrow> nat \<Rightarrow> int \<Rightarrow> int list \<Rightarrow> bool" where
  "slide_ok w n stamps pos clock hist \<longleftrightarrow> pos < n \<and> sorted hist \<and> (\<forall>x \<in> set hist. 0 < x \<and> x \<le> clock) \<and>
     (\<exists>c. c + w \<le> clock \<and> rotate pos stamps = since c (last_n n hist)) \<and> (\<forall>t. requests_between t (t + w) hist \<le> n)"

lemma length_last_n [simp]: "length (last_n n hist) = n"
  by (simp add: last_n_def)

lemma last_n_snoc:
  assumes "0 < n"
  shows "last_n n (hist @ [x]) = tl (last_n n hist) @ [x]"
proof -
  have "drop (Suc (length hist)) ((replicate n 0 @ hist) @ [x]) = drop (Suc (length hist)) (replicate n 0 @ hist) @ [x]"
    using assms by (subst drop_append) simp
  moreover have "length (hist @ [x]) = Suc (length hist)" by simp
  ultimately show ?thesis unfolding last_n_def tl_drop drop_Suc [symmetric] append_assoc by metis
qed

lemma mset_rotated: "mset (rotate n xs) = mset xs"
  unfolding rotate_drop_take by (metis append_take_drop_id mset_append union_commute)

lemma rotate_store:
  assumes "pos < length xs"
  shows "rotate ((pos + 1) mod length xs) (xs[pos := x]) = tl (rotate pos xs) @ [x]"
proof -
  have split: "xs[pos := x] = take pos xs @ x # drop (Suc pos) xs" using assms by (rule upd_conv_take_nth_drop)
  have r: "rotate pos xs = xs ! pos # drop (Suc pos) xs @ take pos xs"
    using assms by (simp add: rotate_drop_take Cons_nth_drop_Suc [symmetric])
  show ?thesis
  proof (cases "Suc pos < length xs")
    case True
    have "rotate (Suc pos) (take pos xs @ x # drop (Suc pos) xs) = drop (Suc pos) xs @ take pos xs @ [x]"
      using rotate_append [of "take pos xs @ [x]" "drop (Suc pos) xs"] assms by simp
    then show ?thesis using r split True by simp
  next
    case False
    then have "Suc pos = length xs" using assms by simp
    then show ?thesis using r split by simp
  qed
qed

text \<open>The requests the loop counts are those of the last \<open>w\<close> seconds, unless there are \<open>n\<close> of them.\<close>

lemma recent_in_last:
  assumes "sorted hist" "\<forall>x \<in> set hist. 0 < x" "length (filter (\<lambda>x. 0 < x \<and> c < x) (last_n n hist)) < n"
  shows "length (filter (\<lambda>x. c < x) hist) = length (filter (\<lambda>x. 0 < x \<and> c < x) (last_n n hist))"
proof (cases "length hist \<le> n")
  case True
  then have "last_n n hist = replicate (n - length hist) 0 @ hist" by (simp add: last_n_def)
  then have "filter (\<lambda>x. 0 < x \<and> c < x) (last_n n hist) = filter (\<lambda>x. 0 < x \<and> c < x) hist" by simp
  also have "\<dots> = filter (\<lambda>x. c < x) hist" using assms(2) by (auto intro: filter_cong)
  finally show ?thesis by simp
next
  case False
  define old where "old = take (length hist - n) hist"
  define recent where "recent = drop (length hist - n) hist"
  have l: "last_n n hist = recent" "length recent = n" "hist = old @ recent" using False by (simp_all add: last_n_def recent_def old_def)
  have "\<not> c < x" if x: "x \<in> set old" for x
  proof
    assume "c < x"
    then have "\<forall>y \<in> set recent. 0 < y \<and> c < y" using assms(1,2) x unfolding l(3) by (fastforce simp: sorted_append)
    then have "filter (\<lambda>x. 0 < x \<and> c < x) recent = recent" by (simp add: filter_id_conv)
    then show False using assms(3) l by simp
  qed
  then have "filter (\<lambda>x. c < x) old = []" by (auto simp: filter_empty_conv)
  moreover have "filter (\<lambda>x. c < x) recent = filter (\<lambda>x. 0 < x \<and> c < x) recent" using assms(2) l(3) by (auto intro: filter_cong)
  ultimately show ?thesis using l by simp
qed

lemma slide_step:
  assumes ok: "slide_ok w n stamps pos clock hist" and w: "0 < w" and now: "0 < now" "clock \<le> now" and len: "length stamps = n"
  defines "active \<equiv> \<lambda>x. x > 0 \<and> now - x < w"
  defines "kept \<equiv> map (\<lambda>x. if active x then x else 0) stamps"
  shows "length (filter active stamps) < n \<Longrightarrow> slide_ok w n (kept[pos := now]) ((pos + 1) mod n) now (hist @ [now])"
    "slide_ok w n kept pos now hist"
proof -
  let ?L = "last_n n hist"
  obtain c where c: "c + w \<le> clock" "rotate pos stamps = since c ?L" using ok by (auto simp: slide_ok_def)
  have pos: "pos < n" using ok by (simp add: slide_ok_def)
  have act: "active x \<longleftrightarrow> 0 < x \<and> now - w < x" for x unfolding active_def by auto
  have "rotate pos kept = map (\<lambda>x. if active x then x else 0) (since c ?L)"
    unfolding kept_def rotate_map c(2) ..
  also have "\<dots> = since (now - w) ?L"
  proof -
    have "0 \<le> x" if "x \<in> set ?L" for x using that ok by (auto simp: last_n_def slide_ok_def dest!: in_set_dropD split: if_splits intro: less_imp_le)
    then show ?thesis using c(1) now w unfolding since_def map_map o_def act by (intro map_cong) (auto simp: le_less)
  qed
  finally have kept: "rotate pos kept = since (now - w) ?L" .
  have lk: "length kept = n" using len by (simp add: kept_def)
  have pos_hist: "\<forall>x \<in> set hist. 0 < x" "sorted hist" "\<forall>x \<in> set hist. x \<le> now" using ok now by (auto simp: slide_ok_def)
  show same: "slide_ok w n kept pos now hist"
    using ok kept pos_hist unfolding slide_ok_def by (auto intro!: exI [of _ "now - w"])
  assume few: "length (filter active stamps) < n"
  have "length (filter active stamps) = length (filter active (rotate pos stamps))"
    by (metis mset_filter mset_rotated size_mset)
  also have "\<dots> = length (filter (\<lambda>x. 0 < x \<and> now - w < x) ?L)"
    unfolding c(2) since_def filter_map length_map o_def act using c(1) now by (intro arg_cong [where f = length] filter_cong) auto
  finally have cnt: "length (filter active stamps) = length (filter (\<lambda>x. 0 < x \<and> now - w < x) ?L)" .
  have rec: "length (filter (\<lambda>x. now - w < x) hist) < n" using recent_in_last [OF pos_hist(2,1), of "now - w" n] few cnt by simp
  have "requests_between t (t + w) (hist @ [now]) \<le> n" for t
  proof (cases "t \<le> now \<and> now < t + w")
    case True
    have "requests_between t (t + w) hist \<le> length (filter (\<lambda>x. now - w < x) hist)"
      unfolding requests_between_def using True by (induction hist) auto
    then show ?thesis using rec True by simp
  next
    case False
    then show ?thesis using ok by (auto simp: slide_ok_def)
  qed
  moreover have "rotate ((pos + 1) mod n) (kept[pos := now]) = since (now - w) (last_n n (hist @ [now]))"
    using rotate_store [of pos kept now] pos lk kept last_n_snoc [of n hist now] w by (simp add: since_def map_tl)
  ultimately show "slide_ok w n (kept[pos := now]) ((pos + 1) mod n) now (hist @ [now])"
    using pos_hist now pos unfolding slide_ok_def by (auto simp: sorted_append intro!: exI [of _ "now - w"])
qed

text \<open>The fixed window.  \<open>cur\<close> are the requests counted in the current window, \<open>old\<close> those before; a span of \<open>w\<close>
  seconds meets at most two windows.\<close>

definition fixed_parts :: "int \<Rightarrow> nat \<Rightarrow> int \<Rightarrow> int \<Rightarrow> int list \<Rightarrow> int list \<Rightarrow> bool" where
  "fixed_parts w n start clock old cur \<longleftrightarrow> length cur \<le> n \<and> (\<forall>x \<in> set old \<union> set cur. x < start + w) \<and> (\<forall>x \<in> set old. x < start) \<and>
     (old = [] \<or> start \<le> clock) \<and> (\<forall>t > start - w. length (filter (\<lambda>x. t \<le> x) old) \<le> n)"

definition fixed_ok :: "int \<Rightarrow> nat \<Rightarrow> int \<Rightarrow> nat \<Rightarrow> int \<Rightarrow> int list \<Rightarrow> bool" where
  "fixed_ok w n start k clock hist \<longleftrightarrow> (\<exists>old cur. hist = old @ cur \<and> length cur = k \<and> fixed_parts w n start clock old cur) \<and>
     (\<forall>t. requests_between t (t + w) hist \<le> 2 * n)"

lemma fixed_next:
  assumes ok: "fixed_ok w n start k clock hist" and w: "0 < w" and now: "w \<le> now - start"
  shows "fixed_ok w n now 0 now hist"
proof -
  obtain old cur where h: "hist = old @ cur" "fixed_parts w n start clock old cur"
    and b: "\<forall>t. requests_between t (t + w) hist \<le> 2 * n" using ok by (auto simp: fixed_ok_def)
  have "length (filter (\<lambda>x. t \<le> x) hist) \<le> n" if "now - w < t" for t
  proof -
    have "filter (\<lambda>x. t \<le> x) old = []" using h(2) that now by (auto simp: fixed_parts_def filter_empty_conv)
    then have "length (filter (\<lambda>x. t \<le> x) hist) = length (filter (\<lambda>x. t \<le> x) cur)" by (simp add: h(1))
    also have "\<dots> \<le> length cur" by (rule length_filter_le)
    finally show ?thesis using h(2) by (simp add: fixed_parts_def)
  qed
  moreover have "\<forall>x \<in> set hist. x < start + w" using h by (auto simp: fixed_parts_def)
  then have "\<forall>x \<in> set hist. x < now" using now by fastforce
  ultimately have "fixed_parts w n now now hist []" using w by (auto simp: fixed_parts_def)
  then show ?thesis using b unfolding fixed_ok_def by (metis append_Nil2 list.size(3))
qed

lemma fixed_take:
  assumes ok: "fixed_ok w n start k clock hist" and now: "now - start < w" "clock \<le> now" and k: "k < n"
  shows "fixed_ok w n start (k + 1) now (hist @ [now])"
proof -
  obtain old cur where h: "hist = old @ cur" "length cur = k" and p: "fixed_parts w n start clock old cur"
    and b: "\<forall>t. requests_between t (t + w) hist \<le> 2 * n" using ok by (auto simp: fixed_ok_def)
  have "requests_between t (t + w) (hist @ [now]) \<le> 2 * n" for t
  proof (cases "t \<le> now \<and> now < t + w")
    case True
    have "length (filter (\<lambda>x. t \<le> x \<and> x < t + w) old) \<le> length (filter (\<lambda>x. t \<le> x) old)" by (induction old) auto
    moreover have "length (filter (\<lambda>x. t \<le> x) old) \<le> n" using p True now(2) by (cases "old = []") (auto simp: fixed_parts_def)
    moreover have "length (filter (\<lambda>x. t \<le> x \<and> x < t + w) cur) \<le> k" using h(2) length_filter_le by metis
    ultimately show ?thesis using k by (simp add: requests_between_def h(1))
  next
    case False
    then show ?thesis using b by auto
  qed
  moreover have "fixed_parts w n start now old (cur @ [now])" using p now k h(2) by (auto simp: fixed_parts_def)
  moreover have "hist @ [now] = old @ (cur @ [now])" "length (cur @ [now]) = k + 1" using h by simp_all
  ultimately show ?thesis unfolding fixed_ok_def by blast
qed

lemma fixed_wait: "fixed_ok w n start k clock hist \<Longrightarrow> clock \<le> now \<Longrightarrow> fixed_ok w n start k now hist"
  unfolding fixed_ok_def fixed_parts_def by (elim conjE exE) (auto intro: order_trans)

definition fixed_good :: "size_t \<Rightarrow> size_t \<Rightarrow> algorithm_data \<Rightarrow> int \<Rightarrow> int list \<Rightarrow> bool" where
  "fixed_good secs most d clock hist \<longleftrightarrow> (\<exists>start k. d = FixedWindow start k \<and>
     (0 < sint secs \<longrightarrow> fixed_ok (sint secs) (unat most) start k clock hist))"

definition sliding_good :: "size_t \<Rightarrow> size_t \<Rightarrow> algorithm_data \<Rightarrow> int \<Rightarrow> int list \<Rightarrow> bool" where
  "sliding_good secs most d clock hist \<longleftrightarrow> (\<exists>t stamps pos k. d = SlidingWindow t stamps pos k \<and> length stamps = unat most \<and>
     (0 < sint secs \<longrightarrow> (if most = 0 then hist = [] else slide_ok (sint secs) (unat most) stamps pos clock hist)))"

abbreviation window_rule :: "mcp_rate_limit_algorithm \<Rightarrow> mcp_rate_limit_key_type \<Rightarrow> size_t \<Rightarrow> size_t \<Rightarrow> mcp_rate_limit_rule" where
  "window_rule algorithm kt secs most \<equiv> mcp_advanced_rate_limiter_create_default_rule kt algorithm secs most"

interpretation fixed_window: admission_policy fl "window_rule MCP_RATE_LIMIT_FIXED_WINDOW kt secs most" "fixed_good secs most"
  for fl kt secs most
proof unfold_locales
  fix m i d m' now
  assume "initialize_algorithm_data fl m i (window_rule MCP_RATE_LIMIT_FIXED_WINDOW kt secs most) = (Some d, m')"
  then have d: "d = FixedWindow i 0" by (simp add: initialize_algorithm_data_def mcp_advanced_rate_limiter_create_default_rule_def)
  show "fixed_good secs most d now []" by (simp add: fixed_good_def d fixed_ok_def fixed_parts_def requests_between_def)
next
  fix d clock hist now
  assume g: "fixed_good secs most d clock hist" and now: "clock \<le> now"
  then obtain start k where d: "d = FixedWindow start k" by (auto simp: fixed_good_def)
  define s1 where "s1 = (if now - start \<ge> sint secs then now else start)"
  define k1 where "k1 = (if now - start \<ge> sint secs then 0 else k)"
  let ?ok = "k1 < unat most"
  have one: "fixed_ok (sint secs) (unat most) s1 k1 now hist" if "0 < sint secs"
    using g d fixed_next [OF _ that, of "unat most" start k clock hist now] fixed_wait [OF _ now, of "sint secs" "unat most" start k hist] that
    by (auto simp: fixed_good_def s1_def k1_def)
  have near: "now - s1 < sint secs" if "0 < sint secs" using that by (simp add: s1_def)
  have "fixed_good secs most (FixedWindow s1 (if ?ok then k1 + 1 else k1)) now (hist @ (if ?ok then [now] else []))"
    using one near fixed_take [of "sint secs" "unat most" s1 k1 now hist now] by (auto simp: fixed_good_def)
  moreover have "check_algorithm fl (window_rule MCP_RATE_LIMIT_FIXED_WINDOW kt secs most) now d =
      Done (?ok, FixedWindow s1 (if ?ok then k1 + 1 else k1))"
    by (simp add: check_algorithm_def d mcp_advanced_rate_limiter_create_default_rule_def check_fixed_window_def s1_def k1_def)
  ultimately show "\<exists>b d'. check_algorithm fl (window_rule MCP_RATE_LIMIT_FIXED_WINDOW kt secs most) now d = Done (b, d') \<and>
      fixed_good secs most d' now (hist @ (if b then [now] else []))" by blast
qed

lemma slide_start:
  assumes "0 < n"
  shows "slide_ok w n (replicate n 0) 0 now []"
proof -
  have "since (now - w) (last_n n []) = replicate n 0" by (simp add: since_def last_n_def)
  then show ?thesis using assms by (auto simp: slide_ok_def requests_between_def intro!: exI [of _ "now - w"])
qed

interpretation sliding_window: admission_policy fl "window_rule MCP_RATE_LIMIT_SLIDING_WINDOW kt secs most" "sliding_good secs most"
  for fl kt secs most
proof unfold_locales
  fix m i d m' now
  assume "initialize_algorithm_data fl m i (window_rule MCP_RATE_LIMIT_SLIDING_WINDOW kt secs most) = (Some d, m')"
  then have d: "d = SlidingWindow i (replicate (unat most) 0) 0 0"
    by (auto simp: initialize_algorithm_data_def mcp_advanced_rate_limiter_create_default_rule_def Let_def split: if_splits prod.splits)
  show "sliding_good secs most d now []" using slide_start [of "unat most" "sint secs" now] by (auto simp: sliding_good_def d unat_gt_0)
next
  fix d clock hist now
  assume g: "sliding_good secs most d clock hist" and now: "0 < now" "clock \<le> now"
  then obtain t stamps pos k where d: "d = SlidingWindow t stamps pos k" and len: "length stamps = unat most"
    and g: "0 < sint secs \<longrightarrow> (if most = 0 then hist = [] else slide_ok (sint secs) (unat most) stamps pos clock hist)"
    by (auto simp: sliding_good_def)
  let ?act = "\<lambda>x. x > 0 \<and> now - x < sint secs" 
  let ?kept = "map (\<lambda>x. if ?act x then x else 0) stamps" and ?n = "length (filter ?act stamps)"
  let ?ok = "?n < unat most"
  let ?d = "if ?ok then SlidingWindow now (?kept[pos := now]) ((pos + 1) mod length stamps) (?n + 1) else SlidingWindow now ?kept pos k"
  have "check_algorithm fl (window_rule MCP_RATE_LIMIT_SLIDING_WINDOW kt secs most) now d = Done (?ok, ?d)"
    using len by (auto simp: check_algorithm_def d mcp_advanced_rate_limiter_create_default_rule_def check_sliding_window_def Let_def)
  moreover have "sliding_good secs most ?d now (hist @ (if ?ok then [now] else []))"
  proof (cases "most = 0")
    case True
    then show ?thesis using g len by (simp add: sliding_good_def)
  next
    case False
    then show ?thesis using g len slide_step [of "sint secs" "unat most" stamps pos clock hist now] now by (auto simp: sliding_good_def)
  qed
  ultimately show "\<exists>b d'. check_algorithm fl (window_rule MCP_RATE_LIMIT_SLIDING_WINDOW kt secs most) now d = Done (b, d') \<and>
      sliding_good secs most d' now (hist @ (if b then [now] else []))" by blast
qed

section \<open>A limiter with one rule\<close>

definition limiter_with :: "mem \<Rightarrow> size_t option \<Rightarrow> mcp_rate_limit_rule \<Rightarrow> mcp_advanced_rate_limiter \<Rightarrow> bool" where
  "limiter_with m hint rule l \<longleftrightarrow> (\<exists>l0 m1 m2. mcp_advanced_rate_limiter_create m hint = (Some l0, m1) \<and>
     mcp_advanced_rate_limiter_add_rule m1 rule l0 = (True, l, m2))"

lemma limiter_with_rule:
  assumes "limiter_with m hint rule l" "ru_key_type rule = MCP_RATE_LIMIT_KEY_IP" "ru_key_pattern rule = None" "0 \<le> ru_priority rule"
  shows "al_inv l" "al_map l = Map.empty" "\<forall>ip. find_matching_rule l MCP_RATE_LIMIT_KEY_IP ip = Some rule"
proof -
  obtain l0 m1 m2 where c: "mcp_advanced_rate_limiter_create m hint = (Some l0, m1)" "mcp_advanced_rate_limiter_add_rule m1 rule l0 = (True, l, m2)"
    using assms(1) by (auto simp: limiter_with_def)
  note e = limiter_empty [OF c(1)]
  note a = add_rule_ok [OF e(1) c(2)]
  show "al_inv l" "al_map l = Map.empty" using a(1) e(2) by auto
  show "\<forall>ip. find_matching_rule l MCP_RATE_LIMIT_KEY_IP ip = Some rule"
    using a(2) e(3) assms(2-4) by (simp add: find_matching_rule_def better_rule_def)
qed

lemma requests_none [simp]: "requests_between t u [] = 0"
  by (simp add: requests_between_def)

context admission_policy
begin

lemma run_bound:
  assumes "limiter_with m hint rule l" "clock_ok reqs" "bounded []" "\<And>d clock hist. good d clock hist \<Longrightarrow> bounded hist"
    and "ru_key_type rule = MCP_RATE_LIMIT_KEY_IP" "ru_key_pattern rule = None" "0 \<le> ru_priority rule"
  shows "\<exists>oks l'. run_limiter fl reqs l = Done (oks, l') \<and> (\<forall>ip. bounded (allowed_at ip reqs oks))"
  using run_policy [OF limiter_with_rule [OF assms(1,5-7)] assms(2)] assms(3,4) by metis

end

text \<open>What each algorithm lets through, for a limiter with that rule alone.\<close>

lemma token_run:
  assumes "limiter_with m hint (mcp_advanced_rate_limiter_create_token_bucket_rule MCP_RATE_LIMIT_KEY_IP (real r) most) l"
    and "fl_exact fl" "unat most < 2 ^ 53" "clock_ok reqs"
  shows "\<exists>oks l'. run_limiter fl reqs l = Done (oks, l') \<and>
    (\<forall>ip. \<forall>t u. t \<le> u \<longrightarrow> int (requests_between t (u + 1) (allowed_at ip reqs oks)) \<le> int (unat most) + int r * (u - t))"
  by (rule token_bucket.run_bound [OF assms(1,4)]) (use assms(2,3) in \<open>auto simp: rule_defs token_good_def bucket_ok_def\<close>)

lemma leaky_run:
  assumes "limiter_with m hint (mcp_advanced_rate_limiter_create_leaky_bucket_rule MCP_RATE_LIMIT_KEY_IP (real r) capacity) l"
    and "fl_exact fl" "unat capacity < 2 ^ 53" "clock_ok reqs"
  shows "\<exists>oks l'. run_limiter fl reqs l = Done (oks, l') \<and>
    (\<forall>ip. \<forall>t u. t \<le> u \<longrightarrow> int (requests_between t (u + 1) (allowed_at ip reqs oks)) \<le> int (unat capacity) + int r * (u - t))"
  by (rule leaky_bucket.run_bound [OF assms(1,4)]) (use assms(2,3) in \<open>auto simp: rule_defs leaky_good_def bucket_ok_def\<close>)

lemma window_positive: "0 < secs \<Longrightarrow> unat secs < 2 ^ 63 \<Longrightarrow> 0 < sint secs \<and> sint secs = int (unat secs)" for secs :: size_t
  using window_small [of secs] by (simp add: word_less_def)

lemma sliding_run:
  assumes "limiter_with m hint (window_rule MCP_RATE_LIMIT_SLIDING_WINDOW MCP_RATE_LIMIT_KEY_IP secs most) l"
    and "0 < secs" "unat secs < 2 ^ 63" "clock_ok reqs"
  shows "\<exists>oks l'. run_limiter fl reqs l = Done (oks, l') \<and>
    (\<forall>ip. \<forall>t. requests_between t (t + int (unat secs)) (allowed_at ip reqs oks) \<le> unat most)"
  by (rule sliding_window.run_bound [OF assms(1,4)])
    (use window_positive [OF assms(2,3)] in \<open>auto simp: rule_defs sliding_good_def slide_ok_def split: if_splits\<close>)

lemma fixed_run:
  assumes "limiter_with m hint (window_rule MCP_RATE_LIMIT_FIXED_WINDOW MCP_RATE_LIMIT_KEY_IP secs most) l"
    and "0 < secs" "unat secs < 2 ^ 63" "clock_ok reqs"
  shows "\<exists>oks l'. run_limiter fl reqs l = Done (oks, l') \<and>
    (\<forall>ip. \<forall>t. requests_between t (t + int (unat secs)) (allowed_at ip reqs oks) \<le> 2 * unat most)"
  by (rule fixed_window.run_bound [OF assms(1,4)])
    (use window_positive [OF assms(2,3)] in \<open>auto simp: rule_defs fixed_good_def fixed_ok_def\<close>)

section \<open>Properties\<close>

text \<open>Claim C13.  The limiter \<open>mcp_server_create\<close> sets up, asked for a whole number \<open>r\<close> of tokens a second and fewer than
  $2^{53}$ tokens at most: for every sequence of checks that do not overlap, of any number of clients in any order, whose clock
  does not go back, each check returns, and no client gets more than \<open>max_tokens + r * (u - t)\<close> requests through from time \<open>t\<close> to
  time \<open>u\<close>.  The arithmetic of \<open>double\<close> is assumed to be monotone, and exact on the integers up to $2^{53}$.\<close>

theorem server_limit_respected:
  assumes "create_server_limiter m (server_rate_config config) = (Some (Advanced l), m')"
    and "rc_tokens_per_second (server_rate_config config) = real r" and "unat (rc_max_tokens (server_rate_config config)) < 2 ^ 53"
    and "fl_exact fl" and "clock_ok reqs"
  shows "\<exists>oks l'. run_limiter fl reqs l = Done (oks, l') \<and>
    (\<forall>ip. \<forall>t u. t \<le> u \<longrightarrow> int (requests_between t (u + 1) (allowed_at ip reqs oks)) \<le>
       int (unat (rc_max_tokens (server_rate_config config))) + int r * (u - t))"
proof (rule token_run [OF _ assms(4,3,5)])
  let ?cfg = "server_rate_config config"
  have "server_rule ?cfg = mcp_advanced_rate_limiter_create_token_bucket_rule MCP_RATE_LIMIT_KEY_IP (real r) (rc_max_tokens ?cfg)"
    using assms(2) by (simp add: server_rule_def server_rate_config_def)
  then show "limiter_with m (Some (rc_capacity ?cfg)) (mcp_advanced_rate_limiter_create_token_bucket_rule MCP_RATE_LIMIT_KEY_IP (real r) (rc_max_tokens ?cfg)) l"
    using assms(1) by (auto simp: create_server_limiter_def limiter_with_def split: if_splits prod.splits option.splits)
qed

theorem server_limit_respected_witness:
  "\<exists>l m' oks l'. create_server_limiter [] (server_rate_config \<lparr>rc_capacity = 0, rc_window_seconds = 60, rc_max_requests = 100,
       rc_use_advanced = False, rc_enable_token_bucket = False, rc_tokens_per_second = 0, rc_max_tokens = 2\<rparr>) = (Some (Advanced l), m') \<and>
     run_limiter (\<lambda>x. x) (replicate 4 (\<lparr>ck_now = 7, ck_init = (\<lambda>_. 7), ck_mem = (\<lambda>_. [])\<rparr>, ''a'')) l = Done (oks, l') \<and>
     requests_between 7 8 (allowed_at ''a'' (replicate 4 (\<lparr>ck_now = 7, ck_init = (\<lambda>_. 7), ck_mem = (\<lambda>_. [])\<rparr>, ''a'')) oks) \<le> 2"
proof -
  let ?cfg = "\<lparr>rc_capacity = 0, rc_window_seconds = 60, rc_max_requests = 100,
       rc_use_advanced = False, rc_enable_token_bucket = False, rc_tokens_per_second = 0, rc_max_tokens = 2\<rparr> :: rate_config"
  let ?reqs = "replicate 4 (\<lparr>ck_now = 7, ck_init = (\<lambda>_. 7), ck_mem = (\<lambda>_. [])\<rparr>, ''a'') :: (check_env \<times> string) list"
  obtain l m' where c: "create_server_limiter [] (server_rate_config ?cfg) = (Some (Advanced l), m')"
    by (simp add: create_server_limiter_def server_rate_config_def server_rule_def mcp_advanced_rate_limiter_create_def
        calloc_clients_def DEFAULT_RATE_LIMIT_CAPACITY_def mcp_advanced_rate_limiter_add_rule_def MAX_RULES_PER_KEY_TYPE_def rule_defs Let_def)
  have "fl_exact (\<lambda>x. x)" by (simp add: fl_exact_def mono_def)
  moreover have "clock_ok ?reqs" by (simp add: clock_ok_def)
  ultimately obtain oks l' where r: "run_limiter (\<lambda>x. x) ?reqs l = Done (oks, l')"
      "\<forall>ip. \<forall>t u. t \<le> u \<longrightarrow> int (requests_between t (u + 1) (allowed_at ip ?reqs oks)) \<le> int (unat (rc_max_tokens (server_rate_config ?cfg))) + int 5 * (u - t)"
    using server_limit_respected [OF c, of 5 "\<lambda>x. x" ?reqs] by (auto simp: server_rate_config_def)
  have "requests_between 7 8 (allowed_at ''a'' ?reqs oks) \<le> 2" using r(2) [rule_format, of 7 7 "''a''"] by (simp add: server_rate_config_def)
  then show ?thesis using c r(1) by blast
qed

text \<open>Claim C23.  With a sliding window rule, for every sequence of checks that do not overlap and whose clock does not go
  back, every check returns, and no client gets more than \<open>max_requests_per_window\<close> requests through within \<open>window_seconds\<close> seconds, wherever this span of time begins: the circular buffer never forgets a request that
  still counts.\<close>

theorem sliding_window_respected:
  assumes "mcp_advanced_rate_limiter_create m hint = (Some l0, m1)"
    and "mcp_advanced_rate_limiter_add_rule m1
      (mcp_advanced_rate_limiter_create_default_rule MCP_RATE_LIMIT_KEY_IP MCP_RATE_LIMIT_SLIDING_WINDOW secs most) l0 = (True, l, m2)"
    and "0 < secs" "unat secs < 2 ^ 63" and "clock_ok reqs"
  shows "\<exists>oks l'. run_limiter fl reqs l = Done (oks, l') \<and>
    (\<forall>ip. \<forall>t. requests_between t (t + int (unat secs)) (allowed_at ip reqs oks) \<le> unat most)"
  by (rule sliding_run [OF _ assms(3-5)]) (use assms(1,2) in \<open>auto simp: limiter_with_def\<close>)

theorem sliding_window_respected_witness:
  "\<exists>l0 m1 l m2 oks l'. mcp_advanced_rate_limiter_create [] None = (Some l0, m1) \<and>
     mcp_advanced_rate_limiter_add_rule m1
       (mcp_advanced_rate_limiter_create_default_rule MCP_RATE_LIMIT_KEY_IP MCP_RATE_LIMIT_SLIDING_WINDOW 60 2) l0 = (True, l, m2) \<and>
     run_limiter (\<lambda>x. x) (replicate 4 (\<lparr>ck_now = 7, ck_init = (\<lambda>_. 7), ck_mem = (\<lambda>_. [])\<rparr>, ''a'')) l = Done (oks, l') \<and>
     requests_between 7 67 (allowed_at ''a'' (replicate 4 (\<lparr>ck_now = 7, ck_init = (\<lambda>_. 7), ck_mem = (\<lambda>_. [])\<rparr>, ''a'')) oks) \<le> 2"
proof -
  let ?rule = "mcp_advanced_rate_limiter_create_default_rule MCP_RATE_LIMIT_KEY_IP MCP_RATE_LIMIT_SLIDING_WINDOW 60 2"
  let ?reqs = "replicate 4 (\<lparr>ck_now = 7, ck_init = (\<lambda>_. 7), ck_mem = (\<lambda>_. [])\<rparr>, ''a'') :: (check_env \<times> string) list"
  obtain l0 m1 where c: "mcp_advanced_rate_limiter_create [] None = (Some l0, m1)" and m1: "m1 = []" and n: "al_rules l0 = (\<lambda>_. [])"
    by (simp add: mcp_advanced_rate_limiter_create_def calloc_clients_def Let_def)
  obtain l m2 where a: "mcp_advanced_rate_limiter_add_rule m1 ?rule l0 = (True, l, m2)"
    using m1 n by (simp add: mcp_advanced_rate_limiter_add_rule_def MAX_RULES_PER_KEY_TYPE_def rule_defs)
  have "clock_ok ?reqs" by (simp add: clock_ok_def)
  from sliding_window_respected [OF c a _ _ this, of "\<lambda>x. x"] obtain oks l' where r: "run_limiter (\<lambda>x. x) ?reqs l = Done (oks, l')"
      "\<forall>ip. \<forall>t. requests_between t (t + int (unat (60 :: size_t))) (allowed_at ip ?reqs oks) \<le> unat (2 :: size_t)" by auto
  have "requests_between 7 67 (allowed_at ''a'' ?reqs oks) \<le> 2" using r(2) [rule_format, of 7 "''a''"] by simp
  then show ?thesis using c a r(1) by blast
qed

end
