(* ===== verification/Mcp_Gateway.thy ===== *)
theory Mcp_Gateway
  imports Mcp_Handlers
begin

text \<open>
  The gateway: the configuration of the backends, \<open>src/gateway/mcp_gateway_config.c\<close>, the choice of a backend for a
  request and the forwarding, \<open>src/gateway/mcp_gateway_routing.c\<close>.

  \<open>regcomp\<close> and \<open>regexec\<close> of the C library are parameters; a compiled expression is a value of the type \<open>'re\<close>.  The
  file is the sequence of chunks \<open>fread\<close> returns.  The parameters of a request are a pointer that the
  dispatcher sets to the JSON text and the routing casts to a JSON node: \<open>params_pointer\<close> says what it points to,
  and a node is read from a text byte by byte.
\<close>

section \<open>Backends\<close>

record 're mcp_backend_routing =
  resource_prefixes :: "string list"
  tool_names :: "string list"
  resource_regexes :: "(string \<times> 're) list"   \<comment> \<open>the patterns with their compiled expressions\<close>

record 're mcp_backend_info =
  be_name :: string
  be_address :: string
  be_routing :: "'re mcp_backend_routing"
  be_timeout_ms :: "32 word"

text \<open>Results of the parsing functions: a value or an error code, with the allocator.\<close>

type_synonym 'a parsed = "(int + 'a) \<times> mem"

text \<open>The copies of the strings of an array; an item that is not a string ends the loop.\<close>

fun copy_strings :: "mem \<Rightarrow> double json list \<Rightarrow> string list parsed" where
  "copy_strings m [] = (Inr [], m)"
| "copy_strings m (item # items) =
     (case mcp_json_get_string (Some item) of
        None \<Rightarrow> (Inl MCP_ERROR_PARSE_ERROR, m)
      | Some s \<Rightarrow>
          (case mcp_strdup m (Some s) of
             (None, m1) \<Rightarrow> (Inl MCP_ERROR_INTERNAL_ERROR, m1)
           | (Some s1, m1) \<Rightarrow>
               (case copy_strings m1 items of
                  (Inl err, m2) \<Rightarrow> (Inl err, m2)
                | (Inr ss, m2) \<Rightarrow> (Inr (s1 # ss), m2))))"

text \<open>The items of an array; an array of \<open>2 ^ 31\<close> items or more has a negative size, and no allocation for it succeeds.\<close>

definition array_items :: "double json option \<Rightarrow> double json list" where
  "array_items json_array = (case json_array of Some (JArray items _) \<Rightarrow> items | _ \<Rightarrow> [])"

definition parse_string_array :: "mem \<Rightarrow> double json option \<Rightarrow> string list parsed" where
  "parse_string_array m json_array =
     (if \<not> mcp_json_is_array json_array then (Inr [], m)
      else let count = mcp_json_array_get_size json_array
           in if count = 0 then (Inr [], m)
              else if count < 0 then (Inl MCP_ERROR_INTERNAL_ERROR, m)
              else let (ok, m1) = mem_alloc m
                   in if \<not> ok then (Inl MCP_ERROR_INTERNAL_ERROR, m1)
                      else copy_strings m1 (take (nat count) (array_items json_array)))"

fun compile_patterns :: "(string \<Rightarrow> 're option) \<Rightarrow> mem \<Rightarrow> double json list \<Rightarrow> (string \<times> 're) list parsed" where
  "compile_patterns regcomp m [] = (Inr [], m)"
| "compile_patterns regcomp m (item # items) =
     (case mcp_json_get_string (Some item) of
        None \<Rightarrow> (Inl MCP_ERROR_PARSE_ERROR, m)
      | Some s \<Rightarrow>
          (case mcp_strdup m (Some s) of
             (None, m1) \<Rightarrow> (Inl MCP_ERROR_INTERNAL_ERROR, m1)
           | (Some s1, m1) \<Rightarrow>
               (case regcomp s of
                  None \<Rightarrow> (Inl MCP_ERROR_PARSE_ERROR, m1)
                | Some re \<Rightarrow>
                    (case compile_patterns regcomp m1 items of
                       (Inl err, m2) \<Rightarrow> (Inl err, m2)
                     | (Inr ss, m2) \<Rightarrow> (Inr ((s1, re) # ss), m2)))))"

definition parse_and_compile_regex_array :: "(string \<Rightarrow> 're option) \<Rightarrow> mem \<Rightarrow> double json option \<Rightarrow> (string \<times> 're) list parsed" where
  "parse_and_compile_regex_array regcomp m json_array =
     (if \<not> mcp_json_is_array json_array then (Inr [], m)
      else let count = mcp_json_array_get_size json_array
           in if count = 0 then (Inr [], m)
              else if count < 0 then (Inl MCP_ERROR_INTERNAL_ERROR, m)
              else let (ok1, m1) = mem_alloc m; (ok2, m2) = mem_alloc m1
                   in if \<not> ok1 \<or> \<not> ok2 then (Inl MCP_ERROR_INTERNAL_ERROR, m2)
                      else compile_patterns regcomp m2 (take (nat count) (array_items json_array)))"

text \<open>\<open>(uint32_t)timeout_val\<close> for a positive number; outside the range of the type the conversion is undefined.\<close>

definition timeout_of :: "double json option \<Rightarrow> 32 word checked" where
  "timeout_of timeout_node =
     (case mcp_json_get_number timeout_node of
        None \<Rightarrow> Done 0
      | Some (Finite v) \<Rightarrow> if v \<le> 0 then Done 0 else if v < 2 ^ 32 then Done (word_of_int (truncate_real v)) else Undefined
      | Some (Infinite negative) \<Rightarrow> if negative then Done 0 else Undefined)"

definition parse_routing :: "(string \<Rightarrow> 're option) \<Rightarrow> mem \<Rightarrow> double json option \<Rightarrow> 're mcp_backend_routing parsed" where
  "parse_routing regcomp m routing_node =
     (case parse_string_array m (mcp_json_object_get_property routing_node ''resource_prefixes'') of
        (Inl err, m1) \<Rightarrow> (Inl err, m1)
      | (Inr ps, m1) \<Rightarrow>
          (case parse_string_array m1 (mcp_json_object_get_property routing_node ''tool_names'') of
             (Inl err, m2) \<Rightarrow> (Inl err, m2)
           | (Inr ts, m2) \<Rightarrow>
               (case parse_and_compile_regex_array regcomp m2 (mcp_json_object_get_property routing_node ''resource_regexes'') of
                  (Inl err, m3) \<Rightarrow> (Inl err, m3)
                | (Inr rs, m3) \<Rightarrow> (Inr \<lparr>resource_prefixes = ps, tool_names = ts, resource_regexes = rs\<rparr>, m3))))"

text \<open>One element of the array of backends.\<close>

definition parse_backend :: "(string \<Rightarrow> 're option) \<Rightarrow> mem \<Rightarrow> double json \<Rightarrow> 're mcp_backend_info parsed checked" where
  "parse_backend regcomp m backend_obj =
     (let get = mcp_json_object_get_property (Some backend_obj);
          routing_node = get ''routing''
      in if \<not> mcp_json_is_object (Some backend_obj) then Done (Inl MCP_ERROR_PARSE_ERROR, m)
         else case (mcp_json_get_string (get ''name''), mcp_json_get_string (get ''address'')) of
                (Some name, Some address) \<Rightarrow>
                  (if \<not> mcp_json_is_object routing_node then Done (Inl MCP_ERROR_PARSE_ERROR, m)
                   else let (name1, m1) = mcp_strdup m (Some name); (address1, m2) = mcp_strdup m1 (Some address)
                        in case (name1, address1) of
                             (Some n, Some a) \<Rightarrow>
                               (case parse_routing regcomp m2 routing_node of
                                  (Inl err, m3) \<Rightarrow> Done (Inl err, m3)
                                | (Inr r, m3) \<Rightarrow>
                                    (case timeout_of (get ''timeout_ms'') of
                                       Undefined \<Rightarrow> Undefined
                                     | Done t \<Rightarrow> Done (Inr \<lparr>be_name = n, be_address = a, be_routing = r, be_timeout_ms = t\<rparr>, m3)))
                           | _ \<Rightarrow> Done (Inl MCP_ERROR_INTERNAL_ERROR, m2))
              | _ \<Rightarrow> Done (Inl MCP_ERROR_PARSE_ERROR, m))"

fun parse_backends :: "(string \<Rightarrow> 're option) \<Rightarrow> mem \<Rightarrow> double json list \<Rightarrow> 're mcp_backend_info list parsed checked" where
  "parse_backends regcomp m [] = Done (Inr [], m)"
| "parse_backends regcomp m (obj # objs) =
     (case parse_backend regcomp m obj of
        Undefined \<Rightarrow> Undefined
      | Done (Inl err, m1) \<Rightarrow> Done (Inl err, m1)
      | Done (Inr b, m1) \<Rightarrow>
          (case parse_backends regcomp m1 objs of
             Undefined \<Rightarrow> Undefined
           | Done (Inl err, m2) \<Rightarrow> Done (Inl err, m2)
           | Done (Inr bs, m2) \<Rightarrow> Done (Inr (b # bs), m2)))"

section \<open>Reading the file\<close>

text \<open>The loop over the chunks of at most 1024 bytes: the size of the buffer and its contents.  A copy past the end of the
  buffer is \<open>Undefined\<close>.\<close>

fun read_chunks :: "mem \<Rightarrow> nat \<Rightarrow> string \<Rightarrow> string list \<Rightarrow> (int + nat \<times> string) checked \<times> mem" where
  "read_chunks m buffer_size content [] = (Done (Inr (buffer_size, content)), m)"
| "read_chunks m buffer_size content (chunk # chunks) =
     (let (ok, buffer_size1, m1) =
            (if length content + length chunk + 1 > buffer_size
             then (case mem_alloc m of (ok, m') \<Rightarrow> (ok, buffer_size * 2, m')) else (True, buffer_size, m))
      in if \<not> ok then (Done (Inl MCP_ERROR_INTERNAL_ERROR), m1)
         else if length content + length chunk > buffer_size1 then (Undefined, m1)
         else read_chunks m1 buffer_size1 (content @ chunk) chunks)"

datatype config_file = Unreadable | ReadError "string list" | Chunks "string list"

text \<open>The text of the file with its terminator in the buffer, \<open>None\<close> for an empty file.\<close>

definition read_config :: "mem \<Rightarrow> config_file \<Rightarrow> (int + string option) checked \<times> mem" where
  "read_config m f =
     (case f of
        Unreadable \<Rightarrow> (Done (Inl MCP_ERROR_INVALID_REQUEST), m)
      | ReadError chunks \<Rightarrow>
          (let (ok, m1) = mem_alloc m
           in if \<not> ok then (Done (Inl MCP_ERROR_INTERNAL_ERROR), m1)
              else case read_chunks m1 4096 [] chunks of
                     (Undefined, m2) \<Rightarrow> (Undefined, m2)
                   | (Done _, m2) \<Rightarrow> (Done (Inl MCP_ERROR_INTERNAL_ERROR), m2))
      | Chunks chunks \<Rightarrow>
          (let (ok, m1) = mem_alloc m
           in if \<not> ok then (Done (Inl MCP_ERROR_INTERNAL_ERROR), m1)
              else case read_chunks m1 4096 [] chunks of
                     (Undefined, m2) \<Rightarrow> (Undefined, m2)
                   | (Done (Inl err), m2) \<Rightarrow> (Done (Inl err), m2)
                   | (Done (Inr (buffer_size, content)), m2) \<Rightarrow>
                       (if content = [] then (Done (Inr None), m2)
                        else if length content + 1 > buffer_size
                        then (case mem_alloc m2 of (ok2, m3) \<Rightarrow>
                                (if ok2 then Done (Inr (Some content)) else Done (Inl MCP_ERROR_INTERNAL_ERROR), m3))
                        else (Done (Inr (Some content)), m2))))"

text \<open>The error code and the list of backends; the memory of the parser and of the list are separate arguments.\<close>

definition load_gateway_config ::
    "(string \<Rightarrow> 're option) \<Rightarrow> json_env \<Rightarrow> mem \<Rightarrow> mem \<Rightarrow> config_file \<Rightarrow> (int \<times> 're mcp_backend_info list) checked" where
  "load_gateway_config regcomp env fm m f =
     (case read_config fm f of
        (Undefined, _) \<Rightarrow> Undefined
      | (Done (Inl err), _) \<Rightarrow> Done (err, [])
      | (Done (Inr None), _) \<Rightarrow> Done (MCP_ERROR_NONE, [])
      | (Done (Inr (Some content)), _) \<Rightarrow>
          (case parse_text env (c_string (content @ [NUL])) of
             Undefined \<Rightarrow> Undefined
           | Done None \<Rightarrow> Done (MCP_ERROR_PARSE_ERROR, [])
           | Done (Some root_json) \<Rightarrow>
               (let count = mcp_json_array_get_size (Some root_json)
                in if \<not> mcp_json_is_array (Some root_json) then Done (MCP_ERROR_PARSE_ERROR, [])
                   else if count = 0 then Done (MCP_ERROR_NONE, [])
                   else let (ok, m1) = mem_alloc m
                        in if \<not> ok \<or> count < 0 then Done (MCP_ERROR_INTERNAL_ERROR, [])
                           else case parse_backends regcomp m1 (take (nat count) (array_items (Some root_json))) of
                                  Undefined \<Rightarrow> Undefined
                                | Done (Inl err, _) \<Rightarrow> Done (err, [])
                                | Done (Inr bs, _) \<Rightarrow> Done (MCP_ERROR_NONE, bs))))"

section \<open>Routing\<close>

datatype params_pointer = ParamsNull | ParamsText string | ParamsNode "double json"

text \<open>The field \<open>type\<close> of a node, the first four bytes, read from a text with its terminator.\<close>

definition text_node_type :: "string \<Rightarrow> nat checked" where
  "text_node_type s =
     (if length s + 1 < 4 then Undefined
      else case take 4 (s @ [NUL]) of
             [a, b, c, d] \<Rightarrow> Done (of_char a + 256 * of_char b + 256 ^ 2 * of_char c + 256 ^ 3 * of_char d)
           | _ \<Rightarrow> Undefined)"

text \<open>The string property of the parameters a method is routed by.  A text with the type of an object would be
  followed by a read of its bytes as a pointer.\<close>

definition routing_key :: "string \<Rightarrow> params_pointer \<Rightarrow> string option checked" where
  "routing_key key params =
     (case params of
        ParamsNull \<Rightarrow> Done None
      | ParamsText s \<Rightarrow> (case text_node_type s of Undefined \<Rightarrow> Undefined | Done n \<Rightarrow> if n = 5 then Undefined else Done None)
      | ParamsNode j \<Rightarrow> Done (if mcp_json_get_type (Some j) \<noteq> MCP_JSON_OBJECT then None
                               else mcp_json_get_string (mcp_json_object_get_property (Some j) key)))"

definition resource_matches :: "('re \<Rightarrow> string \<Rightarrow> bool) \<Rightarrow> string \<Rightarrow> 're mcp_backend_info \<Rightarrow> bool" where
  "resource_matches regexec uri backend \<longleftrightarrow>
     list_ex (\<lambda>p. take (length p) uri = p) (resource_prefixes (be_routing backend)) \<or>
     list_ex (\<lambda>(_, re). regexec re uri) (resource_regexes (be_routing backend))"

definition tool_matches :: "string \<Rightarrow> 're mcp_backend_info \<Rightarrow> bool" where
  "tool_matches name backend \<longleftrightarrow> list_ex (\<lambda>t. name = t) (tool_names (be_routing backend))"

text \<open>The loop over the backends: the first that matches.\<close>

fun first_backend :: "('re mcp_backend_info \<Rightarrow> bool) \<Rightarrow> nat \<Rightarrow> 're mcp_backend_info list \<Rightarrow> nat option" where
  "first_backend f i [] = None"
| "first_backend f i (b # bs) = (if f b then Some i else first_backend f (i + 1) bs)"

definition find_backend_for_request ::
    "('re \<Rightarrow> string \<Rightarrow> bool) \<Rightarrow> string option \<Rightarrow> params_pointer \<Rightarrow> 're mcp_backend_info list \<Rightarrow> nat option checked" where
  "find_backend_for_request regexec meth params backends =
     (if meth = None \<or> backends = [] then Done None
      else if meth = Some ''read_resource''
      then (case routing_key ''uri'' params of
              Undefined \<Rightarrow> Undefined
            | Done None \<Rightarrow> Done None
            | Done (Some uri) \<Rightarrow> Done (first_backend (resource_matches regexec uri) 0 backends))
      else if meth = Some ''call_tool''
      then (case routing_key ''name'' params of
              Undefined \<Rightarrow> Undefined
            | Done None \<Rightarrow> Done None
            | Done (Some name) \<Rightarrow> Done (first_backend (tool_matches name) 0 backends))
      else Done None)"

text \<open>What the dispatcher passes: the text of the parameters.\<close>

definition dispatched_params :: "request \<Rightarrow> params_pointer" where
  "dispatched_params rq = (case rq_params rq of None \<Rightarrow> ParamsNull | Some s \<Rightarrow> ParamsText s)"

section \<open>Forwarding\<close>

text \<open>\<open>mcp_json_create_error_response\<close>: the nodes are made first, and the results of setting the properties are ignored.\<close>

definition set_anyway :: "string \<Rightarrow> double json \<Rightarrow> double json \<times> mem \<Rightarrow> double json \<times> mem" where
  "set_anyway key v s =
     (case s of (obj, m) \<Rightarrow>
        (case mcp_json_object_set_property m (Some obj) key (Some v) of
           (rc, obj', m1) \<Rightarrow> (case obj' of Some o1 \<Rightarrow> (o1, m1) | None \<Rightarrow> (obj, m1))))"

definition mcp_json_create_error_response :: "json_env \<Rightarrow> mem \<Rightarrow> size_t \<Rightarrow> int \<Rightarrow> string option \<Rightarrow> string option checked" where
  "mcp_json_create_error_response env m i error_code error_message =
     (case mcp_json_object_create m of
        (None, _) \<Rightarrow> Done None
      | (Some response, m1) \<Rightarrow>
          (let (jsonrpc, m2) = mcp_json_string_create m1 (Some ''2.0'');
               (id_node, m3) = mcp_json_number_create m2 (double_of_u64 i);
               (error_obj, m4) = mcp_json_object_create m3;
               (code_node, m5) = mcp_json_number_create m4 (Finite (of_int error_code));
               (msg_node, m6) = mcp_json_string_create m5 (Some (case error_message of None \<Rightarrow> [] | Some s \<Rightarrow> s))
           in case (jsonrpc, id_node, error_obj, code_node, msg_node) of
                (Some jr, Some idn, Some eo, Some cn, Some mn) \<Rightarrow>
                  (let (eo1, m7) = set_anyway ''message'' mn (set_anyway ''code'' cn (eo, m6));
                       (r1, m8) = set_anyway ''error'' eo1 (set_anyway ''id'' idn (set_anyway ''jsonrpc'' jr (response, m7)))
                   in mcp_json_stringify env r1)
              | _ \<Rightarrow> Done None))"

text \<open>What \<open>mcp_client_send_raw_request\<close> gives back; its \<open>response\<close> is the result of the answer of the backend.\<close>

record raw_answer =
  ra_status :: int
  ra_response :: "string option"
  ra_error_code :: int
  ra_error_message :: "string option"

record forward_env =
  fe_json :: json_env
  fe_mem :: mem
  fe_connected :: bool      \<comment> \<open>\<open>gateway_pool_get_connection\<close> gives a connection\<close>
  fe_send :: "string option \<Rightarrow> string \<Rightarrow> size_t \<Rightarrow> raw_answer"

definition forward_error :: "forward_env \<Rightarrow> request \<Rightarrow> int \<Rightarrow> string option \<Rightarrow> (int \<times> string option) checked" where
  "forward_error fe rq code msg =
     (case mcp_json_create_error_response (fe_json fe) (fe_mem fe) (rq_id rq) code msg of
        Undefined \<Rightarrow> Undefined | Done r \<Rightarrow> Done (code, r))"

definition gateway_forward_request :: "forward_env \<Rightarrow> request \<Rightarrow> (int \<times> string option) checked" where
  "gateway_forward_request fe rq =
     (if \<not> fe_connected fe then forward_error fe rq MCP_ERROR_INTERNAL_ERROR (Some ''Gateway failed to get backend connection.'')
      else let ra = fe_send fe (rq_method rq) (case rq_params rq of Some p \<Rightarrow> p | None \<Rightarrow> ''{}'') (rq_id rq)
           in if ra_status ra \<noteq> 0
              then forward_error fe rq MCP_ERROR_TRANSPORT_ERROR (Some ''Gateway transport error communicating with backend.'')
              else if ra_error_code ra \<noteq> MCP_ERROR_NONE then forward_error fe rq (ra_error_code ra) (ra_error_message ra)
              else Done (MCP_ERROR_NONE, ra_response ra))"

section \<open>What is loaded\<close>

definition read_post :: "string \<Rightarrow> (int + nat \<times> string) checked \<Rightarrow> bool" where
  "read_post full r \<longleftrightarrow> r = Done (Inl MCP_ERROR_INTERNAL_ERROR) \<or> (\<exists>n. r = Done (Inr (n, full)) \<and> length full < n)"

lemma read_chunks_ok:
  assumes "\<forall>c \<in> set chunks. length c \<le> 1024" "1025 \<le> buffer_size" "length content < buffer_size" "full = content @ concat chunks"
  shows "read_post full (fst (read_chunks m buffer_size content chunks))"
  using assms
proof (induction chunks arbitrary: m buffer_size content)
  case (Cons c chunks)
  have c: "length c \<le> 1024" using Cons.prems by simp
  have full: "full = (content @ c) @ concat chunks" using Cons.prems(4) by simp
  show ?case
  proof (cases "length content + length c + 1 > buffer_size")
    case True
    obtain ok m1 where a: "mem_alloc m = (ok, m1)" by fastforce
    show ?thesis
    proof (cases ok)
      case ok: True
      have "read_post full (fst (read_chunks m1 (buffer_size * 2) (content @ c) chunks))"
        using Cons.prems c by (intro Cons.IH [OF _ _ _ full]) simp_all
      then show ?thesis using Cons.prems c True a ok by (simp add: Let_def)
    next
      case False
      then show ?thesis using True a by (simp add: Let_def read_post_def)
    qed
  next
    case False
    then have "read_post full (fst (read_chunks m buffer_size (content @ c) chunks))"
      using Cons.prems by (intro Cons.IH [OF _ _ _ full]) simp_all
    then show ?thesis using False by (simp add: Let_def)
  qed
qed (simp add: read_post_def)

lemma copy_strings_ok:
  "copy_strings m items = (Inr ss, m1) \<Longrightarrow> map (\<lambda>j. mcp_json_get_string (Some j)) items = map Some ss"
proof (induction items arbitrary: m ss m1)
  case (Cons i items)
  then show ?case by (auto simp: mcp_strdup_def split: option.splits prod.splits sum.splits if_splits)
qed simp

lemma compile_patterns_ok:
  "compile_patterns regcomp m items = (Inr rs, m1) \<Longrightarrow>
     map (\<lambda>j. mcp_json_get_string (Some j)) items = map (Some \<circ> fst) rs \<and> (\<forall>(p, re) \<in> set rs. regcomp p = Some re)"
proof (induction items arbitrary: m rs m1)
  case (Cons i items)
  then show ?case by (auto simp: mcp_strdup_def split: option.splits prod.splits sum.splits if_splits) fastforce+
qed simp

text \<open>The items of an array the code looks at.\<close>

definition listed :: "double json option \<Rightarrow> double json list" where
  "listed node = (if mcp_json_is_array node then take (nat (mcp_json_array_get_size node)) (array_items node) else [])"

lemma string_array_ok:
  assumes "parse_string_array m node = (Inr ss, m1)"
  shows "map (\<lambda>j. mcp_json_get_string (Some j)) (listed node) = map Some ss"
  using assms copy_strings_ok
  by (auto simp: parse_string_array_def listed_def Let_def split: if_splits prod.splits)

lemma regex_array_ok:
  assumes "parse_and_compile_regex_array regcomp m node = (Inr rs, m1)"
  shows "map (\<lambda>j. mcp_json_get_string (Some j)) (listed node) = map (Some \<circ> fst) rs \<and> (\<forall>(p, re) \<in> set rs. regcomp p = Some re)"
proof -
  have "rs = [] \<and> listed node = [] \<or> (\<exists>m2. compile_patterns regcomp m2 (listed node) = (Inr rs, m1))"
    using assms by (auto simp: parse_and_compile_regex_array_def listed_def Let_def split: if_splits prod.splits)
  then show ?thesis using compile_patterns_ok by fastforce
qed

definition describes :: "(string \<Rightarrow> 're option) \<Rightarrow> double json \<Rightarrow> 're mcp_backend_info \<Rightarrow> bool" where
  "describes regcomp obj b \<longleftrightarrow>
     (let get = mcp_json_object_get_property (Some obj);
          strings = (\<lambda>key. map (\<lambda>j. mcp_json_get_string (Some j)) (listed (mcp_json_object_get_property (get ''routing'') key)))
      in mcp_json_get_string (get ''name'') = Some (be_name b) \<and> mcp_json_get_string (get ''address'') = Some (be_address b) \<and>
         strings ''resource_prefixes'' = map Some (resource_prefixes (be_routing b)) \<and>
         strings ''tool_names'' = map Some (tool_names (be_routing b)) \<and>
         strings ''resource_regexes'' = map (Some \<circ> fst) (resource_regexes (be_routing b)) \<and>
         (\<forall>(p, re) \<in> set (resource_regexes (be_routing b)). regcomp p = Some re) \<and>
         timeout_of (get ''timeout_ms'') = Done (be_timeout_ms b))"

lemma parse_backend_ok:
  assumes "parse_backend regcomp m obj = Done (Inr b, m1)"
  shows "describes regcomp obj b"
proof -
  let ?get = "mcp_json_object_get_property (Some obj)"
  obtain n a m2 r m3 t where n: "mcp_json_get_string (?get ''name'') = Some n" "mcp_json_get_string (?get ''address'') = Some a"
    and r: "parse_routing regcomp m2 (?get ''routing'') = (Inr r, m3)" and t: "timeout_of (?get ''timeout_ms'') = Done t"
    and b: "b = \<lparr>be_name = n, be_address = a, be_routing = r, be_timeout_ms = t\<rparr>"
    using assms by (auto simp: parse_backend_def Let_def mcp_strdup_def split: if_splits option.splits prod.splits sum.splits checked.splits)
  obtain ps ts rs m4 m5 where r2: "parse_string_array m2 (mcp_json_object_get_property (?get ''routing'') ''resource_prefixes'') = (Inr ps, m4)"
    "parse_string_array m4 (mcp_json_object_get_property (?get ''routing'') ''tool_names'') = (Inr ts, m5)"
    "parse_and_compile_regex_array regcomp m5 (mcp_json_object_get_property (?get ''routing'') ''resource_regexes'') = (Inr rs, m3)"
    "r = \<lparr>resource_prefixes = ps, tool_names = ts, resource_regexes = rs\<rparr>"
    using r by (auto simp: parse_routing_def split: prod.splits sum.splits)
  show ?thesis using n t string_array_ok [OF r2(1)] string_array_ok [OF r2(2)] regex_array_ok [OF r2(3)]
    by (simp add: describes_def Let_def b r2(4))
qed

lemma parse_backends_ok:
  "parse_backends regcomp m objs = Done (Inr bs, m1) \<Longrightarrow> list_all2 (describes regcomp) objs bs"
proof (induction objs arbitrary: m bs m1)
  case (Cons obj objs)
  obtain b bs1 m2 where "parse_backend regcomp m obj = Done (Inr b, m2)" "parse_backends regcomp m2 objs = Done (Inr bs1, m1)" "bs = b # bs1"
    using Cons.prems by (auto split: checked.splits prod.splits sum.splits)
  then show ?case using parse_backend_ok Cons.IH by (metis list.rel_intros(2))
qed simp

text \<open>What a configuration must have to be loaded.\<close>

definition short_text :: "string option \<Rightarrow> bool" where
  "short_text s \<longleftrightarrow> (case s of None \<Rightarrow> False | Some x \<Rightarrow> length x < 2 ^ 60)"

definition strings_listed :: "double json option \<Rightarrow> bool" where
  "strings_listed node \<longleftrightarrow> (mcp_json_is_array node \<longrightarrow> 0 \<le> mcp_json_array_get_size node) \<and>
     (\<forall>j \<in> set (listed node). short_text (mcp_json_get_string (Some j)))"

definition backend_wf :: "(string \<Rightarrow> 're option) \<Rightarrow> double json \<Rightarrow> bool" where
  "backend_wf regcomp obj \<longleftrightarrow>
     (let get = mcp_json_object_get_property (Some obj); sub = mcp_json_object_get_property (get ''routing'')
      in mcp_json_is_object (Some obj) \<and> short_text (mcp_json_get_string (get ''name'')) \<and> short_text (mcp_json_get_string (get ''address'')) \<and>
         mcp_json_is_object (get ''routing'') \<and> strings_listed (sub ''resource_prefixes'') \<and> strings_listed (sub ''tool_names'') \<and>
         strings_listed (sub ''resource_regexes'') \<and>
         (\<forall>j \<in> set (listed (sub ''resource_regexes'')). \<forall>p. mcp_json_get_string (Some j) = Some p \<longrightarrow> regcomp p \<noteq> None) \<and>
         timeout_of (get ''timeout_ms'') \<noteq> Undefined)"

lemma strdup_all: "short_text (Some s) \<Longrightarrow> mcp_strdup [] (Some s) = (Some s, [])"
  by (simp add: mcp_strdup_def short_text_def realloc_bytes_def)

lemma short_text_Some: "short_text s \<Longrightarrow> \<exists>x. s = Some x \<and> mcp_strdup [] (Some x) = (Some x, [])"
  using strdup_all by (cases s) (auto simp: short_text_def)

lemma copy_strings_all:
  "\<forall>j \<in> set items. short_text (mcp_json_get_string (Some j)) \<Longrightarrow> \<exists>ss. copy_strings [] items = (Inr ss, [])"
proof (induction items)
  case (Cons j items)
  then show ?case using short_text_Some [of "mcp_json_get_string (Some j)"] by auto
qed simp

lemma compile_patterns_all:
  "\<forall>j \<in> set items. short_text (mcp_json_get_string (Some j)) \<and> (\<forall>p. mcp_json_get_string (Some j) = Some p \<longrightarrow> regcomp p \<noteq> None) \<Longrightarrow>
     \<exists>rs. compile_patterns regcomp [] items = (Inr rs, [])"
proof (induction items)
  case (Cons j items)
  then show ?case using short_text_Some [of "mcp_json_get_string (Some j)"] by auto
qed simp

lemma string_array_all: "strings_listed node \<Longrightarrow> \<exists>ss. parse_string_array [] node = (Inr ss, [])"
  using copy_strings_all [of "listed node"]
  by (cases "mcp_json_is_array node"; cases "mcp_json_array_get_size node = 0") (auto simp: strings_listed_def parse_string_array_def listed_def Let_def)

lemma regex_array_all:
  "strings_listed node \<Longrightarrow> \<forall>j \<in> set (listed node). \<forall>p. mcp_json_get_string (Some j) = Some p \<longrightarrow> regcomp p \<noteq> None \<Longrightarrow>
     \<exists>rs. parse_and_compile_regex_array regcomp [] node = (Inr rs, [])"
  using compile_patterns_all [of "listed node" regcomp]
  by (cases "mcp_json_is_array node"; cases "mcp_json_array_get_size node = 0")
    (auto simp: strings_listed_def parse_and_compile_regex_array_def listed_def Let_def)

lemma parse_backend_all:
  assumes "backend_wf regcomp obj"
  shows "\<exists>b. parse_backend regcomp [] obj = Done (Inr b, [])"
proof -
  let ?get = "mcp_json_object_get_property (Some obj)"
  let ?sub = "mcp_json_object_get_property (?get ''routing'')"
  have wf: "mcp_json_is_object (Some obj)" "mcp_json_is_object (?get ''routing'')" "strings_listed (?sub ''resource_prefixes'')"
    "strings_listed (?sub ''tool_names'')" "strings_listed (?sub ''resource_regexes'')"
    "\<forall>j \<in> set (listed (?sub ''resource_regexes'')). \<forall>p. mcp_json_get_string (Some j) = Some p \<longrightarrow> regcomp p \<noteq> None"
    using assms by (simp_all add: backend_wf_def Let_def)
  obtain n a where na: "mcp_json_get_string (?get ''name'') = Some n" "mcp_json_get_string (?get ''address'') = Some a"
    "mcp_strdup [] (Some n) = (Some n, [])" "mcp_strdup [] (Some a) = (Some a, [])"
    using assms short_text_Some unfolding backend_wf_def Let_def by metis
  obtain t where t: "timeout_of (?get ''timeout_ms'') = Done t"
    using assms by (cases "timeout_of (?get ''timeout_ms'')") (auto simp: backend_wf_def Let_def)
  obtain ps ts rs where "parse_string_array [] (?sub ''resource_prefixes'') = (Inr ps, [])" "parse_string_array [] (?sub ''tool_names'') = (Inr ts, [])"
    "parse_and_compile_regex_array regcomp [] (?sub ''resource_regexes'') = (Inr rs, [])"
    using string_array_all [OF wf(3)] string_array_all [OF wf(4)] regex_array_all [OF wf(5,6)] by blast
  then have "parse_routing regcomp [] (?get ''routing'') = (Inr \<lparr>resource_prefixes = ps, tool_names = ts, resource_regexes = rs\<rparr>, [])"
    by (simp add: parse_routing_def)
  then show ?thesis using wf(1,2) na t by (simp add: parse_backend_def Let_def)
qed

lemma parse_backends_all:
  "\<forall>obj \<in> set objs. backend_wf regcomp obj \<Longrightarrow> \<exists>bs. parse_backends regcomp [] objs = Done (Inr bs, [])"
proof (induction objs)
  case (Cons obj objs)
  then obtain b bs where "parse_backend regcomp [] obj = Done (Inr b, [])" "parse_backends regcomp [] objs = Done (Inr bs, [])"
    using parse_backend_all [of regcomp obj] by auto
  then show ?case by simp
qed simp

lemma read_config_all:
  assumes "\<forall>c \<in> set chunks. length c \<le> 1024" "concat chunks \<noteq> []"
  shows "\<exists>m. read_config [] (Chunks chunks) = (Done (Inr (Some (concat chunks))), m)"
proof -
  have ok: "fst (read_chunks [] n content cs) \<noteq> Done (Inl err) \<and> snd (read_chunks [] n content cs) = []" for n content cs and err :: int
    by (induction cs arbitrary: n content) (auto simp: Let_def)
  obtain r where r: "read_chunks [] 4096 [] chunks = (r, [])" using ok [of 4096 "[]" chunks] by (metis prod.collapse)
  have "read_post (concat chunks) r" using read_chunks_ok [OF assms(1), of 4096 "[]" "concat chunks" "[]"] r by simp
  then show ?thesis using ok [of 4096 "[]" chunks] assms(2) r by (auto simp: read_config_def read_post_def)
qed

lemma first_backend_Some:
  "first_backend f i bs = Some j \<longleftrightarrow> (\<exists>k < length bs. j = i + k \<and> f (bs ! k) \<and> (\<forall>l < k. \<not> f (bs ! l)))"
proof (induction bs arbitrary: i)
  case (Cons b bs)
  show ?case
  proof (cases "f b")
    case True
    have "k = 0" if "\<forall>l < k. \<not> f ((b # bs) ! l)" for k using that True by (metis not_gr_zero nth_Cons_0)
    then show ?thesis using True by auto
  next
    case False
    then have "(\<exists>k < length (b # bs). j = i + k \<and> f ((b # bs) ! k) \<and> (\<forall>l < k. \<not> f ((b # bs) ! l))) \<longleftrightarrow>
        (\<exists>k < length bs. j = Suc i + k \<and> f (bs ! k) \<and> (\<forall>l < k. \<not> f (bs ! l)))"
      by (simp add: Ex_less_Suc2 All_less_Suc2)
    then show ?thesis using Cons.IH [of "Suc i"] False by simp
  qed
qed simp

lemma text_type_not_object:
  assumes "c_str_ok s"
  shows "text_node_type s \<noteq> Done 5"
proof (cases "length s + 1 < 4")
  case False
  then obtain a b c t where s: "s = a # b # c # t" by (cases s; cases "tl s"; cases "tl (tl s)") auto
  have "of_char b \<noteq> (0 :: nat)" using assms s unfolding c_str_ok_def using of_char_eq_iff [of b NUL, where ?'a = nat] by auto
  moreover have "take 4 (s @ [NUL]) = [a, b, c, hd (t @ [NUL])]" unfolding s by (cases t) simp_all
  ultimately show ?thesis using False by (simp add: text_node_type_def)
qed (simp add: text_node_type_def)


lemma routed_first:
  assumes "mcp_json_get_type (Some j) = MCP_JSON_OBJECT"
  shows "find_backend_for_request regexec (Some ''read_resource'') (ParamsNode j) backends = Done (Some i) \<longleftrightarrow>
      (\<exists>uri. mcp_json_get_string (mcp_json_object_get_property (Some j) ''uri'') = Some uri \<and> i < length backends \<and>
         (\<forall>k \<le> i. (k = i) = ((\<exists>p \<in> set (resource_prefixes (be_routing (backends ! k))). prefix p uri) \<or>
            (\<exists>(pat, re) \<in> set (resource_regexes (be_routing (backends ! k))). regexec re uri))))"
    "find_backend_for_request regexec (Some ''call_tool'') (ParamsNode j) backends = Done (Some i) \<longleftrightarrow>
      (\<exists>name. mcp_json_get_string (mcp_json_object_get_property (Some j) ''name'') = Some name \<and> i < length backends \<and>
         (\<forall>k \<le> i. (k = i) = (name \<in> set (tool_names (be_routing (backends ! k))))))"
proof -
  have first: "first_backend f 0 bs = Some i \<longleftrightarrow> i < length bs \<and> (\<forall>k \<le> i. (k = i) = f (bs ! k))" for f and bs :: "'a mcp_backend_info list"
    unfolding first_backend_Some by (auto simp: le_less)
  have pre: "take (length p) uri = p \<longleftrightarrow> prefix p uri" for p uri :: string
    by (metis prefix_def append_eq_conv_conj append_take_drop_id)
  have "resource_matches regexec uri b \<longleftrightarrow> (\<exists>p \<in> set (resource_prefixes (be_routing b)). prefix p uri) \<or>
      (\<exists>(pat, re) \<in> set (resource_regexes (be_routing b)). regexec re uri)" for uri b
    by (auto simp: resource_matches_def list_ex_iff pre)
  then show "find_backend_for_request regexec (Some ''read_resource'') (ParamsNode j) backends = Done (Some i) \<longleftrightarrow>
      (\<exists>uri. mcp_json_get_string (mcp_json_object_get_property (Some j) ''uri'') = Some uri \<and> i < length backends \<and>
         (\<forall>k \<le> i. (k = i) = ((\<exists>p \<in> set (resource_prefixes (be_routing (backends ! k))). prefix p uri) \<or>
            (\<exists>(pat, re) \<in> set (resource_regexes (be_routing (backends ! k))). regexec re uri))))"
    using assms first by (auto simp: find_backend_for_request_def routing_key_def split: option.split)
  have "tool_matches name b \<longleftrightarrow> name \<in> set (tool_names (be_routing b))" for name and b :: "'a mcp_backend_info"
    by (auto simp: tool_matches_def list_ex_iff)
  then show "find_backend_for_request regexec (Some ''call_tool'') (ParamsNode j) backends = Done (Some i) \<longleftrightarrow>
      (\<exists>name. mcp_json_get_string (mcp_json_object_get_property (Some j) ''name'') = Some name \<and> i < length backends \<and>
         (\<forall>k \<le> i. (k = i) = (name \<in> set (tool_names (be_routing (backends ! k))))))"
    using assms first by (auto simp: find_backend_for_request_def routing_key_def split: option.split)
qed

text \<open>A configuration with one backend and no routes.\<close>

lemma config_value:
  "\<exists>config f. json_text_ok env_int config \<and> jabs config = VArray [VObject f] \<and> f ''name'' = Some (VString ''b'') \<and>
     f ''address'' = Some (VString ''h:1'') \<and> f ''timeout_ms'' = None \<and> f ''routing'' = Some (VObject Map.empty)"
proof -
  obtain t0 :: "(string, double json) mcp_hashtable" where t0: "json_ok (JObject t0)" "ht_map json_ops t0 = map_of []"
    using built_create unfolding built_def by blast
  let ?es = "[(''routing'', JObject t0), (''address'', JString ''h:1''), (''name'', JString ''b'')]"
  have "built (and_on (and_on (and_on (mcp_json_object_create []) (\<lambda>m obj. add_string_property m obj ''name'' ''b''))
      (\<lambda>m obj. add_string_property m obj ''address'' ''h:1'')) (\<lambda>m obj. add_json_property m obj ''routing'' (Some (JObject t0)))) ?es"
    by (rule built_add [OF built_add_string [OF built_add_string [OF built_create]]]) (simp_all add: c_str_ok_def t0(1) del: json_ok.simps)
  then obtain t :: "(string, double json) mcp_hashtable" where t: "json_ok (JObject t)" "ht_map json_ops t = map_of ?es"
    unfolding built_def by blast
  have s0: "sized env_int (2 ^ 31) 1 (JObject t0)" using sized_object [OF t0, of env_int 10 0] by (auto intro: sized_mono)
  have st: "sized env_int (2 ^ 31) 1 (JString s)" if "s = ''b'' \<or> s = ''h:1''" for s
    using that sized_string [of s env_int] sized_mono by (fastforce simp: text_field_def c_str_ok_def)
  have "sized env_int (8 * 2 ^ 31 + 1000) 2 (JObject t)" using sized_object [OF t, of env_int "2 ^ 31" 1] s0 st by (simp add: numeral_2_eq_2)
  then have "json_text_ok env_int (JArray [JObject t] 8)"
    using sized_array [of "[JObject t]" env_int "8 * 2 ^ 31 + 1000" 2 1 8] by (intro sized_text_ok [of env_int "8 * 2 ^ 31 + 1004" 3]) simp_all
  moreover have i: "ht_inv json_ops t" "ht_inv json_ops t0" using t(1) t0(1) by simp_all
  have "jabs (JArray [JObject t] 8) = VArray [VObject (\<lambda>x. map_option jabs (map_of ?es x))]" "jabs (JObject t0) = VObject Map.empty"
    using jabs_JObject [OF i(1)] jabs_JObject [OF i(2)] t(2) t0(2) by (simp_all del: jabs.simps(6))
  ultimately show ?thesis by (intro exI [of _ "JArray [JObject t] 8"] exI [of _ "\<lambda>x. map_option jabs (map_of ?es x)"]) auto
qed

lemma config_example:
  "\<exists>chunks config. (\<forall>c \<in> set chunks. length c \<le> 1024) \<and> concat chunks \<noteq> [] \<and>
     parse_text env_int (c_string (concat chunks @ [NUL])) = Done (Some config) \<and> mcp_json_is_array (Some config) \<and>
     mcp_json_array_get_size (Some config) = 1 \<and> (\<exists>obj. listed (Some config) = [obj] \<and> backend_wf regcomp obj \<and>
       mcp_json_get_string (mcp_json_object_get_property (Some obj) ''name'') = Some ''b'')"
proof -
  obtain c f where c: "json_text_ok env_int c" "jabs c = VArray [VObject f]" "f ''name'' = Some (VString ''b'')"
    "f ''address'' = Some (VString ''h:1'')" "f ''timeout_ms'' = None" "f ''routing'' = Some (VObject Map.empty)" using config_value by blast
  let ?text = "render (env_format env_int) c"
  obtain j where j: "parse_text env_int ?text = Done (Some j)" "json_text_ok env_int j" "jabs j = VArray [VObject f]"
    using json_text_parses [OF c(1) env_int(1)] c(2) by auto
  obtain obj cap where arr: "j = JArray [obj] cap" "jabs obj = VObject f" using j(3) by (cases j) auto
  obtain t where t: "obj = JObject t" using arr(2) by (cases obj) auto
  have ok: "json_ok (JObject t)" using j(2) arr(1) t by (simp add: json_text_ok_def)
  have p: "\<forall>x. map_option jabs (mcp_json_object_get_property (Some (JObject t)) x) = f x" using property_of_abs [OF ok] arr(2) t by simp
  obtain u where u: "mcp_json_object_get_property (Some (JObject t)) ''routing'' = Some (JObject u)" "jabs (JObject u) = VObject Map.empty"
    using object_reader(3) [OF p c(6)] by blast
  have none: "mcp_json_object_get_property (Some (JObject u)) x = None" for x
    using property_of_abs [OF property_json_ok [OF ok u(1)] u(2)] by simp
  note props = object_reader(2) [OF p c(3)] object_reader(2) [OF p c(4)] object_reader(4) [OF p c(5)] u(1) none
  have "backend_wf regcomp obj" unfolding t
    by (simp add: backend_wf_def props mcp_json_is_object_def mcp_json_get_type_def mcp_json_get_string_def short_text_def strings_listed_def
        listed_def mcp_json_is_array_def timeout_of_def mcp_json_get_number_def)
  moreover have "listed (Some j) = [obj]" "mcp_json_is_array (Some j)" "mcp_json_array_get_size (Some j) = 1"
    by (simp_all add: arr(1) listed_def mcp_json_is_array_def mcp_json_get_type_def mcp_json_array_get_size_def array_items_def)
  moreover have "concat (map (\<lambda>x. [x]) ?text) = ?text" by simp
  moreover have "?text \<noteq> []" using c(2) by (cases c) auto
  moreover have "c_string (?text @ [NUL]) = ?text" using c_string_append_NUL [of ?text "[]"] json_text_reads(2) [OF c(1)] by simp
  ultimately show ?thesis using j(1) props(1) t
    by (intro exI [of _ "map (\<lambda>x. [x]) ?text"] exI [of _ j]) (simp add: mcp_json_get_string_def)
qed

section \<open>Properties\<close>

text \<open>Claim C31.  The dispatcher hands the parameters of a request on as text, and the routing reads them as a JSON node: whatever the
  configuration of the gateway, no request is ever forwarded to a backend.\<close>

theorem gateway_never_forwards:
  assumes "\<forall>s. rq_params rq = Some s \<longrightarrow> c_str_ok s"
  shows "find_backend_for_request regexec (rq_method rq) (dispatched_params rq) backends \<noteq> Done (Some i) \<and>
    ((\<forall>s. rq_params rq = Some s \<longrightarrow> 3 \<le> length s) \<longrightarrow>
       find_backend_for_request regexec (rq_method rq) (dispatched_params rq) backends = Done None)"
proof -
  have "routing_key key (dispatched_params rq) \<noteq> Done (Some x)" for key x
    by (auto simp: routing_key_def dispatched_params_def split: option.splits checked.splits)
  moreover have "routing_key key (dispatched_params rq) = Done None" if long: "\<forall>s. rq_params rq = Some s \<longrightarrow> 3 \<le> length s" for key
  proof (cases "rq_params rq")
    case (Some s)
    obtain a b c t where "s = a # b # c # t" using long Some by (cases s; cases "tl s"; cases "tl (tl s)") auto
    then have "\<exists>n. text_node_type s = Done n" by (cases t) (simp_all add: text_node_type_def)
    then show ?thesis using text_type_not_object [of s] assms Some by (auto simp: routing_key_def dispatched_params_def)
  qed (simp add: routing_key_def dispatched_params_def)
  ultimately show ?thesis by (auto simp: find_backend_for_request_def split: checked.splits option.splits)
qed

theorem gateway_never_forwards_witness:
  "find_backend_for_request (\<lambda>re uri. True) (Some ''call_tool'') (dispatched_params \<lparr>rq_id = 1, rq_method = Some ''call_tool'', rq_params = Some ''{}  ''\<rparr>)
     [\<lparr>be_name = ''b'', be_address = ''tcp://h:1'',
       be_routing = \<lparr>resource_prefixes = [], tool_names = [''add''], resource_regexes = [] :: (string \<times> unit) list\<rparr>, be_timeout_ms = 0\<rparr>] = Done None"
proof -
  let ?rq = "\<lparr>rq_id = 1, rq_method = Some ''call_tool'', rq_params = Some ''{}  ''\<rparr>"
  have "find_backend_for_request f (rq_method ?rq) (dispatched_params ?rq) bs = Done None" for f :: "unit \<Rightarrow> string \<Rightarrow> bool" and bs
    using gateway_never_forwards [of ?rq f bs] by (simp add: c_str_ok_def)
  from this [of "\<lambda>re uri. True"] show ?thesis by simp
qed

text \<open>Claim C30.  A configuration file is read without leaving the buffer, however the system cuts it into chunks of up to 1024 bytes.  The
  backends that are loaded are those the text describes: names, addresses, prefixes, tools, compiled patterns and
  timeouts, in order; and a text that describes at least one backend, and every backend completely, is loaded unless
  memory runs out.\<close>

theorem gateway_config_loaded:
  assumes "\<forall>c \<in> set chunks. length c \<le> 1024"
  shows "fst (read_config fm (Chunks chunks)) \<noteq> Undefined \<and>
    (load_gateway_config regcomp env fm m (Chunks chunks) = Done (MCP_ERROR_NONE, bs) \<and> bs \<noteq> [] \<longrightarrow>
       (\<exists>config. parse_text env (c_string (concat chunks @ [NUL])) = Done (Some config) \<and> list_all2 (describes regcomp) (listed (Some config)) bs)) \<and>
    (concat chunks \<noteq> [] \<and> parse_text env (c_string (concat chunks @ [NUL])) = Done (Some config) \<and> mcp_json_is_array (Some config) \<and>
       0 < mcp_json_array_get_size (Some config) \<and> (\<forall>obj \<in> set (listed (Some config)). backend_wf regcomp obj) \<longrightarrow>
       (\<exists>bs. load_gateway_config regcomp env [] [] (Chunks chunks) = Done (MCP_ERROR_NONE, bs) \<and>
          list_all2 (describes regcomp) (listed (Some config)) bs))"
proof -
  obtain ok m1 where a: "mem_alloc fm = (ok, m1)" by fastforce
  obtain r m2 where r: "read_chunks m1 4096 [] chunks = (r, m2)" by fastforce
  have post: "read_post (concat chunks) r" using read_chunks_ok [OF assms, of 4096 "[]" "concat chunks" m1] r by simp
  have rc: "fst (read_config fm (Chunks chunks)) \<noteq> Undefined"
    "fst (read_config fm (Chunks chunks)) = Done (Inr (Some content)) \<Longrightarrow> content = concat chunks" for content
    using post a r by (auto simp: read_config_def read_post_def split: if_splits prod.splits)
  have "\<exists>config. parse_text env (c_string (concat chunks @ [NUL])) = Done (Some config) \<and> list_all2 (describes regcomp) (listed (Some config)) bs"
    if l: "load_gateway_config regcomp env fm m (Chunks chunks) = Done (MCP_ERROR_NONE, bs)" "bs \<noteq> []"
  proof -
    obtain content m3 config where t: "read_config fm (Chunks chunks) = (Done (Inr (Some content)), m3)" "parse_text env (c_string (content @ [NUL])) = Done (Some config)"
      "mcp_json_is_array (Some config)" and b: "\<exists>m4 m5. parse_backends regcomp m4 (listed (Some config)) = Done (Inr bs, m5)"
      using l by (auto simp: load_gateway_config_def listed_def Let_def split: prod.splits checked.splits sum.splits option.splits if_splits)
    then show ?thesis using rc(2) [of content] parse_backends_ok by fastforce
  qed
  moreover have "\<exists>bs. load_gateway_config regcomp env [] [] (Chunks chunks) = Done (MCP_ERROR_NONE, bs) \<and> list_all2 (describes regcomp) (listed (Some config)) bs"
    if wf: "concat chunks \<noteq> []" "parse_text env (c_string (concat chunks @ [NUL])) = Done (Some config)" "mcp_json_is_array (Some config)"
      "0 < mcp_json_array_get_size (Some config)" "\<forall>obj \<in> set (listed (Some config)). backend_wf regcomp obj"
  proof -
    obtain m3 where "read_config [] (Chunks chunks) = (Done (Inr (Some (concat chunks))), m3)" using read_config_all [OF assms wf(1)] by blast
    moreover obtain bs where b: "parse_backends regcomp [] (listed (Some config)) = Done (Inr bs, [])" using parse_backends_all [OF wf(5)] by blast
    ultimately show ?thesis using wf(2-4) parse_backends_ok [OF b]
      by (auto simp: load_gateway_config_def listed_def Let_def)
  qed
  ultimately show ?thesis using rc(1) by blast
qed

theorem gateway_config_loaded_witness:
  "\<exists>chunks bs. load_gateway_config (\<lambda>p. Some ()) env_int [] [] (Chunks chunks) = Done (MCP_ERROR_NONE, bs) \<and> map be_name bs = [''b'']"
proof -
  let ?rc = "\<lambda>p :: string. Some ()"
  obtain chunks config obj where c: "\<forall>c \<in> set chunks. length c \<le> 1024" "concat chunks \<noteq> []"
    "parse_text env_int (c_string (concat chunks @ [NUL])) = Done (Some config)" "mcp_json_is_array (Some config)"
    "mcp_json_array_get_size (Some config) = 1" "listed (Some config) = [obj]" "backend_wf ?rc obj"
    "mcp_json_get_string (mcp_json_object_get_property (Some obj) ''name'') = Some ''b''" using config_example [of ?rc] by blast
  obtain bs where bs: "load_gateway_config ?rc env_int [] [] (Chunks chunks) = Done (MCP_ERROR_NONE, bs)" "list_all2 (describes ?rc) [obj] bs"
    using gateway_config_loaded [OF c(1), of "[]" ?rc env_int "[]" "[]" config] c by auto
  then obtain b where "bs = [b]" "describes ?rc obj b" by (auto simp: list_all2_Cons1)
  then have "map be_name bs = [''b'']" using c(8) by (simp add: describes_def Let_def)
  with bs(1) show ?thesis by (intro exI conjI)
qed

text \<open>With parsed parameters the request goes to the first backend, in the order of the configuration, that has a prefix of the
  URI or an expression that matches it, or that names the tool.\<close>

theorem routed_to_first_match:
  assumes "mcp_json_get_type (Some j) = MCP_JSON_OBJECT"
  shows "(find_backend_for_request regexec (Some ''read_resource'') (ParamsNode j) backends = Done (Some i) \<longleftrightarrow>
      (\<exists>uri. mcp_json_get_string (mcp_json_object_get_property (Some j) ''uri'') = Some uri \<and> i < length backends \<and>
         (\<forall>k \<le> i. (k = i) = ((\<exists>p \<in> set (resource_prefixes (be_routing (backends ! k))). prefix p uri) \<or>
            (\<exists>(pat, re) \<in> set (resource_regexes (be_routing (backends ! k))). regexec re uri))))) \<and>
    (find_backend_for_request regexec (Some ''call_tool'') (ParamsNode j) backends = Done (Some i) \<longleftrightarrow>
      (\<exists>name. mcp_json_get_string (mcp_json_object_get_property (Some j) ''name'') = Some name \<and> i < length backends \<and>
         (\<forall>k \<le> i. (k = i) = (name \<in> set (tool_names (be_routing (backends ! k)))))))"
  by (rule conjI [OF routed_first [OF assms]])

theorem routed_to_first_match_witness:
  "\<exists>j. mcp_json_get_type (Some j) = MCP_JSON_OBJECT \<and>
     find_backend_for_request (\<lambda>re uri. True) (Some ''call_tool'') (ParamsNode j)
     [\<lparr>be_name = ''b'', be_address = ''tcp://h:1'',
       be_routing = \<lparr>resource_prefixes = [], tool_names = [''add''], resource_regexes = [] :: (string \<times> unit) list\<rparr>, be_timeout_ms = 0\<rparr>] = Done (Some 0)"
proof -
  have "built (and_on (mcp_json_object_create []) (\<lambda>m obj. add_string_property m obj ''name'' ''add'')) [(''name'', JString ''add'')]"
    by (rule built_add_string [OF built_create]) (simp_all add: c_str_ok_def)
  then obtain t :: "(string, double json) mcp_hashtable" where t: "json_ok (JObject t)" "ht_map json_ops t = map_of [(''name'', JString ''add'')]"
    unfolding built_def by auto
  have "mcp_json_object_get_property (Some (JObject t)) ''name'' = Some (JString ''add'')" unfolding get_property_map t(2) by simp
  then have "find_backend_for_request f (Some ''call_tool'') (ParamsNode (JObject t)) bs = Done (Some 0)"
    if "bs \<noteq> []" "''add'' \<in> set (tool_names (be_routing (bs ! 0)))" for f :: "unit \<Rightarrow> string \<Rightarrow> bool" and bs
    using routed_to_first_match [of "JObject t" f bs 0] that by (simp add: mcp_json_get_type_def mcp_json_get_string_def)
  then show ?thesis by (intro exI [of _ "JObject t"]) (simp add: mcp_json_get_type_def)
qed

end
