(* ===== verification/Mcp_Gateway_Pool.thy ===== *)
theory Mcp_Gateway_Pool
  imports Mcp_Template Mcp_Rate_Limiter
begin

text \<open>
  The connections of the gateway to a backend, \<open>src/gateway/mcp_gateway_pool.c\<close>: an idle list, three counters, and threads that
  get and release connections.

  The pool is a step relation.  A step is what a thread does from one acquisition of \<open>pool_lock\<close> to the next release
  of it, together with the part before the acquisition that touches no shared memory.  The nodes of the idle list live in a
  heap, so that a pointer kept over a release of the lock may dangle.  A connection is the number of the client
  object.  Whether a connection can be opened, whether it answers a ping, the clock and the allocator are choices of the
  step.  The load factor \<open>0.8\<close> is compared exactly.
\<close>

section \<open>Addresses\<close>

text \<open>\<open>host:port\<close> with an optional \<open>tcp://\<close>; the port is cut to 16 bits.  \<open>None\<close> is an address no transport is made for.\<close>

definition pool_address :: "string \<Rightarrow> (string \<times> 16 word) option" where
  "pool_address address =
     (let address_to_parse = (if take 6 address = ''tcp://'' then drop 6 address else address);
          host = takeWhile (\<lambda>c. c \<noteq> CHR '':'') address_to_parse;
          rest = dropWhile (\<lambda>c. c \<noteq> CHR '':'') address_to_parse
      in if rest = [] \<or> host = [] \<or> length host \<ge> 255 then None
         else let port = word_of_int (fst (c_strtol (tl rest))) in if port = 0 then None else Some (host, port))"

section \<open>The pool\<close>

record idle_connection_node =
  in_client :: nat
  in_since :: int
  in_next :: "nat option"

record backend_pool =
  gp_max_connections :: size_t
  gp_idle_timeout_ms :: int
  gp_nodes :: "nat \<Rightarrow> idle_connection_node option"   \<comment> \<open>the heap\<close>
  gp_idle_list :: "nat option"
  gp_idle_count :: size_t
  gp_active_count :: size_t
  gp_total_count :: size_t

text \<open>Where a thread is: outside, in \<open>gateway_pool_get_connection\<close> after a release of the lock, holding a connection, or in
  \<open>gateway_pool_release_connection\<close> during the health check.  A thread whose attempt to connect has failed has counted down
  \<open>total_count\<close> and released the lock, and unlocks it a second time at \<open>found_connection\<close>: it does not hold the lock then, and
  what happens is undefined, so \<open>UnlockAgain\<close> has no step.\<close>

datatype thread_pc =
    Outside
  | Destroying nat "nat option" int   \<comment> \<open>a timed out node, the next node, the clock\<close>
  | Creating
  | UnlockAgain
  | Waiting
  | Woken
  | Holding nat
  | Checking nat

record gateway =
  gw_pool :: backend_pool
  gw_threads :: "thread_pc list"
  gw_clients :: nat             \<comment> \<open>the number of clients made so far\<close>

definition idle_timed_out :: "int \<Rightarrow> backend_pool \<Rightarrow> idle_connection_node \<Rightarrow> bool" where
  "idle_timed_out now p nd \<longleftrightarrow> gp_idle_timeout_ms p > 0 \<and> (now - in_since nd) * 1000 > gp_idle_timeout_ms p"

text \<open>The loop over the idle list from \<open>idle_node\<close> on, up to the next release of the lock.  \<open>prev_idle_node\<close> is NULL throughout: a
  node is either removed or taken.\<close>

definition scan_idle :: "int \<Rightarrow> nat option \<Rightarrow> backend_pool \<Rightarrow> (thread_pc \<times> backend_pool) checked" where
  "scan_idle now idle_node p =
     (case idle_node of
        None \<Rightarrow>
          (if gp_total_count p < gp_max_connections p then Done (Creating, p\<lparr>gp_total_count := gp_total_count p + 1\<rparr>)
           else Done (Waiting, p))
      | Some n \<Rightarrow>
          (case gp_nodes p n of
             None \<Rightarrow> Undefined
           | Some nd \<Rightarrow>
               if idle_timed_out now p nd
               then Done (Destroying n (in_next nd) now,
                          p\<lparr>gp_idle_list := in_next nd, gp_idle_count := gp_idle_count p - 1, gp_total_count := gp_total_count p - 1\<rparr>)
               else Done (Holding (in_client nd),
                          p\<lparr>gp_idle_list := in_next nd, gp_idle_count := gp_idle_count p - 1,
                            gp_active_count := gp_active_count p + 1, gp_nodes := (gp_nodes p)(n := None)\<rparr>)))"

text \<open>After the destruction of a timed out client: the node is freed, the lock taken again, and the loop goes on.\<close>

definition resume_scan :: "nat \<Rightarrow> nat option \<Rightarrow> int \<Rightarrow> backend_pool \<Rightarrow> (thread_pc \<times> backend_pool) checked" where
  "resume_scan n idle_node now p =
     (if gp_nodes p n = None then Undefined else scan_idle now idle_node (p\<lparr>gp_nodes := (gp_nodes p)(n := None)\<rparr>))"

definition count_down :: "size_t \<Rightarrow> size_t" where
  "count_down k = (if k > 0 then k - 1 else k)"

definition drop_connection :: "backend_pool \<Rightarrow> backend_pool" where
  "drop_connection p = p\<lparr>gp_active_count := count_down (gp_active_count p), gp_total_count := count_down (gp_total_count p)\<rparr>"

definition needs_health_check :: "backend_pool \<Rightarrow> bool" where
  "needs_health_check p \<longleftrightarrow> gp_idle_count p > 0 \<or> 10 * unat (gp_total_count p) \<ge> 8 * unat (gp_max_connections p)"

text \<open>The end of \<open>gateway_pool_release_connection\<close>; \<open>node\<close> is the answer of \<open>malloc\<close>.  The first component says whether a waiting
  thread is signalled.\<close>

definition give_back :: "bool \<Rightarrow> nat option \<Rightarrow> int \<Rightarrow> nat \<Rightarrow> backend_pool \<Rightarrow> bool \<times> backend_pool" where
  "give_back is_healthy node now client p =
     (if \<not> is_healthy then (False, drop_connection p)
      else if gp_idle_count p \<ge> gp_max_connections p div 2 then (False, drop_connection p)
      else case node of
             None \<Rightarrow> (False, drop_connection p)
           | Some a \<Rightarrow>
               (True, p\<lparr>gp_nodes := (gp_nodes p)(a \<mapsto> \<lparr>in_client = client, in_since = now, in_next = gp_idle_list p\<rparr>),
                        gp_idle_list := Some a, gp_idle_count := gp_idle_count p + 1,
                        gp_active_count := count_down (gp_active_count p)\<rparr>))"

section \<open>Steps\<close>

text \<open>A signal wakes one of the waiting threads, if there is one.\<close>

definition signalled :: "bool \<Rightarrow> thread_pc list \<Rightarrow> thread_pc list \<Rightarrow> bool" where
  "signalled signal ts ts' \<longleftrightarrow>
     (if signal \<and> Waiting \<in> set ts then \<exists>j < length ts. ts ! j = Waiting \<and> ts' = ts[j := Woken] else ts' = ts)"

text \<open>
  The last two steps end a wait without a signal: spuriously, after which the loop looks at the pool again, and by an error of
  \<open>mcp_cond_wait\<close>, after which the call returns NULL.  The code waits without a time-out (\<open>DEFAULT_GET_TIMEOUT_MS\<close> is -1).
\<close>

inductive gateway_step :: "gateway \<Rightarrow> gateway \<Rightarrow> bool" where
  get_connection: "i < length (gw_threads s) \<Longrightarrow> gw_threads s ! i = Outside \<or> gw_threads s ! i = Woken \<Longrightarrow>
    scan_idle now (gp_idle_list (gw_pool s)) (gw_pool s) = Done (pc, p) \<Longrightarrow>
    gateway_step s (s\<lparr>gw_pool := p, gw_threads := (gw_threads s)[i := pc]\<rparr>)"
| go_on: "i < length (gw_threads s) \<Longrightarrow> gw_threads s ! i = Destroying n nxt now \<Longrightarrow>
    resume_scan n nxt now (gw_pool s) = Done (pc, p) \<Longrightarrow>
    gateway_step s (s\<lparr>gw_pool := p, gw_threads := (gw_threads s)[i := pc]\<rparr>)"
| connected: "i < length (gw_threads s) \<Longrightarrow> gw_threads s ! i = Creating \<Longrightarrow>
    gateway_step s (s\<lparr>gw_pool := (gw_pool s)\<lparr>gp_active_count := gp_active_count (gw_pool s) + 1\<rparr>,
      gw_threads := (gw_threads s)[i := Holding (gw_clients s)], gw_clients := gw_clients s + 1\<rparr>)"
| not_connected: "i < length (gw_threads s) \<Longrightarrow> gw_threads s ! i = Creating \<Longrightarrow>
    gateway_step s (s\<lparr>gw_pool := (gw_pool s)\<lparr>gp_total_count := gp_total_count (gw_pool s) - 1\<rparr>,
      gw_threads := (gw_threads s)[i := UnlockAgain]\<rparr>)"
| start_check: "i < length (gw_threads s) \<Longrightarrow> gw_threads s ! i = Holding c \<Longrightarrow> needs_health_check (gw_pool s) \<Longrightarrow>
    gateway_step s (s\<lparr>gw_threads := (gw_threads s)[i := Checking c]\<rparr>)"
| release: "i < length (gw_threads s) \<Longrightarrow> gw_threads s ! i = Holding c \<and> \<not> needs_health_check (gw_pool s) \<and> is_healthy \<or> gw_threads s ! i = Checking c \<Longrightarrow>
    (\<And>a. node = Some a \<Longrightarrow> gp_nodes (gw_pool s) a = None) \<Longrightarrow>
    give_back is_healthy node now c (gw_pool s) = (signal, p) \<Longrightarrow> signalled signal ((gw_threads s)[i := Outside]) ts \<Longrightarrow>
    gateway_step s (s\<lparr>gw_pool := p, gw_threads := ts\<rparr>)"
| spurious_wakeup: "i < length (gw_threads s) \<Longrightarrow> gw_threads s ! i = Waiting \<Longrightarrow>
    gateway_step s (s\<lparr>gw_threads := (gw_threads s)[i := Woken]\<rparr>)"
| wait_failed: "i < length (gw_threads s) \<Longrightarrow> gw_threads s ! i = Waiting \<Longrightarrow>
    gateway_step s (s\<lparr>gw_threads := (gw_threads s)[i := Outside]\<rparr>)"

text \<open>\<open>create_backend_pool\<close> with the default settings: up to one connection is opened in advance.\<close>

definition create_backend_pool :: "(nat \<times> int) option \<Rightarrow> backend_pool" where
  "create_backend_pool opened =
     (case opened of
        None \<Rightarrow> \<lparr>gp_max_connections = 5, gp_idle_timeout_ms = 60000, gp_nodes = Map.empty, gp_idle_list = None,
                 gp_idle_count = 0, gp_active_count = 0, gp_total_count = 0\<rparr>
      | Some (client, now) \<Rightarrow>
          \<lparr>gp_max_connections = 5, gp_idle_timeout_ms = 60000, gp_nodes = [0 \<mapsto> \<lparr>in_client = client, in_since = now, in_next = None\<rparr>],
           gp_idle_list = Some 0, gp_idle_count = 1, gp_active_count = 0, gp_total_count = 1\<rparr>)"

definition gateway_start :: "nat \<Rightarrow> backend_pool \<Rightarrow> gateway" where
  "gateway_start n p = \<lparr>gw_pool = p, gw_threads = replicate n Outside, gw_clients = 1\<rparr>"

inductive gateway_reachable :: "gateway \<Rightarrow> gateway \<Rightarrow> bool" for s where
  gateway_here: "gateway_reachable s s"
| gateway_next: "gateway_reachable s t \<Longrightarrow> gateway_step t u \<Longrightarrow> gateway_reachable s u"




section \<open>The pool while no connection times out and every attempt to connect succeeds\<close>















section \<open>All threads\<close>













section \<open>Runs\<close>

text \<open>Moves of single threads, to build runs with.\<close>

datatype move = Get nat int | GoOn nat | Connect nat | Check nat | Release nat bool "nat option" int

definition set_thread :: "nat \<Rightarrow> gateway \<Rightarrow> (thread_pc \<times> backend_pool) checked \<Rightarrow> gateway option" where
  "set_thread i s r = (case r of Undefined \<Rightarrow> None | Done (pc, p) \<Rightarrow> Some (s\<lparr>gw_pool := p, gw_threads := (gw_threads s)[i := pc]\<rparr>))"

definition releases :: "nat \<Rightarrow> bool \<Rightarrow> nat option \<Rightarrow> int \<Rightarrow> nat \<Rightarrow> gateway \<Rightarrow> gateway option" where
  "releases i h node now c s =
     (if (case node of None \<Rightarrow> True | Some a \<Rightarrow> gp_nodes (gw_pool s) a = None)
      then case give_back h node now c (gw_pool s) of
             (signal, p) \<Rightarrow> if signal \<and> Waiting \<in> set ((gw_threads s)[i := Outside]) then None
                            else Some (s\<lparr>gw_pool := p, gw_threads := (gw_threads s)[i := Outside]\<rparr>)
      else None)"

fun do_move :: "move \<Rightarrow> gateway \<Rightarrow> gateway option" where
  "do_move (Get i now) s =
     (if i < length (gw_threads s) \<and> (gw_threads s ! i = Outside \<or> gw_threads s ! i = Woken)
      then set_thread i s (scan_idle now (gp_idle_list (gw_pool s)) (gw_pool s)) else None)"
| "do_move (GoOn i) s =
     (if i < length (gw_threads s)
      then case gw_threads s ! i of Destroying n nxt now \<Rightarrow> set_thread i s (resume_scan n nxt now (gw_pool s)) | _ \<Rightarrow> None else None)"
| "do_move (Connect i) s =
     (if i < length (gw_threads s) \<and> gw_threads s ! i = Creating
      then Some (s\<lparr>gw_pool := (gw_pool s)\<lparr>gp_active_count := gp_active_count (gw_pool s) + 1\<rparr>,
        gw_threads := (gw_threads s)[i := Holding (gw_clients s)], gw_clients := gw_clients s + 1\<rparr>) else None)"
| "do_move (Check i) s =
     (if i < length (gw_threads s) \<and> needs_health_check (gw_pool s)
      then case gw_threads s ! i of Holding c \<Rightarrow> Some (s\<lparr>gw_threads := (gw_threads s)[i := Checking c]\<rparr>) | _ \<Rightarrow> None else None)"
| "do_move (Release i h node now) s =
     (if i < length (gw_threads s)
      then case gw_threads s ! i of
             Holding c \<Rightarrow> if h \<and> \<not> needs_health_check (gw_pool s) then releases i h node now c s else None
           | Checking c \<Rightarrow> releases i h node now c s
           | _ \<Rightarrow> None else None)"

fun do_moves :: "move list \<Rightarrow> gateway \<Rightarrow> gateway option" where
  "do_moves [] s = Some s"
| "do_moves (m # ms) s = (case do_move m s of None \<Rightarrow> None | Some t \<Rightarrow> do_moves ms t)"

lemma releases_step:
  assumes "releases i h node now c s = Some t" "i < length (gw_threads s)"
    "gw_threads s ! i = Holding c \<and> \<not> needs_health_check (gw_pool s) \<and> h \<or> gw_threads s ! i = Checking c"
  shows "gateway_step s t"
proof -
  obtain signal p where g: "give_back h node now c (gw_pool s) = (signal, p)" by fastforce
  have t: "t = s\<lparr>gw_pool := p, gw_threads := (gw_threads s)[i := Outside]\<rparr>" "signalled signal ((gw_threads s)[i := Outside]) ((gw_threads s)[i := Outside])"
    using assms(1) g by (auto simp: releases_def signalled_def split: if_splits)
  show ?thesis unfolding t(1)
    by (rule release [OF assms(2,3) _ g t(2)]) (use assms(1) in \<open>auto simp: releases_def split: if_splits\<close>)
qed

lemma do_move_step: "do_move m s = Some t \<Longrightarrow> gateway_step s t"
proof (induction m s rule: do_move.induct)
  case (1 i now s)
  then show ?case by (auto simp: set_thread_def split: if_splits checked.splits intro: get_connection)
next
  case (2 i s)
  then show ?case by (auto simp: set_thread_def split: if_splits checked.splits thread_pc.splits intro: go_on)
next
  case (3 i s)
  then show ?case using connected [of i s] by (auto split: if_splits)
next
  case (4 i s)
  then show ?case by (auto split: if_splits thread_pc.splits intro: start_check)
next
  case (5 i h node now s)
  then show ?case by (auto split: if_splits thread_pc.splits intro: releases_step)
qed

lemma do_moves_reach: "do_moves ms t = Some u \<Longrightarrow> gateway_reachable s t \<Longrightarrow> gateway_reachable s u"
proof (induction ms arbitrary: t)
  case (Cons m ms)
  then show ?case by (auto split: option.splits dest: do_move_step intro: gateway_next)
qed simp

text \<open>Moves in a pool without idle connections.\<close>

definition no_idle :: "thread_pc list \<Rightarrow> size_t \<Rightarrow> size_t \<Rightarrow> nat \<Rightarrow> gateway" where
  "no_idle ts all active k = \<lparr>gw_pool = (create_backend_pool None)\<lparr>gp_total_count := all, gp_active_count := active\<rparr>,
     gw_threads = ts, gw_clients = k\<rparr>"

lemma start_no_idle: "gateway_start n (create_backend_pool None) = no_idle (replicate n Outside) 0 0 1"
  by (simp add: no_idle_def gateway_start_def create_backend_pool_def)

lemma no_idle_moves:
  "i < length ts \<Longrightarrow> ts ! i = Outside \<Longrightarrow> do_move (Get i now) (no_idle ts all active k) =
     Some (if all < 5 then no_idle (ts[i := Creating]) (all + 1) active k else no_idle (ts[i := Waiting]) all active k)"
  "i < length ts \<Longrightarrow> ts ! i = Creating \<Longrightarrow> do_move (Connect i) (no_idle ts all active k) = Some (no_idle (ts[i := Holding k]) all (active + 1) (k + 1))"
  "i < length ts \<Longrightarrow> ts ! i = Holding c \<Longrightarrow> 4 \<le> unat all \<Longrightarrow> do_move (Check i) (no_idle ts all active k) = Some (no_idle (ts[i := Checking c]) all active k)"
  "i < length ts \<Longrightarrow> ts ! i = Checking c \<Longrightarrow> do_move (Release i False None now) (no_idle ts all active k) =
     Some (no_idle (ts[i := Outside]) (count_down all) (count_down active) k)"
  by (simp_all add: no_idle_def create_backend_pool_def set_thread_def scan_idle_def needs_health_check_def releases_def give_back_def drop_connection_def)

lemma gateway_reachable_trans: "gateway_reachable s t \<Longrightarrow> gateway_reachable t u \<Longrightarrow> gateway_reachable s u"
  by (rotate_tac, induction rule: gateway_reachable.induct) (auto intro: gateway_next)

text \<open>A thread that asks for a connection frees the first idle node: at once, or after it has destroyed the connection.\<close>

lemma next_node_freed:
  assumes j: "j < length (gw_threads s)" "gw_threads s ! j = Outside"
    and m: "gp_idle_list (gw_pool s) = Some m" "gp_nodes (gw_pool s) m = Some b"
    and n: "m \<noteq> n" "gp_nodes (gw_pool s) n \<noteq> None"
    and b: "\<forall>q. in_next b = Some q \<longrightarrow> q \<notin> {m, n} \<and> gp_nodes (gw_pool s) q \<noteq> None"
  shows "\<exists>pc p. gateway_reachable s (s\<lparr>gw_pool := p, gw_threads := (gw_threads s)[j := pc]\<rparr>) \<and>
    gp_nodes p m = None \<and> gp_nodes p n \<noteq> None"
proof -
  obtain pc p where g: "scan_idle now (Some m) (gw_pool s) = Done (pc, p)" using m(2) by (cases "idle_timed_out now (gw_pool s) b") (auto simp: scan_idle_def)
  let ?s1 = "s\<lparr>gw_pool := p, gw_threads := (gw_threads s)[j := pc]\<rparr>"
  have r: "gateway_reachable s ?s1"
    by (rule gateway_next [OF gateway_here], rule get_connection [where now = now]) (use j m g in auto)
  show ?thesis
  proof (cases "idle_timed_out now (gw_pool s) b")
    case False
    then have "gp_nodes p m = None" "gp_nodes p n \<noteq> None" using g m(2) n by (auto simp: scan_idle_def)
    with r show ?thesis by blast
  next
    case True
    then have p: "pc = Destroying m (in_next b) now" "gp_nodes p = gp_nodes (gw_pool s)" using g m(2) by (auto simp: scan_idle_def)
    let ?p = "p\<lparr>gp_nodes := (gp_nodes p)(m := None)\<rparr>"
    obtain pc' p' where h: "scan_idle now (in_next b) ?p = Done (pc', p')" "gp_nodes p' m = None" "gp_nodes p' n \<noteq> None"
    proof (cases "in_next b")
      case None
      then show ?thesis using that n p(2) by (cases "gp_total_count ?p < gp_max_connections ?p") (auto simp: scan_idle_def)
    next
      case (Some q)
      then obtain nd where "gp_nodes p q = Some nd" "q \<noteq> m" "q \<noteq> n" using b p(2) by auto
      then show ?thesis using that n p(2) Some by (cases "idle_timed_out now ?p nd") (auto simp: scan_idle_def)
    qed
    have "resume_scan m (in_next b) now p = Done (pc', p')" using h(1) m(2) p(2) by (simp add: resume_scan_def)
    then have "gateway_step ?s1 (?s1\<lparr>gw_pool := p', gw_threads := (gw_threads ?s1)[j := pc']\<rparr>)"
      using j p(1) by (intro go_on) auto
    from gateway_next [OF r this] h(2,3) show ?thesis by (auto intro!: exI [of _ pc'] exI [of _ p'])
  qed
qed

section \<open>Properties\<close>



text \<open>Claim C39.  When the first of at least two idle connections has timed out, the thread that destroys it has released the lock
  and keeps a pointer to the next idle node.  Another thread that asks for a connection meanwhile can free that node: it takes the
  connection, or destroys it too when it has timed out.  The first thread then goes on with a pointer to freed memory.\<close>

theorem pool_use_after_free:
  assumes "i < length (gw_threads s)" "j < length (gw_threads s)" "i \<noteq> j"
    and "gw_threads s ! i = Outside" "gw_threads s ! j = Outside"
    and "gp_idle_list (gw_pool s) = Some n" "gp_nodes (gw_pool s) n = Some a" "idle_timed_out now (gw_pool s) a"
    and "in_next a = Some m" "m \<noteq> n" "gp_nodes (gw_pool s) m = Some b"
    and next_b: "\<forall>q. in_next b = Some q \<longrightarrow> q \<notin> {m, n} \<and> gp_nodes (gw_pool s) q \<noteq> None"
  shows "\<exists>t. gateway_reachable s t \<and> gw_threads t ! i = Destroying n (Some m) now \<and>
    gp_nodes (gw_pool t) n \<noteq> None \<and> gp_nodes (gw_pool t) m = None \<and> resume_scan n (Some m) now (gw_pool t) = Undefined"
proof -
  let ?p1 = "(gw_pool s)\<lparr>gp_idle_list := Some m, gp_idle_count := gp_idle_count (gw_pool s) - 1, gp_total_count := gp_total_count (gw_pool s) - 1\<rparr>"
  let ?s1 = "s\<lparr>gw_pool := ?p1, gw_threads := (gw_threads s)[i := Destroying n (Some m) now]\<rparr>"
  have 1: "gateway_reachable s ?s1"
    by (rule gateway_next [OF gateway_here], rule get_connection [where now = now]) (use assms in \<open>auto simp: scan_idle_def\<close>)
  have "\<exists>pc p. gateway_reachable ?s1 (?s1\<lparr>gw_pool := p, gw_threads := (gw_threads ?s1)[j := pc]\<rparr>) \<and>
      gp_nodes p m = None \<and> gp_nodes p n \<noteq> None"
    by (rule next_node_freed [where b = b]) (use assms in \<open>auto simp: nth_list_update\<close>)
  then obtain pc p where 2: "gateway_reachable ?s1 (?s1\<lparr>gw_pool := p, gw_threads := (gw_threads ?s1)[j := pc]\<rparr>)"
    "gp_nodes p m = None" "gp_nodes p n \<noteq> None" by blast
  then have "resume_scan n (Some m) now p = Undefined" by (auto simp: resume_scan_def scan_idle_def)
  with gateway_reachable_trans [OF 1 2(1)] 2(2,3) assms(1-3) show ?thesis by (intro exI conjI) auto
qed

theorem pool_use_after_free_witness:
  "\<exists>s t. gateway_reachable (gateway_start 2 (create_backend_pool (Some (0, 0)))) s \<and> gateway_reachable s t \<and>
     gw_threads t ! 0 = Destroying 2 (Some 1) 100 \<and> resume_scan 2 (Some 1) 100 (gw_pool t) = Undefined"
proof -
  let ?ms = "[Get 0 0, Get 1 0, Connect 1, Release 0 True (Some 1) 0, Check 1, Release 1 True (Some 2) 0]"
  have "case do_moves ?ms (gateway_start 2 (create_backend_pool (Some (0, 0)))) of None \<Rightarrow> False
      | Some s \<Rightarrow> gw_threads s = [Outside, Outside] \<and> gp_idle_list (gw_pool s) = Some 2 \<and> gp_idle_timeout_ms (gw_pool s) = 60000 \<and>
          gp_nodes (gw_pool s) 2 = Some \<lparr>in_client = 1, in_since = 0, in_next = Some 1\<rparr> \<and>
          gp_nodes (gw_pool s) 1 = Some \<lparr>in_client = 0, in_since = 0, in_next = None\<rparr>"
    by code_simp
  then obtain s where m: "do_moves ?ms (gateway_start 2 (create_backend_pool (Some (0, 0)))) = Some s"
    and s: "gw_threads s = [Outside, Outside]" "gp_idle_list (gw_pool s) = Some 2" "gp_idle_timeout_ms (gw_pool s) = 60000"
      "gp_nodes (gw_pool s) 2 = Some \<lparr>in_client = 1, in_since = 0, in_next = Some 1\<rparr>"
      "gp_nodes (gw_pool s) 1 = Some \<lparr>in_client = 0, in_since = 0, in_next = None\<rparr>"
    by (auto split: option.splits)
  from pool_use_after_free [of 0 s 1 2 _ 100 1] s do_moves_reach [OF m gateway_here]
  show ?thesis by (fastforce simp: idle_timed_out_def)
qed

text \<open>When an attempt to connect fails, the thread releases a lock that it does not hold.  With an address without a port, such as
  \<open>localhost\<close>, every attempt fails.\<close>

theorem pool_unlocks_twice:
  "\<exists>s. gateway_reachable (gateway_start 1 (create_backend_pool None)) s \<and> gw_threads s = [UnlockAgain] \<and>
     gp_total_count (gw_pool s) = 0 \<and> pool_address ''localhost'' = None"
proof -
  let ?s0 = "gateway_start 1 (create_backend_pool None)"
  let ?s1 = "?s0\<lparr>gw_pool := (gw_pool ?s0)\<lparr>gp_total_count := 1\<rparr>, gw_threads := [Creating]\<rparr>"
  let ?s2 = "?s1\<lparr>gw_pool := gw_pool ?s0, gw_threads := [UnlockAgain]\<rparr>"
  have "gateway_step ?s0 ?s1"
    using get_connection [of 0 ?s0 0 Creating "(gw_pool ?s0)\<lparr>gp_total_count := 1\<rparr>"]
    by (simp add: gateway_start_def create_backend_pool_def scan_idle_def)
  moreover have "gateway_step ?s1 ?s2"
    using not_connected [of 0 ?s1] by (simp add: gateway_start_def create_backend_pool_def)
  ultimately have "gateway_reachable ?s0 ?s2" by (blast intro: gateway_reachable.intros)
  moreover have "pool_address ''localhost'' = None" by code_simp
  ultimately show ?thesis by (intro exI [of _ ?s2]) (simp add: gateway_start_def create_backend_pool_def)
qed

text \<open>A thread can wait for a connection although there is none left at all: connections that are destroyed on release make room, but
  nobody is told.\<close>

theorem pool_lost_wakeup:
  "\<exists>s. gateway_reachable (gateway_start 6 (create_backend_pool None)) s \<and> gw_threads s = [Outside, Outside, Outside, Outside, Outside, Waiting] \<and>
     gp_total_count (gw_pool s) = 0 \<and> gp_idle_list (gw_pool s) = None"
proof -
  let ?ms = "[Get 0 0, Connect 0, Get 1 0, Connect 1, Get 2 0, Connect 2, Get 3 0, Connect 3, Get 4 0, Connect 4, Get 5 0,
    Check 0, Check 1, Check 2, Check 3, Check 4,
    Release 0 False None 0, Release 1 False None 0, Release 2 False None 0, Release 3 False None 0, Release 4 False None 0]"
  have six: "replicate 6 Outside = [Outside, Outside, Outside, Outside, Outside, Outside]" by (simp add: numeral_eq_Suc)
  have s: "do_moves ?ms (gateway_start 6 (create_backend_pool None)) =
      Some (no_idle [Outside, Outside, Outside, Outside, Outside, Waiting] 0 0 (Suc (Suc (Suc (Suc (Suc (Suc 0)))))))"
    unfolding start_no_idle six by (simp add: no_idle_moves count_down_def del: do_move.simps)
  show ?thesis by (intro exI conjI, rule do_moves_reach [OF s gateway_here]) (simp_all add: no_idle_def create_backend_pool_def)
qed

end
