(* ===== verification/Mcp_Sse.thy ===== *)
theory Mcp_Sse
  imports Mcp_Message
begin

text \<open>
  Server-sent events of the streamable HTTP transport: the sender \<open>send_sse_event\<close> of
  \<open>src/transport/mcp_sthttp_utils.c\<close>, the incremental parser \<open>src/transport/mcp_sthttp_sse_parser.c\<close>, and the loop of the client that
  feeds it, \<open>sse_client_thread_func\<close> of \<open>src/transport/mcp_sthttp_client_sse.c\<close>.

  A growing buffer is the list of its bytes, as long as its capacity, with the number of bytes in use.  Writing outside a
  buffer is \<open>Undefined\<close>, and so is a loop that does not end.  Memory answers come from the \<open>mem\<close> argument.
\<close>

section \<open>Sending\<close>

text \<open>One \<open>snprintf\<close> of a field into the 4096 bytes of the buffer: \<open>None\<close> if it does not fit with its terminator.\<close>

definition print_field :: "string \<Rightarrow> string option \<Rightarrow> string option \<Rightarrow> string option" where
  "print_field key v buffer =
     (case buffer of
        None \<Rightarrow> None
      | Some s \<Rightarrow>
          (case v of
             None \<Rightarrow> Some s
           | Some x \<Rightarrow> let line = key @ '': '' @ x @ [CHR 0x0A]
                       in if length line \<ge> 4096 - length s then None else Some (s @ line)))"

text \<open>What is handed to \<open>lws_write\<close>; \<open>None\<close> is an event that does not fit.\<close>

definition send_sse_event :: "string option \<Rightarrow> string option \<Rightarrow> string option \<Rightarrow> string option" where
  "send_sse_event event_id event_type data =
     (case print_field ''data'' data (print_field ''event'' event_type (print_field ''id'' event_id (Some []))) of
        None \<Rightarrow> None
      | Some s \<Rightarrow> if length s < 4096 - 1 then Some (s @ [CHR 0x0A]) else None)"

section \<open>The parser\<close>

datatype sse_parse_state =
    SSE_PARSE_STATE_FIELD_NAME
  | SSE_PARSE_STATE_FIELD_VALUE
  | SSE_PARSE_STATE_EVENT_COMPLETE
  | SSE_PARSE_STATE_ERROR

record cbuf =
  cb_bytes :: "char list"
  cb_length :: nat

record sse_event =
  ev_id :: "string option"
  ev_event :: "string option"
  ev_data :: "string option"

record sse_parser =
  sp_state :: sse_parse_state
  sp_event :: sse_event            \<comment> \<open>\<open>event_id\<close>, \<open>event_type\<close>, \<open>event_data\<close>\<close>
  sp_name :: cbuf
  sp_value :: cbuf
  sp_line :: cbuf
  sp_data :: cbuf
  sp_in_value :: bool
  sp_value_started :: bool

definition no_event :: sse_event where
  "no_event = \<lparr>ev_id = None, ev_event = None, ev_data = None\<rparr>"

definition fresh_cbuf :: "nat \<Rightarrow> cbuf" where
  "fresh_cbuf n = \<lparr>cb_bytes = replicate n NUL, cb_length = 0\<rparr>"

definition sse_parser_create :: "mem \<Rightarrow> sse_parser option \<times> mem" where
  "sse_parser_create m =
     (let (ok, m1) = mem_alloc m
      in if \<not> ok then (None, m1)
         else let (ok1, m2) = mem_alloc m1
              in if \<not> ok1 then (None, m2)
                 else let (ok2, m3) = mem_alloc m2
                      in if \<not> ok2 then (None, m3)
                         else let (ok3, m4) = mem_alloc m3
                              in if \<not> ok3 then (None, m4)
                                 else let (ok4, m5) = mem_alloc m4
                                      in if \<not> ok4 then (None, m5)
                                         else (Some \<lparr>sp_state = SSE_PARSE_STATE_FIELD_NAME, sp_event = no_event,
                                                     sp_name = fresh_cbuf 64, sp_value = fresh_cbuf 256, sp_line = fresh_cbuf 512,
                                                     sp_data = fresh_cbuf 1024, sp_in_value = False, sp_value_started = False\<rparr>, m5))"

definition sse_parser_reset :: "sse_parser \<Rightarrow> sse_parser" where
  "sse_parser_reset p = p\<lparr>sp_state := SSE_PARSE_STATE_FIELD_NAME, sp_line := (sp_line p)\<lparr>cb_length := 0\<rparr>,
     sp_name := (sp_name p)\<lparr>cb_length := 0\<rparr>, sp_value := (sp_value p)\<lparr>cb_length := 0\<rparr>, sp_data := (sp_data p)\<lparr>cb_length := 0\<rparr>,
     sp_in_value := False, sp_value_started := False, sp_event := no_event\<rparr>"

definition expand_buffer :: "mem \<Rightarrow> cbuf \<Rightarrow> nat \<Rightarrow> (bool \<times> cbuf \<times> mem) checked" where
  "expand_buffer m b needed_size =
     (if needed_size \<le> length (cb_bytes b) then Done (True, b, m)
      else case double_until needed_size (length (cb_bytes b)) of
             None \<Rightarrow> Undefined
           | Some new_capacity \<Rightarrow>
               (let (ok, m1) = realloc_bytes m new_capacity
                in if ok then Done (True, b\<lparr>cb_bytes := resize_bytes (cb_bytes b) new_capacity\<rparr>, m1) else Done (False, b, m1)))"

text \<open>Bytes appended at the end of the part in use.\<close>

definition put_bytes :: "string \<Rightarrow> cbuf \<Rightarrow> cbuf checked" where
  "put_bytes bs b =
     (if cb_length b + length bs \<le> length (cb_bytes b)
      then Done \<lparr>cb_bytes = memcpy_at (cb_bytes b) (cb_length b) bs, cb_length = cb_length b + length bs\<rparr>
      else Undefined)"

definition terminate_cbuf :: "cbuf \<Rightarrow> cbuf checked" where
  "terminate_cbuf b = (if cb_length b < length (cb_bytes b) then Done (b\<lparr>cb_bytes := (cb_bytes b)[cb_length b := NUL]\<rparr>) else Undefined)"

definition push_byte :: "mem \<Rightarrow> cbuf \<Rightarrow> char \<Rightarrow> (bool \<times> cbuf \<times> mem) checked" where
  "push_byte m b c =
     (case expand_buffer m b (cb_length b + 2) of
        Undefined \<Rightarrow> Undefined
      | Done (ok, b1, m1) \<Rightarrow>
          if \<not> ok then Done (False, b1, m1)
          else case put_bytes [c] b1 of Undefined \<Rightarrow> Undefined | Done b2 \<Rightarrow> Done (True, b2, m1))"

text \<open>A field of name \<open>data\<close> is added to the accumulator, with a newline in front unless it is empty.\<close>

definition accumulate :: "mem \<Rightarrow> cbuf \<Rightarrow> string \<Rightarrow> (bool \<times> cbuf \<times> mem) checked" where
  "accumulate m b value =
     (case expand_buffer m b (cb_length b + length value + 2) of
        Undefined \<Rightarrow> Undefined
      | Done (ok, b1, m1) \<Rightarrow>
          if \<not> ok then Done (False, b1, m1)
          else case put_bytes ((if cb_length b1 > 0 then [CHR 0x0A] else []) @ value) b1 of
                 Undefined \<Rightarrow> Undefined
               | Done b2 \<Rightarrow> (case terminate_cbuf b2 of Undefined \<Rightarrow> Undefined | Done b3 \<Rightarrow> Done (True, b3, m1)))"

text \<open>The first component says whether the function returned 0.\<close>

definition process_field :: "mem \<Rightarrow> sse_parser \<Rightarrow> (bool \<times> sse_parser \<times> mem) checked" where
  "process_field m p =
     (case (terminate_cbuf (sp_name p), terminate_cbuf (sp_value p)) of
        (Done n, Done v) \<Rightarrow>
          (let key = c_string (cb_bytes n); val = c_string (cb_bytes v);
               done = (\<lambda>q. q\<lparr>sp_name := n\<lparr>cb_length := 0\<rparr>, sp_value := v\<lparr>cb_length := 0\<rparr>, sp_in_value := False, sp_value_started := False\<rparr>)
           in if key = ''id''
              then (case mcp_strdup m (Some val) of (s, m1) \<Rightarrow> Done (True, done (p\<lparr>sp_event := (sp_event p)\<lparr>ev_id := s\<rparr>\<rparr>), m1))
              else if key = ''event''
              then (case mcp_strdup m (Some val) of (s, m1) \<Rightarrow> Done (True, done (p\<lparr>sp_event := (sp_event p)\<lparr>ev_event := s\<rparr>\<rparr>), m1))
              else if key = ''data''
              then (case accumulate m (sp_data p) (take (cb_length v) (cb_bytes v)) of
                      Undefined \<Rightarrow> Undefined
                    | Done (ok, d, m1) \<Rightarrow>
                        if ok then Done (True, done (p\<lparr>sp_data := d\<rparr>), m1) else Done (False, p\<lparr>sp_name := n, sp_value := v, sp_data := d\<rparr>, m1))
              else Done (True, done p, m))
      | _ \<Rightarrow> Undefined)"

text \<open>The loop over the bytes of a line.\<close>

fun line_loop :: "mem \<Rightarrow> sse_parser \<Rightarrow> string \<Rightarrow> (bool \<times> sse_parser \<times> mem) checked" where
  "line_loop m p [] = Done (True, p, m)"
| "line_loop m p (c # cs) =
     (if \<not> sp_in_value p \<and> c = CHR '':'' then line_loop m (p\<lparr>sp_in_value := True, sp_value_started := False\<rparr>) cs
      else if \<not> sp_in_value p
      then (case push_byte m (sp_name p) c of
              Undefined \<Rightarrow> Undefined
            | Done (ok, b, m1) \<Rightarrow> if ok then line_loop m1 (p\<lparr>sp_name := b\<rparr>) cs else Done (False, p\<lparr>sp_name := b\<rparr>, m1))
      else if \<not> sp_value_started p \<and> c = CHR '' '' then line_loop m p cs
      else (case push_byte m (sp_value p) c of
              Undefined \<Rightarrow> Undefined
            | Done (ok, b, m1) \<Rightarrow>
                if ok then line_loop m1 (p\<lparr>sp_value_started := True, sp_value := b\<rparr>) cs
                else Done (False, p\<lparr>sp_value_started := True, sp_value := b\<rparr>, m1)))"

definition process_line :: "mem \<Rightarrow> sse_parser \<Rightarrow> (bool \<times> sse_parser \<times> mem) checked" where
  "process_line m p =
     (if cb_length (sp_line p) = 0
      then (if cb_length (sp_data p) > 0
            then (case mcp_strdup m (Some (c_string (cb_bytes (sp_data p)))) of
                    (s, m1) \<Rightarrow> Done (True, p\<lparr>sp_event := (sp_event p)\<lparr>ev_data := s\<rparr>, sp_data := (sp_data p)\<lparr>cb_length := 0\<rparr>,
                                              sp_state := SSE_PARSE_STATE_EVENT_COMPLETE\<rparr>, m1))
            else Done (True, p\<lparr>sp_state := SSE_PARSE_STATE_EVENT_COMPLETE\<rparr>, m))
      else case line_loop m (p\<lparr>sp_state := SSE_PARSE_STATE_FIELD_NAME, sp_in_value := False, sp_value_started := False,
                               sp_name := (sp_name p)\<lparr>cb_length := 0\<rparr>, sp_value := (sp_value p)\<lparr>cb_length := 0\<rparr>\<rparr>)
                  (take (cb_length (sp_line p)) (cb_bytes (sp_line p))) of
             Undefined \<Rightarrow> Undefined
           | Done (ok, p1, m1) \<Rightarrow> if ok then process_field m1 p1 else Done (False, p1, m1))"

text \<open>The loop over the bytes of a chunk.  On an error the state is set and the function returns.\<close>

fun process_bytes :: "mem \<Rightarrow> sse_parser \<Rightarrow> string \<Rightarrow> (sse_parser \<times> mem) checked" where
  "process_bytes m p [] = Done (p, m)"
| "process_bytes m p (c # cs) =
     (if sp_state p = SSE_PARSE_STATE_EVENT_COMPLETE \<or> sp_state p = SSE_PARSE_STATE_ERROR then Done (p, m)
      else if c = CHR 0x0A
      then (case process_line m p of
              Undefined \<Rightarrow> Undefined
            | Done (ok, p1, m1) \<Rightarrow>
                if ok then process_bytes m1 (p1\<lparr>sp_line := (sp_line p1)\<lparr>cb_length := 0\<rparr>\<rparr>) cs
                else Done (p1\<lparr>sp_state := SSE_PARSE_STATE_ERROR\<rparr>, m1))
      else if c = CHR 0x0D then process_bytes m p cs
      else (case push_byte m (sp_line p) c of
              Undefined \<Rightarrow> Undefined
            | Done (ok, b, m1) \<Rightarrow>
                if ok then process_bytes m1 (p\<lparr>sp_line := b\<rparr>) cs
                else Done (p\<lparr>sp_line := b, sp_state := SSE_PARSE_STATE_ERROR\<rparr>, m1)))"

text \<open>With an \<open>event_out\<close>: the return code, the event if the code is 1, and the parser.\<close>

definition dup_event :: "mem \<Rightarrow> sse_event \<Rightarrow> sse_event \<times> mem" where
  "dup_event m e =
     (let (i, m1) = mcp_strdup m (ev_id e); (t, m2) = mcp_strdup m1 (ev_event e); (d, m3) = mcp_strdup m2 (ev_data e)
      in (\<lparr>ev_id = i, ev_event = t, ev_data = d\<rparr>, m3))"

definition sse_parser_process :: "mem \<Rightarrow> sse_parser \<Rightarrow> string \<Rightarrow> (int \<times> sse_event option \<times> sse_parser \<times> mem) checked" where
  "sse_parser_process m p data =
     (case process_bytes m p data of
        Undefined \<Rightarrow> Undefined
      | Done (p1, m1) \<Rightarrow>
          if sp_state p1 = SSE_PARSE_STATE_EVENT_COMPLETE
          then (case dup_event m1 (sp_event p1) of (e, m2) \<Rightarrow> Done (1, Some e, sse_parser_reset p1, m2))
          else if sp_state p1 = SSE_PARSE_STATE_ERROR then Done (-1, None, p1, m1)
          else Done (0, None, p1, m1))"

section \<open>The receiving thread\<close>

record sse_connection =
  sc_buffer :: cbuf
  sc_parser :: sse_parser
  sc_last_id :: "string option"
  sc_events :: "sse_event list"     \<comment> \<open>the events the callback has seen, in order\<close>

text \<open>The identifier of the last event that has one.\<close>

definition note_id :: "mem \<Rightarrow> sse_event \<Rightarrow> string option \<Rightarrow> string option \<times> mem" where
  "note_id m e last_id = (case ev_id e of None \<Rightarrow> (last_id, m) | Some i \<Rightarrow> mcp_strdup m (Some i))"

text \<open>One round with the bytes \<open>recv\<close> returned: they are added to the buffer, the whole buffer goes to the parser, and the buffer is
  emptied if an event is complete.  The first component says whether the loop goes on.\<close>

definition sse_receive :: "mem \<Rightarrow> sse_connection \<Rightarrow> string \<Rightarrow> (bool \<times> sse_connection \<times> mem) checked" where
  "sse_receive m s received =
     (let b = sc_buffer s; full = cb_length b + length received \<ge> length (cb_bytes b);
          (ok, m1) = (if full then realloc_bytes m (2 * length (cb_bytes b)) else (True, m));
          b1 = (if full then b\<lparr>cb_bytes := resize_bytes (cb_bytes b) (2 * length (cb_bytes b))\<rparr> else b)
      in if \<not> ok then Done (False, s, m1)
         else case put_bytes received b1 of
                Undefined \<Rightarrow> Undefined
              | Done b2 \<Rightarrow>
                  (case terminate_cbuf b2 of
                     Undefined \<Rightarrow> Undefined
                   | Done b3 \<Rightarrow>
                       (case sse_parser_process m1 (sc_parser s) (take (cb_length b3) (cb_bytes b3)) of
                          Undefined \<Rightarrow> Undefined
                        | Done (rc, ev, p, m2) \<Rightarrow>
                            (case ev of
                               Some e \<Rightarrow>
                                 (case note_id m2 e (sc_last_id s) of
                                    (l, m3) \<Rightarrow> Done (True, \<lparr>sc_buffer = b3\<lparr>cb_length := 0\<rparr>, sc_parser = p, sc_last_id = l,
                                                            sc_events = sc_events s @ [e]\<rparr>, m3))
                             | None \<Rightarrow> Done (rc = 0, s\<lparr>sc_buffer := b3, sc_parser := p\<rparr>, m2)))))"

section \<open>Buffers\<close>

definition cbuf_ok :: "cbuf \<Rightarrow> bool" where
  "cbuf_ok b \<longleftrightarrow> cb_length b < length (cb_bytes b)"

definition cb_text :: "cbuf \<Rightarrow> string" where
  "cb_text b = take (cb_length b) (cb_bytes b)"

lemma cb_text_empty [simp]: "cb_text (b\<lparr>cb_length := 0\<rparr>) = []"
  by (simp add: cb_text_def)

lemma cbuf_ok_empty: "cbuf_ok b \<Longrightarrow> cbuf_ok (b\<lparr>cb_length := 0\<rparr>)"
  by (auto simp: cbuf_ok_def)

lemma length_cb_text: "cbuf_ok b \<Longrightarrow> length (cb_text b) = cb_length b"
  by (simp add: cbuf_ok_def cb_text_def)

lemma expand_cases:
  assumes "cbuf_ok b" "cb_length b < needed"
  obtains (grown) b' m' where "expand_buffer m b needed = Done (True, b', m')" "needed \<le> length (cb_bytes b')" "cb_length b' = cb_length b"
      "cb_text b' = cb_text b" "m = [] \<Longrightarrow> m' = []"
  | (failed) m' where "expand_buffer m b needed = Done (False, b, m')" "\<not> (m = [] \<and> needed < 2 ^ 62)"
proof (cases "needed \<le> length (cb_bytes b)")
  case True
  then show ?thesis by (intro grown [of b m]) (simp_all add: expand_buffer_def)
next
  case False
  have "0 < length (cb_bytes b)" using assms(1) by (auto simp: cbuf_ok_def)
  from double_until_Some [OF this, of needed] obtain d where
    d: "double_until needed (length (cb_bytes b)) = Some d" "needed \<le> d" "d \<le> max (length (cb_bytes b)) (2 * needed)" by blast
  obtain ok m' where r: "realloc_bytes m d = (ok, m')" by fastforce
  have m': "m = [] \<Longrightarrow> m' = [] \<and> (ok \<or> 2 ^ 63 \<le> d)" using r by (auto simp: realloc_bytes_def split: if_splits)
  show ?thesis
  proof (cases ok)
    case True
    have "cb_text (b\<lparr>cb_bytes := resize_bytes (cb_bytes b) d\<rparr>) = cb_text b"
      using assms(1) False d(2) by (simp add: cb_text_def cbuf_ok_def resize_bytes_def)
    then show ?thesis using True r d(1,2) False m'
      by (intro grown [of "b\<lparr>cb_bytes := resize_bytes (cb_bytes b) d\<rparr>" m']) (simp_all add: expand_buffer_def resize_bytes_def)
  next
    case f: False
    then show ?thesis using r d False m' by (intro failed [of m']) (auto simp: expand_buffer_def)
  qed
qed

lemma put_bytes_ok:
  assumes "cb_length b + length bs < length (cb_bytes b)"
  obtains b' where "put_bytes bs b = Done b'" "cbuf_ok b'" "cb_text b' = cb_text b @ bs" "cb_length b' = cb_length b + length bs"
    "length (cb_bytes b') = length (cb_bytes b)"
  using that [of "\<lparr>cb_bytes = memcpy_at (cb_bytes b) (cb_length b) bs, cb_length = cb_length b + length bs\<rparr>"] assms
  by (simp add: put_bytes_def cbuf_ok_def cb_text_def memcpy_at_def)

lemma push_cases:
  assumes "cbuf_ok b"
  obtains (pushed) b' m' where "push_byte m b c = Done (True, b', m')" "cbuf_ok b'" "cb_text b' = cb_text b @ [c]" "m = [] \<Longrightarrow> m' = []"
  | (failed) m' where "push_byte m b c = Done (False, b, m')" "\<not> (m = [] \<and> length (cb_text b) < 2 ^ 60)"
proof -
  have "cb_length b < cb_length b + 2" by simp
  from assms this show ?thesis
  proof (cases rule: expand_cases [where m = m])
    case (grown b' m')
    then have "cb_length b' + length [c] < length (cb_bytes b')" by simp
    then obtain b2 where "put_bytes [c] b' = Done b2" "cbuf_ok b2" "cb_text b2 = cb_text b' @ [c]" by (rule put_bytes_ok)
    then show ?thesis using grown by (intro pushed [of b2 m']) (simp_all add: push_byte_def)
  next
    case (failed m')
    then show ?thesis using assms that(2) [of m'] by (auto simp: push_byte_def length_cb_text)
  qed
qed

lemma c_string_cut: "c_string (s @ NUL # rest) = c_string s"
  by (induction s) (simp_all add: c_string_def)

lemma terminate_ok:
  assumes "cbuf_ok b"
  shows "\<exists>b'. terminate_cbuf b = Done b' \<and> cbuf_ok b' \<and> cb_text b' = cb_text b \<and> cb_length b' = cb_length b \<and>
    c_string (cb_bytes b') = c_string (cb_text b) \<and> cb_bytes b' ! cb_length b' = NUL"
proof -
  let ?bs = "(cb_bytes b)[cb_length b := NUL]"
  have l: "cb_length b < length (cb_bytes b)" using assms by (simp add: cbuf_ok_def)
  then have "?bs = cb_text b @ NUL # drop (Suc (cb_length b)) (cb_bytes b)" by (simp add: cb_text_def upd_conv_take_nth_drop)
  then have "c_string ?bs = c_string (cb_text b)" by (simp add: c_string_cut)
  then show ?thesis using l by (simp add: terminate_cbuf_def cbuf_ok_def cb_text_def)
qed

text \<open>The accumulator is terminated whenever it is not empty.\<close>

definition terminated :: "cbuf \<Rightarrow> bool" where
  "terminated b \<longleftrightarrow> cbuf_ok b \<and> (cb_length b > 0 \<longrightarrow> cb_bytes b ! cb_length b = NUL)"

lemma terminated_string:
  assumes "terminated b" "cb_length b > 0"
  shows "c_string (cb_bytes b) = c_string (cb_text b)"
proof -
  have "cb_length b < length (cb_bytes b)" "cb_bytes b ! cb_length b = NUL" using assms by (simp_all add: terminated_def cbuf_ok_def)
  then have "cb_bytes b = cb_text b @ NUL # drop (Suc (cb_length b)) (cb_bytes b)" unfolding cb_text_def by (metis id_take_nth_drop)
  then have "c_string (cb_bytes b) = c_string (cb_text b @ NUL # drop (Suc (cb_length b)) (cb_bytes b))" by (rule arg_cong)
  then show ?thesis by (simp add: c_string_cut)
qed

definition joined :: "string \<Rightarrow> string \<Rightarrow> string" where
  "joined acc value = acc @ (if acc = [] then [] else [CHR 0x0A]) @ value"

lemma accumulate_cases:
  assumes "terminated b"
  obtains (added) b' m' where "accumulate m b x = Done (True, b', m')" "terminated b'" "cb_text b' = joined (cb_text b) x" "m = [] \<Longrightarrow> m' = []"
  | (failed) m' where "accumulate m b x = Done (False, b, m')" "\<not> (m = [] \<and> length (cb_text b) + length x < 2 ^ 60)"
proof -
  have ok: "cbuf_ok b" and n: "cb_length b < cb_length b + length x + 2" using assms by (simp_all add: terminated_def)
  from ok n show ?thesis
  proof (cases rule: expand_cases [where m = m])
    case (grown b' m')
    let ?new = "(if cb_length b' > 0 then [CHR 0x0A] else []) @ x"
    have "cb_length b' + length ?new < length (cb_bytes b')" using grown(2,3) by (auto split: if_splits)
    then obtain b2 where b2: "put_bytes ?new b' = Done b2" "cbuf_ok b2" "cb_text b2 = cb_text b' @ ?new" "cb_length b2 = cb_length b' + length ?new"
      by (rule put_bytes_ok)
    obtain b3 where b3: "terminate_cbuf b2 = Done b3" "cbuf_ok b3" "cb_text b3 = cb_text b2" "cb_bytes b3 ! cb_length b3 = NUL"
      using terminate_ok [OF b2(2)] by blast
    have "cb_text b3 = joined (cb_text b) x" using b3(3) b2(3) grown(3,4) length_cb_text [OF ok] by (auto simp: joined_def)
    then show ?thesis using grown b2 b3 by (intro added [of b3 m']) (simp_all add: accumulate_def terminated_def)
  next
    case (failed m')
    then show ?thesis using that(2) [of m'] length_cb_text [OF ok] by (auto simp: accumulate_def)
  qed
qed

section \<open>What a line means\<close>

definition parser_ok :: "sse_parser \<Rightarrow> bool" where
  "parser_ok p \<longleftrightarrow> cbuf_ok (sp_name p) \<and> cbuf_ok (sp_value p) \<and> cbuf_ok (sp_line p) \<and> terminated (sp_data p)"

definition same_event :: "sse_parser \<Rightarrow> sse_parser \<Rightarrow> bool" where
  "same_event p q \<longleftrightarrow> sp_event q = sp_event p \<and> sp_line q = sp_line p \<and> sp_data q = sp_data p \<and> sp_state q = sp_state p"

definition after_colon :: "string \<Rightarrow> string" where
  "after_colon line = dropWhile (\<lambda>c. c = CHR '' '') (tl (dropWhile (\<lambda>c. c \<noteq> CHR '':'') line))"

text \<open>Every run of the loop, with any answers of the allocator, stays in the buffers; if memory does not run out the name and the value of the
  field are the parts of the line before and behind the first colon.\<close>

definition loop_post :: "mem \<Rightarrow> sse_parser \<Rightarrow> string \<Rightarrow> string \<Rightarrow> nat \<Rightarrow> (bool \<times> sse_parser \<times> mem) checked \<Rightarrow> bool" where
  "loop_post m p name value n r \<longleftrightarrow> (\<exists>ok q m'. r = Done (ok, q, m') \<and> parser_ok q \<and> same_event p q \<and>
     (ok \<longrightarrow> cb_text (sp_name q) = name \<and> cb_text (sp_value q) = value) \<and> (m = [] \<and> n < 2 ^ 60 \<longrightarrow> ok \<and> m' = []))"

lemma loop_postI:
  "r = Done (ok, q, m') \<Longrightarrow> parser_ok q \<Longrightarrow> same_event p q \<Longrightarrow> (ok \<Longrightarrow> cb_text (sp_name q) = name \<and> cb_text (sp_value q) = value) \<Longrightarrow>
     (m = [] \<Longrightarrow> n < 2 ^ 60 \<Longrightarrow> ok \<and> m' = []) \<Longrightarrow> loop_post m p name value n r"
  unfolding loop_post_def by blast

lemma loop_postE:
  assumes "loop_post m p name value n r"
  obtains ok q m' where "r = Done (ok, q, m')" "parser_ok q" "same_event p q" "ok \<Longrightarrow> cb_text (sp_name q) = name"
    "ok \<Longrightarrow> cb_text (sp_value q) = value" "m = [] \<Longrightarrow> n < 2 ^ 60 \<Longrightarrow> ok \<and> m' = []"
  using assms unfolding loop_post_def by blast

lemma loop_post_trans:
  assumes "loop_post m1 q name value n r" "same_event p q" "m = [] \<Longrightarrow> m1 = []"
  shows "loop_post m p name value n r"
  using assms(1)
proof (rule loop_postE)
  fix ok q' m'
  assume "r = Done (ok, q', m')" "parser_ok q'" "same_event q q'" "ok \<Longrightarrow> cb_text (sp_name q') = name"
    "ok \<Longrightarrow> cb_text (sp_value q') = value" "m1 = [] \<Longrightarrow> n < 2 ^ 60 \<Longrightarrow> ok \<and> m' = []"
  then show ?thesis using assms(2,3) by (intro loop_postI [of r ok q' m']) (simp_all add: same_event_def)
qed

lemma loop_post_less: "loop_post m p name value n r \<Longrightarrow> n \<le> n' \<Longrightarrow> loop_post m p name value n' r"
  by (elim loop_postE) (rule loop_postI, assumption+, auto)

lemma line_loop_value:
  assumes "parser_ok p" "sp_in_value p" "sp_value_started p"
  shows "loop_post m p (cb_text (sp_name p)) (cb_text (sp_value p) @ cs) (length (cb_text (sp_value p)) + length cs) (line_loop m p cs)"
  using assms
proof (induction cs arbitrary: m p)
  case (Cons c cs)
  have "cbuf_ok (sp_value p)" using Cons.prems by (simp add: parser_ok_def)
  then show ?case
  proof (cases rule: push_cases [where m = m and c = c])
    case (pushed b m')
    let ?p = "p\<lparr>sp_value_started := True, sp_value := b\<rparr>"
    have "loop_post m' ?p (cb_text (sp_name ?p)) (cb_text (sp_value ?p) @ cs) (length (cb_text (sp_value ?p)) + length cs) (line_loop m' ?p cs)"
      using Cons.prems pushed(2) by (intro Cons.IH) (simp_all add: parser_ok_def)
    then have "loop_post m p (cb_text (sp_name ?p)) (cb_text (sp_value ?p) @ cs) (length (cb_text (sp_value ?p)) + length cs) (line_loop m' ?p cs)"
      by (rule loop_post_trans) (simp_all add: same_event_def pushed(4))
    moreover have "line_loop m p (c # cs) = line_loop m' ?p cs" using Cons.prems(2,3) pushed(1) by simp
    ultimately show ?thesis using pushed(3) by simp
  next
    case (failed m')
    let ?q = "p\<lparr>sp_value_started := True, sp_value := sp_value p\<rparr>"
    show ?thesis
    proof (rule loop_postI [of _ False ?q m'])
      show "line_loop m p (c # cs) = Done (False, ?q, m')" using Cons.prems(2,3) failed(1) by simp
      show "False \<and> m' = []" if "m = []" "length (cb_text (sp_value p)) + length (c # cs) < 2 ^ 60" using failed(2) that by simp
    qed (use Cons.prems(1) in \<open>simp_all add: parser_ok_def same_event_def\<close>)
  qed
qed (rule loop_postI, auto simp: same_event_def)

lemma line_loop_spaces:
  assumes "parser_ok p" "sp_in_value p" "\<not> sp_value_started p"
  shows "loop_post m p (cb_text (sp_name p)) (cb_text (sp_value p) @ dropWhile (\<lambda>c. c = CHR '' '') cs) (length (cb_text (sp_value p)) + length cs)
    (line_loop m p cs)"
proof (induction cs)
  case (Cons c cs)
  show ?case
  proof (cases "c = CHR '' ''")
    case True
    then have "line_loop m p (c # cs) = line_loop m p cs" using assms(2,3) by simp
    with loop_post_less [OF Cons.IH, of "length (cb_text (sp_value p)) + length (c # cs)"] show ?thesis using True by simp
  next
    case False
    have "parser_ok (p\<lparr>sp_value_started := True\<rparr>)" using assms(1) by (simp add: parser_ok_def)
    from line_loop_value [OF this, of m "c # cs"] have "loop_post m (p\<lparr>sp_value_started := True\<rparr>) (cb_text (sp_name p)) (cb_text (sp_value p) @ c # cs)
        (length (cb_text (sp_value p)) + length (c # cs)) (line_loop m (p\<lparr>sp_value_started := True\<rparr>) (c # cs))" using assms(2) by simp
    then have "loop_post m p (cb_text (sp_name p)) (cb_text (sp_value p) @ c # cs) (length (cb_text (sp_value p)) + length (c # cs))
        (line_loop m (p\<lparr>sp_value_started := True\<rparr>) (c # cs))" by (rule loop_post_trans) (simp_all add: same_event_def)
    moreover have "line_loop m (p\<lparr>sp_value_started := True\<rparr>) (c # cs) = line_loop m p (c # cs)"
      using assms(2,3) False by (simp split: checked.split prod.split)
    ultimately show ?thesis using False by simp
  qed
qed (rule loop_postI [of _ True p m], use assms(1) in \<open>simp_all add: same_event_def\<close>)

lemma line_loop_name:
  assumes "parser_ok p" "\<not> sp_in_value p" "cb_text (sp_value p) = []"
  shows "loop_post m p (cb_text (sp_name p) @ takeWhile (\<lambda>c. c \<noteq> CHR '':'') cs) (after_colon cs) (length (cb_text (sp_name p)) + length cs)
    (line_loop m p cs)"
  using assms
proof (induction cs arbitrary: m p)
  case (Cons c cs)
  show ?case
  proof (cases "c = CHR '':''")
    case True
    let ?p = "p\<lparr>sp_in_value := True, sp_value_started := False\<rparr>"
    have "parser_ok ?p" using Cons.prems(1) by (simp add: parser_ok_def)
    from line_loop_spaces [OF this, of m cs] have "loop_post m ?p (cb_text (sp_name p)) (after_colon (c # cs)) (length cs) (line_loop m ?p cs)"
      using Cons.prems(3) True by (simp add: after_colon_def)
    then have "loop_post m p (cb_text (sp_name p)) (after_colon (c # cs)) (length cs) (line_loop m ?p cs)"
      by (rule loop_post_trans) (simp_all add: same_event_def)
    then have "loop_post m p (cb_text (sp_name p)) (after_colon (c # cs)) (length (cb_text (sp_name p)) + length (c # cs)) (line_loop m ?p cs)"
      by (rule loop_post_less) simp
    then show ?thesis using Cons.prems(2) True by simp
  next
    case False
    have "cbuf_ok (sp_name p)" using Cons.prems by (simp add: parser_ok_def)
    then show ?thesis
    proof (cases rule: push_cases [where m = m and c = c])
      case (pushed b m')
      let ?p = "p\<lparr>sp_name := b\<rparr>"
      have "loop_post m' ?p (cb_text (sp_name ?p) @ takeWhile (\<lambda>c. c \<noteq> CHR '':'') cs) (after_colon cs) (length (cb_text (sp_name ?p)) + length cs) (line_loop m' ?p cs)"
        using Cons.prems pushed(2) by (intro Cons.IH) (simp_all add: parser_ok_def)
      then have "loop_post m p (cb_text (sp_name ?p) @ takeWhile (\<lambda>c. c \<noteq> CHR '':'') cs) (after_colon cs) (length (cb_text (sp_name ?p)) + length cs) (line_loop m' ?p cs)"
        by (rule loop_post_trans) (simp_all add: same_event_def pushed(4))
      moreover have "line_loop m p (c # cs) = line_loop m' ?p cs" using Cons.prems(2) pushed(1) False by simp
      ultimately show ?thesis using pushed(3) False by (simp add: after_colon_def)
    next
      case (failed m')
      let ?q = "p\<lparr>sp_name := sp_name p\<rparr>"
      show ?thesis
      proof (rule loop_postI [of _ False ?q m'])
        show "line_loop m p (c # cs) = Done (False, ?q, m')" using Cons.prems(2) False failed(1) by simp
        show "False \<and> m' = []" if "m = []" "length (cb_text (sp_name p)) + length (c # cs) < 2 ^ 60" using failed(2) that by simp
      qed (use Cons.prems(1) in \<open>simp_all add: parser_ok_def same_event_def\<close>)
    qed
  qed
qed (rule loop_postI, auto simp: same_event_def after_colon_def)

text \<open>The effect of a line on the accumulated data and the event.\<close>

definition sse_field :: "string \<Rightarrow> string \<times> sse_event \<Rightarrow> string \<times> sse_event" where
  "sse_field line s =
     (case s of (acc, e) \<Rightarrow>
        (let key = c_string (takeWhile (\<lambda>c. c \<noteq> CHR '':'') line); value = after_colon line
         in if key = ''id'' then (acc, e\<lparr>ev_id := Some (c_string value)\<rparr>)
            else if key = ''event'' then (acc, e\<lparr>ev_event := Some (c_string value)\<rparr>)
            else if key = ''data'' then (joined acc value, e)
            else (acc, e)))"

definition field_post :: "mem \<Rightarrow> nat \<Rightarrow> string \<times> sse_event \<Rightarrow> sse_parser \<Rightarrow> (bool \<times> sse_parser \<times> mem) checked \<Rightarrow> bool" where
  "field_post m n s p r \<longleftrightarrow> (\<exists>ok q m'. r = Done (ok, q, m') \<and> parser_ok q \<and> sp_line q = sp_line p \<and>
     (m = [] \<and> n < 2 ^ 59 \<longrightarrow> ok \<and> m' = [] \<and> sp_state q = sp_state p \<and> (cb_text (sp_data q), sp_event q) = s))"

lemma field_postI:
  "r = Done (ok, q, m') \<Longrightarrow> parser_ok q \<Longrightarrow> sp_line q = sp_line p \<Longrightarrow>
     (m = [] \<Longrightarrow> n < 2 ^ 59 \<Longrightarrow> ok \<and> m' = [] \<and> sp_state q = sp_state p \<and> (cb_text (sp_data q), sp_event q) = s) \<Longrightarrow> field_post m n s p r"
  unfolding field_post_def by blast

lemma length_c_string: "length (c_string s) \<le> length s"
  by (simp add: c_string_def length_takeWhile_le)

lemma process_field_ok:
  assumes "parser_ok p" "cb_text (sp_name p) = takeWhile (\<lambda>c. c \<noteq> CHR '':'') line" "cb_text (sp_value p) = after_colon line"
  shows "field_post m (length (cb_text (sp_data p)) + length line) (sse_field line (cb_text (sp_data p), sp_event p)) p (process_field m p)"
proof -
  have ok: "cbuf_ok (sp_name p)" "cbuf_ok (sp_value p)" "terminated (sp_data p)" using assms(1) by (simp_all add: parser_ok_def)
  obtain n where n: "terminate_cbuf (sp_name p) = Done n" "cbuf_ok n" "c_string (cb_bytes n) = c_string (takeWhile (\<lambda>c. c \<noteq> CHR '':'') line)"
    using terminate_ok [OF ok(1)] assms(2) by auto
  obtain v where v: "terminate_cbuf (sp_value p) = Done v" "cbuf_ok v" "c_string (cb_bytes v) = c_string (after_colon line)" "cb_text v = after_colon line"
    using terminate_ok [OF ok(2)] assms(3) by auto
  have len: "length (after_colon line) \<le> length line"
    unfolding after_colon_def by (metis length_dropWhile_le length_tl le_trans diff_le_self)
  have dup: "mcp_strdup [] (Some (c_string (after_colon line))) = (Some (c_string (after_colon line)), [])" if "length line < 2 ^ 59"
    using that len length_c_string [of "after_colon line"] by (intro dup_no_failure) simp
  let ?key = "c_string (takeWhile (\<lambda>c. c \<noteq> CHR '':'') line)"
  note eqs = process_field_def Let_def n(1,3) v(1,3)
  obtain s m1 where sm: "mcp_strdup m (Some (c_string (after_colon line))) = (s, m1)" by fastforce
  let ?done = "\<lambda>q. q\<lparr>sp_name := n\<lparr>cb_length := 0\<rparr>, sp_value := v\<lparr>cb_length := 0\<rparr>, sp_in_value := False, sp_value_started := False\<rparr>"
  have pok: "parser_ok (?done q)" if "sp_line q = sp_line p" "terminated (sp_data q)" for q :: sse_parser
    using that assms(1) n(2) v(2) by (simp add: parser_ok_def cbuf_ok_empty)
  have t: "take (cb_length v) (cb_bytes v) = after_colon line" using v(4) by (simp add: cb_text_def)
  consider "?key = ''id''" | "?key = ''event''" | "?key = ''data''" | "?key \<noteq> ''id''" "?key \<noteq> ''event''" "?key \<noteq> ''data''" by blast
  then show ?thesis
  proof cases
    case 1
    show ?thesis
    proof (rule field_postI [of _ True "?done (p\<lparr>sp_event := (sp_event p)\<lparr>ev_id := s\<rparr>\<rparr>)" m1])
      show "process_field m p = Done (True, ?done (p\<lparr>sp_event := (sp_event p)\<lparr>ev_id := s\<rparr>\<rparr>), m1)" by (simp add: eqs 1 sm)
    qed (use pok ok(3) sm dup 1 in \<open>auto simp: sse_field_def\<close>)
  next
    case 2
    show ?thesis
    proof (rule field_postI [of _ True "?done (p\<lparr>sp_event := (sp_event p)\<lparr>ev_event := s\<rparr>\<rparr>)" m1])
      show "process_field m p = Done (True, ?done (p\<lparr>sp_event := (sp_event p)\<lparr>ev_event := s\<rparr>\<rparr>), m1)" by (simp add: eqs 2 sm)
    qed (use pok ok(3) sm dup 2 in \<open>auto simp: sse_field_def\<close>)
  next
    case 3
    from ok(3) show ?thesis
    proof (cases rule: accumulate_cases [where m = m and x = "after_colon line"])
      case (added d m')
      show ?thesis
      proof (rule field_postI [of _ True "?done (p\<lparr>sp_data := d\<rparr>)" m'])
        show "process_field m p = Done (True, ?done (p\<lparr>sp_data := d\<rparr>), m')" by (simp add: eqs 3 t added(1))
      qed (use pok added 3 in \<open>simp_all add: sse_field_def\<close>)
    next
      case (failed m')
      let ?q = "p\<lparr>sp_name := n, sp_value := v, sp_data := sp_data p\<rparr>"
      show ?thesis
      proof (rule field_postI [of _ False ?q m'])
        show "process_field m p = Done (False, ?q, m')" by (simp add: eqs 3 t failed(1))
        show "parser_ok ?q" using assms(1) n(2) v(2) by (simp add: parser_ok_def)
      qed (use failed(2) len in simp_all)
    qed
  next
    case 4
    show ?thesis
    proof (rule field_postI [of _ True "?done p" m])
      show "process_field m p = Done (True, ?done p, m)" by (simp add: eqs 4)
    qed (use pok ok(3) 4 in \<open>simp_all add: sse_field_def\<close>)
  qed
qed

lemma process_line_ok:
  assumes "parser_ok p" "cb_text (sp_line p) = line" "line \<noteq> []"
  shows "field_post m (length (cb_text (sp_data p)) + length line) (sse_field line (cb_text (sp_data p), sp_event p))
    (p\<lparr>sp_state := SSE_PARSE_STATE_FIELD_NAME\<rparr>) (process_line m p)"
proof -
  let ?p = "p\<lparr>sp_state := SSE_PARSE_STATE_FIELD_NAME, sp_in_value := False, sp_value_started := False,
      sp_name := (sp_name p)\<lparr>cb_length := 0\<rparr>, sp_value := (sp_value p)\<lparr>cb_length := 0\<rparr>\<rparr>"
  have "parser_ok ?p" using assms(1) by (simp add: parser_ok_def cbuf_ok_empty)
  from line_loop_name [OF this, of m line] obtain ok q m' where
    q: "line_loop m ?p line = Done (ok, q, m')" "parser_ok q" "same_event ?p q"
      "ok \<Longrightarrow> cb_text (sp_name q) = takeWhile (\<lambda>c. c \<noteq> CHR '':'') line" "ok \<Longrightarrow> cb_text (sp_value q) = after_colon line"
      "m = [] \<and> length line < 2 ^ 60 \<Longrightarrow> ok \<and> m' = []"
    by (auto simp: loop_post_def)
  have nz: "cb_length (sp_line p) \<noteq> 0" using assms(2,3) by (auto simp: cb_text_def)
  have pl: "process_line m p = (if ok then process_field m' q else Done (False, q, m'))"
    using nz q(1) assms(2) by (simp add: process_line_def cb_text_def)
  show ?thesis
  proof (cases ok)
    case True
    from process_field_ok [OF q(2) q(4) [OF True] q(5) [OF True], of m'] show ?thesis
      using q(3,6) True pl by (auto simp: field_post_def same_event_def)
  next
    case False
    then have "\<not> (m = [] \<and> length (cb_text (sp_data p)) + length line < 2 ^ 59)" using q(6) by auto
    then show ?thesis using False pl q(2,3) by (auto simp: field_post_def same_event_def)
  qed
qed

section \<open>What a stream means\<close>

abbreviation NL :: char where "NL \<equiv> CHR 0x0A"
abbreviation CR :: char where "CR \<equiv> CHR 0x0D"

lemma process_bytes_stopped:
  "sp_state p = SSE_PARSE_STATE_EVENT_COMPLETE \<or> sp_state p = SSE_PARSE_STATE_ERROR \<Longrightarrow> process_bytes m p s = Done (p, m)"
  by (cases s) auto

lemma process_bytes_append:
  "process_bytes m p (s @ t) = (case process_bytes m p s of Undefined \<Rightarrow> Undefined | Done (p1, m1) \<Rightarrow> process_bytes m1 p1 t)"
proof (induction m p s rule: process_bytes.induct)
  case (2 m p c cs)
  show ?case
  proof (cases "sp_state p = SSE_PARSE_STATE_EVENT_COMPLETE \<or> sp_state p = SSE_PARSE_STATE_ERROR")
    case True
    then show ?thesis using process_bytes_stopped [of p] by simp
  next
    case False
    then show ?thesis using 2 by (auto simp: process_bytes_stopped split: checked.split prod.split)
  qed
qed simp

text \<open>For every input and all answers of the allocator the parser stays in its buffers and its loops end.\<close>

lemma process_bytes_safe: "parser_ok p \<Longrightarrow> \<exists>q m'. process_bytes m p s = Done (q, m') \<and> parser_ok q"
proof (induction s arbitrary: m p)
  case (Cons c s)
  have ok: "cbuf_ok (sp_line p)" "cbuf_ok (sp_data p)" using Cons.prems by (simp_all add: parser_ok_def terminated_def)
  have "\<exists>ok q m'. process_line m p = Done (ok, q, m') \<and> parser_ok q"
  proof (cases "cb_text (sp_line p) = []")
    case True
    then have "cb_length (sp_line p) = 0" using length_cb_text [OF ok(1)] by simp
    then show ?thesis using Cons.prems by (auto simp: process_line_def parser_ok_def terminated_def cbuf_ok_empty split: prod.split)
  next
    case False
    from process_line_ok [OF Cons.prems refl this, of m] show ?thesis by (auto simp: field_post_def)
  qed
  then obtain ok1 q m1 where l: "process_line m p = Done (ok1, q, m1)" "parser_ok q" by blast
  have q: "parser_ok (q\<lparr>sp_line := (sp_line q)\<lparr>cb_length := 0\<rparr>\<rparr>)" using l(2) by (simp add: parser_ok_def cbuf_ok_empty)
  have q2: "parser_ok (q\<lparr>sp_state := SSE_PARSE_STATE_ERROR\<rparr>)" using l(2) by (simp add: parser_ok_def)
  from ok(1) show ?case
  proof (cases rule: push_cases [where m = m and c = c])
    case (pushed b m')
    have b: "parser_ok (p\<lparr>sp_line := b\<rparr>)" using Cons.prems pushed(2) by (simp add: parser_ok_def)
    show ?thesis using Cons.IH [OF q, of m1] Cons.IH [OF b, of m'] Cons.IH [OF Cons.prems, of m] Cons.prems l(1) q2 pushed(1) by auto
  next
    case (failed m')
    have "parser_ok (p\<lparr>sp_line := sp_line p, sp_state := SSE_PARSE_STATE_ERROR\<rparr>)" using Cons.prems by (simp add: parser_ok_def)
    then show ?thesis using Cons.IH [OF q, of m1] Cons.IH [OF Cons.prems, of m] Cons.prems l(1) q2 failed(1) by auto
  qed
qed simp

text \<open>A parser in the middle of a stream: the line read so far, the data and the event.\<close>

definition represents :: "sse_parser \<Rightarrow> string \<Rightarrow> string \<times> sse_event \<Rightarrow> bool" where
  "represents p line s \<longleftrightarrow> parser_ok p \<and> sp_state p = SSE_PARSE_STATE_FIELD_NAME \<and> cb_text (sp_line p) = line \<and>
     (cb_text (sp_data p), sp_event p) = s"

lemma read_text:
  assumes "represents p line s" "NL \<notin> set t" "CR \<notin> set t" "length line + length t < 2 ^ 59"
  shows "\<exists>p'. (\<forall>rest. process_bytes [] p (t @ rest) = process_bytes [] p' rest) \<and> represents p' (line @ t) s"
  using assms
proof (induction t arbitrary: p line)
  case (Cons c t)
  have "cbuf_ok (sp_line p)" using Cons.prems(1) by (simp add: represents_def parser_ok_def)
  then show ?case
  proof (cases rule: push_cases [where m = "[]" and c = c])
    case (pushed b m')
    have "represents (p\<lparr>sp_line := b\<rparr>) (line @ [c]) s" using Cons.prems(1) pushed by (auto simp: represents_def parser_ok_def)
    from Cons.IH [OF this] Cons.prems(2-4) obtain p' where
      "\<forall>rest. process_bytes [] (p\<lparr>sp_line := b\<rparr>) (t @ rest) = process_bytes [] p' rest" "represents p' (line @ c # t) s" by auto
    then show ?thesis using Cons.prems pushed by (intro exI [of _ p']) (auto simp: represents_def)
  next
    case (failed m')
    then show ?thesis using Cons.prems by (auto simp: represents_def)
  qed
qed auto

lemma read_newline:
  assumes "represents p line s" "line \<noteq> []" "length (fst s) + length line < 2 ^ 59"
  shows "\<exists>p'. (\<forall>rest. process_bytes [] p (NL # rest) = process_bytes [] p' rest) \<and> represents p' [] (sse_field line s)"
proof -
  have p: "parser_ok p" "cb_text (sp_line p) = line" "s = (cb_text (sp_data p), sp_event p)" "sp_state p = SSE_PARSE_STATE_FIELD_NAME"
    using assms(1) by (auto simp: represents_def)
  from process_line_ok [OF p(1,2) assms(2), of "[]"] assms(3) p(3) obtain q where
    q: "process_line [] p = Done (True, q, [])" "parser_ok q" "sp_state q = SSE_PARSE_STATE_FIELD_NAME" "(cb_text (sp_data q), sp_event q) = sse_field line s"
    by (auto simp: field_post_def)
  let ?q = "q\<lparr>sp_line := (sp_line q)\<lparr>cb_length := 0\<rparr>\<rparr>"
  have "represents ?q [] (sse_field line s)" using q by (simp add: represents_def parser_ok_def cbuf_ok_empty)
  then show ?thesis using q(1) p(4) by (intro exI [of _ ?q]) simp
qed

lemma read_end:
  assumes "represents p [] (acc, e)" "length acc < 2 ^ 59"
  shows "\<exists>p'. (\<forall>rest. process_bytes [] p (NL # rest) = Done (p', [])) \<and> sp_state p' = SSE_PARSE_STATE_EVENT_COMPLETE \<and> parser_ok p' \<and>
    sp_event p' = (if acc = [] then e else e\<lparr>ev_data := Some (c_string acc)\<rparr>)"
proof -
  have p: "parser_ok p" "cb_text (sp_line p) = []" "cb_text (sp_data p) = acc" "sp_event p = e" "sp_state p = SSE_PARSE_STATE_FIELD_NAME"
    using assms(1) by (auto simp: represents_def)
  have t: "terminated (sp_data p)" "cbuf_ok (sp_line p)" "cbuf_ok (sp_data p)" using p(1) by (simp_all add: parser_ok_def terminated_def)
  have l: "cb_length (sp_line p) = 0" "cb_length (sp_data p) = length acc" using p(2,3) length_cb_text [OF t(2)] length_cb_text [OF t(3)] by simp_all
  let ?q = "(if acc = [] then p else p\<lparr>sp_event := e\<lparr>ev_data := Some (c_string acc)\<rparr>, sp_data := (sp_data p)\<lparr>cb_length := 0\<rparr>\<rparr>)
      \<lparr>sp_state := SSE_PARSE_STATE_EVENT_COMPLETE\<rparr>"
  have "mcp_strdup [] (Some (c_string acc)) = (Some (c_string acc), [])"
    using assms(2) length_c_string [of acc] by (intro dup_no_failure) simp
  then have "process_line [] p = Done (True, ?q, [])"
    using l terminated_string [OF t(1)] p(3,4) by (simp add: process_line_def)
  then show ?thesis using p t by (intro exI [of _ "?q\<lparr>sp_line := (sp_line ?q)\<lparr>cb_length := 0\<rparr>\<rparr>"])
      (auto simp: process_bytes_stopped parser_ok_def terminated_def cbuf_ok_empty)
qed

section \<open>Events\<close>

definition plain :: "string option \<Rightarrow> bool" where
  "plain v \<longleftrightarrow> (case v of None \<Rightarrow> True | Some x \<Rightarrow> NL \<notin> set x \<and> CR \<notin> set x \<and> c_str_ok x \<and> (x \<noteq> [] \<longrightarrow> hd x \<noteq> CHR '' ''))"

definition field_line :: "string \<Rightarrow> string option \<Rightarrow> string" where
  "field_line key v = (case v of None \<Rightarrow> [] | Some x \<Rightarrow> key @ '': '' @ x @ [NL])"

lemma print_field_Some:
  assumes "print_field key v s = Some t"
  obtains s0 where "s = Some s0" "t = s0 @ field_line key v" "v \<noteq> None \<Longrightarrow> length t < 4096"
  using assms by (auto simp: print_field_def field_line_def Let_def split: option.splits if_splits)

lemma sent_text:
  assumes "send_sse_event i t d = Some bytes"
  shows "bytes = field_line ''id'' i @ field_line ''event'' t @ field_line ''data'' d @ [NL]" "length bytes < 4096"
proof -
  obtain s where s: "print_field ''data'' d (print_field ''event'' t (print_field ''id'' i (Some []))) = Some s" "length s < 4095" "bytes = s @ [NL]"
    using assms by (auto simp: send_sse_event_def split: option.splits if_splits)
  then show "bytes = field_line ''id'' i @ field_line ''event'' t @ field_line ''data'' d @ [NL]" "length bytes < 4096"
    by (auto elim!: print_field_Some)
qed

lemma field_of_line:
  assumes "plain (Some x)" "CHR '':'' \<notin> set key" "c_str_ok key"
  shows "c_string (takeWhile (\<lambda>c. c \<noteq> CHR '':'') (key @ '': '' @ x)) = key" "after_colon (key @ '': '' @ x) = x"
proof -
  have k: "\<forall>c \<in> set key. c \<noteq> CHR '':''" using assms(2) by auto
  have "takeWhile (\<lambda>c. c \<noteq> CHR '':'') (key @ '': '' @ x) = key" "dropWhile (\<lambda>c. c \<noteq> CHR '':'') (key @ '': '' @ x) = '': '' @ x"
    using k by (auto simp: takeWhile_append dropWhile_append)
  moreover have "dropWhile (\<lambda>c. c = CHR '' '') x = x" using assms(1) by (cases x) (auto simp: plain_def)
  ultimately show "c_string (takeWhile (\<lambda>c. c \<noteq> CHR '':'') (key @ '': '' @ x)) = key" "after_colon (key @ '': '' @ x) = x"
    using assms(3) by (simp_all add: after_colon_def)
qed

definition set_field :: "string \<Rightarrow> string option \<Rightarrow> string \<times> sse_event \<Rightarrow> string \<times> sse_event" where
  "set_field key v s = (case v of None \<Rightarrow> s | Some x \<Rightarrow> sse_field (key @ '': '' @ x) s)"

lemma read_field:
  assumes "represents p [] s" "plain v" "NL \<notin> set key" "CR \<notin> set key" "key \<noteq> []" "length (fst s) + length (field_line key v) < 2 ^ 58"
  shows "\<exists>p'. (\<forall>rest. process_bytes [] p (field_line key v @ rest) = process_bytes [] p' rest) \<and> represents p' [] (set_field key v s)"
proof (cases v)
  case (Some x)
  let ?line = "key @ '': '' @ x"
  have l: "length (fst s) + length ?line < 2 ^ 59" using assms(6) Some by (simp add: field_line_def)
  have "NL \<notin> set ?line" "CR \<notin> set ?line" using assms(2-4) Some by (auto simp: plain_def)
  from read_text [OF assms(1) this] l obtain p1 where
    p1: "\<forall>rest. process_bytes [] p (?line @ rest) = process_bytes [] p1 rest" "represents p1 ?line s" by auto
  have ne: "?line \<noteq> []" using assms(5) by simp
  from read_newline [OF p1(2) ne l] obtain p2 where
    p2: "\<forall>rest. process_bytes [] p1 (NL # rest) = process_bytes [] p2 rest" "represents p2 [] (sse_field ?line s)" by blast
  have "process_bytes [] p (field_line key v @ rest) = process_bytes [] p2 rest" for rest
    using p1(1) [rule_format, of "NL # rest"] p2(1) Some by (simp add: field_line_def)
  then show ?thesis using p2(2) Some by (intro exI [of _ p2]) (simp add: set_field_def)
qed (use assms(1) in \<open>auto simp: field_line_def set_field_def\<close>)

definition sent_event :: "string option \<Rightarrow> string option \<Rightarrow> string option \<Rightarrow> sse_event" where
  "sent_event i t d = \<lparr>ev_id = i, ev_event = t, ev_data = (if d = Some [] then None else d)\<rparr>"

lemma fields_of_event:
  assumes "plain i" "plain t" "plain d"
  shows "set_field ''data'' d (set_field ''event'' t (set_field ''id'' i ([], no_event))) =
    (case d of None \<Rightarrow> [] | Some x \<Rightarrow> x, \<lparr>ev_id = i, ev_event = t, ev_data = None\<rparr>)"
proof -
  have "set_field ''id'' i (acc, e) = (case i of None \<Rightarrow> (acc, e) | Some x \<Rightarrow> (acc, e\<lparr>ev_id := Some x\<rparr>))" for acc e
    using assms(1) field_of_line [of _ "''id''"] by (auto simp: set_field_def sse_field_def plain_def c_str_ok_def split: option.split)
  moreover have "set_field ''event'' t (acc, e) = (case t of None \<Rightarrow> (acc, e) | Some x \<Rightarrow> (acc, e\<lparr>ev_event := Some x\<rparr>))" for acc e
    using assms(2) field_of_line [of _ "''event''"] by (auto simp: set_field_def sse_field_def plain_def c_str_ok_def split: option.split)
  moreover have "set_field ''data'' d (acc, e) = (case d of None \<Rightarrow> (acc, e) | Some x \<Rightarrow> (joined acc x, e))" for acc e
    using assms(3) field_of_line [of _ "''data''"] by (auto simp: set_field_def sse_field_def plain_def c_str_ok_def split: option.split)
  ultimately show ?thesis by (auto simp: no_event_def joined_def split: option.split)
qed

text \<open>Between two events.\<close>

definition sse_idle :: "sse_parser \<Rightarrow> bool" where
  "sse_idle p \<longleftrightarrow> represents p [] ([], no_event)"

lemma idle_created: "sse_parser_create [] = (Some p, m) \<Longrightarrow> sse_idle p \<and> m = []"
  by (auto simp: sse_parser_create_def sse_idle_def represents_def parser_ok_def terminated_def cbuf_ok_def fresh_cbuf_def cb_text_def Let_def)

lemma idle_reset: "parser_ok p \<Longrightarrow> sse_idle (sse_parser_reset p)"
  by (auto simp: sse_parser_reset_def sse_idle_def represents_def parser_ok_def terminated_def cbuf_ok_empty)

lemma read_event:
  assumes "send_sse_event i t d = Some bytes" "plain i" "plain t" "plain d" "sse_idle p"
  shows "\<exists>p'. process_bytes [] p (bytes @ rest) = Done (p', []) \<and> sp_state p' = SSE_PARSE_STATE_EVENT_COMPLETE \<and> parser_ok p' \<and>
    sp_event p' = sent_event i t d \<and>
    (\<exists>q. process_bytes [] p (butlast bytes) = Done (q, []) \<and> sp_state q \<noteq> SSE_PARSE_STATE_EVENT_COMPLETE)"
proof -
  note b = sent_text [OF assms(1)]
  have len: "length (field_line ''id'' i) < 4096" "length (field_line ''event'' t) < 4096" "length (field_line ''data'' d) < 4096" using b by simp_all
  have small: "length (fst (set_field ''id'' i ([], no_event))) = 0" "length (fst (set_field ''event'' t (set_field ''id'' i ([], no_event)))) = 0"
    using fields_of_event [OF assms(2) _ _, of None None] fields_of_event [OF assms(2,3) _, of None] by (simp_all add: plain_def set_field_def)
  obtain p1 where p1: "\<And>rest. process_bytes [] p (field_line ''id'' i @ rest) = process_bytes [] p1 rest"
      "represents p1 [] (set_field ''id'' i ([], no_event))"
    using read_field [OF assms(5) [unfolded sse_idle_def] assms(2), of "''id''"] len(1) by auto
  obtain p2 where p2: "\<And>rest. process_bytes [] p1 (field_line ''event'' t @ rest) = process_bytes [] p2 rest"
      "represents p2 [] (set_field ''event'' t (set_field ''id'' i ([], no_event)))"
    using read_field [OF p1(2) assms(3), of "''event''"] len(2) small(1) by auto
  obtain p3 where p3: "\<And>rest. process_bytes [] p2 (field_line ''data'' d @ rest) = process_bytes [] p3 rest"
      "represents p3 [] (set_field ''data'' d (set_field ''event'' t (set_field ''id'' i ([], no_event))))"
    using read_field [OF p2(2) assms(4), of "''data''"] len(3) small(2) by auto
  let ?acc = "case d of None \<Rightarrow> [] | Some x \<Rightarrow> x"
  have acc: "length ?acc < 2 ^ 59" using len(3) by (auto simp: field_line_def split: option.split)
  from read_end [OF p3(2) [unfolded fields_of_event [OF assms(2-4)]] acc] obtain p4 where
    p4: "\<And>rest. process_bytes [] p3 (NL # rest) = Done (p4, [])" "sp_state p4 = SSE_PARSE_STATE_EVENT_COMPLETE" "parser_ok p4"
      "sp_event p4 = (if ?acc = [] then \<lparr>ev_id = i, ev_event = t, ev_data = None\<rparr>
         else \<lparr>ev_id = i, ev_event = t, ev_data = None\<rparr>\<lparr>ev_data := Some (c_string ?acc)\<rparr>)" by blast
  have "process_bytes [] p (bytes @ rest) = Done (p4, [])" using p1(1) p2(1) p3(1) p4(1) by (simp add: b(1))
  moreover have "sp_event p4 = sent_event i t d" using p4(4) assms(4) by (auto simp: sent_event_def plain_def split: option.splits)
  moreover have "butlast bytes = field_line ''id'' i @ field_line ''event'' t @ field_line ''data'' d @ []" by (simp add: b(1) butlast_append)
  then have "process_bytes [] p (butlast bytes) = Done (p3, [])" using p1(1) p2(1) p3(1) [of "[]"] by simp
  ultimately show ?thesis using p3(2) p4(2,3) by (auto simp: represents_def)
qed

text \<open>
  A specification device: the results of consecutive calls of \<open>sse_parser_process\<close> on the same parser, one for each chunk.  The client's
  own thread, \<open>sse_receive\<close>, calls it differently: it passes bytes of an incomplete event again.
\<close>

fun sse_calls :: "mem \<Rightarrow> sse_parser \<Rightarrow> string list \<Rightarrow> ((int \<times> sse_event option) list \<times> sse_parser \<times> mem) checked" where
  "sse_calls m p [] = Done ([], p, m)"
| "sse_calls m p (chunk # chunks) =
     (case sse_parser_process m p chunk of
        Undefined \<Rightarrow> Undefined
      | Done (rc, ev, p1, m1) \<Rightarrow>
          (case sse_calls m1 p1 chunks of Undefined \<Rightarrow> Undefined | Done (rs, q, m2) \<Rightarrow> Done ((rc, ev) # rs, q, m2)))"

lemma sse_calls_append:
  assumes "sse_calls m p cs = Done (rs, q, m1)" "sse_calls m1 q ds = Done (rs', q', m2)"
  shows "sse_calls m p (cs @ ds) = Done (rs @ rs', q', m2)"
  using assms by (induction cs arbitrary: m p rs) (auto split: checked.splits)

lemma process_safe:
  assumes "parser_ok p"
  shows "\<exists>rc ev q m'. sse_parser_process m p s = Done (rc, ev, q, m') \<and> parser_ok q"
proof -
  obtain q m' where q: "process_bytes m p s = Done (q, m')" "parser_ok q" using process_bytes_safe [OF assms] by blast
  have "parser_ok (sse_parser_reset q)" using idle_reset [OF q(2)] by (simp add: sse_idle_def represents_def)
  then show ?thesis using q by (auto simp: sse_parser_process_def split: prod.split)
qed

lemma calls_safe: "parser_ok p \<Longrightarrow> sse_calls m p chunks \<noteq> Undefined"
proof (induction chunks arbitrary: m p)
  case (Cons c chunks)
  obtain rc ev q m' where "sse_parser_process m p c = Done (rc, ev, q, m')" "parser_ok q" using process_safe [OF Cons.prems] by blast
  then show ?case using Cons.IH [of q m'] by (auto split: checked.splits)
qed simp

lemma dup_sent_field:
  assumes "send_sse_event i t d = Some bytes" "v = i \<or> v = t \<or> v = d \<or> v = None"
  shows "mcp_strdup [] v = (v, [])"
proof (cases v)
  case (Some x)
  then have "length x < 2 ^ 60" using sent_text [OF assms(1)] assms(2) by (auto simp: field_line_def)
  then show ?thesis using dup_no_failure Some by simp
qed (simp add: mcp_strdup_def)

lemma dup_sent:
  assumes "send_sse_event i t d = Some bytes"
  shows "dup_event [] (sent_event i t d) = (sent_event i t d, [])"
  using dup_sent_field [OF assms] by (auto simp: dup_event_def sent_event_def)

lemma process_event:
  assumes "send_sse_event i t d = Some bytes" "plain i" "plain t" "plain d" "sse_idle p"
  shows "\<exists>p'. sse_parser_process [] p (bytes @ rest) = Done (1, Some (sent_event i t d), p', []) \<and> sse_idle p'"
proof -
  obtain p' where "process_bytes [] p (bytes @ rest) = Done (p', [])" "sp_state p' = SSE_PARSE_STATE_EVENT_COMPLETE" "parser_ok p'"
    "sp_event p' = sent_event i t d" using read_event [OF assms] by blast
  then show ?thesis using dup_sent [OF assms(1)] idle_reset by (auto simp: sse_parser_process_def)
qed

text \<open>An event that is complete with the last byte of some chunks, and not before, is returned by the last of the calls.\<close>

lemma calls_complete:
  assumes "process_bytes m p (concat cs) = Done (p', m')" "sp_state p' = SSE_PARSE_STATE_EVENT_COMPLETE"
    and "process_bytes m p (butlast (concat cs)) = Done (q, mq)" "sp_state q \<noteq> SSE_PARSE_STATE_EVENT_COMPLETE"
    and "dup_event m' (sp_event p') = (e, m2)" "cs \<noteq> []" "last cs \<noteq> []"
  shows "sse_calls m p cs = Done (replicate (length cs - 1) (0, None) @ [(1, Some e)], sse_parser_reset p', m2)"
  using assms
proof (induction cs arbitrary: m p)
  case (Cons c cs)
  show ?case
  proof (cases cs)
    case Nil
    then show ?thesis using Cons.prems(1,2,5) by (simp add: sse_parser_process_def)
  next
    case (Cons d ds)
    then have rest: "concat cs \<noteq> []" "cs \<noteq> []" "last cs \<noteq> []" using Cons.prems(7) last_in_set [of cs] by auto
    obtain p1 m1 where p1: "process_bytes m p c = Done (p1, m1)" "process_bytes m1 p1 (concat cs) = Done (p', m')"
      using Cons.prems(1) by (auto simp: process_bytes_append split: checked.splits)
    have b: "process_bytes m1 p1 (butlast (concat cs)) = Done (q, mq)"
    proof -
      have "butlast (concat (c # cs)) = c @ butlast (concat cs)" using rest(1) by (simp add: butlast_append del: concat_eq_Nil_conv)
      then show ?thesis using Cons.prems(3) p1(1) by (simp add: process_bytes_append)
    qed
    have "sp_state p1 \<noteq> SSE_PARSE_STATE_EVENT_COMPLETE" using b Cons.prems(4) process_bytes_stopped [of p1] by auto
    moreover have "sp_state p1 \<noteq> SSE_PARSE_STATE_ERROR" using p1(2) Cons.prems(2) process_bytes_stopped [of p1] by auto
    ultimately have "sse_parser_process m p c = Done (0, None, p1, m1)" using p1(1) by (simp add: sse_parser_process_def)
    then show ?thesis using Cons.IH [OF p1(2) Cons.prems(2) b Cons.prems(4,5) rest(2,3)] rest(2) by (cases cs) auto
  qed
qed simp

definition event_results :: "string option \<times> string option \<times> string option \<Rightarrow> string list \<Rightarrow> (int \<times> sse_event option) list" where
  "event_results e cs = (case e of (i, t, d) \<Rightarrow> replicate (length cs - 1) (0, None) @ [(1, Some (sent_event i t d))])"

lemma calls_event:
  assumes "send_sse_event i t d = Some (concat cs)" "plain i" "plain t" "plain d" "sse_idle p" "last cs \<noteq> []"
  shows "\<exists>p'. sse_calls [] p cs = Done (event_results (i, t, d) cs, p', []) \<and> sse_idle p'"
proof -
  obtain p' q where p': "process_bytes [] p (concat cs) = Done (p', [])" "sp_state p' = SSE_PARSE_STATE_EVENT_COMPLETE" "parser_ok p'"
    "sp_event p' = sent_event i t d" "process_bytes [] p (butlast (concat cs)) = Done (q, [])" "sp_state q \<noteq> SSE_PARSE_STATE_EVENT_COMPLETE"
    using read_event [OF assms(1-5), of "[]"] by auto
  have "cs \<noteq> []" using sent_text(1) [OF assms(1)] by auto
  from calls_complete [OF p'(1,2,5,6) _ this assms(6)] show ?thesis
    using dup_sent [OF assms(1)] p'(3,4) idle_reset by (auto simp: event_results_def)
qed

section \<open>The receiving thread\<close>

definition sc_ready :: "sse_connection \<Rightarrow> bool" where
  "sc_ready s \<longleftrightarrow> sse_idle (sc_parser s) \<and> cb_length (sc_buffer s) = 0 \<and> 8192 \<le> length (cb_bytes (sc_buffer s))"

lemma receive_step:
  assumes "cb_length (sc_buffer s) + length r < length (cb_bytes (sc_buffer s))"
  shows "\<exists>b. cb_text b = cb_text (sc_buffer s) @ r \<and> cb_length b = cb_length (sc_buffer s) + length r \<and> length (cb_bytes b) = length (cb_bytes (sc_buffer s)) \<and>
    sse_receive m s r = (case sse_parser_process m (sc_parser s) (cb_text (sc_buffer s) @ r) of
        Undefined \<Rightarrow> Undefined
      | Done (rc, ev, p, m2) \<Rightarrow>
          (case ev of Some e \<Rightarrow> (case note_id m2 e (sc_last_id s) of (l, m3) \<Rightarrow>
              Done (True, \<lparr>sc_buffer = b\<lparr>cb_length := 0\<rparr>, sc_parser = p, sc_last_id = l, sc_events = sc_events s @ [e]\<rparr>, m3))
           | None \<Rightarrow> Done (rc = 0, s\<lparr>sc_buffer := b, sc_parser := p\<rparr>, m2)))"
proof -
  obtain b2 where b2: "put_bytes r (sc_buffer s) = Done b2" "cbuf_ok b2" "cb_text b2 = cb_text (sc_buffer s) @ r"
    "cb_length b2 = cb_length (sc_buffer s) + length r" "length (cb_bytes b2) = length (cb_bytes (sc_buffer s))"
    using put_bytes_ok [OF assms] by blast
  obtain b3 where b3: "terminate_cbuf b2 = Done b3" "cb_text b3 = cb_text b2" "cb_length b3 = cb_length b2" "length (cb_bytes b3) = length (cb_bytes b2)"
    using b2(2) by (simp add: terminate_cbuf_def cbuf_ok_def cb_text_def)
  have t: "take (cb_length b3) (cb_bytes b3) = cb_text (sc_buffer s) @ r" using b3(2) b2(3) by (simp add: cb_text_def)
  have "sse_receive m s r = (case sse_parser_process m (sc_parser s) (cb_text (sc_buffer s) @ r) of
        Undefined \<Rightarrow> Undefined
      | Done (rc, ev, p, m2) \<Rightarrow>
          (case ev of Some e \<Rightarrow> (case note_id m2 e (sc_last_id s) of (l, m3) \<Rightarrow>
              Done (True, \<lparr>sc_buffer = b3\<lparr>cb_length := 0\<rparr>, sc_parser = p, sc_last_id = l, sc_events = sc_events s @ [e]\<rparr>, m3))
           | None \<Rightarrow> Done (rc = 0, s\<lparr>sc_buffer := b3, sc_parser := p\<rparr>, m2)))"
    using assms by (simp add: sse_receive_def Let_def b2(1) b3(1) t)
  then show ?thesis using b2 b3 by (intro exI [of _ b3]) simp
qed

lemma doubled_line:
  assumes "plain (Some x)" "x \<noteq> []" "length x < 4096" "0 < k" "sse_field (take k (''data: '' @ x) @ ''data: '' @ x) ([], no_event) = (acc, e)"
  shows "e = no_event \<and> length acc < 2 ^ 20 \<and> (acc \<noteq> [] \<longrightarrow> c_string acc \<noteq> x)"
proof (cases "k < 5")
  case True
  then have "k = 1 \<or> k = 2 \<or> k = 3 \<or> k = 4" using assms(4) by auto
  then show ?thesis using assms(5) by (elim disjE) (auto simp: sse_field_def c_string_def)
next
  case False
  let ?line = "''data: '' @ x"
  have t: "take k ?line = ''data:'' @ take (k - 5) ('' '' @ x)" using False by (auto simp: take_Cons' numeral_eq_Suc)
  have "dropWhile (\<lambda>c. c = CHR '' '') (take (k - 5) ('' '' @ x) @ ?line) = take (k - 6) x @ ?line"
  proof (cases "k = 5")
    case f: False
    then have "take (k - 5) ('' '' @ x) = '' '' @ take (k - 6) x" using False by (auto simp: take_Cons' numeral_eq_Suc)
    moreover have "dropWhile (\<lambda>c. c = CHR '' '') (take (k - 6) x @ ?line) = take (k - 6) x @ ?line"
      using assms(1,2) by (cases x; cases "k - 6") (auto simp: plain_def)
    ultimately show ?thesis by simp
  qed simp
  then have "after_colon (take k ?line @ ?line) = take (k - 6) x @ ?line" unfolding t by (simp add: after_colon_def)
  moreover have "c_string (takeWhile (\<lambda>c. c \<noteq> CHR '':'') (take k ?line @ ?line)) = ''data''" unfolding t by (simp add: c_string_def)
  ultimately have a: "acc = take (k - 6) x @ ?line" "e = no_event" using assms(5) by (simp_all add: sse_field_def joined_def)
  have "c_str_ok acc" using assms(1) a(1) by (auto simp: plain_def c_str_ok_def dest: in_set_takeD)
  moreover have "length acc \<noteq> length x" "length acc < 2 ^ 20" using assms(3) a(1) by simp_all
  ultimately show ?thesis using a(2) by auto
qed

lemma wrong_end:
  assumes "represents p [] (acc, no_event)" "length acc < 2 ^ 20" "acc \<noteq> [] \<longrightarrow> c_string acc \<noteq> x"
  shows "\<exists>p'. process_bytes [] p [NL] = Done (p', []) \<and> sp_state p' = SSE_PARSE_STATE_EVENT_COMPLETE \<and> ev_data (sp_event p') \<noteq> Some x \<and>
    ev_id (sp_event p') = None \<and> dup_event [] (sp_event p') = (sp_event p', [])"
proof -
  obtain p' where p': "process_bytes [] p [NL] = Done (p', [])" "sp_state p' = SSE_PARSE_STATE_EVENT_COMPLETE"
    "sp_event p' = (if acc = [] then no_event else no_event\<lparr>ev_data := Some (c_string acc)\<rparr>)" using read_end [OF assms(1)] assms(2) by auto
  have "mcp_strdup [] (Some (c_string acc)) = (Some (c_string acc), [])" using assms(2) length_c_string [of acc] by (intro dup_no_failure) simp
  then have "dup_event [] (sp_event p') = (sp_event p', [])" using p'(3) by (simp add: dup_event_def no_event_def mcp_strdup_def)
  moreover have "ev_data (sp_event p') \<noteq> Some x" "ev_id (sp_event p') = None" using p'(3) assms(3) by (simp_all add: no_event_def)
  ultimately show ?thesis using p'(1,2) by blast
qed

lemma split_parse:
  assumes "represents p [] ([], no_event)" "plain (Some x)" "x \<noteq> []" "length x < 4096" "bytes = ''data: '' @ x @ [NL, NL]" "0 < k" "k < length bytes"
  shows "\<exists>p1 p2. process_bytes [] p (take k bytes) = Done (p1, []) \<and> sp_state p1 = SSE_PARSE_STATE_FIELD_NAME \<and>
      process_bytes [] p1 bytes = Done (p2, []) \<and> sp_state p2 = SSE_PARSE_STATE_EVENT_COMPLETE \<and> ev_data (sp_event p2) \<noteq> Some x \<and>
      ev_id (sp_event p2) = None \<and> dup_event [] (sp_event p2) = (sp_event p2, [])"
proof -
  define line where "line = ''data: '' @ x"
  have clean: "NL \<notin> set line" "CR \<notin> set line" using assms(2) by (auto simp: plain_def line_def)
  have bytes: "bytes = line @ [NL] @ [NL]" and ll: "length line = length x + 6" using assms(5) by (simp_all add: line_def)
  show ?thesis
  proof (cases "k \<le> length line")
    case True
    then have tk: "take k bytes = take k line" unfolding bytes by simp
    have "NL \<notin> set (take k line)" "CR \<notin> set (take k line)" using clean by (meson in_set_takeD)+
    then obtain p1 where p1: "\<forall>rest. process_bytes [] p (take k line @ rest) = process_bytes [] p1 rest" "represents p1 (take k line) ([], no_event)"
      using read_text [OF assms(1), of "take k line"] assms(4) ll by (auto simp: min_less_iff_disj)
    have short: "length (take k line) + length line < 2 ^ 59" using assms(4) ll by (auto simp: min_def)
    obtain p2 where p2: "\<forall>rest. process_bytes [] p1 (line @ rest) = process_bytes [] p2 rest" "represents p2 (take k line @ line) ([], no_event)"
      using read_text [OF p1(2) clean] short by auto
    obtain acc e where f: "sse_field (take k line @ line) ([], no_event) = (acc, e)" by fastforce
    note dl = doubled_line [OF assms(2-4,6) f [unfolded line_def]]
    have "length (fst ([], no_event)) + length (take k line @ line) < 2 ^ 59" "take k line @ line \<noteq> []" using assms(4) ll by (auto simp: line_def)
    from read_newline [OF p2(2) this(2,1)] f dl obtain p3 where
      p3: "\<forall>rest. process_bytes [] p2 (NL # rest) = process_bytes [] p3 rest" "represents p3 [] (acc, no_event)" by auto
    from wrong_end [OF p3(2)] dl obtain p4 where
      p4: "process_bytes [] p3 [NL] = Done (p4, [])" "sp_state p4 = SSE_PARSE_STATE_EVENT_COMPLETE" "ev_data (sp_event p4) \<noteq> Some x"
        "ev_id (sp_event p4) = None" "dup_event [] (sp_event p4) = (sp_event p4, [])" by blast
    have "process_bytes [] p1 bytes = Done (p4, [])" using p2(1) p3(1) p4(1) by (simp add: bytes)
    moreover have "process_bytes [] p (take k bytes) = Done (p1, [])" using p1(1) [rule_format, of "[]"] tk by simp
    ultimately show ?thesis using p1(2) p4(2-5) by (auto simp: represents_def)
  next
    case False
    then have k: "k = Suc (length line)" using assms(7) bytes by simp
    have fl: "field_line ''data'' (Some x) = line @ [NL]" by (simp add: field_line_def line_def)
    have tk: "take k bytes = field_line ''data'' (Some x)" "bytes = field_line ''data'' (Some x) @ [NL]" unfolding fl k bytes by simp_all
    have s: "set_field ''data'' (Some x) (acc, e) = (joined acc x, e)" for acc e
      using field_of_line [OF assms(2), of "''data''"] by (simp add: set_field_def sse_field_def c_str_ok_def)
    obtain p1 where p1: "\<forall>rest. process_bytes [] p (field_line ''data'' (Some x) @ rest) = process_bytes [] p1 rest" "represents p1 [] (x, no_event)"
      using read_field [OF assms(1,2), of "''data''"] assms(4) s by (auto simp: field_line_def joined_def)
    obtain p2 where p2: "\<forall>rest. process_bytes [] p1 (field_line ''data'' (Some x) @ rest) = process_bytes [] p2 rest" "represents p2 [] (joined x x, no_event)"
      using read_field [OF p1(2) assms(2), of "''data''"] assms(4) s by (auto simp: field_line_def)
    have "c_str_ok (joined x x)" using assms(2) by (auto simp: plain_def joined_def c_str_ok_def)
    moreover have "length (joined x x) \<noteq> length x" using assms(3) by (simp add: joined_def)
    ultimately have "c_string (joined x x) \<noteq> x" by auto
    then obtain p3 where p3: "process_bytes [] p2 [NL] = Done (p3, [])" "sp_state p3 = SSE_PARSE_STATE_EVENT_COMPLETE" "ev_data (sp_event p3) \<noteq> Some x"
        "ev_id (sp_event p3) = None" "dup_event [] (sp_event p3) = (sp_event p3, [])" using wrong_end [OF p2(2), of x] assms(3,4) by (auto simp: joined_def)
    have "process_bytes [] p1 bytes = Done (p3, [])" using p2(1) p3(1) tk(2) by simp
    moreover have "process_bytes [] p (take k bytes) = Done (p1, [])" using p1(1) [rule_format, of "[]"] tk(1) by simp
    ultimately show ?thesis using p1(2) p3(2-5) by (auto simp: represents_def)
  qed
qed

lemma ready_example: "\<exists>s. sc_ready s \<and> sc_events s = []"
proof -
  obtain p where "sse_parser_create [] = (Some p, [])" by (simp add: sse_parser_create_def)
  then have "sc_ready \<lparr>sc_buffer = fresh_cbuf 8192, sc_parser = p, sc_last_id = None, sc_events = []\<rparr>"
    using idle_created [of p "[]"] by (simp add: sc_ready_def fresh_cbuf_def)
  moreover have "sc_events \<lparr>sc_buffer = fresh_cbuf 8192, sc_parser = p, sc_last_id = None, sc_events = []\<rparr> = []" by simp
  ultimately show ?thesis by blast
qed

section \<open>Properties\<close>

text \<open>Claim C17.  Whatever chunks of bytes \<open>sse_parser_process\<close> is given and whatever the allocator answers, it stays in its buffers.
  Round trip: events sent by \<open>send_sse_event\<close> whose fields contain no line feed, carriage return or NUL and do not begin with a
  space, each of them cut into chunks in any way such that its last chunk is not empty and holds nothing of the next event, are
  returned by the parser as they were sent, when every chunk is handed to it once and no allocation fails: the call with the
  last chunk of an event returns 1 and the event, all others return 0.  Empty data is read as no data.\<close>

theorem sse_stream_roundtrip:
  assumes "sse_parser_create m0 = (Some p, m)"
  shows "sse_calls m p chunks \<noteq> Undefined \<and>
    (m0 = [] \<and> list_all2 (\<lambda>(i, t, d) cs. plain i \<and> plain t \<and> plain d \<and> send_sse_event i t d = Some (concat cs) \<and> last cs \<noteq> []) es css \<longrightarrow>
       (\<exists>q. sse_calls m p (concat css) =
          Done (concat (map2 (\<lambda>(i, t, d) cs. replicate (length cs - 1) (0, None) @ [(1, Some (sent_event i t d))]) es css), q, [])))"
proof -
  have "parser_ok p" using assms
    by (auto simp: sse_parser_create_def parser_ok_def terminated_def cbuf_ok_def fresh_cbuf_def Let_def split: prod.splits if_splits)
  moreover have "\<exists>q. sse_calls [] p (concat css) = Done (concat (map2 event_results es css), q, [])"
    if "list_all2 (\<lambda>(i, t, d) cs. plain i \<and> plain t \<and> plain d \<and> send_sse_event i t d = Some (concat cs) \<and> last cs \<noteq> []) es css" "sse_idle p" for p
    using that
  proof (induction arbitrary: p rule: list_all2_induct)
    case (Cons e es cs css)
    obtain i t d where e: "e = (i, t, d)" by (cases e)
    then obtain q where q: "sse_calls [] p cs = Done (event_results e cs, q, [])" "sse_idle q"
      using Cons.hyps(1) calls_event [of i t d cs p] Cons.prems by auto
    from Cons.IH [OF q(2)] sse_calls_append [OF q(1)] show ?case by force
  qed simp
  moreover have "event_results = (\<lambda>(i, t, d) cs. replicate (length cs - 1) (0, None) @ [(1, Some (sent_event i t d))])"
    by (auto simp: event_results_def fun_eq_iff)
  ultimately show ?thesis using calls_safe [of p m chunks] idle_created [of p m] assms by auto
qed

theorem sse_stream_roundtrip_witness:
  "\<exists>p q. sse_parser_create [] = (Some p, []) \<and>
     sse_calls [] p [''da'', ''ta: '', ''x'' @ [CHR 0x0A, CHR 0x0A], ''id: 7'' @ [CHR 0x0A], ''data: y'' @ [CHR 0x0A, CHR 0x0A]] =
       Done ([(0, None), (0, None), (1, Some \<lparr>ev_id = None, ev_event = None, ev_data = Some ''x''\<rparr>),
              (0, None), (1, Some \<lparr>ev_id = Some ''7'', ev_event = None, ev_data = Some ''y''\<rparr>)], q, [])"
proof -
  let ?css = "[[''da'', ''ta: '', ''x'' @ [CHR 0x0A, CHR 0x0A]], [''id: 7'' @ [CHR 0x0A], ''data: y'' @ [CHR 0x0A, CHR 0x0A]]]"
  let ?es = "[(None, None, Some ''x''), (Some ''7'', None, Some ''y'')]"
  obtain p where p: "sse_parser_create [] = (Some p, [])" by (simp add: sse_parser_create_def)
  have "list_all2 (\<lambda>(i, t, d) cs. plain i \<and> plain t \<and> plain d \<and> send_sse_event i t d = Some (concat cs) \<and> last cs \<noteq> []) ?es ?css"
    by (simp add: plain_def c_str_ok_def send_sse_event_def print_field_def)
  then show ?thesis using sse_stream_roundtrip [OF p, of _ ?es ?css] p by (auto simp: sent_event_def)
qed

text \<open>Claim C40.  The receiving thread gives the bytes of an incomplete event to the parser again, together with the next ones.  An event that
  has only data (no identifier and no type; the data is not empty, has no line feed, carriage return or NUL and does not begin with a
  space), whose text arrives in two parts at a thread that has nothing buffered, is delivered without its data or with wrong data, wherever
  it is cut.  An event that has an identifier too may survive: the line that is spoilt need not be the one with the data.\<close>

theorem sse_split_event_garbled:
  assumes "sc_ready s" "send_sse_event None None (Some x) = Some bytes" "plain (Some x)" "x \<noteq> []" "0 < k" "k < length bytes"
  shows "\<exists>s1 s2 e. sse_receive [] s (take k bytes) = Done (True, s1, []) \<and> sse_receive [] s1 (drop k bytes) = Done (True, s2, []) \<and>
    sc_events s2 = sc_events s @ [e] \<and> ev_data e \<noteq> Some x"
proof -
  let ?line = "''data: '' @ x"
  have b: "bytes = ?line @ [NL, NL]" "length bytes < 4096" using sent_text [OF assms(2)] by (simp_all add: field_line_def)
  have idle: "represents (sc_parser s) [] ([], no_event)" and buf: "cb_text (sc_buffer s) = []" "cb_length (sc_buffer s) = 0"
    "8192 \<le> length (cb_bytes (sc_buffer s))" using assms(1) by (auto simp: sc_ready_def sse_idle_def cb_text_def)
  have small: "length x < 4096" using b by simp
  obtain p1 p2 where p: "process_bytes [] (sc_parser s) (take k bytes) = Done (p1, [])" "sp_state p1 = SSE_PARSE_STATE_FIELD_NAME"
      "process_bytes [] p1 bytes = Done (p2, [])" "sp_state p2 = SSE_PARSE_STATE_EVENT_COMPLETE" "ev_data (sp_event p2) \<noteq> Some x"
      "dup_event [] (sp_event p2) = (sp_event p2, [])" "ev_id (sp_event p2) = None"
    using split_parse [OF idle assms(3,4) small _ assms(5,6)] b(1) by auto
  have "cb_length (sc_buffer s) + length (take k bytes) < length (cb_bytes (sc_buffer s))" using buf b(2) by simp
  from receive_step [OF this, of "[]"] obtain b1 where b1: "cb_text b1 = take k bytes" "cb_length b1 = length (take k bytes)" "8192 \<le> length (cb_bytes b1)"
      "sse_receive [] s (take k bytes) = Done (True, s\<lparr>sc_buffer := b1, sc_parser := p1\<rparr>, [])"
    using buf p(1,2) by (auto simp: sse_parser_process_def)
  let ?s1 = "s\<lparr>sc_buffer := b1, sc_parser := p1\<rparr>"
  have "cb_length (sc_buffer ?s1) + length (drop k bytes) < length (cb_bytes (sc_buffer ?s1))" using b1(2,3) b(2) by simp
  from receive_step [OF this, of "[]"] obtain s2 where "sse_receive [] ?s1 (drop k bytes) = Done (True, s2, [])"
      "sc_events s2 = sc_events s @ [sp_event p2]"
    using b1(1) p(3,4,6,7) by (auto simp: sse_parser_process_def note_id_def)
  then show ?thesis using b1(4) p(5) by blast
qed

theorem sse_split_event_garbled_witness:
  "\<exists>s s1 s2 e. sse_receive [] s ''dat'' = Done (True, s1, []) \<and> sse_receive [] s1 (''a: x'' @ [CHR 0x0A, CHR 0x0A]) = Done (True, s2, []) \<and>
     sc_events s2 = [e] \<and> ev_data e \<noteq> Some ''x''"
proof -
  let ?bytes = "''data: x'' @ [CHR 0x0A, CHR 0x0A]"
  obtain s where s: "sc_ready s" "sc_events s = []" using ready_example by blast
  have "send_sse_event None None (Some ''x'') = Some ?bytes" by (simp add: send_sse_event_def print_field_def)
  from sse_split_event_garbled [OF s(1) this, of 3] s(2) show ?thesis by (force simp: plain_def c_str_ok_def)
qed

text \<open>What arrives in the same read after the end of an event is dropped.\<close>

theorem sse_rest_dropped:
  assumes "sc_ready s" "send_sse_event i t d = Some bytes" "plain i" "plain t" "plain d"
    "length bytes + length rest < length (cb_bytes (sc_buffer s))"
  shows "\<exists>s'. sse_receive [] s (bytes @ rest) = Done (True, s', []) \<and> sc_events s' = sc_events s @ [sent_event i t d] \<and> sc_ready s'"
proof -
  have idle: "sse_idle (sc_parser s)" and buf: "cb_text (sc_buffer s) = []" "cb_length (sc_buffer s) = 0" "8192 \<le> length (cb_bytes (sc_buffer s))"
    using assms(1) by (auto simp: sc_ready_def cb_text_def)
  obtain p' where p': "sse_parser_process [] (sc_parser s) (bytes @ rest) = Done (1, Some (sent_event i t d), p', [])" "sse_idle p'"
    using process_event [OF assms(2-5) idle] by blast
  have "cb_length (sc_buffer s) + length (bytes @ rest) < length (cb_bytes (sc_buffer s))" using assms(6) buf(2) by simp
  moreover obtain l where "note_id [] (sent_event i t d) (sc_last_id s) = (l, [])"
    using dup_sent_field [OF assms(2), of i] by (cases i) (auto simp: note_id_def sent_event_def)
  ultimately obtain b where "length (cb_bytes b) = length (cb_bytes (sc_buffer s))"
      "sse_receive [] s (bytes @ rest) = Done (True, \<lparr>sc_buffer = b\<lparr>cb_length := 0\<rparr>, sc_parser = p', sc_last_id = l, sc_events = sc_events s @ [sent_event i t d]\<rparr>, [])"
    using receive_step [of s "bytes @ rest" "[]"] buf(1) p'(1) by auto
  then show ?thesis using p'(2) buf(3) by (auto simp: sc_ready_def)
qed

theorem sse_rest_dropped_witness:
  "\<exists>s s'. sse_receive [] s (''data: x'' @ [CHR 0x0A, CHR 0x0A] @ ''data: y'' @ [CHR 0x0A, CHR 0x0A]) = Done (True, s', []) \<and>
     sc_events s' = [\<lparr>ev_id = None, ev_event = None, ev_data = Some ''x''\<rparr>]"
proof -
  obtain s where s: "sc_ready s" "sc_events s = []" using ready_example by blast
  have b: "send_sse_event None None (Some ''x'') = Some (''data: x'' @ [CHR 0x0A, CHR 0x0A])" by (simp add: send_sse_event_def print_field_def)
  have "plain None" "plain (Some ''x'')" by (simp_all add: plain_def c_str_ok_def)
  moreover have "length (''data: x'' @ [CHR 0x0A, CHR 0x0A]) + length (''data: y'' @ [CHR 0x0A, CHR 0x0A]) < length (cb_bytes (sc_buffer s))"
    using s(1) by (simp add: sc_ready_def)
  ultimately obtain s' where "sse_receive [] s ((''data: x'' @ [CHR 0x0A, CHR 0x0A]) @ ''data: y'' @ [CHR 0x0A, CHR 0x0A]) = Done (True, s', [])"
      "sc_events s' = sc_events s @ [sent_event None None (Some ''x'')]"
    using sse_rest_dropped [OF s(1) b] by blast
  then show ?thesis using s(2) by (intro exI [of _ s] exI [of _ s']) (simp add: sent_event_def)
qed

end
