(* ===== verification/Mcp_Sse_Store.thy ===== *)
theory Mcp_Sse_Store
  imports Mcp_Chains Mcp_Sse
begin

text \<open>
  Resumption of event streams: the events a stream keeps, \<open>sse_stream_context_t\<close> of \<open>src/transport/mcp_sthttp_utils.c\<close>, in a
  circular array with a hash map from identifiers to positions, \<open>event_hash_map_t\<close> of
  \<open>src/transport/mcp_sthttp_dynamic_utils.c\<close>, and the replay of the events after a given one.
\<close>

section \<open>The hash map\<close>

record event_hash_entry =
  eh_id :: string
  eh_position :: nat

record event_hash_map =
  em_buckets :: "event_hash_entry list list"
  em_bucket_count :: size_t
  em_entry_count :: size_t

fun hash_event_id_loop :: "32 word \<Rightarrow> string \<Rightarrow> 32 word" where
  "hash_event_id_loop hash [] = hash"
| "hash_event_id_loop hash (c # event_id) = hash_event_id_loop (push_bit 5 hash + hash + of_int (signed_char c)) event_id"

definition hash_event_id :: "string \<Rightarrow> 32 word" where
  "hash_event_id event_id = hash_event_id_loop 5381 event_id"

definition event_bucket :: "size_t \<Rightarrow> string \<Rightarrow> nat" where
  "event_bucket bucket_count event_id = unat (hash_event_id event_id) mod unat bucket_count"

definition event_hash_map_create :: "mem \<Rightarrow> size_t \<Rightarrow> event_hash_map option \<times> mem" where
  "event_hash_map_create m buckets0 =
     (let n = (if buckets0 = 0 then 256 else buckets0); (ok, m1) = mem_alloc m
      in if \<not> ok then (None, m1)
         else let (ok1, m2) = mem_alloc m1
              in if \<not> ok1 \<or> unat n * 8 \<ge> 2 ^ 63 then (None, m2)
                 else let (ok2, m3) = mem_alloc m2
                      in if \<not> ok2 then (None, m3)
                         else (Some \<lparr>em_buckets = replicate (unat n) [], em_bucket_count = n, em_entry_count = 0\<rparr>, m3))"

definition event_hash_map_put :: "mem \<Rightarrow> event_hash_map \<Rightarrow> string \<Rightarrow> nat \<Rightarrow> int \<times> event_hash_map \<times> mem" where
  "event_hash_map_put m h event_id position =
     (let i = event_bucket (em_bucket_count h) event_id; chain = em_buckets h ! i
      in case find (\<lambda>e. eh_id e = event_id) chain of
           Some e \<Rightarrow> (0, h\<lparr>em_buckets := (em_buckets h)[i := map (\<lambda>e. if eh_id e = event_id then e\<lparr>eh_position := position\<rparr> else e) chain]\<rparr>, m)
         | None \<Rightarrow>
             (let (ok, m1) = mem_alloc m
              in if \<not> ok then (-1, h, m1)
                 else case mcp_strdup m1 (Some event_id) of
                        (None, m2) \<Rightarrow> (-1, h, m2)
                      | (Some s, m2) \<Rightarrow>
                          (0, h\<lparr>em_buckets := (em_buckets h)[i := \<lparr>eh_id = s, eh_position = position\<rparr> # chain],
                                em_entry_count := em_entry_count h + 1\<rparr>, m2)))"

definition event_hash_map_get :: "event_hash_map \<Rightarrow> string \<Rightarrow> nat option" where
  "event_hash_map_get h event_id =
     map_option eh_position (find (\<lambda>e. eh_id e = event_id) (em_buckets h ! event_bucket (em_bucket_count h) event_id))"

text \<open>The first entry of the chain with the identifier is unlinked.\<close>

fun unlink_entry :: "string \<Rightarrow> event_hash_entry list \<Rightarrow> event_hash_entry list option" where
  "unlink_entry event_id [] = None"
| "unlink_entry event_id (e # es) = (if eh_id e = event_id then Some es else map_option ((#) e) (unlink_entry event_id es))"

definition event_hash_map_remove :: "event_hash_map \<Rightarrow> string \<Rightarrow> int \<times> event_hash_map" where
  "event_hash_map_remove h event_id =
     (let i = event_bucket (em_bucket_count h) event_id
      in case unlink_entry event_id (em_buckets h ! i) of
           None \<Rightarrow> (-1, h)
         | Some chain \<Rightarrow> (0, h\<lparr>em_buckets := (em_buckets h)[i := chain], em_entry_count := em_entry_count h - 1\<rparr>))"

section \<open>The stored events\<close>

record sse_stream_context =
  ss_events :: "sse_event list"     \<comment> \<open>the circular array\<close>
  ss_head :: nat
  ss_tail :: nat
  ss_count :: nat
  ss_max :: nat
  ss_next_id :: "64 word"
  ss_last_id :: "string option"
  ss_hash :: event_hash_map

definition sse_stream_context_create :: "mem \<Rightarrow> nat \<Rightarrow> sse_stream_context option \<times> mem" where
  "sse_stream_context_create m max_stored =
     (let (ok, m1) = mem_alloc m
      in if \<not> ok then (None, m1)
         else let (ok1, m2) = (if max_stored > 0 then realloc_bytes m1 (32 * max_stored) else (True, m1))
              in if \<not> ok1 then (None, m2)
                 else case event_hash_map_create m2 256 of
                        (None, m3) \<Rightarrow> (None, m3)
                      | (Some h, m3) \<Rightarrow>
                          (let (ok4, m4) = mem_alloc m3
                           in if \<not> ok4 then (None, m4)
                              else (Some \<lparr>ss_events = replicate max_stored no_event, ss_head = 0, ss_tail = 0, ss_count = 0, ss_max = max_stored,
                                          ss_next_id = 1, ss_last_id = None, ss_hash = h\<rparr>, m4)))"

text \<open>The place for the next event: the oldest event is cleared if the array is full.\<close>

definition make_room :: "sse_stream_context \<Rightarrow> sse_stream_context" where
  "make_room c =
     (if ss_count c = ss_max c
      then c\<lparr>ss_hash := (case ev_id (ss_events c ! ss_tail c) of
                             None \<Rightarrow> ss_hash c | Some old \<Rightarrow> snd (event_hash_map_remove (ss_hash c) old)),
             ss_events := (ss_events c)[ss_tail c := no_event], ss_head := (ss_head c + 1) mod ss_max c\<rparr>
      else c\<lparr>ss_count := ss_count c + 1\<rparr>)"

definition sse_stream_context_store_event ::
    "mem \<Rightarrow> sse_stream_context \<Rightarrow> string option \<Rightarrow> string option \<Rightarrow> string option \<Rightarrow> sse_stream_context \<times> mem" where
  "sse_stream_context_store_event m c event_id event_type data =
     (if ss_max c = 0 then (c, m)
      else let the_id = (case event_id of Some i \<Rightarrow> i | None \<Rightarrow> decimal (unat (ss_next_id c)));
               index = ss_tail c;
               c1 = make_room (if event_id = None then c\<lparr>ss_next_id := ss_next_id c + 1\<rparr> else c);
               (i, m1) = mcp_strdup m (Some the_id); (t, m2) = mcp_strdup m1 event_type; (d, m3) = mcp_strdup m2 data;
               (h, m4) = (case i of None \<Rightarrow> (ss_hash c1, m3) | Some s \<Rightarrow> snd (event_hash_map_put m3 (ss_hash c1) s index));
               (l, m5) = mcp_strdup m4 (Some the_id)
           in (c1\<lparr>ss_events := (ss_events c1)[index := \<lparr>ev_id = i, ev_event = t, ev_data = d\<rparr>], ss_hash := h,
                  ss_tail := (ss_tail c1 + 1) mod ss_max c1, ss_last_id := l\<rparr>, m5))"

section \<open>Replay\<close>

definition slot :: "sse_stream_context \<Rightarrow> nat \<Rightarrow> nat" where
  "slot c i = (ss_head c + i) mod ss_max c"

text \<open>The first of the stored events, from the oldest, that satisfies a condition on its place in the array.\<close>

definition first_stored :: "sse_stream_context \<Rightarrow> (nat \<Rightarrow> bool) \<Rightarrow> nat option" where
  "first_stored c f = find (\<lambda>i. f (slot c i)) [0 ..< ss_count c]"

definition replay_start :: "sse_stream_context \<Rightarrow> string option \<Rightarrow> nat" where
  "replay_start c last_event_id =
     (case last_event_id of
        None \<Rightarrow> 0
      | Some l \<Rightarrow>
          (case (case event_hash_map_get (ss_hash c) l of None \<Rightarrow> None | Some pos \<Rightarrow> first_stored c (\<lambda>k. k = pos)) of
             Some i \<Rightarrow> i + 1
           | None \<Rightarrow>
               (case first_stored c (\<lambda>k. ev_id (ss_events c ! k) = Some l) of Some i \<Rightarrow> i + 1 | None \<Rightarrow> 0)))"

text \<open>The events are written one after the other until one cannot be sent; \<open>write\<close> is the answer of \<open>lws_write\<close>.\<close>

fun replay_loop :: "(string \<Rightarrow> bool) \<Rightarrow> sse_event list \<Rightarrow> string list" where
  "replay_loop write [] = []"
| "replay_loop write (e # es) =
     (case send_sse_event (ev_id e) (ev_event e) (ev_data e) of
        None \<Rightarrow> []
      | Some s \<Rightarrow> if write s then s # replay_loop write es else [])"

definition sse_stream_context_replay_events :: "(string \<Rightarrow> bool) \<Rightarrow> sse_stream_context \<Rightarrow> string option \<Rightarrow> nat \<times> string list" where
  "sse_stream_context_replay_events write c last_event_id =
     (if ss_max c = 0 then (0, [])
      else let sent = replay_loop write (map (\<lambda>i. ss_events c ! slot c i) [replay_start c last_event_id ..< ss_count c])
           in (length sent, sent))"

section \<open>The hash map as a map\<close>

lemma event_bucket_less: "0 < cap \<Longrightarrow> event_bucket cap k < unat cap"
  by (simp add: event_bucket_def unat_gt_0 word_gt_0)

interpretation event_ids: chained_table eh_id event_bucket
  by unfold_locales (rule event_bucket_less)

definition em_ok :: "event_hash_map \<Rightarrow> bool" where
  "em_ok h \<longleftrightarrow> chains_ok eh_id event_bucket (em_bucket_count h) (em_buckets h)"

definition em_map :: "event_hash_map \<Rightarrow> string \<Rightarrow> nat option" where
  "em_map h k = map_option eh_position (find_key eh_id k (concat (em_buckets h)))"

lemma event_get_map: "em_ok h \<Longrightarrow> event_hash_map_get h k = em_map h k"
  using event_ids.search_bucket [of "em_bucket_count h" "em_buckets h" k] by (simp add: em_ok_def em_map_def event_hash_map_get_def find_key_def)

lemma change_bucket:
  assumes ok: "em_ok h" and i: "i = event_bucket (em_bucket_count h) k" and d: "distinct (map eh_id c)"
    and keys: "eh_id ` set c \<subseteq> insert k (eh_id ` set (em_buckets h ! i))"
    and others: "\<And>j. j \<noteq> k \<Longrightarrow> find_key eh_id j c = find_key eh_id j (em_buckets h ! i)"
    and h': "em_buckets h' = (em_buckets h)[i := c]" "em_bucket_count h' = em_bucket_count h"
  shows "em_ok h' \<and> em_map h' = (em_map h)(k := map_option eh_position (find_key eh_id k c))"
proof -
  have "chains_ok eh_id event_bucket (em_bucket_count h) (em_buckets h)" using ok by (simp add: em_ok_def)
  from event_ids.replace_bucket [OF this d, of k] have r: "chains_ok eh_id event_bucket (em_bucket_count h) ((em_buckets h)[i := c])"
    "\<And>j. find_key eh_id j (concat ((em_buckets h)[i := c])) = (if j = k then find_key eh_id k c else find_key eh_id j (concat (em_buckets h)))"
    using keys others i by auto
  then show ?thesis by (auto simp: em_ok_def em_map_def h' fun_eq_iff)
qed

lemma event_put_ok:
  assumes ok: "em_ok h" and p: "event_hash_map_put m h k pos = (rc, h', m')"
  shows "em_ok h' \<and> (em_map h' = em_map h \<or> em_map h' = (em_map h)(k \<mapsto> pos)) \<and> (m = [] \<and> length k < 2 ^ 60 \<longrightarrow> m' = [])"
proof -
  let ?i = "event_bucket (em_bucket_count h) k"
  let ?c = "em_buckets h ! ?i"
  have co: "chains_ok eh_id event_bucket (em_bucket_count h) (em_buckets h)" using ok by (simp add: em_ok_def)
  have i: "?i < length (em_buckets h)" by (rule event_ids.bucket_in [OF co])
  note d = event_ids.chain_distinct [OF co i]
  show ?thesis
  proof (cases "find (\<lambda>e. eh_id e = k) ?c")
    case (Some e)
    let ?f = "\<lambda>e. if eh_id e = k then e\<lparr>eh_position := pos\<rparr> else e"
    have h': "h' = h\<lparr>em_buckets := (em_buckets h)[?i := map ?f ?c]\<rparr>" "m' = m" using p Some by (auto simp: event_hash_map_put_def Let_def)
    have ids: "map eh_id (map ?f ?c) = map eh_id ?c" by (simp add: o_def)
    have f: "find_key eh_id j (map ?f es) = map_option ?f (find_key eh_id j es)" for j es
      unfolding find_key_def by (induction es) auto
    have e: "find_key eh_id k ?c = Some e" using Some by (simp add: find_key_def)
    then have "eh_id e = k" by (simp add: find_key_Some [OF d])
    then have "find_key eh_id k (map ?f ?c) = Some (e\<lparr>eh_position := pos\<rparr>)" unfolding f e by simp
    moreover have others: "find_key eh_id j (map ?f ?c) = find_key eh_id j ?c" if "j \<noteq> k" for j
    proof (cases "find_key eh_id j ?c")
      case (Some a)
      then have "eh_id a = j" by (simp add: find_key_Some [OF d])
      then show ?thesis using that unfolding f Some by simp
    qed (simp add: f)
    moreover have dc: "distinct (map eh_id (map ?f ?c))" unfolding ids by (rule d)
    moreover have sub: "eh_id ` set (map ?f ?c) \<subseteq> insert k (eh_id ` set ?c)" unfolding list.set_map [symmetric] ids by (rule subset_insertI)
    ultimately have "em_ok h' \<and> em_map h' = (em_map h)(k \<mapsto> pos)"
      using change_bucket [OF ok refl dc sub others, of h'] h'(1) by simp
    then show ?thesis using h'(2) by simp
  next
    case None
    show ?thesis
    proof (cases "rc = 0")
      case True
      then have h': "em_buckets h' = (em_buckets h)[?i := \<lparr>eh_id = k, eh_position = pos\<rparr> # ?c]" "em_bucket_count h' = em_bucket_count h"
        "m = [] \<and> length k < 2 ^ 60 \<longrightarrow> m' = []"
        using p None by (auto simp: event_hash_map_put_def Let_def mcp_strdup_def realloc_bytes_def split: prod.splits option.splits if_splits)
      have "k \<notin> eh_id ` set ?c" using None by (auto simp: find_None_iff)
      then show ?thesis using change_bucket [OF ok refl, of "\<lparr>eh_id = k, eh_position = pos\<rparr> # ?c" k h'] d h'
        by (auto simp: find_key_def)
    next
      case False
      then have "h' = h" "m = [] \<and> length k < 2 ^ 60 \<longrightarrow> m' = []"
        using p None by (auto simp: event_hash_map_put_def Let_def mcp_strdup_def realloc_bytes_def split: prod.splits option.splits if_splits)
      then show ?thesis using ok by simp
    qed
  qed
qed

lemma unlink_Some:
  "unlink_entry k es = Some es' \<Longrightarrow> distinct (map eh_id es) \<Longrightarrow>
     distinct (map eh_id es') \<and> set es' = {e \<in> set es. eh_id e \<noteq> k} \<and> (\<forall>j. j \<noteq> k \<longrightarrow> find_key eh_id j es' = find_key eh_id j es) \<and> find_key eh_id k es' = None"
proof (induction es arbitrary: es')
  case (Cons e es)
  show ?case
  proof (cases "eh_id e = k")
    case True
    then show ?thesis using Cons.prems find_key_None [of eh_id k es] by (auto simp: find_key_def image_iff)
  next
    case False
    then obtain es1 where "unlink_entry k es = Some es1" "es' = e # es1" using Cons.prems by auto
    then show ?thesis using Cons.IH [of es1] Cons.prems(2) False by (auto simp: find_key_def)
  qed
qed simp

lemma unlink_None: "unlink_entry k es = None \<Longrightarrow> find_key eh_id k es = None"
  by (induction es) (auto simp: find_key_def split: if_splits)

lemma event_remove_ok:
  assumes ok: "em_ok h"
  shows "em_ok (snd (event_hash_map_remove h k)) \<and> em_map (snd (event_hash_map_remove h k)) = (em_map h)(k := None)"
proof -
  let ?i = "event_bucket (em_bucket_count h) k"
  have co: "chains_ok eh_id event_bucket (em_bucket_count h) (em_buckets h)" using ok by (simp add: em_ok_def)
  note d = event_ids.chain_distinct [OF co event_ids.bucket_in [OF co]]
  show ?thesis
  proof (cases "unlink_entry k (em_buckets h ! ?i)")
    case None
    then have "em_map h k = None" using unlink_None [OF None] event_ids.search_bucket [OF co, of k] by (simp add: em_map_def)
    then show ?thesis using None ok by (auto simp: event_hash_map_remove_def)
  next
    case (Some c)
    then show ?thesis using change_bucket [OF ok refl, of c k "snd (event_hash_map_remove h k)"] unlink_Some [OF Some d]
      by (auto simp: event_hash_map_remove_def)
  qed
qed

section \<open>The circular array\<close>

definition contents :: "sse_stream_context \<Rightarrow> sse_event list" where
  "contents c = map (\<lambda>i. ss_events c ! slot c i) [0 ..< ss_count c]"

definition ring_ok :: "sse_stream_context \<Rightarrow> bool" where
  "ring_ok c \<longleftrightarrow> 0 < ss_max c \<and> length (ss_events c) = ss_max c \<and> ss_head c < ss_max c \<and> ss_count c \<le> ss_max c \<and>
     ss_tail c = (ss_head c + ss_count c) mod ss_max c"

text \<open>Every entry of the hash map names the place of a stored event with its identifier.\<close>

definition hash_sound :: "sse_stream_context \<Rightarrow> bool" where
  "hash_sound c \<longleftrightarrow> em_ok (ss_hash c) \<and>
     (\<forall>k pos. em_map (ss_hash c) k = Some pos \<longrightarrow> (\<exists>j < ss_count c. slot c j = pos) \<and> ev_id (ss_events c ! pos) = Some k)"

lemma slot_if: "ss_head c < ss_max c \<Longrightarrow> j \<le> ss_max c \<Longrightarrow> slot c j = (if ss_head c + j < ss_max c then ss_head c + j else ss_head c + j - ss_max c)"
  by (auto simp: slot_def mod_if)

lemma slot_inj: "ss_head c < ss_max c \<Longrightarrow> i < ss_max c \<Longrightarrow> j < ss_max c \<Longrightarrow> slot c i = slot c j \<Longrightarrow> i = j"
  by (auto simp: slot_if split: if_splits)

lemma slot_less: "ring_ok c \<Longrightarrow> slot c j < length (ss_events c)"
  by (simp add: ring_ok_def slot_def)

lemma length_contents [simp]: "length (contents c) = ss_count c"
  by (simp add: contents_def)

lemma nth_contents: "j < ss_count c \<Longrightarrow> contents c ! j = ss_events c ! slot c j"
  by (simp add: contents_def)

text \<open>What storing an event does to the array.\<close>

lemma ring_store:
  assumes r: "ring_ok c" and n: "ss_count c < ss_max c" "ss_count c' = ss_count c + 1" "ss_head c' = ss_head c" "ss_max c' = ss_max c"
    "ss_events c' = (ss_events c)[ss_tail c := e]" "ss_tail c' = (ss_tail c + 1) mod ss_max c"
  shows "ring_ok c'" "contents c' = contents c @ [e]"
proof -
  have t: "ss_tail c = slot c (ss_count c)" "slot c' = slot c" using r n by (auto simp: ring_ok_def slot_def)
  show "ring_ok c'" using r n t by (simp add: ring_ok_def mod_Suc_eq)
  show "contents c' = contents c @ [e]"
  proof (rule nth_equalityI)
    fix j assume "j < length (contents c')"
    then have j: "j < ss_count c \<or> j = ss_count c" using n by auto
    have "slot c j \<noteq> slot c (ss_count c)" if "j < ss_count c" using slot_inj [of c j "ss_count c"] that r n by (auto simp: ring_ok_def)
    then show "contents c' ! j = (contents c @ [e]) ! j" using j n(2,5) t slot_less [OF r]
      by (auto simp: nth_contents nth_append)
  qed (simp add: n)
qed

lemma ring_replace:
  assumes r: "ring_ok c" and n: "ss_count c = ss_max c" "ss_count c' = ss_count c" "ss_head c' = (ss_head c + 1) mod ss_max c" "ss_max c' = ss_max c"
    "ss_events c' = (ss_events c)[ss_tail c := e]" "ss_tail c' = (ss_tail c + 1) mod ss_max c"
  shows "ring_ok c'" "contents c' = tl (contents c) @ [e]"
proof -
  have p: "0 < ss_max c" "ss_head c < ss_max c" using r by (auto simp: ring_ok_def)
  have t: "ss_tail c = ss_head c" "slot c 0 = ss_head c" using r n p by (auto simp: ring_ok_def slot_def)
  show "ring_ok c'" using r n t by (simp add: ring_ok_def mod_Suc_eq)
  have s: "slot c' j = slot c (Suc j)" for j using n by (simp add: slot_def mod_simps)
  show "contents c' = tl (contents c) @ [e]"
  proof (rule nth_equalityI)
    show "length (contents c') = length (tl (contents c) @ [e])" using n p by simp
    fix j assume "j < length (contents c')"
    then have j: "j < ss_max c" using n by simp
    show "contents c' ! j = (tl (contents c) @ [e]) ! j"
    proof (cases "Suc j < ss_max c")
      case True
      then have "slot c (Suc j) \<noteq> slot c 0" using slot_inj [of c "Suc j" 0] p by auto
      then show ?thesis using True j n s t by (simp add: nth_contents nth_append nth_tl)
    next
      case False
      then have m: "Suc j = ss_max c" using j by simp
      then have "slot c (Suc j) = ss_head c" using p by (simp add: slot_def)
      then show ?thesis using j n s t m p r by (simp add: nth_contents nth_append ring_ok_def)
    qed
  qed
qed

lemma slot_surj:
  assumes "ss_head c < ss_max c" "pos < ss_max c"
  shows "\<exists>j < ss_max c. slot c j = pos"
proof (cases "ss_head c \<le> pos")
  case True
  then show ?thesis using assms by (intro exI [of _ "pos - ss_head c"]) (auto simp: slot_def)
next
  case False
  then show ?thesis using assms by (intro exI [of _ "pos + ss_max c - ss_head c"]) (auto simp: slot_def)
qed

text \<open>The hash map stays sound if nothing in it names the place that is overwritten, and the new entry names it.\<close>

lemma hash_store:
  assumes "em_ok h1" "\<And>k pos. em_map h1 k = Some pos \<Longrightarrow> pos \<noteq> index \<and> (\<exists>j < ss_count c'. slot c' j = pos) \<and> ev_id (events ! pos) = Some k"
    and "(case i of None \<Rightarrow> (h1, m) | Some s \<Rightarrow> snd (event_hash_map_put m h1 s index)) = (ss_hash c', m')"
    and "\<exists>j < ss_count c'. slot c' j = index" "index < length events" "ss_events c' = events[index := e]" "ev_id e = i"
  shows "hash_sound c'"
proof (cases i)
  case None
  have "ev_id (ss_events c' ! pos) = Some k" if "em_map h1 k = Some pos" for k pos using assms(2) [OF that] assms(6) by simp
  then show ?thesis using assms(1-3) None by (auto simp: hash_sound_def)
next
  case (Some s)
  obtain rc where "event_hash_map_put m h1 s index = (rc, ss_hash c', m')" using assms(3) Some by (cases "event_hash_map_put m h1 s index") auto
  note p = event_put_ok [OF assms(1) this]
  have "(\<exists>j < ss_count c'. slot c' j = pos) \<and> ev_id (ss_events c' ! pos) = Some k" if "em_map (ss_hash c') k = Some pos" for k pos
  proof (cases "em_map h1 k = Some pos")
    case True
    then show ?thesis using assms(2) [OF True] assms(6) by auto
  next
    case False
    then have "k = s" "pos = index" using p that by (auto split: if_splits)
    then show ?thesis using assms(4-7) Some by auto
  qed
  then show ?thesis using p by (auto simp: hash_sound_def)
qed

definition latest :: "nat \<Rightarrow> 'a list \<Rightarrow> 'a list" where
  "latest n xs = drop (length xs - n) xs"

lemma latest_snoc: "0 < n \<Longrightarrow> latest n (xs @ [x]) = (if length (latest n xs) = n then tl (latest n xs) else latest n xs) @ [x]"
  by (auto simp: latest_def drop_Suc tl_drop Suc_diff_le not_le)

lemma latest_append: "n \<le> length ys \<Longrightarrow> latest n (xs @ ys) = latest n ys"
  by (simp add: latest_def)

lemma latest_latest: "latest n (latest n xs @ ys) = latest n (xs @ ys)"
proof (cases "length xs \<le> n")
  case False
  have "xs = take (length xs - n) xs @ latest n xs" by (simp add: latest_def)
  moreover have "n \<le> length (latest n xs @ ys)" using False by (simp add: latest_def)
  ultimately show ?thesis using latest_append [of n "latest n xs @ ys" "take (length xs - n) xs"] by (metis append.assoc)
qed (simp add: latest_def)

lemma store_ok:
  assumes r: "ring_ok c" and h: "hash_sound c" and s: "sse_stream_context_store_event m c i t d = (c', m')"
  shows "ring_ok c' \<and> hash_sound c' \<and> ss_max c' = ss_max c \<and>
    (\<exists>e. contents c' = (if ss_count c = ss_max c then tl (contents c) else contents c) @ [e] \<and>
      (m = [] \<and> i \<noteq> None \<and> (\<forall>x. i = Some x \<or> t = Some x \<or> d = Some x \<longrightarrow> length x < 2 ^ 60) \<longrightarrow> e = \<lparr>ev_id = i, ev_event = t, ev_data = d\<rparr> \<and> m' = []))"
proof -
  let ?id = "case i of Some x \<Rightarrow> x | None \<Rightarrow> decimal (unat (ss_next_id c))"
  let ?index = "ss_tail c"
  let ?full = "ss_count c = ss_max c"
  define c1 where "c1 = make_room (if i = None then c\<lparr>ss_next_id := ss_next_id c + 1\<rparr> else c)"
  let ?h1 = "ss_hash c1"
  have c1: "ss_hash c1 = (if ?full then (case ev_id (ss_events c ! ?index) of None \<Rightarrow> ss_hash c | Some old \<Rightarrow> snd (event_hash_map_remove (ss_hash c) old)) else ss_hash c)"
    "ss_count c1 = (if ?full then ss_count c else ss_count c + 1)" "ss_head c1 = (if ?full then (ss_head c + 1) mod ss_max c else ss_head c)"
    "ss_max c1 = ss_max c" "ss_tail c1 = ?index" "(ss_events c1)[?index := x] = (ss_events c)[?index := x]" for x
    by (simp_all add: c1_def make_room_def split: option.split)
  obtain i1 m1 where d1: "mcp_strdup m (Some ?id) = (i1, m1)" by fastforce
  obtain t1 m2 where d2: "mcp_strdup m1 t = (t1, m2)" by fastforce
  obtain d1' m3 where d3: "mcp_strdup m2 d = (d1', m3)" by fastforce
  obtain h' m4 where d4: "(case i1 of None \<Rightarrow> (?h1, m3) | Some s \<Rightarrow> snd (event_hash_map_put m3 ?h1 s ?index)) = (h', m4)" by fastforce
  obtain l m5 where d5: "mcp_strdup m4 (Some ?id) = (l, m5)" by fastforce
  define e where "e = \<lparr>ev_id = i1, ev_event = t1, ev_data = d1'\<rparr>"
  have max: "ss_max c \<noteq> 0" using r by (simp add: ring_ok_def)
  have "(c', m') = (c1\<lparr>ss_events := (ss_events c1)[?index := e], ss_hash := h', ss_tail := (ss_tail c1 + 1) mod ss_max c1, ss_last_id := l\<rparr>, m5)"
    using s unfolding sse_stream_context_store_event_def Let_def c1_def [symmetric] d1 d2 d3 d4 d5 prod.case e_def by (simp add: max)
  then have c': "ss_count c' = (if ?full then ss_count c else ss_count c + 1)" "ss_head c' = (if ?full then (ss_head c + 1) mod ss_max c else ss_head c)"
    "ss_max c' = ss_max c" "ss_events c' = (ss_events c)[?index := e]" "ss_tail c' = (?index + 1) mod ss_max c" "ss_hash c' = h'" "m' = m5"
    by (simp_all add: c1)
  have ring: "ring_ok c'" "contents c' = (if ?full then tl (contents c) else contents c) @ [e]"
    using ring_store [OF r, of c' e] ring_replace [OF r, of c' e] r c' by (auto simp: ring_ok_def)
  have idx: "?index < length (ss_events c)" using r by (auto simp: ring_ok_def)
  have em: "em_ok (ss_hash c)" and snd: "\<And>k pos. em_map (ss_hash c) k = Some pos \<Longrightarrow> (\<exists>j < ss_count c. slot c j = pos) \<and> ev_id (ss_events c ! pos) = Some k"
    using h by (auto simp: hash_sound_def)
  have h1: "em_ok ?h1" using em event_remove_ok [OF em] by (simp add: c1(1) split: option.split)
  have old: "pos \<noteq> ?index \<and> (\<exists>j < ss_count c'. slot c' j = pos) \<and> ev_id (ss_events c ! pos) = Some k" if k: "em_map ?h1 k = Some pos" for k pos
  proof (cases ?full)
    case True
    have e0: "em_map (ss_hash c) k = Some pos" "ev_id (ss_events c ! ?index) \<noteq> Some k"
      using k True event_remove_ok [OF em] snd unfolding c1(1) by (auto split: option.splits if_splits)
    then have "pos < ss_max c'" using snd [OF e0(1)] slot_less [OF r] r c' by (auto simp: ring_ok_def)
    then show ?thesis using slot_surj [of c' pos] ring(1) snd [OF e0(1)] e0(2) c' True by (auto simp: ring_ok_def)
  next
    case False
    then have e0: "em_map (ss_hash c) k = Some pos" using k by (simp add: c1(1))
    then obtain j where j: "j < ss_count c" "slot c j = pos" using snd by blast
    have "pos \<noteq> ?index" using slot_inj [of c j "ss_count c"] j r False by (auto simp: ring_ok_def slot_def)
    moreover have "slot c' j = pos" using j c' False by (simp add: slot_def)
    ultimately show ?thesis using snd [OF e0] j(1) c'(1) False by (auto intro!: exI [of _ j])
  qed
  have "\<exists>j < ss_count c'. slot c' j = ?index"
  proof (cases ?full)
    case True
    then show ?thesis using slot_surj [of c' ?index] ring(1) idx r c' by (auto simp: ring_ok_def)
  next
    case False
    then show ?thesis using r c' by (intro exI [of _ "ss_count c"]) (auto simp: ring_ok_def slot_def)
  qed
  then have "hash_sound c'" using hash_store [OF h1 old, where i = i1 and m = m3 and m' = m4 and e = e] d4 c'(4,6) idx by (simp add: e_def)
  moreover have "e = \<lparr>ev_id = i, ev_event = t, ev_data = d\<rparr> \<and> m' = []"
    if m: "m = []" "i \<noteq> None" "\<forall>x. i = Some x \<or> t = Some x \<or> d = Some x \<longrightarrow> length x < 2 ^ 60"
  proof -
    have dup: "mcp_strdup [] v = (v, [])" if "v = i \<or> v = t \<or> v = d" for v
      using m(3) that by (cases v) (auto simp: mcp_strdup_def realloc_bytes_def)
    have id: "Some ?id = i" using m(2) by auto
    have x: "i1 = i" "m1 = []" using d1 dup [of i] unfolding id m(1) by simp_all
    then have y: "t1 = t" "m2 = []" using d2 dup [of t] by simp_all
    then have z: "d1' = d" "m3 = []" using d3 dup [of d] by simp_all
    obtain s0 where s0: "i = Some s0" "length s0 < 2 ^ 60" using m(2,3) by blast
    then obtain rc where "event_hash_map_put [] ?h1 s0 ?index = (rc, h', m4)" using d4 x(1) z(2) by (cases "event_hash_map_put [] ?h1 s0 ?index") simp
    from event_put_ok [OF h1 this] s0(2) have "m4 = []" by simp
    then have "m5 = []" using d5 dup [of i] unfolding id by simp
    then show ?thesis using x y z c'(7) by (simp add: e_def)
  qed
  ultimately show ?thesis using ring c'(3) by blast
qed

text \<open>A stream of events stored one after the other.\<close>

fun store_all :: "mem \<Rightarrow> sse_stream_context \<Rightarrow> sse_event list \<Rightarrow> sse_stream_context \<times> mem" where
  "store_all m c [] = (c, m)"
| "store_all m c (e # es) =
     (case sse_stream_context_store_event m c (ev_id e) (ev_event e) (ev_data e) of (c1, m1) \<Rightarrow> store_all m1 c1 es)"

definition storable :: "sse_event \<Rightarrow> bool" where
  "storable e \<longleftrightarrow> ev_id e \<noteq> None \<and> (\<forall>x. ev_id e = Some x \<or> ev_event e = Some x \<or> ev_data e = Some x \<longrightarrow> length x < 2 ^ 60)"

lemma stream_created:
  assumes "sse_stream_context_create m n = (Some c, m')" "0 < n"
  shows "ring_ok c" "hash_sound c" "contents c = []" "ss_max c = n" "m = [] \<Longrightarrow> m' = []"
proof -
  obtain h m1 m2 where h: "event_hash_map_create m1 256 = (Some h, m2)" and
    c: "c = \<lparr>ss_events = replicate n no_event, ss_head = 0, ss_tail = 0, ss_count = 0, ss_max = n, ss_next_id = 1, ss_last_id = None, ss_hash = h\<rparr>"
    using assms by (auto simp: sse_stream_context_create_def Let_def split: prod.splits option.splits if_splits)
  have hh: "h = \<lparr>em_buckets = replicate 256 [], em_bucket_count = 256, em_entry_count = 0\<rparr>"
    using h by (auto simp: event_hash_map_create_def Let_def split: prod.splits if_splits)
  show "ring_ok c" "contents c = []" "ss_max c = n" using assms(2) c by (simp_all add: ring_ok_def contents_def)
  show "hash_sound c" using c hh by (auto simp: hash_sound_def em_ok_def em_map_def chains_ok_def find_key_def)
  show "m' = []" if "m = []" using assms that
    by (auto simp: sse_stream_context_create_def event_hash_map_create_def realloc_bytes_def Let_def split: if_splits)
qed

lemma store_all_ok:
  assumes "ring_ok c" "hash_sound c" "store_all m c es = (c', m')"
  shows "ring_ok c' \<and> hash_sound c' \<and> ss_max c' = ss_max c \<and> length (contents c') = min (ss_max c) (length (contents c) + length es) \<and>
    (m = [] \<and> (\<forall>e \<in> set es. storable e) \<longrightarrow> contents c' = latest (ss_max c) (contents c @ es))"
  using assms
proof (induction es arbitrary: m c)
  case Nil
  then show ?case by (auto simp: latest_def ring_ok_def)
next
  case (Cons e es)
  obtain c1 m1 where s: "sse_stream_context_store_event m c (ev_id e) (ev_event e) (ev_data e) = (c1, m1)" by fastforce
  from store_ok [OF Cons.prems(1,2) s] obtain e1 where
    c1: "ring_ok c1" "hash_sound c1" "ss_max c1 = ss_max c" "contents c1 = (if ss_count c = ss_max c then tl (contents c) else contents c) @ [e1]"
      "m = [] \<and> storable e \<Longrightarrow> e1 = e \<and> m1 = []" by (auto simp: storable_def)
  have n: "0 < ss_max c" "ss_count c \<le> ss_max c" using Cons.prems(1) by (simp_all add: ring_ok_def)
  have l1: "length (contents c1) = min (ss_max c) (length (contents c) + 1)" using c1(4) n by (auto simp del: length_contents simp add: length_contents [of c])
  have rest: "store_all m1 c1 es = (c', m')" using Cons.prems(3) s by simp
  note ih = Cons.IH [OF c1(1,2) rest]
  have "contents c' = latest (ss_max c) (contents c @ e # es)" if m: "m = []" "\<forall>x \<in> set (e # es). storable x"
  proof -
    have "contents c1 = latest (ss_max c) (contents c @ [e])"
      using c1(4,5) m n latest_snoc [OF n(1), of "contents c" e] by (auto simp: latest_def)
    then have "contents c' = latest (ss_max c) (latest (ss_max c) (contents c @ [e]) @ es)" using ih c1(3,5) m by simp
    also have "\<dots> = latest (ss_max c) ((contents c @ [e]) @ es)" by (rule latest_latest)
    finally show ?thesis by simp
  qed
  then show ?case using ih c1(3) l1 by auto
qed

text \<open>Where a replay starts: behind a stored event with the identifier, or at the oldest event.\<close>

lemma find_upt_Some: "find P [0 ..< n] = Some i \<longleftrightarrow> i < n \<and> P i \<and> (\<forall>j < i. \<not> P j)"
  by (auto simp: find_Some_iff)

lemma find_upt_None: "find P [0 ..< n] = None \<longleftrightarrow> (\<forall>i < n. \<not> P i)"
  by (auto simp: find_None_iff)

lemma replay_start_ok:
  assumes "ring_ok c" "hash_sound c"
  shows "replay_start c None = 0"
    "(\<exists>i < ss_count c. ev_id (contents c ! i) = Some l) \<Longrightarrow> \<exists>i < ss_count c. ev_id (contents c ! i) = Some l \<and> replay_start c (Some l) = i + 1"
    "\<not> (\<exists>i < ss_count c. ev_id (contents c ! i) = Some l) \<Longrightarrow> replay_start c (Some l) = 0"
proof -
  have em: "em_ok (ss_hash c)" using assms(2) by (simp add: hash_sound_def)
  show "replay_start c None = 0" by (simp add: replay_start_def)
  let ?lin = "first_stored c (\<lambda>k. ev_id (ss_events c ! k) = Some l)"
  have lin: "?lin = Some i \<Longrightarrow> i < ss_count c \<and> ev_id (contents c ! i) = Some l" "?lin = None \<longleftrightarrow> \<not> (\<exists>i < ss_count c. ev_id (contents c ! i) = Some l)" for i
    unfolding first_stored_def find_upt_Some find_upt_None by (auto simp: nth_contents)
  show "\<exists>i < ss_count c. ev_id (contents c ! i) = Some l \<and> replay_start c (Some l) = i + 1"
    if ex: "\<exists>i < ss_count c. ev_id (contents c ! i) = Some l"
  proof (cases "em_map (ss_hash c) l")
    case None
    obtain i where "?lin = Some i" using lin(2) ex by blast
    then show ?thesis using lin(1) None by (intro exI [of _ i]) (auto simp: replay_start_def event_get_map [OF em])
  next
    case (Some pos)
    then obtain j where j: "j < ss_count c" "slot c j = pos" "ev_id (ss_events c ! pos) = Some l" using assms(2) by (auto simp: hash_sound_def)
    have "first_stored c (\<lambda>k. k = pos) \<noteq> None" using j unfolding first_stored_def find_upt_None by blast
    then obtain i where i: "first_stored c (\<lambda>k. k = pos) = Some i" by blast
    then have "i < ss_count c" "slot c i = pos" unfolding first_stored_def find_upt_Some by auto
    then show ?thesis using i j(3) Some by (intro exI [of _ i]) (auto simp: replay_start_def event_get_map [OF em] nth_contents)
  qed
  show "replay_start c (Some l) = 0" if no: "\<not> (\<exists>i < ss_count c. ev_id (contents c ! i) = Some l)"
  proof -
    have "em_map (ss_hash c) l = None"
    proof (rule ccontr)
      assume "em_map (ss_hash c) l \<noteq> None"
      then obtain j where "j < ss_count c" "ev_id (ss_events c ! slot c j) = Some l" using assms(2) by (auto simp: hash_sound_def)
      then show False using no by (auto simp: nth_contents)
    qed
    then show ?thesis using lin(2) no by (simp add: replay_start_def event_get_map [OF em])
  qed
qed

lemma replayed_contents: "map (\<lambda>i. ss_events c ! slot c i) [k ..< ss_count c] = drop k (contents c)"
  by (simp add: contents_def drop_map)

section \<open>Properties\<close>

text \<open>Claim C18.  A stream keeps the latest events: after any number of stores, \<open>max_stored_events\<close> of them or all.  A client that comes back with the
  identifier of an event that is still stored gets exactly the events after it, in order, up to the first that cannot be sent.  With any answers of the
  allocator a replay starts behind an event with that identifier, or with the oldest if no event has it.\<close>

theorem sse_replay_resumes:
  assumes "sse_stream_context_create m0 n = (Some c0, m)" "0 < n" "store_all m c0 es = (c, m')"
  shows "length (contents c) = min n (length es) \<and>
    ((\<exists>i < ss_count c. ev_id (contents c ! i) = Some l) \<longrightarrow> (\<exists>i < ss_count c. ev_id (contents c ! i) = Some l \<and>
       sse_stream_context_replay_events write c (Some l) = (let sent = replay_loop write (drop (i + 1) (contents c)) in (length sent, sent)))) \<and>
    (m0 = [] \<and> (\<forall>e \<in> set es. storable e) \<and> distinct (map ev_id es) \<and> k < length es \<and> length es \<le> k + n \<longrightarrow>
       contents c = drop (length es - n) es \<and>
       snd (sse_stream_context_replay_events write c (ev_id (es ! k))) = replay_loop write (drop (k + 1) es))"
proof -
  note cr = stream_created [OF assms(1,2)]
  note st = store_all_ok [OF cr(1,2) assms(3)]
  have len: "length (contents c) = min n (length es)" using st cr(3,4) by (simp del: length_contents)
  have pos: "ss_max c \<noteq> 0" using st cr(4) assms(2) by simp
  have rep: "sse_stream_context_replay_events write c x = (let sent = replay_loop write (drop (replay_start c x) (contents c)) in (length sent, sent))" for x
    using pos by (simp add: sse_stream_context_replay_events_def replayed_contents)
  have "\<exists>i < ss_count c. ev_id (contents c ! i) = Some l \<and>
       sse_stream_context_replay_events write c (Some l) = (let sent = replay_loop write (drop (i + 1) (contents c)) in (length sent, sent))"
    if "\<exists>i < ss_count c. ev_id (contents c ! i) = Some l"
    using replay_start_ok(2) [of c l] st that rep by metis
  moreover have "contents c = drop (length es - n) es \<and> snd (sse_stream_context_replay_events write c (ev_id (es ! k))) = replay_loop write (drop (k + 1) es)"
    if p: "m0 = []" "\<forall>e \<in> set es. storable e" "distinct (map ev_id es)" "k < length es" "length es \<le> k + n"
  proof -
    let ?o = "length es - n"
    have c: "contents c = drop ?o es" using st cr(3-5) p(1,2) by (simp add: latest_def)
    obtain l where l: "ev_id (es ! k) = Some l" using p(2,4) by (metis nth_mem option.exhaust storable_def)
    have o: "?o \<le> k" using p(5) by simp
    have cnt: "ss_count c = min n (length es)" using len by simp
    have at2: "?o + i < length es" if "i < ss_count c" for i using that cnt by auto
    have at: "contents c ! i = es ! (?o + i)" if "i < ss_count c" for i using at2 [OF that] by (simp add: c)
    have "k - ?o < ss_count c" using cnt p(4,5) assms(2) by auto
    moreover from this have "ev_id (contents c ! (k - ?o)) = Some l" using at [of "k - ?o"] o l by simp
    ultimately obtain i where i: "i < ss_count c" "ev_id (contents c ! i) = Some l" "replay_start c (Some l) = i + 1"
      using replay_start_ok(2) [of c l] st by blast
    have "map ev_id es ! (?o + i) = map ev_id es ! k" using i(2) at [OF i(1)] at2 [OF i(1)] l p(4) by simp
    then have "?o + i = k" using nth_eq_iff_index_eq [OF p(3), of "?o + i" k] p(4) at2 [OF i(1)] by simp
    then have "drop (i + 1) (contents c) = drop (k + 1) es" by (simp add: c add.commute)
    then show ?thesis using rep [of "Some l"] i(3) l c by (simp add: Let_def)
  qed
  ultimately show ?thesis using len by blast
qed

theorem sse_replay_resumes_witness:
  "\<exists>c0 c m'. sse_stream_context_create [] 2 = (Some c0, []) \<and>
     store_all [] c0 [\<lparr>ev_id = Some ''1'', ev_event = None, ev_data = Some ''a''\<rparr>, \<lparr>ev_id = Some ''2'', ev_event = None, ev_data = Some ''b''\<rparr>,
       \<lparr>ev_id = Some ''3'', ev_event = None, ev_data = Some ''c''\<rparr>] = (c, m') \<and>
     snd (sse_stream_context_replay_events (\<lambda>s. True) c (Some ''2'')) = [''id: 3'' @ [CHR 0x0A] @ ''data: c'' @ [CHR 0x0A, CHR 0x0A]]"
proof -
  let ?es = "[\<lparr>ev_id = Some ''1'', ev_event = None, ev_data = Some ''a''\<rparr>, \<lparr>ev_id = Some ''2'', ev_event = None, ev_data = Some ''b''\<rparr>,
    \<lparr>ev_id = Some ''3'', ev_event = None, ev_data = Some ''c''\<rparr>]"
  obtain c0 where c0: "sse_stream_context_create [] 2 = (Some c0, [])"
    by (simp add: sse_stream_context_create_def event_hash_map_create_def realloc_bytes_def)
  obtain c m' where c: "store_all [] c0 ?es = (c, m')" by fastforce
  have "\<forall>e \<in> set ?es. storable e" by (auto simp: storable_def)
  then have "snd (sse_stream_context_replay_events (\<lambda>s. True) c (Some ''2'')) = replay_loop (\<lambda>s. True) (drop 2 ?es)"
    using sse_replay_resumes [OF c0 _ c, of "''2''" "\<lambda>s. True" 1] by simp
  also have "\<dots> = [''id: 3'' @ [CHR 0x0A] @ ''data: c'' @ [CHR 0x0A, CHR 0x0A]]"
    by (simp add: send_sse_event_def print_field_def)
  finally show ?thesis using c0 c by blast
qed

end
