(* ===== verification/Spec2Isabelle.thy ===== *)
theory Spec2Isabelle
  imports Mcp_Arena Mcp_Deque Mcp_Framing Mcp_Resources Mcp_Server_Task Mcp_Client Mcp_Admission Mcp_Gateway Mcp_Gateway_Pool Mcp_Sse_Store
begin

text \<open>
  SupaMCP, a Model Context Protocol server and client in C: a verification of its core.

  \<^bold>\<open>The program.\<close>  A client sends JSON-RPC requests over a transport to a server, which authenticates the
  sender, dispatches each message to a method handler (tools, resources, resource templates) or forwards
  it to a backend, and sends the response back; the client hands it to the thread that waits for it.
  Below that are a JSON library, a hash table, a linked list, an arena for memory, caches and
  rate limiters, and a pool of threads with work-stealing queues.

  \<^bold>\<open>The theories\<close>, from the bottom up, with the sources (under \<open>src/src/\<close> unless said otherwise) they model:

  \<^item> \<open>Mcp_Prelude\<close>: machine types, the allocator, C strings, shared lemmas.
  \<^item> \<open>Mcp_Arena\<close>: \<open>common/mcp_arena.c\<close>, \<open>common/mcp_thread_local.c\<close>.  For requests up to $2^{62}$ bytes chunks never
    overlap and stay in their block; the statistics agree with the chain; requests near \<open>SIZE_MAX\<close> wrap.
  \<^item> \<open>Mcp_Hashtable\<close>: \<open>common/mcp_hashtable.c\<close>.  The locale \<open>key_ops\<close> is the contract of the function pointers of a
    table; its lemmas give the invariant and the map a table stands for, for every operation, and it is
    interpreted on the string, integer and pointer keys of the library.
  \<^item> \<open>Mcp_List\<close>: \<open>common/mcp_list.c\<close> over an explicit heap; every operation refines a list operation without
    leaving live memory.  The locale \<open>recency_list\<close> is what a least-recently-used cache needs of it.
  \<^item> \<open>Mcp_Strings\<close>: \<open>common/mcp_string_utils.c\<close> (growing buffer, wildcards, splitting).
  \<^item> \<open>Mcp_Types\<close>: \<open>common/mcp_types.c\<close> (content items).
  \<^item> \<open>Mcp_Json\<close>, \<open>Mcp_Json_Escape\<close>, \<open>Mcp_Json_Parser\<close>, \<open>Mcp_Json_Stringify\<close>, \<open>Mcp_Json_Roundtrip\<close>: \<open>json/mcp_json.c\<close>,
    \<open>mcp_json_utils.c\<close>, \<open>mcp_json_parser.c\<close>, \<open>mcp_json_stringifier.c\<close>.  For every input and every pattern of
    allocation failures the parser stays in its buffers and returns a well-formed value; the printed
    text of a value is parsed to an equal value.
  \<^item> \<open>Mcp_Message\<close>, \<open>Mcp_Json_Rpc\<close>: \<open>json/mcp_json_message.c\<close>, \<open>json/mcp_json_rpc.c\<close>, \<open>server/mcp_server_response.c\<close>.
    Requests, responses and errors survive formatting and parsing.
  \<^item> \<open>Mcp_Template\<close>, \<open>Mcp_Template_Cache\<close>, \<open>Mcp_Template_Router\<close>: \<open>common/mcp_template.c\<close>,
    \<open>common/mcp_template_optimized.c\<close>, \<open>server/mcp_server_template_router.c\<close>, \<open>server/mcp_template_security.c\<close>,
    \<open>server/mcp_server_template_security.c\<close>.  On URIs built from valid values extraction undoes expansion and the
    cached matcher agrees with the plain one (on others they may differ); a registered template is served, or
    refused by the security checks.
  \<^item> \<open>Mcp_Auth\<close>: \<open>server/mcp_auth.c\<close> (API keys, access rules).
  \<^item> \<open>Mcp_Cache\<close>: \<open>server/mcp_cache.c\<close>, hash table and list over shared entries, refines an abstract
    least-recently-used cache with expiry as long as no allocation fails.
  \<^item> \<open>Mcp_Rate_Limiter\<close>: \<open>server/mcp_rate_limiter.c\<close>, a refinement of a map from clients to windows.
  \<^item> \<open>Mcp_Chains\<close>, \<open>Mcp_Advanced_Limiter\<close>, \<open>Mcp_Admission\<close>: \<open>server/mcp_advanced_rate_limiter.c\<close> and the choice of the limiter in
    \<open>server/mcp_server.c\<close>.  The locale \<open>chained_table\<close> is what the hash tables of both limiters and of the stored events rely on; the locale
    \<open>admission_policy\<close> is the contract of an algorithm, interpreted on the four of the code, and gives how many
    requests a client can get through when checks do not overlap.
  \<^item> \<open>Mcp_Dispatch\<close>, \<open>Mcp_Handlers\<close>, \<open>Mcp_Resources\<close>: \<open>server/mcp_server_dispatch.c\<close>, \<open>server/mcp_server_handlers.c\<close>.  Nothing
    is handled without authentication, tools run and resources are read only with access, every request of
    a batch is answered, and the client reads what the handlers returned.
  \<^item> \<open>Mcp_Server_Task\<close>: \<open>server/mcp_server_task.c\<close>, the way of a message from the transport to the dispatcher, for
    one thread as a function and for any number of threads as a step relation.
  \<^item> \<open>Mcp_Framing\<close>: \<open>common/mcp_framing.c\<close>, \<open>common/mcp_socket_utils.c\<close>; what is sent is received, however the
    stream arrives, unless a \<open>writev\<close> stops inside a body, after which the sender frees a moved pointer.
  \<^item> \<open>Mcp_Sse\<close>, \<open>Mcp_Sse_Store\<close>: \<open>transport/mcp_sthttp_sse_parser.c\<close>, and of \<open>transport/mcp_sthttp_utils.c\<close>,
    \<open>mcp_sthttp_dynamic_utils.c\<close> and \<open>mcp_sthttp_client_sse.c\<close> the sending, storing, replaying and receiving of server-sent
    events.  Events with plain fields are parsed as they were sent when the parser gets every byte once, a replay gives what follows an event; the
    receiving thread passes bytes twice.
  \<^item> \<open>Mcp_Deque\<close>: \<open>common/mcp_thread_pool_deque.c\<close> as a concurrent machine; no task is lost or run twice while no push
    finds the deque full, which the code does not check.
  \<^item> \<open>Mcp_Client_Table\<close>, \<open>Mcp_Client\<close>: \<open>client/mcp_client_hash_table.c\<close>, \<open>client/mcp_client_request.c\<close>,
    \<open>client/mcp_client_core.c\<close>.  The table of pending requests satisfies the locale \<open>request_store\<close>; in every
    interleaving of callers and callbacks a success was received for that very request.
  \<^item> \<open>Mcp_Gateway\<close>: \<open>gateway/mcp_gateway_config.c\<close>, \<open>gateway/mcp_gateway_routing.c\<close>.  What is loaded is what the configuration
    says; the first backend that matches is chosen, but the routing reads the text of the parameters as a JSON node, so
    that no request gets forwarded.
  \<^item> \<open>Mcp_Gateway_Pool\<close>: \<open>gateway/mcp_gateway_pool.c\<close>, the connections to a backend as a step relation over an explicit
    heap of idle nodes; safe while no idle connection times out and no attempt to connect fails, with runs that show what
    happens otherwise.
  \<^item> This theory: a tool call from end to end, through the client, the JSON texts, the authentication,
    the dispatcher, the handler and back.

  \<^bold>\<open>Conventions.\<close>  Pure functions are functions, stateful ones take and return their state, a record with the
  fields of the C structure.  A pointer is an option, an index or an address in an explicit heap,
  whichever the code's use of it needs.  An argument of type \<open>mem\<close> lists the answers of the allocator, an
  I/O script those of the system: theorems that mention no such answers hold for all of them, others say
  which they assume (\<open>enough_memory\<close>, \<open>calm\<close>).  Undefined behaviour of C is a value (\<open>None\<close> or \<open>Undefined\<close>) of the
  operations where it can happen; that a result is \<open>Done\<close> or \<open>Some\<close> is therefore a claim.  Return codes keep
  their numbers.  Sizes are 64 bit words where they can wrap, natural numbers where the code's own limits
  keep them far below that.  Loops are structural or well-founded recursions, so they end; there is no
  fuel.  The loops that double a size until it is large enough may not end in C and are partial functions whose
  value is \<open>None\<close> then; that they return is proved.  The C library functions on floating-point numbers, the
  cryptographic comparison and user handlers are parameters.  Concurrency is a step relation with one
  step per access to shared memory, or per critical section where a lock is held.

  \<^bold>\<open>Not modelled.\<close>  The rest of the transports (sockets, libwebsockets, MQTT, HTTP servers), the connection pool of
  \<open>connection_pool/\<close>, process start and shutdown, logging, plugins and performance counters
  are I/O around the modelled code; OpenSSL and libwebsockets are libraries.  The pools of memory (\<open>mcp_memory_pool.c\<close>,
  \<open>mcp_object_pool.c\<close>, \<open>mcp_buffer_pool.c\<close>, \<open>mcp_thread_cache.c\<close>) are below the allocator argument of the model: their answers
  are its answers.  The typed calls of the client (\<open>client/mcp_client_api.c\<close>) are wrappers of the calls that are
  modelled; of the gateway the reload of the configuration (\<open>gateway/mcp_gateway_config_manager.c\<close>) and the table of the
  pools are left out.  The release of
  memory is modelled only where it matters for what a later access sees (list, cache, hash table, pending requests).  JSON nodes are trees: the
  reference count is modelled only in \<open>read_resource\<close>, the one place that shares a node.
\<close>


section \<open>A tool call from end to end\<close>

text \<open>A request in the text the client formats is what the dispatcher parses.\<close>

lemma single_request_parsed:
  assumes env: "enough_memory env" "json_text_ok env p" "params_ok (Some p)" "length meth < 2 ^ 60"
    and t: "mcp_json_parse (env_strtod env) [] (Some msg) = Ok (JObject t)" "json_ok (JObject t)"
      "\<forall>x. map_option jabs (mcp_json_object_get_property (Some (JObject t)) x) = f x"
    and f: "f ''id'' = Some (VNumber (id_value i))" "f ''method'' = Some (VString meth)" "f ''params'' = Some (jabs p)"
    and "peek (skip_whitespace msg) = CHR ''{''" "envs 0 = env"
  shows "\<exists>p'. mcp_json_parse_message_or_batch env envs msg = Done (0, Some [Request i meth (Some (render (env_format env) p'))], 1) \<and>
    json_text_ok env p' \<and> jabs p' = jabs p"
proof -
  obtain p' where p': "parse_single_message_from_json env (Some (JObject t)) = Done (Some (Request i meth (Some (render (env_format env) p'))))"
    "json_ok p'" "jabs p' = jabs p" using request_of_object [OF env t(2,3) f] by blast
  then have "mcp_json_parse_message_or_batch env envs msg = Done (0, Some [Request i meth (Some (render (env_format env) p'))], 1)"
    using assms(11,12) env(1) t(1) by (simp add: mcp_json_parse_message_or_batch_def Let_def enough_memory_def)
  then show ?thesis using p'(3) json_text_ok_same [OF env(2) p'(2,3)] by blast
qed

text \<open>The request of the client, in whichever way it was formatted.\<close>

lemma client_request_object:
  assumes "enough_memory env" "reads_integers (env_strtod env)" "unat i \<le> 2 ^ 53" "json_text_ok env (JNumber (id_value i))"
    and m: "readable_text meth" "length meth < 2 ^ 28" "escape_string meth = meth" and p: "json_text_ok env p"
  shows "\<exists>msg t f. client_request_text env [] [] i (Some meth) (Some (render (env_format env) p)) = Done (Some msg) \<and>
    peek (skip_whitespace msg) = CHR ''{'' \<and> mcp_json_parse (env_strtod env) [] (Some msg) = Ok (JObject t) \<and> json_ok (JObject t) \<and>
    (\<forall>x. map_option jabs (mcp_json_object_get_property (Some (JObject t)) x) = f x) \<and>
    f ''id'' = Some (VNumber (id_value i)) \<and> f ''method'' = Some (VString meth) \<and> f ''params'' = Some (jabs p)"
proof (cases "mcp_json_format_request_direct [] i (Some meth) (Some (render (env_format env) p))")
  case None
  have c: "c_str_ok meth" using m(1) by (simp add: readable_text_def)
  from format_request_object [OF assms(1,3,4) c m(2) p] show ?thesis using None by (simp add: client_request_text_def)
next
  case (Some msg)
  let ?p = "render (env_format env) p"
  let ?es = "[version_member, id_member i, (''method'', quoted meth, VString meth), (''params'', ?p, jabs p)]"
  have msg: "msg = ''{'' @ comma_sep (map member ?es) @ ''}''"
    using Some m(3) by (auto simp: mcp_json_format_request_direct_def Let_def member_def quoted_def [of "''jsonrpc''"] quoted_def [of "''id''"]
      quoted_def [of "''method''"] quoted_def [of "''params''"] quoted_def [of "''2.0''"] quoted_def [of meth] escape_string_def escape_char_def
      split: if_splits prod.splits)
  have "\<forall>e \<in> set ?es. member_reads (env_strtod env) 1 e"
    using version_reads id_reads [OF assms(2,3)] json_text_reads [OF p] readable_text(2) [OF m(1)]
    by (simp add: member_reads_def c_str_ok_def)
  from parse_members_text [OF this] obtain t where
    t: "mcp_json_parse (env_strtod env) [] (Some msg) = Ok (JObject t)" "json_ok (JObject t)"
    "\<forall>x. map_option jabs (mcp_json_object_get_property (Some (JObject t)) x) = map_option snd (map_of ?es x)"
    unfolding msg by auto
  have "peek (skip_whitespace msg) = CHR ''{''" unfolding msg by (simp add: skip_whitespace_def is_space_def)
  with t Some show ?thesis
    by (intro exI [of _ msg] exI [of _ t] exI [of _ "\<lambda>x. map_option snd (map_of ?es x)"]) (simp add: client_request_text_def)
qed

text \<open>A server without a key, or a first message with the key.\<close>

definition authorized :: "string option \<Rightarrow> (string \<Rightarrow> double jval option) \<Rightarrow> bool" where
  "authorized api_key f \<longleftrightarrow> (case api_key of None \<Rightarrow> True
     | Some key \<Rightarrow> f ''apiKey'' = Some (VString key) \<and> 0 < length key \<and> length key \<le> 1024)"

lemma parsed_properties:
  assumes "json_text_ok env p" "enough_memory env" "jabs p = VObject f"
  shows "\<exists>t. parse_text env (render (env_format env) p) = Done (Some (JObject t)) \<and> json_ok (JObject t) \<and>
    (\<forall>x. map_option jabs (mcp_json_object_get_property (Some (JObject t)) x) = f x)"
proof -
  obtain j where j: "parse_text env (render (env_format env) p) = Done (Some j)" "json_text_ok env j" "jabs j = VObject f"
    using json_text_parses [OF assms(1,2)] assms(3) by auto
  then obtain t where t: "j = JObject t" by (cases j) auto
  have "json_ok (JObject t)" using j(2) t by (simp add: json_text_ok_def)
  from property_of_abs [OF this] j(3) this show ?thesis using j(1) t by (auto simp del: json_ok.simps jabs.simps)
qed

lemma authorized_handled:
  assumes "enough_memory (de_json de)" "json_text_ok (de_json de) p" "jabs p = VObject f" "memcmp_ok (de_memcmp de)"
    "de_auth_mem de = []" "authorized (sv_api_key sv) f"
  shows "\<exists>c. full_access c \<and> handle_parsed de sv [Request i meth (Some (render (env_format (de_json de)) p))] 1 s =
    process de sv (Some c) [Request i meth (Some (render (env_format (de_json de)) p))] s"
proof (cases "sv_api_key sv")
  case None
  obtain r m' where cr: "create_wildcard_auth_context [] MCP_AUTH_NONE (Some ''anonymous'') 0 = (r, m')" by fastforce
  then obtain c where "r = Some c" "full_access c" using create_wildcard_spec [OF cr] by (auto simp: full_access_def)
  then show ?thesis using None cr assms(5)
    by (auto simp: handle_parsed_def required_auth_type_def first_credentials_def mcp_auth_verify_def)
next
  case (Some key)
  then have key: "f ''apiKey'' = Some (VString key)" "0 < length key" "length key \<le> 1024" using assms(6) by (auto simp: authorized_def)
  obtain t where t: "parse_text (de_json de) (render (env_format (de_json de)) p) = Done (Some (JObject t))"
    "\<forall>x. map_option jabs (mcp_json_object_get_property (Some (JObject t)) x) = f x"
    using parsed_properties [OF assms(2,1,3)] by blast
  have "first_credentials (de_json de) (Some key) [Request i meth (Some (render (env_format (de_json de)) p))] 1 = Done (Some key)"
    using t(1) object_reader(2) [OF t(2) key(1)] key(2)
    by (auto simp: first_credentials_def required_auth_type_def parse_text_def mcp_json_get_string_def split: outcome.splits)
  moreover obtain rc ctx m' where v: "mcp_auth_verify (de_memcmp de) [] (Some key) MCP_AUTH_API_KEY (Some key) = (rc, ctx, m')"
    by (metis prod_cases3)
  moreover have "rc = 0" "\<exists>c. ctx = Some c \<and> full_access c"
    using verify_key [OF assms(4) refl, of "[]" key "Some key" rc ctx m'] v key(2,3) by auto
  ultimately show ?thesis using Some key(2) assms(5) by (auto simp: handle_parsed_def required_auth_type_def)
qed

text \<open>The client's call ends with an answer that can be read.\<close>

lemma answer_arrives:
  assumes a: "\<exists>r. mcp_json_parse_response env response = Done (Some \<lparr>resp_id = i, resp_error_code = MCP_ERROR_NONE,
      resp_error_message = None, resp_result = Some (render (env_format env) r)\<rparr>) \<and> jabs r = v"
    and st: "reachable st" "cl_phase st c = Sent i" "pending (cl_table st) i = Some q" "req_status q = PENDING_REQUEST_WAITING"
  shows "\<exists>st1 r. mcp_client_receive_callback env (Some response) (length response) st = Done (0, st1) \<and>
    cl_phase (enter_wait m c i st1) c = Finished i 0 \<and>
    out_result (cl_out (enter_wait m c i st1) c) = Some (render (env_format env) r) \<and> jabs r = v"
proof -
  obtain r where r: "mcp_json_parse_response env response = Done (Some \<lparr>resp_id = i, resp_error_code = MCP_ERROR_NONE,
      resp_error_message = None, resp_result = Some (render (env_format env) r)\<rparr>)" "jabs r = v" using a by blast
  have "response \<noteq> []" using r(1) by (rule response_text_nonempty)
  let ?r = "\<lparr>resp_id = i, resp_error_code = MCP_ERROR_NONE, resp_error_message = None, resp_result = Some (render (env_format env) r)\<rparr>"
  obtain st1 where d: "deliver ?r (st\<lparr>cl_received := cl_received st @ [?r]\<rparr>) = (0, st1)"
    "cl_phase (enter_wait m c i st1) c = Finished i 0"
    "cl_out (enter_wait m c i st1) c = \<lparr>out_result = resp_result ?r, out_code = MCP_ERROR_NONE, out_message = resp_error_message ?r\<rparr>"
    by (rule response_arrives [OF reachable_inv [OF st(1)] st(2-4), of ?r m]) simp_all
  then show ?thesis using r \<open>response \<noteq> []\<close> by (intro exI [of _ st1] exI [of _ r]) (simp add: mcp_client_receive_callback_def)
qed

text \<open>Claim C1.  A tool call works from end to end: the request \<open>mcp_client_send_request\<close> formats, given to
  the server's \<open>handle_message\<close> with a key the server accepts (or on a server without one), runs the tool
  on the arguments of the call; the response, given to the client's receive callback, makes the call
  return 0 with the print of an object that holds the content the tool returned and its error flag.\<close>

theorem tool_call_end_to_end:
  assumes env: "enough_memory (de_json de)" "de_items de 0 = de_json de" "me_json (de_msgs de 0) = de_json de" "calm (de_msgs de 0)"
      "memcmp_ok (de_memcmp de)" "de_auth_mem de = []"
    and sv: "sv = with_handlers srv sv0" "\<not> sv_gateway_mode sv0" "srv_tools_supported srv" "srv_tool_handler srv = Some tool_handler"
    and req: "unat i \<le> 2 ^ 53" "json_text_ok (de_json de) (JNumber (id_value i))" "json_text_ok (de_json de) p" "jabs p = VObject f"
      "f ''name'' = Some (VString name)" "authorized (sv_api_key sv0) f"
    and tool: "\<forall>args. map_option jabs args = f ''arguments'' \<longrightarrow> tool_handler name args s = (reply, s')"
      "tr_status reply = MCP_ERROR_NONE" "tr_content reply = Some items" "\<forall>x \<in> set items. item_ok x" "length items \<le> 2 ^ 12"
    and client: "reads_integers (env_strtod (de_json de))" "reachable st" "cl_phase st c = Sent i" "pending (cl_table st) i = Some q"
      "req_status q = PENDING_REQUEST_WAITING"
  shows "\<exists>msg response st1 r. client_request_text (de_json de) [] [] i (Some ''call_tool'') (Some (render (env_format (de_json de)) p)) = Done (Some msg) \<and>
    handle_message de True sv (Some msg) (length msg) s = Done ((MCP_ERROR_NONE, Some response), s') \<and>
    mcp_client_receive_callback (de_json de) (Some response) (length response) st = Done (0, st1) \<and>
    cl_phase (enter_wait m c i st1) c = Finished i 0 \<and>
    out_result (cl_out (enter_wait m c i st1) c) = Some (render (env_format (de_json de)) r) \<and>
    jabs r = VObject [''content'' \<mapsto> VArray (map item_value items), ''isError'' \<mapsto> VBool (tr_is_error reply)]"
proof -
  let ?env = "de_json de" and ?me = "de_msgs de 0"
  obtain t0 where "p = JObject t0" using req(4) by (cases p) auto
  then have po: "params_ok (Some p)" by (simp add: params_ok_def)
  obtain msg t g where m: "client_request_text ?env [] [] i (Some ''call_tool'') (Some (render (env_format ?env) p)) = Done (Some msg)"
    "peek (skip_whitespace msg) = CHR ''{''" "mcp_json_parse (env_strtod ?env) [] (Some msg) = Ok (JObject t)" "json_ok (JObject t)"
    "\<forall>x. map_option jabs (mcp_json_object_get_property (Some (JObject t)) x) = g x"
    "g ''id'' = Some (VNumber (id_value i))" "g ''method'' = Some (VString ''call_tool'')" "g ''params'' = Some (jabs p)"
    using client_request_object [OF env(1) client(1) req(1,2) _ _ _ req(3), of "''call_tool''"]
    by (auto simp: c_str_ok_def readable_text_def control_rejected_def escape_string_def escape_char_def)
  obtain p' where p': "mcp_json_parse_message_or_batch ?env (de_items de) msg = Done (0, Some [Request i ''call_tool'' (Some (render (env_format ?env) p'))], 1)"
    "json_text_ok ?env p'" "jabs p' = VObject f"
    using single_request_parsed [where envs = "de_items de", OF env(1) req(3) po _ m(3-8,2) env(2)] req(4) by auto
  let ?rq = "\<lparr>rq_id = i, rq_method = Some ''call_tool'', rq_params = Some (render (env_format ?env) p')\<rparr>"
  have key: "authorized (sv_api_key sv) f" using req(6) by (simp add: sv(1) with_handlers_def)
  obtain a where a: "full_access a" "handle_parsed de sv [Request i ''call_tool'' (rq_params ?rq)] 1 s =
      process de sv (Some a) [Request i ''call_tool'' (rq_params ?rq)] s"
    using authorized_handled [OF env(1) p'(2,3) env(5,6) key, of i "''call_tool''" s] by auto
  obtain pt where pt: "parse_text ?env (render (env_format ?env) p') = Done (Some (JObject pt))"
    "\<forall>x. map_option jabs (mcp_json_object_get_property (Some (JObject pt)) x) = f x"
    using parsed_properties [OF p'(2) env(1) p'(3)] by blast
  have nm: "extract_string_param (JObject pt) ''name'' = Some name"
    using object_reader(2) [OF pt(2) req(5)] by (simp add: extract_string_param_def mcp_json_get_string_def)
  have th: "tool_handler name (mcp_json_object_get_property (Some (JObject pt)) ''arguments'') s = (reply, s')" using tool(1) pt(2) by blast
  obtain response where r: "handle_call_tool_request srv ?me ?rq (Some a) s = Done ((MCP_ERROR_NONE, Some response), s')"
    "answers_with ?me i response (VObject [''content'' \<mapsto> VArray (map item_value items), ''isError'' \<mapsto> VBool (tr_is_error reply)])"
    using call_tool_read [OF env(4) _ refl sv(3) _ _ nm full_access_grants(1) [OF a(1)] sv(4) th tool(2-5), of ?rq] req(1) pt(1) env(3) by auto
  have "handle_request ?me sv ?rq (Some a) s = Done ((MCP_ERROR_NONE, Some response), s')"
    using r(1) sv(2) by (simp add: handle_request_def sv(1) with_handlers_def method_is_def)
  then have "process de sv (Some a) [Request i ''call_tool'' (rq_params ?rq)] s = Done ((MCP_ERROR_NONE, Some response), s')"
    by (simp add: process_def process_single_def answer_message_def add_response_def)
  moreover have "msg \<noteq> []" using m(2) by (auto simp: skip_whitespace_def)
  ultimately have "handle_message de True sv (Some msg) (length msg) s = Done ((MCP_ERROR_NONE, Some response), s')"
    using p'(1) a(2) by (simp add: handle_message_def)
  moreover obtain j st1 where "mcp_client_receive_callback ?env (Some response) (length response) st = Done (0, st1)"
    "cl_phase (enter_wait m c i st1) c = Finished i 0"
    "out_result (cl_out (enter_wait m c i st1) c) = Some (render (env_format ?env) j)"
    "jabs j = VObject [''content'' \<mapsto> VArray (map item_value items), ''isError'' \<mapsto> VBool (tr_is_error reply)]"
    using answer_arrives [OF r(2) [unfolded answers_with_def env(3)] client(2-5)] by blast
  ultimately show ?thesis using m(1) by blast
qed


theorem tool_call_end_to_end_witness:
  "\<exists>(p :: double json) st msg response st1 (r :: double json). reachable st \<and>
    client_request_text env_int [] [] 7 (Some ''call_tool'') (Some (render (\<lambda>_. ''7'') p)) = Done (Some msg) \<and>
    handle_message de_example True (with_handlers srv_example sv_example) (Some msg) (length msg) 0 = Done ((MCP_ERROR_NONE, Some response), 1) \<and>
    mcp_client_receive_callback env_int (Some response) (length response) st = Done (0, st1) \<and>
    cl_phase (enter_wait [] 6 7 st1) 6 = Finished 7 0 \<and>
    out_result (cl_out (enter_wait [] 6 7 st1) 6) = Some (render (\<lambda>_. ''7'') r) \<and>
    jabs r = VObject [''content'' \<mapsto> VArray [VObject [''type'' \<mapsto> VString ''text'', ''text'' \<mapsto> VString ''y'']], ''isError'' \<mapsto> VBool False]"
proof -
  let ?es = "[(''apiKey'', JString ''secret''), (''name'', JString ''add'')] :: (string \<times> double json) list"
  have b1: "built (and_on (mcp_json_object_create []) (\<lambda>m obj. add_string_property m obj ''name'' ''add'')) (tl ?es)"
    using built_add_string [OF built_create, of "''name''" "''add''"] by (simp add: c_str_ok_def)
  have "built (and_on (and_on (mcp_json_object_create []) (\<lambda>m obj. add_string_property m obj ''name'' ''add''))
      (\<lambda>m obj. add_string_property m obj ''apiKey'' ''secret'')) ?es"
    using built_add_string [OF b1, of "''apiKey''" "''secret''"] by (simp add: c_str_ok_def)
  then obtain t where t: "json_ok (JObject t)" "ht_map json_ops t = map_of ?es" unfolding built_def by blast
  have "\<forall>(k, v) \<in> set ?es. length k \<le> 20 \<and> sized env_int (2 ^ 31) 0 v"
    using sized_string [of "''secret''" env_int] sized_string [of "''add''" env_int] by (simp add: text_field_def c_str_ok_def)
  from sized_object [OF t _ _ this] have ok: "json_text_ok env_int (JObject t)" by (simp add: sized_text_ok)
  have inv: "ht_inv json_ops t" using t(1) by simp
  let ?f = "\<lambda>x. map_option jabs (map_of ?es x)"
  have abs: "jabs (JObject t) = VObject ?f" unfolding jabs_JObject [OF inv] t(2) ..
  have num: "json_text_ok env_int (JNumber (id_value 7))" using env_int(3) by (simp add: json_text_ok_def id_value_def)
  have de: "de_json de_example = env_int" "de_items de_example 0 = env_int" "de_msgs de_example 0 = me_example" "me_json me_example = env_int"
    "de_auth_mem de_example = []" "memcmp_ok (de_memcmp de_example)" "env_format env_int = (\<lambda>_. ''7'')"
    using memcmp_example by (simp_all add: de_example_def me_example_def env_int_def)
  have rep: "\<forall>args. map_option jabs args = ?f ''arguments'' \<longrightarrow> handler_example ''add'' args 0 = (reply_example, 1)"
    "tr_status reply_example = MCP_ERROR_NONE" "tr_content reply_example = Some [Some item_example]" "\<not> tr_is_error reply_example"
    by (simp_all add: handler_example_def reply_example_def)
  have sv: "\<not> sv_gateway_mode sv_example" "srv_tools_supported srv_example" "srv_tool_handler srv_example = Some handler_example"
    "authorized (sv_api_key sv_example) ?f"
    by (simp_all add: sv_example_def srv_example_def authorized_def)
  obtain st q where st: "reachable st" "cl_phase st 6 = Sent 7" "pending (cl_table st) 7 = Some q" "req_status q = PENDING_REQUEST_WAITING"
    using seventh_sent by blast
  have small: "length [Some item_example] \<le> 2 ^ 12" "unat (7 :: size_t) \<le> 2 ^ 53" "?f ''name'' = Some (VString ''add'')" by simp_all
  have r: "\<exists>msg response st1 r. client_request_text env_int [] [] 7 (Some ''call_tool'') (Some (render (\<lambda>_. ''7'') (JObject t))) = Done (Some msg) \<and>
    handle_message de_example True (with_handlers srv_example sv_example) (Some msg) (length msg) 0 = Done ((MCP_ERROR_NONE, Some response), 1) \<and>
    mcp_client_receive_callback env_int (Some response) (length response) st = Done (0, st1) \<and>
    cl_phase (enter_wait [] 6 7 st1) 6 = Finished 7 0 \<and>
    out_result (cl_out (enter_wait [] 6 7 st1) 6) = Some (render (\<lambda>_. ''7'') r) \<and>
    jabs r = VObject [''content'' \<mapsto> VArray (map item_value [Some item_example]), ''isError'' \<mapsto> VBool (tr_is_error reply_example)]"
    using tool_call_end_to_end [of de_example, unfolded de, OF env_int(1) refl refl calm_example de(6) [unfolded de] refl refl sv(1-3) small(2) num ok
      abs small(3) sv(4) rep(1-3) item_example(1) small(1) env_int(2) st] .
  have eqs: "map item_value [Some item_example] = [VObject [''type'' \<mapsto> VString ''text'', ''text'' \<mapsto> VString ''y'']]"
    "tr_is_error reply_example = False" using item_example(2) rep(4) by simp_all
  show ?thesis using r [unfolded eqs] st(1) by (intro exI [of _ "JObject t"] exI [of _ st]) simp
qed

end
